(* ===== verification/Prelude.thy ===== *)
theory Prelude
  imports Main "HOL-Library.Word" "HOL-Library.Multiset"
begin

text \<open>
  Shared vocabulary of the development: the widths of the C integer types, the reading of a
  NUL-terminated string, element swaps and block swaps on a list that stands for a C array,
  a ring-buffer view of a list, and the facts about them that several components use.
  The collections \<open>c_defs\<close> (definitions of the C-level helpers, unfolded by the component
  proofs) and \<open>ring_simps\<close> (rewriting of ring-buffer views) are filled here and in the
  components.
\<close>

unbundle bit_operations_syntax

named_theorems c_defs
named_theorems ring_simps

type_synonym u8 = "8 word"
type_synonym u16 = "16 word"
type_synonym u32 = "32 word"
type_synonym u64 = "64 word"

subsection \<open>C strings\<close>

text \<open>The bytes a C string function sees: everything before the first NUL.\<close>

definition c_str :: "string \<Rightarrow> string" where
  [c_defs]: "c_str s = takeWhile (\<lambda>c. c \<noteq> CHR 0x00) s"

definition strlen :: "string \<Rightarrow> nat" where
  [c_defs]: "strlen s = length (c_str s)"

text \<open>\<^verbatim>\<open>strcmp(a, b) == 0\<close>.\<close>

definition streq :: "string \<Rightarrow> string \<Rightarrow> bool" where
  [c_defs]: "streq a b \<longleftrightarrow> c_str a = c_str b"

text \<open>\<^verbatim>\<open>s[i]\<close> on a C string: reading at the terminator gives 0.\<close>

definition cat :: "string \<Rightarrow> nat \<Rightarrow> int" where
  "cat s i = (if i < length s then of_char (s ! i) else 0)"

lemma c_str_no_nul: "CHR 0x00 \<notin> set (c_str s)"
  by (auto simp: c_str_def dest: set_takeWhileD)

lemma c_str_id: "CHR 0x00 \<notin> set s \<Longrightarrow> c_str s = s"
  unfolding c_str_def by (induction s) auto

lemma c_str_idem [simp]: "c_str (c_str s) = c_str s"
  by (rule c_str_id) (rule c_str_no_nul)

lemma c_str_take: "c_str (take n (c_str s)) = take n (c_str s)"
  using c_str_no_nul [of s] by (intro c_str_id) (auto dest: in_set_takeD)

lemma c_str_take_le:
  assumes "k \<le> strlen s"
  shows "c_str (take k s) = take k s"
proof -
  have "c_str s = take (strlen s) s"
    unfolding strlen_def c_str_def by (rule takeWhile_eq_take)
  with assms have "take k s = take k (c_str s)"
    by (metis min.absorb1 take_take)
  then show ?thesis by (metis c_str_take)
qed

lemma strlen_le: "strlen s \<le> length s"
  by (simp add: strlen_def c_str_def length_takeWhile_le)

subsection \<open>Decimal notation\<close>

text \<open>What \<^verbatim>\<open>printf\<close> prints for \<^verbatim>\<open>%u\<close> and \<^verbatim>\<open>%d\<close>, and the reading of digits.\<close>

definition digit_char :: "nat \<Rightarrow> char" where
  "digit_char d = char_of (if d < 10 then 48 + d else 87 + d)"

fun radix_digits :: "nat \<Rightarrow> nat \<Rightarrow> string" where
  "radix_digits r n =
     (if n < r \<or> r < 2 then [digit_char n] else radix_digits r (n div r) @ [digit_char (n mod r)])"

declare radix_digits.simps [simp del]

abbreviation dec_digits :: "nat \<Rightarrow> string" where
  "dec_digits \<equiv> radix_digits 10"

definition show_int :: "int \<Rightarrow> string" where
  "show_int n = (if n < 0 then CHR ''-'' # dec_digits (nat (- n)) else dec_digits (nat n))"

definition digit_val :: "char \<Rightarrow> nat" where
  "digit_val c = (let n = of_char c in if n < 58 then n - 48 else n - 87)"

text \<open>The number a string of digits denotes in base \<open>r\<close>.\<close>

definition radix_value :: "nat \<Rightarrow> string \<Rightarrow> nat" where
  "radix_value r ds = foldl (\<lambda>n c. r * n + digit_val c) 0 ds"

lemma of_char_digit_char: "d < 36 \<Longrightarrow> of_char (digit_char d) = (if d < 10 then 48 + d else 87 + d)"
  by (simp add: digit_char_def)

lemma digit_val_char [simp]: "d < 36 \<Longrightarrow> digit_val (digit_char d) = d"
  by (simp add: digit_val_def of_char_digit_char)

lemma radix_value_snoc [simp]: "radix_value r (ds @ [c]) = r * radix_value r ds + digit_val c"
  by (simp add: radix_value_def)

lemma radix_digits_step:
  "2 \<le> r \<Longrightarrow> radix_digits r n = (if n < r then [digit_char n] else radix_digits r (n div r) @ [digit_char (n mod r)])"
  by (subst radix_digits.simps) simp

lemma radix_digits_nonempty [simp]: "radix_digits r n \<noteq> []"
  by (subst radix_digits.simps) simp

text \<open>Printing and reading back, in every base up to 36.\<close>

lemma radix_value_digits:
  assumes "2 \<le> r" and "r \<le> 36"
  shows "radix_value r (radix_digits r n) = n"
proof (induction n rule: less_induct)
  case (less n)
  show ?case
  proof (cases "n < r")
    case True
    with assms show ?thesis by (simp add: radix_digits_step radix_value_def)
  next
    case False
    have "n mod r < r" using assms by simp
    with assms have "n mod r < 36" by linarith
    with False assms less [of "n div r"] show ?thesis
      by (simp add: radix_digits_step [of r n])
  qed
qed

lemma set_radix_digits:
  assumes "2 \<le> r"
  shows "set (radix_digits r n) \<subseteq> digit_char ` {..<r}"
proof (induction n rule: less_induct)
  case (less n)
  show ?case
  proof (cases "n < r")
    case True
    with assms show ?thesis by (simp add: radix_digits_step)
  next
    case False
    with assms less [of "n div r"] show ?thesis
      by (simp add: radix_digits_step [of r n])
  qed
qed

subsection \<open>Ring buffers\<close>

text \<open>
  The live window of a ring buffer held in the list \<open>xs\<close>: \<open>n\<close> elements from position
  \<open>h\<close>, wrapping at the end of the list.
\<close>

definition ring :: "'a list \<Rightarrow> nat \<Rightarrow> nat \<Rightarrow> 'a list" where
  "ring xs h n = map (\<lambda>i. xs ! ((h + i) mod length xs)) [0..<n]"

lemma length_ring [simp]: "length (ring xs h n) = n"
  by (simp add: ring_def)

lemma ring_0 [ring_simps]: "ring xs h 0 = []"
  by (simp add: ring_def)

lemma ring_nth [ring_simps]: "i < n \<Longrightarrow> ring xs h n ! i = xs ! ((h + i) mod length xs)"
  by (simp add: ring_def)

lemma add_mod_inj:
  fixes h i j m :: nat
  assumes "i < m" and "j < m" and "(h + i) mod m = (h + j) mod m"
  shows "i = j"
proof (cases i j rule: linorder_cases)
  case less
  with assms(3) have "m dvd j - i"
    using mod_eq_dvd_iff_nat [of "h + i" "h + j" m] by simp
  with less assms(2) show ?thesis by (auto dest: dvd_imp_le)
next
  case greater
  with assms(3) have "m dvd i - j"
    using mod_eq_dvd_iff_nat [of "h + j" "h + i" m] by simp
  with greater assms(1) show ?thesis by (auto dest: dvd_imp_le)
qed

text \<open>Writing at the slot just past the window appends to it.\<close>

lemma ring_push [ring_simps]:
  assumes "n < length xs"
  shows "ring (xs[(h + n) mod length xs := x]) h (Suc n) = ring xs h n @ [x]"
proof -
  have pos: "0 < length xs" using assms by linarith
  have "xs[(h + n) mod length xs := x] ! ((h + i) mod length xs) = xs ! ((h + i) mod length xs)"
    if "i < n" for i
    using that assms add_mod_inj [of i "length xs" n h]
    by (subst nth_list_update_neq) auto
  then have eq: "map (\<lambda>i. xs[(h + n) mod length xs := x] ! ((h + i) mod length xs)) [0..<n] =
      map (\<lambda>i. xs ! ((h + i) mod length xs)) [0..<n]"
    by simp
  show ?thesis
    using pos by (simp add: ring_def eq)
qed

text \<open>Moving the head past the first element drops it.\<close>

lemma ring_pop [ring_simps]:
  assumes "0 < length xs"
  shows "ring xs ((h + 1) mod length xs) n = tl (ring xs h (Suc n))"
proof (rule nth_equalityI)
  show "length (ring xs ((h + 1) mod length xs) n) = length (tl (ring xs h (Suc n)))"
    by simp
next
  fix i assume "i < length (ring xs ((h + 1) mod length xs) n)"
  then have "i < n" by simp
  moreover have "((h + 1) mod length xs + i) mod length xs = (h + Suc i) mod length xs"
    by (simp add: mod_add_left_eq)
  ultimately show "ring xs ((h + 1) mod length xs) n ! i = tl (ring xs h (Suc n)) ! i"
    by (simp add: ring_def nth_tl del: upt_Suc)
qed

text \<open>Overwriting the slot under the head leaves the rest of the window alone.\<close>

lemma ring_update_head [ring_simps]:
  assumes "h < length xs" and "n < length xs"
  shows "ring (xs[h := y]) ((h + 1) mod length xs) n = ring xs ((h + 1) mod length xs) n"
proof -
  have "((h + 1) mod length xs + i) mod length xs \<noteq> h" if "i < n" for i
  proof
    assume "((h + 1) mod length xs + i) mod length xs = h"
    then have "(h + Suc i) mod length xs = (h + 0) mod length xs"
      using assms(1) by (simp add: mod_add_left_eq)
    with that assms(2) have "Suc i = 0"
      by (intro add_mod_inj [of "Suc i" "length xs" 0 h]) auto
    then show False by simp
  qed
  then have "xs[h := y] ! (((h + 1) mod length xs + i) mod length xs) =
      xs ! (((h + 1) mod length xs + i) mod length xs)" if "i < n" for i
    using that by (metis nth_list_update_neq)
  then show ?thesis
    by (simp add: ring_def)
qed

text \<open>A window is a prefix of the rotated list, so a full window is a permutation of it.\<close>

lemma ring_rotate: "n \<le> length xs \<Longrightarrow> ring xs h n = take n (rotate h xs)"
  by (rule nth_equalityI) (auto simp: ring_def nth_rotate)

lemma mset_rotate_list: "mset (rotate n xs) = mset xs"
  by (simp add: rotate_drop_take) (metis append_take_drop_id mset_append union_commute)

subsection \<open>Words\<close>

lemma of_nat_u64_inj:
  assumes "i < 2 ^ 64" and "j < 2 ^ 64" and "(of_nat i :: u64) = of_nat j"
  shows "i = j"
proof -
  have "unat (of_nat i :: u64) = unat (of_nat j :: u64)" using assms(3) by simp
  with assms(1,2) show ?thesis unfolding unat_of_nat by simp
qed

lemma unat_of_nat_id: "n < 2 ^ LENGTH('a) \<Longrightarrow> unat (of_nat n :: 'a :: len word) = n"
  by (simp add: unsigned_of_nat take_bit_nat_eq_self)

lemma unat_add_nat:
  fixes w :: "'a :: len word"
  assumes "unat w + n < 2 ^ LENGTH('a)"
  shows "unat (w + of_nat n) = unat w + n"
  using unat_of_nat_id [OF assms] by simp

lemma unat_bound: "unat (w :: 'a :: len word) < 2 ^ LENGTH('a)"
  by (rule unsigned_less)

lemma unat_drop: "unat (drop_bit k (c :: 'a :: len word)) = unat c div 2 ^ k"
  using unat_bound [of c] by (simp add: unsigned_drop_bit_eq drop_bit_eq_div [where ?'a = nat] take_bit_nat_eq_self)

lemma bit_high:
  assumes x: "unat (x :: 'a :: len word) < 2 ^ k" "bit x n"
  shows "n < k"
proof (rule ccontr)
  assume k: "\<not> n < k"
  have n: "n < LENGTH('a)" using bit_imp_le_length [OF x(2)] .
  have "(2 :: nat) ^ k \<le> 2 ^ n" using k by simp
  with x(1) have "unat x < 2 ^ n" by linarith
  then have "\<not> bit (unat x) n" by (simp add: bit_iff_odd)
  with x(2) show False by (simp add: bit_unsigned_iff n)
qed

text \<open>Setting bits above a small number adds them.\<close>

lemma or_high:
  assumes x: "unat (x :: 'a :: len word) < 2 ^ k" and m: "take_bit k m = 0"
  shows "x OR m = x + m"
proof (rule disjunctive_add [symmetric])
  fix n
  have "bit m n \<Longrightarrow> k \<le> n" using m by (metis bit_take_bit_iff bot_nat_0.extremum linorder_not_less bit_0_eq bot_apply bot_bool_def)
  then show "\<not> bit x n \<or> \<not> bit m n" using bit_high [OF x, of n] by auto
qed

lemma unat_take32: "unat (take_bit k (c :: 'a :: len word)) = unat c mod 2 ^ k" if "k \<le> LENGTH('a)"
  using that by (simp add: unsigned_take_bit_eq take_bit_eq_mod [where ?'a = nat])

lemma unat_small_add:
  fixes x m :: "'a :: len word"
  assumes "unat x + unat m < 2 ^ LENGTH('a)"
  shows "unat (x + m) = unat x + unat m"
  using assms by (simp add: unat_word_ariths)

end
