(* ===== verification/C_Heap.thy ===== *)
theory C_Heap
  imports Prelude
begin

text \<open>
  The part of the C library the host bindings use for memory: \<^verbatim>\<open>malloc\<close>,
  \<^verbatim>\<open>calloc\<close> and \<^verbatim>\<open>free\<close> of byte blocks. A pointer is a number, the null pointer is
  \<open>None\<close> of \<open>ptr option\<close>. Whether the next request fails is decided by an arbitrary
  function of the number of requests so far, so that every statement holds for every
  pattern of failing allocations. Freeing a pointer that is not allocated is undefined
  behaviour in C: the heap records it in \<open>bad_free\<close>, and the components prove that it
  stays false.
\<close>

type_synonym ptr = nat

record c_heap =
  blocks :: "ptr \<rightharpoonup> string"      \<comment> \<open>the live blocks and their bytes\<close>
  brk :: nat                     \<comment> \<open>number of requests so far; also the next fresh address\<close>
  oom :: "nat \<Rightarrow> bool"           \<comment> \<open>does the request with this number fail?\<close>
  bad_free :: bool               \<comment> \<open>a pointer that is not live was freed\<close>

definition malloc :: "string \<Rightarrow> c_heap \<Rightarrow> ptr option \<times> c_heap" where
  [c_defs]: "malloc bytes h =
     (if oom h (brk h) then (None, h\<lparr>brk := Suc (brk h)\<rparr>)
      else (Some (brk h), h\<lparr>blocks := (blocks h)(brk h \<mapsto> bytes), brk := Suc (brk h)\<rparr>))"

definition c_free :: "ptr option \<Rightarrow> c_heap \<Rightarrow> c_heap" where
  [c_defs]: "c_free p h =
     (case p of None \<Rightarrow> h
      | Some a \<Rightarrow> (if a \<in> dom (blocks h) then h\<lparr>blocks := (blocks h)(a := None)\<rparr>
                  else h\<lparr>bad_free := True\<rparr>))"

text \<open>
  \<^verbatim>\<open>realloc\<close>: a null pointer allocates; a failing request leaves the old block
  alone; otherwise the bytes move to the new block, cut or padded to the new size.
\<close>

definition c_realloc :: "ptr option \<Rightarrow> nat \<Rightarrow> c_heap \<Rightarrow> ptr option \<times> c_heap" where
  [c_defs]: "c_realloc p n h =
     (let old = (case p of None \<Rightarrow> [] | Some a \<Rightarrow> (case blocks h a of None \<Rightarrow> [] | Some b \<Rightarrow> b));
          new = take n (old @ replicate n (CHR 0x00))
      in if oom h (brk h) then (None, h\<lparr>brk := Suc (brk h)\<rparr>)
         else malloc new (c_free p h))"

text \<open>Addresses handed out so far lie below \<open>brk\<close>.\<close>

definition heap_ok :: "c_heap \<Rightarrow> bool" where
  "heap_ok h \<longleftrightarrow> (\<forall>a \<in> dom (blocks h). a < brk h) \<and> \<not> bad_free h"

lemma heap_ok_malloc: "heap_ok h \<Longrightarrow> heap_ok (snd (malloc bytes h))"
  unfolding heap_ok_def malloc_def by (auto intro: less_SucI)

lemma heap_ok_free:
  "heap_ok h \<Longrightarrow> (\<And>a. p = Some a \<Longrightarrow> a \<in> dom (blocks h)) \<Longrightarrow> heap_ok (c_free p h)"
  by (auto simp: heap_ok_def c_free_def split: option.splits)

lemma malloc_fresh: "heap_ok h \<Longrightarrow> malloc b h = (Some a, h') \<Longrightarrow> a \<notin> dom (blocks h)"
  by (auto simp: heap_ok_def malloc_def split: if_splits)

lemma malloc_dom:
  "malloc b h = (r, h') \<Longrightarrow> dom (blocks h') = set_option r \<union> dom (blocks h)"
  by (auto simp: malloc_def split: if_splits)

lemma malloc_block: "malloc b h = (Some a, h') \<Longrightarrow> blocks h' a = Some b"
  by (auto simp: malloc_def split: if_splits)

lemma malloc_other:
  "heap_ok h \<Longrightarrow> malloc b h = (r, h') \<Longrightarrow> c \<in> dom (blocks h) \<Longrightarrow> blocks h' c = blocks h c"
  by (auto simp: malloc_def heap_ok_def split: if_splits)

lemma free_None [simp]: "c_free None h = h"
  by (simp add: c_free_def)

lemma free_dom: "a \<in> dom (blocks h) \<Longrightarrow> dom (blocks (c_free (Some a) h)) = dom (blocks h) - {a}"
  by (auto simp: c_free_def)

lemma free_other: "c \<noteq> a \<Longrightarrow> blocks (c_free (Some a) h) c = blocks h c"
  by (simp add: c_free_def)

text \<open>Freeing a list of pointers, in order.\<close>

fun free_all :: "ptr option list \<Rightarrow> c_heap \<Rightarrow> c_heap" where
  "free_all [] h = h"
| "free_all (p # ps) h = free_all ps (c_free p h)"

lemma free_all_replicate_None [simp]: "free_all (replicate n None) h = h"
  by (induction n) simp_all

text \<open>The addresses in a list of pointers, null pointers left out.\<close>

abbreviation ptrs :: "ptr option list \<Rightarrow> ptr list" where
  "ptrs ps \<equiv> map the (filter (\<lambda>p. p \<noteq> None) ps)"

lemma free_all_ok:
  assumes "heap_ok h" and "distinct (ptrs ps)" and "set (ptrs ps) \<subseteq> dom (blocks h)"
  shows "heap_ok (free_all ps h) \<and> dom (blocks (free_all ps h)) = dom (blocks h) - set (ptrs ps)
    \<and> (\<forall>a. a \<notin> set (ptrs ps) \<longrightarrow> blocks (free_all ps h) a = blocks h a)"
  using assms
proof (induction ps arbitrary: h)
  case Nil
  then show ?case by simp
next
  case (Cons p ps)
  show ?case
  proof (cases p)
    case None
    with Cons show ?thesis by simp
  next
    case (Some a)
    from Cons.prems Some have a: "a \<in> dom (blocks h)" "a \<notin> set (ptrs ps)" by auto
    have "heap_ok (c_free p h)" using Cons.prems(1) a Some by (intro heap_ok_free) auto
    moreover have "set (ptrs ps) \<subseteq> dom (blocks (c_free p h))"
      using Cons.prems(3) a Some by (auto simp: free_dom)
    ultimately show ?thesis
      using Cons.IH [of "c_free p h"] Cons.prems(2) a Some
      by (auto simp: free_dom free_other)
  qed
qed

lemma realloc_dom:
  assumes "heap_ok h" and "set_option p \<subseteq> dom (blocks h)" and "c_realloc p n h = (r, h')"
  shows "heap_ok h'"
    and "r = None \<Longrightarrow> blocks h' = blocks h"
    and "r = Some a \<Longrightarrow> dom (blocks h') = insert a (dom (blocks h) - set_option p)
          \<and> a \<notin> dom (blocks h)"
proof -
  have f: "heap_ok (c_free p h)" "brk (c_free p h) = brk h" "oom (c_free p h) = oom h"
    using assms(1,2) heap_ok_free [of h p] by (auto simp: c_free_def split: option.splits)
  have d: "dom (blocks (c_free p h)) = dom (blocks h) - set_option p"
    using assms(2) by (auto simp: c_free_def split: option.splits)
  let ?new = "take n ((case p of None \<Rightarrow> [] | Some a \<Rightarrow> (case blocks h a of None \<Rightarrow> [] | Some b \<Rightarrow> b))
      @ replicate n (CHR 0x00))"
  consider "oom h (brk h)" "r = None" "h' = h\<lparr>brk := Suc (brk h)\<rparr>"
    | "\<not> oom h (brk h)" "malloc ?new (c_free p h) = (r, h')"
    using assms(3) by (simp add: c_realloc_def Let_def split: if_splits)
  then show "heap_ok h'" and "r = None \<Longrightarrow> blocks h' = blocks h"
    and "r = Some a \<Longrightarrow> dom (blocks h') = insert a (dom (blocks h) - set_option p)
          \<and> a \<notin> dom (blocks h)"
  proof (atomize (full), cases)
    case 1
    with assms(1) show "heap_ok h' \<and> (r = None \<longrightarrow> blocks h' = blocks h) \<and>
      (r = Some a \<longrightarrow> dom (blocks h') = insert a (dom (blocks h) - set_option p) \<and> a \<notin> dom (blocks h))"
      by (auto simp: heap_ok_def intro: less_SucI)
  next
    case 2
    then have r: "r = Some (brk h)" using f by (auto simp: malloc_def)
    moreover have "brk h \<notin> dom (blocks h)" using assms(1) by (auto simp: heap_ok_def)
    ultimately show "heap_ok h' \<and> (r = None \<longrightarrow> blocks h' = blocks h) \<and>
      (r = Some a \<longrightarrow> dom (blocks h') = insert a (dom (blocks h) - set_option p) \<and> a \<notin> dom (blocks h))"
      using heap_ok_malloc [OF f(1), of ?new] malloc_dom [OF 2(2)] 2(2) d by auto
  qed
qed

end
