(* ===== verification/Host_Queue.thy ===== *)
theory Host_Queue
  imports C_Heap
begin

text \<open>
  The bounded host request queue (src/qjs/c/qjs_host_queue.h and qjs_host_queue.c): a ring
  of 256 request slots through which a JavaScript host callback hands a request to the
  OCaml side. The theory has the request and queue structures, the five operations, the
  queue invariant with the ownership of the malloc'd payloads, a first-in first-out contract
  as a locale, and the interpretation of that locale on the ring.
\<close>

subsection \<open>Data\<close>

abbreviation MLQJS_MAX_OP_LEN :: nat where "MLQJS_MAX_OP_LEN \<equiv> 64"
abbreviation MLQJS_QUEUE_CAP :: nat where "MLQJS_QUEUE_CAP \<equiv> 256"

record mlqjs_request =
  rq_id :: u64
  operation :: string             \<comment> \<open>the bytes before the NUL of the 64-byte field\<close>
  payload :: "ptr option"
  payload_len :: nat

record mlqjs_host_queue =
  slots :: "mlqjs_request list"
  head :: nat
  tail :: nat
  count :: nat
  next_id :: u64

definition request_zero :: mlqjs_request where
  "request_zero = \<lparr>rq_id = 0, operation = [], payload = None, payload_len = 0\<rparr>"

definition queue_zero :: mlqjs_host_queue where
  "queue_zero = \<lparr>slots = replicate MLQJS_QUEUE_CAP request_zero, head = 0, tail = 0,
                 count = 0, next_id = 0\<rparr>"

subsection \<open>Operations\<close>

text \<open>\<^verbatim>\<open>memset\<close> to zero, then ids start at 1.\<close>

definition mlqjs_host_queue_init :: "mlqjs_host_queue \<Rightarrow> mlqjs_host_queue" where
  "mlqjs_host_queue_init q = queue_zero\<lparr>next_id := 1\<rparr>"

definition mlqjs_host_queue_destroy ::
  "mlqjs_host_queue \<Rightarrow> c_heap \<Rightarrow> mlqjs_host_queue \<times> c_heap" where
  "mlqjs_host_queue_destroy q h = (queue_zero, free_all (map payload (slots q)) h)"

text \<open>The operation name is copied up to its NUL and cut to 63 bytes; a null name is empty.\<close>

definition req_set ::
  "mlqjs_request \<Rightarrow> u64 \<Rightarrow> string option \<Rightarrow> ptr option \<Rightarrow> nat \<Rightarrow> mlqjs_request" where
  "req_set r i op pl n =
     (let op_len = (case op of Some s \<Rightarrow> strlen s | None \<Rightarrow> 0);
          op_len = (if op_len \<ge> MLQJS_MAX_OP_LEN then MLQJS_MAX_OP_LEN - 1 else op_len);
          src = (case op of Some s \<Rightarrow> s | None \<Rightarrow> [])
      in r\<lparr>rq_id := i, payload := pl, payload_len := n, operation := take op_len src\<rparr>)"

definition mlqjs_host_queue_push ::
  "mlqjs_host_queue \<Rightarrow> string option \<Rightarrow> ptr option \<Rightarrow> nat \<Rightarrow> c_heap
   \<Rightarrow> u64 \<times> mlqjs_host_queue \<times> c_heap" where
  "mlqjs_host_queue_push q op pl n h =
     (if count q \<ge> MLQJS_QUEUE_CAP then (0, q, c_free pl h)
      else
        let slot = tail q;
            i = next_id q;
            q = q\<lparr>next_id := i + 1\<rparr>;
            q = q\<lparr>slots := (slots q)[slot := req_set (slots q ! slot) i op pl n]\<rparr>;
            q = q\<lparr>tail := (tail q + 1) mod MLQJS_QUEUE_CAP\<rparr>
        in (i, q\<lparr>count := count q + 1\<rparr>, h))"

definition mlqjs_host_queue_take ::
  "mlqjs_host_queue \<Rightarrow> mlqjs_request \<Rightarrow> bool \<times> mlqjs_host_queue \<times> mlqjs_request" where
  "mlqjs_host_queue_take q out =
     (if count q = 0 then (False, q, out)
      else
        let src = slots q ! head q;
            out = req_set out (rq_id src) (Some (operation src)) (payload src) (payload_len src);
            src = src\<lparr>payload := None, payload_len := 0, rq_id := 0\<rparr>;
            q = q\<lparr>slots := (slots q)[head q := src]\<rparr>;
            q = q\<lparr>head := (head q + 1) mod MLQJS_QUEUE_CAP\<rparr>
        in (True, q\<lparr>count := count q - 1\<rparr>, out))"

definition mlqjs_host_queue_count :: "mlqjs_host_queue \<Rightarrow> nat" where
  "mlqjs_host_queue_count q = count q"

subsection \<open>Invariant and abstraction\<close>

text \<open>The live requests, oldest first.\<close>

definition q_list :: "mlqjs_host_queue \<Rightarrow> mlqjs_request list" where
  "q_list q = ring (slots q) (head q) (count q)"

text \<open>
  The operation field of a live request is a C string shorter than its buffer, so copying it
  out again (\<open>mlqjs_host_queue_take\<close>) gives the same string.
\<close>

definition op_ok :: "mlqjs_request \<Rightarrow> bool" where
  "op_ok r \<longleftrightarrow> length (operation r) < MLQJS_MAX_OP_LEN \<and> c_str (operation r) = operation r"

definition q_inv :: "mlqjs_host_queue \<Rightarrow> bool" where
  "q_inv q \<longleftrightarrow>
     length (slots q) = MLQJS_QUEUE_CAP \<and> head q < MLQJS_QUEUE_CAP \<and>
     count q \<le> MLQJS_QUEUE_CAP \<and> tail q = (head q + count q) mod MLQJS_QUEUE_CAP \<and>
     (\<forall>r \<in> set (q_list q). op_ok r) \<and>
     (\<forall>i < MLQJS_QUEUE_CAP. count q \<le> i \<longrightarrow>
        payload (slots q ! ((head q + i) mod MLQJS_QUEUE_CAP)) = None)"

lemma q_inv_cap: "q_inv q \<Longrightarrow> length (slots q) = MLQJS_QUEUE_CAP"
  by (simp add: q_inv_def)

lemma q_inv_dead:
  "q_inv q \<Longrightarrow> i < MLQJS_QUEUE_CAP \<Longrightarrow> count q \<le> i \<Longrightarrow>
   payload (slots q ! ((head q + i) mod MLQJS_QUEUE_CAP)) = None"
  by (simp add: q_inv_def)

lemma q_list_length: "length (q_list q) = count q"
  by (simp add: q_list_def)

lemma op_ok_req_set: "op_ok (req_set r i op pl n)"
  by (auto simp: op_ok_def req_set_def Let_def c_str_take_le split: option.splits)

text \<open>Every field is written, so the request does not depend on what the slot held.\<close>

lemma req_set_fresh: "req_set r i op pl n = req_set request_zero i op pl n"
  by (cases r) (simp add: req_set_def request_zero_def Let_def)

text \<open>Copying a well-formed request out of the queue copies all of it.\<close>

lemma req_set_copy:
  assumes "op_ok r"
  shows "req_set out (rq_id r) (Some (operation r)) (payload r) (payload_len r) = r"
proof -
  have "strlen (operation r) = length (operation r)"
    using assms by (simp add: op_ok_def strlen_def)
  with assms show ?thesis
    by (cases r, cases out) (simp add: req_set_def op_ok_def)
qed

lemma q_inv_init: "q_inv (mlqjs_host_queue_init q) \<and> q_list (mlqjs_host_queue_init q) = []"
  by (simp add: q_inv_def q_list_def mlqjs_host_queue_init_def queue_zero_def request_zero_def
      ring_simps)

lemma push_full:
  "count q \<ge> MLQJS_QUEUE_CAP \<Longrightarrow> mlqjs_host_queue_push q op pl n h = (0, q, c_free pl h)"
  by (simp add: mlqjs_host_queue_push_def)

text \<open>A push into a queue with room appends the request, under the next id.\<close>

lemma push_room:
  assumes inv: "q_inv q" and room: "count q < MLQJS_QUEUE_CAP"
    and push: "mlqjs_host_queue_push q op pl n h = (i, q', h')"
  shows "i = next_id q" and "h' = h" and "next_id q' = next_id q + 1"
    and "q_list q' = q_list q @ [req_set request_zero i op pl n]"
    and "count q' = count q + 1" and "q_inv q'"
proof -
  let ?r = "req_set request_zero (next_id q) op pl n"
  let ?s = "(slots q)[tail q := ?r]"
  have len: "length (slots q) = 256" and hd: "head q < 256"
    and tl: "tail q = (head q + count q) mod 256"
    using inv by (simp_all add: q_inv_def)
  have q': "q' = q\<lparr>slots := ?s, tail := (tail q + 1) mod 256, count := count q + 1,
      next_id := next_id q + 1\<rparr>"
    using push room by (auto simp: mlqjs_host_queue_push_def Let_def req_set_fresh [of "slots q ! tail q"])
  show "i = next_id q" "h' = h" using push room by (auto simp: mlqjs_host_queue_push_def Let_def)
  then show ql: "q_list q' = q_list q @ [req_set request_zero i op pl n]"
    using ring_push [of "count q" "slots q" "head q" ?r] room len tl
    by (simp add: q_list_def q')
  show "next_id q' = next_id q + 1" "count q' = count q + 1" by (simp_all add: q')
  have free: "payload (?s ! ((head q + j) mod 256)) = None" if "j < 256" "count q + 1 \<le> j" for j
  proof -
    have "(head q + j) mod 256 \<noteq> tail q"
      using that room tl add_mod_inj [of j 256 "count q" "head q"] by auto
    then show ?thesis using inv that by (simp add: q_inv_def)
  qed
  show "q_inv q'"
    using inv room free op_ok_req_set ql
    by (auto simp: q_inv_def q' tl mod_Suc_eq split: if_splits)
qed

lemma take_empty: "count q = 0 \<Longrightarrow> mlqjs_host_queue_take q out = (False, q, out)"
  by (simp add: mlqjs_host_queue_take_def)

text \<open>Taking from a queue that is not empty gives the oldest request, whole.\<close>

lemma take_nonempty:
  assumes inv: "q_inv q" and ne: "count q \<noteq> 0"
    and take: "mlqjs_host_queue_take q out = (ok, q', r)"
  shows "ok" and "q_list q = r # q_list q'" and "next_id q' = next_id q"
    and "count q' = count q - 1" and "q_inv q'"
proof -
  have len: "length (slots q) = 256" and hd: "head q < 256" and cnt: "count q \<le> 256"
    and tl: "tail q = (head q + count q) mod 256"
    using inv by (simp_all add: q_inv_def)
  let ?src = "(slots q ! head q)\<lparr>payload := None, payload_len := 0, rq_id := 0\<rparr>"
  have first: "q_list q ! 0 = slots q ! head q"
    using ne hd len by (simp add: q_list_def ring_simps)
  moreover have "q_list q ! 0 \<in> set (q_list q)"
    using ne q_list_length [of q] by (intro nth_mem) simp
  ultimately have "op_ok (slots q ! head q)"
    using inv by (auto simp: q_inv_def)
  then have q': "q' = q\<lparr>slots := (slots q)[head q := ?src], head := (head q + 1) mod 256,
      count := count q - 1\<rparr>" and r: "r = slots q ! head q" and ok
    using take ne by (auto simp: mlqjs_host_queue_take_def Let_def req_set_copy)
  then show ok by simp
  obtain m where m: "count q = Suc m" using ne by (cases "count q") auto
  have tl_eq: "q_list q' = List.tl (q_list q)"
    using ring_update_head [of "head q" "slots q" m ?src] ring_pop [of "slots q" "head q" m]
      hd len cnt m by (simp add: q_list_def q')
  show ql: "q_list q = r # q_list q'"
    using tl_eq first r m q_list_length [of q] by (cases "q_list q") auto
  show "next_id q' = next_id q" "count q' = count q - 1" by (simp_all add: q')
  have free: "payload (slots q' ! ((head q' + j) mod 256)) = None"
    if j: "j < 256" "m \<le> j" for j
  proof (cases "j = 255")
    case True
    have "(Suc (head q) mod 256 + 255) mod 256 = head q"
      using hd mod_add_left_eq [of "Suc (head q)" 256 255] by simp
    with True show ?thesis using hd len by (simp add: q')
  next
    case False
    have "(Suc (head q) mod 256 + j) mod 256 = (head q + Suc j) mod 256"
      by (simp add: mod_add_left_eq)
    moreover have "payload (slots q ! ((head q + Suc j) mod 256)) = None"
      using j False m by (intro q_inv_dead [OF inv]) simp_all
    moreover have "payload ((slots q)[head q := ?src] ! k) = None"
      if "payload (slots q ! k) = None" for k
      using that hd len by (cases "k = head q") simp_all
    ultimately show ?thesis by (simp add: q')
  qed
  have "(head q + Suc m) mod 256 = ((head q + 1) mod 256 + m) mod 256"
    by (simp add: mod_add_left_eq)
  then have "tail q' = (head q' + count q') mod 256"
    using tl m by (simp add: q')
  moreover have "\<forall>i<256. count q' \<le> i \<longrightarrow> payload (slots q' ! ((head q' + i) mod 256)) = None"
    using free m by (simp add: q')
  moreover have "\<forall>r \<in> set (q_list q'). op_ok r"
    using inv ql by (simp add: q_inv_def)
  ultimately show "q_inv q'"
    using len cnt by (simp add: q_inv_def) (simp add: q')
qed

subsection \<open>First in, first out: the contract as a locale\<close>

datatype 'i fifo_cmd = Push 'i | Pop

text \<open>
  Running a sequence of pushes and pops: the items the queue accepted, the items it handed
  out, and the final queue. A refused push and a pop of an empty queue leave no trace.
\<close>

fun fifo_run ::
  "('i \<Rightarrow> 'q \<Rightarrow> ('a \<times> 'q) option) \<Rightarrow> ('q \<Rightarrow> ('a \<times> 'q) option) \<Rightarrow> 'q \<Rightarrow> 'i fifo_cmd list
   \<Rightarrow> 'a list \<times> 'a list \<times> 'q" where
  "fifo_run psh pop q [] = ([], [], q)"
| "fifo_run psh pop q (Push x # cs) =
     (case psh x q of None \<Rightarrow> fifo_run psh pop q cs
      | Some (a, q') \<Rightarrow> (let (acc, dl, r) = fifo_run psh pop q' cs in (a # acc, dl, r)))"
| "fifo_run psh pop q (Pop # cs) =
     (case pop q of None \<Rightarrow> fifo_run psh pop q cs
      | Some (a, q') \<Rightarrow> (let (acc, dl, r) = fifo_run psh pop q' cs in (acc, a # dl, r)))"

locale bounded_fifo =
  fixes psh :: "'i \<Rightarrow> 'q \<Rightarrow> ('a \<times> 'q) option"
    and pop :: "'q \<Rightarrow> ('a \<times> 'q) option"
    and contents :: "'q \<Rightarrow> 'a list"
    and invar :: "'q \<Rightarrow> bool"
    and cap :: nat
  assumes psh_None: "invar q \<Longrightarrow> psh x q = None \<longleftrightarrow> length (contents q) \<ge> cap"
    and psh_Some: "invar q \<Longrightarrow> psh x q = Some (a, q') \<Longrightarrow> contents q' = contents q @ [a] \<and> invar q'"
    and pop_None: "invar q \<Longrightarrow> pop q = None \<longleftrightarrow> contents q = []"
    and pop_Some: "invar q \<Longrightarrow> pop q = Some (a, q') \<Longrightarrow> contents q = a # contents q' \<and> invar q'"
    and bounded: "invar q \<Longrightarrow> length (contents q) \<le> cap"
begin

lemma run_order:
  assumes "invar q" and "fifo_run psh pop q cs = (acc, dl, q')"
  shows "contents q @ acc = dl @ contents q' \<and> invar q' \<and> length (contents q') \<le> cap"
  using assms
proof (induction cs arbitrary: q acc dl q')
  case Nil
  then show ?case by (auto simp: bounded)
next
  case (Cons c cs)
  show ?case
  proof (cases c)
    case (Push x)
    show ?thesis
    proof (cases "psh x q")
      case None
      with Push Cons show ?thesis by simp
    next
      case (Some p)
      obtain a q1 where p: "p = (a, q1)" by (cases p)
      obtain acc1 where "fifo_run psh pop q1 cs = (acc1, dl, q')" "acc = a # acc1"
        using Cons.prems(2) Push Some p by (auto split: prod.splits)
      with Cons.IH [of q1 acc1 dl q'] psh_Some [of q x a q1] Cons.prems(1) Some p
      show ?thesis by simp
    qed
  next
    case Pop
    show ?thesis
    proof (cases "pop q")
      case None
      with Pop Cons show ?thesis by simp
    next
      case (Some p)
      obtain a q1 where p: "p = (a, q1)" by (cases p)
      obtain dl1 where "fifo_run psh pop q1 cs = (acc, dl1, q')" "dl = a # dl1"
        using Cons.prems(2) Pop Some p by (auto split: prod.splits)
      with Cons.IH [of q1 acc dl1 q'] pop_Some [of q a q1] Cons.prems(1) Some p
      show ?thesis by simp
    qed
  qed
qed

text \<open>Draining: as many pops as there are items hand all of them out, in order.\<close>

lemma drain:
  assumes "invar q"
  shows "\<exists>q'. fifo_run psh pop q (replicate (length (contents q)) Pop) = ([], contents q, q')
    \<and> contents q' = [] \<and> invar q'"
  using assms
proof (induction "contents q" arbitrary: q)
  case Nil
  then show ?case by (metis append_Nil fifo_run.simps(1) length_0_conv replicate_0)
next
  case (Cons a as)
  then obtain q1 where q1: "pop q = Some (a, q1)" "contents q1 = as" "invar q1"
    using pop_None [of q] pop_Some [of q] by (cases "pop q") fastforce+
  from Cons.hyps(1) [of q1] q1 show ?case
    by (auto simp: Cons.hyps(2) [symmetric])
qed

end

text \<open>The queue operations in the shape of the contract: a push is accepted when the count grows.\<close>

definition queue_push ::
  "string option \<times> ptr option \<times> nat \<Rightarrow> mlqjs_host_queue \<Rightarrow> (mlqjs_request \<times> mlqjs_host_queue) option" where
  "queue_push x q =
     (case x of (op, pl, n) \<Rightarrow>
        (let (i, q', h) = mlqjs_host_queue_push q op pl n
               \<lparr>blocks = Map.empty, brk = 0, oom = (\<lambda>_. False), bad_free = False\<rparr>
         in if count q < count q' then Some (req_set request_zero i op pl n, q') else None))"

definition queue_pop :: "mlqjs_host_queue \<Rightarrow> (mlqjs_request \<times> mlqjs_host_queue) option" where
  "queue_pop q =
     (let (ok, q', r) = mlqjs_host_queue_take q request_zero in if ok then Some (r, q') else None)"

interpretation hq: bounded_fifo queue_push queue_pop q_list q_inv MLQJS_QUEUE_CAP
proof (unfold_locales, goal_cases)
  case (1 q x)
  then show ?case
    by (cases x, cases "count q \<ge> MLQJS_QUEUE_CAP")
      (auto simp: queue_push_def push_full q_list_length split: prod.splits dest: push_room)
next
  case (2 q x a q')
  then show ?case
    by (cases x, cases "count q \<ge> MLQJS_QUEUE_CAP")
      (auto simp: queue_push_def push_full not_le split: prod.splits if_splits dest: push_room)
next
  case (3 q)
  then show ?case
    by (cases "count q = 0")
      (auto simp: queue_pop_def take_empty simp flip: q_list_length split: prod.splits
        dest: take_nonempty(1))
next
  case (4 q a q')
  then show ?case
    by (cases "count q = 0")
      (auto simp: queue_pop_def take_empty split: prod.splits if_splits dest: take_nonempty)
next
  case (5 q)
  then show ?case by (simp add: q_list_length q_inv_def)
qed

subsection \<open>Ownership of the payloads\<close>

definition owned :: "mlqjs_host_queue \<Rightarrow> ptr list" where
  "owned q = ptrs (map payload (q_list q))"

definition queue_owns :: "mlqjs_host_queue \<Rightarrow> c_heap \<Rightarrow> bool" where
  "queue_owns q h \<longleftrightarrow> q_inv q \<and> heap_ok h \<and> distinct (owned q) \<and> set (owned q) \<subseteq> dom (blocks h)"

text \<open>The payload pointers in all 256 slots are exactly those of the live requests.\<close>

lemma slots_payloads:
  assumes inv: "q_inv q"
  shows "mset (ptrs (map payload (slots q))) = mset (owned q)"
proof -
  have len: "length (slots q) = 256" and cnt: "count q \<le> 256"
    using inv by (simp_all add: q_inv_def)
  let ?rot = "rotate (head q) (slots q)"
  have split: "?rot = q_list q @ drop (count q) ?rot"
    using ring_rotate [of "count q" "slots q" "head q"] len cnt by (simp add: q_list_def)
  have none: "\<forall>r \<in> set (drop (count q) ?rot). payload r = None"
    using q_inv_dead [OF inv] len by (auto simp: in_set_conv_nth nth_rotate)
  have dead: "ptrs (map payload (drop (count q) ?rot)) = []"
    unfolding map_is_Nil_conv filter_empty_conv using none by auto
  have "mset (ptrs (map payload ?rot)) = mset (owned q)"
    by (subst split) (simp only: map_append filter_append dead owned_def append_Nil2)
  moreover have "mset (ptrs (map payload ?rot)) = mset (ptrs (map payload (slots q)))"
    by (simp add: mset_filter mset_map mset_rotate_list)
  ultimately show ?thesis by simp
qed

lemma slots_payloads_set:
  "q_inv q \<Longrightarrow> set (ptrs (map payload (slots q))) = set (owned q)"
  using slots_payloads [of q] by (metis set_mset_mset)

lemma slots_payloads_distinct:
  "q_inv q \<Longrightarrow> distinct (ptrs (map payload (slots q))) = distinct (owned q)"
  using slots_payloads [of q] by (metis mset_eq_imp_distinct_iff)

lemma owns_push:
  assumes own: "queue_owns q h" and a: "a \<in> dom (blocks h)" "a \<notin> set (owned q)"
    and push: "mlqjs_host_queue_push q op (Some a) n h = (i, q', h')"
  shows "queue_owns q' h'"
    and "count q < MLQJS_QUEUE_CAP \<Longrightarrow> owned q' = owned q @ [a] \<and> h' = h"
    and "MLQJS_QUEUE_CAP \<le> count q \<Longrightarrow> q' = q \<and> i = 0 \<and> a \<notin> dom (blocks h')"
proof -
  have inv: "q_inv q" using own by (simp add: queue_owns_def)
  have room: "owned q' = owned q @ [a] \<and> h' = h \<and> q_inv q'" if "count q < MLQJS_QUEUE_CAP"
    using push_room [OF inv that push] by (simp add: owned_def req_set_def Let_def)
  have full: "q' = q \<and> i = 0 \<and> h' = c_free (Some a) h" if "MLQJS_QUEUE_CAP \<le> count q"
    using push push_full [OF that] by simp
  show "count q < MLQJS_QUEUE_CAP \<Longrightarrow> owned q' = owned q @ [a] \<and> h' = h"
    using room by simp
  show "MLQJS_QUEUE_CAP \<le> count q \<Longrightarrow> q' = q \<and> i = 0 \<and> a \<notin> dom (blocks h')"
    using full free_dom [OF a(1)] by auto
  show "queue_owns q' h'"
  proof (cases "count q < MLQJS_QUEUE_CAP")
    case True
    with room own a show ?thesis by (auto simp: queue_owns_def)
  next
    case False
    with full own a free_dom [OF a(1)] heap_ok_free [of h "Some a"]
    show ?thesis by (auto simp: queue_owns_def)
  qed
qed

lemma owns_take:
  assumes own: "queue_owns q h" and take: "mlqjs_host_queue_take q out = (True, q', r)"
  shows "queue_owns q' h" and "owned q = ptrs [payload r] @ owned q'"
proof -
  have inv: "q_inv q" and ne: "count q \<noteq> 0"
    using own take take_empty [of q out] by (auto simp: queue_owns_def)
  note t = take_nonempty [OF inv ne take]
  show *: "owned q = ptrs [payload r] @ owned q'"
    using t(2) by (simp add: owned_def)
  show "queue_owns q' h"
    using own t(5) * by (auto simp: queue_owns_def)
qed

subsection \<open>Reachable queues and their request ids\<close>

inductive queue_reach :: "mlqjs_host_queue \<Rightarrow> bool" where
  reach_init: "queue_reach (mlqjs_host_queue_init q)"
| reach_push: "queue_reach q \<Longrightarrow> mlqjs_host_queue_push q op pl n h = (i, q', h') \<Longrightarrow> queue_reach q'"
| reach_take: "queue_reach q \<Longrightarrow> mlqjs_host_queue_take q out = (ok, q', r) \<Longrightarrow> queue_reach q'"

text \<open>The ids of the live requests count up to the next id (in 64-bit arithmetic).\<close>

definition ids_ok :: "mlqjs_host_queue \<Rightarrow> bool" where
  "ids_ok q \<longleftrightarrow>
     map rq_id (q_list q) = map (\<lambda>k. next_id q - of_nat (count q) + of_nat k) [0..<count q]"

lemma ids_ok_push:
  assumes inv: "q_inv q" and ids: "ids_ok q"
    and push: "mlqjs_host_queue_push q op pl n h = (i, q', h')"
  shows "ids_ok q'"
proof (cases "count q \<ge> MLQJS_QUEUE_CAP")
  case True
  then show ?thesis using push push_full ids by auto
next
  case False
  note p = push_room [OF inv _ push]
  show ?thesis
    using False p ids by (simp add: ids_ok_def req_set_def Let_def algebra_simps)
qed

lemma ids_ok_take:
  assumes inv: "q_inv q" and ids: "ids_ok q"
    and take: "mlqjs_host_queue_take q out = (ok, q', r)"
  shows "ids_ok q'"
proof (cases "count q = 0")
  case True
  then show ?thesis using take take_empty ids by auto
next
  case False
  then obtain m where m: "count q = Suc m" by (cases "count q") auto
  note t = take_nonempty [OF inv False take]
  have "map rq_id (q_list q') = tl (map rq_id (q_list q))" using t(2) by simp
  also have "\<dots> = map (\<lambda>k. next_id q - of_nat (Suc m) + of_nat (Suc k)) [0..<m]"
    using ids m by (simp add: ids_ok_def map_tl [symmetric] map_Suc_upt [symmetric] o_def del: upt_Suc of_nat_Suc)
  finally show ?thesis using t m by (simp add: ids_ok_def algebra_simps)
qed

lemma reach_inv: "queue_reach q \<Longrightarrow> q_inv q \<and> ids_ok q"
proof (induction rule: queue_reach.induct)
  case (reach_init q)
  then show ?case
    using q_inv_init [of q] by (simp add: ids_ok_def) (simp add: mlqjs_host_queue_init_def queue_zero_def)
next
  case (reach_push q op pl n h i q' h')
  then show ?case
    by (metis ids_ok_push push_full push_room(6) not_le prod.inject)
next
  case (reach_take q out ok q' r)
  then show ?case
    by (metis ids_ok_take take_empty take_nonempty(5) prod.inject)
qed

lemma ids_ok_distinct: "ids_ok q \<Longrightarrow> q_inv q \<Longrightarrow> distinct (map rq_id (q_list q))"
  unfolding ids_ok_def q_inv_def
  by (auto simp: distinct_map inj_on_def intro!: of_nat_u64_inj)

subsection \<open>Properties\<close>

text \<open>
  C3. First in, first out under every interleaving. Start from a freshly initialised queue and
  run any sequence of pushes and takes: the requests handed out, followed by the requests
  still queued, are the requests accepted, in the order they were accepted; nothing is lost,
  duplicated or reordered, and never more than 256 requests are queued.
\<close>

theorem host_queue_fifo:
  "case fifo_run queue_push queue_pop (mlqjs_host_queue_init q0) cs of (acc, dl, q) \<Rightarrow>
     acc = dl @ q_list q \<and> q_inv q \<and> length (q_list q) \<le> MLQJS_QUEUE_CAP"
proof -
  obtain acc dl q where
    run: "fifo_run queue_push queue_pop (mlqjs_host_queue_init q0) cs = (acc, dl, q)"
    by (rule prod_cases3)
  then show ?thesis
    using hq.run_order [OF q_inv_init [THEN conjunct1] run] q_inv_init [of q0] by simp
qed

text \<open>
  Overload and ownership. Let the queue own its payloads (all live requests point to
  distinct allocated blocks) and push a request with a freshly allocated payload \<open>a\<close>. If
  there is room, the queue takes \<open>a\<close> over behind the others and the heap is untouched; if
  the queue is full, it stays as it is, the returned id is 0 and \<open>a\<close> has been freed, so
  the block is neither leaked nor freed twice.
\<close>

theorem host_queue_push_ownership:
  assumes "queue_owns q h" and "a \<in> dom (blocks h)" and "a \<notin> set (owned q)"
    and "mlqjs_host_queue_push q op (Some a) n h = (i, q', h')"
  shows "queue_owns q' h' \<and>
    (if count q < MLQJS_QUEUE_CAP then owned q' = owned q @ [a] \<and> h' = h
     else q' = q \<and> i = 0 \<and> a \<notin> dom (blocks h'))"
  using owns_push [OF assms] by simp

definition sample_heap :: c_heap where
  "sample_heap = \<lparr>blocks = [0 \<mapsto> ''42''], brk = 1, oom = (\<lambda>_. False), bad_free = False\<rparr>"

lemma sample_heap_owns: "queue_owns (mlqjs_host_queue_init queue_zero) sample_heap"
  using q_inv_init [of queue_zero]
  by (simp add: queue_owns_def owned_def) (simp add: sample_heap_def heap_ok_def)

theorem host_queue_push_ownership_witness:
  "\<exists>i q' h'. mlqjs_host_queue_push (mlqjs_host_queue_init queue_zero) (Some ''kv.get'') (Some 0) 2
       sample_heap = (i, q', h') \<and> queue_owns q' h' \<and> owned q' = [0]"
proof -
  let ?q = "mlqjs_host_queue_init queue_zero"
  have own: "owned ?q = []" using q_inv_init [of queue_zero] by (simp add: owned_def)
  have cnt: "count ?q < 256" by (simp add: mlqjs_host_queue_init_def queue_zero_def)
  have a: "0 \<in> dom (blocks sample_heap)" "0 \<notin> set (owned ?q)"
    using own by (simp_all add: sample_heap_def)
  obtain i q' h' where p: "mlqjs_host_queue_push ?q (Some ''kv.get'') (Some 0) 2 sample_heap = (i, q', h')"
    by (rule prod_cases3)
  from host_queue_push_ownership [OF sample_heap_owns a p] cnt own p show ?thesis by auto
qed

text \<open>
  Teardown frees exactly what the queue owns. Destroying a queue that owns its payloads
  frees every live payload once and nothing else (no pointer that is not allocated is freed),
  and leaves an empty queue whose slots are all zero.
\<close>

theorem host_queue_destroy_frees_owned:
  assumes "queue_owns q h" and "mlqjs_host_queue_destroy q h = (q', h')"
  shows "heap_ok h' \<and> dom (blocks h') = dom (blocks h) - set (owned q) \<and> q' = queue_zero"
  using assms free_all_ok [of h "map payload (slots q)"]
    slots_payloads_set [of q] slots_payloads_distinct [of q]
  by (auto simp: mlqjs_host_queue_destroy_def queue_owns_def)

theorem host_queue_destroy_frees_owned_witness:
  "\<exists>q' h'. mlqjs_host_queue_destroy (mlqjs_host_queue_init queue_zero) sample_heap = (q', h') \<and>
     heap_ok h' \<and> q' = queue_zero"
proof -
  obtain q' h' where p: "mlqjs_host_queue_destroy (mlqjs_host_queue_init queue_zero) sample_heap = (q', h')"
    by fastforce
  from host_queue_destroy_frees_owned [OF sample_heap_owns p] p show ?thesis by auto
qed

text \<open>
  Request ids. In every queue reachable by initialisation, pushes and takes, the ids of
  the queued requests are the consecutive 64-bit numbers ending just before the next id, and
  are pairwise different: no two queued requests can be confused.
\<close>

theorem host_queue_ids_distinct:
  assumes "queue_reach q"
  shows "map rq_id (q_list q) = map (\<lambda>k. next_id q - of_nat (count q) + of_nat k) [0..<count q]
    \<and> distinct (map rq_id (q_list q))"
  using reach_inv [OF assms] ids_ok_distinct [of q] by (simp add: ids_ok_def)

theorem host_queue_ids_distinct_witness:
  "queue_reach (mlqjs_host_queue_init queue_zero) \<and>
   distinct (map rq_id (q_list (mlqjs_host_queue_init queue_zero)))"
  using queue_reach.reach_init [of queue_zero]
    host_queue_ids_distinct [OF queue_reach.reach_init [of queue_zero]] by blast

end
