(* ===== verification/Allocator.thy ===== *)
theory Allocator
  imports C_Heap
begin

text \<open>
  The invocation-owned allocator of the engine (src/qjs/c/qjs_allocator.c): the accounting
  state, the three allocator callbacks QuickJS calls, and the accessors. The callbacks keep
  two sets of books: QuickJS's own \<^verbatim>\<open>JSMallocState\<close> and, reached through its opaque pointer,
  the invocation's \<^verbatim>\<open>mlqjs_alloc_state\<close>. All counters are 64-bit.
\<close>

record mlqjs_alloc_state =
  limit :: u64
  used :: u64
  peak :: u64
  alloc_count :: u64

text \<open>\<open>opaque = None\<close> stands for a null opaque pointer.\<close>

record js_malloc_state =
  malloc_count :: u64
  malloc_size :: u64
  malloc_limit :: u64
  opaque :: "mlqjs_alloc_state option"

text \<open>A block of \<open>n\<close> bytes, at least one.\<close>

abbreviation block :: "nat \<Rightarrow> string" where
  "block n \<equiv> replicate (if n = 0 then 1 else n) (CHR 0x00)"

definition mlqjs_malloc ::
  "js_malloc_state \<Rightarrow> u64 \<Rightarrow> c_heap \<Rightarrow> ptr option \<times> js_malloc_state \<times> c_heap" where
  "mlqjs_malloc s sz h =
     (let (p, h) = malloc (block (unat sz)) h in
      case p of None \<Rightarrow> (None, s, h)
      | Some a \<Rightarrow>
          let s = (case opaque s of None \<Rightarrow> s
                   | Some st \<Rightarrow>
                       let st = st\<lparr>used := used st + sz, alloc_count := alloc_count st + 1\<rparr>;
                           st = (if used st > peak st then st\<lparr>peak := used st\<rparr> else st)
                       in s\<lparr>opaque := Some st\<rparr>)
          in (Some a, s\<lparr>malloc_count := malloc_count s + 1, malloc_size := malloc_size s + sz\<rparr>, h))"

definition mlqjs_free :: "js_malloc_state \<Rightarrow> ptr option \<Rightarrow> c_heap \<Rightarrow> js_malloc_state \<times> c_heap" where
  "mlqjs_free s p h = (s, (if p \<noteq> None then c_free p h else h))"

definition mlqjs_realloc ::
  "js_malloc_state \<Rightarrow> ptr option \<Rightarrow> u64 \<Rightarrow> c_heap \<Rightarrow> ptr option \<times> js_malloc_state \<times> c_heap" where
  "mlqjs_realloc s p sz h =
     (let (r, h) = c_realloc p (if sz = 0 then 1 else unat sz) h in
      case r of None \<Rightarrow> (None, s, h)
      | Some a \<Rightarrow>
          (Some a, s\<lparr>malloc_count := malloc_count s + 1, malloc_size := malloc_size s + sz\<rparr>, h))"

definition mlqjs_init_malloc :: "js_malloc_state \<Rightarrow> js_malloc_state" where
  "mlqjs_init_malloc s = \<lparr>malloc_count = 0, malloc_size = 0, malloc_limit = 0, opaque = None\<rparr>"

text \<open>The table of callbacks; the usable-size callback is null.\<close>

record js_malloc_functions =
  js_malloc :: "js_malloc_state \<Rightarrow> u64 \<Rightarrow> c_heap \<Rightarrow> ptr option \<times> js_malloc_state \<times> c_heap"
  js_free :: "js_malloc_state \<Rightarrow> ptr option \<Rightarrow> c_heap \<Rightarrow> js_malloc_state \<times> c_heap"
  js_realloc :: "js_malloc_state \<Rightarrow> ptr option \<Rightarrow> u64 \<Rightarrow> c_heap \<Rightarrow> ptr option \<times> js_malloc_state \<times> c_heap"
  js_malloc_usable_size :: "(ptr option \<Rightarrow> u64) option"

definition mlqjs_alloc_functions :: js_malloc_functions where
  "mlqjs_alloc_functions = \<lparr>js_malloc = mlqjs_malloc, js_free = mlqjs_free,
     js_realloc = mlqjs_realloc, js_malloc_usable_size = None\<rparr>"

text \<open>\<^verbatim>\<open>calloc\<close> of the state; a failed allocation aborts the process (\<open>None\<close>).\<close>

definition mlqjs_alloc_state_new :: "u64 \<Rightarrow> c_heap \<Rightarrow> ((ptr \<times> mlqjs_alloc_state) \<times> c_heap) option" where
  "mlqjs_alloc_state_new heap_limit h =
     (case malloc (block 32) h of (None, h) \<Rightarrow> None
      | (Some a, h) \<Rightarrow> Some ((a, \<lparr>limit = heap_limit, used = 0, peak = 0, alloc_count = 0\<rparr>), h))"

definition mlqjs_alloc_state_free :: "(ptr \<times> mlqjs_alloc_state) option \<Rightarrow> c_heap \<Rightarrow> c_heap" where
  "mlqjs_alloc_state_free st h = c_free (map_option fst st) h"

definition mlqjs_alloc_used :: "mlqjs_alloc_state option \<Rightarrow> u64" where
  "mlqjs_alloc_used st = (case st of None \<Rightarrow> 0 | Some s \<Rightarrow> used s)"

definition mlqjs_alloc_peak :: "mlqjs_alloc_state option \<Rightarrow> u64" where
  "mlqjs_alloc_peak st = (case st of None \<Rightarrow> 0 | Some s \<Rightarrow> peak s)"

definition mlqjs_alloc_count :: "mlqjs_alloc_state option \<Rightarrow> u64" where
  "mlqjs_alloc_count st = (case st of None \<Rightarrow> 0 | Some s \<Rightarrow> alloc_count s)"

subsection \<open>Sequences of allocator calls\<close>

text \<open>
  A client of the allocator: it names earlier results by their position (\<open>Free k\<close> and
  \<open>Realloc k n\<close> act on the \<open>k\<close>-th pointer it holds and do nothing when there is none).
\<close>

datatype alloc_call = Malloc u64 | Free nat | Realloc nat u64

fun alloc_step :: "js_malloc_state \<times> ptr list \<times> c_heap \<Rightarrow> alloc_call \<Rightarrow> js_malloc_state \<times> ptr list \<times> c_heap" where
  "alloc_step (s, held, h) (Malloc n) =
     (case mlqjs_malloc s n h of (r, s', h') \<Rightarrow>
        (s', (case r of None \<Rightarrow> held | Some a \<Rightarrow> held @ [a]), h'))"
| "alloc_step (s, held, h) (Free k) =
     (if k < length held
      then case mlqjs_free s (Some (held ! k)) h of (s', h') \<Rightarrow> (s', take k held @ drop (Suc k) held, h')
      else (s, held, h))"
| "alloc_step (s, held, h) (Realloc k n) =
     (if k < length held
      then case mlqjs_realloc s (Some (held ! k)) n h of (r, s', h') \<Rightarrow>
        (s', (case r of None \<Rightarrow> held | Some a \<Rightarrow> held[k := a]), h')
      else (s, held, h))"

text \<open>The pointers held are distinct live blocks.\<close>

definition alloc_inv :: "js_malloc_state \<times> ptr list \<times> c_heap \<Rightarrow> bool" where
  "alloc_inv w \<longleftrightarrow> (case w of (s, held, h) \<Rightarrow>
     heap_ok h \<and> distinct held \<and> set held \<subseteq> dom (blocks h) \<and>
     (\<forall>st. opaque s = Some st \<longrightarrow> used st \<le> peak st))"

lemma mlqjs_malloc_cases:
  assumes "mlqjs_malloc s n h = (r, s', h')"
  obtains "r = None" "s' = s" "malloc (block (unat n)) h = (None, h')"
  | a where "r = Some a" "malloc (block (unat n)) h = (Some a, h')"
      "malloc_count s' = malloc_count s + 1" "malloc_size s' = malloc_size s + n"
      "opaque s' = map_option (\<lambda>st. st\<lparr>used := used st + n, alloc_count := alloc_count st + 1,
          peak := max (peak st) (used st + n)\<rparr>) (opaque s)"
  using assms
  by (auto simp: mlqjs_malloc_def Let_def max_def split: prod.splits option.splits if_splits)

lemma alloc_inv_step:
  assumes "alloc_inv w"
  shows "alloc_inv (alloc_step w c)"
proof -
  obtain s held h where w: "w = (s, held, h)" by (cases w)
  have ok: "heap_ok h" "distinct held" "set held \<subseteq> dom (blocks h)"
    and pk: "\<And>st. opaque s = Some st \<Longrightarrow> used st \<le> peak st"
    using assms by (auto simp: alloc_inv_def w)
  show ?thesis
  proof (cases c)
    case (Malloc n)
    obtain r s' h' where m: "mlqjs_malloc s n h = (r, s', h')" by (rule prod_cases3)
    then show ?thesis
    proof (cases rule: mlqjs_malloc_cases)
      case 1
      with ok pk Malloc w m heap_ok_malloc [OF ok(1), of "block (unat n)"] malloc_dom [OF 1(3)]
      show ?thesis by (auto simp: alloc_inv_def)
    next
      case (2 a)
      have "a \<notin> set held" using malloc_fresh [OF ok(1) 2(2)] ok(3) by blast
      with 2 ok pk Malloc w m heap_ok_malloc [OF ok(1), of "block (unat n)"] malloc_dom [OF 2(2)]
      show ?thesis by (auto simp: alloc_inv_def)
    qed
  next
    case (Free k)
    show ?thesis
    proof (cases "k < length held")
      case True
      let ?a = "held ! k"
      have split: "held = take k held @ ?a # drop (Suc k) held"
        using True by (rule id_take_nth_drop)
      have "distinct (take k held @ ?a # drop (Suc k) held)"
        using ok(2) unfolding split [symmetric] .
      then have d: "?a \<notin> set (take k held @ drop (Suc k) held)"
        "distinct (take k held @ drop (Suc k) held)"
        by (simp_all only: distinct_append distinct.simps set_append) auto
      have a: "?a \<in> dom (blocks h)" using True ok(3) nth_mem by blast
      have sub: "set (take k held @ drop (Suc k) held) \<subseteq> set held"
        by (auto dest: in_set_takeD in_set_dropD)
      show ?thesis
        using True Free w d sub ok pk a free_dom [OF a] heap_ok_free [OF ok(1), of "Some ?a"]
        by (auto simp: alloc_inv_def mlqjs_free_def)
    qed (use Free w assms in simp)
  next
    case (Realloc k n)
    show ?thesis
    proof (cases "k < length held")
      case True
      let ?p = "Some (held ! k)" and ?n = "if n = 0 then 1 else unat n"
      obtain r h' where r: "c_realloc ?p ?n h = (r, h')" by (rule prod.exhaust)
      have a: "set_option ?p \<subseteq> dom (blocks h)" using True ok(3) nth_mem by auto
      note rd = realloc_dom [OF ok(1) a r]
      show ?thesis
      proof (cases r)
        case None
        with True Realloc w rd ok pk r show ?thesis
          by (auto simp: alloc_inv_def mlqjs_realloc_def)
      next
        case (Some b)
        have "b \<notin> set held" using rd(3) [OF Some] ok(3) by blast
        then have "distinct (held[k := b])" using ok(2) by (simp add: distinct_list_update)
        moreover have "set (held[k := b]) \<subseteq> insert b (set held - {held ! k})"
          using True ok(2) by (simp add: set_update_distinct)
        ultimately show ?thesis
          using True Realloc w rd(1) rd(3) [OF Some] ok pk r Some
          by (auto simp: alloc_inv_def mlqjs_realloc_def)
      qed
    qed (use Realloc w assms in simp)
  qed
qed

definition alloc_run :: "js_malloc_state \<times> ptr list \<times> c_heap \<Rightarrow> alloc_call list \<Rightarrow> js_malloc_state \<times> ptr list \<times> c_heap" where
  "alloc_run w cs = foldl alloc_step w cs"

lemma alloc_inv_run: "alloc_inv w \<Longrightarrow> alloc_inv (alloc_run w cs)"
  unfolding alloc_run_def by (induction cs arbitrary: w) (simp_all add: alloc_inv_step)

text \<open>
  The sizes of the malloc calls of a run that returned a block, and of its realloc calls that
  did. A request fails when the heap says so.
\<close>

fun granted :: "js_malloc_state \<times> ptr list \<times> c_heap \<Rightarrow> alloc_call list \<Rightarrow> u64 list" where
  "granted w [] = []"
| "granted w (c # cs) =
     (case (c, w) of (Malloc n, s, held, h) \<Rightarrow> if oom h (brk h) then [] else [n] | _ \<Rightarrow> []) @
     granted (alloc_step w c) cs"

fun regranted :: "js_malloc_state \<times> ptr list \<times> c_heap \<Rightarrow> alloc_call list \<Rightarrow> u64 list" where
  "regranted w [] = []"
| "regranted w (c # cs) =
     (case (c, w) of (Realloc k n, s, held, h) \<Rightarrow> if oom h (brk h) \<or> k \<ge> length held then [] else [n] | _ \<Rightarrow> []) @
     regranted (alloc_step w c) cs"

text \<open>One call: what it does to the two sets of books.\<close>

lemma alloc_step_books:
  fixes w :: "js_malloc_state \<times> ptr list \<times> c_heap"
  defines "g c \<equiv> granted w [c]" and "r c \<equiv> regranted w [c]"
  assumes "opaque (fst w) = Some st"
  shows "opaque (fst (alloc_step w c)) = Some (case g c of n # _ \<Rightarrow>
      st\<lparr>used := used st + n, alloc_count := alloc_count st + 1, peak := max (peak st) (used st + n)\<rparr> | [] \<Rightarrow> st)"
    and "malloc_size (fst (alloc_step w c)) = malloc_size (fst w) + sum_list (g c) + sum_list (r c)"
    and "malloc_count (fst (alloc_step w c)) = malloc_count (fst w) + of_nat (length (g c) + length (r c))"
proof -
  obtain s held h where w: "w = (s, held, h)" by (cases w)
  show "opaque (fst (alloc_step w c)) = Some (case g c of n # _ \<Rightarrow>
      st\<lparr>used := used st + n, alloc_count := alloc_count st + 1, peak := max (peak st) (used st + n)\<rparr> | [] \<Rightarrow> st)"
    and "malloc_size (fst (alloc_step w c)) = malloc_size (fst w) + sum_list (g c) + sum_list (r c)"
    and "malloc_count (fst (alloc_step w c)) = malloc_count (fst w) + of_nat (length (g c) + length (r c))"
    using assms(3) unfolding g_def r_def w
    by (cases c; auto simp: mlqjs_malloc_def mlqjs_free_def mlqjs_realloc_def c_realloc_def malloc_def c_free_def
        Let_def max_def split: option.splits prod.splits)+
qed

lemma granted_Cons: "granted w (c # cs) = granted w [c] @ granted (alloc_step w c) cs"
  and regranted_Cons: "regranted w (c # cs) = regranted w [c] @ regranted (alloc_step w c) cs"
  by simp_all

lemma granted_one: "granted w [c] = [] \<or> (\<exists>n. granted w [c] = [n])"
  by (cases w; cases c) simp_all

lemma alloc_run_books:
  assumes "opaque (fst w) = Some st"
  shows "\<exists>st'. opaque (fst (alloc_run w cs)) = Some st' \<and> limit st' = limit st \<and>
    used st' = used st + sum_list (granted w cs) \<and>
    alloc_count st' = alloc_count st + of_nat (length (granted w cs)) \<and>
    malloc_size (fst (alloc_run w cs)) = malloc_size (fst w) + sum_list (granted w cs) + sum_list (regranted w cs) \<and>
    malloc_count (fst (alloc_run w cs)) = malloc_count (fst w) + of_nat (length (granted w cs) + length (regranted w cs)) \<and>
    (used st \<le> peak st \<and> uint (used st) + sum_list (map uint (granted w cs)) < 2 ^ 64 \<longrightarrow>
       used st \<le> used st' \<and> peak st' = max (peak st) (used st'))"
  using assms
proof (induction cs arbitrary: w st)
  case Nil
  then show ?case by (auto simp: alloc_run_def max_def)
next
  case (Cons c cs)
  have run: "alloc_run w (c # cs) = alloc_run (alloc_step w c) cs" by (simp add: alloc_run_def)
  note b = alloc_step_books [OF Cons.prems, of c]
  from granted_one [of w c] show ?case
  proof
    assume e: "granted w [c] = []"
    then have o: "opaque (fst (alloc_step w c)) = Some st" using b(1) by simp
    show ?thesis unfolding run granted_Cons [of w c cs] regranted_Cons [of w c cs] e
      using Cons.IH [OF o] b(2,3) e by (simp add: algebra_simps)
  next
    assume "\<exists>n. granted w [c] = [n]"
    then obtain n where n: "granted w [c] = [n]" by blast
    let ?st = "st\<lparr>used := used st + n, alloc_count := alloc_count st + 1, peak := max (peak st) (used st + n)\<rparr>"
    have o: "opaque (fst (alloc_step w c)) = Some ?st" using b(1) n by simp
    obtain st' where ih: "opaque (fst (alloc_run (alloc_step w c) cs)) = Some st'" "limit st' = limit st"
      "used st' = used st + n + sum_list (granted (alloc_step w c) cs)"
      "alloc_count st' = alloc_count st + 1 + of_nat (length (granted (alloc_step w c) cs))"
      "malloc_size (fst (alloc_run (alloc_step w c) cs)) = malloc_size (fst (alloc_step w c)) +
        sum_list (granted (alloc_step w c) cs) + sum_list (regranted (alloc_step w c) cs)"
      "malloc_count (fst (alloc_run (alloc_step w c) cs)) = malloc_count (fst (alloc_step w c)) +
        of_nat (length (granted (alloc_step w c) cs) + length (regranted (alloc_step w c) cs))"
      "uint (used st + n) + sum_list (map uint (granted (alloc_step w c) cs)) < 2 ^ 64 \<Longrightarrow>
        used st + n \<le> used st' \<and> peak st' = max (max (peak st) (used st + n)) (used st')"
      using Cons.IH [OF o] by auto
    have tot: "used st \<le> used st' \<and> peak st' = max (peak st) (used st')"
      if t: "uint (used st) + sum_list (map uint (granted w (c # cs))) < 2 ^ 64"
    proof -
      let ?s = "sum_list (map uint (granted (alloc_step w c) cs))"
      have "0 \<le> ?s" by (induction "granted (alloc_step w c) cs") (auto intro!: sum_list_nonneg)
      moreover have "uint (used st) + uint n + ?s < 2 ^ 64" using t unfolding granted_Cons [of w c cs] n by simp
      ultimately have u: "uint (used st + n) = uint (used st) + uint n" "uint (used st) \<le> uint (used st + n)"
        by (simp_all add: uint_add_lem [THEN iffD1])
      have le: "used st \<le> used st + n" using u(2) by (simp only: word_le_def)
      have "uint (used st + n) + ?s < 2 ^ 64" using u(1) t unfolding granted_Cons [of w c cs] n by simp
      from ih(7) [OF this] le show ?thesis by (auto simp: max_def)
    qed
    show ?thesis
      using ih(1-6) tot b(2,3) n unfolding run regranted_Cons [of w c cs]
      by (intro exI [of _ st']) (simp add: algebra_simps granted_Cons [of w c cs])
  qed
qed

subsection \<open>Properties\<close>

text \<open>
  The allocator callbacks are memory-safe and their peak is a peak. Whatever sequence of
  malloc, free and realloc calls the engine makes, and whichever of them fail, the pointers it
  holds stay distinct live blocks, no block is freed twice, and the recorded peak is never
  below the recorded use.
\<close>

theorem allocator_calls_safe:
  assumes "alloc_inv w"
  shows "alloc_inv (alloc_run w cs)"
  using assms by (rule alloc_inv_run)

definition sample_alloc :: "js_malloc_state \<times> ptr list \<times> c_heap" where
  "sample_alloc = (\<lparr>malloc_count = 0, malloc_size = 0, malloc_limit = 0,
      opaque = Some \<lparr>limit = 16, used = 0, peak = 0, alloc_count = 0\<rparr>\<rparr>, [],
      \<lparr>blocks = Map.empty, brk = 0, oom = (\<lambda>k. k = 1), bad_free = False\<rparr>)"

theorem allocator_calls_safe_witness:
  "alloc_inv (alloc_run sample_alloc [Malloc 8, Malloc 8, Realloc 0 32, Free 0])"
  by (rule allocator_calls_safe) (simp add: sample_alloc_def alloc_inv_def heap_ok_def)

text \<open>
  C10. What the allocator's books count, for every sequence of malloc, free and realloc calls and
  every pattern of failing requests. The invocation's \<open>used\<close> grows by the sizes of the malloc
  calls that returned a block and \<open>alloc_count\<close> by their number; QuickJS's own counters grow by
  the sizes and the number of the malloc and realloc calls that returned one; all of this modulo
  $2^{64}$. Frees, failed requests and the limit change nothing, so that \<open>used\<close> is not what is in
  use: as long as the total does not wrap around, it never goes down, and the peak is the total.
\<close>

theorem allocator_books:
  assumes "opaque (fst w) = Some st"
  shows "\<exists>st'. opaque (fst (alloc_run w cs)) = Some st' \<and> limit st' = limit st \<and>
    used st' = used st + sum_list (granted w cs) \<and>
    alloc_count st' = alloc_count st + of_nat (length (granted w cs)) \<and>
    malloc_size (fst (alloc_run w cs)) = malloc_size (fst w) + sum_list (granted w cs) + sum_list (regranted w cs) \<and>
    malloc_count (fst (alloc_run w cs)) = malloc_count (fst w) + of_nat (length (granted w cs) + length (regranted w cs)) \<and>
    (used st \<le> peak st \<and> uint (used st) + sum_list (map uint (granted w cs)) < 2 ^ 64 \<longrightarrow>
       used st \<le> used st' \<and> peak st' = max (peak st) (used st'))"
  using assms by (rule alloc_run_books)

text \<open>The second request fails; the free and the realloc leave the invocation's counters alone.\<close>

theorem allocator_books_witness:
  "\<exists>st'. opaque (fst (alloc_run sample_alloc [Malloc 32, Malloc 8, Realloc 0 64, Free 0])) = Some st' \<and>
    limit st' = 16 \<and> used st' = 32 \<and> alloc_count st' = 1 \<and> peak st' = 32 \<and>
    malloc_size (fst (alloc_run sample_alloc [Malloc 32, Malloc 8, Realloc 0 64, Free 0])) = 96"
proof -
  have g: "granted sample_alloc [Malloc 32, Malloc 8, Realloc 0 64, Free 0] = [32]"
    "regranted sample_alloc [Malloc 32, Malloc 8, Realloc 0 64, Free 0] = [64]"
    by (simp_all add: sample_alloc_def mlqjs_malloc_def mlqjs_realloc_def malloc_def c_realloc_def c_free_def Let_def)
  have o: "opaque (fst sample_alloc) = Some \<lparr>limit = 16, used = 0, peak = 0, alloc_count = 0\<rparr>"
    "malloc_size (fst sample_alloc) = 0" by (simp_all add: sample_alloc_def)
  from allocator_books [OF o(1), of "[Malloc 32, Malloc 8, Realloc 0 64, Free 0]", unfolded g] o(2)
  show ?thesis by (auto simp del: alloc_step.simps)
qed

end
