(* ===== verification/Port.thy ===== *)
theory Port
  imports Prelude
begin

text \<open>
  The platform boundary (src/qjs/c/qjs_port.h): monotonic time, wall time, randomness and
  abort, in its Unix implementation (qjs_port_unix.c) and in its Solo5 implementation
  (qjs_port_solo5.c), which forwards to callbacks the unikernel installs. The results of the
  system calls and the callbacks themselves are parameters.
\<close>

text \<open>
  How a C function comes back: with a value, through the abort path with a message, or not in
  a defined way at all (a call through a null function pointer).
\<close>

datatype 'a outcome = Ret 'a | Aborted string | Null_call

subsection \<open>Unix\<close>

text \<open>\<^verbatim>\<open>struct timespec\<close> as \<^verbatim>\<open>clock_gettime\<close> fills it; \<open>None\<close> when the call fails.\<close>

type_synonym timespec = "u64 \<times> u64"

definition unix_abort :: "string option \<Rightarrow> 'a outcome" where
  "unix_abort reason = Aborted (case reason of Some r \<Rightarrow> r | None \<Rightarrow> ''(no reason)'')"

definition unix_monotonic_ns :: "timespec option \<Rightarrow> u64 outcome" where
  "unix_monotonic_ns ts =
     (case ts of None \<Rightarrow> unix_abort (Some ''mlqjs_monotonic_ns: clock_gettime failed'')
      | Some (sec, nsec) \<Rightarrow> Ret (sec * 1000000000 + nsec))"

text \<open>Signed 64-bit: the division truncates towards zero.\<close>

definition unix_wall_time_ms :: "timespec option \<Rightarrow> u64" where
  "unix_wall_time_ms ts =
     (case ts of None \<Rightarrow> 0
      | Some (sec, nsec) \<Rightarrow>
          sec * 1000 + word_of_int (sgn (sint nsec) * (\<bar>sint nsec\<bar> div 1000000)))"

text \<open>What successive \<^verbatim>\<open>read\<close> calls on \<^verbatim>\<open>/dev/urandom\<close> answer.\<close>

datatype read_result = Got "u8 list" | Interrupted | Failed | Eof

text \<open>
  The fill loop: \<open>got\<close> are the bytes stored so far. A read that returns more than was asked
  for does not exist; the model keeps the bytes that fit. The loop runs until it has the
  bytes or aborts; when the given answers run out first, it is still waiting (\<open>None\<close>). The
  result counts the calls of \<^verbatim>\<open>close\<close>.
\<close>

fun random_fill :: "nat \<Rightarrow> u8 list \<Rightarrow> read_result list \<Rightarrow> (u8 list outcome \<times> nat) option" where
  "random_fill len got rs =
     (if length got < len then
        (case rs of [] \<Rightarrow> None
         | Interrupted # rs' \<Rightarrow> random_fill len got rs'
         | Failed # _ \<Rightarrow> Some (unix_abort (Some ''mlqjs_random_bytes: read failed''), 1)
         | Eof # _ \<Rightarrow> Some (unix_abort (Some ''mlqjs_random_bytes: unexpected EOF''), 1)
         | Got bs # rs' \<Rightarrow> random_fill len (got @ take (len - length got) bs) rs')
      else Some (Ret got, 1))"

declare random_fill.simps [simp del]

definition unix_random_bytes :: "nat \<Rightarrow> bool \<Rightarrow> read_result list \<Rightarrow> (u8 list outcome \<times> nat) option" where
  "unix_random_bytes len open_ok rs =
     (if len = 0 then Some (Ret [], 0)
      else if \<not> open_ok then Some (unix_abort (Some ''mlqjs_random_bytes: cannot open /dev/urandom''), 0)
      else random_fill len [] rs)"

subsection \<open>Solo5\<close>

text \<open>The installed callbacks; a null pointer is \<open>None\<close>.\<close>

record mlqjs_platform =
  p_monotonic_ns :: "(unit \<Rightarrow> u64) option"
  p_wall_time_ms :: "(unit \<Rightarrow> u64) option"
  p_random_bytes :: "(nat \<Rightarrow> u8 list) option"
  p_abort :: "(string \<Rightarrow> string) option"

text \<open>The abort callback does not return; calling it through a null pointer is undefined.\<close>

definition call_abort :: "mlqjs_platform \<Rightarrow> string \<Rightarrow> 'a outcome" where
  "call_abort g msg = (case p_abort g of None \<Rightarrow> Null_call | Some f \<Rightarrow> Aborted (f msg))"

definition mlqjs_platform_init :: "mlqjs_platform \<Rightarrow> mlqjs_platform \<Rightarrow> mlqjs_platform outcome" where
  "mlqjs_platform_init g p =
     (let g = p in
      if p_monotonic_ns g = None \<or> p_abort g = None
      then call_abort g ''mlqjs_platform_init: required callbacks missing''
      else Ret g)"

definition solo5_monotonic_ns :: "mlqjs_platform \<Rightarrow> u64 outcome" where
  "solo5_monotonic_ns g = (case p_monotonic_ns g of None \<Rightarrow> Null_call | Some f \<Rightarrow> Ret (f ()))"

definition solo5_wall_time_ms :: "mlqjs_platform \<Rightarrow> u64 outcome" where
  "solo5_wall_time_ms g = (case p_wall_time_ms g of None \<Rightarrow> Ret 0 | Some f \<Rightarrow> Ret (f ()))"

definition solo5_random_bytes :: "mlqjs_platform \<Rightarrow> nat \<Rightarrow> u8 list outcome" where
  "solo5_random_bytes g len =
     (if p_random_bytes g = None \<or> len = 0 then
        if len = 0 then Ret []
        else call_abort g ''mlqjs_random_bytes: no crypto capability''
      else case p_random_bytes g of None \<Rightarrow> Null_call | Some f \<Rightarrow> Ret (f len))"

definition solo5_abort :: "mlqjs_platform \<Rightarrow> string option \<Rightarrow> 'a outcome" where
  "solo5_abort g reason = call_abort g (case reason of Some r \<Rightarrow> r | None \<Rightarrow> ''(no reason)'')"

subsection \<open>Lemmas\<close>

text \<open>The bytes a sequence of answers delivers.\<close>

definition received :: "read_result list \<Rightarrow> u8 list" where
  "received rs = concat (map (\<lambda>r. case r of Got bs \<Rightarrow> bs | _ \<Rightarrow> []) rs)"

definition healthy :: "read_result \<Rightarrow> bool" where
  "healthy r \<longleftrightarrow> r \<noteq> Failed \<and> r \<noteq> Eof"

lemma received_simps [simp]:
  "received [] = []" "received (Got bs # rs) = bs @ received rs"
  "received (Interrupted # rs) = received rs" "received (Failed # rs) = received rs"
  "received (Eof # rs) = received rs"
  by (simp_all add: received_def)

lemma random_fill_done: "\<not> length got < len \<Longrightarrow> random_fill len got rs = Some (Ret got, 1)"
  by (subst random_fill.simps) simp

lemma random_fill_more:
  assumes "length got < len"
  shows "random_fill len got [] = None"
    and "random_fill len got (Interrupted # rs) = random_fill len got rs"
    and "random_fill len got (Failed # rs) = Some (unix_abort (Some ''mlqjs_random_bytes: read failed''), 1)"
    and "random_fill len got (Eof # rs) = Some (unix_abort (Some ''mlqjs_random_bytes: unexpected EOF''), 1)"
    and "random_fill len got (Got bs # rs) = random_fill len (got @ take (len - length got) bs) rs"
  using assms by (subst random_fill.simps, simp)+

lemma take_append_take: "take n (xs @ take (n - length xs) ys @ zs) = take n (xs @ ys @ zs)"
  by (cases "length ys \<le> n - length xs") simp_all

text \<open>The loop returns as soon as the answers carry enough bytes, with the first \<open>len\<close> of them.\<close>

lemma random_fill_total:
  assumes "\<forall>r \<in> set rs. healthy r" and "length got \<le> len" and "len \<le> length got + length (received rs)"
  shows "random_fill len got rs = Some (Ret (take len (got @ received rs)), 1)"
  using assms
proof (induction rs arbitrary: got)
  case Nil
  then show ?case by (simp add: random_fill_done)
next
  case (Cons r rs)
  show ?case
  proof (cases "length got < len")
    case False
    with Cons.prems show ?thesis by (simp add: random_fill_done)
  next
    case True
    show ?thesis
    proof (cases r)
      case (Got bs)
      have "random_fill len (got @ take (len - length got) bs) rs =
          Some (Ret (take len ((got @ take (len - length got) bs) @ received rs)), 1)"
        using Cons.prems Got True by (intro Cons.IH) auto
      with True Got show ?thesis
        by (simp add: random_fill_more take_append_take del: take_append)
    qed (use True Cons in \<open>auto simp: random_fill_more healthy_def\<close>)
  qed
qed

text \<open>Whatever the answers are: a normal return means exactly \<open>len\<close> bytes, and every return closed the file.\<close>

lemma random_fill_exact:
  assumes "random_fill len got rs = Some (res, c)" and "length got \<le> len"
  shows "c = 1" and "res = Ret out \<Longrightarrow> out = take len (got @ received rs) \<and> length out = len"
    and "res \<noteq> Null_call"
proof -
  have "c = 1 \<and> (\<forall>out. res = Ret out \<longrightarrow> out = take len (got @ received rs) \<and> length out = len) \<and> res \<noteq> Null_call"
    using assms
  proof (induction rs arbitrary: got)
    case Nil
    then show ?case
      by (cases "length got < len") (auto simp: random_fill_more random_fill_done)
  next
    case (Cons r rs)
    show ?case
    proof (cases "length got < len")
      case False
      with Cons.prems show ?thesis by (auto simp: random_fill_done)
    next
      case True
      show ?thesis
      proof (cases r)
        case (Got bs)
        have "random_fill len (got @ take (len - length got) bs) rs = Some (res, c)"
          using Cons.prems True Got by (simp add: random_fill_more)
        moreover have "length (got @ take (len - length got) bs) \<le> len" using True by simp
        ultimately have "c = 1 \<and> (\<forall>out. res = Ret out \<longrightarrow>
            out = take len ((got @ take (len - length got) bs) @ received rs) \<and> length out = len) \<and>
            res \<noteq> Null_call"
          by (rule Cons.IH)
        then show ?thesis
          unfolding append_assoc take_append_take Got received_simps .
      qed (use True Cons in \<open>auto simp: random_fill_more unix_abort_def\<close>)
    qed
  qed
  then show "c = 1" and "res = Ret out \<Longrightarrow> out = take len (got @ received rs) \<and> length out = len"
    and "res \<noteq> Null_call" by auto
qed

subsection \<open>Properties\<close>

text \<open>
  Randomness is delivered whole or not at all. For a request of \<open>len > 0\<close> bytes with
  \<^verbatim>\<open>/dev/urandom\<close> open: if the reads deliver enough bytes, with any number of
  interruptions and any split into short reads but no failure, the call returns exactly the
  first \<open>len\<close> bytes delivered and has closed the file once.
\<close>

theorem unix_random_bytes_complete:
  assumes "0 < len" and "\<forall>r \<in> set rs. healthy r" and "len \<le> length (received rs)"
  shows "unix_random_bytes len True rs = Some (Ret (take len (received rs)), 1)"
  using assms random_fill_total [of rs "[]" len] by (simp add: unix_random_bytes_def)

theorem unix_random_bytes_complete_witness:
  "unix_random_bytes 3 True [Interrupted, Got [7, 8], Interrupted, Got [9, 10]] = Some (Ret [7, 8, 9], 1)"
  using unix_random_bytes_complete [of 3 "[Interrupted, Got [7, 8], Interrupted, Got [9, 10]]"]
  by (simp add: healthy_def)

text \<open>
  C11. The Solo5 start-up check. Installing callbacks returns exactly when both required ones
  (monotonic time and abort) are there, and then no later call of the boundary goes through a
  null pointer, with wall time reading 0 when it was not granted. When the abort callback
  itself is missing, the check that should report it calls that null pointer.
\<close>

theorem solo5_platform_init:
  "(\<exists>g'. mlqjs_platform_init g p = Ret g') = (p_monotonic_ns p \<noteq> None \<and> p_abort p \<noteq> None) \<and>
   (mlqjs_platform_init g p = Null_call) = (p_abort p = None) \<and>
   (\<forall>g'. mlqjs_platform_init g p = Ret g' \<longrightarrow> g' = p \<and>
      solo5_monotonic_ns g' \<noteq> Null_call \<and> solo5_wall_time_ms g' \<noteq> Null_call \<and>
      (\<forall>n. solo5_random_bytes g' n \<noteq> Null_call) \<and> (\<forall>m. solo5_abort g' m \<noteq> (Null_call :: unit outcome)) \<and>
      (p_wall_time_ms p = None \<longrightarrow> solo5_wall_time_ms g' = Ret 0))"
  by (auto simp: mlqjs_platform_init_def solo5_monotonic_ns_def solo5_wall_time_ms_def
      solo5_random_bytes_def solo5_abort_def call_abort_def split: option.splits)

theorem solo5_platform_init_witness:
  "\<exists>g'. mlqjs_platform_init g' \<lparr>p_monotonic_ns = Some (\<lambda>_. 5), p_wall_time_ms = None,
       p_random_bytes = None, p_abort = Some id\<rparr> = Ret g' \<and>
     solo5_wall_time_ms g' = Ret 0"
proof -
  let ?p = "\<lparr>p_monotonic_ns = Some (\<lambda>_. 5), p_wall_time_ms = None,
       p_random_bytes = None, p_abort = Some id\<rparr>"
  have "mlqjs_platform_init ?p ?p = Ret ?p" by (simp add: mlqjs_platform_init_def)
  with solo5_platform_init [of ?p ?p] show ?thesis by fastforce
qed

end
