(* ===== verification/Bindings.thy ===== *)
theory Bindings
  imports Host_Queue Allocator Port
begin

text \<open>
  The OCaml bindings of the engine (src/qjs/c/qjs_stubs.c): the runtime structure, the global
  handle table and promise table, the callbacks QuickJS calls back into (interrupt handler,
  rejection tracker, module loader, \<^verbatim>\<open>host.later\<close> and \<^verbatim>\<open>host.rpc\<close>), and the
  primitives OCaml calls. The JavaScript engine behind the QuickJS interface is a parameter: a
  record of functions over an engine state of any type. A function that can run JavaScript
  takes and returns the whole world, because the script may call back into the bindings.
\<close>

subsection \<open>Data\<close>

abbreviation MLQJS_TABLE_CAP :: nat where "MLQJS_TABLE_CAP \<equiv> 64"
abbreviation MLQJS_MAX_MODULES :: nat where "MLQJS_MAX_MODULES \<equiv> 256"
abbreviation MLQJS_MAX_PATH_LEN :: nat where "MLQJS_MAX_PATH_LEN \<equiv> 512"
abbreviation MLQJS_MAX_PROMISES :: nat where "MLQJS_MAX_PROMISES \<equiv> 256"

datatype mlqjs_interrupt_reason = REASON_NONE | REASON_DEADLINE | REASON_CPU | REASON_CANCEL

text \<open>A JavaScript value as the bindings see it: two tags they test for, and opaque values.\<close>

datatype jsvalue = JS_UNDEFINED | JS_EXCEPTION | JSVal nat

record mlqjs_module_entry =
  m_path :: string
  m_source :: "ptr option"
  m_source_len :: nat

text \<open>\<open>modules\<close> holds the entries in use; \<^verbatim>\<open>module_count\<close> is its length.\<close>

record mlqjs_runtime =
  rt :: "nat option"
  ctx :: "nat option"
  a_state :: "(ptr \<times> mlqjs_alloc_state) option"
  requests :: mlqjs_host_queue
  modules :: "mlqjs_module_entry list"
  deadline_ns :: u64
  cpu_budget_ns :: u64
  engine_start_ns :: u64
  cancelled :: bool
  terminal :: bool
  interrupt_reason :: mlqjs_interrupt_reason
  gen :: int

text \<open>
  A promise slot. The values \<open>resolve\<close> and \<open>reject\<close> live in the object heap of an engine runtime
  and are gone when that runtime is freed. The C structure does not say which one it is; the
  model records it in the ghost field \<open>ps_owner\<close>, the structure whose context made the values.
\<close>

record mlqjs_promise_slot =
  ps_id :: u64
  resolve :: jsvalue
  reject :: jsvalue
  in_use :: bool
  ps_owner :: ptr

text \<open>
  The state of the process: the three global tables, the runtime structures by address, the
  heap, the successive readings of the monotonic clock, and the engine. Two fields are ghosts,
  which no primitive reads: \<open>hooks\<close> maps an engine runtime that has not been freed to the
  structure whose address was given to it as the opaque pointer of the callbacks, and \<open>ub\<close> says
  that a callback read freed memory.
\<close>

record 'e world =
  g_table :: "ptr option list"
  g_generation :: "int list"
  g_promises :: "mlqjs_promise_slot list"
  runtimes :: "ptr \<rightharpoonup> mlqjs_runtime"
  heap :: c_heap
  clock :: "nat \<Rightarrow> u64"
  ticks :: nat
  engine :: 'e
  hooks :: "nat \<rightharpoonup> ptr"
  ub :: bool

text \<open>
  How a primitive comes back to OCaml: with a value, with a \<^verbatim>\<open>Failure\<close>, through the abort
  path, or after an access to memory that was freed (undefined behaviour).
\<close>

datatype 'a caml = CamlOk 'a | CamlFail string | ProcAbort string | Undefined

datatype eval_type = EVAL_GLOBAL | EVAL_MODULE | EVAL_MODULE_COMPILE_ONLY

datatype js_error = TypeError string | ReferenceError string | InternalError string

text \<open>The part of the QuickJS interface (quickjs.h) the bindings call.\<close>

record 'e js_api =
  JS_NewRuntime :: "'e \<Rightarrow> nat option \<times> 'e"
  JS_FreeRuntime :: "nat \<Rightarrow> 'e \<Rightarrow> 'e"
  JS_SetMemoryLimit :: "nat \<Rightarrow> u64 \<Rightarrow> 'e \<Rightarrow> 'e"
  JS_SetMaxStackSize :: "nat \<Rightarrow> u64 \<Rightarrow> 'e \<Rightarrow> 'e"
  JS_SetInterruptHandler :: "nat \<Rightarrow> ptr \<Rightarrow> 'e \<Rightarrow> 'e"
  JS_SetCanBlock :: "nat \<Rightarrow> bool \<Rightarrow> 'e \<Rightarrow> 'e"
  JS_SetHostPromiseRejectionTracker :: "nat \<Rightarrow> ptr \<Rightarrow> 'e \<Rightarrow> 'e"
  JS_SetModuleLoaderFunc :: "nat \<Rightarrow> ptr \<Rightarrow> 'e \<Rightarrow> 'e"
  JS_NewContextRaw :: "nat \<Rightarrow> 'e \<Rightarrow> nat option \<times> 'e"
  JS_FreeContext :: "nat \<Rightarrow> 'e \<Rightarrow> 'e"
  JS_AddIntrinsic :: "string \<Rightarrow> nat \<Rightarrow> 'e \<Rightarrow> 'e"
  JS_SetContextOpaque :: "nat \<Rightarrow> ptr \<Rightarrow> 'e \<Rightarrow> 'e"
  JS_GetContextOpaque :: "nat \<Rightarrow> 'e \<Rightarrow> ptr"
  js_malloc_ok :: "nat \<Rightarrow> nat \<Rightarrow> 'e \<Rightarrow> bool \<times> 'e"
  JS_Eval :: "nat \<Rightarrow> string \<Rightarrow> string \<Rightarrow> eval_type \<Rightarrow> 'e world \<Rightarrow> jsvalue \<times> 'e world"
  JS_GetException :: "nat \<Rightarrow> 'e \<Rightarrow> jsvalue \<times> 'e"
  JS_FreeValue :: "nat \<Rightarrow> jsvalue \<Rightarrow> 'e \<Rightarrow> 'e"
  JS_ToInt32 :: "nat \<Rightarrow> jsvalue \<Rightarrow> 'e world \<Rightarrow> 32 word option \<times> 'e world"
  JS_ToCString :: "nat \<Rightarrow> jsvalue \<Rightarrow> 'e world \<Rightarrow> string option \<times> 'e world"
  JS_FreeCString :: "nat \<Rightarrow> string \<Rightarrow> 'e \<Rightarrow> 'e"
  JS_JSONStringify :: "nat \<Rightarrow> jsvalue \<Rightarrow> 'e world \<Rightarrow> jsvalue \<times> 'e world"
  JS_ParseJSON :: "nat \<Rightarrow> string \<Rightarrow> 'e \<Rightarrow> jsvalue \<times> 'e"
  JS_NewString :: "nat \<Rightarrow> string \<Rightarrow> 'e \<Rightarrow> jsvalue \<times> 'e"
  JS_NewPromiseCapability :: "nat \<Rightarrow> 'e \<Rightarrow> (jsvalue \<times> jsvalue \<times> jsvalue) \<times> 'e"
  JS_Call :: "nat \<Rightarrow> jsvalue \<Rightarrow> jsvalue \<Rightarrow> 'e world \<Rightarrow> jsvalue \<times> 'e world"
  JS_Throw :: "nat \<Rightarrow> js_error \<Rightarrow> 'e \<Rightarrow> 'e"
  JS_NewObject :: "nat \<Rightarrow> 'e \<Rightarrow> jsvalue \<times> 'e"
  JS_NewCFunction :: "nat \<Rightarrow> string \<Rightarrow> nat \<Rightarrow> 'e \<Rightarrow> jsvalue \<times> 'e"
  JS_SetPropertyStr :: "nat \<Rightarrow> jsvalue \<Rightarrow> string \<Rightarrow> jsvalue \<Rightarrow> 'e \<Rightarrow> 'e"
  JS_GetGlobalObject :: "nat \<Rightarrow> 'e \<Rightarrow> jsvalue \<times> 'e"
  JS_IsJobPending :: "nat \<Rightarrow> 'e \<Rightarrow> bool"
  JS_ExecutePendingJob :: "nat \<Rightarrow> 'e world \<Rightarrow> (int \<times> nat) \<times> 'e world"
  JS_MemoryUsedSize :: "nat \<Rightarrow> 'e \<Rightarrow> u64"

text \<open>An action on the engine alone, lifted to the world.\<close>

definition on_engine :: "('e \<Rightarrow> 'a \<times> 'e) \<Rightarrow> 'e world \<Rightarrow> 'a \<times> 'e world" where
  [c_defs]: "on_engine f w = (case f (engine w) of (x, e) \<Rightarrow> (x, w\<lparr>engine := e\<rparr>))"

definition with_engine :: "('e \<Rightarrow> 'e) \<Rightarrow> 'e world \<Rightarrow> 'e world" where
  [c_defs]: "with_engine f w = w\<lparr>engine := f (engine w)\<rparr>"

definition set_rt :: "ptr \<Rightarrow> mlqjs_runtime \<Rightarrow> 'e world \<Rightarrow> 'e world" where
  [c_defs]: "set_rt p q w = w\<lparr>runtimes := (runtimes w)(p \<mapsto> q)\<rparr>"

definition set_heap :: "c_heap \<Rightarrow> 'e world \<Rightarrow> 'e world" where
  [c_defs]: "set_heap h w = w\<lparr>heap := h\<rparr>"

text \<open>
  Handing the address of a structure to an engine runtime as an opaque pointer, and freeing an
  engine runtime, after which it calls nothing back.
\<close>

definition install_hook :: "nat \<Rightarrow> ptr \<Rightarrow> 'e world \<Rightarrow> 'e world" where
  [c_defs]: "install_hook r p w = w\<lparr>hooks := (hooks w)(r \<mapsto> p)\<rparr>"

definition free_engine :: "'e js_api \<Rightarrow> nat \<Rightarrow> 'e world \<Rightarrow> 'e world" where
  [c_defs]: "free_engine js r w = (with_engine (JS_FreeRuntime js r) w)\<lparr>hooks := (hooks w)(r := None)\<rparr>"

text \<open>One reading of the monotonic clock.\<close>

definition mlqjs_monotonic_ns :: "'e world \<Rightarrow> u64 \<times> 'e world" where
  [c_defs]: "mlqjs_monotonic_ns w = (clock w (ticks w), w\<lparr>ticks := Suc (ticks w)\<rparr>)"

subsection \<open>Module map\<close>

text \<open>The first entry whose path is the given C string.\<close>

definition find_module :: "mlqjs_module_entry list \<Rightarrow> string \<Rightarrow> mlqjs_module_entry option" where
  "find_module ms name = find (\<lambda>e. streq (m_path e) name) ms"

text \<open>The source bytes of an entry; \<open>None\<close> when its block is not allocated.\<close>

definition read_source :: "'e world \<Rightarrow> mlqjs_module_entry \<Rightarrow> string option" where
  "read_source w e =
     (case m_source e of None \<Rightarrow> None
      | Some a \<Rightarrow> map_option (take (m_source_len e)) (blocks (heap w) a))"

definition mlqjs_module_loader ::
  "'e js_api \<Rightarrow> nat \<Rightarrow> string \<Rightarrow> ptr \<Rightarrow> 'e world \<Rightarrow> (jsvalue option \<times> 'e world) option" where
  "mlqjs_module_loader js c name p w =
     (case runtimes w p of None \<Rightarrow> None
      | Some q \<Rightarrow>
        (case find_module (modules q) name of
           Some e \<Rightarrow>
             (case read_source w e of None \<Rightarrow> None
              | Some src \<Rightarrow>
                  let (val, w) = JS_Eval js c src name EVAL_MODULE_COMPILE_ONLY w in
                  if val = JS_EXCEPTION then Some (None, w)
                  else Some (Some val, with_engine (JS_FreeValue js c val) w))
         | None \<Rightarrow>
             Some (None, with_engine (JS_Throw js c
               (ReferenceError (''could not load module '' @ [CHR 0x27] @ c_str name @ [CHR 0x27]))) w)))"

text \<open>The name is duplicated into engine memory; \<open>None\<close> when that allocation fails.\<close>

definition mlqjs_module_normalize ::
  "'e js_api \<Rightarrow> nat \<Rightarrow> string \<Rightarrow> string \<Rightarrow> 'e world \<Rightarrow> string option \<times> 'e world" where
  "mlqjs_module_normalize js c base name w =
     (let (ok, w) = on_engine (js_malloc_ok js c (strlen name + 1)) w in
      if \<not> ok then (None, w) else (Some (c_str name), w))"

subsection \<open>Interrupt handler and rejection tracker\<close>

definition mlqjs_interrupt :: "ptr \<Rightarrow> 'e world \<Rightarrow> (bool \<times> 'e world) option" where
  "mlqjs_interrupt p w =
     (case runtimes w p of None \<Rightarrow> None
      | Some q \<Rightarrow>
        if cancelled q then Some (True, set_rt p (q\<lparr>interrupt_reason := REASON_CANCEL\<rparr>) w)
        else
          let (now, w) = mlqjs_monotonic_ns w in
          if deadline_ns q \<noteq> 0 \<and> now \<ge> deadline_ns q
          then Some (True, set_rt p (q\<lparr>interrupt_reason := REASON_DEADLINE\<rparr>) w)
          else if cpu_budget_ns q \<noteq> 0 then
            (let used = now - engine_start_ns q in
             if used \<ge> cpu_budget_ns q
             then Some (True, set_rt p (q\<lparr>interrupt_reason := REASON_CPU\<rparr>) w)
             else Some (False, w))
          else Some (False, w))"

definition mlqjs_rejection_tracker :: "bool \<Rightarrow> ptr \<Rightarrow> 'e world \<Rightarrow> 'e world option" where
  "mlqjs_rejection_tracker is_handled p w =
     (case runtimes w p of None \<Rightarrow> None
      | Some q \<Rightarrow> Some (if \<not> is_handled then set_rt p (q\<lparr>terminal := True\<rparr>) w else w))"

subsection \<open>Handle table\<close>

text \<open>
  The position of the first free slot at or after \<open>i\<close>, as the scan of the table finds it.
\<close>

fun first_free :: "('a \<Rightarrow> bool) \<Rightarrow> 'a list \<Rightarrow> nat option" where
  "first_free is_free [] = None"
| "first_free is_free (x # xs) =
     (if is_free x then Some 0 else map_option Suc (first_free is_free xs))"

text \<open>
  A handle as the C code builds it, in a 32-bit int: generation above, index below. From generation
  32768 on the shift reaches the sign bit, which is undefined in C; here it wraps around, as the
  compilers in use do it.
\<close>

definition mk_handle :: "int \<Rightarrow> nat \<Rightarrow> 32 word" where
  "mk_handle g i = push_bit 16 (word_of_int g) OR word_of_nat i"

definition table_alloc :: "ptr \<Rightarrow> 'e world \<Rightarrow> 32 word \<times> 'e world" where
  "table_alloc p w =
     (case first_free (\<lambda>t. t = None) (g_table w) of None \<Rightarrow> (0, w)
      | Some i \<Rightarrow>
          let g = (g_generation w ! i + 1) AND 0xffff;
              g = (if g = 0 then 1 else g);
              w = w\<lparr>g_table := (g_table w)[i := Some p], g_generation := (g_generation w)[i := g]\<rparr>;
              w = w\<lparr>runtimes := (runtimes w)(p := map_option (\<lambda>q. q\<lparr>gen := g\<rparr>) (runtimes w p))\<rparr>
          in (mk_handle g i, w))"

text \<open>
  Looking a handle up reads the generation through the pointer in the table. \<open>Dangling\<close> is the
  case in which the structure was freed, so that this read is undefined behaviour; every
  primitive below is then undefined as well. \<open>Stale\<close> is the null result.
\<close>

datatype 'a lookup = Dangling | Stale | Found 'a

text \<open>
  \<open>v\<close> is the OCaml integer; \<^verbatim>\<open>Int_val\<close> keeps its low 32 bits. The shift of a negative
  \<^verbatim>\<open>int\<close> is arithmetic.
\<close>

definition table_get :: "int \<Rightarrow> 'e world \<Rightarrow> (nat \<times> ptr \<times> mlqjs_runtime) lookup" where
  "table_get v w =
     (let h = (word_of_int v :: 32 word);
          index = unat (h AND 0xffff);
          g = sint (signed_drop_bit 16 h)
      in if index \<ge> MLQJS_TABLE_CAP then Stale
         else case g_table w ! index of None \<Rightarrow> Stale
           | Some p \<Rightarrow>
               (case runtimes w p of None \<Rightarrow> Dangling
                | Some q \<Rightarrow> if gen q \<noteq> g then Stale else Found (index, p, q)))"

subsection \<open>Limits\<close>

definition is_digit :: "char \<Rightarrow> bool" where
  "is_digit c \<longleftrightarrow> 48 \<le> (of_char c :: nat) \<and> (of_char c :: nat) \<le> 57"

definition is_space :: "char \<Rightarrow> bool" where
  "is_space c \<longleftrightarrow> (of_char c :: nat) = 32 \<or> (9 \<le> (of_char c :: nat) \<and> (of_char c :: nat) \<le> 13)"

definition dec_value :: "string \<Rightarrow> nat" where
  "dec_value ds = foldl (\<lambda>n d. 10 * n + (of_char d - 48)) 0 ds"

text \<open>
  \<^verbatim>\<open>strtol\<close> in base 10 on a 64-bit \<^verbatim>\<open>long\<close>: white space, a sign, digits; the value is
  clipped to the range; the unread rest is returned, which is the whole input when there is
  no digit.
\<close>

definition strtol :: "string \<Rightarrow> int \<times> string" where
  "strtol s =
     (let s1 = dropWhile is_space s;
          neg = (case s1 of c # _ \<Rightarrow> c = CHR ''-'' | [] \<Rightarrow> False);
          s2 = (case s1 of c # cs \<Rightarrow> (if c = CHR ''-'' \<or> c = CHR ''+'' then cs else s1) | [] \<Rightarrow> []);
          ds = takeWhile is_digit s2;
          n = int (dec_value ds);
          v = (if neg then - n else n)
      in if ds = [] then (0, s)
         else (min (2 ^ 63 - 1) (max (- (2 ^ 63)) v), dropWhile is_digit s2))"

text \<open>The decoding loop; the first argument is the number of values still to read.\<close>

fun decode_vals :: "nat \<Rightarrow> string \<Rightarrow> int list" where
  "decode_vals 0 p = []"
| "decode_vals (Suc k) p =
     (if p = [] then []
      else let (v, rest) = strtol p in
        if rest = p then [v]
        else v # decode_vals k (case rest of c # cs \<Rightarrow> (if c = CHR ''|'' then cs else rest) | [] \<Rightarrow> []))"

record limits =
  l_heap :: u64
  l_stack :: u64
  l_timeout_ns :: u64
  l_cpu_ns :: u64

definition decode_limits :: "string \<Rightarrow> limits" where
  "decode_limits s =
     (let vals = decode_vals 11 (c_str s) @ replicate 11 0
      in \<lparr>l_heap = word_of_int (vals ! 0), l_stack = word_of_int (vals ! 2),
          l_timeout_ns = word_of_int (vals ! 3) * 1000000,
          l_cpu_ns = word_of_int (vals ! 4) * 1000000\<rparr>)"

subsection \<open>Creation and destruction\<close>

definition runtime_zero :: mlqjs_runtime where
  "runtime_zero = \<lparr>rt = None, ctx = None, a_state = None, requests = queue_zero, modules = [],
     deadline_ns = 0, cpu_budget_ns = 0, engine_start_ns = 0, cancelled = False,
     terminal = False, interrupt_reason = REASON_NONE, gen = 0\<rparr>"

text \<open>\<^verbatim>\<open>free(q)\<close>: the structure is gone, and so is its block.\<close>

definition free_runtime :: "ptr \<Rightarrow> 'e world \<Rightarrow> 'e world" where
  "free_runtime p w = w\<lparr>heap := c_free (Some p) (heap w), runtimes := (runtimes w)(p := None)\<rparr>"

definition intrinsics :: "string list" where
  "intrinsics = [''BaseObjects'', ''Eval'', ''JSON'', ''RegExp'', ''MapSet'', ''TypedArrays'', ''Promise'']"

text \<open>First part of \<^verbatim>\<open>mlqjs_create\<close>: the structure with its limits, clock readings and queue.\<close>

definition create_state :: "string \<Rightarrow> 'e world \<Rightarrow> (ptr \<times> limits \<times> mlqjs_runtime) caml \<times> 'e world" where
  "create_state v_limits w =
     (case malloc (block 1) (heap w) of
        (None, h) \<Rightarrow> (CamlFail ''mlqjs_create: out of memory'', set_heap h w)
      | (Some p, h) \<Rightarrow>
        let w = set_heap h w;
            l = decode_limits v_limits
        in case mlqjs_alloc_state_new (l_heap l) (heap w) of
          None \<Rightarrow> (ProcAbort ''mlqjs_alloc_state_new: out of memory'', w)
        | Some (st, h) \<Rightarrow>
          let w = set_heap h w;
              q = runtime_zero\<lparr>a_state := Some st\<rparr>;
              (dl, w) = (if l_timeout_ns l \<noteq> 0
                         then (let (now, w) = mlqjs_monotonic_ns w in (now + l_timeout_ns l, w))
                         else (0, w));
              (start, w) = mlqjs_monotonic_ns w;
              q = q\<lparr>deadline_ns := dl, cpu_budget_ns := l_cpu_ns l, engine_start_ns := start,
                    requests := mlqjs_host_queue_init (requests q)\<rparr>
          in (CamlOk (p, l, q), w))"

text \<open>Second part: the engine runtime and context, with the callbacks installed.\<close>

definition create_engine ::
  "'e js_api \<Rightarrow> ptr \<Rightarrow> limits \<Rightarrow> mlqjs_runtime \<Rightarrow> 'e world \<Rightarrow> (nat \<times> nat) caml \<times> 'e world" where
  "create_engine js p l q w =
     (let (r, w) = on_engine (JS_NewRuntime js) w
      in case r of
        None \<Rightarrow>
          (CamlFail ''mlqjs_create: JS_NewRuntime'',
           free_runtime p (set_heap (mlqjs_alloc_state_free (a_state q) (heap w)) w))
      | Some r \<Rightarrow>
        let w = with_engine (JS_SetHostPromiseRejectionTracker js r p \<circ> JS_SetCanBlock js r False \<circ>
                  JS_SetInterruptHandler js r p \<circ> JS_SetMaxStackSize js r (l_stack l) \<circ>
                  JS_SetMemoryLimit js r (l_heap l)) w;
            w = install_hook r p w;
            (c, w) = on_engine (JS_NewContextRaw js r) w
        in case c of
          None \<Rightarrow>
            (CamlFail ''mlqjs_create: JS_NewContextRaw'',
             (let w = free_engine js r w
              in free_runtime p (set_heap (mlqjs_alloc_state_free (a_state q) (heap w)) w)))
        | Some c \<Rightarrow>
          let w = with_engine (fold (\<lambda>s. JS_AddIntrinsic js s c) intrinsics) w;
              w = with_engine (JS_SetModuleLoaderFunc js r p \<circ> JS_SetContextOpaque js c p) w
          in (CamlOk (r, c), w))"

text \<open>The whole primitive; a structure that got no handle is released again.\<close>

definition mlqjs_create :: "'e js_api \<Rightarrow> string \<Rightarrow> 'e world \<Rightarrow> int caml \<times> 'e world" where
  "mlqjs_create js v_limits w =
     (case create_state v_limits w of
        (CamlFail m, w) \<Rightarrow> (CamlFail m, w)
      | (ProcAbort m, w) \<Rightarrow> (ProcAbort m, w)
      | (Undefined, w) \<Rightarrow> (Undefined, w)
      | (CamlOk (p, l, q), w) \<Rightarrow>
        (case create_engine js p l q w of
           (CamlFail m, w) \<Rightarrow> (CamlFail m, w)
         | (ProcAbort m, w) \<Rightarrow> (ProcAbort m, w)
         | (Undefined, w) \<Rightarrow> (Undefined, w)
         | (CamlOk (r, c), w) \<Rightarrow>
           let q = q\<lparr>rt := Some r, ctx := Some c\<rparr>;
               w = set_rt p q w;
               (handle, w) = table_alloc p w
           in if handle = 0 then
                (CamlFail ''mlqjs_create: handle table full'',
                 (let w = free_engine js r (with_engine (JS_FreeContext js c) w);
                      (_, h) = mlqjs_host_queue_destroy (requests q) (heap w)
                  in free_runtime p (set_heap (mlqjs_alloc_state_free (a_state q) h) w)))
              else (CamlOk (sint handle), w)))"

definition mlqjs_destroy :: "'e js_api \<Rightarrow> int \<Rightarrow> 'e world \<Rightarrow> unit caml \<times> 'e world" where
  "mlqjs_destroy js v w =
     (case table_get v w of Dangling \<Rightarrow> (Undefined, w)
      | Stale \<Rightarrow> (CamlOk (), w)
      | Found (index, p, q) \<Rightarrow>
          let w = w\<lparr>g_table := (g_table w)[index := None]\<rparr>;
              w = (case ctx q of Some c \<Rightarrow> with_engine (JS_FreeContext js c) w | None \<Rightarrow> w);
              w = (case rt q of Some r \<Rightarrow> free_engine js r w | None \<Rightarrow> w);
              (_, h) = mlqjs_host_queue_destroy (requests q) (heap w);
              h = mlqjs_alloc_state_free (a_state q) h;
              h = free_all (map m_source (modules q)) h
          in (CamlOk (), free_runtime p (set_heap h w)))"

subsection \<open>Evaluation\<close>

text \<open>Dropping the pending exception after a failed call.\<close>

definition drop_exception :: "'e js_api \<Rightarrow> nat \<Rightarrow> 'e world \<Rightarrow> 'e world" where
  "drop_exception js c w = (let (e, w) = on_engine (JS_GetException js c) w in with_engine (JS_FreeValue js c e) w)"

definition mlqjs_eval :: "'e js_api \<Rightarrow> int \<Rightarrow> string \<Rightarrow> 'e world \<Rightarrow> bool caml \<times> 'e world" where
  "mlqjs_eval js v src w =
     (case table_get v w of Dangling \<Rightarrow> (Undefined, w)
      | Stale \<Rightarrow> (CamlFail ''mlqjs_eval: stale handle'', w)
      | Found (_, p, q) \<Rightarrow>
        (case ctx q of None \<Rightarrow> (Undefined, w)
         | Some c \<Rightarrow>
            let (r, w) = JS_Eval js c src ''<eval>'' EVAL_GLOBAL w;
                is_exc = (r = JS_EXCEPTION);
                w = (if is_exc then drop_exception js c w else w)
            in (CamlOk is_exc, with_engine (JS_FreeValue js c r) w)))"

definition mlqjs_eval_int :: "'e js_api \<Rightarrow> int \<Rightarrow> string \<Rightarrow> 'e world \<Rightarrow> int caml \<times> 'e world" where
  "mlqjs_eval_int js v src w =
     (case table_get v w of Dangling \<Rightarrow> (Undefined, w)
      | Stale \<Rightarrow> (CamlFail ''mlqjs_eval_int: stale handle'', w)
      | Found (_, p, q) \<Rightarrow>
        (case ctx q of None \<Rightarrow> (Undefined, w)
         | Some c \<Rightarrow>
            let (r, w) = JS_Eval js c src ''<eval>'' EVAL_GLOBAL w in
            if r = JS_EXCEPTION then
              (CamlFail ''mlqjs_eval_int: eval threw'', with_engine (JS_FreeValue js c r) (drop_exception js c w))
            else
              let (out, w) = JS_ToInt32 js c r w;
                  w = with_engine (JS_FreeValue js c r) w
              in case out of None \<Rightarrow> (CamlFail ''mlqjs_eval_int: not an int'', w)
                 | Some n \<Rightarrow> (CamlOk (sint n), w)))"

definition mlqjs_eval_string :: "'e js_api \<Rightarrow> int \<Rightarrow> string \<Rightarrow> 'e world \<Rightarrow> string caml \<times> 'e world" where
  "mlqjs_eval_string js v src w =
     (case table_get v w of Dangling \<Rightarrow> (Undefined, w)
      | Stale \<Rightarrow> (CamlFail ''mlqjs_eval_string: stale handle'', w)
      | Found (_, p, q) \<Rightarrow>
        (case ctx q of None \<Rightarrow> (Undefined, w)
         | Some c \<Rightarrow>
            let (r, w) = JS_Eval js c src ''<eval>'' EVAL_GLOBAL w in
            if r = JS_EXCEPTION then
              (CamlFail ''mlqjs_eval_string: eval threw'', with_engine (JS_FreeValue js c r) (drop_exception js c w))
            else
              let (s, w) = JS_ToCString js c r w
              in case s of
                None \<Rightarrow> (CamlFail ''mlqjs_eval_string: not a string-convertible'', with_engine (JS_FreeValue js c r) w)
              | Some s \<Rightarrow> (CamlOk (c_str s), with_engine (JS_FreeValue js c r \<circ> JS_FreeCString js c s) w)))"

definition mlqjs_set_module :: "int \<Rightarrow> string \<Rightarrow> string \<Rightarrow> 'e world \<Rightarrow> unit caml \<times> 'e world" where
  "mlqjs_set_module v path src w =
     (case table_get v w of Dangling \<Rightarrow> (Undefined, w)
      | Stale \<Rightarrow> (CamlFail ''mlqjs_set_module: stale handle'', w)
      | Found (_, p, q) \<Rightarrow>
        if length (modules q) \<ge> MLQJS_MAX_MODULES then (CamlFail ''mlqjs_set_module: too many modules'', w)
        else if length path \<ge> MLQJS_MAX_PATH_LEN then (CamlFail ''mlqjs_set_module: path too long'', w)
        else
          (case malloc (if src = [] then block 1 else src) (heap w) of
             (None, h) \<Rightarrow> (CamlFail ''mlqjs_set_module: oom'', set_heap h w)
           | (Some a, h) \<Rightarrow>
               let e = \<lparr>m_path = path, m_source = Some a, m_source_len = length src\<rparr>
               in (CamlOk (), set_rt p (q\<lparr>modules := modules q @ [e]\<rparr>) (set_heap h w))))"

definition mlqjs_eval_module :: "'e js_api \<Rightarrow> int \<Rightarrow> string \<Rightarrow> 'e world \<Rightarrow> bool caml \<times> 'e world" where
  "mlqjs_eval_module js v path w =
     (case table_get v w of Dangling \<Rightarrow> (Undefined, w)
      | Stale \<Rightarrow> (CamlFail ''mlqjs_eval_module: stale handle'', w)
      | Found (_, p, q) \<Rightarrow>
        (case find_module (modules q) path of
           None \<Rightarrow> (CamlFail ''mlqjs_eval_module: entrypoint not found'', w)
         | Some e \<Rightarrow>
            (case (ctx q, read_source w e) of
               (Some c, Some src) \<Rightarrow>
                 let (val, w) = JS_Eval js c src path EVAL_MODULE w;
                     is_exc = (val = JS_EXCEPTION);
                     w = (if is_exc then drop_exception js c w else w)
                 in (CamlOk is_exc, with_engine (JS_FreeValue js c val) w)
             | _ \<Rightarrow> (Undefined, w))))"

subsection \<open>Promise table\<close>

text \<open>\<open>p\<close> is a ghost: the structure whose context \<open>c\<close> made the two values.\<close>

definition promise_insert ::
  "'e js_api \<Rightarrow> nat \<Rightarrow> ptr \<Rightarrow> jsvalue \<Rightarrow> jsvalue \<Rightarrow> u64 \<Rightarrow> 'e world \<Rightarrow> bool \<times> 'e world" where
  "promise_insert js c p res rej i w =
     (case first_free (\<lambda>s. \<not> in_use s) (g_promises w) of
        Some k \<Rightarrow>
          (True, w\<lparr>g_promises := (g_promises w)[k :=
             \<lparr>ps_id = i, resolve = res, reject = rej, in_use = True, ps_owner = p\<rparr>]\<rparr>)
      | None \<Rightarrow> (False, with_engine (JS_FreeValue js c rej \<circ> JS_FreeValue js c res) w))"

text \<open>The values of a slot are gone: their engine runtime was freed with the structure.\<close>

definition dead_slot :: "mlqjs_promise_slot \<Rightarrow> 'e world \<Rightarrow> bool" where
  "dead_slot s w \<longleftrightarrow> runtimes w (ps_owner s) = None"

text \<open>The position of the first slot in use under this id.\<close>

definition promise_find :: "u64 \<Rightarrow> 'e world \<Rightarrow> nat option" where
  "promise_find i w = first_free (\<lambda>s. in_use s \<and> ps_id s = i) (g_promises w)"

definition promise_remove :: "'e js_api \<Rightarrow> nat \<Rightarrow> nat \<Rightarrow> 'e world \<Rightarrow> 'e world" where
  "promise_remove js c k w =
     (let s = g_promises w ! k;
          w = with_engine (JS_FreeValue js c (reject s) \<circ> JS_FreeValue js c (resolve s)) w
      in w\<lparr>g_promises := (g_promises w)[k := s\<lparr>in_use := False\<rparr>]\<rparr>)"

subsection \<open>Host callbacks\<close>

text \<open>Raising a JavaScript error: the callback returns the exception tag.\<close>

definition js_throw :: "'e js_api \<Rightarrow> nat \<Rightarrow> js_error \<Rightarrow> 'e world \<Rightarrow> jsvalue \<times> 'e world" where
  "js_throw js c e w = (JS_EXCEPTION, with_engine (JS_Throw js c e) w)"

text \<open>
  The common end of both callbacks: push the request, then register the resolving functions
  under its id. \<open>full\<close> is the message for a full queue.
\<close>

definition enqueue_and_register ::
  "'e js_api \<Rightarrow> nat \<Rightarrow> ptr \<Rightarrow> string \<Rightarrow> string \<Rightarrow> ptr \<Rightarrow> nat \<Rightarrow> jsvalue \<Rightarrow> jsvalue \<Rightarrow> jsvalue
   \<Rightarrow> 'e world \<Rightarrow> (jsvalue \<times> 'e world) option" where
  "enqueue_and_register js c p op full pl plen promise res rej w =
     (case runtimes w p of None \<Rightarrow> None
      | Some q \<Rightarrow>
          let (i, rq, h) = mlqjs_host_queue_push (requests q) (Some op) (Some pl) plen (heap w);
              w = set_rt p (q\<lparr>requests := rq\<rparr>) (set_heap h w)
          in if i = 0 then
               Some (js_throw js c (InternalError full)
                 (with_engine (JS_FreeValue js c rej \<circ> JS_FreeValue js c res \<circ> JS_FreeValue js c promise) w))
             else
               let (ok, w) = promise_insert js c p res rej i w
               in if \<not> ok then Some (js_throw js c (InternalError ''promise table full'') w)
                  else Some (promise, w))"

definition mlqjs_host_later ::
  "'e js_api \<Rightarrow> nat \<Rightarrow> jsvalue list \<Rightarrow> 'e world \<Rightarrow> (jsvalue \<times> 'e world) option" where
  "mlqjs_host_later js c argv w =
     (case argv of [] \<Rightarrow> Some (js_throw js c (TypeError ''host.later expects 1 argument'') w)
      | a # _ \<Rightarrow>
        let p = JS_GetContextOpaque js c (engine w);
            (arg, w) = JS_ToInt32 js c a w
        in case arg of
          None \<Rightarrow> Some (js_throw js c (TypeError ''host.later expects an int'') w)
        | Some n \<Rightarrow>
          let ((promise, res, rej), w) = on_engine (JS_NewPromiseCapability js c) w
          in if promise = JS_EXCEPTION then Some (promise, w)
             else
               let pl = show_int (sint n) in
               (case malloc (pl @ [CHR 0x00]) (heap w) of
                  (None, h) \<Rightarrow>
                    Some (js_throw js c (TypeError ''oom'')
                      (with_engine (JS_FreeValue js c rej \<circ> JS_FreeValue js c res \<circ> JS_FreeValue js c promise)
                        (set_heap h w)))
                | (Some b, h) \<Rightarrow>
                    enqueue_and_register js c p ''host.later'' ''host request queue full''
                      b (length pl) promise res rej (set_heap h w)))"

definition mlqjs_host_rpc ::
  "'e js_api \<Rightarrow> nat \<Rightarrow> jsvalue list \<Rightarrow> 'e world \<Rightarrow> (jsvalue \<times> 'e world) option" where
  "mlqjs_host_rpc js c argv w =
     (case argv of a0 # a1 # _ \<Rightarrow>
        let p = JS_GetContextOpaque js c (engine w);
            (op, w) = JS_ToCString js c a0 w
        in (case op of
          None \<Rightarrow> Some (js_throw js c (TypeError ''host.rpc: op must be a string'') w)
        | Some op \<Rightarrow>
          let (json, w) = JS_JSONStringify js c a1 w;
              (arg, w) = (if json = JS_EXCEPTION then (None, w)
                          else (let (s, w) = JS_ToCString js c json w
                                in (s, with_engine (JS_FreeValue js c json) w)))
          in case arg of
            None \<Rightarrow> Some (js_throw js c (TypeError ''host.rpc: bad arg'')
                      (with_engine (JS_FreeCString js c op) w))
          | Some arg \<Rightarrow>
            let ((promise, res, rej), w) = on_engine (JS_NewPromiseCapability js c) w
            in if promise = JS_EXCEPTION
               then Some (promise, with_engine (JS_FreeCString js c arg \<circ> JS_FreeCString js c op) w)
               else
                 let pl = c_str op @ [CHR 0x0A] @ c_str arg in
                 (case malloc (pl @ [CHR 0x00]) (heap w) of
                    (None, h) \<Rightarrow>
                      Some (js_throw js c (InternalError ''oom'')
                        (with_engine (JS_FreeValue js c rej \<circ> JS_FreeValue js c res \<circ> JS_FreeValue js c promise \<circ>
                           JS_FreeCString js c arg \<circ> JS_FreeCString js c op) (set_heap h w)))
                  | (Some b, h) \<Rightarrow>
                      enqueue_and_register js c p ''host.rpc'' ''queue full'' b (length pl) promise res rej
                        (with_engine (JS_FreeCString js c arg \<circ> JS_FreeCString js c op) (set_heap h w))))
      | _ \<Rightarrow> Some (js_throw js c (TypeError ''host.rpc expects (op, arg)'') w))"

definition mlqjs_install_host_obj :: "'e js_api \<Rightarrow> nat \<Rightarrow> 'e world \<Rightarrow> 'e world" where
  "mlqjs_install_host_obj js c w =
     (let (host, w) = on_engine (JS_NewObject js c) w;
          (later_fn, w) = on_engine (JS_NewCFunction js c ''later'' 1) w;
          (rpc_fn, w) = on_engine (JS_NewCFunction js c ''rpc'' 2) w;
          w = with_engine (JS_SetPropertyStr js c host ''later'' later_fn) w;
          w = with_engine (JS_SetPropertyStr js c host ''rpc'' rpc_fn) w;
          (global, w) = on_engine (JS_GetGlobalObject js c) w;
          w = with_engine (JS_SetPropertyStr js c global ''host'' host) w
      in with_engine (JS_FreeValue js c global) w)"

subsection \<open>The other primitives\<close>

text \<open>
  Calling and freeing the functions of a slot whose engine runtime was freed is undefined
  behaviour.
\<close>

definition mlqjs_resolve :: "'e js_api \<Rightarrow> int \<Rightarrow> u64 \<Rightarrow> string \<Rightarrow> 'e world \<Rightarrow> unit caml \<times> 'e world" where
  "mlqjs_resolve js v i json w =
     (case table_get v w of Dangling \<Rightarrow> (Undefined, w)
      | Stale \<Rightarrow> (CamlFail ''mlqjs_resolve: stale handle'', w)
      | Found (_, p, q) \<Rightarrow>
        (case promise_find i w of None \<Rightarrow> (CamlOk (), w)
         | Some k \<Rightarrow>
           (case ctx q of None \<Rightarrow> (Undefined, w)
            | Some c \<Rightarrow>
              let s = g_promises w ! k in
              if dead_slot s w then (Undefined, w)
              else let
                  (val, w) = on_engine (JS_ParseJSON js c json) w;
                  w = (if val = JS_EXCEPTION then
                         (let (err, w) = on_engine (JS_NewString js c ''bad result JSON'') w;
                              (_, w) = JS_Call js c (reject s) err w
                          in with_engine (JS_FreeValue js c err) w)
                       else
                         (let (ret, w) = JS_Call js c (resolve s) val w
                          in with_engine (JS_FreeValue js c val \<circ> JS_FreeValue js c ret) w))
              in (CamlOk (), promise_remove js c k w))))"

definition mlqjs_has_unhandled_rejection :: "int \<Rightarrow> 'e world \<Rightarrow> bool caml \<times> 'e world" where
  "mlqjs_has_unhandled_rejection v w =
     (case table_get v w of Dangling \<Rightarrow> (Undefined, w)
      | Stale \<Rightarrow> (CamlFail ''mlqjs_has_unhandled_rejection: stale handle'', w)
      | Found (_, p, q) \<Rightarrow> (CamlOk (terminal q), w))"

definition mlqjs_install_host :: "'e js_api \<Rightarrow> int \<Rightarrow> 'e world \<Rightarrow> unit caml \<times> 'e world" where
  "mlqjs_install_host js v w =
     (case table_get v w of Dangling \<Rightarrow> (Undefined, w)
      | Stale \<Rightarrow> (CamlFail ''mlqjs_install_host: stale handle'', w)
      | Found (_, p, q) \<Rightarrow>
        (case ctx q of None \<Rightarrow> (Undefined, w) | Some c \<Rightarrow> (CamlOk (), mlqjs_install_host_obj js c w)))"

text \<open>
  The job loop: the first argument is the number of rounds left, \<open>did_run\<close> whether a job was run.
  The result is the early return 2 of a cancelled runtime (\<open>Inl\<close>) or the value of \<open>did_run\<close>
  at the end of the loop; \<open>None\<close> when the runtime is gone.
\<close>

fun pump_loop :: "'e js_api \<Rightarrow> ptr \<Rightarrow> nat \<Rightarrow> bool \<Rightarrow> 'e world \<Rightarrow> (int + bool) option \<times> 'e world" where
  "pump_loop js p 0 did_run w = (Some (Inr did_run), w)"
| "pump_loop js p (Suc n) did_run w =
     (case runtimes w p of None \<Rightarrow> (None, w)
      | Some q \<Rightarrow>
        if cancelled q then (Some (Inl 2), w)
        else (case rt q of None \<Rightarrow> (None, w)
          | Some r \<Rightarrow>
            if \<not> JS_IsJobPending js r (engine w) then (Some (Inr did_run), w)
            else
              let ((rc, c2), w) = JS_ExecutePendingJob js r w
              in if rc = 0 then (Some (Inr did_run), w)
                 else pump_loop js p n True (if rc < 0 then drop_exception js c2 w else w)))"

definition mlqjs_pump :: "'e js_api \<Rightarrow> int \<Rightarrow> int \<Rightarrow> 'e world \<Rightarrow> int caml \<times> 'e world" where
  "mlqjs_pump js v v_max_jobs w =
     (case table_get v w of Dangling \<Rightarrow> (Undefined, w)
      | Stale \<Rightarrow> (CamlFail ''mlqjs_pump: stale handle'', w)
      | Found (_, p, q) \<Rightarrow>
        let max_jobs = sint (word_of_int v_max_jobs :: 32 word) in
        (case pump_loop js p (nat max_jobs) False w of
           (None, w) \<Rightarrow> (Undefined, w)
         | (Some (Inl k), w) \<Rightarrow> (CamlOk k, w)
         | (Some (Inr did_run), w) \<Rightarrow>
             (case runtimes w p of None \<Rightarrow> (Undefined, w)
              | Some q \<Rightarrow>
                  if interrupt_reason q \<noteq> REASON_NONE then (CamlOk 2, w)
                  else (CamlOk (if did_run then 1 else 0), w))))"

definition mlqjs_cancel :: "int \<Rightarrow> int \<Rightarrow> 'e world \<Rightarrow> unit caml \<times> 'e world" where
  "mlqjs_cancel v v_reason w =
     (case table_get v w of Dangling \<Rightarrow> (Undefined, w)
      | Stale \<Rightarrow> (CamlOk (), w)
      | Found (_, p, q) \<Rightarrow> (CamlOk (), set_rt p (q\<lparr>cancelled := True\<rparr>) w))"

text \<open>
  Draining \<open>n\<close> requests: each is copied out as (id, operation, payload bytes) and its payload
  is freed. \<open>None\<close> when a payload is not allocated. The loop stops early on an empty queue.
\<close>

fun take_loop ::
  "nat \<Rightarrow> mlqjs_host_queue \<Rightarrow> c_heap \<Rightarrow> ((u64 \<times> string \<times> string) list \<times> mlqjs_host_queue \<times> c_heap) option" where
  "take_loop 0 q h = Some ([], q, h)"
| "take_loop (Suc n) q h =
     (case mlqjs_host_queue_take q request_zero of
        (False, q', _) \<Rightarrow> Some ([], q', h)
      | (True, q', r) \<Rightarrow>
          (case payload r of None \<Rightarrow> None
           | Some a \<Rightarrow>
             (case blocks h a of None \<Rightarrow> None
              | Some bytes \<Rightarrow>
                 map_option (\<lambda>(ts, q'', h''). ((rq_id r, c_str (operation r), take (payload_len r) bytes) # ts, q'', h''))
                   (take_loop n q' (c_free (Some a) h)))))"

definition mlqjs_take_requests ::
  "int \<Rightarrow> 'e world \<Rightarrow> (u64 \<times> string \<times> string) list caml \<times> 'e world" where
  "mlqjs_take_requests v w =
     (case table_get v w of Dangling \<Rightarrow> (Undefined, w)
      | Stale \<Rightarrow> (CamlFail ''mlqjs_take_requests: stale handle'', w)
      | Found (_, p, q) \<Rightarrow>
        (case take_loop (mlqjs_host_queue_count (requests q)) (requests q) (heap w) of
           None \<Rightarrow> (Undefined, w)
         | Some (ts, rq, h) \<Rightarrow> (CamlOk ts, set_rt p (q\<lparr>requests := rq\<rparr>) (set_heap h w))))"

definition mlqjs_host_call_count :: "int \<Rightarrow> 'e world \<Rightarrow> int caml \<times> 'e world" where
  "mlqjs_host_call_count v w =
     (case table_get v w of Dangling \<Rightarrow> (Undefined, w)
      | Stale \<Rightarrow> (CamlFail ''mlqjs_host_call_count: stale handle'', w)
      | Found (_, p, q) \<Rightarrow> (CamlOk (sint (word_of_nat (mlqjs_host_queue_count (requests q)) :: 32 word)), w))"

definition mlqjs_mem_usage :: "'e js_api \<Rightarrow> int \<Rightarrow> 'e world \<Rightarrow> (int \<times> int \<times> int) caml \<times> 'e world" where
  "mlqjs_mem_usage js v w =
     (case table_get v w of Dangling \<Rightarrow> (Undefined, w)
      | Stale \<Rightarrow> (CamlFail ''mlqjs_mem_usage: stale handle'', w)
      | Found (_, p, q) \<Rightarrow>
        (case rt q of None \<Rightarrow> (Undefined, w)
         | Some r \<Rightarrow>
            (CamlOk (sint (ucast (JS_MemoryUsedSize js r (engine w)) :: 32 word),
                     sint (ucast (case a_state q of Some (_, st) \<Rightarrow> limit st | None \<Rightarrow> 0) :: 32 word),
                     if JS_IsJobPending js r (engine w) then 1 else 0), w)))"

end
