(* ===== verification/Handles.thy ===== *)
theory Handles
  imports Bindings
begin

text \<open>
  The handle table: packing and unpacking of handles, what a handle returned by
  \<open>mlqjs_create\<close> finds, and when a handle is stale.
\<close>

subsection \<open>Packing\<close>

lemma take_bit_16_and: "(x :: 32 word) AND 0xffff = take_bit 16 x"
  by (simp add: take_bit_eq_mask mask_eq_exp_minus_1)

lemma handle_index:
  assumes "i < 2 ^ 16"
  shows "unat (mk_handle g i AND 0xffff) = i"
proof -
  have "take_bit 16 (push_bit 16 (word_of_int g :: 32 word) OR word_of_nat i) = take_bit 16 (word_of_nat i)"
    by (simp add: take_bit_push_bit)
  then have "unat (mk_handle g i AND 0xffff) = take_bit 16 i"
    unfolding mk_handle_def take_bit_16_and by (simp add: unsigned_take_bit_eq unsigned_of_nat)
  with assms show ?thesis by (simp add: take_bit_nat_eq_self)
qed

text \<open>The generation that comes back: as a signed 16-bit number.\<close>

definition gen_back :: "int \<Rightarrow> int" where
  "gen_back g = (if g < 2 ^ 15 then g else g - 2 ^ 16)"

lemma uint_handle:
  assumes "0 \<le> g" and "g < 2 ^ 16" and "i < 2 ^ 16"
  shows "uint (mk_handle g i) = g * 2 ^ 16 + int i"
proof -
  have i: "take_bit 32 i = i" using assms(3) by (simp add: take_bit_nat_eq_self)
  have "uint (mk_handle g i) = push_bit 16 g OR int i"
    using assms i
    by (simp add: mk_handle_def unsigned_or_eq unsigned_push_bit_eq unsigned_of_int unsigned_of_nat
        take_bit_push_bit take_bit_int_eq_self push_bit_take_bit)
  also have "\<dots> = push_bit 16 g + int i"
  proof (rule disjunctive_add [symmetric])
    fix n
    have "bit (int i) n \<Longrightarrow> n < 16"
      using assms(3) by (metis bit_take_bit_iff bit_of_nat_iff_bit take_bit_nat_eq_self)
    then show "\<not> bit (push_bit 16 g) n \<or> \<not> bit (int i) n"
      by (auto simp: bit_simps)
  qed
  finally show ?thesis by (simp add: push_bit_eq_mult)
qed

lemma sint_32: "sint (w :: 32 word) = (if uint w < 2 ^ 31 then uint w else uint w - 2 ^ 32)"
proof -
  have b: "0 \<le> uint w" "uint w < 2 ^ 32" using uint_lt2p [of w] by simp_all
  have s: "sint w = (uint w + 2 ^ 31) mod 2 ^ 32 - 2 ^ 31"
    using sint_uint [of w] by (simp add: signed_take_bit_eq_take_bit_shift take_bit_eq_mod)
  show ?thesis
  proof (cases "uint w < 2 ^ 31")
    case True
    with b s show ?thesis by simp
  next
    case False
    have "(uint w + 2 ^ 31) mod 2 ^ 32 = (uint w + 2 ^ 31 - 2 ^ 32) mod 2 ^ 32"
      by (metis minus_mod_self2)
    also have "\<dots> = uint w + 2 ^ 31 - 2 ^ 32" using False b by (intro mod_pos_pos_trivial) simp_all
    finally show ?thesis using False s by simp
  qed
qed

lemma handle_gen:
  assumes "0 \<le> g" and "g < 2 ^ 16" and "i < 2 ^ 16"
  shows "sint (signed_drop_bit 16 (mk_handle g i)) = gen_back g"
proof -
  have "sint (signed_drop_bit 16 (mk_handle g i)) = sint (mk_handle g i) div 2 ^ 16"
    by (simp only: sint_signed_drop_bit_eq drop_bit_eq_div)
  also have "\<dots> = gen_back g"
    using assms uint_handle [OF assms] by (auto simp: sint_32 gen_back_def)
  finally show ?thesis .
qed

subsection \<open>First free slot\<close>

lemma first_free_None: "first_free P xs = None \<longleftrightarrow> (\<forall>x \<in> set xs. \<not> P x)"
  by (induction xs) auto

lemma first_free_Some:
  "first_free P xs = Some i \<longleftrightarrow> i < length xs \<and> P (xs ! i) \<and> (\<forall>j < i. \<not> P (xs ! j))"
proof (induction xs arbitrary: i)
  case Nil
  then show ?case by simp
next
  case (Cons x xs)
  then show ?case by (cases i) (auto simp: All_less_Suc2)
qed

subsection \<open>Well-formed tables\<close>

definition tables_ok :: "'e world \<Rightarrow> bool" where
  "tables_ok w \<longleftrightarrow>
     length (g_table w) = MLQJS_TABLE_CAP \<and> length (g_generation w) = MLQJS_TABLE_CAP \<and>
     length (g_promises w) = MLQJS_MAX_PROMISES \<and>
     (\<forall>i < MLQJS_TABLE_CAP. 0 \<le> g_generation w ! i \<and> g_generation w ! i \<le> 0xffff) \<and>
     (\<forall>i < MLQJS_TABLE_CAP. \<forall>p. g_table w ! i = Some p \<longrightarrow>
        (\<exists>q. runtimes w p = Some q \<and> gen q = g_generation w ! i \<and> 0 < gen q))"

text \<open>The generation a slot gets when it is handed out again.\<close>

definition next_gen :: "int \<Rightarrow> int" where
  "next_gen g = (let g' = (g + 1) AND 0xffff in if g' = 0 then 1 else g')"

lemma next_gen_eq:
  assumes "0 \<le> g" and "g \<le> 0xffff"
  shows "next_gen g = (if g = 0xffff then 1 else g + 1)"
proof -
  have "(g + 1) AND 0xffff = (g + 1) mod 2 ^ 16"
    using take_bit_eq_mask [of 16 "g + 1"] take_bit_eq_mod [of 16 "g + 1"]
    by (simp add: mask_eq_exp_minus_1)
  with assms show ?thesis by (auto simp: next_gen_def Let_def)
qed

lemma next_gen_range: "0 \<le> g \<Longrightarrow> g \<le> 0xffff \<Longrightarrow> 0 < next_gen g \<and> next_gen g \<le> 0xffff \<and> next_gen g \<noteq> g"
  by (auto simp: next_gen_eq)

lemma table_alloc_eq:
  "table_alloc p w =
     (case first_free (\<lambda>t. t = None) (g_table w) of None \<Rightarrow> (0, w)
      | Some i \<Rightarrow> (let g = next_gen (g_generation w ! i) in
          (mk_handle g i,
           w\<lparr>g_table := (g_table w)[i := Some p], g_generation := (g_generation w)[i := g],
             runtimes := (runtimes w)(p := map_option (\<lambda>q. q\<lparr>gen := g\<rparr>) (runtimes w p))\<rparr>)))"
  by (simp add: table_alloc_def next_gen_def Let_def split: option.split)

lemma mk_handle_nonzero:
  assumes "0 < g" and "g < 2 ^ 16" and "i < 2 ^ 16"
  shows "mk_handle g i \<noteq> 0"
  using uint_handle [of g i] assms by (metis add_nonneg_eq_0_iff less_eq_int_code(1) less_le_not_le
      mult_eq_0_iff of_nat_0_le_iff power_not_zero uint_0_eq zero_neq_numeral zero_le_mult_iff zero_le_power
      zero_le_numeral)

text \<open>Looking a packed handle up.\<close>

lemma table_get_handle:
  assumes "0 \<le> g" and "g < 2 ^ 16" and "i < MLQJS_TABLE_CAP"
  shows "table_get (sint (mk_handle g i)) w =
    (case g_table w ! i of None \<Rightarrow> Stale
     | Some p \<Rightarrow> (case runtimes w p of None \<Rightarrow> Dangling
                  | Some q \<Rightarrow> if gen q \<noteq> gen_back g then Stale else Found (i, p, q)))"
  using assms handle_index [of i g] handle_gen [of g i]
  by (auto simp: table_get_def Let_def split: option.split)

lemma table_get_props:
  assumes "table_get v w = Found (i, p, q)"
  shows "i < MLQJS_TABLE_CAP" and "g_table w ! i = Some p" and "runtimes w p = Some q"
    and "i = unat ((word_of_int v :: 32 word) AND 0xffff)"
    and "gen q = sint (signed_drop_bit 16 (word_of_int v :: 32 word))"
  using assms by (auto simp: table_get_def Let_def split: if_splits option.splits)

text \<open>A handle finds the same thing in two worlds that agree on its slot and its runtime.\<close>

lemma table_get_cong:
  assumes "g_table w' = g_table w" and "runtimes w' = runtimes w"
  shows "table_get v w' = table_get v w"
  by (simp only: table_get_def assms)

subsection \<open>What creation returns\<close>

lemma with_engine_fields [simp]:
  "g_table (with_engine f w) = g_table w" "g_generation (with_engine f w) = g_generation w"
  "g_promises (with_engine f w) = g_promises w" "runtimes (with_engine f w) = runtimes w"
  "heap (with_engine f w) = heap w" "clock (with_engine f w) = clock w" "ticks (with_engine f w) = ticks w"
  "hooks (with_engine f w) = hooks w" "ub (with_engine f w) = ub w"
  by (simp_all add: with_engine_def)

lemma set_heap_fields [simp]:
  "g_table (set_heap h w) = g_table w" "g_generation (set_heap h w) = g_generation w"
  "g_promises (set_heap h w) = g_promises w" "runtimes (set_heap h w) = runtimes w"
  "heap (set_heap h w) = h" "engine (set_heap h w) = engine w" "hooks (set_heap h w) = hooks w"
  "ub (set_heap h w) = ub w"
  by (simp_all add: set_heap_def)

lemma set_rt_fields [simp]:
  "g_table (set_rt p q w) = g_table w" "g_generation (set_rt p q w) = g_generation w"
  "g_promises (set_rt p q w) = g_promises w" "runtimes (set_rt p q w) = (runtimes w)(p \<mapsto> q)"
  "heap (set_rt p q w) = heap w" "engine (set_rt p q w) = engine w" "hooks (set_rt p q w) = hooks w"
  "ub (set_rt p q w) = ub w"
  by (simp_all add: set_rt_def)

lemma install_hook_fields [simp]:
  "g_table (install_hook r p w) = g_table w" "g_generation (install_hook r p w) = g_generation w"
  "g_promises (install_hook r p w) = g_promises w" "runtimes (install_hook r p w) = runtimes w"
  "heap (install_hook r p w) = heap w" "hooks (install_hook r p w) = (hooks w)(r \<mapsto> p)"
  "ub (install_hook r p w) = ub w"
  by (simp_all add: install_hook_def)

lemma free_engine_fields [simp]:
  "g_table (free_engine js r w) = g_table w" "g_generation (free_engine js r w) = g_generation w"
  "g_promises (free_engine js r w) = g_promises w" "runtimes (free_engine js r w) = runtimes w"
  "heap (free_engine js r w) = heap w" "hooks (free_engine js r w) = (hooks w)(r := None)"
  "ub (free_engine js r w) = ub w"
  by (simp_all add: free_engine_def)

lemma on_engine_fields:
  assumes "on_engine f w = (x, w')"
  shows "g_table w' = g_table w" "g_generation w' = g_generation w" "g_promises w' = g_promises w"
    "runtimes w' = runtimes w" "heap w' = heap w" "hooks w' = hooks w" "ub w' = ub w"
  using assms by (auto simp: on_engine_def split: prod.splits)

lemma monotonic_fields:
  assumes "mlqjs_monotonic_ns w = (x, w')"
  shows "g_table w' = g_table w" "g_generation w' = g_generation w" "g_promises w' = g_promises w"
    "runtimes w' = runtimes w" "heap w' = heap w" "hooks w' = hooks w" "ub w' = ub w"
  using assms by (auto simp: mlqjs_monotonic_ns_def)

lemmas world_fields = on_engine_fields monotonic_fields

text \<open>Two worlds that differ only in the engine and the clock.\<close>

definition same_c_side :: "'e world \<Rightarrow> 'e world \<Rightarrow> bool" where
  "same_c_side w w' \<longleftrightarrow> g_table w' = g_table w \<and> g_generation w' = g_generation w \<and>
     g_promises w' = g_promises w \<and> runtimes w' = runtimes w \<and> heap w' = heap w \<and>
     hooks w' = hooks w \<and> ub w' = ub w"

text \<open>A runtime as creation leaves it: no modules, an empty queue, not cancelled.\<close>

definition fresh_runtime :: "ptr \<times> mlqjs_alloc_state \<Rightarrow> mlqjs_runtime \<Rightarrow> bool" where
  "fresh_runtime st q \<longleftrightarrow> rt q \<noteq> None \<and> ctx q \<noteq> None \<and> a_state q = Some st \<and>
     requests q = mlqjs_host_queue_init queue_zero \<and> modules q = [] \<and>
     \<not> cancelled q \<and> \<not> terminal q \<and> interrupt_reason q = REASON_NONE"

lemma create_state_cases:
  assumes "create_state lim w = (r, w')"
  obtains h where "malloc (block 1) (heap w) = (None, h)" "r = CamlFail ''mlqjs_create: out of memory''"
      "w' = set_heap h w"
  | "r = ProcAbort ''mlqjs_alloc_state_new: out of memory''"
  | p h1 st h2 q where "malloc (block 1) (heap w) = (Some p, h1)"
      "mlqjs_alloc_state_new (l_heap (decode_limits lim)) h1 = Some (st, h2)"
      "r = CamlOk (p, decode_limits lim, q)" "same_c_side (set_heap h2 w) w'"
      "q = runtime_zero\<lparr>a_state := Some st, requests := mlqjs_host_queue_init queue_zero,
         deadline_ns := deadline_ns q, cpu_budget_ns := l_cpu_ns (decode_limits lim),
         engine_start_ns := engine_start_ns q\<rparr>"
  using assms
  by (auto simp: create_state_def Let_def same_c_side_def mlqjs_monotonic_ns_def runtime_zero_def
      split: prod.splits option.splits if_splits)

text \<open>Two worlds that differ also in the hook of one engine runtime.\<close>

definition same_but_hook :: "'e world \<Rightarrow> 'e world \<Rightarrow> (nat \<rightharpoonup> ptr) \<Rightarrow> bool" where
  "same_but_hook w w' hk \<longleftrightarrow> g_table w' = g_table w \<and> g_generation w' = g_generation w \<and>
     g_promises w' = g_promises w \<and> runtimes w' = runtimes w \<and> heap w' = heap w \<and>
     hooks w' = hk \<and> ub w' = ub w"

lemma create_engine_cases:
  assumes "create_engine js p l q w = (r, w')"
  obtains m w1 hk where "r = CamlFail m" "same_but_hook w w1 hk" "hk \<subseteq>\<^sub>m hooks w"
      "w' = free_runtime p (set_heap (mlqjs_alloc_state_free (a_state q) (heap w1)) w1)"
  | er ec where "r = CamlOk (er, ec)" "same_but_hook w w' ((hooks w)(er \<mapsto> p))"
proof -
  obtain er w1 where e: "on_engine (JS_NewRuntime js) w = (er, w1)" by fastforce
  note f1 = on_engine_fields [OF e]
  show thesis
  proof (cases er)
    case None
    with assms e f1 that(1) [of _ w1 "hooks w"] show ?thesis by (auto simp: create_engine_def same_but_hook_def)
  next
    case (Some r0)
    let ?w2 = "install_hook r0 p (with_engine (JS_SetHostPromiseRejectionTracker js r0 p \<circ> JS_SetCanBlock js r0 False \<circ>
                  JS_SetInterruptHandler js r0 p \<circ> JS_SetMaxStackSize js r0 (l_stack l) \<circ>
                  JS_SetMemoryLimit js r0 (l_heap l)) w1)"
    obtain ec w3 where c: "on_engine (JS_NewContextRaw js r0) ?w2 = (ec, w3)" by fastforce
    note f2 = on_engine_fields [OF c]
    have sub: "(hooks w)(r0 := None) \<subseteq>\<^sub>m hooks w" by (simp add: map_le_def)
    show ?thesis
    proof (cases ec)
      case None
      with Some assms e c f1 f2 sub that(1) [of _ "free_engine js r0 w3" "(hooks w)(r0 := None)"] show ?thesis
        by (auto simp: create_engine_def same_but_hook_def Let_def)
    next
      case (Some c0)
      with \<open>er = Some r0\<close> assms e c f1 f2 that(2) [of r0 c0] show ?thesis
        by (auto simp: create_engine_def same_but_hook_def Let_def)
    qed
  qed
qed

text \<open>
  The four ways creation goes: the structure cannot be allocated; the accounting state cannot
  (the process aborts); the engine or the handle table refuses and everything is released
  again; or the runtime is registered.
\<close>

lemma create_cases:
  assumes "mlqjs_create js lim w = (r, w')" and "tables_ok w"
  obtains h where "malloc (block 1) (heap w) = (None, h)" "r = CamlFail ''mlqjs_create: out of memory''"
      "w' = set_heap h w"
  | "r = ProcAbort ''mlqjs_alloc_state_new: out of memory''"
  | p h1 st h2 m where "malloc (block 1) (heap w) = (Some p, h1)"
      "mlqjs_alloc_state_new (l_heap (decode_limits lim)) h1 = Some (st, h2)" "r = CamlFail m"
      "g_table w' = g_table w" "g_generation w' = g_generation w" "g_promises w' = g_promises w"
      "runtimes w' = (runtimes w)(p := None)"
      "heap w' = c_free (Some p) (mlqjs_alloc_state_free (Some st) h2)"
      "hooks w' \<subseteq>\<^sub>m hooks w" "ub w' = ub w"
  | p h1 st h2 q i where "malloc (block 1) (heap w) = (Some p, h1)"
      "mlqjs_alloc_state_new (l_heap (decode_limits lim)) h1 = Some (st, h2)"
      "fresh_runtime st q" "first_free (\<lambda>t. t = None) (g_table w) = Some i"
      "g_table w' = (g_table w)[i := Some p]"
      "g_generation w' = (g_generation w)[i := next_gen (g_generation w ! i)]"
      "g_promises w' = g_promises w"
      "runtimes w' = (runtimes w)(p \<mapsto> q\<lparr>gen := next_gen (g_generation w ! i)\<rparr>)"
      "heap w' = h2" "r = CamlOk (sint (mk_handle (next_gen (g_generation w ! i)) i))"
      "hooks w' = (hooks w)(the (rt q) \<mapsto> p)" "ub w' = ub w"
proof -
  obtain r1 w1 where s: "create_state lim w = (r1, w1)" by fastforce
  then show thesis
  proof (cases rule: create_state_cases)
    case (1 h)
    with assms s that(1) show ?thesis by (auto simp: mlqjs_create_def)
  next
    case 2
    with assms s that(2) show ?thesis by (auto simp: mlqjs_create_def)
  next
    case (3 p h1 st h2 q)
    have as: "a_state q = Some st" by (subst 3(5)) (simp add: runtime_zero_def)
    obtain r2 w2 where e: "create_engine js p (decode_limits lim) q w1 = (r2, w2)" by fastforce
    then show ?thesis
    proof (cases rule: create_engine_cases)
      case (1 m w3 hk)
      with assms s 3 e as that(3) [of p h1 st h2 m] show ?thesis
        by (auto simp: mlqjs_create_def same_c_side_def same_but_hook_def free_runtime_def)
    next
      case (2 er ec)
      let ?q = "q\<lparr>rt := Some er, ctx := Some ec\<rparr>"
      have fresh: "fresh_runtime st ?q"
        by (subst 3(5)) (simp add: fresh_runtime_def runtime_zero_def)
      show ?thesis
      proof (cases "first_free (\<lambda>t. t = None) (g_table w)")
        case None
        have rq: "requests ?q = mlqjs_host_queue_init queue_zero"
          using fresh by (simp add: fresh_runtime_def)
        have "snd (mlqjs_host_queue_destroy (requests q) h) = h" for h
          using rq by (simp add: mlqjs_host_queue_destroy_def mlqjs_host_queue_init_def queue_zero_def
              request_zero_def free_all_replicate_None)
        with None assms s 3 e 2 as that(3) [of p h1 st h2] show ?thesis
          by (auto simp: mlqjs_create_def same_c_side_def same_but_hook_def free_runtime_def table_alloc_eq Let_def map_le_def
              mlqjs_host_queue_destroy_def split: prod.splits)
      next
        case (Some i)
        then have i: "i < 64" using assms(2) by (auto simp: first_free_Some tables_ok_def)
        let ?g = "next_gen (g_generation w ! i)"
        have "0 < ?g \<and> ?g < 2 ^ 16"
          using assms(2) i next_gen_range [of "g_generation w ! i"] by (auto simp: tables_ok_def)
        then have "mk_handle ?g i \<noteq> 0" using i by (intro mk_handle_nonzero) simp_all
        with Some assms s 3 e 2 fresh that(4) [of p h1 st h2 ?q i] show ?thesis
          by (auto simp: mlqjs_create_def same_c_side_def same_but_hook_def table_alloc_eq Let_def)
      qed
    qed
  qed
qed

text \<open>With well-formed tables no lookup reads a freed structure.\<close>

lemma get_not_dangling:
  assumes "tables_ok w"
  shows "table_get v w \<noteq> Dangling"
proof
  assume "table_get v w = Dangling"
  then obtain p where "unat ((word_of_int v :: 32 word) AND 0xffff) < 64"
    "g_table w ! unat ((word_of_int v :: 32 word) AND 0xffff) = Some p" "runtimes w p = None"
    by (auto simp: table_get_def Let_def split: if_splits option.splits)
  with assms show False by (auto simp: tables_ok_def)
qed

lemma table_get_cases:
  assumes "tables_ok w"
  obtains "table_get v w = Stale" | i p q where "table_get v w = Found (i, p, q)"
  using get_not_dangling [OF assms, of v] by (cases "table_get v w") auto

lemma destroy_cases:
  assumes "mlqjs_destroy js v w = (r, w')" and "tables_ok w"
  obtains "table_get v w = Stale" "w' = w" "r = CamlOk ()"
  | i p q where "table_get v w = Found (i, p, q)" "r = CamlOk ()"
      "g_table w' = (g_table w)[i := None]" "g_generation w' = g_generation w"
      "g_promises w' = g_promises w" "runtimes w' = (runtimes w)(p := None)"
      "heap w' = c_free (Some p) (free_all (map m_source (modules q))
         (mlqjs_alloc_state_free (a_state q) (snd (mlqjs_host_queue_destroy (requests q) (heap w)))))"
      "hooks w' = (case rt q of None \<Rightarrow> hooks w | Some r \<Rightarrow> (hooks w)(r := None))" "ub w' = ub w"
  using assms(2)
proof (cases rule: table_get_cases [of _ v, case_names Stale Found])
  case Stale
  then have "w' = w" "r = CamlOk ()" using assms(1) by (simp_all add: mlqjs_destroy_def)
  with Stale that(1) show ?thesis by blast
next
  case (Found i p q)
  let ?w1 = "w\<lparr>g_table := (g_table w)[i := None]\<rparr>"
  let ?w2 = "case ctx q of Some c \<Rightarrow> with_engine (JS_FreeContext js c) ?w1 | None \<Rightarrow> ?w1"
  let ?w3 = "case rt q of Some r \<Rightarrow> free_engine js r ?w2 | None \<Rightarrow> ?w2"
  have f: "g_table ?w3 = (g_table w)[i := None]" "g_generation ?w3 = g_generation w"
    "g_promises ?w3 = g_promises w" "runtimes ?w3 = runtimes w" "heap ?w3 = heap w"
    "hooks ?w3 = (case rt q of None \<Rightarrow> hooks w | Some r \<Rightarrow> (hooks w)(r := None))" "ub ?w3 = ub w"
    by (cases "rt q"; cases "ctx q"; simp)+
  have "w' = free_runtime p (set_heap (free_all (map m_source (modules q))
      (mlqjs_alloc_state_free (a_state q) (snd (mlqjs_host_queue_destroy (requests q) (heap ?w3))))) ?w3)"
    and "r = CamlOk ()"
    using assms(1) Found
    by (simp_all add: mlqjs_destroy_def Let_def mlqjs_host_queue_destroy_def)
  with Found that(2) [of i p q] f show ?thesis
    by (simp add: free_runtime_def)
qed

subsection \<open>The tables stay well-formed\<close>

text \<open>
  A runtime address in the table is one of a live structure, so a fresh structure is not in
  it yet; two slots never hold the same runtime.
\<close>

definition table_inj :: "'e world \<Rightarrow> bool" where
  "table_inj w \<longleftrightarrow> (\<forall>i < MLQJS_TABLE_CAP. \<forall>j < MLQJS_TABLE_CAP. \<forall>p.
     g_table w ! i = Some p \<longrightarrow> g_table w ! j = Some p \<longrightarrow> i = j)"

lemma tables_ok_register:
  assumes ok: "tables_ok w" and i: "first_free (\<lambda>t. t = None) (g_table w) = Some i"
    and p: "runtimes w p = None"
    and w': "g_table w' = (g_table w)[i := Some p]"
      "g_generation w' = (g_generation w)[i := next_gen (g_generation w ! i)]"
      "length (g_promises w') = length (g_promises w)"
      "runtimes w' = (runtimes w)(p \<mapsto> q\<lparr>gen := next_gen (g_generation w ! i)\<rparr>)"
  shows "tables_ok w'" and "table_inj w \<Longrightarrow> table_inj w'"
proof -
  have il: "i < 64" using i ok by (auto simp: first_free_Some tables_ok_def)
  have len: "length (g_table w) = 64" "length (g_generation w) = 64"
    using ok by (simp_all add: tables_ok_def)
  have g: "0 < next_gen (g_generation w ! i) \<and> next_gen (g_generation w ! i) \<le> 0xffff"
    using next_gen_range [of "g_generation w ! i"] ok il by (auto simp: tables_ok_def)
  have new: "g_table w ! j \<noteq> Some p" if "j < 64" for j
    using ok that p by (force simp: tables_ok_def)
  have gens: "\<forall>j<64. 0 \<le> g_generation w' ! j \<and> g_generation w' ! j \<le> 0xffff"
    using ok g w'(2) len il by (auto simp: tables_ok_def nth_list_update)
  have ents: "\<exists>q'. runtimes w' r = Some q' \<and> gen q' = g_generation w' ! j \<and> 0 < gen q'"
    if "j < 64" "g_table w' ! j = Some r" for j r
  proof (cases "j = i")
    case True
    with that w' len il g show ?thesis by simp
  next
    case False
    with that w'(1) have "g_table w ! j = Some r" by simp
    with False that new w' ok show ?thesis by (fastforce simp: tables_ok_def)
  qed
  show "tables_ok w'"
    using ok gens ents w' by (simp add: tables_ok_def)
  show "table_inj w \<Longrightarrow> table_inj w'"
    using new w'(1) len il by (auto simp: table_inj_def nth_list_update split: if_splits)
qed

lemma tables_ok_unregister:
  assumes ok: "tables_ok w" and inj: "table_inj w" and i: "i < MLQJS_TABLE_CAP" "g_table w ! i = Some p"
    and w': "g_table w' = (g_table w)[i := None]" "g_generation w' = g_generation w"
      "length (g_promises w') = length (g_promises w)" "runtimes w' = (runtimes w)(p := None)"
  shows "tables_ok w'" and "table_inj w'"
proof -
  have len: "length (g_table w) = 64" using ok by (simp add: tables_ok_def)
  have ents: "\<exists>q'. runtimes w' r = Some q' \<and> gen q' = g_generation w' ! j \<and> 0 < gen q'"
    if j: "j < 64" "g_table w' ! j = Some r" for j r
  proof -
    have ji: "j \<noteq> i" using j w'(1) len i by auto
    with j w'(1) have "g_table w ! j = Some r" by simp
    moreover from this have "r \<noteq> p" using inj i j ji by (auto simp: table_inj_def)
    ultimately show ?thesis using j w' ok by (auto simp: tables_ok_def)
  qed
  show "tables_ok w'" using ok ents w' by (simp add: tables_ok_def)
  show "table_inj w'"
    using inj w'(1) len i unfolding table_inj_def by (metis length_list_update nth_list_update option.discI)
qed

lemma created_get:
  assumes "tables_ok w" and "mlqjs_create js lim w = (CamlOk v, w')"
  shows "\<exists>i p q. first_free (\<lambda>t. t = None) (g_table w) = Some i \<and>
    g_table w' = (g_table w)[i := Some p] \<and> runtimes w' p = Some q \<and>
    gen q = next_gen (g_generation w ! i) \<and>
    table_get v w' = (if gen q < 0x8000 then Found (i, p, q) else Stale)"
  using assms(2,1)
proof (cases rule: create_cases)
  case (4 p h1 st h2 q i)
  let ?g = "next_gen (g_generation w ! i)"
  have i: "i < 64" "i < length (g_table w)"
    using 4 assms(1) by (auto simp: first_free_Some tables_ok_def)
  then have g: "0 < ?g" "?g \<le> 0xffff"
    using next_gen_range [of "g_generation w ! i"] assms(1) by (auto simp: tables_ok_def)
  have "table_get v w' = (if ?g < 0x8000 then Found (i, p, q\<lparr>gen := ?g\<rparr>) else Stale)"
    using 4 i g table_get_handle [of ?g i w'] by (auto simp: gen_back_def)
  with 4 show ?thesis by auto
qed simp_all

text \<open>Nothing registered yet, and an engine that always succeeds and never calls back.\<close>

definition world0 :: "'e \<Rightarrow> 'e world" where
  "world0 e = \<lparr>g_table = replicate MLQJS_TABLE_CAP None, g_generation = replicate MLQJS_TABLE_CAP 0,
     g_promises = replicate MLQJS_MAX_PROMISES
       \<lparr>ps_id = 0, resolve = JS_UNDEFINED, reject = JS_UNDEFINED, in_use = False, ps_owner = 0\<rparr>,
     runtimes = Map.empty,
     heap = \<lparr>blocks = Map.empty, brk = 0, oom = (\<lambda>_. False), bad_free = False\<rparr>,
     clock = (\<lambda>_. 0), ticks = 0, engine = e, hooks = Map.empty, ub = False\<rparr>"

definition quiet_js :: "'e js_api" where
  "quiet_js = \<lparr>JS_NewRuntime = (\<lambda>e. (Some 0, e)), JS_FreeRuntime = (\<lambda>_ e. e),
     JS_SetMemoryLimit = (\<lambda>_ _ e. e), JS_SetMaxStackSize = (\<lambda>_ _ e. e),
     JS_SetInterruptHandler = (\<lambda>_ _ e. e), JS_SetCanBlock = (\<lambda>_ _ e. e),
     JS_SetHostPromiseRejectionTracker = (\<lambda>_ _ e. e), JS_SetModuleLoaderFunc = (\<lambda>_ _ e. e),
     JS_NewContextRaw = (\<lambda>_ e. (Some 0, e)), JS_FreeContext = (\<lambda>_ e. e),
     JS_AddIntrinsic = (\<lambda>_ _ e. e), JS_SetContextOpaque = (\<lambda>_ _ e. e),
     JS_GetContextOpaque = (\<lambda>_ _. 0), js_malloc_ok = (\<lambda>_ _ e. (True, e)),
     JS_Eval = (\<lambda>_ _ _ _ w. (JS_UNDEFINED, w)), JS_GetException = (\<lambda>_ e. (JS_UNDEFINED, e)),
     JS_FreeValue = (\<lambda>_ _ e. e), JS_ToInt32 = (\<lambda>_ _ w. (Some 7, w)),
     JS_ToCString = (\<lambda>_ _ w. (Some ''{}'', w)), JS_FreeCString = (\<lambda>_ _ e. e),
     JS_JSONStringify = (\<lambda>_ _ w. (JSVal 1, w)), JS_ParseJSON = (\<lambda>_ _ e. (JSVal 2, e)),
     JS_NewString = (\<lambda>_ _ e. (JSVal 3, e)),
     JS_NewPromiseCapability = (\<lambda>_ e. ((JSVal 4, JSVal 5, JSVal 6), e)),
     JS_Call = (\<lambda>_ _ _ w. (JS_UNDEFINED, w)), JS_Throw = (\<lambda>_ _ e. e),
     JS_NewObject = (\<lambda>_ e. (JSVal 7, e)), JS_NewCFunction = (\<lambda>_ _ _ e. (JSVal 8, e)),
     JS_SetPropertyStr = (\<lambda>_ _ _ _ e. e), JS_GetGlobalObject = (\<lambda>_ e. (JSVal 9, e)),
     JS_IsJobPending = (\<lambda>_ _. False), JS_ExecutePendingJob = (\<lambda>_ w. ((0, 0), w)),
     JS_MemoryUsedSize = (\<lambda>_ _. 0)\<rparr>"

lemma tables_ok_world0: "tables_ok (world0 e) \<and> table_inj (world0 e)"
  by (simp add: tables_ok_def table_inj_def world0_def)

lemma world0_fields:
  "first_free (\<lambda>t. t = None) (g_table (world0 e)) = Some 0" "g_generation (world0 e) ! 0 = 0"
  "None \<in> set (g_table (world0 e))" "\<not> oom (heap (world0 e)) k" "runtimes (world0 e) p = None"
  by (simp_all add: world0_def first_free_Some)

lemma quiet_create:
  assumes "tables_ok w" and "\<forall>k. \<not> oom (heap w) k" and "None \<in> set (g_table w)"
  shows "\<exists>v w'. mlqjs_create quiet_js lim w = (CamlOk v, w')"
proof -
  obtain i where i: "first_free (\<lambda>t. t = None) (g_table w) = Some i"
    using assms(3) first_free_None [of "\<lambda>t. t = None" "g_table w"] by (cases "first_free (\<lambda>t. t = None) (g_table w)") auto
  then have "i < 64" using assms(1) by (auto simp: first_free_Some tables_ok_def)
  then have "mk_handle (next_gen (g_generation w ! i)) i \<noteq> 0"
    using assms(1) next_gen_range [of "g_generation w ! i"]
    by (intro mk_handle_nonzero) (auto simp: tables_ok_def)
  with i assms(2) show ?thesis
    by (simp add: mlqjs_create_def create_state_def create_engine_def mlqjs_alloc_state_new_def malloc_def
        on_engine_def with_engine_def install_hook_def quiet_js_def Let_def table_alloc_eq mlqjs_monotonic_ns_def set_rt_def
        set_heap_def)
qed

text \<open>A first creation, and the lookup of its handle.\<close>

lemma quiet_create0:
  obtains v w p q where "mlqjs_create quiet_js lim (world0 ()) = (CamlOk v, w)"
    "table_get v w = Found (0, p, q)" "g_table w ! 0 = Some p"
proof -
  obtain v w where c: "mlqjs_create quiet_js lim (world0 ()) = (CamlOk v, w)"
    using quiet_create [of "world0 ()" lim] tables_ok_world0 [of "()"] world0_fields(3,4) [of "()"]
    by auto
  have "next_gen 0 = 1" by (simp add: next_gen_def)
  with created_get [OF tables_ok_world0 [THEN conjunct1] c]
  obtain p q where g: "table_get v w = Found (0, p, q)" by (auto simp: world0_fields)
  from that [OF c g table_get_props(2) [OF g]] show thesis .
qed

subsection \<open>Properties\<close>

text \<open>
  C6. Creation and lookup. When \<open>mlqjs_create\<close> returns a handle, it registered the new runtime
  in the first free slot of the table under the next generation of that slot. The handle finds
  that runtime exactly when the generation is below 32768: from then on the generation fills
  the sign bit of the C \<^verbatim>\<open>int\<close>, the arithmetic shift brings it back negative, and the handle
  just returned is refused as stale.
\<close>

theorem created_handle_lookup:
  assumes "tables_ok w" and "mlqjs_create js lim w = (CamlOk v, w')"
  shows "\<exists>i p q. first_free (\<lambda>t. t = None) (g_table w) = Some i \<and>
    g_table w' = (g_table w)[i := Some p] \<and> runtimes w' p = Some q \<and>
    gen q = next_gen (g_generation w ! i) \<and>
    table_get v w' = (if gen q < 0x8000 then Found (i, p, q) else Stale)"
  using assms by (rule created_get)

theorem created_handle_lookup_witness:
  "\<exists>v w' p q. mlqjs_create quiet_js ''1000000|'' (world0 ()) = (CamlOk v, w') \<and>
     table_get v w' = Found (0, p, q) \<and> gen q = 1"
proof -
  obtain v w p q where c: "mlqjs_create quiet_js ''1000000|'' (world0 ()) = (CamlOk v, w)"
    and "table_get v w = Found (0, p, q)" by (rule quiet_create0)
  moreover have "next_gen 0 = 1" by (simp add: next_gen_def)
  ultimately show ?thesis
    using created_handle_lookup [OF tables_ok_world0 [THEN conjunct1] c] by (auto simp: world0_fields)
qed

end
