(* ===== verification/Safety.thy ===== *)
theory Safety
  imports Handles
begin

text \<open>
  Memory safety of the bindings. Every heap block is owned by exactly one runtime in the
  handle table: the structure itself, its accounting state, the payloads in its queue and
  its module sources; and every opaque pointer the engine still holds is the address of a live
  structure. All primitives keep this, for every engine that touches the C side only through the
  callbacks. The one thing they do not keep alive are the values in the promise table: a slot of
  a destroyed runtime stays in use, and resolving it is undefined behaviour.
\<close>

subsection \<open>Ownership\<close>

definition owns_rt :: "ptr \<Rightarrow> mlqjs_runtime \<Rightarrow> ptr list" where
  "owns_rt p q = p # ptrs [map_option fst (a_state q)] @ owned (requests q) @ ptrs (map m_source (modules q))"

definition owns :: "'e world \<Rightarrow> ptr \<Rightarrow> ptr set" where
  "owns w p = (case runtimes w p of None \<Rightarrow> {} | Some q \<Rightarrow> set (owns_rt p q))"

definition rt_ok :: "mlqjs_runtime \<Rightarrow> bool" where
  "rt_ok q \<longleftrightarrow> rt q \<noteq> None \<and> ctx q \<noteq> None \<and> q_inv (requests q) \<and>
     (\<forall>r \<in> set (q_list (requests q)). payload r \<noteq> None) \<and>
     (\<forall>e \<in> set (modules q). m_source e \<noteq> None)"

definition mem_ok :: "'e world \<Rightarrow> bool" where
  "mem_ok w \<longleftrightarrow> heap_ok (heap w) \<and>
     (\<forall>p q. runtimes w p = Some q \<longrightarrow> rt_ok q \<and> distinct (owns_rt p q)) \<and>
     (\<forall>p p'. p \<noteq> p' \<longrightarrow> owns w p \<inter> owns w p' = {}) \<and>
     (\<Union>p. owns w p) = dom (blocks (heap w))"

text \<open>An engine runtime calls back only into the live structure it belongs to.\<close>

definition hooks_ok :: "'e world \<Rightarrow> bool" where
  "hooks_ok w \<longleftrightarrow> (\<forall>r p. hooks w r = Some p \<longrightarrow> (\<exists>q. runtimes w p = Some q \<and> rt q = Some r))"

definition world_inv :: "'e world \<Rightarrow> bool" where
  "world_inv w \<longleftrightarrow> tables_ok w \<and> table_inj w \<and> mem_ok w \<and> hooks_ok w \<and> \<not> ub w \<and>
     (\<forall>p. p \<in> dom (runtimes w) \<longleftrightarrow> Some p \<in> set (g_table w))"

lemma owns_sub: "mem_ok w \<Longrightarrow> owns w p \<subseteq> dom (blocks (heap w))"
  unfolding mem_ok_def by blast

lemma UN_minus_one:
  assumes "\<And>x y. x \<noteq> y \<Longrightarrow> f x \<inter> f y = {}"
  shows "(\<Union>x \<in> - {p}. f x) = (\<Union>x. f x) - f p"
  using assms by auto

text \<open>Changing one runtime and the blocks it owns.\<close>

lemma mem_ok_update:
  assumes ok: "mem_ok w" and h': "heap_ok (heap w')"
    and r': "runtimes w' = (runtimes w)(p \<mapsto> q')" and q': "rt_ok q'" "distinct (owns_rt p q')"
    and new: "set (owns_rt p q') \<inter> (dom (blocks (heap w)) - owns w p) = {}"
    and dom: "dom (blocks (heap w')) = (dom (blocks (heap w)) - owns w p) \<union> set (owns_rt p q')"
  shows "mem_ok w'"
proof -
  have o: "owns w' x = (if x = p then set (owns_rt p q') else owns w x)" for x
    by (simp add: owns_def r')
  have un: "(\<Union>x. owns w x) = dom (blocks (heap w))" and dis: "\<And>x y. x \<noteq> y \<Longrightarrow> owns w x \<inter> owns w y = {}"
    using ok by (auto simp: mem_ok_def)
  have rest: "(\<Union>x \<in> - {p}. owns w x) = dom (blocks (heap w)) - owns w p"
    using UN_minus_one [of "owns w" p] dis un by simp
  have oth: "owns w' x = owns w x" if "x \<noteq> p" for x using that by (simp add: o)
  have own: "owns w' p = set (owns_rt p q')" by (simp add: o)
  have "(\<Union>x. owns w' x) = owns w' p \<union> (\<Union>x \<in> - {p}. owns w' x)" by blast
  also have "\<dots> = set (owns_rt p q') \<union> (\<Union>x \<in> - {p}. owns w x)" using oth own by simp
  finally have cover: "(\<Union>x. owns w' x) = dom (blocks (heap w'))"
    unfolding rest dom by (simp add: Un_commute)
  have sub: "owns w z \<inter> set (owns_rt p q') = {}" if "z \<noteq> p" for z
    using owns_sub [OF ok, of z] dis [OF that] new by auto
  have "owns w' x \<inter> owns w' y = {}" if "x \<noteq> y" for x y
    using that oth own sub [of x] sub [of y] dis [OF that]
    by (cases "x = p"; cases "y = p"; simp add: Int_commute)
  moreover have "\<forall>x q. runtimes w' x = Some q \<longrightarrow> rt_ok q \<and> distinct (owns_rt x q)"
    using ok q' by (simp add: mem_ok_def r')
  ultimately show ?thesis
    unfolding mem_ok_def using h' cover by blast
qed

lemma mem_ok_remove:
  assumes ok: "mem_ok w" and h': "heap_ok (heap w')" and r': "runtimes w' = (runtimes w)(p := None)"
    and dom: "dom (blocks (heap w')) = dom (blocks (heap w)) - owns w p"
  shows "mem_ok w'"
proof -
  have o: "owns w' x = (if x = p then {} else owns w x)" for x
    by (simp add: owns_def r')
  have un: "(\<Union>x. owns w x) = dom (blocks (heap w))" and dis: "\<And>x y. x \<noteq> y \<Longrightarrow> owns w x \<inter> owns w y = {}"
    using ok by (auto simp: mem_ok_def)
  have "(\<Union>x. owns w' x) = (\<Union>x \<in> - {p}. owns w x)"
    by (auto simp: o)
  then have "(\<Union>x. owns w' x) = dom (blocks (heap w'))"
    using UN_minus_one [of "owns w" p] dis un dom by simp
  moreover have "\<forall>x y. x \<noteq> y \<longrightarrow> owns w' x \<inter> owns w' y = {}"
    using dis by (simp add: o)
  moreover have "\<forall>x q. runtimes w' x = Some q \<longrightarrow> rt_ok q \<and> distinct (owns_rt x q)"
    using ok by (simp add: mem_ok_def r')
  ultimately show ?thesis
    unfolding mem_ok_def using h' by blast
qed

text \<open>A change of a live runtime that keeps its generation keeps the tables.\<close>

lemma world_inv_update:
  assumes inv: "world_inv w" and q: "runtimes w p = Some q" and g: "gen q' = gen q" "rt q' = rt q"
    and w': "g_table w' = g_table w" "g_generation w' = g_generation w"
      "length (g_promises w') = length (g_promises w)" "runtimes w' = (runtimes w)(p \<mapsto> q')"
      "hooks w' = hooks w" "ub w' = ub w"
    and m: "mem_ok w'"
  shows "world_inv w'"
proof -
  have "tables_ok w'"
    using inv q g w' by (auto simp: world_inv_def tables_ok_def)
  moreover have "table_inj w'" using inv w'(1) by (simp add: world_inv_def table_inj_def)
  moreover have "hooks_ok w'" using inv q g(2) w'(4,5) by (fastforce simp: world_inv_def hooks_ok_def)
  ultimately show ?thesis using inv q w' m by (auto simp: world_inv_def)
qed

text \<open>A change that leaves the C side alone, up to the contents of the promise table.\<close>

lemma world_inv_same:
  assumes inv: "world_inv w"
    and w': "g_table w' = g_table w" "g_generation w' = g_generation w"
      "length (g_promises w') = length (g_promises w)" "runtimes w' = runtimes w"
      "heap_ok (heap w')" "dom (blocks (heap w')) = dom (blocks (heap w))"
      "hooks w' \<subseteq>\<^sub>m hooks w" "ub w' = ub w"
  shows "world_inv w'"
proof -
  have "owns w' p = owns w p" for p by (simp add: owns_def w')
  moreover have "hooks_ok w'"
    using inv w'(4,7) unfolding world_inv_def hooks_ok_def map_le_def by (metis domI)
  ultimately show ?thesis
    using inv w' by (simp add: world_inv_def tables_ok_def table_inj_def mem_ok_def)
qed

lemma world_inv_c_side: "same_c_side w w' \<Longrightarrow> world_inv w \<Longrightarrow> world_inv w'"
  by (rule world_inv_same [of w w']) (simp_all add: same_c_side_def world_inv_def mem_ok_def)

lemma same_with_engine [simp]: "same_c_side w (with_engine f w)"
  by (simp add: same_c_side_def)

lemma same_on_engine: "on_engine f w = (x, w') \<Longrightarrow> same_c_side w w'"
  by (simp add: same_c_side_def world_fields)

lemma same_monotonic: "mlqjs_monotonic_ns w = (x, w') \<Longrightarrow> same_c_side w w'"
  by (simp add: same_c_side_def world_fields)

lemma world_inv_with_engine [simp]: "world_inv w \<Longrightarrow> world_inv (with_engine f w)"
  by (rule world_inv_c_side) simp_all

text \<open>A change of fields that own nothing.\<close>

lemma world_inv_set_rt:
  assumes inv: "world_inv w" and q: "runtimes w p = Some q"
    and q': "gen q' = gen q" "rt q' = rt q" "ctx q' = ctx q" "a_state q' = a_state q"
      "requests q' = requests q" "modules q' = modules q"
  shows "world_inv (set_rt p q' w)"
proof (rule world_inv_update [OF inv q q'(1,2)])
  have o: "owns_rt p q' = owns_rt p q" "owns w p = set (owns_rt p q)"
    using q q' by (simp_all add: owns_rt_def owns_def)
  have m: "mem_ok w" using inv by (simp add: world_inv_def)
  have "rt_ok q'" "distinct (owns_rt p q)" "heap_ok (heap w)"
    using m q q' by (auto simp: mem_ok_def rt_ok_def)
  then show "mem_ok (set_rt p q' w)"
    using owns_sub [OF m, of p] o by (intro mem_ok_update [OF m, where p = p and q' = q']) auto
qed simp_all

subsection \<open>What a script can do to the C side\<close>

text \<open>
  Running JavaScript changes the C side only through the callbacks the bindings installed:
  the interrupt handler, the rejection tracker, the module loader and the two host functions.
  The engine passes each of them an opaque pointer it was given for an engine runtime that has not
  been freed; that the pointer is the address of a live structure is not assumed but proved below.
  A callback may itself run JavaScript (a module body that is compiled, a conversion of an
  argument), which has to end as well. When a callback reads freed memory, anything may follow,
  and the ghost flag is set.
\<close>

definition outcome :: "('a \<times> 'e world) option \<Rightarrow> 'e world \<Rightarrow> bool" where
  "outcome res w' = (case res of None \<Rightarrow> ub w' | Some (x, w1) \<Rightarrow> w' = w1)"

inductive runs :: "'e js_api \<Rightarrow> 'e world \<Rightarrow> 'e world \<Rightarrow> bool" for js where
  runs_internal: "same_c_side w w' \<Longrightarrow> runs js w w'"
| runs_trans: "runs js w w' \<Longrightarrow> runs js w' w'' \<Longrightarrow> runs js w w''"
| runs_interrupt: "p \<in> ran (hooks w) \<Longrightarrow> outcome (mlqjs_interrupt p w) w' \<Longrightarrow> runs js w w'"
| runs_tracker: "p \<in> ran (hooks w) \<Longrightarrow> outcome (map_option (Pair ()) (mlqjs_rejection_tracker b p w)) w' \<Longrightarrow>
    runs js w w'"
| runs_loader: "p \<in> ran (hooks w) \<Longrightarrow> outcome (mlqjs_module_loader js c name p w) w' \<Longrightarrow>
    (\<And>src. runs js w (snd (JS_Eval js c src name EVAL_MODULE_COMPILE_ONLY w))) \<Longrightarrow> runs js w w'"
| runs_later: "JS_GetContextOpaque js c (engine w) \<in> ran (hooks w) \<Longrightarrow>
    outcome (mlqjs_host_later js c argv w) w' \<Longrightarrow>
    (\<And>a. runs js w (snd (JS_ToInt32 js c a w))) \<Longrightarrow> runs js w w'"
| runs_rpc: "JS_GetContextOpaque js c (engine w) \<in> ran (hooks w) \<Longrightarrow>
    outcome (mlqjs_host_rpc js c argv w) w' \<Longrightarrow>
    (\<And>a. runs js w (snd (JS_ToCString js c a w))) \<Longrightarrow>
    (\<And>a b. runs js w (snd (JS_JSONStringify js c b (snd (JS_ToCString js c a w))))) \<Longrightarrow>
    (\<And>a b d. runs js w (snd (JS_ToCString js c d (snd (JS_JSONStringify js c b (snd (JS_ToCString js c a w))))))) \<Longrightarrow>
    runs js w w'"

text \<open>The engine functions that may run a script do nothing else to the C side.\<close>

definition confined :: "'e js_api \<Rightarrow> bool" where
  "confined js \<longleftrightarrow>
     (\<forall>c src name t w. runs js w (snd (JS_Eval js c src name t w))) \<and>
     (\<forall>c a w. runs js w (snd (JS_ToInt32 js c a w))) \<and>
     (\<forall>c a w. runs js w (snd (JS_ToCString js c a w))) \<and>
     (\<forall>c f a w. runs js w (snd (JS_Call js c f a w))) \<and>
     (\<forall>r w. runs js w (snd (JS_ExecutePendingJob js r w)))"

text \<open>What every run of a script keeps: the invariant, the set of live runtimes, and the handles.\<close>

definition kept :: "'e world \<Rightarrow> 'e world \<Rightarrow> bool" where
  "kept w w' \<longleftrightarrow> world_inv w' \<and> dom (runtimes w') = dom (runtimes w) \<and> g_table w' = g_table w \<and>
     g_generation w' = g_generation w \<and> hooks w' = hooks w"

lemma hooked_live: "world_inv w \<Longrightarrow> p \<in> ran (hooks w) \<Longrightarrow> p \<in> dom (runtimes w)"
  by (fastforce simp: world_inv_def hooks_ok_def ran_def)

lemma outcomeE:
  assumes "outcome res w'" and "res \<noteq> None"
  obtains x where "res = Some (x, w')"
  using assms by (auto simp: outcome_def)

lemma kept_refl: "world_inv w \<Longrightarrow> kept w w"
  by (simp add: kept_def)

lemma kept_trans: "kept w w' \<Longrightarrow> kept w' w'' \<Longrightarrow> kept w w''"
  by (simp add: kept_def)

lemma kept_inv: "kept w w' \<Longrightarrow> world_inv w'"
  by (simp add: kept_def)

lemma kept_c_side: "same_c_side w w' \<Longrightarrow> world_inv w \<Longrightarrow> kept w w'"
  using world_inv_c_side by (auto simp: kept_def same_c_side_def)

lemma kept_with_engine: "kept w w' \<Longrightarrow> kept w (with_engine f w')"
  by (simp add: kept_def)

lemma kept_set_rt:
  assumes "world_inv w" and "runtimes w p = Some q"
    and "gen q' = gen q" "rt q' = rt q" "ctx q' = ctx q" "a_state q' = a_state q"
      "requests q' = requests q" "modules q' = modules q"
  shows "kept w (set_rt p q' w)"
  using world_inv_set_rt [OF assms] assms(2) by (auto simp: kept_def)

lemma kept_interrupt:
  assumes "world_inv w" and "mlqjs_interrupt p w = Some (b, w')"
  shows "kept w w'"
proof -
  obtain q where q: "runtimes w p = Some q" using assms(2) by (auto simp: mlqjs_interrupt_def split: option.splits)
  obtain now w1 where m: "mlqjs_monotonic_ns w = (now, w1)" by fastforce
  have k: "kept w w1" using kept_c_side [OF same_monotonic [OF m] assms(1)] .
  have q1: "runtimes w1 p = Some q" using q monotonic_fields(4) [OF m] by simp
  consider "w' = w1" | r where "w' = set_rt p (q\<lparr>interrupt_reason := r\<rparr>) w1"
    | "w' = set_rt p (q\<lparr>interrupt_reason := REASON_CANCEL\<rparr>) w"
    using assms(2) q m by (auto simp: mlqjs_interrupt_def Let_def split: if_splits)
  then show ?thesis
  proof cases
    case 2
    then show ?thesis using kept_trans [OF k kept_set_rt [OF kept_inv [OF k] q1]] by simp
  next
    case 3
    then show ?thesis using kept_set_rt [OF assms(1) q] by simp
  qed (use k in simp)
qed

lemma kept_tracker:
  assumes "world_inv w" and "mlqjs_rejection_tracker b p w = Some w'"
  shows "kept w w'"
  using assms kept_set_rt [OF assms(1)] kept_refl [OF assms(1)]
  by (auto simp: mlqjs_rejection_tracker_def split: option.splits if_splits)

lemma kept_loader:
  assumes "world_inv w" and "mlqjs_module_loader js c name p w = Some (r, w')"
    and "\<And>src. kept w (snd (JS_Eval js c src name EVAL_MODULE_COMPILE_ONLY w))"
  shows "kept w w'"
proof -
  have e: "kept w w1" if "JS_Eval js c src name EVAL_MODULE_COMPILE_ONLY w = (x, w1)" for src x w1
    using assms(3) [of src] that by simp
  show ?thesis
    using assms(1,2)
    by (auto simp: mlqjs_module_loader_def Let_def intro: kept_refl kept_with_engine dest: e
        split: option.splits prod.splits if_splits)
qed

subsection \<open>Handing a payload to the queue\<close>

lemma mem_ok_runtime:
  assumes "world_inv w" and "runtimes w p = Some q"
  shows "rt_ok q" "distinct (owns_rt p q)" "set (owns_rt p q) \<subseteq> dom (blocks (heap w))" "heap_ok (heap w)"
    "owns w p = set (owns_rt p q)"
  using assms owns_sub [of w p] by (auto simp: world_inv_def mem_ok_def owns_def)

lemma queue_owns_runtime:
  assumes "world_inv w" and "runtimes w p = Some q"
  shows "queue_owns (requests q) (heap w)"
  using mem_ok_runtime [OF assms] by (auto simp: queue_owns_def owns_rt_def rt_ok_def)

lemma promise_insert_fields:
  assumes "promise_insert js c p res rej i w = (ok, w')"
  shows "g_table w' = g_table w" "g_generation w' = g_generation w"
    "length (g_promises w') = length (g_promises w)" "runtimes w' = runtimes w" "heap w' = heap w"
    "hooks w' = hooks w" "ub w' = ub w"
  using assms by (auto simp: promise_insert_def split: option.splits)

lemma world_inv_push:
  assumes inv: "world_inv w" and q: "runtimes w p = Some q" and m: "malloc bytes (heap w) = (Some b, h)"
    and push: "mlqjs_host_queue_push (requests q) op (Some b) n h = (i, rq, h')"
  shows "world_inv (set_rt p (q\<lparr>requests := rq\<rparr>) (set_heap h' w))"
proof (rule world_inv_update [OF inv q])
  note q_ok = mem_ok_runtime [OF inv q]
  have fresh: "b \<notin> dom (blocks (heap w))" and dh: "dom (blocks h) = insert b (dom (blocks (heap w)))"
    using malloc_fresh [OF q_ok(4) m] malloc_dom [OF m] by auto
  have hh: "heap_ok h" using heap_ok_malloc [OF q_ok(4), of bytes] m by simp
  have own: "queue_owns (requests q) h"
    using queue_owns_runtime [OF inv q] hh dh by (auto simp: queue_owns_def)
  have nb: "b \<notin> set (owned (requests q))" using fresh q_ok(3) by (auto simp: owns_rt_def)
  have b: "b \<in> dom (blocks h)" using dh by simp
  let ?q = "q\<lparr>requests := rq\<rparr>"
  have ql: "q_list rq = q_list (requests q) @ [req_set request_zero i op (Some b) n] \<and>
      owned rq = owned (requests q) @ [b] \<and> h' = h" if "count (requests q) < MLQJS_QUEUE_CAP"
    using owns_push(2) [OF own b nb push that] push_room(4) [OF _ that push] own
    by (simp add: queue_owns_def)
  have full: "rq = requests q \<and> h' = c_free (Some b) h" if "MLQJS_QUEUE_CAP \<le> count (requests q)"
    using push push_full [OF that] by simp
  have qi: "q_inv rq" "heap_ok h'" using owns_push(1) [OF own b nb push] by (simp_all add: queue_owns_def)
  have ok: "rt_ok ?q"
    using q_ok(1) qi(1) ql full
    by (cases "count (requests q) < MLQJS_QUEUE_CAP") (auto simp: rt_ok_def req_set_def Let_def)
  have d: "distinct (owns_rt p ?q) \<and> set (owns_rt p ?q) \<inter> (dom (blocks (heap w)) - owns w p) = {} \<and>
      dom (blocks h') = dom (blocks (heap w)) - owns w p \<union> set (owns_rt p ?q)"
  proof (cases "count (requests q) < MLQJS_QUEUE_CAP")
    case True
    have s: "set (owns_rt p ?q) = insert b (set (owns_rt p q))" using ql [OF True] by (auto simp: owns_rt_def)
    have "b \<notin> set (owns_rt p q)" using fresh q_ok(3) by auto
    then have "distinct (owns_rt p ?q)" using q_ok(2) ql [OF True] by (auto simp: owns_rt_def)
    with s fresh q_ok(3,5) ql [OF True] dh show ?thesis by auto
  next
    case False
    then have "owns_rt p ?q = owns_rt p q" "h' = c_free (Some b) h" using full by (simp_all add: owns_rt_def)
    moreover from this have "dom (blocks h') = dom (blocks (heap w))"
      using dh free_dom [OF b] fresh by simp
    ultimately show ?thesis using q_ok(2,3,5) by (simp add: Un_absorb2)
  qed
  have "mem_ok w" using inv by (simp add: world_inv_def)
  then show "mem_ok (set_rt p ?q (set_heap h' w))"
    by (rule mem_ok_update [where p = p and q' = ?q]) (use ok d qi(2) in simp_all)
qed simp_all

lemma kept_enqueue:
  assumes inv: "world_inv w" and m: "malloc bytes (heap w) = (Some b, h)"
    and e: "enqueue_and_register js c p op full b n promise res rej (with_engine f (set_heap h w)) = Some (r, w')"
  shows "kept w w'"
proof -
  obtain q where q: "runtimes w p = Some q"
    using e by (auto simp: enqueue_and_register_def split: option.splits)
  obtain i rq h' where push: "mlqjs_host_queue_push (requests q) (Some op) (Some b) n h = (i, rq, h')"
    by (rule prod_cases3)
  let ?w1 = "set_rt p (q\<lparr>requests := rq\<rparr>) (set_heap h' (with_engine f (set_heap h w)))"
  have "?w1 = with_engine f (set_rt p (q\<lparr>requests := rq\<rparr>) (set_heap h' w))"
    by (simp add: set_rt_def set_heap_def with_engine_def)
  then have k1: "kept w ?w1"
    using world_inv_push [OF inv q m push] q by (auto simp: kept_def)
  obtain ok w2 where ins: "promise_insert js c p res rej i ?w1 = (ok, w2)" by fastforce
  note pf = promise_insert_fields [OF ins]
  have "world_inv w2"
    using kept_inv [OF k1] by (rule world_inv_same)
      (use pf mem_ok_runtime(4) [OF kept_inv [OF k1], of p] in simp_all)
  then have k2: "kept w w2" using k1 pf by (simp add: kept_def)
  show ?thesis
    using e q push ins k1 k2
    by (auto simp: enqueue_and_register_def js_throw_def Let_def intro: kept_with_engine split: if_splits)
qed

lemma kept_malloc_fail: "world_inv w \<Longrightarrow> malloc bytes (heap w) = (None, h) \<Longrightarrow> kept w (set_heap h w)"
proof -
  assume inv: "world_inv w" and m: "malloc bytes (heap w) = (None, h)"
  have "heap_ok h" using heap_ok_malloc [of "heap w" bytes] inv m by (simp add: world_inv_def mem_ok_def)
  then have "world_inv (set_heap h w)"
    using malloc_dom [OF m] by (intro world_inv_same [OF inv]) simp_all
  then show ?thesis by (simp add: kept_def)
qed

lemma with_engine_id: "with_engine (\<lambda>e. e) w = w"
  by (simp add: with_engine_def)

lemma kept_later:
  assumes inv: "world_inv w" and l: "mlqjs_host_later js c argv w = Some (r, w')"
    and conv: "\<And>a. kept w (snd (JS_ToInt32 js c a w))"
  shows "kept w w'"
proof (cases argv)
  case Nil
  with l kept_refl [OF inv] show ?thesis
    by (auto simp: mlqjs_host_later_def js_throw_def intro: kept_with_engine)
next
  case (Cons a as)
  obtain arg w1 where t: "JS_ToInt32 js c a w = (arg, w1)" by fastforce
  have k1: "kept w w1" using conv [of a] t by simp
  obtain promise res rej w2 where n: "on_engine (JS_NewPromiseCapability js c) w1 = ((promise, res, rej), w2)"
    by (metis prod_cases3 surj_pair)
  have k2: "kept w1 w2" using kept_c_side [OF same_on_engine [OF n] kept_inv [OF k1]] .
  note k12 = kept_trans [OF k1 k2]
  obtain m h where m: "malloc ((case arg of Some n \<Rightarrow> show_int (sint n) | None \<Rightarrow> []) @ [CHR 0x00]) (heap w2) = (m, h)"
    by fastforce
  have fail: "kept w (set_heap h w2)" if "m = None"
    using kept_trans [OF k12 kept_malloc_fail] kept_inv [OF k12] m that by blast
  have ok: "kept w w'" if "m = Some b"
    "enqueue_and_register js c p op full b n promise res rej (set_heap h w2) = Some (r, w')" for b p op full n
    using kept_trans [OF k12 kept_enqueue [OF kept_inv [OF k12], where f = "\<lambda>e. e"]] m that
    by (simp add: with_engine_id)
  show ?thesis
    using l Cons t n m k1 k12 fail ok
    by (auto simp: mlqjs_host_later_def js_throw_def Let_def intro: kept_with_engine split: option.splits if_splits)
qed

lemma kept_rpc:
  assumes inv: "world_inv w" and l: "mlqjs_host_rpc js c argv w = Some (r, w')"
    and conv: "\<And>a. kept w (snd (JS_ToCString js c a w))"
      "\<And>a b. kept w (snd (JS_JSONStringify js c b (snd (JS_ToCString js c a w))))"
      "\<And>a b d. kept w (snd (JS_ToCString js c d (snd (JS_JSONStringify js c b (snd (JS_ToCString js c a w))))))"
  shows "kept w w'"
proof (cases "\<exists>a0 a1 as. argv = a0 # a1 # as")
  case False
  with l kept_refl [OF inv] show ?thesis
    by (auto simp: mlqjs_host_rpc_def js_throw_def intro: kept_with_engine split: list.splits)
next
  case True
  then obtain a0 a1 as where argv: "argv = a0 # a1 # as" by blast
  obtain op w1 where t1: "JS_ToCString js c a0 w = (op, w1)" by fastforce
  obtain json w2 where t2: "JS_JSONStringify js c a1 w1 = (json, w2)" by fastforce
  obtain s w3 where t3: "JS_ToCString js c json w2 = (s, w3)" by fastforce
  have k: "kept w w1" "kept w w2" "kept w w3"
    using conv(1) [of a0] conv(2) [of a1 a0] conv(3) [of json a1 a0] t1 t2 t3 by simp_all
  define w4 where "w4 = (if json = JS_EXCEPTION then w2 else with_engine (JS_FreeValue js c json) w3)"
  define arg where "arg = (if json = JS_EXCEPTION then None else s)"
  have k4: "kept w w4" using k by (simp add: w4_def kept_with_engine)
  have t4: "(if json = JS_EXCEPTION then (None, w2)
      else (let (s, w) = JS_ToCString js c json w2 in (s, with_engine (JS_FreeValue js c json) w))) = (arg, w4)"
    using t3 by (simp add: w4_def arg_def)
  obtain promise res rej w5 where n: "on_engine (JS_NewPromiseCapability js c) w4 = ((promise, res, rej), w5)"
    by (metis prod_cases3 surj_pair)
  have k5: "kept w w5" using kept_trans [OF k4 kept_c_side [OF same_on_engine [OF n] kept_inv [OF k4]]] .
  have fail: "kept w (set_heap h w5)" if "malloc bytes (heap w5) = (None, h)" for bytes h
    using kept_trans [OF k5 kept_malloc_fail [OF kept_inv [OF k5] that]] .
  have ok: "kept w w'" if "malloc bytes (heap w5) = (Some b, h)"
    "enqueue_and_register js c p op full b n promise res rej (with_engine f (set_heap h w5)) = Some (r, w')"
    for bytes b h p op full n f
    using kept_trans [OF k5 kept_enqueue [OF kept_inv [OF k5] that]] .
  note body = l [unfolded mlqjs_host_rpc_def argv list.case Let_def t1 prod.case t2 t4 [unfolded Let_def] n js_throw_def]
  show ?thesis
  proof (cases "op = None \<or> arg = None \<or> promise = JS_EXCEPTION")
    case True
    then show ?thesis
      using body k(1) kept_with_engine [OF k4] kept_with_engine [OF k5]
      by (cases op; cases arg) (auto intro: kept_with_engine split: if_splits)
  next
    case False
    then obtain op' arg' where oa: "op = Some op'" "arg = Some arg'" "promise \<noteq> JS_EXCEPTION" by auto
    note body' = body [unfolded oa(1,2) option.case, simplified oa(3) if_False]
    obtain m h where m: "malloc ((c_str op' @ [CHR 0x0A] @ c_str arg') @ [CHR 0x00]) (heap w5) = (m, h)" by fastforce
    show ?thesis
    proof (cases m)
      case None
      with body' m fail [of _ h] show ?thesis by (auto intro: kept_with_engine)
    next
      case (Some b)
      note mb = m [unfolded Some]
      show ?thesis
        by (rule ok [OF mb]) (rule body' [unfolded mb prod.case option.case])
    qed
  qed
qed

text \<open>On a live structure a context is there and the sources can be read.\<close>

lemma live_ctx:
  assumes "world_inv w" and "runtimes w p = Some q"
  obtains r c where "rt q = Some r" "ctx q = Some c"
  using mem_ok_runtime(1) [OF assms] by (auto simp: rt_ok_def)

lemma live_source:
  assumes inv: "world_inv w" and q: "runtimes w p = Some q" and e: "e \<in> set (modules q)"
  obtains src where "read_source w e = Some src"
proof -
  obtain a where a: "m_source e = Some a" using mem_ok_runtime(1) [OF inv q] e by (auto simp: rt_ok_def)
  with e have "Some a \<in> set (map m_source (modules q))" by (metis image_eqI set_map)
  then have "the (Some a) \<in> set (ptrs (map m_source (modules q)))"
    unfolding set_map set_filter by (intro imageI) simp
  then have "a \<in> set (owns_rt p q)" by (simp only: owns_rt_def set_append set_simps Un_iff insert_iff option.sel simp_thms)
  then have "a \<in> dom (blocks (heap w))" using mem_ok_runtime(3) [OF inv q] by blast
  then obtain b where "blocks (heap w) a = Some b" by blast
  with a that show thesis by (simp add: read_source_def)
qed

text \<open>No callback on a live structure reads freed memory.\<close>

lemma enqueue_defined: "runtimes w p \<noteq> None \<Longrightarrow> enqueue_and_register js c p op full b n x y z w \<noteq> None"
  by (auto simp: enqueue_and_register_def Let_def split: option.split prod.split)

lemma interrupt_defined: "p \<in> dom (runtimes w) \<Longrightarrow> mlqjs_interrupt p w \<noteq> None"
  by (auto simp: mlqjs_interrupt_def Let_def split: prod.split)

lemma loader_defined:
  assumes "world_inv w" and "p \<in> dom (runtimes w)"
  shows "mlqjs_module_loader js c name p w \<noteq> None"
proof -
  obtain q where q: "runtimes w p = Some q" using assms(2) by blast
  show ?thesis
  proof (cases "find_module (modules q) name")
    case None
    with q show ?thesis by (simp add: mlqjs_module_loader_def)
  next
    case (Some e)
    then have "e \<in> set (modules q)" unfolding find_module_def by (metis find_Some_iff nth_mem)
    then obtain src where "read_source w e = Some src" by (rule live_source [OF assms(1) q])
    with q Some show ?thesis by (simp add: mlqjs_module_loader_def Let_def split: prod.split)
  qed
qed

lemma later_defined:
  assumes "JS_GetContextOpaque js c (engine w) \<in> dom (runtimes w)"
    and conv: "\<And>a. kept w (snd (JS_ToInt32 js c a w))"
  shows "mlqjs_host_later js c argv w \<noteq> None"
proof (cases argv)
  case Nil
  then show ?thesis by (simp add: mlqjs_host_later_def)
next
  case (Cons a as)
  obtain arg w1 where t: "JS_ToInt32 js c a w = (arg, w1)" by fastforce
  obtain promise res rej w2 where n: "on_engine (JS_NewPromiseCapability js c) w1 = ((promise, res, rej), w2)"
    by (metis prod_cases3 surj_pair)
  have "JS_GetContextOpaque js c (engine w) \<in> dom (runtimes w2)"
    using assms(1) conv [of a] t on_engine_fields(4) [OF n] by (simp add: kept_def)
  then have "enqueue_and_register js c (JS_GetContextOpaque js c (engine w)) op full b n x y z (set_heap h w2) \<noteq> None"
    for op full b n x y z h by (intro enqueue_defined) auto
  with Cons t n show ?thesis
    by (auto simp: mlqjs_host_later_def Let_def split: option.split prod.split)
qed

lemma rpc_defined:
  assumes "JS_GetContextOpaque js c (engine w) \<in> dom (runtimes w)"
    and conv: "\<And>a. kept w (snd (JS_ToCString js c a w))"
      "\<And>a b. kept w (snd (JS_JSONStringify js c b (snd (JS_ToCString js c a w))))"
      "\<And>a b d. kept w (snd (JS_ToCString js c d (snd (JS_JSONStringify js c b (snd (JS_ToCString js c a w))))))"
  shows "mlqjs_host_rpc js c argv w \<noteq> None"
proof (cases "\<exists>a0 a1 as. argv = a0 # a1 # as")
  case False
  then show ?thesis by (auto simp: mlqjs_host_rpc_def split: list.split)
next
  case True
  then obtain a0 a1 as where argv: "argv = a0 # a1 # as" by blast
  let ?p = "JS_GetContextOpaque js c (engine w)"
  obtain op w1 where t1: "JS_ToCString js c a0 w = (op, w1)" by fastforce
  obtain json w2 where t2: "JS_JSONStringify js c a1 w1 = (json, w2)" by fastforce
  obtain s w3 where t3: "JS_ToCString js c json w2 = (s, w3)" by fastforce
  have "kept w w3" using conv(3) [of json a1 a0] t1 t2 t3 by simp
  obtain promise res rej w5 where n:
    "on_engine (JS_NewPromiseCapability js c) (with_engine (JS_FreeValue js c json) w3) = ((promise, res, rej), w5)"
    by (metis prod_cases3 surj_pair)
  have "?p \<in> dom (runtimes w5)"
    using assms(1) \<open>kept w w3\<close> on_engine_fields(4) [OF n] by (simp add: kept_def)
  then have "enqueue_and_register js c ?p op full b n x y z (with_engine f (set_heap h w5)) \<noteq> None"
    for op full b n x y z h f by (intro enqueue_defined) auto
  then show ?thesis
    unfolding mlqjs_host_rpc_def argv list.case Let_def t1 t2 prod.case t3
    by (cases "op"; cases "json = JS_EXCEPTION"; cases s) (auto simp: n split: option.split prod.split)
qed

lemma kept_runs: "runs js w w' \<Longrightarrow> world_inv w \<Longrightarrow> kept w w'"
proof (induction rule: runs.induct)
  case (runs_internal w w')
  then show ?case by (rule kept_c_side)
next
  case (runs_trans w w' w'')
  from runs_trans.IH(1) [OF runs_trans.prems] have k: "kept w w'" .
  from kept_trans [OF k runs_trans.IH(2) [OF kept_inv [OF k]]] show ?case .
next
  case (runs_interrupt p w w')
  note d = interrupt_defined [OF hooked_live [OF runs_interrupt.prems runs_interrupt.hyps(1)]]
  obtain b where "mlqjs_interrupt p w = Some (b, w')" by (rule outcomeE [OF runs_interrupt.hyps(2) d])
  then show ?case by (rule kept_interrupt [OF runs_interrupt.prems])
next
  case (runs_tracker p w b w')
  note live = hooked_live [OF runs_tracker.prems runs_tracker.hyps(1)]
  then have "mlqjs_rejection_tracker b p w = Some w'"
    using runs_tracker.hyps(2) by (auto simp: mlqjs_rejection_tracker_def outcome_def)
  then show ?case by (rule kept_tracker [OF runs_tracker.prems])
next
  case (runs_loader p w c name w')
  note d = loader_defined [OF runs_loader.prems hooked_live [OF runs_loader.prems runs_loader.hyps(1)]]
  obtain r where "mlqjs_module_loader js c name p w = Some (r, w')" by (rule outcomeE [OF runs_loader.hyps(2) d])
  from kept_loader [OF runs_loader.prems this runs_loader.IH [OF runs_loader.prems]] show ?case .
next
  case (runs_later c w argv w')
  note d = later_defined [OF hooked_live [OF runs_later.prems runs_later.hyps(1)] runs_later.IH [OF runs_later.prems]]
  obtain r where "mlqjs_host_later js c argv w = Some (r, w')" by (rule outcomeE [OF runs_later.hyps(2) d])
  from kept_later [OF runs_later.prems this runs_later.IH [OF runs_later.prems]] show ?case .
next
  case (runs_rpc c w argv w')
  note d = rpc_defined [OF hooked_live [OF runs_rpc.prems runs_rpc.hyps(1)] runs_rpc.IH [OF runs_rpc.prems]]
  obtain r where "mlqjs_host_rpc js c argv w = Some (r, w')" by (rule outcomeE [OF runs_rpc.hyps(2) d])
  from kept_rpc [OF runs_rpc.prems this runs_rpc.IH [OF runs_rpc.prems]] show ?case .
qed

subsection \<open>Draining the queue\<close>

text \<open>What OCaml gets for one request.\<close>

definition delivered :: "c_heap \<Rightarrow> mlqjs_request \<Rightarrow> u64 \<times> string \<times> string" where
  "delivered h r = (rq_id r, operation r, take (payload_len r) (the (blocks h (the (payload r)))))"

lemma take_loop_all:
  assumes "queue_owns q h" and "\<forall>r \<in> set (q_list q). payload r \<noteq> None" and "n = count q"
  shows "\<exists>q' h'. take_loop n q h = Some (map (delivered h) (q_list q), q', h') \<and> q_inv q' \<and> q_list q' = [] \<and>
    heap_ok h' \<and> dom (blocks h') = dom (blocks h) - set (owned q)"
  using assms
proof (induction n arbitrary: q h)
  case 0
  then have "q_list q = []" using q_list_length [of q] by simp
  with 0 show ?case by (simp add: queue_owns_def owned_def)
next
  case (Suc n)
  obtain ok q' r where t: "mlqjs_host_queue_take q request_zero = (ok, q', r)" by (rule prod_cases3)
  have inv: "q_inv q" and ne: "count q \<noteq> 0" using Suc.prems by (simp_all add: queue_owns_def)
  note tk = take_nonempty [OF inv ne t]
  have ok: "ok = True" using tk(1) by simp
  note own' = owns_take [OF Suc.prems(1) t [unfolded ok]]
  obtain a where a: "payload r = Some a" using Suc.prems(2) tk(2) by auto
  have ow: "owned q = a # owned q'" using own'(2) a by simp
  have dis: "a \<notin> set (owned q')" and ad: "a \<in> dom (blocks h)" "set (owned q') \<subseteq> dom (blocks h)"
    using Suc.prems(1) ow by (auto simp: queue_owns_def)
  let ?h = "c_free (Some a) h"
  have fd: "dom (blocks ?h) = dom (blocks h) - {a}" using free_dom [OF ad(1)] .
  have q'own: "queue_owns q' ?h"
    using own'(1) dis ad heap_ok_free [of h "Some a"] fd by (auto simp: queue_owns_def)
  have pl': "\<forall>r \<in> set (q_list q'). payload r \<noteq> None" and n': "n = count q'"
    using Suc.prems(2,3) tk(2,4) by simp_all
  obtain q2 h2 where ih: "take_loop n q' ?h = Some (map (delivered ?h) (q_list q'), q2, h2)" "q_inv q2"
      "q_list q2 = []" "heap_ok h2" "dom (blocks h2) = dom (blocks ?h) - set (owned q')"
    using Suc.IH [OF q'own] pl' n' by blast
  have same: "delivered ?h s = delivered h s" if "s \<in> set (q_list q')" for s
  proof -
    have "payload s \<noteq> None" using that Suc.prems(2) tk(2) by simp
    then have "the (payload s) \<in> set (owned q')" using that by (auto simp: owned_def)
    with dis have "the (payload s) \<noteq> a" by blast
    then show ?thesis by (simp add: delivered_def free_other)
  qed
  obtain bytes where b: "blocks h a = Some bytes" using ad by auto
  have "op_ok r" using inv tk(2) by (simp add: q_inv_def)
  then have "take_loop (Suc n) q h = Some (map (delivered h) (q_list q), q2, h2)"
    using t ok a b ih(1) tk(2) same by (simp add: delivered_def op_ok_def)
  moreover have "dom (blocks h2) = dom (blocks h) - set (owned q)"
    using ih(5) fd ow by auto
  ultimately show ?case using ih(2-4) by blast
qed

lemma world_inv_drained:
  assumes inv: "world_inv w" and q: "runtimes w p = Some q" and rq: "q_inv rq" "q_list rq = []"
    and h: "heap_ok h" "dom (blocks h) = dom (blocks (heap w)) - set (owned (requests q))"
  shows "world_inv (set_rt p (q\<lparr>requests := rq\<rparr>) (set_heap h w))"
proof (rule world_inv_update [OF inv q])
  let ?q = "q\<lparr>requests := rq\<rparr>"
  note q_ok = mem_ok_runtime [OF inv q]
  have m: "mem_ok w" using inv by (simp add: world_inv_def)
  have o: "owned rq = []" using rq by (simp add: owned_def)
  let ?a = "p # ptrs [map_option fst (a_state q)]" and ?m = "ptrs (map m_source (modules q))"
  have q0: "owns_rt p q = ?a @ owned (requests q) @ ?m" "owns_rt p ?q = ?a @ ?m"
    using o by (simp_all add: owns_rt_def)
  have s: "set (owns_rt p ?q) = set (owns_rt p q) - set (owned (requests q))"
    using q_ok(2) unfolding q0 distinct_append set_append by blast
  have ok: "rt_ok ?q" using q_ok(1) rq by (simp add: rt_ok_def)
  have dis: "distinct (owns_rt p ?q)" using q_ok(2) unfolding q0 distinct_append set_append by blast
  have sub: "set (owned (requests q)) \<subseteq> set (owns_rt p q)" by (auto simp: owns_rt_def)
  have d: "dom (blocks h) = dom (blocks (heap w)) - owns w p \<union> set (owns_rt p ?q)"
    unfolding h(2) s q_ok(5) using sub q_ok(3) by blast
  show "mem_ok (set_rt p ?q (set_heap h w))"
    by (rule mem_ok_update [OF m, where p = p and q' = ?q]) (use ok dis s d h(1) q_ok(5) in auto)
qed simp_all

subsection \<open>The primitives\<close>

text \<open>
  A primitive is safe when it does not reach undefined behaviour and, unless the process was
  aborted, leaves the invariant in place.
\<close>

definition safe_result :: "'a caml \<times> 'e world \<Rightarrow> bool" where
  "safe_result x = (case x of
     (CamlOk _, w) \<Rightarrow> world_inv w | (CamlFail _, w) \<Rightarrow> world_inv w
   | (ProcAbort _, w) \<Rightarrow> heap_ok (heap w) \<and> \<not> ub w | (Undefined, w) \<Rightarrow> False)"

lemma safe_result_simps [simp]:
  "safe_result (CamlOk v, w) = world_inv w" "safe_result (CamlFail m, w) = world_inv w"
  "safe_result (ProcAbort m, w) = (heap_ok (heap w) \<and> \<not> ub w)" "\<not> safe_result (Undefined, w)"
  by (simp_all add: safe_result_def)

text \<open>All primitives but creation and destruction also keep the live runtimes and the handles.\<close>

definition keeps :: "'e world \<Rightarrow> 'a caml \<times> 'e world \<Rightarrow> bool" where
  "keeps w x = (case x of
     (CamlOk _, w') \<Rightarrow> kept w w' | (CamlFail _, w') \<Rightarrow> kept w w'
   | (ProcAbort _, w') \<Rightarrow> False | (Undefined, w') \<Rightarrow> False)"

lemma keeps_simps [simp]:
  "keeps w (CamlOk v, w') = kept w w'" "keeps w (CamlFail m, w') = kept w w'"
  "\<not> keeps w (ProcAbort m, w')" "\<not> keeps w (Undefined, w')"
  by (simp_all add: keeps_def)

lemma keeps_safe: "keeps w x \<Longrightarrow> safe_result x"
  by (cases x; cases "fst x") (auto intro: kept_inv)

lemma live_block: "world_inv w \<Longrightarrow> runtimes w p = Some q \<Longrightarrow> p \<in> dom (blocks (heap w))"
  using mem_ok_runtime(3) [of w p q] by (simp add: owns_rt_def)

lemma fresh_not_live: "world_inv w \<Longrightarrow> malloc b (heap w) = (Some p, h) \<Longrightarrow> runtimes w p = None"
proof (rule ccontr)
  assume inv: "world_inv w" and m: "malloc b (heap w) = (Some p, h)" and "runtimes w p \<noteq> None"
  then obtain q where "runtimes w p = Some q" by blast
  with live_block [OF inv] malloc_fresh [OF _ m] inv show False
    by (simp add: world_inv_def mem_ok_def)
qed

lemma alloc_state_new_heap:
  assumes "heap_ok h" and "mlqjs_alloc_state_new n h = Some (st, h')"
  shows "heap_ok h'" "dom (blocks h') = insert (fst st) (dom (blocks h))" "fst st \<notin> dom (blocks h)"
proof -
  obtain b where m: "malloc b h = (Some (fst st), h')"
    using assms(2) by (auto simp: mlqjs_alloc_state_new_def split: option.splits prod.splits)
  show "heap_ok h'" using heap_ok_malloc [OF assms(1), of b] m by simp
  show "dom (blocks h') = insert (fst st) (dom (blocks h))" using malloc_dom [OF m] by simp
  show "fst st \<notin> dom (blocks h)" using malloc_fresh [OF assms(1) m] .
qed

lemma set_fill_None:
  assumes "i < length xs" and "xs ! i = None"
  shows "Some x \<in> set (xs[i := Some p]) \<longleftrightarrow> x = p \<or> Some x \<in> set xs"
proof
  assume "Some x \<in> set (xs[i := Some p])"
  then show "x = p \<or> Some x \<in> set xs" using set_update_subset_insert [of xs i "Some p"] by auto
next
  assume a: "x = p \<or> Some x \<in> set xs"
  show "Some x \<in> set (xs[i := Some p])"
  proof (cases "x = p")
    case True
    then show ?thesis using assms(1) by (simp add: set_update_memI)
  next
    case False
    with a obtain j where "j < length xs" "xs ! j = Some x" by (auto simp: in_set_conv_nth)
    with assms show ?thesis by (metis length_list_update nth_list_update_neq nth_mem option.distinct(1))
  qed
qed

lemma set_clear_one:
  assumes "i < length xs" and "xs ! i = Some p" and "\<And>j. j < length xs \<Longrightarrow> xs ! j = Some p \<Longrightarrow> j = i"
  shows "Some x \<in> set (xs[i := None]) \<longleftrightarrow> x \<noteq> p \<and> Some x \<in> set xs"
proof
  assume "Some x \<in> set (xs[i := None])"
  then obtain j where j: "j < length xs" "(xs[i := None]) ! j = Some x" by (auto simp: in_set_conv_nth)
  then have "j \<noteq> i" using assms(1) by auto
  with j assms(3) [of j] show "x \<noteq> p \<and> Some x \<in> set xs" by (auto simp: in_set_conv_nth)
next
  assume a: "x \<noteq> p \<and> Some x \<in> set xs"
  then obtain j where j: "j < length xs" "xs ! j = Some x" by (auto simp: in_set_conv_nth)
  with a assms(2) have "j \<noteq> i" by auto
  with j show "Some x \<in> set (xs[i := None])" by (metis length_list_update nth_list_update_neq nth_mem)
qed

lemma safe_create:
  assumes inv: "world_inv w"
  shows "safe_result (mlqjs_create js lim w)"
proof -
  obtain r w' where c: "mlqjs_create js lim w = (r, w')" by fastforce
  have ok: "tables_ok w" "table_inj w" "heap_ok (heap w)" "mem_ok w"
    using inv by (simp_all add: world_inv_def mem_ok_def)
  from c ok(1) show ?thesis
  proof (cases rule: create_cases)
    case (1 h)
    with c kept_inv [OF kept_malloc_fail [OF inv 1(1)]] show ?thesis by simp
  next
    case 2
    have "\<not> ub w" using inv by (simp add: world_inv_def)
    then have "heap_ok (heap w') \<and> \<not> ub w'"
      using c 2 heap_ok_malloc [OF ok(3), of "block 1"]
      by (auto simp: mlqjs_create_def create_state_def create_engine_def Let_def split: prod.splits option.splits
          caml.splits if_splits)
    with c 2 show ?thesis by simp
  next
    case (3 p h1 st h2 m)
    have h1: "heap_ok h1" "p \<notin> dom (blocks (heap w))" "dom (blocks h1) = insert p (dom (blocks (heap w)))"
      using heap_ok_malloc [OF ok(3), of "block 1"] malloc_fresh [OF ok(3) 3(1)] malloc_dom [OF 3(1)] 3(1) by auto
    note h2 = alloc_state_new_heap [OF h1(1) 3(2)]
    have e: "heap w' = free_all [Some (fst st), Some p] h2" using 3(8) by (simp add: mlqjs_alloc_state_free_def split: prod.split)
    have "fst st \<noteq> p" using h1(3) h2(3) by blast
    then have "heap_ok (heap w') \<and> dom (blocks (heap w')) = dom (blocks (heap w))"
      unfolding e using free_all_ok [OF h2(1), of "[Some (fst st), Some p]"] h2 h1 by auto
    moreover have "runtimes w' = runtimes w" using 3(7) fresh_not_live [OF inv 3(1)] by auto
    ultimately have "world_inv w'" using 3 by (intro world_inv_same [OF inv]) simp_all
    with c 3 show ?thesis by simp
  next
    case (4 p h1 st h2 q i)
    have h1: "heap_ok h1" "p \<notin> dom (blocks (heap w))" "dom (blocks h1) = insert p (dom (blocks (heap w)))"
      using heap_ok_malloc [OF ok(3), of "block 1"] malloc_fresh [OF ok(3) 4(1)] malloc_dom [OF 4(1)] 4(1) by auto
    note h2 = alloc_state_new_heap [OF h1(1) 4(2)]
    have n: "runtimes w p = None" using fresh_not_live [OF inv 4(1)] .
    note t = tables_ok_register [OF ok(1) 4(4) n 4(5,6) _ 4(8)]
    let ?q = "q\<lparr>gen := next_gen (g_generation w ! i)\<rparr>"
    have o: "owns_rt p ?q = [p, fst st]" "rt_ok ?q" "owns w p = {}"
      using 4(3) n q_inv_init [of queue_zero]
      by (simp_all add: fresh_runtime_def owns_rt_def rt_ok_def owned_def owns_def)
    have "mem_ok w'"
      by (rule mem_ok_update [OF ok(4), where p = p and q' = ?q]) (use 4 h1 h2 o in auto)
    moreover have "x \<in> dom (runtimes w') \<longleftrightarrow> Some x \<in> set (g_table w')" for x
    proof -
      have il: "i < length (g_table w)" "g_table w ! i = None" using 4(4) by (simp_all add: first_free_Some)
      then have "Some x \<in> set (g_table w') \<longleftrightarrow> x = p \<or> Some x \<in> set (g_table w)"
        unfolding 4(5) by (rule set_fill_None)
      moreover have "x \<in> dom (runtimes w) \<longleftrightarrow> Some x \<in> set (g_table w)" using inv by (simp add: world_inv_def)
      ultimately show ?thesis by (auto simp: 4(8))
    qed
    moreover have "hooks_ok w'"
    proof -
      obtain r0 where "rt q = Some r0" using 4(3) by (auto simp: fresh_runtime_def)
      then show ?thesis using inv n 4(8,11) by (fastforce simp: world_inv_def hooks_ok_def)
    qed
    moreover have "\<not> ub w'" using inv 4(12) by (simp add: world_inv_def)
    ultimately have "world_inv w'" using t 4(7) ok(2) by (simp add: world_inv_def)
    with c 4 show ?thesis by simp
  qed
qed

lemma safe_destroy:
  assumes inv: "world_inv w"
  shows "safe_result (mlqjs_destroy js v w)"
proof -
  obtain r w' where d: "mlqjs_destroy js v w = (r, w')" by fastforce
  have ok: "tables_ok w" "table_inj w" "mem_ok w" using inv by (simp_all add: world_inv_def)
  from d ok(1) show ?thesis
  proof (cases rule: destroy_cases)
    case 1
    with d inv show ?thesis by simp
  next
    case (2 i p q)
    note g = table_get_props [OF 2(1)]
    note q_ok = mem_ok_runtime [OF inv g(3)]
    have len: "length (g_table w) = 64" using ok(1) by (simp add: tables_ok_def)
    have qi: "q_inv (requests q)" using q_ok(1) by (simp add: rt_ok_def)
    let ?ps = "map payload (slots (requests q)) @ [map_option fst (a_state q)] @ map m_source (modules q) @ [Some p]"
    have app: "free_all (xs @ ys) h = free_all ys (free_all xs h)" for xs ys h
      by (induction xs arbitrary: h) simp_all
    have hp: "heap w' = free_all ?ps (heap w)"
      unfolding 2(7) by (cases "a_state q") (auto simp: app mlqjs_host_queue_destroy_def mlqjs_alloc_state_free_def)
    have ms: "mset (ptrs ?ps) = mset (owns_rt p q)"
      using slots_payloads [OF qi] by (simp add: owns_rt_def)
    then have "distinct (ptrs ?ps)" "set (ptrs ?ps) = set (owns_rt p q)"
      using q_ok(2) by (metis mset_eq_imp_distinct_iff, metis set_mset_mset)
    then have fr: "heap_ok (heap w')" "dom (blocks (heap w')) = dom (blocks (heap w)) - owns w p"
      using free_all_ok [OF q_ok(4), of ?ps] q_ok(3,5) hp by simp_all
    have m: "mem_ok w'" using mem_ok_remove [OF ok(3) fr(1) 2(6) fr(2)] .
    note t = tables_ok_unregister [OF ok(1,2) g(1,2) 2(3,4) _ 2(6)]
    have "x \<in> dom (runtimes w') \<longleftrightarrow> Some x \<in> set (g_table w')" for x
    proof -
      have "Some x \<in> set (g_table w') \<longleftrightarrow> x \<noteq> p \<and> Some x \<in> set (g_table w)"
        unfolding 2(3) using g(1,2) len ok(2) by (intro set_clear_one) (auto simp: table_inj_def)
      moreover have "x \<in> dom (runtimes w) \<longleftrightarrow> Some x \<in> set (g_table w)" using inv by (simp add: world_inv_def)
      ultimately show ?thesis by (auto simp: 2(6))
    qed
    moreover have "hooks_ok w'"
    proof -
      obtain r0 where "rt q = Some r0" by (rule live_ctx [OF inv g(3)])
      then show ?thesis using inv g(3) 2(6,8) by (fastforce simp: world_inv_def hooks_ok_def)
    qed
    moreover have "\<not> ub w'" using inv 2(9) by (simp add: world_inv_def)
    ultimately have "world_inv w'" using m t 2(5) by (simp add: world_inv_def)
    with d 2 show ?thesis by simp
  qed
qed

lemma get_cases:
  assumes "world_inv w"
  obtains "table_get v w = Stale" | i p q where "table_get v w = Found (i, p, q)"
  using assms table_get_cases [of w v] by (auto simp: world_inv_def)

lemma kept_new:
  assumes "world_inv (set_rt p q' (set_heap h w))" and "runtimes w p = Some q"
  shows "kept w (set_rt p q' (set_heap h w))"
  using assms by (auto simp: kept_def)

lemma safe_set_module:
  assumes inv: "world_inv w"
  shows "keeps w (mlqjs_set_module v path src w)"
proof (cases rule: get_cases [OF inv, of v])
  case 1
  with kept_refl [OF inv] show ?thesis by (simp add: mlqjs_set_module_def)
next
  case (2 i p q)
  note g = table_get_props(3) [OF 2]
  note q_ok = mem_ok_runtime [OF inv g]
  let ?bytes = "if src = [] then block 1 else src"
  obtain m h where m: "malloc ?bytes (heap w) = (m, h)" by fastforce
  have new: "world_inv (set_rt p (q\<lparr>modules := modules q @ [\<lparr>m_path = path, m_source = Some a, m_source_len = n\<rparr>]\<rparr>)
      (set_heap h w))" if "m = Some a" for a n
  proof (rule world_inv_update [OF inv g])
    let ?q = "q\<lparr>modules := modules q @ [\<lparr>m_path = path, m_source = Some a, m_source_len = n\<rparr>]\<rparr>"
    have fresh: "a \<notin> dom (blocks (heap w))" "dom (blocks h) = insert a (dom (blocks (heap w)))" "heap_ok h"
      using malloc_fresh [OF q_ok(4)] malloc_dom [OF m] heap_ok_malloc [OF q_ok(4), of ?bytes] m that by auto
    have o: "owns_rt p ?q = owns_rt p q @ [a]" by (simp add: owns_rt_def)
    have dis: "distinct (owns_rt p ?q)" using o q_ok(2,3) fresh(1) by auto
    have ok: "rt_ok ?q" using q_ok(1) by (simp add: rt_ok_def)
    have mo: "mem_ok w" using inv by (simp add: world_inv_def)
    show "mem_ok (set_rt p ?q (set_heap h w))"
      by (rule mem_ok_update [OF mo, where p = p and q' = ?q]) (use ok dis o fresh q_ok(3,5) in auto)
  qed simp_all
  show ?thesis
    using 2 m kept_new [OF new g] kept_refl [OF inv] kept_malloc_fail [OF inv]
    by (cases m) (auto simp: mlqjs_set_module_def)
qed

lemma kept_drop: "kept w w' \<Longrightarrow> kept w (drop_exception js c w')"
proof -
  assume k: "kept w w'"
  obtain x w1 where e: "on_engine (JS_GetException js c) w' = (x, w1)" by fastforce
  have "kept w w1" using kept_trans [OF k kept_c_side [OF same_on_engine [OF e] kept_inv [OF k]]] .
  with e show ?thesis by (simp add: drop_exception_def kept_with_engine)
qed

text \<open>The engine functions of a confined engine keep the invariant.\<close>

lemma confined_kept:
  assumes "confined js" and "world_inv w"
  shows "JS_Eval js c src name t w = (x, w') \<Longrightarrow> kept w w'"
    and "JS_ToInt32 js c a w = (n, w') \<Longrightarrow> kept w w'"
    and "JS_ToCString js c a w = (s, w') \<Longrightarrow> kept w w'"
    and "JS_Call js c f a w = (x, w') \<Longrightarrow> kept w w'"
    and "JS_ExecutePendingJob js r w = (y, w') \<Longrightarrow> kept w w'"
  using assms kept_runs [of js w w'] unfolding confined_def by (metis snd_conv)+

lemma safe_eval:
  assumes js: "confined js" and inv: "world_inv w"
  shows "keeps w (mlqjs_eval js v src w)" "keeps w (mlqjs_eval_int js v src w)"
    "keeps w (mlqjs_eval_string js v src w)" "keeps w (mlqjs_eval_module js v path w)"
proof -
  have main: "keeps w (mlqjs_eval js v src w) \<and> keeps w (mlqjs_eval_int js v src w) \<and>
      keeps w (mlqjs_eval_string js v src w) \<and> keeps w (mlqjs_eval_module js v path w)"
    if g: "table_get v w = Found (i, p, q)" for i p q
  proof -
    note q = table_get_props(3) [OF g]
    obtain r c where c: "ctx q = Some c" by (rule live_ctx [OF inv q])
    obtain x w1 where e: "JS_Eval js c src ''<eval>'' EVAL_GLOBAL w = (x, w1)" by fastforce
    note k1 = confined_kept(1) [OF js inv e]
    obtain n w2 where t: "JS_ToInt32 js c x w1 = (n, w2)" by fastforce
    obtain s w3 where s: "JS_ToCString js c x w1 = (s, w3)" by fastforce
    note k2 = kept_trans [OF k1 confined_kept(2) [OF js kept_inv [OF k1] t]]
      and k3 = kept_trans [OF k1 confined_kept(3) [OF js kept_inv [OF k1] s]]
    note ks = k1 k2 k3 kept_drop [OF k1]
    have em: "keeps w (mlqjs_eval_module js v path w)"
    proof (cases "find_module (modules q) path")
      case None
      with g kept_refl [OF inv] show ?thesis by (simp add: mlqjs_eval_module_def Let_def)
    next
      case (Some en)
      then have "en \<in> set (modules q)" unfolding find_module_def by (metis find_Some_iff nth_mem)
      then obtain msrc where rs: "read_source w en = Some msrc" by (rule live_source [OF inv q])
      obtain y w4 where m: "JS_Eval js c msrc path EVAL_MODULE w = (y, w4)" by fastforce
      note k4 = confined_kept(1) [OF js inv m]
      show ?thesis
        using g c Some rs m k4 kept_drop [OF k4]
        by (simp add: mlqjs_eval_module_def Let_def kept_with_engine)
    qed
    show ?thesis
      using g c e t s ks em
      by (auto simp: mlqjs_eval_def mlqjs_eval_int_def mlqjs_eval_string_def Let_def
          intro: kept_with_engine split: option.split)
  qed
  have none: "keeps w (mlqjs_eval js v src w) \<and> keeps w (mlqjs_eval_int js v src w) \<and>
      keeps w (mlqjs_eval_string js v src w) \<and> keeps w (mlqjs_eval_module js v path w)"
    if "table_get v w = Stale"
    using that kept_refl [OF inv]
    by (simp add: mlqjs_eval_def mlqjs_eval_int_def mlqjs_eval_string_def mlqjs_eval_module_def)
  show "keeps w (mlqjs_eval js v src w)" "keeps w (mlqjs_eval_int js v src w)"
    "keeps w (mlqjs_eval_string js v src w)" "keeps w (mlqjs_eval_module js v path w)"
    using main none by (auto intro: get_cases [OF inv, of v])
qed

lemma kept_promise_remove: "kept w w' \<Longrightarrow> kept w (promise_remove js c k w')"
proof -
  assume k: "kept w w'"
  have "world_inv (promise_remove js c k w')"
    using kept_inv [OF k]
    by (rule world_inv_same) (use kept_inv [OF k] in \<open>simp_all add: promise_remove_def Let_def world_inv_def mem_ok_def\<close>)
  with k show ?thesis by (simp add: kept_def promise_remove_def Let_def)
qed

text \<open>A promise that is about to be resolved although its runtime was destroyed.\<close>

definition orphan :: "int \<Rightarrow> u64 \<Rightarrow> 'e world \<Rightarrow> bool" where
  "orphan v i w \<longleftrightarrow> table_get v w \<noteq> Stale \<and>
     (case promise_find i w of None \<Rightarrow> False | Some k \<Rightarrow> dead_slot (g_promises w ! k) w)"

lemma orphan_resolve:
  assumes inv: "world_inv w" and "orphan v i w"
  shows "mlqjs_resolve js v i json w = (Undefined, w)"
proof (cases rule: get_cases [OF inv, of v])
  case 1
  with assms(2) show ?thesis by (simp add: orphan_def)
next
  case (2 j p q)
  obtain r c where "ctx q = Some c" by (rule live_ctx [OF inv table_get_props(3) [OF 2]])
  with 2 assms(2) show ?thesis by (auto simp: orphan_def mlqjs_resolve_def Let_def split: option.splits)
qed

lemma safe_resolve:
  assumes js: "confined js" and inv: "world_inv w" and no: "\<not> orphan v i w"
  shows "keeps w (mlqjs_resolve js v i json w)"
proof (cases rule: get_cases [OF inv, of v])
  case 1
  with kept_refl [OF inv] show ?thesis by (simp add: mlqjs_resolve_def Let_def)
next
  case (2 j p q)
  note q = table_get_props(3) [OF 2]
  obtain r c where c: "ctx q = Some c" by (rule live_ctx [OF inv q])
  show ?thesis
  proof (cases "promise_find i w")
    case None
    with 2 kept_refl [OF inv] show ?thesis by (simp add: mlqjs_resolve_def Let_def)
  next
    case (Some k)
    let ?s = "g_promises w ! k"
    have alive: "\<not> dead_slot ?s w" using no 2 Some by (simp add: orphan_def)
    obtain val w1 where a: "on_engine (JS_ParseJSON js c json) w = (val, w1)" by fastforce
    obtain err w2 where b: "on_engine (JS_NewString js c ''bad result JSON'') w1 = (err, w2)" by fastforce
    obtain x3 w3 where d: "JS_Call js c (reject ?s) err w2 = (x3, w3)" by fastforce
    obtain x4 w4 where e: "JS_Call js c (resolve ?s) val w1 = (x4, w4)" by fastforce
    have k1: "kept w w1" using kept_c_side [OF same_on_engine [OF a] inv] .
    have k2: "kept w w2" using kept_trans [OF k1 kept_c_side [OF same_on_engine [OF b] kept_inv [OF k1]]] .
    have k3: "kept w w3" using kept_trans [OF k2 confined_kept(4) [OF js kept_inv [OF k2] d]] .
    have k4: "kept w w4" using kept_trans [OF k1 confined_kept(4) [OF js kept_inv [OF k1] e]] .
    show ?thesis
      using 2 Some c a b d e alive kept_promise_remove [OF kept_with_engine [OF k3]]
        kept_promise_remove [OF kept_with_engine [OF k4]]
      by (simp add: mlqjs_resolve_def Let_def)
  qed
qed

lemma safe_pump_loop:
  assumes "confined js" and "world_inv w" and "p \<in> dom (runtimes w)" and "pump_loop js p n did w = (r, w')"
  shows "r \<noteq> None \<and> kept w w'"
  using assms(2-4)
proof (induction n arbitrary: did w)
  case 0
  then show ?case by (auto intro: kept_refl)
next
  case (Suc n)
  obtain q where q: "runtimes w p = Some q" using Suc.prems(2) by blast
  obtain r0 c0 where r0: "rt q = Some r0" by (rule live_ctx [OF Suc.prems(1) q])
  obtain rc c2 w1 where e: "JS_ExecutePendingJob js r0 w = ((rc, c2), w1)" by (metis surj_pair)
  have k1: "kept w w1" using confined_kept(5) [OF assms(1) Suc.prems(1) e] .
  define w2 where "w2 = (if rc < 0 then drop_exception js c2 w1 else w1)"
  have k2: "kept w w2" using k1 kept_drop [OF k1] by (simp add: w2_def)
  have "p \<in> dom (runtimes w2)" using k2 Suc.prems(2) by (simp add: kept_def)
  note ih = Suc.IH [OF kept_inv [OF k2] this]
  show ?case
    using Suc.prems(3) q r0 e k1 kept_refl [OF Suc.prems(1)] ih kept_trans [OF k2]
    by (auto simp: w2_def [symmetric] split: if_splits)
qed

lemma safe_pump:
  assumes js: "confined js" and inv: "world_inv w"
  shows "keeps w (mlqjs_pump js v n w)"
proof (cases rule: get_cases [OF inv, of v])
  case 1
  with kept_refl [OF inv] show ?thesis by (simp add: mlqjs_pump_def)
next
  case (2 j p q)
  note q = table_get_props(3) [OF 2]
  obtain r w' where l: "pump_loop js p (nat (sint (word_of_int n :: 32 word))) False w = (r, w')" by fastforce
  have "r \<noteq> None \<and> kept w w'" using safe_pump_loop [OF js inv _ l] q by blast
  moreover from this have "p \<in> dom (runtimes w')" "world_inv w'" using q by (auto simp: kept_def)
  ultimately show ?thesis
    using 2 l by (auto simp: mlqjs_pump_def split: sum.split)
qed

lemma safe_take_requests:
  assumes inv: "world_inv w"
  shows "keeps w (mlqjs_take_requests v w)"
proof (cases rule: get_cases [OF inv, of v])
  case 1
  with kept_refl [OF inv] show ?thesis by (simp add: mlqjs_take_requests_def)
next
  case (2 j p q)
  note q = table_get_props(3) [OF 2]
  have pl: "\<forall>r \<in> set (q_list (requests q)). payload r \<noteq> None"
    using mem_ok_runtime(1) [OF inv q] by (simp add: rt_ok_def)
  obtain q' h' where t: "take_loop (count (requests q)) (requests q) (heap w) =
      Some (map (delivered (heap w)) (q_list (requests q)), q', h')" "q_inv q'" "q_list q' = []" "heap_ok h'"
      "dom (blocks h') = dom (blocks (heap w)) - set (owned (requests q))"
    using take_loop_all [OF queue_owns_runtime [OF inv q] pl refl] by blast
  from kept_new [OF world_inv_drained [OF inv q t(2-5)] q] t(1) 2 show ?thesis
    by (simp add: mlqjs_take_requests_def mlqjs_host_queue_count_def)
qed

lemma same_install_host_obj: "same_c_side w (mlqjs_install_host_obj js c w)"
  by (simp add: mlqjs_install_host_obj_def on_engine_def with_engine_def same_c_side_def Let_def split: prod.split)

lemma safe_small:
  assumes "world_inv w"
  shows "keeps w (mlqjs_cancel v n w)" "keeps w (mlqjs_install_host js v w)"
    "keeps w (mlqjs_has_unhandled_rejection v w)" "keeps w (mlqjs_host_call_count v w)"
    "keeps w (mlqjs_mem_usage js v w)"
proof -
  have "keeps w (mlqjs_cancel v n w) \<and> keeps w (mlqjs_install_host js v w) \<and>
    keeps w (mlqjs_has_unhandled_rejection v w) \<and> keeps w (mlqjs_host_call_count v w) \<and>
    keeps w (mlqjs_mem_usage js v w)"
  proof (cases rule: get_cases [OF assms, of v])
    case 1
    with kept_refl [OF assms] show ?thesis
      by (simp add: mlqjs_cancel_def mlqjs_install_host_def mlqjs_has_unhandled_rejection_def
          mlqjs_host_call_count_def mlqjs_mem_usage_def)
  next
    case (2 j p q)
    note q = table_get_props(3) [OF 2]
    obtain r c where rc: "rt q = Some r" "ctx q = Some c" by (rule live_ctx [OF assms q])
    show ?thesis
      using 2 rc kept_refl [OF assms] kept_set_rt [OF assms q] kept_c_side [OF same_install_host_obj assms]
      by (simp add: mlqjs_cancel_def mlqjs_install_host_def mlqjs_has_unhandled_rejection_def
          mlqjs_host_call_count_def mlqjs_mem_usage_def)
  qed
  then show "keeps w (mlqjs_cancel v n w)" "keeps w (mlqjs_install_host js v w)"
    "keeps w (mlqjs_has_unhandled_rejection v w)" "keeps w (mlqjs_host_call_count v w)"
    "keeps w (mlqjs_mem_usage js v w)" by blast+
qed

subsection \<open>Sequences of calls from OCaml\<close>

datatype caml_call =
    Create string | Destroy int | Eval int string | Eval_int int string | Eval_string int string
  | Set_module int string string | Eval_module int string | Resolve int u64 string
  | Has_rejection int | Install_host int | Pump int int | Cancel int int | Take_requests int
  | Host_call_count int | Mem_usage int

definition no_value :: "'a caml \<times> 'e world \<Rightarrow> unit caml \<times> 'e world" where
  "no_value x = (map_caml (\<lambda>_. ()) (fst x), snd x)"

lemma safe_no_value [simp]: "safe_result (no_value x) = safe_result x" "keeps w (no_value x) = keeps w x"
  by (cases x; cases "fst x"; simp add: no_value_def)+

fun call :: "'e js_api \<Rightarrow> caml_call \<Rightarrow> 'e world \<Rightarrow> unit caml \<times> 'e world" where
  "call js (Create lim) w = no_value (mlqjs_create js lim w)"
| "call js (Destroy v) w = no_value (mlqjs_destroy js v w)"
| "call js (Eval v src) w = no_value (mlqjs_eval js v src w)"
| "call js (Eval_int v src) w = no_value (mlqjs_eval_int js v src w)"
| "call js (Eval_string v src) w = no_value (mlqjs_eval_string js v src w)"
| "call js (Set_module v path src) w = no_value (mlqjs_set_module v path src w)"
| "call js (Eval_module v path) w = no_value (mlqjs_eval_module js v path w)"
| "call js (Resolve v i json) w = no_value (mlqjs_resolve js v i json w)"
| "call js (Has_rejection v) w = no_value (mlqjs_has_unhandled_rejection v w)"
| "call js (Install_host v) w = no_value (mlqjs_install_host js v w)"
| "call js (Pump v n) w = no_value (mlqjs_pump js v n w)"
| "call js (Cancel v n) w = no_value (mlqjs_cancel v n w)"
| "call js (Take_requests v) w = no_value (mlqjs_take_requests v w)"
| "call js (Host_call_count v) w = no_value (mlqjs_host_call_count v w)"
| "call js (Mem_usage v) w = no_value (mlqjs_mem_usage js v w)"

text \<open>The calls one after the other; an abort or undefined behaviour ends the run.\<close>

fun calls :: "'e js_api \<Rightarrow> caml_call list \<Rightarrow> 'e world \<Rightarrow> unit caml \<times> 'e world" where
  "calls js [] w = (CamlOk (), w)"
| "calls js (x # xs) w =
     (case call js x w of
        (ProcAbort m, w) \<Rightarrow> (ProcAbort m, w)
      | (Undefined, w) \<Rightarrow> (Undefined, w)
      | (_, w) \<Rightarrow> calls js xs w)"

text \<open>The calls that resolve a promise of a destroyed runtime, and the calls that make a runtime.\<close>

fun orphan_call :: "caml_call \<Rightarrow> 'e world \<Rightarrow> bool" where
  "orphan_call (Resolve v i json) w = orphan v i w"
| "orphan_call _ w = False"

fun is_create :: "caml_call \<Rightarrow> bool" where
  "is_create (Create lim) = True"
| "is_create _ = False"

lemma other_call_keeps:
  assumes "confined js" and "world_inv w" and "\<not> orphan_call x w" and "\<not> is_create x" and "\<forall>v. x \<noteq> Destroy v"
  shows "keeps w (call js x w)"
  using assms by (cases x) (simp_all add: safe_eval safe_set_module safe_resolve safe_small safe_pump safe_take_requests)

lemma safe_call:
  assumes "confined js" and "world_inv w"
  shows "\<not> orphan_call x w \<Longrightarrow> safe_result (call js x w)"
    and "orphan_call x w \<Longrightarrow> call js x w = (Undefined, w)"
proof -
  assume no: "\<not> orphan_call x w"
  show "safe_result (call js x w)"
  proof (cases "is_create x \<or> (\<exists>v. x = Destroy v)")
    case True
    then show ?thesis
      using safe_create [OF assms(2)] safe_destroy [OF assms(2)] by (cases x) simp_all
  next
    case False
    then show ?thesis using keeps_safe [OF other_call_keeps [OF assms no]] by blast
  qed
next
  assume "orphan_call x w"
  then show "call js x w = (Undefined, w)"
    using orphan_resolve [OF assms(2)] by (cases x) (simp_all add: no_value_def)
qed

text \<open>A run of calls ends in undefined behaviour exactly at a call that resolves an orphan.\<close>

definition meets_orphan :: "'e js_api \<Rightarrow> caml_call list \<Rightarrow> 'e world \<Rightarrow> bool" where
  "meets_orphan js xs w \<longleftrightarrow> (\<exists>ys x zs w'. xs = ys @ x # zs \<and> calls js ys w = (CamlOk (), w') \<and> orphan_call x w')"

lemma calls_step:
  assumes "call js x w = (r, w1)" and "r \<noteq> Undefined" and "\<forall>m. r \<noteq> ProcAbort m"
  shows "calls js (x # xs) w = calls js xs w1"
  using assms by (cases r) simp_all

lemma meets_orphan_Cons:
  assumes c: "call js x w = (r, w1)" and no: "\<not> orphan_call x w"
  shows "meets_orphan js (x # xs) w \<longleftrightarrow> r \<noteq> Undefined \<and> (\<forall>m. r \<noteq> ProcAbort m) \<and> meets_orphan js xs w1"
proof
  assume "meets_orphan js (x # xs) w"
  then obtain ys y zs w' where d: "x # xs = ys @ y # zs" "calls js ys w = (CamlOk (), w')" "orphan_call y w'"
    by (auto simp: meets_orphan_def)
  then obtain ys' where ys: "ys = x # ys'" using no by (cases ys) auto
  then have "r \<noteq> Undefined \<and> (\<forall>m. r \<noteq> ProcAbort m)" using d(2) c by (cases r) simp_all
  moreover from this have "calls js ys' w1 = (CamlOk (), w')" using d(2) ys calls_step [OF c, of ys'] by simp
  moreover have "xs = ys' @ y # zs" using d(1) ys by simp
  ultimately show "r \<noteq> Undefined \<and> (\<forall>m. r \<noteq> ProcAbort m) \<and> meets_orphan js xs w1"
    using d(3) unfolding meets_orphan_def by blast
next
  assume a: "r \<noteq> Undefined \<and> (\<forall>m. r \<noteq> ProcAbort m) \<and> meets_orphan js xs w1"
  then obtain ys y zs w' where "xs = ys @ y # zs" "calls js ys w1 = (CamlOk (), w')" "orphan_call y w'"
    by (auto simp: meets_orphan_def)
  moreover have "calls js (x # ys) w = calls js ys w1" using calls_step [OF c] a by blast
  ultimately show "meets_orphan js (x # xs) w" unfolding meets_orphan_def by (metis append_Cons)
qed

lemma meets_orphan_now: "orphan_call x w \<Longrightarrow> meets_orphan js (x # xs) w"
  unfolding meets_orphan_def by (metis append_Nil calls.simps(1))

lemma safe_calls:
  assumes "confined js" and "world_inv w" and "calls js xs w = (r, w')"
  shows "(r = Undefined \<longleftrightarrow> meets_orphan js xs w) \<and> ((\<forall>m. r \<noteq> ProcAbort m) \<longrightarrow> world_inv w') \<and>
    heap_ok (heap w') \<and> \<not> ub w'"
  using assms(2,3)
proof (induction xs arbitrary: w)
  case Nil
  then show ?case by (auto simp: meets_orphan_def world_inv_def mem_ok_def)
next
  case (Cons x xs)
  show ?case
  proof (cases "orphan_call x w")
    case True
    from safe_call(2) [OF assms(1) Cons.prems(1) True] Cons.prems meets_orphan_now [OF True, of js xs]
    show ?thesis by (auto simp: world_inv_def mem_ok_def)
  next
    case False
    obtain r1 w1 where c: "call js x w = (r1, w1)" by fastforce
    note safe = safe_call(1) [OF assms(1) Cons.prems(1) False, unfolded c]
    show ?thesis
    proof (cases "\<exists>m. r1 = ProcAbort m")
      case True
      with Cons.prems(2) c safe meets_orphan_Cons [OF c False] show ?thesis by auto
    next
      case no_abort: False
      then have r1: "r1 \<noteq> Undefined" "world_inv w1" using safe by (cases r1; simp)+
      then have "calls js xs w1 = (r, w')" using calls_step [OF c, of xs] no_abort Cons.prems(2) by simp
      from Cons.IH [OF r1(2) this] meets_orphan_Cons [OF c False, of xs] no_abort r1(1) show ?thesis by blast
    qed
  qed
qed

subsection \<open>Generations\<close>

text \<open>The generations of a slot run through 1 to 65535 and start again.\<close>

lemma next_gen_iterate:
  assumes "1 \<le> g" and "g \<le> 65535"
  shows "(next_gen ^^ k) g = (g - 1 + int k) mod 65535 + 1"
proof (induction k)
  case 0
  then show ?case using assms by simp
next
  case (Suc k)
  let ?m = "(g - 1 + int k) mod 65535"
  have m: "0 \<le> ?m" "?m < 65535" by simp_all
  then have "(next_gen ^^ Suc k) g = (if ?m + 1 = 65535 then 1 else ?m + 2)"
    by (simp add: Suc next_gen_eq)
  also have "\<dots> = (?m + 1) mod 65535 + 1" using m by auto
  also have "(?m + 1) mod 65535 = (g - 1 + int (Suc k)) mod 65535" by (simp add: mod_simps algebra_simps)
  finally show ?case .
qed

lemma next_gen_no_return:
  assumes "1 \<le> g" and "g \<le> 65535" and "0 < k" and "k < 65535"
  shows "(next_gen ^^ k) g \<noteq> g"
proof
  assume "(next_gen ^^ k) g = g"
  then have "(g - 1 + int k) mod 65535 = (g - 1) mod 65535"
    using assms(1,2) by (simp add: next_gen_iterate)
  then have "65535 dvd int k" by (metis add_diff_cancel_left' mod_eq_dvd_iff)
  then show False using assms(3,4) by (metis int_dvd_int_iff nat_dvd_not_less of_nat_numeral)
qed

text \<open>What one call does to a slot of the handle table.\<close>

lemma call_slot:
  assumes "confined js" and "world_inv w" and "call js x w = (r, w')" and "r \<noteq> Undefined" and "\<forall>m. r \<noteq> ProcAbort m"
    and "i < MLQJS_TABLE_CAP"
  shows "g_generation w' ! i = g_generation w ! i \<and> (g_table w ! i = None \<longrightarrow> g_table w' ! i = None) \<or>
    is_create x \<and> g_generation w' ! i = next_gen (g_generation w ! i)"
proof -
  have no: "\<not> orphan_call x w" using safe_call(2) [OF assms(1,2), of x] assms(3,4) by auto
  have t: "tables_ok w" using assms(2) by (simp add: world_inv_def)
  consider (c) lim where "x = Create lim" | (d) v where "x = Destroy v"
    | (o) "\<not> is_create x" "\<forall>v. x \<noteq> Destroy v" by (cases x) auto
  then show ?thesis
  proof cases
    case c
    obtain r1 where "mlqjs_create js lim w = (r1, w')" "map_caml (\<lambda>_. ()) r1 = r"
      using assms(3) c by (cases "mlqjs_create js lim w") (auto simp: no_value_def)
    from this(1) t show ?thesis
    proof (cases rule: create_cases)
      case 2
      with \<open>map_caml (\<lambda>_. ()) r1 = r\<close> assms(5) show ?thesis by auto
    next
      case (4 p h1 st h2 q j)
      have "j < length (g_generation w)" using 4(4) t by (auto simp: first_free_Some tables_ok_def)
      with c 4(5,6) show ?thesis by (cases "j = i") simp_all
    qed simp_all
  next
    case d
    obtain r1 where "mlqjs_destroy js v w = (r1, w')"
      using assms(3) d by (cases "mlqjs_destroy js v w") (auto simp: no_value_def)
    from this t show ?thesis
    proof (cases rule: destroy_cases)
      case (2 j p q)
      have "i < length (g_table w)" using t assms(6) by (simp add: tables_ok_def)
      with 2 show ?thesis by (cases "j = i") simp_all
    qed simp
  next
    case o
    have "keeps w (r, w')" using other_call_keeps [OF assms(1,2) no o] assms(3) by simp
    then have "kept w w'" using assms(4,5) by (cases r) simp_all
    then show ?thesis by (simp add: kept_def)
  qed
qed

text \<open>
  After a run, the generation of a slot has moved on by at most one step per creation; if it has
  not moved, a slot that was free is still free.
\<close>

lemma calls_slot:
  assumes "confined js" and "world_inv w" and "calls js xs w = (CamlOk (), w')" and "i < MLQJS_TABLE_CAP"
    and "g_generation w ! i = (next_gen ^^ k) g" and "k = 0 \<longrightarrow> g_table w ! i = None"
  shows "\<exists>k'. k' \<le> k + length (filter is_create xs) \<and> g_generation w' ! i = (next_gen ^^ k') g \<and>
    (k' = 0 \<longrightarrow> g_table w' ! i = None)"
  using assms(2,3,5,6)
proof (induction xs arbitrary: w k)
  case Nil
  then show ?case by auto
next
  case (Cons x xs)
  obtain r w1 where c: "call js x w = (r, w1)" by fastforce
  have r: "r \<noteq> Undefined" "\<forall>m. r \<noteq> ProcAbort m" using Cons.prems(2) c by auto
  then have no: "\<not> orphan_call x w" using safe_call(2) [OF assms(1) Cons.prems(1), of x] c by auto
  have inv: "world_inv w1" using safe_call(1) [OF assms(1) Cons.prems(1) no] c r by (cases r) simp_all
  have cs: "calls js xs w1 = (CamlOk (), w')" using calls_step [OF c r] Cons.prems(2) by simp
  from call_slot [OF assms(1) Cons.prems(1) c r assms(4)] show ?case
  proof
    assume "g_generation w1 ! i = g_generation w ! i \<and> (g_table w ! i = None \<longrightarrow> g_table w1 ! i = None)"
    then obtain k' where "k' \<le> k + length (filter is_create xs)" "g_generation w' ! i = (next_gen ^^ k') g"
      "k' = 0 \<longrightarrow> g_table w' ! i = None"
      using Cons.IH [OF inv cs, of k] Cons.prems(3,4) by auto
    then show ?thesis by (intro exI [of _ k']) auto
  next
    assume a: "is_create x \<and> g_generation w1 ! i = next_gen (g_generation w ! i)"
    then have "g_generation w1 ! i = (next_gen ^^ Suc k) g" using Cons.prems(3) by simp
    from Cons.IH [OF inv cs this] a show ?thesis by simp
  qed
qed

text \<open>
  The process when it starts: nothing registered, the tables zero, an arbitrary pattern of
  failing allocations and an arbitrary clock.
\<close>

definition boot :: "(nat \<Rightarrow> bool) \<Rightarrow> (nat \<Rightarrow> u64) \<Rightarrow> 'e \<Rightarrow> 'e world" where
  "boot f clk e = (world0 e)\<lparr>heap := (heap (world0 e))\<lparr>oom := f\<rparr>, clock := clk\<rparr>"

lemma world_inv_boot: "world_inv (boot f clk e)"
  by (simp add: world_inv_def boot_def world0_def tables_ok_def table_inj_def mem_ok_def heap_ok_def owns_def
      hooks_ok_def)

lemma world0_boot: "world0 e = boot (\<lambda>_. False) (\<lambda>_. 0) e"
  by (simp add: boot_def world0_def)

lemma confined_quiet: "confined (quiet_js :: 'e js_api)"
  by (simp add: confined_def quiet_js_def runs_internal same_c_side_def)

text \<open>
  An engine that numbers its contexts (a runtime has the number of its context), remembers their
  opaque pointers, and whose scripts call \<open>host.later(7)\<close>: evaluation runs the callback of the
  bindings.
\<close>

definition ctx_js :: "ptr list js_api" where
  "ctx_js = quiet_js\<lparr>JS_NewRuntime := (\<lambda>e. (Some (length e), e)),
     JS_NewContextRaw := (\<lambda>r e. (Some (length e), e @ [0])),
     JS_SetContextOpaque := (\<lambda>c p e. e[c := p]),
     JS_GetContextOpaque := (\<lambda>c e. if c < length e then e ! c else 0)\<rparr>"

definition later_js :: "ptr list js_api" where
  "later_js = ctx_js\<lparr>JS_Eval := (\<lambda>c src name t w.
     if hooks w c = Some (JS_GetContextOpaque ctx_js c (engine w)) then
       case mlqjs_host_later ctx_js c [JSVal 0] w of Some x \<Rightarrow> x | None \<Rightarrow> (JS_UNDEFINED, w\<lparr>ub := True\<rparr>)
     else (JS_UNDEFINED, w))\<rparr>"

lemma later_js_fields [simp]:
  "JS_FreeValue later_js = JS_FreeValue ctx_js" "JS_Throw later_js = JS_Throw ctx_js"
  "JS_GetContextOpaque later_js = JS_GetContextOpaque ctx_js" "JS_ToInt32 later_js = JS_ToInt32 ctx_js"
  "JS_NewPromiseCapability later_js = JS_NewPromiseCapability ctx_js"
  "JS_ToCString later_js = JS_ToCString ctx_js" "JS_Call later_js = JS_Call ctx_js"
  "JS_ExecutePendingJob later_js = JS_ExecutePendingJob ctx_js"
  by (simp_all add: later_js_def)

lemma later_js_host_later: "mlqjs_host_later later_js c argv w = mlqjs_host_later ctx_js c argv w"
proof -
  have eq: "enqueue_and_register later_js c p op full b n x y z = enqueue_and_register ctx_js c p op full b n x y z"
    for p op full b n x y z
    unfolding enqueue_and_register_def promise_insert_def js_throw_def later_js_fields by (rule refl)
  show ?thesis unfolding mlqjs_host_later_def js_throw_def later_js_fields eq by (rule refl)
qed

lemma confined_later: "confined later_js"
proof -
  have conv: "runs later_js w (snd (JS_ToInt32 later_js c a w))" for w c a
    by (simp add: ctx_js_def quiet_js_def runs_internal same_c_side_def)
  have "runs later_js w (snd (JS_Eval later_js c src name t w))" for c src name t w
  proof (cases "hooks w c = Some (JS_GetContextOpaque ctx_js c (engine w))")
    case False
    then have "JS_Eval later_js c src name t w = (JS_UNDEFINED, w)" by (simp add: later_js_def)
    then show ?thesis by (simp add: runs_internal same_c_side_def)
  next
    case True
    then have hk: "JS_GetContextOpaque later_js c (engine w) \<in> ran (hooks w)" by (simp add: ranI)
    have "outcome (mlqjs_host_later later_js c [JSVal 0] w) (snd (JS_Eval later_js c src name t w))"
      using True by (simp add: later_js_host_later outcome_def) (simp add: later_js_def split: option.split)
    from runs_later [OF hk this] conv show ?thesis by blast
  qed
  then show ?thesis
    by (simp add: confined_def) (simp add: ctx_js_def quiet_js_def runs_internal same_c_side_def)
qed

text \<open>What this engine's runtimes do, step by step.\<close>

lemma later_engine:
  "create_engine later_js p l q w = (CamlOk (length (engine w), length (engine w)),
     w\<lparr>engine := engine w @ [p], hooks := (hooks w)(length (engine w) \<mapsto> p)\<rparr>)"
  by (simp add: create_engine_def on_engine_def with_engine_def install_hook_def Let_def intrinsics_def
      later_js_def ctx_js_def quiet_js_def)

lemma later_create:
  assumes "tables_ok w" and "first_free (\<lambda>t. t = None) (g_table w) = Some i" and "\<forall>k. \<not> oom (heap w) k"
  shows "\<exists>q w'.
    mlqjs_create later_js lim w = (CamlOk (sint (mk_handle (next_gen (g_generation w ! i)) i)), w') \<and>
    g_table w' = (g_table w)[i := Some (brk (heap w))] \<and>
    g_generation w' = (g_generation w)[i := next_gen (g_generation w ! i)] \<and>
    g_promises w' = g_promises w \<and> runtimes w' = (runtimes w)(brk (heap w) \<mapsto> q) \<and>
    gen q = next_gen (g_generation w ! i) \<and> ctx q = Some (length (engine w)) \<and>
    requests q = mlqjs_host_queue_init queue_zero \<and> engine w' = engine w @ [brk (heap w)] \<and>
    hooks w' = (hooks w)(length (engine w) \<mapsto> brk (heap w)) \<and>
    (\<forall>k. \<not> oom (heap w') k) \<and> brk (heap w') = brk (heap w) + 2"
proof -
  have "i < 64" using assms(1,2) by (auto simp: first_free_Some tables_ok_def)
  then have nz: "mk_handle (next_gen (g_generation w ! i)) i \<noteq> 0"
    using assms(1) next_gen_range [of "g_generation w ! i"] by (intro mk_handle_nonzero) (auto simp: tables_ok_def)
  obtain r1 w1 where s: "create_state lim w = (r1, w1)" by fastforce
  obtain q where q: "r1 = CamlOk (brk (heap w), decode_limits lim, q)" "requests q = mlqjs_host_queue_init queue_zero"
    and w1: "g_table w1 = g_table w" "g_generation w1 = g_generation w" "g_promises w1 = g_promises w"
      "runtimes w1 = runtimes w" "engine w1 = engine w" "hooks w1 = hooks w" "\<forall>k. \<not> oom (heap w1) k"
      "brk (heap w1) = Suc (Suc (brk (heap w)))"
    using s assms(3)
    by (auto simp: create_state_def mlqjs_alloc_state_new_def malloc_def Let_def mlqjs_monotonic_ns_def
        set_heap_def runtime_zero_def split: if_splits prod.splits)
  let ?q = "q\<lparr>rt := Some (length (engine w)), ctx := Some (length (engine w)), gen := next_gen (g_generation w ! i)\<rparr>"
  let ?p = "brk (heap w)"
  let ?w2 = "w1\<lparr>engine := engine w @ [?p], hooks := (hooks w)(length (engine w) \<mapsto> ?p),
    g_table := (g_table w)[i := Some ?p], g_generation := (g_generation w)[i := next_gen (g_generation w ! i)],
    runtimes := (runtimes w)(?p \<mapsto> ?q)\<rparr>"
  have "mlqjs_create later_js lim w = (CamlOk (sint (mk_handle (next_gen (g_generation w ! i)) i)), ?w2)"
    using s q w1 assms(2) nz
    by (simp add: mlqjs_create_def later_engine table_alloc_eq Let_def set_rt_def)
  then show ?thesis by (intro exI [of _ ?q] exI [of _ ?w2]) (use w1 q(2) in simp)
qed

lemma later_eval:
  assumes "table_get v w = Found (i, p, q)" and "ctx q = Some c" and "hooks w c = Some p"
    and "c < length (engine w)" and "engine w ! c = p" and "requests q = mlqjs_host_queue_init queue_zero"
    and "\<forall>k. \<not> oom (heap w) k" and "first_free (\<lambda>s. \<not> in_use s) (g_promises w) = Some k"
  obtains w' q' where "mlqjs_eval later_js v src w = (CamlOk False, w')" "g_table w' = g_table w"
    "g_promises w' = (g_promises w)[k := \<lparr>ps_id = 1, resolve = JSVal 5, reject = JSVal 6, in_use = True, ps_owner = p\<rparr>]"
    "runtimes w' = (runtimes w)(p \<mapsto> q')" "gen q' = gen q"
proof -
  let ?pl = "show_int 7"
  obtain b h where m: "malloc (?pl @ [CHR 0x00]) (heap w) = (Some b, h)" using assms(7) by (simp add: malloc_def)
  obtain j rq h' where push: "mlqjs_host_queue_push (requests q) (Some ''host.later'') (Some b) (length ?pl) h = (j, rq, h')"
    by (rule prod_cases3)
  have j: "j = 1"
    using push assms(6) by (simp add: mlqjs_host_queue_push_def mlqjs_host_queue_init_def queue_zero_def Let_def)
  let ?s = "\<lparr>ps_id = 1, resolve = JSVal 5, reject = JSVal 6, in_use = True, ps_owner = p\<rparr>"
  let ?w' = "(set_rt p (q\<lparr>requests := rq\<rparr>) (set_heap h' w))\<lparr>g_promises := (g_promises w)[k := ?s]\<rparr>"
  note q = table_get_props(3) [OF assms(1)]
  have "mlqjs_host_later ctx_js c [JSVal 0] w = Some (JSVal 4, ?w')"
    using assms(4,5,8) m push j q
    by (simp add: mlqjs_host_later_def ctx_js_def quiet_js_def on_engine_def enqueue_and_register_def
        promise_insert_def Let_def set_heap_def set_rt_def)
  then have "JS_Eval later_js c src ''<eval>'' EVAL_GLOBAL w = (JSVal 4, ?w')"
    using assms(3-5) by (simp add: later_js_def) (simp add: ctx_js_def)
  then have "mlqjs_eval later_js v src w = (CamlOk False, ?w')"
    using assms(1,2) by (simp add: mlqjs_eval_def with_engine_def) (simp add: ctx_js_def quiet_js_def)
  then show thesis by (rule that [of ?w' "q\<lparr>requests := rq\<rparr>"]) simp_all
qed

lemma handle_numbers: "sint (mk_handle 1 0) = 65536" "sint (mk_handle 1 (Suc 0)) = 65537"
  by (simp_all add: mk_handle_def)

lemma first_slots:
  "first_free (\<lambda>t. t = None) ((replicate 64 None)[0 := Some p]) = Some (Suc 0)"
  "first_free (\<lambda>t. t = None) (replicate 64 None) = Some 0"
  "first_free (\<lambda>s. \<not> in_use s) (g_promises (boot f clk e)) = Some 0"
  by (auto simp: first_free_Some boot_def world0_def nth_list_update)

lemma first_runtime:
  obtains q w where "mlqjs_create later_js [] (boot (\<lambda>_. False) (\<lambda>_. 0) []) = (CamlOk 65536, w)"
    "g_table w = (replicate 64 None)[0 := Some 0]" "g_generation w = (replicate 64 0)[0 := 1]"
    "g_promises w = g_promises (boot (\<lambda>_. False) (\<lambda>_. 0) ([] :: ptr list))" "runtimes w 0 = Some q" "gen q = 1"
    "ctx q = Some 0" "requests q = mlqjs_host_queue_init queue_zero" "engine w = [0]" "hooks w 0 = Some 0"
    "\<forall>k. \<not> oom (heap w) k" "brk (heap w) = 2" "world_inv w"
proof -
  let ?w0 = "boot (\<lambda>_. False) (\<lambda>_. 0) [] :: ptr list world"
  have inv: "world_inv ?w0" by (rule world_inv_boot)
  then have t0: "tables_ok ?w0" by (simp add: world_inv_def)
  have f0: "g_table ?w0 = replicate 64 None" "g_generation ?w0 = replicate 64 0" "\<forall>k. \<not> oom (heap ?w0) k"
    "brk (heap ?w0) = 0" "engine ?w0 = []" by (simp_all add: boot_def world0_def)
  have ff0: "first_free (\<lambda>t. t = None) (g_table ?w0) = Some 0" using first_slots(2) f0(1) by simp
  have g1: "next_gen 0 = 1" by (simp add: next_gen_def)
  have "world_inv w" if "mlqjs_create later_js [] ?w0 = (CamlOk 65536, w)" for w
    using safe_create [OF inv, of later_js "[]"] that by simp
  with later_create [OF t0 ff0 f0(3), of "[]"] that show thesis by (auto simp: f0 g1 handle_numbers)
qed

lemma two_runtimes:
  obtains q1 q2 w where "calls later_js [Create [], Create []] (boot (\<lambda>_. False) (\<lambda>_. 0) []) = (CamlOk (), w)"
    "table_get 65536 w = Found (0, 0, q1)" "table_get 65537 w = Found (1, 2, q2)" "world_inv w"
    "g_table w = ((replicate 64 None)[0 := Some 0])[1 := Some 2]"
    "g_promises w = g_promises (boot (\<lambda>_. False) (\<lambda>_. 0) ([] :: ptr list))"
    "gen q1 = 1" "gen q2 = 1" "ctx q1 = Some 0" "requests q1 = mlqjs_host_queue_init queue_zero"
    "engine w = [0, 2]" "hooks w 0 = Some 0" "\<forall>k. \<not> oom (heap w) k"
proof -
  let ?w0 = "boot (\<lambda>_. False) (\<lambda>_. 0) [] :: ptr list world"
  have g1: "next_gen 0 = 1" by (simp add: next_gen_def)
  obtain q1 w1 where c1: "mlqjs_create later_js [] ?w0 = (CamlOk 65536, w1)"
    "g_table w1 = (replicate 64 None)[0 := Some 0]" "g_generation w1 = (replicate 64 0)[0 := 1]"
    "g_promises w1 = g_promises ?w0" "runtimes w1 0 = Some q1" "gen q1 = 1" "ctx q1 = Some 0"
    "requests q1 = mlqjs_host_queue_init queue_zero" "engine w1 = [0]" "hooks w1 0 = Some 0"
    "\<forall>k. \<not> oom (heap w1) k" "brk (heap w1) = 2" and i1: "world_inv w1"
    by (rule first_runtime)
  have t1: "tables_ok w1" using i1 by (simp add: world_inv_def)
  have ff1: "first_free (\<lambda>t. t = None) (g_table w1) = Some (Suc 0)" using first_slots(1) c1(2) by simp
  obtain q2 w2 where c2: "mlqjs_create later_js [] w1 = (CamlOk 65537, w2)"
    "g_table w2 = ((replicate 64 None)[0 := Some 0])[1 := Some 2]"
    "g_promises w2 = g_promises ?w0" "runtimes w2 = (runtimes w1)(2 \<mapsto> q2)" "gen q2 = 1"
    "engine w2 = [0, 2]" "hooks w2 = (hooks w1)(1 \<mapsto> 2)" "\<forall>k. \<not> oom (heap w2) k"
    using later_create [OF t1 ff1 c1(11), of "[]"]
    by (auto simp: c1(2-4,9,12) g1 handle_numbers)
  have "world_inv w2" using safe_create [OF i1, of later_js "[]"] c2(1) by simp
  moreover have "table_get 65536 w2 = Found (0, 0, q1)" "table_get 65537 w2 = Found (1, 2, q2)"
    using table_get_handle [of 1 0 w2] table_get_handle [of 1 "Suc 0" w2] c1(5,6) c2(2,4,5)
    by (simp_all add: handle_numbers gen_back_def)
  moreover have "calls later_js [Create [], Create []] ?w0 = (CamlOk (), w2)"
    using c1(1) c2(1) by (simp add: no_value_def)
  ultimately show thesis
    using that [of w2 q1 q2] c1(6-8,10) c2 by simp
qed

lemma calls_append:
  "calls js xs w = (CamlOk (), w') \<Longrightarrow> calls js (xs @ ys) w = calls js ys w'"
proof (induction xs arbitrary: w)
  case (Cons x xs)
  obtain r w1 where c: "call js x w = (r, w1)" by fastforce
  have r: "r \<noteq> Undefined" "\<forall>m. r \<noteq> ProcAbort m" using Cons.prems c by auto
  from Cons calls_step [OF c r] show ?case by simp
qed simp

text \<open>
  Two runtimes; a script of the first one makes a promise, the first one is destroyed, and then
  its promise is still there for the second one.
\<close>

lemma orphan_run:
  obtains w where "calls later_js [Create [], Create [], Eval 65536 ''host.later(7)'', Destroy 65536]
      (boot (\<lambda>_. False) (\<lambda>_. 0) []) = (CamlOk (), w)" "orphan 65537 1 w"
proof -
  let ?w0 = "boot (\<lambda>_. False) (\<lambda>_. 0) [] :: ptr list world"
  obtain q1 q2 w2 where two: "calls later_js [Create [], Create []] ?w0 = (CamlOk (), w2)"
    and h1: "table_get 65536 w2 = Found (0, 0, q1)" and h2: "table_get 65537 w2 = Found (1, 2, q2)" and i2: "world_inv w2"
    and f: "g_table w2 = ((replicate 64 None)[0 := Some 0])[1 := Some 2]" "g_promises w2 = g_promises ?w0"
      "gen q1 = 1" "gen q2 = 1" "ctx q1 = Some 0" "requests q1 = mlqjs_host_queue_init queue_zero"
      "engine w2 = [0, 2]" "hooks w2 0 = Some 0" "\<forall>k. \<not> oom (heap w2) k"
    by (rule two_runtimes)
  obtain w3 q3 where e: "mlqjs_eval later_js 65536 ''host.later(7)'' w2 = (CamlOk False, w3)" "g_table w3 = g_table w2"
    "g_promises w3 = (g_promises w2)[0 := \<lparr>ps_id = 1, resolve = JSVal 5, reject = JSVal 6, in_use = True, ps_owner = 0\<rparr>]"
    "runtimes w3 = (runtimes w2)(0 \<mapsto> q3)" "gen q3 = gen q1"
    by (rule later_eval [OF h1, of 0 0]) (use f first_slots(3) in simp_all)
  have i3: "world_inv w3"
    using keeps_safe [OF safe_eval(1) [OF confined_later i2, of 65536]] e(1) by (metis safe_result_simps(1))
  note r2 = table_get_props(3) [OF h2]
  have h3: "table_get 65536 w3 = Found (0, 0, q3)"
    using table_get_handle [of 1 0 w3] f(1,3) e(2,4,5) by (simp add: handle_numbers gen_back_def)
  obtain r w4 where d: "mlqjs_destroy later_js 65536 w3 = (r, w4)" by fastforce
  have t3: "tables_ok w3" using i3 by (simp add: world_inv_def)
  from d t3 show thesis
  proof (cases rule: destroy_cases)
    case (2 i p q)
    have ip: "i = 0" "p = 0" using 2(1) h3 by simp_all
    have "length (g_promises ?w0) = 256" by (simp add: boot_def world0_def)
    then have "promise_find 1 w4 = Some 0" "ps_owner (g_promises w4 ! 0) = 0"
      using 2(5) e(3) f(2) by (simp_all add: promise_find_def first_free_Some)
    moreover have "table_get 65537 w4 = Found (1, 2, q2)"
      using table_get_handle [of 1 "Suc 0" w4] 2(3,6) ip f(1,4) r2 e(2,4) by (simp add: handle_numbers gen_back_def)
    ultimately have "orphan 65537 1 w4" using 2(6) ip by (simp add: orphan_def dead_slot_def)
    moreover have "calls later_js [Eval 65536 ''host.later(7)'', Destroy 65536] w2 = (CamlOk (), w4)"
      using e(1) d 2(2) by (simp add: no_value_def)
    ultimately show thesis
      using that calls_append [OF two, of "[Eval 65536 ''host.later(7)'', Destroy 65536]"] by simp
  qed (use h3 in simp)
qed

subsection \<open>Properties\<close>



text \<open>
  C2. No leak in the bindings. After any such sequence that was not aborted, the live heap
  blocks are exactly the ones the registered runtimes own; once every runtime is destroyed,
  nothing is left, also when creations failed half way or requests were never taken.
\<close>

theorem bindings_no_leak:
  assumes "confined js" and "calls js xs (boot f clk e) = (r, w)" and "\<forall>m. r \<noteq> ProcAbort m"
    and "\<forall>x \<in> set (g_table w). x = None"
  shows "blocks (heap w) = Map.empty"
proof -
  have inv: "world_inv w"
    using safe_calls [OF assms(1) world_inv_boot assms(2)] assms(3) by blast
  then have "runtimes w = Map.empty" using assms(4) by (fastforce simp: world_inv_def)
  then have "owns w p = {}" for p by (simp add: owns_def)
  then have "dom (blocks (heap w)) = {}" using inv by (simp add: world_inv_def mem_ok_def)
  then show ?thesis by simp
qed

theorem bindings_no_leak_witness:
  "\<exists>r w. calls later_js [Create ''1000000|'', Create []] (boot (\<lambda>k. k = 0 \<or> k = 1) (\<lambda>_. 0) []) = (r, w) \<and>
     blocks (heap w) = Map.empty"
proof -
  have c: "calls later_js [Create ''1000000|'', Create []] (boot (\<lambda>k. k = 0 \<or> k = 1) (\<lambda>_. 0) [])
     = (CamlOk (), set_heap \<lparr>blocks = Map.empty, brk = 2, oom = (\<lambda>k. k = 0 \<or> k = 1), bad_free = False\<rparr>
          (boot (\<lambda>k. k = 0 \<or> k = 1) (\<lambda>_. 0) []))"
    by (simp add: mlqjs_create_def create_state_def malloc_def boot_def world0_def set_heap_def no_value_def)
  from bindings_no_leak [OF confined_later c] c show ?thesis
    by (simp add: boot_def world0_def set_heap_def)
qed

text \<open>
  C7. Destroyed handles are dead. Destroying a valid handle returns, and from then on, through any
  sequence of calls with fewer than 65535 creations, the handle is refused as stale and
  destroying it again changes nothing: its slot is either free or was handed out under another
  generation, even when it was reused many times.
\<close>

theorem destroyed_handle_stale:
  assumes "confined js" and "calls js ys (boot f clk e) = (CamlOk (), w)" and "table_get v w = Found (i, p, q)"
    and "mlqjs_destroy js v w = (r, w1)" and "calls js xs w1 = (CamlOk (), w2)"
    and "length (filter is_create xs) < 65535"
  shows "r = CamlOk () \<and> table_get v w2 = Stale \<and> mlqjs_destroy js v w2 = (CamlOk (), w2)"
proof -
  have inv: "world_inv w" using safe_calls [OF assms(1) world_inv_boot assms(2)] by simp
  note tp = table_get_props [OF assms(3)]
  have t: "tables_ok w" using inv by (simp add: world_inv_def)
  have g: "gen q = g_generation w ! i" "1 \<le> gen q" "gen q \<le> 65535" using t tp(1-3) by (force simp: tables_ok_def)+
  have d: "r = CamlOk ()" "g_table w1 = (g_table w)[i := None]" "g_generation w1 = g_generation w"
    using assms(4) t assms(3) by (cases rule: destroy_cases; simp)+
  have inv1: "world_inv w1" using safe_destroy [OF inv, of js v] assms(4) d(1) by simp
  have "g_table w1 ! i = None" using d(2) tp(1) t by (simp add: tables_ok_def)
  then obtain k where k: "k \<le> length (filter is_create xs)" "g_generation w2 ! i = (next_gen ^^ k) (gen q)"
    "k = 0 \<longrightarrow> g_table w2 ! i = None"
    using calls_slot [OF assms(1) inv1 assms(5) tp(1), of 0 "gen q"] d(3) g(1) by auto
  have inv2: "world_inv w2" using safe_calls [OF assms(1) inv1 assms(5)] by simp
  have "table_get v w2 = Stale"
  proof (cases rule: get_cases [OF inv2, of v])
    case (2 i' p' q')
    note tp' = table_get_props [OF 2]
    have "i' = i" "gen q' = gen q" using tp'(4,5) tp(4,5) by simp_all
    moreover have "gen q' = g_generation w2 ! i'" using inv2 tp'(1-3) by (force simp: world_inv_def tables_ok_def)
    ultimately have "(next_gen ^^ k) (gen q) = gen q" "k \<noteq> 0" using k(2,3) tp'(2) by auto
    then show ?thesis using next_gen_no_return [OF g(2,3), of k] k(1) assms(6) by simp
  qed
  with d(1) show ?thesis by (simp add: mlqjs_destroy_def)
qed

theorem destroyed_handle_stale_witness:
  "\<exists>w w1 v2 w2. calls later_js [Create []] (boot (\<lambda>_. False) (\<lambda>_. 0) []) = (CamlOk (), w) \<and>
     table_get 65536 w \<noteq> Stale \<and> mlqjs_destroy later_js 65536 w = (CamlOk (), w1) \<and>
     mlqjs_create later_js [] w1 = (CamlOk v2, w2) \<and> g_table w2 ! 0 \<noteq> None \<and> table_get 65536 w2 = Stale"
proof -
  obtain q w where c: "mlqjs_create later_js [] (boot (\<lambda>_. False) (\<lambda>_. 0) []) = (CamlOk 65536, w)"
    "g_table w = (replicate 64 None)[0 := Some 0]" "runtimes w 0 = Some q" "gen q = 1" "\<forall>k. \<not> oom (heap w) k"
    and inv: "world_inv w" by (rule first_runtime)
  have run: "calls later_js [Create []] (boot (\<lambda>_. False) (\<lambda>_. 0) []) = (CamlOk (), w)"
    using c(1) by (simp add: no_value_def)
  have g: "table_get 65536 w = Found (0, 0, q)"
    using table_get_handle [of 1 0 w] c(2-4) by (simp add: handle_numbers gen_back_def)
  obtain r w1 where d: "mlqjs_destroy later_js 65536 w = (r, w1)" by fastforce
  have t: "tables_ok w" using inv by (simp add: world_inv_def)
  have r: "r = CamlOk ()" using d t by (cases rule: destroy_cases) simp_all
  have t1: "tables_ok w1" using safe_destroy [OF inv, of later_js 65536] d r by (simp add: world_inv_def)
  have f: "g_table w1 = replicate 64 None \<and> (\<forall>k. \<not> oom (heap w1) k)"
    using d t
  proof (cases rule: destroy_cases)
    case (2 i p q')
    have "oom (free_all ps h) = oom h" for ps h
      by (induction ps arbitrary: h) (simp_all add: c_free_def split: option.split)
    then have "oom (heap w1) = oom (heap w)"
      using 2 by (simp add: c_free_def mlqjs_alloc_state_free_def mlqjs_host_queue_destroy_def split: option.split)
    moreover have "(replicate 64 None)[0 := Some 0, 0 := None] = replicate 64 (None :: ptr option)"
      by (simp add: list_eq_iff_nth_eq nth_list_update)
    ultimately show ?thesis using 2(1,3) g c(2,5) by simp
  qed (use g in simp)
  have ff: "first_free (\<lambda>t. t = None) (g_table w1) = Some 0" using f first_slots(2) by simp
  obtain v2 w2 where c2: "mlqjs_create later_js [] w1 = (CamlOk v2, w2)" "g_table w2 ! 0 \<noteq> None"
    using later_create [OF t1 ff f [THEN conjunct2], of "[]"] f by auto
  have "calls later_js [Create []] w1 = (CamlOk (), w2)" using c2(1) by (simp add: no_value_def)
  from destroyed_handle_stale [OF confined_later run g d this] have "table_get 65536 w2 = Stale" by simp
  with run g d r c2 show ?thesis by auto
qed

text \<open>
  C5. Draining the queue. On a valid handle, \<open>mlqjs_take_requests\<close> returns every queued request,
  oldest first, each as its id, its operation and the bytes of its payload; afterwards the queue
  is empty and exactly the payload blocks of these requests have been freed.
\<close>

theorem take_requests_delivers:
  assumes "world_inv w" and "table_get v w = Found (i, p, q)"
  shows "\<exists>w' q'. mlqjs_take_requests v w = (CamlOk (map (delivered (heap w)) (q_list (requests q))), w') \<and>
    runtimes w' p = Some q' \<and> q_list (requests q') = [] \<and>
    dom (blocks (heap w')) = dom (blocks (heap w)) - set (owned (requests q))"
proof -
  note q = table_get_props(3) [OF assms(2)]
  have pl: "\<forall>r \<in> set (q_list (requests q)). payload r \<noteq> None"
    using mem_ok_runtime(1) [OF assms(1) q] by (simp add: rt_ok_def)
  obtain q' h' where "take_loop (count (requests q)) (requests q) (heap w) =
      Some (map (delivered (heap w)) (q_list (requests q)), q', h')" "q_list q' = []"
      "dom (blocks h') = dom (blocks (heap w)) - set (owned (requests q))"
    using take_loop_all [OF queue_owns_runtime [OF assms(1) q] pl refl] by blast
  with assms(2) show ?thesis
    by (auto simp: mlqjs_take_requests_def mlqjs_host_queue_count_def)
qed

theorem take_requests_delivers_witness:
  "\<exists>(w :: unit world) v p q w' q'. table_get v w = Found (0, p, q) \<and>
     mlqjs_take_requests v w = (CamlOk (map (delivered (heap w)) (q_list (requests q))), w') \<and>
     runtimes w' p = Some q' \<and> q_list (requests q') = []"
proof -
  obtain v w p q where c: "mlqjs_create quiet_js [] (world0 ()) = (CamlOk v, w)"
    and g: "table_get v w = Found (0, p, q)" by (rule quiet_create0)
  have "world_inv w"
    using safe_create [of "world0 ()" quiet_js "[]"] world_inv_boot [of _ _ "()"] c by (simp add: world0_boot)
  from take_requests_delivers [OF this g] g show ?thesis by blast
qed

end
