(* ===== verification/Host_Calls.thy ===== *)
theory Host_Calls
  imports Safety
begin

text \<open>
  Functional behaviour of the bindings: how the limits arrive, when the interrupt handler
  stops a script, what a host call leaves in the queue and the promise table, how a promise
  is found again, and the module map.
\<close>

subsection \<open>Limits\<close>

text \<open>The text OCaml sends (\<^verbatim>\<open>limits_blob\<close> in src/qjs/lib/qjs_engine.ml): eleven numbers, each followed by a bar.\<close>

definition limits_blob :: "int list \<Rightarrow> string" where
  "limits_blob vs = concat (map (\<lambda>v. show_int v @ ''|'') vs)"

lemma digit_char_bounds: "d < 10 \<Longrightarrow> is_digit (digit_char d)"
  by (simp add: is_digit_def of_char_digit_char)

lemma digits_are_digits: "c \<in> set (dec_digits n) \<Longrightarrow> is_digit c"
  using set_radix_digits [of 10 n] digit_char_bounds by auto

lemma dec_value_radix: "(\<forall>c \<in> set ds. is_digit c) \<Longrightarrow> dec_value ds = radix_value 10 ds"
proof -
  assume "\<forall>c \<in> set ds. is_digit c"
  then have "\<forall>c \<in> set ds. of_char c - 48 = digit_val c" by (auto simp: is_digit_def digit_val_def Let_def)
  then show ?thesis unfolding dec_value_def radix_value_def by (intro foldl_cong) auto
qed

lemma bar_no_digit: "\<not> is_digit (CHR ''|'')"
  by (simp add: is_digit_def)

lemma digits_then_bar:
  "takeWhile is_digit (dec_digits n @ CHR ''|'' # s) = dec_digits n"
  "dropWhile is_digit (dec_digits n @ CHR ''|'' # s) = CHR ''|'' # s"
  using digits_are_digits [of _ n] bar_no_digit by (simp_all add: takeWhile_append2 dropWhile_append2)

lemma first_digit:
  obtains c cs where "dec_digits n = c # cs" "is_digit c"
  using digits_are_digits [of _ n] radix_digits_nonempty [of 10 n] by (cases "dec_digits n") auto

lemma digit_not_special: "is_digit c \<Longrightarrow> \<not> is_space c \<and> c \<noteq> CHR ''-'' \<and> c \<noteq> CHR ''+''"
  by (auto simp: is_digit_def is_space_def)

lemma strtol_show_int:
  assumes "- (2 ^ 63) \<le> v" and "v < 2 ^ 63"
  shows "strtol (show_int v @ CHR ''|'' # s) = (v, CHR ''|'' # s)"
proof -
  have val: "dec_value (dec_digits n) = n" for n
    using dec_value_radix [of "dec_digits n"] digits_are_digits radix_value_digits [of 10 n] by simp
  show ?thesis
  proof (cases "v < 0")
    case True
    have "\<not> is_space (CHR ''-'')" by (simp add: is_space_def)
    with True assms digits_then_bar [of "nat (- v)" s] val [of "nat (- v)"] show ?thesis
      by (simp add: strtol_def show_int_def Let_def)
  next
    case False
    obtain c cs where c: "dec_digits (nat v) = c # cs" "is_digit c" by (rule first_digit)
    have sp: "\<not> is_space c" "c \<noteq> CHR ''-''" "c \<noteq> CHR ''+''" using digit_not_special [OF c(2)] by simp_all
    have cat: "show_int v @ CHR ''|'' # s = c # cs @ CHR ''|'' # s" using False c by (simp add: show_int_def)
    from False assms digits_then_bar [of "nat v" s, unfolded c(1)] val [of "nat v", unfolded c(1)] sp c(2)
    show ?thesis unfolding cat by (simp add: strtol_def Let_def)
  qed
qed

lemma decode_vals_blob:
  "(\<forall>v \<in> set vs. - (2 ^ 63) \<le> v \<and> v < 2 ^ 63) \<Longrightarrow> decode_vals (length vs) (limits_blob vs) = vs"
proof (induction vs)
  case (Cons v vs)
  have s: "limits_blob (v # vs) = show_int v @ CHR ''|'' # limits_blob vs" by (simp add: limits_blob_def)
  have ne: "show_int v \<noteq> []" by (simp add: show_int_def)
  have "CHR ''|'' # limits_blob vs \<noteq> show_int v @ CHR ''|'' # limits_blob vs"
    using ne by (metis append_self_conv2)
  with Cons strtol_show_int [of v "limits_blob vs"] ne show ?case unfolding s by simp
qed (simp add: limits_blob_def)

lemma limits_blob_no_nul: "CHR 0x00 \<notin> set (limits_blob vs)"
proof -
  have "CHR 0x00 \<notin> set (show_int v)" for v
    using digits_are_digits [of "CHR 0x00"] by (auto simp: show_int_def is_digit_def)
  then show ?thesis by (auto simp: limits_blob_def)
qed

subsection \<open>Host calls\<close>

lemma enqueue_registers:
  assumes inv: "world_inv w" and q: "runtimes w p = Some q" and room: "count (requests q) < MLQJS_QUEUE_CAP"
    and m: "malloc bytes (heap w) = (Some b, h)" and slot: "\<exists>s \<in> set (g_promises w). \<not> in_use s"
    and op: "length op < MLQJS_MAX_OP_LEN" "c_str op = op" and i0: "next_id (requests q) \<noteq> 0"
  shows "\<exists>w' q' k. enqueue_and_register js c p op full b n promise res rej (with_engine f (set_heap h w)) = Some (promise, w') \<and>
    runtimes w' p = Some q' \<and>
    map (delivered (heap w')) (q_list (requests q')) =
      map (delivered (heap w)) (q_list (requests q)) @ [(next_id (requests q), op, take n bytes)] \<and>
    k < length (g_promises w) \<and> \<not> in_use (g_promises w ! k) \<and>
    g_promises w' = (g_promises w)[k := \<lparr>ps_id = next_id (requests q), resolve = res, reject = rej, in_use = True, ps_owner = p\<rparr>]"
proof -
  note q_ok = mem_ok_runtime [OF inv q]
  have qi: "q_inv (requests q)" using q_ok(1) by (simp add: rt_ok_def)
  obtain i rq h' where push: "mlqjs_host_queue_push (requests q) (Some op) (Some b) n h = (i, rq, h')"
    by (rule prod_cases3)
  note p = push_room [OF qi room push]
  obtain k where k: "first_free (\<lambda>s. \<not> in_use s) (g_promises w) = Some k"
    using slot first_free_None [of "\<lambda>s. \<not> in_use s" "g_promises w"] by (cases "first_free (\<lambda>s. \<not> in_use s) (g_promises w)") auto
  have new: "delivered h (req_set request_zero i (Some op) (Some b) n) = (i, op, take n bytes)"
    using op malloc_block [OF m] by (simp add: delivered_def req_set_def strlen_def)
  have old: "delivered h r = delivered (heap w) r" if "r \<in> set (q_list (requests q))" for r
  proof -
    have "payload r \<noteq> None" using that q_ok(1) by (simp add: rt_ok_def)
    then have "the (payload r) \<in> set (owned (requests q))" using that by (auto simp: owned_def)
    then have "the (payload r) \<in> dom (blocks (heap w))"
      using queue_owns_runtime [OF inv q] by (auto simp: queue_owns_def)
    then show ?thesis using malloc_other [OF q_ok(4) m] by (simp add: delivered_def)
  qed
  show ?thesis
    using q push i0 k k [unfolded first_free_Some] p(1,2,4) new old
    by (auto simp: enqueue_and_register_def promise_insert_def Let_def)
qed

text \<open>The slot a host call just filled is the one that is found, unless an older slot has the same id.\<close>

lemma promise_find_inserted:
  assumes "g_promises w' = (g_promises w)[k := \<lparr>ps_id = i, resolve = res, reject = rej, in_use = True, ps_owner = p\<rparr>]"
    and "k < length (g_promises w)" and "\<forall>s \<in> set (g_promises w). in_use s \<longrightarrow> ps_id s \<noteq> i"
  shows "promise_find i w' = Some k"
proof -
  have "\<not> (in_use (g_promises w ! j) \<and> ps_id (g_promises w ! j) = i)" if "j < k" for j
    using assms(2,3) that nth_mem [of j "g_promises w"] by auto
  then show ?thesis using assms(1,2) by (auto simp: promise_find_def first_free_Some)
qed

text \<open>The first runtime of a fresh process, in full.\<close>

lemma quiet_created:
  obtains v w q where "mlqjs_create quiet_js [] (world0 ()) = (CamlOk v, w)" "table_get v w = Found (0, 0, q)"
    "runtimes w 0 = Some q" "requests q = mlqjs_host_queue_init queue_zero" "\<not> cancelled q"
    "interrupt_reason q = REASON_NONE" "modules q = []"
    "g_promises w = g_promises (world0 ())" "\<forall>k. \<not> oom (heap w) k" "world_inv w"
proof -
  obtain v w p q where c: "mlqjs_create quiet_js [] (world0 ()) = (CamlOk v, w)"
    and g: "table_get v w = Found (0, p, q)" by (rule quiet_create0)
  have inv: "world_inv w"
    using safe_create [of "world0 ()" quiet_js "[]"] world_inv_boot [of _ _ "()"] c by (simp add: world0_boot)
  from c tables_ok_world0 [THEN conjunct1] show thesis
  proof (cases rule: create_cases)
    case (4 p' h1 st h2 q' i)
    have p': "p' = 0" and o: "oom h2 = oom (heap (world0 ()))"
      using 4(1,2) by (auto simp: malloc_def mlqjs_alloc_state_new_def world0_def split: if_splits)
    have "i = 0" using 4(4) by (simp add: world0_fields)
    then have "g_table w ! 0 = Some 0" using 4(5) p' by (simp add: world0_def)
    with table_get_props(2) [OF g] have p: "p = 0" by simp
    note q = table_get_props(3) [OF g]
    have "q = q'\<lparr>gen := next_gen (g_generation (world0 ()) ! i)\<rparr>" using q 4(8) p p' by simp
    with that [of v w q] c g p q inv 4(3,7,9) o show ?thesis
      by (simp add: fresh_runtime_def world0_fields)
  qed simp_all
qed

subsection \<open>The module map\<close>

text \<open>The source the module loader compiles for a name.\<close>

definition module_source :: "'e world \<Rightarrow> ptr \<Rightarrow> string \<Rightarrow> string option" where
  "module_source w p name =
     (case runtimes w p of None \<Rightarrow> None
      | Some q \<Rightarrow> (case find_module (modules q) name of None \<Rightarrow> None | Some e \<Rightarrow> read_source w e))"

lemma find_append: "find P (xs @ ys) = (case find P xs of None \<Rightarrow> find P ys | Some x \<Rightarrow> Some x)"
  by (induction xs) auto

lemma read_source_malloc:
  assumes inv: "world_inv w" and q: "runtimes w p = Some q" and m: "malloc b (heap w) = (r, h)"
    and e: "e \<in> set (modules q)" and w': "heap w' = h"
  shows "read_source w' e = read_source w e"
proof -
  obtain src where "read_source w e = Some src" by (rule live_source [OF inv q e])
  then obtain a where a: "m_source e = Some a" "a \<in> dom (blocks (heap w))"
    by (auto simp: read_source_def split: option.splits)
  from malloc_other [OF mem_ok_runtime(4) [OF inv q] m a(2)] a(1) w' show ?thesis by (simp add: read_source_def)
qed

subsection \<open>Properties\<close>

text \<open>
  Limits round trip. The eleven limits OCaml prints into the blob (each as a signed 32-bit
  decimal followed by a bar) are read back by the C side unchanged: heap and stack in bytes as
  unsigned 64-bit numbers, the two times in nanoseconds.
\<close>

theorem limits_roundtrip:
  assumes "length vs = 11" and "\<forall>v \<in> set vs. - (2 ^ 31) \<le> v \<and> v < 2 ^ 31"
  shows "decode_limits (limits_blob vs) =
    \<lparr>l_heap = word_of_int (vs ! 0), l_stack = word_of_int (vs ! 2),
     l_timeout_ns = word_of_int (vs ! 3 * 1000000), l_cpu_ns = word_of_int (vs ! 4 * 1000000)\<rparr>"
proof -
  have "decode_vals 11 (c_str (limits_blob vs)) = vs"
    using decode_vals_blob [of vs] assms c_str_id [OF limits_blob_no_nul, of vs] by force
  then show ?thesis using assms(1) by (simp add: decode_limits_def nth_append)
qed

theorem limits_roundtrip_witness:
  "decode_limits (limits_blob [67108864, 8388608, 1048576, 30000, 10000, 64, 64, 65536, 1048576, 5, 8]) =
    \<lparr>l_heap = 67108864, l_stack = 1048576, l_timeout_ns = 30000000000, l_cpu_ns = 10000000000\<rparr>"
  using limits_roundtrip [of "[67108864, 8388608, 1048576, 30000, 10000, 64, 64, 65536, 1048576, 5, 8]"] by simp

text \<open>
  C8. The interrupt handler. On a live runtime it stops the script exactly when the runtime is
  cancelled, or the deadline is set and reached, or the CPU budget is set and used up, and
  records the first of these reasons in that order; otherwise it lets the script go on and
  changes no runtime.
\<close>

theorem interrupt_decision:
  assumes "runtimes w p = Some q"
  defines "now \<equiv> clock w (ticks w)"
  defines "late \<equiv> deadline_ns q \<noteq> 0 \<and> deadline_ns q \<le> now"
  defines "spent \<equiv> cpu_budget_ns q \<noteq> 0 \<and> cpu_budget_ns q \<le> now - engine_start_ns q"
  shows "\<exists>w'. mlqjs_interrupt p w = Some (cancelled q \<or> late \<or> spent, w') \<and>
    runtimes w' = (runtimes w)(p \<mapsto> q\<lparr>interrupt_reason :=
      (if cancelled q then REASON_CANCEL else if late then REASON_DEADLINE
       else if spent then REASON_CPU else interrupt_reason q)\<rparr>) \<and>
    ticks w' = (if cancelled q then ticks w else Suc (ticks w))"
  using assms
  by (auto simp: mlqjs_interrupt_def Let_def mlqjs_monotonic_ns_def set_rt_def fun_upd_idem)

theorem interrupt_decision_witness:
  "\<exists>w'. mlqjs_interrupt 3 (set_rt 3 (runtime_zero\<lparr>deadline_ns := 5\<rparr>) (boot (\<lambda>_. False) (\<lambda>_. 9) ())) = Some (True, w') \<and>
     map_option interrupt_reason (runtimes w' 3) = Some REASON_DEADLINE"
  using interrupt_decision [of "set_rt 3 (runtime_zero\<lparr>deadline_ns := 5\<rparr>) (boot (\<lambda>_. False) (\<lambda>_. 9) ())" 3]
  by (auto simp: set_rt_def boot_def runtime_zero_def)

text \<open>
  C4. A \<open>host.rpc\<close> call. When both arguments convert, a promise can be made, memory is there,
  and neither the queue nor the promise table is full, the call returns the promise; the
  runtime's queue has one more request at its end, whose id is the next id, whose operation is
  \<^verbatim>\<open>host.rpc\<close> and whose payload bytes are the operation name, a line feed and the argument's
  JSON; and a free promise slot holds the resolving functions under that id, where
  \<open>promise_find\<close> finds them if no slot had that id before.
\<close>

theorem host_rpc_enqueues:
  assumes "JS_ToCString js c a0 w = (Some op, w1)" and "JS_JSONStringify js c a1 w1 = (json, w2)"
    and "json \<noteq> JS_EXCEPTION" and "JS_ToCString js c json w2 = (Some arg, w3)"
    and "JS_NewPromiseCapability js c (JS_FreeValue js c json (engine w3)) = ((promise, res, rej), e)"
    and "promise \<noteq> JS_EXCEPTION" and "world_inv w3"
    and "runtimes w3 (JS_GetContextOpaque js c (engine w)) = Some q"
    and "count (requests q) < MLQJS_QUEUE_CAP" and "next_id (requests q) \<noteq> 0"
    and "\<not> oom (heap w3) (brk (heap w3))" and "\<exists>s \<in> set (g_promises w3). \<not> in_use s"
    and "\<forall>s \<in> set (g_promises w3). in_use s \<longrightarrow> ps_id s \<noteq> next_id (requests q)"
  shows "\<exists>w' q' k. mlqjs_host_rpc js c [a0, a1] w = Some (promise, w') \<and>
    runtimes w' (JS_GetContextOpaque js c (engine w)) = Some q' \<and>
    map (delivered (heap w')) (q_list (requests q')) =
      map (delivered (heap w3)) (q_list (requests q)) @
      [(next_id (requests q), ''host.rpc'', c_str op @ [CHR 0x0A] @ c_str arg)] \<and>
    promise_find (next_id (requests q)) w' = Some k \<and>
    resolve (g_promises w' ! k) = res \<and> reject (g_promises w' ! k) = rej"
proof -
  let ?p = "JS_GetContextOpaque js c (engine w)"
  define w4 where "w4 = w3\<lparr>engine := e\<rparr>"
  have n: "on_engine (JS_NewPromiseCapability js c) (with_engine (JS_FreeValue js c json) w3) = ((promise, res, rej), w4)"
    using assms(5) by (simp add: on_engine_def with_engine_def w4_def)
  have f: "heap w4 = heap w3" "runtimes w4 = runtimes w3" "g_promises w4 = g_promises w3"
    "same_c_side w3 w4" by (simp_all add: w4_def same_c_side_def)
  let ?pl = "c_str op @ [CHR 0x0A] @ c_str arg"
  obtain b h where m: "malloc (?pl @ [CHR 0x00]) (heap w4) = (Some b, h)"
    using assms(11) f(1) by (simp add: malloc_def)
  note body = mlqjs_host_rpc_def [of js c "[a0, a1]" w, unfolded list.case Let_def assms(1) prod.case assms(2) assms(4)
      option.case if_not_P [OF assms(3)] n if_not_P [OF assms(6)] m [unfolded append_assoc] append_assoc]
  have op: "length ''host.rpc'' < MLQJS_MAX_OP_LEN" "c_str ''host.rpc'' = ''host.rpc''"
    by (simp_all add: c_str_def)
  from enqueue_registers [OF world_inv_c_side [OF f(4) assms(7)], of ?p q "?pl @ [CHR 0x00]" b h "''host.rpc''",
      where n = "length ?pl" and f = "JS_FreeCString js c arg \<circ> JS_FreeCString js c op" and js = js and c = c
        and full = "''queue full''" and promise = promise and res = res and rej = rej]
  obtain w' q' k where r:
    "enqueue_and_register js c ?p ''host.rpc'' ''queue full'' b (length ?pl) promise res rej
       (with_engine (JS_FreeCString js c arg \<circ> JS_FreeCString js c op) (set_heap h w4)) = Some (promise, w')"
    "runtimes w' ?p = Some q'"
    "map (delivered (heap w')) (q_list (requests q')) = map (delivered (heap w3)) (q_list (requests q)) @
       [(next_id (requests q), ''host.rpc'', take (length ?pl) (?pl @ [CHR 0x00]))]"
    "k < length (g_promises w3)"
    "g_promises w' = (g_promises w3)[k := \<lparr>ps_id = next_id (requests q), resolve = res, reject = rej, in_use = True, ps_owner = ?p\<rparr>]"
    using assms(8-10,12) m f(1-3) op by auto
  have "promise_find (next_id (requests q)) w' = Some k"
    using promise_find_inserted [OF r(5,4) assms(13)] .
  with r body show ?thesis by auto
qed

theorem host_rpc_enqueues_witness:
  "\<exists>(w :: unit world) w' q' k. mlqjs_host_rpc quiet_js 0 [JSVal 0, JSVal 1] w = Some (JSVal 4, w') \<and>
     runtimes w' 0 = Some q' \<and>
     map (delivered (heap w')) (q_list (requests q')) = [(1, ''host.rpc'', ''{}'' @ [CHR 0x0A] @ ''{}'')] \<and>
     promise_find 1 w' = Some k \<and> resolve (g_promises w' ! k) = JSVal 5"
proof -
  obtain w :: "unit world" and q where w: "runtimes w 0 = Some q" "requests q = mlqjs_host_queue_init queue_zero"
    "g_promises w = g_promises (world0 ())" "\<forall>k. \<not> oom (heap w) k" "world_inv w"
    by (rule quiet_created)
  have q0: "count (requests q) = 0" "next_id (requests q) = 1" "q_list (requests q) = []"
    using w(2) q_inv_init [of queue_zero] by (simp_all add: mlqjs_host_queue_init_def queue_zero_def)
  have js: "JS_ToCString quiet_js 0 a w = (Some ''{}'', w)" "JS_JSONStringify quiet_js 0 a w = (JSVal 1, w)"
    "JS_NewPromiseCapability quiet_js 0 (JS_FreeValue quiet_js 0 a (engine w)) = ((JSVal 4, JSVal 5, JSVal 6), engine w)"
    "JS_GetContextOpaque quiet_js 0 (engine w) = 0" for a
    by (simp_all add: quiet_js_def)
  have "c_str ''{}'' = ''{}''" by (simp add: c_str_def)
  then have "\<exists>w' q' k. mlqjs_host_rpc quiet_js 0 [JSVal 0, JSVal 1] w = Some (JSVal 4, w') \<and>
     runtimes w' 0 = Some q' \<and>
     map (delivered (heap w')) (q_list (requests q')) = [(1, ''host.rpc'', ''{}'' @ [CHR 0x0A] @ ''{}'')] \<and>
     promise_find 1 w' = Some k \<and> resolve (g_promises w' ! k) = JSVal 5 \<and> reject (g_promises w' ! k) = JSVal 6"
    using host_rpc_enqueues [OF js(1) js(2) _ js(1) js(3) _ w(5), of q "JSVal 0" "JSVal 1"] js(4) w q0
    by (simp add: world0_def)
  then show ?thesis by (elim exE conjE, intro exI conjI)
qed

text \<open>
  Cancelling wins. Once \<open>mlqjs_cancel\<close> returned on a valid handle, every \<open>mlqjs_pump\<close> with
  a positive bound runs no job and returns 2 (interrupted), and the interrupt handler stops
  the script with the reason of a cancel, whatever the clock says.
\<close>

theorem cancel_stops:
  assumes "table_get v w = Found (i, p, q)" and "mlqjs_cancel v reason w = (r, w')"
    and "0 < sint (word_of_int n :: 32 word)"
  shows "mlqjs_pump js v n w' = (CamlOk 2, w') \<and>
    (\<exists>w''. mlqjs_interrupt p w' = Some (True, w'') \<and> map_option interrupt_reason (runtimes w'' p) = Some REASON_CANCEL)"
proof -
  note g = table_get_props [OF assms(1)]
  have w': "w' = set_rt p (q\<lparr>cancelled := True\<rparr>) w" using assms(1,2) by (simp add: mlqjs_cancel_def)
  have get: "table_get v w' = Found (i, p, q\<lparr>cancelled := True\<rparr>)"
    using g by (simp add: table_get_def w' Let_def)
  obtain k where k: "nat (sint (word_of_int n :: 32 word)) = Suc k"
    using assms(3) by (metis gr0_implies_Suc zero_less_nat_eq)
  have "mlqjs_pump js v n w' = (CamlOk 2, w')"
    using get k by (simp add: mlqjs_pump_def w')
  moreover have "\<exists>w''. mlqjs_interrupt p w' = Some (True, w'') \<and> map_option interrupt_reason (runtimes w'' p) = Some REASON_CANCEL"
    by (simp add: mlqjs_interrupt_def w')
  ultimately show ?thesis by blast
qed

theorem cancel_stops_witness:
  "\<exists>(w :: unit world) w' v. mlqjs_cancel v 0 w = (CamlOk (), w') \<and> mlqjs_pump quiet_js v 10 w' = (CamlOk 2, w')"
proof -
  obtain v w q where g: "table_get v w = Found (0, 0, q)" and w: "world_inv (w :: unit world)" by (rule quiet_created)
  have c: "mlqjs_cancel v 0 w = (CamlOk (), set_rt 0 (q\<lparr>cancelled := True\<rparr>) w)"
    using g by (simp add: mlqjs_cancel_def)
  from cancel_stops [OF g c, of 10 quiet_js] c show ?thesis by auto
qed

text \<open>
  C9. Promises are not tied to a runtime. The promise table is global and only the request id,
  which every runtime counts from 1, selects the slot: whatever valid handle \<open>mlqjs_resolve\<close> is
  given, it settles the first slot in use with that id, calling the resolving function stored
  there in the context of the given handle's runtime, and frees that slot; if the runtime that
  made the slot's functions has been destroyed, the call is undefined behaviour.
\<close>

theorem resolve_ignores_runtime:
  assumes "table_get v w = Found (i, p, q)" and "ctx q = Some c" and "promise_find n w = Some k"
    and "JS_ParseJSON js c json (engine w) = (val, e)" and "val \<noteq> JS_EXCEPTION"
    and "JS_Call js c (resolve (g_promises w ! k)) val (w\<lparr>engine := e\<rparr>) = (ret, w1)"
    and "k < length (g_promises w1)"
  shows "if dead_slot (g_promises w ! k) w then mlqjs_resolve js v n json w = (Undefined, w)
    else \<exists>w'. mlqjs_resolve js v n json w = (CamlOk (), w') \<and> \<not> in_use (g_promises w' ! k) \<and>
      ps_id (g_promises w ! k) = n \<and> runtimes w' = runtimes w1 \<and> heap w' = heap w1"
proof -
  have "ps_id (g_promises w ! k) = n" using assms(3) by (simp add: promise_find_def first_free_Some)
  with assms show ?thesis by (auto simp: mlqjs_resolve_def on_engine_def Let_def promise_remove_def)
qed

text \<open>Two slots with the same id, as two runtimes leave them; the handle belongs to the second.\<close>

theorem resolve_ignores_runtime_witness:
  "\<exists>(w :: ptr list world) v w' q0 q. runtimes w 0 = Some q0 \<and> table_get v w = Found (1, 2, q) \<and>
     g_promises w ! 0 = \<lparr>ps_id = 1, resolve = JSVal 5, reject = JSVal 6, in_use = True, ps_owner = 0\<rparr> \<and>
     g_promises w ! 1 = \<lparr>ps_id = 1, resolve = JSVal 15, reject = JSVal 16, in_use = True, ps_owner = 2\<rparr> \<and>
     mlqjs_resolve quiet_js v 1 ''{}'' w = (CamlOk (), w') \<and> \<not> in_use (g_promises w' ! 0)"
proof -
  let ?s = "\<lparr>ps_id = 1, resolve = JSVal 5, reject = JSVal 6, in_use = True, ps_owner = 0\<rparr>"
  let ?t = "\<lparr>ps_id = 1, resolve = JSVal 15, reject = JSVal 16, in_use = True, ps_owner = 2\<rparr>"
  obtain q0 q and w :: "ptr list world" where h: "table_get 65536 w = Found (0, 0, q0)" and g: "table_get 65537 w = Found (1, 2, q)"
    and inv: "world_inv w" by (rule two_runtimes)
  note r = table_get_props(3) [OF h]
  define w0 where "w0 = w\<lparr>g_promises := [?s, ?t] @ drop 2 (g_promises w)\<rparr>"
  have g0: "table_get 65537 w0 = Found (1, 2, q)" using g table_get_cong [of w0 w 65537] by (simp add: w0_def)
  obtain r0 c where c: "ctx q = Some c" by (rule live_ctx [OF inv table_get_props(3) [OF g]])
  have f: "promise_find 1 w0 = Some 0" by (simp add: promise_find_def w0_def)
  have js: "JS_ParseJSON quiet_js c ''{}'' (engine w0) = (JSVal 2, engine w0)"
    "JS_Call quiet_js c x y w' = (JS_UNDEFINED, w')" for x y and w' :: "ptr list world"
    by (simp_all add: quiet_js_def)
  have "runtimes w0 0 = Some q0" "g_promises w0 ! 0 = ?s" "g_promises w0 ! 1 = ?t" "0 < length (g_promises w0)"
    "\<not> dead_slot ?s w0" using r by (simp_all add: w0_def dead_slot_def)
  with resolve_ignores_runtime [OF g0 c f js(1), of JS_UNDEFINED "w0\<lparr>engine := engine w0\<rparr>"] js(2) g0 show ?thesis by auto
qed

text \<open>
  The module map. After a successful \<open>mlqjs_set_module\<close>, the loader finds exactly the given
  bytes under the given path, unless the path was already there: then the earlier source stays.
  No other name of the runtime is affected.
\<close>

theorem set_module_then_load:
  assumes "world_inv w" and "table_get v w = Found (i, p, q)" and "mlqjs_set_module v path src w = (CamlOk (), w')"
  shows "module_source w' p name =
    (if streq path name \<and> module_source w p name = None then Some src else module_source w p name)"
proof -
  note q = table_get_props(3) [OF assms(2)]
  obtain a h where m: "malloc (if src = [] then block 1 else src) (heap w) = (Some a, h)"
    and w': "w' = set_rt p (q\<lparr>modules := modules q @ [\<lparr>m_path = path, m_source = Some a, m_source_len = length src\<rparr>]\<rparr>)
      (set_heap h w)"
    using assms(2,3) by (auto simp: mlqjs_set_module_def Let_def split: if_splits prod.splits option.splits)
  have new: "read_source w' \<lparr>m_path = path, m_source = Some a, m_source_len = length src\<rparr> = Some src"
    using malloc_block [OF m] by (simp add: read_source_def w')
  have old: "read_source w' e = read_source w e" if "e \<in> set (modules q)" for e
    using read_source_malloc [OF assms(1) q m that, of w'] by (simp add: w')
  show ?thesis
  proof (cases "find_module (modules q) name")
    case None
    then show ?thesis using q new by (simp add: module_source_def find_module_def find_append w')
  next
    case (Some e)
    then have e: "e \<in> set (modules q)" unfolding find_module_def by (metis find_Some_iff nth_mem)
    then obtain s where "read_source w e = Some s" by (rule live_source [OF assms(1) q])
    with Some q old [OF e] show ?thesis by (simp add: module_source_def find_module_def find_append w')
  qed
qed

theorem set_module_then_load_witness:
  "\<exists>(w :: unit world) v w'. mlqjs_set_module v ''main.mjs'' ''export {}'' w = (CamlOk (), w') \<and>
     module_source w' 0 ''main.mjs'' = Some ''export {}''"
proof -
  obtain v w q where w: "table_get v w = Found (0, 0, q)" "runtimes w 0 = Some q" "modules q = []" "\<forall>k. \<not> oom (heap w) k"
    "world_inv (w :: unit world)" by (rule quiet_created)
  obtain w' where s: "mlqjs_set_module v ''main.mjs'' ''export {}'' w = (CamlOk (), w')"
    using w by (simp add: mlqjs_set_module_def malloc_def)
  have "module_source w 0 ''main.mjs'' = None" using w by (simp add: module_source_def find_module_def)
  with set_module_then_load [OF w(5,1) s, of "''main.mjs''"] s show ?thesis by (auto simp: streq_def)
qed

end
