(* ===== verification/Cutils_Strings.thy ===== *)
theory Cutils_Strings
  imports Prelude "HOL-Library.Sublist"
begin

text \<open>
  The bounded string functions of the engine's utility library
  (src/qjs/lib/_qjs_cutils.c): copy, concatenation, prefix and suffix tests. A character
  array is the list of its bytes; a C string is read up to its first NUL, and the end of the
  list reads as NUL.
\<close>

subsection \<open>Operations\<close>

text \<open>The copy loop: \<open>q\<close> is the write position, \<open>lim\<close> the last position of the buffer.\<close>

fun pstrcpy_loop :: "string \<Rightarrow> nat \<Rightarrow> nat \<Rightarrow> string \<Rightarrow> string" where
  "pstrcpy_loop buf q lim [] = buf[q := CHR 0x00]"
| "pstrcpy_loop buf q lim (c # str) =
     (if c = CHR 0x00 \<or> q \<ge> lim then buf[q := CHR 0x00]
      else pstrcpy_loop (buf[q := c]) (q + 1) lim str)"

definition pstrcpy :: "string \<Rightarrow> int \<Rightarrow> string \<Rightarrow> string" where
  "pstrcpy buf buf_size str =
     (if buf_size \<le> 0 then buf else pstrcpy_loop buf 0 (nat (buf_size - 1)) str)"

definition pstrcat :: "string \<Rightarrow> int \<Rightarrow> string \<Rightarrow> string" where
  "pstrcat buf buf_size s =
     (let len = strlen buf in
      if int len < buf_size then take len buf @ pstrcpy (drop len buf) (buf_size - int len) s
      else buf)"

text \<open>\<open>None\<close> is the result 0; \<open>Some p\<close> is the result 1 with the rest of the string.\<close>

fun strstart :: "string \<Rightarrow> string \<Rightarrow> string option" where
  "strstart p [] = Some p"
| "strstart p (d # q) =
     (if d = CHR 0x00 then Some p
      else case p of [] \<Rightarrow> None
           | c # p' \<Rightarrow> (if c \<noteq> d then None else strstart p' q))"

definition has_suffix :: "string \<Rightarrow> string \<Rightarrow> bool" where
  "has_suffix str suff =
     (let len = strlen str; slen = strlen suff
      in len \<ge> slen \<and> take slen (drop (len - slen) str) = take slen suff)"

subsection \<open>Lemmas\<close>

lemma c_str_simps [simp]:
  "c_str [] = []" "c_str (c # s) = (if c = CHR 0x00 then [] else c # c_str s)"
  by (simp_all add: c_str_def)

lemma c_str_is_take: "c_str s = take (strlen s) s"
  unfolding strlen_def c_str_def by (rule takeWhile_eq_take)

lemma pstrcpy_loop_spec:
  assumes "q \<le> lim" and "lim < length buf"
  shows "pstrcpy_loop buf q lim str =
    (let t = take (lim - q) (c_str str) in take q buf @ t @ [CHR 0x00] @ drop (q + length t + 1) buf)"
  using assms
proof (induction str arbitrary: buf q)
  case Nil
  then show ?case by (simp add: upd_conv_take_nth_drop)
next
  case (Cons c str)
  show ?case
  proof (cases "c = CHR 0x00 \<or> q = lim")
    case True
    with Cons.prems show ?thesis by (auto simp: upd_conv_take_nth_drop)
  next
    case False
    then have q: "q < lim" using Cons.prems by simp
    obtain k where k: "lim - q = Suc k" "lim - (q + 1) = k" using q by (cases "lim - q") auto
    have "take (q + 1) (buf[q := c]) = take q buf @ [c]"
      using q Cons.prems by (simp add: take_Suc_conv_app_nth)
    with False q k Cons.IH [of "q + 1" "buf[q := c]"] Cons.prems show ?thesis
      by (simp add: Let_def)
  qed
qed

lemma pstrcpy_spec:
  assumes "0 < n" and "nat n \<le> length buf"
  shows "pstrcpy buf n str =
    (let t = take (nat n - 1) (c_str str) in t @ [CHR 0x00] @ drop (length t + 1) buf)"
  using assms pstrcpy_loop_spec [of 0 "nat (n - 1)" buf str]
  by (simp add: pstrcpy_def Let_def nat_diff_distrib)

lemma c_str_append_nul: "CHR 0x00 \<notin> set t \<Longrightarrow> c_str (t @ CHR 0x00 # s) = t"
  by (induction t) auto

lemma take_c_str_no_nul: "CHR 0x00 \<notin> set (take n (c_str s))"
  using c_str_no_nul [of s] by (auto dest: in_set_takeD)

lemma c_str_append: "CHR 0x00 \<notin> set t \<Longrightarrow> c_str (t @ s) = t @ c_str s"
  by (induction t) auto

lemma strstart_iff: "strstart p v = Some r \<longleftrightarrow> p = c_str v @ r"
proof (induction v arbitrary: p)
  case Nil
  then show ?case by auto
next
  case (Cons d v)
  then show ?case by (cases p) auto
qed

lemma has_suffix_iff: "has_suffix s t \<longleftrightarrow> suffix (c_str t) (c_str s)"
proof -
  let ?s = "c_str s" and ?t = "c_str t"
  have l: "strlen s = length ?s" "strlen t = length ?t" by (simp_all add: strlen_def)
  have tk: "take (length ?s) s = ?s" "take (length ?t) t = ?t"
    by (simp_all only: l [symmetric] c_str_is_take [symmetric])
  have "take (length ?t) (drop (length ?s - length ?t) s) = drop (length ?s - length ?t) ?s" if "length ?t \<le> length ?s"
    using that drop_take [of "length ?s - length ?t" "length ?s" s] by (simp add: tk(1))
  then have "has_suffix s t \<longleftrightarrow> length ?t \<le> length ?s \<and> drop (length ?s - length ?t) ?s = ?t"
    by (auto simp: has_suffix_def Let_def l tk(2))
  also have "\<dots> \<longleftrightarrow> suffix ?t ?s"
  proof
    assume a: "length ?t \<le> length ?s \<and> drop (length ?s - length ?t) ?s = ?t"
    show "suffix ?t ?s" using suffix_drop [of "length ?s - length ?t" ?s] a by simp
  next
    assume "suffix ?t ?s"
    then show "length ?t \<le> length ?s \<and> drop (length ?s - length ?t) ?s = ?t" by (auto simp: suffix_def)
  qed
  finally show ?thesis .
qed

subsection \<open>Properties\<close>

text \<open>
  Bounded copy and concatenation. On a buffer of \<open>n\<close> bytes that holds a string,
  \<open>pstrcat\<close> never changes the number of bytes, leaves a NUL-terminated string inside the buffer,
  and that string is the concatenation cut to \<open>n - 1\<close> bytes; \<open>pstrcpy\<close> does the same for a copy.
\<close>

theorem pstrcat_bounded:
  assumes "strlen buf < length buf"
  shows "length (pstrcat buf (int (length buf)) s) = length buf \<and>
    strlen (pstrcat buf (int (length buf)) s) < length buf \<and>
    c_str (pstrcat buf (int (length buf)) s) = take (length buf - 1) (c_str buf @ c_str s) \<and>
    length (pstrcpy buf (int (length buf)) s) = length buf \<and>
    c_str (pstrcpy buf (int (length buf)) s) = take (length buf - 1) (c_str s)"
proof -
  let ?n = "length buf" and ?l = "strlen buf"
  let ?d = "drop ?l buf"
  have l: "?l < ?n" and pos: "0 < int ?n" using assms by linarith+
  define t where "t = take (?n - ?l - 1) (c_str s)"
  have lt: "length t \<le> ?n - ?l - 1" by (simp add: t_def)
  have "pstrcpy ?d (int ?n - int ?l) s = t @ [CHR 0x00] @ drop (length t + 1) ?d"
    using pstrcpy_spec [of "int ?n - int ?l" ?d s] l by (simp add: Let_def t_def nat_diff_distrib)
  then have cat: "pstrcat buf (int ?n) s = c_str buf @ t @ CHR 0x00 # drop (length t + 1) ?d"
    using l c_str_is_take [of buf] by (simp add: pstrcat_def Let_def)
  have nn: "CHR 0x00 \<notin> set (c_str buf @ t)" using c_str_no_nul [of buf] take_c_str_no_nul by (simp add: t_def)
  have cs: "c_str (pstrcat buf (int ?n) s) = c_str buf @ t"
    unfolding cat using c_str_append_nul [OF nn] by simp
  have len: "length (c_str buf) = ?l" by (simp add: strlen_def)
  have "length (pstrcat buf (int ?n) s) = ?n" unfolding cat using len lt l by simp
  moreover have "take (?n - 1) (c_str buf @ c_str s) = c_str buf @ t"
    using len l by (simp add: t_def min_def)
  moreover have "strlen (pstrcat buf (int ?n) s) < ?n" using cs len lt l by (simp add: strlen_def)
  moreover have "length (pstrcpy buf (int ?n) s) = ?n \<and> c_str (pstrcpy buf (int ?n) s) = take (?n - 1) (c_str s)"
    using pstrcpy_spec [of "int ?n" buf s] pos l take_c_str_no_nul [of "?n - 1" s]
    by (simp add: Let_def c_str_append_nul)
  ultimately show ?thesis using cs by simp
qed

theorem pstrcat_bounded_witness:
  "c_str (pstrcat (''ab'' @ replicate 4 (CHR 0x00)) 6 ''wxyz'') = ''abwxy''"
  using pstrcat_bounded [of "''ab'' @ replicate 4 (CHR 0x00)" "''wxyz''"] by (simp add: strlen_def numeral_eq_Suc)

text \<open>
  Prefix and suffix tests. \<open>strstart\<close> succeeds exactly when the string begins with the C
  string of its second argument and then returns what follows; \<open>has_suffix\<close> says exactly
  whether one C string is a suffix of the other.
\<close>

theorem prefix_suffix_tests:
  "(strstart str val = Some rest \<longleftrightarrow> str = c_str val @ rest) \<and>
   (has_suffix str suff \<longleftrightarrow> suffix (c_str suff) (c_str str))"
  by (simp add: strstart_iff has_suffix_iff)

end
