(* ===== verification/Dynbuf.thy ===== *)
theory Dynbuf
  imports C_Heap
begin

text \<open>
  The dynamic byte buffer of the engine's utility library (src/qjs/lib/_qjs_cutils.c and
  cutils.h): a block that grows by reallocation. Sizes are 64-bit words, so the overflow
  checks of \<open>dbuf_claim\<close> are those of the code. The reallocation function is a field of the
  structure; what the buffer relies on is the locale \<open>realloc_contract\<close>, which the default
  function satisfies.
\<close>

subsection \<open>Data\<close>

type_synonym realloc_func = "ptr option \<Rightarrow> u64 \<Rightarrow> c_heap \<Rightarrow> ptr option \<times> c_heap"

record DynBuf =
  buf :: "ptr option"
  dsize :: u64
  allocated_size :: u64
  error :: bool
  realloc_fn :: "realloc_func option"

text \<open>The bytes of a block; a null pointer has none.\<close>

definition bytes_at :: "c_heap \<Rightarrow> ptr option \<Rightarrow> string" where
  "bytes_at h p = (case p of None \<Rightarrow> [] | Some a \<Rightarrow> (case blocks h a of None \<Rightarrow> [] | Some b \<Rightarrow> b))"

text \<open>
  \<^verbatim>\<open>memcpy\<close> into a block at an offset; \<open>None\<close> when the bytes do not fit into the block, or when
  the block is not allocated, which is undefined behaviour in C. Copying no bytes does nothing.
\<close>

definition write_at :: "c_heap \<Rightarrow> ptr option \<Rightarrow> nat \<Rightarrow> string \<Rightarrow> c_heap option" where
  "write_at h p off data =
     (if data = [] then Some h
      else case p of None \<Rightarrow> None
      | Some a \<Rightarrow>
          (case blocks h a of None \<Rightarrow> None
           | Some b \<Rightarrow>
               if off + length data \<le> length b
               then Some (h\<lparr>blocks := (blocks h)(a \<mapsto> take off b @ data @ drop (off + length data) b)\<rparr>)
               else None))"

subsection \<open>Operations\<close>

text \<open>\<^verbatim>\<open>realloc\<close> with size 0 frees the block.\<close>

definition dbuf_default_realloc :: realloc_func where
  "dbuf_default_realloc p n h = (if n = 0 then (None, c_free p h) else c_realloc p (unat n) h)"

definition dbuf_init2 :: "realloc_func option \<Rightarrow> DynBuf" where
  "dbuf_init2 f = \<lparr>buf = None, dsize = 0, allocated_size = 0, error = False,
     realloc_fn = Some (case f of None \<Rightarrow> dbuf_default_realloc | Some g \<Rightarrow> g)\<rparr>"

definition dbuf_init :: DynBuf where
  "dbuf_init = dbuf_init2 None"

text \<open>
  The result is whether the call succeeded (return value 0), with the new state. \<open>None\<close> is undefined
  behaviour: a call through the null function pointer that \<open>dbuf_free\<close> leaves behind, or an access
  outside the block.
\<close>

type_synonym dbuf_result = "(bool \<times> DynBuf \<times> c_heap) option"

definition dbuf_claim :: "DynBuf \<Rightarrow> u64 \<Rightarrow> c_heap \<Rightarrow> dbuf_result" where
  "dbuf_claim s len h =
     (let new_size = dsize s + len in
      if new_size < len then Some (False, s, h)
      else if new_size > allocated_size s then
        if error s then Some (False, s, h)
        else
          let sz = allocated_size s + allocated_size s div 2 in
          if sz < allocated_size s then Some (False, s, h)
          else
            let new_size = (if sz > new_size then sz else new_size) in
            map_option (\<lambda>f.
                let (new_buf, h) = f (buf s) new_size h
                in case new_buf of
                  None \<Rightarrow> (False, s\<lparr>error := True\<rparr>, h)
                | Some a \<Rightarrow> (True, s\<lparr>buf := Some a, allocated_size := new_size\<rparr>, h))
              (realloc_fn s)
      else Some (True, s, h))"

text \<open>Room for \<open>len\<close> more bytes, claimed when it is not there yet.\<close>

definition dbuf_room :: "DynBuf \<Rightarrow> u64 \<Rightarrow> c_heap \<Rightarrow> dbuf_result" where
  "dbuf_room s len h =
     (if allocated_size s - dsize s < len then dbuf_claim s len h else Some (True, s, h))"

text \<open>The bytes go behind the ones that are there, and the size grows by \<open>len\<close>.\<close>

definition store_end :: "DynBuf \<Rightarrow> string \<Rightarrow> u64 \<Rightarrow> c_heap \<Rightarrow> dbuf_result" where
  "store_end s data len h =
     map_option (\<lambda>h'. (True, s\<lparr>dsize := dsize s + len\<rparr>, h')) (write_at h (buf s) (unat (dsize s)) data)"

definition dbuf_put :: "DynBuf \<Rightarrow> string \<Rightarrow> c_heap \<Rightarrow> dbuf_result" where
  "dbuf_put s data h =
     (let len = of_nat (length data) in
      case dbuf_room s len h of None \<Rightarrow> None
      | Some (ok, s, h) \<Rightarrow> if \<not> ok then Some (False, s, h) else store_end s data len h)"

text \<open>The part to copy has to be inside the block, and the two parts must not overlap.\<close>

definition dbuf_put_self :: "DynBuf \<Rightarrow> u64 \<Rightarrow> u64 \<Rightarrow> c_heap \<Rightarrow> dbuf_result" where
  "dbuf_put_self s offset len h =
     (case dbuf_room s len h of None \<Rightarrow> None
      | Some (ok, s, h) \<Rightarrow>
          if \<not> ok then Some (False, s, h)
          else
            let o' = unat offset; n = unat len; z = unat (dsize s) in
            if o' + n > length (bytes_at h (buf s)) \<or> (n \<noteq> 0 \<and> o' < z + n \<and> z < o' + n) then None
            else store_end s (take n (drop o' (bytes_at h (buf s)))) len h)"

text \<open>The bytes of an integer in memory, least significant first.\<close>

definition le_bytes :: "nat \<Rightarrow> 'a :: len word \<Rightarrow> string" where
  "le_bytes k v = map (\<lambda>i. char_of (unat (drop_bit (8 * i) v) mod 256)) [0..<k]"

definition dbuf_putc_slow :: "DynBuf \<Rightarrow> u8 \<Rightarrow> c_heap \<Rightarrow> dbuf_result" where
  "dbuf_putc_slow s c h = dbuf_put s (le_bytes 1 c) h"

definition dbuf_put_u16_slow :: "DynBuf \<Rightarrow> u16 \<Rightarrow> c_heap \<Rightarrow> dbuf_result" where
  "dbuf_put_u16_slow s v h = dbuf_put s (le_bytes 2 v) h"

definition dbuf_put_u32_slow :: "DynBuf \<Rightarrow> u32 \<Rightarrow> c_heap \<Rightarrow> dbuf_result" where
  "dbuf_put_u32_slow s v h = dbuf_put s (le_bytes 4 v) h"

definition dbuf_put_u64_slow :: "DynBuf \<Rightarrow> u64 \<Rightarrow> c_heap \<Rightarrow> dbuf_result" where
  "dbuf_put_u64_slow s v h = dbuf_put s (le_bytes 8 v) h"

text \<open>The inline versions: a direct store when there is room.\<close>

definition store_fast :: "DynBuf \<Rightarrow> string \<Rightarrow> c_heap \<Rightarrow> dbuf_result" where
  "store_fast s data h = store_end s data (of_nat (length data)) h"

definition dbuf_putc :: "DynBuf \<Rightarrow> u8 \<Rightarrow> c_heap \<Rightarrow> dbuf_result" where
  "dbuf_putc s v h =
     (if allocated_size s - dsize s < 1 then dbuf_putc_slow s v h else store_fast s (le_bytes 1 v) h)"

definition dbuf_put_u16 :: "DynBuf \<Rightarrow> u16 \<Rightarrow> c_heap \<Rightarrow> dbuf_result" where
  "dbuf_put_u16 s v h =
     (if allocated_size s - dsize s < 2 then dbuf_put_u16_slow s v h else store_fast s (le_bytes 2 v) h)"

definition dbuf_put_u32 :: "DynBuf \<Rightarrow> u32 \<Rightarrow> c_heap \<Rightarrow> dbuf_result" where
  "dbuf_put_u32 s v h =
     (if allocated_size s - dsize s < 4 then dbuf_put_u32_slow s v h else store_fast s (le_bytes 4 v) h)"

definition dbuf_put_u64 :: "DynBuf \<Rightarrow> u64 \<Rightarrow> c_heap \<Rightarrow> dbuf_result" where
  "dbuf_put_u64 s v h =
     (if allocated_size s - dsize s < 8 then dbuf_put_u64_slow s v h else store_fast s (le_bytes 8 v) h)"

definition dbuf_putstr :: "DynBuf \<Rightarrow> string \<Rightarrow> c_heap \<Rightarrow> dbuf_result" where
  "dbuf_putstr s str h = dbuf_put s (c_str str) h"

text \<open>
  \<open>out\<close> is the text the format and its arguments give; \<open>None\<close> when \<^verbatim>\<open>vsnprintf\<close> fails. A long
  text is printed straight into the buffer, cut to the room there and closed by a NUL.
\<close>

definition dbuf_printf :: "DynBuf \<Rightarrow> string option \<Rightarrow> c_heap \<Rightarrow> dbuf_result" where
  "dbuf_printf s out h =
     (case out of None \<Rightarrow> Some (False, s, h)
      | Some out \<Rightarrow>
        let len = length out in
        if len < 128 then dbuf_put s out h
        else
          (case dbuf_claim s (of_nat (len + 1)) h of None \<Rightarrow> None
           | Some (ok, s, h) \<Rightarrow>
              if \<not> ok then Some (False, s, h)
              else
                let avail = unat (allocated_size s - dsize s)
                in store_end s (take (avail - 1) out @ [CHR 0x00]) (of_nat len) h))"

definition dbuf_free :: "DynBuf \<Rightarrow> c_heap \<Rightarrow> (DynBuf \<times> c_heap) option" where
  "dbuf_free s h =
     (let zero = \<lparr>buf = None, dsize = 0, allocated_size = 0, error = False, realloc_fn = None\<rparr> in
      if buf s \<noteq> None then map_option (\<lambda>f. (zero, snd (f (buf s) 0 h))) (realloc_fn s)
      else Some (zero, h))"

definition dbuf_error :: "DynBuf \<Rightarrow> bool" where
  "dbuf_error s = error s"

definition dbuf_set_error :: "DynBuf \<Rightarrow> DynBuf" where
  "dbuf_set_error s = s\<lparr>error := True\<rparr>"

subsection \<open>Invariant\<close>

text \<open>The bytes stored so far.\<close>

definition dbuf_data :: "DynBuf \<Rightarrow> c_heap \<Rightarrow> string" where
  "dbuf_data s h = take (unat (dsize s)) (bytes_at h (buf s))"

definition dbuf_ok :: "DynBuf \<Rightarrow> c_heap \<Rightarrow> bool" where
  "dbuf_ok s h \<longleftrightarrow> heap_ok h \<and> realloc_fn s \<noteq> None \<and> dsize s \<le> allocated_size s \<and>
     length (bytes_at h (buf s)) = unat (allocated_size s) \<and> set_option (buf s) \<subseteq> dom (blocks h)"

text \<open>
  The two overflow checks of a claim. A claim that fails because of one of them does not set the
  error flag; every other failed claim does, or finds it set.
\<close>

definition claim_overflows :: "DynBuf \<Rightarrow> u64 \<Rightarrow> bool" where
  "claim_overflows s len \<longleftrightarrow> dsize s + len < len \<or>
     allocated_size s + allocated_size s div 2 < allocated_size s"

text \<open>What a buffer relies on: the laws of the reallocation function.\<close>

locale realloc_contract =
  fixes rf :: realloc_func
  assumes grown: "heap_ok h \<Longrightarrow> set_option p \<subseteq> dom (blocks h) \<Longrightarrow> n \<noteq> 0 \<Longrightarrow> rf p n h = (Some a, h') \<Longrightarrow>
      heap_ok h' \<and> a \<in> dom (blocks h') \<and> length (bytes_at h' (Some a)) = unat n \<and>
      take (unat n) (bytes_at h p) = take (length (bytes_at h p)) (bytes_at h' (Some a))"
    and failed: "heap_ok h \<Longrightarrow> set_option p \<subseteq> dom (blocks h) \<Longrightarrow> n \<noteq> 0 \<Longrightarrow> rf p n h = (None, h') \<Longrightarrow>
      heap_ok h' \<and> blocks h' = blocks h"
    and freed: "heap_ok h \<Longrightarrow> set_option p \<subseteq> dom (blocks h) \<Longrightarrow> rf p 0 h = (r, h') \<Longrightarrow>
      heap_ok h' \<and> dom (blocks h') = dom (blocks h) - set_option p"
begin

lemma claim_ok:
  assumes ok: "dbuf_ok s h" and rf: "realloc_fn s = Some rf"
  shows "\<exists>r s' h'. dbuf_claim s len h = Some (r, s', h') \<and> dbuf_ok s' h' \<and> dbuf_data s' h' = dbuf_data s h \<and>
    dsize s' = dsize s \<and> realloc_fn s' = Some rf \<and>
    (r \<longrightarrow> unat (dsize s) + unat len \<le> unat (allocated_size s')) \<and>
    error s' = (error s \<or> \<not> r \<and> \<not> claim_overflows s len)"
proof (cases "dsize s + len < len \<or> \<not> dsize s + len > allocated_size s \<or> error s \<or>
    allocated_size s + allocated_size s div 2 < allocated_size s")
  case True
  have "unat (dsize s) + unat len \<le> unat (allocated_size s)"
    if "\<not> dsize s + len < len" "\<not> dsize s + len > allocated_size s"
    using that by (metis add.commute linorder_not_less no_olen_add_nat word_le_nat_alt unat_plus_simple)
  with True ok rf show ?thesis by (auto simp: dbuf_claim_def claim_overflows_def Let_def)
next
  case False
  then have nov: "\<not> claim_overflows s len" "\<not> error s" by (simp_all add: claim_overflows_def)
  define n where "n = (if allocated_size s + allocated_size s div 2 > dsize s + len
      then allocated_size s + allocated_size s div 2 else dsize s + len)"
  have nl: "dsize s + len \<le> n" by (auto simp: n_def)
  have sum: "unat (dsize s + len) = unat (dsize s) + unat len"
    using False by (metis add.commute linorder_not_less unat_plus_simple)
  have na: "allocated_size s < n" using False nl by auto
  then have n0: "n \<noteq> 0" by auto
  obtain r h' where r: "rf (buf s) n h = (r, h')" by fastforce
  have hp: "heap_ok h" "set_option (buf s) \<subseteq> dom (blocks h)" using ok by (simp_all add: dbuf_ok_def)
  have c: "dbuf_claim s len h = Some (case r of None \<Rightarrow> (False, s\<lparr>error := True\<rparr>, h')
      | Some a \<Rightarrow> (True, s\<lparr>buf := Some a, allocated_size := n\<rparr>, h'))"
    using False r rf by (simp add: dbuf_claim_def Let_def n_def [symmetric])
  show ?thesis
  proof (cases r)
    case None
    note f = failed [OF hp n0 r [unfolded None]]
    have "bytes_at h' (buf s) = bytes_at h (buf s)" using f by (simp add: bytes_at_def split: option.split)
    with f None c ok rf nov show ?thesis by (auto simp: dbuf_ok_def dbuf_data_def)
  next
    case (Some a)
    note g = grown [OF hp n0 r [unfolded Some]]
    let ?old = "bytes_at h (buf s)" and ?new = "bytes_at h' (Some a)"
    have lo: "length ?old = unat (allocated_size s)" using ok by (simp add: dbuf_ok_def)
    have "take (length ?old) ?new = ?old" using g lo na by (simp add: word_less_nat_alt)
    moreover have d: "unat (dsize s) \<le> length ?old" using ok lo by (simp add: dbuf_ok_def word_le_nat_alt)
    ultimately have "take (unat (dsize s)) ?new = take (unat (dsize s)) ?old"
      by (metis min.absorb1 take_take)
    moreover have "unat (dsize s) + unat len \<le> unat n" using nl sum by (simp add: word_le_nat_alt)
    moreover have "dsize s \<le> n" using ok na by (auto simp: dbuf_ok_def)
    ultimately show ?thesis using Some c g rf nov by (auto simp: dbuf_ok_def dbuf_data_def)
  qed
qed

lemma write_ok:
  assumes ok: "dbuf_ok s h" and room: "unat (dsize s) + n \<le> unat (allocated_size s)"
    and n: "n \<le> length data" "unat (dsize s) + length data \<le> unat (allocated_size s)"
  defines "s' \<equiv> s\<lparr>dsize := dsize s + of_nat n\<rparr>"
  shows "\<exists>h'. store_end s data (of_nat n) h = Some (True, s', h') \<and> dbuf_ok s' h' \<and>
    dbuf_data s' h' = dbuf_data s h @ take n data"
proof -
  let ?b = "bytes_at h (buf s)"
  let ?b' = "take (unat (dsize s)) ?b @ data @ drop (unat (dsize s) + length data) ?b"
  have lb: "length ?b = unat (allocated_size s)" and sz: "unat (dsize s) \<le> length ?b"
    using ok by (simp_all add: dbuf_ok_def word_le_nat_alt)
  obtain h' where w: "write_at h (buf s) (unat (dsize s)) data = Some h'" and b': "bytes_at h' (buf s) = ?b'"
    and dom: "dom (blocks h') = dom (blocks h)" and hk: "heap_ok h'"
  proof (cases "data = []")
    case True
    then show ?thesis using that [of h] ok by (simp add: write_at_def dbuf_ok_def)
  next
    case False
    then have "length ?b \<noteq> 0" using n(2) lb by (cases data) auto
    then obtain a b where a: "buf s = Some a" "blocks h a = Some b" "?b = b"
      by (cases "buf s") (auto simp: bytes_at_def split: option.splits)
    let ?h = "h\<lparr>blocks := (blocks h)(a \<mapsto> ?b')\<rparr>"
    have "write_at h (buf s) (unat (dsize s)) data = Some ?h" using False a n(2) lb by (simp add: write_at_def)
    moreover have "dom (blocks ?h) = dom (blocks h)" using a(2) by auto
    moreover from this have "heap_ok ?h" using ok by (simp add: dbuf_ok_def heap_ok_def)
    moreover have "bytes_at ?h (buf s) = ?b'" using a(1) by (simp add: bytes_at_def)
    ultimately show ?thesis using that by blast
  qed
  have "unat (dsize s) + n < 2 ^ 64"
    using room unat_bound [of "allocated_size s"] by simp
  then have us: "unat (dsize s + of_nat n) = unat (dsize s) + n"
    using unat_add_nat [of "dsize s" n] by simp
  have "dbuf_ok s' h'"
    using ok hk dom b' n(2) lb room us by (auto simp: dbuf_ok_def s'_def word_le_nat_alt)
  moreover have "dbuf_data s' h' = dbuf_data s h @ take n data"
    using us n lb sz by (simp add: dbuf_data_def s'_def b')
  ultimately show ?thesis using w by (simp add: store_end_def s'_def)
qed

lemma room_ok:
  assumes ok: "dbuf_ok s h" and rf: "realloc_fn s = Some rf"
  shows "\<exists>r s' h'. dbuf_room s len h = Some (r, s', h') \<and> dbuf_ok s' h' \<and> dbuf_data s' h' = dbuf_data s h \<and>
    dsize s' = dsize s \<and> realloc_fn s' = Some rf \<and> (r \<longrightarrow> unat (dsize s) + unat len \<le> unat (allocated_size s')) \<and>
    error s' = (error s \<or> \<not> r \<and> \<not> claim_overflows s len)"
proof (cases "allocated_size s - dsize s < len")
  case True
  then show ?thesis using claim_ok [OF assms, of len] by (simp add: dbuf_room_def)
next
  case False
  have "unat (allocated_size s - dsize s) = unat (allocated_size s) - unat (dsize s)"
    using ok by (intro unat_sub) (simp add: dbuf_ok_def)
  then have "unat (dsize s) + unat len \<le> unat (allocated_size s)"
    using False ok by (auto simp: dbuf_ok_def word_le_nat_alt word_less_nat_alt)
  with False ok rf show ?thesis by (auto simp: dbuf_room_def)
qed

text \<open>The contract every operation that adds bytes keeps; it claims room for \<open>len\<close> bytes.\<close>

definition appends :: "DynBuf \<Rightarrow> c_heap \<Rightarrow> string \<Rightarrow> u64 \<Rightarrow> dbuf_result \<Rightarrow> bool" where
  "appends s h data len x \<longleftrightarrow> (\<exists>r s' h'. x = Some (r, s', h') \<and> dbuf_ok s' h' \<and> realloc_fn s' = Some rf \<and>
     dbuf_data s' h' = (if r then dbuf_data s h @ data else dbuf_data s h) \<and>
     error s' = (error s \<or> \<not> r \<and> \<not> claim_overflows s len))"

lemma stored:
  assumes ok: "dbuf_ok s h" and rf: "realloc_fn s = Some rf" and d: "dbuf_data s h = dbuf_data s0 h0"
    and e: "error s = error s0" and room: "unat (dsize s) + length data \<le> unat (allocated_size s)" "n \<le> length data"
  shows "appends s0 h0 (take n data) len (store_end s data (of_nat n) h)"
  using write_ok [OF ok _ room(2,1)] room rf d e by (auto simp: appends_def)

lemma put_ok:
  assumes ok: "dbuf_ok s h" and rf: "realloc_fn s = Some rf" and len: "length data < 2 ^ 64"
  shows "appends s h data (of_nat (length data)) (dbuf_put s data h)"
proof -
  obtain r s' h' where c: "dbuf_room s (of_nat (length data)) h = Some (r, s', h')" "dbuf_ok s' h'"
    "dbuf_data s' h' = dbuf_data s h" "dsize s' = dsize s" "realloc_fn s' = Some rf"
    "r \<longrightarrow> unat (dsize s) + unat (of_nat (length data) :: u64) \<le> unat (allocated_size s')"
    "error s' = (error s \<or> \<not> r \<and> \<not> claim_overflows s (of_nat (length data)))"
    using room_ok [OF ok rf, of "of_nat (length data)"] by blast
  have "unat (of_nat (length data) :: u64) = length data" using len by (intro unat_of_nat_id) simp
  with c stored [OF c(2,5,3), of data "length data" "of_nat (length data)"] show ?thesis
    by (cases r) (auto simp: dbuf_put_def appends_def Let_def)
qed

lemma put_self_ok:
  assumes ok: "dbuf_ok s h" and rf: "realloc_fn s = Some rf" and off: "unat offset + unat len \<le> unat (dsize s)"
  shows "appends s h (take (unat len) (drop (unat offset) (dbuf_data s h))) len (dbuf_put_self s offset len h)"
proof -
  obtain r s' h' where c: "dbuf_room s len h = Some (r, s', h')" "dbuf_ok s' h'"
    "dbuf_data s' h' = dbuf_data s h" "dsize s' = dsize s" "realloc_fn s' = Some rf"
    "r \<longrightarrow> unat (dsize s) + unat len \<le> unat (allocated_size s')"
    "error s' = (error s \<or> \<not> r \<and> \<not> claim_overflows s len)"
    using room_ok [OF ok rf, of len] by blast
  let ?b = "bytes_at h' (buf s')"
  let ?d = "take (unat len) (drop (unat offset) ?b)"
  have lb: "length ?b = unat (allocated_size s')" and sz: "unat (dsize s') \<le> length ?b"
    using c(2) by (simp_all add: dbuf_ok_def word_le_nat_alt)
  have d: "?d = take (unat len) (drop (unat offset) (dbuf_data s h))"
    unfolding c(3) [symmetric] using off c(4) by (simp add: dbuf_data_def drop_take)
  have l: "length ?d = unat len" using off c(4) sz by simp
  show ?thesis
  proof (cases r)
    case True
    have "\<not> (unat offset + unat len > length ?b \<or>
        (unat len \<noteq> 0 \<and> unat offset < unat (dsize s') + unat len \<and> unat (dsize s') < unat offset + unat len))"
      using off c(4) sz by auto
    then have "dbuf_put_self s offset len h = store_end s' ?d len h'"
      using c(1) True by (auto simp: dbuf_put_self_def Let_def)
    with stored [OF c(2,5,3), of ?d "unat len" len] c(4,6,7) True l d show ?thesis by simp
  qed (use c in \<open>auto simp: dbuf_put_self_def appends_def\<close>)
qed

lemma printf_ok:
  assumes ok: "dbuf_ok s h" and rf: "realloc_fn s = Some rf" and len: "length out < 2 ^ 31"
  shows "appends s h out (of_nat (if length out < 128 then length out else length out + 1)) (dbuf_printf s (Some out) h)"
proof (cases "length out < 128")
  case True
  then show ?thesis using put_ok [OF ok rf, of out] len by (simp add: dbuf_printf_def)
next
  case False
  let ?len = "of_nat (length out + 1) :: u64"
  obtain r s' h' where c: "dbuf_claim s ?len h = Some (r, s', h')" "dbuf_ok s' h'"
    "dbuf_data s' h' = dbuf_data s h" "dsize s' = dsize s" "realloc_fn s' = Some rf"
    "r \<longrightarrow> unat (dsize s) + unat ?len \<le> unat (allocated_size s')"
    "error s' = (error s \<or> \<not> r \<and> \<not> claim_overflows s ?len)"
    using claim_ok [OF ok rf, of ?len] by blast
  have l: "unat ?len = length out + 1" using len by (intro unat_of_nat_id) simp
  have "unat (allocated_size s' - dsize s') = unat (allocated_size s') - unat (dsize s')"
    using c(2) by (intro unat_sub) (simp add: dbuf_ok_def)
  then have av: "length out \<le> unat (allocated_size s' - dsize s') - 1" if r using that c(4,6) l by simp
  show ?thesis
  proof (cases r)
    case True
    let ?d = "out @ [CHR 0x00]"
    have "take (unat (allocated_size s' - dsize s') - 1) out = out" using av [OF True] by simp
    then have "dbuf_printf s (Some out) h = store_end s' ?d (of_nat (length out)) h'"
      using False c(1) True by (simp add: dbuf_printf_def Let_def)
    with stored [OF c(2,5,3), of ?d "length out" ?len] c(4,6,7) True l False show ?thesis by simp
  next
    case no: False
    with False c show ?thesis by (auto simp: dbuf_printf_def appends_def)
  qed
qed

lemma store_fast_ok:
  assumes ok: "dbuf_ok s h" and rf: "realloc_fn s = Some rf"
    and room: "\<not> allocated_size s - dsize s < of_nat (length data)" and len: "length data < 2 ^ 64"
  shows "appends s h data n (store_fast s data h)"
proof -
  have "unat (allocated_size s - dsize s) = unat (allocated_size s) - unat (dsize s)"
    using ok by (intro unat_sub) (simp add: dbuf_ok_def)
  moreover have "unat (of_nat (length data) :: u64) = length data" using len by (intro unat_of_nat_id) simp
  ultimately have "unat (dsize s) + length data \<le> unat (allocated_size s)"
    using room ok by (auto simp: word_less_nat_alt dbuf_ok_def word_le_nat_alt)
  with stored [OF ok rf refl refl, of data "length data" n] show ?thesis by (simp add: store_fast_def)
qed

lemma small_puts_ok:
  assumes "dbuf_ok s h" and "realloc_fn s = Some rf"
  shows "appends s h (le_bytes 1 c) 1 (dbuf_putc s c h)" "appends s h (le_bytes 2 u) 2 (dbuf_put_u16 s u h)"
    "appends s h (le_bytes 4 v) 4 (dbuf_put_u32 s v h)" "appends s h (le_bytes 8 w) 8 (dbuf_put_u64 s w h)"
proof -
  have l: "length (le_bytes k x) = k" for k and x :: "'a :: len word" by (simp add: le_bytes_def)
  show "appends s h (le_bytes 1 c) 1 (dbuf_putc s c h)" "appends s h (le_bytes 2 u) 2 (dbuf_put_u16 s u h)"
    "appends s h (le_bytes 4 v) 4 (dbuf_put_u32 s v h)" "appends s h (le_bytes 8 w) 8 (dbuf_put_u64 s w h)"
    using put_ok [OF assms, of "le_bytes 1 c"] put_ok [OF assms, of "le_bytes 2 u"]
      put_ok [OF assms, of "le_bytes 4 v"] put_ok [OF assms, of "le_bytes 8 w"]
      store_fast_ok [OF assms, of "le_bytes 1 c" 1] store_fast_ok [OF assms, of "le_bytes 2 u" 2]
      store_fast_ok [OF assms, of "le_bytes 4 v" 4] store_fast_ok [OF assms, of "le_bytes 8 w" 8]
    by (simp_all add: dbuf_putc_def dbuf_put_u16_def dbuf_put_u32_def dbuf_put_u64_def dbuf_putc_slow_def
        dbuf_put_u16_slow_def dbuf_put_u32_slow_def dbuf_put_u64_slow_def le_bytes_def)
qed

lemma free_ok:
  assumes ok: "dbuf_ok s h" and rf: "realloc_fn s = Some rf"
  shows "\<exists>s' h'. dbuf_free s h = Some (s', h') \<and> heap_ok h' \<and> dom (blocks h') = dom (blocks h) - set_option (buf s) \<and>
    dbuf_free s' h' = Some (s', h')"
proof (cases "buf s")
  case None
  then show ?thesis using ok by (simp add: dbuf_free_def dbuf_ok_def)
next
  case (Some a)
  obtain r h' where r: "rf (buf s) 0 h = (r, h')" by fastforce
  have "heap_ok h" "set_option (buf s) \<subseteq> dom (blocks h)" using ok by (simp_all add: dbuf_ok_def)
  from freed [OF this r] Some rf r show ?thesis by (simp add: dbuf_free_def)
qed

end

subsection \<open>The default reallocation function\<close>

lemma realloc_block:
  assumes "c_realloc p n h = (Some a, h')"
  shows "bytes_at h' (Some a) = take n (bytes_at h p @ replicate n (CHR 0x00))"
  using assms by (auto simp: c_realloc_def Let_def bytes_at_def dest: malloc_block split: if_splits)

interpretation dr: realloc_contract dbuf_default_realloc
proof
  fix h h' :: c_heap and p n a
  assume h: "heap_ok h" "set_option p \<subseteq> dom (blocks h)" "n \<noteq> (0 :: u64)"
    and r: "dbuf_default_realloc p n h = (Some a, h')"
  then have c: "c_realloc p (unat n) h = (Some a, h')" by (simp add: dbuf_default_realloc_def)
  have t: "take (unat n) (bytes_at h p) = take (length (bytes_at h p)) (bytes_at h' (Some a))"
    unfolding realloc_block [OF c] by (cases "unat n \<le> length (bytes_at h p)") simp_all
  have "length (bytes_at h' (Some a)) = unat n" unfolding realloc_block [OF c] by simp
  with t show "heap_ok h' \<and> a \<in> dom (blocks h') \<and> length (bytes_at h' (Some a)) = unat n \<and>
      take (unat n) (bytes_at h p) = take (length (bytes_at h p)) (bytes_at h' (Some a))"
    using realloc_dom(1,3) [OF h(1,2) c] by blast
next
  fix h h' :: c_heap and p n
  assume h: "heap_ok h" "set_option p \<subseteq> dom (blocks h)" "n \<noteq> (0 :: u64)"
    and r: "dbuf_default_realloc p n h = (None, h')"
  then have c: "c_realloc p (unat n) h = (None, h')" by (simp add: dbuf_default_realloc_def)
  show "heap_ok h' \<and> blocks h' = blocks h" using realloc_dom(1,2) [OF h(1,2) c] by simp
next
  fix h h' :: c_heap and p r
  assume h: "heap_ok h" "set_option p \<subseteq> dom (blocks h)" and r: "dbuf_default_realloc p 0 h = (r, h')"
  then have "h' = c_free p h" by (simp add: dbuf_default_realloc_def)
  with h free_dom [of "the p" h] heap_ok_free [OF h(1), of p] show "heap_ok h' \<and> dom (blocks h') = dom (blocks h) - set_option p"
    by (cases p) auto
qed

subsection \<open>Sequences of operations\<close>

datatype dbuf_op =
    Put string | Put_self u64 u64 | Putc u8 | Put_u16 u16 | Put_u32 u32 | Put_u64 u64 | Putstr string | Printf string

text \<open>The bytes an operation adds to given contents.\<close>

fun op_bytes :: "string \<Rightarrow> dbuf_op \<Rightarrow> string" where
  "op_bytes d (Put x) = x"
| "op_bytes d (Put_self off len) = take (unat len) (drop (unat off) d)"
| "op_bytes d (Putc c) = le_bytes 1 c"
| "op_bytes d (Put_u16 v) = le_bytes 2 v"
| "op_bytes d (Put_u32 v) = le_bytes 4 v"
| "op_bytes d (Put_u64 v) = le_bytes 8 v"
| "op_bytes d (Putstr x) = c_str x"
| "op_bytes d (Printf x) = x"

text \<open>
  The room an operation claims. A formatted text of at least 128 bytes is claimed with its final
  NUL.
\<close>

fun op_claim :: "dbuf_op \<Rightarrow> u64" where
  "op_claim (Put x) = of_nat (length x)"
| "op_claim (Put_self off len) = len"
| "op_claim (Putc c) = 1"
| "op_claim (Put_u16 v) = 2"
| "op_claim (Put_u32 v) = 4"
| "op_claim (Put_u64 v) = 8"
| "op_claim (Putstr x) = of_nat (strlen x)"
| "op_claim (Printf x) = of_nat (if length x < 128 then length x else length x + 1)"

text \<open>An operation the code may call on given contents.\<close>

fun op_allowed :: "string \<Rightarrow> dbuf_op \<Rightarrow> bool" where
  "op_allowed d (Put x) = (length x < 2 ^ 64)"
| "op_allowed d (Put_self off len) = (unat off + unat len \<le> length d)"
| "op_allowed d (Putstr x) = (length x < 2 ^ 64)"
| "op_allowed d (Printf x) = (length x < 2 ^ 31)"
| "op_allowed d _ = True"

fun dbuf_do :: "DynBuf \<Rightarrow> dbuf_op \<Rightarrow> c_heap \<Rightarrow> dbuf_result" where
  "dbuf_do s (Put x) h = dbuf_put s x h"
| "dbuf_do s (Put_self off len) h = dbuf_put_self s off len h"
| "dbuf_do s (Putc c) h = dbuf_putc s c h"
| "dbuf_do s (Put_u16 v) h = dbuf_put_u16 s v h"
| "dbuf_do s (Put_u32 v) h = dbuf_put_u32 s v h"
| "dbuf_do s (Put_u64 v) h = dbuf_put_u64 s v h"
| "dbuf_do s (Putstr x) h = dbuf_putstr s x h"
| "dbuf_do s (Printf x) h = dbuf_printf s (Some x) h"

lemma dbuf_do_appends:
  assumes ok: "dbuf_ok s h" and rf: "realloc_fn s = Some dbuf_default_realloc" and al: "op_allowed (dbuf_data s h) x"
  shows "dr.appends s h (op_bytes (dbuf_data s h) x) (op_claim x) (dbuf_do s x h)"
proof (cases x)
  case (Putstr y)
  have "length (c_str y) < 2 ^ 64" using al Putstr strlen_le [of y] by (simp add: strlen_def)
  with Putstr dr.put_ok [OF ok rf, of "c_str y"] show ?thesis by (simp add: dbuf_putstr_def strlen_def)
next
  case (Put_self off len)
  have "length (dbuf_data s h) = unat (dsize s)" using ok by (simp add: dbuf_data_def dbuf_ok_def word_le_nat_alt)
  with Put_self al dr.put_self_ok [OF ok rf, of off len] show ?thesis by simp
next
  case (Printf y)
  with al dr.printf_ok [OF ok rf, of y] show ?thesis by simp
qed (use al dr.put_ok [OF ok rf] dr.small_puts_ok [OF ok rf] in simp_all)

text \<open>
  A run of operations whose results nobody looks at, as the engine uses the buffer. For each
  operation it records whether it succeeded and whether its claim overflows.
\<close>

fun dbuf_run :: "DynBuf \<Rightarrow> dbuf_op list \<Rightarrow> c_heap \<Rightarrow> ((bool \<times> bool) list \<times> DynBuf \<times> c_heap) option" where
  "dbuf_run s [] h = Some ([], s, h)"
| "dbuf_run s (x # xs) h =
     (case dbuf_do s x h of None \<Rightarrow> None
      | Some (r, s', h') \<Rightarrow>
          map_option (\<lambda>(rs, s'', h''). ((r, claim_overflows s (op_claim x)) # rs, s'', h'')) (dbuf_run s' xs h'))"

fun run_allowed :: "DynBuf \<Rightarrow> dbuf_op list \<Rightarrow> c_heap \<Rightarrow> bool" where
  "run_allowed s [] h = True"
| "run_allowed s (x # xs) h =
     (op_allowed (dbuf_data s h) x \<and>
      (case dbuf_do s x h of None \<Rightarrow> True | Some (r, s', h') \<Rightarrow> run_allowed s' xs h'))"

text \<open>The contents the operations that succeeded give.\<close>

fun appended :: "string \<Rightarrow> (dbuf_op \<times> bool) list \<Rightarrow> string" where
  "appended d [] = d"
| "appended d ((x, r) # xs) = appended (if r then d @ op_bytes d x else d) xs"

lemma dbuf_run_appends:
  assumes "dbuf_ok s h" and "realloc_fn s = Some dbuf_default_realloc" and "run_allowed s xs h"
  shows "\<exists>rs s' h'. dbuf_run s xs h = Some (rs, s', h') \<and> length rs = length xs \<and> dbuf_ok s' h' \<and>
    dbuf_data s' h' = appended (dbuf_data s h) (zip xs (map fst rs)) \<and>
    error s' = (error s \<or> (\<exists>(r, overflow) \<in> set rs. \<not> r \<and> \<not> overflow))"
  using assms
proof (induction xs arbitrary: s h)
  case Nil
  then show ?case by simp
next
  case (Cons x xs)
  have al: "op_allowed (dbuf_data s h) x" using Cons.prems(3) by simp
  obtain r s1 h1 where d: "dbuf_do s x h = Some (r, s1, h1)" "dbuf_ok s1 h1"
    "realloc_fn s1 = Some dbuf_default_realloc"
    "dbuf_data s1 h1 = (if r then dbuf_data s h @ op_bytes (dbuf_data s h) x else dbuf_data s h)"
    "error s1 = (error s \<or> \<not> r \<and> \<not> claim_overflows s (op_claim x))"
    using dbuf_do_appends [OF Cons.prems(1,2) al] by (auto simp: dr.appends_def)
  have "run_allowed s1 xs h1" using Cons.prems(3) d(1) by simp
  from Cons.IH [OF d(2,3) this] d(1,4,5) show ?case by auto
qed

subsection \<open>Properties\<close>

text \<open>
  C14. The dynamic buffer appends. On a well-formed buffer with the default reallocation function,
  every sequence of operations that add bytes (raw bytes, integers, strings, formatted text, a
  copy of a part of the buffer itself) runs through without an access outside the block,
  whichever reallocations fail. The contents at the end are the old ones followed by the bytes of
  the operations that succeeded, in their order, although the block may have moved; a failed
  operation adds nothing. The error flag at the end tells whether an operation failed, with one
  exception: it does not report an operation that failed only because a size overflows 64 bits.
\<close>

theorem dbuf_appends:
  assumes "dbuf_ok s h" and "realloc_fn s = Some dbuf_default_realloc" and "run_allowed s xs h"
  shows "\<exists>rs s' h'. dbuf_run s xs h = Some (rs, s', h') \<and> length rs = length xs \<and> dbuf_ok s' h' \<and>
    dbuf_data s' h' = appended (dbuf_data s h) (zip xs (map fst rs)) \<and>
    error s' = (error s \<or> (\<exists>(r, overflow) \<in> set rs. \<not> r \<and> \<not> overflow))"
  using assms by (rule dbuf_run_appends)

text \<open>The second reallocation fails.\<close>

definition sample_dbuf_heap :: c_heap where
  "sample_dbuf_heap = \<lparr>blocks = Map.empty, brk = 0, oom = (\<lambda>k. k = 1), bad_free = False\<rparr>"

lemma sample_dbuf_ok: "dbuf_ok dbuf_init sample_dbuf_heap"
  by (simp add: dbuf_ok_def dbuf_init_def dbuf_init2_def sample_dbuf_heap_def heap_ok_def bytes_at_def)

text \<open>Three bytes are written, the next write fails, and the flag is set.\<close>

theorem dbuf_appends_witness:
  "\<exists>rs s' h'. dbuf_run dbuf_init [Put ''abc'', Put ''de''] sample_dbuf_heap = Some (rs, s', h') \<and>
     map fst rs = [True, False] \<and> dbuf_data s' h' = ''abc'' \<and> error s'"
proof -
  let ?xs = "[Put ''abc'', Put ''de'']"
  have i: "realloc_fn dbuf_init = Some dbuf_default_realloc" "dbuf_data dbuf_init sample_dbuf_heap = []"
    by (simp_all add: dbuf_init_def dbuf_init2_def dbuf_data_def bytes_at_def)
  have al: "run_allowed dbuf_init ?xs sample_dbuf_heap" by (simp split: option.split)
  have "fst (the (dbuf_run dbuf_init ?xs sample_dbuf_heap)) = [(True, False), (False, False)]"
    by (simp add: dbuf_put_def dbuf_room_def dbuf_claim_def dbuf_init_def dbuf_init2_def dbuf_default_realloc_def
        c_realloc_def malloc_def sample_dbuf_heap_def store_end_def write_at_def claim_overflows_def)
  with dbuf_appends [OF sample_dbuf_ok i(1) al] i show ?thesis by auto
qed

text \<open>
  Freeing a buffer. \<open>dbuf_free\<close> releases exactly the block of the buffer and leaves a
  buffer on which a second \<open>dbuf_free\<close> does nothing.
\<close>

theorem dbuf_free_once:
  assumes "dbuf_ok s h" and "realloc_fn s = Some dbuf_default_realloc"
  shows "\<exists>s' h'. dbuf_free s h = Some (s', h') \<and> heap_ok h' \<and> dom (blocks h') = dom (blocks h) - set_option (buf s) \<and>
    dbuf_free s' h' = Some (s', h')"
  using assms by (rule dr.free_ok)

theorem dbuf_free_once_witness:
  "\<exists>s' h'. dbuf_free dbuf_init sample_dbuf_heap = Some (s', h') \<and> dbuf_free s' h' = Some (s', h')"
  using dbuf_free_once [OF sample_dbuf_ok] by (auto simp: dbuf_init_def dbuf_init2_def)

end
