(* ===== verification/Utf8.thy ===== *)
theory Utf8
  imports Prelude
begin

text \<open>
  UTF-8 and UTF-16 helpers of the engine's utility library (src/qjs/lib/_qjs_cutils.c and
  cutils.h): encoding of up to 31 bits in one to six bytes, decoding with rejection of
  overlong forms, and surrogate pairs. Code points are 32-bit words, bytes 8-bit words.
\<close>

unbundle bit_operations_syntax

subsection \<open>Encoding\<close>

abbreviation cont_byte :: "u32 \<Rightarrow> u8" where
  "cont_byte x \<equiv> ucast ((x AND 0x3f) OR 0x80)"

text \<open>The bytes written; none (result 0) from 0x80000000 on.\<close>

definition unicode_to_utf8 :: "u32 \<Rightarrow> u8 list" where
  "unicode_to_utf8 c =
     (if c < 0x80 then [ucast c]
      else if \<not> c < 0x80000000 then []
      else
        (if c < 0x800 then [ucast (drop_bit 6 c OR 0xc0)]
         else
          (if c < 0x10000 then [ucast (drop_bit 12 c OR 0xe0)]
           else
            (if c < 0x200000 then [ucast (drop_bit 18 c OR 0xf0)]
             else
              (if c < 0x4000000 then [ucast (drop_bit 24 c OR 0xf8)]
               else [ucast (drop_bit 30 c OR 0xfc), cont_byte (drop_bit 24 c)])
              @ [cont_byte (drop_bit 18 c)])
            @ [cont_byte (drop_bit 12 c)])
          @ [cont_byte (drop_bit 6 c)])
        @ [cont_byte c])"

subsection \<open>Decoding\<close>

definition utf8_min_code :: "u32 list" where
  "utf8_min_code = [0x80, 0x800, 0x10000, 0x200000, 0x4000000]"

definition utf8_first_code_mask :: "u32 list" where
  "utf8_first_code_mask = [0x1f, 0xf, 0x7, 0x3, 0x1]"

text \<open>The number of bytes that follow a first byte from 0x80 on.\<close>

definition utf8_extra :: "u32 \<Rightarrow> nat option" where
  "utf8_extra c =
     (if 0xc0 \<le> c \<and> c \<le> 0xdf then Some 1
      else if 0xe0 \<le> c \<and> c \<le> 0xef then Some 2
      else if 0xf0 \<le> c \<and> c \<le> 0xf7 then Some 3
      else if 0xf8 \<le> c \<and> c \<le> 0xfb then Some 4
      else if c = 0xfc \<or> c = 0xfd then Some 5
      else None)"

text \<open>
  The loop over the following bytes: the code so far, and the unread bytes. The buffer holds
  at least \<open>max_len\<close> bytes, so the end of the list is not reached.
\<close>

fun utf8_cont :: "nat \<Rightarrow> u32 \<Rightarrow> u8 list \<Rightarrow> (u32 \<times> u8 list) option" where
  "utf8_cont 0 c p = Some (c, p)"
| "utf8_cont (Suc k) c [] = None"
| "utf8_cont (Suc k) c (b # p) =
     (if b < 0x80 \<or> b \<ge> 0xc0 then None
      else utf8_cont k (push_bit 6 c OR (ucast b AND 0x3f)) p)"

text \<open>\<open>None\<close> is the result -1; otherwise the code and the rest of the buffer.\<close>

fun unicode_from_utf8 :: "u8 list \<Rightarrow> int \<Rightarrow> (u32 \<times> u8 list) option" where
  "unicode_from_utf8 [] max_len = None"
| "unicode_from_utf8 (b # p) max_len =
     (let c = ucast b :: u32 in
      if c < 0x80 then Some (c, p)
      else case utf8_extra c of None \<Rightarrow> None
        | Some l \<Rightarrow>
            if int l > max_len - 1 then None
            else case utf8_cont l (c AND (utf8_first_code_mask ! (l - 1))) p of None \<Rightarrow> None
              | Some (c, p) \<Rightarrow> if c < utf8_min_code ! (l - 1) then None else Some (c, p))"

subsection \<open>Surrogates\<close>

definition is_surrogate :: "u32 \<Rightarrow> bool" where
  "is_surrogate c \<longleftrightarrow> drop_bit 11 c = drop_bit 11 0xD800"

definition is_hi_surrogate :: "u32 \<Rightarrow> bool" where
  "is_hi_surrogate c \<longleftrightarrow> drop_bit 10 c = drop_bit 10 0xD800"

definition is_lo_surrogate :: "u32 \<Rightarrow> bool" where
  "is_lo_surrogate c \<longleftrightarrow> drop_bit 10 c = drop_bit 10 0xDC00"

definition get_hi_surrogate :: "u32 \<Rightarrow> u32" where
  "get_hi_surrogate c = drop_bit 10 c - drop_bit 10 0x10000 + 0xD800"

definition get_lo_surrogate :: "u32 \<Rightarrow> u32" where
  "get_lo_surrogate c = (c AND 0x3FF) OR 0xDC00"

definition from_surrogate :: "u32 \<Rightarrow> u32 \<Rightarrow> u32" where
  "from_surrogate hi lo = 0x10000 + 0x400 * (hi - 0xD800) + (lo - 0xDC00)"

definition from_hex :: "int \<Rightarrow> int" where
  "from_hex c =
     (if c \<ge> 48 \<and> c \<le> 57 then c - 48
      else if c \<ge> 65 \<and> c \<le> 70 then c - 65 + 10
      else if c \<ge> 97 \<and> c \<le> 102 then c - 97 + 10
      else -1)"

subsection \<open>Lemmas on bits\<close>

lemma and_3f: "(x :: u32) AND 0x3f = take_bit 6 x"
  by (simp add: take_bit_eq_mask mask_eq_exp_minus_1)

lemma unat_ucast8: "unat (ucast (x :: u32) :: u8) = unat x mod 256"
  by (simp add: unsigned_ucast_eq take_bit_eq_mod [where ?'a = nat])

lemma unat_ucast32: "unat (ucast (b :: u8) :: u32) = unat b"
  using unat_bound [of b] by (simp add: unsigned_ucast_eq take_bit_nat_eq_self)

text \<open>A first byte: its marker plus the top bits.\<close>

lemma unat_lead:
  assumes x: "unat (x :: u32) < 2 ^ k" and m: "take_bit k m = (0 :: u32)" "unat m + 2 ^ k \<le> 256"
  shows "unat (ucast (x OR m) :: u8) = unat x + unat m"
proof -
  have "x OR m = x + m" using or_high [OF x m(1)] .
  moreover have s: "unat x + unat m < 256" using x m(2) by linarith
  ultimately show ?thesis by (simp add: unat_ucast8 unat_small_add)
qed

lemma unat_cont: "unat (cont_byte x) = 128 + unat x mod 64"
proof -
  have s: "unat (take_bit 6 x) = unat x mod 64" using unat_take32 [of 6 x] by simp
  have "unat (take_bit 6 x) < 2 ^ 6" unfolding s by simp
  from unat_lead [OF this, of "0x80"] s show ?thesis by (simp add: and_3f)
qed

lemma unat_push6:
  assumes "unat (a :: u32) < 2 ^ 26"
  shows "unat (push_bit 6 a OR take_bit 6 b) = unat a * 64 + unat b mod 64"
proof -
  have p: "unat (push_bit 6 a) = unat a * 64"
    using assms by (simp add: push_bit_eq_mult unat_word_ariths)
  have t: "unat (take_bit 6 b) = unat b mod 64" using unat_take32 [of 6 b] by simp
  have "take_bit 6 (push_bit 6 a) = (0 :: u32)" by (simp add: take_bit_push_bit)
  moreover have "unat (take_bit 6 b) < 2 ^ 6" unfolding t by simp
  ultimately have "take_bit 6 b OR push_bit 6 a = take_bit 6 b + push_bit 6 a" by (intro or_high)
  moreover have "unat (take_bit 6 b + push_bit 6 a) = unat b mod 64 + unat a * 64"
    using p t assms by (subst unat_small_add) simp_all
  ultimately show ?thesis by (simp add: or.commute add.commute)
qed

subsection \<open>Both directions\<close>

text \<open>The continuation bytes of a code, most significant first.\<close>

abbreviation tail_bytes :: "nat \<Rightarrow> u32 \<Rightarrow> u8 list" where
  "tail_bytes k c \<equiv> map (\<lambda>i. cont_byte (drop_bit (6 * i) c)) (rev [0..<k])"

lemma five_cases:
  assumes "1 \<le> k" "k \<le> 5"
  obtains "k = 1" | "k = 2" | "k = 3" | "k = 4" | "k = (5 :: nat)"
proof -
  have "k = 1 \<or> k = 2 \<or> k = 3 \<or> k = 4 \<or> k = 5" using assms by linarith
  with that show thesis by blast
qed

lemma to_utf8_form:
  assumes k: "1 \<le> k" "k \<le> 5" and c: "utf8_min_code ! (k - 1) \<le> c" "unat c < 2 ^ (5 * k + 6)"
  shows "unicode_to_utf8 c = ucast (drop_bit (6 * k) c OR word_of_nat (256 - 2 ^ (7 - k))) # tail_bytes k c"
  using k
proof (cases rule: five_cases)
  case 1
  with c show ?thesis by (simp add: unicode_to_utf8_def utf8_min_code_def word_less_nat_alt word_le_nat_alt)
next
  case 2
  with c show ?thesis by (simp add: unicode_to_utf8_def utf8_min_code_def word_less_nat_alt word_le_nat_alt upt_rec)
next
  case 3
  with c show ?thesis by (simp add: unicode_to_utf8_def utf8_min_code_def word_less_nat_alt word_le_nat_alt upt_rec)
next
  case 4
  with c show ?thesis by (simp add: unicode_to_utf8_def utf8_min_code_def word_less_nat_alt word_le_nat_alt upt_rec)
next
  case 5
  with c show ?thesis by (simp add: unicode_to_utf8_def utf8_min_code_def word_less_nat_alt word_le_nat_alt upt_rec)
qed

lemma lead_decodes:
  assumes k: "1 \<le> k" "k \<le> 5" and b: "unat (b :: u8) = y + (256 - 2 ^ (7 - k))" "y < 2 ^ (6 - k)"
  shows "utf8_extra (ucast b) = Some k" and "unat (ucast b AND (utf8_first_code_mask ! (k - 1)) :: u32) = y"
    and "\<not> (ucast b :: u32) < 0x80"
proof -
  have m: "(x :: u32) AND (2 ^ j - 1) = take_bit j x" for x j
    by (simp add: take_bit_eq_mask mask_eq_exp_minus_1)
  have mask: "utf8_first_code_mask ! (k - 1) = 2 ^ (6 - k) - 1"
    using k by (cases rule: five_cases) (simp_all add: utf8_first_code_mask_def)
  have "unat (ucast b AND (utf8_first_code_mask ! (k - 1)) :: u32) = unat b mod 2 ^ (6 - k)"
    unfolding mask m using k by (subst unat_take32) (simp_all add: unat_ucast32)
  also have "\<dots> = y"
  proof -
    have "256 - 2 ^ (7 - k) = 2 ^ (6 - k) * (2 ^ (k + 2) - 2 :: nat)"
      using k by (cases rule: five_cases) simp_all
    with b show ?thesis by simp
  qed
  finally show "unat (ucast b AND (utf8_first_code_mask ! (k - 1)) :: u32) = y" .
  show "utf8_extra (ucast b) = Some k"
    using k
    by (cases rule: five_cases) (use b in \<open>auto simp: utf8_extra_def word_le_nat_alt unat_ucast32 word_unat_eq_iff\<close>)
  show "\<not> (ucast b :: u32) < 0x80"
    using k by (cases rule: five_cases) (use b in \<open>simp_all add: word_less_nat_alt unat_ucast32\<close>)
qed

lemma extra_lead:
  assumes "utf8_extra (ucast (b :: u8)) = Some k"
  shows "1 \<le> k \<and> k \<le> 5 \<and> (\<exists>y < 2 ^ (6 - k). unat b = y + (256 - 2 ^ (7 - k)))"
proof -
  have "1 \<le> k \<and> k \<le> 5 \<and> 256 - 2 ^ (7 - k) \<le> unat b \<and> unat b - (256 - 2 ^ (7 - k)) < 2 ^ (6 - k)"
    using assms by (auto simp: utf8_extra_def word_le_nat_alt unat_ucast32 word_unat_eq_iff split: if_splits)
  then show ?thesis by (metis le_add_diff_inverse2)
qed

lemma mod_64_128: "(y + 128) mod 64 = y mod (64 :: nat)"
  using mod_mult_self1 [of y 2 64] by simp

lemma cont_decodes:
  assumes "unat c < 2 ^ 31" and "unat a = unat c div 2 ^ (6 * k)" and "k \<le> 5"
  shows "utf8_cont k a (tail_bytes k c @ rest) = Some (c, rest)"
  using assms(2,3)
proof (induction k arbitrary: a)
  case 0
  then show ?case by (simp add: word_unat_eq_iff)
next
  case (Suc k)
  let ?b = "cont_byte (drop_bit (6 * k) c)"
  have b: "unat ?b = 128 + unat c div 2 ^ (6 * k) mod 64" by (simp add: unat_cont unat_drop)
  then have rng: "\<not> (?b < 0x80 \<or> ?b \<ge> 0xc0)" by (simp add: word_less_nat_alt word_le_nat_alt)
  have pw: "2 ^ (6 * Suc k) = 2 ^ (6 * k) * (64 :: nat)" by (simp add: power_add)
  have a: "unat a = unat c div 2 ^ (6 * k) div 64" unfolding Suc.prems(1) pw by (simp add: div_mult2_eq)
  have "unat a \<le> unat c div 64" unfolding a by (intro div_le_mono) simp
  then have "unat a < 2 ^ 26" using assms(1) by simp
  then have "unat (push_bit 6 a OR (ucast ?b AND 0x3f)) = unat a * 64 + unat ?b mod 64"
    unfolding and_3f by (simp add: unat_push6 unat_ucast32)
  also have "\<dots> = unat c div 2 ^ (6 * k)"
    unfolding a b using mod_64_128 [of "unat c div 2 ^ (6 * k) mod 64"] by (simp add: add.commute)
  finally show ?case using Suc.IH Suc.prems(2) rng by simp
qed

lemma cont_encodes:
  assumes "utf8_cont k a p = Some (c, rest)" and "unat a < 2 ^ (31 - 6 * k)" and "k \<le> 5"
  shows "p = tail_bytes k c @ rest \<and> unat c div 2 ^ (6 * k) = unat a"
  using assms
proof (induction k arbitrary: a p)
  case 0
  then show ?case by simp
next
  case (Suc k)
  obtain b p' where p: "p = b # p'" using Suc.prems(1) by (cases p) auto
  let ?a = "push_bit 6 a OR (ucast b AND 0x3f)"
  have rng: "\<not> (b < 0x80 \<or> b \<ge> 0xc0)" and c: "utf8_cont k ?a p' = Some (c, rest)"
    using Suc.prems(1) p by (auto split: if_splits)
  have br: "128 \<le> unat b" "unat b < 192" using rng by (simp_all add: word_less_nat_alt word_le_nat_alt)
  have "(2 :: nat) ^ (31 - 6 * Suc k) \<le> 2 ^ 25" by (intro power_increasing) simp_all
  then have "unat a < 2 ^ 26" using Suc.prems(2) by simp
  then have a': "unat ?a = unat a * 64 + unat b mod 64" unfolding and_3f by (simp add: unat_push6 unat_ucast32)
  have "(2 :: nat) ^ (31 - 6 * k) = 2 ^ (31 - 6 * Suc k) * 64"
    using Suc.prems(3) power_add [of "2 :: nat" "31 - 6 * Suc k" 6] by simp
  then have "unat ?a < 2 ^ (31 - 6 * k)" using a' Suc.prems(2) by simp
  from Suc.IH [OF c this] Suc.prems(3) have ih: "p' = tail_bytes k c @ rest" "unat c div 2 ^ (6 * k) = unat ?a"
    by simp_all
  define r where "r = unat b - 128"
  have "unat b = r + 128" "r < 64" using br by (simp_all add: r_def)
  then have "128 + unat b mod 64 = unat b" using mod_64_128 [of r] by simp
  then have "unat (cont_byte (drop_bit (6 * k) c)) = unat b" using ih(2) a' by (simp add: unat_cont unat_drop)
  then have "cont_byte (drop_bit (6 * k) c) = b" by (simp add: word_unat_eq_iff)
  moreover have "unat c div 2 ^ (6 * Suc k) = unat a"
  proof -
    have pw: "2 ^ (6 * Suc k) = 2 ^ (6 * k) * (64 :: nat)" by (simp add: power_add)
    have "unat c div 2 ^ (6 * Suc k) = unat c div 2 ^ (6 * k) div 64" unfolding pw by (simp add: div_mult2_eq)
    then show ?thesis using ih(2) a' by simp
  qed
  ultimately show ?case using p ih(1) by simp
qed

subsection \<open>Properties\<close>

lemma code_width:
  assumes "\<not> c < 0x80" and "c < 0x80000000"
  obtains k where "1 \<le> k" "k \<le> 5" "utf8_min_code ! (k - 1) \<le> c" "unat c < 2 ^ (5 * k + 6)"
proof -
  have "(unat c < 2 ^ 11) \<or> (2 ^ 11 \<le> unat c \<and> unat c < 2 ^ 16) \<or> (2 ^ 16 \<le> unat c \<and> unat c < 2 ^ 21) \<or>
      (2 ^ 21 \<le> unat c \<and> unat c < 2 ^ 26) \<or> (2 ^ 26 \<le> unat c \<and> unat c < 2 ^ 31)"
    using assms(2) by (auto simp: word_less_nat_alt)
  then show thesis
    using assms(1) that [of 1] that [of 2] that [of 3] that [of 4] that [of 5]
    by (simp add: utf8_min_code_def word_less_nat_alt word_le_nat_alt) linarith
qed

lemma decode_encode:
  assumes k: "1 \<le> k" "k \<le> 5" and c: "utf8_min_code ! (k - 1) \<le> c" "unat c < 2 ^ (5 * k + 6)" and n: "int k \<le> n - 1"
  shows "unicode_from_utf8 (unicode_to_utf8 c @ rest) n = Some (c, rest)"
proof -
  let ?b = "ucast (drop_bit (6 * k) c OR word_of_nat (256 - 2 ^ (7 - k))) :: u8"
  have "(2 :: nat) ^ (5 * k + 6) = 2 ^ (6 * k) * 2 ^ (6 - k)" using k by (simp flip: power_add)
  then have y: "unat c div 2 ^ (6 * k) < 2 ^ (6 - k)"
    using c(2) by (simp add: less_mult_imp_div_less mult.commute)
  have l: "unat (word_of_nat (256 - 2 ^ (7 - k)) :: u32) = 256 - 2 ^ (7 - k)"
    "take_bit (6 - k) (word_of_nat (256 - 2 ^ (7 - k))) = (0 :: u32)" "256 - 2 ^ (7 - k) + 2 ^ (6 - k) \<le> (256 :: nat)"
    using k by (cases rule: five_cases; simp)+
  have b: "unat ?b = unat c div 2 ^ (6 * k) + (256 - 2 ^ (7 - k))"
    using unat_lead [of "drop_bit (6 * k) c" "6 - k"] y l by (simp add: unat_drop)
  have "(2 :: nat) ^ (5 * k + 6) \<le> 2 ^ 31" using k by (intro power_increasing) simp_all
  then have "unat c < 2 ^ 31" using c(2) by linarith
  from cont_decodes [OF this _ k(2), of "ucast ?b AND (utf8_first_code_mask ! (k - 1))" rest]
    lead_decodes [OF k b y] to_utf8_form [OF k c] n linorder_not_less [THEN iffD2, OF c(1)]
  show ?thesis by (simp add: Let_def)
qed

text \<open>
  C15. UTF-8 round trip. Encoding any code below 0x80000000 writes one to six bytes, and decoding
  these bytes, whatever follows them, gives the code back and stops right after them.
\<close>

theorem utf8_roundtrip:
  assumes "c < 0x80000000" and "int (length (unicode_to_utf8 c)) \<le> max_len"
  shows "unicode_from_utf8 (unicode_to_utf8 c @ rest) max_len = Some (c, rest) \<and>
    length (unicode_to_utf8 c) \<in> {1..6}"
proof (cases "c < 0x80")
  case True
  have u: "unat c mod 256 = unat c" using True by (simp add: word_less_nat_alt)
  have "(ucast (ucast c :: u8) :: u32) = c"
    by (simp add: word_unat_eq_iff unat_ucast32 unat_ucast8 u)
  with True show ?thesis by (simp add: unicode_to_utf8_def)
next
  case False
  then obtain k where k: "1 \<le> k" "k \<le> 5" "utf8_min_code ! (k - 1) \<le> c" "unat c < 2 ^ (5 * k + 6)"
    using assms(1) by (rule code_width)
  have "length (unicode_to_utf8 c) = Suc k" using to_utf8_form [OF k] by simp
  with decode_encode [OF k] assms(2) k show ?thesis by simp
qed

theorem utf8_roundtrip_witness:
  "unicode_from_utf8 (unicode_to_utf8 0x20AC @ [0x21]) 4 = Some (0x20AC, [0x21])"
  using utf8_roundtrip [of "0x20AC" 4 "[0x21]"] by (simp add: unicode_to_utf8_def)

text \<open>
  C16. The decoder accepts nothing else. Whenever decoding succeeds, the bytes consumed are the
  encoding of the code returned: overlong forms, stray continuation bytes and truncated sequences
  are all refused.
\<close>

theorem utf8_decode_canonical:
  assumes "unicode_from_utf8 p max_len = Some (c, rest)"
  shows "p = unicode_to_utf8 c @ rest \<and> c < 0x80000000"
proof -
  obtain b p' where p: "p = b # p'" using assms by (cases p) auto
  show ?thesis
  proof (cases "(ucast b :: u32) < 0x80")
    case True
    with assms p have c: "c = ucast b" "rest = p'" by (simp_all add: Let_def)
    have "(ucast c :: u8) = b" using unat_bound [of b] by (simp add: c word_unat_eq_iff unat_ucast32 unat_ucast8)
    moreover have "c < 0x80000000" using True c by (simp add: word_less_nat_alt)
    ultimately show ?thesis using True c p by (simp add: unicode_to_utf8_def)
  next
    case False
    then obtain k where e: "utf8_extra (ucast b) = Some k" and
      r: "utf8_cont k (ucast b AND (utf8_first_code_mask ! (k - 1))) p' = Some (c, rest)" "\<not> c < utf8_min_code ! (k - 1)"
      using assms p by (auto simp: Let_def split: option.splits if_splits)
    from extra_lead [OF e] obtain y where k: "1 \<le> k" "k \<le> 5" and y: "y < 2 ^ (6 - k)" "unat b = y + (256 - 2 ^ (7 - k))"
      by blast
    note l = lead_decodes [OF k y(2,1)]
    have "(2 :: nat) ^ (6 - k) \<le> 2 ^ (31 - 6 * k)" using k by (intro power_increasing) simp_all
    then have "unat (ucast b AND (utf8_first_code_mask ! (k - 1)) :: u32) < 2 ^ (31 - 6 * k)" using l(2) y(1) by linarith
    from cont_encodes [OF r(1) this k(2)] l(2) have t: "p' = tail_bytes k c @ rest" "unat c div 2 ^ (6 * k) = y" by simp_all
    have "unat c < 2 ^ (6 * k) * 2 ^ (6 - k)"
      using t(2) y(1) by (metis dividend_less_times_div less_le_trans mult_le_mono2 Suc_leI mult_Suc_right zero_less_numeral
          zero_less_power)
    then have w: "unat c < 2 ^ (5 * k + 6)" using k by (simp flip: power_add)
    have f: "unicode_to_utf8 c = ucast (drop_bit (6 * k) c OR word_of_nat (256 - 2 ^ (7 - k))) # tail_bytes k c"
      using to_utf8_form [OF k _ w] r(2) by simp
    have lw: "unat (word_of_nat (256 - 2 ^ (7 - k)) :: u32) = 256 - 2 ^ (7 - k)"
      "take_bit (6 - k) (word_of_nat (256 - 2 ^ (7 - k))) = (0 :: u32)" "256 - 2 ^ (7 - k) + 2 ^ (6 - k) \<le> (256 :: nat)"
      using k by (cases rule: five_cases; simp)+
    have "unat (ucast (drop_bit (6 * k) c OR word_of_nat (256 - 2 ^ (7 - k))) :: u8) = unat b"
      using unat_lead [of "drop_bit (6 * k) c" "6 - k"] t(2) y lw by (simp add: unat_drop)
    then have "ucast (drop_bit (6 * k) c OR word_of_nat (256 - 2 ^ (7 - k))) = b" by (simp add: word_unat_eq_iff)
    moreover have "(2 :: nat) ^ (5 * k + 6) \<le> 2 ^ 31" using k by (intro power_increasing) simp_all
    then have "c < 0x80000000" using w by (simp add: word_less_nat_alt)
    ultimately show ?thesis using f p t(1) by simp
  qed
qed

theorem utf8_decode_canonical_witness:
  "unicode_from_utf8 [0xe2, 0x82, 0xac, 0x21] 4 = Some (0x20AC, [0x21]) \<and>
   [0xe2, 0x82, 0xac, 0x21] = unicode_to_utf8 0x20AC @ [0x21]"
proof -
  have d: "unicode_from_utf8 [0xe2, 0x82, 0xac, 0x21] 4 = Some (0x20AC, [0x21])"
    by code_simp
  with utf8_decode_canonical [OF d] show ?thesis by simp
qed

text \<open>
  Surrogate pairs. Every code point from 0x10000 to 0x10FFFF splits into a high and a low
  surrogate, which the tests recognise as such, and the two combine to the code point again.
\<close>

theorem surrogate_pairs:
  assumes "0x10000 \<le> c" and "c \<le> 0x10FFFF"
  shows "is_hi_surrogate (get_hi_surrogate c) \<and> is_lo_surrogate (get_lo_surrogate c) \<and>
    is_surrogate (get_hi_surrogate c) \<and> is_surrogate (get_lo_surrogate c) \<and>
    from_surrogate (get_hi_surrogate c) (get_lo_surrogate c) = c"
proof -
  let ?u = "unat c"
  have u: "0x10000 \<le> ?u" "?u \<le> 0x10FFFF" using assms by (simp_all add: word_le_nat_alt)
  have d: "unat (drop_bit 10 c) = ?u div 1024" by (simp add: unat_drop)
  have hi: "unat (get_hi_surrogate c) = ?u div 1024 - 64 + 0xD800"
  proof -
    have e: "get_hi_surrogate c = drop_bit 10 c + 0xD7C0" by (simp add: get_hi_surrogate_def)
    have "unat (drop_bit 10 c + 0xD7C0) = ?u div 1024 + 0xD7C0" using u d by (subst unat_small_add) simp_all
    then show ?thesis using u by (simp add: e)
  qed
  have t: "unat (take_bit 10 c) = ?u mod 1024" using unat_take32 [of 10 c] by simp
  have "unat (take_bit 10 c) < 2 ^ 10" unfolding t by simp
  then have "take_bit 10 c OR 0xDC00 = take_bit 10 c + 0xDC00" by (rule or_high) simp
  moreover have "c AND 0x3FF = take_bit 10 c" by (simp add: take_bit_eq_mask mask_eq_exp_minus_1)
  moreover have "unat (take_bit 10 c + 0xDC00) = ?u mod 1024 + 0xDC00"
    by (subst unat_small_add) (simp_all add: t)
  ultimately have lo: "unat (get_lo_surrogate c) = ?u mod 1024 + 0xDC00" by (simp add: get_lo_surrogate_def)
  have q: "64 \<le> ?u div 1024" "?u div 1024 \<le> 0x43F" using u by (simp_all add: div_le_mono)
  define a r where "a = ?u div 1024 - 64" and "r = ?u mod 1024"
  have "?u div 1024 = a + 64" using q(1) by (simp add: a_def)
  then have ar3: "?u = 0x10000 + 0x400 * a + r" using div_mult_mod_eq [of ?u 1024] by (simp add: r_def)
  have ar: "a < 1024" "r < 1024" using q by (simp_all add: a_def r_def)
  have "unat (get_hi_surrogate c - 0xD800) = a" "unat (get_lo_surrogate c - 0xDC00) = r"
    using hi lo by (subst unat_sub; simp add: word_le_nat_alt a_def r_def)+
  then have eq: "get_hi_surrogate c - 0xD800 = of_nat a" "get_lo_surrogate c - 0xDC00 = of_nat r"
    by (metis of_nat_unat ucast_id)+
  have "from_surrogate (get_hi_surrogate c) (get_lo_surrogate c) = of_nat (0x10000 + 0x400 * a + r)"
    unfolding from_surrogate_def eq by simp
  also have "\<dots> = c" unfolding ar3 [symmetric] by simp
  finally have f: "from_surrogate (get_hi_surrogate c) (get_lo_surrogate c) = c" .
  have dv: "(a + 0xD800) div 2 ^ 10 = 54" "(r + 0xDC00) div 2 ^ 10 = 55" "(a + 0xD800) div 2 ^ 11 = 27"
    "(r + 0xDC00) div 2 ^ 11 = 27"
    using ar(1,2) by simp_all
  have n: "unat (54 :: u32) = 54" "unat (55 :: u32) = 55" "unat (27 :: u32) = 27" by simp_all
  have k: "drop_bit 10 0xD800 = (54 :: u32)" "drop_bit 10 0xDC00 = (55 :: u32)" "drop_bit 11 0xD800 = (27 :: u32)"
    by (simp_all only: word_unat_eq_iff unat_drop) simp_all
  have "drop_bit 10 (get_hi_surrogate c) = 54" "drop_bit 10 (get_lo_surrogate c) = 55"
    "drop_bit 11 (get_hi_surrogate c) = 27" "drop_bit 11 (get_lo_surrogate c) = 27"
    unfolding word_unat_eq_iff unat_drop n hi lo a_def [symmetric] r_def [symmetric] by (fact dv)+
  with f k show ?thesis by (simp only: is_hi_surrogate_def is_lo_surrogate_def is_surrogate_def simp_thms)
qed

theorem surrogate_pairs_witness:
  "is_hi_surrogate (get_hi_surrogate 0x1F600) \<and> from_surrogate (get_hi_surrogate 0x1F600) (get_lo_surrogate 0x1F600) = 0x1F600"
  using surrogate_pairs [of "0x1F600"] by simp

end
