(* ===== verification/Exchange.thy ===== *)
theory Exchange
  imports Prelude
begin

text \<open>
  Exchange of array elements (src/qjs/lib/_qjs_cutils.c): ten routines that swap two blocks
  of memory in units of 1, 2, 4, 8 or 16 bytes, and the choice among them by the alignment of
  the base address and the element size. Memory is a list of bytes, an address is a position
  in it.
\<close>

unbundle bit_operations_syntax

subsection \<open>Operations\<close>

text \<open>The exchange of \<open>w\<close> bytes at two addresses through temporaries.\<close>

definition exchange_unit :: "nat \<Rightarrow> u8 list \<Rightarrow> nat \<Rightarrow> nat \<Rightarrow> u8 list" where
  "exchange_unit w mem a b =
     (let t = take w (drop a mem); u = take w (drop b mem);
          mem = take a mem @ u @ drop (a + w) mem
      in take b mem @ t @ drop (b + w) mem)"

text \<open>The loops: \<open>n\<close> units, both pointers moving up.\<close>

fun exchange_units :: "nat \<Rightarrow> u8 list \<Rightarrow> nat \<Rightarrow> nat \<Rightarrow> nat \<Rightarrow> u8 list" where
  "exchange_units w mem a b 0 = mem"
| "exchange_units w mem a b (Suc n) = exchange_units w (exchange_unit w mem a b) (a + w) (b + w) n"

definition exchange_bytes :: "u8 list \<Rightarrow> nat \<Rightarrow> nat \<Rightarrow> nat \<Rightarrow> u8 list" where
  "exchange_bytes mem a b sz = exchange_units 1 mem a b sz"

definition exchange_one_byte :: "u8 list \<Rightarrow> nat \<Rightarrow> nat \<Rightarrow> nat \<Rightarrow> u8 list" where
  "exchange_one_byte mem a b sz = exchange_unit 1 mem a b"

definition exchange_int16s :: "u8 list \<Rightarrow> nat \<Rightarrow> nat \<Rightarrow> nat \<Rightarrow> u8 list" where
  "exchange_int16s mem a b sz = exchange_units 2 mem a b (sz div 2)"

definition exchange_one_int16 :: "u8 list \<Rightarrow> nat \<Rightarrow> nat \<Rightarrow> nat \<Rightarrow> u8 list" where
  "exchange_one_int16 mem a b sz = exchange_unit 2 mem a b"

definition exchange_int32s :: "u8 list \<Rightarrow> nat \<Rightarrow> nat \<Rightarrow> nat \<Rightarrow> u8 list" where
  "exchange_int32s mem a b sz = exchange_units 4 mem a b (sz div 4)"

definition exchange_one_int32 :: "u8 list \<Rightarrow> nat \<Rightarrow> nat \<Rightarrow> nat \<Rightarrow> u8 list" where
  "exchange_one_int32 mem a b sz = exchange_unit 4 mem a b"

definition exchange_int64s :: "u8 list \<Rightarrow> nat \<Rightarrow> nat \<Rightarrow> nat \<Rightarrow> u8 list" where
  "exchange_int64s mem a b sz = exchange_units 8 mem a b (sz div 8)"

definition exchange_one_int64 :: "u8 list \<Rightarrow> nat \<Rightarrow> nat \<Rightarrow> nat \<Rightarrow> u8 list" where
  "exchange_one_int64 mem a b sz = exchange_unit 8 mem a b"

text \<open>Two 8-byte words per step, both read before either is written.\<close>

definition exchange_int128s :: "u8 list \<Rightarrow> nat \<Rightarrow> nat \<Rightarrow> nat \<Rightarrow> u8 list" where
  "exchange_int128s mem a b sz = exchange_units 16 mem a b (sz div 16)"

definition exchange_one_int128 :: "u8 list \<Rightarrow> nat \<Rightarrow> nat \<Rightarrow> nat \<Rightarrow> u8 list" where
  "exchange_one_int128 mem a b sz = exchange_unit 16 mem a b"

definition exchange_func :: "u64 \<Rightarrow> u64 \<Rightarrow> (u8 list \<Rightarrow> nat \<Rightarrow> nat \<Rightarrow> nat \<Rightarrow> u8 list)" where
  "exchange_func base sz =
     (let k = (base OR sz) AND 15 in
      if k = 0 then (if sz = 16 then exchange_one_int128 else exchange_int128s)
      else if k = 8 then (if sz = 8 then exchange_one_int64 else exchange_int64s)
      else if k = 4 \<or> k = 12 then (if sz = 4 then exchange_one_int32 else exchange_int32s)
      else if k = 2 \<or> k = 6 \<or> k = 10 \<or> k = 14 then (if sz = 2 then exchange_one_int16 else exchange_int16s)
      else (if sz = 1 then exchange_one_byte else exchange_bytes))"

subsection \<open>Lemmas\<close>

text \<open>Reference: the two blocks of \<open>n\<close> bytes change places.\<close>

definition swap_blocks :: "u8 list \<Rightarrow> nat \<Rightarrow> nat \<Rightarrow> nat \<Rightarrow> u8 list" where
  "swap_blocks mem a b n =
     map (\<lambda>k. mem ! (if a \<le> k \<and> k < a + n then k - a + b else if b \<le> k \<and> k < b + n then k - b + a else k))
       [0..<length mem]"

text \<open>Two blocks inside the memory that do not overlap.\<close>

definition apart :: "u8 list \<Rightarrow> nat \<Rightarrow> nat \<Rightarrow> nat \<Rightarrow> bool" where
  "apart mem a b n \<longleftrightarrow> a + n \<le> length mem \<and> b + n \<le> length mem \<and> (a + n \<le> b \<or> b + n \<le> a)"

lemma overwrite_nth:
  assumes "off + length d \<le> length m" and "k < length m"
  shows "(take off m @ d @ drop (off + length d) m) ! k = (if off \<le> k \<and> k < off + length d then d ! (k - off) else m ! k)"
proof (cases "k < off")
  case True
  with assms show ?thesis by (simp add: nth_append)
next
  case False
  show ?thesis
  proof (cases "k < off + length d")
    case True
    then have "k - off < length d" using False by linarith
    with True False assms show ?thesis by (simp add: nth_append min_absorb2)
  next
    case out: False
    then have "\<not> k - off < length d" "off + length d + (k - off - length d) = k" using False by linarith+
    with out False assms show ?thesis by (simp add: nth_append min_absorb2)
  qed
qed

lemma exchange_unit_swaps:
  assumes "apart mem a b w"
  shows "exchange_unit w mem a b = swap_blocks mem a b w"
proof -
  let ?t = "take w (drop a mem)" and ?u = "take w (drop b mem)"
  define m where "m = take a mem @ ?u @ drop (a + w) mem"
  have ab: "a + w \<le> length mem" "b + w \<le> length mem" "a + w \<le> b \<or> b + w \<le> a"
    using assms by (auto simp: apart_def)
  have l: "length ?t = w" "length ?u = w" "length m = length mem" using ab by (simp_all add: m_def)
  have mk: "m ! k = (if a \<le> k \<and> k < a + w then mem ! (b + (k - a)) else mem ! k)" if "k < length mem" for k
    using overwrite_nth [of a ?u mem k] ab l(1,2) that by (auto simp: m_def)
  have x: "exchange_unit w mem a b = take b m @ ?t @ drop (b + w) m" by (simp add: exchange_unit_def m_def)
  have n: "(take b m @ ?t @ drop (b + w) m) ! k = (if b \<le> k \<and> k < b + w then mem ! (a + (k - b)) else m ! k)"
    if "k < length mem" for k
    using overwrite_nth [of b ?t m k] ab l that by auto
  show ?thesis unfolding x
  proof (rule nth_equalityI)
    show "length (take b m @ ?t @ drop (b + w) m) = length (swap_blocks mem a b w)"
      using ab l by (simp add: swap_blocks_def)
    fix k
    assume "k < length (take b m @ ?t @ drop (b + w) m)"
    then have k: "k < length mem" using ab l by simp
    have s: "swap_blocks mem a b w ! k = mem ! (if a \<le> k \<and> k < a + w then k - a + b
        else if b \<le> k \<and> k < b + w then k - b + a else k)" using k by (simp add: swap_blocks_def)
    show "(take b m @ ?t @ drop (b + w) m) ! k = swap_blocks mem a b w ! k"
      unfolding n [OF k] mk [OF k] s using ab(3) by (auto simp: add.commute)
  qed
qed

lemma length_swap_blocks [simp]: "length (swap_blocks mem a b n) = length mem"
  by (simp add: swap_blocks_def)

lemma swap_blocks_nth:
  "k < length mem \<Longrightarrow> swap_blocks mem a b n ! k =
     mem ! (if a \<le> k \<and> k < a + n then k - a + b else if b \<le> k \<and> k < b + n then k - b + a else k)"
  by (simp add: swap_blocks_def)

lemma swap_blocks_step:
  assumes "apart mem a b (w + n)"
  shows "swap_blocks (swap_blocks mem a b w) (a + w) (b + w) n = swap_blocks mem a b (w + n)"
proof (rule nth_equalityI)
  fix k
  assume "k < length (swap_blocks (swap_blocks mem a b w) (a + w) (b + w) n)"
  then have k: "k < length mem" by simp
  have ab: "a + (w + n) \<le> length mem" "b + (w + n) \<le> length mem" "a + (w + n) \<le> b \<or> b + (w + n) \<le> a"
    using assms by (auto simp: apart_def)
  define k' where "k' = (if a + w \<le> k \<and> k < a + w + n then k - (a + w) + (b + w)
      else if b + w \<le> k \<and> k < b + w + n then k - (b + w) + (a + w) else k)"
  have k': "k' < length mem" using k ab by (auto simp: k'_def)
  have "swap_blocks (swap_blocks mem a b w) (a + w) (b + w) n ! k = swap_blocks mem a b w ! k'"
    using k by (simp add: swap_blocks_nth [of k "swap_blocks mem a b w"] k'_def)
  also have "\<dots> = mem ! (if a \<le> k' \<and> k' < a + w then k' - a + b else if b \<le> k' \<and> k' < b + w then k' - b + a else k')"
    using k' by (rule swap_blocks_nth)
  also have "(if a \<le> k' \<and> k' < a + w then k' - a + b else if b \<le> k' \<and> k' < b + w then k' - b + a else k') =
      (if a \<le> k \<and> k < a + (w + n) then k - a + b else if b \<le> k \<and> k < b + (w + n) then k - b + a else k)"
  proof -
    consider "a \<le> k" "k < a + w" | "a + w \<le> k" "k < a + w + n" | "b \<le> k" "k < b + w" | "b + w \<le> k" "k < b + w + n"
      | "\<not> (a \<le> k \<and> k < a + (w + n))" "\<not> (b \<le> k \<and> k < b + (w + n))" by linarith
    then show ?thesis
    proof cases
      case 1
      then have "k' = k" using ab(3) by (auto simp: k'_def)
      with 1 show ?thesis by simp
    next
      case 2
      then have "k' = k - a + b" by (simp add: k'_def)
      with 2 show ?thesis using ab(3) by auto
    next
      case 3
      then have "k' = k" using ab(3) by (auto simp: k'_def)
      with 3 show ?thesis using ab(3) by auto
    next
      case 4
      then have "k' = k - b + a" using ab(3) by (auto simp: k'_def)
      with 4 show ?thesis using ab(3) by auto
    next
      case 5
      then have "k' = k" by (auto simp: k'_def)
      with 5 show ?thesis by auto
    qed
  qed
  finally show "swap_blocks (swap_blocks mem a b w) (a + w) (b + w) n ! k = swap_blocks mem a b (w + n) ! k"
    using k by (simp add: swap_blocks_nth)
qed simp

lemma exchange_units_swap:
  assumes "apart mem a b (w * n)"
  shows "exchange_units w mem a b n = swap_blocks mem a b (w * n)"
  using assms
proof (induction n arbitrary: mem a b)
  case 0
  show ?case by (rule nth_equalityI) (auto simp: swap_blocks_def)
next
  case (Suc n)
  have 1: "apart mem a b w" and 2: "apart (swap_blocks mem a b w) (a + w) (b + w) (w * n)"
    using Suc.prems by (auto simp: apart_def)
  show ?case
    using Suc.IH [OF 2] swap_blocks_step [of mem a b w "w * n"] Suc.prems
    by (simp add: exchange_unit_swaps [OF 1])
qed

lemma or_low_bits:
  fixes x y :: u64
  assumes "take_bit k (take_bit 4 (x OR y)) = 0" and "k \<le> 4"
  shows "2 ^ k dvd unat y"
proof -
  have "take_bit k x OR take_bit k y = 0" using assms by (simp add: min_absorb1)
  then have "take_bit k y = 0" by (simp add: bit_eq_iff bit_simps)
  then have "unat (take_bit k y) = 0" by simp
  then have "take_bit k (unat y) = 0" by (simp add: unsigned_take_bit_eq)
  then show ?thesis by (simp add: take_bit_eq_0_iff)
qed

text \<open>The unit the selection uses divides the element size.\<close>

lemma unit_divides:
  assumes "(base OR sz) AND 15 = (m :: u64)"
  shows "m = 0 \<Longrightarrow> 16 dvd unat sz" "m = 8 \<Longrightarrow> 8 dvd unat sz" "m = 4 \<or> m = 12 \<Longrightarrow> 4 dvd unat sz"
    "m = 2 \<or> m = 6 \<or> m = 10 \<or> m = 14 \<Longrightarrow> 2 dvd unat sz"
proof -
  have m: "take_bit 4 (base OR sz) = m" using assms by (simp add: take_bit_eq_mask mask_eq_exp_minus_1)
  have "2 ^ k dvd unat sz" if "take_bit k m = 0" "k \<le> 4" for k
    using or_low_bits [of k base sz, unfolded m] that by blast
  from this [of 4] this [of 3] this [of 2] this [of 1]
  show "m = 0 \<Longrightarrow> 16 dvd unat sz" "m = 8 \<Longrightarrow> 8 dvd unat sz" "m = 4 \<or> m = 12 \<Longrightarrow> 4 dvd unat sz"
    "m = 2 \<or> m = 6 \<or> m = 10 \<or> m = 14 \<Longrightarrow> 2 dvd unat sz"
    by auto
qed

lemma exchange_units_dvd:
  "apart mem x y s \<Longrightarrow> w dvd s \<Longrightarrow> exchange_units w mem x y (s div w) = swap_blocks mem x y s"
  using exchange_units_swap [of mem x y w "s div w"] by simp

lemma block_selection:
  "(base OR (sz OR 128)) AND 15 = (base OR sz) AND (15 :: u64)"
  "sz OR 128 \<noteq> 16" "sz OR 128 \<noteq> 8" "sz OR 128 \<noteq> 4" "sz OR 128 \<noteq> 2" "sz OR 128 \<noteq> (1 :: u64)"
proof -
  have "(base OR (sz OR 128)) AND 15 = ((base OR sz) AND 15) OR (128 AND 15)"
    by (simp only: or.assoc [symmetric] bit.conj_disj_distrib2)
  then show "(base OR (sz OR 128)) AND 15 = (base OR sz) AND (15 :: u64)" by simp
  have b: "bit (sz OR 128) 7" by (simp add: bit_simps)
  have n: "\<not> bit (16 :: u64) 7" "\<not> bit (8 :: u64) 7" "\<not> bit (4 :: u64) 7" "\<not> bit (2 :: u64) 7" "\<not> bit (1 :: u64) 7"
    by simp_all
  show "sz OR 128 \<noteq> 16" "sz OR 128 \<noteq> 8" "sz OR 128 \<noteq> 4" "sz OR 128 \<noteq> 2" "sz OR 128 \<noteq> (1 :: u64)"
    using b n by metis+
qed

lemmas exchange_routines =
  exchange_one_int128_def exchange_int128s_def exchange_one_int64_def exchange_int64s_def exchange_one_int32_def
  exchange_int32s_def exchange_one_int16_def exchange_int16s_def exchange_one_byte_def exchange_bytes_def

subsection \<open>Property\<close>

text \<open>
  Exchange is a swap, whatever routine is chosen. For every base address and element size,
  the routine \<open>exchange_func\<close> selects swaps two elements of that size exactly, and the routine
  selected for blocks (\<^verbatim>\<open>size | 128\<close>) swaps two blocks of any number of elements exactly, as long
  as they do not overlap; no other byte changes.
\<close>

theorem exchange_func_swaps:
  assumes "apart mem a b (unat sz)" and "apart mem c d (n * unat sz)"
  shows "exchange_func base sz mem a b (unat sz) = swap_blocks mem a b (unat sz) \<and>
    exchange_func base (sz OR 128) mem c d (n * unat sz) = swap_blocks mem c d (n * unat sz)"
proof -
  define m where "m = (base OR sz) AND 15"
  note d = unit_divides [OF m_def [symmetric]]
  have "exchange_func base sz mem a b (unat sz) = swap_blocks mem a b (unat sz)"
    using d exchange_unit_swaps [OF assms(1)] 
      exchange_units_dvd [OF assms(1), of 16] exchange_units_dvd [OF assms(1), of 8] exchange_units_dvd [OF assms(1), of 4]
      exchange_units_dvd [OF assms(1), of 2] exchange_units_dvd [OF assms(1), of 1]
    by (auto simp: exchange_func_def Let_def m_def [symmetric] exchange_routines)
  moreover have "exchange_func base (sz OR 128) mem c d (n * unat sz) = swap_blocks mem c d (n * unat sz)"
    using d exchange_units_dvd [OF assms(2), of 16] exchange_units_dvd [OF assms(2), of 8] exchange_units_dvd [OF assms(2), of 4]
      exchange_units_dvd [OF assms(2), of 2] exchange_units_dvd [OF assms(2), of 1]
    by (auto simp: exchange_func_def Let_def block_selection m_def [symmetric] exchange_routines)
  ultimately show ?thesis ..
qed

theorem exchange_func_swaps_witness:
  "exchange_func 64 4 [1, 2, 3, 4, 5, 6, 7, 8, 9] 0 5 4 = [6, 7, 8, 9, 5, 1, 2, 3, 4]"
proof -
  have "apart [1, 2, 3, 4, 5, 6, 7, 8, 9] 0 5 (unat (4 :: u64))" by (simp add: apart_def)
  from exchange_func_swaps [OF this, of 0 0 0 64] show ?thesis
    by (simp add: apart_def swap_blocks_def upt_rec)
qed

end
