(* ===== verification/Rqsort.thy ===== *)
theory Rqsort
  imports Prelude
begin

text \<open>
  The sort of the engine's utility library (src/qjs/lib/_qjs_cutils.c): quicksort with a
  three-way partition, an explicit stack of 50 segments, a heap sort below depth 50 and an
  insertion sort for up to six elements. An array is the list of its elements, a pointer is a
  position relative to the start of the segment in work; that the exchange routines swap
  elements and blocks of bytes is shown in the theory of the exchange routines. The comparison function is an
  arbitrary parameter; it is assumed to be a consistent order only where sortedness is shown. It is a pure
  function: a callback that changes the array while it is sorted is outside the model. An exchange of positions outside
  the list changes nothing.
\<close>

subsection \<open>Exchange of elements and blocks\<close>

definition xchg :: "nat \<Rightarrow> nat \<Rightarrow> 'a list \<Rightarrow> 'a list" where
  "xchg i j ys = (if i < length ys \<and> j < length ys then ys[j := ys ! i, i := ys ! j] else ys)"

definition xchg_blocks :: "nat \<Rightarrow> nat \<Rightarrow> nat \<Rightarrow> 'a list \<Rightarrow> 'a list" where
  "xchg_blocks a b n ys = fold (\<lambda>k. xchg (a + k) (b + k)) [0..<n] ys"

subsection \<open>Heap sort\<close>

text \<open>The sifting loop: from node \<open>r\<close> down, inside the first \<open>n\<close> elements.\<close>

function sift :: "('a \<Rightarrow> 'a \<Rightarrow> int) \<Rightarrow> nat \<Rightarrow> nat \<Rightarrow> 'a list \<Rightarrow> 'a list" where
  "sift cmp n r ys =
     (let c = r * 2 + 1 in
      if c < n then
        let c = (if c < n - 1 \<and> cmp (ys ! c) (ys ! (c + 1)) \<le> 0 then c + 1 else c)
        in if cmp (ys ! r) (ys ! c) > 0 then ys else sift cmp n c (xchg r c ys)
      else ys)"
  by pat_completeness auto
termination
  by (relation "measure (\<lambda>(cmp, n, r, ys). n - r)") (auto simp: Let_def split: if_splits)

declare sift.simps [simp del]

definition heapsortx :: "('a \<Rightarrow> 'a \<Rightarrow> int) \<Rightarrow> 'a list \<Rightarrow> 'a list" where
  "heapsortx cmp ys =
     (let n = length ys in
      if n > 1 then
        let ys = fold (sift cmp n) (rev [0..<n div 2]) ys
        in fold (\<lambda>i ys. sift cmp i 0 (xchg 0 i ys)) (rev [1..<n]) ys
      else ys)"

subsection \<open>Partition\<close>

definition med3 :: "('a \<Rightarrow> 'a \<Rightarrow> int) \<Rightarrow> 'a list \<Rightarrow> nat \<Rightarrow> nat \<Rightarrow> nat \<Rightarrow> nat" where
  "med3 cmp ys a b c =
     (if cmp (ys ! a) (ys ! b) < 0 then
        (if cmp (ys ! b) (ys ! c) < 0 then b else if cmp (ys ! a) (ys ! c) < 0 then c else a)
      else
        (if cmp (ys ! b) (ys ! c) > 0 then b else if cmp (ys ! a) (ys ! c) < 0 then a else c))"

text \<open>The first inner loop moves \<open>i\<close> up over elements not greater than the pivot at 0.\<close>

function scan_up :: "('a \<Rightarrow> 'a \<Rightarrow> int) \<Rightarrow> 'a list \<Rightarrow> nat \<Rightarrow> nat \<Rightarrow> nat \<Rightarrow> 'a list \<times> nat \<times> nat" where
  "scan_up cmp ys lt i j =
     (if i < j \<and> cmp (ys ! 0) (ys ! i) \<ge> 0 then
        if cmp (ys ! 0) (ys ! i) = 0 then scan_up cmp (xchg lt i ys) (lt + 1) (i + 1) j
        else scan_up cmp ys lt (i + 1) j
      else (ys, lt, i))"
  by pat_completeness auto
termination
  by (relation "measure (\<lambda>(cmp, ys, lt, i, j). j - i)") auto

text \<open>
  The second moves \<open>j\<close> down over elements not smaller than the pivot; \<open>j\<close> is decremented
  before each test.
\<close>

fun scan_down :: "('a \<Rightarrow> 'a \<Rightarrow> int) \<Rightarrow> 'a list \<Rightarrow> nat \<Rightarrow> nat \<Rightarrow> nat \<Rightarrow> 'a list \<times> nat \<times> nat" where
  "scan_down cmp ys gt i 0 = (ys, gt, 0)"
| "scan_down cmp ys gt i (Suc j) =
     (if i < j \<and> cmp (ys ! 0) (ys ! j) \<le> 0 then
        if cmp (ys ! 0) (ys ! j) = 0 then scan_down cmp (xchg (gt - 1) j ys) (gt - 1) i j
        else scan_down cmp ys gt i j
      else (ys, gt, j))"

declare scan_up.simps [simp del]

lemma scan_down_le: "scan_down cmp ys gt i j = (zs, gt', j') \<Longrightarrow> j' \<le> j"
  by (induction cmp ys gt i j rule: scan_down.induct) (auto split: if_splits)

lemma scan_up_ge: "scan_up cmp ys lt i j = (zs, lt', i') \<Longrightarrow> i \<le> i'"
proof (induction cmp ys lt i j rule: scan_up.induct)
  case (1 cmp ys lt i j)
  show ?case
    using 1(3) 1(1,2)
    by (subst (asm) scan_up.simps) (fastforce split: if_splits)
qed

text \<open>The outer loop of the partition: the array, the ends of the two outer groups, and the meeting point.\<close>

function scan_both :: "('a \<Rightarrow> 'a \<Rightarrow> int) \<Rightarrow> 'a list \<Rightarrow> nat \<Rightarrow> nat \<Rightarrow> nat \<Rightarrow> nat \<Rightarrow> 'a list \<times> nat \<times> nat \<times> nat" where
  "scan_both cmp ys lt i j gt =
     (case scan_up cmp ys lt i j of (ys, lt, i) \<Rightarrow>
      case scan_down cmp ys gt i j of (ys, gt, j) \<Rightarrow>
        if i \<ge> j then (ys, lt, i, gt)
        else scan_both cmp (xchg i j ys) lt (i + 1) j gt)"
  by pat_completeness auto
termination
  by (relation "measure (\<lambda>(cmp, ys, lt, i, j, gt). j - i)") (auto dest!: scan_down_le [OF sym] scan_up_ge [OF sym])

declare scan_both.simps [simp del]

text \<open>
  A segment of more than six elements: the pivot to the front, the scan, then the groups equal
  to the pivot into the middle. The result is the segment with the number of smaller elements
  and the position of the first greater one.
\<close>

definition partition3 :: "('a \<Rightarrow> 'a \<Rightarrow> int) \<Rightarrow> 'a list \<Rightarrow> 'a list \<times> nat \<times> nat" where
  "partition3 cmp ys =
     (let n = length ys;
          m4 = n div 4;
          m = med3 cmp ys m4 (2 * m4) (3 * m4);
          ys = xchg 0 m ys;
          (ys, lt, i, gt) = scan_both cmp ys 1 1 n n;
          span = (if lt > i - lt then i - lt else lt);
          ys = xchg_blocks 0 (i - span) span ys;
          span = (if n - gt > gt - i then gt - i else n - gt);
          ys = xchg_blocks i (n - span) span ys
      in (ys, i - lt, n - (gt - i)))"

subsection \<open>Insertion sort and the main loop\<close>

fun bubble :: "('a \<Rightarrow> 'a \<Rightarrow> int) \<Rightarrow> nat \<Rightarrow> 'a list \<Rightarrow> 'a list" where
  "bubble cmp 0 ys = ys"
| "bubble cmp (Suc j) ys = (if cmp (ys ! j) (ys ! Suc j) > 0 then bubble cmp j (xchg (Suc j) j ys) else ys)"

definition insertion_sort :: "('a \<Rightarrow> 'a \<Rightarrow> int) \<Rightarrow> 'a list \<Rightarrow> 'a list" where
  "insertion_sort cmp ys = fold (bubble cmp) [1..<length ys] ys"

text \<open>Work on the \<open>n\<close> elements from \<open>p\<close> on, in place.\<close>

definition segment :: "nat \<Rightarrow> nat \<Rightarrow> 'a list \<Rightarrow> 'a list" where
  "segment p n xs = take n (drop p xs)"

definition put_segment :: "nat \<Rightarrow> 'a list \<Rightarrow> 'a list \<Rightarrow> 'a list" where
  "put_segment p ys xs = take p xs @ ys @ drop (p + length ys) xs"

text \<open>
  The main loop: the segment in work with its depth, and the stack of segments still to do.
  \<open>None\<close> is a write past the stack of 50 entries. The recursion is bounded by fuel, one unit
  for each segment worked on.
\<close>

fun rqsort_loop ::
  "nat \<Rightarrow> ('a \<Rightarrow> 'a \<Rightarrow> int) \<Rightarrow> 'a list \<Rightarrow> nat \<times> nat \<times> nat \<Rightarrow> (nat \<times> nat \<times> nat) list \<Rightarrow> 'a list option" where
  "rqsort_loop 0 cmp xs cur stack = None"
| "rqsort_loop (Suc fuel) cmp xs (p, n, depth) stack =
     (if n > 6 \<and> depth + 1 \<le> 50 then
        let (ys, lt, gt) = partition3 cmp (segment p n xs);
            xs = put_segment p ys xs
        in if length stack \<ge> 50 then None
           else if lt > n - gt then
             rqsort_loop fuel cmp xs (p + gt, n - gt, depth + 1) ((p, lt, depth + 1) # stack)
           else
             rqsort_loop fuel cmp xs (p, lt, depth + 1) ((p + gt, n - gt, depth + 1) # stack)
      else
        let xs = put_segment p ((if n > 6 then heapsortx cmp else insertion_sort cmp) (segment p n xs)) xs
        in case stack of [] \<Rightarrow> Some xs | s # stack \<Rightarrow> rqsort_loop fuel cmp xs s stack)"

text \<open>Enough fuel for every array: each segment worked on is split or finished.\<close>

definition rqsort :: "('a \<Rightarrow> 'a \<Rightarrow> int) \<Rightarrow> 'a list \<Rightarrow> 'a list option" where
  "rqsort cmp xs =
     (if length xs < 2 then Some xs else rqsort_loop (2 * length xs + 1) cmp xs (0, length xs, 0) [])"

subsection \<open>Rearrangements\<close>

lemma length_xchg [simp]: "length (xchg i j ys) = length ys"
  by (simp add: xchg_def)

lemma xchg_at:
  assumes "i < length ys" "j < length ys"
  shows "xchg i j ys ! k = ys ! (if k = i then j else if k = j then i else k)"
  using assms by (auto simp: xchg_def nth_list_update)

lemma mset_xchg [simp]: "mset (xchg i j ys) = mset ys"
  by (auto simp: xchg_def mset_swap)

lemma xchg_blocks_props [simp]: "mset (xchg_blocks a b n ys) = mset ys" "length (xchg_blocks a b n ys) = length ys"
proof -
  have "mset (fold (\<lambda>k. xchg (a + k) (b + k)) ks ys) = mset ys" for ks
    by (induction ks arbitrary: ys) simp_all
  then show m: "mset (xchg_blocks a b n ys) = mset ys" by (simp add: xchg_blocks_def)
  show "length (xchg_blocks a b n ys) = length ys" using mset_eq_length [OF m] .
qed

lemma xchg_blocks_at:
  assumes "a + n \<le> b" and "b + n \<le> length ys" and "k < length ys"
  shows "xchg_blocks a b n ys ! k =
    ys ! (if a \<le> k \<and> k < a + n then k - a + b else if b \<le> k \<and> k < b + n then k - b + a else k)"
  using assms
proof (induction n arbitrary: k)
  case 0
  then show ?case by (auto simp: xchg_blocks_def)
next
  case (Suc n)
  let ?zs = "xchg_blocks a b n ys"
  have z: "m < length ys \<Longrightarrow> ?zs ! m =
      ys ! (if a \<le> m \<and> m < a + n then m - a + b else if b \<le> m \<and> m < b + n then m - b + a else m)" for m
    using Suc by simp
  have "xchg_blocks a b (Suc n) ys = xchg (a + n) (b + n) ?zs" by (simp add: xchg_blocks_def)
  then have x: "xchg_blocks a b (Suc n) ys ! k = ?zs ! (if k = a + n then b + n else if k = b + n then a + n else k)"
    using Suc.prems by (simp add: xchg_at)
  consider "k = a + n" | "k = b + n" | "k \<noteq> a + n" "k \<noteq> b + n" by blast
  then show ?case
  proof cases
    case 1
    with x z [of "b + n"] Suc.prems show ?thesis by (simp add: add.commute)
  next
    case 2
    with x z [of "a + n"] Suc.prems show ?thesis by (auto simp: add.commute)
  next
    case 3
    with x z [OF Suc.prems(3)] Suc.prems(1) show ?thesis by (auto simp: less_Suc_eq)
  qed
qed

lemma mset_sift [simp]: "mset (sift cmp n r ys) = mset ys"
proof (induction cmp n r ys rule: sift.induct)
  case (1 cmp n r ys)
  then show ?case by (subst sift.simps) (simp add: Let_def)
qed

lemma mset_fold_keep: "(\<And>x ys. mset (f x ys) = mset ys) \<Longrightarrow> mset (fold f xs ys) = mset ys"
  by (induction xs arbitrary: ys) simp_all

lemma mset_heapsortx [simp]: "mset (heapsortx cmp ys) = mset ys"
  by (simp add: heapsortx_def Let_def mset_fold_keep)

lemma mset_bubble [simp]: "mset (bubble cmp j ys) = mset ys"
  by (induction cmp j ys rule: bubble.induct) simp_all

lemma mset_insertion_sort [simp]: "mset (insertion_sort cmp ys) = mset ys"
  by (simp add: insertion_sort_def mset_fold_keep)

lemma length_of_mset: "mset xs = mset ys \<Longrightarrow> length xs = length ys"
  by (rule mset_eq_length)

lemma scan_up_keeps:
  assumes "scan_up cmp ys lt i j = (zs, lt', i')" and "lt \<le> i" and "i \<le> j"
  shows "mset zs = mset ys \<and> lt \<le> lt' \<and> lt' \<le> i' \<and> i \<le> i' \<and> i' \<le> j"
  using assms
proof (induction cmp ys lt i j rule: scan_up.induct)
  case (1 cmp ys lt i j)
  note step = 1(3) [unfolded scan_up.simps [of cmp ys lt i j]]
  show ?case
  proof (cases "i < j \<and> cmp (ys ! 0) (ys ! i) \<ge> 0")
    case True
    then show ?thesis using step 1(1,2,4,5) by (cases "cmp (ys ! 0) (ys ! i) = 0") fastforce+
  next
    case False
    then show ?thesis using step 1(4,5) by auto
  qed
qed

lemma scan_down_keeps:
  assumes "scan_down cmp ys gt i j = (zs, gt', j')" and "j \<le> gt" and "i \<le> j" and "0 < i"
  shows "mset zs = mset ys \<and> gt' \<le> gt \<and> j' \<le> gt' \<and> i \<le> gt' \<and> j' \<le> j \<and> i \<le> j' + 1 \<and> j' < j"
  using assms
proof (induction cmp ys gt i j rule: scan_down.induct)
  case (1 cmp ys gt i)
  then show ?case by simp
next
  case (2 cmp ys gt i j)
  show ?case
  proof (cases "i < j \<and> cmp (ys ! 0) (ys ! j) \<le> 0")
    case True
    then show ?thesis using 2 by (cases "cmp (ys ! 0) (ys ! j) = 0") fastforce+
  next
    case False
    then show ?thesis using 2(3-6) by auto
  qed
qed

lemma scan_both_keeps:
  assumes "scan_both cmp ys lt i j gt = (zs, lt', i', gt')" and "0 < lt" "lt \<le> i" "i \<le> j" "j \<le> gt"
  shows "mset zs = mset ys \<and> lt \<le> lt' \<and> lt' \<le> i' \<and> i' \<le> gt' \<and> gt' \<le> gt"
  using assms
proof (induction cmp ys lt i j gt rule: scan_both.induct)
  case (1 cmp ys lt i j gt)
  obtain y1 l1 i1 where u: "scan_up cmp ys lt i j = (y1, l1, i1)" by (rule prod_cases3)
  obtain y2 g2 j2 where d: "scan_down cmp y1 gt i1 j = (y2, g2, j2)" by (rule prod_cases3)
  note ku = scan_up_keeps [OF u 1(4,5)]
  have kd: "mset y2 = mset y1 \<and> g2 \<le> gt \<and> j2 \<le> g2 \<and> i1 \<le> g2 \<and> j2 \<le> j \<and> i1 \<le> j2 + 1 \<and> j2 < j"
    using scan_down_keeps [OF d 1(6)] ku 1(3-5) by simp
  show ?case
  proof (cases "i1 \<ge> j2")
    case True
    then have "zs = y2 \<and> lt' = l1 \<and> i' = i1 \<and> gt' = g2"
      using 1(2) u d by (subst (asm) scan_both.simps) simp
    with ku kd show ?thesis by simp
  next
    case False
    then have r: "scan_both cmp (xchg i1 j2 y2) l1 (i1 + 1) j2 g2 = (zs, lt', i', gt')"
      using 1(2) u d by (subst (asm) scan_both.simps) simp
    show ?thesis
      using 1(1) [OF u [symmetric] refl d [symmetric] refl False r] ku kd 1(3) False by simp
  qed
qed

lemma partition3_keeps:
  assumes "partition3 cmp ys = (zs, lt, gt)" and "0 < length ys"
  shows "mset zs = mset ys \<and> lt < gt \<and> gt \<le> length ys"
proof -
  let ?n = "length ys"
  let ?ys = "xchg 0 (med3 cmp ys (?n div 4) (2 * (?n div 4)) (3 * (?n div 4))) ys"
  obtain y1 l i g where s: "scan_both cmp ?ys 1 1 ?n ?n = (y1, l, i, g)" by (metis prod_cases4)
  have "mset y1 = mset ?ys \<and> 1 \<le> l \<and> l \<le> i \<and> i \<le> g \<and> g \<le> ?n"
    using scan_both_keeps [OF s] assms(2) by simp
  then show ?thesis using assms(1) s by (auto simp: partition3_def Let_def)
qed

lemma segment_props:
  assumes "p + n \<le> length xs" and "length ys = n"
  shows "length (segment p n xs) = n" "length (put_segment p ys xs) = length xs"
  using assms by (simp_all add: segment_def put_segment_def)

lemma put_segment_mset:
  assumes "p + n \<le> length xs" and "mset ys = mset (segment p n xs)"
  shows "mset (put_segment p ys xs) = mset xs"
proof -
  have "length ys = n" using mset_eq_length [OF assms(2)] assms(1) by (simp add: segment_def)
  then have "mset (put_segment p ys xs) = mset (take p xs) + mset (segment p n xs) + mset (drop (p + n) xs)"
    using assms(2) by (simp add: put_segment_def)
  also have "\<dots> = mset (take p xs @ take n (drop p xs) @ drop n (drop p xs))"
    by (simp add: segment_def add.commute)
  also have "take p xs @ take n (drop p xs) @ drop n (drop p xs) = xs" by (simp only: append_take_drop_id)
  finally show ?thesis .
qed

subsection \<open>The loop returns\<close>

text \<open>The work left, and a stack in which depths grow strictly towards the top.\<close>

definition work :: "(nat \<times> nat \<times> nat) list \<Rightarrow> nat" where
  "work segs = sum_list (map (\<lambda>(p, n, d). 2 * n + 1) segs)"

fun depths_ok :: "nat \<Rightarrow> (nat \<times> nat \<times> nat) list \<Rightarrow> bool" where
  "depths_ok d [] = True"
| "depths_ok d ((p, n, e) # st) = (0 < e \<and> e \<le> d \<and> depths_ok (e - 1) st)"

lemma depths_ok_length: "depths_ok d st \<Longrightarrow> length st \<le> d"
proof (induction d st rule: depths_ok.induct)
  case (2 d p n e st)
  then show ?case by fastforce
qed simp

lemma depths_ok_mono: "depths_ok d st \<Longrightarrow> d \<le> d' \<Longrightarrow> depths_ok d' st"
  by (cases st) auto

definition in_bounds :: "nat \<Rightarrow> (nat \<times> nat \<times> nat) list \<Rightarrow> bool" where
  "in_bounds len segs \<longleftrightarrow> (\<forall>(p, n, d) \<in> set segs. p + n \<le> len)"

lemma loop_returns:
  assumes "work ((p, n, d) # stack) \<le> fuel" and "in_bounds (length xs) ((p, n, d) # stack)"
    and "depths_ok d stack" and "d \<le> 50"
  shows "\<exists>zs. rqsort_loop fuel cmp xs (p, n, d) stack = Some zs \<and> mset zs = mset xs"
  using assms
proof (induction fuel arbitrary: xs p n d stack)
  case 0
  then show ?case by (simp add: work_def)
next
  case (Suc fuel)
  have pn: "p + n \<le> length xs" using Suc.prems(2) by (simp add: in_bounds_def)
  show ?case
  proof (cases "n > 6 \<and> d + 1 \<le> 50")
    case True
    obtain ys lt gt where pt: "partition3 cmp (segment p n xs) = (ys, lt, gt)" by (rule prod_cases3)
    have pk: "mset ys = mset (segment p n xs)" "lt < gt" "gt \<le> n"
      using partition3_keeps [OF pt] True pn by (auto simp: segment_def)
    have m: "mset (put_segment p ys xs) = mset xs" using put_segment_mset [OF pn pk(1)] .
    note len = mset_eq_length [OF m]
    have st: "length stack \<le> 49" using depths_ok_length [OF Suc.prems(3)] True by simp
    have "work ((p + gt, n - gt, d + 1) # (p, lt, d + 1) # stack) \<le> fuel"
      "work ((p, lt, d + 1) # (p + gt, n - gt, d + 1) # stack) \<le> fuel"
      using Suc.prems(1) pk(2,3) by (simp_all add: work_def)
    moreover have "in_bounds (length (put_segment p ys xs)) ((p + gt, n - gt, d + 1) # (p, lt, d + 1) # stack)"
      "in_bounds (length (put_segment p ys xs)) ((p, lt, d + 1) # (p + gt, n - gt, d + 1) # stack)"
      using Suc.prems(2) pk(2,3) len by (auto simp: in_bounds_def)
    ultimately show ?thesis
      using Suc.IH [of "p + gt" "n - gt" "d + 1" "(p, lt, d + 1) # stack" "put_segment p ys xs"]
        Suc.IH [of p lt "d + 1" "(p + gt, n - gt, d + 1) # stack" "put_segment p ys xs"] Suc.prems(3) True pt st m
      by (simp add: Let_def)
  next
    case False
    define ys where "ys = (if n > 6 then heapsortx cmp else insertion_sort cmp) (segment p n xs)"
    have m: "mset (put_segment p ys xs) = mset xs" using put_segment_mset [OF pn, of ys] by (simp add: ys_def)
    note len = mset_eq_length [OF m]
    have e: "rqsort_loop (Suc fuel) cmp xs (p, n, d) stack =
        (case stack of [] \<Rightarrow> Some (put_segment p ys xs) | s # st \<Rightarrow> rqsort_loop fuel cmp (put_segment p ys xs) s st)"
      using False by (auto simp: ys_def Let_def split: list.split)
    show ?thesis
    proof (cases stack)
      case Nil
      with e m show ?thesis by simp
    next
      case (Cons s st)
      obtain p' n' d' where s: "s = (p', n', d')" by (rule prod_cases3)
      have "depths_ok d' st" "d' \<le> 50"
        using Suc.prems(3,4) Cons s depths_ok_mono [of "d' - 1" st d'] by simp_all
      moreover have "work ((p', n', d') # st) \<le> fuel" using Suc.prems(1) Cons s by (simp add: work_def)
      moreover have "in_bounds (length (put_segment p ys xs)) ((p', n', d') # st)"
        using Suc.prems(2) Cons s len by (simp add: in_bounds_def)
      ultimately show ?thesis using Suc.IH [of p' n' d' st "put_segment p ys xs"] e Cons s m by simp
    qed
  qed
qed

subsection \<open>Sortedness\<close>

text \<open>A consistent comparison function: antisymmetric in its sign, and transitive.\<close>

locale comparator =
  fixes cmp :: "'a \<Rightarrow> 'a \<Rightarrow> int"
  assumes opposite: "cmp x y < 0 \<longleftrightarrow> cmp y x > 0"
    and transitive: "cmp x y \<le> 0 \<Longrightarrow> cmp y z \<le> 0 \<Longrightarrow> cmp x z \<le> 0"
begin

definition ordered :: "'a list \<Rightarrow> bool" where
  "ordered xs \<longleftrightarrow> (\<forall>i j. i < j \<longrightarrow> j < length xs \<longrightarrow> cmp (xs ! i) (xs ! j) \<le> 0)"

lemma cmp_refl [simp]: "cmp x x = 0"
  using opposite [of x x] by linarith

lemma cmp_greater: "cmp x y > 0 \<Longrightarrow> cmp y x \<le> 0"
  using opposite [of y x] by linarith

lemma cmp_zero: "cmp x y = 0 \<Longrightarrow> cmp y x = 0"
  using opposite [of x y] opposite [of y x] by linarith

text \<open>The state of a partition: elements equal to, below, not yet seen, above and equal to the pivot.\<close>

definition classed :: "'a \<Rightarrow> 'a list \<Rightarrow> nat \<Rightarrow> nat \<Rightarrow> nat \<Rightarrow> nat \<Rightarrow> bool" where
  "classed v ys lt i j gt \<longleftrightarrow> ys ! 0 = v \<and> (\<forall>k < lt. cmp v (ys ! k) = 0) \<and>
     (\<forall>k. lt \<le> k \<longrightarrow> k < i \<longrightarrow> cmp v (ys ! k) > 0) \<and> (\<forall>k. j \<le> k \<longrightarrow> k < gt \<longrightarrow> cmp v (ys ! k) < 0) \<and>
     (\<forall>k. gt \<le> k \<longrightarrow> k < length ys \<longrightarrow> cmp v (ys ! k) = 0)"

lemma classed_up:
  assumes c: "classed v ys lt i j gt" and b: "0 < lt" "lt \<le> i" "i < j" "j \<le> gt" "gt \<le> length ys"
    and z: "cmp v (ys ! i) = 0"
  shows "classed v (xchg lt i ys) (lt + 1) (i + 1) j gt"
proof -
  have x: "xchg lt i ys ! k = ys ! (if k = lt then i else if k = i then lt else k)" for k
    using b by (intro xchg_at) simp_all
  have l: "cmp v (ys ! lt) > 0" if "lt < i" using c that by (simp add: classed_def)
  have "cmp v (xchg lt i ys ! k) = 0" if "k < lt + 1" for k
    using that c z b by (auto simp: x classed_def less_Suc_eq)
  moreover have "cmp v (xchg lt i ys ! k) > 0" if "lt + 1 \<le> k" "k < i + 1" for k
    using that c l b by (auto simp: x classed_def less_Suc_eq)
  moreover have "cmp v (xchg lt i ys ! k) < 0" if "j \<le> k" "k < gt" for k
    using that c b by (auto simp: x classed_def)
  moreover have "cmp v (xchg lt i ys ! k) = 0" if "gt \<le> k" "k < length ys" for k
    using that c b by (auto simp: x classed_def)
  moreover have "xchg lt i ys ! 0 = v" using c b by (simp add: x classed_def)
  ultimately show ?thesis by (auto simp: classed_def)
qed

lemma classed_down:
  assumes c: "classed v ys lt i (Suc j) (Suc g)" and b: "0 < lt" "lt \<le> i" "i < j" "j \<le> g" "g < length ys"
    and z: "cmp v (ys ! j) = 0"
  shows "classed v (xchg g j ys) lt i j g"
proof -
  have x: "xchg g j ys ! k = ys ! (if k = g then j else if k = j then g else k)" for k
    using b by (intro xchg_at) simp_all
  have l: "cmp v (ys ! g) < 0" if "j < g" using c that by (simp add: classed_def)
  have "cmp v (xchg g j ys ! k) = 0" if "k < lt" for k
    using that c b by (auto simp: x classed_def)
  moreover have "cmp v (xchg g j ys ! k) > 0" if "lt \<le> k" "k < i" for k
    using that c b by (auto simp: x classed_def)
  moreover have "cmp v (xchg g j ys ! k) < 0" if "j \<le> k" "k < g" for k
    using that c l b by (auto simp: x classed_def)
  moreover have "cmp v (xchg g j ys ! k) = 0" if "g \<le> k" "k < length ys" for k
  proof -
    have "k = g \<or> Suc g \<le> k" using that(1) by linarith
    then show ?thesis using that c z b by (auto simp: x classed_def)
  qed
  moreover have "xchg g j ys ! 0 = v" using c b by (simp add: x classed_def)
  ultimately show ?thesis by (auto simp: classed_def)
qed

lemma scan_up_classed:
  assumes "scan_up cmp ys lt i j = (zs, lt', i')" and "classed v ys lt i j gt"
    and "0 < lt" "lt \<le> i" "i \<le> j" "j \<le> gt" "gt \<le> length ys"
  shows "classed v zs lt' i' j gt \<and> (i' < j \<longrightarrow> cmp v (zs ! i') < 0)"
  using assms
proof (induction "j - i" arbitrary: ys lt i)
  case 0
  then show ?case by (subst (asm) (1) scan_up.simps) auto
next
  case (Suc d)
  have v: "ys ! 0 = v" using Suc.prems(2) by (simp add: classed_def)
  have ij: "i < j" using Suc.hyps(2) by linarith
  note step = Suc.prems(1) [unfolded scan_up.simps [of cmp ys lt i j] v]
  consider "cmp v (ys ! i) < 0" | "cmp v (ys ! i) = 0" | "cmp v (ys ! i) > 0" by linarith
  then show ?case
  proof cases
    case 1
    with step Suc.prems ij show ?thesis by auto
  next
    case 2
    have c: "classed v (xchg lt i ys) (lt + 1) (i + 1) j gt"
      using classed_up [OF Suc.prems(2,3,4) ij Suc.prems(6,7) 2] .
    have "scan_up cmp (xchg lt i ys) (lt + 1) (i + 1) j = (zs, lt', i')" using step ij 2 by simp
    with Suc.hyps(1) [of "i + 1" "xchg lt i ys" "lt + 1"] Suc.hyps(2) c Suc.prems ij show ?thesis by simp
  next
    case 3
    have c: "classed v ys lt (i + 1) j gt"
      using Suc.prems(2) 3 by (auto simp: classed_def less_Suc_eq)
    have "scan_up cmp ys lt (i + 1) j = (zs, lt', i')" using step ij 3 by simp
    with Suc.hyps(1) [of "i + 1" ys lt] Suc.hyps(2) c Suc.prems ij show ?thesis by simp
  qed
qed

lemma scan_down_classed:
  assumes "scan_down cmp ys gt i j = (zs, gt', j')" and "classed v ys lt i j gt"
    and "0 < lt" "lt \<le> i" "i \<le> j" "j \<le> gt" "gt \<le> length ys" "i < j \<longrightarrow> cmp v (ys ! i) < 0"
  shows "classed v zs lt i (j' + 1) gt' \<and> (i < j' \<longrightarrow> cmp v (zs ! j') > 0) \<and> (i \<le> j' \<longrightarrow> cmp v (zs ! i) < 0)"
  using assms
proof (induction j arbitrary: ys gt)
  case 0
  then show ?case by simp
next
  case (Suc j)
  have v: "ys ! 0 = v" using Suc.prems(2) by (simp add: classed_def)
  note step = Suc.prems(1) [unfolded scan_down.simps v]
  consider "\<not> i < j" | "i < j" "cmp v (ys ! j) > 0" | "i < j" "cmp v (ys ! j) = 0" | "i < j" "cmp v (ys ! j) < 0" by linarith
  then show ?case
  proof cases
    case 1
    with step have r: "zs = ys" "gt' = gt" "j' = j" by simp_all
    with Suc.prems show ?thesis using 1 by auto
  next
    case 2
    with step have r: "zs = ys" "gt' = gt" "j' = j" by simp_all
    with Suc.prems show ?thesis using 2 by simp
  next
    case 3
    obtain g where g: "gt = Suc g" using Suc.prems(6) by (cases gt) auto
    have c: "classed v (xchg g j ys) lt i j g"
      using classed_down [of v ys lt i j g] Suc.prems 3 g by simp
    have r: "scan_down cmp (xchg g j ys) g i j = (zs, gt', j')" using step 3 g by simp
    have "xchg g j ys ! i = ys ! i" using 3(1) Suc.prems(6,7) g by (subst xchg_at) simp_all
    then have "cmp v (xchg g j ys ! i) < 0" using Suc.prems(8) 3 by simp
    with Suc.IH [OF r c] Suc.prems 3 g show ?thesis by simp
  next
    case 4
    have c: "classed v ys lt i j gt"
      using Suc.prems(2) 4 unfolding classed_def by (metis le_antisym not_less_eq_eq)
    have r: "scan_down cmp ys gt i j = (zs, gt', j')" using step 4 by simp
    with Suc.IH [OF r c] Suc.prems 4 show ?thesis by simp
  qed
qed

lemma scan_both_classed:
  assumes "scan_both cmp ys lt i j gt = (zs, lt', i', gt')" and "classed v ys lt i j gt"
    and "0 < lt" "lt \<le> i" "i \<le> j" "j \<le> gt" "gt \<le> length ys"
  shows "classed v zs lt' i' i' gt'"
  using assms
proof (induction "j - i" arbitrary: ys lt i j gt rule: less_induct)
  case less
  obtain y1 l1 i1 where u: "scan_up cmp ys lt i j = (y1, l1, i1)" by (rule prod_cases3)
  obtain y2 g2 j2 where d: "scan_down cmp y1 gt i1 j = (y2, g2, j2)" by (rule prod_cases3)
  note ku = scan_up_keeps [OF u less.prems(4,5)] and cu = scan_up_classed [OF u less.prems(2-7)]
  have l1: "length y1 = length ys" using ku mset_eq_length by blast
  have pre: "0 < l1" "l1 \<le> i1" "i1 \<le> j" "0 < i1" "gt \<le> length y1" using ku less.prems(3,7) l1 by simp_all
  note kd = scan_down_keeps [OF d less.prems(6) pre(3,4)]
  have cd: "classed v y2 l1 i1 (j2 + 1) g2 \<and> (i1 < j2 \<longrightarrow> cmp v (y2 ! j2) > 0) \<and> (i1 \<le> j2 \<longrightarrow> cmp v (y2 ! i1) < 0)"
    using scan_down_classed [OF d _ pre(1-3) less.prems(6) pre(5)] cu by blast
  have l2: "length y2 = length ys" using kd l1 mset_eq_length by metis
  show ?case
  proof (cases "i1 \<ge> j2")
    case True
    then have r: "zs = y2" "lt' = l1" "i' = i1" "gt' = g2"
      using less.prems(1) u d by (subst (asm) scan_both.simps; simp)+
    have "cmp v (y2 ! k) < 0" if "i1 \<le> k" "k < g2" for k
    proof (cases "k = i1 \<and> i1 \<le> j2")
      case False
      then have "j2 + 1 \<le> k" using True that(1) by linarith
      then show ?thesis using cd that(2) by (simp add: classed_def)
    qed (use cd in simp)
    then show ?thesis using cd r by (simp add: classed_def)
  next
    case False
    then have r: "scan_both cmp (xchg i1 j2 y2) l1 (i1 + 1) j2 g2 = (zs, lt', i', gt')"
      using less.prems(1) u d by (subst (asm) scan_both.simps) simp
    have jb: "j2 < length y2" "i1 < j2" using False kd l2 less.prems(6,7) by linarith+
    have x: "xchg i1 j2 y2 ! k = y2 ! (if k = i1 then j2 else if k = j2 then i1 else k)" for k
      using jb by (intro xchg_at) simp_all
    have c: "classed v (xchg i1 j2 y2) l1 (i1 + 1) j2 g2"
    proof -
      have "cmp v (xchg i1 j2 y2 ! k) = 0" if "k < l1" for k using that cd jb pre by (auto simp: x classed_def)
      moreover have "cmp v (xchg i1 j2 y2 ! k) > 0" if "l1 \<le> k" "k < i1 + 1" for k
        using that cd jb by (auto simp: x classed_def less_Suc_eq)
      moreover have "cmp v (xchg i1 j2 y2 ! k) < 0" if "j2 \<le> k" "k < g2" for k
        using that cd jb by (cases "k = j2") (auto simp: x classed_def)
      moreover have "cmp v (xchg i1 j2 y2 ! k) = 0" if "g2 \<le> k" "k < length y2" for k
        using that cd jb kd by (auto simp: x classed_def)
      moreover have "xchg i1 j2 y2 ! 0 = v" using cd jb pre by (simp add: x classed_def)
      ultimately show ?thesis by (auto simp: classed_def)
    qed
    have "j2 - (i1 + 1) < j - i" using ku kd jb by linarith
    then show ?thesis
      using less.hyps [of j2 "i1 + 1" "xchg i1 j2 y2" l1 g2] r c ku kd pre jb l2 less.prems by simp
  qed
qed

text \<open>Exchanging the shorter of two neighbouring groups with the far end of the other exchanges the groups.\<close>

lemma groups_exchanged:
  assumes b: "a \<le> b" "b \<le> c" "c \<le> length ys"
    and P: "\<And>k. a \<le> k \<Longrightarrow> k < b \<Longrightarrow> P (ys ! k)" and Q: "\<And>k. b \<le> k \<Longrightarrow> k < c \<Longrightarrow> Q (ys ! k)"
    and span: "span = (if b - a > c - b then c - b else b - a)"
  defines "zs \<equiv> xchg_blocks a (c - span) span ys"
  shows "\<And>k. a \<le> k \<Longrightarrow> k < a + (c - b) \<Longrightarrow> Q (zs ! k)" and "\<And>k. a + (c - b) \<le> k \<Longrightarrow> k < c \<Longrightarrow> P (zs ! k)"
    and "\<And>k. k < a \<or> c \<le> k \<Longrightarrow> k < length ys \<Longrightarrow> zs ! k = ys ! k"
proof -
  have sp: "a + span \<le> c - span" "c - span + span \<le> length ys" "c - span + span = c"
    using b by (auto simp: span)
  have z: "zs ! k = ys ! (if a \<le> k \<and> k < a + span then k - a + (c - span)
      else if c - span \<le> k \<and> k < c - span + span then k - (c - span) + a else k)" if "k < length ys" for k
    unfolding zs_def using xchg_blocks_at [OF sp(1,2) that] .
  show "Q (zs ! k)" if k: "a \<le> k" "k < a + (c - b)" for k
  proof -
    have "k < length ys" using k b by linarith
    moreover have "b \<le> (if k < a + span then k - a + (c - span) else k)"
      "(if k < a + span then k - a + (c - span) else k) < c - span \<or> k < a + span"
      using k b by (auto simp: span)
    moreover have "(if k < a + span then k - a + (c - span) else k) < c" using k b by (auto simp: span)
    ultimately show ?thesis using Q z [of k] k b sp by (auto split: if_splits)
  qed
  show "P (zs ! k)" if k: "a + (c - b) \<le> k" "k < c" for k
  proof (cases "c - span \<le> k")
    case True
    have "\<not> k < a + span" using k b True sp by auto
    moreover have "k - (c - span) + a < b" using k b True by (auto simp: span split: if_splits)
    ultimately show ?thesis using P z [of k] k b True sp by auto
  next
    case False
    then have "k < b" "\<not> k < a + span" using k b by (auto simp: span split: if_splits)
    with P z [of k] k b False show ?thesis by auto
  qed
  show "zs ! k = ys ! k" if k: "k < a \<or> c \<le> k" "k < length ys" for k
    using z [OF k(2)] k sp by auto
qed

lemma partition3_classed:
  assumes "partition3 cmp ys = (zs, lt, gt)" and n: "0 < length ys"
  shows "\<exists>v. (\<forall>k < lt. cmp v (zs ! k) > 0) \<and> (\<forall>k. lt \<le> k \<longrightarrow> k < gt \<longrightarrow> cmp v (zs ! k) = 0) \<and>
    (\<forall>k. gt \<le> k \<longrightarrow> k < length ys \<longrightarrow> cmp v (zs ! k) < 0)"
proof -
  let ?n = "length ys"
  define y0 where "y0 = xchg 0 (med3 cmp ys (?n div 4) (2 * (?n div 4)) (3 * (?n div 4))) ys"
  have l0: "length y0 = ?n" by (simp add: y0_def)
  obtain y1 l i g where s: "scan_both cmp y0 1 1 ?n ?n = (y1, l, i, g)" by (metis prod_cases4)
  have k: "mset y1 = mset y0 \<and> 1 \<le> l \<and> l \<le> i \<and> i \<le> g \<and> g \<le> ?n"
    using scan_both_keeps [OF s] n by simp
  then have l1: "length y1 = ?n" using l0 mset_eq_length by metis
  define v where "v = y0 ! 0"
  have "classed v y0 1 1 ?n ?n" using l0 by (simp add: classed_def v_def)
  then have c: "classed v y1 l i i g" using scan_both_classed [OF s] n l0 by simp
  define s1 where "s1 = (if l > i - l then i - l else l)"
  define y2 where "y2 = xchg_blocks 0 (i - s1) s1 y1"
  define s2 where "s2 = (if ?n - g > g - i then g - i else ?n - g)"
  define y3 where "y3 = xchg_blocks i (?n - s2) s2 y2"
  have r: "zs = y3" "lt = i - l" "gt = ?n - (g - i)"
    using assms(1) [unfolded partition3_def Let_def y0_def [symmetric] s prod.case s1_def [symmetric] y2_def [symmetric]
        s2_def [symmetric] y3_def [symmetric]] by simp_all
  have l2: "length y2 = ?n" using l1 by (simp add: y2_def)
  note e1 = groups_exchanged [of 0 l i y1 "\<lambda>x. cmp v x = 0" "\<lambda>x. cmp v x > 0" s1, folded y2_def]
  have q1: "cmp v (y2 ! j) > 0" if "j < i - l" for j
    by (rule e1(1)) (use c k l1 that s1_def in \<open>auto simp: classed_def\<close>)
  have p1: "cmp v (y2 ! j) = 0" if "i - l \<le> j" "j < i" for j
    by (rule e1(2)) (use c k l1 that s1_def in \<open>auto simp: classed_def\<close>)
  have o1: "y2 ! j = y1 ! j" if "i \<le> j" "j < ?n" for j
    by (rule e1(3)) (use c k l1 that s1_def in \<open>auto simp: classed_def\<close>)
  have s2': "s2 = (if g - i > ?n - g then ?n - g else g - i)" using k by (auto simp: s2_def)
  note e2 = groups_exchanged [of i g ?n y2 "\<lambda>x. cmp v x < 0" "\<lambda>x. cmp v x = 0" s2, folded y3_def]
  have P2: "cmp v (y2 ! j) < 0" if "i \<le> j" "j < g" for j using c k that o1 by (simp add: classed_def)
  have Q2: "cmp v (y2 ! j) = 0" if "g \<le> j" "j < ?n" for j using c k that o1 l1 by (simp add: classed_def)
  have n2: "i + (?n - g) = ?n - (g - i)" using k by linarith
  have q2: "cmp v (y3 ! j) = 0" if "i \<le> j" "j < ?n - (g - i)" for j
    by (rule e2(1)) (use k l2 that s2' P2 Q2 n2 in auto)
  have p2: "cmp v (y3 ! j) < 0" if "?n - (g - i) \<le> j" "j < ?n" for j
    by (rule e2(2)) (use k l2 that s2' P2 Q2 n2 in auto)
  have o2: "y3 ! j = y2 ! j" if "j < i" for j
    by (rule e2(3)) (use k l2 that s2' P2 Q2 in auto)
  have "\<forall>j < lt. cmp v (zs ! j) > 0" using q1 o2 r by simp
  moreover have "cmp v (zs ! j) = 0" if "lt \<le> j" "j < gt" for j
    using p1 [of j] o2 [of j] q2 [of j] r that by (cases "j < i") simp_all
  moreover have "\<forall>j. gt \<le> j \<longrightarrow> j < ?n \<longrightarrow> cmp v (zs ! j) < 0" using p2 r by simp
  ultimately show ?thesis by blast
qed

lemma bubble_orders:
  assumes "\<forall>a b. a < b \<longrightarrow> b \<le> i \<longrightarrow> a \<noteq> j \<longrightarrow> b \<noteq> j \<longrightarrow> cmp (ys ! a) (ys ! b) \<le> 0"
    and "\<forall>k. j < k \<longrightarrow> k \<le> i \<longrightarrow> cmp (ys ! j) (ys ! k) \<le> 0" and "j \<le> i" and "i < length ys"
  shows "\<forall>a b. a < b \<longrightarrow> b \<le> i \<longrightarrow> cmp (bubble cmp j ys ! a) (bubble cmp j ys ! b) \<le> 0"
  using assms
proof (induction j arbitrary: ys)
  case 0
  show ?case
  proof (intro allI impI)
    fix a b :: nat
    assume "a < b" "b \<le> i"
    with 0(1,2) show "cmp (bubble cmp 0 ys ! a) (bubble cmp 0 ys ! b) \<le> 0" by (cases "a = 0") simp_all
  qed
next
  case (Suc j)
  show ?case
  proof (cases "cmp (ys ! j) (ys ! Suc j) > 0")
    case True
    let ?ys = "xchg (Suc j) j ys"
    have x: "?ys ! k = ys ! (if k = Suc j then j else if k = j then Suc j else k)" for k
      using Suc.prems by (intro xchg_at) simp_all
    have 1: "\<forall>a b. a < b \<longrightarrow> b \<le> i \<longrightarrow> a \<noteq> j \<longrightarrow> b \<noteq> j \<longrightarrow> cmp (?ys ! a) (?ys ! b) \<le> 0"
      using Suc.prems(1) by (auto simp: x)
    have 2: "\<forall>k. j < k \<longrightarrow> k \<le> i \<longrightarrow> cmp (?ys ! j) (?ys ! k) \<le> 0"
      using Suc.prems(2) cmp_greater [OF True] by (auto simp: x)
    from Suc.IH [OF 1 2] Suc.prems(3,4) True show ?thesis by simp
  next
    case False
    have "cmp (ys ! a) (ys ! b) \<le> 0" if ab: "a < b" "b \<le> i" for a b
    proof -
      consider "b = Suc j" "a = j" | "b = Suc j" "a < j" | "a = Suc j" | "a \<noteq> Suc j" "b \<noteq> Suc j" using ab by linarith
      then show ?thesis
      proof cases
        case 2
        then have "cmp (ys ! a) (ys ! j) \<le> 0" using Suc.prems(1,3) by simp
        then show ?thesis using transitive [of "ys ! a" "ys ! j" "ys ! b"] False 2 by simp
      qed (use False Suc.prems ab in auto)
    qed
    with False show ?thesis by simp
  qed
qed

lemma insertion_sorts: "ordered (insertion_sort cmp ys)"
proof -
  have len: "length (fold (bubble cmp) ks ys) = length ys" for ks
    using mset_fold_keep [of "bubble cmp"] mset_eq_length by (metis mset_bubble)
  have "\<forall>a b. a < b \<longrightarrow> b < k \<longrightarrow> cmp (fold (bubble cmp) [1..<k] ys ! a) (fold (bubble cmp) [1..<k] ys ! b) \<le> 0"
    if "k \<le> length ys" for k
    using that
  proof (induction k)
    case (Suc k)
    show ?case
    proof (cases "k = 0")
      case False
      let ?zs = "fold (bubble cmp) [1..<k] ys"
      have "[1..<Suc k] = [1..<k] @ [k]" using False by simp
      then have f: "fold (bubble cmp) [1..<Suc k] ys = bubble cmp k ?zs" by simp
      from Suc have ih: "\<forall>a b. a < b \<longrightarrow> b < k \<longrightarrow> cmp (?zs ! a) (?zs ! b) \<le> 0" by simp
      have 1: "\<forall>a b. a < b \<longrightarrow> b \<le> k \<longrightarrow> a \<noteq> k \<longrightarrow> b \<noteq> k \<longrightarrow> cmp (?zs ! a) (?zs ! b) \<le> 0"
        using ih by (meson le_neq_implies_less)
      have 2: "k < length ?zs" using len Suc.prems by simp
      have "\<forall>a b. a < b \<longrightarrow> b \<le> k \<longrightarrow> cmp (bubble cmp k ?zs ! a) (bubble cmp k ?zs ! b) \<le> 0"
        by (rule bubble_orders [OF 1 _ le_refl 2]) simp
      then show ?thesis unfolding f by (simp add: less_Suc_eq_le)
    qed simp
  qed simp
  from this [of "length ys"] show ?thesis by (simp add: ordered_def insertion_sort_def len)
qed

text \<open>Heap order on the nodes from \<open>lo\<close> on, except possibly at node \<open>r\<close>.\<close>

definition child :: "nat \<Rightarrow> nat \<Rightarrow> bool" where
  "child k c \<longleftrightarrow> c = 2 * k + 1 \<or> c = 2 * k + 2"

definition heap_except :: "nat \<Rightarrow> nat \<Rightarrow> nat option \<Rightarrow> 'a list \<Rightarrow> bool" where
  "heap_except lo n r ys \<longleftrightarrow> (\<forall>k c. lo \<le> k \<longrightarrow> Some k \<noteq> r \<longrightarrow> child k c \<longrightarrow> c < n \<longrightarrow> cmp (ys ! c) (ys ! k) \<le> 0)"

lemma sift_step:
  assumes "r * 2 + 1 < n"
  obtains c where "child r c" "c < n" "\<forall>c'. child r c' \<longrightarrow> c' < n \<longrightarrow> cmp (ys ! c') (ys ! c) \<le> 0"
    "sift cmp n r ys = (if cmp (ys ! r) (ys ! c) > 0 then ys else sift cmp n c (xchg r c ys))"
proof -
  let ?c = "r * 2 + 1"
  define c where "c = (if ?c < n - 1 \<and> cmp (ys ! ?c) (ys ! (?c + 1)) \<le> 0 then ?c + 1 else ?c)"
  have "sift cmp n r ys = (if cmp (ys ! r) (ys ! c) > 0 then ys else sift cmp n c (xchg r c ys))"
    using assms by (subst sift.simps) (simp add: c_def Let_def)
  moreover have "child r c" "c < n" using assms by (auto simp: c_def child_def)
  moreover have "cmp (ys ! c') (ys ! c) \<le> 0" if "child r c'" "c' < n" for c'
  proof -
    have "c' = ?c \<or> c' = ?c + 1" using that by (auto simp: child_def)
    then show ?thesis using that(2) by (auto simp: c_def intro: cmp_greater)
  qed
  ultimately show thesis using that [of c] by blast
qed

lemma sift_heap:
  assumes "heap_except lo n (Some r) ys" and "lo \<le> r" and "n \<le> length ys"
    and "\<forall>k c. lo \<le> k \<longrightarrow> child k r \<longrightarrow> child r c \<longrightarrow> c < n \<longrightarrow> cmp (ys ! c) (ys ! k) \<le> 0"
  shows "heap_except lo n None (sift cmp n r ys)"
  using assms
proof (induction "n - r" arbitrary: r ys rule: less_induct)
  case less
  show ?case
  proof (cases "r * 2 + 1 < n")
    case False
    then have "sift cmp n r ys = ys" by (subst sift.simps) simp
    moreover have "\<not> c < n" if "child r c" for c using that False by (auto simp: child_def)
    ultimately show ?thesis using less.prems(1) unfolding heap_except_def by (metis option.inject)
  next
    case True
    then obtain c where c: "child r c" "c < n" "\<forall>c'. child r c' \<longrightarrow> c' < n \<longrightarrow> cmp (ys ! c') (ys ! c) \<le> 0"
      and sf: "sift cmp n r ys = (if cmp (ys ! r) (ys ! c) > 0 then ys else sift cmp n c (xchg r c ys))"
      by (rule sift_step [where ys = ys])
    have rc: "r < c" using c(1) by (auto simp: child_def)
    show ?thesis
    proof (cases "cmp (ys ! r) (ys ! c) > 0")
      case gt: True
      have "cmp (ys ! c') (ys ! k) \<le> 0" if "lo \<le> k" "child k c'" "c' < n" for k c'
      proof (cases "k = r")
        case True
        then show ?thesis using transitive [OF c(3) [rule_format] cmp_greater [OF gt]] that by simp
      next
        case False
        then show ?thesis using less.prems(1) that by (simp add: heap_except_def)
      qed
      then show ?thesis using gt sf by (simp add: heap_except_def)
    next
      case le: False
      let ?ys = "xchg r c ys"
      have x: "?ys ! k = ys ! (if k = r then c else if k = c then r else k)" for k
        using rc c(2) less.prems(3) by (intro xchg_at) simp_all
      have H: "cmp (ys ! c') (ys ! k) \<le> 0" if "lo \<le> k" "k \<noteq> r" "child k c'" "c' < n" for k c'
        using less.prems(1) that by (simp add: heap_except_def)
      have inj: "child k d \<Longrightarrow> child k' d \<Longrightarrow> k = k'" for k k' d by (auto simp: child_def)
      have 1: "heap_except lo n (Some c) ?ys"
        unfolding heap_except_def
      proof (intro allI impI)
        fix k c'
        assume k: "lo \<le> k" "Some k \<noteq> Some c" "child k c'" "c' < n"
        have kc: "k < c'" using k(3) by (auto simp: child_def)
        show "cmp (?ys ! c') (?ys ! k) \<le> 0"
        proof (cases "k = r")
          case True
          then show ?thesis using k kc le c(3) by (auto simp: x)
        next
          case False
          have "c' \<noteq> c" using inj [OF k(3)] c(1) False by blast
          then show ?thesis using k False kc H [of k c'] less.prems(4) c(1,2) by (auto simp: x)
        qed
      qed
      have 2: "\<forall>k d. lo \<le> k \<longrightarrow> child k c \<longrightarrow> child c d \<longrightarrow> d < n \<longrightarrow> cmp (?ys ! d) (?ys ! k) \<le> 0"
      proof (intro allI impI)
        fix k d
        assume k: "lo \<le> k" "child k c" "child c d" "d < n"
        have "k = r" "c < d" using inj [OF k(2) c(1)] k(3) by (auto simp: child_def)
        then show "cmp (?ys ! d) (?ys ! k) \<le> 0"
          using H [of c d] k rc less.prems(2) by (simp add: x)
      qed
      have "heap_except lo n None (sift cmp n c ?ys)"
        using less.hyps [of c ?ys] 1 2 rc c(2) less.prems(2,3) by simp
      then show ?thesis using le sf by simp
    qed
  qed
qed

text \<open>Sifting only rearranges the first \<open>n\<close> elements.\<close>

lemma sift_local:
  assumes "n \<le> length ys" and "r < n"
  shows "(\<forall>k. n \<le> k \<longrightarrow> sift cmp n r ys ! k = ys ! k) \<and> (\<forall>k < n. \<exists>j < n. sift cmp n r ys ! k = ys ! j)"
  using assms
proof (induction "n - r" arbitrary: r ys rule: less_induct)
  case less
  show ?case
  proof (cases "r * 2 + 1 < n")
    case False
    then have "sift cmp n r ys = ys" by (subst sift.simps) simp
    then show ?thesis by auto
  next
    case True
    then obtain c where c: "child r c" "c < n" "\<forall>c'. child r c' \<longrightarrow> c' < n \<longrightarrow> cmp (ys ! c') (ys ! c) \<le> 0"
      and sf: "sift cmp n r ys = (if cmp (ys ! r) (ys ! c) > 0 then ys else sift cmp n c (xchg r c ys))"
      by (rule sift_step [where ys = ys])
    have rc: "r < c" using c(1) by (auto simp: child_def)
    have x: "xchg r c ys ! k = ys ! (if k = r then c else if k = c then r else k)" for k
      using rc c(2) less.prems(1) by (intro xchg_at) simp_all
    have ih: "(\<forall>k. n \<le> k \<longrightarrow> sift cmp n c (xchg r c ys) ! k = xchg r c ys ! k) \<and>
        (\<forall>k < n. \<exists>j < n. sift cmp n c (xchg r c ys) ! k = xchg r c ys ! j)"
      using less.hyps [of c "xchg r c ys"] rc c(2) less.prems by simp
    have "\<exists>j < n. xchg r c ys ! k = ys ! j" if "k < n" for k
      using that less.prems(2) c(2) by (auto simp: x)
    then have "\<exists>j < n. sift cmp n c (xchg r c ys) ! k = ys ! j" if "k < n" for k
      using ih that by metis
    moreover have "sift cmp n c (xchg r c ys) ! k = ys ! k" if "n \<le> k" for k
      using ih that less.prems(2) c(2) by (simp add: x)
    ultimately show ?thesis using sf by auto
  qed
qed

lemma heap_root: "heap_except 0 n None ys \<Longrightarrow> k < n \<Longrightarrow> cmp (ys ! k) (ys ! 0) \<le> 0"
proof (induction k rule: less_induct)
  case (less k)
  show ?case
  proof (cases "k = 0")
    case False
    define p where "p = (k - 1) div 2"
    have "child p k" "p < k" using False by (auto simp: p_def child_def)
    then have "cmp (ys ! k) (ys ! p) \<le> 0" "cmp (ys ! p) (ys ! 0) \<le> 0"
      using less by (auto simp: heap_except_def)
    then show ?thesis by (rule transitive)
  qed simp
qed

lemma build_heap:
  assumes "m \<le> n div 2" and "n = length ys"
  shows "heap_except 0 n None (fold (sift cmp n) (rev [0..<n div 2]) ys)"
proof -
  have "heap_except j n None (fold (sift cmp n) (rev [j..<n div 2]) ys) \<and>
      length (fold (sift cmp n) (rev [j..<n div 2]) ys) = n" if "j \<le> n div 2" for j
    using that
  proof (induction "n div 2 - j" arbitrary: j)
    case 0
    then have "j = n div 2" by simp
    moreover have "\<not> c < n" if "n div 2 \<le> k" "child k c" for k c using that by (auto simp: child_def)
    ultimately show ?case using assms(2) by (auto simp: heap_except_def)
  next
    case (Suc d)
    let ?f = "\<lambda>j. fold (sift cmp n) (rev [j..<n div 2]) ys"
    have j: "j < n div 2" using Suc.hyps(2) by simp
    have ih: "heap_except (Suc j) n None (?f (Suc j)) \<and> length (?f (Suc j)) = n"
      using Suc.hyps(1) [of "Suc j"] Suc.hyps(2) by simp
    have f: "?f j = sift cmp n j (?f (Suc j))" using j by (simp add: upt_conv_Cons)
    have "heap_except j n (Some j) (?f (Suc j))"
      using ih by (auto simp: heap_except_def Suc_le_eq)
    moreover have "\<not> child k j" if "j \<le> k" for k using that by (auto simp: child_def)
    ultimately have "heap_except j n None (?f j)"
      unfolding f using ih by (intro sift_heap) auto
    moreover have "length (?f j) = n" unfolding f using ih mset_eq_length [OF mset_sift] by metis
    ultimately show ?case by simp
  qed
  from this [of 0] show ?thesis by simp
qed

text \<open>One round of the second phase: the greatest element goes behind the heap.\<close>

lemma extract_max:
  assumes h: "heap_except 0 (Suc j) None ys" and l: "j < length ys" "0 < j"
    and t: "\<forall>a b. a < b \<longrightarrow> Suc j \<le> b \<longrightarrow> b < length ys \<longrightarrow> cmp (ys ! a) (ys ! b) \<le> 0"
  defines "zs \<equiv> sift cmp j 0 (xchg 0 j ys)"
  shows "heap_except 0 j None zs" and "\<forall>a b. a < b \<longrightarrow> j \<le> b \<longrightarrow> b < length ys \<longrightarrow> cmp (zs ! a) (zs ! b) \<le> 0"
proof -
  let ?ys = "xchg 0 j ys"
  have x: "?ys ! k = ys ! (if k = 0 then j else if k = j then 0 else k)" for k
    using l by (intro xchg_at) auto
  have "heap_except 0 j (Some 0) ?ys"
    using h by (auto simp: heap_except_def x child_def)
  then show "heap_except 0 j None zs"
    unfolding zs_def using l by (intro sift_heap) (auto simp: child_def)
  have loc: "(\<forall>k. j \<le> k \<longrightarrow> zs ! k = ?ys ! k) \<and> (\<forall>k < j. \<exists>i < j. zs ! k = ?ys ! i)"
    unfolding zs_def using l by (intro sift_local) simp_all
  have low: "\<exists>i \<le> j. zs ! k = ys ! i" if "k \<le> j" for k
  proof (cases "k = j")
    case False
    then have "k < j" using that by simp
    then obtain i where "i < j" "zs ! k = ?ys ! i" using loc by blast
    then show ?thesis by (auto simp: x intro: exI [of _ j] exI [of _ i])
  qed (use loc l in \<open>auto simp: x\<close>)
  show "\<forall>a b. a < b \<longrightarrow> j \<le> b \<longrightarrow> b < length ys \<longrightarrow> cmp (zs ! a) (zs ! b) \<le> 0"
  proof (intro allI impI)
    fix a b
    assume ab: "a < b" "j \<le> b" "b < length ys"
    show "cmp (zs ! a) (zs ! b) \<le> 0"
    proof (cases "b = j")
      case True
      then obtain i where i: "i \<le> j" "zs ! a = ys ! i" using low [of a] ab by auto
      have "zs ! b = ys ! 0" using loc True l by (simp add: x)
      then show ?thesis using heap_root [OF h, of i] i by simp
    next
      case False
      then have b: "zs ! b = ys ! b" "Suc j \<le> b" using loc ab l by (auto simp: x)
      show ?thesis
      proof (cases "a \<le> j")
        case True
        then obtain i where i: "i \<le> j" "zs ! a = ys ! i" using low by blast
        then show ?thesis using t b ab(3) by auto
      next
        case False
        then have "zs ! a = ys ! a" using loc l by (auto simp: x)
        then show ?thesis using t b ab by auto
      qed
    qed
  qed
qed

lemma heapsort_sorts: "ordered (heapsortx cmp ys)"
proof (cases "length ys > 1")
  case False
  then show ?thesis by (simp add: heapsortx_def ordered_def)
next
  case True
  let ?n = "length ys"
  define h where "h = fold (sift cmp ?n) (rev [0..<?n div 2]) ys"
  let ?g = "\<lambda>i ys. sift cmp i 0 (xchg 0 i ys)"
  let ?f = "\<lambda>j. fold ?g (rev [j..<?n]) h"
  have hp: "heap_except 0 ?n None h" unfolding h_def by (rule build_heap [of 0]) simp_all
  have "mset h = mset ys" by (simp add: h_def mset_fold_keep)
  then have lh: "length h = ?n" by (rule mset_eq_length)
  have "heap_except 0 j None (?f j) \<and> length (?f j) = ?n \<and>
      (\<forall>a b. a < b \<longrightarrow> j \<le> b \<longrightarrow> b < ?n \<longrightarrow> cmp (?f j ! a) (?f j ! b) \<le> 0)" if "1 \<le> j" "j \<le> ?n" for j
    using that
  proof (induction "?n - j" arbitrary: j)
    case 0
    then show ?case using hp lh by simp
  next
    case (Suc d)
    have j: "j < ?n" using Suc.hyps(2) by simp
    have ih: "heap_except 0 (Suc j) None (?f (Suc j)) \<and> length (?f (Suc j)) = ?n \<and>
        (\<forall>a b. a < b \<longrightarrow> Suc j \<le> b \<longrightarrow> b < ?n \<longrightarrow> cmp (?f (Suc j) ! a) (?f (Suc j) ! b) \<le> 0)"
      using Suc.hyps(1) [of "Suc j"] Suc.hyps(2) j by simp
    have f: "?f j = ?g j (?f (Suc j))" using j by (simp add: upt_conv_Cons)
    have "length (?f j) = ?n" unfolding f using ih mset_eq_length [OF mset_sift] by (metis length_xchg)
    moreover have "heap_except 0 j None (?f j)"
      unfolding f using ih j Suc.prems(1) by (intro extract_max(1)) auto
    moreover have "\<forall>a b. a < b \<longrightarrow> j \<le> b \<longrightarrow> b < ?n \<longrightarrow> cmp (?f j ! a) (?f j ! b) \<le> 0"
      using extract_max(2) [of j "?f (Suc j)"] ih j Suc.prems(1) unfolding f by simp
    ultimately show ?case by blast
  qed
  from this [of 1] True have "length (?f 1) = ?n"
    "\<forall>a b. a < b \<longrightarrow> 1 \<le> b \<longrightarrow> b < ?n \<longrightarrow> cmp (?f 1 ! a) (?f 1 ! b) \<le> 0" by simp_all
  moreover have "heapsortx cmp ys = ?f 1" using True by (simp add: heapsortx_def Let_def h_def)
  ultimately show ?thesis by (auto simp: ordered_def)
qed

text \<open>
  The invariant of the main loop: two elements are in order unless both lie in one segment
  that is still to do; these segments do not overlap.
\<close>

definition away :: "nat \<times> nat \<times> nat \<Rightarrow> nat \<times> nat \<times> nat \<Rightarrow> bool" where
  "away = (\<lambda>(p, n, d) (p', n', d'). p + n \<le> p' \<or> p' + n' \<le> p)"

definition pairs_ok :: "'a list \<Rightarrow> (nat \<times> nat \<times> nat) list \<Rightarrow> bool" where
  "pairs_ok xs segs \<longleftrightarrow> (\<forall>i j. i < j \<longrightarrow> j < length xs \<longrightarrow>
     cmp (xs ! i) (xs ! j) \<le> 0 \<or> (\<exists>(p, n, d) \<in> set segs. p \<le> i \<and> j < p + n))"

lemma put_segment_nth:
  assumes "p + length ys \<le> length xs" and "k < length xs"
  shows "put_segment p ys xs ! k = (if p \<le> k \<and> k < p + length ys then ys ! (k - p) else xs ! k)"
proof (cases "k < p + length ys")
  case True
  then have "\<not> k < p \<Longrightarrow> k - p < length ys" by linarith
  with True assms show ?thesis by (simp add: put_segment_def nth_append min_absorb2)
next
  case False
  then have "\<not> k - p < length ys" "p + length ys + (k - p - length ys) = k" by linarith+
  with False assms show ?thesis by (simp add: put_segment_def nth_append min_absorb2)
qed

lemma pairs_ok_segment:
  assumes ok: "pairs_ok xs ((p, n, d) # segs)" and pn: "p + n \<le> length xs"
    and dis: "\<forall>s \<in> set segs. away (p, n, d) s" and ys: "mset ys = mset (segment p n xs)"
    and inner: "\<And>i j. i < j \<Longrightarrow> j < n \<Longrightarrow> cmp (ys ! i) (ys ! j) \<le> 0 \<or>
      (\<exists>(q, m, e) \<in> set new. q \<le> p + i \<and> p + j < q + m)"
  shows "pairs_ok (put_segment p ys xs) (new @ segs)"
proof -
  let ?zs = "put_segment p ys xs"
  have lys: "length ys = n" using mset_eq_length [OF ys] pn by (simp add: segment_def)
  have len: "length ?zs = length xs" using put_segment_mset [OF pn ys] by (rule mset_eq_length)
  have z: "?zs ! k = (if p \<le> k \<and> k < p + n then ys ! (k - p) else xs ! k)" if "k < length xs" for k
    using put_segment_nth [of p ys xs k] that pn lys by simp
  have from_xs: "\<exists>i'. p \<le> i' \<and> i' < p + n \<and> ?zs ! i = xs ! i'" if "p \<le> i" "i < p + n" for i
  proof -
    have "ys ! (i - p) \<in> set ys" using that lys by simp
    then have "ys ! (i - p) \<in> set (segment p n xs)" using ys by (metis set_mset_mset)
    then obtain m where "m < n" "ys ! (i - p) = xs ! (p + m)" using pn by (auto simp: in_set_conv_nth segment_def)
    then show ?thesis using z [of i] that pn by (intro exI [of _ "p + m"]) simp
  qed
  have apart: "cmp (xs ! i) (xs ! j) \<le> 0 \<or> (\<exists>(q, m, e) \<in> set segs. q \<le> i \<and> j < q + m)"
    if "i < j" "j < length xs" "\<not> (p \<le> i \<and> j < p + n)" for i j
    using ok that by (auto simp: pairs_ok_def)
  have crossing: "cmp (xs ! i) (xs ! j) \<le> 0"
    if "i < j" "j < length xs" "p \<le> i \<and> i < p + n \<longleftrightarrow> \<not> (p \<le> j \<and> j < p + n)" for i j
  proof -
    have "\<not> (q \<le> i \<and> j < q + m)" if "(q, m, e) \<in> set segs" for q m e
      using dis that \<open>i < j\<close> \<open>p \<le> i \<and> i < p + n \<longleftrightarrow> \<not> (p \<le> j \<and> j < p + n)\<close> by (force simp: away_def)
    moreover have "\<not> (p \<le> i \<and> j < p + n)" using that by linarith
    ultimately show ?thesis using apart [OF that(1,2)] by fast
  qed
  show ?thesis unfolding pairs_ok_def len
  proof (intro allI impI)
    fix i j
    assume ij: "i < j" "j < length xs"
    let ?in = "\<lambda>k. p \<le> k \<and> k < p + n"
    consider "?in i" "?in j" | "?in i" "\<not> ?in j" | "\<not> ?in i" "?in j" | "\<not> ?in i" "\<not> ?in j" by blast
    then show "cmp (?zs ! i) (?zs ! j) \<le> 0 \<or> (\<exists>(q, m, e) \<in> set (new @ segs). q \<le> i \<and> j < q + m)"
    proof cases
      case 1
      then have "i - p < j - p" "j - p < n" using ij by linarith+
      from inner [OF this] 1 z [of i] z [of j] ij show ?thesis by auto
    next
      case 2
      then obtain i' where i': "?in i'" "?zs ! i = xs ! i'" using from_xs by blast
      have "i' < j" using 2 i' ij by auto
      with crossing [of i' j] i' 2 ij z [of j] show ?thesis by auto
    next
      case 3
      then obtain j' where j': "?in j'" "?zs ! j = xs ! j'" using from_xs by blast
      have "i < j'" "j' < length xs" using 3 j' ij pn by auto
      with crossing [of i j'] j' 3 ij z [of i] show ?thesis by auto
    next
      case 4
      then show ?thesis using apart [OF ij] z [of i] z [of j] ij by auto
    qed
  qed
qed

lemma loop_sorts:
  assumes "rqsort_loop fuel cmp xs (p, n, d) stack = Some zs" and "pairs_ok xs ((p, n, d) # stack)"
    and "in_bounds (length xs) ((p, n, d) # stack)" and "sorted_wrt away ((p, n, d) # stack)"
  shows "ordered zs"
  using assms
proof (induction fuel arbitrary: xs p n d stack)
  case 0
  then show ?case by simp
next
  case (Suc fuel)
  have pn: "p + n \<le> length xs" using Suc.prems(3) by (simp add: in_bounds_def)
  have dis: "\<forall>s \<in> set stack. away (p, n, d) s" using Suc.prems(4) by simp
  have lseg: "length (segment p n xs) = n" using pn by (simp add: segment_def)
  show ?case
  proof (cases "n > 6 \<and> d + 1 \<le> 50")
    case True
    obtain ys lt gt where pt: "partition3 cmp (segment p n xs) = (ys, lt, gt)" by (rule prod_cases3)
    have pk: "mset ys = mset (segment p n xs)" "lt < gt" "gt \<le> n"
      using partition3_keeps [OF pt] True lseg by auto
    obtain v where v: "\<forall>k < lt. cmp v (ys ! k) > 0" "\<forall>k. lt \<le> k \<longrightarrow> k < gt \<longrightarrow> cmp v (ys ! k) = 0"
        "\<forall>k. gt \<le> k \<longrightarrow> k < n \<longrightarrow> cmp v (ys ! k) < 0"
      using partition3_classed [OF pt] True lseg by auto
    have below: "cmp (ys ! k) v \<le> 0" if "k < gt" for k
      using v(1,2) that cmp_greater [of v "ys ! k"] cmp_zero [of v "ys ! k"] by (cases "k < lt") auto
    have above: "cmp v (ys ! k) \<le> 0" if "lt \<le> k" "k < n" for k
      using v(2,3) that by (cases "k < gt") (auto simp: not_less)
    let ?a = "(p, lt, d + 1)" and ?b = "(p + gt, n - gt, d + 1)"
    have inner: "cmp (ys ! i) (ys ! j) \<le> 0 \<or> (\<exists>(q, m, e) \<in> set [?b, ?a]. q \<le> p + i \<and> p + j < q + m)"
      if "i < j" "j < n" for i j
    proof -
      consider "j < lt" | "gt \<le> i" | "lt \<le> j" "i < gt" by linarith
      then show ?thesis
      proof cases
        case 3
        then show ?thesis using transitive [OF below above] that by blast
      qed (use that pk in auto)
    qed
    let ?xs = "put_segment p ys xs"
    have m: "mset ?xs = mset xs" using put_segment_mset [OF pn pk(1)] .
    have ok: "pairs_ok ?xs (?b # ?a # stack)"
      using pairs_ok_segment [OF Suc.prems(2) pn dis pk(1) inner] by simp
    then have ok': "pairs_ok ?xs (?a # ?b # stack)" unfolding pairs_ok_def by auto
    have bd: "in_bounds (length ?xs) (?b # ?a # stack)" "in_bounds (length ?xs) (?a # ?b # stack)"
      using Suc.prems(3) pk(2,3) mset_eq_length [OF m] by (auto simp: in_bounds_def)
    have "\<forall>s \<in> set stack. away ?a s \<and> away ?b s"
      using dis pk(2,3) by (fastforce simp: away_def)
    then have aw: "sorted_wrt away (?b # ?a # stack)" "sorted_wrt away (?a # ?b # stack)"
      using Suc.prems(4) pk(2,3) by (auto simp: away_def)
    show ?thesis
      using Suc.prems(1) True pt Suc.IH [OF _ ok bd(1) aw(1)] Suc.IH [OF _ ok' bd(2) aw(2)]
      by (auto simp: Let_def split: if_splits)
  next
    case False
    define ys where "ys = (if n > 6 then heapsortx cmp else insertion_sort cmp) (segment p n xs)"
    have ms: "mset ys = mset (segment p n xs)" by (simp add: ys_def)
    have "length ys = n" using mset_eq_length [OF ms] lseg by simp
    moreover have "ordered ys" by (simp add: ys_def heapsort_sorts insertion_sorts)
    ultimately have ok: "pairs_ok (put_segment p ys xs) ([] @ stack)"
      by (intro pairs_ok_segment [OF Suc.prems(2) pn dis ms]) (auto simp: ordered_def)
    have len: "length (put_segment p ys xs) = length xs" using put_segment_mset [OF pn ms] by (rule mset_eq_length)
    have e: "rqsort_loop (Suc fuel) cmp xs (p, n, d) stack =
        (case stack of [] \<Rightarrow> Some (put_segment p ys xs) | s # st \<Rightarrow> rqsort_loop fuel cmp (put_segment p ys xs) s st)"
      using False by (auto simp: ys_def Let_def split: list.split)
    show ?thesis
    proof (cases stack)
      case Nil
      with e Suc.prems(1) ok show ?thesis by (simp add: pairs_ok_def ordered_def)
    next
      case (Cons s st)
      obtain p' n' d' where s: "s = (p', n', d')" by (rule prod_cases3)
      have "in_bounds (length (put_segment p ys xs)) ((p', n', d') # st)"
        using Suc.prems(3) Cons s len by (simp add: in_bounds_def)
      with Suc.IH [of "put_segment p ys xs" p' n' d' st] Suc.prems(1,4) e Cons s ok show ?thesis by simp
    qed
  qed
qed

lemma rqsort_sorts: "rqsort cmp xs = Some zs \<Longrightarrow> ordered zs"
proof (cases "length xs < 2")
  case False
  assume r: "rqsort cmp xs = Some zs"
  show ?thesis
    by (rule loop_sorts [of "2 * length xs + 1" xs 0 "length xs" 0 "[]"])
      (use r False in \<open>auto simp: rqsort_def pairs_ok_def in_bounds_def\<close>)
qed (auto simp: rqsort_def ordered_def)

end

subsection \<open>Properties\<close>

lemma rqsort_returns: "\<exists>zs. rqsort cmp xs = Some zs \<and> mset zs = mset xs"
  using loop_returns [of 0 "length xs" 0 "[]" "2 * length xs + 1" xs cmp]
  by (simp add: rqsort_def work_def in_bounds_def)

text \<open>
  C13. Sorting always ends well. For every comparison function whatever, also an inconsistent
  one, the sort returns, its stack of 50 segments is never exceeded, and the array holds the
  same elements as before.
\<close>

theorem rqsort_permutes:
  "\<exists>zs. rqsort cmp xs = Some zs \<and> mset zs = mset xs"
  by (rule rqsort_returns)

text \<open>
  C12. Sorting sorts. For every consistent comparison function (the sign changes with the order
  of the arguments, and not-greater is transitive) the sort returns the same elements in
  ascending order, through the three-way partition, the heap sort and the insertion sort alike.
\<close>

theorem rqsort_sorted:
  assumes "\<And>x y. cmp x y < 0 \<longleftrightarrow> cmp y x > 0" and "\<And>x y z. cmp x y \<le> 0 \<Longrightarrow> cmp y z \<le> 0 \<Longrightarrow> cmp x z \<le> 0"
  shows "\<exists>zs. rqsort cmp xs = Some zs \<and> mset zs = mset xs \<and> sorted_wrt (\<lambda>a b. cmp a b \<le> 0) zs"
proof -
  have c: "comparator cmp" by unfold_locales (fact assms)+
  obtain zs where z: "rqsort cmp xs = Some zs" "mset zs = mset xs" using rqsort_returns [of cmp xs] by blast
  with comparator.rqsort_sorts [OF c z(1)] show ?thesis
    by (auto simp: comparator.ordered_def [OF c] sorted_wrt_iff_nth_less)
qed

theorem rqsort_sorted_witness:
  "\<exists>zs. rqsort (\<lambda>x y. x - y :: int) [3, 1, 2, 9, 7, 8, 5] = Some zs \<and> sorted_wrt (\<lambda>a b. a - b \<le> 0) zs"
  using rqsort_sorted [of "\<lambda>x y. x - y :: int" "[3, 1, 2, 9, 7, 8, 5]"] by fastforce

end
