(* ===== verification/Limbs.thy ===== *)
theory Limbs
  imports Prelude
begin

text \<open>
  The multi-precision layer of \<^verbatim>\<open>dtoa.c\<close>. A number \<^verbatim>\<open>mpb_t\<close> is the list of its limbs in use,
  least significant first; the length of the list is the field \<^verbatim>\<open>len\<close>. Limbs are 32-bit words
  and double limbs 64-bit words, with the wrap-around of the C code; the functions that work in
  place return the new limbs. The value of a number is \<open>limbs_val\<close>, and each routine is shown to
  compute what its comment says on values.
\<close>

type_synonym limb = u32
type_synonym dlimb = u64
type_synonym mpb = "limb list"

subsection \<open>Counting zero bits\<close>

fun bit_len :: "nat \<Rightarrow> nat" where
  "bit_len n = (if n = 0 then 0 else Suc (bit_len (n div 2)))"

declare bit_len.simps [simp del]

definition clz32 :: "u32 \<Rightarrow> nat" where
  "clz32 a = 32 - bit_len (unat a)"

definition clz64 :: "u64 \<Rightarrow> nat" where
  "clz64 a = 64 - bit_len (unat a)"

fun trailing_zeros :: "nat \<Rightarrow> nat" where
  "trailing_zeros n = (if n = 0 \<or> odd n then 0 else Suc (trailing_zeros (n div 2)))"

declare trailing_zeros.simps [simp del]

definition ctz32 :: "u32 \<Rightarrow> nat" where
  "ctz32 a = trailing_zeros (unat a)"

subsection \<open>Addition, multiplication, division by one limb\<close>

text \<open>\<^verbatim>\<open>mp_add_ui\<close>: the limbs and the carry.\<close>

fun mp_add_ui :: "limb list \<Rightarrow> limb \<Rightarrow> limb list \<times> limb" where
  "mp_add_ui [] k = ([], k)"
| "mp_add_ui (x # tab) k =
     (if k = 0 then (x # tab, k)
      else let a = x + k;
               k = (if a < k then 1 else 0);
               (tab, k) = mp_add_ui tab k
           in (a # tab, k))"

fun mp_mul1 :: "limb list \<Rightarrow> limb \<Rightarrow> limb \<Rightarrow> limb list \<times> limb" where
  "mp_mul1 [] b l = ([], l)"
| "mp_mul1 (x # taba) b l =
     (let t = ucast x * ucast b + ucast l :: dlimb;
          (tabr, l) = mp_mul1 taba b (ucast (drop_bit 32 t))
      in (ucast t # tabr, l))"

text \<open>Two limbs as a double limb.\<close>

abbreviation dlimb_of :: "limb \<Rightarrow> limb \<Rightarrow> dlimb" where
  "dlimb_of a1 a0 \<equiv> push_bit 32 (ucast a1) OR ucast a0"

definition udiv1norm_init :: "limb \<Rightarrow> limb" where
  "udiv1norm_init d = (let a1 = - d - 1; a0 = - 1 in ucast (dlimb_of a1 a0 div ucast d))"

text \<open>Quotient and remainder of a double limb by a normalised limb, with the precomputed inverse.\<close>

definition udiv1norm :: "limb \<Rightarrow> limb \<Rightarrow> limb \<Rightarrow> limb \<Rightarrow> limb \<times> limb" where
  "udiv1norm a1 a0 d d_inv =
     (let n1m = signed_drop_bit 31 a0;
          n_adj = a0 + (n1m AND d);
          a = ucast d_inv * ucast (a1 - n1m) + ucast n_adj :: dlimb;
          q = ucast (drop_bit 32 a) + a1;
          a = dlimb_of a1 a0;
          a = a - ucast q * ucast d - ucast d;
          ah = ucast (drop_bit 32 a) :: limb;
          q = q + (1 + ah);
          r = ucast a + (ah AND d)
      in (q, r))"

text \<open>The loops that run from the most significant limb down.\<close>

fun mp_div1 :: "limb list \<Rightarrow> limb \<Rightarrow> limb \<Rightarrow> limb list \<times> limb" where
  "mp_div1 [] b r = ([], r)"
| "mp_div1 (x # taba) b r =
     (let (tabr, r) = mp_div1 taba b r;
          a1 = dlimb_of r x
      in (ucast (a1 div ucast b) # tabr, ucast (a1 mod ucast b)))"

fun mp_shr_loop :: "limb list \<Rightarrow> nat \<Rightarrow> limb \<Rightarrow> limb list \<times> limb" where
  "mp_shr_loop [] shift l = ([], l)"
| "mp_shr_loop (a # tab) shift l =
     (let (tab_r, l) = mp_shr_loop tab shift l
      in ((drop_bit shift a OR push_bit (32 - shift) l) # tab_r, a))"

definition mp_shr :: "limb list \<Rightarrow> nat \<Rightarrow> limb \<Rightarrow> limb list \<times> limb" where
  "mp_shr tab shift high =
     (let (tab_r, l) = mp_shr_loop tab shift high in (tab_r, l AND (push_bit shift 1 - 1)))"

fun mp_shl :: "limb list \<Rightarrow> nat \<Rightarrow> limb \<Rightarrow> limb list \<times> limb" where
  "mp_shl [] shift l = ([], l)"
| "mp_shl (a # tab) shift l =
     (let (tab_r, l') = mp_shl tab shift (drop_bit (32 - shift) a)
      in ((push_bit shift a OR l) # tab_r, l'))"

text \<open>
  \<^verbatim>\<open>mp_div1norm\<close> as its callers use it, with the result in the place of the argument: the loop
  reads back the shifted limbs.
\<close>

fun div1norm_loop :: "limb list \<Rightarrow> limb \<Rightarrow> limb \<Rightarrow> limb \<Rightarrow> limb list \<times> limb" where
  "div1norm_loop [] b r b_inv = ([], r)"
| "div1norm_loop (x # tab) b r b_inv =
     (let (tab, r) = div1norm_loop tab b r b_inv;
          (q, r) = udiv1norm r x b b_inv
      in (q # tab, r))"

definition mp_div1norm :: "limb list \<Rightarrow> limb \<Rightarrow> limb \<Rightarrow> limb \<Rightarrow> nat \<Rightarrow> limb list \<times> limb" where
  "mp_div1norm tab b r b_inv shift =
     (let (tab, r) = (if shift \<noteq> 0
                      then let (tab, h) = mp_shl tab shift 0 in (tab, push_bit shift r OR h)
                      else (tab, r));
          (tab, r) = div1norm_loop tab b r b_inv
      in (tab, drop_bit shift r))"

subsection \<open>Powers\<close>

definition pow5_table :: "u32 list" where
  "pow5_table = [
     0x00000005, 0x00000019, 0x0000007d, 0x00000271,
     0x00000c35, 0x00003d09, 0x0001312d, 0x0005f5e1,
     0x001dcd65, 0x009502f9, 0x02e90edd, 0x0e8d4a51,
     0x48c27395, 0x6bcc41e9, 0x1afd498d, 0x86f26fc1,
     0xa2bc2ec5]"

definition pow5h_table :: "u8 list" where
  "pow5h_table = [0x01, 0x07, 0x23, 0xb1]"

definition pow5_inv_table :: "u32 list" where
  "pow5_inv_table = [
     0x99999999, 0x47ae147a, 0x0624dd2f, 0xa36e2eb1,
     0x4f8b588e, 0x0c6f7a0b, 0xad7f29ab, 0x5798ee23,
     0x12e0be82, 0xb7cdfd9d, 0x5fd7fe17, 0x19799812,
     0xc25c2684]"

text \<open>The loop of square and multiply over the \<open>i\<close> lowest bits of the exponent, from the highest of them.\<close>

primrec pow_ui_loop :: "u32 \<Rightarrow> u32 \<Rightarrow> nat \<Rightarrow> u64 \<Rightarrow> u64" where
  "pow_ui_loop a b 0 r = r"
| "pow_ui_loop a b (Suc i) r =
     (let r = r * r; r = (if drop_bit i b AND 1 \<noteq> 0 then r * ucast a else r) in pow_ui_loop a b i r)"

definition pow_ui :: "u32 \<Rightarrow> u32 \<Rightarrow> u64" where
  "pow_ui a b =
     (if b = 0 then 1
      else if b = 1 then ucast a
      else if (a = 5 \<or> a = 10) \<and> b \<le> 17 then
        let r = ucast (pow5_table ! (unat b - 1));
            r = (if b \<ge> 14 then r OR push_bit 32 (ucast (pow5h_table ! (unat b - 14))) else r)
        in if a = 10 then push_bit (unat b) r else r
      else let n_bits = 32 - clz32 b in pow_ui_loop a b (n_bits - 1) (ucast a))"

text \<open>The power in normalised form, its inverse and the shift.\<close>

definition pow_ui_inv :: "u32 \<Rightarrow> u32 \<Rightarrow> u32 \<times> u32 \<times> nat" where
  "pow_ui_inv a b =
     (if a = 5 \<and> b \<ge> 1 \<and> b \<le> 13 then
        let r = pow5_table ! (unat b - 1); shift = clz32 r
        in (push_bit shift r, pow5_inv_table ! (unat b - 1), shift)
      else
        let r = ucast (pow_ui a b); shift = clz32 r; r = push_bit shift r
        in (r, udiv1norm_init r, shift))"

subsection \<open>Whole numbers\<close>

fun mpb_renorm :: "mpb \<Rightarrow> mpb" where
  "mpb_renorm r = (if length r > 1 \<and> last r = 0 then mpb_renorm (butlast r) else r)"

declare mpb_renorm.simps [simp del]

definition mpb_get_bit :: "mpb \<Rightarrow> nat \<Rightarrow> limb" where
  "mpb_get_bit r k =
     (let l = k div 32; k = k mod 32 in
      if l \<ge> length r then 0 else drop_bit k (r ! l) AND 1)"

datatype rnd_mode = JS_RNDN | JS_RNDNA | JS_RNDZ

text \<open>Whether a right shift by \<open>shift\<close> bits rounds up: the switch on the rounding mode.\<close>

definition sticky_bits :: "mpb \<Rightarrow> nat \<Rightarrow> limb" where
  "sticky_bits r shift =
     (if shift \<ge> 2 then
        let k = shift - 1; l = k div 32; k = k mod 32;
            bit2 = fold (\<lambda>x b. b OR x) (take (min l (length r)) r) 0
        in if l < length r then bit2 OR (r ! l AND (push_bit k 1 - 1)) else bit2
      else 0)"

definition round_add_one :: "mpb \<Rightarrow> nat \<Rightarrow> rnd_mode \<Rightarrow> limb" where
  "round_add_one r shift rnd_mode =
     (case rnd_mode of JS_RNDZ \<Rightarrow> 0
      | _ \<Rightarrow>
        if mpb_get_bit r (shift - 1) \<noteq> 0 then
          let bit2 = (if rnd_mode = JS_RNDNA then 1 else sticky_bits r shift)
          in if bit2 \<noteq> 0 then 1 else mpb_get_bit r shift
        else 0)"

definition mpb_shr_round :: "mpb \<Rightarrow> int \<Rightarrow> rnd_mode \<Rightarrow> mpb" where
  "mpb_shr_round r shift rnd_mode =
     (if shift = 0 then r
      else if shift < 0 then
        let shift = nat (- shift); l = shift div 32; shift = shift mod 32;
            r = (if shift \<noteq> 0
                 then let (tab, h) = mp_shl r shift 0 in mpb_renorm (tab @ [h])
                 else r)
        in if l > 0 then replicate l 0 @ r else r
      else
        let add_one = round_add_one r (nat shift) rnd_mode;
            l = nat shift div 32; shift = nat shift mod 32
        in if l \<ge> length r then [add_one]
           else
             let r = (if l > 0 then drop l r else r);
                 r = (if shift \<noteq> 0 then mpb_renorm (fst (mp_shr r shift 0)) else r)
             in if add_one \<noteq> 0
                then let (tab, a) = mp_add_ui r 1 in if a \<noteq> 0 then tab @ [a] else tab
                else r)"

fun cmp_from_top :: "limb list \<Rightarrow> limb list \<Rightarrow> int" where
  "cmp_from_top (x # xs) (y # ys) =
     (if x \<noteq> y then (if x < y then -1 else 1) else cmp_from_top xs ys)"
| "cmp_from_top _ _ = 0"

definition mpb_cmp :: "mpb \<Rightarrow> mpb \<Rightarrow> int" where
  "mpb_cmp a b =
     (if length a < length b then -1
      else if length a > length b then 1
      else cmp_from_top (rev a) (rev b))"

definition mpb_set_u64 :: "u64 \<Rightarrow> mpb" where
  "mpb_set_u64 m =
     (let t0 = ucast m; t1 = ucast (drop_bit 32 m) in if t1 = 0 then [t0] else [t0, t1])"

definition mpb_get_u64 :: "mpb \<Rightarrow> u64" where
  "mpb_get_u64 r =
     (if length r = 1 then ucast (r ! 0) else ucast (r ! 0) OR push_bit 32 (ucast (r ! 1)))"

definition mpb_floor_log2 :: "mpb \<Rightarrow> int" where
  "mpb_floor_log2 a =
     (let v = last a in if v = 0 then -1 else int (length a) * 32 - 1 - int (clz32 v))"

subsection \<open>The value of a number\<close>

primrec limbs_val :: "limb list \<Rightarrow> nat" where
  "limbs_val [] = 0"
| "limbs_val (x # xs) = unat x + 2 ^ 32 * limbs_val xs"

definition mpb_ok :: "mpb \<Rightarrow> bool" where
  "mpb_ok r \<longleftrightarrow> r \<noteq> [] \<and> (length r > 1 \<longrightarrow> last r \<noteq> 0)"

lemma limbs_val_append: "limbs_val (xs @ ys) = limbs_val xs + 2 ^ (32 * length xs) * limbs_val ys"
  by (induction xs) (simp_all add: algebra_simps power_add)

lemma limbs_val_zeros [simp]: "limbs_val (replicate n 0) = 0"
  by (induction n) simp_all

lemma limb_bound: "unat (x :: limb) < 2 ^ 32"
  using unat_bound [of x] by simp

lemma limbs_val_bound: "limbs_val xs < 2 ^ (32 * length xs)"
proof (induction xs)
  case (Cons x xs)
  have "unat x + 2 ^ 32 * limbs_val xs < 2 ^ 32 * (limbs_val xs + 1)"
    using limb_bound [of x] by simp
  also have "\<dots> \<le> 2 ^ 32 * 2 ^ (32 * length xs)"
    using Cons by (intro mult_le_mono2) simp
  finally show ?case by (simp add: power_add)
qed simp

lemma limbs_val_drop: "limbs_val (drop l r) = limbs_val r div 2 ^ (32 * l)"
proof (cases "l \<le> length r")
  case True
  have "limbs_val r = limbs_val (take l r) + 2 ^ (32 * l) * limbs_val (drop l r)"
    using limbs_val_append [of "take l r" "drop l r"] True by simp
  moreover have "limbs_val (take l r) < 2 ^ (32 * l)"
    using limbs_val_bound [of "take l r"] True by simp
  ultimately show ?thesis by simp
next
  case False
  have "limbs_val r < 2 ^ (32 * length r)" by (rule limbs_val_bound)
  also have "\<dots> \<le> 2 ^ (32 * l)" using False by simp
  finally show ?thesis using False by simp
qed

lemma limbs_val_take: "limbs_val (take l r) = limbs_val r mod 2 ^ (32 * l)"
proof (cases "l \<le> length r")
  case True
  have "limbs_val r = limbs_val (take l r) + 2 ^ (32 * l) * limbs_val (drop l r)"
    using limbs_val_append [of "take l r" "drop l r"] True by simp
  moreover have "limbs_val (take l r) < 2 ^ (32 * l)"
    using limbs_val_bound [of "take l r"] True by simp
  ultimately show ?thesis by simp
next
  case False
  have "limbs_val r < 2 ^ (32 * length r)" by (rule limbs_val_bound)
  also have "\<dots> \<le> 2 ^ (32 * l)" using False by simp
  finally show ?thesis using False by simp
qed

lemma limbs_val_nth: "l < length r \<Longrightarrow> unat (r ! l) = limbs_val r div 2 ^ (32 * l) mod 2 ^ 32"
proof -
  assume l: "l < length r"
  have "limbs_val (drop l r) = unat (r ! l) + 2 ^ 32 * limbs_val (drop (Suc l) r)"
    using Cons_nth_drop_Suc [OF l] by (metis limbs_val.simps(2))
  with limb_bound [of "r ! l"] have "limbs_val (drop l r) mod 2 ^ 32 = unat (r ! l)" by simp
  then show ?thesis by (simp add: limbs_val_drop)
qed

lemma limbs_val_eq_0: "limbs_val xs = 0 \<longleftrightarrow> (\<forall>x \<in> set xs. x = 0)"
  by (induction xs) (auto simp: unat_eq_0)

subsection \<open>Double limbs\<close>

lemma unat_ucast_limb: "unat (ucast (t :: dlimb) :: limb) = unat t mod 2 ^ 32"
  by (simp add: unsigned_ucast_eq take_bit_eq_mod [where ?'a = nat])

lemma unat_ucast_dlimb [simp]: "unat (ucast (x :: limb) :: dlimb) = unat x"
  using limb_bound [of x] by (simp add: unsigned_ucast_eq take_bit_nat_eq_self)

lemma unat_high_limb: "unat (ucast (drop_bit 32 (t :: dlimb)) :: limb) = unat t div 2 ^ 32"
proof -
  have "unat t < 2 ^ 64" using unat_bound [of t] by simp
  then have "unat t div 2 ^ 32 < 2 ^ 32" by (simp add: less_mult_imp_div_less)
  then show ?thesis unfolding unat_ucast_limb unat_drop by simp
qed

lemma limb_mul_bound:
  assumes "a < 2 ^ 32" "b < 2 ^ 32" "c < 2 ^ 32" "d < (2 :: nat) ^ 32"
  shows "a * b + c + d < 2 ^ 64"
proof -
  have "a * b \<le> (2 ^ 32 - 1) * (2 ^ 32 - 1)"
    using assms by (intro mult_le_mono) simp_all
  moreover have "(2 ^ 32 - 1) * (2 ^ 32 - 1) + (2 ^ 32 - 1) + (2 ^ 32 - 1) < (2 :: nat) ^ 64" by simp
  ultimately show ?thesis using assms by linarith
qed

lemma unat_muladd: "unat (ucast (x :: limb) * ucast (b :: limb) + ucast (l :: limb) :: dlimb) = unat x * unat b + unat l"
  using limb_mul_bound [OF limb_bound limb_bound limb_bound, of 0 x b l]
  by (simp add: unat_word_ariths)

lemma unat_dlimb: "unat (dlimb_of r x) = unat r * 2 ^ 32 + unat x"
proof -
  have p: "unat (push_bit 32 (ucast r) :: dlimb) = unat r * 2 ^ 32"
    using limb_bound [of r] by (simp add: push_bit_eq_mult unat_word_ariths)
  have "(ucast x :: dlimb) OR push_bit 32 (ucast r) = ucast x + push_bit 32 (ucast r)"
    using limb_bound [of x] by (intro or_high [where k = 32]) (simp_all add: take_bit_push_bit)
  moreover have "unat (ucast x + push_bit 32 (ucast r) :: dlimb) = unat x + unat r * 2 ^ 32"
    using limb_bound [of x] limb_bound [of r] p by (subst unat_small_add) simp_all
  ultimately show ?thesis by (simp add: or.commute)
qed

subsection \<open>The routines on values\<close>

lemma mp_add_ui_val:
  "mp_add_ui tab k = (tab', k') \<Longrightarrow>
     length tab' = length tab \<and> limbs_val tab' + 2 ^ (32 * length tab) * unat k' = limbs_val tab + unat k"
proof (induction tab k arbitrary: tab' k' rule: mp_add_ui.induct)
  case (2 x tab k)
  show ?case
  proof (cases "k = 0")
    case True
    with 2(2) show ?thesis by auto
  next
    case False
    define c :: limb where "c = (if x + k < k then 1 else 0)"
    obtain t where t: "mp_add_ui tab c = (t, k')" "tab' = (x + k) # t"
      using 2(2) False by (auto simp: Let_def c_def split: prod.splits)
    have "unat (x + k) + 2 ^ 32 * unat c = unat x + unat k"
    proof (cases "unat x + unat k < 2 ^ 32")
      case True
      then have "unat (x + k) = unat x + unat k" by (subst unat_small_add) simp_all
      then show ?thesis by (simp add: c_def word_less_nat_alt)
    next
      case F: False
      have "unat (x + k) = (unat x + unat k) mod 2 ^ 32" by (simp add: unat_word_ariths)
      also have "\<dots> = (unat x + unat k - 2 ^ 32) mod 2 ^ 32" using F by (intro le_mod_geq) linarith
      also have "\<dots> = unat x + unat k - 2 ^ 32"
        using F limb_bound [of x] limb_bound [of k] by (intro mod_less) linarith
      finally have "unat (x + k) + 2 ^ 32 = unat x + unat k" using F by linarith
      then show ?thesis using limb_bound [of x] by (simp add: c_def word_less_nat_alt)
    qed
    with 2(1) [OF False refl c_def t(1)] t(2) show ?thesis
      by (simp add: algebra_simps power_add)
  qed
qed simp

lemma mp_mul1_val:
  "mp_mul1 tab b l = (tab', l') \<Longrightarrow>
     length tab' = length tab \<and>
     limbs_val tab' + 2 ^ (32 * length tab) * unat l' = limbs_val tab * unat b + unat l"
proof (induction tab b l arbitrary: tab' l' rule: mp_mul1.induct)
  case (2 x tab b l)
  define t :: dlimb where "t = ucast x * ucast b + ucast l"
  obtain ts where ts: "mp_mul1 tab b (ucast (drop_bit 32 t)) = (ts, l')" "tab' = ucast t # ts"
    using 2(2) by (auto simp: Let_def t_def split: prod.splits)
  have t: "unat t = unat x * unat b + unat l" unfolding t_def by (rule unat_muladd)
  have "limbs_val ts + 2 ^ (32 * length tab) * unat l' = limbs_val tab * unat b + unat t div 2 ^ 32"
    and l: "length ts = length tab"
    using 2(1) [OF t_def ts(1)] by (simp_all add: unat_high_limb)
  from arg_cong [OF this(1), of "\<lambda>n. 2 ^ 32 * n"]
  have "2 ^ 32 * limbs_val ts + 2 ^ 32 * 2 ^ (32 * length tab) * unat l' =
      2 ^ 32 * (limbs_val tab * unat b) + 2 ^ 32 * (unat t div 2 ^ 32)"
    unfolding distrib_left mult.assoc .
  moreover have "unat t mod 2 ^ 32 + 2 ^ 32 * (unat t div 2 ^ 32) = unat t" by simp
  ultimately have "unat t mod 2 ^ 32 + 2 ^ 32 * limbs_val ts + 2 ^ 32 * 2 ^ (32 * length tab) * unat l' =
      2 ^ 32 * (limbs_val tab * unat b) + unat t" by linarith
  then show ?case
    using t ts(2) l by (simp add: unat_ucast_limb power_add distrib_right)
qed simp

lemma mp_div1_val:
  assumes "mp_div1 tab b r = (tab', r')" and "unat r < unat b"
  shows "length tab' = length tab \<and> unat r' < unat b \<and>
    limbs_val tab + 2 ^ (32 * length tab) * unat r = limbs_val tab' * unat b + unat r'"
  using assms
proof (induction tab b r arbitrary: tab' r' rule: mp_div1.induct)
  case (2 x tab b r)
  obtain ts r1 where ts: "mp_div1 tab b r = (ts, r1)" by (cases "mp_div1 tab b r")
  define a1 where "a1 = dlimb_of r1 x"
  have res: "tab' = ucast (a1 div ucast b) # ts" "r' = ucast (a1 mod ucast b)"
    using 2(2) ts by (simp_all add: a1_def Let_def)
  have ih: "length ts = length tab" "unat r1 < unat b"
    "limbs_val tab + 2 ^ (32 * length tab) * unat r = limbs_val ts * unat b + unat r1"
    using 2(1) [OF ts 2(3)] by simp_all
  have a1: "unat a1 = unat r1 * 2 ^ 32 + unat x" unfolding a1_def by (rule unat_dlimb)
  have "unat r1 * 2 ^ 32 + unat x < (unat r1 + 1) * 2 ^ 32" using limb_bound [of x] by simp
  also have "\<dots> \<le> unat b * 2 ^ 32" using ih(2) by (intro mult_le_mono1) simp
  finally have "unat a1 div unat b < 2 ^ 32" using a1 by (simp add: less_mult_imp_div_less mult.commute)
  then have q: "unat (ucast (a1 div ucast b) :: limb) = unat a1 div unat b"
    by (simp add: unat_ucast_limb unat_div_distrib)
  have m: "unat a1 mod unat b < unat b" using ih(2) by simp
  then have "unat a1 mod unat b < 2 ^ 32" using limb_bound [of b] by linarith
  then have r: "unat r' = unat a1 mod unat b"
    by (simp add: res unat_ucast_limb unat_mod_distrib)
  have "unat x + 2 ^ 32 * limbs_val tab + 2 ^ (32 * Suc (length tab)) * unat r =
      unat x + 2 ^ 32 * (limbs_val ts * unat b + unat r1)"
    unfolding ih(3) [symmetric] by (simp add: power_add algebra_simps)
  also have "\<dots> = 2 ^ 32 * (limbs_val ts * unat b) + unat a1" by (simp add: a1)
  also have "unat a1 = (unat a1 div unat b) * unat b + unat a1 mod unat b" by simp
  finally show ?case using q r m ih(1) res(1) by (simp add: algebra_simps)
qed simp

lemma unat_push: "unat (push_bit k (a :: 'a :: len word)) = unat a * 2 ^ k mod 2 ^ LENGTH('a)"
  by (simp add: unsigned_push_bit_eq push_bit_eq_mult [where ?'a = nat] take_bit_eq_mod [where ?'a = nat])

lemma mult_pow_mod: "s \<le> 32 \<Longrightarrow> a * 2 ^ s mod 2 ^ 32 = 2 ^ s * (a mod 2 ^ (32 - s) :: nat)"
  unfolding mult_mod_right by (simp add: mult.commute flip: power_add)

lemma unat_or_low:
  assumes "unat (l :: limb) < 2 ^ s"
  shows "unat (push_bit s a OR l) = unat a * 2 ^ s mod 2 ^ 32 + unat l"
proof -
  have "l OR push_bit s a = l + push_bit s a"
    using assms by (intro or_high [where k = s]) (simp_all add: take_bit_push_bit)
  moreover have "unat (push_bit s a) + unat l < 2 ^ 32"
  proof (cases "s < 32")
    case True
    have "unat a * 2 ^ s mod 2 ^ 32 = 2 ^ s * (unat a mod 2 ^ (32 - s))"
      using True by (intro mult_pow_mod) simp
    moreover have "2 ^ s * (unat a mod 2 ^ (32 - s) + 1) \<le> 2 ^ s * 2 ^ (32 - s)"
      by (intro mult_le_mono2) (simp add: Suc_leI)
    moreover have "2 ^ s * 2 ^ (32 - s) = (2 :: nat) ^ 32" using True by (simp flip: power_add)
    ultimately show ?thesis using assms unat_push [of s a] by simp
  next
    case False
    then have "unat (push_bit s a) = 0" by (simp add: unat_push mod_eq_0_iff_dvd le_imp_power_dvd dvd_mult)
    with limb_bound [of l] show ?thesis by simp
  qed
  moreover have "unat (l + push_bit s a) = unat l + unat (push_bit s a)"
    using calculation(2) by (intro unat_small_add) simp
  ultimately show ?thesis using unat_push [of s a] by (simp add: or.commute)
qed

lemma mp_shl_val:
  assumes "mp_shl tab s l = (tab', l')" and "1 \<le> s" "s \<le> 31" "unat l < 2 ^ s"
  shows "length tab' = length tab \<and> unat l' < 2 ^ s \<and>
    limbs_val tab' + 2 ^ (32 * length tab) * unat l' = limbs_val tab * 2 ^ s + unat l"
  using assms
proof (induction tab s l arbitrary: tab' l' rule: mp_shl.induct)
  case (2 a tab s l)
  define h where "h = drop_bit (32 - s) a"
  obtain ts where ts: "mp_shl tab s h = (ts, l')" "tab' = (push_bit s a OR l) # ts"
    using 2(2) by (auto simp: Let_def h_def split: prod.splits)
  have "(2 :: nat) ^ 32 = 2 ^ s * 2 ^ (32 - s)" using 2(4) by (simp flip: power_add)
  with limb_bound [of a] have hv: "unat h = unat a div 2 ^ (32 - s)" "unat h < 2 ^ s"
    by (simp_all add: h_def unat_drop less_mult_imp_div_less)
  have ih: "length ts = length tab" "unat l' < 2 ^ s"
    "limbs_val ts + 2 ^ (32 * length tab) * unat l' = limbs_val tab * 2 ^ s + unat h"
    using 2(1) [OF ts(1) [unfolded h_def] 2(3,4) hv(2) [unfolded h_def]] h_def by simp_all
  have "unat a * 2 ^ s div (2 ^ (32 - s) * 2 ^ s) = unat h"
    unfolding hv(1) by (rule div_mult_mult2) simp
  then have "unat a * 2 ^ s div 2 ^ 32 = unat h" using 2(4) by (simp flip: power_add)
  then have "unat a * 2 ^ s mod 2 ^ 32 + 2 ^ 32 * unat h = unat a * 2 ^ s"
    by (metis mod_mult_div_eq)
  moreover from arg_cong [OF ih(3), of "\<lambda>n. 2 ^ 32 * n"]
  have "2 ^ 32 * limbs_val ts + 2 ^ 32 * 2 ^ (32 * length tab) * unat l' =
      2 ^ 32 * (limbs_val tab * 2 ^ s) + 2 ^ 32 * unat h"
    unfolding distrib_left mult.assoc .
  ultimately have "unat a * 2 ^ s mod 2 ^ 32 + 2 ^ 32 * limbs_val ts + 2 ^ 32 * 2 ^ (32 * length tab) * unat l' =
      2 ^ 32 * (limbs_val tab * 2 ^ s) + unat a * 2 ^ s" by linarith
  then show ?case
    using ts(2) ih(1,2) 2(5) by (simp add: unat_or_low power_add distrib_right)
qed simp

lemma mp_shr_loop_val:
  assumes "mp_shr_loop tab s h = (tab', l)" and "1 \<le> s" "s \<le> 31"
  shows "length tab' = length tab \<and>
    limbs_val tab + 2 ^ (32 * length tab) * (unat h mod 2 ^ s) = 2 ^ s * limbs_val tab' + unat l mod 2 ^ s"
  using assms
proof (induction tab s h arbitrary: tab' l rule: mp_shr_loop.induct)
  case (2 a tab s h)
  obtain ts k where ts: "mp_shr_loop tab s h = (ts, k)" by (cases "mp_shr_loop tab s h")
  have res: "tab' = (push_bit (32 - s) k OR drop_bit s a) # ts" "l = a"
    using 2(2) ts by (auto simp: or.commute)
  have ih: "length ts = length tab"
    "limbs_val tab + 2 ^ (32 * length tab) * (unat h mod 2 ^ s) = 2 ^ s * limbs_val ts + unat k mod 2 ^ s"
    using 2(1) [OF ts 2(3,4)] by simp_all
  have e: "(2 :: nat) ^ 32 = 2 ^ (32 - s) * 2 ^ s" using 2(4) by (simp flip: power_add)
  have "unat (drop_bit s a) < 2 ^ (32 - s)"
    using limb_bound [of a] e by (simp add: unat_drop less_mult_imp_div_less)
  then have "unat (push_bit (32 - s) k OR drop_bit s a) = unat k * 2 ^ (32 - s) mod 2 ^ 32 + unat a div 2 ^ s"
    by (simp add: unat_or_low unat_drop)
  also have "unat k * 2 ^ (32 - s) mod 2 ^ 32 = 2 ^ (32 - s) * (unat k mod 2 ^ s)"
    using mult_pow_mod [of "32 - s" "unat k"] 2(4) by simp
  finally have "2 ^ s * unat (push_bit (32 - s) k OR drop_bit s a) = 2 ^ 32 * (unat k mod 2 ^ s) + 2 ^ s * (unat a div 2 ^ s)"
    using e by (simp add: distrib_left mult.commute)
  moreover have "2 ^ s * (unat a div 2 ^ s) + unat a mod 2 ^ s = unat a" by simp
  moreover from arg_cong [OF ih(2), of "\<lambda>n. 2 ^ 32 * n"]
  have "2 ^ 32 * limbs_val tab + 2 ^ 32 * 2 ^ (32 * length tab) * (unat h mod 2 ^ s) =
      2 ^ 32 * (2 ^ s * limbs_val ts) + 2 ^ 32 * (unat k mod 2 ^ s)"
    unfolding distrib_left mult.assoc .
  moreover have "2 ^ s * (2 ^ 32 * limbs_val ts) = 2 ^ 32 * (2 ^ s * limbs_val ts)" by simp
  ultimately have "unat a + 2 ^ 32 * limbs_val tab + 2 ^ 32 * 2 ^ (32 * length tab) * (unat h mod 2 ^ s) =
      2 ^ s * unat (push_bit (32 - s) k OR drop_bit s a) + 2 ^ s * (2 ^ 32 * limbs_val ts) + unat a mod 2 ^ s"
    by linarith
  then show ?case
    using res ih(1) by (simp add: power_add distrib_left)
qed simp

lemma and_mask_mod: "s < 32 \<Longrightarrow> unat ((l :: limb) AND (push_bit s 1 - 1)) = unat l mod 2 ^ s"
proof -
  assume s: "s < 32"
  have "l AND (push_bit s 1 - 1) = take_bit s l"
    by (simp add: take_bit_eq_mask mask_eq_exp_minus_1 push_bit_of_1)
  with s show ?thesis by (simp add: unat_take32)
qed

lemma mp_shr_val:
  assumes "mp_shr tab s h = (tab', l)" and "1 \<le> s" "s \<le> 31" "unat h < 2 ^ s"
  shows "length tab' = length tab \<and> unat l < 2 ^ s \<and>
    limbs_val tab + 2 ^ (32 * length tab) * unat h = 2 ^ s * limbs_val tab' + unat l"
proof -
  obtain k where k: "mp_shr_loop tab s h = (tab', k)" "l = k AND (push_bit s 1 - 1)"
    using assms(1) by (auto simp: mp_shr_def split: prod.splits)
  have "unat l = unat k mod 2 ^ s" unfolding k(2) using assms(3) by (intro and_mask_mod) simp
  with mp_shr_loop_val [OF k(1) assms(2,3)] assms(4) show ?thesis by simp
qed

subsection \<open>Division by a precomputed inverse\<close>

lemma unat_minus_1: "unat (- 1 :: limb) = 2 ^ 32 - 1"
  by (simp add: unsigned_minus_1_eq_mask mask_eq_exp_minus_1)

lemma unat_minus_one: "unat (- d - 1 :: limb) = 2 ^ 32 - 1 - unat d"
proof -
  have "(of_nat (2 ^ 32 - 1 - unat d) :: limb) = of_nat (2 ^ 32 - 1) - of_nat (unat d)"
    using limb_bound [of d] by (intro of_nat_diff) simp
  also have "\<dots> = - d - 1" by simp
  finally show ?thesis using unat_of_nat_id [of "2 ^ 32 - 1 - unat d", where ?'a = 32] by simp
qed

lemma udiv1norm_init_val:
  assumes "2 ^ 31 \<le> unat d"
  obtains k where "unat d * unat (udiv1norm_init d) + k + unat d * 2 ^ 32 + 1 = 2 ^ 64" "k < unat d"
proof -
  define n where "n = dlimb_of (- d - 1) (- 1)"
  have "unat n = (2 ^ 32 - 1 - unat d) * 2 ^ 32 + (2 ^ 32 - 1)"
    unfolding n_def unat_dlimb unat_minus_one unat_minus_1 ..
  then have n: "unat n + unat d * 2 ^ 32 + 1 = 2 ^ 64"
    using limb_bound [of d] by (simp add: diff_mult_distrib)
  have "unat n < 2 ^ 31 * 2 ^ 32" using n assms by simp
  also have "\<dots> \<le> unat d * 2 ^ 32" using assms by (intro mult_le_mono1)
  finally have "unat n div unat d < 2 ^ 32" by (simp add: less_mult_imp_div_less mult.commute)
  then have "unat (udiv1norm_init d) = unat n div unat d"
    by (simp add: udiv1norm_init_def n_def [symmetric] unat_ucast_limb unat_div_distrib)
  then have "unat d * unat (udiv1norm_init d) + unat n mod unat d = unat n" by simp
  moreover have "unat n mod unat d < unat d" using assms by simp
  ultimately show thesis using n that by metis
qed

text \<open>The estimate of the quotient is exact or one too small.\<close>

lemma udiv_estimate:
  fixes B d n2 n0 m k e A :: int
  assumes inv: "d * m + k + d * B + 1 = B * B" and k: "0 \<le> k" "k < d"
    and d: "d < B" "B \<le> 2 * d" and n2: "0 \<le> n2" "n2 < d" and n0: "0 \<le> n0" "n0 < B"
    and e: "e = 0 \<and> 2 * n0 < B \<or> e = 1 \<and> B \<le> 2 * n0"
    and A: "A = m * (n2 + e) + n0 + e * (d - B)"
  shows "0 \<le> n2 * B + n0 - (A div B + n2) * d" and "n2 * B + n0 - (A div B + n2) * d < 2 * d"
proof -
  define X where "X = (B - d) * (n0 - e * (B - d)) + (1 + k) * (n2 + e)"
  have e2: "e * e = e" using e by auto
  have "d * A = (d * m) * (n2 + e) + d * (n0 + e * (d - B))" by (simp add: A algebra_simps)
  also have "d * m = B * B - k - d * B - 1" using inv by simp
  finally have X: "X = B * (n2 * B + n0 - n2 * d) - d * A"
    unfolding X_def by (simp add: algebra_simps)
  define lo where "lo = A mod B"
  have B: "0 < B" using n0 by simp
  have lo: "0 \<le> lo" "lo \<le> B - 1" "A = (A div B) * B + lo" using B by (auto simp: lo_def)
  have R: "B * (n2 * B + n0 - (A div B + n2) * d) = X + d * lo"
  proof -
    have "d * A = d * ((A div B) * B) + d * lo" using lo(3) by (metis distrib_left)
    then show ?thesis unfolding X by (simp add: algebra_simps)
  qed
  have lod: "0 \<le> d * lo" "d * lo \<le> d * (B - 1)" using lo k by (simp_all add: mult_left_mono)
  have "0 \<le> X" unfolding X_def using e k d n2 n0 by (auto intro!: add_nonneg_nonneg mult_nonneg_nonneg)
  with R lod have "0 \<le> B * (n2 * B + n0 - (A div B + n2) * d)" by linarith
  then show "0 \<le> n2 * B + n0 - (A div B + n2) * d" using B by (simp add: zero_le_mult_iff)
  have "(B - d) * (n0 - e * (B - d)) \<le> (B - d) * d"
    using e d n0 by (intro mult_left_mono) auto
  moreover have "(1 + k) * (n2 + e) \<le> d * d"
    using e k n2 by (intro mult_mono) auto
  ultimately have "X \<le> B * d" unfolding X_def by (simp add: algebra_simps)
  with R lod(2) k have "B * (n2 * B + n0 - (A div B + n2) * d) < B * (2 * d)"
    by (simp add: algebra_simps)
  then show "n2 * B + n0 - (A div B + n2) * d < 2 * d" using B by (simp add: mult_less_cancel_left)
qed

lemma sign_limb: "signed_drop_bit 31 (a0 :: limb) = (if 2 ^ 31 \<le> unat a0 then - 1 else 0)"
proof -
  have b: "bit a0 31 \<longleftrightarrow> 2 ^ 31 \<le> unat a0"
  proof -
    have "bit a0 31 \<longleftrightarrow> bit (unat a0) 31" by (simp add: bit_unsigned_iff)
    also have "\<dots> \<longleftrightarrow> odd (unat a0 div 2 ^ 31)" by (simp add: bit_iff_odd)
    also have "unat a0 div 2 ^ 31 = (if 2 ^ 31 \<le> unat a0 then 1 else 0)"
      using limb_bound [of a0] by (auto simp: div_nat_eqI)
    finally show ?thesis by simp
  qed
  show ?thesis
  proof (rule bit_eqI)
    fix n
    show "bit (signed_drop_bit 31 a0) n = bit (if 2 ^ 31 \<le> unat a0 then - 1 else 0 :: limb) n"
      by (cases "n = 0") (auto simp: bit_signed_drop_bit_iff b bit_minus_1_iff min_def not_less dest: bit_imp_le_length)
  qed
qed

lemma divmod_of: "r < b \<Longrightarrow> (c * b + r) div b = c \<and> (c * b + r) mod b = (r :: nat)"
  by simp

lemma udiv_correction:
  fixes d q1 a1 a0 :: limb
  assumes N: "unat a1 * 2 ^ 32 + unat a0 = unat q1 * unat d + t" and t: "t < 2 * unat d"
  defines "a \<equiv> dlimb_of a1 a0 - ucast q1 * ucast d - ucast d"
  defines "ah \<equiv> ucast (drop_bit 32 a) :: limb"
  shows "t < unat d \<Longrightarrow> ah = - 1 \<and> unat (ucast a + (ah AND d)) = t"
    and "unat d \<le> t \<Longrightarrow> ah = 0 \<and> unat (ucast a + (ah AND d)) = t - unat d"
proof -
  have "dlimb_of a1 a0 = of_nat (unat (dlimb_of a1 a0))" by simp
  also have "\<dots> = of_nat (unat q1) * of_nat (unat d) + of_nat t"
    unfolding unat_dlimb N by (simp only: of_nat_add of_nat_mult)
  finally have a: "a = of_nat t - of_nat (unat d)"
    unfolding a_def by simp
  show "unat d \<le> t \<Longrightarrow> ah = 0 \<and> unat (ucast a + (ah AND d)) = t - unat d"
  proof -
    assume dt: "unat d \<le> t"
    then have a': "a = of_nat (t - unat d)" using a by simp
    have small: "t - unat d < 2 ^ 32" using t limb_bound [of d] by linarith
    then have ua: "unat a = t - unat d" unfolding a' by (intro unat_of_nat_id) simp
    then have "unat ah = 0" unfolding ah_def unat_high_limb using small by simp
    then have "ah = 0" by (simp add: unat_eq_0)
    then show ?thesis using ua small by (simp add: unat_ucast_limb)
  qed
  assume td: "t < unat d"
  have "a = of_nat (2 ^ 64 - (unat d - t))"
  proof -
    have "(of_nat (2 ^ 64 - (unat d - t)) :: dlimb) = of_nat (2 ^ 64) - of_nat (unat d - t)"
      using limb_bound [of d] by (intro of_nat_diff) simp
    also have "\<dots> = - (of_nat (unat d) - of_nat t)" using td by simp
    finally show ?thesis using a by simp
  qed
  then have ua: "unat a = 2 ^ 64 - (unat d - t)" using td by (simp add: unat_of_nat_id)
  have "2 ^ 64 - (unat d - t) = (2 ^ 32 - 1) * 2 ^ 32 + (2 ^ 32 - (unat d - t))"
    using td limb_bound [of d] by simp
  moreover have lo: "2 ^ 32 - (unat d - t) < 2 ^ 32" using td by simp
  ultimately have dm: "unat a div 2 ^ 32 = 2 ^ 32 - 1" "unat a mod 2 ^ 32 = 2 ^ 32 - (unat d - t)"
    using divmod_of [OF lo, of "2 ^ 32 - 1"] unfolding ua by metis+
  have "unat ah = unat (- 1 :: limb)" unfolding ah_def unat_high_limb dm unat_minus_1 ..
  then have ah: "ah = - 1" by (simp add: word_unat_eq_iff)
  have "unat (ucast a + d) = (2 ^ 32 - (unat d - t) + unat d) mod 2 ^ 32"
    using dm(2) by (simp add: unat_word_ariths unat_ucast_limb)
  also have "2 ^ 32 - (unat d - t) + unat d = 2 ^ 32 + t" using td limb_bound [of d] by simp
  also have "(2 ^ 32 + t) mod 2 ^ 32 = t" using td limb_bound [of d] by simp
  finally show "ah = - 1 \<and> unat (ucast a + (ah AND d)) = t" using ah by simp
qed

lemma udiv_quotient_small:
  assumes "q * d \<le> n1 * 2 ^ 32 + n0" "n1 < d" "n0 < (2 :: nat) ^ 32"
  shows "q < 2 ^ 32"
proof -
  have "q * d < (n1 + 1) * 2 ^ 32" using assms by simp
  also have "\<dots> \<le> d * 2 ^ 32" using assms(2) by (intro mult_le_mono1) simp
  finally show ?thesis by (metis mult.commute mult_less_cancel1)
qed

lemma udiv_estimate_nat:
  fixes d m k n2 n0 e A adj :: nat
  assumes inv: "d * m + k + d * 2 ^ 32 + 1 = 2 ^ 64" and k: "k < d" and d: "2 ^ 31 \<le> d" "d < 2 ^ 32"
    and n2: "n2 < d" and n0: "n0 < 2 ^ 32" and e: "e = (if 2 ^ 31 \<le> n0 then 1 else 0)"
    and adj: "adj + e * 2 ^ 32 = n0 + e * d" and A: "A = m * (n2 + e) + adj"
  shows "(A div 2 ^ 32 + n2) * d \<le> n2 * 2 ^ 32 + n0" and "n2 * 2 ^ 32 + n0 < (A div 2 ^ 32 + n2) * d + 2 * d"
proof -
  have i: "int d * int m + int k + int d * 2 ^ 32 + 1 = 2 ^ 32 * 2 ^ 32"
    using arg_cong [OF inv, of int] by simp
  have "int adj + int e * 2 ^ 32 = int n0 + int e * int d" using arg_cong [OF adj, of int] by simp
  then have A': "int A = int m * (int n2 + int e) + int n0 + int e * (int d - 2 ^ 32)"
    unfolding A by (simp add: right_diff_distrib)
  have e': "int e = 0 \<and> 2 * int n0 < 2 ^ 32 \<or> int e = 1 \<and> 2 ^ 32 \<le> 2 * int n0" using e by auto
  note est = udiv_estimate [OF i _ _ _ _ _ _ _ _ e' A']
  have div: "int A div 2 ^ 32 = int (A div 2 ^ 32)" by (simp add: zdiv_int)
  have "0 \<le> int n2 * 2 ^ 32 + int n0 - (int A div 2 ^ 32 + int n2) * int d"
    by (rule est(1)) (use k d n2 n0 in simp_all)
  then have "int ((A div 2 ^ 32 + n2) * d) \<le> int (n2 * 2 ^ 32 + n0)" unfolding div by simp
  then show "(A div 2 ^ 32 + n2) * d \<le> n2 * 2 ^ 32 + n0" by (simp only: of_nat_le_iff)
  have "int n2 * 2 ^ 32 + int n0 - (int A div 2 ^ 32 + int n2) * int d < 2 * int d"
    by (rule est(2)) (use k d n2 n0 in simp_all)
  then have "int (n2 * 2 ^ 32 + n0) < int ((A div 2 ^ 32 + n2) * d + 2 * d)" unfolding div by simp
  then show "n2 * 2 ^ 32 + n0 < (A div 2 ^ 32 + n2) * d + 2 * d" by (simp only: of_nat_less_iff)
qed

lemma udiv1norm_val:
  assumes d: "2 ^ 31 \<le> unat d" and a1: "unat a1 < unat d"
    and res: "udiv1norm a1 a0 d (udiv1norm_init d) = (q, r)"
  shows "unat a1 * 2 ^ 32 + unat a0 = unat q * unat d + unat r" and "unat r < unat d"
proof -
  obtain k where k: "unat d * unat (udiv1norm_init d) + k + unat d * 2 ^ 32 + 1 = 2 ^ 64" "k < unat d"
    by (rule udiv1norm_init_val [OF d])
  define e :: nat where "e = (if 2 ^ 31 \<le> unat a0 then 1 else 0)"
  define n1m where "n1m = signed_drop_bit 31 a0"
  define A where "A = unat (ucast (udiv1norm_init d) * ucast (a1 - n1m) + ucast (a0 + (n1m AND d)) :: dlimb)"
  have adj: "unat (a0 + (n1m AND d)) + e * 2 ^ 32 = unat a0 + e * unat d"
    using d limb_bound [of a0] limb_bound [of d]
    by (auto simp: n1m_def sign_limb e_def unat_word_ariths le_mod_geq)
  have up: "unat (a1 - n1m) = unat a1 + e"
    using a1 limb_bound [of d] by (auto simp: n1m_def sign_limb e_def unat_word_ariths)
  have A: "A = unat (udiv1norm_init d) * (unat a1 + e) + unat (a0 + (n1m AND d))"
    unfolding A_def unat_muladd up ..
  define Q where "Q = A div 2 ^ 32 + unat a1"
  have est: "Q * unat d \<le> unat a1 * 2 ^ 32 + unat a0" "unat a1 * 2 ^ 32 + unat a0 < Q * unat d + 2 * unat d"
    unfolding Q_def
    by (rule udiv_estimate_nat [OF k d limb_bound a1 limb_bound e_def adj A])+
  define t where "t = unat a1 * 2 ^ 32 + unat a0 - Q * unat d"
  have N: "unat a1 * 2 ^ 32 + unat a0 = Q * unat d + t" and t: "t < 2 * unat d"
    using est unfolding t_def by linarith+
  have Q: "Q < 2 ^ 32"
    using udiv_quotient_small [of Q "unat d" "unat a1" "unat a0"] N a1 limb_bound [of a0] by simp
  define q1 where "q1 = ucast (drop_bit 32 (ucast (udiv1norm_init d) * ucast (a1 - n1m) + ucast (a0 + (n1m AND d)) :: dlimb)) + a1"
  have q1: "unat q1 = Q"
    using Q unfolding q1_def Q_def A_def by (subst unat_small_add) (simp_all add: unat_high_limb)
  note N1 = N [folded q1]
  define a where "a = dlimb_of a1 a0 - ucast q1 * ucast d - ucast d"
  have qr: "q = q1 + (1 + ucast (drop_bit 32 a))" "r = ucast a + (ucast (drop_bit 32 a) AND d)"
    using res unfolding udiv1norm_def Let_def n1m_def [symmetric] q1_def [symmetric] a_def [symmetric] by simp_all
  have "unat a1 * 2 ^ 32 + unat a0 = unat q * unat d + unat r \<and> unat r < unat d"
  proof (cases "t < unat d")
    case True
    from udiv_correction(1) [OF N1 t True, folded a_def] qr have "q = q1" "unat r = t" by auto
    with N1 True show ?thesis by simp
  next
    case False
    then have dt: "unat d \<le> t" by simp
    from udiv_correction(2) [OF N1 t dt, folded a_def] qr have q: "q = q1 + 1" and r: "unat r = t - unat d" by auto
    have "Suc Q < 2 ^ 32"
      using udiv_quotient_small [of "Suc Q" "unat d" "unat a1" "unat a0"] N dt a1 limb_bound [of a0] by simp
    then have "unat q = Suc Q" unfolding q using q1 by (subst unat_small_add) simp_all
    with N r dt t show ?thesis by simp
  qed
  then show "unat a1 * 2 ^ 32 + unat a0 = unat q * unat d + unat r" and "unat r < unat d" by simp_all
qed

lemma div1norm_loop_val:
  assumes "div1norm_loop tab b r (udiv1norm_init b) = (tab', r')" and "2 ^ 31 \<le> unat b" "unat r < unat b"
  shows "length tab' = length tab \<and> unat r' < unat b \<and>
    limbs_val tab + 2 ^ (32 * length tab) * unat r = limbs_val tab' * unat b + unat r'"
  using assms
proof (induction tab arbitrary: tab' r')
  case (Cons x tab)
  obtain ts r1 where ts: "div1norm_loop tab b r (udiv1norm_init b) = (ts, r1)" by fastforce
  obtain q where q: "udiv1norm r1 x b (udiv1norm_init b) = (q, r')" and tab': "tab' = q # ts"
    using Cons(2) ts by (auto split: prod.splits)
  have ih: "length ts = length tab" "unat r1 < unat b"
    "limbs_val tab + 2 ^ (32 * length tab) * unat r = limbs_val ts * unat b + unat r1"
    using Cons(1) [OF ts Cons(3,4)] by simp_all
  have qr: "unat r1 * 2 ^ 32 + unat x = unat q * unat b + unat r'" "unat r' < unat b"
    using udiv1norm_val [OF Cons(3) ih(2) q] .
  have "unat x + 2 ^ 32 * limbs_val tab + 2 ^ (32 * Suc (length tab)) * unat r =
      unat x + 2 ^ 32 * (limbs_val ts * unat b + unat r1)"
    unfolding ih(3) [symmetric] by (simp add: power_add algebra_simps)
  also have "\<dots> = 2 ^ 32 * (limbs_val ts * unat b) + (unat q * unat b + unat r')"
    unfolding qr(1) [symmetric] by simp
  finally show ?case using qr(2) ih(1) tab' by (simp add: algebra_simps)
qed simp

text \<open>Division by \<open>b0\<close>, from its normalised form and inverse.\<close>

lemma mp_div1norm_val:
  assumes res: "mp_div1norm tab b 0 (udiv1norm_init b) s = (tab', r')"
    and b: "unat b = b0 * 2 ^ s" "2 ^ 31 \<le> unat b" and s: "s \<le> 31"
  shows "length tab' = length tab" and "limbs_val tab = limbs_val tab' * b0 + unat r'" and "unat r' < b0"
proof -
  have b0: "0 < b0" "0 < unat b" using b by (auto intro: Nat.gr0I)
  define t1 r1 where "t1 = (if s \<noteq> 0 then fst (mp_shl tab s 0) else tab)"
    and "r1 = (if s \<noteq> 0 then snd (mp_shl tab s 0) else 0)"
  have start: "length t1 = length tab" "unat r1 < 2 ^ s"
    "limbs_val t1 + 2 ^ (32 * length tab) * unat r1 = limbs_val tab * 2 ^ s"
    using mp_shl_val [of tab s 0 "fst (mp_shl tab s 0)" "snd (mp_shl tab s 0)"] s
    by (auto simp: t1_def r1_def split: if_splits)
  obtain r2 where loop: "div1norm_loop t1 b r1 (udiv1norm_init b) = (tab', r2)" and r': "r' = drop_bit s r2"
    using res by (auto simp: mp_div1norm_def t1_def r1_def split: prod.splits if_splits)
  have "unat r1 < unat b" using start(2) b(1) b0(1) by (metis less_le_trans mult_le_mono1 nat_mult_1 One_nat_def Suc_leI)
  note v = div1norm_loop_val [OF loop b(2) this]
  have eq: "limbs_val tab * 2 ^ s = (limbs_val tab' * b0) * 2 ^ s + unat r2"
    using v start b(1) by simp
  then have "2 ^ s dvd (limbs_val tab' * b0) * 2 ^ s + unat r2" by (metis dvd_triv_right)
  then have "2 ^ s dvd unat r2" by (simp add: dvd_add_right_iff)
  then have r2: "unat r2 = unat r' * 2 ^ s" by (simp add: r' unat_drop)
  show "length tab' = length tab" using v start by simp
  have "limbs_val tab * 2 ^ s = (limbs_val tab' * b0 + unat r') * 2 ^ s"
    using eq r2 by (simp add: distrib_right)
  then show "limbs_val tab = limbs_val tab' * b0 + unat r'" by simp
  show "unat r' < b0" using v r2 b(1) by simp
qed

subsection \<open>Powers, on values\<close>

lemma bit_len_0 [simp]: "bit_len 0 = 0"
  by (simp add: bit_len.simps)

lemma bit_len_bounds: "n \<noteq> 0 \<Longrightarrow> 2 ^ (bit_len n - 1) \<le> n \<and> n < 2 ^ bit_len n \<and> 0 < bit_len n"
proof (induction n rule: bit_len.induct)
  case (1 n)
  show ?case
  proof (cases "n div 2 = 0")
    case True
    with 1(2) have "n = 1" by auto
    then show ?thesis by (simp add: bit_len.simps)
  next
    case False
    have s: "bit_len n = Suc (bit_len (n div 2))" using 1(2) by (subst bit_len.simps) simp
    obtain j where j: "bit_len (n div 2) = Suc j" using 1(1) [OF 1(2) False] by (cases "bit_len (n div 2)") auto
    have "2 ^ j \<le> n div 2" "n div 2 < 2 ^ Suc j" using 1(1) [OF 1(2) False] j by simp_all
    then show ?thesis using s j by simp linarith
  qed
qed

lemma bit_len_le: "n < 2 ^ k \<Longrightarrow> bit_len n \<le> k"
proof (rule ccontr)
  assume "n < 2 ^ k" "\<not> bit_len n \<le> k"
  moreover from this have "n \<noteq> 0" by (metis bit_len_0 zero_le)
  ultimately have "k \<le> bit_len n - 1" "2 ^ (bit_len n - 1) \<le> n" using bit_len_bounds by auto
  then have "2 ^ k \<le> n" by (meson le_trans one_le_numeral power_increasing)
  with \<open>n < 2 ^ k\<close> show False by simp
qed

lemma bit_len_eq: "2 ^ k \<le> n \<Longrightarrow> n < 2 ^ Suc k \<Longrightarrow> bit_len n = Suc k"
proof -
  assume n: "2 ^ k \<le> n" "n < 2 ^ Suc k"
  then have "bit_len n \<le> Suc k" by (rule_tac bit_len_le)
  moreover have "\<not> bit_len n \<le> k"
  proof
    assume "bit_len n \<le> k"
    moreover have "n < 2 ^ bit_len n" using bit_len_bounds [of n] n by (cases "n = 0") auto
    ultimately show False using n(1) by (meson leD less_le_trans one_le_numeral power_increasing)
  qed
  ultimately show ?thesis by simp
qed

text \<open>Normalising by the count of leading zeros.\<close>

lemma clz32_normal:
  assumes "r \<noteq> (0 :: limb)"
  shows "clz32 r \<le> 31" and "unat (push_bit (clz32 r) r) = unat r * 2 ^ clz32 r" and "2 ^ 31 \<le> unat r * 2 ^ clz32 r"
proof -
  have nz: "unat r \<noteq> 0" using assms by (simp add: unat_eq_0)
  define k where "k = bit_len (unat r)"
  have k: "2 ^ (k - 1) \<le> unat r" "unat r < 2 ^ k" "0 < k" "k \<le> 32"
    using bit_len_bounds [OF nz] bit_len_le [OF limb_bound [of r]] by (auto simp: k_def)
  have c: "clz32 r = 32 - k" by (simp add: clz32_def k_def)
  show "clz32 r \<le> 31" using c k by simp
  have "unat r * 2 ^ (32 - k) < 2 ^ k * 2 ^ (32 - k)" using k by simp
  also have "\<dots> = 2 ^ 32" using k by (simp flip: power_add)
  finally show "unat (push_bit (clz32 r) r) = unat r * 2 ^ clz32 r" by (simp add: unat_push c)
  have "2 ^ 31 = 2 ^ (k - 1) * (2 :: nat) ^ (32 - k)" using k by (simp flip: power_add)
  also have "\<dots> \<le> unat r * 2 ^ (32 - k)" using k by simp
  finally show "2 ^ 31 \<le> unat r * 2 ^ clz32 r" by (simp add: c)
qed

lemma bit_test: "(drop_bit i (b :: limb) AND 1 \<noteq> 0) = odd (unat b div 2 ^ i)"
proof -
  have "unat (drop_bit i b AND 1) = unat b div 2 ^ i mod 2"
    unfolding and_one_eq by (simp add: unat_mod_distrib unat_drop)
  then show ?thesis by (metis even_iff_mod_2_eq_zero unat_0 word_unat_eq_iff)
qed

lemma pow_ui_loop_val:
  "r = ucast a ^ (unat b div 2 ^ i) \<Longrightarrow> pow_ui_loop a b i r = ucast a ^ unat b"
proof (induction i arbitrary: r)
  case (Suc i)
  define n where "n = unat b div 2 ^ i"
  have "r = ucast a ^ (n div 2)" using Suc(2) by (simp add: n_def mult.commute flip: div_mult2_eq)
  then have "r * r = ucast a ^ (2 * (n div 2))" by (simp add: mult_2 power_add)
  moreover have "2 * (n div 2) = (if odd n then n - 1 else n)" by (auto elim: oddE)
  ultimately have "(if odd n then r * r * ucast a else r * r) = ucast a ^ n"
    by (auto elim!: oddE simp: mult.commute)
  then show ?case
    by (simp add: Let_def Suc(1) bit_test flip: n_def)
qed simp

lemma pow5_tables:
  "list_all (\<lambda>k. pow_ui 5 (of_nat k) = 5 ^ k \<and> pow_ui 10 (of_nat k) = 10 ^ k) [2..<18]"
  by code_simp

lemma bit_len_num: "0 < n \<Longrightarrow> bit_len n = Suc (bit_len (n div 2))"
  by (subst bit_len.simps) simp

lemma ucast_minus_1: "(ucast (- 1 :: limb) :: dlimb) = 0xffffffff"
  by code_simp

lemma pow5_inverses:
  "list_all (\<lambda>k. let r = pow5_table ! (k - 1) in
     unat r = 5 ^ k \<and> pow5_inv_table ! (k - 1) = udiv1norm_init (push_bit (clz32 r) r)) [1..<14]"
  by (simp add: upt_rec pow5_table_def pow5_inv_table_def clz32_def bit_len_num udiv1norm_init_def ucast_minus_1)

lemma pow_ui_val: "pow_ui a b = ucast a ^ unat b"
proof -
  consider "b = 0" | "b = 1" | "(a = 5 \<or> a = 10)" "2 \<le> unat b" "unat b < 18"
    | "b \<noteq> 0" "b \<noteq> 1" "\<not> ((a = 5 \<or> a = 10) \<and> b \<le> 17)"
  proof (cases "b = 0 \<or> b = 1")
    case False
    then have "2 \<le> unat b" by (metis One_nat_def Suc_leI le_neq_implies_less less_2_cases_iff not_less unat_0 unat_1 word_unat_eq_iff)
    then show thesis using that False by (fastforce simp: word_le_nat_alt)
  qed (use that in blast)
  then show ?thesis
  proof cases
    case 3
    have "list_all (\<lambda>k. pow_ui 5 (of_nat k) = 5 ^ k \<and> pow_ui 10 (of_nat k) = 10 ^ k) [2..<18]"
      by (rule pow5_tables)
    then have "pow_ui 5 (of_nat (unat b)) = 5 ^ unat b \<and> pow_ui 10 (of_nat (unat b)) = 10 ^ unat b"
      using 3(2,3) by (simp only: list_all_iff set_upt atLeastLessThan_iff)
    then show ?thesis using 3(1) by auto
  next
    case 4
    have nz: "unat b \<noteq> 0" using 4 by (simp add: unat_eq_0)
    define k where "k = bit_len (unat b)"
    have k: "2 ^ (k - 1) \<le> unat b" "unat b < 2 ^ k" "0 < k" "k \<le> 32"
      using bit_len_bounds [OF nz] bit_len_le [OF limb_bound [of b]] by (auto simp: k_def)
    have "32 - clz32 b - 1 = k - 1" using k by (simp add: clz32_def k_def)
    moreover have "unat b div 2 ^ (k - 1) = 1"
      using k(1-3) by (cases k) (auto intro!: div_nat_eqI)
    then have "pow_ui_loop a b (k - 1) (ucast a) = ucast a ^ unat b" by (intro pow_ui_loop_val) simp
    ultimately show ?thesis using 4 unfolding pow_ui_def Let_def by auto
  qed (simp_all add: pow_ui_def)
qed

lemma unat_power: "a ^ n < 2 ^ 64 \<Longrightarrow> unat (of_nat a ^ n :: u64) = a ^ n"
  using unat_of_nat_id [of "a ^ n", where ?'a = 64] by simp

lemma pow_ui_exact: "unat a ^ unat b < 2 ^ 64 \<Longrightarrow> unat (pow_ui a b) = unat a ^ unat b"
  using unat_power [of "unat a" "unat b"] by (simp add: pow_ui_val)

lemma pow_ui_inv_val:
  assumes p: "unat a ^ unat b < 2 ^ 32" and a: "a \<noteq> 0" and res: "pow_ui_inv a b = (r, r_inv, s)"
  shows "r_inv = udiv1norm_init r" and "unat r = unat a ^ unat b * 2 ^ s" and "2 ^ 31 \<le> unat r" and "s \<le> 31"
proof -
  define r0 where "r0 = (if a = 5 \<and> b \<ge> 1 \<and> b \<le> 13 then pow5_table ! (unat b - 1) else ucast (pow_ui a b))"
  have r0: "unat r0 = unat a ^ unat b \<and> s = clz32 r0 \<and> r = push_bit s r0 \<and> r_inv = udiv1norm_init r"
  proof (cases "a = 5 \<and> b \<ge> 1 \<and> b \<le> 13")
    case True
    then have "1 \<le> unat b" "unat b < 14" by (simp_all add: word_le_nat_alt)
    with pow5_inverses have "let r = pow5_table ! (unat b - 1) in
        unat r = 5 ^ unat b \<and> pow5_inv_table ! (unat b - 1) = udiv1norm_init (push_bit (clz32 r) r)"
      by (simp only: list_all_iff set_upt atLeastLessThan_iff)
    with True res show ?thesis by (auto simp: r0_def pow_ui_inv_def Let_def)
  next
    case False
    have "unat (pow_ui a b) = unat a ^ unat b" using p by (intro pow_ui_exact) simp
    with False res p show ?thesis by (auto simp: r0_def pow_ui_inv_def Let_def unat_ucast_limb)
  qed
  have "r0 \<noteq> 0" using r0 a by (auto simp: unat_eq_0)
  from clz32_normal [OF this] r0 show "r_inv = udiv1norm_init r" "unat r = unat a ^ unat b * 2 ^ s"
    "2 ^ 31 \<le> unat r" "s \<le> 31" by auto
qed

subsection \<open>Whole numbers, on values\<close>

lemma limbs_val_snoc_0 [simp]: "limbs_val (xs @ [0]) = limbs_val xs"
  by (simp add: limbs_val_append)

lemma mpb_renorm_val [simp]: "limbs_val (mpb_renorm r) = limbs_val r"
proof (induction r rule: mpb_renorm.induct)
  case (1 r)
  show ?case
  proof (cases "length r > 1 \<and> last r = 0")
    case True
    then have "r = butlast r @ [0]" by (metis append_butlast_last_id length_greater_0_conv less_trans less_one)
    then have "limbs_val (butlast r) = limbs_val r" by (metis limbs_val_snoc_0)
    with True 1 show ?thesis by (subst mpb_renorm.simps) simp
  next
    case False
    then have "mpb_renorm r = r" by (subst mpb_renorm.simps) (simp only: if_False)
    then show ?thesis by simp
  qed
qed

lemma mpb_renorm_ok: "r \<noteq> [] \<Longrightarrow> mpb_ok (mpb_renorm r)"
proof (induction r rule: mpb_renorm.induct)
  case (1 r)
  show ?case
  proof (cases "length r > 1 \<and> last r = 0")
    case True
    then have "butlast r \<noteq> []" by (cases r) auto
    with True 1 show ?thesis by (subst mpb_renorm.simps) simp
  next
    case False
    then show ?thesis using 1(2) by (subst mpb_renorm.simps) (auto simp: mpb_ok_def)
  qed
qed

text \<open>A normalised number of \<open>n\<close> limbs, \<open>n > 1\<close>, is at least \<open>B\<^sup>n\<^sup>-\<^sup>1\<close>.\<close>

lemma limbs_val_lower: "r \<noteq> [] \<Longrightarrow> unat (last r) * 2 ^ (32 * (length r - 1)) \<le> limbs_val r"
  using limbs_val_append [of "butlast r" "[last r]"] by (simp add: mult.commute)

lemma mpb_get_bit_val: "mpb_get_bit r k = (if odd (limbs_val r div 2 ^ k) then 1 else 0)"
proof -
  define l i where "l = k div 32" and "i = k mod 32"
  have k: "k = 32 * l + i" "i < 32" by (simp_all add: l_def i_def)
  have d: "limbs_val r div 2 ^ k = limbs_val r div 2 ^ (32 * l) div 2 ^ i"
    unfolding k(1) power_add by (rule div_mult2_eq)
  show ?thesis
  proof (cases "l < length r")
    case False
    have "limbs_val r div 2 ^ (32 * l) = 0" using False limbs_val_drop [of l r] by simp
    with d False show ?thesis by (simp add: mpb_get_bit_def l_def)
  next
    case True
    define v where "v = limbs_val r div 2 ^ (32 * l)"
    have x: "unat (r ! l) = v mod 2 ^ 32" using limbs_val_nth [OF True] v_def by simp
    have "odd (v mod 2 ^ 32 div 2 ^ i) \<longleftrightarrow> odd (v div 2 ^ i)"
      using k(2) by (metis bit_take_bit_iff bit_iff_odd take_bit_eq_mod)
    then have t: "(drop_bit i (r ! l) AND 1 \<noteq> 0) = odd (limbs_val r div 2 ^ k)"
      unfolding bit_test d x v_def .
    have "drop_bit i (r ! l) AND 1 = (if drop_bit i (r ! l) AND 1 \<noteq> 0 then 1 else 0)"
      by (simp add: and_one_eq mod_2_eq_odd)
    with t True show ?thesis by (simp add: mpb_get_bit_def l_def i_def Let_def)
  qed
qed

lemma mpb_ok_iff: "mpb_ok r \<longleftrightarrow> r \<noteq> [] \<and> (length r > 1 \<longrightarrow> 2 ^ (32 * (length r - 1)) \<le> limbs_val r)"
proof (cases "r = []")
  case False
  have v: "limbs_val r = limbs_val (butlast r) + 2 ^ (32 * (length r - 1)) * unat (last r)"
    using limbs_val_append [of "butlast r" "[last r]"] False by simp
  have lo: "limbs_val (butlast r) < 2 ^ (32 * (length r - 1))"
    using limbs_val_bound [of "butlast r"] by simp
  have "last r \<noteq> 0 \<longleftrightarrow> 2 ^ (32 * (length r - 1)) \<le> limbs_val r"
  proof (cases "last r = 0")
    case True
    then show ?thesis using v lo by simp
  next
    case nz: False
    then have "1 \<le> unat (last r)" by (simp add: Suc_leI unat_gt_0)
    then have "2 ^ (32 * (length r - 1)) * 1 \<le> 2 ^ (32 * (length r - 1)) * unat (last r)" by (intro mult_le_mono2)
    then have "2 ^ (32 * (length r - 1)) \<le> limbs_val r" unfolding v by linarith
    with nz show ?thesis by simp
  qed
  then show ?thesis using False unfolding mpb_ok_def by blast
qed (simp add: mpb_ok_def)

lemma fold_or_eq_0: "fold (\<lambda>x b. b OR x) xs a = (0 :: limb) \<longleftrightarrow> a = 0 \<and> (\<forall>x \<in> set xs. x = 0)"
  by (induction xs arbitrary: a) (auto simp: or_eq_0_iff)

lemma sticky_bits_val: "1 \<le> s \<Longrightarrow> sticky_bits r s = 0 \<longleftrightarrow> limbs_val r mod 2 ^ (s - 1) = 0"
proof (cases "s \<ge> 2")
  case True
  define l i where "l = (s - 1) div 32" and "i = (s - 1) mod 32"
  have s: "s - 1 = 32 * l + i" "i < 32" by (simp_all add: l_def i_def)
  have m: "limbs_val r mod 2 ^ (s - 1) =
      2 ^ (32 * l) * (limbs_val r div 2 ^ (32 * l) mod 2 ^ i) + limbs_val r mod 2 ^ (32 * l)"
    unfolding s(1) power_add by (rule mod_mult2_eq)
  have lo: "limbs_val r mod 2 ^ (32 * l) = 0 \<longleftrightarrow> (\<forall>x \<in> set (take (min l (length r)) r). x = 0)"
    using limbs_val_take [of l r] limbs_val_eq_0 [of "take l r"] by (auto simp: min_def)
  show ?thesis
  proof (cases "l < length r")
    case in_r: True
    have "unat (r ! l AND (push_bit i 1 - 1)) = limbs_val r div 2 ^ (32 * l) mod 2 ^ 32 mod 2 ^ i"
      using s(2) by (simp only: and_mask_mod limbs_val_nth [OF in_r])
    also have "\<dots> = limbs_val r div 2 ^ (32 * l) mod 2 ^ i"
      using s(2) by (intro mod_mod_cancel le_imp_power_dvd) simp
    finally have "r ! l AND (push_bit i 1 - 1) = 0 \<longleftrightarrow> limbs_val r div 2 ^ (32 * l) mod 2 ^ i = 0"
      by (metis unat_eq_0)
    then show ?thesis
      unfolding sticky_bits_def Let_def l_def [symmetric] i_def [symmetric] m
      using True in_r lo by (auto simp: or_eq_0_iff fold_or_eq_0)
  next
    case False
    have "limbs_val r div 2 ^ (32 * l) = 0" using False limbs_val_drop [of l r] by simp
    then show ?thesis
      unfolding sticky_bits_def Let_def l_def [symmetric] i_def [symmetric] m
      using True False lo by (auto simp: fold_or_eq_0)
  qed
next
  case False
  moreover assume "1 \<le> s"
  ultimately show ?thesis by (auto simp: sticky_bits_def le_Suc_eq)
qed

text \<open>Rounding a quotient: toward zero, to nearest with ties to even, to nearest with ties away.\<close>

definition round_div :: "rnd_mode \<Rightarrow> nat \<Rightarrow> nat \<Rightarrow> nat" where
  "round_div mode n d =
     (let q = n div d; m = n mod d in
      case mode of JS_RNDZ \<Rightarrow> q
      | JS_RNDN \<Rightarrow> if d < 2 * m \<or> 2 * m = d \<and> odd q then q + 1 else q
      | JS_RNDNA \<Rightarrow> if d \<le> 2 * m then q + 1 else q)"

lemma round_add_one_val:
  assumes "1 \<le> s"
  shows "limbs_val r div 2 ^ s + unat (round_add_one r s mode) = round_div mode (limbs_val r) (2 ^ s)"
proof -
  define v h where "v = limbs_val r" and "h = (2 :: nat) ^ (s - 1)"
  have d: "2 ^ s = 2 * h" using assms by (simp add: h_def flip: power_Suc)
  have h: "0 < h" by (simp add: h_def)
  have m: "v mod (2 * h) = h * (v div h mod 2) + v mod h"
    by (metis mod_mult2_eq mult.commute)
  have lt: "v mod h < h" using h by simp
  have b1: "mpb_get_bit r (s - 1) \<noteq> 0 \<longleftrightarrow> odd (v div h)" by (simp add: mpb_get_bit_val v_def h_def)
  have st: "sticky_bits r s = 0 \<longleftrightarrow> v mod h = 0" using sticky_bits_val [OF assms] by (simp add: v_def h_def)
  have b2: "mpb_get_bit r s = (if odd (v div (2 * h)) then 1 else 0)" by (simp add: mpb_get_bit_val v_def d)
  show ?thesis
  proof (cases "odd (v div h)")
    case True
    then have m': "v mod (2 * h) = h + v mod h" using m by (simp add: odd_iff_mod_2_eq_one)
    then show ?thesis
      unfolding round_add_one_def round_div_def v_def [symmetric] d
      using True b1 st b2 by (cases mode) auto
  next
    case False
    then have m': "v mod (2 * h) = v mod h" using m by (simp add: even_iff_mod_2_eq_zero)
    then show ?thesis
      unfolding round_add_one_def round_div_def v_def [symmetric] d
      using False b1 lt by (cases mode) auto
  qed
qed

lemma round_add_one_01: "round_add_one r s mode = 0 \<or> round_add_one r s mode = 1"
  by (cases mode) (auto simp: round_add_one_def mpb_get_bit_val Let_def)

lemma mp_add_one_val:
  assumes r: "mpb_ok r" and res: "mp_add_ui r 1 = (tab, a)"
  defines "r' \<equiv> if a \<noteq> 0 then tab @ [a] else tab"
  shows "limbs_val r' = limbs_val r + 1" and "mpb_ok r'"
proof -
  have v: "length tab = length r" "limbs_val tab + 2 ^ (32 * length r) * unat a = limbs_val r + 1"
    using mp_add_ui_val [OF res] by simp_all
  then show v': "limbs_val r' = limbs_val r + 1" by (auto simp: r'_def limbs_val_append)
  show "mpb_ok r'"
  proof (cases "a = 0")
    case True
    then show ?thesis using r v v' unfolding mpb_ok_iff r'_def by auto
  qed (simp add: mpb_ok_def r'_def)
qed

lemma mpb_ok_drop: "mpb_ok r \<Longrightarrow> l < length r \<Longrightarrow> mpb_ok (drop l r)"
  by (auto simp: mpb_ok_def)

lemma shl_round_val:
  assumes "r \<noteq> []" and "s \<le> 31"
  defines "r' \<equiv> if s \<noteq> 0 then let (tab, h) = mp_shl r s 0 in mpb_renorm (tab @ [h]) else r"
  shows "limbs_val r' = limbs_val r * 2 ^ s" and "mpb_ok r \<Longrightarrow> mpb_ok r'"
proof -
  obtain tab h where m: "mp_shl r s 0 = (tab, h)" by fastforce
  have "limbs_val tab + 2 ^ (32 * length r) * unat h = limbs_val r * 2 ^ s \<and> length tab = length r" if "s \<noteq> 0"
    using mp_shl_val [OF m] that assms(2) by simp
  then show "limbs_val r' = limbs_val r * 2 ^ s" by (auto simp: r'_def m limbs_val_append)
  show "mpb_ok r \<Longrightarrow> mpb_ok r'" by (auto simp: r'_def m intro: mpb_renorm_ok)
qed

lemma shr_round_val:
  assumes "mpb_ok r" and "s \<le> 31"
  defines "r' \<equiv> if s \<noteq> 0 then mpb_renorm (fst (mp_shr r s 0)) else r"
  shows "limbs_val r' = limbs_val r div 2 ^ s" and "mpb_ok r'"
proof -
  obtain tab l where m: "mp_shr r s 0 = (tab, l)" by fastforce
  have v: "length tab = length r \<and> limbs_val tab = limbs_val r div 2 ^ s" if "s \<noteq> 0"
    using mp_shr_val [OF m] that assms(2) by simp
  then show "limbs_val r' = limbs_val r div 2 ^ s" by (auto simp: r'_def m)
  have "tab \<noteq> []" if "s \<noteq> 0" using v [OF that] assms(1) by (auto simp: mpb_ok_def)
  then show "mpb_ok r'" using assms(1) by (auto simp: r'_def m intro: mpb_renorm_ok)
qed

text \<open>The shift of a whole number, with its rounding.\<close>

lemma mpb_shr_round_left:
  assumes "mpb_ok r" and "s \<le> 0"
  shows "limbs_val (mpb_shr_round r s mode) = limbs_val r * 2 ^ nat (- s)"
    and "limbs_val r \<noteq> 0 \<Longrightarrow> mpb_ok (mpb_shr_round r s mode)"
proof -
  define n where "n = nat (- s)"
  define r1 where "r1 = (if n mod 32 \<noteq> 0 then let (tab, h) = mp_shl r (n mod 32) 0 in mpb_renorm (tab @ [h]) else r)"
  have ne: "r \<noteq> []" using assms(1) by (auto simp: mpb_ok_def)
  have m: "n mod 32 \<le> 31" by presburger
  have r1: "limbs_val r1 = limbs_val r * 2 ^ (n mod 32)" "mpb_ok r1"
    unfolding r1_def using shl_round_val [OF ne m] assms(1) by blast+
  have e: "mpb_shr_round r s mode = (if s = 0 then r else replicate (n div 32) 0 @ r1)"
    using assms(2) by (auto simp: mpb_shr_round_def r1_def n_def Let_def)
  have p: "2 ^ (32 * (n div 32)) * 2 ^ (n mod 32) = (2 :: nat) ^ n" by (simp flip: power_add)
  have v: "limbs_val (replicate (n div 32) 0 @ r1) = limbs_val r * 2 ^ n"
    unfolding limbs_val_append using r1(1) by (simp flip: p)
  then show "limbs_val (mpb_shr_round r s mode) = limbs_val r * 2 ^ nat (- s)"
    using e by (auto simp: n_def)
  assume nz: "limbs_val r \<noteq> 0"
  then have "limbs_val r1 \<noteq> 0" using r1(1) by simp
  then have "last r1 \<noteq> 0" using r1(2) unfolding mpb_ok_def by (cases r1) (auto split: if_splits)
  then show "mpb_ok (mpb_shr_round r s mode)" using r1(2) assms(1) e by (auto simp: mpb_ok_def)
qed

lemma mpb_shr_round_right:
  assumes "mpb_ok r" and "s > 0"
  shows "limbs_val (mpb_shr_round r s mode) = round_div mode (limbs_val r) (2 ^ nat s)"
    and "mpb_ok (mpb_shr_round r s mode)"
proof -
  define n where "n = nat s"
  have n: "1 \<le> n" using assms(2) by (simp add: n_def)
  define one where "one = round_add_one r n mode"
  note rv = round_add_one_val [OF n, of r mode, folded one_def]
  define l where "l = n div 32"
  have p: "2 ^ n = 2 ^ (32 * l) * (2 :: nat) ^ (n mod 32)" by (simp add: l_def flip: power_add)
  have "limbs_val (mpb_shr_round r s mode) = limbs_val r div 2 ^ n + unat one \<and> mpb_ok (mpb_shr_round r s mode)"
  proof (cases "l \<ge> length r")
    case True
    then have "mpb_shr_round r s mode = [one]"
      using assms(2) by (simp add: mpb_shr_round_def l_def n_def one_def Let_def)
    moreover have "limbs_val r div 2 ^ n = 0"
      unfolding p div_mult2_eq using True limbs_val_drop [of l r] by simp
    ultimately show ?thesis by (simp add: mpb_ok_def)
  next
    case False
    define r1 where "r1 = (if n mod 32 \<noteq> 0 then mpb_renorm (fst (mp_shr (drop l r) (n mod 32) 0)) else drop l r)"
    have m: "n mod 32 \<le> 31" by presburger
    have r1: "limbs_val r1 = limbs_val r div 2 ^ n" "mpb_ok r1"
      using shr_round_val [OF mpb_ok_drop [OF assms(1)] m, of l, folded r1_def] False
      by (simp_all add: limbs_val_drop p div_mult2_eq)
    have e: "mpb_shr_round r s mode = (if one \<noteq> 0 then let (tab, a) = mp_add_ui r1 1 in if a \<noteq> 0 then tab @ [a] else tab else r1)"
      using False assms(2) by (simp add: mpb_shr_round_def l_def n_def one_def r1_def Let_def)
    obtain tab a where t: "mp_add_ui r1 1 = (tab, a)" by fastforce
    have "one = 0 \<or> one = 1" unfolding one_def by (rule round_add_one_01)
    then show ?thesis using mp_add_one_val [OF r1(2) t] r1 e t by auto
  qed
  with rv show "limbs_val (mpb_shr_round r s mode) = round_div mode (limbs_val r) (2 ^ nat s)"
    and "mpb_ok (mpb_shr_round r s mode)" by (simp_all add: n_def)
qed

lemma limbs_val_lt_hd:
  assumes "length xs = length ys" and "unat x < unat y"
  shows "limbs_val (xs @ [x]) < limbs_val (ys @ [y])"
proof -
  have "limbs_val xs + 2 ^ (32 * length xs) * unat x < 2 ^ (32 * length xs) * (unat x + 1)"
    using limbs_val_bound [of xs] by simp
  also have "\<dots> \<le> 2 ^ (32 * length xs) * unat y" using assms(2) by (intro mult_le_mono2) simp
  also have "\<dots> \<le> limbs_val ys + 2 ^ (32 * length ys) * unat y" using assms(1) by simp
  finally show ?thesis by (simp add: limbs_val_append)
qed

lemma cmp_from_top_val:
  "length xs = length ys \<Longrightarrow> cmp_from_top xs ys = sgn (int (limbs_val (rev xs)) - int (limbs_val (rev ys)))"
proof (induction xs ys rule: list_induct2)
  case (Cons x xs y ys)
  show ?case
  proof (cases x y rule: linorder_cases)
    case less
    then have "limbs_val (rev xs @ [x]) < limbs_val (rev ys @ [y])"
      using Cons(1) by (intro limbs_val_lt_hd) (simp_all add: word_less_nat_alt)
    with less show ?thesis by (auto simp: sgn_if)
  next
    case equal
    with Cons show ?thesis by (simp add: limbs_val_append)
  next
    case greater
    then have "limbs_val (rev ys @ [y]) < limbs_val (rev xs @ [x])"
      using Cons(1) by (intro limbs_val_lt_hd) (simp_all add: word_less_nat_alt)
    with greater show ?thesis by (auto simp: sgn_if)
  qed
qed simp

lemma shorter_smaller:
  assumes "mpb_ok a" "mpb_ok b" "length a < length b"
  shows "limbs_val a < limbs_val b"
proof -
  have "a \<noteq> []" using assms(1) by (simp add: mpb_ok_def)
  then have "0 < length a" by simp
  with assms(3) have a: "length b > 1" by linarith
  have "limbs_val a < 2 ^ (32 * length a)" by (rule limbs_val_bound)
  also have "\<dots> \<le> 2 ^ (32 * (length b - 1))" using assms(3) by (intro power_increasing) auto
  also have "\<dots> \<le> limbs_val b" using assms(2) a unfolding mpb_ok_iff by simp
  finally show ?thesis .
qed

lemma mpb_cmp_val:
  assumes "mpb_ok a" "mpb_ok b"
  shows "mpb_cmp a b = sgn (int (limbs_val a) - int (limbs_val b))"
  using shorter_smaller [OF assms] shorter_smaller [OF assms(2,1)] cmp_from_top_val [of "rev a" "rev b"]
  by (auto simp: mpb_cmp_def sgn_if)

lemma mpb_set_u64_val: "limbs_val (mpb_set_u64 m) = unat m" "mpb_ok (mpb_set_u64 m)"
proof -
  have "unat m mod 2 ^ 32 + 2 ^ 32 * (unat m div 2 ^ 32) = unat m" by simp
  moreover have "ucast (drop_bit 32 m) = (0 :: limb) \<longleftrightarrow> unat m div 2 ^ 32 = 0"
    using unat_high_limb [of m] unat_eq_0 by metis
  ultimately show "limbs_val (mpb_set_u64 m) = unat m"
    using unat_high_limb [of m] unat_ucast_limb [of m] by (auto simp: mpb_set_u64_def Let_def)
qed (simp add: mpb_set_u64_def mpb_ok_def Let_def)

lemma mpb_get_u64_val:
  assumes "mpb_ok r" "limbs_val r < 2 ^ 64"
  shows "unat (mpb_get_u64 r) = limbs_val r"
proof -
  have "length r \<le> 2"
  proof (rule ccontr)
    assume l: "\<not> length r \<le> 2"
    then have "(2 :: nat) ^ 64 \<le> 2 ^ (32 * (length r - 1))" by (intro power_increasing) auto
    also have "\<dots> \<le> limbs_val r" using assms(1) l unfolding mpb_ok_iff by simp
    finally show False using assms(2) by simp
  qed
  moreover have "r \<noteq> []" using assms(1) by (simp add: mpb_ok_def)
  ultimately consider x where "r = [x]" | x y where "r = [x, y]"
    by (cases r; cases "tl r") (auto simp: le_Suc_eq)
  then show ?thesis
  proof cases
    case 2
    then show ?thesis using unat_dlimb [of y x] by (simp add: mpb_get_u64_def or.commute)
  qed (simp add: mpb_get_u64_def)
qed

lemma mpb_floor_log2_val:
  assumes "mpb_ok a" "limbs_val a \<noteq> 0"
  shows "mpb_floor_log2 a = int (bit_len (limbs_val a)) - 1"
proof -
  define n where "n = length a - 1"
  have ne: "a \<noteq> []" and len: "length a = Suc n" using assms(1) by (auto simp: mpb_ok_def n_def)
  have v: "limbs_val a = limbs_val (butlast a) + 2 ^ (32 * n) * unat (last a)"
    using limbs_val_append [of "butlast a" "[last a]"] ne by (simp add: n_def)
  have lo: "limbs_val (butlast a) < 2 ^ (32 * n)" using limbs_val_bound [of "butlast a"] by (simp add: n_def)
  have nz: "last a \<noteq> 0" using assms ne by (cases a) (auto simp: mpb_ok_def split: if_splits)
  then have nz': "unat (last a) \<noteq> 0" by (simp add: unat_eq_0)
  define k where "k = bit_len (unat (last a))"
  have k: "2 ^ (k - 1) \<le> unat (last a)" "unat (last a) < 2 ^ k" "0 < k" "k \<le> 32"
    using bit_len_bounds [OF nz'] bit_len_le [OF limb_bound [of "last a"]] by (auto simp: k_def)
  have "2 ^ (32 * n + (k - 1)) \<le> 2 ^ (32 * n) * unat (last a)" unfolding power_add using k by (intro mult_le_mono2)
  then have l: "2 ^ (32 * n + (k - 1)) \<le> limbs_val a" unfolding v by linarith
  have "limbs_val a < 2 ^ (32 * n) * (unat (last a) + 1)" unfolding v using lo by simp
  also have "\<dots> \<le> 2 ^ (32 * n) * 2 ^ k" using k by (intro mult_le_mono2) simp
  finally have "limbs_val a < 2 ^ Suc (32 * n + (k - 1))" using k by (simp add: power_add [symmetric] flip: power_Suc)
  with l have "bit_len (limbs_val a) = Suc (32 * n + (k - 1))" by (intro bit_len_eq)
  moreover have "mpb_floor_log2 a = int (Suc n) * 32 - 1 - int (32 - k)"
    using nz by (simp add: mpb_floor_log2_def len clz32_def k_def Let_def)
  ultimately show ?thesis using k by simp
qed

subsection \<open>Properties\<close>

text \<open>
  Division without dividing. For a base and an exponent whose power fits a limb,
  \<^verbatim>\<open>pow_ui_inv\<close> gives a normalised divisor, its inverse (from the table or computed) and a shift
  with which \<^verbatim>\<open>mp_div1norm\<close>, using multiplications only, computes the exact quotient and
  remainder of any number by the power.
\<close>

theorem div_by_power_exact:
  assumes "a \<noteq> 0" and "unat a ^ unat b < 2 ^ 32"
    and "pow_ui_inv a b = (d, d_inv, shift)" and "mp_div1norm tab d 0 d_inv shift = (tab', r)"
  shows "limbs_val tab' = limbs_val tab div (unat a ^ unat b) \<and> unat r = limbs_val tab mod (unat a ^ unat b) \<and>
    length tab' = length tab"
proof -
  have p: "unat d = unat a ^ unat b * 2 ^ shift" "2 ^ 31 \<le> unat d" "shift \<le> 31"
    and inv: "d_inv = udiv1norm_init d" using pow_ui_inv_val [OF assms(2,1,3)] by simp_all
  note v = mp_div1norm_val [OF assms(4) [unfolded inv] p]
  show ?thesis using divmod_of [OF v(3), of "limbs_val tab'"] v(1,2) by simp
qed

theorem div_by_power_exact_witness:
  "case pow_ui_inv 5 13 of (d, d_inv, shift) \<Rightarrow>
   case mp_div1norm [7, 9] d 0 d_inv shift of (tab', r) \<Rightarrow>
     limbs_val tab' = limbs_val [7, 9] div 5 ^ 13 \<and> unat r = limbs_val [7, 9] mod 5 ^ 13"
  using div_by_power_exact [of 5 13 _ _ _ "[7, 9]"] by (auto split: prod.split)

text \<open>
  Shifting with rounding. On a normalised number, \<^verbatim>\<open>mpb_shr_round\<close> multiplies by the power of
  two for a negative shift, and for a positive one divides by it and rounds as the mode says: to
  zero, to the nearest with ties to even, or to the nearest with ties away from zero. The result
  is normalised again.
\<close>

theorem shr_round_exact:
  assumes "mpb_ok r" and "limbs_val r \<noteq> 0"
  shows "limbs_val (mpb_shr_round r shift mode) =
      (if shift \<le> 0 then limbs_val r * 2 ^ nat (- shift) else round_div mode (limbs_val r) (2 ^ nat shift)) \<and>
    mpb_ok (mpb_shr_round r shift mode)"
  using mpb_shr_round_left [OF assms(1), of shift mode] mpb_shr_round_right [OF assms(1), of shift mode] assms(2)
  by auto

theorem shr_round_exact_witness:
  "limbs_val (mpb_shr_round [0xffffffff, 5] 1 JS_RNDN) = round_div JS_RNDN (5 * 2 ^ 32 + 0xffffffff) 2 \<and>
   limbs_val (mpb_shr_round [3] (-40) JS_RNDZ) = 3 * 2 ^ 40"
  using shr_round_exact [of "[0xffffffff, 5]" 1 JS_RNDN] shr_round_exact [of "[3]" "-40" JS_RNDZ]
  by (simp add: mpb_ok_def)

end
