(* ===== verification/Itoa.thy ===== *)
theory Itoa
  imports Limbs
begin

text \<open>
  The integer printers of \<^verbatim>\<open>dtoa.c\<close>: fixed-length digit writers, and the conversions of 32-bit
  and 64-bit integers in base 10 and in any base up to 36. The characters written to the output
  buffer are the result string; a local buffer filled from its end is the string consed so far.
  Signed arguments are words read with \<^const>\<open>sint\<close>. They are shown to print the digits of the
  number, without leading zeros, inside their local buffers.
\<close>

subsection \<open>Fixed length\<close>

text \<open>The character of a digit: \<^verbatim>\<open>digit + '0'\<close>, or \<^verbatim>\<open>digit + 'a' - 10\<close>.\<close>

definition a_digit :: "nat \<Rightarrow> char" where
  "a_digit digit = (if digit < 10 then char_of (digit + 48) else char_of (digit + (97 - 10)))"

primrec u32toa_len :: "u32 \<Rightarrow> nat \<Rightarrow> string" where
  "u32toa_len n 0 = []"
| "u32toa_len n (Suc i) = u32toa_len (n div 10) i @ [char_of (unat (n mod 10) + 48)]"

primrec u64toa_bin_loop :: "u64 \<Rightarrow> nat \<Rightarrow> u32 \<Rightarrow> nat \<Rightarrow> string" where
  "u64toa_bin_loop n radix_bits msk 0 = []"
| "u64toa_bin_loop n radix_bits msk (Suc i) =
     u64toa_bin_loop (drop_bit radix_bits n) radix_bits msk i @ [a_digit (unat (n AND ucast msk))]"

definition u64toa_bin_len :: "u64 \<Rightarrow> nat \<Rightarrow> nat \<Rightarrow> string" where
  "u64toa_bin_len n radix_bits len = u64toa_bin_loop n radix_bits (push_bit radix_bits 1 - 1) len"

primrec limb_loop :: "limb \<Rightarrow> u32 \<Rightarrow> nat \<Rightarrow> string" where
  "limb_loop n radix 0 = []"
| "limb_loop n radix (Suc i) = limb_loop (n div radix) radix i @ [a_digit (unat (n mod radix))]"

definition limb_to_a :: "limb \<Rightarrow> u32 \<Rightarrow> nat \<Rightarrow> string" where
  "limb_to_a n radix len = (if radix = 10 then u32toa_len n len else limb_loop n radix len)"

subsection \<open>As many digits as needed\<close>

lemma div_word_less: "b > 1 \<Longrightarrow> n \<noteq> 0 \<Longrightarrow> unat (n div b) < unat (n :: 'a :: len word)"
  by (simp add: unat_div_distrib word_less_nat_alt unat_gt_0 div_less_dividend)

text \<open>The do-while loops: the characters written so far, the last one first.\<close>

function u32toa_loop :: "u32 \<Rightarrow> string \<Rightarrow> string" where
  "u32toa_loop n q =
     (let q = char_of (unat (n mod 10) + 48) # q; n = n div 10
      in if n \<noteq> 0 then u32toa_loop n q else q)"
  by pat_completeness auto
termination
  by (relation "measure (\<lambda>(n, q). unat n)") (auto intro!: div_word_less)

declare u32toa_loop.simps [simp del]

definition u32toa :: "u32 \<Rightarrow> string" where
  "u32toa n = u32toa_loop n []"

definition i32toa :: "32 word \<Rightarrow> string" where
  "i32toa n = (if sint n \<ge> 0 then u32toa n else CHR ''-'' # u32toa (- n))"

definition u64toa :: "u64 \<Rightarrow> string" where
  "u64toa n =
     (if n < 0x100000000 then u32toa (ucast n)
      else
        let n1 = n div 1000000000; n = n mod 1000000000;
            q = (if n1 \<ge> 0x100000000 then
                   let n2 = ucast (n1 div 1000000000) :: u32; n1 = n1 mod 1000000000;
                       (q, n2) = (if n2 \<ge> 10 then ([char_of (unat (n2 div 10) + 48)], n2 mod 10) else ([], n2))
                   in q @ [char_of (unat n2 + 48)] @ u32toa_len (ucast n1) 9
                 else u32toa (ucast n1))
        in q @ u32toa_len (ucast n) 9)"

definition i64toa :: "64 word \<Rightarrow> string" where
  "i64toa n = (if sint n \<ge> 0 then u64toa n else CHR ''-'' # u64toa (- n))"

text \<open>The loop is entered for radixes from 3 on only; the test of the radix makes it total.\<close>

function radix_loop :: "u64 \<Rightarrow> u32 \<Rightarrow> string \<Rightarrow> string" where
  "radix_loop n radix q =
     (let q = a_digit (unat (n mod ucast radix)) # q; n' = n div ucast radix
      in if n' \<noteq> 0 \<and> radix \<ge> 2 then radix_loop n' radix q else q)"
  by pat_completeness auto
termination
  by (relation "measure (\<lambda>(n, radix, q). unat n)")
    (auto intro!: div_word_less simp: word_less_nat_alt word_le_nat_alt)

declare radix_loop.simps [simp del]

definition u64toa_radix :: "u64 \<Rightarrow> u32 \<Rightarrow> string" where
  "u64toa_radix n radix =
     (if radix = 10 then u64toa n
      else if radix AND (radix - 1) = 0 then
        let radix_bits = 31 - clz32 radix;
            l = (if n = 0 then 1 else (64 - clz64 n + radix_bits - 1) div radix_bits)
        in u64toa_bin_len n radix_bits l
      else radix_loop n radix [])"

definition i64toa_radix :: "64 word \<Rightarrow> u32 \<Rightarrow> string" where
  "i64toa_radix n radix = (if sint n \<ge> 0 then u64toa_radix n radix else CHR ''-'' # u64toa_radix (- n) radix)"

subsection \<open>The digits of a number\<close>

primrec fixed_digits :: "nat \<Rightarrow> nat \<Rightarrow> nat \<Rightarrow> string" where
  "fixed_digits r 0 n = []"
| "fixed_digits r (Suc k) n = fixed_digits r k (n div r) @ [digit_char (n mod r)]"

lemma a_digit_char: "a_digit d = digit_char d"
  by (simp add: a_digit_def digit_char_def add.commute)

lemma length_fixed_digits [simp]: "length (fixed_digits r k n) = k"
  by (induction k arbitrary: n) simp_all

text \<open>The digits of a number split at position \<open>k\<close>.\<close>

lemma radix_digits_split:
  assumes "2 \<le> r" "0 < n" "m < r ^ k"
  shows "radix_digits r (n * r ^ k + m) = radix_digits r n @ fixed_digits r k m"
  using assms(3)
proof (induction k arbitrary: m)
  case (Suc k)
  have md: "m div r < r ^ k" using Suc(2) assms(1) by (simp add: less_mult_imp_div_less mult.commute)
  have "(n * r ^ Suc k + m) div r = (m + (n * r ^ k) * r) div r" by (simp add: algebra_simps)
  also have "\<dots> = n * r ^ k + m div r" using assms(1) by (subst div_mult_self1) simp_all
  finally have d: "(n * r ^ Suc k + m) div r = n * r ^ k + m div r" .
  have "(n * r ^ Suc k + m) mod r = (m + (n * r ^ k) * r) mod r" by (simp add: algebra_simps)
  then have mm: "(n * r ^ Suc k + m) mod r = m mod r" by simp
  have "r ^ Suc k \<ge> r" using assms(1) by simp
  then have "n * r ^ Suc k + m \<ge> r" using assms(2) by (metis le_add1 le_trans mult_le_mono1 nat_mult_1 One_nat_def Suc_leI)
  then have "radix_digits r (n * r ^ Suc k + m) = radix_digits r (n * r ^ k + m div r) @ [digit_char (m mod r)]"
    using radix_digits_step [OF assms(1), of "n * r ^ Suc k + m"] d mm by simp
  with Suc(1) [OF md] show ?case by simp
qed simp

lemma radix_digits_fixed:
  assumes "2 \<le> r" "n < r ^ Suc k" "r ^ k \<le> n \<or> k = 0"
  shows "fixed_digits r (Suc k) n = radix_digits r n"
  using assms(2,3)
proof (induction k arbitrary: n)
  case 0
  then show ?case using radix_digits_step [OF assms(1), of n] by simp
next
  case (Suc k)
  then have n: "r ^ Suc k \<le> n" by simp
  have "n div r < r ^ Suc k" using Suc(2) assms(1) by (simp add: less_mult_imp_div_less mult.commute)
  moreover have "r ^ k \<le> n div r" using n assms(1) by (simp add: less_eq_div_iff_mult_less_eq mult.commute)
  ultimately have "fixed_digits r (Suc k) (n div r) = radix_digits r (n div r)" using Suc(1) by blast
  moreover have "\<not> n < r" using n assms(1) by (metis leD less_le_trans linorder_not_le one_le_numeral order_trans power_Suc2 le_trans mult_le_mono1 nat_mult_1 one_le_power)
  ultimately show ?case using radix_digits_step [OF assms(1), of n] by simp
qed

lemma length_radix_digits:
  assumes "2 \<le> r" "n < r ^ Suc k"
  shows "length (radix_digits r n) \<le> Suc k"
  using assms(2)
proof (induction k arbitrary: n)
  case 0
  then show ?case using radix_digits_step [OF assms(1), of n] by simp
next
  case (Suc k)
  have "n div r < r ^ Suc k" using Suc(2) assms(1) by (simp add: less_mult_imp_div_less mult.commute)
  with Suc(1) show ?case using radix_digits_step [OF assms(1), of n] by auto
qed

subsection \<open>The writers on values\<close>

lemma digit48: "d < 10 \<Longrightarrow> char_of (d + 48) = digit_char d"
  by (simp add: digit_char_def add.commute)

lemma unat_divmod10: "unat (n mod 10 :: u32) = unat n mod 10" "unat (n div 10 :: u32) = unat n div 10"
  by (simp_all add: unat_mod_distrib unat_div_distrib)

lemma word_div_eq_0: "(n :: 'a :: len word) div b = 0 \<longleftrightarrow> unat n < unat b \<or> b = 0"
  by (simp add: unat_div_distrib div_eq_0_iff unat_eq_0 disj_commute flip: unat_eq_0 [of "n div b"])

lemma u32toa_len_val: "u32toa_len n k = fixed_digits 10 k (unat n)"
proof (induction k arbitrary: n)
  case (Suc k)
  show ?case by (simp add: Suc unat_divmod10 digit48)
qed simp

lemma limb_to_a_val: "limb_to_a n radix k = fixed_digits (unat radix) k (unat n)"
proof (cases "radix = 10")
  case True
  then show ?thesis by (simp add: limb_to_a_def u32toa_len_val)
next
  case False
  have "limb_loop n radix k = fixed_digits (unat radix) k (unat n)"
    by (induction k arbitrary: n) (simp_all add: a_digit_char unat_div_distrib unat_mod_distrib)
  with False show ?thesis by (simp add: limb_to_a_def)
qed

lemma u64toa_bin_len_val:
  assumes "b < 32"
  shows "u64toa_bin_len n b k = fixed_digits (2 ^ b) k (unat n)"
proof -
  have m: "(ucast (push_bit b 1 - 1 :: u32) :: u64) = mask b"
  proof -
    have "(push_bit b 1 - 1 :: u32) = mask b" by (simp add: mask_eq_exp_minus_1 push_bit_of_1)
    then show ?thesis using assms by (simp add: ucast_mask_eq min_def)
  qed
  have "unat (n AND mask b) = unat n mod 2 ^ b" for n :: u64
    using assms by (simp add: unat_take32 flip: take_bit_eq_mask)
  then have "u64toa_bin_loop n b (push_bit b 1 - 1) k = fixed_digits (2 ^ b) k (unat n)"
    by (induction k arbitrary: n) (simp_all add: m [simplified] a_digit_char unat_drop)
  then show ?thesis by (simp add: u64toa_bin_len_def)
qed

lemma u32toa_loop_val: "u32toa_loop n q = dec_digits (unat n) @ q"
proof (induction n q rule: u32toa_loop.induct)
  case (1 n q)
  have c: "char_of (unat (n mod 10) + 48) = digit_char (unat n mod 10)"
    by (simp add: unat_divmod10 digit48)
  have z: "n div 10 = 0 \<longleftrightarrow> unat n < 10" by (simp add: word_div_eq_0)
  show ?case
  proof (cases "n div 10 = 0")
    case True
    with z have "unat n < 10" by simp
    with True c show ?thesis by (subst u32toa_loop.simps) (simp add: Let_def radix_digits_step)
  next
    case False
    with z have "\<not> unat n < 10" by simp
    then have "dec_digits (unat n) = dec_digits (unat n div 10) @ [digit_char (unat n mod 10)]"
      by (simp add: radix_digits_step [of 10 "unat n"])
    with 1 False c show ?thesis by (subst u32toa_loop.simps) (simp add: Let_def unat_divmod10)
  qed
qed

lemma u32toa_val: "u32toa n = dec_digits (unat n)"
  by (simp add: u32toa_def u32toa_loop_val)

lemma radix_loop_val:
  assumes "radix \<ge> 2"
  shows "radix_loop n radix q = radix_digits (unat radix) (unat n) @ q"
  using assms
proof (induction n radix q rule: radix_loop.induct)
  case (1 n radix q)
  have r: "2 \<le> unat radix" using 1(2) by (simp add: word_le_nat_alt)
  have z: "n div ucast radix = 0 \<longleftrightarrow> unat n < unat radix"
    using r word_div_eq_0 [of n "ucast radix"] unat_ucast_dlimb [of radix] by (metis not_numeral_le_zero unat_0)
  have c: "a_digit (unat (n mod ucast radix)) = digit_char (unat n mod unat radix)"
    by (simp add: a_digit_char unat_mod_distrib)
  show ?case
  proof (cases "n div ucast radix = 0")
    case True
    with z have "unat n < unat radix" by simp
    with True c r show ?thesis by (subst radix_loop.simps) (simp add: Let_def radix_digits_step)
  next
    case False
    with z have "\<not> unat n < unat radix" by simp
    then have "radix_digits (unat radix) (unat n) = radix_digits (unat radix) (unat n div unat radix) @ [digit_char (unat n mod unat radix)]"
      using r by (simp add: radix_digits_step [of "unat radix" "unat n"])
    with 1 False c show ?thesis by (subst radix_loop.simps) (simp add: Let_def unat_div_distrib)
  qed
qed

lemma u64toa_val: "u64toa n = dec_digits (unat n)"
proof (cases "n < 0x100000000")
  case True
  then have "unat n < 2 ^ 32" by (simp add: word_less_nat_alt)
  with True show ?thesis by (simp add: u64toa_def u32toa_val unat_ucast_limb)
next
  case False
  define n1 m where "n1 = n div 1000000000" and "m = n mod 1000000000"
  have big: "2 ^ 32 \<le> unat n" "unat n < 2 ^ 64" using False unat_bound [of n] by (simp_all add: word_less_nat_alt)
  have n1: "unat n1 = unat n div 1000000000" and m: "unat m = unat n mod 1000000000"
    by (simp_all add: n1_def m_def unat_div_distrib unat_mod_distrib)
  have m9: "unat m < 10 ^ 9" using m by simp
  then have mu: "unat (ucast m :: u32) = unat m" by (simp add: unat_ucast_limb)
  have n: "unat n = unat n1 * 10 ^ 9 + unat m" unfolding n1 m by simp
  have pos: "0 < unat n1" using big(1) n1 by (simp add: div_greater_zero_iff)
  have split: "dec_digits (unat n) = dec_digits (unat n1) @ fixed_digits 10 9 (unat m)"
    unfolding n by (rule radix_digits_split [OF _ pos m9]) simp
  show ?thesis
  proof (cases "n1 \<ge> 0x100000000")
    case F: False
    then have "unat n1 < 2 ^ 32" by (simp add: word_le_nat_alt)
    then show ?thesis
      using False F split unfolding u64toa_def Let_def n1_def [symmetric] m_def [symmetric]
      by (simp add: u32toa_val u32toa_len_val mu unat_ucast_limb [of n1])
  next
    case True
    define n2 m1 where "n2 = (ucast (n1 div 1000000000) :: u32)" and "m1 = n1 mod 1000000000"
    have n1b: "2 ^ 32 \<le> unat n1" "unat n1 < 2 ^ 64 div 10 ^ 9 + 1"
      using True big(2) n1 by (simp_all add: word_le_nat_alt)
    have n2: "unat n2 = unat n1 div 10 ^ 9" and m1: "unat m1 = unat n1 mod 10 ^ 9"
      using n1b(2) by (simp_all add: n2_def m1_def unat_ucast_limb unat_div_distrib unat_mod_distrib)
    have m1b: "unat m1 < 10 ^ 9" using m1 by simp
    then have m1u: "unat (ucast m1 :: u32) = unat m1" by (simp add: unat_ucast_limb)
    have n1': "unat n1 = unat n2 * 10 ^ 9 + unat m1" unfolding n2 m1 by simp
    have n2b: "0 < unat n2" "unat n2 < 100" using n1b n2 by (simp_all add: div_greater_zero_iff)
    have split1: "dec_digits (unat n1) = dec_digits (unat n2) @ fixed_digits 10 9 (unat m1)"
      unfolding n1' by (rule radix_digits_split [OF _ n2b(1) m1b]) simp
    have "(case (if n2 \<ge> 10 then ([char_of (unat (n2 div 10) + 48)], n2 mod 10) else ([], n2)) of
        (q, n2) \<Rightarrow> q @ [char_of (unat n2 + 48)]) = dec_digits (unat n2)"
      using n2b(2) radix_digits_step [of 10 "unat n2"] radix_digits_step [of 10 "unat n2 div 10"]
      by (auto simp: unat_divmod10 word_le_nat_alt digit48)
    then show ?thesis
      using False True split split1
      unfolding u64toa_def Let_def n1_def [symmetric] m_def [symmetric] n2_def [symmetric] m1_def [symmetric]
      by (auto simp: u32toa_len_val mu m1u split: if_splits)
  qed
qed

lemma pow2_radix:
  assumes "2 \<le> radix" "radix \<le> 36" "radix AND (radix - 1) = (0 :: u32)"
  shows "unat radix = 2 ^ (31 - clz32 radix) \<and> 1 \<le> 31 - clz32 radix \<and> 31 - clz32 radix \<le> 5"
proof -
  have t: "list_all (\<lambda>k. (of_nat k :: u32) AND (of_nat k - 1) = 0 \<longrightarrow> k \<in> set [2, 4, 8, 16, 32]) [2..<37]"
    by code_simp
  have "unat radix \<in> {2..<37}" using assms(1,2) by (simp add: word_le_nat_alt)
  from bspec [OF t [unfolded list_all_iff set_upt] this]
  have "unat radix \<in> set [2, 4, 8, 16, 32]" using assms(3) by simp
  then have "unat radix = 2 \<or> unat radix = 4 \<or> unat radix = 8 \<or> unat radix = 16 \<or> unat radix = 32" by simp
  then show ?thesis by (auto simp: clz32_def bit_len_num)
qed

lemma u64toa_radix_val:
  assumes "2 \<le> radix" "radix \<le> 36"
  shows "u64toa_radix n radix = radix_digits (unat radix) (unat n)"
proof -
  consider "radix = 10" | "radix \<noteq> 10" "radix AND (radix - 1) = 0" | "radix \<noteq> 10" "radix AND (radix - 1) \<noteq> 0" by blast
  then show ?thesis
  proof cases
    case 1
    then show ?thesis by (simp add: u64toa_radix_def u64toa_val)
  next
    case 2
    define b where "b = 31 - clz32 radix"
    have b: "unat radix = 2 ^ b" "1 \<le> b" "b \<le> 5" using pow2_radix [OF assms 2(2)] by (simp_all add: b_def)
    define l where "l = (if n = 0 then 1 else (64 - clz64 n + b - 1) div b)"
    have r: "u64toa_radix n radix = fixed_digits (2 ^ b) l (unat n)"
      using 2 b(3) by (simp add: u64toa_radix_def b_def [symmetric] l_def u64toa_bin_len_val Let_def)
    show ?thesis
    proof (cases "n = 0")
      case True
      have "radix_digits (2 ^ b) 0 = [digit_char 0]" by (subst radix_digits.simps) simp
      with True show ?thesis using r b by (simp add: l_def)
    next
      case False
      then have nz: "unat n \<noteq> 0" by (simp add: unat_eq_0)
      define k where "k = bit_len (unat n)"
      have k: "2 ^ (k - 1) \<le> unat n" "unat n < 2 ^ k" "0 < k" "k \<le> 64"
        using bit_len_bounds [OF nz] bit_len_le [of "unat n" 64] unat_bound [of n] by (auto simp: k_def)
      have l: "l = (k - 1) div b + 1"
      proof -
        have "64 - clz64 n + b - 1 = (k - 1) + b" using k by (simp add: clz64_def k_def)
        moreover have "l = (64 - clz64 n + b - 1) div b" using False by (simp only: l_def if_False)
        ultimately have "l = ((k - 1) + b) div b" by simp
        moreover have "b \<noteq> 0" using b(2) by simp
        ultimately show ?thesis by (simp add: div_add_self2)
      qed
      have "k \<le> b * Suc ((k - 1) div b)"
      proof -
        have "k - 1 < b * Suc ((k - 1) div b)" using dividend_less_times_div [of b "k - 1"] b(2) by simp
        then show ?thesis by linarith
      qed
      then have "(2 :: nat) ^ k \<le> 2 ^ (b * Suc ((k - 1) div b))" by (intro power_increasing) simp_all
      then have u: "unat n < (2 ^ b) ^ Suc ((k - 1) div b)" using k(2) unfolding power_mult by linarith
      have "(2 :: nat) ^ (b * ((k - 1) div b)) \<le> 2 ^ (k - 1)" by (intro power_increasing) simp_all
      then have d: "(2 ^ b) ^ ((k - 1) div b) \<le> unat n" using k(1) unfolding power_mult by linarith
      have "(2 :: nat) ^ 1 \<le> 2 ^ b" using b(2) by (intro power_increasing) simp_all
      then show ?thesis using radix_digits_fixed [OF _ u] d r l b(1) by simp
    qed
  next
    case 3
    then show ?thesis using radix_loop_val [OF assms(1)] by (simp add: u64toa_radix_def)
  qed
qed

text \<open>A number with its sign, in base \<open>r\<close>.\<close>

definition show_radix :: "nat \<Rightarrow> int \<Rightarrow> string" where
  "show_radix r n = (if n < 0 then CHR ''-'' # radix_digits r (nat (- n)) else radix_digits r (nat n))"

lemma unat_signed:
  fixes n :: "'a :: len word"
  shows "0 \<le> sint n \<Longrightarrow> unat n = nat (sint n)" and "sint n < 0 \<Longrightarrow> unat (- n) = nat (- sint n)"
proof -
  have up: "(2 :: int) ^ (LENGTH('a) - 1) < 2 ^ LENGTH('a)" by (intro power_strict_increasing) simp_all
  show "unat n = nat (sint n)" if "0 \<le> sint n"
  proof -
    have "uint n = uint (word_of_int (sint n) :: 'a word)" by simp
    also have "\<dots> = sint n mod 2 ^ LENGTH('a)" by (rule uint_word_of_int)
    also have "\<dots> = sint n" using that less_trans [OF sint_lt [of n] up] by (intro mod_pos_pos_trivial)
    finally show ?thesis by (simp add: unat_eq_nat_uint)
  qed
  assume n: "sint n < 0"
  have "uint (- n) = - sint n"
  proof -
    have "- sint n \<le> 2 ^ (LENGTH('a) - 1)" using sint_ge [of n] by simp
    also note up
    finally have "- sint n < 2 ^ LENGTH('a)" .
    moreover have "uint (- n) = uint (word_of_int (- sint n) :: 'a word)" by simp
    then have "uint (- n) = (- sint n) mod 2 ^ LENGTH('a)" unfolding uint_word_of_int .
    ultimately show ?thesis using n by simp
  qed
  then show "unat (- n) = nat (- sint n)" by (simp add: unat_eq_nat_uint)
qed

subsection \<open>Properties\<close>

text \<open>
  Printing integers. The conversions of 32-bit and 64-bit integers print the digits of the
  number in the base asked for, with a minus sign for a negative one, also for the smallest
  integers; reading the digits back gives the number; and the number of digits stays within the
  local buffers of 10 and 41 characters.
\<close>

theorem itoa_correct:
  fixes n :: u32 and m :: u64
  assumes "2 \<le> radix" and "radix \<le> 36"
  shows "u32toa n = dec_digits (unat n) \<and> i32toa n = show_int (sint n) \<and>
    u64toa m = dec_digits (unat m) \<and> i64toa m = show_int (sint m) \<and>
    u64toa_radix m radix = radix_digits (unat radix) (unat m) \<and>
    i64toa_radix m radix = show_radix (unat radix) (sint m) \<and>
    radix_value (unat radix) (u64toa_radix m radix) = unat m \<and>
    length (u32toa n) \<le> 10 \<and> (radix \<noteq> 2 \<longrightarrow> length (u64toa_radix m radix) \<le> 41)"
proof -
  have r: "2 \<le> unat radix" "unat radix \<le> 36" using assms by (simp_all add: word_le_nat_alt)
  note rv = u64toa_radix_val [OF assms]
  have "length (u32toa n) \<le> Suc 9"
    unfolding u32toa_val by (rule length_radix_digits) (use limb_bound [of n] in simp_all)
  moreover have "length (u64toa_radix m radix) \<le> Suc 40" if "radix \<noteq> 2"
  proof -
    have "unat radix \<noteq> 2"
    proof
      assume u: "unat radix = 2"
      have "radix = of_nat (unat radix)" by simp
      also have "\<dots> = 2" unfolding u by simp
      finally show False using that by simp
    qed
    then have "3 ^ 41 \<le> unat radix ^ 41" using r(1) by (intro power_mono) simp_all
    moreover have "unat m < 2 ^ 64" using unat_bound [of m] by simp
    moreover have "(2 :: nat) ^ 64 \<le> 3 ^ 41" by simp
    ultimately have "unat m < unat radix ^ Suc 40" by simp
    then show ?thesis unfolding rv by (rule length_radix_digits [OF r(1)])
  qed
  moreover have "i32toa n = show_int (sint n)" using unat_signed [of n]
    by (auto simp: i32toa_def u32toa_val show_int_def)
  moreover have "i64toa m = show_int (sint m)" using unat_signed [of m]
    by (auto simp: i64toa_def u64toa_val show_int_def)
  moreover have "i64toa_radix m radix = show_radix (unat radix) (sint m)" using unat_signed [of m]
    by (auto simp: i64toa_radix_def u64toa_radix_val [OF assms] show_radix_def)
  moreover have "radix_value (unat radix) (u64toa_radix m radix) = unat m"
    unfolding rv by (rule radix_value_digits [OF r])
  ultimately show ?thesis by (simp add: u32toa_val u64toa_val rv)
qed

theorem itoa_correct_witness:
  "i64toa (- 42) = ''-42'' \<and> u64toa_radix 255 16 = ''ff''"
proof -
  have "sint (- 42 :: 64 word) = - 42" by simp
  moreover have "digit_char 4 = CHR ''4''" "digit_char 2 = CHR ''2''" "digit_char 15 = CHR ''f''" by code_simp+
  then have "dec_digits 42 = ''42''" "radix_digits 16 255 = ''ff''" by (simp_all add: radix_digits_step)
  ultimately show ?thesis
    using itoa_correct [of 16 0 "- 42"] itoa_correct [of 16 0 255] by (simp add: show_int_def)
qed

end
