(* ===== verification/Scaling.thy ===== *)
theory Scaling
  imports Limbs
begin

text \<open>
  The scaling routines of \<^verbatim>\<open>dtoa.c\<close>: multiplication of a number by a power of the radix, with a
  binary exponent kept apart (\<^verbatim>\<open>mul_pow\<close>), and its two clients, rounding to an integer
  (\<^verbatim>\<open>mul_pow_round\<close>) and rounding to the precision of a float64 (\<^verbatim>\<open>round_to_d\<close>,
  \<^verbatim>\<open>mul_pow_round_to_d\<close>). They are shown to round the exact value once, although the division
  drops digits: the lost digits are recorded in the lowest bit. Exponents, \<^verbatim>\<open>int\<close> in the code, are
  unbounded here and a number is the list of its limbs, in the code a block of fixed size; the callers
  refuse exponents beyond the tables of the smallest and the largest one first, which also keeps the
  left shift of \<^verbatim>\<open>round_to_d\<close> below 64 bits (beyond, it is undefined in C and 0 here).
\<close>

subsection \<open>Tables\<close>

definition digits_per_limb_table :: "nat list" where
  "digits_per_limb_table =
     [32, 20, 16, 13, 12, 11, 10, 10, 9, 9, 8, 8, 8, 8, 8, 7, 7, 7, 7, 7, 7, 7,
      6, 6, 6, 6, 6, 6, 6, 6, 6, 6, 6, 6, 6]"

definition radix_base_table :: "u32 list" where
  "radix_base_table =
     [0x00000000, 0xcfd41b91, 0x00000000, 0x48c27395,
      0x81bf1000, 0x75db9c97, 0x40000000, 0xcfd41b91,
      0x3b9aca00, 0x8c8b6d2b, 0x19a10000, 0x309f1021,
      0x57f6c100, 0x98c29b81, 0x00000000, 0x18754571,
      0x247dbc80, 0x3547667b, 0x4c4b4000, 0x6b5a6e1d,
      0x94ace180, 0xcaf18367, 0x0b640000, 0x0e8d4a51,
      0x1269ae40, 0x17179149, 0x1cb91000, 0x23744899,
      0x2b73a840, 0x34e63b41, 0x40000000, 0x4cfa3cc1,
      0x5c13d840, 0x6d91b519, 0x81bf1000]"

subsection \<open>Multiplication by a power of the radix\<close>

text \<open>
  The loop for a positive exponent: \<open>n0\<close> is the exponent whose power \<open>b\<close> holds. The entries of
  the table of digits are positive; the test of \<open>d\<close> makes the loop total.
\<close>

function mul_pow_up :: "mpb \<Rightarrow> u32 \<Rightarrow> nat \<Rightarrow> nat \<Rightarrow> limb \<Rightarrow> nat \<Rightarrow> mpb" where
  "mul_pow_up a radix1 d f b n0 =
     (if f \<noteq> 0 \<and> d \<noteq> 0 then
        let n = min f d;
            b = (if n \<noteq> n0 then ucast (pow_ui radix1 (of_nat n)) else b);
            (tab, h) = mp_mul1 a b 0;
            a = (if h \<noteq> 0 then tab @ [h] else tab)
        in mul_pow_up a radix1 d (f - n) b n
      else a)"
  by pat_completeness auto
termination
  by (relation "measure (\<lambda>(a, radix1, d, f, b, n0). f)") auto

declare mul_pow_up.simps [simp del]

text \<open>The loop for a negative exponent: the divisor with its inverse and shift, and the remainders.\<close>

function mul_pow_down ::
  "mpb \<Rightarrow> u32 \<Rightarrow> nat \<Rightarrow> nat \<Rightarrow> limb \<times> limb \<times> nat \<Rightarrow> nat \<Rightarrow> limb \<Rightarrow> mpb \<times> limb" where
  "mul_pow_down a radix1 d f bis n0 rem =
     (if f \<noteq> 0 \<and> d \<noteq> 0 then
        let n = min f d;
            bis = (if n \<noteq> n0 then pow_ui_inv radix1 (of_nat n) else bis);
            (b, b_inv, shift) = bis;
            (tab, r) = mp_div1norm a b 0 b_inv shift
        in mul_pow_down (mpb_renorm tab) radix1 d (f - n) bis n (rem OR r)
      else (a, rem))"
  by pat_completeness auto
termination
  by (relation "measure (\<lambda>(a, radix1, d, f, bis, n0, rem). f)") auto

declare mul_pow_down.simps [simp del]

text \<open>\<^verbatim>\<open>a->tab[0] |= (rem != 0)\<close>.\<close>

fun or_low :: "mpb \<Rightarrow> bool \<Rightarrow> mpb" where
  "or_low [] b = []"
| "or_low (x # a) b = (x OR (if b then 1 else 0)) # a"

definition mul_pow :: "mpb \<Rightarrow> nat \<Rightarrow> nat \<Rightarrow> int \<Rightarrow> bool \<Rightarrow> int \<Rightarrow> mpb \<times> int" where
  "mul_pow a radix1 radix_shift f is_int e =
     (let e_offset = - f * int radix_shift in
      if radix1 \<noteq> 1 then
        let d = digits_per_limb_table ! (radix1 - 2) in
        if f \<ge> 0 then (mul_pow_up a (of_nat radix1) d (nat f) 0 0, e_offset)
        else
          let f = nat (- f);
              l = (f + d - 1) div d;
              e_offset = e_offset + int l * 32;
              extra_bits = (if \<not> is_int then max (e - mpb_floor_log2 a) 0 else max (2 + e - e_offset) 0);
              e_offset = e_offset + extra_bits;
              a = mpb_shr_round a (- (int l * 32 + extra_bits)) JS_RNDZ;
              (a, rem) = mul_pow_down a (of_nat radix1) d f (0, 0, 0) 0 0
          in (or_low a (rem \<noteq> 0), e_offset)
      else (a, e_offset))"

definition mul_pow_round :: "u64 \<Rightarrow> int \<Rightarrow> nat \<Rightarrow> nat \<Rightarrow> int \<Rightarrow> rnd_mode \<Rightarrow> mpb" where
  "mul_pow_round m e radix1 radix_shift f rnd_mode =
     (let tmp1 = mpb_set_u64 m;
          (tmp1, e_offset) = mul_pow tmp1 radix1 radix_shift f True e
      in mpb_shr_round tmp1 (- e + e_offset) rnd_mode)"

definition round_to_d :: "mpb \<Rightarrow> int \<Rightarrow> rnd_mode \<Rightarrow> u64 \<times> int" where
  "round_to_d a e_offset rnd_mode =
     (if a ! 0 = 0 \<and> length a = 1 then (0, 0)
      else
        let e = mpb_floor_log2 a + 1 - e_offset;
            prec1 = 53;
            e_min = -1021;
            prec = (if e < e_min then prec1 - (e_min - e) else prec1);
            a = mpb_shr_round a (e + e_offset - prec) rnd_mode;
            m = mpb_get_u64 a;
            m = push_bit (nat (53 - prec)) m
        in if m \<ge> push_bit 53 1 then (drop_bit 1 m, e + 1) else (m, e))"

definition mul_pow_round_to_d :: "mpb \<Rightarrow> nat \<Rightarrow> nat \<Rightarrow> int \<Rightarrow> rnd_mode \<Rightarrow> u64 \<times> int" where
  "mul_pow_round_to_d a radix1 radix_shift f rnd_mode =
     (let (a, e_offset) = mul_pow a radix1 radix_shift f False 55
      in round_to_d a e_offset rnd_mode)"

subsection \<open>Facts about the tables\<close>

lemma radix_tables:
  "list_all (\<lambda>r. let d = digits_per_limb_table ! (r - 2) in
     1 \<le> d \<and> d \<le> 32 \<and> (r \<notin> set [2, 4, 16] \<longrightarrow> unat (radix_base_table ! (r - 2)) = r ^ d) \<and>
     (r \<in> set [2, 4, 16] \<longrightarrow> r ^ d = 2 ^ 32 \<and> radix_base_table ! (r - 2) = 0)) [2..<37]"
  by (simp add: upt_rec digits_per_limb_table_def radix_base_table_def)

lemma radix_table:
  assumes "2 \<le> r" "r \<le> 36"
  defines "d \<equiv> digits_per_limb_table ! (r - 2)"
  shows "1 \<le> d" and "d \<le> 32" and "r \<notin> {2, 4, 16} \<Longrightarrow> unat (radix_base_table ! (r - 2)) = r ^ d"
    and "r \<in> {2, 4, 16} \<Longrightarrow> r ^ d = 2 ^ 32 \<and> radix_base_table ! (r - 2) = 0"
proof -
  have "r \<in> {2..<37}" using assms(1,2) by simp
  from bspec [OF radix_tables [unfolded list_all_iff set_upt] this, folded d_def]
  show "1 \<le> d" "d \<le> 32" "r \<notin> {2, 4, 16} \<Longrightarrow> unat (radix_base_table ! (r - 2)) = r ^ d"
    "r \<in> {2, 4, 16} \<Longrightarrow> r ^ d = 2 ^ 32 \<and> radix_base_table ! (r - 2) = 0" by (simp_all add: Let_def d_def)
qed

lemma odd_power_fits:
  assumes "odd r" "3 \<le> r" "r \<le> 35" "n \<le> digits_per_limb_table ! (r - 2)"
  shows "r ^ n < 2 ^ 32"
proof -
  define d where "d = digits_per_limb_table ! (r - 2)"
  have "r \<notin> {2, 4, 16}" using assms(1) by auto
  then have "unat (radix_base_table ! (r - 2)) = r ^ d" using radix_table(3) [of r] assms(2,3) by (simp add: d_def)
  then have "r ^ d < 2 ^ 32" using limb_bound by metis
  moreover have "r ^ n \<le> r ^ d" using assms(2,4) by (intro power_increasing) (simp_all add: d_def)
  ultimately show ?thesis by simp
qed

subsection \<open>The loops on values\<close>

lemma mul_step_val:
  assumes a: "mpb_ok a" and b: "b \<noteq> 0" and res: "mp_mul1 a b 0 = (tab, h)"
  defines "a' \<equiv> if h \<noteq> 0 then tab @ [h] else tab"
  shows "limbs_val a' = limbs_val a * unat b" and "mpb_ok a'"
proof -
  have v: "length tab = length a" "limbs_val tab + 2 ^ (32 * length a) * unat h = limbs_val a * unat b"
    using mp_mul1_val [OF res] by simp_all
  then show v': "limbs_val a' = limbs_val a * unat b" by (auto simp: a'_def limbs_val_append)
  have "1 \<le> unat b" using b by (simp add: Suc_leI unat_gt_0)
  then have "limbs_val a \<le> limbs_val a'" unfolding v' by simp
  show "mpb_ok a'"
  proof (cases "h = 0")
    case True
    with a v(1) \<open>limbs_val a \<le> limbs_val a'\<close> show ?thesis unfolding mpb_ok_iff a'_def by auto
  qed (simp add: a'_def mpb_ok_def)
qed

lemma unat_pow_limb:
  assumes "n \<le> 32" "r ^ n < 2 ^ 32" "r < 2 ^ 32"
  shows "unat (ucast (pow_ui (of_nat r) (of_nat n)) :: limb) = r ^ n"
proof -
  have "unat (pow_ui (of_nat r) (of_nat n)) = r ^ n"
    using pow_ui_exact [of "of_nat r" "of_nat n"] assms by (simp add: unat_of_nat_id)
  with assms(2) show ?thesis by (simp add: unat_ucast_limb)
qed

lemma mul_pow_up_val:
  assumes "mpb_ok a" and "1 \<le> d" "d \<le> 32" "r ^ d < 2 ^ 32" "1 \<le> r" "r < 2 ^ 32"
    and "n0 = 0 \<or> unat b = r ^ n0"
  shows "limbs_val (mul_pow_up a (of_nat r) d f b n0) = limbs_val a * r ^ f \<and> mpb_ok (mul_pow_up a (of_nat r) d f b n0)"
  using assms(1,7)
proof (induction f arbitrary: a b n0 rule: less_induct)
  case (less f)
  show ?case
  proof (cases "f = 0")
    case True
    then show ?thesis using less(2) by (simp add: mul_pow_up.simps)
  next
    case False
    define n b' where "n = min f d" and "b' = (if n \<noteq> n0 then ucast (pow_ui (of_nat r) (of_nat n)) else b)"
    have n: "n \<noteq> 0" "n \<le> 32" "n \<le> d" "n \<le> f" using False assms(2,3) by (auto simp: n_def)
    have rn: "r ^ n < 2 ^ 32" using power_increasing [OF n(3) assms(5)] assms(4) by linarith
    have b': "unat b' = r ^ n" using less(3) n unat_pow_limb [OF n(2) rn assms(6)] by (auto simp: b'_def)
    obtain tab h where th: "mp_mul1 a b' 0 = (tab, h)" by fastforce
    define a' where "a' = (if h \<noteq> 0 then tab @ [h] else tab)"
    have "b' \<noteq> 0" using b' assms(5) by (metis not_one_le_zero power_eq_0_iff unat_0)
    note step = mul_step_val [OF less(2) this th, folded a'_def]
    have e: "mul_pow_up a (of_nat r) d f b n0 = mul_pow_up a' (of_nat r) d (f - n) b' n"
      using False assms(2) th
      by (subst mul_pow_up.simps) (simp add: Let_def n_def [symmetric] b'_def [symmetric] a'_def)
    have "f - n < f" using n by simp
    from less(1) [OF this step(2), of n b'] b'
    have "limbs_val (mul_pow_up a' (of_nat r) d (f - n) b' n) = limbs_val a' * r ^ (f - n) \<and>
        mpb_ok (mul_pow_up a' (of_nat r) d (f - n) b' n)" by simp
    moreover have "limbs_val a' * r ^ (f - n) = limbs_val a * r ^ f"
      unfolding step(1) b' using n by (simp flip: power_add)
    ultimately show ?thesis unfolding e by simp
  qed
qed

lemma div_chain: "v div r ^ n div r ^ (f - n) = v div r ^ f" if "n \<le> f" for v r :: nat
  using that by (simp flip: div_mult2_eq power_add)

lemma dvd_chain:
  assumes "n \<le> f" "0 < (r :: nat)"
  shows "r ^ f dvd v \<longleftrightarrow> r ^ n dvd v \<and> r ^ (f - n) dvd v div r ^ n"
proof -
  have p: "r ^ f = r ^ n * r ^ (f - n)" using assms(1) by (simp flip: power_add)
  show ?thesis
  proof (cases "r ^ n dvd v")
    case True
    then obtain k where "v = r ^ n * k" ..
    with assms(2) p show ?thesis by simp
  next
    case False
    moreover have "r ^ n dvd r ^ f" unfolding p by simp
    ultimately show ?thesis by (meson dvd_trans)
  qed
qed

lemma mul_pow_down_val:
  assumes "mpb_ok a" and "1 \<le> d" "d \<le> 32" "r ^ d < 2 ^ 32" "1 \<le> r" "r < 2 ^ 32"
    and "n0 = 0 \<or> bis = pow_ui_inv (of_nat r) (of_nat n0)"
    and "mul_pow_down a (of_nat r) d f bis n0 rem = (a', rem')"
  shows "limbs_val a' = limbs_val a div r ^ f \<and> mpb_ok a' \<and> (rem' = 0 \<longleftrightarrow> rem = 0 \<and> r ^ f dvd limbs_val a)"
  using assms(1,7,8)
proof (induction f arbitrary: a bis n0 rem rule: less_induct)
  case (less f)
  show ?case
  proof (cases "f = 0")
    case True
    then show ?thesis using less(2,4) by (simp add: mul_pow_down.simps)
  next
    case False
    define n bis' where "n = min f d" and "bis' = (if n \<noteq> n0 then pow_ui_inv (of_nat r) (of_nat n) else bis)"
    have n: "n \<noteq> 0" "n \<le> 32" "n \<le> d" "n \<le> f" using False assms(2,3) by (auto simp: n_def)
    have rn: "r ^ n < 2 ^ 32" using power_increasing [OF n(3) assms(5)] assms(4) by linarith
    have b': "bis' = pow_ui_inv (of_nat r) (of_nat n)" using less(3) n by (auto simp: bis'_def)
    obtain b b_inv s where bis: "bis' = (b, b_inv, s)" by (cases bis')
    obtain tab q where th: "mp_div1norm a b 0 b_inv s = (tab, q)" by fastforce
    have u: "unat (of_nat r :: u32) = r" "unat (of_nat n :: u32) = n" using assms(6) n by (simp_all add: unat_of_nat_id)
    have nz: "(of_nat r :: u32) \<noteq> 0" using u(1) assms(5) by (metis not_one_le_zero unat_0)
    have p: "unat b = r ^ n * 2 ^ s" "2 ^ 31 \<le> unat b" "s \<le> 31" and inv: "b_inv = udiv1norm_init b"
      using pow_ui_inv_val [OF _ nz b' [unfolded bis, symmetric]] rn u by simp_all
    note v = mp_div1norm_val [OF th [unfolded inv] p]
    have dm: "limbs_val tab = limbs_val a div r ^ n" "unat q = limbs_val a mod r ^ n"
      using divmod_of [OF v(3), of "limbs_val tab"] v(2) by simp_all
    have q: "q = 0 \<longleftrightarrow> r ^ n dvd limbs_val a" using dm(2) by (metis dvd_eq_mod_eq_0 unat_eq_0)
    have "tab \<noteq> []" using v(1) less(2) by (auto simp: mpb_ok_def)
    then have ok: "mpb_ok (mpb_renorm tab)" by (rule mpb_renorm_ok)
    have e: "mul_pow_down (mpb_renorm tab) (of_nat r) d (f - n) bis' n (rem OR q) = (a', rem')"
      using less(4) False assms(2) th bis
      by (subst (asm) mul_pow_down.simps) (simp add: Let_def n_def [symmetric] bis'_def [symmetric])
    have "f - n < f" using n by simp
    from less(1) [OF this ok _ e] b'
    show ?thesis using div_chain [OF n(4)] dvd_chain [OF n(4)] assms(5) dm(1) q
      by (simp add: or_eq_0_iff conj_assoc)
  qed
qed

subsection \<open>Rounding once\<close>

lemma round_div_scale:
  assumes "0 < k"
  shows "round_div mode (k * n) (k * d) = round_div mode n d"
proof -
  have "k * n mod (k * d) = k * (n mod d)" by (rule mult_mod_right [symmetric])
  moreover have "k * n div (k * d) = n div d" using assms by simp
  moreover have "k * d < 2 * (k * (n mod d)) \<longleftrightarrow> d < 2 * (n mod d)"
    "2 * (k * (n mod d)) = k * d \<longleftrightarrow> 2 * (n mod d) = d"
    "k * d \<le> 2 * (k * (n mod d)) \<longleftrightarrow> d \<le> 2 * (n mod d)"
    using assms mult_less_cancel1 [of k d "2 * (n mod d)"] mult_cancel1 [of k "2 * (n mod d)" d]
      mult_le_cancel1 [of k d "2 * (n mod d)"] by (simp_all add: mult.left_commute)
  ultimately show ?thesis unfolding round_div_def Let_def by (cases mode) simp_all
qed

lemma round_div_exact: "0 < d \<Longrightarrow> round_div mode (n * d) d = n"
  by (cases mode) (simp_all add: round_div_def)

text \<open>A number with a bit that stands for everything below it.\<close>

definition sticky :: "nat \<Rightarrow> bool \<Rightarrow> nat" where
  "sticky q inexact = (if inexact \<and> even q then q + 1 else q)"

lemma sticky_half: "sticky q b div 2 = q div 2" "b \<Longrightarrow> odd (sticky q b)"
  by (auto simp: sticky_def)

lemma round_sticky:
  assumes "2 \<le> s" "0 < D"
  shows "round_div mode (sticky (N div D) (N mod D \<noteq> 0)) (2 ^ s) = round_div mode N (D * 2 ^ s)"
proof (cases "N mod D = 0")
  case True
  then have "N = D * (N div D)" by auto
  then have "round_div mode N (D * 2 ^ s) = round_div mode (D * (N div D)) (D * 2 ^ s)" by simp
  also have "\<dots> = round_div mode (N div D) (2 ^ s)" by (rule round_div_scale [OF assms(2)])
  finally show ?thesis using True by (simp add: sticky_def)
next
  case False
  define Q \<rho> h where "Q = N div D" and "\<rho> = N mod D" and "h = (2 :: nat) ^ (s - 2)"
  have "2 ^ s = 2 ^ 2 * (2 :: nat) ^ (s - 2)" using assms(1) by (simp only: power_add [symmetric] le_add_diff_inverse)
  then have h: "2 ^ s = 4 * h" "0 < h" by (simp_all add: h_def)
  define Q' where "Q' = sticky Q True"
  have rho: "0 < \<rho>" "\<rho> < D" using False assms(2) by (simp_all add: \<rho>_def)
  have Q': "Q' div 2 = Q div 2" "odd Q'" using sticky_half(1) [of Q True] sticky_half(2) [of True Q] by (simp_all add: Q'_def)
  have q: "Q' div (4 * h) = Q div (4 * h)"
    using div_mult2_eq [of Q' 2 "2 * h"] div_mult2_eq [of Q 2 "2 * h"] Q'(1) by simp
  have qN: "N div (D * (4 * h)) = Q div (4 * h)" unfolding Q_def by (rule div_mult2_eq)
  define m m' where "m = Q mod (4 * h)" and "m' = Q' mod (4 * h)"
  have mN: "N mod (D * (4 * h)) = D * m + \<rho>"
    unfolding m_def Q_def \<rho>_def by (rule mod_mult2_eq)
  have mm: "m \<le> m'" "m' \<le> m + 1"
  proof -
    have "Q \<le> Q'" "Q' \<le> Q + 1" by (auto simp: Q'_def sticky_def)
    moreover have "Q = 4 * h * (Q div (4 * h)) + m" "Q' = 4 * h * (Q div (4 * h)) + m'"
      unfolding m_def m'_def using q by (metis mult_div_mod_eq)+
    ultimately show "m \<le> m'" "m' \<le> m + 1" by linarith+
  qed
  have odd: "odd m'" unfolding m'_def using Q'(2) by (simp add: dvd_mod_iff)
  then have ne: "m' \<noteq> 2 * h" by auto
  define P M where "P = D * (2 * h)" and "M = D * m"
  have DP: "D * (4 * h) = 2 * P" "D * (m + 1) = M + D" by (simp_all add: P_def M_def)
  have PM: "P \<le> M \<longleftrightarrow> 2 * h \<le> m" "P < M + D \<longleftrightarrow> 2 * h < m + 1"
    using assms(2) unfolding DP(2) [symmetric] by (simp_all only: P_def M_def mult_le_cancel1 mult_less_cancel1) simp_all
  have D: "D * (4 * h) < 2 * (D * m + \<rho>) \<longleftrightarrow> 2 * h \<le> m"
    unfolding DP(1) M_def [symmetric] using PM rho by auto
  have D': "2 * (D * m + \<rho>) \<noteq> D * (4 * h)"
    unfolding DP(1) M_def [symmetric] using PM rho by auto
  have up: "4 * h < 2 * m' \<longleftrightarrow> 2 * h \<le> m" using mm ne by linarith
  have s: "sticky (N div D) (N mod D \<noteq> 0) = Q'" using False by (simp add: Q'_def Q_def)
  show ?thesis
    unfolding s h(1) round_div_def Let_def q qN mN m'_def [symmetric]
    using D D' up ne by (cases mode) auto
qed

lemma or_low_val:
  assumes "a \<noteq> []"
  shows "limbs_val (or_low a b) = sticky (limbs_val a) b" and "length (or_low a b) = length a"
proof -
  obtain x t where a: "a = x # t" using assms by (cases a) auto
  have "unat (x OR 1) = sticky (unat x) True"
  proof -
    have "unat (x OR 1) = unat x OR 1" by (metis unsigned_or_eq unat_1)
    also have "\<dots> = unat x + of_bool (even (unat x))" by (rule or_one_eq)
    finally show ?thesis by (simp add: sticky_def)
  qed
  then show "limbs_val (or_low a b) = sticky (limbs_val a) b" "length (or_low a b) = length a"
    by (auto simp: a sticky_def)
qed

lemma or_low_ok: "mpb_ok a \<Longrightarrow> mpb_ok (or_low a b)"
proof -
  assume a: "mpb_ok a"
  then have "a \<noteq> []" by (simp add: mpb_ok_def)
  note v = or_low_val [OF this, of b]
  moreover have "limbs_val a \<le> sticky (limbs_val a) b" by (simp add: sticky_def)
  ultimately show ?thesis using a unfolding mpb_ok_iff by (metis le_trans length_0_conv)
qed

lemma round_div_cong:
  assumes "n1 * d2 = n2 * d1" "0 < d1" "0 < d2"
  shows "round_div mode n1 d1 = round_div mode n2 d2"
proof -
  have "round_div mode n1 d1 = round_div mode (d2 * n1) (d2 * d1)" using round_div_scale [OF assms(3)] by simp
  also have "\<dots> = round_div mode (d1 * n2) (d1 * d2)" using assms(1) by (simp add: mult.commute)
  also have "\<dots> = round_div mode n2 d2" by (rule round_div_scale [OF assms(2)])
  finally show ?thesis .
qed

lemma shr_round_val_int:
  assumes "mpb_ok a" "limbs_val a \<noteq> 0" and "s = int q - int p"
  shows "limbs_val (mpb_shr_round a s mode) = round_div mode (limbs_val a * 2 ^ p) (2 ^ q)"
    and "mpb_ok (mpb_shr_round a s mode)"
proof -
  show "mpb_ok (mpb_shr_round a s mode)"
    using mpb_shr_round_left(2) [OF assms(1) _ assms(2)] mpb_shr_round_right(2) [OF assms(1)] by (cases "s \<le> 0") auto
  show "limbs_val (mpb_shr_round a s mode) = round_div mode (limbs_val a * 2 ^ p) (2 ^ q)"
  proof (cases "q \<le> p")
    case True
    have "limbs_val (mpb_shr_round a s mode) = limbs_val a * 2 ^ (p - q)"
      using mpb_shr_round_left(1) [OF assms(1), of s] assms(3) True by (simp add: of_nat_diff nat_diff_distrib)
    also have "\<dots> = round_div mode (limbs_val a * 2 ^ (p - q) * 2 ^ q) (2 ^ q)" by (rule round_div_exact [symmetric]) simp
    also have "limbs_val a * 2 ^ (p - q) * 2 ^ q = limbs_val a * 2 ^ p" using True by (simp flip: power_add)
    finally show ?thesis .
  next
    case False
    then have "limbs_val (mpb_shr_round a s mode) = round_div mode (limbs_val a) (2 ^ (q - p))"
      using mpb_shr_round_right(1) [OF assms(1), of s] assms(3) by (simp add: nat_diff_distrib)
    also have "\<dots> = round_div mode (limbs_val a * 2 ^ p) (2 ^ q)"
      using False by (intro round_div_cong) (simp_all flip: power_add)
    finally show ?thesis .
  qed
qed

lemma odd_radix_table:
  assumes "odd r" "3 \<le> r" "r \<le> 35"
  defines "d \<equiv> digits_per_limb_table ! (r - 2)"
  shows "1 \<le> d" "d \<le> 32" "r ^ d < 2 ^ 32" "1 \<le> r" "r < 2 ^ 32"
  using radix_table(1,2) [of r] odd_power_fits [OF assms(1-3), of d] assms by (simp_all add: d_def)

lemma mul_pow_up_case:
  assumes r: "odd r" "r \<le> 35" and a: "mpb_ok a" and f: "0 \<le> f \<or> r = 1"
  obtains a' where "mul_pow a r rs f is_int e = (a', - f * int rs)" "limbs_val a' = limbs_val a * r ^ nat f" "mpb_ok a'"
proof (cases "r = 1")
  case True
  then show thesis using that a by (simp add: mul_pow_def)
next
  case False
  then have r3: "3 \<le> r" using r(1) by (cases "r = 2") (auto elim: oddE)
  have "mul_pow a r rs f is_int e =
      (mul_pow_up a (of_nat r) (digits_per_limb_table ! (r - 2)) (nat f) 0 0, - f * int rs)"
    using False f by (simp add: mul_pow_def Let_def)
  then show thesis
    using that mul_pow_up_val [OF a odd_radix_table [OF r(1) r3 r(2)], of 0 0 "nat f"] by simp
qed

lemma mul_pow_down_case:
  assumes r: "odd r" "3 \<le> r" "r \<le> 35" and a: "mpb_ok a" "limbs_val a \<noteq> 0" and f: "f < 0"
  obtains a' k where "mul_pow a r rs f is_int e = (a', - f * int rs + int k)"
    "limbs_val a' = sticky (limbs_val a * 2 ^ k div r ^ nat (- f)) (limbs_val a * 2 ^ k mod r ^ nat (- f) \<noteq> 0)"
    "mpb_ok a'" "is_int \<longrightarrow> - f * int rs + int k \<ge> 2 + e"
    "\<not> is_int \<longrightarrow> 2 ^ nat (e - mpb_floor_log2 a) * r ^ nat (- f) \<le> 2 ^ k"
proof -
  define d F where "d = digits_per_limb_table ! (r - 2)" and "F = nat (- f)"
  define l where "l = (F + d - 1) div d"
  define e0 where "e0 = - f * int rs + int l * 32"
  define x where "x = (if \<not> is_int then max (e - mpb_floor_log2 a) 0 else max (2 + e - e0) 0)"
  define k where "k = l * 32 + nat x"
  have x: "0 \<le> x" by (simp add: x_def)
  define a1 where "a1 = mpb_shr_round a (- (int l * 32 + x)) JS_RNDZ"
  obtain a2 rem where down: "mul_pow_down a1 (of_nat r) d F (0, 0, 0) 0 0 = (a2, rem)" by fastforce
  have "mul_pow a r rs f is_int e =
      (case mul_pow_down a1 (of_nat r) d F (0, 0, 0) 0 0 of (a, rem) \<Rightarrow> (or_low a (rem \<noteq> 0), e0 + x))"
    unfolding mul_pow_def Let_def a1_def x_def e0_def l_def d_def F_def using r(2) f by simp
  then have eq: "mul_pow a r rs f is_int e = (or_low a2 (rem \<noteq> 0), - f * int rs + int k)"
    using down x by (simp add: e0_def k_def)
  note tab = odd_radix_table [OF r, folded d_def]
  have a1: "limbs_val a1 = limbs_val a * 2 ^ k" "mpb_ok a1"
  proof -
    have neg: "- (int l * 32 + x) \<le> 0" using x by simp
    have "nat (- (- (int l * 32 + x))) = k" using x by (simp add: k_def nat_add_distrib nat_mult_distrib)
    then show "limbs_val a1 = limbs_val a * 2 ^ k" "mpb_ok a1"
      using mpb_shr_round_left [OF a(1) neg, of JS_RNDZ] a(2) by (simp_all add: a1_def)
  qed
  have dn: "limbs_val a2 = limbs_val a * 2 ^ k div r ^ F" "mpb_ok a2"
    "rem = 0 \<longleftrightarrow> limbs_val a * 2 ^ k mod r ^ F = 0"
    using mul_pow_down_val [OF a1(2) tab _ down] by (simp_all add: a1(1) dvd_eq_mod_eq_0)
  have "a2 \<noteq> []" using dn(2) by (simp add: mpb_ok_def)
  note ol = or_low_val [OF this, of "rem \<noteq> 0"]
  have big: "r ^ F \<le> 2 ^ (l * 32)"
  proof -
    have "F \<le> d * l"
    proof -
      have "F + d - 1 < d * l + d" unfolding l_def using dividend_less_times_div [of d "F + d - 1"] tab(1) by simp
      then show ?thesis by simp
    qed
    then have "r ^ F \<le> r ^ (d * l)" using tab(4) by (intro power_increasing)
    also have "\<dots> = (r ^ d) ^ l" by (rule power_mult)
    also have "\<dots> \<le> (2 ^ 32) ^ l" using tab(3) by (intro power_mono) simp_all
    also have "(2 ^ 32) ^ l = (2 :: nat) ^ (l * 32)" by (metis power_mult mult.commute)
    finally show ?thesis .
  qed
  show thesis
  proof (rule that [OF eq])
    show "limbs_val (or_low a2 (rem \<noteq> 0)) =
        sticky (limbs_val a * 2 ^ k div r ^ nat (- f)) (limbs_val a * 2 ^ k mod r ^ nat (- f) \<noteq> 0)"
      using ol(1) dn by (simp add: F_def)
    show "mpb_ok (or_low a2 (rem \<noteq> 0))" using dn(2) by (rule or_low_ok)
    show "is_int \<longrightarrow> - f * int rs + int k \<ge> 2 + e" using x by (auto simp: k_def e0_def x_def max_def)
    have "(2 :: nat) ^ nat (e - mpb_floor_log2 a) * r ^ nat (- f) \<le> 2 ^ nat x * 2 ^ (l * 32)" if "\<not> is_int"
      using big that by (intro mult_mono power_increasing) (simp_all add: x_def F_def)
    then show "\<not> is_int \<longrightarrow> 2 ^ nat (e - mpb_floor_log2 a) * r ^ nat (- f) \<le> 2 ^ k"
      by (simp add: k_def power_add mult.commute)
  qed
qed

text \<open>The product of an integer with a power of two and a power of the radix, rounded to an integer.\<close>

lemma mul_pow_round_val:
  assumes r: "odd r" "r \<le> 35" and m: "m \<noteq> 0"
  shows "limbs_val (mul_pow_round m e r rs f mode) =
      round_div mode (unat m * 2 ^ nat e * (r * 2 ^ rs) ^ nat f) (2 ^ nat (- e) * (r * 2 ^ rs) ^ nat (- f))"
    and "mpb_ok (mul_pow_round m e r rs f mode)"
proof -
  have a: "mpb_ok (mpb_set_u64 m)" "limbs_val (mpb_set_u64 m) = unat m" "limbs_val (mpb_set_u64 m) \<noteq> 0"
    using mpb_set_u64_val [of m] m by (simp_all add: unat_eq_0)
  have "limbs_val (mul_pow_round m e r rs f mode) =
      round_div mode (unat m * 2 ^ nat e * (r * 2 ^ rs) ^ nat f) (2 ^ nat (- e) * (r * 2 ^ rs) ^ nat (- f)) \<and>
      mpb_ok (mul_pow_round m e r rs f mode)"
  proof (cases "0 \<le> f \<or> r = 1")
    case True
    obtain a' where a': "mul_pow (mpb_set_u64 m) r rs f True e = (a', - f * int rs)"
      "limbs_val a' = limbs_val (mpb_set_u64 m) * r ^ nat f" "mpb_ok a'"
      by (rule mul_pow_up_case [OF r a(1) True])
    define p q where "p = nat e + rs * nat f" and "q = nat (- e) + rs * nat (- f)"
    have s: "- e + - f * int rs = int q - int p"
      by (cases "0 \<le> e"; cases "0 \<le> f") (auto simp: p_def q_def algebra_simps)
    have nz: "limbs_val a' \<noteq> 0" using a' a(3) r by auto
    have one: "r ^ nat (- f) = 1" using True by auto
    have n: "unat m * 2 ^ nat e * (r * 2 ^ rs) ^ nat f = limbs_val a' * 2 ^ p"
      by (simp add: a' a p_def power_add power_mult power_mult_distrib)
    have d: "2 ^ nat (- e) * (r * 2 ^ rs) ^ nat (- f) = 2 ^ q"
      by (simp add: q_def power_add power_mult power_mult_distrib one)
    have e1: "mul_pow_round m e r rs f mode = mpb_shr_round a' (- e + - f * int rs) mode"
      unfolding mul_pow_round_def Let_def a'(1) prod.case ..
    show ?thesis
      using shr_round_val_int [OF a'(3) nz s, of mode] unfolding n d e1 by blast
  next
    case False
    then have f: "f < 0" and r3: "3 \<le> r" using r(1) by (auto elim: oddE)
    obtain a' k where a': "mul_pow (mpb_set_u64 m) r rs f True e = (a', - f * int rs + int k)"
      "limbs_val a' = sticky (limbs_val (mpb_set_u64 m) * 2 ^ k div r ^ nat (- f))
         (limbs_val (mpb_set_u64 m) * 2 ^ k mod r ^ nat (- f) \<noteq> 0)"
      "mpb_ok a'" "- f * int rs + int k \<ge> 2 + e"
      by (rule mul_pow_down_case [OF r(1) r3 r(2) a(1) a(3) f, of rs True e]) simp
    define s where "s = - e + (- f * int rs + int k)"
    have s2: "2 \<le> nat s" "0 < s" using a'(4) by (simp_all add: s_def)
    have e1: "mul_pow_round m e r rs f mode = mpb_shr_round a' s mode"
      by (simp add: mul_pow_round_def a'(1) s_def)
    have rp: "0 < r ^ nat (- f)" using r3 by simp
    have "limbs_val (mpb_shr_round a' s mode) = round_div mode (unat m * 2 ^ k) (r ^ nat (- f) * 2 ^ nat s)"
      using mpb_shr_round_right(1) [OF a'(3) s2(2), of mode] round_sticky [OF s2(1) rp] by (simp add: a'(2) a(2))
    also have "\<dots> = round_div mode (unat m * 2 ^ nat e * (r * 2 ^ rs) ^ nat f) (2 ^ nat (- e) * (r * 2 ^ rs) ^ nat (- f))"
    proof (rule round_div_cong)
      have "int (k + nat (- e) + rs * nat (- f)) = int (nat e + nat s)"
        using s2(2) f by (cases "0 \<le> e") (simp_all add: s_def algebra_simps)
      then have "k + nat (- e) + rs * nat (- f) = nat e + nat s" by (simp only: of_nat_eq_iff)
      then have "(2 :: nat) ^ k * 2 ^ nat (- e) * 2 ^ (rs * nat (- f)) = 2 ^ nat e * 2 ^ nat s" by (simp flip: power_add)
      then show "unat m * 2 ^ k * (2 ^ nat (- e) * (r * 2 ^ rs) ^ nat (- f)) =
          unat m * 2 ^ nat e * (r * 2 ^ rs) ^ nat f * (r ^ nat (- f) * 2 ^ nat s)"
        using f by (simp add: power_mult_distrib power_mult)
    qed (use r3 in simp_all)
    finally show ?thesis using mpb_shr_round_right(2) [OF a'(3) s2(2)] unfolding e1 by simp
  qed
  then show "limbs_val (mul_pow_round m e r rs f mode) =
      round_div mode (unat m * 2 ^ nat e * (r * 2 ^ rs) ^ nat f) (2 ^ nat (- e) * (r * 2 ^ rs) ^ nat (- f))"
    and "mpb_ok (mul_pow_round m e r rs f mode)" by simp_all
qed

subsection \<open>Rounding to a float64\<close>

text \<open>
  The exponent of a positive fraction: \<open>2\<^sup>e\<^sup>-\<^sup>1 \<le> n/d < 2\<^sup>e\<close>. The float64 numbers near it are the
  multiples of \<open>2\<^sup>u\<close> where \<open>u\<close> is \<open>ulp_exp e\<close>.
\<close>

definition has_exp :: "nat \<Rightarrow> nat \<Rightarrow> int \<Rightarrow> bool" where
  "has_exp n d e \<longleftrightarrow> d * 2 ^ nat (e - 1) \<le> n * 2 ^ nat (1 - e) \<and> n * 2 ^ nat (- e) < d * 2 ^ nat e"

definition ulp_exp :: "int \<Rightarrow> int" where
  "ulp_exp e = max e (-1021) - 53"

text \<open>The fraction as a multiple of \<open>2\<^sup>u\<close>, rounded.\<close>

definition round_units :: "rnd_mode \<Rightarrow> nat \<Rightarrow> nat \<Rightarrow> int \<Rightarrow> nat" where
  "round_units mode n d u = round_div mode (n * 2 ^ nat (- u)) (d * 2 ^ nat u)"

text \<open>The mantissa and exponent of \<open>N 2\<^sup>u\<close>.\<close>

definition float_repr :: "u64 \<times> int \<Rightarrow> nat \<Rightarrow> int \<Rightarrow> bool" where
  "float_repr me N u \<longleftrightarrow> (case me of (m, e) \<Rightarrow>
     if N = 0 then m = 0
     else 2 ^ 52 \<le> unat m \<and> unat m < 2 ^ 53 \<and>
       unat m * 2 ^ nat (e - 53 - u) = N * 2 ^ nat (u - (e - 53)))"

lemma round_div_upper: "n < K * d \<Longrightarrow> round_div mode n d \<le> K"
proof -
  assume n: "n < K * d"
  then have "n div d < K" by (simp add: less_mult_imp_div_less)
  then show ?thesis by (cases mode) (auto simp: round_div_def Let_def)
qed

lemma round_div_lower: "K * d \<le> n \<Longrightarrow> 0 < d \<Longrightarrow> K \<le> round_div mode n d"
proof -
  assume "K * d \<le> n" "0 < d"
  then have "K \<le> n div d" by (simp add: less_eq_div_iff_mult_less_eq)
  then show ?thesis by (cases mode) (auto simp: round_div_def Let_def)
qed

lemma round_div_zero: "2 * n < d \<Longrightarrow> round_div mode n d = 0"
  by (cases mode) (auto simp: round_div_def)

lemma push_u64: "unat m * 2 ^ k < 2 ^ 64 \<Longrightarrow> unat (push_bit k (m :: u64)) = unat m * 2 ^ k"
  by (simp add: unat_push)

text \<open>\<^verbatim>\<open>round_to_d\<close> on the number \<open>S\<close>, scaled by \<open>2\<close> to the power of \<open>-e_offset\<close>.\<close>

lemma round_to_d_val:
  fixes e_offset :: int
  assumes ok: "mpb_ok a" and nz: "limbs_val a \<noteq> 0"
  defines "e \<equiv> int (bit_len (limbs_val a)) - e_offset"
  assumes pq: "int q - int p = ulp_exp e + e_offset"
  shows "float_repr (round_to_d a e_offset mode) (round_div mode (limbs_val a * 2 ^ p) (2 ^ q)) (ulp_exp e)"
proof -
  define S k where "S = limbs_val a" and "k = bit_len (limbs_val a)"
  define N where "N = round_div mode (S * 2 ^ p) (2 ^ q)"
  define prec where "prec = (if e < -1021 then 53 - (-1021 - e) else 53)"
  have k: "2 ^ (k - 1) \<le> S" "S < 2 ^ k" "0 < k" using bit_len_bounds [OF nz] by (simp_all add: S_def k_def)
  have u: "ulp_exp e = e - prec" by (simp add: ulp_exp_def prec_def)
  have s: "e + e_offset - prec = int q - int p" using pq u by simp
  have kq: "int k + int p - int q = prec" using s by (simp add: e_def k_def)
  define b where "b = mpb_shr_round a (e + e_offset - prec) mode"
  have b: "limbs_val b = N" "mpb_ok b"
    using shr_round_val_int [OF ok nz s, of mode] by (simp_all add: b_def N_def S_def)
  have nz': "\<not> (a ! 0 = 0 \<and> length a = 1)" using nz by (cases a) auto
  have fl: "mpb_floor_log2 a + 1 - e_offset = e" using mpb_floor_log2_val [OF ok nz] by (simp add: e_def)
  define m where "m = push_bit (nat (53 - prec)) (mpb_get_u64 b)"
  have rd: "round_to_d a e_offset mode = (if m \<ge> push_bit 53 1 then (drop_bit 1 m, e + 1) else (m, e))"
    unfolding round_to_d_def using nz' by (simp only: if_False Let_def fl prec_def [symmetric] b_def [symmetric] m_def [symmetric])
  have prec53: "prec \<le> 53" by (simp add: prec_def)
  show ?thesis
  proof (cases "N = 0")
    case True
    have "unat (mpb_get_u64 b) = 0" using mpb_get_u64_val [OF b(2)] b(1) True by simp
    then have "m = 0" by (simp add: m_def unat_eq_0)
    with rd True show ?thesis by (simp add: float_repr_def N_def S_def word_le_nat_alt unat_push)
  next
    case False
    have p0: "0 \<le> prec"
    proof (rule ccontr)
      assume "\<not> 0 \<le> prec"
      then have "k + p + 1 \<le> q" using kq by linarith
      then have "(2 :: nat) ^ (k + p + 1) \<le> 2 ^ q" by (intro power_increasing) simp_all
      moreover have "2 * (S * 2 ^ p) < 2 ^ (k + p + 1)" using k(2) by (simp add: power_add)
      ultimately have "N = 0" unfolding N_def by (intro round_div_zero) simp
      with False show False by simp
    qed
    have kp: "k + p = nat prec + q" using kq p0 by simp
    have "S * 2 ^ p < 2 ^ (k + p)" using k(2) by (simp add: power_add)
    also have "\<dots> = 2 ^ nat prec * 2 ^ q" unfolding kp by (simp add: power_add)
    finally have up: "N \<le> 2 ^ nat prec" unfolding N_def by (rule round_div_upper)
    have p53: "(2 :: nat) ^ nat prec * 2 ^ nat (53 - prec) = 2 ^ 53" using p0 prec53 by (simp add: nat_diff_distrib flip: power_add)
    have m_le: "N * 2 ^ nat (53 - prec) \<le> 2 ^ 53" using mult_le_mono1 [OF up, of "2 ^ nat (53 - prec)"] p53 by simp
    have "N \<le> N * 2 ^ nat (53 - prec)" by simp
    also note m_le
    finally have "N < 2 ^ 64" by simp
    then have "unat (mpb_get_u64 b) = N" using mpb_get_u64_val [OF b(2)] b(1) by simp
    then have m: "unat m = N * 2 ^ nat (53 - prec)"
      unfolding m_def using m_le by (subst push_u64) simp_all
    have m52: "2 ^ 52 \<le> unat m"
    proof (cases "prec = 0")
      case True
      then show ?thesis using False m by simp
    next
      case prec1: False
      have kp': "k - 1 + p = (nat prec - 1) + q" using kp k(3) prec1 p0 by simp
      have "2 ^ (nat prec - 1) * 2 ^ q = (2 :: nat) ^ (k - 1) * 2 ^ p" using kp' by (simp flip: power_add)
      also have "\<dots> \<le> S * 2 ^ p" using k(1) by simp
      finally have "2 ^ (nat prec - 1) \<le> N" unfolding N_def by (rule round_div_lower) simp
      then have "2 ^ (nat prec - 1) * 2 ^ nat (53 - prec) \<le> unat m" unfolding m by simp
      moreover have "nat prec - 1 + nat (53 - prec) = 52" using prec1 p0 prec53 by simp
      then have "(2 :: nat) ^ (nat prec - 1) * 2 ^ nat (53 - prec) = 2 ^ 52" by (metis power_add)
      ultimately show ?thesis by simp
    qed
    have test: "m \<ge> push_bit 53 1 \<longleftrightarrow> unat m = 2 ^ 53"
      using m_le m by (auto simp: word_le_nat_alt unat_push)
    show ?thesis
    proof (cases "unat m = 2 ^ 53")
      case True
      have "N * 2 ^ nat (u - (e + 1 - 53)) = 2 ^ 52 * 2 ^ nat (e + 1 - 53 - u)" if "u = ulp_exp e" for u
      proof (cases "prec = 53")
        case True
        then show ?thesis using that u m \<open>unat m = 2 ^ 53\<close> by simp
      next
        case lt: False
        then have "nat (53 - prec) = Suc (nat (u - (e + 1 - 53)))" and z: "nat (e + 1 - 53 - u) = 0"
          using that u prec53 by (simp_all add: Suc_nat_eq_nat_zadd1)
        then have "N * 2 ^ nat (u - (e + 1 - 53)) * 2 = 2 ^ 53" using m \<open>unat m = 2 ^ 53\<close> by simp
        then show ?thesis using z by simp
      qed
      then show ?thesis
        using True False test rd by (simp add: float_repr_def N_def [symmetric] S_def [symmetric] unat_drop)
    next
      case F: False
      have "nat (ulp_exp e - (e - 53)) = nat (53 - prec)" "nat (e - 53 - ulp_exp e) = 0" using u prec53 by simp_all
      then show ?thesis
        using F False test rd m m52 m_le by (auto simp: float_repr_def N_def [symmetric] S_def [symmetric])
    qed
  qed
qed

lemma pow2_cong: "int a + int d = int c + int b \<Longrightarrow> (2 :: nat) ^ a * 2 ^ d = 2 ^ c * 2 ^ b"
  by (metis of_nat_add of_nat_eq_iff power_add)

text \<open>
  From a scaled number to the fraction it stands for: the limbs hold \<open>n'/D\<close>, exactly or with a
  sticky bit, and \<open>n/d\<close> is that number scaled.
\<close>

lemma float_of_scaled:
  fixes off :: int
  assumes ok: "mpb_ok a" "limbs_val a \<noteq> 0" and pos: "0 < d" "0 < D"
    and nd: "n * D * 2 ^ q0 = n' * d * 2 ^ p0" and off: "off = int q0 - int p0"
  defines "e \<equiv> int (bit_len (limbs_val a)) - off"
  assumes lo: "D * 2 ^ (bit_len (limbs_val a) - 1) \<le> n'" and hi: "n' < D * 2 ^ bit_len (limbs_val a)"
    and rnd: "\<And>p q. int q - int p = ulp_exp e + off \<Longrightarrow> p = 0 \<or> q = 0 \<Longrightarrow>
      round_div mode (limbs_val a * 2 ^ p) (2 ^ q) = round_div mode (n' * 2 ^ p) (D * 2 ^ q)"
  shows "has_exp n d e \<and> float_repr (round_to_d a off mode) (round_units mode n d (ulp_exp e)) (ulp_exp e)"
proof
  define k where "k = bit_len (limbs_val a)"
  have k: "0 < k" using bit_len_bounds [OF ok(2)] by (simp add: k_def)
  have ek: "e = int k - int q0 + int p0" by (simp add: e_def k_def off)
  have Dq: "0 < D * 2 ^ q0" using pos by simp
  have "d * 2 ^ nat (e - 1) * (D * 2 ^ q0) = (D * 2 ^ (k - 1)) * (d * 2 ^ p0 * 2 ^ nat (1 - e))"
  proof -
    have "(2 :: nat) ^ nat (e - 1) * 2 ^ q0 = 2 ^ (k - 1 + p0) * 2 ^ nat (1 - e)"
      using k by (intro pow2_cong) (simp add: ek)
    then show ?thesis by (simp add: power_add)
  qed
  also have "\<dots> \<le> n' * (d * 2 ^ p0 * 2 ^ nat (1 - e))" using lo by (intro mult_le_mono1) (simp add: k_def)
  also have "\<dots> = n * 2 ^ nat (1 - e) * (D * 2 ^ q0)" using nd by (simp add: ac_simps)
  finally have l: "d * 2 ^ nat (e - 1) \<le> n * 2 ^ nat (1 - e)" using Dq by (metis mult_le_cancel2)
  have "n * 2 ^ nat (- e) * (D * 2 ^ q0) = n' * (d * 2 ^ p0 * 2 ^ nat (- e))" using nd by (simp add: ac_simps)
  also have "\<dots> < (D * 2 ^ k) * (d * 2 ^ p0 * 2 ^ nat (- e))" using hi pos by (simp add: k_def)
  also have "\<dots> = d * 2 ^ nat e * (D * 2 ^ q0)"
  proof -
    have "(2 :: nat) ^ nat e * 2 ^ q0 = 2 ^ (k + p0) * 2 ^ nat (- e)" by (intro pow2_cong) (simp add: ek)
    then show ?thesis by (simp add: power_add)
  qed
  finally have "n * 2 ^ nat (- e) < d * 2 ^ nat e" by (metis mult_less_cancel2)
  with l show "has_exp n d e" by (simp add: has_exp_def)
  define u where "u = ulp_exp e"
  define p q where "p = nat (- (u + off))" and "q = nat (u + off)"
  have pq: "int q - int p = ulp_exp e + off" "p = 0 \<or> q = 0" by (auto simp: p_def q_def u_def)
  have "round_div mode (n' * 2 ^ p) (D * 2 ^ q) = round_units mode n d u"
    unfolding round_units_def
  proof (rule round_div_cong)
    have "(2 :: nat) ^ (p + nat u) * 2 ^ q0 = 2 ^ (p0 + nat (- u)) * 2 ^ q"
      by (intro pow2_cong) (simp add: p_def q_def off)
    then have "n' * 2 ^ p * (d * 2 ^ nat u) * 2 ^ q0 = (n' * d * 2 ^ p0) * (2 ^ nat (- u) * 2 ^ q)"
      by (simp add: power_add)
    also have "\<dots> = n * 2 ^ nat (- u) * (D * 2 ^ q) * 2 ^ q0" unfolding nd [symmetric] by simp
    finally show "n' * 2 ^ p * (d * 2 ^ nat u) = n * 2 ^ nat (- u) * (D * 2 ^ q)" by simp
  qed (use pos in simp_all)
  with round_to_d_val [OF ok pq(1) [unfolded e_def], of mode] rnd [OF pq]
  show "float_repr (round_to_d a off mode) (round_units mode n d (ulp_exp e)) (ulp_exp e)"
    by (simp add: u_def e_def)
qed

text \<open>A number times a power of the radix, rounded to a float64.\<close>

lemma bit_len_sticky:
  assumes "2 \<le> q"
  shows "bit_len (sticky q b) = bit_len q"
proof -
  have "sticky q b div 2 = q div 2" by (rule sticky_half)
  moreover have "sticky q b \<noteq> 0" using assms by (auto simp: sticky_def)
  ultimately show ?thesis using assms by (simp add: bit_len_num)
qed

lemma mul_pow_round_to_d_val:
  fixes f :: int and rs :: nat
  assumes r: "odd r" "r \<le> 35" and a: "mpb_ok a" "limbs_val a \<noteq> 0"
  defines "n \<equiv> limbs_val a * (r * 2 ^ rs) ^ nat f" and "d \<equiv> (r * 2 ^ rs) ^ nat (- f)"
  shows "\<exists>e. has_exp n d e \<and>
    float_repr (mul_pow_round_to_d a r rs f mode) (round_units mode n d (ulp_exp e)) (ulp_exp e)"
proof (cases "0 \<le> f \<or> r = 1")
  case True
  obtain a' where a': "mul_pow a r rs f False 55 = (a', - f * int rs)"
    "limbs_val a' = limbs_val a * r ^ nat f" "mpb_ok a'"
    by (rule mul_pow_up_case [OF r a(1) True])
  have nz: "limbs_val a' \<noteq> 0" using a' a(2) r by auto
  have one: "r ^ nat (- f) = 1" using True by auto
  have b: "2 ^ (bit_len (limbs_val a') - 1) \<le> limbs_val a'" "limbs_val a' < 2 ^ bit_len (limbs_val a')"
    using bit_len_bounds [OF nz] by simp_all
  have nd: "n * 1 * 2 ^ (rs * nat (- f)) = limbs_val a' * d * 2 ^ (rs * nat f)"
    by (simp add: n_def d_def a' power_mult_distrib power_mult one)
  have off: "- f * int rs = int (rs * nat (- f)) - int (rs * nat f)" by (cases "0 \<le> f") simp_all
  have "mul_pow_round_to_d a r rs f mode = round_to_d a' (- f * int rs) mode"
    unfolding mul_pow_round_to_d_def a'(1) Let_def prod.case ..
  moreover have "0 < d" using r(1) by (simp add: d_def odd_pos)
  ultimately show ?thesis using float_of_scaled [OF a'(3) nz _ _ nd off, of mode] b by auto
next
  case False
  then have f: "f < 0" and r3: "3 \<le> r" using r(1) by (auto elim: oddE)
  define F where "F = nat (- f)"
  obtain a' k where a': "mul_pow a r rs f False 55 = (a', - f * int rs + int k)"
    "limbs_val a' = sticky (limbs_val a * 2 ^ k div r ^ F) (limbs_val a * 2 ^ k mod r ^ F \<noteq> 0)"
    "mpb_ok a'" and big: "2 ^ nat (55 - mpb_floor_log2 a) * r ^ F \<le> 2 ^ k"
    by (rule mul_pow_down_case [OF r(1) r3 r(2) a f, of rs False 55]) (simp add: F_def)
  define Q where "Q = limbs_val a * 2 ^ k div r ^ F"
  have rp: "0 < r ^ F" using r3 by simp
  have Q: "2 ^ 55 \<le> Q"
  proof -
    define j where "j = bit_len (limbs_val a)"
    have j: "2 ^ (j - 1) \<le> limbs_val a" "0 < j" using bit_len_bounds [OF a(2)] by (simp_all add: j_def)
    have fl: "mpb_floor_log2 a = int (j - 1)" using mpb_floor_log2_val [OF a] j(2) by (simp add: j_def of_nat_diff)
    have "2 ^ 55 * r ^ F \<le> 2 ^ (j - 1) * (2 ^ nat (55 - mpb_floor_log2 a) * r ^ F)"
    proof -
      have "(2 :: nat) ^ 55 \<le> 2 ^ (j - 1 + nat (55 - mpb_floor_log2 a))" by (intro power_increasing) (simp_all add: fl)
      then have "2 ^ 55 * r ^ F \<le> 2 ^ (j - 1 + nat (55 - mpb_floor_log2 a)) * r ^ F" by (rule mult_le_mono1)
      then show ?thesis by (simp only: power_add mult.assoc)
    qed
    also have "\<dots> \<le> limbs_val a * 2 ^ k" by (intro mult_mono j(1) big) simp_all
    finally show ?thesis unfolding Q_def using rp by (simp only: less_eq_div_iff_mult_less_eq)
  qed
  have bl: "bit_len (limbs_val a') = bit_len Q" unfolding a'(2) Q_def [symmetric] using Q by (intro bit_len_sticky) simp
  have Qnz: "Q \<noteq> 0" using Q by auto
  have nz: "limbs_val a' \<noteq> 0" unfolding a'(2) Q_def [symmetric] using Qnz by (auto simp: sticky_def)
  have lo: "r ^ F * 2 ^ (bit_len Q - 1) \<le> limbs_val a * 2 ^ k"
    using bit_len_bounds [OF Qnz] rp by (simp add: Q_def less_eq_div_iff_mult_less_eq mult.commute)
  have hi: "limbs_val a * 2 ^ k < r ^ F * 2 ^ bit_len Q"
    using bit_len_bounds [OF Qnz] rp by (simp add: Q_def div_less_iff_less_mult mult.commute)
  have b56: "56 \<le> bit_len Q"
  proof (rule ccontr)
    assume "\<not> 56 \<le> bit_len Q"
    then have "(2 :: nat) ^ bit_len Q \<le> 2 ^ 55" by (intro power_increasing) simp_all
    with bit_len_bounds [OF Qnz] Q show False by linarith
  qed
  define off where "off = - f * int rs + int k"
  have nd: "n * r ^ F * 2 ^ (rs * F + k) = (limbs_val a * 2 ^ k) * d * 2 ^ 0"
    using f by (simp add: n_def d_def F_def power_mult_distrib power_mult power_add)
  have off': "off = int (rs * F + k) - int 0" using f by (simp add: off_def F_def)
  have rnd: "round_div mode (limbs_val a' * 2 ^ p) (2 ^ q) = round_div mode (limbs_val a * 2 ^ k * 2 ^ p) (r ^ F * 2 ^ q)"
    if "int q - int p = ulp_exp (int (bit_len (limbs_val a')) - off) + off" "p = 0 \<or> q = 0" for p q
  proof -
    have "2 \<le> int q - int p" using that(1) b56 unfolding bl ulp_exp_def by linarith
    then have "p = 0" "2 \<le> q" using that(2) by auto
    then show ?thesis using round_sticky [OF _ rp, of q mode "limbs_val a * 2 ^ k"] a'(2) by simp
  qed
  have "mul_pow_round_to_d a r rs f mode = round_to_d a' off mode"
    unfolding mul_pow_round_to_d_def a'(1) Let_def prod.case off_def ..
  moreover have "0 < d" using r(1) by (simp add: d_def odd_pos)
  ultimately show ?thesis using float_of_scaled [OF a'(3) nz _ rp nd off' _ _ rnd] lo hi bl by auto
qed

subsection \<open>Properties\<close>

text \<open>The odd part and the power of two of a radix, as the callers split it.\<close>

lemma trailing_zeros_split: "n \<noteq> 0 \<Longrightarrow> (n div 2 ^ trailing_zeros n) * 2 ^ trailing_zeros n = n \<and> odd (n div 2 ^ trailing_zeros n)"
proof (induction n rule: trailing_zeros.induct)
  case (1 n)
  show ?case
  proof (cases "odd n")
    case True
    then have "trailing_zeros n = 0" by (subst trailing_zeros.simps) simp
    with True show ?thesis by simp
  next
    case False
    then have t: "trailing_zeros n = Suc (trailing_zeros (n div 2))" using 1(2) by (subst trailing_zeros.simps) simp
    have "n div 2 \<noteq> 0" using False 1(2) by auto
    with 1(1) 1(2) False have ih: "(n div 2 div 2 ^ trailing_zeros (n div 2)) * 2 ^ trailing_zeros (n div 2) = n div 2"
      "odd (n div 2 div 2 ^ trailing_zeros (n div 2))" by blast+
    have d: "n div 2 ^ trailing_zeros n = n div 2 div 2 ^ trailing_zeros (n div 2)" by (simp add: t div_mult2_eq)
    have "n div 2 ^ trailing_zeros n * 2 ^ trailing_zeros n = n div 2 * 2"
      unfolding d using ih(1) by (metis t power_Suc2 mult.assoc)
    with ih(2) d False show ?thesis by simp
  qed
qed

lemma radix_parts:
  assumes "2 \<le> radix" "radix \<le> 36" and "rs = trailing_zeros radix" and "r = radix div 2 ^ rs"
  shows "odd r" and "r \<le> 35" and "r * 2 ^ rs = radix"
proof -
  show o: "odd r" and rr: "r * 2 ^ rs = radix" using trailing_zeros_split [of radix] assms by simp_all
  have "r \<le> r * 2 ^ rs" by simp
  then have "r \<le> 36" using rr assms(2) by linarith
  with o show "r \<le> 35" by (cases "r = 36") auto
qed

text \<open>
  Scaling rounds once. In every radix from 2 to 36, \<^verbatim>\<open>mul_pow_round\<close> returns
  \<open>m 2\<^sup>e radix\<^sup>f\<close> rounded to an integer in the mode given, for positive and negative exponents: the
  digits dropped by its divisions never disturb the rounding.
\<close>

theorem mul_pow_round_exact:
  assumes "2 \<le> radix" "radix \<le> 36" and "rs = trailing_zeros radix" "r = radix div 2 ^ rs" and "m \<noteq> 0"
  shows "limbs_val (mul_pow_round m e r rs f mode) =
    round_div mode (unat m * 2 ^ nat e * radix ^ nat f) (2 ^ nat (- e) * radix ^ nat (- f))"
  using mul_pow_round_val(1) [OF radix_parts(1,2) [OF assms(1-4)] assms(5), of e rs f mode]
    radix_parts(3) [OF assms(1-4)] by simp

theorem mul_pow_round_exact_witness:
  "limbs_val (mul_pow_round 3 (-1) 5 1 (-1) JS_RNDN) = round_div JS_RNDN 3 20"
proof -
  have t: "trailing_zeros 10 = 1" "trailing_zeros 5 = 0" by (simp_all add: trailing_zeros.simps)
  show ?thesis using mul_pow_round_exact [of 10 1 5 3 "-1" "-1" JS_RNDN] t by simp
qed

text \<open>
  C35. Scaling to a float64. In every radix from 2 to 36, \<^verbatim>\<open>mul_pow_round_to_d\<close> returns the
  mantissa and exponent of \<open>a radix\<^sup>f\<close> rounded once to the multiples of the unit in the last place
  of a float64 at that magnitude, subnormal magnitudes included; the mantissa has exactly 53
  bits, or the result is zero.
\<close>

theorem mul_pow_round_to_d_exact:
  assumes "2 \<le> radix" "radix \<le> 36" and "rs = trailing_zeros radix" "r = radix div 2 ^ rs"
    and "mpb_ok a" "limbs_val a \<noteq> 0"
  shows "\<exists>e. has_exp (limbs_val a * radix ^ nat f) (radix ^ nat (- f)) e \<and>
    float_repr (mul_pow_round_to_d a r rs f mode)
      (round_units mode (limbs_val a * radix ^ nat f) (radix ^ nat (- f)) (ulp_exp e)) (ulp_exp e)"
  using mul_pow_round_to_d_val [OF radix_parts(1,2) [OF assms(1-4)] assms(5,6), of rs f mode]
    radix_parts(3) [OF assms(1-4)] by simp

theorem mul_pow_round_to_d_exact_witness:
  "\<exists>e. has_exp 3 10 e \<and> float_repr (mul_pow_round_to_d [3] 5 1 (-1) JS_RNDN) (round_units JS_RNDN 3 10 (ulp_exp e)) (ulp_exp e)"
proof -
  have t: "trailing_zeros 10 = 1" "trailing_zeros 5 = 0" by (simp_all add: trailing_zeros.simps)
  show ?thesis using mul_pow_round_to_d_exact [of 10 1 5 "[3]" "-1" JS_RNDN] t by (simp add: mpb_ok_def)
qed

end
