(* ===== verification/Radix_Log.thy ===== *)
theory Radix_Log
  imports Scaling Complex_Main "HOL-Library.Signed_Division"
begin

text \<open>
  The logarithm \<^verbatim>\<open>mul_log2_radix\<close> of \<^verbatim>\<open>dtoa.c\<close>: the quotient of an exponent by the base-2
  logarithm of the radix, rounded down, by one multiplication with a constant of 24 fractional
  bits. The constants are approximations; that they give the exact floor for every exponent in
  use is shown with fractions that enclose both the constant and the logarithm, so tightly that
  no fraction of a small denominator lies between.
\<close>

subsection \<open>The code\<close>

definition mul_log2_radix_table :: "u32 list" where
  "mul_log2_radix_table =
     [0x000000, 0xa1849d, 0x000000, 0x6e40d2,
      0x6308c9, 0x5b3065, 0x000000, 0x50c24e,
      0x4d104d, 0x4a0027, 0x4768ce, 0x452e54,
      0x433d00, 0x418677, 0x000000, 0x3ea16b,
      0x3d645a, 0x3c43c2, 0x3b3b9a, 0x3a4899,
      0x39680b, 0x3897b3, 0x37d5af, 0x372069,
      0x367686, 0x35d6df, 0x354072, 0x34b261,
      0x342bea, 0x33ac62, 0x000000, 0x32bfd9,
      0x3251dd, 0x31e8d6, 0x318465]"

definition is_pow2_radix :: "nat \<Rightarrow> bool" where
  "is_pow2_radix radix \<longleftrightarrow> (of_nat radix :: u32) AND (of_nat radix - 1) = 0"

definition mul_log2_radix :: "int \<Rightarrow> nat \<Rightarrow> int" where
  "mul_log2_radix a radix =
     (if is_pow2_radix radix then
        let radix_bits = 31 - int (clz32 (of_nat radix));
            a = (if a < 0 then a - (radix_bits - 1) else a)
        in a sdiv radix_bits
      else
        let mult = uint (mul_log2_radix_table ! (radix - 2))
        in drop_bit 24 (a * mult))"


subsection \<open>Powers of two\<close>

lemma is_pow2_radix_cases:
  assumes "2 \<le> radix" "radix \<le> 36"
  shows "is_pow2_radix radix \<longleftrightarrow> radix \<in> {2, 4, 8, 16, 32}"
proof -
  have t: "list_all (\<lambda>k. is_pow2_radix k = (k \<in> set [2, 4, 8, 16, 32])) [2..<37]" by code_simp
  have "radix \<in> {2..<37}" using assms by simp
  from bspec [OF t [unfolded list_all_iff set_upt] this] show ?thesis by simp
qed

lemma pow2_radix_bits:
  assumes "radix \<in> {2, 4, 8, 16, 32 :: nat}"
  defines "b \<equiv> 31 - clz32 (of_nat radix)"
  shows "radix = 2 ^ b" "1 \<le> b" "b \<le> 5" "digits_per_limb_table ! (radix - 2) * b \<le> 32"
proof -
  have "radix = 2 ^ b \<and> 1 \<le> b \<and> b \<le> 5 \<and> digits_per_limb_table ! (radix - 2) * b \<le> 32"
    using assms(1) by (auto simp: b_def clz32_def bit_len_num digits_per_limb_table_def)
  then show "radix = 2 ^ b" "1 \<le> b" "b \<le> 5" "digits_per_limb_table ! (radix - 2) * b \<le> 32" by auto
qed


subsection \<open>Floors of close numbers\<close>

text \<open>
  Neighbouring fractions: no multiple of a number between them by less than the sum of their
  denominators passes an integer.
\<close>

lemma farey_between:
  fixes u v u' v' a r :: int
  assumes fn: "u' * v - u * v' = 1" and pos: "0 < v" "0 < v'" and a: "a < v + v'"
    and lt: "r * v' < a * u'"
  shows "r * v \<le> a * u"
proof (rule ccontr)
  assume "\<not> r * v \<le> a * u"
  then have 1: "1 \<le> r * v - a * u" and 2: "1 \<le> a * u' - r * v'" using lt by linarith+
  have "a = a * (u' * v - u * v')" by (simp add: fn)
  also have "\<dots> = v * (a * u' - r * v') + v' * (r * v - a * u)" by (simp add: algebra_simps)
  finally have "a = v * (a * u' - r * v') + v' * (r * v - a * u)" .
  moreover have "v * 1 \<le> v * (a * u' - r * v')" "v' * 1 \<le> v' * (r * v - a * u)"
    using 1 2 pos by (intro mult_left_mono; simp)+
  ultimately show False using a by linarith
qed

lemma farey_floor_le:
  fixes u v u' v' a r :: int and x y :: real
  assumes fn: "u' * v - u * v' = 1" and pos: "0 < v" "0 < v'" and a: "\<bar>a\<bar> < v + v'"
    and x: "u / v < x" "x < u' / v'" and y: "u / v < y" "y < u' / v'" and r: "r \<le> a * x"
  shows "r \<le> a * y"
proof (cases a "0 :: int" rule: linorder_cases)
  case equal
  then show ?thesis using r by simp
next
  case greater
  have "r * v' < a * u'"
  proof -
    have "real_of_int r < a * (u' / v')" using r x(2) greater by (smt (verit) mult_strict_left_mono of_int_0_less_iff)
    then have "real_of_int r * v' < a * u'" using pos by (simp add: field_simps)
    then show ?thesis by (simp flip: of_int_mult)
  qed
  then have "r * v \<le> a * u" using farey_between [OF fn pos] a greater by simp
  then have "real_of_int (r * v) \<le> real_of_int (a * u)" by (simp only: of_int_le_iff)
  then have "real_of_int r \<le> a * (u / v)" using pos by (simp add: field_simps)
  also have "\<dots> \<le> a * y" using y(1) greater by (intro mult_left_mono) simp_all
  finally show ?thesis .
next
  case less
  define b s where "b = - a" and "s = - r"
  have b: "0 < b" "b < v + v'" using less a by (simp_all add: b_def)
  have sx: "b * x \<le> s" using r by (simp add: b_def s_def)
  have "b * u < s * v"
  proof -
    have "b * (u / v) < real_of_int s" using sx x(1) b by (smt (verit) mult_strict_left_mono of_int_0_less_iff)
    then have "real_of_int b * u < s * v" using pos by (simp add: field_simps)
    then show ?thesis by (simp flip: of_int_mult)
  qed
  then have "b * u' \<le> s * v'"
    using farey_between [of v u v' u' s b] farey_between [OF fn pos b(2), of s] by linarith
  then have "real_of_int (b * u') \<le> real_of_int (s * v')" by (simp only: of_int_le_iff)
  then have "b * (u' / v') \<le> real_of_int s" using pos by (simp add: field_simps)
  moreover have "b * y \<le> b * (u' / v')" using y(2) b by (intro mult_left_mono) simp_all
  ultimately have "b * y \<le> s" by linarith
  then show ?thesis by (simp add: b_def s_def)
qed

lemma farey_floor:
  fixes u v u' v' a :: int and x y :: real
  assumes "u' * v - u * v' = 1" "0 < v" "0 < v'" "\<bar>a\<bar> < v + v'"
    and "u / v < x" "x < u' / v'" "u / v < y" "y < u' / v'"
  shows "\<lfloor>a * x\<rfloor> = \<lfloor>a * y\<rfloor>"
proof (rule antisym)
  show "\<lfloor>a * x\<rfloor> \<le> \<lfloor>a * y\<rfloor>"
    using farey_floor_le [OF assms, of "\<lfloor>a * x\<rfloor>"] by (simp add: le_floor_iff)
  show "\<lfloor>a * y\<rfloor> \<le> \<lfloor>a * x\<rfloor>"
    using farey_floor_le [OF assms(1-4,7,8,5,6), of "\<lfloor>a * y\<rfloor>"] by (simp add: le_floor_iff)
qed

subsection \<open>Bounds for large powers\<close>

text \<open>
  A power \<open>r\<^sup>n\<close> enclosed by \<open>M 2\<^sup>k\<close> with a mantissa of bounded size, by square and multiply over
  the bits of \<open>n\<close>, rounded up or down after each step.
\<close>

definition scale_down :: "bool \<Rightarrow> int \<times> int \<Rightarrow> int \<times> int" where
  "scale_down up x = (case x of (M, k) \<Rightarrow>
     if M < 2 ^ 80 then (M, k)
     else let t = (if M \<ge> 2 ^ 140 then 100 else if M \<ge> 2 ^ 110 then 70 else 40)
          in (M div 2 ^ nat t + (if up then 1 else 0), k + t))"

definition power_step :: "bool \<Rightarrow> int \<Rightarrow> int \<times> int \<Rightarrow> bool \<Rightarrow> int \<times> int" where
  "power_step up r x b = (case x of (M, k) \<Rightarrow> scale_down up (if b then M * M * r else M * M, k + k))"

fun bits_msb :: "nat \<Rightarrow> int \<Rightarrow> bool list" where
  "bits_msb 0 n = []"
| "bits_msb (Suc i) n = bits_msb i (n div 2) @ [odd n]"

definition power_bound :: "bool \<Rightarrow> int \<Rightarrow> int \<Rightarrow> int \<times> int" where
  "power_bound up r n = foldl (power_step up r) (1, 0) (bits_msb 10 n)"

definition bounded_by :: "bool \<Rightarrow> int \<Rightarrow> int \<times> int \<Rightarrow> bool" where
  "bounded_by up p x = (case x of (M, k) \<Rightarrow> 0 \<le> M \<and> 0 \<le> k \<and>
     (if up then p \<le> M * 2 ^ nat k else M * 2 ^ nat k \<le> p))"

lemma scale_down_bound:
  assumes "bounded_by up p x"
  shows "bounded_by up p (scale_down up x)"
proof -
  obtain M k where x: "x = (M, k)" by fastforce
  have b: "0 \<le> M" "0 \<le> k" "if up then p \<le> M * 2 ^ nat k else M * 2 ^ nat k \<le> p"
    using assms by (simp_all add: bounded_by_def x)
  show ?thesis
  proof (cases "M < 2 ^ 80")
    case True
    with assms show ?thesis by (simp add: scale_down_def x)
  next
    case False
    define t :: int where "t = (if M \<ge> 2 ^ 140 then 100 else if M \<ge> 2 ^ 110 then 70 else 40)"
    define Q where "Q = M div 2 ^ nat t"
    have t: "0 \<le> t" by (simp add: t_def)
    have pw: "(2 :: int) ^ nat (k + t) = 2 ^ nat t * 2 ^ nat k" using b t by (simp add: nat_add_distrib power_add)
    have "Q * 2 ^ nat t \<le> M" "M \<le> (Q + 1) * 2 ^ nat t"
    proof -
      have "M mod 2 ^ nat t < 2 ^ nat t" "0 \<le> M mod 2 ^ nat t" by simp_all
      moreover have "M = Q * 2 ^ nat t + M mod 2 ^ nat t" unfolding Q_def by (rule div_mult_mod_eq [symmetric])
      ultimately show "Q * 2 ^ nat t \<le> M" "M \<le> (Q + 1) * 2 ^ nat t" unfolding distrib_right by linarith+
    qed
    then have "Q * 2 ^ nat (k + t) \<le> M * 2 ^ nat k" "M * 2 ^ nat k \<le> (Q + 1) * 2 ^ nat (k + t)"
      unfolding pw mult.assoc [symmetric] by (simp_all only: mult_right_mono zero_le_power zero_le_numeral)
    moreover have "0 \<le> Q" using b by (simp add: Q_def pos_imp_zdiv_nonneg_iff)
    moreover have "scale_down up x = (Q + (if up then 1 else 0), k + t)"
      using False by (simp add: scale_down_def x t_def Q_def Let_def)
    ultimately show ?thesis using b t by (auto simp: bounded_by_def split: if_splits)
  qed
qed

lemma power_step_bound:
  assumes "bounded_by up (r ^ n) x" "0 \<le> r"
  shows "bounded_by up (r ^ (2 * n + (if b then 1 else 0))) (power_step up r x b)"
proof -
  obtain M k where x: "x = (M, k)" by fastforce
  have M: "0 \<le> M" "0 \<le> k" "if up then r ^ n \<le> M * 2 ^ nat k else M * 2 ^ nat k \<le> r ^ n"
    using assms(1) by (simp_all add: bounded_by_def x)
  have pw: "(M * M) * 2 ^ nat (k + k) = (M * 2 ^ nat k) * (M * 2 ^ nat k)"
    unfolding nat_add_distrib [OF M(2) M(2)] power_add by simp
  have rn: "r ^ (2 * n) = r ^ n * r ^ n" by (simp add: mult_2 power_add)
  have sq: "if up then r ^ (2 * n) \<le> (M * M) * 2 ^ nat (k + k) else (M * M) * 2 ^ nat (k + k) \<le> r ^ (2 * n)"
    unfolding pw rn using M assms(2) by (auto intro!: mult_mono split: if_splits)
  have "bounded_by up (r ^ (2 * n + (if b then 1 else 0))) (if b then M * M * r else M * M, k + k)"
  proof (cases b)
    case True
    define S where "S = (M * M) * 2 ^ nat (k + k)"
    have e: "(M * M * r) * 2 ^ nat (k + k) = S * r" "r ^ (2 * n + 1) = r ^ (2 * n) * r" by (simp_all add: S_def)
    have "if up then r ^ (2 * n) * r \<le> S * r else S * r \<le> r ^ (2 * n) * r"
      using sq [folded S_def] assms(2) by (cases up) (simp_all add: mult_right_mono)
    with True M assms(2) show ?thesis unfolding bounded_by_def by (simp only: prod.case if_True e) simp
  next
    case False
    with sq M(1,2) show ?thesis unfolding bounded_by_def prod.case by (simp only: if_False add_0_right) simp
  qed
  then show ?thesis by (simp add: power_step_def x scale_down_bound)
qed

lemma power_bound_bits:
  assumes "0 \<le> r" "0 \<le> n"
  shows "bounded_by up (r ^ nat (n mod 2 ^ i)) (foldl (power_step up r) (1, 0) (bits_msb i n))"
  using assms(2)
proof (induction i arbitrary: n)
  case 0
  then show ?case by (simp add: bounded_by_def)
next
  case (Suc i)
  have "n mod 2 ^ Suc i = 2 * (n div 2 mod 2 ^ i) + n mod 2" using mod_mult2_eq' [of n 2 "2 ^ i"] by simp
  then have "nat (n mod 2 ^ Suc i) = 2 * nat (n div 2 mod 2 ^ i) + (if odd n then 1 else 0)"
    by (auto simp: nat_add_distrib nat_mult_distrib odd_iff_mod_2_eq_one)
  with power_step_bound [OF Suc(1) assms(1), of "n div 2" "odd n"] Suc(2) show ?case by simp
qed

lemma power_bound:
  assumes "0 \<le> r" "0 \<le> n" "n < 1024"
  shows "bounded_by up (r ^ nat n) (power_bound up r n)"
  using power_bound_bits [OF assms(1,2), of up 10] assms(2,3) by (simp add: power_bound_def)

subsection \<open>The enclosures\<close>

text \<open>For each radix, two neighbouring fractions around the reciprocal of its logarithm.\<close>

definition enclosures :: "(int \<times> int \<times> int \<times> int \<times> int) list" where
  "enclosures =
     [(3, 971, 1539, 665, 1054), (5, 643, 1493, 789, 1832), (6, 306, 791, 665, 1719),
      (7, 571, 1603, 680, 1909), (9, 153, 485, 512, 1623), (10, 497, 1651, 146, 485),
      (11, 37, 128, 579, 2003), (12, 306, 1097, 359, 1287), (13, 227, 840, 464, 1717),
      (14, 462, 1759, 109, 415), (15, 290, 1133, 247, 965), (17, 343, 1402, 263, 1075),
      (18, 153, 638, 359, 1497), (19, 121, 514, 480, 2039), (20, 351, 1517, 146, 631),
      (21, 339, 1489, 130, 571), (22, 37, 165, 431, 1922), (23, 403, 1823, 191, 864),
      (24, 306, 1403, 359, 1646), (25, 424, 1969, 73, 339), (26, 227, 1067, 237, 1114),
      (27, 102, 485, 359, 1707), (28, 353, 1697, 109, 524), (29, 169, 821, 345, 1676),
      (30, 290, 1423, 247, 1212), (31, 131, 649, 371, 1838), (33, 45, 227, 383, 1932),
      (34, 343, 1745, 263, 1338), (35, 379, 1944, 263, 1349), (36, 153, 791, 359, 1856)]"

definition encloses :: "int \<times> int \<times> int \<times> int \<times> int \<Rightarrow> bool" where
  "encloses t = (case t of (r, u, v, u', v') \<Rightarrow>
     let c = uint (mul_log2_radix_table ! nat (r - 2)) in
     u' * v = u * v' + 1 \<and> 0 \<le> u \<and> 0 \<le> u' \<and> 0 < v \<and> 0 < v' \<and> 2048 < v + v' \<and> u < 1024 \<and> u' < 1024 \<and>
     u * 2 ^ 24 < c * v \<and> c * v' < u' * 2 ^ 24 \<and>
     (case power_bound True r u of (M, k) \<Rightarrow> 0 \<le> v - k \<and> M < 2 ^ nat (v - k)) \<and>
     (case power_bound False r u' of (M, k) \<Rightarrow> 0 \<le> v' - k \<and> 2 ^ nat (v' - k) < M))"

lemma enclosures_ok: "list_all encloses enclosures"
  by code_simp

lemma enclosures_all:
  assumes "2 \<le> radix" "radix \<le> 36" "\<not> is_pow2_radix radix"
  obtains u v u' v' where "encloses (int radix, u, v, u', v')"
proof -
  have t: "list_all (\<lambda>k. k \<in> set [2, 4, 8, 16, 32] \<or> int k \<in> fst ` set enclosures) [2..<37]"
    by (simp add: upt_rec enclosures_def)
  have "radix \<in> {2..<37}" using assms by simp
  from bspec [OF t [unfolded list_all_iff set_upt] this] assms is_pow2_radix_cases [OF assms(1,2)]
  have "int radix \<in> fst ` set enclosures" by auto
  then obtain t where "t \<in> set enclosures" "fst t = int radix" by auto
  with enclosures_ok that show thesis by (cases t) (auto simp: list_all_iff)
qed

lemma power_less_pow2:
  assumes "bounded_by True (r ^ n) (M, k)" "0 \<le> v - k" "M < 2 ^ nat (v - k)"
  shows "r ^ n < 2 ^ nat v"
proof -
  have M: "r ^ n \<le> M * 2 ^ nat k" "0 \<le> k" using assms(1) by (simp_all add: bounded_by_def)
  have "nat v = nat (v - k) + nat k" using assms(2) M(2) by simp
  then have "(2 :: int) ^ nat v = 2 ^ nat (v - k) * 2 ^ nat k" by (simp add: power_add)
  moreover have "M * 2 ^ nat k < 2 ^ nat (v - k) * 2 ^ nat k" using assms(3) by (intro mult_strict_right_mono) simp_all
  ultimately show ?thesis using M(1) by linarith
qed

lemma pow2_less_power:
  assumes "bounded_by False (r ^ n) (M, k)" "0 \<le> v - k" "2 ^ nat (v - k) < M"
  shows "2 ^ nat v < r ^ n"
proof -
  have M: "M * 2 ^ nat k \<le> r ^ n" "0 \<le> k" using assms(1) by (simp_all add: bounded_by_def)
  have "nat v = nat (v - k) + nat k" using assms(2) M(2) by simp
  then have "(2 :: int) ^ nat v = 2 ^ nat (v - k) * 2 ^ nat k" by (simp add: power_add)
  moreover have "2 ^ nat (v - k) * 2 ^ nat k < M * 2 ^ nat k" using assms(3) by (intro mult_strict_right_mono) simp_all
  ultimately show ?thesis using M(1) by linarith
qed

lemma mul_log2_radix_mult:
  assumes "2 \<le> radix" "radix \<le> 36" "\<not> is_pow2_radix radix" and a: "\<bar>a\<bar> \<le> 2048"
  shows "mul_log2_radix a radix = \<lfloor>a / log 2 radix\<rfloor>"
proof -
  obtain u v u' v' where enc: "encloses (int radix, u, v, u', v')" by (rule enclosures_all [OF assms(1-3)])
  define c where "c = uint (mul_log2_radix_table ! (radix - 2))"
  obtain M k M' k' where pb: "power_bound True (int radix) u = (M, k)" "power_bound False (int radix) u' = (M', k')"
    by fastforce
  have tab: "nat (int radix - 2) = radix - 2" by simp
  have e: "u' * v = u * v' + 1" "0 \<le> u" "0 \<le> u'" "0 < v" "0 < v'" "2048 < v + v'" "u < 1024" "u' < 1024"
    "u * 2 ^ 24 < c * v" "c * v' < u' * 2 ^ 24"
    "0 \<le> v - k" "M < 2 ^ nat (v - k)" "0 \<le> v' - k'" "2 ^ nat (v' - k') < M'"
    using enc unfolding encloses_def prod.case tab c_def [symmetric] Let_def pb by blast+
  have b: "int radix ^ nat u < 2 ^ nat v" "2 ^ nat v' < int radix ^ nat u'"
    using power_less_pow2 [OF _ e(11,12)] pow2_less_power [OF _ e(13,14)]
      power_bound [of "int radix" u True] power_bound [of "int radix" u' False] e pb by simp_all
  define L where "L = log 2 (real radix)"
  have L: "0 < L" using assms(1) by (simp add: L_def)
  have rp: "0 < real radix" using assms(1) by simp
  have lg: "log 2 (real radix ^ n) = real n * L" "log 2 ((2 :: real) ^ n) = real n" for n
    using rp by (simp_all add: log_nat_power L_def)
  have lo: "real_of_int u * L < v"
  proof -
    have "real radix ^ nat u < 2 ^ nat v" using b(1) by (metis of_int_less_iff of_int_of_nat_eq of_int_power of_int_numeral)
    then have "log 2 (real radix ^ nat u) < log 2 (2 ^ nat v)" using rp by (intro log_less) simp_all
    then show ?thesis unfolding lg using e by simp
  qed
  have hi: "v' < real_of_int u' * L"
  proof -
    have "2 ^ nat v' < real radix ^ nat u'" using b(2) by (metis of_int_less_iff of_int_of_nat_eq of_int_power of_int_numeral)
    then have "log 2 (2 ^ nat v') < log 2 (real radix ^ nat u')" using rp by (intro log_less) simp_all
    then show ?thesis unfolding lg using e by simp
  qed
  have "\<lfloor>a * (c / 2 ^ 24)\<rfloor> = \<lfloor>a * (1 / L)\<rfloor>"
  proof (rule farey_floor [of u' v u v'])
    show "u' * v - u * v' = 1" "0 < v" "0 < v'" "\<bar>a\<bar> < v + v'" using e a by simp_all
    have "real_of_int (u * 2 ^ 24) < real_of_int (c * v)" "real_of_int (c * v') < real_of_int (u' * 2 ^ 24)"
      using e(9,10) by (simp_all only: of_int_less_iff)
    then show "real_of_int u / real_of_int v < c / 2 ^ 24" "c / 2 ^ 24 < real_of_int u' / real_of_int v'"
      using e(4,5) by (simp_all add: field_simps)
    show "real_of_int u / real_of_int v < 1 / L" "1 / L < real_of_int u' / real_of_int v'"
      using lo hi L e(4,5) by (simp_all add: field_simps)
  qed
  moreover have "mul_log2_radix a radix = \<lfloor>a * (c / 2 ^ 24)\<rfloor>"
  proof -
    have "mul_log2_radix a radix = a * c div 2 ^ 24"
      using assms(3) by (simp add: mul_log2_radix_def c_def drop_bit_eq_div [where ?'a = int])
    also have "\<dots> = \<lfloor>real_of_int (a * c) / real_of_int (2 ^ 24)\<rfloor>" by (rule floor_divide_of_int_eq [symmetric])
    finally show ?thesis by simp
  qed
  ultimately show ?thesis by (simp add: L_def)
qed

lemma sdiv_floor:
  fixes a b :: int
  assumes "1 \<le> b"
  shows "(if a < 0 then a - (b - 1) else a) sdiv b = a div b"
proof (cases "a < 0")
  case True
  have "(a - (b - 1)) sdiv b = - ((- a + (b - 1)) div b)"
    using True assms by (simp add: signed_divide_int_def sgn_if)
  also have "(- a + (b - 1)) div b = - (a div b)"
  proof -
    define q m where "q = a div b" and "m = a mod b"
    have a: "a = q * b + m" "0 \<le> m" "m < b" using assms by (simp_all add: q_def m_def)
    have "- a + (b - 1) = (b - 1 - m) + (- q) * b" by (simp add: a(1))
    also have "\<dots> div b = - q + (b - 1 - m) div b" using assms by (intro div_mult_self1) simp
    also have "(b - 1 - m) div b = 0" using a assms by (intro div_pos_pos_trivial) simp_all
    finally show ?thesis by (simp add: q_def)
  qed
  finally show ?thesis using True by simp
next
  case False
  then show ?thesis using assms by (cases "a = 0") (simp_all add: signed_divide_int_def sgn_if)
qed

lemma mul_log2_radix_floor:
  assumes "2 \<le> radix" "radix \<le> 36" and a: "\<bar>a\<bar> \<le> 2048"
  shows "mul_log2_radix a radix = \<lfloor>a / log 2 radix\<rfloor>"
proof (cases "is_pow2_radix radix")
  case True
  define b where "b = 31 - clz32 (of_nat radix)"
  have s: "radix \<in> {2, 4, 8, 16, 32}" using True is_pow2_radix_cases [OF assms(1,2)] by simp
  note pb = pow2_radix_bits [OF s, folded b_def]
  have "31 - int (clz32 (of_nat radix)) = int b" using pb(2) by (simp add: b_def of_nat_diff)
  then have "mul_log2_radix a radix = (if a < 0 then a - (int b - 1) else a) sdiv int b"
    using True by (simp add: mul_log2_radix_def Let_def)
  also have "\<dots> = a div int b" using pb(2) by (intro sdiv_floor) simp
  also have "\<dots> = \<lfloor>real_of_int a / real_of_int (int b)\<rfloor>" by (rule floor_divide_of_int_eq [symmetric])
  also have "log 2 (real radix) = real b" by (simp add: pb(1))
  ultimately show ?thesis by simp
next
  case False
  then show ?thesis using mul_log2_radix_mult [OF assms(1,2)] a by blast
qed

subsection \<open>Properties\<close>

text \<open>
  The logarithm is exact. For every radix from 2 to 36 and every exponent from -2048 to 2047,
  \<^verbatim>\<open>mul_log2_radix\<close> returns the floor of the exponent divided by the base-2 logarithm of the radix,
  although it multiplies by a constant of 24 bits.
\<close>

theorem mul_log2_radix_exact:
  assumes "2 \<le> radix" "radix \<le> 36" and "-2048 \<le> a" "a \<le> 2047"
  shows "mul_log2_radix a radix = \<lfloor>real_of_int a / log 2 (real radix)\<rfloor>"
  using mul_log2_radix_floor [OF assms(1,2), of a] assms(3,4) by (simp add: abs_le_iff)

theorem mul_log2_radix_exact_witness:
  "mul_log2_radix 1023 10 = \<lfloor>real_of_int 1023 / log 2 (real 10)\<rfloor>"
  using mul_log2_radix_exact [of 10 1023] by simp

end
