(* ===== verification/Dtoa.thy ===== *)
theory Dtoa
  imports Itoa Radix_Log
begin

text \<open>
  Printing of float64 numbers, \<^verbatim>\<open>js_dtoa\<close> and its helpers in \<^verbatim>\<open>dtoa.c\<close>. A double is the 64-bit
  word of its representation. The printer returns the characters it writes; \<open>None\<close> stands for
  a loop that does not end or a failed assertion, so that returning is a claim of its own. The
  temporary numbers live in a fixed memory block in the program; here they are lists of limbs.
\<close>

subsection \<open>Tables and logarithms\<close>

definition dtoa_max_digits_table :: "nat list" where
  "dtoa_max_digits_table =
     [54, 35, 28, 24, 22, 20, 19, 18, 17, 17, 16, 16, 15, 15, 15, 14, 14, 14, 14, 14,
      13, 13, 13, 13, 13, 13, 13, 12, 12, 12, 12, 12, 12, 12, 12]"

subsection \<open>Writing the digits of a number\<close>

text \<open>The loop for a radix that is a power of two, and the one for the others.\<close>

fun digits_bin :: "nat \<Rightarrow> mpb \<Rightarrow> nat \<Rightarrow> nat \<Rightarrow> string \<Rightarrow> string" where
  "digits_bin n_digits a radix_bits digits_per_limb buf =
     (let n = min n_digits digits_per_limb;
          n_digits' = n_digits - n;
          buf = u64toa_bin_len (ucast (a ! 0)) radix_bits n @ buf
      in if n_digits' = 0 \<or> n = 0 then buf
         else digits_bin n_digits' (mpb_shr_round a (int (digits_per_limb * radix_bits)) JS_RNDZ)
                radix_bits digits_per_limb buf)"

fun digits_div :: "nat \<Rightarrow> mpb \<Rightarrow> nat \<Rightarrow> nat \<Rightarrow> string \<Rightarrow> string" where
  "digits_div n_digits a radix digits_per_limb buf =
     (if n_digits \<noteq> 0 \<and> digits_per_limb \<noteq> 0 then
        let n = min n_digits digits_per_limb;
            (tab, r) = mp_div1 a (radix_base_table ! (radix - 2)) 0
        in digits_div (n_digits - n) (mpb_renorm tab) radix digits_per_limb
             (limb_to_a r (of_nat radix) n @ buf)
      else buf)"

declare digits_bin.simps [simp del] digits_div.simps [simp del]

definition output_digits :: "mpb \<Rightarrow> nat \<Rightarrow> nat \<Rightarrow> nat \<Rightarrow> string" where
  "output_digits a radix n_digits1 dot_pos =
     (let radix_bits = (if is_pow2_radix radix then 31 - clz32 (of_nat radix) else 0);
          digits_per_limb = digits_per_limb_table ! (radix - 2);
          buf = (if radix_bits \<noteq> 0 then digits_bin n_digits1 a radix_bits digits_per_limb []
                 else digits_div n_digits1 a radix digits_per_limb [])
      in if dot_pos \<noteq> n_digits1 then take dot_pos buf @ CHR ''.'' # drop dot_pos buf else buf)"

subsection \<open>Flags and fields\<close>

definition JS_DTOA_FORMAT_FREE :: u32 where "JS_DTOA_FORMAT_FREE = 0"
definition JS_DTOA_FORMAT_FIXED :: u32 where "JS_DTOA_FORMAT_FIXED = 1"
definition JS_DTOA_FORMAT_FRAC :: u32 where "JS_DTOA_FORMAT_FRAC = 2"
definition JS_DTOA_FORMAT_MASK :: u32 where "JS_DTOA_FORMAT_MASK = 3"
definition JS_DTOA_EXP_AUTO :: u32 where "JS_DTOA_EXP_AUTO = 0"
definition JS_DTOA_EXP_ENABLED :: u32 where "JS_DTOA_EXP_ENABLED = 4"
definition JS_DTOA_EXP_DISABLED :: u32 where "JS_DTOA_EXP_DISABLED = 8"
definition JS_DTOA_EXP_MASK :: u32 where "JS_DTOA_EXP_MASK = 12"
definition JS_DTOA_MINUS_ZERO :: u32 where "JS_DTOA_MINUS_ZERO = 16"
definition JS_DTOA_MAX_DIGITS :: int where "JS_DTOA_MAX_DIGITS = 101"

lemmas dtoa_flags = JS_DTOA_FORMAT_FREE_def JS_DTOA_FORMAT_FIXED_def JS_DTOA_FORMAT_FRAC_def
  JS_DTOA_FORMAT_MASK_def JS_DTOA_EXP_AUTO_def JS_DTOA_EXP_ENABLED_def JS_DTOA_EXP_DISABLED_def
  JS_DTOA_EXP_MASK_def JS_DTOA_MINUS_ZERO_def JS_DTOA_MAX_DIGITS_def

definition f64_sign :: "u64 \<Rightarrow> bool" where
  "f64_sign a \<longleftrightarrow> drop_bit 63 a \<noteq> 0"

definition f64_exp :: "u64 \<Rightarrow> nat" where
  "f64_exp a = unat (drop_bit 52 a AND 0x7ff)"

definition f64_mant :: "u64 \<Rightarrow> u64" where
  "f64_mant a = a AND (push_bit 52 1 - 1)"

definition js_dtoa_max_len :: "u64 \<Rightarrow> nat \<Rightarrow> int \<Rightarrow> u32 \<Rightarrow> int" where
  "js_dtoa_max_len d radix n_digits flags =
     (let fmt = flags AND JS_DTOA_FORMAT_MASK;
          e = int (f64_exp d);
          n = (if fmt \<noteq> JS_DTOA_FORMAT_FRAC then
                 let n = (if fmt = JS_DTOA_FORMAT_FREE then int (dtoa_max_digits_table ! (radix - 2)) else n_digits)
                 in if flags AND JS_DTOA_EXP_MASK = JS_DTOA_EXP_DISABLED then
                      if e = 0x7ff then 0
                      else n + (10 + \<bar>mul_log2_radix (e - 1023 - 1) radix\<bar>)
                    else n + (1 + 1 + 6)
               else if e = 0x7ff then 0
               else
                 let e = e - 1023;
                     n = (if e < 0 then 1 else 2 + mul_log2_radix (e - 1) radix)
                 in n + (1 + 1 + 1 + n_digits))
      in max n 9)"

subsection \<open>The free format\<close>

text \<open>The mantissa in the radix, with the exponent corrected until it fits.\<close>

partial_function (option) free_mant ::
  "u64 \<Rightarrow> int \<Rightarrow> nat \<Rightarrow> nat \<Rightarrow> int \<Rightarrow> u64 \<Rightarrow> int \<Rightarrow> (u64 \<times> int) option" where
  "free_mant m e radix1 radix_shift P mant_max1 E =
     (let mant = mpb_get_u64 (mul_pow_round m (e - 53) radix1 radix_shift (P - E) JS_RNDN)
      in if mant < mant_max1 then Some (mant, E)
         else free_mant m e radix1 radix_shift P mant_max1 (E + 1))"

partial_function (option) strip_zeros :: "u64 \<Rightarrow> u64 \<Rightarrow> int \<Rightarrow> (u64 \<times> int) option" where
  "strip_zeros radix mant P =
     (if mant mod radix = 0 then strip_zeros radix (mant div radix) (P - 1) else Some (mant, P))"

text \<open>
  The search for the smallest number of digits. \<open>found\<close> is \<open>None\<close> while \<^verbatim>\<open>P_found\<close> is 0, and then
  the digits, exponent and mantissa found so far.
\<close>

partial_function (option) free_search ::
  "u64 \<Rightarrow> int \<Rightarrow> nat \<Rightarrow> nat \<Rightarrow> nat \<Rightarrow> int \<Rightarrow> (int \<times> int \<times> u64) option \<Rightarrow> int \<Rightarrow> (int \<times> int \<times> u64) option" where
  "free_search m e radix radix1 radix_shift E0 found P =
     (case free_mant m e radix1 radix_shift P (pow_ui (of_nat radix) (of_int P)) E0 of None \<Rightarrow> None
      | Some (mant, E) \<Rightarrow>
        (case strip_zeros (of_nat radix) mant P of None \<Rightarrow> None
         | Some (mant, P) \<Rightarrow>
           if found = None \<or>
              (case mul_pow_round_to_d (mpb_set_u64 mant) radix1 radix_shift (E - P) JS_RNDN of (m1, e1) \<Rightarrow>
                 m1 = m \<and> e1 = e)
           then if P = 1 then Some (P, E, mant)
                else free_search m e radix radix1 radix_shift E0 (Some (P, E, mant)) (P - 1)
           else found))"

subsection \<open>The fixed format\<close>

partial_function (option) fixed_mant ::
  "u64 \<Rightarrow> int \<Rightarrow> nat \<Rightarrow> nat \<Rightarrow> int \<Rightarrow> mpb \<Rightarrow> int \<Rightarrow> (mpb \<times> int) option" where
  "fixed_mant m e radix1 radix_shift P mant_max E =
     (let tmp1 = mul_pow_round m (e - 53) radix1 radix_shift (P - E) JS_RNDNA
      in if mpb_cmp tmp1 mant_max < 0 then Some (tmp1, E)
         else fixed_mant m e radix1 radix_shift P mant_max (E + 1))"

definition fixed_max :: "nat \<Rightarrow> nat \<Rightarrow> int \<Rightarrow> mpb" where
  "fixed_max radix1 radix_shift P =
     (let (mant_max, pow_shift) = mul_pow [1] radix1 radix_shift P False 0
      in mpb_shr_round mant_max pow_shift JS_RNDZ)"

subsection \<open>The printer\<close>

text \<open>From the label \<^verbatim>\<open>output\<close> on: the mantissa \<open>tmp1\<close> has \<open>P\<close> digits, the dot is after digit \<open>E\<close>.\<close>

definition dtoa_output :: "mpb \<Rightarrow> nat \<Rightarrow> nat \<Rightarrow> nat \<Rightarrow> int \<Rightarrow> u32 \<Rightarrow> int \<Rightarrow> int \<Rightarrow> string" where
  "dtoa_output tmp1 radix radix1 radix_shift n_digits flags P E =
     (let fmt = flags AND JS_DTOA_FORMAT_MASK;
          E_max = (if fmt = JS_DTOA_FORMAT_FIXED then n_digits
                   else int (dtoa_max_digits_table ! (radix - 2)) + 4);
          x = flags AND JS_DTOA_EXP_MASK
      in if x = JS_DTOA_EXP_ENABLED \<or> x = JS_DTOA_EXP_AUTO \<and> (E \<le> -6 \<or> E > E_max) then
           let E = E - 1;
               (c, E) = (if radix = 10 then (CHR ''e'', E)
                         else if radix1 = 1 \<and> radix_shift \<le> 4 then (CHR ''p'', E * int radix_shift)
                         else (CHR ''@'', E));
               (s, E) = (if E < 0 then (CHR ''-'', - E) else (CHR ''+'', E))
           in output_digits tmp1 radix (nat P) 1 @ [c, s] @ u32toa (of_int E)
         else if E \<le> 0 then
           ''0.'' @ replicate (nat (- E)) (CHR ''0'') @ output_digits tmp1 radix (nat P) (nat P)
         else
           output_digits tmp1 radix (nat P) (nat (min P E)) @ replicate (nat (E - P)) (CHR ''0''))"

text \<open>The finite nonzero numbers: \<open>d = 2\<^sup>e\<^sup>-\<^sup>5\<^sup>3 m\<close> with \<open>2\<^sup>5\<^sup>2 \<le> m < 2\<^sup>5\<^sup>3\<close>.\<close>

definition dtoa_finite :: "u64 \<Rightarrow> int \<Rightarrow> nat \<Rightarrow> int \<Rightarrow> u32 \<Rightarrow> string option" where
  "dtoa_finite m e radix n_digits flags =
     (let radix_shift = ctz32 (of_nat radix);
          radix1 = radix div 2 ^ radix_shift;
          fmt = flags AND JS_DTOA_FORMAT_MASK
      in if fmt = JS_DTOA_FORMAT_FREE \<and> e \<ge> 1 \<and> e \<le> 53 \<and> m AND (push_bit (nat (53 - e)) 1 - 1) = 0 \<and>
            flags AND JS_DTOA_EXP_MASK \<noteq> JS_DTOA_EXP_ENABLED
         then Some (u64toa_radix (drop_bit (nat (53 - e)) m) (of_nat radix))
         else
           let E = 1 + mul_log2_radix (e - 1) radix
           in if fmt = JS_DTOA_FORMAT_FREE then
                case free_search m e radix radix1 radix_shift E None
                       (int (dtoa_max_digits_table ! (radix - 2))) of None \<Rightarrow> None
                | Some (P, E, mant) \<Rightarrow>
                    Some (dtoa_output (mpb_set_u64 mant) radix radix1 radix_shift n_digits flags P E)
              else if fmt = JS_DTOA_FORMAT_FRAC then
                if n_digits < 0 \<or> n_digits > JS_DTOA_MAX_DIGITS then None
                else
                  let tmp1 = mul_pow_round m (e - 53) radix1 radix_shift n_digits JS_RNDNA;
                      q = output_digits tmp1 radix (nat (max (E + 1) 1 + n_digits)) (nat (max (E + 1) 1))
                  in Some (if q ! 0 = CHR ''0'' \<and> length q \<ge> 2 \<and> q ! 1 \<noteq> CHR ''.'' then tl q else q)
              else
                if n_digits < 1 \<or> n_digits > JS_DTOA_MAX_DIGITS then None
                else
                  case fixed_mant m e radix1 radix_shift n_digits (fixed_max radix1 radix_shift n_digits) E of
                    None \<Rightarrow> None
                  | Some (tmp1, E) \<Rightarrow>
                      Some (dtoa_output tmp1 radix radix1 radix_shift n_digits flags n_digits E))"

definition js_dtoa :: "u64 \<Rightarrow> nat \<Rightarrow> int \<Rightarrow> u32 \<Rightarrow> string option" where
  "js_dtoa a radix n_digits flags =
     (let sgn = f64_sign a; e = f64_exp a; m = f64_mant a;
          fmt = flags AND JS_DTOA_FORMAT_MASK;
          minus = (if sgn then ''-'' else '''')
      in if e = 0x7ff then
           Some (if m = 0 then minus @ ''Infinity'' else ''NaN'')
         else if e = 0 \<and> m = 0 then
           let radix_shift = ctz32 (of_nat radix);
               P = (if fmt = JS_DTOA_FORMAT_FREE then 1
                    else if fmt = JS_DTOA_FORMAT_FRAC then n_digits + 1 else n_digits);
               minus = (if sgn \<and> flags AND JS_DTOA_MINUS_ZERO \<noteq> 0 then ''-'' else '''')
           in Some (minus @ dtoa_output [0] radix (radix div 2 ^ radix_shift) radix_shift n_digits flags P 1)
         else
           let (e, m) = (if e = 0 then
                           let l = int (clz64 m) - 11 in (0 - (l - 1), push_bit (nat l) m)
                         else (int e, m OR push_bit 52 1))
           in map_option ((@) minus) (dtoa_finite m (e - 1022) radix n_digits flags))"

subsection \<open>The digit writers on values\<close>

lemma fixed_digits_append:
  "fixed_digits r (n + k) v = fixed_digits r n (v div r ^ k) @ fixed_digits r k v"
  by (induction k arbitrary: v) (simp_all add: div_mult2_eq)

lemma fixed_digits_mod: "k \<le> j \<Longrightarrow> fixed_digits r k (v mod r ^ j) = fixed_digits r k v"
proof (induction k arbitrary: j v)
  case (Suc k)
  obtain i where j: "j = Suc i" "k \<le> i" using Suc(2) by (cases j) auto
  have "v mod r ^ j div r = v div r mod r ^ i"
    unfolding j(1) power_Suc by (cases "r = 0") (simp_all add: mod_mult2_eq)
  moreover have "v mod r ^ j mod r = v mod r" unfolding j(1) by (simp add: mod_mod_cancel)
  ultimately show ?case using Suc(1) [OF j(2)] by simp
qed simp

lemma digits_div_val:
  assumes r: "2 \<le> radix" "radix \<le> 36" "radix \<notin> {2, 4, 16}"
    and d: "d = digits_per_limb_table ! (radix - 2)"
  shows "mpb_ok a \<Longrightarrow> digits_div n a radix d buf = fixed_digits radix n (limbs_val a) @ buf"
proof (induction n arbitrary: a buf rule: less_induct)
  case (less n)
  show ?case
  proof (cases "n = 0")
    case True
    then show ?thesis by (simp add: digits_div.simps)
  next
    case False
    define k b where "k = min n d" and "b = radix_base_table ! (radix - 2)"
    have d1: "1 \<le> d" using radix_table(1) [OF r(1,2)] d by simp
    have b: "unat b = radix ^ d" using radix_table(3) [OF r(1,2)] r(3) d by (simp add: b_def)
    have k: "k \<noteq> 0" "k \<le> d" "k \<le> n" using False d1 by (auto simp: k_def)
    obtain tab q where t: "mp_div1 a b 0 = (tab, q)" by fastforce
    have bp: "unat (0 :: u32) < unat b" using b r(1) by simp
    have v: "length tab = length a" "unat q < unat b" "limbs_val a = limbs_val tab * unat b + unat q"
      using mp_div1_val [OF t bp] by simp_all
    then have dm: "limbs_val tab = limbs_val a div radix ^ d" "unat q = limbs_val a mod radix ^ d"
      using divmod_of [of "unat q" "unat b" "limbs_val tab"] b by simp_all
    have "tab \<noteq> []" using v(1) less(2) by (auto simp: mpb_ok_def)
    note ok = mpb_renorm_ok [OF this]
    have ur: "unat (of_nat radix :: u32) = radix" using r(2) by (intro unat_of_nat_id) simp
    have "digits_div n a radix d buf = digits_div (n - k) (mpb_renorm tab) radix d (limb_to_a q (of_nat radix) k @ buf)"
      using False d1 t by (subst digits_div.simps) (simp add: Let_def k_def b_def)
    also have "\<dots> = fixed_digits radix (n - k) (limbs_val a div radix ^ d) @ fixed_digits radix k (limbs_val a) @ buf"
      using less(1) [OF _ ok, of "n - k"] k dm by (simp add: limb_to_a_val ur fixed_digits_mod)
    also have "fixed_digits radix (n - k) (limbs_val a div radix ^ d) = fixed_digits radix (n - k) (limbs_val a div radix ^ k)"
      using k by (cases "k = d") (auto simp: k_def min_def)
    finally show ?thesis using fixed_digits_append [of radix "n - k" k "limbs_val a"] k(3) by simp
  qed
qed

lemma digits_bin_val:
  assumes b: "1 \<le> b" "b \<le> 5" "1 \<le> d" "d * b \<le> 32"
  shows "mpb_ok a \<Longrightarrow> digits_bin n a b d buf = fixed_digits (2 ^ b) n (limbs_val a) @ buf"
proof (induction n arbitrary: a buf rule: less_induct)
  case (less n)
  define k where "k = min n d"
  have k: "k \<le> d" "k \<le> n" by (simp_all add: k_def)
  have "a \<noteq> []" using less(2) by (simp add: mpb_ok_def)
  then obtain x t where a: "a = x # t" by (cases a) auto
  have x: "unat x = limbs_val a mod 2 ^ 32" using limb_bound [of x] by (simp add: a)
  have "b * k \<le> 32" using b k(1) by (metis le_trans mult.commute mult_le_mono2)
  then have "(2 :: nat) ^ (b * k) dvd 2 ^ 32" by (rule le_imp_power_dvd)
  then have m: "unat x mod (2 ^ b) ^ k = limbs_val a mod (2 ^ b) ^ k"
    unfolding x power_mult [symmetric] by (rule mod_mod_cancel)
  have w: "u64toa_bin_len (ucast (a ! 0)) b k = fixed_digits (2 ^ b) k (limbs_val a)"
    using u64toa_bin_len_val [of b "ucast x" k] fixed_digits_mod [of k k "2 ^ b" "unat x"]
      fixed_digits_mod [of k k "2 ^ b" "limbs_val a"] m b(2) by (simp add: a)
  show ?case
  proof (cases "n - k = 0 \<or> k = 0")
    case True
    then have "k = n" using k b(3) by (auto simp: k_def min_def split: if_splits)
    then show ?thesis using w True by (subst digits_bin.simps) (simp add: Let_def k_def [symmetric])
  next
    case False
    then have kd: "k = d" by (auto simp: k_def min_def split: if_splits)
    define a' where "a' = mpb_shr_round a (int (d * b)) JS_RNDZ"
    have pos: "int (d * b) > 0" using b by simp
    have a': "limbs_val a' = limbs_val a div (2 ^ b) ^ d" "mpb_ok a'"
      using mpb_shr_round_right [OF less(2) pos, of JS_RNDZ] unfolding a'_def [symmetric] nat_int
      by (simp_all add: round_div_def power_mult [symmetric] mult.commute)
    have "digits_bin n a b d buf = digits_bin (n - k) a' b d (u64toa_bin_len (ucast (a ! 0)) b k @ buf)"
      using False by (subst digits_bin.simps) (simp add: Let_def k_def [symmetric] a'_def)
    also have "\<dots> = fixed_digits (2 ^ b) (n - k) (limbs_val a div (2 ^ b) ^ k) @ fixed_digits (2 ^ b) k (limbs_val a) @ buf"
      using less(1) [OF _ a'(2), of "n - k"] False w a'(1) kd by simp
    finally show ?thesis using fixed_digits_append [of "2 ^ b" "n - k" k "limbs_val a"] k(2) by simp
  qed
qed

text \<open>The digits of a number in any radix, with the dot.\<close>

definition with_dot :: "string \<Rightarrow> nat \<Rightarrow> string" where
  "with_dot ds p = (if p < length ds then take p ds @ CHR ''.'' # drop p ds else ds)"

lemma output_digits_val:
  assumes r: "2 \<le> radix" "radix \<le> 36" and a: "mpb_ok a" and p: "dot_pos \<le> n"
  shows "output_digits a radix n dot_pos = with_dot (fixed_digits radix n (limbs_val a)) dot_pos"
proof -
  define b where "b = (if is_pow2_radix radix then 31 - clz32 (of_nat radix) else 0)"
  define d where "d = digits_per_limb_table ! (radix - 2)"
  have "(if b \<noteq> 0 then digits_bin n a b d [] else digits_div n a radix d []) = fixed_digits radix n (limbs_val a)"
  proof (cases "is_pow2_radix radix")
    case True
    then have s: "radix \<in> {2, 4, 8, 16, 32}" using is_pow2_radix_cases [OF r] by simp
    note pb = pow2_radix_bits [OF s, folded d_def]
    have be: "b = 31 - clz32 (of_nat radix)" using True by (simp add: b_def)
    note pb' = pb [folded be]
    have "1 \<le> d" using radix_table(1) [OF r] by (simp add: d_def)
    from digits_bin_val [OF pb'(2,3) this pb'(4) a, of n "[]"] pb'(1,2) show ?thesis by simp
  next
    case False
    then have "radix \<notin> {2, 4, 16}" using is_pow2_radix_cases [OF r] by auto
    from digits_div_val [OF r this d_def a] False show ?thesis by (simp add: b_def)
  qed
  then show ?thesis
    unfolding output_digits_def Let_def b_def [symmetric] d_def [symmetric] with_dot_def using p by simp
qed

end
