(* ===== verification/Digit_Search.thy ===== *)
theory Digit_Search
  imports Dtoa
begin

text \<open>
  The mantissas that \<^verbatim>\<open>js_dtoa\<close> prints. The number is \<open>2\<^sup>e\<^sup>-\<^sup>5\<^sup>3 m\<close> with \<open>2\<^sup>5\<^sup>2 \<le> m < 2\<^sup>5\<^sup>3\<close>; the
  loops choose digits and an exponent in the radix. The first part reads the rounding of the
  multi-precision layer as rounding of real numbers, the second shows that the loops of the
  fixed and the free format end and what they return.
\<close>

subsection \<open>Rounding, on real numbers\<close>

lemma powi_frac: "(b :: real) \<noteq> 0 \<Longrightarrow> b ^ nat k / b ^ nat (- k) = b powi k"
  by (simp add: power_int_def field_simps)

lemma round_div_near:
  assumes "mode \<noteq> JS_RNDZ" "0 < d"
  shows "\<bar>real (round_div mode n d) - n / d\<bar> \<le> 1 / 2"
proof -
  define q r where "q = n div d" and "r = n mod d"
  have n: "n = q * d + r" "r < d" using assms(2) by (simp_all add: q_def r_def)
  have x: "real n / d = q + r / d" using assms(2) by (simp add: n(1) field_simps)
  have "round_div mode n d = q \<and> 2 * r \<le> d \<or> round_div mode n d = q + 1 \<and> d \<le> 2 * r"
    using assms(1) by (cases mode) (auto simp: round_div_def q_def [symmetric] r_def [symmetric] Let_def)
  then show ?thesis
  proof
    assume a: "round_div mode n d = q \<and> 2 * r \<le> d"
    then have "real (2 * r) \<le> real d" by (simp only: of_nat_le_iff)
    then have "real r / d \<le> 1 / 2" using assms(2) by (simp add: field_simps)
    with a x show ?thesis by simp
  next
    assume a: "round_div mode n d = q + 1 \<and> d \<le> 2 * r"
    then have "real d \<le> real (2 * r)" by (simp only: of_nat_le_iff)
    moreover have "real r / d < 1" using n(2) by simp
    ultimately have "1 / 2 \<le> real r / d" using assms(2) by (simp add: field_simps)
    with a x \<open>real r / d < 1\<close> show ?thesis by simp
  qed
qed

text \<open>The nearest integer, and the even one of two nearest.\<close>

lemma round_div_unique:
  assumes "mode = JS_RNDN" "0 < d" and "\<bar>n / d - real N\<bar> < 1 / 2 \<or> \<bar>n / d - real N\<bar> \<le> 1 / 2 \<and> even N"
  shows "round_div mode n d = N"
proof -
  define F where "F = round_div mode n d"
  have near: "\<bar>real F - n / d\<bar> \<le> 1 / 2" using round_div_near [of mode d n] assms(1,2) by (simp add: F_def)
  show ?thesis
  proof (cases "\<bar>n / d - real N\<bar> < 1 / 2")
    case True
    then have "\<bar>real F - real N\<bar> < 1" using near by linarith
    then show ?thesis unfolding F_def [symmetric] by linarith
  next
    case False
    then have t: "\<bar>n / d - real N\<bar> = 1 / 2" and ev: "even N" using assms(3) by auto
    define q r where "q = n div d" and "r = n mod d"
    have n: "n = q * d + r" "r < d" using assms(2) by (simp_all add: q_def r_def)
    have x: "real n / d = q + r / d" using assms(2) by (simp add: n(1) field_simps)
    have fr: "0 \<le> real r / d" "real r / d < 1" using n(2) by simp_all
    have "real q - real N = 1 / 2 - r / d \<or> real q - real N = - (1 / 2) - r / d" using t x by linarith
    then have rq: "real r / d = 1 / 2 \<and> (q = N \<or> q + 1 = N)"
    proof
      assume a: "real q - real N = 1 / 2 - r / d"
      then have "\<bar>real q - real N\<bar> < 1" using fr by linarith
      then have "q = N" by linarith
      moreover from this have "real r / d = 1 / 2" using a by linarith
      ultimately show ?thesis by blast
    next
      assume a: "real q - real N = - (1 / 2) - r / d"
      then have "-2 < real q - real N" "real q - real N < 0" using fr by linarith+
      then have "q + 1 = N" by linarith
      then have "real r / d = 1 / 2" using a by linarith
      with \<open>q + 1 = N\<close> show ?thesis by blast
    qed
    then have "real d = real (2 * r)" using assms(2) by (simp add: field_simps)
    then have "d = 2 * r" by (simp only: of_nat_eq_iff)
    moreover have "round_div mode n d = (if d < 2 * r \<or> 2 * r = d \<and> odd q then q + 1 else q)"
      using assms(1) by (simp add: round_div_def q_def r_def Let_def)
    ultimately show ?thesis using rq ev by auto
  qed
qed

subsection \<open>The number and its exponent in the radix\<close>

text \<open>A finite nonzero double in normal form, and the real number it stands for.\<close>

definition normal_form :: "u64 \<Rightarrow> int \<Rightarrow> bool" where
  "normal_form m e \<longleftrightarrow> 2 ^ 52 \<le> unat m \<and> unat m < 2 ^ 53 \<and> -1073 \<le> e \<and> e \<le> 1024 \<and>
     (e < -1021 \<longrightarrow> 2 ^ nat (-1021 - e) dvd unat m)"

definition dbl :: "u64 \<Rightarrow> int \<Rightarrow> real" where
  "dbl m e = real (unat m) * 2 powi (e - 53)"

lemma dbl_bounds:
  assumes "normal_form m e"
  shows "2 powi (e - 1) \<le> dbl m e" and "dbl m e < 2 powi e" and "0 < dbl m e"
proof -
  have m: "2 ^ 52 \<le> unat m" "unat m < 2 ^ 53" using assms by (simp_all add: normal_form_def)
  have "real (2 ^ 52) \<le> real (unat m)" "real (unat m) < real (2 ^ 53)"
    using m by (simp_all only: of_nat_le_iff of_nat_less_iff)
  then have r: "2 powi 52 \<le> real (unat m)" "real (unat m) < 2 powi 53" by simp_all
  have p: "(2 :: real) powi (e - 1) = 2 powi 52 * 2 powi (e - 53)" "(2 :: real) powi e = 2 powi 53 * 2 powi (e - 53)"
    by (simp_all add: power_int_add [symmetric] del: power_int_numeral)
  show "2 powi (e - 1) \<le> dbl m e" "dbl m e < 2 powi e"
    unfolding p dbl_def using r by (simp_all add: mult_right_mono)
  have "(0 :: real) < 2 powi 52" by simp
  then have "0 < real (unat m)" using r(1) by (rule less_le_trans)
  then show "0 < dbl m e" unfolding dbl_def by (intro mult_pos_pos) simp_all
qed

text \<open>The exponent \<open>E\<close> that \<^verbatim>\<open>js_dtoa\<close> starts from.\<close>

lemma powi_log2:
  assumes "2 \<le> R"
  shows "real R powi k = 2 powr (real_of_int k * log 2 (real R))"
proof -
  have "real R powi k = real R powr real_of_int k" using assms by (simp add: powr_real_of_int')
  also have "\<dots> = (2 powr log 2 (real R)) powr real_of_int k" using assms by simp
  also have "\<dots> = 2 powr (real_of_int k * log 2 (real R))" by (simp only: powr_powr mult.commute)
  finally show ?thesis .
qed

lemma start_exponent:
  assumes R: "2 \<le> R" "R \<le> 36" and e: "-1073 \<le> e" "e \<le> 1024" and E: "E = 1 + mul_log2_radix (e - 1) R"
  shows "real R powi (E - 1) \<le> 2 powi (e - 1)" and "2 powi (e - 1) < real R powi E"
proof -
  define L where "L = log 2 (real R)"
  have L: "0 < L" using R(1) by (simp add: L_def)
  note RL = powi_log2 [OF R(1), folded L_def]
  have two: "(2 :: real) powi k = 2 powr real_of_int k" for k by (simp add: powr_real_of_int')
  have fl: "E - 1 = \<lfloor>real_of_int (e - 1) / L\<rfloor>"
    using mul_log2_radix_floor [OF R, of "e - 1"] e by (simp add: E L_def)
  have "real_of_int (E - 1) \<le> real_of_int (e - 1) / L" unfolding fl by (rule of_int_floor_le)
  then have "real_of_int (E - 1) * L \<le> real_of_int (e - 1)" using L by (simp add: field_simps)
  then show "real R powi (E - 1) \<le> 2 powi (e - 1)" unfolding RL two by simp
  have "real_of_int (e - 1) / L < real_of_int (E - 1) + 1" unfolding fl by linarith
  then have "real_of_int (e - 1) < real_of_int E * L" using L by (simp add: field_simps)
  then show "2 powi (e - 1) < real R powi E" unfolding RL two by simp
qed

text \<open>The radix and its parts, as \<^verbatim>\<open>js_dtoa\<close> computes them.\<close>

lemma start_bound:
  assumes "2 \<le> R" "R \<le> 36" and "-1073 \<le> e" "e \<le> 1024"
  shows "\<bar>1 + mul_log2_radix (e - 1) R\<bar> \<le> 2049"
proof -
  define L where "L = log 2 (real R)"
  have L: "1 \<le> L" using assms(1) by (simp add: L_def le_log_iff)
  have "\<bar>real_of_int (e - 1) / L\<bar> \<le> \<bar>real_of_int (e - 1)\<bar>"
    using L by (simp add: abs_divide divide_le_eq mult_le_cancel_left1)
  also have "\<dots> \<le> 1074" using assms(3,4) by linarith
  finally have "\<bar>\<lfloor>real_of_int (e - 1) / L\<rfloor>\<bar> \<le> 1075" by linarith
  moreover have "mul_log2_radix (e - 1) R = \<lfloor>real_of_int (e - 1) / L\<rfloor>"
    unfolding L_def using assms(3,4) by (intro mul_log2_radix_floor [OF assms(1,2)]) simp
  ultimately show ?thesis by simp
qed

definition radix_ok :: "nat \<Rightarrow> nat \<Rightarrow> nat \<Rightarrow> bool" where
  "radix_ok R r rs \<longleftrightarrow> 2 \<le> R \<and> R \<le> 36 \<and> rs = ctz32 (of_nat R) \<and> r = R div 2 ^ rs"

lemma radix_okD:
  assumes "radix_ok R r rs"
  shows "2 \<le> R" "R \<le> 36" "odd r" "r \<le> 35" "r * 2 ^ rs = R"
proof -
  have R: "2 \<le> R" "R \<le> 36" "rs = trailing_zeros R" "r = R div 2 ^ rs"
    using assms by (simp_all add: radix_ok_def ctz32_def unat_of_nat_id)
  then show "2 \<le> R" "R \<le> 36" by simp_all
  show "odd r" "r \<le> 35" "r * 2 ^ rs = R" using radix_parts [OF R] by simp_all
qed

text \<open>\<^verbatim>\<open>mul_pow_round\<close> returns the scaled number rounded to the nearest integer.\<close>

lemma mul_pow_round_near:
  assumes R: "radix_ok R r rs" and m: "m \<noteq> 0" and mode: "mode \<noteq> JS_RNDZ"
  shows "\<bar>real (limbs_val (mul_pow_round m (e - 53) r rs k mode)) - dbl m e * real R powi k\<bar> \<le> 1 / 2"
    and "mpb_ok (mul_pow_round m (e - 53) r rs k mode)"
proof -
  note rd = radix_okD [OF R]
  note v = mul_pow_round_val [OF rd(3,4) m, of "e - 53" rs k mode, unfolded rd(5)]
  show "mpb_ok (mul_pow_round m (e - 53) r rs k mode)" by (rule v(2))
  define n d where "n = unat m * 2 ^ nat (e - 53) * R ^ nat k" and "d = 2 ^ nat (- (e - 53)) * R ^ nat (- k)"
  have d: "0 < d" using rd(1) by (simp add: d_def)
  have "real n / real d = real (unat m) * ((2 :: real) ^ nat (e - 53) / 2 ^ nat (- (e - 53))) * (real R ^ nat k / real R ^ nat (- k))"
    by (simp add: n_def d_def)
  also have "(2 :: real) ^ nat (e - 53) / 2 ^ nat (- (e - 53)) = 2 powi (e - 53)" by (rule powi_frac) simp
  also have "real R ^ nat k / real R ^ nat (- k) = real R powi k" using rd(1) by (intro powi_frac) simp
  also have "real (unat m) * 2 powi (e - 53) * real R powi k = dbl m e * real R powi k" by (simp only: dbl_def)
  finally show "\<bar>real (limbs_val (mul_pow_round m (e - 53) r rs k mode)) - dbl m e * real R powi k\<bar> \<le> 1 / 2"
    using round_div_near [OF mode d, of n] v(1) by (simp add: n_def d_def)
qed

lemma int_near:
  assumes "\<bar>real F - x\<bar> \<le> 1 / 2"
  shows "x < real K + 1 / 2 \<Longrightarrow> F \<le> K" and "real K - 1 / 2 < x \<Longrightarrow> K \<le> F"
  using assms by linarith+

text \<open>
  One step of either loop. Starting from the exponent \<open>E\<close> the rounded mantissa has \<open>P\<close> digits, or
  one step further it has.
\<close>

lemma digits_step:
  fixes F :: "int \<Rightarrow> nat"
  assumes R: "2 \<le> R" "R \<le> 36" and nf: "normal_form m e" and E: "E = 1 + mul_log2_radix (e - 1) R" and P: "1 \<le> P"
    and F: "\<And>k. \<bar>real (F k) - dbl m e * real R powi (P - k)\<bar> \<le> 1 / 2"
  shows "R ^ (nat P - 1) \<le> F E" and "F E \<le> 2 * R ^ nat P" and "\<not> F E < R ^ nat P \<Longrightarrow> R ^ (nat P - 1) \<le> F (E + 1)"
    and "\<not> F E < R ^ nat P \<Longrightarrow> F (E + 1) < R ^ nat P"
proof -
  define x where "x = dbl m e"
  have Rp: "0 < real R" "real R \<noteq> 0" using R(1) by simp_all
  have ee: "-1073 \<le> e" "e \<le> 1024" using nf by (simp_all add: normal_form_def)
  have st: "real R powi (E - 1) \<le> 2 powi (e - 1)" "2 powi (e - 1) < real R powi E"
    using start_exponent [OF R ee E] by simp_all
  have d: "2 powi (e - 1) \<le> x" "x < 2 powi e" using dbl_bounds [OF nf] by (simp_all add: x_def)
  have two: "(2 :: real) powi e = 2 * 2 powi (e - 1)" by (simp add: power_int_diff)
  have RP: "real R ^ nat P = real R powi P" "real R ^ (nat P - 1) = real R powi (P - 1)"
    using P by (simp_all add: power_int_def nat_diff_distrib)
  have lo: "real R powi (P - 1) \<le> x * real R powi (P - E)"
  proof -
    have "real R powi (P - 1) = real R powi (E - 1) * real R powi (P - E)" using Rp by (simp add: power_int_add [symmetric])
    also have "\<dots> \<le> x * real R powi (P - E)" using st(1) d(1) by (intro mult_right_mono) simp_all
    finally show ?thesis .
  qed
  have hi: "x * real R powi (P - E) < 2 * real R powi P"
  proof -
    have "x < 2 * real R powi E" using d(2) st(2) two by linarith
    then have "x * real R powi (P - E) < 2 * real R powi E * real R powi (P - E)" using Rp by (intro mult_strict_right_mono) simp_all
    also have "\<dots> = 2 * real R powi P" using Rp by (simp add: power_int_add [symmetric])
    finally show ?thesis .
  qed
  show "R ^ (nat P - 1) \<le> F E" by (rule int_near(2) [OF F]) (use lo RP in \<open>simp add: x_def\<close>)
  show "F E \<le> 2 * R ^ nat P" by (rule int_near(1) [OF F]) (use hi RP in \<open>simp add: x_def\<close>)
  assume big: "\<not> F E < R ^ nat P"
  define y where "y = x * real R powi (P - (E + 1))"
  have "x * real R powi (P - E) = y * real R"
  proof -
    have "real R powi (P - E) = real R powi (P - (E + 1)) * real R powi 1"
      unfolding power_int_add [OF disjI1 [OF Rp(2)], symmetric] by simp
    then show ?thesis by (simp add: y_def)
  qed
  then have yR: "y * real R < 2 * (real R powi (P - 1) * real R)" "real R powi (P - 1) * real R - 1 / 2 \<le> y * real R"
  proof -
    have p: "real R powi P = real R powi (P - 1) * real R" using Rp power_int_add [of "real R" "P - 1" 1] by simp
    assume yy: "x * real R powi (P - E) = y * real R"
    show "y * real R < 2 * (real R powi (P - 1) * real R)" using hi yy p by simp
    have "real (R ^ nat P) \<le> real (F E)" using big by (simp only: of_nat_le_iff not_less)
    then have "real R powi P \<le> real (F E)" using RP by simp
    moreover have "\<bar>real (F E) - y * real R\<bar> \<le> 1 / 2" using F [of E] unfolding x_def [symmetric] yy .
    ultimately show "real R powi (P - 1) * real R - 1 / 2 \<le> y * real R" unfolding p by linarith
  qed
  have y: "y < 2 * real R powi (P - 1)" using yR(1) Rp by (metis mult.assoc mult_less_cancel_right_pos)
  have "real R powi (P - 1) * real R - 1 / 2 > (real R powi (P - 1) - 1 / 2) * real R" using R(1) by (simp add: algebra_simps)
  then have "(real R powi (P - 1) - 1 / 2) * real R < y * real R" using yR(2) by linarith
  then have yl: "real R powi (P - 1) - 1 / 2 < y" using Rp by (metis mult_less_cancel_right_pos)
  show "R ^ (nat P - 1) \<le> F (E + 1)" by (rule int_near(2) [OF F]) (use yl RP in \<open>simp add: y_def x_def\<close>)
  have up: "F (E + 1) \<le> c * R ^ (nat P - 1)" if "y < real c * real R powi (P - 1)" for c
    by (rule int_near(1) [OF F]) (use that RP in \<open>simp add: y_def x_def\<close>)
  have Rn: "R ^ nat P = R * R ^ (nat P - 1)" using P by (cases "nat P") simp_all
  show "F (E + 1) < R ^ nat P"
  proof (cases "R = 2")
    case False
    then have "2 * R ^ (nat P - 1) < R * R ^ (nat P - 1)" using R(1) by simp
    moreover have "F (E + 1) \<le> 2 * R ^ (nat P - 1)" using up [of 2] y by simp
    ultimately show ?thesis unfolding Rn by (rule le_less_trans [rotated])
  next
    case True
    have "E = e" using mul_log2_radix_floor [OF R, of "e - 1"] ee by (simp add: E True)
    have "y < 2 powi e * real R powi (P - (E + 1))"
      unfolding y_def using d(2) Rp by (intro mult_strict_right_mono) simp_all
    also have "\<dots> = real R powi (P - 1)" using \<open>E = e\<close> by (simp add: True power_int_add [symmetric])
    finally have "F (E + 1) \<le> 1 * R ^ (nat P - 1)" by (intro up) simp
    also have "\<dots> < R ^ nat P" using Rn R(1) by simp
    finally show ?thesis .
  qed
qed

subsection \<open>The fixed format\<close>

lemma fixed_max_val:
  assumes "radix_ok R r rs" and "0 \<le> P"
  shows "limbs_val (fixed_max r rs P) = R ^ nat P" and "mpb_ok (fixed_max r rs P)"
proof -
  note rd = radix_okD [OF assms(1)]
  have one: "mpb_ok [1 :: limb]" by (simp add: mpb_ok_def)
  obtain a' where a': "mul_pow [1] r rs P False 0 = (a', - P * int rs)"
    "limbs_val a' = limbs_val [1 :: limb] * r ^ nat P" "mpb_ok a'"
    by (rule mul_pow_up_case [OF rd(3,4) one disjI1 [OF assms(2)]])
  have nz: "limbs_val a' \<noteq> 0" using a'(2) rd(3) by (auto simp: odd_pos)
  have neg: "- P * int rs \<le> 0" using assms(2) by simp
  have e: "fixed_max r rs P = mpb_shr_round a' (- P * int rs) JS_RNDZ" by (simp only: fixed_max_def a'(1) prod.case Let_def)
  have "nat (- (- P * int rs)) = rs * nat P" using assms(2) by (simp add: nat_mult_distrib mult.commute)
  moreover have "r ^ nat P * 2 ^ (rs * nat P) = R ^ nat P" unfolding rd(5) [symmetric] by (simp add: power_mult_distrib power_mult)
  ultimately show "limbs_val (fixed_max r rs P) = R ^ nat P" "mpb_ok (fixed_max r rs P)"
    using mpb_shr_round_left [OF a'(3) neg, of JS_RNDZ] nz a'(2) unfolding e by simp_all
qed

lemma fixed_mant_val:
  assumes R: "radix_ok R r rs" and nf: "normal_form m e" and E: "E = 1 + mul_log2_radix (e - 1) R" and P: "1 \<le> P"
  obtains tmp E' where "fixed_mant m e r rs P (fixed_max r rs P) E = Some (tmp, E')" "mpb_ok tmp"
    "R ^ (nat P - 1) \<le> limbs_val tmp" "limbs_val tmp < R ^ nat P"
    "\<bar>real (limbs_val tmp) - dbl m e * real R powi (P - E')\<bar> \<le> 1 / 2" "E' = E \<or> E' = E + 1"
proof -
  note rd = radix_okD [OF R]
  have m: "m \<noteq> 0" using nf by (auto simp: normal_form_def)
  define T where "T k = mul_pow_round m (e - 53) r rs (P - k) JS_RNDNA" for k
  define F where "F k = limbs_val (T k)" for k
  have F: "\<bar>real (F k) - dbl m e * real R powi (P - k)\<bar> \<le> 1 / 2" and ok: "mpb_ok (T k)" for k
    using mul_pow_round_near [OF R m, of JS_RNDNA e "P - k"] by (simp_all add: F_def T_def)
  have fx: "limbs_val (fixed_max r rs P) = R ^ nat P" "mpb_ok (fixed_max r rs P)"
    using fixed_max_val [OF R] P by simp_all
  have test: "mpb_cmp (T k) (fixed_max r rs P) < 0 \<longleftrightarrow> F k < R ^ nat P" for k
    by (simp add: mpb_cmp_val [OF ok fx(2)] fx(1) F_def sgn_if)
  note st = digits_step [OF rd(1,2) nf E P F]
  have step: "fixed_mant m e r rs P (fixed_max r rs P) k =
      (if F k < R ^ nat P then Some (T k, k) else fixed_mant m e r rs P (fixed_max r rs P) (k + 1))" for k
    by (subst fixed_mant.simps) (simp add: T_def [symmetric] test Let_def)
  show thesis
  proof (cases "F E < R ^ nat P")
    case True
    with step [of E] show thesis using that [OF _ ok] st(1) F by (simp add: F_def)
  next
    case False
    with step [of E] step [of "E + 1"] st(4) have "fixed_mant m e r rs P (fixed_max r rs P) E = Some (T (E + 1), E + 1)" by simp
    with that [OF _ ok] st(3,4) [OF False] F [of "E + 1"] show thesis by (simp add: F_def)
  qed
qed

subsection \<open>The free format: candidates\<close>

text \<open>The largest number of digits: enough to tell two doubles apart, and few enough for 64 bits.\<close>

definition max_digits :: "nat \<Rightarrow> nat" where
  "max_digits R = dtoa_max_digits_table ! (R - 2)"

lemma max_digits_table:
  assumes "2 \<le> R" "R \<le> 36"
  shows "1 \<le> max_digits R" and "2 ^ 53 \<le> R ^ (max_digits R - 1)" and "2 * R ^ max_digits R < 2 ^ 64" and "max_digits R \<le> 54"
proof -
  have t: "list_all (\<lambda>R. 1 \<le> max_digits R \<and> 2 ^ 53 \<le> R ^ (max_digits R - 1) \<and> 2 * R ^ max_digits R < 2 ^ 64 \<and> max_digits R \<le> 54) [2..<37]"
    by (simp add: upt_rec max_digits_def dtoa_max_digits_table_def)
  have "R \<in> {2..<37}" using assms by simp
  from bspec [OF t [unfolded list_all_iff set_upt] this]
  show "1 \<le> max_digits R" and "2 ^ 53 \<le> R ^ (max_digits R - 1)" and "2 * R ^ max_digits R < 2 ^ 64"
    and "max_digits R \<le> 54" by simp_all
qed

lemma pow_ui_int:
  assumes "2 \<le> R" "R \<le> 36" "1 \<le> P" "nat P \<le> max_digits R"
  shows "unat (pow_ui (of_nat R) (of_int P)) = R ^ nat P"
proof -
  have u: "unat (of_nat R :: u32) = R" using assms(2) by (intro unat_of_nat_id) simp
  have "(of_int P :: u32) = of_nat (nat P)" using assms(3) by simp
  moreover have "nat P \<le> 54" using assms(4) max_digits_table(4) [OF assms(1,2)] by linarith
  ultimately have p: "unat (of_int P :: u32) = nat P" using unat_of_nat_id [of "nat P", where ?'a = 32] by simp
  have "R ^ nat P \<le> R ^ max_digits R" using assms by (intro power_increasing) simp_all
  then have "R ^ nat P < 2 ^ 64" using max_digits_table(3) [OF assms(1,2)] by linarith
  then show ?thesis using pow_ui_exact [of "of_nat R" "of_int P"] u p by simp
qed

text \<open>
  A candidate: a mantissa of at most \<open>P\<close> digits whose value is the closest with \<open>P\<close> digits, and so
  close to the number that it tells it from its neighbours when \<open>P\<close> is large enough.
\<close>

lemma free_mant_val:
  assumes R: "radix_ok R r rs" and nf: "normal_form m e" and E: "E = 1 + mul_log2_radix (e - 1) R"
    and P: "1 \<le> P" "nat P \<le> max_digits R"
  obtains mant E' where "free_mant m e r rs P (pow_ui (of_nat R) (of_int P)) E = Some (mant, E')"
    "1 \<le> unat mant" "unat mant < R ^ nat P"
    "\<bar>real (unat mant) - dbl m e * real R powi (P - E')\<bar> \<le> 1 / 2"
    "E' = E \<or> E' = E + 1 \<and> real R powi (P - E) * dbl m e \<ge> real R ^ nat P - 1 / 2"
proof -
  note rd = radix_okD [OF R]
  have m: "m \<noteq> 0" using nf by (auto simp: normal_form_def)
  define T where "T k = mul_pow_round m (e - 53) r rs (P - k) JS_RNDN" for k
  define F where "F k = limbs_val (T k)" for k
  have F: "\<bar>real (F k) - dbl m e * real R powi (P - k)\<bar> \<le> 1 / 2" and ok: "mpb_ok (T k)" for k
    using mul_pow_round_near [OF R m, of JS_RNDN e "P - k"] by (simp_all add: F_def T_def)
  note st = digits_step [OF rd(1,2) nf E P(1) F]
  define mx where "mx = pow_ui (of_nat R) (of_int P)"
  have mx: "unat mx = R ^ nat P" using pow_ui_int [OF rd(1,2) P] by (simp add: mx_def)
  have "R ^ nat P \<le> R ^ max_digits R" using rd(1) P(2) by (intro power_increasing) simp_all
  then have big: "2 * R ^ nat P < 2 ^ 64" using max_digits_table(3) [OF rd(1,2)] by linarith
  have get: "unat (mpb_get_u64 (T k)) = F k" if "F k \<le> 2 * R ^ nat P" for k
    using mpb_get_u64_val [OF ok, of k] that big by (simp add: F_def)
  have Rp: "1 \<le> R ^ (nat P - 1)" using rd(1) by simp
  have step: "free_mant m e r rs P mx k =
      (if mpb_get_u64 (T k) < mx then Some (mpb_get_u64 (T k), k) else free_mant m e r rs P mx (k + 1))" for k
    by (subst free_mant.simps) (simp add: T_def [symmetric] Let_def)
  have test: "mpb_get_u64 (T k) < mx \<longleftrightarrow> F k < R ^ nat P" if "F k \<le> 2 * R ^ nat P" for k
    by (simp add: word_less_nat_alt get [OF that] mx)
  show thesis
  proof (cases "F E < R ^ nat P")
    case True
    then have "free_mant m e r rs P mx E = Some (mpb_get_u64 (T E), E)" using step [of E] test [OF st(2)] by simp
    then show thesis
      using that [of "mpb_get_u64 (T E)" E] True st(1) Rp F [of E] unfolding mx_def [symmetric] get [OF st(2)] by linarith
  next
    case False
    note st' = st(3,4) [OF False]
    have le: "F (E + 1) \<le> 2 * R ^ nat P" using st'(2) by simp
    have "free_mant m e r rs P mx E = Some (mpb_get_u64 (T (E + 1)), E + 1)"
      using step [of E] step [of "E + 1"] test [OF st(2)] test [OF le] False st'(2) by simp
    moreover have "real R powi (P - E) * dbl m e \<ge> real R ^ nat P - 1 / 2"
    proof -
      have "real (R ^ nat P) \<le> real (F E)" using False by (simp only: of_nat_le_iff not_less)
      then have "real R ^ nat P \<le> real (F E)" by simp
      moreover have "real (F E) - 1 / 2 \<le> dbl m e * real R powi (P - E)" using F [of E] by linarith
      ultimately show ?thesis unfolding mult.commute [of "real R powi (P - E)"] by linarith
    qed
    ultimately show thesis
      using that [of "mpb_get_u64 (T (E + 1))" "E + 1"] st' Rp F [of "E + 1"] unfolding mx_def [symmetric] get [OF le] by linarith
  qed
qed

lemma strip_zeros_val:
  assumes R: "2 \<le> R" "R \<le> 36" and "1 \<le> unat mant" "unat mant < R ^ nat P"
  obtains mant' P' where "strip_zeros (of_nat R) mant P = Some (mant', P')" "\<not> R dvd unat mant'"
    "1 \<le> P'" "P' \<le> P" "unat mant = unat mant' * R ^ nat (P - P')" "1 \<le> unat mant'" "unat mant' < R ^ nat P'"
proof -
  have u: "unat (of_nat R :: u64) = R" using R(2) by (intro unat_of_nat_id) simp
  have z: "x mod of_nat R = 0 \<longleftrightarrow> R dvd unat x" for x :: u64
    unfolding unat_eq_0 [symmetric] unat_mod_distrib u by (simp only: dvd_eq_mod_eq_0)
  have dv: "unat (x div of_nat R) = unat x div R" for x :: u64 by (simp add: unat_div_distrib u)
  have "\<exists>mant' P'. strip_zeros (of_nat R) mant P = Some (mant', P') \<and> \<not> R dvd unat mant' \<and>
      1 \<le> P' \<and> P' \<le> P \<and> unat mant = unat mant' * R ^ nat (P - P') \<and> 1 \<le> unat mant' \<and> unat mant' < R ^ nat P'"
    using assms(3,4)
  proof (induction "nat P" arbitrary: mant P)
    case 0
    then show ?case by simp
  next
    case (Suc k)
    then have P: "1 \<le> P" "nat P = Suc (nat (P - 1))" by auto
    show ?case
    proof (cases "R dvd unat mant")
      case False
      then have "strip_zeros (of_nat R) mant P = Some (mant, P)" by (subst strip_zeros.simps) (simp add: z)
      with False Suc(3,4) P show ?thesis by auto
    next
      case True
      define q where "q = mant div of_nat R"
      have mq: "unat mant = unat q * R" using True by (simp add: q_def dv)
      have q1: "1 \<le> unat q" using mq Suc(3) by (cases "unat q") auto
      have q2: "unat q < R ^ nat (P - 1)" using Suc(4) mq P(2) R(1) by simp
      have "k = nat (P - 1)" using Suc(2) P by simp
      from Suc(1) [OF this q1 q2] obtain mant' P' where ih: "strip_zeros (of_nat R) q (P - 1) = Some (mant', P')"
        "\<not> R dvd unat mant'" "1 \<le> P'" "P' \<le> P - 1" "unat q = unat mant' * R ^ nat (P - 1 - P')" "1 \<le> unat mant'" "unat mant' < R ^ nat P'"
        by blast
      have "strip_zeros (of_nat R) mant P = Some (mant', P')"
        using ih(1) True by (subst strip_zeros.simps) (simp add: z q_def)
      moreover have "nat (P - P') = Suc (nat (P - 1 - P'))" using ih(4) by simp
      then have "unat mant = unat mant' * R ^ nat (P - P')" using mq ih(5) by simp
      ultimately show ?thesis using ih by fastforce
    qed
  qed
  with that show thesis by blast
qed

subsection \<open>Reading a candidate back\<close>

lemma powi2_mono: "i \<le> j \<Longrightarrow> (2 :: real) powi i \<le> 2 powi j"
  by (simp add: power_int_increasing)

lemma powi2_less_iff: "(2 :: real) powi i < 2 powi j \<longleftrightarrow> i < j"
  by (meson leD leI numeral_less_iff one_less_numeral_iff power_int_strict_increasing powi2_mono semiring_norm(76))

lemma powi2_add: "(2 :: real) powi (i + j) = 2 powi i * 2 powi j"
  by (simp add: power_int_add)

lemma has_exp_real:
  assumes "has_exp n d e" "0 < d"
  shows "2 powi (e - 1) \<le> real n / d" and "real n / d < 2 powi e"
proof -
  have h: "d * 2 ^ nat (e - 1) \<le> n * 2 ^ nat (1 - e)" "n * 2 ^ nat (- e) < d * 2 ^ nat e"
    using assms(1) by (simp_all add: has_exp_def)
  have f: "(2 :: real) ^ nat (e - 1) / 2 ^ nat (- (e - 1)) = 2 powi (e - 1)" "(2 :: real) ^ nat e / 2 ^ nat (- e) = 2 powi e"
    by (rule powi_frac; simp)+
  have "real (d * 2 ^ nat (e - 1)) \<le> real (n * 2 ^ nat (1 - e))" "real (n * 2 ^ nat (- e)) < real (d * 2 ^ nat e)"
    using h by (simp_all only: of_nat_le_iff of_nat_less_iff)
  then show "2 powi (e - 1) \<le> real n / d" "real n / d < 2 powi e"
    unfolding f [symmetric] using assms(2) by (simp_all add: field_simps)
qed

lemma normal_unique:
  assumes m1: "2 ^ 52 \<le> unat m1" "unat m1 < 2 ^ 53" and m: "2 ^ 52 \<le> unat m" "unat m < 2 ^ 53"
    and eq: "dbl m1 e1 = dbl m e"
  shows "(m1, e1) = (m, e)"
proof -
  have b: "2 powi (e - 1) \<le> dbl m e \<and> dbl m e < 2 powi e" if "2 ^ 52 \<le> unat m" "unat m < 2 ^ 53" for m e
  proof -
    have "real (2 ^ 52) \<le> real (unat m)" "real (unat m) < real (2 ^ 53)" using that by (simp_all only: of_nat_le_iff of_nat_less_iff)
    then have r: "2 powi 52 \<le> real (unat m)" "real (unat m) < 2 powi 53" by simp_all
    have p: "(2 :: real) powi (e - 1) = 2 powi 52 * 2 powi (e - 53)" "(2 :: real) powi e = 2 powi 53 * 2 powi (e - 53)"
      unfolding powi2_add [symmetric] by simp_all
    show ?thesis unfolding p dbl_def using r by (simp add: mult_right_mono)
  qed
  have "2 powi (e - 1) < (2 :: real) powi e1" "2 powi (e1 - 1) < (2 :: real) powi e"
    using b [OF m1, of e1] b [OF m, of e] eq by linarith+
  then have e: "e1 = e" unfolding powi2_less_iff by linarith
  have "real (unat m1) = real (unat m)" using eq by (simp add: e dbl_def)
  then have "unat m1 = unat m" by (simp only: of_nat_eq_iff)
  with e show ?thesis by (simp add: word_unat_eq_iff)
qed

text \<open>The number as a multiple of the unit at exponent \<open>e'\<close>, when a value close to it has that exponent.\<close>

lemma close_units:
  assumes nf: "normal_form m e" and x: "2 powi (e' - 1) \<le> x" "x < 2 powi e'"
    and close: "\<bar>x - dbl m e\<bar> \<le> 2 powi (e - 55) \<or> \<bar>x - dbl m e\<bar> < 2 powi (e - 54) \<and> unat m \<noteq> 2 ^ 52"
  obtains N where "real N * 2 powi ulp_exp e' = dbl m e" "N \<noteq> 0"
    "\<bar>x / 2 powi ulp_exp e' - real N\<bar> < 1 / 2 \<or> \<bar>x / 2 powi ulp_exp e' - real N\<bar> \<le> 1 / 2 \<and> even N"
proof -
  define D where "D = dbl m e"
  define u where "u = ulp_exp e'"
  have m: "2 ^ 52 \<le> unat m" "unat m < 2 ^ 53" "-1073 \<le> e" "e < -1021 \<longrightarrow> 2 ^ nat (-1021 - e) dvd unat m"
    using nf by (simp_all add: normal_form_def)
  define p where "p = (2 :: real) powi (e - 55)"
  have pp: "0 < p" by (simp add: p_def)
  have pw: "(2 :: real) powi (e - 54) = 2 * p" "(2 :: real) powi (e - 53) = 4 * p"
    "(2 :: real) powi (e - 1) = 2 ^ 54 * p" "(2 :: real) powi e = 2 ^ 55 * p" "(2 :: real) powi (e - 2) = 2 ^ 53 * p"
    using powi2_add [of 1 "e - 55"] powi2_add [of 2 "e - 55"] powi2_add [of 54 "e - 55"] powi2_add [of 55 "e - 55"]
      powi2_add [of 53 "e - 55"] by (simp_all add: p_def algebra_simps)
  have D: "D = real (unat m) * (4 * p)" by (simp add: D_def dbl_def pw(2))
  have mr: "real (unat m) \<le> 2 ^ 53 - 1" "2 ^ 52 \<le> real (unat m)"
    using m(1,2) of_nat_le_iff [of "unat m" "2 ^ 53 - 1", where 'a = real] of_nat_le_iff [of "2 ^ 52" "unat m", where 'a = real] by simp_all
  have Db: "D \<le> 2 ^ 55 * p - 4 * p" "2 ^ 54 * p \<le> D"
    using mult_right_mono [OF mr(1), of "4 * p"] mult_right_mono [OF mr(2), of "4 * p"] pp by (simp_all add: D algebra_simps)
  have cl: "\<bar>x - D\<bar> \<le> p \<or> \<bar>x - D\<bar> < 2 * p \<and> unat m \<noteq> 2 ^ 52" using close by (simp add: D_def p_def [symmetric] pw)
  then have cl2: "\<bar>x - D\<bar> < 2 * p" using pp by auto
  have xb: "D - 2 * p < x" "x < D + 2 * p" using cl2 by linarith+
  have "x < 2 ^ 55 * p" using xb Db pp by linarith
  moreover have "2 ^ 53 * p < x" using xb Db pp by simp
  ultimately have "2 powi (e' - 1) < (2 :: real) powi e" "2 powi (e - 2) < (2 :: real) powi e'"
    using x unfolding pw by (meson le_less_trans less_trans)+
  then have ecases: "e' = e \<or> e' = e - 1" unfolding powi2_less_iff by linarith
  note result = that
  have found: thesis
    if N: "real N * 2 powi u = D" "N \<noteq> 0" "\<bar>x - D\<bar> < 2 powi u / 2 \<or> \<bar>x - D\<bar> \<le> 2 powi u / 2 \<and> even N" for N
  proof (rule result [of N, folded u_def D_def])
    define w where "w = (2 :: real) powi u"
    have w: "0 < w" by (simp add: w_def)
    have "x / w - real N = (x - D) / w" using N(1) [symmetric] w by (simp add: w_def [symmetric] field_simps)
    then have "\<bar>x / w - real N\<bar> = \<bar>x - D\<bar> / w" using w by (simp add: abs_divide)
    moreover have "\<bar>x - D\<bar> / w < 1 / 2 \<longleftrightarrow> \<bar>x - D\<bar> < w / 2" "\<bar>x - D\<bar> / w \<le> 1 / 2 \<longleftrightarrow> \<bar>x - D\<bar> \<le> w / 2"
      using w by (simp_all add: field_simps)
    ultimately show "\<bar>x / 2 powi u - real N\<bar> < 1 / 2 \<or> \<bar>x / 2 powi u - real N\<bar> \<le> 1 / 2 \<and> even N"
      using N(3) unfolding w_def [symmetric] by simp
  qed (use N in simp_all)
  have wide: "4 * p \<le> 2 powi u" if "e - 53 \<le> u" using powi2_mono [OF that] by (simp only: pw)
  show thesis
  proof (cases "e' = e")
    case True
    show thesis
    proof (cases "e < -1021")
      case False
      then have "u = e - 53" by (simp add: u_def ulp_exp_def True)
      then have u4: "2 powi u = 4 * p" by (simp only: pw)
      show thesis
        by (rule found [of "unat m"]) (use m(1) cl2 in \<open>simp_all add: u4 D\<close>)
    next
      case sub: True
      define j where "j = nat (-1021 - e)"
      have u: "u = -1074" using sub by (simp add: u_def ulp_exp_def True)
      have N: "unat m = unat m div 2 ^ j * 2 ^ j" using m(4) sub by (simp add: j_def)
      have "(2 :: real) ^ j * 2 powi (e - 53) = 2 powi u"
        using powi2_add [of "-1021 - e" "e - 53"] sub by (simp add: j_def u power_int_def)
      moreover have "D = real (unat m div 2 ^ j) * ((2 :: real) ^ j * 2 powi (e - 53))"
        unfolding D_def dbl_def by (subst N) simp
      ultimately have "real (unat m div 2 ^ j) * 2 powi u = D" by simp
      moreover have "unat m div 2 ^ j \<noteq> 0" using N m(1) by (metis mult_0 not_numeral_le_zero power_not_zero le_zero_eq)
      ultimately show thesis using found [of "unat m div 2 ^ j"] cl2 wide sub u by linarith
    qed
  next
    case False
    then have e': "e' = e - 1" using ecases by simp
    have m52: "unat m = 2 ^ 52"
    proof (rule ccontr)
      assume "unat m \<noteq> 2 ^ 52"
      then have "2 ^ 52 + 1 \<le> unat m" using m(1) by simp
      then have "2 ^ 52 + 1 \<le> real (unat m)" using of_nat_le_iff [of "2 ^ 52 + 1" "unat m", where 'a = real] by simp
      from mult_right_mono [OF this, of "4 * p"] have "2 ^ 54 * p + 4 * p \<le> D" using pp by (simp add: D algebra_simps)
      then show False using x(2) cl2 pp unfolding e' pw by linarith
    qed
    then have D54: "D = 2 ^ 54 * p" and clp: "\<bar>x - D\<bar> \<le> p" using cl by (simp_all add: D)
    show thesis
    proof (cases "e - 1 \<ge> -1021")
      case True
      then have "u = e - 54" by (simp add: u_def ulp_exp_def e')
      then have u2: "2 powi u = 2 * p" by (simp only: pw)
      show thesis
        by (rule found [of "2 ^ 53"]) (use clp in \<open>simp_all add: u2 D54\<close>)
    next
      case sub: False
      define j where "j = nat (e - 1 + 1074)"
      have u: "u = -1074" using sub by (simp add: u_def ulp_exp_def e')
      have "(2 :: real) ^ j * 2 powi u = 2 powi (e - 1)"
        using powi2_add [of "e - 1 + 1074" "-1074"] m(3) by (simp add: j_def u power_int_def)
      then have "real (2 ^ j) * 2 powi u = D" unfolding D54 pw(3) [symmetric] by simp
      moreover have "(2 :: nat) ^ j \<noteq> 0" by simp
      ultimately show thesis using found [of "2 ^ j"] clp wide sub u pp by linarith
    qed
  qed
qed

lemma readback:
  fixes k :: int
  assumes R: "radix_ok R r rs" and nf: "normal_form m e" and mant: "1 \<le> unat mant"
  defines "x \<equiv> real (unat mant) * real R powi k"
  assumes close: "\<bar>x - dbl m e\<bar> \<le> 2 powi (e - 55) \<or> \<bar>x - dbl m e\<bar> < 2 powi (e - 54) \<and> unat m \<noteq> 2 ^ 52"
  shows "mul_pow_round_to_d (mpb_set_u64 mant) r rs k JS_RNDN = (m, e)"
proof -
  note rd = radix_okD [OF R]
  define n d where "n = unat mant * R ^ nat k" and "d = R ^ nat (- k)"
  have d: "0 < d" using rd(1) by (simp add: d_def)
  have nd: "real n / real d = x"
  proof -
    have "real n / real d = real (unat mant) * (real R ^ nat k / real R ^ nat (- k))" by (simp add: n_def d_def)
    also have "real R ^ nat k / real R ^ nat (- k) = real R powi k" using rd(1) by (intro powi_frac) simp
    finally show ?thesis by (simp only: x_def)
  qed
  have a: "mpb_ok (mpb_set_u64 mant)" "limbs_val (mpb_set_u64 mant) = unat mant" "limbs_val (mpb_set_u64 mant) \<noteq> 0"
    using mpb_set_u64_val [of mant] mant by simp_all
  from mul_pow_round_to_d_val [OF rd(3,4) a(1,3), of rs k JS_RNDN, unfolded rd(5) a(2), folded n_def d_def]
  obtain e' where e': "has_exp n d e'"
    "float_repr (mul_pow_round_to_d (mpb_set_u64 mant) r rs k JS_RNDN) (round_units JS_RNDN n d (ulp_exp e')) (ulp_exp e')"
    by blast
  define u where "u = ulp_exp e'"
  obtain N where N: "real N * 2 powi u = dbl m e" "N \<noteq> 0"
    "\<bar>x / 2 powi u - real N\<bar> < 1 / 2 \<or> \<bar>x / 2 powi u - real N\<bar> \<le> 1 / 2 \<and> even N"
    using close_units [OF nf has_exp_real [OF e'(1) d, unfolded nd] close] by (auto simp: u_def)
  have "real (n * 2 ^ nat (- u)) / real (d * 2 ^ nat u) = x / 2 powi u"
  proof -
    have "real (n * 2 ^ nat (- u)) / real (d * 2 ^ nat u) = (real n / real d) / ((2 :: real) ^ nat u / 2 ^ nat (- u))" by simp
    also have "(2 :: real) ^ nat u / 2 ^ nat (- u) = 2 powi u" by (rule powi_frac) simp
    finally show ?thesis by (simp only: nd)
  qed
  then have rN: "round_units JS_RNDN n d u = N"
    unfolding round_units_def using d N(3) by (intro round_div_unique) simp_all
  obtain m1 e1 where me: "mul_pow_round_to_d (mpb_set_u64 mant) r rs k JS_RNDN = (m1, e1)" by fastforce
  have fr: "2 ^ 52 \<le> unat m1" "unat m1 < 2 ^ 53" "unat m1 * 2 ^ nat (e1 - 53 - u) = N * 2 ^ nat (u - (e1 - 53))"
    using e'(2) N(2) unfolding u_def [symmetric] rN me float_repr_def by simp_all
  have "dbl m1 e1 = dbl m e"
  proof -
    have "real (unat m1 * 2 ^ nat (e1 - 53 - u)) = real (N * 2 ^ nat (u - (e1 - 53)))" using fr(3) by (simp only: of_nat_eq_iff)
    then have "real (unat m1) * ((2 :: real) ^ nat (e1 - 53 - u) / 2 ^ nat (- (e1 - 53 - u))) = real N" by (simp add: field_simps)
    also have "(2 :: real) ^ nat (e1 - 53 - u) / 2 ^ nat (- (e1 - 53 - u)) = 2 powi (e1 - 53 - u)" by (rule powi_frac) simp
    finally have "real (unat m1) * (2 powi (e1 - 53 - u) * 2 powi u) = dbl m e"
      using N(1) by (simp only: mult.assoc [symmetric])
    then show ?thesis unfolding powi2_add [symmetric] by (simp add: dbl_def)
  qed
  moreover have "2 ^ 52 \<le> unat m" "unat m < 2 ^ 53" using nf by (simp_all add: normal_form_def)
  ultimately show ?thesis unfolding me by (intro normal_unique [OF fr(1,2)])
qed

subsection \<open>The search\<close>

text \<open>The first candidate, with the largest number of digits, reads back to the number.\<close>

lemma first_close:
  assumes R: "radix_ok R r rs" and nf: "normal_form m e" and E: "E = 1 + mul_log2_radix (e - 1) R"
    and P: "P = int (max_digits R)"
    and near: "\<bar>real (unat mant) - dbl m e * real R powi (P - E')\<bar> \<le> 1 / 2"
    and E': "E' = E \<or> E' = E + 1 \<and> real R powi (P - E) * dbl m e \<ge> real R ^ nat P - 1 / 2"
  defines "x \<equiv> real (unat mant) * real R powi (E' - P)"
  shows "\<bar>x - dbl m e\<bar> \<le> 2 powi (e - 55) \<or> \<bar>x - dbl m e\<bar> < 2 powi (e - 54) \<and> unat m \<noteq> 2 ^ 52"
proof -
  note rd = radix_okD [OF R]
  define D B where "D = dbl m e" and "B = real R"
  have B: "0 < B" "B \<noteq> 0" "2 \<le> B" using rd(1) by (simp_all add: B_def)
  have ee: "-1073 \<le> e" "e \<le> 1024" using nf by (simp_all add: normal_form_def)
  have st: "B powi (E - 1) \<le> 2 powi (e - 1)" "2 powi (e - 1) < B powi E"
    using start_exponent [OF rd(1,2) ee E] by (simp_all add: B_def)
  have D: "2 powi (e - 1) \<le> D" "D < 2 powi e" using dbl_bounds [OF nf] by (simp_all add: D_def)
  have P1: "1 \<le> P" using max_digits_table(1) [OF rd(1,2)] by (simp add: P)
  have Badd: "B powi (i + j) = B powi i * B powi j" for i j using B by (simp add: power_int_add)
  have dig: "B powi (1 - P) \<le> 2 powi (-53)"
  proof -
    have "real (2 ^ 53) \<le> real (R ^ (max_digits R - 1))"
      using max_digits_table(2) [OF rd(1,2)] by (simp only: of_nat_le_iff)
    then have "2 powi 53 \<le> B powi (P - 1)" using P1 by (simp add: B_def P power_int_def nat_diff_distrib)
    then have "inverse (B powi (P - 1)) \<le> inverse (2 powi 53)" by (intro le_imp_inverse_le) simp_all
    then show ?thesis by (metis minus_diff_eq power_int_minus)
  qed
  have half: "B powi (k - P) / 2 \<le> B powi (k - 1) * 2 powi (-54)" for k
  proof -
    have "B powi (k - P) = B powi (k - 1) * B powi (1 - P)" unfolding Badd [symmetric] by simp
    also have "\<dots> \<le> B powi (k - 1) * 2 powi (-53)" using dig B by (intro mult_left_mono) simp_all
    also have "2 powi (-53) = (2 :: real) * 2 powi (-54)" using powi2_add [of 1 "-54"] by simp
    finally show ?thesis by simp
  qed
  have small: "B powi (E - P) / 2 \<le> 2 powi (e - 55)"
  proof -
    have "B powi (E - P) / 2 \<le> B powi (E - 1) * 2 powi (-54)" by (rule half)
    also have "\<dots> \<le> 2 powi (e - 1) * 2 powi (-54)" using st(1) by (intro mult_right_mono) simp_all
    also have "\<dots> = 2 powi (e - 55)" unfolding powi2_add [symmetric] by simp
    finally show ?thesis .
  qed
  have dist: "\<bar>x - D\<bar> \<le> B powi (E' - P) / 2"
  proof -
    have "x - D = (real (unat mant) - D * B powi (P - E')) * B powi (E' - P)"
      using Badd [of "P - E'" "E' - P"] B by (simp add: x_def B_def left_diff_distrib mult.assoc)
    then have "\<bar>x - D\<bar> = \<bar>real (unat mant) - D * B powi (P - E')\<bar> * B powi (E' - P)" using B by (simp add: abs_mult)
    also have "\<dots> \<le> 1 / 2 * B powi (E' - P)" using near B by (intro mult_right_mono) (simp_all add: D_def B_def)
    finally show ?thesis by simp
  qed
  show ?thesis
  proof (cases "E' = E")
    case True
    then show ?thesis using dist small by (simp add: D_def)
  next
    case False
    then have e1: "E' = E + 1" and ge: "B powi P - 1 / 2 \<le> B powi (P - E) * D"
      using E' P1 by (auto simp: B_def D_def power_int_def)
    show ?thesis
    proof (cases "B powi E \<le> D")
      case True
      have "\<bar>x - D\<bar> \<le> B powi E * 2 powi (-54)" using dist half [of "E + 1"] unfolding e1 by simp
      also have "\<dots> \<le> D * 2 powi (-54)" using True by (intro mult_right_mono) simp_all
      also have "\<dots> < 2 powi e * 2 powi (-54)" using D(2) by (intro mult_strict_right_mono) simp_all
      also have "\<dots> = 2 powi (e - 54)" unfolding powi2_add [symmetric] by simp
      finally have "\<bar>x - D\<bar> < 2 powi (e - 54)" .
      moreover have "unat m \<noteq> 2 ^ 52"
      proof
        assume "unat m = 2 ^ 52"
        then have "D = 2 powi 52 * 2 powi (e - 53)" by (simp add: D_def dbl_def)
        then have "D = 2 powi (e - 1)" unfolding powi2_add [symmetric] by simp
        with True st(2) show False by simp
      qed
      ultimately show ?thesis by (simp add: D_def)
    next
      case below: False
      define K where "K = R ^ (nat P - 1)"
      have K: "real K = B powi (P - 1)" using P1 by (simp add: K_def B_def power_int_def nat_diff_distrib)
      define y where "y = D * B powi (P - E')"
      have yB: "y * B = D * B powi (P - E)" "real K * B = B powi P"
        using Badd [of "P - (E + 1)" 1] Badd [of "P - 1" 1] by (simp_all add: y_def e1 K)
      have "y * B < real K * B"
      proof -
        have "D * B powi (P - E) < B powi E * B powi (P - E)" using below B by (intro mult_strict_right_mono) simp_all
        also have "\<dots> = B powi P" unfolding Badd [symmetric] by simp
        finally show ?thesis unfolding yB .
      qed
      then have y1: "y < real K" using B(1) by (simp only: mult_less_cancel_right_pos)
      have "(real K - 1 / 2) * B = real K * B - B / 2" by (simp add: left_diff_distrib)
      moreover have "B powi P - 1 / 2 \<le> y * B" using ge unfolding yB(1) by (simp only: mult.commute)
      ultimately have "(real K - 1 / 2) * B < y * B" using B(3) unfolding yB(2) by linarith
      then have y2: "real K - 1 / 2 < y" using B(1) by (simp only: mult_less_cancel_right_pos)
      have nr: "\<bar>real (unat mant) - y\<bar> \<le> 1 / 2" using near by (simp add: y_def D_def B_def)
      have "unat mant = K" using int_near [OF nr, of K] y1 y2 by linarith
      then have "x = B powi (P - 1) * B powi (E' - P)" by (simp add: x_def B_def [symmetric] K)
      then have x: "x = B powi E" unfolding Badd [symmetric] e1 by simp
      have "B powi E - B powi (E - P) / 2 \<le> D"
      proof -
        have "(B powi P - 1 / 2) * B powi (E - P) \<le> (B powi (P - E) * D) * B powi (E - P)" using ge B by (intro mult_right_mono) simp_all
        moreover have "(B powi (P - E) * D) * B powi (E - P) = D" using Badd [of "P - E" "E - P"] by simp
        moreover have "B powi P * B powi (E - P) = B powi E" unfolding Badd [symmetric] by simp
        ultimately show ?thesis by (simp add: left_diff_distrib)
      qed
      then show ?thesis using below x small by (simp add: D_def)
    qed
  qed
qed

text \<open>What the search may return: digits that read back to the number.\<close>

definition readable :: "nat \<Rightarrow> nat \<Rightarrow> nat \<Rightarrow> u64 \<Rightarrow> int \<Rightarrow> int \<times> int \<times> u64 \<Rightarrow> bool" where
  "readable R r rs m e res = (case res of (P, E, mant) \<Rightarrow>
     \<bar>E\<bar> \<le> 2050 \<and> 1 \<le> P \<and> nat P \<le> max_digits R \<and> 1 \<le> unat mant \<and> unat mant < R ^ nat P \<and> \<not> R dvd unat mant \<and>
     mul_pow_round_to_d (mpb_set_u64 mant) r rs (E - P) JS_RNDN = (m, e))"

text \<open>The candidate with \<open>P\<close> digits, stripped of its trailing zeros, does not read back.\<close>

definition candidate_fails :: "nat \<Rightarrow> nat \<Rightarrow> nat \<Rightarrow> u64 \<Rightarrow> int \<Rightarrow> int \<Rightarrow> int \<Rightarrow> bool" where
  "candidate_fails R r rs m e E0 P \<longleftrightarrow> (\<exists>mant E mant' P'.
     free_mant m e r rs P (pow_ui (of_nat R) (of_int P)) E0 = Some (mant, E) \<and>
     strip_zeros (of_nat R) mant P = Some (mant', P') \<and>
     mul_pow_round_to_d (mpb_set_u64 mant') r rs (E - P') JS_RNDN \<noteq> (m, e))"

lemma search_step:
  assumes R: "radix_ok R r rs" and nf: "normal_form m e" and E: "E0 = 1 + mul_log2_radix (e - 1) R"
    and P: "1 \<le> P" "nat P \<le> max_digits R" and first: "found = None \<Longrightarrow> P = int (max_digits R)"
  obtains P' E mant where "1 \<le> P'" "P' \<le> P"
    "free_search m e R r rs E0 found P =
       (if readable R r rs m e (P', E, mant)
        then if P' = 1 then Some (P', E, mant) else free_search m e R r rs E0 (Some (P', E, mant)) (P' - 1)
        else found)"
    "found = None \<longrightarrow> readable R r rs m e (P', E, mant)"
    "\<not> readable R r rs m e (P', E, mant) \<longrightarrow> candidate_fails R r rs m e E0 P"
proof -
  note rd = radix_okD [OF R]
  obtain mant0 E where fm: "free_mant m e r rs P (pow_ui (of_nat R) (of_int P)) E0 = Some (mant0, E)"
    "1 \<le> unat mant0" "unat mant0 < R ^ nat P"
    "\<bar>real (unat mant0) - dbl m e * real R powi (P - E)\<bar> \<le> 1 / 2"
    "E = E0 \<or> E = E0 + 1 \<and> real R powi (P - E0) * dbl m e \<ge> real R ^ nat P - 1 / 2"
    by (rule free_mant_val [OF R nf E P])
  obtain mant P' where sz: "strip_zeros (of_nat R) mant0 P = Some (mant, P')" "\<not> R dvd unat mant"
    "1 \<le> P'" "P' \<le> P" "unat mant0 = unat mant * R ^ nat (P - P')" "1 \<le> unat mant" "unat mant < R ^ nat P'"
    by (rule strip_zeros_val [OF rd(1,2) fm(2,3)])
  define rb where "rb \<longleftrightarrow> mul_pow_round_to_d (mpb_set_u64 mant) r rs (E - P') JS_RNDN = (m, e)"
  have "nat P' \<le> max_digits R" using sz(4) P(2) by simp
  moreover have "\<bar>E\<bar> \<le> 2050" using fm(5) start_bound [OF rd(1,2), of e] nf unfolding E normal_form_def by auto
  ultimately have rdb: "readable R r rs m e (P', E, mant) \<longleftrightarrow> rb" using sz by (simp add: readable_def rb_def)
  have fst_rb: "rb" if "found = None"
  proof -
    have "P = int (max_digits R)" using first that .
    note close = first_close [OF R nf E this fm(4,5)]
    have "real (unat mant0) * real R powi (E - P) = real (unat mant) * real R powi (E - P')"
    proof -
      have "real (unat mant0) = real (unat mant) * real R powi (P - P')" using sz(4,5) by (simp add: power_int_def)
      moreover have "real R powi (P - P') * real R powi (E - P) = real R powi (E - P')"
        using rd(1) by (simp add: power_int_add [symmetric])
      ultimately show ?thesis by (simp only: mult.assoc)
    qed
    then show ?thesis using readback [OF R nf sz(6), of "E - P'"] close unfolding rb_def by simp
  qed
  have test: "(case mul_pow_round_to_d (mpb_set_u64 mant) r rs (E - P') JS_RNDN of (m1, e1) \<Rightarrow> m1 = m \<and> e1 = e) \<longleftrightarrow> rb"
    by (auto simp: rb_def split: prod.splits)
  have "free_search m e R r rs E0 found P =
      (if found = None \<or> rb then if P' = 1 then Some (P', E, mant) else free_search m e R r rs E0 (Some (P', E, mant)) (P' - 1)
       else found)"
    by (subst free_search.simps) (simp only: fm(1) sz(1) option.case prod.case test)
  then have eq: "free_search m e R r rs E0 found P =
      (if readable R r rs m e (P', E, mant) then if P' = 1 then Some (P', E, mant) else free_search m e R r rs E0 (Some (P', E, mant)) (P' - 1)
       else found)" unfolding rdb using fst_rb by (cases "found = None") simp_all
  show thesis
  proof (rule that [OF sz(3,4) eq])
    show "found = None \<longrightarrow> readable R r rs m e (P', E, mant)" using fst_rb rdb by simp
    show "\<not> readable R r rs m e (P', E, mant) \<longrightarrow> candidate_fails R r rs m e E0 P"
      using fm(1) sz(1) unfolding rdb candidate_fails_def rb_def by blast
  qed
qed

lemma search_from:
  assumes R: "radix_ok R r rs" and nf: "normal_form m e" and E: "E0 = 1 + mul_log2_radix (e - 1) R"
  shows "1 \<le> P \<Longrightarrow> nat P \<le> max_digits R \<Longrightarrow> (found = None \<Longrightarrow> P = int (max_digits R)) \<Longrightarrow>
    (\<And>Pf Ef mf. found = Some (Pf, Ef, mf) \<Longrightarrow> readable R r rs m e (Pf, Ef, mf) \<and> Pf = P + 1) \<Longrightarrow>
    \<exists>P' E mant. free_search m e R r rs E0 found P = Some (P', E, mant) \<and> readable R r rs m e (P', E, mant) \<and>
      (P' = 1 \<or> candidate_fails R r rs m e E0 (P' - 1))"
proof (induction "nat P" arbitrary: P found rule: less_induct)
  case less
  obtain P' E mant where s: "1 \<le> P'" "P' \<le> P"
    "free_search m e R r rs E0 found P =
       (if readable R r rs m e (P', E, mant)
        then if P' = 1 then Some (P', E, mant) else free_search m e R r rs E0 (Some (P', E, mant)) (P' - 1)
        else found)"
    "found = None \<longrightarrow> readable R r rs m e (P', E, mant)"
    "\<not> readable R r rs m e (P', E, mant) \<longrightarrow> candidate_fails R r rs m e E0 P"
    by (rule search_step [OF R nf E less(2,3,4)])
  consider "readable R r rs m e (P', E, mant)" "P' = 1" | "readable R r rs m e (P', E, mant)" "P' \<noteq> 1"
    | "\<not> readable R r rs m e (P', E, mant)" by blast
  then show ?case
  proof cases
    case 1
    then show ?thesis using s(3) by auto
  next
    case 2
    have "\<exists>P'' E' mant'. free_search m e R r rs E0 (Some (P', E, mant)) (P' - 1) = Some (P'', E', mant') \<and>
        readable R r rs m e (P'', E', mant') \<and> (P'' = 1 \<or> candidate_fails R r rs m e E0 (P'' - 1))"
      by (rule less(1)) (use 2 s(1,2) less(3) in auto)
    then show ?thesis using s(3) 2 by simp
  next
    case 3
    then obtain Pf Ef mf where f: "found = Some (Pf, Ef, mf)" using s(4) by (cases found) auto
    from less(5) [OF f] have "readable R r rs m e (Pf, Ef, mf)" "Pf = P + 1" by blast+
    moreover have "candidate_fails R r rs m e E0 P" using s(5) 3 by simp
    ultimately show ?thesis using s(3) 3 f by simp
  qed
qed

lemma free_search_val:
  assumes "radix_ok R r rs" and "normal_form m e" and "E0 = 1 + mul_log2_radix (e - 1) R"
  shows "\<exists>P E mant. free_search m e R r rs E0 None (int (max_digits R)) = Some (P, E, mant) \<and>
    readable R r rs m e (P, E, mant) \<and> (P = 1 \<or> candidate_fails R r rs m e E0 (P - 1))"
  by (rule search_from [OF assms]) (use max_digits_table(1) [OF radix_okD(1,2) [OF assms(1)]] in auto)

end
