(* ===== verification/Dtoa_Correct.thy ===== *)
theory Dtoa_Correct
  imports Digit_Search
begin

text \<open>
  What \<^verbatim>\<open>js_dtoa\<close> prints: the properties of the printer over the results on its loops. They
  relate the text to the real number a double stands for.
\<close>

subsection \<open>The number of a double\<close>

definition f64_abs :: "u64 \<Rightarrow> real" where
  "f64_abs a =
     (if f64_exp a = 0 then real (unat (f64_mant a)) * 2 powi (-1074)
      else (2 ^ 52 + real (unat (f64_mant a))) * 2 powi (int (f64_exp a) - 1075))"

text \<open>The mantissa and exponent that the printer works with.\<close>

definition f64_split :: "u64 \<Rightarrow> int \<times> u64" where
  "f64_split a =
     (if f64_exp a = 0
      then let l = int (clz64 (f64_mant a)) - 11 in (0 - (l - 1) - 1022, push_bit (nat l) (f64_mant a))
      else (int (f64_exp a) - 1022, f64_mant a OR push_bit 52 1))"

definition f64_finite :: "u64 \<Rightarrow> bool" where
  "f64_finite a \<longleftrightarrow> f64_exp a \<noteq> 0x7ff"

definition f64_zero :: "u64 \<Rightarrow> bool" where
  "f64_zero a \<longleftrightarrow> f64_exp a = 0 \<and> f64_mant a = 0"

lemma f64_mant_bound: "unat (f64_mant a) < 2 ^ 52"
proof -
  have "f64_mant a = take_bit 52 a"
    by (simp add: f64_mant_def take_bit_eq_mask mask_eq_exp_minus_1 push_bit_of_1)
  then have "unat (f64_mant a) = unat a mod 2 ^ 52" using unat_take32 [of 52 a] by simp
  then show ?thesis by simp
qed

lemma f64_exp_bound: "f64_exp a \<le> 2047"
proof -
  have "drop_bit 52 a AND 0x7ff = take_bit 11 (drop_bit 52 a)" by (simp add: take_bit_eq_mask mask_eq_exp_minus_1)
  then have "f64_exp a = unat (drop_bit 52 a) mod 2 ^ 11" using unat_take32 [of 11 "drop_bit 52 a"] by (simp add: f64_exp_def)
  then show ?thesis by (simp add: less_Suc_eq_le [symmetric])
qed

lemma f64_split_normal:
  assumes "f64_finite a" "\<not> f64_zero a"
  shows "case f64_split a of (e, m) \<Rightarrow> normal_form m e \<and> dbl m e = f64_abs a"
proof (cases "f64_exp a = 0")
  case True
  define m0 where "m0 = f64_mant a"
  have m0: "unat m0 \<noteq> 0" "unat m0 < 2 ^ 52" using assms(2) True f64_mant_bound by (simp_all add: f64_zero_def m0_def unat_eq_0)
  define k where "k = bit_len (unat m0)"
  have k: "2 ^ (k - 1) \<le> unat m0" "unat m0 < 2 ^ k" "0 < k" "k \<le> 52"
    using bit_len_bounds [OF m0(1)] bit_len_le [OF m0(2)] by (simp_all add: k_def)
  define l where "l = 53 - k"
  have l: "int (clz64 m0) - 11 = int l" "1 \<le> l" "l \<le> 52" "k + l = 53" using k by (simp_all add: clz64_def k_def [symmetric] l_def)
  have lo: "2 ^ 52 \<le> unat m0 * 2 ^ l"
  proof -
    have "(2 :: nat) ^ 52 = 2 ^ (k - 1) * 2 ^ l" using k l by (simp flip: power_add)
    also have "\<dots> \<le> unat m0 * 2 ^ l" using k(1) by simp
    finally show ?thesis .
  qed
  have hi: "unat m0 * 2 ^ l < 2 ^ 53"
  proof -
    have "unat m0 * 2 ^ l < 2 ^ k * 2 ^ l" using k(2) by simp
    also have "\<dots> = 2 ^ 53" unfolding power_add [symmetric] l(4) ..
    finally show ?thesis .
  qed
  have m: "unat (push_bit l m0) = unat m0 * 2 ^ l" using hi by (intro push_u64) simp
  have split: "f64_split a = (-1021 - int l, push_bit l m0)"
    using True l by (simp add: f64_split_def m0_def [symmetric] Let_def)
  have "normal_form (push_bit l m0) (-1021 - int l)" using lo hi l(3) by (simp add: normal_form_def m)
  moreover have "dbl (push_bit l m0) (-1021 - int l) = f64_abs a"
  proof -
    have "(2 :: real) ^ l * 2 powi (-1021 - int l - 53) = 2 powi (-1074)"
      using powi2_add [of "int l" "-1021 - int l - 53"] by (simp add: power_int_def)
    then have "real (unat m0 * 2 ^ l) * 2 powi (-1021 - int l - 53) = real (unat m0) * 2 powi (-1074)"
      by (simp only: of_nat_mult of_nat_power of_nat_numeral mult.assoc)
    then show ?thesis unfolding dbl_def m f64_abs_def m0_def [symmetric] using True by (simp only: if_True simp_thms)
  qed
  ultimately show ?thesis unfolding split by simp
next
  case False
  have b: "f64_exp a \<le> 2046" using assms(1) f64_exp_bound [of a] by (simp add: f64_finite_def)
  have "f64_mant a OR push_bit 52 1 = f64_mant a + push_bit 52 1"
    using f64_mant_bound [of a] by (intro or_high [where k = 52]) (simp_all add: take_bit_push_bit)
  moreover have p: "unat (push_bit 52 1 :: u64) = 2 ^ 52" by (simp add: unat_push)
  ultimately have m: "unat (f64_mant a OR push_bit 52 1) = unat (f64_mant a) + 2 ^ 52"
    using f64_mant_bound [of a] unat_small_add [of "f64_mant a" "push_bit 52 1"] by simp
  have "normal_form (f64_mant a OR push_bit 52 1) (int (f64_exp a) - 1022)"
    unfolding normal_form_def m using f64_mant_bound [of a] False b by simp
  moreover have "dbl (f64_mant a OR push_bit 52 1) (int (f64_exp a) - 1022) = f64_abs a"
    using False by (simp only: dbl_def m f64_abs_def of_nat_add of_nat_power of_nat_numeral if_False add.commute) simp
  ultimately show ?thesis using False by (simp add: f64_split_def)
qed

lemma js_dtoa_split:
  assumes "f64_finite a" "\<not> f64_zero a" "f64_split a = (e, m)"
  shows "js_dtoa a radix n_digits flags =
    map_option ((@) (if f64_sign a then ''-'' else '''')) (dtoa_finite m e radix n_digits flags)"
  using assms by (auto simp: js_dtoa_def f64_finite_def f64_zero_def f64_split_def Let_def split: if_splits)

subsection \<open>Rounding to the nearest double\<close>

text \<open>
  \<open>y\<close> is the multiple of the unit in the last place of \<open>x\<close> that is nearest to \<open>x\<close>, the even one of
  two.
\<close>

definition near_even :: "real \<Rightarrow> nat \<Rightarrow> bool" where
  "near_even x N \<longleftrightarrow> \<bar>x - real N\<bar> < 1 / 2 \<or> \<bar>x - real N\<bar> \<le> 1 / 2 \<and> even N"

definition rounds_to :: "real \<Rightarrow> real \<Rightarrow> bool" where
  "rounds_to x y \<longleftrightarrow> (\<exists>e N. 2 powi (e - 1) \<le> x \<and> x < 2 powi e \<and>
     y = real N * 2 powi ulp_exp e \<and> near_even (x / 2 powi ulp_exp e) N)"

lemma round_div_near_even:
  assumes "0 < d"
  shows "near_even (n / d) (round_div JS_RNDN n d)"
proof -
  define q r where "q = n div d" and "r = n mod d"
  have n: "n = q * d + r" "r < d" using assms by (simp_all add: q_def r_def)
  have x: "real n / d = q + r / d" using assms by (simp add: n(1) field_simps)
  define y where "y = real r / d"
  have y: "2 * r < d \<Longrightarrow> y < 1 / 2" "d < 2 * r \<Longrightarrow> 1 / 2 < y" "2 * r = d \<Longrightarrow> y = 1 / 2" "y < 1" "0 \<le> y"
    using assms n(2) by (simp_all add: y_def field_simps)
  consider "round_div JS_RNDN n d = q" "2 * r < d" | "round_div JS_RNDN n d = q" "2 * r = d" "even q"
    | "round_div JS_RNDN n d = q + 1" "d < 2 * r" | "round_div JS_RNDN n d = q + 1" "2 * r = d" "odd q"
    unfolding round_div_def Let_def q_def [symmetric] r_def [symmetric] rnd_mode.case by (metis linorder_neqE_nat)
  then show ?thesis
    unfolding near_even_def x y_def [symmetric] by cases (use y in simp_all)
qed

lemma rounds_to_float_repr:
  assumes he: "has_exp n d e" and d: "0 < d" and fr: "float_repr (m1, e1) (round_units JS_RNDN n d (ulp_exp e)) (ulp_exp e)"
  shows "rounds_to (real n / d) (dbl m1 e1)"
proof -
  define u N where "u = ulp_exp e" and "N = round_units JS_RNDN n d u"
  have "real (n * 2 ^ nat (- u)) / real (d * 2 ^ nat u) = real n / d / 2 powi u"
    unfolding powi_frac [of "2 :: real" u, simplified, symmetric] by simp
  then have ne: "near_even (real n / d / 2 powi u) N"
    using round_div_near_even [of "d * 2 ^ nat u" "n * 2 ^ nat (- u)"] d by (simp add: N_def round_units_def)
  have "dbl m1 e1 = real N * 2 powi u"
  proof (cases "N = 0")
    case True
    then show ?thesis using fr by (simp add: float_repr_def N_def [symmetric] u_def [symmetric] dbl_def)
  next
    case False
    then have "unat m1 * 2 ^ nat (e1 - 53 - u) = N * 2 ^ nat (u - (e1 - 53))"
      using fr by (simp add: float_repr_def N_def [symmetric] u_def [symmetric])
    then have "real (unat m1 * 2 ^ nat (e1 - 53 - u)) = real (N * 2 ^ nat (u - (e1 - 53)))" by (simp only: of_nat_eq_iff)
    then have "real (unat m1) * ((2 :: real) ^ nat (e1 - 53 - u) / 2 ^ nat (- (e1 - 53 - u))) = real N" by (simp add: field_simps)
    also have "(2 :: real) ^ nat (e1 - 53 - u) / 2 ^ nat (- (e1 - 53 - u)) = 2 powi (e1 - 53 - u)" by (rule powi_frac) simp
    finally have "real N * 2 powi u = real (unat m1) * (2 powi (e1 - 53 - u) * 2 powi u)" by (simp only: mult.assoc [symmetric])
    also have "\<dots> = dbl m1 e1" unfolding powi2_add [symmetric] by (simp add: dbl_def)
    finally show ?thesis by (simp only:)
  qed
  with has_exp_real [OF he d] ne show ?thesis unfolding rounds_to_def u_def by blast
qed

lemma mul_pow_round_to_d_rounds:
  assumes R: "radix_ok R r rs" and a: "mpb_ok a" "limbs_val a \<noteq> 0"
    and me: "mul_pow_round_to_d a r rs k JS_RNDN = (m1, e1)"
  shows "rounds_to (real (limbs_val a) * real R powi k) (dbl m1 e1)"
proof -
  note rd = radix_okD [OF R]
  obtain e where e: "has_exp (limbs_val a * R ^ nat k) (R ^ nat (- k)) e"
    "float_repr (m1, e1) (round_units JS_RNDN (limbs_val a * R ^ nat k) (R ^ nat (- k)) (ulp_exp e)) (ulp_exp e)"
    using mul_pow_round_to_d_val [OF rd(3,4) a, of rs k JS_RNDN, unfolded rd(5) me] by blast
  have "real (limbs_val a * R ^ nat k) / real (R ^ nat (- k)) = real (limbs_val a) * real R powi k"
    using powi_frac [of "real R" k, symmetric] rd(1) by simp
  with rounds_to_float_repr [OF e(1) _ e(2)] rd(1) show ?thesis by simp
qed

text \<open>A double rounds to itself.\<close>

lemma rounds_to_self:
  assumes "normal_form m e"
  shows "rounds_to (dbl m e) (dbl m e)"
proof -
  have p: "0 \<le> (2 :: real) powi (e - 55)" by simp
  from close_units [OF assms dbl_bounds(1,2) [OF assms]] p
  obtain N where "real N * 2 powi ulp_exp e = dbl m e"
    "\<bar>dbl m e / 2 powi ulp_exp e - real N\<bar> < 1 / 2 \<or> \<bar>dbl m e / 2 powi ulp_exp e - real N\<bar> \<le> 1 / 2 \<and> even N"
    by (metis abs_zero diff_self)
  then show ?thesis unfolding rounds_to_def near_even_def using dbl_bounds(1,2) [OF assms] by metis
qed

subsection \<open>Reading a numeral\<close>

text \<open>
  The number a text stands for: digits with an optional dot, then an exponent that is a decimal
  number with a sign. The letter of the exponent and its base depend on the radix.
\<close>

definition text_value :: "nat \<Rightarrow> string \<Rightarrow> real" where
  "text_value R s =
     (let i = takeWhile ((\<noteq>) CHR ''.'') s; f = tl (dropWhile ((\<noteq>) CHR ''.'') s)
      in radix_value R (i @ f) / real R ^ length f)"

definition exp_char :: "nat \<Rightarrow> char" where
  "exp_char R = (if R = 10 then CHR ''e'' else if R \<in> {2, 4, 8, 16} then CHR ''p'' else CHR ''@'')"

definition exp_base :: "nat \<Rightarrow> real" where
  "exp_base R = (if R \<in> {2, 4, 8, 16} then 2 else real R)"

definition exp_value :: "string \<Rightarrow> int" where
  "exp_value s = (case s of [] \<Rightarrow> 0 | c # t \<Rightarrow> if c = CHR ''-'' then - int (radix_value 10 t) else int (radix_value 10 t))"

definition numeral_value :: "nat \<Rightarrow> string \<Rightarrow> real" where
  "numeral_value R s =
     text_value R (takeWhile ((\<noteq>) (exp_char R)) s) * exp_base R powi exp_value (tl (dropWhile ((\<noteq>) (exp_char R)) s))"

lemma radix_value_append: "radix_value r (xs @ ys) = radix_value r xs * r ^ length ys + radix_value r ys"
proof (induction ys rule: rev_induct)
  case (snoc y ys)
  then show ?case unfolding append_assoc [symmetric] radix_value_snoc by (simp add: algebra_simps)
qed (simp add: radix_value_def)

lemma radix_value_fixed:
  assumes "2 \<le> r" "r \<le> 36"
  shows "radix_value r (fixed_digits r k n) = n mod r ^ k"
proof (induction k arbitrary: n)
  case (Suc k)
  have "n mod r < 36" using assms mod_less_divisor [of r n] by linarith
  then show ?case using Suc by (simp add: mod_mult2_eq)
qed (simp add: radix_value_def)

lemma radix_value_zeros [simp]: "radix_value r (replicate k (CHR ''0'')) = 0"
proof (induction k)
  case (Suc k)
  then show ?case unfolding replicate_Suc replicate_append_same [symmetric] radix_value_snoc by (simp add: digit_val_def)
qed (simp add: radix_value_def)

lemma digit_char_not:
  assumes "d < 36"
  shows "digit_char d \<noteq> CHR ''.''" "digit_char d \<noteq> CHR ''@''" "d < 16 \<Longrightarrow> digit_char d \<noteq> CHR ''p''" "d < 10 \<Longrightarrow> digit_char d \<noteq> CHR ''e''"
proof -
  have t: "list_all (\<lambda>d. digit_char d \<noteq> CHR ''.'' \<and> digit_char d \<noteq> CHR ''@'' \<and>
      (d < 16 \<longrightarrow> digit_char d \<noteq> CHR ''p'') \<and> (d < 10 \<longrightarrow> digit_char d \<noteq> CHR ''e'')) [0..<36]"
    by code_simp
  have "d \<in> {0..<36}" using assms by simp
  from bspec [OF t [unfolded list_all_iff set_upt] this]
  show "digit_char d \<noteq> CHR ''.''" "digit_char d \<noteq> CHR ''@''" "d < 16 \<Longrightarrow> digit_char d \<noteq> CHR ''p''" "d < 10 \<Longrightarrow> digit_char d \<noteq> CHR ''e''"
    by simp_all
qed

lemma set_fixed_digits:
  assumes "0 < r"
  shows "set (fixed_digits r k n) \<subseteq> digit_char ` {..<r}"
  using assms by (induction k arbitrary: n) auto

lemma fixed_digits_plain:
  assumes "2 \<le> R" "R \<le> 36"
  shows "CHR ''.'' \<notin> set (fixed_digits R k n)" and "exp_char R \<notin> set (fixed_digits R k n)"
proof -
  have s: "set (fixed_digits R k n) \<subseteq> digit_char ` {..<R}" using assms by (intro set_fixed_digits) simp
  have "exp_char R \<noteq> digit_char d \<and> CHR ''.'' \<noteq> digit_char d" if "d < R" for d
    using digit_char_not [of d] that assms(2) by (auto simp: exp_char_def)
  then show "CHR ''.'' \<notin> set (fixed_digits R k n)" and "exp_char R \<notin> set (fixed_digits R k n)" using s by blast+
qed

lemma span_absent:
  assumes "c \<notin> set i"
  shows "takeWhile ((\<noteq>) c) i = i" "dropWhile ((\<noteq>) c) i = []"
    "takeWhile ((\<noteq>) c) (i @ c # f) = i" "dropWhile ((\<noteq>) c) (i @ c # f) = c # f"
  using assms by (induction i) auto

lemma exp_char_not: "exp_char R \<noteq> CHR ''.''" "exp_char R \<noteq> CHR ''0''"
  by (simp_all add: exp_char_def)

subsection \<open>The values of the printed forms\<close>

lemma text_value_split:
  assumes "CHR ''.'' \<notin> set i"
  shows "text_value R i = radix_value R i" and "text_value R (i @ CHR ''.'' # f) = radix_value R (i @ f) / real R ^ length f"
  unfolding text_value_def Let_def span_absent [OF assms] by simp_all

lemma text_value_with_dot:
  assumes "CHR ''.'' \<notin> set ds" "p \<le> length ds"
  shows "text_value R (with_dot ds p) = radix_value R ds / real R ^ (length ds - p)"
proof (cases "p < length ds")
  case True
  have "CHR ''.'' \<notin> set (take p ds)" using assms(1) in_set_takeD by metis
  with True text_value_split(2) [OF this, of R "drop p ds"] show ?thesis by (simp add: with_dot_def)
next
  case False
  then show ?thesis using assms text_value_split(1) [OF assms(1)] by (simp add: with_dot_def)
qed


text \<open>The three layouts: leading zeros, a dot or trailing zeros, and an exponent.\<close>

lemma text_value_small:
  assumes "CHR ''.'' \<notin> set ds"
  shows "text_value R (''0.'' @ replicate k (CHR ''0'') @ ds) = radix_value R ds / real R ^ (k + length ds)"
  using text_value_split(2) [of "''0''" R "replicate k (CHR ''0'') @ ds"] radix_value_append [of R "replicate (Suc k) (CHR ''0'')" ds]
    radix_value_zeros [of R "Suc k"]
  by simp

lemma text_value_large:
  assumes "CHR ''.'' \<notin> set ds" "p \<le> length ds" "k = 0 \<or> p = length ds"
  shows "text_value R (with_dot ds p @ replicate k (CHR ''0'')) = radix_value R ds * real R ^ k / real R ^ (length ds - p)"
proof (cases "k = 0")
  case True
  then show ?thesis using text_value_with_dot [OF assms(1,2)] by simp
next
  case False
  then have "with_dot ds p = ds" "p = length ds" using assms(3) by (simp_all add: with_dot_def)
  then show ?thesis using text_value_split(1) [of "ds @ replicate k (CHR ''0'')" R] assms(1) by (simp add: radix_value_append)
qed

lemma numeral_value_plain:
  assumes "exp_char R \<notin> set s"
  shows "numeral_value R s = text_value R s"
  unfolding numeral_value_def span_absent [OF assms] by (simp add: exp_value_def)

lemma numeral_value_exp:
  assumes "exp_char R \<notin> set s"
  shows "numeral_value R (s @ [exp_char R, if k < 0 then CHR ''-'' else CHR ''+''] @ dec_digits (nat \<bar>k\<bar>)) =
    text_value R s * exp_base R powi k"
  unfolding numeral_value_def append_Cons append_Nil span_absent [OF assms]
  using radix_value_digits [of 10 "nat \<bar>k\<bar>"] by (simp add: exp_value_def)

lemma set_with_dot: "set (with_dot ds p) \<subseteq> insert (CHR ''.'') (set ds)"
  using set_take_subset [of p ds] set_drop_subset [of p ds] by (auto simp: with_dot_def)

lemma exp_char_radix:
  assumes "radix_ok R r rs"
  shows "r = 1 \<and> rs \<le> 4 \<longleftrightarrow> R \<in> {2, 4, 8, 16}"
proof -
  have t: "list_all (\<lambda>R. R div 2 ^ ctz32 (of_nat R) = 1 \<and> ctz32 (of_nat R) \<le> 4 \<longleftrightarrow> R \<in> set [2, 4, 8, 16]) [2..<37]"
    by code_simp
  have "R \<in> {2..<37}" using assms by (simp add: radix_ok_def)
  from bspec [OF t [unfolded list_all_iff set_upt] this] assms show ?thesis by (simp add: radix_ok_def)
qed

lemma dtoa_output_exp:
  assumes R: "radix_ok R r rs" and E: "\<bar>E\<bar> \<le> 100000" and P: "1 \<le> P" and a: "mpb_ok a"
    and x: "flags AND JS_DTOA_EXP_MASK = JS_DTOA_EXP_ENABLED \<or>
      flags AND JS_DTOA_EXP_MASK = JS_DTOA_EXP_AUTO \<and>
      (E \<le> -6 \<or> E > (if flags AND JS_DTOA_FORMAT_MASK = JS_DTOA_FORMAT_FIXED then n else int (dtoa_max_digits_table ! (R - 2)) + 4))"
  defines "k \<equiv> (if R \<in> {2, 4, 8, 16} then (E - 1) * int rs else E - 1)"
  shows "dtoa_output a R r rs n flags P E =
    with_dot (fixed_digits R (nat P) (limbs_val a)) 1 @ [exp_char R, if k < 0 then CHR ''-'' else CHR ''+''] @ dec_digits (nat \<bar>k\<bar>)"
proof -
  note rd = radix_okD [OF R]
  have o: "output_digits a R (nat P) 1 = with_dot (fixed_digits R (nat P) (limbs_val a)) 1"
    using P by (intro output_digits_val [OF rd(1,2) a]) simp
  have "\<bar>k\<bar> < 2 ^ 31"
  proof (cases "R \<in> {2, 4, 8, 16}")
    case True
    then have "int rs \<le> 4" using exp_char_radix [OF R] by simp
    then have "\<bar>E - 1\<bar> * int rs \<le> 100001 * 4" using E by (intro mult_mono) auto
    then show ?thesis using True by (simp add: k_def abs_mult)
  next
    case False
    then show ?thesis using E by (simp add: k_def)
  qed
  then have u: "u32toa (of_int \<bar>k\<bar>) = dec_digits (nat \<bar>k\<bar>)"
    using unat_of_nat_id [of "nat \<bar>k\<bar>", where 'a = 32] by (simp add: u32toa_val)
  have sg: "(if k < 0 then (CHR ''-'', - k) else (CHR ''+'', k)) = (if k < 0 then CHR ''-'' else CHR ''+'', \<bar>k\<bar>)" by simp
  have kc: "(if R = 10 then (CHR ''e'', E - 1) else if r = 1 \<and> rs \<le> 4 then (CHR ''p'', (E - 1) * int rs) else (CHR ''@'', E - 1)) = (exp_char R, k)"
    using exp_char_radix [OF R] by (simp add: exp_char_def k_def)
  show ?thesis
    unfolding dtoa_output_def Let_def kc prod.case sg o u using x by simp
qed

lemma dtoa_output_forms:
  assumes R: "radix_ok R r rs" and E: "\<bar>E\<bar> \<le> 100000" and P: "1 \<le> P" and a: "mpb_ok a"
  defines "ds \<equiv> fixed_digits R (nat P) (limbs_val a)" and "k \<equiv> (if R \<in> {2, 4, 8, 16} then (E - 1) * int rs else E - 1)"
  obtains "dtoa_output a R r rs n flags P E =
      with_dot ds 1 @ [exp_char R, if k < 0 then CHR ''-'' else CHR ''+''] @ dec_digits (nat \<bar>k\<bar>)"
    | "E \<le> 0" "dtoa_output a R r rs n flags P E = ''0.'' @ replicate (nat (- E)) (CHR ''0'') @ ds"
    | "0 < E" "dtoa_output a R r rs n flags P E = with_dot ds (nat (min P E)) @ replicate (nat (E - P)) (CHR ''0'')"
proof -
  note rd = radix_okD [OF R]
  define X where "X \<longleftrightarrow> flags AND JS_DTOA_EXP_MASK = JS_DTOA_EXP_ENABLED \<or>
      flags AND JS_DTOA_EXP_MASK = JS_DTOA_EXP_AUTO \<and>
      (E \<le> -6 \<or> E > (if flags AND JS_DTOA_FORMAT_MASK = JS_DTOA_FORMAT_FIXED then n else int (dtoa_max_digits_table ! (R - 2)) + 4))"
  consider X | "\<not> X" "E \<le> 0" | "\<not> X" "0 < E" by linarith
  then show thesis
  proof cases
    case 1
    from dtoa_output_exp [OF R E P a 1 [unfolded X_def]] show thesis using that(1) by (simp only: ds_def k_def)
  next
    case 2
    have o: "output_digits a R (nat P) (nat P) = ds" using output_digits_val [OF rd(1,2) a] by (simp add: ds_def with_dot_def)
    show thesis by (rule that(2) [OF 2(2)], unfold dtoa_output_def Let_def X_def [symmetric] o) (use 2 in simp)
  next
    case 3
    have o: "output_digits a R (nat P) (nat (min P E)) = with_dot ds (nat (min P E))"
      unfolding ds_def by (intro output_digits_val [OF rd(1,2) a]) simp
    show thesis by (rule that(3) [OF 3(2)], unfold dtoa_output_def Let_def X_def [symmetric] o) (use 3 in simp)
  qed
qed

lemma dtoa_output_value:
  assumes R: "radix_ok R r rs" and E: "\<bar>E\<bar> \<le> 100000" and P: "1 \<le> P" and a: "mpb_ok a" "limbs_val a < R ^ nat P"
  shows "numeral_value R (dtoa_output a R r rs n flags P E) = real (limbs_val a) * real R powi (E - P)"
proof -
  note rd = radix_okD [OF R]
  define ds where "ds = fixed_digits R (nat P) (limbs_val a)"
  define k where "k = (if R \<in> {2, 4, 8, 16} then (E - 1) * int rs else E - 1)"
  have ds: "CHR ''.'' \<notin> set ds" "exp_char R \<notin> set ds" "length ds = nat P" "radix_value R ds = limbs_val a"
    using fixed_digits_plain [OF rd(1,2)] radix_value_fixed [OF rd(1,2)] a(2) by (simp_all add: ds_def)
  have wd: "exp_char R \<notin> set (with_dot ds p)" for p using ds(2) exp_char_not set_with_dot [of ds p] by blast
  have R0: "real R \<noteq> 0" using rd(1) by simp
  show ?thesis
  proof (rule dtoa_output_forms [OF R E P a(1), of n flags, folded ds_def k_def])
    assume t: "dtoa_output a R r rs n flags P E =
      with_dot ds 1 @ [exp_char R, if k < 0 then CHR ''-'' else CHR ''+''] @ dec_digits (nat \<bar>k\<bar>)"
    have b: "exp_base R powi k = real R powi (E - 1)"
    proof (cases "R \<in> {2, 4, 8, 16}")
      case True
      then have "real R = 2 ^ rs" using rd(5) exp_char_radix [OF R] by (metis mult_1 of_nat_numeral of_nat_power)
      then show ?thesis using True by (simp add: exp_base_def k_def power_int_mult mult.commute flip: power_int_of_nat)
    qed (simp add: exp_base_def k_def)
    have v: "text_value R (with_dot ds 1) = real (limbs_val a) * real R powi (1 - P)"
      using text_value_with_dot [OF ds(1), of 1 R] P ds R0 by (simp add: power_int_def inverse_eq_divide nat_diff_distrib power_one_over)
    have "numeral_value R (dtoa_output a R r rs n flags P E) = real (limbs_val a) * (real R powi (1 - P) * real R powi (E - 1))"
      unfolding t numeral_value_exp [OF wd] b v by (rule mult.assoc)
    also have "real R powi (1 - P) * real R powi (E - 1) = real R powi (E - P)" using R0 by (simp flip: power_int_add)
    finally show ?thesis .
  next
    assume E0: "E \<le> 0" and t: "dtoa_output a R r rs n flags P E = ''0.'' @ replicate (nat (- E)) (CHR ''0'') @ ds"
    have "exp_char R \<notin> set (dtoa_output a R r rs n flags P E)" unfolding t using ds(2) exp_char_not by auto
    then show ?thesis
      using text_value_small [OF ds(1), of R "nat (- E)"] E0 P ds(3,4)
      by (simp add: numeral_value_plain t power_int_def nat_add_distrib [symmetric] inverse_eq_divide power_one_over)
  next
    assume E0: "0 < E" and t: "dtoa_output a R r rs n flags P E = with_dot ds (nat (min P E)) @ replicate (nat (E - P)) (CHR ''0'')"
    have "exp_char R \<notin> set (dtoa_output a R r rs n flags P E)" unfolding t using wd exp_char_not by auto
    moreover have "nat (min P E) \<le> nat P" "nat (E - P) = 0 \<or> nat (min P E) = nat P" by (auto simp: min_def)
    ultimately have "numeral_value R (dtoa_output a R r rs n flags P E) = real (limbs_val a) * real R ^ nat (E - P) / real R ^ (nat P - nat (min P E))"
      using text_value_large [OF ds(1), of "nat (min P E)" "nat (E - P)" R] ds(3,4) by (simp add: numeral_value_plain t)
    also have "nat P - nat (min P E) = nat (- (E - P))" using E0 P by simp
    finally show ?thesis using powi_frac [OF R0, of "E - P", symmetric] by simp
  qed
qed

subsection \<open>The formats of the printer\<close>

lemma numeral_value_digits:
  assumes "2 \<le> R" "R \<le> 36"
  shows "numeral_value R (radix_digits R n) = real n"
proof -
  have s: "set (radix_digits R n) \<subseteq> digit_char ` {..<R}" using assms by (intro set_radix_digits)
  have "exp_char R \<noteq> digit_char d \<and> CHR ''.'' \<noteq> digit_char d" if "d < R" for d
    using digit_char_not [of d] that assms(2) by (auto simp: exp_char_def)
  then have "CHR ''.'' \<notin> set (radix_digits R n)" "exp_char R \<notin> set (radix_digits R n)" using s by blast+
  then show ?thesis using radix_value_digits [OF assms] by (simp add: numeral_value_plain text_value_split(1))
qed

text \<open>The short path for integers.\<close>

lemma small_int_value:
  assumes "normal_form m e" and e: "1 \<le> e" "e \<le> 53" and z: "m AND (push_bit (nat (53 - e)) 1 - 1) = 0"
  shows "real (unat (drop_bit (nat (53 - e)) m)) = dbl m e"
proof -
  define j where "j = nat (53 - e)"
  have j: "j \<le> 52" "int j = 53 - e" using e by (simp_all add: j_def)
  have "m AND (push_bit j 1 - 1) = take_bit j m" by (simp add: take_bit_eq_mask mask_eq_exp_minus_1 push_bit_of_1)
  then have "unat m mod 2 ^ j = 0" using z j(1) unat_take32 [of j m] by (simp add: j_def [symmetric])
  then have "unat m = unat m div 2 ^ j * 2 ^ j" by (metis add_0_right div_mult_mod_eq)
  then have "real (unat m) = real (unat m div 2 ^ j) * 2 ^ j" by (metis of_nat_mult of_nat_numeral of_nat_power)
  moreover have "(2 :: real) ^ j * 2 powi (e - 53) = 1"
    using powi2_add [of "53 - e" "e - 53"] power_int_of_nat [of "2 :: real" j] j(2) by simp
  ultimately show ?thesis
    unfolding dbl_def j_def [symmetric] unat_drop by (metis mult.assoc mult.right_neutral)
qed

lemma dtoa_free_value:
  assumes R: "radix_ok R r rs" and nf: "normal_form m e" and free: "flags AND JS_DTOA_FORMAT_MASK = JS_DTOA_FORMAT_FREE"
  shows "\<exists>s. dtoa_finite m e R n flags = Some s \<and> rounds_to (numeral_value R s) (dbl m e)"
proof -
  note rd = radix_okD [OF R]
  have rr: "ctz32 (of_nat R) = rs" "R div 2 ^ rs = r" using R by (simp_all add: radix_ok_def)
  have u: "unat (of_nat R :: u32) = R" using rd(2) by (intro unat_of_nat_id) simp
  define short where "short \<longleftrightarrow> e \<ge> 1 \<and> e \<le> 53 \<and> m AND (push_bit (nat (53 - e)) 1 - 1) = 0 \<and>
            flags AND JS_DTOA_EXP_MASK \<noteq> JS_DTOA_EXP_ENABLED"
  show ?thesis
  proof (cases short)
    case True
    have "u64toa_radix (drop_bit (nat (53 - e)) m) (of_nat R) = radix_digits R (unat (drop_bit (nat (53 - e)) m))"
      using u64toa_radix_val [of "of_nat R"] rd(1,2) u by (simp add: word_le_nat_alt)
    then have "dtoa_finite m e R n flags = Some (radix_digits R (unat (drop_bit (nat (53 - e)) m)))"
      using True free unfolding dtoa_finite_def Let_def short_def by simp
    then show ?thesis
      using small_int_value [OF nf] True numeral_value_digits [OF rd(1,2)] rounds_to_self [OF nf] by (simp add: short_def)
  next
    case False
    obtain P E mant where s: "free_search m e R r rs (1 + mul_log2_radix (e - 1) R) None (int (max_digits R)) = Some (P, E, mant)"
      "readable R r rs m e (P, E, mant)" using free_search_val [OF R nf refl] by blast
    have a: "mpb_ok (mpb_set_u64 mant)" "limbs_val (mpb_set_u64 mant) = unat mant" by (simp_all add: mpb_set_u64_val)
    define t where "t = dtoa_output (mpb_set_u64 mant) R r rs n flags P E"
    have "dtoa_finite m e R n flags = Some t"
      using False free s(1) unfolding dtoa_finite_def Let_def rr short_def max_digits_def t_def by auto
    moreover have "numeral_value R t = real (unat mant) * real R powi (E - P)"
      unfolding t_def using s(2) dtoa_output_value [OF R _ _ a(1), of E P n flags] a(2) by (simp add: readable_def)
    moreover have "rounds_to (real (unat mant) * real R powi (E - P)) (dbl m e)"
      using mul_pow_round_to_d_rounds [OF R a(1), of "E - P" m e] s(2) a(2) by (simp add: readable_def)
    ultimately show ?thesis by simp
  qed
qed

lemma dtoa_fixed_value:
  assumes R: "radix_ok R r rs" and nf: "normal_form m e" and n: "1 \<le> n" "n \<le> JS_DTOA_MAX_DIGITS"
    and fmt: "flags AND JS_DTOA_FORMAT_MASK \<noteq> JS_DTOA_FORMAT_FREE" "flags AND JS_DTOA_FORMAT_MASK \<noteq> JS_DTOA_FORMAT_FRAC"
  obtains s N k where "dtoa_finite m e R n flags = Some s" "numeral_value R s = real N * real R powi k"
    "R ^ (nat n - 1) \<le> N" "N < R ^ nat n" "\<bar>real N * real R powi k - dbl m e\<bar> \<le> real R powi k / 2"
proof -
  note rd = radix_okD [OF R]
  have rr: "ctz32 (of_nat R) = rs" "R div 2 ^ rs = r" using R by (simp_all add: radix_ok_def)
  define E0 where "E0 = 1 + mul_log2_radix (e - 1) R"
  obtain tmp E where f: "fixed_mant m e r rs n (fixed_max r rs n) E0 = Some (tmp, E)" "mpb_ok tmp"
    "R ^ (nat n - 1) \<le> limbs_val tmp" "limbs_val tmp < R ^ nat n"
    "\<bar>real (limbs_val tmp) - dbl m e * real R powi (n - E)\<bar> \<le> 1 / 2" "E = E0 \<or> E = E0 + 1"
    by (rule fixed_mant_val [OF R nf E0_def n(1)])
  have E: "\<bar>E\<bar> \<le> 100000" using f(6) start_bound [OF rd(1,2), of e] nf by (auto simp: normal_form_def E0_def)
  have "dtoa_finite m e R n flags = Some (dtoa_output tmp R r rs n flags n E)"
    unfolding dtoa_finite_def Let_def rr E0_def [symmetric] using fmt n f(1) by simp
  moreover note dtoa_output_value [OF R E n(1) f(2,4), of n flags]
  moreover have "\<bar>real (limbs_val tmp) * real R powi (E - n) - dbl m e\<bar> \<le> real R powi (E - n) / 2"
  proof -
    define w where "w = real R powi (E - n)"
    have w: "0 < w" using rd(1) by (simp add: w_def)
    have "real R powi (n - E) * w = 1" unfolding w_def using rd(1) by (simp flip: power_int_add)
    then have "(real (limbs_val tmp) - dbl m e * real R powi (n - E)) * w = real (limbs_val tmp) * w - dbl m e"
      by (metis (no_types, opaque_lifting) left_diff_distrib mult.assoc mult.right_neutral)
    moreover have "\<bar>(real (limbs_val tmp) - dbl m e * real R powi (n - E)) * w\<bar> \<le> 1 / 2 * w"
      unfolding abs_mult using w f(5) by (intro mult_mono) simp_all
    ultimately show ?thesis by (simp add: w_def)
  qed
  ultimately show thesis using that f(3,4) by blast
qed

text \<open>The format with a fixed number of digits after the dot rounds halves away from zero.\<close>

lemma round_div_half_up:
  assumes "0 < d"
  shows "int (round_div JS_RNDNA n d) = \<lfloor>real n / d + 1 / 2\<rfloor>"
proof -
  define q r where "q = n div d" and "r = n mod d"
  have n: "n = q * d + r" "r < d" using assms by (simp_all add: q_def r_def)
  define y where "y = real r / d"
  have x: "real n / d = q + y" using assms by (simp add: n(1) y_def field_simps)
  have "d \<le> 2 * r \<longleftrightarrow> real d \<le> real (2 * r)" by (simp only: of_nat_le_iff)
  then have y: "d \<le> 2 * r \<longleftrightarrow> 1 / 2 \<le> y" "y < 1" "0 \<le> y" using assms n(2) by (simp_all add: y_def field_simps)
  have "round_div JS_RNDNA n d = (if d \<le> 2 * r then q + 1 else q)"
    by (simp add: round_div_def Let_def q_def [symmetric] r_def [symmetric])
  then show ?thesis unfolding x y(1) using y(2,3) by (intro floor_unique [symmetric]) (simp_all split: if_splits)
qed

lemma mul_pow_round_half_up:
  assumes R: "radix_ok R r rs" and m: "m \<noteq> 0"
  shows "int (limbs_val (mul_pow_round m (e - 53) r rs k JS_RNDNA)) = \<lfloor>dbl m e * real R powi k + 1 / 2\<rfloor>"
proof -
  note rd = radix_okD [OF R]
  define n d where "n = unat m * 2 ^ nat (e - 53) * R ^ nat k" and "d = 2 ^ nat (- (e - 53)) * R ^ nat (- k)"
  have d: "0 < d" using rd(1) by (simp add: d_def)
  have "real n / real d = real (unat m) * ((2 :: real) ^ nat (e - 53) / 2 ^ nat (- (e - 53))) * (real R ^ nat k / real R ^ nat (- k))"
    by (simp add: n_def d_def)
  also have "\<dots> = dbl m e * real R powi k" using powi_frac [of 2 "e - 53"] powi_frac [of "real R" k] rd(1) by (simp only: dbl_def)
  finally show ?thesis
    using round_div_half_up [OF d, of n] mul_pow_round_val(1) [OF rd(3,4) m, of "e - 53" rs k JS_RNDNA, unfolded rd(5)]
    by (simp add: n_def d_def)
qed

lemma dbl_digits:
  assumes R: "2 \<le> R" "R \<le> 36" and nf: "normal_form m e" and D: "int D = max (1 + mul_log2_radix (e - 1) R + 1) 1"
  shows "2 * dbl m e < real R ^ D \<or> 2 < R \<and> dbl m e < 2 * real R ^ (D - 1)"
proof -
  define E where "E = 1 + mul_log2_radix (e - 1) R"
  have s: "2 powi (e - 1) < real R powi E" using nf by (intro start_exponent(2) [OF R _ _ E_def]) (simp_all add: normal_form_def)
  have D1: "E \<le> int (D - 1)" "1 \<le> D" using D by (simp_all add: E_def)
  have "real R powi E \<le> real R powi int (D - 1)" using D1(1) R(1) by (intro power_int_increasing) simp_all
  then have le: "real R powi E \<le> real R ^ (D - 1)" by simp
  have d: "dbl m e < 2 powi e" by (rule dbl_bounds(2) [OF nf])
  show ?thesis
  proof (cases "R = 2")
    case True
    then have "e \<le> E" using s by (simp add: powi2_less_iff)
    then have "(2 :: real) powi e \<le> 2 powi E" by (rule powi2_mono)
    then have "2 * dbl m e < 2 * 2 ^ (D - 1)" using d le True by simp
    also have "(2 :: real) * 2 ^ (D - 1) = 2 ^ D" using D1(2) by (simp flip: power_Suc)
    finally show ?thesis using True by simp
  next
    case False
    have "(2 :: real) powi e = 2 * 2 powi (e - 1)" using powi2_add [of 1 "e - 1"] by simp
    then show ?thesis using False R(1) s le d by simp
  qed
qed

lemma frac_fits:
  assumes R: "2 \<le> R" "R \<le> 36" and nf: "normal_form m e" and D: "int D = max (1 + mul_log2_radix (e - 1) R + 1) 1"
    and F: "int F = \<lfloor>dbl m e * real R ^ n + 1 / 2\<rfloor>"
  shows "F < R ^ (D + n)"
proof -
  define w where "w = real R ^ n"
  have w: "1 \<le> w" using R(1) by (simp add: w_def)
  have D1: "1 \<le> D" using D by simp
  have F': "real F \<le> dbl m e * w + 1 / 2" using F by (simp add: w_def) linarith
  from dbl_digits [OF R nf D] have "real F < real R ^ D * w"
  proof
    assume a: "2 * dbl m e < real R ^ D"
    have "1 \<le> real R ^ D" using R(1) by simp
    then have one: "1 \<le> real R ^ D * w" using w mult_mono [of 1 "real R ^ D" 1 w] by simp
    have "2 * dbl m e * w < real R ^ D * w" using a w by simp
    then show ?thesis using F' one by simp
  next
    assume a: "2 < R \<and> dbl m e < 2 * real R ^ (D - 1)"
    have "dbl m e * w < 2 * real R ^ (D - 1) * w" using a w by simp
    then have "real F < real (2 * R ^ (D - 1 + n)) + 1 / 2" using F' by (simp add: w_def power_add)
    then have "F \<le> 2 * R ^ (D - 1 + n)" by linarith
    also have "\<dots> < R * R ^ (D - 1 + n)" using a by simp
    also have "\<dots> = R ^ (D + n)" using D1 by (simp flip: power_Suc)
    finally show ?thesis by (simp add: w_def power_add flip: of_nat_power of_nat_mult)
  qed
  then show ?thesis by (simp add: w_def power_add flip: of_nat_power of_nat_mult)
qed

lemma radix_value_zero_Cons: "radix_value R (CHR ''0'' # s) = radix_value R s"
  by (simp add: radix_value_def digit_val_def)

lemma numeral_value_zero_Cons: "numeral_value R (CHR ''0'' # s) = numeral_value R s"
  using exp_char_not [of R] by (simp add: numeral_value_def text_value_def radix_value_zero_Cons)

lemma dtoa_frac_value:
  assumes R: "radix_ok R r rs" and nf: "normal_form m e" and n: "0 \<le> n" "n \<le> JS_DTOA_MAX_DIGITS"
    and fmt: "flags AND JS_DTOA_FORMAT_MASK = JS_DTOA_FORMAT_FRAC"
  shows "\<exists>s. dtoa_finite m e R n flags = Some s \<and>
    numeral_value R s = \<lfloor>dbl m e * real R powi n + 1 / 2\<rfloor> / real R powi n"
proof -
  note rd = radix_okD [OF R]
  have rr: "ctz32 (of_nat R) = rs" "R div 2 ^ rs = r" using R by (simp_all add: radix_ok_def)
  have m: "m \<noteq> 0" using nf by (auto simp: normal_form_def)
  define D where "D = nat (max (1 + mul_log2_radix (e - 1) R + 1) 1)"
  define t where "t = mul_pow_round m (e - 53) r rs n JS_RNDNA"
  have D: "int D = max (1 + mul_log2_radix (e - 1) R + 1) 1" by (simp add: D_def max_def)
  have t: "int (limbs_val t) = \<lfloor>dbl m e * real R ^ nat n + 1 / 2\<rfloor>" "mpb_ok t"
    using mul_pow_round_half_up [OF R m, of e n] mul_pow_round_near(2) [OF R m, of JS_RNDNA e n] n(1)
    by (simp_all add: t_def power_int_def)
  define q where "q = with_dot (fixed_digits R (D + nat n) (limbs_val t)) D"
  have o: "output_digits t R (D + nat n) D = q" unfolding q_def by (intro output_digits_val [OF rd(1,2) t(2)]) simp
  have N: "nat (max (1 + mul_log2_radix (e - 1) R + 1) 1 + n) = D + nat n" using n(1) by (simp add: D_def nat_add_distrib)
  define q' where "q' = (if q ! 0 = CHR ''0'' \<and> length q \<ge> 2 \<and> q ! 1 \<noteq> CHR ''.'' then tl q else q)"
  have "dtoa_finite m e R n flags = Some q'"
    unfolding dtoa_finite_def Let_def rr t_def [symmetric] N D_def [symmetric] o using fmt n
    by (simp add: q'_def JS_DTOA_FORMAT_FRAC_def JS_DTOA_FORMAT_FREE_def)
  moreover have "numeral_value R q' = numeral_value R q"
    unfolding q'_def using numeral_value_zero_Cons [of R "tl q"] by (cases q) auto
  moreover have "numeral_value R q = limbs_val t / real R ^ nat n"
  proof -
    note fd = fixed_digits_plain [OF rd(1,2), of "D + nat n" "limbs_val t"]
    have "exp_char R \<notin> set q" using fd(2) exp_char_not set_with_dot unfolding q_def by blast
    moreover have "text_value R q = limbs_val t / real R ^ nat n"
      using text_value_with_dot [OF fd(1), of D R] radix_value_fixed [OF rd(1,2)] frac_fits [OF rd(1,2) nf D t(1)] by (simp add: q_def)
    ultimately show ?thesis by (simp add: numeral_value_plain)
  qed
  moreover have "real (limbs_val t) = real_of_int \<lfloor>dbl m e * real R powi n + 1 / 2\<rfloor>"
    using t(1) n(1) by (simp add: power_int_def)
  ultimately show ?thesis using n(1) by (simp add: power_int_def)
qed

subsection \<open>The printer\<close>

text \<open>The numbers of digits the printer accepts for a format.\<close>

definition digits_ok :: "u32 \<Rightarrow> int \<Rightarrow> bool" where
  "digits_ok flags n \<longleftrightarrow>
     (let fmt = flags AND JS_DTOA_FORMAT_MASK
      in if fmt = JS_DTOA_FORMAT_FREE then True
         else if fmt = JS_DTOA_FORMAT_FRAC then 0 \<le> n \<and> n \<le> JS_DTOA_MAX_DIGITS
         else 1 \<le> n \<and> n \<le> JS_DTOA_MAX_DIGITS)"

lemma radix_okI: "2 \<le> R \<Longrightarrow> R \<le> 36 \<Longrightarrow> radix_ok R (R div 2 ^ ctz32 (of_nat R)) (ctz32 (of_nat R))"
  by (simp add: radix_ok_def)

lemma finite_cases:
  assumes "f64_finite a" "\<not> f64_zero a"
  obtains m e where "normal_form m e" "dbl m e = f64_abs a"
    "\<forall>radix n flags. js_dtoa a radix n flags = map_option ((@) (if f64_sign a then ''-'' else '''')) (dtoa_finite m e radix n flags)"
proof -
  obtain e m where s: "f64_split a = (e, m)" by fastforce
  from f64_split_normal [OF assms] s have "normal_form m e" "dbl m e = f64_abs a" by simp_all
  then show thesis using that js_dtoa_split [OF assms s] by blast
qed

text \<open>C33. The printer returns: for every double, every radix from 2 to 36 and every number of digits
  that the format allows, its loops end and no assertion fails.\<close>

theorem js_dtoa_returns:
  assumes "2 \<le> radix" "radix \<le> 36" and "digits_ok flags n_digits"
  shows "\<exists>s. js_dtoa a radix n_digits flags = Some s"
proof (cases "f64_finite a \<and> \<not> f64_zero a")
  case True
  then obtain m e where me: "normal_form m e"
    "\<forall>radix n flags. js_dtoa a radix n flags = map_option ((@) (if f64_sign a then ''-'' else '''')) (dtoa_finite m e radix n flags)"
    using finite_cases by metis
  note R = radix_okI [OF assms(1,2)]
  have "\<exists>s. dtoa_finite m e radix n_digits flags = Some s"
    using dtoa_free_value [OF R me(1)] dtoa_frac_value [OF R me(1)] dtoa_fixed_value [OF R me(1), of n_digits flags] assms(3)
    unfolding digits_ok_def Let_def by metis
  then show ?thesis using me(2) by auto
next
  case False
  then show ?thesis by (auto simp: js_dtoa_def Let_def f64_finite_def f64_zero_def)
qed

theorem js_dtoa_returns_witness: "\<exists>s. js_dtoa 0x3fb999999999999a 10 0 JS_DTOA_FORMAT_FREE = Some s"
  by (rule js_dtoa_returns) (simp_all add: digits_ok_def dtoa_flags)

text \<open>Printing in the free format loses nothing: the text of a finite nonzero double, read as a
  numeral of the radix, rounds to the double again.\<close>

theorem js_dtoa_round_trip:
  assumes "2 \<le> radix" "radix \<le> 36" and "flags AND JS_DTOA_FORMAT_MASK = JS_DTOA_FORMAT_FREE"
    and "f64_finite a" "\<not> f64_zero a"
  shows "\<exists>s. js_dtoa a radix n_digits flags = Some ((if f64_sign a then ''-'' else '''') @ s) \<and>
    rounds_to (numeral_value radix s) (f64_abs a)"
proof -
  obtain m e where me: "normal_form m e" "dbl m e = f64_abs a"
    "\<forall>radix n flags. js_dtoa a radix n flags = map_option ((@) (if f64_sign a then ''-'' else '''')) (dtoa_finite m e radix n flags)"
    by (rule finite_cases [OF assms(4,5)])
  from dtoa_free_value [OF radix_okI [OF assms(1,2)] me(1) assms(3), of n_digits] me(2,3) show ?thesis by auto
qed

theorem js_dtoa_round_trip_witness:
  "\<exists>s. js_dtoa 0x3ff8000000000000 10 0 JS_DTOA_FORMAT_FREE = Some s \<and> rounds_to (numeral_value 10 s) (f64_abs 0x3ff8000000000000)"
proof -
  have "f64_finite 0x3ff8000000000000" "\<not> f64_zero 0x3ff8000000000000" "\<not> f64_sign 0x3ff8000000000000" by code_simp+
  from js_dtoa_round_trip [OF _ _ _ this(1,2), of 10 JS_DTOA_FORMAT_FREE 0] this(3) show ?thesis by (simp add: dtoa_flags)
qed

text \<open>C34. \<^verbatim>\<open>toFixed\<close>: with a fixed number of digits after the dot the text stands for the multiple of
  \<open>radix\<^sup>-\<^sup>n\<close> nearest to the number, halves rounded away from zero.\<close>

theorem js_dtoa_frac_exact:
  assumes "2 \<le> radix" "radix \<le> 36" and "flags AND JS_DTOA_FORMAT_MASK = JS_DTOA_FORMAT_FRAC"
    and "0 \<le> n" "n \<le> JS_DTOA_MAX_DIGITS" and "f64_finite a" "\<not> f64_zero a"
  shows "\<exists>s. js_dtoa a radix n flags = Some ((if f64_sign a then ''-'' else '''') @ s) \<and>
    numeral_value radix s = \<lfloor>f64_abs a * real radix powi n + 1 / 2\<rfloor> / real radix powi n"
proof -
  obtain m e where me: "normal_form m e" "dbl m e = f64_abs a"
    "\<forall>radix n flags. js_dtoa a radix n flags = map_option ((@) (if f64_sign a then ''-'' else '''')) (dtoa_finite m e radix n flags)"
    by (rule finite_cases [OF assms(6,7)])
  from dtoa_frac_value [OF radix_okI [OF assms(1,2)] me(1) assms(4,5,3)] me(2,3) show ?thesis by auto
qed

theorem js_dtoa_frac_exact_witness:
  "\<exists>s. js_dtoa 0x3ff8000000000000 10 0 JS_DTOA_FORMAT_FRAC = Some s \<and> numeral_value 10 s = 2"
proof -
  have "f64_finite 0x3ff8000000000000" "\<not> f64_zero 0x3ff8000000000000" "\<not> f64_sign 0x3ff8000000000000"
    "f64_exp 0x3ff8000000000000 = 1023" "f64_mant 0x3ff8000000000000 = 0x8000000000000" by code_simp+
  note f = this
  from f have "f64_abs 0x3ff8000000000000 = 3 / 2" by (simp add: f64_abs_def power_int_def power_one_over)
  then have "\<lfloor>f64_abs 0x3ff8000000000000 + 1 / 2\<rfloor> = 2" by (simp only:) simp
  then show ?thesis
    using js_dtoa_frac_exact [of 10 JS_DTOA_FORMAT_FRAC 0 "0x3ff8000000000000"] f(1-3) by (simp add: dtoa_flags)
qed

text \<open>\<^verbatim>\<open>toPrecision\<close> and \<^verbatim>\<open>toExponential\<close>: with a fixed number \<open>n\<close> of significant digits the text
  stands for a number of exactly \<open>n\<close> digits, scaled by a power of the radix, that is within half a
  unit of its last digit.\<close>

theorem js_dtoa_fixed_near:
  assumes "2 \<le> radix" "radix \<le> 36" and "flags AND JS_DTOA_FORMAT_MASK = JS_DTOA_FORMAT_FIXED"
    and "1 \<le> n" "n \<le> JS_DTOA_MAX_DIGITS" and "f64_finite a" "\<not> f64_zero a"
  shows "\<exists>s N k. js_dtoa a radix n flags = Some ((if f64_sign a then ''-'' else '''') @ s) \<and>
    numeral_value radix s = real N * real radix powi k \<and> radix ^ (nat n - 1) \<le> N \<and> N < radix ^ nat n \<and>
    \<bar>numeral_value radix s - f64_abs a\<bar> \<le> real radix powi k / 2"
proof -
  obtain m e where me: "normal_form m e" "dbl m e = f64_abs a"
    "\<forall>radix n flags. js_dtoa a radix n flags = map_option ((@) (if f64_sign a then ''-'' else '''')) (dtoa_finite m e radix n flags)"
    by (rule finite_cases [OF assms(6,7)])
  have f: "flags AND JS_DTOA_FORMAT_MASK \<noteq> JS_DTOA_FORMAT_FREE" "flags AND JS_DTOA_FORMAT_MASK \<noteq> JS_DTOA_FORMAT_FRAC"
    unfolding assms(3) by (simp_all add: dtoa_flags)
  obtain s N k where "dtoa_finite m e radix n flags = Some s" "numeral_value radix s = real N * real radix powi k"
    "radix ^ (nat n - 1) \<le> N" "N < radix ^ nat n" "\<bar>real N * real radix powi k - dbl m e\<bar> \<le> real radix powi k / 2"
    by (rule dtoa_fixed_value [OF radix_okI [OF assms(1,2)] me(1) assms(4,5) f])
  then show ?thesis using me(2,3) by auto
qed

theorem js_dtoa_fixed_near_witness:
  "\<exists>s N k. js_dtoa 0x3ff8000000000000 10 3 JS_DTOA_FORMAT_FIXED = Some s \<and> numeral_value 10 s = real N * 10 powi k \<and>
    100 \<le> N \<and> N < 1000 \<and> \<bar>numeral_value 10 s - f64_abs 0x3ff8000000000000\<bar> \<le> 10 powi k / 2"
proof -
  have "f64_finite 0x3ff8000000000000" "\<not> f64_zero 0x3ff8000000000000" "\<not> f64_sign 0x3ff8000000000000" by code_simp+
  then show ?thesis
    using js_dtoa_fixed_near [of 10 JS_DTOA_FORMAT_FIXED 3 "0x3ff8000000000000"] by (simp add: dtoa_flags)
qed

end
