(* ===== verification/Atod.thy ===== *)
theory Atod
  imports Dtoa_Correct Cutils_Strings "HOL-Library.Monad_Syntax"
begin

text \<open>
  Reading of numbers, \<^verbatim>\<open>js_atod\<close> and its helpers in \<^verbatim>\<open>dtoa.c\<close>. A pointer into the text is the rest of
  the text, so that \<^verbatim>\<open>p[0]\<close> is its first character, the terminating zero when nothing is left, and
  \<^verbatim>\<open>p++\<close> drops one. \<^verbatim>\<open>sep\<close>, which is the underscore or the impossible character 256, is an optional
  character. The result is \<open>None\<close> when the computation of the exponent leaves the range of \<^verbatim>\<open>int\<close>.
\<close>

subsection \<open>Characters and tables\<close>

definition at0 :: "string \<Rightarrow> char" where
  "at0 p = (case p of [] \<Rightarrow> CHR 0x00 | c # q \<Rightarrow> c)"

abbreviation at1 :: "string \<Rightarrow> char" where
  "at1 p \<equiv> at0 (drop 1 p)"

definition in_range :: "char \<Rightarrow> char \<Rightarrow> char \<Rightarrow> bool" where
  "in_range a b c \<longleftrightarrow> of_char a \<le> (of_char c :: nat) \<and> of_char c \<le> (of_char b :: nat)"

definition to_digit :: "char \<Rightarrow> nat" where
  "to_digit c =
     (if in_range (CHR ''0'') (CHR ''9'') c then of_char c - 48
      else if in_range (CHR ''A'') (CHR ''Z'') c then of_char c - 65 + 10
      else if in_range (CHR ''a'') (CHR ''z'') c then of_char c - 97 + 10
      else 36)"

definition JS_ATOD_INT_ONLY :: u32 where "JS_ATOD_INT_ONLY = 1"
definition JS_ATOD_ACCEPT_BIN_OCT :: u32 where "JS_ATOD_ACCEPT_BIN_OCT = 2"
definition JS_ATOD_ACCEPT_LEGACY_OCTAL :: u32 where "JS_ATOD_ACCEPT_LEGACY_OCTAL = 4"
definition JS_ATOD_ACCEPT_UNDERSCORES :: u32 where "JS_ATOD_ACCEPT_UNDERSCORES = 8"

lemmas atod_flags = JS_ATOD_INT_ONLY_def JS_ATOD_ACCEPT_BIN_OCT_def JS_ATOD_ACCEPT_LEGACY_OCTAL_def
  JS_ATOD_ACCEPT_UNDERSCORES_def

definition atod_max_digits_table :: "nat list" where
  "atod_max_digits_table =
     [64, 80, 32, 55, 49, 45, 21, 40, 38, 37, 35, 34, 33, 32, 16, 31, 30, 30, 29, 29, 28, 28, 27, 27,
      27, 26, 26, 26, 26, 25, 12, 25, 25, 24, 24]"

definition max_exponent :: "int list" where
  "max_exponent =
     [1024, 647, 512, 442, 397, 365, 342, 324,
      309, 297, 286, 277, 269, 263, 256, 251,
      246, 242, 237, 234, 230, 227, 224, 221,
      218, 216, 214, 211, 209, 207, 205, 203,
      202, 200, 199]"

definition min_exponent :: "int list" where
  "min_exponent =
     [-1075, -679, -538, -463, -416, -383, -359, -340,
      -324, -311, -300, -291, -283, -276, -269, -263,
      -258, -254, -249, -245, -242, -238, -235, -232,
      -229, -227, -224, -222, -220, -217, -215, -214,
      -212, -210, -208]"

subsection \<open>Sign and prefix\<close>

definition atod_sign :: "string \<Rightarrow> bool \<times> string" where
  "atod_sign str =
     (if at0 str = CHR ''+'' then (False, drop 1 str)
      else if at0 str = CHR ''-'' then (True, drop 1 str)
      else (False, str))"

datatype prefix_result = Prefix_Fail string | Prefix_Infinity string | Prefix_Go string nat "char option"

definition octal_end :: "string \<Rightarrow> char" where
  "octal_end p = at0 (dropWhile (in_range (CHR ''0'') (CHR ''7'')) (drop 1 p))"

definition atod_prefix :: "string \<Rightarrow> nat \<Rightarrow> u32 \<Rightarrow> char option \<Rightarrow> prefix_result" where
  "atod_prefix p radix flags sep =
     (if at0 p = CHR ''0'' then
        let found = (\<lambda>p radix sep. if to_digit (at0 p) \<ge> radix then Prefix_Fail p else Prefix_Go p radix sep)
        in if (at1 p = CHR ''x'' \<or> at1 p = CHR ''X'') \<and> (radix = 0 \<or> radix = 16) then
             found (drop 2 p) 16 sep
           else if (at1 p = CHR ''o'' \<or> at1 p = CHR ''O'') \<and> radix = 0 \<and> flags AND JS_ATOD_ACCEPT_BIN_OCT \<noteq> 0 then
             found (drop 2 p) 8 sep
           else if (at1 p = CHR ''b'' \<or> at1 p = CHR ''B'') \<and> radix = 0 \<and> flags AND JS_ATOD_ACCEPT_BIN_OCT \<noteq> 0 then
             found (drop 2 p) 2 sep
           else if in_range (CHR ''0'') (CHR ''9'') (at1 p) \<and> radix = 0 \<and> flags AND JS_ATOD_ACCEPT_LEGACY_OCTAL \<noteq> 0 then
             if octal_end p = CHR ''8'' \<or> octal_end p = CHR ''9'' then Prefix_Go p radix None
             else found (drop 1 p) 8 None
           else Prefix_Go p radix sep
      else if flags AND JS_ATOD_INT_ONLY = 0 then
        (case strstart p ''Infinity'' of Some q \<Rightarrow> Prefix_Infinity q | None \<Rightarrow> Prefix_Go p radix sep)
      else Prefix_Go p radix sep)"

subsection \<open>Digits\<close>

definition mpb_mul1_base :: "mpb \<Rightarrow> limb \<Rightarrow> limb \<Rightarrow> mpb" where
  "mpb_mul1_base r radix_base a =
     (if r ! 0 = 0 \<and> length r = 1 then [a]
      else if radix_base = 0 then mpb_renorm (a # r)
      else let (tab, h) = mp_mul1 r radix_base a in mpb_renorm (tab @ [h]))"

datatype dot_result = Dot_Fail | Dot_Break | Dot_Go string int

definition dot_step :: "string \<Rightarrow> nat \<Rightarrow> u32 \<Rightarrow> char option \<Rightarrow> string \<Rightarrow> int \<Rightarrow> int \<Rightarrow> dot_result" where
  "dot_step p_start radix flags sep p pos dot_pos =
     (if at0 p = CHR ''.'' \<and> (length p < length p_start \<or> to_digit (at1 p) < radix) \<and> flags AND JS_ATOD_INT_ONLY = 0 then
        if sep = Some (at0 p) then Dot_Fail
        else if dot_pos \<ge> 0 then Dot_Break
        else Dot_Go (drop 1 p) pos
      else Dot_Go p dot_pos)"

lemma dot_step_shorter: "dot_step p_start radix flags sep p pos dot_pos = Dot_Go q d \<Longrightarrow> length q \<le> length p"
  by (auto simp: dot_step_def split: if_splits)

text \<open>Leading zeros: the rest of the text, the position and the position of the dot; \<open>Inl\<close> is the label \<^verbatim>\<open>fail\<close>.\<close>

function skip_zeros ::
  "string \<Rightarrow> nat \<Rightarrow> u32 \<Rightarrow> char option \<Rightarrow> string \<Rightarrow> int \<Rightarrow> int \<Rightarrow> string + string \<times> int \<times> int" where
  "skip_zeros p_start radix flags sep p pos dot_pos =
     (case dot_step p_start radix flags sep p pos dot_pos of
        Dot_Fail \<Rightarrow> Inl p
      | Dot_Break \<Rightarrow> Inr (p, pos, dot_pos)
      | Dot_Go p dot_pos \<Rightarrow>
          let p = (if sep = Some (at0 p) \<and> length p < length p_start \<and> at1 p = CHR ''0'' then drop 1 p else p)
          in if at0 p \<noteq> CHR ''0'' then Inr (p, pos, dot_pos)
             else skip_zeros p_start radix flags sep (drop 1 p) (pos + 1) dot_pos)"
  by pat_completeness auto
termination
proof (relation "measure (\<lambda>(p_start, radix, flags, sep, p, pos, dot_pos). length p)", goal_cases)
  case (2 p_start radix flags sep p pos dot_pos q d p')
  have "length q \<le> length p" using 2(1) by (rule dot_step_shorter)
  moreover have "length p' \<le> length q" "p' \<noteq> []" using 2(2,3) by (auto simp: at0_def split: if_splits)
  ultimately show ?case by (cases p') auto
qed simp

record digit_acc =
  tmp0 :: mpb
  cur_limb :: limb
  limb_digit_count :: nat
  digit_count :: nat
  extra_digits :: limb

definition add_digit :: "nat \<Rightarrow> digit_acc \<Rightarrow> nat \<Rightarrow> digit_acc" where
  "add_digit radix acc c =
     (if digit_count acc < atod_max_digits_table ! (radix - 2) then
        let cur = cur_limb acc * of_nat radix + of_nat c;
            cnt = limb_digit_count acc + 1;
            acc = (if cnt = digits_per_limb_table ! (radix - 2)
                   then acc\<lparr>tmp0 := mpb_mul1_base (tmp0 acc) (radix_base_table ! (radix - 2)) cur,
                            cur_limb := 0, limb_digit_count := 0\<rparr>
                   else acc\<lparr>cur_limb := cur, limb_digit_count := cnt\<rparr>)
        in acc\<lparr>digit_count := digit_count acc + 1\<rparr>
      else acc\<lparr>extra_digits := extra_digits acc OR of_nat c\<rparr>)"

text \<open>The terminating zero is no digit in any radix; the test of the empty rest makes the loop total.\<close>

function take_digits ::
  "string \<Rightarrow> nat \<Rightarrow> u32 \<Rightarrow> char option \<Rightarrow> string \<Rightarrow> int \<Rightarrow> int \<Rightarrow> digit_acc \<Rightarrow> string + string \<times> int \<times> int \<times> digit_acc" where
  "take_digits p_start radix flags sep p pos dot_pos acc =
     (case dot_step p_start radix flags sep p pos dot_pos of
        Dot_Fail \<Rightarrow> Inl p
      | Dot_Break \<Rightarrow> Inr (p, pos, dot_pos, acc)
      | Dot_Go p dot_pos \<Rightarrow>
          let p = (if sep = Some (at0 p) \<and> length p < length p_start \<and> to_digit (at1 p) < radix then drop 1 p else p);
              c = to_digit (at0 p)
          in if c \<ge> radix \<or> p = [] then Inr (p, pos, dot_pos, acc)
             else take_digits p_start radix flags sep (drop 1 p) (pos + 1) dot_pos (add_digit radix acc c))"
  by pat_completeness auto
termination
proof (relation "measure (\<lambda>(p_start, radix, flags, sep, p, pos, dot_pos, acc). length p)", goal_cases)
  case (2 p_start radix flags sep p pos dot_pos acc q d p' c)
  have "length q \<le> length p" using 2(1) by (rule dot_step_shorter)
  moreover have "length p' \<le> length q" "p' \<noteq> []" using 2(2,3,4) by (auto split: if_splits)
  ultimately show ?case by (cases p') auto
qed simp

declare skip_zeros.simps [simp del] take_digits.simps [simp del]

subsection \<open>Exponent\<close>

function exp_digits :: "char option \<Rightarrow> string \<Rightarrow> int \<Rightarrow> bool \<Rightarrow> string \<times> int \<times> bool" where
  "exp_digits sep p expn expn_overflow =
     (let p = (if sep = Some (at0 p) \<and> to_digit (at1 p) < 10 then drop 1 p else p);
          c = to_digit (at0 p)
      in if c \<ge> 10 \<or> p = [] then (p, expn, expn_overflow)
         else if expn_overflow then exp_digits sep (drop 1 p) expn expn_overflow
         else if expn > (2147483647 - 2 - 9) div 10 then exp_digits sep (drop 1 p) expn True
         else exp_digits sep (drop 1 p) (expn * 10 + int c) expn_overflow)"
  by pat_completeness auto
termination
  by (relation "measure (\<lambda>(sep, p, expn, expn_overflow). length p)") (auto split: if_splits)

declare exp_digits.simps [simp del]

text \<open>The result: the rest, the exponent, whether it is too large, its sign, and whether it is binary.\<close>

definition atod_exponent ::
  "nat \<Rightarrow> nat \<Rightarrow> u32 \<Rightarrow> char option \<Rightarrow> string \<Rightarrow> string \<Rightarrow> string + string \<times> int \<times> bool \<times> bool \<times> bool" where
  "atod_exponent radix radix_bits flags sep p_start p =
     (if flags AND JS_ATOD_INT_ONLY = 0 \<and>
         (radix = 10 \<and> (at0 p = CHR ''e'' \<or> at0 p = CHR ''E'') \<or>
          radix \<noteq> 10 \<and> (at0 p = CHR ''@'' \<or>
                         radix_bits \<ge> 1 \<and> radix_bits \<le> 4 \<and> (at0 p = CHR ''p'' \<or> at0 p = CHR ''P''))) \<and>
         length p < length p_start
      then
        let is_bin_exp = (at0 p = CHR ''p'' \<or> at0 p = CHR ''P'');
            p = drop 1 p;
            (p, exp_is_neg) = (if at0 p = CHR ''+'' then (drop 1 p, False)
                               else if at0 p = CHR ''-'' then (drop 1 p, True) else (p, False));
            c = to_digit (at0 p)
        in if c \<ge> 10 then Inl p
           else let (p, expn, expn_overflow) = exp_digits sep (drop 1 p) (int c) False
                in Inr (p, if exp_is_neg then - expn else expn, expn_overflow, exp_is_neg, is_bin_exp)
      else Inr (p, 0, False, False, False))"

subsection \<open>Rounding and packing\<close>

definition f64_inf :: u64 where
  "f64_inf = push_bit 52 0x7ff"

text \<open>The results of \<^verbatim>\<open>int\<close> arithmetic that are defined.\<close>

definition i32 :: "int \<Rightarrow> int option" where
  "i32 x = (if - (2 ^ 31) \<le> x \<and> x < 2 ^ 31 then Some x else None)"

definition f64_pack :: "u64 \<Rightarrow> int \<Rightarrow> u64" where
  "f64_pack m e =
     (if m = 0 then 0
      else if e > 1024 then f64_inf
      else if e < -1073 then 0
      else if e < -1021 then drop_bit (nat (- e - 1021)) m
      else push_bit 52 (of_int (e + 1022)) OR (m AND (push_bit 52 1 - 1)))"

definition atod_round :: "nat \<Rightarrow> nat \<Rightarrow> nat \<Rightarrow> nat \<Rightarrow> mpb \<Rightarrow> int \<Rightarrow> int \<Rightarrow> nat \<Rightarrow> bool \<Rightarrow> u64 option" where
  "atod_round radix radix_bits radix1 radix_shift tmp expn expn_offset digits is_bin_exp =
     (if radix_bits \<noteq> 0 then
        do {
          expn \<leftarrow> (if is_bin_exp then Some expn else i32 (expn * int radix_bits));
          off \<leftarrow> i32 (expn_offset * int radix_bits);
          expn \<leftarrow> i32 (expn - off);
          expn1 \<leftarrow> i32 (expn + int digits * int radix_bits);
          Some (if expn1 \<ge> 1024 + int radix_bits then f64_inf
                else if expn1 \<le> -1075 then 0
                else case round_to_d tmp (- expn) JS_RNDN of (m, e) \<Rightarrow> f64_pack m e)
        }
      else
        do {
          expn \<leftarrow> i32 (expn - expn_offset);
          expn1 \<leftarrow> i32 (expn + int digits);
          Some (if expn1 \<ge> max_exponent ! (radix - 2) + 1 then f64_inf
                else if expn1 \<le> min_exponent ! (radix - 2) then 0
                else case mul_pow_round_to_d tmp radix1 radix_shift expn JS_RNDN of (m, e) \<Rightarrow> f64_pack m e)
        })"

subsection \<open>The reader\<close>

text \<open>
  After the prefix: the digits, the exponent, the number. \<open>None\<close> in the first component of the
  result is the value \<^verbatim>\<open>NAN\<close> of the label \<^verbatim>\<open>fail\<close>; the second is what \<^verbatim>\<open>pnext\<close> receives.
\<close>

definition atod_flush :: "nat \<Rightarrow> digit_acc \<Rightarrow> mpb" where
  "atod_flush radix acc =
     (if limb_digit_count acc \<noteq> 0
      then mpb_mul1_base (tmp0 acc) (ucast (pow_ui (of_nat radix) (of_nat (limb_digit_count acc)))) (cur_limb acc)
      else tmp0 acc)"

definition atod_number :: "string \<Rightarrow> string \<Rightarrow> nat \<Rightarrow> u32 \<Rightarrow> char option \<Rightarrow> (u64 option \<times> string) option" where
  "atod_number p_start p radix flags sep =
     (let radix_shift = ctz32 (of_nat radix);
          radix1 = radix div 2 ^ radix_shift;
          radix_bits = (if radix1 = 1 then radix_shift else 0)
      in case skip_zeros p_start radix flags sep p 0 (-1) of
           Inl p \<Rightarrow> Some (None, p)
         | Inr (p, sig_pos, dot_pos) \<Rightarrow>
             (case take_digits p_start radix flags sep p sig_pos dot_pos
                     \<lparr>tmp0 = [0], cur_limb = 0, limb_digit_count = 0, digit_count = 0, extra_digits = 0\<rparr> of
                Inl p \<Rightarrow> Some (None, p)
              | Inr (p, pos, dot_pos, acc) \<Rightarrow>
                  let tmp = atod_flush radix acc;
                      is_zero = (digit_count acc = 0);
                      dot_pos = (if dot_pos < 0 then pos else dot_pos);
                      expn_offset = (if is_zero then 0 else sig_pos + int (digit_count acc) - dot_pos);
                      tmp = (if radix_bits \<noteq> 0 \<and> extra_digits acc \<noteq> 0 then tmp[0 := tmp ! 0 OR 1] else tmp)
                  in (case atod_exponent radix radix_bits flags sep p_start p of
                        Inl p \<Rightarrow> Some (None, p)
                      | Inr (p, expn, expn_overflow, exp_is_neg, is_bin_exp) \<Rightarrow>
                          if \<not> is_zero \<and> expn_overflow then Some (Some (if exp_is_neg then 0 else f64_inf), p)
                          else if length p = length p_start then Some (None, p)
                          else if is_zero then Some (Some 0, p)
                          else map_option (\<lambda>a. (Some a, p))
                                 (atod_round radix radix_bits radix1 radix_shift tmp expn expn_offset (digit_count acc) is_bin_exp))))"

definition js_atod :: "string \<Rightarrow> nat \<Rightarrow> u32 \<Rightarrow> (u64 option \<times> string) option" where
  "js_atod str radix flags =
     (let sep = (if flags AND JS_ATOD_ACCEPT_UNDERSCORES \<noteq> 0 then Some (CHR ''_'') else None);
          (is_neg, p_start) = atod_sign str;
          with_sign = (\<lambda>a. a OR push_bit 63 (if is_neg then 1 else 0))
      in case atod_prefix p_start radix flags sep of
           Prefix_Fail p \<Rightarrow> Some (None, p)
         | Prefix_Infinity p \<Rightarrow> Some (Some (with_sign f64_inf), p)
         | Prefix_Go p radix sep \<Rightarrow>
             map_option (map_prod (map_option with_sign) id)
               (atod_number p_start p (if radix = 0 then 10 else radix) flags sep))"

end
