(* ===== verification/Atod_Correct.thy ===== *)
theory Atod_Correct
  imports Atod
begin

text \<open>
  What \<^verbatim>\<open>js_atod\<close> reads: the accumulation of digits in limbs, the scan of a numeral, the rounding
  of its number to a float64, and the round trip with the printer.
\<close>

subsection \<open>Accumulating digits\<close>

lemma mpb_mul1_base_val:
  assumes "mpb_ok r"
  shows "limbs_val (mpb_mul1_base r b a) = limbs_val r * (if b = 0 then 2 ^ 32 else unat b) + unat a"
    and "mpb_ok (mpb_mul1_base r b a)"
proof -
  obtain tab h where t: "mp_mul1 r b a = (tab, h)" by fastforce
  have v: "length tab = length r" "limbs_val tab + 2 ^ (32 * length r) * unat h = limbs_val r * unat b + unat a"
    using mp_mul1_val [OF t] by simp_all
  have z: "limbs_val r = 0" if "r ! 0 = 0" "length r = 1" using that by (cases r) auto
  show "limbs_val (mpb_mul1_base r b a) = limbs_val r * (if b = 0 then 2 ^ 32 else unat b) + unat a"
    using z v by (simp add: mpb_mul1_base_def t limbs_val_append)
  show "mpb_ok (mpb_mul1_base r b a)"
    by (simp add: mpb_mul1_base_def t mpb_renorm_ok) (simp add: mpb_ok_def)
qed

definition horner :: "nat \<Rightarrow> nat list \<Rightarrow> nat" where
  "horner R ds = foldl (\<lambda>v d. v * R + d) 0 ds"

lemma horner_snoc [simp]: "horner R (ds @ [d]) = horner R ds * R + d"
  by (simp add: horner_def)

lemma horner_Nil [simp]: "horner R [] = 0"
  by (simp add: horner_def)

lemma horner_append: "horner R (xs @ ys) = horner R xs * R ^ length ys + horner R ys"
proof (induction ys rule: rev_induct)
  case (snoc y ys)
  then show ?case unfolding append_assoc [symmetric] horner_snoc by (simp add: algebra_simps)
qed simp

abbreviation digit_limit :: "nat \<Rightarrow> nat" where
  "digit_limit R \<equiv> atod_max_digits_table ! (R - 2)"

text \<open>The accumulator after the digits \<open>ds\<close>.\<close>

definition acc_inv :: "nat \<Rightarrow> nat list \<Rightarrow> digit_acc \<Rightarrow> bool" where
  "acc_inv R ds acc \<longleftrightarrow>
     mpb_ok (tmp0 acc) \<and> limb_digit_count acc < digits_per_limb_table ! (R - 2) \<and>
     unat (cur_limb acc) < R ^ limb_digit_count acc \<and>
     limbs_val (tmp0 acc) * R ^ limb_digit_count acc + unat (cur_limb acc) = horner R (take (digit_limit R) ds) \<and>
     digit_count acc = min (length ds) (digit_limit R) \<and>
     (extra_digits acc = 0 \<longleftrightarrow> (\<forall>d\<in>set (drop (digit_limit R) ds). d = 0))"

definition acc_empty :: digit_acc where
  "acc_empty = \<lparr>tmp0 = [0], cur_limb = 0, limb_digit_count = 0, digit_count = 0, extra_digits = 0\<rparr>"

lemma acc_inv_empty:
  assumes "2 \<le> R" "R \<le> 36"
  shows "acc_inv R [] acc_empty"
  using radix_table(1) [OF assms] by (simp add: acc_inv_def acc_empty_def mpb_ok_def)

lemma radix_power_limb:
  assumes "2 \<le> R" "R \<le> 36" "k \<le> digits_per_limb_table ! (R - 2)"
  shows "R ^ k \<le> 2 ^ 32" and "k < digits_per_limb_table ! (R - 2) \<Longrightarrow> R ^ k < 2 ^ 32"
proof -
  define d where "d = digits_per_limb_table ! (R - 2)"
  have d: "R ^ d \<le> 2 ^ 32"
    using radix_table(3,4) [OF assms(1,2)] limb_bound [of "radix_base_table ! (R - 2)"]
    by (cases "R \<in> {2, 4, 16}") (simp_all add: d_def)
  have "R ^ k \<le> R ^ d" using assms by (intro power_increasing) (simp_all add: d_def)
  then show "R ^ k \<le> 2 ^ 32" using d by simp
  assume "k < digits_per_limb_table ! (R - 2)"
  then have "R ^ k < R ^ d" using assms(1) by (intro power_strict_increasing) (simp_all add: d_def)
  then show "R ^ k < 2 ^ 32" using d by simp
qed

lemma add_digit_inv:
  assumes R: "2 \<le> R" "R \<le> 36" and c: "c < R" and inv: "acc_inv R ds acc"
  shows "acc_inv R (ds @ [c]) (add_digit R acc c)"
proof -
  define L k K where "L = digits_per_limb_table ! (R - 2)" and "k = limb_digit_count acc" and "K = digit_limit R"
  have i: "mpb_ok (tmp0 acc)" "k < L" "unat (cur_limb acc) < R ^ k"
    "limbs_val (tmp0 acc) * R ^ k + unat (cur_limb acc) = horner R (take K ds)"
    "digit_count acc = min (length ds) K" "extra_digits acc = 0 \<longleftrightarrow> (\<forall>d\<in>set (drop K ds). d = 0)"
    using inv by (simp_all add: acc_inv_def L_def k_def K_def)
  have uR: "unat (of_nat R :: limb) = R" "unat (of_nat c :: limb) = c" using R c by (simp_all add: unat_of_nat_id)
  show ?thesis
  proof (cases "digit_count acc < K")
    case True
    then have l: "length ds < K" "take K (ds @ [c]) = ds @ [c]" "take K ds = ds" "drop K (ds @ [c]) = []" using i(5) by auto
    define cur where "cur = cur_limb acc * of_nat R + of_nat c"
    have "unat (cur_limb acc) * R + c < R ^ k * R"
    proof -
      have "(unat (cur_limb acc) + 1) * R \<le> R ^ k * R" using i(3) by (intro mult_le_mono1) simp
      then show ?thesis using c by (simp add: algebra_simps)
    qed
    then have b: "unat (cur_limb acc) * R + c < R ^ Suc k" by (simp add: mult.commute)
    moreover have "R ^ Suc k \<le> 2 ^ 32" using radix_power_limb(1) [OF R, of "Suc k"] i(2) by (simp add: L_def)
    ultimately have "unat (cur_limb acc) * R + c < 2 ^ 32" by linarith
    then have cur: "unat cur = unat (cur_limb acc) * R + c"
      by (simp add: cur_def unat_word_ariths uR)
    have tot: "limbs_val (tmp0 acc) * R ^ Suc k + unat cur = horner R (ds @ [c])"
      unfolding cur horner_snoc i(4) [unfolded l(3), symmetric] by (simp add: algebra_simps)
    show ?thesis
    proof (cases "Suc k = L")
      case True
      define base where "base = radix_base_table ! (R - 2)"
      have "(if base = 0 then 2 ^ 32 else unat base) = R ^ L"
        using radix_table(3,4) [OF R] R(1) by (cases "R \<in> {2, 4, 16}") (auto simp: base_def L_def)
      then have "limbs_val (mpb_mul1_base (tmp0 acc) base cur) = horner R (ds @ [c])" "mpb_ok (mpb_mul1_base (tmp0 acc) base cur)"
        using mpb_mul1_base_val [OF i(1), of base cur] tot True by simp_all
      then show ?thesis
        using True \<open>digit_count acc < K\<close> i l radix_table(1) [OF R]
        by (simp add: acc_inv_def add_digit_def Let_def L_def [symmetric] K_def [symmetric] k_def [symmetric] base_def [symmetric] cur_def [symmetric])
    next
      case False
      then show ?thesis
        using \<open>digit_count acc < K\<close> i l tot b cur
        by (simp add: acc_inv_def add_digit_def Let_def L_def [symmetric] K_def [symmetric] k_def [symmetric] cur_def [symmetric])
    qed
  next
    case False
    then have l: "K \<le> length ds" "digit_count acc = K" using i(5) by auto
    have "(of_nat c :: limb) = 0 \<longleftrightarrow> c = 0" using uR(2) unat_eq_0 [of "of_nat c :: limb"] by (simp only:)
    then have "extra_digits acc OR of_nat c = 0 \<longleftrightarrow> extra_digits acc = 0 \<and> c = 0" by (simp only: or_eq_0_iff)
    then show ?thesis
      using False i l by (simp add: acc_inv_def add_digit_def L_def [symmetric] K_def [symmetric] k_def [symmetric]) blast
  qed
qed

definition add_digits :: "nat \<Rightarrow> digit_acc \<Rightarrow> nat list \<Rightarrow> digit_acc" where
  "add_digits R acc ds = foldl (add_digit R) acc ds"

lemma add_digits_inv:
  assumes "2 \<le> R" "R \<le> 36" and "\<forall>d\<in>set ds. d < R"
  shows "acc_inv R ds (add_digits R acc_empty ds)"
  using assms(3)
proof (induction ds rule: rev_induct)
  case Nil
  then show ?case using acc_inv_empty [OF assms(1,2)] by (simp add: add_digits_def)
next
  case (snoc d ds)
  then show ?case using add_digit_inv [OF assms(1,2), of d ds] by (simp add: add_digits_def)
qed

lemma atod_flush_val:
  assumes R: "2 \<le> R" "R \<le> 36" and inv: "acc_inv R ds acc"
  shows "limbs_val (atod_flush R acc) = horner R (take (digit_limit R) ds)" and "mpb_ok (atod_flush R acc)"
proof -
  define k where "k = limb_digit_count acc"
  have i: "mpb_ok (tmp0 acc)" "k < digits_per_limb_table ! (R - 2)"
    "limbs_val (tmp0 acc) * R ^ k + unat (cur_limb acc) = horner R (take (digit_limit R) ds)"
    using inv by (simp_all add: acc_inv_def k_def)
  have u: "unat (of_nat R :: u32) = R" "unat (of_nat k :: u32) = k"
    using R i(2) radix_table(2) [OF R] by (simp_all add: unat_of_nat_id)
  have b: "R ^ k < 2 ^ 32" using radix_power_limb(2) [OF R _ i(2)] i(2) by simp
  have "unat (pow_ui (of_nat R) (of_nat k)) = R ^ k"
    using pow_ui_exact [of "of_nat R" "of_nat k"] b u by simp
  then have p: "unat (ucast (pow_ui (of_nat R) (of_nat k)) :: limb) = R ^ k" "ucast (pow_ui (of_nat R) (of_nat k)) \<noteq> (0 :: limb)"
    using b R(1) by (simp_all add: unat_ucast_limb flip: unat_eq_0)
  show "limbs_val (atod_flush R acc) = horner R (take (digit_limit R) ds)" "mpb_ok (atod_flush R acc)"
    using mpb_mul1_base_val [OF i(1), of "ucast (pow_ui (of_nat R) (of_nat k))" "cur_limb acc"] i p inv
    by (auto simp: atod_flush_def k_def [symmetric] acc_inv_def)
qed

subsection \<open>Scanning the digits\<close>

lemma to_digit_simps [simp]:
  "to_digit (CHR ''.'') = 36" "to_digit (CHR 0x00) = 36" "to_digit (CHR ''0'') = 0" "to_digit (CHR ''@'') = 36"
  by code_simp+

lemma to_digit_char: "d < 36 \<Longrightarrow> to_digit (digit_char d) = d"
  by (simp add: to_digit_def in_range_def of_char_digit_char)

lemma to_digit_0: "to_digit c = 0 \<longleftrightarrow> c = CHR ''0''"
proof
  assume "to_digit c = 0"
  then have "of_char c = (48 :: nat)" by (auto simp: to_digit_def in_range_def split: if_splits)
  also have "(48 :: nat) = of_char (CHR ''0'')" by simp
  finally show "c = CHR ''0''" by (simp only: of_char_eq_iff)
qed simp

lemma at0_simps [simp]: "at0 [] = CHR 0x00" "at0 (c # s) = c" "s \<noteq> [] \<Longrightarrow> at0 (s @ t) = at0 s"
  by (auto simp: at0_def split: list.splits)

definition digit_text :: "nat \<Rightarrow> string \<Rightarrow> bool" where
  "digit_text R s \<longleftrightarrow> (\<forall>c\<in>set s. to_digit c < R)"

lemma digit_text_simps [simp]:
  "digit_text R []" "digit_text R (c # s) \<longleftrightarrow> to_digit c < R \<and> digit_text R s"
  "digit_text R (s @ t) \<longleftrightarrow> digit_text R s \<and> digit_text R t"
  by (auto simp: digit_text_def)

lemma take_digits_run:
  assumes "R \<le> 36"
  shows "digit_text R s \<Longrightarrow> take_digits ps R flags None (s @ q) pos dp acc =
    take_digits ps R flags None q (pos + int (length s)) dp (add_digits R acc (map to_digit s))"
proof (induction s arbitrary: pos acc)
  case (Cons c s)
  have "c \<noteq> CHR ''.''" using Cons(2) assms by auto
  then have "take_digits ps R flags None ((c # s) @ q) pos dp acc =
      take_digits ps R flags None (s @ q) (pos + 1) dp (add_digit R acc (to_digit c))"
    using Cons(2) by (subst take_digits.simps) (simp add: dot_step_def)
  with Cons show ?case by (simp add: add_digits_def algebra_simps)
qed (simp add: add_digits_def)

lemma take_digits_stop:
  "R \<le> to_digit (at0 q) \<Longrightarrow> at0 q \<noteq> CHR ''.'' \<Longrightarrow> take_digits ps R flags None q pos dp acc = Inr (q, pos, dp, acc)"
  by (subst take_digits.simps) (simp add: dot_step_def)

lemma skip_zeros_run:
  "skip_zeros ps R flags None (replicate z (CHR ''0'') @ q) pos dp = skip_zeros ps R flags None q (pos + int z) dp"
proof (induction z arbitrary: pos)
  case (Suc z)
  have "skip_zeros ps R flags None (replicate (Suc z) (CHR ''0'') @ q) pos dp =
      skip_zeros ps R flags None (replicate z (CHR ''0'') @ q) (pos + 1) dp"
    by (subst skip_zeros.simps) (simp add: dot_step_def)
  with Suc show ?case by (simp add: algebra_simps)
qed simp

lemma skip_zeros_stop:
  "at0 q \<noteq> CHR ''0'' \<Longrightarrow> at0 q \<noteq> CHR ''.'' \<Longrightarrow> skip_zeros ps R flags None q pos dp = Inr (q, pos, dp)"
  by (subst skip_zeros.simps) (simp add: dot_step_def)

text \<open>A dot that is part of the number.\<close>

lemma dot_accepted:
  assumes "flags AND JS_ATOD_INT_ONLY = 0" and "length q + 1 < length ps \<or> to_digit (at0 q) < R" and "at0 q \<noteq> CHR ''.''"
  shows "skip_zeros ps R flags None (CHR ''.'' # q) pos (-1) = skip_zeros ps R flags None q pos pos"
    and "take_digits ps R flags None (CHR ''.'' # q) pos (-1) acc = take_digits ps R flags None q pos pos acc"
  using assms
  by (simp_all add: skip_zeros.simps [of ps R flags None _ pos] take_digits.simps [of ps R flags None _ pos] dot_step_def)

text \<open>The integer part, the dot with the fraction if there is one, and what follows.\<close>

definition frac_text :: "string option \<Rightarrow> string" where
  "frac_text f = (case f of None \<Rightarrow> [] | Some fp \<Rightarrow> CHR ''.'' # fp)"

definition frac_digits :: "string option \<Rightarrow> string" where
  "frac_digits f = (case f of None \<Rightarrow> [] | Some fp \<Rightarrow> fp)"

lemma leading_zeros:
  obtains z t where "s = replicate z (CHR ''0'') @ t" "t \<noteq> [] \<longrightarrow> at0 t \<noteq> CHR ''0''"
    "dropWhile ((=) 0) (map to_digit s) = map to_digit t"
proof -
  define z where "z = length (takeWhile ((=) (CHR ''0'')) s)"
  define t where "t = dropWhile ((=) (CHR ''0'')) s"
  have "takeWhile ((=) (CHR ''0'')) s = replicate z (CHR ''0'')"
    unfolding z_def by (intro replicate_length_same [symmetric]) (auto dest: set_takeWhileD)
  then have "s = replicate z (CHR ''0'') @ t" using takeWhile_dropWhile_id [of "(=) (CHR ''0'')" s] by (simp only: t_def)
  moreover have "t \<noteq> [] \<longrightarrow> at0 t \<noteq> CHR ''0''"
  proof
    assume t: "t \<noteq> []"
    then have "CHR ''0'' \<noteq> hd t" using hd_dropWhile [of "(=) (CHR ''0'')" s] unfolding t_def [symmetric] by blast
    moreover have "at0 t = hd t" using t by (cases t) simp_all
    ultimately show "at0 t \<noteq> CHR ''0''" by argo
  qed
  moreover have "dropWhile ((=) 0) (map to_digit s) = map to_digit t"
  proof -
    have "(=) 0 \<circ> to_digit = (=) (CHR ''0'')" using to_digit_0 by (auto simp: fun_eq_iff)
    then show ?thesis unfolding t_def dropWhile_map by simp
  qed
  ultimately show thesis using that by blast
qed

lemma at0_digits: "digit_text R s \<Longrightarrow> R \<le> 36 \<Longrightarrow> at0 q \<noteq> CHR ''.'' \<Longrightarrow> at0 (s @ q) \<noteq> CHR ''.''"
  by (cases s) auto

lemma at0_not_zero: "t \<noteq> [] \<longrightarrow> at0 t \<noteq> CHR ''0'' \<Longrightarrow> 2 \<le> R \<Longrightarrow> R \<le> to_digit (at0 q) \<Longrightarrow> at0 (t @ q) \<noteq> CHR ''0''"
  by (cases t) auto

lemma drop_zeros:
  assumes "s = replicate z (CHR ''0'') @ t" "t \<noteq> [] \<longrightarrow> at0 t \<noteq> CHR ''0''" "t = [] \<longrightarrow> u = []"
  shows "dropWhile ((=) 0) (map to_digit (s @ u)) = map to_digit (t @ u)"
proof -
  have "dropWhile ((=) 0) (map to_digit (replicate z (CHR ''0'') @ t @ u)) = dropWhile ((=) 0) (map to_digit (t @ u))"
    by (induction z) auto
  moreover have "dropWhile ((=) 0) (map to_digit (t @ u)) = map to_digit (t @ u)"
    using assms(2,3) by (cases t) (auto simp: to_digit_0)
  ultimately show ?thesis using assms(1) by simp
qed

lemma scan_digits:
  assumes R: "2 \<le> R" "R \<le> 36" and fl: "flags AND JS_ATOD_INT_ONLY = 0"
    and tx: "digit_text R ip" "digit_text R (frac_digits f)" "ip \<noteq> [] \<or> frac_digits f \<noteq> []"
    and rest: "R \<le> to_digit (at0 rest)" "at0 rest \<noteq> CHR ''.''"
    and ps: "length (ip @ frac_text f @ rest) \<le> length ps"
  defines "ds \<equiv> map to_digit (ip @ frac_digits f)"
  obtains q sp dp where "skip_zeros ps R flags None (ip @ frac_text f @ rest) 0 (-1) = Inr (q, sp, dp)"
    "take_digits ps R flags None q sp dp acc_empty =
       Inr (rest, int (length ds), if f = None then -1 else int (length ip), add_digits R acc_empty (dropWhile ((=) 0) ds))"
    "sp = int (length ds) - int (length (dropWhile ((=) 0) ds))"
proof -
  obtain z t where z: "ip = replicate z (CHR ''0'') @ t" "t \<noteq> [] \<longrightarrow> at0 t \<noteq> CHR ''0''" by (rule leading_zeros)
  have dt: "digit_text R t" and lip: "length ip = z + length t" using tx(1) z(1) by simp_all
  note skip = skip_zeros_run [of ps R flags] and run = take_digits_run [OF R(2), of _ ps flags]
  have skip1: "skip_zeros ps R flags None (ip @ u) 0 (-1) = skip_zeros ps R flags None (t @ u) (int z) (-1)" for u
    unfolding z(1) append_assoc skip by simp
  consider "t \<noteq> []" "f = None" | fp where "t \<noteq> []" "f = Some fp" | "t = []" "f = None" | fp where "t = []" "f = Some fp"
    by (cases f) auto
  then show thesis
  proof cases
    case 1
    have sd: "dropWhile ((=) 0) ds = map to_digit t" using drop_zeros [OF z, of "[]"] 1 by (simp add: ds_def frac_digits_def)
    have "skip_zeros ps R flags None (t @ rest) (int z) (-1) = Inr (t @ rest, int z, -1)"
      by (intro skip_zeros_stop at0_not_zero [OF z(2) R(1) rest(1)] at0_digits [OF dt R(2) rest(2)])
    then show thesis
      using 1 lip by (intro that [of "t @ rest" "int z" "-1"])
        (simp_all add: skip1 ds_def [symmetric] frac_text_def run [OF dt] take_digits_stop [OF rest] sd, simp_all add: ds_def frac_digits_def)
  next
    case 2
    have sd: "dropWhile ((=) 0) ds = map to_digit (t @ fp)" using drop_zeros [OF z, of fp] 2 by (simp add: ds_def frac_digits_def)
    have df: "digit_text R fp" using tx(2) 2 by (simp add: frac_digits_def)
    define q where "q = CHR ''.'' # fp @ rest"
    have "at0 (t @ q) = at0 t" "at0 t \<noteq> CHR ''0''" "at0 t \<noteq> CHR ''.''" using 2(1) z(2) at0_digits [OF dt R(2), of "''0''"] by auto
    then have s: "skip_zeros ps R flags None (t @ q) (int z) (-1) = Inr (t @ q, int z, -1)" by (intro skip_zeros_stop) simp_all
    have "length (fp @ rest) + 1 < length ps" using ps 2 z(1) by (cases t) (simp_all add: frac_text_def)
    note dot = dot_accepted(2) [OF fl disjI1 [OF this] at0_digits [OF df R(2) rest(2)], folded q_def]
    have ft: "frac_text f @ rest = q" using 2 by (simp add: frac_text_def q_def)
    have ln: "length ds = z + length t + length fp" using 2 lip by (simp add: ds_def frac_digits_def)
    show thesis
    proof (rule that)
      show "skip_zeros ps R flags None (ip @ frac_text f @ rest) 0 (-1) = Inr (t @ q, int z, -1)" unfolding ft skip1 by (rule s)
      show "take_digits ps R flags None (t @ q) (int z) (-1) acc_empty =
          Inr (rest, int (length ds), if f = None then -1 else int (length ip), add_digits R acc_empty (dropWhile ((=) 0) ds))"
        unfolding run [OF dt] dot run [OF df] take_digits_stop [OF rest] sd using 2 ln lip by (simp add: add_digits_def)
    qed (use sd ln in simp)
  next
    case 3
    have sd: "dropWhile ((=) 0) ds = []" using drop_zeros [OF z, of "[]"] 3 by (simp add: ds_def frac_digits_def)
    have "skip_zeros ps R flags None rest (int z) (-1) = Inr (rest, int z, -1)"
      using rest R(1) by (intro skip_zeros_stop) auto
    then show thesis
      using 3 lip by (intro that [of rest "int z" "-1"])
        (simp_all add: skip1 ds_def [symmetric] frac_text_def take_digits_stop [OF rest] sd, simp_all add: ds_def frac_digits_def add_digits_def)
  next
    case 4
    have df: "digit_text R fp" using tx(2) 4 by (simp add: frac_digits_def)
    obtain z' t' where z': "fp = replicate z' (CHR ''0'') @ t'" "t' \<noteq> [] \<longrightarrow> at0 t' \<noteq> CHR ''0''" by (rule leading_zeros)
    have ip0: "ip @ fp = replicate (z + z') (CHR ''0'') @ t'" using z(1) z'(1) 4 by (simp add: replicate_add)
    have sd: "dropWhile ((=) 0) ds = map to_digit t'" using drop_zeros [OF ip0 z'(2), of "[]"] 4 by (simp add: ds_def frac_digits_def)
    have dt': "digit_text R t'" using df z'(1) by simp
    have acc: "length (fp @ rest) + 1 < length ps \<or> to_digit (at0 (fp @ rest)) < R"
      using ps 4 tx(3) df by (cases ip; cases fp) (auto simp: frac_text_def frac_digits_def)
    have "skip_zeros ps R flags None (t' @ rest) (int z + int z') (int z) = Inr (t' @ rest, int z + int z', int z)"
      by (intro skip_zeros_stop at0_not_zero [OF z'(2) R(1) rest(1)] at0_digits [OF dt' R(2) rest(2)])
    note stop = this and dot = dot_accepted(1) [OF fl acc at0_digits [OF df R(2) rest(2)], of "int z"]
    have ln: "length ds = z + z' + length t'" "length ip = z" using 4 lip z'(1) by (simp_all add: ds_def frac_digits_def)
    have ft: "frac_text f @ rest = CHR ''.'' # fp @ rest" using 4 by (simp add: frac_text_def)
    have fr: "fp @ rest = replicate z' (CHR ''0'') @ t' @ rest" using z'(1) by simp
    show thesis
    proof (rule that)
      show "skip_zeros ps R flags None (ip @ frac_text f @ rest) 0 (-1) = Inr (t' @ rest, int z + int z', int z)"
        unfolding ft skip1 4(1) append_Nil dot unfolding fr skip by (rule stop)
      show "take_digits ps R flags None (t' @ rest) (int z + int z') (int z) acc_empty =
          Inr (rest, int (length ds), if f = None then -1 else int (length ip), add_digits R acc_empty (dropWhile ((=) 0) ds))"
        unfolding run [OF dt'] take_digits_stop [OF rest] sd using 4 ln by simp
    qed (use sd ln in simp)
  qed
qed

subsection \<open>Packing a float64\<close>

lemma f64_fields:
  "f64_exp a = unat a div 2 ^ 52 mod 2 ^ 11" "unat (f64_mant a) = unat a mod 2 ^ 52" "f64_sign a \<longleftrightarrow> 2 ^ 63 \<le> unat a"
proof -
  have "drop_bit 52 a AND 0x7ff = take_bit 11 (drop_bit 52 a)" by (simp add: take_bit_eq_mask mask_eq_exp_minus_1)
  then show "f64_exp a = unat a div 2 ^ 52 mod 2 ^ 11"
    using unat_take32 [of 11 "drop_bit 52 a"] unat_drop [of 52 a] by (simp add: f64_exp_def)
  have "f64_mant a = take_bit 52 a"
    by (simp add: f64_mant_def take_bit_eq_mask mask_eq_exp_minus_1 push_bit_of_1)
  then show "unat (f64_mant a) = unat a mod 2 ^ 52" using unat_take32 [of 52 a] by simp
  have "f64_sign a \<longleftrightarrow> unat a div 2 ^ 63 \<noteq> 0" unfolding f64_sign_def using unat_drop [of 63 a] by (metis unat_eq_0)
  then show "f64_sign a \<longleftrightarrow> 2 ^ 63 \<le> unat a" by (simp add: div_eq_0_iff not_less)
qed

lemma f64_build:
  assumes u: "unat a = E * 2 ^ 52 + M" "E < 2047" "M < 2 ^ 52"
  shows "f64_finite a \<and> \<not> f64_sign a \<and>
    f64_abs a = (if E = 0 then real M * 2 powi (-1074) else (2 ^ 52 + real M) * 2 powi (int E - 1075))"
proof -
  have d: "unat a div 2 ^ 52 = E" "unat a mod 2 ^ 52 = M" using divmod_of [of M "2 ^ 52" E] u by simp_all
  have "E * 2 ^ 52 \<le> 2046 * 2 ^ 52" using u(2) by (intro mult_le_mono1) simp
  then have "unat a < 2 ^ 63" using u(1,3) by simp
  moreover have "f64_exp a = E" "unat (f64_mant a) = M" using f64_fields(1,2) [of a] d u(2) by simp_all
  ultimately show ?thesis using u(2) unfolding f64_finite_def f64_abs_def f64_fields(3) by (simp add: not_le)
qed

definition f64_of :: "real \<Rightarrow> u64 \<Rightarrow> bool" where
  "f64_of y a \<longleftrightarrow> (if y < 2 powi 1024 then f64_finite a \<and> \<not> f64_sign a \<and> f64_abs a = y else a = f64_inf)"

lemma f64_pack_val:
  assumes m: "m = 0 \<or> 2 ^ 52 \<le> unat m \<and> unat m < 2 ^ 53" and y: "dbl m e = real N * 2 powi u" "-1074 \<le> u"
  shows "f64_of (dbl m e) (f64_pack m e)"
proof (cases "m = 0")
  case True
  then show ?thesis using f64_build [of 0 0 0] by (simp add: f64_of_def f64_pack_def dbl_def)
next
  case False
  then have m: "2 ^ 52 \<le> unat m" "unat m < 2 ^ 53" using m by auto
  have "real (2 ^ 52) \<le> real (unat m)" "real (unat m) < real (2 ^ 53)" using m by (simp_all only: of_nat_le_iff of_nat_less_iff)
  then have b: "(2 :: real) ^ 52 * 2 powi (e - 53) \<le> dbl m e" "dbl m e < 2 ^ 53 * 2 powi (e - 53)" by (simp_all add: dbl_def)
  have p: "(2 :: real) ^ 52 * 2 powi (e - 53) = 2 powi (e - 1)" "(2 :: real) ^ 53 * 2 powi (e - 53) = 2 powi e"
    using powi2_add [of 52 "e - 53"] powi2_add [of 53 "e - 53"] by (simp_all add: power_int_def)
  have b: "2 powi (e - 1) \<le> dbl m e" "dbl m e < 2 powi e" using b unfolding p by simp_all
  show ?thesis
  proof (cases "e > 1024")
    case True
    then have "(2 :: real) powi 1024 \<le> 2 powi (e - 1)" by (intro powi2_mono) simp
    then show ?thesis using True False b by (simp add: f64_of_def f64_pack_def)
  next
    case e: False
    then have "(2 :: real) powi e \<le> 2 powi 1024" by (intro powi2_mono) simp
    then have lt: "dbl m e < 2 powi 1024" using b by simp
    have "(0 :: real) < 2 powi (e - 1)" by simp
    then have "0 < real N * 2 powi u" using b(1) unfolding y(1) [symmetric] by linarith
    then have "N \<noteq> 0" by (intro notI) simp
    then have "2 powi u \<le> dbl m e" using y(1) by simp
    then have "(2 :: real) powi u < 2 powi e" using b by simp
    then have e1: "-1073 \<le> e" using y(2) by (simp add: powi2_less_iff)
    have "\<exists>E M. unat (f64_pack m e) = E * 2 ^ 52 + M \<and> E < 2047 \<and> M < 2 ^ 52 \<and>
        (if E = 0 then real M * 2 powi (-1074) else (2 ^ 52 + real M) * 2 powi (int E - 1075)) = dbl m e"
    proof (cases "e < -1021")
      case True
      define s where "s = nat (- e - 1021)"
      have s: "int s = - e - 1021" "1 \<le> s" using True by (simp_all add: s_def)
      have "real (unat m) * 2 powi (e - 53) = real N * 2 powi u" using y(1) by (simp only: dbl_def)
      also have "2 powi u = (2 :: real) ^ nat (u - (e - 53)) * 2 powi (e - 53)"
        using powi2_add [of "u - (e - 53)" "e - 53"] y(2) True by (simp add: power_int_def)
      finally have "real (unat m) = real (N * 2 ^ nat (u - (e - 53)))" by simp
      then have "unat m = N * 2 ^ nat (u - (e - 53))" by (simp only: of_nat_eq_iff)
      moreover have "nat (u - (e - 53)) = nat (u + 1074) + s" using s y(2) by simp
      ultimately have mm: "unat m = unat m div 2 ^ s * 2 ^ s" by (simp add: power_add)
      have "unat m div 2 ^ s < 2 ^ 52"
      proof -
        have "unat m div 2 ^ s \<le> unat m div 2 ^ 1" using s(2) by (intro div_le_mono2 power_increasing) simp_all
        then show ?thesis using m(2) by simp
      qed
      moreover have "unat (f64_pack m e) = unat m div 2 ^ s"
        using True False e e1 unat_drop [of s m] by (simp add: f64_pack_def s_def)
      moreover have "real (unat m div 2 ^ s) * 2 powi (-1074) = dbl m e"
      proof -
        have "real (unat m) = real (unat m div 2 ^ s) * 2 ^ s" using mm by (metis of_nat_mult of_nat_numeral of_nat_power)
        moreover have "(2 :: real) ^ s * 2 powi (e - 53) = 2 powi (-1074)"
          unfolding power_int_of_nat [symmetric] s(1) powi2_add [symmetric] by simp
        ultimately show ?thesis unfolding dbl_def by (metis mult.assoc)
      qed
      ultimately show ?thesis by (intro exI [of _ 0] exI [of _ "unat m div 2 ^ s"]) simp
    next
      case e2: False
      define E where "E = nat (e + 1022)"
      have E: "int E = e + 1022" "0 < E" "E < 2047" using e e2 by (simp_all add: E_def)
      define M where "M = unat m - 2 ^ 52"
      have M: "M < 2 ^ 52" "unat m = 2 ^ 52 + M" using m by (simp_all add: M_def)
      have lo: "unat (m AND (push_bit 52 1 - 1)) = M"
        using unat_take32 [of 52 m] M by (simp add: take_bit_eq_mask mask_eq_exp_minus_1 push_bit_of_1)
      have eo: "(of_int (e + 1022) :: u64) = of_nat E" using E(1) by (metis of_int_of_nat_eq)
      have uE: "unat (of_nat E :: u64) = E" using E(3) by (intro unat_of_nat_id) simp
      have EE: "E * 2 ^ 52 \<le> 2046 * 2 ^ 52" using E(3) by (intro mult_le_mono1) simp
      have hi: "unat (push_bit 52 (of_nat E) :: u64) = E * 2 ^ 52" using push_u64 [of "of_nat E" 52] uE EE by simp
      have "unat (f64_pack m e) = E * 2 ^ 52 + M"
      proof -
        have "push_bit 52 (of_nat E) OR (m AND (push_bit 52 1 - 1)) = push_bit 52 (of_nat E) + (m AND (push_bit 52 1 - 1))"
          using lo M(1) or_high [of "m AND (push_bit 52 1 - 1)" 52 "push_bit 52 (of_nat E)"]
          by (simp add: or.commute add.commute take_bit_push_bit)
        then show ?thesis
          using False e e2 eo unat_small_add [of "push_bit 52 (of_nat E)" "m AND (push_bit 52 1 - 1)"] lo hi M(1) EE
          by (simp add: f64_pack_def)
      qed
      moreover have "(2 ^ 52 + real M) * 2 powi (int E - 1075) = dbl m e" using E(1) M(2) by (simp add: dbl_def)
      ultimately show ?thesis using E(2,3) M(1) by (intro exI [of _ E] exI [of _ M]) simp
    qed
    then show ?thesis using lt f64_build unfolding f64_of_def by metis
  qed
qed

subsection \<open>Rounding the number\<close>

lemma rounds_to_ulp:
  assumes "rounds_to x y"
  shows "\<exists>N u. y = real N * 2 powi u \<and> -1074 \<le> u"
proof -
  obtain e N where "y = real N * 2 powi ulp_exp e" using assms unfolding rounds_to_def by blast
  moreover have "-1074 \<le> ulp_exp e" by (simp add: ulp_exp_def)
  ultimately show ?thesis by blast
qed

lemma near_even_abs: "near_even x N \<Longrightarrow> \<bar>x - real N\<bar> \<le> 1 / 2"
  by (auto simp: near_even_def)

lemma rounds_to_large:
  assumes "rounds_to x y" "2 powi 1024 \<le> x"
  shows "2 powi 1024 \<le> y"
proof -
  obtain e N where e: "2 powi (e - 1) \<le> x" "x < 2 powi e" "y = real N * 2 powi ulp_exp e" "near_even (x / 2 powi ulp_exp e) N"
    using assms(1) unfolding rounds_to_def by blast
  have "(2 :: real) powi 1024 < 2 powi e" using assms(2) e(2) by (rule le_less_trans)
  then have e1: "1024 < e" by (simp only: powi2_less_iff)
  then have u: "ulp_exp e = e - 53" by (simp add: ulp_exp_def)
  have "(2 :: real) ^ 52 = 2 powi (e - 1) / 2 powi (e - 53)"
    using powi2_add [of 52 "e - 53"] by (simp add: power_int_def)
  also have "\<dots> \<le> x / 2 powi (e - 53)" using e(1) by (intro divide_right_mono) simp_all
  finally have "real (2 ^ 52) - 1 / 2 \<le> real N" using near_even_abs [OF e(4)] unfolding u by (simp only: of_nat_power of_nat_numeral)
  then have "2 ^ 52 \<le> N" by linarith
  then have "real (2 ^ 52) * 2 powi (e - 53) \<le> y" unfolding e(3) u by (intro mult_right_mono) (simp_all only: of_nat_le_iff, simp)
  moreover have "real (2 ^ 52) * 2 powi (e - 53) = 2 powi (e - 1)" using powi2_add [of 52 "e - 53"] by (simp add: power_int_def)
  moreover have "(2 :: real) powi 1024 \<le> 2 powi (e - 1)" using e1 by (intro powi2_mono) simp
  ultimately show ?thesis by linarith
qed

lemma rounds_to_small:
  assumes "rounds_to x y" "x < 2 powi (-1075)"
  shows "y = 0"
proof -
  obtain e N where e: "2 powi (e - 1) \<le> x" "x < 2 powi e" "y = real N * 2 powi ulp_exp e" "near_even (x / 2 powi ulp_exp e) N"
    using assms(1) unfolding rounds_to_def by blast
  have "(2 :: real) powi (e - 1) < 2 powi (-1075)" using e(1) assms(2) by (rule le_less_trans)
  then have "e - 1 < -1075" by (simp only: powi2_less_iff)
  then have u: "ulp_exp e = -1074" by (simp add: ulp_exp_def)
  have "(2 :: real) powi (-1075) = 1 / 2 * 2 powi (-1074)" using powi2_add [of "-1" "-1074"] by simp
  then have "x / 2 powi (-1074) < 1 / 2" using assms(2) by (simp add: divide_less_eq)
  then have "real N < 1" using near_even_abs [OF e(4)] unfolding u by linarith
  then show ?thesis using e(3) by simp
qed

lemma log_power:
  assumes R: "2 \<le> R" "R \<le> 36" and a: "\<bar>a\<bar> \<le> 2048" and k: "mul_log2_radix a R < k"
  shows "2 powi a < real R powi k"
proof -
  define L where "L = log 2 (real R)"
  have L: "0 < L" using R(1) by (simp add: L_def)
  note RL = powi_log2 [OF R(1), folded L_def]
  have "\<lfloor>real_of_int a / L\<rfloor> < k" using mul_log2_radix_floor [OF R a] k by (simp add: L_def)
  then have "real_of_int a / L < real_of_int k" by linarith
  then have "real_of_int a < real_of_int k * L" using L by (simp add: divide_less_eq)
  then show ?thesis unfolding RL by (simp add: powr_real_of_int' [symmetric])
qed

lemma exponent_tables:
  assumes "2 \<le> R" "R \<le> 36"
  shows "R \<notin> {2, 4, 8, 16, 32} \<Longrightarrow> 2 powi 1024 < real R powi (max_exponent ! (R - 2))"
    and "R \<notin> {2, 4, 8, 16, 32} \<Longrightarrow> 2 powi 1075 < real R powi (- (min_exponent ! (R - 2)))"
    and "digit_limit R \<le> 80" and "1 \<le> digit_limit R"
proof -
  have t: "list_all (\<lambda>R. (R \<notin> set [2, 4, 8, 16, 32] \<longrightarrow> mul_log2_radix 1024 R < max_exponent ! (R - 2) \<and>
      mul_log2_radix 1075 R < - (min_exponent ! (R - 2))) \<and> digit_limit R \<le> 80 \<and> 1 \<le> digit_limit R) [2..<37]"
    by code_simp
  have "R \<in> {2..<37}" using assms by simp
  note tR = bspec [OF t [unfolded list_all_iff set_upt] this]
  then show "digit_limit R \<le> 80" "1 \<le> digit_limit R" by simp_all
  assume "R \<notin> {2, 4, 8, 16, 32}"
  then have "mul_log2_radix 1024 R < max_exponent ! (R - 2)" "mul_log2_radix 1075 R < - (min_exponent ! (R - 2))"
    using tR by simp_all
  then show "2 powi 1024 < real R powi (max_exponent ! (R - 2))" "2 powi 1075 < real R powi (- (min_exponent ! (R - 2)))"
    by (intro log_power [OF assms]; simp)+
qed

lemma rounded_normal:
  assumes R: "radix_ok R r rs" and a: "mpb_ok a" "limbs_val a \<noteq> 0"
    and me: "mul_pow_round_to_d a r rs k JS_RNDN = (m1, e1)"
  shows "rounds_to (real (limbs_val a) * real R powi k) (dbl m1 e1)" and "f64_of (dbl m1 e1) (f64_pack m1 e1)"
proof -
  show r: "rounds_to (real (limbs_val a) * real R powi k) (dbl m1 e1)" by (rule mul_pow_round_to_d_rounds [OF R a me])
  have "m1 = 0 \<or> 2 ^ 52 \<le> unat m1 \<and> unat m1 < 2 ^ 53"
    using mul_pow_round_to_d_val [OF radix_okD(3,4) [OF R] a, of rs k JS_RNDN, unfolded me]
    by (auto simp: float_repr_def split: if_splits)
  then show "f64_of (dbl m1 e1) (f64_pack m1 e1)" using rounds_to_ulp [OF r] f64_pack_val by blast
qed

text \<open>The number \<open>x\<close> is read as the float64 \<open>a\<close>: nearest, ties to even, infinity from \<open>2\<^sup>1\<^sup>0\<^sup>2\<^sup>4\<close> on.\<close>

definition reads_as :: "real \<Rightarrow> u64 \<Rightarrow> bool" where
  "reads_as x a \<longleftrightarrow> (\<exists>y. rounds_to x y \<and> f64_of y a)"

lemma reads_as_large: "rounds_to x y \<Longrightarrow> 2 powi 1024 \<le> x \<Longrightarrow> reads_as x f64_inf"
  using rounds_to_large [of x y] unfolding reads_as_def f64_of_def by (metis not_less)

lemma reads_as_small: "rounds_to x y \<Longrightarrow> x < 2 powi (-1075) \<Longrightarrow> reads_as x 0"
  using rounds_to_small [of x y] f64_build [of 0 0 0] unfolding reads_as_def f64_of_def by fastforce

lemma round_to_d_as_pow: "round_to_d a (- k) mode = mul_pow_round_to_d a 1 1 k mode"
  by (simp add: mul_pow_round_to_d_def mul_pow_def)

lemma radix_ok_2: "radix_ok 2 1 1"
  unfolding radix_ok_def by code_simp

lemma powi_bounds:
  assumes "2 \<le> R" "R ^ (c - 1) \<le> V" "V < R ^ c" "1 \<le> c"
  shows "real R powi (int c - 1 + k) \<le> real V * real R powi k" "real V * real R powi k < real R powi (int c + k)"
proof -
  have R0: "real R \<noteq> 0" "0 < real R powi k" using assms(1) by simp_all
  have c: "real R powi (int c - 1) = real (R ^ (c - 1))" "real R powi int c = real (R ^ c)"
    using assms(4) by (simp_all add: power_int_def nat_diff_distrib)
  have "real (R ^ (c - 1)) \<le> real V" "real V < real (R ^ c)" using assms(2,3) by (simp_all only: of_nat_le_iff of_nat_less_iff)
  then show "real R powi (int c - 1 + k) \<le> real V * real R powi k" "real V * real R powi k < real R powi (int c + k)"
    using R0 unfolding power_int_add [OF disjI1 [OF R0(1)]] c by simp_all
qed

lemma atod_round_general:
  assumes R: "radix_ok R r rs" and r: "r \<noteq> 1" and t: "mpb_ok t" "R ^ (c - 1) \<le> limbs_val t" "limbs_val t < R ^ c" "1 \<le> c" "c \<le> 80"
    and ex: "\<bar>expn\<bar> \<le> 10 ^ 8" "\<bar>off\<bar> \<le> 10 ^ 8"
  obtains a where "atod_round R 0 r rs t expn off c b = Some a" "reads_as (real (limbs_val t) * real R powi (expn - off)) a"
proof -
  note rd = radix_okD [OF R]
  define k where "k = expn - off"
  have i: "i32 (expn - off) = Some k" "i32 (k + int c) = Some (k + int c)" using ex t(5) by (auto simp: i32_def k_def abs_le_iff)
  obtain m e where me: "mul_pow_round_to_d t r rs k JS_RNDN = (m, e)" by fastforce
  have nz: "limbs_val t \<noteq> 0" using t(2) rd(1) by (metis not_numeral_le_zero not_one_le_zero power_not_zero le_zero_eq)
  note rn = rounded_normal [OF R t(1) nz me]
  note pb = powi_bounds [OF rd(1) t(2-4), of k]
  have np: "R \<notin> {2, 4, 8, 16, 32}"
  proof
    assume "R \<in> {2, 4, 8, 16, 32}"
    moreover have "list_all (\<lambda>R. R div 2 ^ ctz32 (of_nat R) = 1) [2, 4, 8, 16, 32]" by code_simp
    ultimately show False using r R by (auto simp: radix_ok_def)
  qed
  note tab = exponent_tables(1,2) [OF rd(1,2) np]
  define A where "A = (if k + int c \<ge> max_exponent ! (R - 2) + 1 then f64_inf
                else if k + int c \<le> min_exponent ! (R - 2) then 0 else f64_pack m e)"
  have "atod_round R 0 r rs t expn off c b = Some A"
    by (simp add: atod_round_def i me A_def)
  moreover have "reads_as (real (limbs_val t) * real R powi k) A"
  proof -
    consider "k + int c \<ge> max_exponent ! (R - 2) + 1" | "k + int c < max_exponent ! (R - 2) + 1" "k + int c \<le> min_exponent ! (R - 2)"
      | "k + int c < max_exponent ! (R - 2) + 1" "k + int c > min_exponent ! (R - 2)" by linarith
    then show ?thesis
    proof cases
      case 1
      then have "real R powi (max_exponent ! (R - 2)) \<le> real R powi (int c - 1 + k)" using rd(1) by (intro power_int_increasing) simp_all
      then show ?thesis using reads_as_large [OF rn(1)] pb(1) tab(1) 1 by (simp only: A_def if_True)
    next
      case 2
      have "real R powi (int c + k) \<le> real R powi (min_exponent ! (R - 2))" using 2 rd(1) by (intro power_int_increasing) simp_all
      moreover have "real R powi (min_exponent ! (R - 2)) < 2 powi (-1075)"
        using tab(2) rd(1) by (simp only: power_int_minus) (simp add: field_simps)
      ultimately have "real (limbs_val t) * real R powi k < 2 powi (-1075)" using pb(2) by linarith
      moreover have "A = 0" using 2 by (simp add: A_def)
      ultimately show ?thesis using reads_as_small [OF rn(1)] by simp
    next
      case 3
      then show ?thesis using rn unfolding reads_as_def A_def by auto
    qed
  qed
  ultimately show thesis using that by (simp add: k_def)
qed

text \<open>
  A radix that is a power of two: all digits count. The limbs hold the leading digits of \<open>N\<close>, with
  the last bit set when a digit that was dropped is not zero.
\<close>

lemma round_to_d_sticky:
  assumes ok: "mpb_ok t" and t: "limbs_val t = sticky (N div D) (N mod D \<noteq> 0)" "0 < D" "limbs_val t \<noteq> 0"
    and bl: "D = 1 \<or> 55 \<le> bit_len (limbs_val t)" and me: "round_to_d t (- k) JS_RNDN = (m, e)"
  shows "rounds_to (real N / D * 2 powi k) (dbl m e)" and "m = 0 \<or> 2 ^ 52 \<le> unat m \<and> unat m < 2 ^ 53"
proof -
  define V b where "V = limbs_val t" and "b = bit_len V"
  have b: "2 ^ (b - 1) \<le> V" "V < 2 ^ b" "0 < b" using bit_len_bounds t(3) by (simp_all add: b_def V_def)
  define Q where "Q = N div D"
  have bl': "D = 1 \<or> 55 \<le> b" using bl by (simp add: b_def V_def)
  have "V = sticky Q (N mod D \<noteq> 0)" using t(1) by (simp add: V_def Q_def)
  then have V: "V = Q \<or> V = Q + 1 \<and> even Q \<and> 55 \<le> b" using bl' by (auto simp: sticky_def)
  have Q: "2 ^ (b - 1) \<le> Q" "Q < 2 ^ b"
  proof -
    have "V \<noteq> 2 ^ (b - 1)" if "V = Q + 1" "even Q" "55 \<le> b"
    proof -
      have "odd V" "even ((2 :: nat) ^ (b - 1))" using that by simp_all
      then show ?thesis by metis
    qed
    then show "2 ^ (b - 1) \<le> Q" "Q < 2 ^ b" using V b by auto
  qed
  have lo: "D * 2 ^ (b - 1) \<le> N" using Q(1) t(2) unfolding Q_def by (metis mult.commute less_eq_div_iff_mult_less_eq)
  have hi: "N < D * 2 ^ b" using Q(2) t(2) unfolding Q_def by (metis div_less_iff_less_mult mult.commute)
  define e' where "e' = int b - - k"
  have rnd: "round_div JS_RNDN (V * 2 ^ p) (2 ^ q) = round_div JS_RNDN (N * 2 ^ p) (D * 2 ^ q)"
    if "int q - int p = ulp_exp e' + - k" "p = 0 \<or> q = 0" for p q
  proof (cases "D = 1")
    case True
    then have "V = N" using t(1) by (simp add: V_def sticky_def)
    then show ?thesis using True by simp
  next
    case False
    then have "55 \<le> b" using bl by (simp add: b_def V_def)
    then have "2 \<le> int q - int p" using that(1) by (simp add: e'_def ulp_exp_def)
    then have "p = 0" "2 \<le> q" using that(2) by auto
    then show ?thesis using round_sticky [of q D JS_RNDN N] t(1,2) by (simp add: V_def)
  qed
  have n: "(N * 2 ^ nat k) * D * 2 ^ nat (- k) = N * (D * 2 ^ nat (- k)) * 2 ^ nat k" by simp
  have "has_exp (N * 2 ^ nat k) (D * 2 ^ nat (- k)) e' \<and>
      float_repr (m, e) (round_units JS_RNDN (N * 2 ^ nat k) (D * 2 ^ nat (- k)) (ulp_exp e')) (ulp_exp e')"
    unfolding me [symmetric] e'_def b_def V_def
  proof (rule float_of_scaled [OF ok t(3) _ t(2) n])
    show "D * 2 ^ (bit_len (limbs_val t) - 1) \<le> N" "N < D * 2 ^ bit_len (limbs_val t)" using lo hi by (simp_all add: b_def V_def)
    show "round_div JS_RNDN (limbs_val t * 2 ^ p) (2 ^ q) = round_div JS_RNDN (N * 2 ^ p) (D * 2 ^ q)"
      if "int q - int p = ulp_exp (int (bit_len (limbs_val t)) - - k) + - k" "p = 0 \<or> q = 0" for p q
      using rnd [OF that(1) [folded V_def, folded b_def, folded e'_def] that(2)] by (simp only: V_def)
  qed (use t(2) in simp_all)
  then have fr: "has_exp (N * 2 ^ nat k) (D * 2 ^ nat (- k)) e'"
    "float_repr (m, e) (round_units JS_RNDN (N * 2 ^ nat k) (D * 2 ^ nat (- k)) (ulp_exp e')) (ulp_exp e')" by simp_all
  have "real (N * 2 ^ nat k) / real (D * 2 ^ nat (- k)) = real N / D * 2 powi k"
    using powi_frac [of "2 :: real" k, symmetric] by simp
  then show "rounds_to (real N / D * 2 powi k) (dbl m e)" using rounds_to_float_repr [OF fr(1) _ fr(2)] t(2) by simp
  show "m = 0 \<or> 2 ^ 52 \<le> unat m \<and> unat m < 2 ^ 53" using fr(2) by (auto simp: float_repr_def split: if_splits)
qed

lemma atod_round_pow2:
  assumes R: "radix_ok R 1 rs" and ok: "mpb_ok t" and t: "limbs_val t = sticky (N div D) (N mod D \<noteq> 0)" "0 < D"
    and N: "D * R ^ (c - 1) \<le> N" "N < D * R ^ c" "1 \<le> c" "c \<le> 80"
    and bl: "D = 1 \<or> 55 \<le> bit_len (limbs_val t)" and ex: "\<bar>expn\<bar> \<le> 10 ^ 8" "\<bar>off\<bar> \<le> 10 ^ 8"
  obtains a where "atod_round R rs 1 rs t expn off c b = Some a"
    "reads_as (real N / D * real R powi (- off) * (if b then 2 else real R) powi expn) a"
proof -
  note rd = radix_okD [OF R]
  have Rp: "R = 2 ^ rs" using rd(5) by simp
  have rs: "1 \<le> rs" "rs \<le> 5"
  proof -
    show "1 \<le> rs" using rd(1) Rp by (cases rs) simp_all
    have "2 ^ rs < (2 :: nat) ^ 6" using rd(2) Rp by simp
    then show "rs \<le> 5" using power_less_imp_less_exp [of "2 :: nat" rs 6] by simp
  qed
  define x1 where "x1 = (if b then expn else expn * int rs)"
  define k where "k = x1 - off * int rs"
  have bx: "\<bar>x1\<bar> \<le> 500000000" "\<bar>off * int rs\<bar> \<le> 500000000" "int c * int rs \<le> 400"
  proof -
    have m: "\<bar>y * int rs\<bar> \<le> 500000000" if "\<bar>y\<bar> \<le> 10 ^ 8" for y
      using mult_mono [of "\<bar>y\<bar>" "10 ^ 8" "int rs" 5] that rs(2) by (simp add: abs_mult)
    show "\<bar>x1\<bar> \<le> 500000000" "\<bar>off * int rs\<bar> \<le> 500000000" using m ex by (simp_all add: x1_def)
    show "int c * int rs \<le> 400" using mult_mono [of "int c" 80 "int rs" 5] N(4) rs(2) by simp
  qed
  have c0: "0 \<le> int c * int rs" by simp
  have i: "i32 (expn * int rs) = Some (expn * int rs) \<or> b" "i32 (off * int rs) = Some (off * int rs)"
    "i32 (x1 - off * int rs) = Some k" "i32 (k + int c * int rs) = Some (k + int c * int rs)"
  proof -
    have z: "i32 z = Some z" if "\<bar>z\<bar> \<le> 2000000000" for z using that by (auto simp: i32_def abs_le_iff)
    show "i32 (expn * int rs) = Some (expn * int rs) \<or> b" using bx(1) z [of "expn * int rs"] by (auto simp: x1_def)
    show "i32 (off * int rs) = Some (off * int rs)" using bx(2) by (intro z) simp
    show "i32 (x1 - off * int rs) = Some k" unfolding k_def using bx(1,2) by (intro z) linarith
    show "i32 (k + int c * int rs) = Some (k + int c * int rs)" unfolding k_def using bx c0 by (intro z) linarith
  qed
  obtain m e where me: "round_to_d t (- k) JS_RNDN = (m, e)" by fastforce
  have "N div D \<noteq> 0" using N(1) t(2) rd(1) by (simp add: div_eq_0_iff not_less) (metis One_nat_def Suc_leI le_trans mult.right_neutral mult_le_mono2 neq0_conv not_numeral_le_zero power_eq_0_iff zero_less_iff_neq_zero)
  then have nz: "limbs_val t \<noteq> 0" using t(1) by (simp add: sticky_def)
  note rn = round_to_d_sticky [OF ok t nz bl me]
  have p: "real R powi j = 2 powi (j * int rs)" for j
    by (simp only: Rp of_nat_power of_nat_numeral power_int_of_nat [symmetric] power_int_mult [symmetric] mult.commute)
  define X where "X = real N / D * 2 powi k"
  have X: "real N / D * real R powi (- off) * (if b then 2 else real R) powi expn = X"
  proof -
    have "real R powi (- off) * (if b then 2 else real R) powi expn = 2 powi (- off * int rs) * 2 powi x1" by (simp add: p x1_def)
    also have "\<dots> = 2 powi k" unfolding powi2_add [symmetric] by (simp add: k_def)
    finally show ?thesis unfolding X_def mult.assoc by (simp only:)
  qed
  have XB: "2 powi (int rs * (int c - 1) + k) \<le> X" "X < 2 powi (int c * int rs + k)"
  proof -
    have D0: "0 < real D" using t(2) by simp
    have "real (D * R ^ (c - 1)) \<le> real N" "real N < real (D * R ^ c)" using N(1,2) by (simp_all only: of_nat_le_iff of_nat_less_iff)
    then have b: "real R ^ (c - 1) \<le> real N / D" "real N / D < real R ^ c" using D0 by (simp_all add: field_simps)
    have "real R ^ (c - 1) = real R powi (int c - 1)" "real R ^ c = real R powi int c"
      using N(3) by (simp_all add: power_int_def nat_diff_distrib)
    then have l: "2 powi (int rs * (int c - 1)) = real R ^ (c - 1)" "2 powi (int c * int rs) = real R ^ c"
      unfolding p by (simp_all only: mult.commute)
    show "2 powi (int rs * (int c - 1) + k) \<le> X" unfolding X_def powi2_add l using b(1) by (intro mult_right_mono) simp_all
    show "X < 2 powi (int c * int rs + k)" unfolding X_def powi2_add l using b(2) by (intro mult_strict_right_mono) simp_all
  qed
  define A where "A = (if k + int c * int rs \<ge> 1024 + int rs then f64_inf else if k + int c * int rs \<le> -1075 then 0 else f64_pack m e)"
  have "atod_round R rs 1 rs t expn off c b = Some A"
    using i rs(1) by (auto simp: atod_round_def x1_def me A_def)
  moreover have "reads_as X A"
  proof -
    consider "k + int c * int rs \<ge> 1024 + int rs" | "k + int c * int rs < 1024 + int rs" "k + int c * int rs \<le> -1075"
      | "k + int c * int rs < 1024 + int rs" "k + int c * int rs > -1075" by linarith
    then show ?thesis
    proof cases
      case 1
      then have "(2 :: real) powi 1024 \<le> 2 powi (int rs * (int c - 1) + k)" by (intro powi2_mono) (simp add: algebra_simps)
      then have "2 powi 1024 \<le> X" using XB(1) by (rule order_trans)
      then show ?thesis using reads_as_large rn(1) 1 unfolding X_def [symmetric] by (simp only: A_def if_True)
    next
      case 2
      then have "(2 :: real) powi (int c * int rs + k) \<le> 2 powi (-1075)" by (intro powi2_mono) simp
      then have "X < 2 powi (-1075)" using XB(2) by (rule less_le_trans [rotated])
      moreover have "A = 0" using 2 by (simp add: A_def)
      ultimately show ?thesis using reads_as_small rn(1) unfolding X_def [symmetric] by blast
    next
      case 3
      then have "A = f64_pack m e" by (simp add: A_def)
      then show ?thesis using rn rounds_to_ulp [OF rn(1)] f64_pack_val unfolding X_def [symmetric] reads_as_def by metis
    qed
  qed
  ultimately show thesis using that X by simp
qed

subsection \<open>The number of a text\<close>

lemma horner_Cons: "horner R (d # ds) = d * R ^ length ds + horner R ds"
proof -
  have "horner R (d # ds) = horner R ([d] @ ds)" by simp
  also have "\<dots> = horner R [d] * R ^ length ds + horner R ds" by (rule horner_append)
  finally show ?thesis by (simp add: horner_def)
qed

lemma horner_bounds:
  assumes "\<forall>d\<in>set ds. d < R"
  shows "horner R ds < R ^ length ds \<or> R = 0" and "ds \<noteq> [] \<Longrightarrow> hd ds \<noteq> 0 \<Longrightarrow> R ^ (length ds - 1) \<le> horner R ds"
proof -
  have h: "horner R ds < R ^ length ds \<or> R = 0" if "\<forall>d\<in>set ds. d < R" for ds
    using that
  proof (induction ds rule: rev_induct)
    case (snoc d ds)
    then have d: "d < R" and "horner R ds < R ^ length ds" by auto
    then have "(horner R ds + 1) * R \<le> R ^ length ds * R" by (intro mult_le_mono1) simp
    with d show ?case by (simp add: algebra_simps)
  qed simp
  then show "horner R ds < R ^ length ds \<or> R = 0" using assms .
  assume "ds \<noteq> []" "hd ds \<noteq> 0"
  then obtain d t where d: "ds = [d] @ t" "1 \<le> d" by (cases ds) auto
  have "1 * R ^ length t \<le> d * R ^ length t" using d(2) by (rule mult_le_mono1)
  then have "R ^ length t \<le> horner R (d # t)" unfolding horner_Cons by linarith
  then show "R ^ (length ds - 1) \<le> horner R ds" using d(1) by simp
qed

lemma horner_zeros: "horner R ds = 0 \<longleftrightarrow> (\<forall>d\<in>set ds. d = 0)" if "0 < R"
  using that by (induction ds rule: rev_induct) auto

lemma horner_drop_zeros: "horner R (dropWhile ((=) 0) ds) = horner R ds"
proof (induction ds)
  case (Cons d ds)
  then show ?case by (auto simp: horner_Cons)
qed simp

lemma hd_drop_zeros: "dropWhile ((=) 0) ds \<noteq> [] \<Longrightarrow> hd (dropWhile ((=) 0) ds) \<noteq> (0 :: nat)"
  by (induction ds) auto

definition pow2_radix :: "nat \<Rightarrow> bool" where
  "pow2_radix R \<longleftrightarrow> R \<in> {2, 4, 8, 16, 32}"

text \<open>The digits that count: all of them for a power of two, the leading ones otherwise.\<close>

definition kept :: "nat \<Rightarrow> nat list \<Rightarrow> nat list" where
  "kept R sd = (if pow2_radix R then sd else take (digit_limit R) sd @ replicate (length sd - digit_limit R) 0)"

lemma horner_kept:
  "\<not> pow2_radix R \<Longrightarrow> horner R (kept R sd) = horner R (take (digit_limit R) sd) * R ^ (length sd - digit_limit R)"
proof -
  assume "\<not> pow2_radix R"
  moreover have "horner R (replicate k 0) = 0" for k by (induction k) (simp_all add: horner_def)
  ultimately show ?thesis by (simp add: kept_def horner_append)
qed

lemma radix_ok_pow2: "radix_ok R r rs \<Longrightarrow> r = 1 \<longleftrightarrow> pow2_radix R"
proof -
  assume "radix_ok R r rs"
  moreover have t: "list_all (\<lambda>R. R div 2 ^ ctz32 (of_nat R) = 1 \<longleftrightarrow> R \<in> set [2, 4, 8, 16, 32]) [2..<37]" by code_simp
  moreover have "R \<in> {2..<37}" using \<open>radix_ok R r rs\<close> by (simp add: radix_ok_def)
  ultimately show ?thesis using bspec [OF t [unfolded list_all_iff set_upt], of R] by (simp add: radix_ok_def pow2_radix_def)
qed

lemma atod_round_digits:
  assumes R: "radix_ok R r rs" and sd: "\<forall>d\<in>set sd. d < R" "sd \<noteq> []" "hd sd \<noteq> 0" and inv: "acc_inv R sd acc"
    and ex: "\<bar>expn\<bar> \<le> 10 ^ 8" "\<bar>j\<bar> \<le> 10 ^ 7" "int (length sd) \<le> 10 ^ 7" and b: "b \<longrightarrow> r = 1"
  defines "t \<equiv> atod_flush R acc" and "rb \<equiv> if r = 1 then rs else 0"
  defines "t' \<equiv> if rb \<noteq> 0 \<and> extra_digits acc \<noteq> 0 then t[0 := t ! 0 OR 1] else t"
  obtains a where "atod_round R rb r rs t' expn (int (digit_count acc) - int (length sd) - j) (digit_count acc) b = Some a"
    "reads_as (real (horner R (kept R sd)) * real R powi j * (if b then 2 else real R) powi expn) a"
proof -
  note rd = radix_okD [OF R]
  define K c where "K = digit_limit R" and "c = digit_count acc"
  have K: "1 \<le> K" "K \<le> 80" using exponent_tables(3,4) [OF rd(1,2)] by (simp_all add: K_def)
  have c: "c = min (length sd) K" using inv by (simp add: acc_inv_def c_def K_def)
  have c1: "1 \<le> c" "c \<le> 80" "c \<le> length sd" using c K sd(2) by (cases sd; simp)+
  define tk where "tk = take K sd"
  have tk: "\<forall>d\<in>set tk. d < R" "tk \<noteq> []" "hd tk \<noteq> 0" "length tk = c"
    using sd K c by (auto simp: tk_def dest: in_set_takeD)
  define V where "V = horner R tk"
  have V: "R ^ (c - 1) \<le> V" "V < R ^ c" using horner_bounds [OF tk(1)] tk(2-4) rd(1) by (auto simp: V_def)
  have t: "limbs_val t = V" "mpb_ok t" using atod_flush_val [OF rd(1,2) inv] by (simp_all add: t_def V_def tk_def K_def)
  define off where "off = int c - int (length sd) - j"
  have off: "\<bar>off\<bar> \<le> 10 ^ 8" using ex(2,3) c1 by (simp add: off_def abs_le_iff)
  define D where "D = R ^ (length sd - c)"
  have D: "0 < D" "real D = real R powi (int (length sd) - int c)"
    using rd(1) c1(3) by (simp_all add: D_def power_int_def nat_diff_distrib)
  have R0: "real R \<noteq> 0" using rd(1) by simp
  have Dj: "real D * real R powi j = real R powi (- off)" unfolding D(2) power_int_add [OF disjI1 [OF R0], symmetric] by (simp add: off_def algebra_simps)
  show thesis
  proof (cases "r = 1")
    case False
    then have "\<not> pow2_radix R" "rb = 0" "t' = t" "\<not> b" using radix_ok_pow2 [OF R] b by (simp_all add: rb_def t'_def)
    note s = this
    have "length sd - K = length sd - c" using c by auto
    then have "horner R (kept R sd) = V * D" using horner_kept [OF s(1), of sd] by (simp add: V_def D_def tk_def K_def)
    then have "real (horner R (kept R sd)) * real R powi j * real R powi expn = real V * (real D * real R powi j) * real R powi expn" by simp
    also have "\<dots> = real V * real R powi (expn - off)"
      unfolding Dj mult.assoc power_int_add [OF disjI1 [OF R0], symmetric] by (simp add: add.commute)
    finally have v: "real (horner R (kept R sd)) * real R powi j * (if b then 2 else real R) powi expn = real V * real R powi (expn - off)"
      using s(4) by simp
    obtain a where "atod_round R 0 r rs t expn off c b = Some a" "reads_as (real (limbs_val t) * real R powi (expn - off)) a"
      by (rule atod_round_general [OF R False t(2) _ _ c1(1,2) ex(1) off]) (use V t(1) in simp_all)
    then show thesis using that v t(1) s unfolding off_def c_def by simp
  next
    case True
    define N where "N = horner R sd"
    have sp: "sd = tk @ drop K sd" "length (drop K sd) = length sd - c" using c by (simp_all add: tk_def)
    have dr: "\<forall>d\<in>set (drop K sd). d < R" using sd(1) by (auto dest: in_set_dropD)
    have N: "N = V * D + horner R (drop K sd)" "horner R (drop K sd) < D"
      unfolding N_def V_def D_def sp(2) [symmetric] horner_append [symmetric] sp(1) [symmetric]
      using horner_bounds(1) [OF dr] rd(1) by auto
    then have dm: "N div D = V" "N mod D = horner R (drop K sd)" using divmod_of [of "horner R (drop K sd)" D V] by simp_all
    have exd: "extra_digits acc \<noteq> 0 \<longleftrightarrow> N mod D \<noteq> 0"
      unfolding dm(2) using inv horner_zeros [of R "drop K sd"] rd(1) by (simp add: acc_inv_def K_def)
    have rs: "rs \<noteq> 0" "rb = rs" using rd(1,5) True by (auto simp: rb_def intro: ccontr)
    have "t \<noteq> []" using t(2) by (simp add: mpb_ok_def)
    then have t'o: "t' = or_low t (N mod D \<noteq> 0)" using rs exd by (cases t) (auto simp: t'_def)
    have t': "limbs_val t' = sticky (N div D) (N mod D \<noteq> 0)" "mpb_ok t'"
      unfolding t'o dm(1) using or_low_val(1) [OF \<open>t \<noteq> []\<close>] t or_low_ok by simp_all
    have NB: "D * R ^ (c - 1) \<le> N" "N < D * R ^ c"
    proof -
      have "R ^ (c - 1) * D \<le> V * D" using V(1) by (rule mult_le_mono1)
      then show "D * R ^ (c - 1) \<le> N" unfolding N(1) by (simp only: mult.commute [of D])
      have "(V + 1) * D \<le> R ^ c * D" using V(2) by (intro mult_le_mono1) simp
      then show "N < D * R ^ c" using N by (simp add: algebra_simps)
    qed
    have bl: "D = 1 \<or> 55 \<le> bit_len (limbs_val t')"
    proof (cases "length sd \<le> K")
      case True
      then show ?thesis using c by (simp add: D_def)
    next
      case False
      then have "c = K" using c by simp
      moreover have "2 ^ 55 \<le> R ^ (K - 1)"
        using True radix_ok_pow2 [OF R] by (auto simp: pow2_radix_def K_def atod_max_digits_table_def)
      moreover have "V \<le> limbs_val t'" unfolding t'(1) dm(1) by (simp add: sticky_def)
      ultimately have "2 ^ 55 \<le> limbs_val t'" using V(1) by (simp only:)
      then have "\<not> limbs_val t' < 2 ^ 55" by simp
      moreover have "limbs_val t' < 2 ^ bit_len (limbs_val t')"
        by (cases "limbs_val t' = 0") (use bit_len_bounds [of "limbs_val t'"] in simp_all)
      ultimately have "(2 :: nat) ^ 55 < 2 ^ bit_len (limbs_val t')" by linarith
      then have "55 < bit_len (limbs_val t')" by (rule power_less_imp_less_exp [rotated]) simp
      then show ?thesis by simp
    qed
    have v: "real (horner R (kept R sd)) * real R powi j = real N / D * real R powi (- off)"
      using True radix_ok_pow2 [OF R] D(1) unfolding Dj [symmetric] by (simp add: kept_def N_def)
    obtain a where "atod_round R rs 1 rs t' expn off c b = Some a"
      "reads_as (real N / D * real R powi (- off) * (if b then 2 else real R) powi expn) a"
      by (rule atod_round_pow2 [OF R [unfolded True] t'(2,1) D(1) NB c1(1,2) bl ex(1) off])
    then show thesis using that v True rs unfolding off_def c_def by simp
  qed
qed

subsection \<open>The exponent of a text\<close>

lemma exp_digits_run:
  assumes "digit_text 10 s" "e * 10 ^ length s + int (horner 10 (map to_digit s)) \<le> 10 ^ 8" "0 \<le> e"
  shows "exp_digits None (s @ q) e False = exp_digits None q (e * 10 ^ length s + int (horner 10 (map to_digit s))) False"
  using assms
proof (induction s arbitrary: e)
  case (Cons c s)
  define e' where "e' = e * 10 + int (to_digit c)"
  have e': "e * 10 ^ length (c # s) + int (horner 10 (map to_digit (c # s))) = e' * 10 ^ length s + int (horner 10 (map to_digit s))"
    by (simp add: horner_Cons e'_def algebra_simps)
  have ge: "0 \<le> e'" using Cons(4) by (simp add: e'_def)
  have "e' * 1 \<le> e' * 10 ^ length s" using ge by (intro mult_left_mono) simp_all
  then have "e' \<le> 10 ^ 8" using Cons(3) unfolding e' by simp
  then have "e \<le> (2147483647 - 2 - 9) div 10" by (simp add: e'_def)
  then have "exp_digits None ((c # s) @ q) e False = exp_digits None (s @ q) e' False"
    using Cons(2) by (subst exp_digits.simps) (simp add: e'_def)
  also have "\<dots> = exp_digits None q (e' * 10 ^ length s + int (horner 10 (map to_digit s))) False"
    using Cons(2,3) ge unfolding e' by (intro Cons(1)) simp_all
  finally show ?case unfolding e' .
qed simp

lemma exp_digits_stop: "10 \<le> to_digit (at0 q) \<Longrightarrow> exp_digits None q e b = (q, e, b)"
  by (subst exp_digits.simps) simp

definition exp_letter :: "nat \<Rightarrow> char \<Rightarrow> bool" where
  "exp_letter R c \<longleftrightarrow>
     (if R = 10 then c \<in> {CHR ''e'', CHR ''E''}
      else c = CHR ''@'' \<or> R \<in> {2, 4, 8, 16} \<and> c \<in> {CHR ''p'', CHR ''P''})"

definition exp_text :: "(char \<times> string \<times> string) option \<Rightarrow> string" where
  "exp_text ex = (case ex of None \<Rightarrow> [] | Some (c, sg, es) \<Rightarrow> c # sg @ es)"

definition exp_ok :: "nat \<Rightarrow> (char \<times> string \<times> string) option \<Rightarrow> bool" where
  "exp_ok R ex = (case ex of None \<Rightarrow> True
     | Some (c, sg, es) \<Rightarrow> exp_letter R c \<and> sg \<in> {[], ''+'', ''-''} \<and> es \<noteq> [] \<and> digit_text 10 es \<and>
         horner 10 (map to_digit es) \<le> 10 ^ 8)"

definition exp_num :: "(char \<times> string \<times> string) option \<Rightarrow> int" where
  "exp_num ex = (case ex of None \<Rightarrow> 0
     | Some (c, sg, es) \<Rightarrow> (if sg = ''-'' then -1 else 1) * int (horner 10 (map to_digit es)))"

definition exp_bin :: "(char \<times> string \<times> string) option \<Rightarrow> bool" where
  "exp_bin ex = (case ex of None \<Rightarrow> False | Some (c, sg, es) \<Rightarrow> c \<in> {CHR ''p'', CHR ''P''})"

text \<open>What may follow the number in the text.\<close>

definition tail_ok :: "nat \<Rightarrow> (char \<times> string \<times> string) option \<Rightarrow> string \<Rightarrow> bool" where
  "tail_ok R ex tail = (case ex of
       None \<Rightarrow> R \<le> to_digit (at0 tail) \<and> at0 tail \<noteq> CHR ''.'' \<and> \<not> exp_letter R (at0 tail) \<and> at0 tail \<notin> {CHR ''x'', CHR ''X''}
     | Some _ \<Rightarrow> 10 \<le> to_digit (at0 tail))"

lemma exp_letter_digit:
  assumes "2 \<le> R" "R \<le> 36" "exp_letter R c"
  shows "R \<le> to_digit c" "c \<noteq> CHR ''.''" "c \<noteq> CHR ''x''" "c \<noteq> CHR ''X''"
proof -
  have "to_digit (CHR ''e'') = 14" "to_digit (CHR ''E'') = 14" "to_digit (CHR ''p'') = 25" "to_digit (CHR ''P'') = 25" by code_simp+
  then show "R \<le> to_digit c" "c \<noteq> CHR ''.''" "c \<noteq> CHR ''x''" "c \<noteq> CHR ''X''"
    using assms by (auto simp: exp_letter_def split: if_splits)
qed

lemma exp_letter_bits:
  assumes "radix_ok R r rs"
  shows "(if r = 1 then rs else 0) \<ge> 1 \<and> (if r = 1 then rs else 0) \<le> 4 \<longleftrightarrow> R \<in> {2, 4, 8, 16}"
proof -
  have "r = 1 \<Longrightarrow> rs \<ge> 1" using radix_okD(1,5) [OF assms] by (cases rs) auto
  then show ?thesis using exp_char_radix [OF assms] by auto
qed

lemma atod_exponent_text:
  assumes R: "radix_ok R r rs" and fl: "flags AND JS_ATOD_INT_ONLY = 0" and ex: "exp_ok R ex" "tail_ok R ex tail"
    and len: "length (exp_text ex @ tail) < length ps"
  shows "\<exists>neg. atod_exponent R (if r = 1 then rs else 0) flags None ps (exp_text ex @ tail) =
    Inr (tail, exp_num ex, False, neg, exp_bin ex)"
proof -
  note bits = exp_letter_bits [OF R]
  define letter where "letter c \<longleftrightarrow> R = 10 \<and> (c = CHR ''e'' \<or> c = CHR ''E'') \<or>
      R \<noteq> 10 \<and> (c = CHR ''@'' \<or> (if r = 1 then rs else 0) \<ge> 1 \<and> (if r = 1 then rs else 0) \<le> 4 \<and> (c = CHR ''p'' \<or> c = CHR ''P''))" for c
  have lt: "letter c \<longleftrightarrow> exp_letter R c" for c
    unfolding letter_def exp_letter_def using bits by (cases "R = 10") auto
  show ?thesis
  proof (cases ex)
    case None
    then show ?thesis
      using ex(2) unfolding atod_exponent_def letter_def [symmetric] lt
      by (simp add: exp_text_def tail_ok_def exp_num_def exp_bin_def) blast
  next
    case (Some y)
    obtain c sg es where y: "y = (c, sg, es)" by (cases y)
    have o: "exp_letter R c" "sg \<in> {[], ''+'', ''-''}" "es \<noteq> []" "digit_text 10 es" "horner 10 (map to_digit es) \<le> 10 ^ 8"
      "10 \<le> to_digit (at0 tail)" using ex by (simp_all add: Some y exp_ok_def tail_ok_def)
    obtain d es' where es: "es = d # es'" using o(3) by (cases es) auto
    have d: "to_digit d < 10" "d \<noteq> CHR ''+''" "d \<noteq> CHR ''-''" using o(4) es by (auto simp: to_digit_def in_range_def split: if_splits)
    have "int (horner 10 (map to_digit es)) = int (to_digit d) * 10 ^ length es' + int (horner 10 (map to_digit es'))"
      by (simp add: es horner_Cons)
    then have run: "exp_digits None (es' @ tail) (int (to_digit d)) False = (tail, int (horner 10 (map to_digit es)), False)"
      using exp_digits_run [of es' "int (to_digit d)" tail] o(4,5) exp_digits_stop [OF o(6)] es by simp
    have "sg = [] \<or> sg = ''+'' \<or> sg = ''-''" using o(2) by auto
    then show ?thesis
      using o(1) len run d unfolding atod_exponent_def letter_def [symmetric] lt
      by (elim disjE) (simp_all add: Some y exp_text_def exp_num_def exp_bin_def fl es Let_def, blast+)
  qed
qed

subsection \<open>The reader on a numeral\<close>

text \<open>
  The digits of a text without its leading zeros; the number of the text; and the number the reader
  rounds, in which the digits beyond the limit of the code are zeros, unless the radix is a power of
  two.
\<close>

definition sig_digits :: "string \<Rightarrow> string option \<Rightarrow> nat list" where
  "sig_digits ip f = dropWhile ((=) 0) (map to_digit (ip @ frac_digits f))"

definition text_number :: "nat \<Rightarrow> string \<Rightarrow> string option \<Rightarrow> (char \<times> string \<times> string) option \<Rightarrow> real" where
  "text_number R ip f ex =
     real (horner R (map to_digit (ip @ frac_digits f))) * real R powi (- int (length (frac_digits f))) *
     (if exp_bin ex then 2 else real R) powi exp_num ex"

definition read_number :: "nat \<Rightarrow> string \<Rightarrow> string option \<Rightarrow> (char \<times> string \<times> string) option \<Rightarrow> real" where
  "read_number R ip f ex =
     real (horner R (kept R (sig_digits ip f))) * real R powi (- int (length (frac_digits f))) *
     (if exp_bin ex then 2 else real R) powi exp_num ex"

definition numeral_ok :: "nat \<Rightarrow> string \<Rightarrow> string option \<Rightarrow> (char \<times> string \<times> string) option \<Rightarrow> string \<Rightarrow> bool" where
  "numeral_ok R ip f ex tail \<longleftrightarrow>
     digit_text R ip \<and> digit_text R (frac_digits f) \<and> (ip \<noteq> [] \<or> frac_digits f \<noteq> []) \<and>
     length (ip @ frac_digits f) \<le> 10 ^ 7 \<and> exp_ok R ex \<and> tail_ok R ex tail"

lemma atod_number_text:
  assumes R: "2 \<le> R" "R \<le> 36" and fl: "flags AND JS_ATOD_INT_ONLY = 0" and ok: "numeral_ok R ip f ex tail"
    and ps: "length (ip @ frac_text f @ exp_text ex @ tail) \<le> length ps"
  shows "\<exists>a. atod_number ps (ip @ frac_text f @ exp_text ex @ tail) R flags None = Some (Some a, tail) \<and>
    (if sig_digits ip f = [] then a = 0 else reads_as (read_number R ip f ex) a)"
proof -
  define rs r rb where "rs = ctz32 (of_nat R)" and "r = R div 2 ^ rs" and "rb = (if r = 1 then rs else 0)"
  have Rok: "radix_ok R r rs" using R by (simp add: radix_ok_def r_def rs_def)
  define rest ds sd where "rest = exp_text ex @ tail" and "ds = map to_digit (ip @ frac_digits f)" and "sd = sig_digits ip f"
  have o: "digit_text R ip" "digit_text R (frac_digits f)" "ip \<noteq> [] \<or> frac_digits f \<noteq> []"
    "length ds \<le> 10 ^ 7" "exp_ok R ex" "tail_ok R ex tail" using ok by (simp_all add: numeral_ok_def ds_def)
  have rest: "R \<le> to_digit (at0 rest)" "at0 rest \<noteq> CHR ''.''"
    using o(5,6) exp_letter_digit [OF R] by (auto simp: rest_def exp_text_def exp_ok_def tail_ok_def split: option.splits)
  have sdd: "sd = dropWhile ((=) 0) ds" by (simp add: sd_def sig_digits_def ds_def)
  obtain q sp dp where sc: "skip_zeros ps R flags None (ip @ frac_text f @ rest) 0 (-1) = Inr (q, sp, dp)"
    "take_digits ps R flags None q sp dp acc_empty =
       Inr (rest, int (length ds), if f = None then -1 else int (length ip), add_digits R acc_empty sd)"
    "sp = int (length ds) - int (length sd)"
    unfolding sdd ds_def by (rule scan_digits [OF R fl o(1-3) rest ps [folded rest_def]])
  have lt: "length rest < length ps" using ps o(3) by (cases f; cases ip) (auto simp: rest_def frac_text_def frac_digits_def)
  obtain neg where ex: "atod_exponent R rb flags None ps rest = Inr (tail, exp_num ex, False, neg, exp_bin ex)"
    using atod_exponent_text [OF Rok fl o(5,6), of ps] lt by (auto simp: rest_def rb_def)
  define acc where "acc = add_digits R acc_empty sd"
  have sdR: "\<forall>d\<in>set sd. d < R"
    using o(1,2) unfolding sdd ds_def by (auto simp: digit_text_def dest!: set_dropWhileD)
  have inv: "acc_inv R sd acc" unfolding acc_def by (rule add_digits_inv [OF R sdR])
  have dc: "digit_count acc = 0 \<longleftrightarrow> sd = []"
    using inv exponent_tables(4) [OF R] by (cases sd) (auto simp: acc_inv_def)
  define j where "j = - int (length (frac_digits f))"
  have dp: "(if (if f = None then -1 else int (length ip)) < 0 then int (length ds) else if f = None then -1 else int (length ip)) = int (length ds) + j"
    by (auto simp: ds_def j_def frac_digits_def)
  define t where "t = (if rb \<noteq> 0 \<and> extra_digits acc \<noteq> 0 then (atod_flush R acc)[0 := atod_flush R acc ! 0 OR 1] else atod_flush R acc)"
  have ltl: "length tail \<noteq> length ps" using lt by (simp add: rest_def)
  have num: "atod_number ps (ip @ frac_text f @ rest) R flags None =
      (if sd = [] then Some (Some 0, tail)
       else map_option (\<lambda>a. (Some a, tail))
         (atod_round R rb r rs t (exp_num ex) (sp + int (digit_count acc) - (int (length ds) + j)) (digit_count acc) (exp_bin ex)))"
    unfolding atod_number_def Let_def acc_empty_def [symmetric] rs_def [symmetric] r_def [symmetric] rb_def [symmetric]
      sc(1,2) sum.case prod.case acc_def [symmetric] ex dp t_def [symmetric] dc using ltl by simp
  show ?thesis
  proof (cases "sd = []")
    case True
    then show ?thesis using num by (simp add: rest_def [symmetric] sd_def [symmetric])
  next
    case False
    have hd: "hd sd \<noteq> 0" using hd_drop_zeros False unfolding sdd .
    have lsd: "length sd \<le> length ds" unfolding sdd by (rule length_dropWhile_le)
    have xb: "\<bar>exp_num ex\<bar> \<le> 10 ^ 8" using o(5) by (auto simp: exp_num_def exp_ok_def split: option.splits)
    have jb: "\<bar>j\<bar> \<le> 10 ^ 7" "int (length sd) \<le> 10 ^ 7" using o(4) lsd by (auto simp: j_def ds_def)
    have bin: "exp_bin ex \<longrightarrow> r = 1"
      using o(5) exp_char_radix [OF Rok] by (auto simp: exp_bin_def exp_ok_def exp_letter_def split: option.splits if_splits)
    obtain a where a: "atod_round R rb r rs t (exp_num ex) (int (digit_count acc) - int (length sd) - j) (digit_count acc) (exp_bin ex) = Some a"
      "reads_as (real (horner R (kept R sd)) * real R powi j * (if exp_bin ex then 2 else real R) powi exp_num ex) a"
      unfolding t_def rb_def by (rule atod_round_digits [OF Rok sdR False hd inv xb jb bin])
    have o: "sp + int (digit_count acc) - (int (length ds) + j) = int (digit_count acc) - int (length sd) - j" using sc(3) by simp
    have "atod_number ps (ip @ frac_text f @ rest) R flags None = Some (Some a, tail)" unfolding num o a(1) using False by simp
    then show ?thesis
      using a(2) False unfolding rest_def [symmetric] sd_def [symmetric] read_number_def j_def [symmetric] by auto
  qed
qed

lemma no_hex_prefix:
  assumes R: "2 \<le> R" "R \<le> 36" and ok: "numeral_ok R ip f ex tail" and z: "at0 (ip @ frac_text f @ exp_text ex @ tail) = CHR ''0''" and "R = 16"
  shows "at1 (ip @ frac_text f @ exp_text ex @ tail) \<notin> {CHR ''x'', CHR ''X''}"
proof -
  have x: "to_digit (CHR ''x'') = 33" "to_digit (CHR ''X'') = 33" by code_simp+
  have "ip \<noteq> []" using ok z by (cases f) (auto simp: numeral_ok_def frac_text_def frac_digits_def)
  then obtain ip' where ip: "ip = CHR ''0'' # ip'" using z by (cases ip) auto
  show ?thesis
    using ok x ip assms(5) exp_letter_digit [OF R]
    by (cases ip'; cases f) (auto simp: numeral_ok_def frac_text_def exp_text_def exp_ok_def tail_ok_def split: option.splits)
qed

lemma atod_prefix_text:
  assumes R: "2 \<le> R" "R \<le> 36" and ok: "numeral_ok R ip f ex tail"
  defines "s \<equiv> ip @ frac_text f @ exp_text ex @ tail"
  assumes I: "at0 s \<noteq> CHR ''I''"
  shows "atod_prefix s R flags None = Prefix_Go s R None"
proof -
  have "strstart s ''Infinity'' = None" using I by (cases s) (auto simp: at0_def)
  moreover have "at0 s = CHR ''0'' \<Longrightarrow> R = 16 \<Longrightarrow> at1 s \<notin> {CHR ''x'', CHR ''X''}"
    using no_hex_prefix [OF R ok] unfolding s_def by blast
  ultimately show ?thesis using R(1) by (auto simp: atod_prefix_def Let_def)
qed

lemma text_first:
  assumes "numeral_ok R ip f ex tail" "R \<le> 36"
  shows "at0 (ip @ frac_text f @ exp_text ex @ tail) \<notin> {CHR ''+'', CHR ''-''}"
proof -
  have d: "to_digit (CHR ''+'') = 36" "to_digit (CHR ''-'') = 36" by code_simp+
  show ?thesis
    using assms d by (cases ip; cases f) (auto simp: numeral_ok_def frac_text_def frac_digits_def)
qed

lemma js_atod_text:
  assumes R: "2 \<le> R" "R \<le> 36" and fl: "flags AND JS_ATOD_INT_ONLY = 0" "flags AND JS_ATOD_ACCEPT_UNDERSCORES = 0"
    and ok: "numeral_ok R ip f ex tail" and sg: "sg \<in> {[], ''+'', ''-''}"
  defines "s \<equiv> ip @ frac_text f @ exp_text ex @ tail"
  assumes I: "at0 s \<noteq> CHR ''I''"
  shows "\<exists>a. js_atod (sg @ s) R flags = Some (Some (a OR push_bit 63 (if sg = ''-'' then 1 else 0)), tail) \<and>
    (if sig_digits ip f = [] then a = 0 else reads_as (read_number R ip f ex) a)"
proof -
  obtain a where a: "atod_number s s R flags None = Some (Some a, tail)"
    "if sig_digits ip f = [] then a = 0 else reads_as (read_number R ip f ex) a"
    using atod_number_text [OF R fl(1) ok, of s] by (auto simp: s_def)
  have f: "at0 s \<noteq> CHR ''+''" "at0 s \<noteq> CHR ''-''" using text_first [OF ok R(2)] by (auto simp: s_def)
  have sn: "atod_sign (sg @ s) = (sg = ''-'', s)" using sg f by (auto simp: atod_sign_def)
  have "js_atod (sg @ s) R flags = Some (Some (a OR push_bit 63 (if sg = ''-'' then 1 else 0)), tail)"
    using atod_prefix_text [OF R ok I [unfolded s_def], of flags, folded s_def] a(1) fl(2) R(1) by (simp add: js_atod_def sn)
  then show ?thesis using a(2) by blast
qed

end
