(* ===== verification/Number_Roundtrip.thy ===== *)
theory Number_Roundtrip
  imports Atod_Correct
begin

text \<open>
  The printer \<^verbatim>\<open>js_dtoa\<close> and the reader \<^verbatim>\<open>js_atod\<close> together: the texts of the printer are numerals
  of the reader, and reading them gives the number that was printed.
\<close>

subsection \<open>Rounding is a function\<close>

lemma near_even_unique:
  assumes "near_even x N" "near_even x M"
  shows "N = M"
proof (rule ccontr)
  assume n: "N \<noteq> M"
  have b: "\<bar>x - real N\<bar> \<le> 1 / 2" "\<bar>x - real M\<bar> \<le> 1 / 2" using assms near_even_abs by auto
  then have "\<bar>real N - real M\<bar> \<le> 1" by linarith
  moreover have "1 \<le> \<bar>real N - real M\<bar>" using n by linarith
  ultimately have "\<bar>real N - real M\<bar> = 1" by linarith
  then have "\<bar>x - real N\<bar> = 1 / 2" "\<bar>x - real M\<bar> = 1 / 2" using b by linarith+
  then have "even N" "even M" using assms by (simp_all add: near_even_def)
  moreover have "N = M + 1 \<or> M = N + 1" using \<open>\<bar>real N - real M\<bar> = 1\<close> by linarith
  ultimately show False by auto
qed

lemma rounds_to_unique:
  assumes "rounds_to x y" "rounds_to x z"
  shows "y = z"
proof -
  obtain e N where e: "2 powi (e - 1) \<le> x" "x < 2 powi e" "y = real N * 2 powi ulp_exp e" "near_even (x / 2 powi ulp_exp e) N"
    using assms(1) unfolding rounds_to_def by blast
  obtain e' M where e': "2 powi (e' - 1) \<le> x" "x < 2 powi e'" "z = real M * 2 powi ulp_exp e'" "near_even (x / 2 powi ulp_exp e') M"
    using assms(2) unfolding rounds_to_def by blast
  have "e - 1 < e'" "e' - 1 < e" using le_less_trans [OF e(1) e'(2)] le_less_trans [OF e'(1) e(2)] by (simp_all only: powi2_less_iff)
  then have "e = e'" by simp
  then show ?thesis using e(3,4) e'(3,4) near_even_unique by metis
qed

text \<open>A float64 is determined by its sign and its absolute value.\<close>

lemma f64_unat: "unat a = (if f64_sign a then 2 ^ 63 else 0) + f64_exp a * 2 ^ 52 + unat (f64_mant a)"
proof -
  define s where "s = unat a div 2 ^ 52 div 2 ^ 11"
  have u: "unat a < 2 ^ 64" using unat_bound [of a] by simp
  have s: "s = unat a div 2 ^ 63" by (simp add: s_def div_mult2_eq [symmetric])
  then have s01: "s = (if f64_sign a then 1 else 0)" using u f64_fields(3) [of a] by (auto simp: div_eq_0_iff intro!: div_nat_eqI)
  have "unat a = unat a div 2 ^ 52 * 2 ^ 52 + unat (f64_mant a)" unfolding f64_fields(2) by (simp only: div_mult_mod_eq)
  moreover have "unat a div 2 ^ 52 = s * 2 ^ 11 + f64_exp a" unfolding f64_fields(1) s_def by (simp only: div_mult_mod_eq)
  ultimately show ?thesis using s01 by (simp add: algebra_simps)
qed

lemma f64_abs_inj:
  assumes "f64_abs a = f64_abs b"
  shows "f64_exp a = f64_exp b \<and> f64_mant a = f64_mant b"
proof -
  have bounds: "2 powi (int (f64_exp c) - 1023) \<le> f64_abs c" "f64_abs c < 2 powi (int (f64_exp c) - 1022)" if "f64_exp c \<noteq> 0" for c
  proof -
    define M where "M = unat (f64_mant c)"
    have "real M < real (2 ^ 52)" using f64_mant_bound [of c] by (simp only: M_def of_nat_less_iff)
    then have "(2 :: real) ^ 52 \<le> 2 ^ 52 + real M" "2 ^ 52 + real M < (2 :: real) ^ 53" by simp_all
    then have "(2 :: real) ^ 52 * 2 powi (int (f64_exp c) - 1075) \<le> f64_abs c" "f64_abs c < (2 :: real) ^ 53 * 2 powi (int (f64_exp c) - 1075)"
      using that by (simp_all add: f64_abs_def M_def [symmetric] mult_right_mono)
    then show "2 powi (int (f64_exp c) - 1023) \<le> f64_abs c" "f64_abs c < 2 powi (int (f64_exp c) - 1022)"
      using powi2_add [of 52 "int (f64_exp c) - 1075"] powi2_add [of 53 "int (f64_exp c) - 1075"] by (simp_all add: power_int_def)
  qed
  have small: "f64_abs c < 2 powi (-1022)" if "f64_exp c = 0" for c
  proof -
    have "real (unat (f64_mant c)) < real (2 ^ 52)" using f64_mant_bound [of c] by (simp only: of_nat_less_iff)
    then have "f64_abs c < 2 ^ 52 * 2 powi (-1074)" using that by (simp only: f64_abs_def if_True simp_thms) simp
    also have "(2 :: real) ^ 52 * 2 powi (-1074) = 2 powi (-1022)" using powi2_add [of 52 "-1074"] by simp
    finally show ?thesis .
  qed
  have e: "f64_exp a = f64_exp b"
  proof (rule ccontr)
    assume n: "f64_exp a \<noteq> f64_exp b"
    have False if "f64_exp c < f64_exp d" "f64_abs c = f64_abs d" for c d
    proof (cases "f64_exp c = 0")
      case True
      then have "(2 :: real) powi (int (f64_exp d) - 1023) < 2 powi (-1022)"
        using small [of c] bounds(1) [of d] that by simp
      then have "int (f64_exp d) - 1023 < -1022" by (simp only: powi2_less_iff)
      then show False using that True by simp
    next
      case False
      then have "(2 :: real) powi (int (f64_exp d) - 1023) < 2 powi (int (f64_exp c) - 1022)"
        using bounds(2) [of c] bounds(1) [of d] that by simp
      then show False using that by (simp add: powi2_less_iff)
    qed
    then show False using n assms by (metis linorder_neqE_nat)
  qed
  have "real (unat (f64_mant a)) = real (unat (f64_mant b))"
    using assms e by (cases "f64_exp b = 0") (simp_all add: f64_abs_def)
  then have "unat (f64_mant a) = unat (f64_mant b)" by (simp only: of_nat_eq_iff)
  then have "f64_mant a = f64_mant b" by (simp only: word_unat_eq_iff)
  with e show ?thesis by blast
qed

subsection \<open>Reading lower-case digits\<close>

definition lower_text :: "nat \<Rightarrow> string \<Rightarrow> bool" where
  "lower_text R s \<longleftrightarrow> set s \<subseteq> digit_char ` {..<R}"

lemma lower_text_simps [simp]:
  "lower_text R []" "lower_text R (s @ t) \<longleftrightarrow> lower_text R s \<and> lower_text R t"
  "lower_text R (c # s) \<longleftrightarrow> c \<in> digit_char ` {..<R} \<and> lower_text R s"
  by (auto simp: lower_text_def)

lemma lower_text_zero: "2 \<le> R \<Longrightarrow> CHR ''0'' \<in> digit_char ` {..<R}"
proof -
  have "CHR ''0'' = digit_char 0" by code_simp
  then show "2 \<le> R \<Longrightarrow> ?thesis" by (auto intro: image_eqI [of _ _ 0])
qed

lemma lower_text_zeros [simp]: "2 \<le> R \<Longrightarrow> lower_text R (replicate k (CHR ''0''))"
  using lower_text_zero by (induction k) auto

lemma lower_text_fixed: "0 < R \<Longrightarrow> lower_text R (fixed_digits R k n)"
  unfolding lower_text_def by (rule set_fixed_digits)

lemma lower_text_radix: "2 \<le> R \<Longrightarrow> lower_text R (radix_digits R n)"
  unfolding lower_text_def by (rule set_radix_digits)

lemma lower_digit_text: "R \<le> 36 \<Longrightarrow> lower_text R s \<Longrightarrow> digit_text R s"
  by (auto simp: lower_text_def digit_text_def to_digit_char)

lemma lower_text_plain:
  assumes "R \<le> 36" "lower_text R s"
  shows "CHR ''.'' \<notin> set s" "exp_char R \<notin> set s"
proof -
  have "exp_char R \<noteq> digit_char d \<and> CHR ''.'' \<noteq> digit_char d" if "d < R" for d
    using digit_char_not [of d] that assms(1) by (auto simp: exp_char_def)
  then show "CHR ''.'' \<notin> set s" "exp_char R \<notin> set s" using assms(2) by (auto simp: lower_text_def)
qed

lemma radix_value_horner:
  assumes "R \<le> 36" "B \<le> 36" "lower_text R s"
  shows "radix_value B s = horner B (map to_digit s)"
  using assms(3)
proof (induction s rule: rev_induct)
  case (snoc c s)
  then obtain d where "c = digit_char d" "d < 36" using assms(1) by auto
  with snoc show ?case by (simp add: to_digit_char)
qed (simp add: radix_value_def)

text \<open>The number that the reader sees is the number the text stands for.\<close>

definition lower_exp :: "nat \<Rightarrow> (char \<times> string \<times> string) option \<Rightarrow> bool" where
  "lower_exp R ex = (case ex of None \<Rightarrow> True
     | Some (c, sg, es) \<Rightarrow> c = exp_char R \<and> sg \<in> {''+'', ''-''} \<and> lower_text 10 es)"

lemma numeral_value_text:
  assumes R: "2 \<le> R" "R \<le> 36" and l: "lower_text R ip" "lower_text R (frac_digits f)" "lower_exp R ex"
    and k: "\<forall>d\<in>set (drop (digit_limit R) (sig_digits ip f)). d = 0"
  shows "numeral_value R (ip @ frac_text f @ exp_text ex) = read_number R ip f ex"
proof -
  define sd where "sd = sig_digits ip f"
  have kept: "horner R (kept R sd) = horner R (map to_digit (ip @ frac_digits f))"
  proof -
    have "drop (digit_limit R) sd = replicate (length sd - digit_limit R) 0"
      using k by (intro replicate_eqI) (auto simp: sd_def)
    then have "kept R sd = sd" using append_take_drop_id [of "digit_limit R" sd] by (simp add: kept_def)
    then show ?thesis by (simp add: sd_def sig_digits_def horner_drop_zeros)
  qed
  have v: "radix_value R (ip @ frac_digits f) = horner R (map to_digit (ip @ frac_digits f))"
    using l by (intro radix_value_horner [OF R(2) R(2)]) simp
  have tv: "text_value R (ip @ frac_text f) = real (horner R (kept R sd)) * real R powi (- int (length (frac_digits f)))"
    unfolding kept v [symmetric]
    using text_value_split [OF lower_text_plain(1) [OF R(2) l(1)], of R]
    by (cases f) (simp_all add: frac_text_def frac_digits_def power_int_minus divide_inverse)
  have ne: "exp_char R \<notin> set (ip @ frac_text f)"
    using lower_text_plain(2) [OF R(2)] l exp_char_not by (auto simp: frac_text_def frac_digits_def split: option.splits)
  show ?thesis
  proof (cases ex)
    case None
    then show ?thesis using numeral_value_plain [OF ne] tv by (simp add: exp_text_def read_number_def exp_num_def sd_def)
  next
    case (Some y)
    obtain c sg es where y: "y = (c, sg, es)" by (cases y)
    have c: "c = exp_char R" "sg \<in> {''+'', ''-''}" "lower_text 10 es" using l(3) by (simp_all add: Some y lower_exp_def)
    have ev: "exp_value (sg @ es) = exp_num ex"
      using c(2) radix_value_horner [OF _ _ c(3), of 10] by (auto simp: exp_value_def exp_num_def Some y)
    have "exp_base R = (if exp_bin ex then 2 else real R)"
      by (auto simp: exp_base_def exp_bin_def Some y c(1) exp_char_def)
    moreover have "ip @ frac_text f @ exp_text ex = (ip @ frac_text f) @ exp_char R # sg @ es" by (simp add: exp_text_def Some y c(1))
    ultimately show ?thesis
      unfolding numeral_value_def read_number_def sd_def [symmetric] tv [symmetric]
      using span_absent(3,4) [OF ne, of "sg @ es"] ev by simp
  qed
qed

subsection \<open>The texts of the printer\<close>

lemma drop_sig:
  assumes "length D \<le> K" "set z \<subseteq> {0}" "set z' \<subseteq> {0 :: nat}"
  shows "\<forall>d\<in>set (drop K (dropWhile ((=) 0) (z @ D @ z'))). d = 0"
proof -
  have "dropWhile ((=) 0) (z @ u) = dropWhile ((=) 0) u" for u using assms(2) by (induction z) auto
  moreover obtain j where "dropWhile ((=) 0) (D @ z') = drop j (D @ z')" by (metis dropWhile_eq_drop)
  moreover have "set (drop K (drop j (D @ z'))) \<subseteq> set z'"
  proof -
    have "drop K (drop j (D @ z')) = drop j (drop K (D @ z'))" by (simp only: drop_drop add.commute)
    also have "set \<dots> \<subseteq> set (drop K (D @ z'))" by (rule set_drop_subset)
    also have "\<dots> \<subseteq> set z'" using assms(1) by (auto dest: in_set_dropD)
    finally show ?thesis .
  qed
  ultimately show ?thesis using assms(3) by auto
qed

definition printed :: "nat \<Rightarrow> string \<Rightarrow> string \<Rightarrow> string option \<Rightarrow> (char \<times> string \<times> string) option \<Rightarrow> bool" where
  "printed R s ip f ex \<longleftrightarrow> s = ip @ frac_text f @ exp_text ex \<and> numeral_ok R ip f ex [] \<and>
     lower_text R ip \<and> lower_text R (frac_digits f) \<and> lower_exp R ex \<and> ip \<noteq> [] \<and>
     (\<forall>d\<in>set (drop (digit_limit R) (sig_digits ip f)). d = 0)"

lemma digit_limits:
  assumes "2 \<le> R" "R \<le> 36"
  shows "max_digits R \<le> digit_limit R"
proof -
  have t: "list_all (\<lambda>R. max_digits R \<le> digit_limit R) [2..<37]" by code_simp
  show ?thesis using bspec [OF t [unfolded list_all_iff set_upt], of R] assms by simp
qed

lemma tail_ok_Nil: "R \<le> 36 \<Longrightarrow> tail_ok R ex []"
  by (auto simp: tail_ok_def exp_letter_def split: option.splits)

lemma to_digit_zeros: "set (map to_digit (replicate k (CHR ''0''))) \<subseteq> {0}"
  by auto

lemma printedI:
  assumes R: "2 \<le> R" "R \<le> 36" and l: "lower_text R ip" "lower_text R (frac_digits f)" "lower_exp R ex" "ip \<noteq> []"
    and len: "length (ip @ frac_digits f) \<le> 10 ^ 7" and ex: "exp_ok R ex"
    and d: "ip @ frac_digits f = replicate i (CHR ''0'') @ ds @ replicate j (CHR ''0'')" "length ds \<le> max_digits R"
  shows "printed R (ip @ frac_text f @ exp_text ex) ip f ex"
proof -
  have "length (map to_digit ds) \<le> digit_limit R" using d(2) digit_limits [OF R] by simp
  from drop_sig [OF this to_digit_zeros [of i] to_digit_zeros [of j]]
  have "\<forall>d\<in>set (drop (digit_limit R) (sig_digits ip f)). d = 0" unfolding sig_digits_def d(1) map_append .
  then show ?thesis
    unfolding printed_def numeral_ok_def using l len ex lower_digit_text [OF R(2)] tail_ok_Nil [OF R(2)] by simp
qed

lemma exp_char_letter: "2 \<le> R \<Longrightarrow> R \<le> 36 \<Longrightarrow> exp_letter R (exp_char R)"
  by (auto simp: exp_letter_def exp_char_def)

lemma exp_part_ok:
  assumes R: "2 \<le> R" "R \<le> 36" and k: "\<bar>k\<bar> \<le> 10 ^ 8"
  defines "ex \<equiv> Some (exp_char R, [if k < 0 then CHR ''-'' else CHR ''+''], dec_digits (nat \<bar>k\<bar>))"
  shows "exp_ok R ex" and "lower_exp R ex"
proof -
  have l: "lower_text 10 (dec_digits (nat \<bar>k\<bar>))" by (rule lower_text_radix) simp
  have "horner 10 (map to_digit (dec_digits (nat \<bar>k\<bar>))) = nat \<bar>k\<bar>"
    using radix_value_horner [OF _ _ l, of 10] radix_value_digits [of 10 "nat \<bar>k\<bar>"] by simp
  then show "exp_ok R ex" using exp_char_letter [OF R] lower_digit_text [OF _ l] k by (auto simp: exp_ok_def ex_def)
  show "lower_exp R ex" using l by (auto simp: lower_exp_def ex_def)
qed

lemma with_dot_parts:
  assumes "1 \<le> p" "p \<le> length ds"
  obtains ip f where "with_dot ds p = ip @ frac_text f" "ip @ frac_digits f = ds" "ip \<noteq> []" "f = None \<longrightarrow> p = length ds" "f \<noteq> None \<longrightarrow> p < length ds"
proof (cases "p < length ds")
  case True
  then show thesis using assms by (intro that [of "take p ds" "Some (drop p ds)"]) (auto simp: with_dot_def frac_text_def frac_digits_def)
next
  case False
  then show thesis using assms by (intro that [of ds None]) (auto simp: with_dot_def frac_text_def frac_digits_def)
qed

lemma dtoa_output_printed:
  assumes R: "radix_ok R r rs" and E: "\<bar>E\<bar> \<le> 2050" and P: "1 \<le> P" "nat P \<le> max_digits R" and a: "mpb_ok a"
  shows "\<exists>ip f ex. printed R (dtoa_output a R r rs n flags P E) ip f ex"
proof -
  note rd = radix_okD [OF R]
  define ds where "ds = fixed_digits R (nat P) (limbs_val a)"
  define k where "k = (if R \<in> {2, 4, 8, 16} then (E - 1) * int rs else E - 1)"
  have ds: "lower_text R ds" "length ds = nat P" "length ds \<le> 54" "ds \<noteq> []"
    using lower_text_fixed [of R] rd(1) P max_digits_table(4) [OF rd(1,2)] by (auto simp: ds_def simp flip: length_0_conv)
  have z0: "replicate 0 (CHR ''0'') = ''''" by simp
  have E5: "\<bar>E\<bar> \<le> 100000" using E by simp
  show ?thesis
  proof (rule dtoa_output_forms [OF R E5 P(1) a, of n flags, folded ds_def k_def])
    assume t: "dtoa_output a R r rs n flags P E =
      with_dot ds 1 @ [exp_char R, if k < 0 then CHR ''-'' else CHR ''+''] @ dec_digits (nat \<bar>k\<bar>)"
    have "\<bar>k\<bar> \<le> 10 ^ 8"
    proof (cases "R \<in> {2, 4, 8, 16}")
      case True
      then have "\<bar>E - 1\<bar> * int rs \<le> 2051 * 4" using E exp_char_radix [OF R] by (intro mult_mono) auto
      then show ?thesis using True by (simp add: k_def abs_mult)
    qed (use E in \<open>simp add: k_def\<close>)
    note ex = exp_part_ok [OF rd(1,2) this]
    obtain ip f where w: "with_dot ds 1 = ip @ frac_text f" "ip @ frac_digits f = ds" "ip \<noteq> []"
      by (rule with_dot_parts [of 1 ds]) (use P ds(2) in auto)
    have l: "lower_text R ip" "lower_text R (frac_digits f)" using ds(1) w(2) by auto
    have "printed R (ip @ frac_text f @ exp_text (Some (exp_char R, [if k < 0 then CHR ''-'' else CHR ''+''], dec_digits (nat \<bar>k\<bar>)))) ip f
        (Some (exp_char R, [if k < 0 then CHR ''-'' else CHR ''+''], dec_digits (nat \<bar>k\<bar>)))"
      by (rule printedI [OF rd(1,2) l ex(2) w(3) _ ex(1), of 0 ds 0]) (use w(2) ds(2,3) P in auto)
    moreover have "dtoa_output a R r rs n flags P E =
        ip @ frac_text f @ exp_text (Some (exp_char R, [if k < 0 then CHR ''-'' else CHR ''+''], dec_digits (nat \<bar>k\<bar>)))"
      unfolding t w(1) by (simp add: exp_text_def)
    ultimately show ?thesis by metis
  next
    assume E0: "E \<le> 0" and t: "dtoa_output a R r rs n flags P E = ''0.'' @ replicate (nat (- E)) (CHR ''0'') @ ds"
    define f where "f = Some (replicate (nat (- E)) (CHR ''0'') @ ds)"
    have "printed R (''0'' @ frac_text f @ exp_text None) ''0'' f None"
      by (rule printedI [of _ _ _ _ "Suc (nat (- E))" ds 0])
        (use rd ds P E lower_text_zero [of R] in \<open>auto simp: f_def frac_digits_def lower_exp_def exp_ok_def\<close>)
    then show ?thesis unfolding t by (auto simp: f_def frac_text_def exp_text_def)
  next
    assume E0: "0 < E" and t: "dtoa_output a R r rs n flags P E = with_dot ds (nat (min P E)) @ replicate (nat (E - P)) (CHR ''0'')"
    obtain ip f where w: "with_dot ds (nat (min P E)) = ip @ frac_text f" "ip @ frac_digits f = ds" "ip \<noteq> []"
      "f = None \<longrightarrow> nat (min P E) = length ds" "f \<noteq> None \<longrightarrow> nat (min P E) < length ds"
      by (rule with_dot_parts [of "nat (min P E)" ds]) (use P E0 ds(2) in auto)
    have l: "lower_text R ip" "lower_text R (frac_digits f)" using ds(1) w(2) by auto
    show ?thesis
    proof (cases f)
      case None
      have "printed R ((ip @ replicate (nat (E - P)) (CHR ''0'')) @ frac_text None @ exp_text None) (ip @ replicate (nat (E - P)) (CHR ''0'')) None None"
        by (rule printedI [of _ _ _ _ 0 ds "nat (E - P)"])
          (use rd ds P E l w None in \<open>auto simp: frac_digits_def lower_exp_def exp_ok_def\<close>)
      then show ?thesis unfolding t w(1) using None by (auto simp: frac_text_def exp_text_def)
    next
      case (Some y)
      then have "nat (E - P) = 0" using w(5) ds(2) by (auto simp: min_def split: if_splits)
      moreover have "printed R (ip @ frac_text f @ exp_text None) ip f None"
        by (rule printedI [of _ _ _ _ 0 ds 0]) (use rd ds P l w in \<open>auto simp: lower_exp_def exp_ok_def\<close>)
      ultimately show ?thesis unfolding t w(1) by (auto simp: exp_text_def)
    qed
  qed
qed

lemma dtoa_free_printed:
  assumes R: "radix_ok R r rs" and nf: "normal_form m e" and free: "flags AND JS_DTOA_FORMAT_MASK = JS_DTOA_FORMAT_FREE"
    and s: "dtoa_finite m e R n flags = Some s"
  shows "\<exists>ip f ex. printed R s ip f ex"
proof -
  note rd = radix_okD [OF R]
  have rr: "ctz32 (of_nat R) = rs" "R div 2 ^ rs = r" using R by (simp_all add: radix_ok_def)
  define short where "short \<longleftrightarrow> e \<ge> 1 \<and> e \<le> 53 \<and> m AND (push_bit (nat (53 - e)) 1 - 1) = 0 \<and>
            flags AND JS_DTOA_EXP_MASK \<noteq> JS_DTOA_EXP_ENABLED"
  show ?thesis
  proof (cases short)
    case True
    define v where "v = unat (drop_bit (nat (53 - e)) m)"
    have u: "unat (of_nat R :: u32) = R" using rd(2) by (intro unat_of_nat_id) simp
    have "u64toa_radix (drop_bit (nat (53 - e)) m) (of_nat R) = radix_digits R v"
      using u64toa_radix_val [of "of_nat R"] rd(1,2) u by (simp add: word_le_nat_alt v_def)
    then have sv: "s = radix_digits R v" using s True free unfolding dtoa_finite_def Let_def short_def by simp
    have "v \<le> unat m" unfolding v_def unat_drop by (rule div_le_dividend)
    then have "v < R ^ (max_digits R - 1)"
      using nf max_digits_table(2) [OF rd(1,2)] unfolding normal_form_def by linarith
    moreover have "max_digits R - 1 \<noteq> 0" using max_digits_table(2) [OF rd(1,2)] by (intro notI) simp
    then obtain j where "max_digits R - 1 = Suc j" by (cases "max_digits R - 1") auto
    ultimately have len: "length s \<le> max_digits R" using length_radix_digits [OF rd(1), of v j] sv by simp
    have "printed R (s @ frac_text None @ exp_text None) s None None"
      by (rule printedI [of _ _ _ _ 0 s 0])
        (use rd sv len lower_text_radix [OF rd(1)] max_digits_table(4) [OF rd(1,2)] in \<open>auto simp: frac_digits_def lower_exp_def exp_ok_def\<close>)
    then show ?thesis by (auto simp: frac_text_def exp_text_def)
  next
    case False
    obtain P E mant where f: "free_search m e R r rs (1 + mul_log2_radix (e - 1) R) None (int (max_digits R)) = Some (P, E, mant)"
      "readable R r rs m e (P, E, mant)" using free_search_val [OF R nf refl] by blast
    have "s = dtoa_output (mpb_set_u64 mant) R r rs n flags P E"
      using s False free f(1) unfolding dtoa_finite_def Let_def rr short_def max_digits_def by auto
    moreover have "mpb_ok (mpb_set_u64 mant)" by (simp add: mpb_set_u64_val)
    ultimately show ?thesis using dtoa_output_printed [OF R, of E P] f(2) by (simp add: readable_def)
  qed
qed

subsection \<open>Round trip\<close>

text \<open>The reader loses less than one unit of the last digit it keeps, and nothing if all digits count.\<close>

definition last_unit :: "nat \<Rightarrow> string \<Rightarrow> string option \<Rightarrow> (char \<times> string \<times> string) option \<Rightarrow> real" where
  "last_unit R ip f ex =
     real R powi (int (length (sig_digits ip f) - digit_limit R) - int (length (frac_digits f))) *
     (if exp_bin ex then 2 else real R) powi exp_num ex"

lemma read_number_text:
  assumes R: "2 \<le> R" and ok: "numeral_ok R ip f ex tail"
  shows "read_number R ip f ex \<le> text_number R ip f ex \<and>
    text_number R ip f ex < read_number R ip f ex + last_unit R ip f ex \<and>
    (pow2_radix R \<or> (\<forall>d \<in> set (drop (digit_limit R) (sig_digits ip f)). d = 0) \<longrightarrow>
      read_number R ip f ex = text_number R ip f ex) \<and>
    (\<not> pow2_radix R \<longrightarrow>
      read_number R ip f ex = real (horner R (take (digit_limit R) (sig_digits ip f))) * last_unit R ip f ex)"
proof -
  define sd K where "sd = sig_digits ip f" and "K = digit_limit R"
  define U where "U = real R powi (- int (length (frac_digits f))) * (if exp_bin ex then 2 else real R) powi exp_num ex"
  have U: "0 < U" using R by (simp add: U_def)
  have dig: "\<forall>d \<in> set sd. d < R"
    using ok by (auto simp: sd_def sig_digits_def numeral_ok_def digit_text_def dest!: set_dropWhileD)
  have t: "text_number R ip f ex = real (horner R sd) * U"
    unfolding text_number_def U_def sd_def sig_digits_def horner_drop_zeros by (simp add: mult.assoc)
  have r: "read_number R ip f ex = real (horner R (kept R sd)) * U"
    by (simp add: read_number_def U_def sd_def mult.assoc)
  have split: "horner R sd = horner R (kept R sd) + (if pow2_radix R then 0 else horner R (drop K sd))"
  proof (cases "pow2_radix R")
    case False
    have "horner R sd = horner R (take K sd) * R ^ (length sd - K) + horner R (drop K sd)"
      using horner_append [of R "take K sd" "drop K sd"] by simp
    with False horner_kept [OF False, of sd] show ?thesis by (simp add: K_def)
  qed (simp add: kept_def)
  have "horner R (drop K sd) < R ^ length (drop K sd)"
    using horner_bounds(1) [of "drop K sd" R] dig R by (auto dest: in_set_dropD)
  then have lt: "real (horner R sd) < real (horner R (kept R sd)) + real (R ^ (length sd - K))"
    using split R by (simp add: of_nat_less_iff [symmetric] del: of_nat_less_iff of_nat_power split: if_splits)
  have lu: "last_unit R ip f ex = real (R ^ (length sd - K)) * U"
    using R by (simp add: last_unit_def U_def sd_def K_def power_int_diff power_int_minus field_simps)
  have z: "horner R (drop K sd) = 0" if "\<forall>d \<in> set (drop K sd). d = 0"
    using horner_zeros [of R "drop K sd"] that R by simp
  have "real (horner R (kept R sd)) * U \<le> real (horner R sd) * U" using split U by simp
  moreover have "real (horner R sd) * U < real (horner R (kept R sd)) * U + real (R ^ (length sd - K)) * U"
    using mult_strict_right_mono [OF lt U] by (simp add: distrib_right)
  moreover have "horner R (kept R sd) = horner R sd" if "pow2_radix R \<or> (\<forall>d \<in> set (drop K sd). d = 0)"
    using split z that by auto
  moreover have "real (horner R (kept R sd)) = real (horner R (take K sd)) * real (R ^ (length sd - K))" if "\<not> pow2_radix R"
    unfolding horner_kept [OF that] K_def by simp
  ultimately show ?thesis unfolding t r lu by (auto simp: sd_def K_def)
qed

text \<open>
  C32. Reading a numeral. The text is a sign, digits with an optional dot (at most $10^7$ digits) and an optional
  exponent (at most $10^8$ in absolute value); the flags are neither integers only nor underscores. Then \<^verbatim>\<open>js_atod\<close>
  stops after the numeral and returns, with the sign, the float64 nearest to a number \<open>x\<close> (ties to even, infinity
  beyond the range). This \<open>x\<close> is the number of the text when the radix is a power of two or when at most as many
  significant digits are given as the code's table allows (38 in radix 10), or only zeros behind them; otherwise it is
  the number of the text cut after these digits, less than one unit of the last of them below it.
\<close>

theorem js_atod_correct:
  assumes "2 \<le> R" "R \<le> 36" and "flags AND JS_ATOD_INT_ONLY = 0" "flags AND JS_ATOD_ACCEPT_UNDERSCORES = 0"
    and "numeral_ok R ip f ex tail" and "sg \<in> {[], ''+'', ''-''}"
    and "at0 (ip @ frac_text f @ exp_text ex @ tail) \<noteq> CHR ''I''"
  shows "\<exists>a x. js_atod (sg @ ip @ frac_text f @ exp_text ex @ tail) R flags =
      Some (Some (a OR push_bit 63 (if sg = ''-'' then 1 else 0)), tail) \<and>
    (if sig_digits ip f = [] then a = 0 else reads_as x a) \<and>
    x \<le> text_number R ip f ex \<and> text_number R ip f ex < x + last_unit R ip f ex \<and>
    (pow2_radix R \<or> (\<forall>d \<in> set (drop (digit_limit R) (sig_digits ip f)). d = 0) \<longrightarrow> x = text_number R ip f ex) \<and>
    (\<not> pow2_radix R \<longrightarrow> x = real (horner R (take (digit_limit R) (sig_digits ip f))) * last_unit R ip f ex)"
  using js_atod_text [OF assms] read_number_text [OF assms(1,5)] by blast

theorem js_atod_correct_witness:
  "\<exists>a. js_atod ''-2.5e3,'' 10 0 = Some (Some (a OR push_bit 63 1), '','') \<and> reads_as 2500 a"
proof -
  have d: "to_digit (CHR ''2'') = 2" "to_digit (CHR ''5'') = 5" "to_digit (CHR ''3'') = 3" "to_digit (CHR '','') = 36" by code_simp+
  have k: "digit_limit 10 = 38" by code_simp
  have n: "numeral_ok 10 ''2'' (Some ''5'') (Some (CHR ''e'', [], ''3'')) '',''"
    using d by (simp add: numeral_ok_def frac_digits_def exp_ok_def tail_ok_def exp_letter_def horner_def)
  have v: "text_number 10 ''2'' (Some ''5'') (Some (CHR ''e'', [], ''3'')) = 2500" "sig_digits ''2'' (Some ''5'') = [2, 5]"
    using d by (simp_all add: text_number_def sig_digits_def frac_digits_def horner_def exp_bin_def exp_num_def power_int_def)
  show ?thesis using js_atod_correct [OF _ _ _ _ n, of 0 "''-''"] v k by (auto simp: frac_text_def exp_text_def)
qed

lemma kept_Nil: "horner R (kept R []) = 0"
  by (simp add: kept_def)

lemma with_sign:
  assumes "\<not> f64_sign b" "f64_exp b = f64_exp a" "f64_mant b = f64_mant a"
  shows "b OR push_bit 63 (if f64_sign a then 1 else 0) = a"
proof (cases "f64_sign a")
  case True
  have b: "unat b < 2 ^ 63" using assms(1) f64_fields(3) [of b] by simp
  have p: "unat (push_bit 63 1 :: u64) = 2 ^ 63" by (simp add: unat_push)
  have "b OR push_bit 63 1 = b + push_bit 63 1" using b by (intro or_high [where k = 63]) (simp_all add: take_bit_push_bit)
  then have "unat (b OR push_bit 63 1) = unat b + 2 ^ 63" using b p unat_small_add [of b "push_bit 63 1"] by simp
  also have "\<dots> = unat a" using True assms f64_unat [of a] f64_unat [of b] by simp
  finally show ?thesis using True by (simp add: word_unat_eq_iff)
next
  case False
  then have "unat b = unat a" using assms f64_unat [of a] f64_unat [of b] by simp
  then show ?thesis using False by (simp add: word_unat_eq_iff)
qed

lemma lower_not_I: "R \<le> 36 \<Longrightarrow> lower_text R ip \<Longrightarrow> ip \<noteq> [] \<Longrightarrow> at0 (ip @ s) \<noteq> CHR ''I''"
proof -
  assume a: "R \<le> 36" "lower_text R ip" "ip \<noteq> []"
  obtain c t where ip: "ip = c # t" using a(3) by (cases ip) auto
  then obtain d where d: "c = digit_char d" "d < 36" using a by auto
  have t: "list_all (\<lambda>d. digit_char d \<noteq> CHR ''I'') [0..<36]" by code_simp
  show ?thesis using bspec [OF t [unfolded list_all_iff set_upt], of d] d ip by simp
qed

text \<open>C31. Round trip: what \<^verbatim>\<open>js_dtoa\<close> prints in the free format for a finite nonzero double is read
  back by \<^verbatim>\<open>js_atod\<close>, completely, as the same 64 bits.\<close>

theorem dtoa_atod_round_trip:
  assumes "2 \<le> radix" "radix \<le> 36" and "flags AND JS_DTOA_FORMAT_MASK = JS_DTOA_FORMAT_FREE"
    and "f64_finite a" "\<not> f64_zero a"
  shows "\<exists>s. js_dtoa a radix n_digits flags = Some s \<and> js_atod s radix 0 = Some (Some a, '''')"
proof -
  obtain m e where me: "normal_form m e" "dbl m e = f64_abs a"
    "\<forall>radix n flags. js_dtoa a radix n flags = map_option ((@) (if f64_sign a then ''-'' else '''')) (dtoa_finite m e radix n flags)"
    by (rule finite_cases [OF assms(4,5)])
  note R = radix_okI [OF assms(1,2)]
  obtain s where s: "dtoa_finite m e radix n_digits flags = Some s" "rounds_to (numeral_value radix s) (f64_abs a)"
    using dtoa_free_value [OF R me(1) assms(3), of n_digits] me(2) by auto
  obtain ip f ex where "printed radix s ip f ex" using dtoa_free_printed [OF R me(1) assms(3) s(1)] by blast
  then have p: "s = ip @ frac_text f @ exp_text ex" "numeral_ok radix ip f ex []" "lower_text radix ip" "lower_text radix (frac_digits f)"
    "lower_exp radix ex" "ip \<noteq> []" "\<forall>d\<in>set (drop (digit_limit radix) (sig_digits ip f)). d = 0"
    by (simp_all add: printed_def)
  have v: "numeral_value radix s = read_number radix ip f ex"
    unfolding p(1) by (rule numeral_value_text [OF assms(1,2) p(3-5,7)])
  define sg where "sg = (if f64_sign a then ''-'' else '''')"
  have sgs: "sg \<in> {[], ''+'', ''-''}" by (simp add: sg_def)
  obtain b where b: "js_atod (sg @ s) radix 0 = Some (Some (b OR push_bit 63 (if sg = ''-'' then 1 else 0)), '''')"
    "if sig_digits ip f = [] then b = 0 else reads_as (read_number radix ip f ex) b"
    using js_atod_text [OF assms(1,2) _ _ p(2) sgs, of 0] lower_not_I [OF assms(2) p(3,6)] unfolding p(1) by auto
  have "0 < numeral_value radix s"
  proof -
    obtain k where "2 powi (k - 1) \<le> numeral_value radix s" using s(2) unfolding rounds_to_def by blast
    moreover have "(0 :: real) < 2 powi (k - 1)" by simp
    ultimately show ?thesis by linarith
  qed
  then have "sig_digits ip f \<noteq> []" unfolding v read_number_def using kept_Nil [of radix] by (intro notI) simp
  then obtain y where y: "rounds_to (numeral_value radix s) y" "f64_of y b" using b(2) v by (auto simp: reads_as_def)
  have "y = f64_abs a" by (rule rounds_to_unique [OF y(1) s(2)])
  moreover have "f64_abs a < 2 powi 1024"
  proof -
    have "(2 :: real) powi e \<le> 2 powi 1024" using me(1) by (intro powi2_mono) (simp add: normal_form_def)
    then show ?thesis using dbl_bounds(2) [OF me(1)] unfolding me(2) by (rule less_le_trans [rotated])
  qed
  ultimately have "\<not> f64_sign b" "f64_abs b = f64_abs a" using y(2) unfolding f64_of_def by simp_all
  then have "b OR push_bit 63 (if f64_sign a then 1 else 0) = a" using f64_abs_inj [of b a] by (intro with_sign) simp_all
  then have "js_atod (sg @ s) radix 0 = Some (Some a, '''')" using b(1) by (simp add: sg_def split: if_splits)
  moreover have "js_dtoa a radix n_digits flags = Some (sg @ s)" using me(3) s(1) by (simp add: sg_def)
  ultimately show ?thesis by blast
qed

theorem dtoa_atod_round_trip_witness:
  "\<exists>s. js_dtoa 0xbfb999999999999a 10 0 JS_DTOA_FORMAT_FREE = Some s \<and> js_atod s 10 0 = Some (Some 0xbfb999999999999a, '''')"
proof -
  have "f64_finite 0xbfb999999999999a" "\<not> f64_zero 0xbfb999999999999a" by code_simp+
  from dtoa_atod_round_trip [OF _ _ _ this, of 10 JS_DTOA_FORMAT_FREE 0] show ?thesis by (simp add: dtoa_flags)
qed

text \<open>The arithmetic on the exponent in \<^verbatim>\<open>js_atod\<close> can leave the range of \<^verbatim>\<open>int\<close>, which is undefined in
  C: with a radix that is a power of two the exponent after \<^verbatim>\<open>@\<close> is multiplied by the number of bits
  of a digit.\<close>

theorem js_atod_exponent_overflow: "js_atod ''1@600000000'' 16 0 = None"
  by code_simp

end
