(* ===== verification/Char_Range.thy ===== *)
theory Char_Range
  imports Rqsort
begin

text \<open>
  Sets of characters as sorted lists of points, the \<^verbatim>\<open>CharRange\<close> of \<^verbatim>\<open>libunicode.c\<close> and
  \<^verbatim>\<open>libunicode.h\<close>: a character is in the set when an odd number of points is not above it. The
  record keeps the points in use, so that \<^verbatim>\<open>len\<close> is their number, and the size of the memory block.
  The callback \<^verbatim>\<open>realloc_func\<close> is a parameter: from the state of the allocator and a number of bytes
  it gives the new state and whether the memory was obtained; the points survive, as \<^verbatim>\<open>realloc\<close>
  promises. Operations return the state, the range and the C result, 0 or -1. Sizes, \<^verbatim>\<open>int\<close> in the code,
  are unbounded here, which differs from $2^{29}$ points on.
\<close>

type_synonym 'm realloc_func = "'m \<Rightarrow> nat \<Rightarrow> 'm \<times> bool"

record CharRange =
  points :: "u32 list"
  csize :: int

abbreviation clen :: "CharRange \<Rightarrow> int" where
  "clen cr \<equiv> int (length (points cr))"

subsection \<open>Memory\<close>

definition cr_init :: CharRange where
  "cr_init = \<lparr>points = [], csize = 0\<rparr>"

definition cr_free :: "'m realloc_func \<Rightarrow> 'm \<Rightarrow> CharRange \<Rightarrow> 'm" where
  "cr_free ra s cr = fst (ra s 0)"

definition cr_realloc :: "'m realloc_func \<Rightarrow> 'm \<Rightarrow> CharRange \<Rightarrow> int \<Rightarrow> 'm \<times> CharRange \<times> int" where
  "cr_realloc ra s cr n =
     (if n > csize cr then
        let new_size = max n (csize cr * 3 div 2);
            (s, ok) = ra s (nat (new_size * 4))
        in if \<not> ok then (s, cr, -1) else (s, cr\<lparr>csize := new_size\<rparr>, 0)
      else (s, cr, 0))"

definition cr_copy :: "'m realloc_func \<Rightarrow> 'm \<Rightarrow> CharRange \<Rightarrow> CharRange \<Rightarrow> 'm \<times> CharRange \<times> int" where
  "cr_copy ra s cr cr1 =
     (let (s, cr, ret) = cr_realloc ra s cr (clen cr1)
      in if ret \<noteq> 0 then (s, cr, -1) else (s, cr\<lparr>points := points cr1\<rparr>, 0))"

definition cr_add_point :: "'m realloc_func \<Rightarrow> 'm \<Rightarrow> CharRange \<Rightarrow> u32 \<Rightarrow> 'm \<times> CharRange \<times> int" where
  "cr_add_point ra s cr v =
     (let (s, cr, ret) = (if clen cr \<ge> csize cr then cr_realloc ra s cr (clen cr + 1) else (s, cr, 0))
      in if ret \<noteq> 0 then (s, cr, -1) else (s, cr\<lparr>points := points cr @ [v]\<rparr>, 0))"

definition cr_add_interval :: "'m realloc_func \<Rightarrow> 'm \<Rightarrow> CharRange \<Rightarrow> u32 \<Rightarrow> u32 \<Rightarrow> 'm \<times> CharRange \<times> int" where
  "cr_add_interval ra s cr c1 c2 =
     (let (s, cr, ret) = (if clen cr + 2 > csize cr then cr_realloc ra s cr (clen cr + 2) else (s, cr, 0))
      in if ret \<noteq> 0 then (s, cr, -1) else (s, cr\<lparr>points := points cr @ [c1, c2]\<rparr>, 0))"

subsection \<open>Compression, in place\<close>

function run_end :: "u32 list \<Rightarrow> nat \<Rightarrow> nat \<Rightarrow> nat" where
  "run_end pt len j = (if j + 3 < len \<and> pt ! (j + 1) = pt ! (j + 2) then run_end pt len (j + 2) else j)"
  by pat_completeness auto
termination
  by (relation "measure (\<lambda>(pt, len, j). len - j)") auto

declare run_end.simps [simp del]

lemma run_end_ge: "j \<le> run_end pt len j"
proof (induction pt len j rule: run_end.induct)
  case (1 pt len j)
  then show ?case unfolding run_end.simps [of pt len j] by auto
qed

function compress_loop :: "u32 list \<Rightarrow> nat \<Rightarrow> nat \<Rightarrow> nat \<Rightarrow> u32 list \<times> nat" where
  "compress_loop pt len i k =
     (if i + 1 < len then
        if pt ! i = pt ! (i + 1) then compress_loop pt len (i + 2) k
        else
          let j = run_end pt len i;
              pt = pt[k := pt ! i];
              pt = pt[k + 1 := pt ! (j + 1)]
          in compress_loop pt len (j + 2) (k + 2)
      else (pt, k))"
  by pat_completeness auto
termination
proof (relation "measure (\<lambda>(pt, len, i, k). len - i)", goal_cases)
  case (3 pt len i k j x y)
  then show ?case using run_end_ge [of i pt len] by simp
qed simp_all

declare compress_loop.simps [simp del]

definition cr_compress :: "CharRange \<Rightarrow> CharRange" where
  "cr_compress cr =
     (let (pt, k) = compress_loop (points cr) (length (points cr)) 0 0
      in cr\<lparr>points := take k pt\<rparr>)"

subsection \<open>Set operations\<close>

datatype CharRangeOpEnum = CR_OP_UNION | CR_OP_INTER | CR_OP_XOR | CR_OP_SUB

fun op_is_in :: "CharRangeOpEnum \<Rightarrow> bool \<Rightarrow> bool \<Rightarrow> bool" where
  "op_is_in CR_OP_UNION a b = (a \<or> b)"
| "op_is_in CR_OP_INTER a b = (a \<and> b)"
| "op_is_in CR_OP_XOR a b = (a \<noteq> b)"
| "op_is_in CR_OP_SUB a b = (a \<and> \<not> b)"

text \<open>One more point from either list, in increasing order.\<close>

definition next_point :: "u32 list \<Rightarrow> u32 list \<Rightarrow> nat \<Rightarrow> nat \<Rightarrow> (u32 \<times> nat \<times> nat) option" where
  "next_point a b ai bi =
     (if ai < length a \<and> bi < length b then
        if a ! ai < b ! bi then Some (a ! ai, ai + 1, bi)
        else if a ! ai = b ! bi then Some (a ! ai, ai + 1, bi + 1)
        else Some (b ! bi, ai, bi + 1)
      else if ai < length a then Some (a ! ai, ai + 1, bi)
      else if bi < length b then Some (b ! bi, ai, bi + 1)
      else None)"

lemma next_point_less: "next_point a b ai bi = Some (v, ai', bi') \<Longrightarrow> length a - ai' + (length b - bi') < length a - ai + (length b - bi)"
  by (auto simp: next_point_def split: if_splits)

function cr_op_loop ::
  "'m realloc_func \<Rightarrow> 'm \<Rightarrow> CharRange \<Rightarrow> u32 list \<Rightarrow> u32 list \<Rightarrow> CharRangeOpEnum \<Rightarrow> nat \<Rightarrow> nat \<Rightarrow> 'm \<times> CharRange \<times> int" where
  "cr_op_loop ra s cr a b op ai bi =
     (case next_point a b ai bi of None \<Rightarrow> (s, cr, 0)
      | Some (v, ai, bi) \<Rightarrow>
          let (s, cr, ret) = (if op_is_in op (odd ai) (odd bi) \<noteq> odd (length (points cr)) then cr_add_point ra s cr v else (s, cr, 0))
          in if ret \<noteq> 0 then (s, cr, -1) else cr_op_loop ra s cr a b op ai bi)"
  by pat_completeness auto
termination
proof (relation "measure (\<lambda>(ra, s, cr, a, b, op, ai, bi). length a - ai + (length b - bi))", goal_cases)
  case (2 ra s cr a b op ai bi y z v ai' bi' w x xa ya)
  then show ?case using next_point_less by fastforce
qed simp

declare cr_op_loop.simps [simp del]

definition cr_op ::
  "'m realloc_func \<Rightarrow> 'm \<Rightarrow> CharRange \<Rightarrow> u32 list \<Rightarrow> u32 list \<Rightarrow> CharRangeOpEnum \<Rightarrow> 'm \<times> CharRange \<times> int" where
  "cr_op ra s cr a b op =
     (let (s, cr, ret) = cr_op_loop ra s cr a b op 0 0
      in if ret \<noteq> 0 then (s, cr, -1) else (s, cr_compress cr, 0))"

definition cr_op1 :: "'m realloc_func \<Rightarrow> 'm \<Rightarrow> CharRange \<Rightarrow> u32 list \<Rightarrow> CharRangeOpEnum \<Rightarrow> 'm \<times> CharRange \<times> int" where
  "cr_op1 ra s cr b op =
     (let a = cr;
          cr = cr\<lparr>points := [], csize := 0\<rparr>;
          (s, cr, ret) = cr_op ra s cr (points a) b op
      in (cr_free ra s a, cr, ret))"

definition cr_union_interval :: "'m realloc_func \<Rightarrow> 'm \<Rightarrow> CharRange \<Rightarrow> u32 \<Rightarrow> u32 \<Rightarrow> 'm \<times> CharRange \<times> int" where
  "cr_union_interval ra s cr c1 c2 = cr_op1 ra s cr [c1, c2 + 1] CR_OP_UNION"

definition cr_invert :: "'m realloc_func \<Rightarrow> 'm \<Rightarrow> CharRange \<Rightarrow> 'm \<times> CharRange \<times> int" where
  "cr_invert ra s cr =
     (let (s, cr, ret) = cr_realloc ra s cr (clen cr + 2)
      in if ret \<noteq> 0 then (s, cr, -1)
         else (s, cr_compress (cr\<lparr>points := 0 # points cr @ [0xffffffff]\<rparr>), 0))"

subsection \<open>Sorting intervals\<close>

text \<open>The elements that are sorted are pairs of points.\<close>

definition point_cmp :: "u32 \<times> u32 \<Rightarrow> u32 \<times> u32 \<Rightarrow> int" where
  "point_cmp p1 p2 =
     (let v1 = fst p1; v2 = fst p2 in (if v1 > v2 then 1 else 0) - (if v1 < v2 then 1 else 0))"

fun to_pairs :: "u32 list \<Rightarrow> (u32 \<times> u32) list" where
  "to_pairs (x # y # r) = (x, y) # to_pairs r"
| "to_pairs _ = []"

fun of_pairs :: "(u32 \<times> u32) list \<Rightarrow> u32 list" where
  "of_pairs [] = []"
| "of_pairs ((x, y) # r) = x # y # of_pairs r"

text \<open>The inner loop: the end of the interval and the first interval behind it.\<close>

function absorb :: "u32 list \<Rightarrow> nat \<Rightarrow> u32 \<Rightarrow> nat \<Rightarrow> u32 \<times> nat" where
  "absorb pt len end i =
     (if i < len then
        let start1 = pt ! i; end1 = pt ! (i + 1)
        in if start1 > end then (end, i)
           else if end1 \<le> end then absorb pt len end (i + 2)
           else absorb pt len end1 (i + 2)
      else (end, i))"
  by pat_completeness auto
termination
  by (relation "measure (\<lambda>(pt, len, end, i). len - i)") auto

declare absorb.simps [simp del]

lemma absorb_ge: "i \<le> snd (absorb pt len e i)"
proof (induction pt len e i rule: absorb.induct)
  case (1 pt len e i)
  then show ?case unfolding absorb.simps [of pt len e i] Let_def by fastforce
qed

function overlap_loop :: "u32 list \<Rightarrow> nat \<Rightarrow> nat \<Rightarrow> nat \<Rightarrow> u32 list \<times> nat" where
  "overlap_loop pt len i j =
     (if i < len then
        let start = pt ! i;
            (end, i') = absorb pt len (pt ! (i + 1)) (i + 2);
            pt = pt[j := start];
            pt = pt[j + 1 := end]
        in overlap_loop pt len i' (j + 2)
      else (pt, j))"
  by pat_completeness auto
termination
proof (relation "measure (\<lambda>(pt, len, i, j). len - i)", goal_cases)
  case (2 pt len i j start y e i' pt1 pt2)
  then have "i + 2 \<le> i'" using absorb_ge [of "i + 2" pt len "pt ! (i + 1)"] by (metis snd_conv)
  then show ?case using 2(1) by simp
qed simp

declare overlap_loop.simps [simp del]

definition cr_sort_and_remove_overlap :: "CharRange \<Rightarrow> CharRange option" where
  "cr_sort_and_remove_overlap cr =
     (case rqsort point_cmp (to_pairs (points cr)) of None \<Rightarrow> None
      | Some ps \<Rightarrow>
          let pt = of_pairs ps;
              (pt, j) = overlap_loop pt (length pt) 0 0
          in Some (cr\<lparr>points := take j pt\<rparr>))"

subsection \<open>The set of a list of points\<close>

definition inside :: "u32 list \<Rightarrow> u32 \<Rightarrow> bool" where
  "inside pts v \<longleftrightarrow> odd (length (filter (\<lambda>p. p \<le> v) pts))"

lemma inside_Nil [simp]: "\<not> inside [] v"
  by (simp add: inside_def)

lemma inside_Cons [simp]: "inside (p # pts) v \<longleftrightarrow> (p \<le> v) \<noteq> inside pts v"
  by (simp add: inside_def)

lemma inside_append [simp]: "inside (ps @ qs) v \<longleftrightarrow> inside ps v \<noteq> inside qs v"
  by (induction ps) auto

text \<open>For a sorted list it is the union of the intervals.\<close>

lemma inside_all_above: "\<forall>p\<in>set pts. v < p \<Longrightarrow> \<not> inside pts v"
  by (induction pts) auto

lemma inside_intervals:
  "sorted pts \<Longrightarrow> even (length pts) \<Longrightarrow> inside pts v \<longleftrightarrow> (\<exists>(x, y)\<in>set (to_pairs pts). x \<le> v \<and> v < y)"
proof (induction pts rule: to_pairs.induct)
  case (1 x y r)
  then have ih: "inside r v \<longleftrightarrow> (\<exists>(x, y)\<in>set (to_pairs r). x \<le> v \<and> v < y)" and xy: "x \<le> y" "\<forall>p\<in>set r. y \<le> p" by auto
  show ?case
  proof (cases "y \<le> v")
    case True
    then show ?thesis using ih xy by auto
  next
    case False
    then have "\<not> inside r v" using xy by (intro inside_all_above) auto
    then show ?thesis using False ih by auto
  qed
qed simp_all

subsection \<open>Compression\<close>

text \<open>The same on lists: an interval that touches the next one is joined with it.\<close>

fun run_join :: "u32 \<Rightarrow> u32 list \<Rightarrow> u32 \<times> u32 list" where
  "run_join y (a # b # r) = (if y = a then run_join b r else (y, a # b # r))"
| "run_join y r = (y, r)"

lemma run_join_length: "length (snd (run_join y r)) \<le> length r"
  by (induction y r rule: run_join.induct) auto

function compress :: "u32 list \<Rightarrow> u32 list" where
  "compress (x # y # r) = (if x = y then compress r else x # fst (run_join y r) # compress (snd (run_join y r)))"
| "compress [] = []"
| "compress [x] = []"
  by pat_completeness auto
termination
  by (relation "measure length") (auto simp: le_imp_less_Suc [OF le_SucI [OF run_join_length]])

lemma drop_two: "i + 1 < length pt \<Longrightarrow> drop i pt = pt ! i # pt ! (i + 1) # drop (i + 2) pt"
  by (metis Cons_nth_drop_Suc Suc_eq_plus1 Suc_lessD add_2_eq_Suc')

lemma run_join_short: "length r < 2 \<Longrightarrow> run_join y r = (y, r)"
  by (cases "(y, r)" rule: run_join.cases) auto

lemma run_join_drop:
  "j + 1 < length pt \<Longrightarrow> run_join (pt ! (j + 1)) (drop (j + 2) pt) =
     (pt ! (run_end pt (length pt) j + 1), drop (run_end pt (length pt) j + 2) pt)
   \<and> run_end pt (length pt) j + 1 < length pt"
proof (induction pt "length pt" j rule: run_end.induct)
  case (1 pt j)
  show ?case
  proof (cases "j + 3 < length pt")
    case True
    then have d: "drop (j + 2) pt = pt ! (j + 2) # pt ! (j + 3) # drop (j + 4) pt" using drop_two [of "j + 2" pt] by (simp add: numeral_eq_Suc)
    show ?thesis
    proof (cases "pt ! (j + 1) = pt ! (j + 2)")
      case eq: True
      then have "run_end pt (length pt) j = run_end pt (length pt) (j + 2)" using True by (subst run_end.simps) simp
      then show ?thesis using 1(1) True eq d by (simp add: numeral_eq_Suc)
    next
      case False
      then have "run_end pt (length pt) j = j" by (subst run_end.simps) simp
      then show ?thesis using False d 1(2) by simp
    qed
  next
    case False
    then have "run_end pt (length pt) j = j" by (subst run_end.simps) simp
    moreover have "length (drop (j + 2) pt) < 2" using False by auto
    then have "run_join (pt ! (j + 1)) (drop (j + 2) pt) = (pt ! (j + 1), drop (j + 2) pt)" by (rule run_join_short)
    ultimately show ?thesis using 1(2) by simp
  qed
qed

lemma compress_loop_val:
  "k \<le> i \<Longrightarrow> compress_loop pt (length pt) i k = (pt', k') \<Longrightarrow> take k' pt' = take k pt @ compress (drop i pt)"
proof (induction pt "length pt" i k arbitrary: pt' k' rule: compress_loop.induct)
  case (1 pt i k)
  show ?case
  proof (cases "i + 1 < length pt")
    case False
    then have "length (drop i pt) < 2" by auto
    then have "compress (drop i pt) = []" by (cases "drop i pt" rule: compress.cases) auto
    then show ?thesis using False 1(4) by (simp add: compress_loop.simps)
  next
    case True
    note d = drop_two [OF True]
    show ?thesis
    proof (cases "pt ! i = pt ! (i + 1)")
      case eq: True
      then have "compress_loop pt (length pt) (i + 2) k = (pt', k')" using 1(4) True by (subst (asm) compress_loop.simps) simp
      then show ?thesis using 1(1) [OF True eq] 1(3) d eq by simp
    next
      case False
      define j where "j = run_end pt (length pt) i"
      define p2 where "p2 = (pt[k := pt ! i])[k + 1 := (pt[k := pt ! i]) ! (j + 1)]"
      have j: "i \<le> j" "j + 1 < length pt" "run_join (pt ! (i + 1)) (drop (i + 2) pt) = (pt ! (j + 1), drop (j + 2) pt)"
        using run_end_ge run_join_drop [OF True] by (simp_all add: j_def)
      have p2: "p2 = pt[k := pt ! i, k + 1 := pt ! (j + 1)]" using j(1) 1(3) by (simp add: p2_def)
      have "compress_loop p2 (length p2) (j + 2) (k + 2) = (pt', k')"
        using 1(4) True False by (subst (asm) compress_loop.simps) (simp add: Let_def j_def [symmetric] p2_def)
      then have "take k' pt' = take (k + 2) p2 @ compress (drop (j + 2) p2)"
        using 1(2) [OF True False j_def refl, of "p2"] 1(3) j(1) by (simp add: p2_def)
      moreover have "take (k + 2) p2 = take k pt @ [pt ! i, pt ! (j + 1)]"
        using j(1,2) 1(3) True unfolding p2 by (simp add: take_Suc_conv_app_nth nth_append numeral_eq_Suc)
      moreover have "drop (j + 2) p2 = drop (j + 2) pt" using j(1) 1(3) unfolding p2 by simp
      ultimately show ?thesis using d False j(3) by simp
    qed
  qed
qed

lemma cr_compress_val: "points (cr_compress cr) = compress (points cr)"
  using compress_loop_val [of 0 0 "points cr"] by (auto simp: cr_compress_def split: prod.splits)

lemma run_join_inside: "inside (fst (run_join y r) # snd (run_join y r)) v \<longleftrightarrow> inside (y # r) v"
  by (induction y r rule: run_join.induct) auto

lemma run_join_even: "even (length (snd (run_join y r))) \<longleftrightarrow> even (length r)"
  by (induction y r rule: run_join.induct) auto

lemma compress_inside: "even (length pts) \<Longrightarrow> inside (compress pts) v \<longleftrightarrow> inside pts v"
proof (induction pts rule: compress.induct)
  case (1 x y r)
  then show ?case using run_join_inside [of y r v] run_join_even [of y r] by auto
qed simp_all

text \<open>A normal form: the points increase strictly.\<close>

definition strictly :: "u32 list \<Rightarrow> bool" where
  "strictly pts \<longleftrightarrow> sorted_wrt (<) pts"

lemma run_join_sorted:
  assumes "sorted (y # r)" "even (length r)"
  shows "y \<le> fst (run_join y r)" "sorted (snd (run_join y r))" "\<forall>p\<in>set (snd (run_join y r)). fst (run_join y r) < p"
proof -
  have "y \<le> fst (run_join y r) \<and> sorted (snd (run_join y r)) \<and> (\<forall>p\<in>set (snd (run_join y r)). fst (run_join y r) < p)"
    using assms
  proof (induction y r rule: run_join.induct)
    case (1 y a b r)
    then show ?case by (cases "y = a") (auto simp: order.strict_iff_order intro: order_trans)
  qed auto
  then show "y \<le> fst (run_join y r)" "sorted (snd (run_join y r))" "\<forall>p\<in>set (snd (run_join y r)). fst (run_join y r) < p" by auto
qed

lemma run_join_subset: "set (snd (run_join y r)) \<subseteq> set r"
  by (induction y r rule: run_join.induct) auto

lemma compress_strict:
  "sorted pts \<Longrightarrow> even (length pts) \<Longrightarrow> strictly (compress pts) \<and> (\<forall>q. (\<forall>p\<in>set pts. q < p) \<longrightarrow> (\<forall>p\<in>set (compress pts). q < p)) \<and> even (length (compress pts))"
proof (induction pts rule: compress.induct)
  case (1 x y r)
  show ?case
  proof (cases "x = y")
    case True
    then show ?thesis using 1 by auto
  next
    case False
    define e t where "e = fst (run_join y r)" and "t = snd (run_join y r)"
    have s: "x < y" "y \<le> e" "sorted t" "\<forall>p\<in>set t. e < p" "even (length t)" "set t \<subseteq> set r"
      using False 1(3,4) run_join_sorted [of y r] run_join_even [of y r] run_join_subset [of y r]
      by (auto simp: e_def t_def order.strict_iff_order)
    have ih: "strictly (compress t)" "\<forall>q. (\<forall>p\<in>set t. q < p) \<longrightarrow> (\<forall>p\<in>set (compress t). q < p)" "even (length (compress t))"
      using 1(2) [OF False] s by (auto simp: t_def)
    have et: "\<forall>p\<in>set (compress t). e < p" using ih(2) s(4) by blast
    have "compress (x # y # r) = x # e # compress t" using False by (simp add: e_def t_def)
    moreover have "strictly (x # e # compress t)" using ih(1) et s(1,2) by (auto simp: strictly_def)
    moreover have "\<forall>p\<in>set (x # e # compress t). q < p" if "\<forall>p\<in>set (x # y # r). q < p" for q
    proof -
      have "q < x" "q < y" using that by simp_all
      moreover have "q < e" using \<open>q < y\<close> s(2) by (rule less_le_trans)
      moreover have "q < p" if "p \<in> set (compress t)" for p using \<open>q < e\<close> et that by (blast intro: less_trans)
      ultimately show ?thesis by simp
    qed
    moreover have "even (length (x # e # compress t))" using ih(3) by simp
    ultimately show ?thesis by metis
  qed
qed (simp_all add: strictly_def)

lemma strictly_sorted: "strictly pts \<Longrightarrow> sorted pts"
  unfolding strictly_def by (rule strict_sorted_imp_sorted)

subsection \<open>The operations on sets\<close>

lemma cr_realloc_cases:
  obtains s' cr' where "cr_realloc ra s cr n = (s', cr', 0)" "points cr' = points cr" "csize cr' \<ge> n"
    | s' where "cr_realloc ra s cr n = (s', cr, -1)"
proof (cases "n > csize cr")
  case True
  obtain s' b where r: "ra s (nat (max n (csize cr * 3 div 2) * 4)) = (s', b)" by fastforce
  show thesis by (cases b) (use True r that in \<open>auto simp: cr_realloc_def Let_def\<close>)
qed (use that in \<open>auto simp: cr_realloc_def\<close>)

lemma cr_add_point_cases:
  obtains s' cr' where "cr_add_point ra s cr v = (s', cr', 0)" "points cr' = points cr @ [v]"
    | s' cr' where "cr_add_point ra s cr v = (s', cr', -1)"
proof (cases "clen cr \<ge> csize cr")
  case True
  show thesis
    by (rule cr_realloc_cases [of ra s cr "clen cr + 1"]) (use True that in \<open>auto simp: cr_add_point_def\<close>)
qed (use that in \<open>auto simp: cr_add_point_def\<close>)

lemma cr_add_interval_cases:
  obtains s' cr' where "cr_add_interval ra s cr x y = (s', cr', 0)" "points cr' = points cr @ [x, y]"
    | s' cr' where "cr_add_interval ra s cr x y = (s', cr', -1)"
proof (cases "clen cr + 2 > csize cr")
  case True
  show thesis
    by (rule cr_realloc_cases [of ra s cr "clen cr + 2"]) (use True that in \<open>auto simp: cr_add_interval_def\<close>)
qed (use that in \<open>auto simp: cr_add_interval_def\<close>)

lemma inside_all_below: "\<forall>p\<in>set pts. p \<le> v \<Longrightarrow> inside pts v \<longleftrightarrow> odd (length pts)"
  by (induction pts) auto

text \<open>The state of the merge: the points seen are not above the points to come.\<close>

definition merge_inv :: "u32 list \<Rightarrow> u32 list \<Rightarrow> CharRangeOpEnum \<Rightarrow> nat \<Rightarrow> nat \<Rightarrow> u32 list \<Rightarrow> bool" where
  "merge_inv a b op ai bi pts \<longleftrightarrow>
     ai \<le> length a \<and> bi \<le> length b \<and> sorted pts \<and>
     (\<forall>p\<in>set (take ai a) \<union> set (take bi b) \<union> set pts. \<forall>q\<in>set (drop ai a) \<union> set (drop bi b). p \<le> q) \<and>
     (\<forall>v. inside pts v \<longleftrightarrow> op_is_in op (inside (take ai a) v) (inside (take bi b) v)) \<and>
     (odd (length pts) \<longleftrightarrow> op_is_in op (odd ai) (odd bi))"

lemma next_point_split:
  assumes a: "sorted a" "sorted b" "ai \<le> length a" "bi \<le> length b" and n: "next_point a b ai bi = Some (v, ai', bi')"
  shows "ai' \<le> length a" "bi' \<le> length b" "v \<in> set (drop ai a) \<union> set (drop bi b)"
    "take ai' a = take ai a \<and> drop ai' a = drop ai a \<and> ai' = ai \<or> take ai' a = take ai a @ [v] \<and> drop ai a = v # drop ai' a \<and> ai' = ai + 1"
    "take bi' b = take bi b \<and> drop bi' b = drop bi b \<and> bi' = bi \<or> take bi' b = take bi b @ [v] \<and> drop bi b = v # drop bi' b \<and> bi' = bi + 1"
    "\<forall>q\<in>set (drop ai' a) \<union> set (drop bi' b). v \<le> q"
proof -
  have da: "drop ai a = a ! ai # drop (ai + 1) a" "take (ai + 1) a = take ai a @ [a ! ai]" if "ai < length a"
    using that by (simp_all add: Cons_nth_drop_Suc take_Suc_conv_app_nth)
  have db: "drop bi b = b ! bi # drop (bi + 1) b" "take (bi + 1) b = take bi b @ [b ! bi]" if "bi < length b"
    using that by (simp_all add: Cons_nth_drop_Suc take_Suc_conv_app_nth)
  have sa: "sorted (drop ai a)" "sorted (drop bi b)" using a(1,2) by (simp_all add: sorted_wrt_drop)
  have ma: "\<forall>q\<in>set (drop ai a). a ! ai \<le> q" if "ai < length a" using sa(1) unfolding da(1) [OF that] by auto
  have mb: "\<forall>q\<in>set (drop bi b). b ! bi \<le> q" if "bi < length b" using sa(2) unfolding db(1) [OF that] by auto
  consider (a) "ai < length a" "v = a ! ai" "ai' = ai + 1" "bi' = bi" "bi < length b \<longrightarrow> v < b ! bi"
    | (ab) "ai < length a" "bi < length b" "v = a ! ai" "v = b ! bi" "ai' = ai + 1" "bi' = bi + 1"
    | (b) "bi < length b" "v = b ! bi" "ai' = ai" "bi' = bi + 1" "ai < length a \<longrightarrow> v < a ! ai"
    using n by (auto simp: next_point_def split: if_splits)
  then have "ai' \<le> length a \<and> bi' \<le> length b \<and> v \<in> set (drop ai a) \<union> set (drop bi b) \<and>
    (take ai' a = take ai a \<and> drop ai' a = drop ai a \<and> ai' = ai \<or> take ai' a = take ai a @ [v] \<and> drop ai a = v # drop ai' a \<and> ai' = ai + 1) \<and>
    (take bi' b = take bi b \<and> drop bi' b = drop bi b \<and> bi' = bi \<or> take bi' b = take bi b @ [v] \<and> drop bi b = v # drop bi' b \<and> bi' = bi + 1) \<and>
    (\<forall>q\<in>set (drop ai' a) \<union> set (drop bi' b). v \<le> q)"
  proof cases
    case a
    then have "\<forall>q\<in>set (drop bi b). v \<le> q" using mb by (cases "bi < length b") fastforce+
    then show ?thesis using a da ma assms(4) by auto
  next
    case ab
    then show ?thesis using da db ma mb by auto
  next
    case b
    then have "\<forall>q\<in>set (drop ai a). v \<le> q" using ma by (cases "ai < length a") fastforce+
    then show ?thesis using b db mb assms(3) by auto
  qed
  then show "ai' \<le> length a" "bi' \<le> length b" "v \<in> set (drop ai a) \<union> set (drop bi b)"
    "take ai' a = take ai a \<and> drop ai' a = drop ai a \<and> ai' = ai \<or> take ai' a = take ai a @ [v] \<and> drop ai a = v # drop ai' a \<and> ai' = ai + 1"
    "take bi' b = take bi b \<and> drop bi' b = drop bi b \<and> bi' = bi \<or> take bi' b = take bi b @ [v] \<and> drop bi b = v # drop bi' b \<and> bi' = bi + 1"
    "\<forall>q\<in>set (drop ai' a) \<union> set (drop bi' b). v \<le> q" by blast+
qed

lemma merge_step:
  assumes a: "sorted a" "sorted b" and inv: "merge_inv a b op ai bi pts" and n: "next_point a b ai bi = Some (v, ai', bi')"
  shows "merge_inv a b op ai' bi' (if op_is_in op (odd ai') (odd bi') \<noteq> odd (length pts) then pts @ [v] else pts)"
proof -
  have i: "ai \<le> length a" "bi \<le> length b" "sorted pts"
    "\<forall>p\<in>set (take ai a) \<union> set (take bi b) \<union> set pts. \<forall>q\<in>set (drop ai a) \<union> set (drop bi b). p \<le> q"
    "\<And>v. inside pts v \<longleftrightarrow> op_is_in op (inside (take ai a) v) (inside (take bi b) v)"
    using inv by (auto simp: merge_inv_def)
  note np = next_point_split [OF a i(1,2) n]
  define pts' where "pts' = (if op_is_in op (odd ai') (odd bi') \<noteq> odd (length pts) then pts @ [v] else pts)"
  have old: "\<forall>p\<in>set (take ai a) \<union> set (take bi b) \<union> set pts. p \<le> v" using i(4) np(3) by blast
  have ta: "set (take ai' a) \<subseteq> set (take ai a) \<union> {v}" "set (take bi' b) \<subseteq> set (take bi b) \<union> {v}" "set pts' \<subseteq> set pts \<union> {v}"
    using np(4,5) by (auto simp: pts'_def)
  have all: "\<forall>p\<in>set (take ai' a) \<union> set (take bi' b) \<union> set pts'. p \<le> v" using old ta by auto
  have par: "odd (length pts') \<longleftrightarrow> op_is_in op (odd ai') (odd bi')" by (auto simp: pts'_def)
  have "inside pts' w \<longleftrightarrow> op_is_in op (inside (take ai' a) w) (inside (take bi' b) w)" for w
  proof (cases "v \<le> w")
    case True
    then have "\<forall>p\<in>set (take ai' a) \<union> set (take bi' b) \<union> set pts'. p \<le> w" using all by (meson order_trans)
    then have "inside (take ai' a) w \<longleftrightarrow> odd ai'" "inside (take bi' b) w \<longleftrightarrow> odd bi'" "inside pts' w \<longleftrightarrow> odd (length pts')"
      using inside_all_below [of _ w] np(1,2) by (auto simp: min_def)
    then show ?thesis using par by simp
  next
    case False
    then have "inside (take ai' a) w \<longleftrightarrow> inside (take ai a) w" "inside (take bi' b) w \<longleftrightarrow> inside (take bi b) w" "inside pts' w \<longleftrightarrow> inside pts w"
      using np(4,5) by (auto simp: pts'_def)
    then show ?thesis using i(5) by simp
  qed
  moreover have "sorted pts'" using i(3) old by (auto simp: pts'_def sorted_append)
  moreover have "\<forall>p\<in>set (take ai' a) \<union> set (take bi' b) \<union> set pts'. \<forall>q\<in>set (drop ai' a) \<union> set (drop bi' b). p \<le> q"
    using all np(6) by (meson order_trans)
  ultimately show ?thesis unfolding pts'_def [symmetric] merge_inv_def using np(1,2) par by blast
qed

lemma cr_op_loop_val:
  assumes "sorted a" "sorted b"
  shows "merge_inv a b op ai bi (points cr) \<Longrightarrow> cr_op_loop ra s cr a b op ai bi = (s', cr', ret) \<Longrightarrow> ret = 0 \<Longrightarrow>
    merge_inv a b op (length a) (length b) (points cr')"
proof (induction "length a - ai + (length b - bi)" arbitrary: s cr ai bi rule: less_induct)
  case less
  show ?case
  proof (cases "next_point a b ai bi")
    case None
    then have "ai = length a" "bi = length b" "cr' = cr"
      using less(2,3) by (auto simp: next_point_def merge_inv_def cr_op_loop.simps split: if_splits)
    then show ?thesis using less(2) by simp
  next
    case (Some y)
    obtain v ai' bi' where y: "y = (v, ai', bi')" by (cases y)
    note n = Some [unfolded y] and step = merge_step [OF assms less(2) Some [unfolded y]]
    define add where "add \<longleftrightarrow> op_is_in op (odd ai') (odd bi') \<noteq> odd (length (points cr))"
    define x where "x = (if add then cr_add_point ra s cr v else (s, cr, 0))"
    have e: "cr_op_loop ra s cr a b op ai bi =
        (let (s, cr, ret) = x in if ret \<noteq> 0 then (s, cr, -1) else cr_op_loop ra s cr a b op ai' bi')"
      by (subst cr_op_loop.simps) (simp add: n x_def add_def)
    have "\<exists>s1 cr1. x = (s1, cr1, 0) \<and> points cr1 = (if add then points cr @ [v] else points cr)"
    proof (cases add)
      case True
      then have xe: "x = cr_add_point ra s cr v" by (simp add: x_def)
      show ?thesis by (rule cr_add_point_cases [of ra s cr v]) (use e less(3,4) True xe in auto)
    qed (simp add: x_def)
    then obtain s1 cr1 where x: "x = (s1, cr1, 0)" "points cr1 = (if add then points cr @ [v] else points cr)" by blast
    have "cr_op_loop ra s1 cr1 a b op ai' bi' = (s', cr', ret)" using e less(3) x(1) by simp
    moreover have "merge_inv a b op ai' bi' (points cr1)" using step x(2) by (simp add: add_def)
    ultimately show ?thesis using less(1) [OF next_point_less [OF n]] less(4) by blast
  qed
qed

lemma cr_op_val:
  assumes ab: "sorted a" "sorted b" "even (length a)" "even (length b)" and cr: "points cr = []"
    and r: "cr_op ra s cr a b op = (s', cr', 0)"
  shows "strictly (points cr') \<and> even (length (points cr')) \<and>
    (\<forall>v. inside (points cr') v \<longleftrightarrow> op_is_in op (inside a v) (inside b v))"
proof -
  obtain s1 cr1 where l: "cr_op_loop ra s cr a b op 0 0 = (s1, cr1, 0)" "cr' = cr_compress cr1"
    using r by (auto simp: cr_op_def split: prod.splits if_splits)
  have "\<not> op_is_in op False False" by (cases op) simp_all
  then have "merge_inv a b op 0 0 (points cr)" by (simp add: merge_inv_def cr)
  from cr_op_loop_val [OF ab(1,2) this l(1) refl] have m: "merge_inv a b op (length a) (length b) (points cr1)" .
  then have "sorted (points cr1)" "even (length (points cr1))"
    "\<forall>v. inside (points cr1) v \<longleftrightarrow> op_is_in op (inside a v) (inside b v)"
    using ab(3,4) \<open>\<not> op_is_in op False False\<close> by (simp_all add: merge_inv_def)
  then show ?thesis using compress_strict [of "points cr1"] compress_inside [of "points cr1"] by (simp add: l(2) cr_compress_val)
qed

subsection \<open>Sorted intervals\<close>

interpretation pc: comparator point_cmp
  by unfold_locales (auto simp: point_cmp_def Let_def split: if_splits)

text \<open>The overlap removal on lists of intervals.\<close>

fun absorb_pairs :: "u32 \<Rightarrow> (u32 \<times> u32) list \<Rightarrow> u32 \<times> (u32 \<times> u32) list" where
  "absorb_pairs e [] = (e, [])"
| "absorb_pairs e ((a, b) # r) = (if a > e then (e, (a, b) # r) else absorb_pairs (max e b) r)"

lemma absorb_pairs_length: "length (snd (absorb_pairs e r)) \<le> length r"
  by (induction e r rule: absorb_pairs.induct) auto

function merge_pairs :: "(u32 \<times> u32) list \<Rightarrow> (u32 \<times> u32) list" where
  "merge_pairs [] = []"
| "merge_pairs ((x, y) # r) = (x, fst (absorb_pairs y r)) # merge_pairs (snd (absorb_pairs y r))"
  by pat_completeness auto
termination
  by (relation "measure length") (auto simp: le_imp_less_Suc [OF absorb_pairs_length])

lemma of_to_pairs: "even (length pt) \<Longrightarrow> of_pairs (to_pairs pt) = pt"
  by (induction pt rule: to_pairs.induct) auto

lemma to_of_pairs [simp]: "to_pairs (of_pairs ps) = ps"
  by (induction ps rule: of_pairs.induct) auto

lemma length_of_pairs [simp]: "length (of_pairs ps) = 2 * length ps"
  by (induction ps rule: of_pairs.induct) auto

lemma absorb_val:
  "even (length pt) \<Longrightarrow> even i \<Longrightarrow> i \<le> length pt \<Longrightarrow> absorb pt (length pt) e i = (e', i') \<Longrightarrow>
     absorb_pairs e (to_pairs (drop i pt)) = (e', to_pairs (drop i' pt)) \<and> even i' \<and> i' \<le> length pt"
proof (induction pt "length pt" e i rule: absorb.induct)
  case (1 pt e i)
  show ?case
  proof (cases "i < length pt")
    case False
    then show ?thesis using 1(5,6) 1(4) by (subst (asm) absorb.simps) simp
  next
    case True
    then have i1: "i + 1 < length pt" using 1(3,4) by (metis Suc_eq_plus1 Suc_lessI even_Suc)
    then have d: "to_pairs (drop i pt) = (pt ! i, pt ! (i + 1)) # to_pairs (drop (i + 2) pt)" using drop_two [OF i1] by simp
    show ?thesis
    proof (cases "pt ! i > e")
      case gt: True
      then have "e' = e" "i' = i" using 1(6) True by (subst (asm) absorb.simps, simp)+
      then show ?thesis using d gt 1(4,5) by simp
    next
      case False
      have r: "absorb pt (length pt) (max e (pt ! (i + 1))) (i + 2) = (e', i')"
        using 1(6) True False by (subst (asm) absorb.simps) (auto simp: Let_def max_def split: if_splits)
      have "absorb_pairs (max e (pt ! (i + 1))) (to_pairs (drop (i + 2) pt)) = (e', to_pairs (drop i' pt)) \<and> even i' \<and> i' \<le> length pt"
      proof (cases "pt ! (i + 1) \<le> e")
        case le: True
        then show ?thesis using 1(1) [OF True refl refl False] r 1(3,4) i1 by (simp add: max_def)
      next
        case nle: False
        then have "max e (pt ! (i + 1)) = pt ! (i + 1)" by simp
        then show ?thesis using 1(2) [OF True refl refl False nle] r 1(3,4) i1 by simp
      qed
      then show ?thesis using d False by simp
    qed
  qed
qed

lemma overlap_loop_val:
  "even (length pt) \<Longrightarrow> even i \<Longrightarrow> i \<le> length pt \<Longrightarrow> j \<le> i \<Longrightarrow> overlap_loop pt (length pt) i j = (pt', j') \<Longrightarrow>
     take j' pt' = take j pt @ of_pairs (merge_pairs (to_pairs (drop i pt)))"
proof (induction pt "length pt" i j arbitrary: pt' j' rule: overlap_loop.induct)
  case (1 pt i j)
  show ?case
  proof (cases "i < length pt")
    case False
    then show ?thesis using 1(4,6) by (simp add: overlap_loop.simps)
  next
    case True
    then have i1: "i + 1 < length pt" using 1(2,3) by (metis Suc_eq_plus1 Suc_lessI even_Suc)
    then have d: "to_pairs (drop i pt) = (pt ! i, pt ! (i + 1)) # to_pairs (drop (i + 2) pt)" using drop_two [OF i1] by simp
    obtain e i' where ab: "absorb pt (length pt) (pt ! (i + 1)) (i + 2) = (e, i')" by fastforce
    have a: "absorb_pairs (pt ! (i + 1)) (to_pairs (drop (i + 2) pt)) = (e, to_pairs (drop i' pt))" "even i'" "i' \<le> length pt" "i + 2 \<le> i'"
      using absorb_val [OF 1(2) _ _ ab] 1(3) i1 absorb_ge [of "i + 2" pt "length pt" "pt ! (i + 1)"] ab by simp_all
    define p2 where "p2 = pt[j := pt ! i, j + 1 := e]"
    have "overlap_loop p2 (length p2) i' (j + 2) = (pt', j')"
      using 1(6) True unfolding overlap_loop.simps [of pt "length pt" i j] Let_def ab by (simp add: p2_def)
    then have "take j' pt' = take (j + 2) p2 @ of_pairs (merge_pairs (to_pairs (drop i' p2)))"
      using 1(1) [OF True refl ab [symmetric] refl refl] 1(2,5) a by (simp add: p2_def)
    moreover have "take (j + 2) p2 = take j pt @ [pt ! i, e]"
      using 1(5) i1 unfolding p2_def by (simp add: take_Suc_conv_app_nth nth_append numeral_eq_Suc)
    moreover have "drop i' p2 = drop i' pt" using a(4) 1(5) unfolding p2_def by simp
    ultimately show ?thesis using d a(1) by simp
  qed
qed

definition in_pairs :: "(u32 \<times> u32) list \<Rightarrow> u32 \<Rightarrow> bool" where
  "in_pairs ps v \<longleftrightarrow> (\<exists>(x, y)\<in>set ps. x \<le> v \<and> v < y)"

lemma in_pairs_simps [simp]: "\<not> in_pairs [] v" "in_pairs ((x, y) # r) v \<longleftrightarrow> x \<le> v \<and> v < y \<or> in_pairs r v"
  by (auto simp: in_pairs_def)

lemma absorb_pairs_set:
  assumes "sorted_wrt (\<lambda>p q. fst p \<le> fst q) ps" "\<forall>(a, b)\<in>set ps. x \<le> a \<and> a < b" "x < e"
  shows "e \<le> fst (absorb_pairs e ps)" "set (snd (absorb_pairs e ps)) \<subseteq> set ps"
    "sorted_wrt (\<lambda>p q. fst p \<le> fst q) (snd (absorb_pairs e ps))"
    "\<forall>(a, b)\<in>set (snd (absorb_pairs e ps)). fst (absorb_pairs e ps) < a"
    "x \<le> v \<and> v < fst (absorb_pairs e ps) \<or> in_pairs (snd (absorb_pairs e ps)) v \<longleftrightarrow> x \<le> v \<and> v < e \<or> in_pairs ps v"
proof -
  have "e \<le> fst (absorb_pairs e ps) \<and> set (snd (absorb_pairs e ps)) \<subseteq> set ps \<and>
    sorted_wrt (\<lambda>p q. fst p \<le> fst q) (snd (absorb_pairs e ps)) \<and>
    (\<forall>(a, b)\<in>set (snd (absorb_pairs e ps)). fst (absorb_pairs e ps) < a) \<and>
    (x \<le> v \<and> v < fst (absorb_pairs e ps) \<or> in_pairs (snd (absorb_pairs e ps)) v \<longleftrightarrow> x \<le> v \<and> v < e \<or> in_pairs ps v)"
    using assms
  proof (induction e ps rule: absorb_pairs.induct)
    case (2 e a b r)
    show ?case
    proof (cases "a > e")
      case True
      then show ?thesis using 2(2,3) by (auto intro: less_le_trans)
    next
      case False
      define e' where "e' = max e b"
      have ih: "e' \<le> fst (absorb_pairs e' r) \<and> set (snd (absorb_pairs e' r)) \<subseteq> set r \<and>
          sorted_wrt (\<lambda>p q. fst p \<le> fst q) (snd (absorb_pairs e' r)) \<and>
          (\<forall>(a, b)\<in>set (snd (absorb_pairs e' r)). fst (absorb_pairs e' r) < a) \<and>
          (x \<le> v \<and> v < fst (absorb_pairs e' r) \<or> in_pairs (snd (absorb_pairs e' r)) v \<longleftrightarrow> x \<le> v \<and> v < e' \<or> in_pairs r v)"
        unfolding e'_def using 2(1) [OF False] 2(2-4) by (auto intro: less_max_iff_disj [THEN iffD2])
      have "absorb_pairs e ((a, b) # r) = absorb_pairs e' r" "e \<le> e'" using False by (simp_all add: e'_def)
      moreover have "x \<le> v \<and> v < e' \<longleftrightarrow> x \<le> v \<and> v < e \<or> a \<le> v \<and> v < b"
        using False 2(3) unfolding e'_def by (auto simp: less_max_iff_disj not_less intro: order_trans le_less_trans less_le_trans)
      ultimately show ?thesis using ih by auto
    qed
  qed auto
  then show "e \<le> fst (absorb_pairs e ps)" "set (snd (absorb_pairs e ps)) \<subseteq> set ps"
    "sorted_wrt (\<lambda>p q. fst p \<le> fst q) (snd (absorb_pairs e ps))"
    "\<forall>(a, b)\<in>set (snd (absorb_pairs e ps)). fst (absorb_pairs e ps) < a"
    "x \<le> v \<and> v < fst (absorb_pairs e ps) \<or> in_pairs (snd (absorb_pairs e ps)) v \<longleftrightarrow> x \<le> v \<and> v < e \<or> in_pairs ps v" by blast+
qed

lemma merge_pairs_set:
  "sorted_wrt (\<lambda>p q. fst p \<le> fst q) ps \<Longrightarrow> \<forall>(a, b)\<in>set ps. a < b \<Longrightarrow>
    (in_pairs (merge_pairs ps) v \<longleftrightarrow> in_pairs ps v) \<and> strictly (of_pairs (merge_pairs ps)) \<and>
    (\<forall>q. (\<forall>(a, b)\<in>set ps. q < a) \<longrightarrow> (\<forall>p\<in>set (of_pairs (merge_pairs ps)). q < p))"
proof (induction ps rule: merge_pairs.induct)
  case (2 x y r)
  define e t where "e = fst (absorb_pairs y r)" and "t = snd (absorb_pairs y r)"
  have pre: "sorted_wrt (\<lambda>p q. fst p \<le> fst q) r" "\<forall>(a, b)\<in>set r. x \<le> a \<and> a < b" "x < y" using 2(2,3) by auto
  note ab = absorb_pairs_set(1-4) [OF pre, folded e_def t_def] absorb_pairs_set(5) [OF pre, of v, folded e_def t_def]
  have tl: "\<forall>(a, b)\<in>set t. a < b" using ab(2) pre(2) by fastforce
  have ih: "in_pairs (merge_pairs t) v \<longleftrightarrow> in_pairs t v" "strictly (of_pairs (merge_pairs t))"
    "\<forall>q. (\<forall>(a, b)\<in>set t. q < a) \<longrightarrow> (\<forall>p\<in>set (of_pairs (merge_pairs t)). q < p)"
    using 2(1) ab(3) tl by (auto simp: t_def)
  have et: "\<forall>p\<in>set (of_pairs (merge_pairs t)). e < p" using ih(3) ab(4) by blast
  have xe: "x < e" using pre(3) ab(1) by (rule less_le_trans)
  have m: "merge_pairs ((x, y) # r) = (x, e) # merge_pairs t" by (simp add: e_def t_def)
  have "strictly (of_pairs (merge_pairs ((x, y) # r)))"
    unfolding m using ih(2) et xe by (auto simp: strictly_def intro: less_trans)
  moreover have "\<forall>p\<in>set (of_pairs (merge_pairs ((x, y) # r))). q < p" if "\<forall>(a, b)\<in>set ((x, y) # r). q < a" for q
  proof -
    have "q < x" using that by simp
    moreover have "q < e" using \<open>q < x\<close> xe by (rule less_trans)
    moreover have "q < p" if "p \<in> set (of_pairs (merge_pairs t))" for p using \<open>q < e\<close> et that by (blast intro: less_trans)
    ultimately show ?thesis unfolding m by simp
  qed
  moreover have "in_pairs (merge_pairs ((x, y) # r)) v \<longleftrightarrow> in_pairs ((x, y) # r) v" unfolding m using ih(1) ab(5) by simp
  ultimately show ?case by blast
qed (simp_all add: strictly_def)

lemma sort_overlap_val:
  assumes "even (length (points cr))" "\<forall>(a, b)\<in>set (to_pairs (points cr)). a < b"
  obtains cr' where "cr_sort_and_remove_overlap cr = Some cr'" "strictly (points cr')" "even (length (points cr'))"
    "\<And>v. inside (points cr') v \<longleftrightarrow> in_pairs (to_pairs (points cr)) v"
proof -
  obtain ps where r: "rqsort point_cmp (to_pairs (points cr)) = Some ps" "mset ps = mset (to_pairs (points cr))"
    using rqsort_returns by blast
  have o: "pc.ordered ps" by (rule pc.rqsort_sorts [OF r(1)])
  have st: "set ps = set (to_pairs (points cr))" using r(2) by (metis set_mset_mset)
  have "sorted_wrt (\<lambda>p q. point_cmp p q \<le> 0) ps" using o by (auto simp: pc.ordered_def sorted_wrt_iff_nth_less)
  then have so: "sorted_wrt (\<lambda>p q. fst p \<le> fst q) ps"
    by (rule sorted_wrt_mono_rel [rotated]) (auto simp: point_cmp_def Let_def split: if_splits)
  obtain pt j where l: "overlap_loop (of_pairs ps) (length (of_pairs ps)) 0 0 = (pt, j)" by fastforce
  define cr' where "cr' = cr\<lparr>points := of_pairs (merge_pairs ps)\<rparr>"
  have "take j pt = of_pairs (merge_pairs ps)" using overlap_loop_val [OF _ _ _ _ l] by simp
  then have "cr_sort_and_remove_overlap cr = Some cr'" using l by (simp add: cr_sort_and_remove_overlap_def r(1) cr'_def)
  moreover have m: "in_pairs (merge_pairs ps) v \<longleftrightarrow> in_pairs ps v" "strictly (of_pairs (merge_pairs ps))" for v
    using merge_pairs_set [OF so, of v] assms(2) st by auto
  moreover have "inside (of_pairs (merge_pairs ps)) v \<longleftrightarrow> in_pairs (merge_pairs ps) v" for v
    using inside_intervals [OF strictly_sorted [OF m(2)], of v] by (simp add: in_pairs_def)
  moreover have "in_pairs ps v \<longleftrightarrow> in_pairs (to_pairs (points cr)) v" for v using st by (simp add: in_pairs_def)
  ultimately show thesis using that [of cr'] by (simp add: cr'_def)
qed

subsection \<open>Character ranges as sets\<close>

definition cr_set :: "CharRange \<Rightarrow> u32 set" where
  "cr_set cr = {v. inside (points cr) v}"

text \<open>The invariant of the structure: an even number of increasing points that fit in the block.\<close>

definition cr_ok :: "CharRange \<Rightarrow> bool" where
  "cr_ok cr \<longleftrightarrow> strictly (points cr) \<and> even (length (points cr)) \<and> clen cr \<le> csize cr"

fun set_op :: "CharRangeOpEnum \<Rightarrow> 'a set \<Rightarrow> 'a set \<Rightarrow> 'a set" where
  "set_op CR_OP_UNION A B = A \<union> B"
| "set_op CR_OP_INTER A B = A \<inter> B"
| "set_op CR_OP_XOR A B = A - B \<union> (B - A)"
| "set_op CR_OP_SUB A B = A - B"

lemma in_set_op: "v \<in> set_op op A B \<longleftrightarrow> op_is_in op (v \<in> A) (v \<in> B)"
  by (cases op) auto

lemma cr_okD: "cr_ok cr \<Longrightarrow> sorted (points cr)" "cr_ok cr \<Longrightarrow> even (length (points cr))"
  by (simp_all add: cr_ok_def strictly_sorted)

lemma compress_length: "length (compress pts) \<le> length pts"
proof (induction pts rule: compress.induct)
  case (1 x y r)
  then show ?case using run_join_length [of y r] by (cases "x = y") auto
qed simp_all

text \<open>The block is never overrun, whatever the callback answers.\<close>

lemma cr_add_point_fits: "clen cr \<le> csize cr \<Longrightarrow> cr_add_point ra s cr v = (s', cr', ret) \<Longrightarrow> clen cr' \<le> csize cr'"
  by (rule cr_realloc_cases [of ra s cr "clen cr + 1"]) (auto simp: cr_add_point_def split: if_splits)

lemma cr_op_loop_fits:
  "clen cr \<le> csize cr \<Longrightarrow> cr_op_loop ra s cr a b op ai bi = (s', cr', ret) \<Longrightarrow> clen cr' \<le> csize cr' \<and> (ret = 0 \<or> ret = -1)"
proof (induction "length a - ai + (length b - bi)" arbitrary: s cr ai bi rule: less_induct)
  case less
  show ?case
  proof (cases "next_point a b ai bi")
    case None
    then show ?thesis using less(2,3) by (simp add: cr_op_loop.simps)
  next
    case (Some y)
    obtain v ai' bi' where y: "y = (v, ai', bi')" by (cases y)
    obtain s1 cr1 ret1 where x: "(if op_is_in op (odd ai') (odd bi') \<noteq> odd (length (points cr)) then cr_add_point ra s cr v else (s, cr, 0)) = (s1, cr1, ret1)"
      by (metis prod_cases3)
    have f: "clen cr1 \<le> csize cr1" using x less(2) cr_add_point_fits by (auto split: if_splits)
    have "(if ret1 \<noteq> 0 then (s1, cr1, -1) else cr_op_loop ra s1 cr1 a b op ai' bi') = (s', cr', ret)"
      using less(3) unfolding cr_op_loop.simps [of ra s cr a b op ai bi] Some y option.case prod.case x Let_def .
    then show ?thesis using f less(1) [OF next_point_less [OF Some [unfolded y]] f] by (auto split: if_splits)
  qed
qed

lemma cr_op_returns:
  assumes "\<forall>s n. snd (ra s n)"
  shows "\<exists>s' cr'. cr_op_loop ra s cr a b op ai bi = (s', cr', 0)"
proof (induction "length a - ai + (length b - bi)" arbitrary: s cr ai bi rule: less_induct)
  case less
  have ok: "\<exists>s' cr'. cr_add_point ra s cr v = (s', cr', 0)" for v
    using assms by (auto simp: cr_add_point_def cr_realloc_def Let_def split: prod.splits) (metis snd_conv)+
  show ?case
  proof (cases "next_point a b ai bi")
    case None
    then show ?thesis by (simp add: cr_op_loop.simps)
  next
    case (Some y)
    obtain v ai' bi' where y: "y = (v, ai', bi')" by (cases y)
    obtain s1 cr1 where x: "(if op_is_in op (odd ai') (odd bi') \<noteq> odd (length (points cr)) then cr_add_point ra s cr v else (s, cr, 0)) = (s1, cr1, 0)"
      using ok by (metis (full_types))
    show ?thesis
      using less(1) [OF next_point_less [OF Some [unfolded y]], of s1 cr1]
      unfolding cr_op_loop.simps [of ra s cr a b op ai bi] Some y option.case prod.case x Let_def by simp
  qed
qed

lemma cr_op_refines_aux:
  assumes "cr_ok a" "cr_ok b" "points cr = []" "0 \<le> csize cr" "cr_op ra s cr (points a) (points b) op = (s', cr', ret)"
  shows "(ret = 0 \<or> ret = -1) \<and> clen cr' \<le> csize cr' \<and> (ret = 0 \<longrightarrow> cr_ok cr' \<and> cr_set cr' = set_op op (cr_set a) (cr_set b))"
proof -
  obtain s1 cr1 r1 where l: "cr_op_loop ra s cr (points a) (points b) op 0 0 = (s1, cr1, r1)" by (metis prod_cases3)
  have f: "clen cr1 \<le> csize cr1" "r1 = 0 \<or> r1 = -1" using cr_op_loop_fits [OF _ l] assms(3,4) by auto
  have c: "csize (cr_compress cr1) = csize cr1" by (simp add: cr_compress_def split: prod.splits)
  have f': "clen (cr_compress cr1) \<le> csize cr1" using f(1) compress_length [of "points cr1"] by (simp add: cr_compress_val)
  have e: "(if r1 \<noteq> 0 then (s1, cr1, -1) else (s1, cr_compress cr1, 0)) = (s', cr', ret)" using assms(5) l by (simp add: cr_op_def)
  have fit: "clen cr' \<le> csize cr'" "ret = 0 \<or> ret = -1" using e f f' c by (auto split: if_splits)
  have "cr_ok cr' \<and> cr_set cr' = set_op op (cr_set a) (cr_set b)" if "ret = 0"
  proof -
    note v = cr_op_val [OF cr_okD(1) [OF assms(1)] cr_okD(1) [OF assms(2)] cr_okD(2) [OF assms(1)] cr_okD(2) [OF assms(2)] assms(3) assms(5) [unfolded that]]
    have "cr_ok cr'" using v fit(1) by (simp add: cr_ok_def)
    moreover have "v \<in> cr_set cr' \<longleftrightarrow> v \<in> set_op op (cr_set a) (cr_set b)" for v
      using v unfolding in_set_op cr_set_def mem_Collect_eq by blast
    ultimately show ?thesis by blast
  qed
  then show ?thesis using fit by blast
qed

text \<open>C39. Character ranges implement sets. Union, intersection, symmetric difference and difference of
  two well formed ranges, computed by the merge and compressed in place, give a well formed range of
  exactly the set operation; the memory block is not overrun whatever the allocator answers, and with
  an allocator that always succeeds the operation succeeds.\<close>

theorem cr_op_refines:
  assumes "cr_ok a" "cr_ok b" "points cr = []" "0 \<le> csize cr" "cr_op ra s cr (points a) (points b) op = (s', cr', ret)"
  shows "(ret = 0 \<or> ret = -1) \<and> clen cr' \<le> csize cr' \<and>
    (ret = 0 \<longrightarrow> cr_ok cr' \<and> cr_set cr' = set_op op (cr_set a) (cr_set b)) \<and>
    ((\<forall>s n. snd (ra s n)) \<longrightarrow> ret = 0)"
proof -
  have "ret = 0" if "\<forall>s n. snd (ra s n)"
    using cr_op_returns [OF that, of s cr "points a" "points b" op 0 0] assms(5) by (auto simp: cr_op_def)
  then show ?thesis using cr_op_refines_aux [OF assms] by blast
qed

theorem cr_op_refines_witness:
  "cr_ok \<lparr>points = [97, 123], csize = 2\<rparr> \<and> cr_ok \<lparr>points = [48, 58, 100, 200], csize = 4\<rparr> \<and>
   cr_op (\<lambda>s n. (s, True)) () cr_init [97, 123] [48, 58, 100, 200] CR_OP_UNION = ((), \<lparr>points = [48, 58, 97, 200], csize = 4\<rparr>, 0) \<and>
   cr_set \<lparr>points = [48, 58, 97, 200], csize = 4\<rparr> =
     cr_set \<lparr>points = [97, 123], csize = 2\<rparr> \<union> cr_set \<lparr>points = [48, 58, 100, 200], csize = 4\<rparr>"
proof -
  have ok: "cr_ok \<lparr>points = [97, 123], csize = 2\<rparr>" "cr_ok \<lparr>points = [48, 58, 100, 200], csize = 4\<rparr>"
    by (simp_all add: cr_ok_def strictly_def)
  have r: "cr_op (\<lambda>s n. (s, True)) () cr_init [97, 123] [48, 58, 100, 200] CR_OP_UNION = ((), \<lparr>points = [48, 58, 97, 200], csize = 4\<rparr>, 0)"
    by code_simp
  then show ?thesis
    using cr_op_refines [OF ok, of cr_init "\<lambda>s n. (s, True)" "()" CR_OP_UNION] ok by (simp add: cr_init_def)
qed

lemma cr_op1_refines:
  assumes "cr_ok cr" "cr_ok b" "cr_op1 ra s cr (points b) op = (s', cr', ret)"
  shows "(ret = 0 \<or> ret = -1) \<and> clen cr' \<le> csize cr' \<and> (ret = 0 \<longrightarrow> cr_ok cr' \<and> cr_set cr' = set_op op (cr_set cr) (cr_set b))"
proof -
  define cr0 where "cr0 = cr\<lparr>points := [], csize := 0\<rparr>"
  obtain s1 where "cr_op ra s cr0 (points cr) (points b) op = (s1, cr', ret)"
    using assms(3) by (auto simp: cr_op1_def cr0_def Let_def split: prod.splits)
  from cr_op_refines_aux [OF assms(1,2) _ _ this] show ?thesis by (simp add: cr0_def)
qed

lemma u32_max: "(v :: u32) \<le> 0xffffffff"
  using unat_bound [of v] by (simp add: word_le_nat_alt)

lemma cr_invert_val:
  assumes "sorted (points cr)" "even (length (points cr))" "cr_invert ra s cr = (s', cr', 0)"
  shows "cr_ok cr' \<and> (\<forall>v. v \<noteq> 0xffffffff \<longrightarrow> (v \<in> cr_set cr' \<longleftrightarrow> v \<notin> cr_set cr)) \<and> 0xffffffff \<notin> cr_set cr'"
proof -
  obtain s1 cr1 where r: "cr_realloc ra s cr (clen cr + 2) = (s1, cr1, 0)" "points cr1 = points cr" "csize cr1 \<ge> clen cr + 2"
    by (rule cr_realloc_cases [of ra s cr "clen cr + 2"]) (use assms(3) in \<open>auto simp: cr_invert_def\<close>)
  define cr2 where "cr2 = cr1\<lparr>points := 0 # points cr1 @ [0xffffffff]\<rparr>"
  have e: "cr' = cr_compress cr2" using assms(3) by (simp add: cr_invert_def r(1) cr2_def)
  note max = u32_max
  have p2: "points cr2 = 0 # points cr @ [0xffffffff]" "csize cr2 = csize cr1" by (simp_all add: cr2_def r(2))
  have "sorted (points cr2)" "even (length (points cr2))"
    using assms(1,2) max by (auto simp: p2 sorted_append)
  note c = compress_strict [OF this] compress_inside [OF this(2)]
  have i: "inside (points cr') v \<longleftrightarrow> inside (0 # points cr @ [0xffffffff]) v" for v using c(2) by (simp add: e cr_compress_val p2)
  have sz: "csize cr' = csize cr2" by (simp add: e cr_compress_def split: prod.splits)
  have "clen cr' \<le> csize cr'" unfolding sz p2(2) using r(3) compress_length [of "points cr2"] by (simp add: e cr_compress_val p2)
  moreover have "cr_ok cr'" using c(1) calculation by (simp add: cr_ok_def e cr_compress_val)
  moreover have "v \<in> cr_set cr' \<longleftrightarrow> v \<notin> cr_set cr" if "v \<noteq> 0xffffffff" for v
  proof -
    have "\<not> 0xffffffff \<le> v" using that max [of v] by (meson antisym)
    then show ?thesis using i [of v] by (simp add: cr_set_def)
  qed
  moreover have "0xffffffff \<notin> cr_set cr'"
  proof -
    have "inside (points cr) 0xffffffff \<longleftrightarrow> odd (length (points cr))" using max by (intro inside_all_below) blast
    then show ?thesis using i [of "0xffffffff"] assms(2) by (simp add: cr_set_def)
  qed
  ultimately show ?thesis by blast
qed

text \<open>Inversion complements. A successful \<^verbatim>\<open>cr_invert\<close> of a well formed range gives the well formed
  range of all other characters below the largest 32-bit number.\<close>

theorem cr_invert_complements:
  assumes "cr_ok cr" "cr_invert ra s cr = (s', cr', 0)"
  shows "cr_ok cr' \<and> cr_set cr' = {v. v < 0xffffffff} - cr_set cr"
proof -
  have max: "v < 0xffffffff \<longleftrightarrow> v \<noteq> 0xffffffff" for v :: u32 using u32_max [of v] by (auto simp: order.strict_iff_order)
  note v = cr_invert_val [OF cr_okD [OF assms(1)] assms(2)]
  have "v \<in> cr_set cr' \<longleftrightarrow> v \<in> {v. v < 0xffffffff} - cr_set cr" for v
    by (cases "v = 0xffffffff") (use v max [of v] in simp_all)
  then show ?thesis using v by blast
qed

theorem cr_invert_complements_witness:
  "cr_set \<lparr>points = [0, 65, 91, 0xffffffff], csize = 4\<rparr> = {v. v < 0xffffffff} - cr_set \<lparr>points = [65, 91], csize = 2\<rparr>"
proof -
  have "cr_invert (\<lambda>s n. (s, True)) () \<lparr>points = [65, 91], csize = 2\<rparr> = ((), \<lparr>points = [0, 65, 91, 0xffffffff], csize = 4\<rparr>, 0)"
    by code_simp
  from cr_invert_complements [OF _ this] show ?thesis by (simp add: cr_ok_def strictly_def)
qed

text \<open>Sorting intervals. For any list of nonempty intervals, in any order and overlapping,
  \<^verbatim>\<open>cr_sort_and_remove_overlap\<close> returns strictly increasing points whose set is the union of the
  intervals; the sort is \<^verbatim>\<open>rqsort\<close> with the comparison of the starts.\<close>

theorem cr_sort_unions:
  assumes "even (length (points cr))" "\<forall>(a, b)\<in>set (to_pairs (points cr)). a < b"
  shows "\<exists>cr'. cr_sort_and_remove_overlap cr = Some cr' \<and> strictly (points cr') \<and> even (length (points cr')) \<and>
    cr_set cr' = (\<Union>(a, b)\<in>set (to_pairs (points cr)). {a..<b})"
proof -
  obtain cr' where c: "cr_sort_and_remove_overlap cr = Some cr'" "strictly (points cr')" "even (length (points cr'))"
    "\<And>v. inside (points cr') v \<longleftrightarrow> in_pairs (to_pairs (points cr)) v"
    by (rule sort_overlap_val [OF assms]) blast
  have "cr_set cr' = (\<Union>(a, b)\<in>set (to_pairs (points cr)). {a..<b})"
    unfolding cr_set_def c(4) in_pairs_def by fastforce
  then show ?thesis using c by blast
qed

theorem cr_sort_unions_witness:
  "\<exists>cr'. cr_sort_and_remove_overlap \<lparr>points = [70, 80, 10, 20, 15, 30], csize = 6\<rparr> = Some cr' \<and>
    cr_set cr' = {70..<80} \<union> ({10..<20} \<union> {15..<30})"
  using cr_sort_unions [of "\<lparr>points = [70, 80, 10, 20, 15, 30], csize = 6\<rparr>"] by auto

end
