(* ===== verification/Compressed_Table.thy ===== *)
theory Compressed_Table
  imports Prelude
begin

text \<open>
  The lookup in the compressed tables of \<^verbatim>\<open>libunicode.c\<close>: a set of characters is a table of run
  lengths of one to three bytes, with an index every 32 bytes. The reference decodes the whole table.
\<close>

subsection \<open>Compressed tables\<close>

definition get_le24 :: "u8 list \<Rightarrow> nat \<Rightarrow> u32" where
  "get_le24 p i = ucast (p ! i) OR push_bit 8 (ucast (p ! (i + 1))) OR push_bit 16 (ucast (p ! (i + 2)))"

definition UNICODE_INDEX_BLOCK_LEN :: nat where
  "UNICODE_INDEX_BLOCK_LEN = 32"

function index_search :: "u8 list \<Rightarrow> u32 \<Rightarrow> nat \<Rightarrow> nat \<Rightarrow> nat" where
  "index_search index c idx_min idx_max =
     (if idx_max - idx_min > 1 then
        let idx = (idx_max + idx_min) div 2;
            code = get_le24 index (idx * 3) AND (push_bit 21 1 - 1)
        in if c < code then index_search index c idx_min idx else index_search index c idx idx_max
      else idx_min)"
  by pat_completeness auto
termination
  by (relation "measure (\<lambda>(index, c, lo, hi). hi - lo)") auto

declare index_search.simps [simp del]

text \<open>The result is \<open>None\<close> for -1, and otherwise the offset and the code.\<close>

definition get_index_pos :: "u32 \<Rightarrow> u8 list \<Rightarrow> nat \<Rightarrow> (nat \<times> u32) option" where
  "get_index_pos c index index_len =
     (if c < get_le24 index 0 AND (push_bit 21 1 - 1) then Some (0, 0)
      else if c \<ge> get_le24 index ((index_len - 1) * 3) then None
      else
        let idx_min = index_search index c 0 (index_len - 1);
            v = get_le24 index (idx_min * 3)
        in Some ((idx_min + 1) * UNICODE_INDEX_BLOCK_LEN + unat (drop_bit 21 v), v AND (push_bit 21 1 - 1)))"

text \<open>The loop over the runs; \<open>None\<close> when the bytes of the table end before the character is reached.\<close>

fun run_loop :: "u32 \<Rightarrow> u8 list \<Rightarrow> u32 \<Rightarrow> bool \<Rightarrow> bool option" where
  "run_loop c [] code b = None"
| "run_loop c (x # p) code b =
     (if x < 64 then
        let code = code + (ucast (drop_bit 3 x) + 1)
        in if c < code then Some b
           else let code = code + (ucast (x AND 7) + 1)
                in if c < code then Some (\<not> b) else run_loop c p code b
      else if x \<ge> 0x80 then
        let code = code + (ucast x - 0x80 + 1)
        in if c < code then Some b else run_loop c p code (\<not> b)
      else if x < 0x60 then
        (case p of [] \<Rightarrow> None
         | y # p \<Rightarrow>
             let code = code + ((push_bit 8 (ucast x - 0x40) OR ucast y) + 1)
             in if c < code then Some b else run_loop c p code (\<not> b))
      else
        (case p of y # z # p \<Rightarrow>
             let code = code + ((push_bit 16 (ucast x - 0x60) OR push_bit 8 (ucast y) OR ucast z) + 1)
             in if c < code then Some b else run_loop c p code (\<not> b)
         | _ \<Rightarrow> None))"

definition lre_is_in_table :: "u32 \<Rightarrow> u8 list \<Rightarrow> u8 list \<Rightarrow> nat \<Rightarrow> bool option" where
  "lre_is_in_table c table index index_len =
     (case get_index_pos c index index_len of None \<Rightarrow> Some False
      | Some (pos, code) \<Rightarrow> run_loop c (drop pos table) code False)"

subsection \<open>Reference decoding\<close>

text \<open>The runs that one code of the table holds, and the rest of the table.\<close>

fun next_runs :: "u8 list \<Rightarrow> (int list \<times> u8 list) option" where
  "next_runs [] = None"
| "next_runs (x # p) =
     (if x < 64 then Some ([uint (drop_bit 3 x) + 1, uint (x AND 7) + 1], p)
      else if x \<ge> 0x80 then Some ([uint x - 0x80 + 1], p)
      else if x < 0x60 then
        (case p of [] \<Rightarrow> None | y # p \<Rightarrow> Some ([(uint x - 0x40) * 256 + uint y + 1], p))
      else
        (case p of y # z # p \<Rightarrow> Some ([(uint x - 0x60) * 65536 + uint y * 256 + uint z + 1], p)
         | _ \<Rightarrow> None))"

lemma next_runs_shorter: "next_runs p = Some (r, q) \<Longrightarrow> length q < length p"
  by (induction p rule: next_runs.induct) (auto split: list.splits if_splits)

function parse_runs :: "u8 list \<Rightarrow> int list option" where
  "parse_runs p =
     (if p = [] then Some []
      else case next_runs p of None \<Rightarrow> None | Some (r, q) \<Rightarrow> map_option ((@) r) (parse_runs q))"
  by pat_completeness auto
termination
  by (relation "measure length") (auto dest: next_runs_shorter)

declare parse_runs.simps [simp del]

definition index_entry :: "u8 list \<Rightarrow> nat \<Rightarrow> nat \<times> u32" where
  "index_entry index i =
     (let v = get_le24 index (i * 3)
      in ((i + 1) * UNICODE_INDEX_BLOCK_LEN + unat (drop_bit 21 v), v AND (push_bit 21 1 - 1)))"

text \<open>
  An index is right when its entries cut the table between two runs, where the set is left, each
  with the code of this place, and the last code is that of the end of the table.
\<close>

fun segs_ok :: "(nat \<times> u32) list \<Rightarrow> int \<Rightarrow> nat \<Rightarrow> int \<Rightarrow> u8 list \<Rightarrow> bool" where
  "segs_ok [] final pos code table \<longleftrightarrow>
     (case parse_runs table of None \<Rightarrow> False | Some l \<Rightarrow> code + sum_list l = final)"
| "segs_ok ((p, c) # es) final pos code table \<longleftrightarrow> pos \<le> p \<and> p - pos \<le> length table \<and>
     (case parse_runs (take (p - pos) table) of None \<Rightarrow> False
      | Some l \<Rightarrow> even (length l) \<and> code + sum_list l = uint c \<and> segs_ok es final p (uint c) (drop (p - pos) table))"

definition index_ok :: "u8 list \<Rightarrow> u8 list \<Rightarrow> nat \<Rightarrow> bool" where
  "index_ok table index n \<longleftrightarrow> 2 \<le> n \<and>
     segs_ok (map (index_entry index) [0..<n - 1]) (uint (get_le24 index ((n - 1) * 3))) 0 0 table"

subsection \<open>Lookup in a compressed table\<close>

text \<open>Membership as the runs describe it: they lie alternately outside and inside the set.\<close>

fun member :: "bool \<Rightarrow> int list \<Rightarrow> int \<Rightarrow> bool" where
  "member b [] x = False"
| "member b (n # l) x = (if x < n then b else member (\<not> b) l (x - n))"

definition in_set :: "u8 list \<Rightarrow> u32 \<Rightarrow> bool" where
  "in_set table c = (case parse_runs table of None \<Rightarrow> False | Some l \<Rightarrow> member False l (uint c))"

lemma next_runs_append: "next_runs p = Some (r, q) \<Longrightarrow> next_runs (p @ s) = Some (r, q @ s)"
  by (induction p rule: next_runs.induct) (auto split: list.splits if_splits)

lemma uint_nonneg: "0 \<le> uint w"
  by simp

lemma two_bytes: "\<not> a < 64 \<Longrightarrow> 16383 < a * 256 + uint (b :: u8)"
  using uint_nonneg [of b] by linarith

lemma three_bytes: "\<not> a < 96 \<Longrightarrow> 6291455 < a * 65536 + (uint (b :: u8) * 256 + uint (d :: u8))"
  using uint_nonneg [of b] uint_nonneg [of d] by linarith

lemma next_runs_pos: "next_runs p = Some (r, q) \<Longrightarrow> list_all (\<lambda>x. 0 < x) r"
  by (induction p rule: next_runs.induct)
     (auto simp: word_le_def word_less_def two_bytes three_bytes split: list.splits if_splits)

lemma parse_runs_Nil [simp]: "parse_runs [] = Some []"
  by (simp add: parse_runs.simps)

lemma parse_runs_cases:
  assumes "parse_runs p = Some l"
  obtains "p = []" "l = []"
    | r q l' where "next_runs p = Some (r, q)" "p \<noteq> []" "parse_runs q = Some l'" "l = r @ l'"
  using assms by (subst (asm) parse_runs.simps) (auto split: if_splits option.splits)

lemma parse_runs_append: "parse_runs p = Some l \<Longrightarrow> parse_runs (p @ s) = map_option ((@) l) (parse_runs s)"
proof (induction p arbitrary: l rule: parse_runs.induct)
  case (1 p)
  from 1(2) show ?case
  proof (cases rule: parse_runs_cases)
    case 1
    then show ?thesis by (cases "parse_runs s") auto
  next
    case (2 r q l')
    then have "parse_runs (q @ s) = map_option ((@) l') (parse_runs s)" using 1(1) by simp
    then show ?thesis using 2 next_runs_append [OF 2(1)]
      by (subst parse_runs.simps) (cases "parse_runs s", auto)
  qed
qed

lemma parse_runs_pos: "parse_runs p = Some l \<Longrightarrow> list_all (\<lambda>x. 0 < x) l"
proof (induction p arbitrary: l rule: parse_runs.induct)
  case (1 p)
  from 1(2) show ?case
    by (cases rule: parse_runs_cases) (use 1(1) next_runs_pos in auto)
qed

lemma member_append: "even (length l) \<Longrightarrow> list_all (\<lambda>x. 0 < x) l \<Longrightarrow> sum_list l \<le> x \<Longrightarrow> member b (l @ r) x = member b r (x - sum_list l)"
proof (induction l arbitrary: x rule: induct_list012)
  case (3 m n l)
  have "0 \<le> sum_list l" using 3(4) by (intro sum_list_nonneg) (auto simp: list_all_iff)
  then show ?case using 3 by (simp add: algebra_simps)
qed auto

lemma member_beyond: "list_all (\<lambda>x. 0 < x) l \<Longrightarrow> sum_list l \<le> x \<Longrightarrow> \<not> member b l x"
proof (induction l arbitrary: b x)
  case (Cons n l)
  have "0 \<le> sum_list l" using Cons(2) by (intro sum_list_nonneg) (auto simp: list_all_iff)
  then show ?case using Cons by simp
qed simp

text \<open>The loop of the program agrees with the reference from any place between two runs.\<close>

lemma or_byte: "push_bit 8 a OR ucast (y :: u8) = a * 256 + (ucast y :: u32)"
proof -
  have "bit (push_bit 8 a) n \<Longrightarrow> \<not> bit (ucast y :: u32) n" for n
    using bit_imp_le_length [of y n] by (auto simp: bit_simps)
  then have "push_bit 8 a OR ucast y = push_bit 8 a + ucast y" by (intro disjunctive_add [symmetric]) blast
  then show ?thesis by (simp add: push_bit_eq_mult)
qed

lemma or_two_bytes: "push_bit 16 a OR push_bit 8 (ucast (y :: u8)) OR ucast (z :: u8) = a * 65536 + ucast y * 256 + (ucast z :: u32)"
proof -
  have "push_bit 16 a OR push_bit 8 (ucast y) OR ucast z = push_bit 8 (push_bit 8 a OR ucast y) OR (ucast z :: u32)"
    by (simp add: or.assoc)
  also have "\<dots> = (a * 256 + ucast y) * 256 + ucast z" by (simp only: or_byte)
  finally show ?thesis by (simp add: algebra_simps)
qed

lemma of_int_byte: "of_int (uint (y :: u8)) = (ucast y :: u32)"
  by transfer simp

lemmas of_int_simps = of_int_add of_int_mult of_int_diff of_int_numeral of_int_1 of_int_byte

lemma add_of_int:
  assumes "0 \<le> n" "uint (code :: u32) + n < 2 ^ 32"
  shows "uint (code + of_int n) = uint code + n" "c < code + of_int n \<longleftrightarrow> uint c < uint code + n"
proof -
  have "uint (code + of_int n) = (uint code + n) mod 2 ^ 32" by (simp add: uint_word_ariths uint_word_of_int_eq take_bit_eq_mod mod_add_right_eq)
  then show "uint (code + of_int n) = uint code + n" using assms uint_nonneg [of code] by simp
  then show "c < code + of_int n \<longleftrightarrow> uint c < uint code + n" by (simp only: word_less_def)
qed

lemma run_loop_next:
  assumes "next_runs (x # p) = Some (r, q)"
  shows "(\<exists>m n. r = [m, n] \<and> (\<forall>code b. run_loop c (x # p) code b = (if c < code + of_int m then Some b
      else if c < code + of_int m + of_int n then Some (\<not> b) else run_loop c q (code + of_int m + of_int n) b))) \<or>
    (\<exists>n. r = [n] \<and> (\<forall>code b. run_loop c (x # p) code b = (if c < code + of_int n then Some b else run_loop c q (code + of_int n) (\<not> b))))"
  using assms
  by (cases "x < 64"; cases "x \<ge> 0x80"; cases "x < 0x60")
     (auto simp: Let_def or_byte or_two_bytes [unfolded or_byte] of_int_simps split: list.splits if_splits)

lemma run_loop_member:
  "parse_runs p = Some l \<Longrightarrow> uint code \<le> uint c \<Longrightarrow> uint code + sum_list l < 2 ^ 32 \<Longrightarrow> uint c < uint code + sum_list l \<Longrightarrow>
   run_loop c p code b = Some (member b l (uint c - uint code))"
proof (induction p arbitrary: l code b rule: parse_runs.induct)
  case (1 p)
  from 1(2) show ?case
  proof (cases rule: parse_runs_cases)
    case 1
    then show ?thesis using \<open>uint c < uint code + sum_list l\<close> \<open>uint code \<le> uint c\<close> by simp
  next
    case (2 r q l')
    obtain x p' where p: "p = x # p'" using 2(2) by (cases p) auto
    have pos: "list_all (\<lambda>x. 0 < x) r" "0 \<le> sum_list l'"
      using next_runs_pos [OF 2(1)] parse_runs_pos [OF 2(3)] by (auto simp: list_all_iff intro!: sum_list_nonneg)
    have ih: "run_loop c q code' b' = Some (member b' l' (uint c - uint code'))"
      if "uint code' \<le> uint c" "uint code' = uint code + sum_list r" for code' b'
      using 1(1) [OF 2(2) 2(1) refl 2(3)] 1(4,5) that 2(4) by simp
    from run_loop_next [OF 2(1) [unfolded p], of c] show ?thesis
    proof (elim disjE exE conjE)
      fix m n assume r: "r = [m, n]" and e: "\<forall>code b. run_loop c (x # p') code b = (if c < code + of_int m then Some b
        else if c < code + of_int m + of_int n then Some (\<not> b) else run_loop c q (code + of_int m + of_int n) b)"
      note m = add_of_int(1) [of m code] add_of_int(2) [of m code c]
      note n = add_of_int(1) [of n "code + of_int m"] add_of_int(2) [of n "code + of_int m" c]
      show ?thesis using m n e ih [of "code + of_int m + of_int n" b] 1(4) 2(4) pos r by (auto simp: p algebra_simps)
    next
      fix n assume r: "r = [n]" and e: "\<forall>code b. run_loop c (x # p') code b =
        (if c < code + of_int n then Some b else run_loop c q (code + of_int n) (\<not> b))"
      show ?thesis using add_of_int(1) [of n code] add_of_int(2) [of n code c] e ih [of "code + of_int n" "\<not> b"] 1(4) 2(4) pos r by (auto simp: p algebra_simps)
    qed
  qed
qed

definition cut_at :: "u8 list \<Rightarrow> int list \<Rightarrow> nat \<Rightarrow> int \<Rightarrow> bool" where
  "cut_at table l k n \<longleftrightarrow> (\<exists>l1 l2. parse_runs (drop k table) = Some l2 \<and> l = l1 @ l2 \<and> even (length l1) \<and> sum_list l1 = n)"

lemma segs_cut:
  "segs_ok es final pos code table \<Longrightarrow>
   \<exists>l. parse_runs table = Some l \<and> code + sum_list l = final \<and> (\<forall>(p, c) \<in> set es. pos \<le> p \<and> cut_at table l (p - pos) (uint c - code))"
proof (induction es final pos code table rule: segs_ok.induct)
  case (1 final pos code table)
  then show ?case by (auto split: option.splits)
next
  case (2 p c es final pos code table)
  from 2(2) obtain l1 where l1: "pos \<le> p" "parse_runs (take (p - pos) table) = Some l1" "even (length l1)"
    "code + sum_list l1 = uint c" "segs_ok es final p (uint c) (drop (p - pos) table)" by (auto split: option.splits)
  from 2(1) [OF l1(2,5)] obtain l2 where l2: "parse_runs (drop (p - pos) table) = Some l2" "uint c + sum_list l2 = final"
    "\<forall>(p', c') \<in> set es. p \<le> p' \<and> cut_at (drop (p - pos) table) l2 (p' - p) (uint c' - uint c)" by auto
  have l: "parse_runs table = Some (l1 @ l2)"
    using parse_runs_append [OF l1(2), of "drop (p - pos) table"] l2(1) by simp
  have "cut_at table (l1 @ l2) (p' - pos) (uint c' - code)" if "(p', c') \<in> set es" for p' c'
  proof -
    from l2(3) that obtain a d where "p \<le> p'" "parse_runs (drop (p' - p) (drop (p - pos) table)) = Some d" "l2 = a @ d"
      "even (length a)" "sum_list a = uint c' - uint c" by (auto simp: cut_at_def)
    moreover from this(1) l1(1) have "drop (p' - p) (drop (p - pos) table) = drop (p' - pos) table" by simp
    ultimately show ?thesis using l1(3,4) unfolding cut_at_def by (intro exI [of _ "l1 @ a"] exI [of _ d]) simp
  qed
  moreover have "cut_at table (l1 @ l2) (p - pos) (uint c - code)"
    using l1 l2 unfolding cut_at_def by (intro exI [of _ l1] exI [of _ l2]) simp
  ultimately show ?case using l l1 l2 by force
qed

lemma index_search_le:
  "lo < hi \<Longrightarrow> snd (index_entry index lo) \<le> c \<Longrightarrow>
   index_search index c lo hi \<in> {lo..<hi} \<and> snd (index_entry index (index_search index c lo hi)) \<le> c"
proof (induction index c lo hi rule: index_search.induct)
  case (1 index c lo hi)
  show ?case
  proof (cases "hi - lo > 1")
    case True
    define m where "m = (hi + lo) div 2"
    have m: "lo < m" "m < hi" using True by (auto simp: m_def)
    have e: "index_search index c lo hi = (if c < snd (index_entry index m) then index_search index c lo m else index_search index c m hi)"
      using True unfolding index_search.simps [of index c lo hi] m_def [symmetric] index_entry_def Let_def by simp
    show ?thesis
    proof (cases "c < snd (index_entry index m)")
      case c: True
      then have "index_search index c lo m \<in> {lo..<m} \<and> snd (index_entry index (index_search index c lo m)) \<le> c"
        using 1(1) [OF True m_def refl] 1(4) m by (simp add: index_entry_def Let_def)
      then show ?thesis using e c m by auto
    next
      case False
      then have "index_search index c m hi \<in> {m..<hi} \<and> snd (index_entry index (index_search index c m hi)) \<le> c"
        using 1(2) [OF True m_def refl] m by (simp add: index_entry_def Let_def not_less)
      then show ?thesis using e False m by auto
    qed
  next
    case False
    then show ?thesis using 1(3,4) by (subst (1 2) index_search.simps) auto
  qed
qed

lemma cut_lookup:
  assumes "parse_runs table = Some l" "cut_at table l pos (uint code)" "uint code \<le> uint c" "uint c < sum_list l" "sum_list l < 2 ^ 32"
  shows "run_loop c (drop pos table) code False = Some (member False l (uint c))"
proof -
  from assms(2) obtain l1 l2 where l: "parse_runs (drop pos table) = Some l2" "l = l1 @ l2" "even (length l1)" "sum_list l1 = uint code"
    by (auto simp: cut_at_def)
  have "run_loop c (drop pos table) code False = Some (member False l2 (uint c - uint code))"
    using assms l by (intro run_loop_member) auto
  also have "member False l2 (uint c - uint code) = member False l (uint c)"
    using member_append [of l1 "uint c" False l2] parse_runs_pos [OF assms(1)] l assms(3) by auto
  finally show ?thesis .
qed

text \<open>With a right index the lookup gives the membership that the whole table describes.\<close>

lemma lookup_in_set:
  assumes "index_ok table index n"
  shows "lre_is_in_table c table index n = Some (in_set table c)"
proof -
  define final where "final = get_le24 index ((n - 1) * 3)"
  have n: "2 \<le> n" and segs: "segs_ok (map (index_entry index) [0..<n - 1]) (uint final) 0 0 table"
    using assms by (simp_all add: index_ok_def final_def)
  from segs_cut [OF segs] obtain l where l: "parse_runs table = Some l" "sum_list l = uint final"
    and cut: "\<forall>(p, c) \<in> set (map (index_entry index) [0..<n - 1]). cut_at table l p (uint c)" by auto
  have pos: "list_all (\<lambda>x. 0 < x) l" by (rule parse_runs_pos [OF l(1)])
  have small: "sum_list l < 2 ^ 32" using uint_bounded [of final] l(2) by simp
  have cuti: "cut_at table l (fst (index_entry index i)) (uint (snd (index_entry index i)))" if "i < n - 1" for i
  proof -
    have "index_entry index i \<in> set (map (index_entry index) [0..<n - 1])" using that by simp
    then show ?thesis using cut by (auto split: prod.splits)
  qed
  have s: "in_set table c = member False l (uint c)" by (simp add: in_set_def l)
  have first: "cut_at table l 0 (uint (0 :: u32))" using l(1) unfolding cut_at_def by (intro exI [of _ "[]"] exI [of _ l]) simp
  have below: "uint (snd (index_entry index i)) \<le> sum_list l" if "i < n - 1" for i
  proof -
    from cuti [OF that] obtain l1 l2 where e: "l = l1 @ l2" "sum_list l1 = uint (snd (index_entry index i))" by (auto simp: cut_at_def)
    have "0 \<le> sum_list l2" using pos e by (intro sum_list_nonneg) (auto simp: list_all_iff order_less_imp_le)
    then show ?thesis using e by simp
  qed
  consider "c < snd (index_entry index 0)" | "snd (index_entry index 0) \<le> c" "c \<ge> final" | "snd (index_entry index 0) \<le> c" "c < final"
    by force
  then show ?thesis
  proof cases
    case 1
    then have "get_index_pos c index n = Some (0, 0)" by (simp add: get_index_pos_def index_entry_def Let_def)
    moreover have "uint c < sum_list l" using 1 below [of 0] n by (simp add: word_less_def)
    ultimately show ?thesis using cut_lookup [OF l(1) first _ _ small] by (simp add: lre_is_in_table_def s)
  next
    case 2
    then have "get_index_pos c index n = None" by (simp add: get_index_pos_def index_entry_def Let_def final_def not_less)
    moreover have "\<not> member False l (uint c)" by (rule member_beyond [OF pos]) (use 2 l in \<open>simp add: word_le_def\<close>)
    ultimately show ?thesis by (simp add: lre_is_in_table_def s)
  next
    case 3
    define i where "i = index_search index c 0 (n - 1)"
    have i: "i < n - 1" "snd (index_entry index i) \<le> c" using index_search_le [of 0 "n - 1" index c] n 3(1) by (auto simp: i_def)
    have "get_index_pos c index n = Some (index_entry index i)"
      using 3 unfolding get_index_pos_def index_entry_def Let_def final_def [symmetric] i_def [symmetric]
      by (simp add: not_less [symmetric])
    then show ?thesis using cut_lookup [OF l(1) cuti [OF i(1)] _ _ small] i(2) 3(2) l(2)
      by (simp add: lre_is_in_table_def s word_le_def word_less_def case_prod_beta)
  qed
qed

end
