(* ===== verification/Case_Conv.thy ===== *)
theory Case_Conv
  imports Unicode_Tables Compressed_Table
begin

text \<open>
  Case conversion and case folding of \<^verbatim>\<open>libunicode.c\<close>, and the lookup in its compressed tables. A
  conversion gives the list of characters that the program writes to \<^verbatim>\<open>res\<close>; the length of the list
  is its result.
\<close>

subsection \<open>Table entries\<close>

abbreviation (input) RUN_TYPE_U :: nat where "RUN_TYPE_U \<equiv> 0"
abbreviation (input) RUN_TYPE_L :: nat where "RUN_TYPE_L \<equiv> 1"
abbreviation (input) RUN_TYPE_UF :: nat where "RUN_TYPE_UF \<equiv> 2"
abbreviation (input) RUN_TYPE_LF :: nat where "RUN_TYPE_LF \<equiv> 3"
abbreviation (input) RUN_TYPE_UL :: nat where "RUN_TYPE_UL \<equiv> 4"
abbreviation (input) RUN_TYPE_LSU :: nat where "RUN_TYPE_LSU \<equiv> 5"
abbreviation (input) RUN_TYPE_U2L_399_EXT2 :: nat where "RUN_TYPE_U2L_399_EXT2 \<equiv> 6"
abbreviation (input) RUN_TYPE_UF_D20 :: nat where "RUN_TYPE_UF_D20 \<equiv> 7"
abbreviation (input) RUN_TYPE_UF_D1_EXT :: nat where "RUN_TYPE_UF_D1_EXT \<equiv> 8"
abbreviation (input) RUN_TYPE_U_EXT :: nat where "RUN_TYPE_U_EXT \<equiv> 9"
abbreviation (input) RUN_TYPE_LF_EXT :: nat where "RUN_TYPE_LF_EXT \<equiv> 10"
abbreviation (input) RUN_TYPE_UF_EXT2 :: nat where "RUN_TYPE_UF_EXT2 \<equiv> 11"
abbreviation (input) RUN_TYPE_LF_EXT2 :: nat where "RUN_TYPE_LF_EXT2 \<equiv> 12"
abbreviation (input) RUN_TYPE_UF_EXT3 :: nat where "RUN_TYPE_UF_EXT3 \<equiv> 13"

definition run_type :: "u32 \<Rightarrow> nat" where
  "run_type v = unat (drop_bit (32 - 17 - 7 - 4) v AND 0xf)"

definition run_code :: "u32 \<Rightarrow> u32" where
  "run_code v = drop_bit (32 - 17) v"

definition run_len :: "u32 \<Rightarrow> u32" where
  "run_len v = drop_bit (32 - 17 - 7) v AND 0x7f"

definition run_data :: "nat \<Rightarrow> u32 \<Rightarrow> nat" where
  "run_data idx v = unat (push_bit 8 (v AND 0xf) OR ucast (case_conv_table2 ! idx) :: u32)"

definition ext :: "nat \<Rightarrow> u32" where
  "ext i = ucast (case_conv_ext ! i)"

definition b2u :: "bool \<Rightarrow> u32" where
  "b2u b = (if b then 1 else 0)"

subsection \<open>Conversion of a character\<close>

text \<open>
  One entry of the table. The two last types convert their characters to lower case, through the
  whole conversion again; \<open>lower\<close> stands for this call of \<^verbatim>\<open>lre_case_conv1(c, 1)\<close>.
\<close>

definition conv_entry :: "(u32 \<Rightarrow> u32) \<Rightarrow> u32 \<Rightarrow> nat \<Rightarrow> nat \<Rightarrow> u32 \<Rightarrow> u32 list" where
  "conv_entry lower c conv_type idx v =
     (let is_lower = b2u (conv_type \<noteq> 0);
          type = run_type v; data = run_data idx v; code = run_code v
      in if type \<le> RUN_TYPE_LF then
           if conv_type = type mod 2 \<or> type \<ge> RUN_TYPE_UF \<and> conv_type = 2
           then [c - code + drop_bit (32 - 17) (case_conv_table1 ! data)] else [c]
         else if type = RUN_TYPE_UL then
           let a = c - code in if a AND 1 \<noteq> 1 - is_lower then [c] else [(a XOR 1) + code]
         else if type = RUN_TYPE_LSU then
           let a = c - code
           in if a = 1 then [c + (2 * is_lower - 1)]
              else if a = (1 - is_lower) * 2 then [c + (2 * is_lower - 1) * 2]
              else [c]
         else if type = RUN_TYPE_U2L_399_EXT2 then
           if is_lower = 0 then [c - code + ext (data div 2 ^ 6), 0x399]
           else [c - code + ext (data mod 2 ^ 6)]
         else if type = RUN_TYPE_UF_D20 then
           if conv_type = 1 then [c] else [of_nat data + b2u (conv_type = 2) * 0x20]
         else if type = RUN_TYPE_UF_D1_EXT then
           if conv_type = 1 then [c] else [ext data + b2u (conv_type = 2)]
         else if type = RUN_TYPE_U_EXT \<or> type = RUN_TYPE_LF_EXT then
           if is_lower \<noteq> of_nat (type - RUN_TYPE_U_EXT) then [c] else [ext data]
         else if type = RUN_TYPE_LF_EXT2 then
           if is_lower = 0 then [c] else [c - code + ext (data div 2 ^ 6), ext (data mod 2 ^ 6)]
         else if type = RUN_TYPE_UF_EXT2 then
           if conv_type = 1 then [c]
           else let res = [c - code + ext (data div 2 ^ 6), ext (data mod 2 ^ 6)]
                in if conv_type = 2 then map lower res else res
         else
           if conv_type = 1 then [c]
           else let res = [ext (data div 2 ^ 8), ext (data div 2 ^ 4 mod 2 ^ 4), ext (data mod 2 ^ 4)]
                in if conv_type = 2 then map lower res else res)"

text \<open>The binary search for the run of a character.\<close>

function case_search :: "u32 list \<Rightarrow> u32 \<Rightarrow> int \<Rightarrow> int \<Rightarrow> nat option" where
  "case_search tab c idx_min idx_max =
     (if idx_min \<le> idx_max then
        let idx = (idx_max + idx_min) div 2;
            v = tab ! nat idx; code = run_code v; len = run_len v
        in if c < code then case_search tab c idx_min (idx - 1)
           else if c \<ge> code + len then case_search tab c (idx + 1) idx_max
           else Some (nat idx)
      else None)"
  by pat_completeness auto
termination
  by (relation "measure (\<lambda>(tab, c, lo, hi). nat (hi - lo + 1))") auto

declare case_search.simps [simp del]

definition find_run :: "u32 \<Rightarrow> nat option" where
  "find_run c = case_search case_conv_table1 c 0 (int (length case_conv_table1) - 1)"

definition ascii_lower :: "u32 \<Rightarrow> u32" where
  "ascii_lower c = (if c \<ge> 65 \<and> c \<le> 90 then c - 65 + 97 else c)"

definition ascii_upper :: "u32 \<Rightarrow> u32" where
  "ascii_upper c = (if c \<ge> 97 \<and> c \<le> 122 then c - 97 + 65 else c)"

definition conv_with :: "(u32 \<Rightarrow> u32) \<Rightarrow> u32 \<Rightarrow> nat \<Rightarrow> u32 list" where
  "conv_with lower c conv_type =
     (if c < 128 then [if conv_type \<noteq> 0 then ascii_lower c else ascii_upper c]
      else case find_run c of None \<Rightarrow> [c] | Some idx \<Rightarrow> conv_entry lower c conv_type idx (case_conv_table1 ! idx))"

text \<open>A conversion to lower case makes no further conversion, so that the recursion of the program stops there.\<close>

definition lre_case_conv1 :: "u32 \<Rightarrow> u32" where
  "lre_case_conv1 c = hd (conv_with id c 1)"

definition lre_case_conv :: "u32 \<Rightarrow> nat \<Rightarrow> u32 list" where
  "lre_case_conv c conv_type = conv_with lre_case_conv1 c conv_type"

definition lre_case_conv_entry :: "u32 \<Rightarrow> nat \<Rightarrow> nat \<Rightarrow> u32 \<Rightarrow> u32 list" where
  "lre_case_conv_entry c conv_type idx v = conv_entry lre_case_conv1 c conv_type idx v"

definition lre_case_folding_entry :: "u32 \<Rightarrow> nat \<Rightarrow> u32 \<Rightarrow> bool \<Rightarrow> u32" where
  "lre_case_folding_entry c idx v is_unicode =
     (if is_unicode then
        let res = lre_case_conv_entry c 2 idx v
        in if length res = 1 then hd res
           else if c = 0xfb06 then 0xfb05
           else if c = 0x1fd3 then 0x390
           else if c = 0x1fe3 then 0x3b0
           else c
      else if c < 128 then ascii_upper c
      else let res = lre_case_conv_entry c 0 idx v
           in if length res = 1 \<and> hd res \<ge> 128 then hd res else c)"

definition lre_canonicalize :: "u32 \<Rightarrow> bool \<Rightarrow> u32" where
  "lre_canonicalize c is_unicode =
     (if c < 128 then if is_unicode then ascii_lower c else ascii_upper c
      else case find_run c of None \<Rightarrow> c
           | Some idx \<Rightarrow> lre_case_folding_entry c idx (case_conv_table1 ! idx) is_unicode)"

subsection \<open>Character properties\<close>

definition lre_is_cased :: "u32 \<Rightarrow> bool option" where
  "lre_is_cased c =
     (case find_run c of Some _ \<Rightarrow> Some True
      | None \<Rightarrow> lre_is_in_table c unicode_prop_Cased1_table unicode_prop_Cased1_index
                  (length unicode_prop_Cased1_index div 3))"

definition lre_is_case_ignorable :: "u32 \<Rightarrow> bool option" where
  "lre_is_case_ignorable c =
     lre_is_in_table c unicode_prop_Case_Ignorable_table unicode_prop_Case_Ignorable_index
       (length unicode_prop_Case_Ignorable_index div 3)"

subsection \<open>The runs of the case table\<close>

fun runs_sorted :: "u32 list \<Rightarrow> bool" where
  "runs_sorted (x # y # r) \<longleftrightarrow> uint (run_code x) + uint (run_len x) \<le> uint (run_code y) \<and> runs_sorted (y # r)"
| "runs_sorted _ \<longleftrightarrow> True"

lemma case_table_sorted: "runs_sorted case_conv_table1"
  by code_simp

lemma run_len_bound: "uint (run_len v) < 128" "uint (run_code v) < 2 ^ 17"
proof -
  have "run_len v = take_bit 7 (drop_bit 8 v)" by (simp add: run_len_def take_bit_eq_mask mask_eq_exp_minus_1)
  then show "uint (run_len v) < 128" using take_bit_int_less_exp [of 7 "uint (drop_bit 8 v)"] by (simp add: unsigned_take_bit_eq)
  have "unat (run_code v) < 2 ^ 17" using unat_bound [of v] by (simp add: run_code_def unat_drop div_less_iff_less_mult)
  then have "int (unat (run_code v)) < int (2 ^ 17)" by (simp only: of_nat_less_iff)
  then show "uint (run_code v) < 2 ^ 17" by (simp only: uint_nat of_nat_power of_nat_numeral)
qed

definition in_run :: "u32 \<Rightarrow> u32 \<Rightarrow> bool" where
  "in_run v c \<longleftrightarrow> uint (run_code v) \<le> uint c \<and> uint c < uint (run_code v) + uint (run_len v)"

lemma run_tests: "c < run_code v \<longleftrightarrow> uint c < uint (run_code v)"
  "c \<ge> run_code v + run_len v \<longleftrightarrow> uint (run_code v) + uint (run_len v) \<le> uint c"
proof -
  have "uint (run_code v + run_len v) = uint (run_code v) + uint (run_len v)"
    using run_len_bound [of v] by (intro uint_add_lem [THEN iffD1]) simp
  then show "c < run_code v \<longleftrightarrow> uint c < uint (run_code v)"
    "c \<ge> run_code v + run_len v \<longleftrightarrow> uint (run_code v) + uint (run_len v) \<le> uint c"
    by (simp_all add: word_less_def word_le_def)
qed

lemma runs_sorted_nth:
  "runs_sorted tab \<Longrightarrow> i < j \<Longrightarrow> j < length tab \<Longrightarrow> uint (run_code (tab ! i)) + uint (run_len (tab ! i)) \<le> uint (run_code (tab ! j))"
proof (induction tab arbitrary: i j rule: runs_sorted.induct)
  case (1 x y r)
  obtain j' where j: "j = Suc j'" using 1(3) by (cases j) auto
  show ?case
  proof (cases i)
    case 0
    show ?thesis
    proof (cases j')
      case 0
      then show ?thesis using \<open>i = 0\<close> j 1(2) by simp
    next
      case (Suc k)
      then have "uint (run_code y) + uint (run_len y) \<le> uint (run_code ((y # r) ! j'))" using 1(1) [of 0 j'] 1(2,4) j by simp
      then have "uint (run_code y) \<le> uint (run_code ((y # r) ! j'))" using uint_nonneg [of "run_len y"] by linarith
      then show ?thesis using \<open>i = 0\<close> j 1(2) by simp
    qed
  next
    case (Suc i')
    then show ?thesis using 1(1) [of i' j'] 1(2-4) j by simp
  qed
qed auto

lemma case_search_val:
  assumes "runs_sorted tab"
  shows "0 \<le> lo \<Longrightarrow> hi < int (length tab) \<Longrightarrow>
    (case case_search tab c lo hi of Some i \<Rightarrow> lo \<le> int i \<and> int i \<le> hi \<and> in_run (tab ! i) c
     | None \<Rightarrow> \<forall>i. lo \<le> int i \<and> int i \<le> hi \<longrightarrow> \<not> in_run (tab ! i) c)"
proof (induction "nat (hi - lo + 1)" arbitrary: lo hi rule: less_induct)
  case less
  show ?case
  proof (cases "lo \<le> hi")
    case False
    then show ?thesis by (auto simp: case_search.simps)
  next
    case True
    define m where "m = (hi + lo) div 2"
    have m: "lo \<le> m" "m \<le> hi" "0 \<le> m" using True less(2) by (auto simp: m_def)
    define v where "v = tab ! nat m"
    have e: "case_search tab c lo hi = (if uint c < uint (run_code v) then case_search tab c lo (m - 1)
        else if uint (run_code v) + uint (run_len v) \<le> uint c then case_search tab c (m + 1) hi else Some (nat m))"
      unfolding case_search.simps [of tab c lo hi] Let_def m_def [symmetric] v_def [symmetric] run_tests using True by simp
    have before: "\<not> in_run (tab ! i) c" if "uint c < uint (run_code v)" "nat m \<le> i" "int i \<le> hi" for i
    proof (cases "nat m = i")
      case False
      then have "uint (run_code v) + uint (run_len v) \<le> uint (run_code (tab ! i))"
        using that less(3) unfolding v_def by (intro runs_sorted_nth [OF assms]) auto
      then show ?thesis using that(1) uint_nonneg [of "run_len v"] unfolding in_run_def by linarith
    qed (use that(1) in \<open>simp add: in_run_def v_def\<close>)
    have after: "\<not> in_run (tab ! i) c" if "uint (run_code v) + uint (run_len v) \<le> uint c" "i \<le> nat m" for i
    proof (cases "nat m = i")
      case False
      then have "uint (run_code (tab ! i)) + uint (run_len (tab ! i)) \<le> uint (run_code v)"
        using that m less(3) unfolding v_def by (intro runs_sorted_nth [OF assms]) auto
      then show ?thesis using that(1) uint_nonneg [of "run_len v"] unfolding in_run_def by linarith
    qed (use that(1) in \<open>simp add: in_run_def v_def\<close>)
    consider "uint c < uint (run_code v)" | "uint (run_code v) + uint (run_len v) \<le> uint c" | "in_run v c" unfolding in_run_def by linarith
    then show ?thesis
    proof cases
      case 1
      then have r: "case_search tab c lo hi = case_search tab c lo (m - 1)" using e by simp
      have ih: "case case_search tab c lo (m - 1) of Some i \<Rightarrow> lo \<le> int i \<and> int i \<le> m - 1 \<and> in_run (tab ! i) c
          | None \<Rightarrow> \<forall>i. lo \<le> int i \<and> int i \<le> m - 1 \<longrightarrow> \<not> in_run (tab ! i) c"
        by (rule less(1)) (use m less(2,3) in auto)
      have "\<not> in_run (tab ! i) c" if "case_search tab c lo (m - 1) = None" "lo \<le> int i" "int i \<le> hi" for i
        by (cases "nat m \<le> i") (use before [OF 1] that ih in auto)
      then show ?thesis using r ih m by (auto split: option.splits)
    next
      case 2
      then have "\<not> uint c < uint (run_code v)" using uint_nonneg [of "run_len v"] by linarith
      then have r: "case_search tab c lo hi = case_search tab c (m + 1) hi" using e 2 by simp
      have ih: "case case_search tab c (m + 1) hi of Some i \<Rightarrow> m + 1 \<le> int i \<and> int i \<le> hi \<and> in_run (tab ! i) c
          | None \<Rightarrow> \<forall>i. m + 1 \<le> int i \<and> int i \<le> hi \<longrightarrow> \<not> in_run (tab ! i) c"
        by (rule less(1)) (use m less(2,3) in auto)
      have "\<not> in_run (tab ! i) c" if "case_search tab c (m + 1) hi = None" "lo \<le> int i" "int i \<le> hi" for i
        by (cases "i \<le> nat m") (use after [OF 2] that ih in auto)
      then show ?thesis using r ih m by (auto split: option.splits)
    next
      case 3
      then have "case_search tab c lo hi = Some (nat m)" using e by (simp add: in_run_def)
      then show ?thesis using m 3 by (simp add: v_def)
    qed
  qed
qed

lemma in_run_unique:
  assumes "runs_sorted tab" "i < length tab" "j < length tab" "in_run (tab ! i) c" "in_run (tab ! j) c"
  shows "i = j"
proof (rule ccontr)
  assume "i \<noteq> j"
  then consider "i < j" | "j < i" by linarith
  then show False
    using runs_sorted_nth [OF assms(1), of i j] runs_sorted_nth [OF assms(1), of j i] assms(2-5)
    unfolding in_run_def by cases linarith+
qed

lemma find_run_iff: "find_run c = Some i \<longleftrightarrow> i < length case_conv_table1 \<and> in_run (case_conv_table1 ! i) c"
proof -
  note v = case_search_val [OF case_table_sorted, of 0 "int (length case_conv_table1) - 1" c, folded find_run_def, simplified]
  show ?thesis
  proof (cases "find_run c")
    case None
    then show ?thesis using v by auto
  next
    case (Some j)
    then have "j < length case_conv_table1" "in_run (case_conv_table1 ! j) c" using v by auto
    then show ?thesis using Some in_run_unique [OF case_table_sorted, of i j c] by auto
  qed
qed

lemma find_run_none: "find_run c = None \<longleftrightarrow> (\<forall>i < length case_conv_table1. \<not> in_run (case_conv_table1 ! i) c)"
  using find_run_iff [of c] by (cases "find_run c") auto

subsection \<open>The conversion\<close>

lemma conv_entry_lower: "conv_type \<noteq> 2 \<Longrightarrow> conv_entry l c conv_type idx v = conv_entry l' c conv_type idx v"
  unfolding conv_entry_def Let_def by (simp only: if_False)

lemma conv_with_lower: "conv_type \<noteq> 2 \<Longrightarrow> conv_with l c conv_type = conv_with l' c conv_type"
  unfolding conv_with_def using conv_entry_lower [of conv_type l c _ _ l'] by (auto split: option.splits)

lemma length_if: "length x \<in> {1, 2, 3} \<Longrightarrow> length y \<in> {1, 2, 3} \<Longrightarrow> length (if b then x else y) \<in> {1, 2, 3}"
  by simp

lemma conv_entry_length: "length (conv_entry l c conv_type idx v) \<in> {1, 2, 3}"
  unfolding conv_entry_def Let_def by (intro length_if) simp_all

text \<open>Case conversion follows the table. The binary search finds the one run of the table that
  contains the character, if there is one; the conversion of a character outside ASCII is that of the
  run, or the character itself; the conversion satisfies the recursion of the program, in which the
  special cases of folding convert their characters to lower case; and at most three characters are
  written.\<close>

theorem case_conv_by_table:
  "(find_run c = Some i \<longleftrightarrow> i < 378 \<and> in_run (case_conv_table1 ! i) c) \<and>
   (128 \<le> c \<longrightarrow> lre_case_conv c conv_type =
      (case find_run c of None \<Rightarrow> [c] | Some idx \<Rightarrow> lre_case_conv_entry c conv_type idx (case_conv_table1 ! idx))) \<and>
   lre_case_conv c conv_type = conv_with (\<lambda>c. hd (lre_case_conv c 1)) c conv_type \<and>
   length (lre_case_conv c conv_type) \<in> {1, 2, 3}"
proof (intro conjI impI)
  have "length case_conv_table1 = 378" by (simp add: case_conv_table1_def)
  then show "find_run c = Some i \<longleftrightarrow> i < 378 \<and> in_run (case_conv_table1 ! i) c" using find_run_iff by simp
  have "conv_with lre_case_conv1 x 1 = conv_with id x 1" for x by (rule conv_with_lower) simp
  then have low: "(\<lambda>c. hd (lre_case_conv c 1)) = lre_case_conv1"
    unfolding lre_case_conv_def by (simp only: lre_case_conv1_def [symmetric])
  show "lre_case_conv c conv_type = conv_with (\<lambda>c. hd (lre_case_conv c 1)) c conv_type"
    unfolding low by (rule lre_case_conv_def)
  show "length (lre_case_conv c conv_type) \<in> {1, 2, 3}"
    unfolding lre_case_conv_def conv_with_def using conv_entry_length by (auto split: option.splits)
qed (auto simp: lre_case_conv_def conv_with_def lre_case_conv_entry_def not_less split: option.splits)

theorem case_conv_by_table_witness: "lre_case_conv 0xe9 0 = [0xc9] \<and> length (lre_case_conv 0xe9 0) \<in> {1, 2, 3}"
proof -
  have "lre_case_conv 0xe9 0 = [0xc9]" by code_simp
  then show ?thesis using case_conv_by_table [of "0xe9" 0 0] by blast
qed

lemma cased_index_ok: "index_ok unicode_prop_Cased1_table unicode_prop_Cased1_index 6"
  by code_simp

lemma case_ignorable_index_ok: "index_ok unicode_prop_Case_Ignorable_table unicode_prop_Case_Ignorable_index 25"
  by code_simp

text \<open>C40. The character classes are the sets that their tables describe: a character is cased when it
  has a run in the case table or lies in the set of the first table, and it is case ignorable when it
  lies in the set of the second; both lookups end for every character, though they start at the place
  that the index gives.\<close>

theorem char_classes_by_table:
  "lre_is_cased c = Some ((\<exists>i. find_run c = Some i) \<or> in_set unicode_prop_Cased1_table c) \<and>
   lre_is_case_ignorable c = Some (in_set unicode_prop_Case_Ignorable_table c)"
proof
  have n: "length unicode_prop_Cased1_index div 3 = 6" "length unicode_prop_Case_Ignorable_index div 3 = 25"
    by (simp_all add: unicode_prop_Cased1_index_def unicode_prop_Case_Ignorable_index_def)
  show "lre_is_cased c = Some ((\<exists>i. find_run c = Some i) \<or> in_set unicode_prop_Cased1_table c)"
    unfolding lre_is_cased_def n using lookup_in_set [OF cased_index_ok, of c] by (auto split: option.splits)
  show "lre_is_case_ignorable c = Some (in_set unicode_prop_Case_Ignorable_table c)"
    unfolding lre_is_case_ignorable_def n by (rule lookup_in_set [OF case_ignorable_index_ok])
qed

end
