(* ===== verification/Canonical_Range.thy ===== *)
theory Canonical_Range
  imports Char_Range Case_Conv
begin

text \<open>
  Character ranges from the case table, and the canonicalization of a range for case insensitive
  regular expressions, of \<^verbatim>\<open>libunicode.c\<close>: \<^verbatim>\<open>unicode_case1\<close> and \<^verbatim>\<open>cr_regexp_canonicalize\<close>.
\<close>

subsection \<open>Characters changed by a conversion\<close>

abbreviation (input) CASE_U :: u32 where "CASE_U \<equiv> 1"
abbreviation (input) CASE_L :: u32 where "CASE_L \<equiv> 2"
abbreviation (input) CASE_F :: u32 where "CASE_F \<equiv> 4"

definition MR :: "nat list \<Rightarrow> u32" where
  "MR types = foldl (\<lambda>m t. m OR push_bit t 1) 0 types"

definition tab_run_mask :: "u32 list" where
  "tab_run_mask =
     [MR [RUN_TYPE_U, RUN_TYPE_UF, RUN_TYPE_UL, RUN_TYPE_LSU, RUN_TYPE_U2L_399_EXT2, RUN_TYPE_UF_D20,
          RUN_TYPE_UF_D1_EXT, RUN_TYPE_U_EXT, RUN_TYPE_UF_EXT2, RUN_TYPE_UF_EXT3],
      MR [RUN_TYPE_L, RUN_TYPE_LF, RUN_TYPE_UL, RUN_TYPE_LSU, RUN_TYPE_U2L_399_EXT2, RUN_TYPE_LF_EXT, RUN_TYPE_LF_EXT2],
      MR [RUN_TYPE_UF, RUN_TYPE_LF, RUN_TYPE_UL, RUN_TYPE_LSU, RUN_TYPE_U2L_399_EXT2, RUN_TYPE_LF_EXT,
          RUN_TYPE_LF_EXT2, RUN_TYPE_UF_D20, RUN_TYPE_UF_D1_EXT, RUN_TYPE_LF_EXT, RUN_TYPE_UF_EXT2, RUN_TYPE_UF_EXT3]]"

definition run_mask :: "u32 \<Rightarrow> u32" where
  "run_mask case_mask =
     foldl (\<lambda>m i. if drop_bit i case_mask AND 1 \<noteq> 0 then m OR tab_run_mask ! i else m) 0 [0..<3]"

text \<open>The loop \<^verbatim>\<open>for(i = 0; i < len; i += 2)\<close> over a run of alternating upper and lower case.\<close>

function ul_loop :: "'m realloc_func \<Rightarrow> 'm \<Rightarrow> CharRange \<Rightarrow> u32 \<Rightarrow> nat \<Rightarrow> nat \<Rightarrow> 'm \<times> CharRange \<times> int" where
  "ul_loop ra s cr code i len =
     (if i < len then
        let (s, cr, ret) = cr_add_interval ra s cr (code + of_nat i) (code + of_nat i + 1)
        in if ret \<noteq> 0 then (s, cr, -1) else ul_loop ra s cr code (i + 2) len
      else (s, cr, 0))"
  by pat_completeness auto
termination
  by (relation "measure (\<lambda>(ra, s, cr, code, i, len). len - i)") auto

declare ul_loop.simps [simp del]

definition case1_entry :: "'m realloc_func \<Rightarrow> 'm \<Rightarrow> CharRange \<Rightarrow> u32 \<Rightarrow> u32 \<Rightarrow> 'm \<times> CharRange \<times> int" where
  "case1_entry ra s cr case_mask v =
     (let type = run_type v; code = run_code v; len = run_len v;
          def_case = cr_add_interval ra s cr code (code + len);
          both = case_mask AND CASE_U \<noteq> 0 \<and> case_mask AND (CASE_L OR CASE_F) \<noteq> 0
      in if type = RUN_TYPE_UL then
           if both then def_case
           else ul_loop ra s cr (code + b2u (case_mask AND CASE_U \<noteq> 0)) 0 (unat len)
         else if type = RUN_TYPE_LSU then
           if both then def_case
           else
             let (s, cr, ret) = (if case_mask AND CASE_U = 0 then cr_add_interval ra s cr code (code + 1) else (s, cr, 0))
             in if ret \<noteq> 0 then (s, cr, -1)
                else
                  let (s, cr, ret) = cr_add_interval ra s cr (code + 1) (code + 2)
                  in if ret \<noteq> 0 then (s, cr, -1)
                     else if case_mask AND CASE_U \<noteq> 0 then cr_add_interval ra s cr (code + 2) (code + 3)
                     else (s, cr, 0)
         else def_case)"

fun case1_loop :: "'m realloc_func \<Rightarrow> 'm \<Rightarrow> CharRange \<Rightarrow> u32 \<Rightarrow> u32 \<Rightarrow> u32 list \<Rightarrow> 'm \<times> CharRange \<times> int" where
  "case1_loop ra s cr case_mask m [] = (s, cr, 0)"
| "case1_loop ra s cr case_mask m (v # tab) =
     (let (s, cr, ret) = (if drop_bit (run_type v) m AND 1 \<noteq> 0 then case1_entry ra s cr case_mask v else (s, cr, 0))
      in if ret \<noteq> 0 then (s, cr, -1) else case1_loop ra s cr case_mask m tab)"

definition unicode_case1 :: "'m realloc_func \<Rightarrow> 'm \<Rightarrow> CharRange \<Rightarrow> u32 \<Rightarrow> 'm \<times> CharRange \<times> int" where
  "unicode_case1 ra s cr case_mask =
     (if case_mask = 0 then (s, cr, 0)
      else case1_loop ra s cr case_mask (run_mask case_mask) case_conv_table1)"

subsection \<open>Canonicalization of a range\<close>

text \<open>
  The state of the loop over the characters: the allocator, the result, the index of the current run
  and the interval not yet added. The run of a character is looked for from the current one on;
  \<open>None\<close> is the failed assertion that there is one.
\<close>

record canon_state = 
  idx :: nat
  d_start :: u32
  d_end :: u32
  cr_result :: CharRange

function advance_run :: "u32 \<Rightarrow> nat \<Rightarrow> nat option" where
  "advance_run c i =
     (let v = case_conv_table1 ! i
      in if c \<ge> run_code v \<and> c < run_code v + run_len v then Some i
         else if i + 1 < length case_conv_table1 then advance_run c (i + 1)
         else None)"
  by pat_completeness auto
termination
  by (relation "measure (\<lambda>(c, i). length case_conv_table1 - i)") auto

declare advance_run.simps [simp del]

text \<open>The result of \<^verbatim>\<open>cr_add_interval\<close> is not looked at here.\<close>

definition canon_char :: "'m realloc_func \<Rightarrow> bool \<Rightarrow> u32 \<Rightarrow> 'm \<times> canon_state \<Rightarrow> ('m \<times> canon_state) option" where
  "canon_char ra is_unicode c x =
     (case x of (s, st) \<Rightarrow>
        case advance_run c (idx st) of None \<Rightarrow> None
        | Some i \<Rightarrow>
            let st = st\<lparr>idx := i\<rparr>;
                d = lre_case_folding_entry c i (case_conv_table1 ! i) is_unicode
            in if d_start st = -1 then Some (s, st\<lparr>d_start := d, d_end := d + 1\<rparr>)
               else if d_end st = d then Some (s, st\<lparr>d_end := d_end st + 1\<rparr>)
               else
                 let (s, cr, ret) = cr_add_interval ra s (cr_result st) (d_start st) (d_end st)
                 in Some (s, st\<lparr>cr_result := cr, d_start := d, d_end := d + 1\<rparr>))"

lemma unat_next: "c < e \<Longrightarrow> unat ((c :: u32) + 1) = unat c + 1"
  using unat_small_add [of c 1] unat_bound [of e] by (simp add: word_less_nat_alt)

function canon_interval :: "'m realloc_func \<Rightarrow> bool \<Rightarrow> u32 \<Rightarrow> u32 \<Rightarrow> 'm \<times> canon_state \<Rightarrow> ('m \<times> canon_state) option" where
  "canon_interval ra is_unicode c e x =
     (if c < e then
        case canon_char ra is_unicode c x of None \<Rightarrow> None
        | Some x \<Rightarrow> canon_interval ra is_unicode (c + 1) e x
      else Some x)"
  by pat_completeness auto
termination
  by (relation "measure (\<lambda>(ra, u, c, e, x). unat e - unat c)")
     (auto simp: unat_next word_less_nat_alt)

declare canon_interval.simps [simp del]

fun canon_points :: "'m realloc_func \<Rightarrow> bool \<Rightarrow> u32 list \<Rightarrow> 'm \<times> canon_state \<Rightarrow> ('m \<times> canon_state) option" where
  "canon_points ra is_unicode (a # b # pts) x =
     (case canon_interval ra is_unicode a b x of None \<Rightarrow> None
      | Some x \<Rightarrow> canon_points ra is_unicode pts x)"
| "canon_points ra is_unicode _ x = Some x"

text \<open>
  The four local ranges are freed in the order of the program on every path; \<open>None\<close> is a failed
  assertion.
\<close>

definition free_ranges :: "'m realloc_func \<Rightarrow> 'm \<Rightarrow> CharRange list \<Rightarrow> 'm" where
  "free_ranges ra s crs = foldl (cr_free ra) s crs"

definition cr_regexp_canonicalize :: "'m realloc_func \<Rightarrow> 'm \<Rightarrow> CharRange \<Rightarrow> bool \<Rightarrow> ('m \<times> CharRange \<times> int) option" where
  "cr_regexp_canonicalize ra s cr is_unicode =
     (let (s, cr_mask, ret) = unicode_case1 ra s cr_init (if is_unicode then CASE_F else CASE_U)
      in if ret \<noteq> 0 then Some (free_ranges ra s [cr_init, cr_mask, cr_init, cr_init], cr, -1) else
      let (s, cr_inter, ret) = cr_op ra s cr_init (points cr_mask) (points cr) CR_OP_INTER
      in if ret \<noteq> 0 then Some (free_ranges ra s [cr_inter, cr_mask, cr_init, cr_init], cr, -1) else
      let (s, cr_mask, ret) = cr_invert ra s cr_mask
      in if ret \<noteq> 0 then Some (free_ranges ra s [cr_inter, cr_mask, cr_init, cr_init], cr, -1) else
      let (s, cr_sub, ret) = cr_op ra s cr_init (points cr_mask) (points cr) CR_OP_INTER
      in if ret \<noteq> 0 then Some (free_ranges ra s [cr_inter, cr_mask, cr_init, cr_sub], cr, -1) else
      case canon_points ra is_unicode (points cr_inter) (s, \<lparr>idx = 0, d_start = -1, d_end = -1, cr_result = cr_init\<rparr>) of
        None \<Rightarrow> None
      | Some (s, st) \<Rightarrow>
          let (s, res, ret) =
            (if d_start st \<noteq> -1 then cr_add_interval ra s (cr_result st) (d_start st) (d_end st) else (s, cr_result st, 0))
          in if ret \<noteq> 0 then Some (free_ranges ra s [cr_inter, cr_mask, res, cr_sub], cr, -1) else
          case cr_sort_and_remove_overlap res of None \<Rightarrow> None
          | Some res \<Rightarrow>
              let (s, cr, ret) = cr_op ra s (cr\<lparr>points := []\<rparr>) (points res) (points cr_sub) CR_OP_UNION
              in Some (free_ranges ra s [cr_inter, cr_mask, res, cr_sub], cr, if ret \<noteq> 0 then -1 else 0))"

subsection \<open>The ranges of the case table\<close>

text \<open>The intervals that one entry of the table adds.\<close>

definition case_pairs :: "u32 \<Rightarrow> u32 \<Rightarrow> u32 \<Rightarrow> (u32 \<times> u32) list" where
  "case_pairs case_mask m v =
     (let code = run_code v; len = run_len v;
          both = case_mask AND CASE_U \<noteq> 0 \<and> case_mask AND (CASE_L OR CASE_F) \<noteq> 0;
          upper = case_mask AND CASE_U \<noteq> 0
      in if drop_bit (run_type v) m AND 1 = 0 then []
         else if run_type v = RUN_TYPE_UL \<and> \<not> both then
           map (\<lambda>i. (code + b2u upper + of_nat (2 * i), code + b2u upper + of_nat (2 * i) + 1)) [0..<(unat len + 1) div 2]
         else if run_type v = RUN_TYPE_LSU \<and> \<not> both then
           (if upper then [(code + 1, code + 2), (code + 2, code + 3)] else [(code, code + 1), (code + 1, code + 2)])
         else [(code, code + len)])"

fun pairs_ascend :: "u32 \<Rightarrow> u32 \<Rightarrow> (u32 \<times> u32) list \<Rightarrow> bool" where
  "pairs_ascend p e [] \<longleftrightarrow> p \<le> e"
| "pairs_ascend p e ((a, b) # r) \<longleftrightarrow> p \<le> a \<and> a < b \<and> pairs_ascend b e r"

text \<open>What is checked of the table: the types and the lengths of the runs.\<close>

definition run_ok :: "u32 \<Rightarrow> bool" where
  "run_ok v \<longleftrightarrow> run_type v < 14 \<and> run_len v \<noteq> 0 \<and> (run_type v = RUN_TYPE_UL \<longrightarrow> run_len v AND 1 = 0) \<and>
     (run_type v = RUN_TYPE_LSU \<longrightarrow> run_len v = 3)"

lemma runs_ok: "list_all run_ok case_conv_table1"
  by code_simp

lemma run_masks: "run_mask CASE_F = 15868" "run_mask CASE_U = 11253"
  by code_simp+

text \<open>ASCII is folded by the table as the fast path of \<^verbatim>\<open>lre_canonicalize\<close> does.\<close>

lemma first_runs: "case_conv_table1 ! 0 = 0x00209a30" "case_conv_table1 ! 1 = 0x00309a00" "run_code (case_conv_table1 ! 2) = 181"
  "run_code 0x00209a30 = 65" "run_len 0x00209a30 = 26" "run_type 0x00209a30 = 3" "run_data 0 0x00209a30 = 1"
  "run_code 0x00309a00 = 97" "run_len 0x00309a00 = 26" "run_type 0x00309a00 = 0" "run_data 1 0x00309a00 = 0"
  by code_simp+

lemma ascii_fold:
  assumes "c < 128"
  shows "find_run c = None \<Longrightarrow> ascii_lower c = c \<and> ascii_upper c = c"
    "find_run c = Some i \<Longrightarrow> lre_case_folding_entry c i (case_conv_table1 ! i) True = ascii_lower c"
proof -
  have len: "length case_conv_table1 = 378" by (simp add: case_conv_table1_def)
  have u: "uint c < 128" using assms by (simp add: word_less_def)
  have r0: "in_run (case_conv_table1 ! 0) c \<longleftrightarrow> 65 \<le> uint c \<and> uint c < 91" unfolding in_run_def first_runs by simp
  have r1: "in_run (case_conv_table1 ! 1) c \<longleftrightarrow> 97 \<le> uint c \<and> uint c < 123" unfolding in_run_def first_runs by simp
  show "ascii_lower c = c \<and> ascii_upper c = c" if "find_run c = None"
  proof -
    have "\<not> in_run (case_conv_table1 ! 0) c" "\<not> in_run (case_conv_table1 ! 1) c" using that len unfolding find_run_none by auto
    then show ?thesis unfolding r0 r1 by (auto simp: ascii_lower_def ascii_upper_def word_le_def word_less_def)
  qed
  show "lre_case_folding_entry c i (case_conv_table1 ! i) True = ascii_lower c" if "find_run c = Some i"
  proof -
    have i: "i < 378" "in_run (case_conv_table1 ! i) c" using that len unfolding find_run_iff by auto
    have "\<not> 2 < i"
    proof
      assume "2 < i"
      then have "uint (run_code (case_conv_table1 ! 2)) + uint (run_len (case_conv_table1 ! 2)) \<le> uint (run_code (case_conv_table1 ! i))"
        using i len by (intro runs_sorted_nth [OF case_table_sorted]) auto
      then show False using i(2) u uint_nonneg [of "run_len (case_conv_table1 ! 2)"] unfolding in_run_def first_runs by simp
    qed
    moreover have "i \<noteq> 2"
    proof
      assume "i = 2"
      then show False using i(2) u first_runs(3) by (simp add: in_run_def)
    qed
    ultimately consider "i = 0" | "i = 1" by linarith
    then show ?thesis
    proof cases
      case 1
      then have "ascii_lower c = c - 65 + 97" using i(2) unfolding 1 r0 by (simp add: ascii_lower_def word_le_def)
      then show ?thesis unfolding 1 first_runs lre_case_folding_entry_def lre_case_conv_entry_def conv_entry_def
        by (simp add: first_runs drop_bit_eq_div flip: One_nat_def)
    next
      case 2
      then have "ascii_lower c = c" using i(2) unfolding 2 r1 by (simp add: ascii_lower_def word_le_def)
      then show ?thesis unfolding 2 first_runs lre_case_folding_entry_def lre_case_conv_entry_def conv_entry_def
        by (simp add: first_runs)
    qed
  qed
qed

text \<open>The canonical form is the folding of the run, for all characters.\<close>

lemma canonicalize_run:
  "lre_canonicalize c is_unicode =
     (case find_run c of None \<Rightarrow> c | Some i \<Rightarrow> lre_case_folding_entry c i (case_conv_table1 ! i) is_unicode)"
proof (cases "c < 128")
  case True
  then show ?thesis using ascii_fold [OF True] by (auto simp: lre_canonicalize_def lre_case_folding_entry_def split: option.splits)
qed (simp add: lre_canonicalize_def)

subsection \<open>Folding one run\<close>

lemma in_run_words: "in_run v c \<longleftrightarrow> run_code v \<le> c \<and> c < run_code v + run_len v"
  using run_tests [of c v] run_tests(2) [of v c] by (auto simp: in_run_def word_le_def word_less_def)

lemma unat_add_le: "unat ((x :: 'a :: len word) + y) \<le> unat x + unat y"
  by (simp add: unat_word_ariths)

lemma unat_lt: "uint (x :: 'a :: len word) < int n \<Longrightarrow> unat x < n"
  unfolding unat_eq_nat_uint using uint_nonneg [of x] by linarith

lemma run_offset:
  assumes "in_run v c"
  obtains a where "c = run_code v + of_nat a" "a < unat (run_len v)" "a < 128" "c - run_code v = of_nat a"
proof
  have d: "uint (c - run_code v) = uint c - uint (run_code v)"
    using assms by (intro uint_sub_lem [THEN iffD1]) (simp add: in_run_def)
  then have a: "uint (c - run_code v) < uint (run_len v)" using assms unfolding in_run_def by linarith
  then show "unat (c - run_code v) < unat (run_len v)" by (simp only: word_less_nat_alt [symmetric] word_less_def)
  show "unat (c - run_code v) < 128" using a run_len_bound(1) [of v] by (intro unat_lt) simp
qed simp_all

text \<open>A single converted character is small.\<close>

definition small1 :: "u32 list \<Rightarrow> bool" where
  "small1 l \<longleftrightarrow> (length l = 1 \<longrightarrow> unat (hd l) < 262144)"

lemma small1_if: "(b \<Longrightarrow> small1 x) \<Longrightarrow> (\<not> b \<Longrightarrow> small1 y) \<Longrightarrow> small1 (if b then x else y)"
  by simp

lemma small1_sum: "unat x + unat y < 262144 \<Longrightarrow> small1 [x + y]"
  using unat_add_le [of x y] by (simp add: small1_def)

lemma small1_one: "unat x < 262144 \<Longrightarrow> small1 [x]"
  by (simp add: small1_def)

lemma small1_long: "small1 (x # y # l)" "small1 (map f (x # y # l))"
  by (simp_all add: small1_def)

lemma ext_bound: "unat (ext i) < 65536"
  using unat_bound [of "case_conv_ext ! i"] by (simp add: ext_def unsigned_ucast_eq take_bit_nat_eq_self)

lemma run_code_bound: "unat (drop_bit 15 (v :: u32)) < 131072"
  using run_len_bound(2) [of v] by (intro unat_lt) (simp add: run_code_def)

lemma run_data_bound: "run_data i v < 4096"
proof -
  have "unat (ucast (case_conv_table2 ! i) :: u32) < 256"
    using unat_bound [of "case_conv_table2 ! i"] by (simp add: unsigned_ucast_eq take_bit_nat_eq_self)
  moreover have "v AND 0xf = take_bit 4 v" by (simp add: take_bit_eq_mask mask_eq_exp_minus_1)
  then have "unat (v AND 0xf) < 16" by (simp add: unat_take32)
  moreover have "unat ((v AND 0xf) * 256) \<le> unat (v AND 0xf) * 256" by (simp add: unat_word_ariths)
  ultimately show ?thesis
    unfolding run_data_def or_byte using unat_add_le [of "(v AND 0xf) * 256" "ucast (case_conv_table2 ! i)"] by linarith
qed

lemma b2u_simps: "b2u True = 1" "b2u False = 0"
  by (simp_all add: b2u_def)

lemma conv_entry_small:
  assumes "in_run v c"
  shows "small1 (conv_entry l c t i v)"
proof -
  obtain a where a: "c = run_code v + of_nat a" "a < 128" "c - run_code v = of_nat a" by (rule run_offset [OF assms])
  have ua: "unat (of_nat a :: u32) = a" using a(2) by (intro unat_of_nat_id) simp
  have code: "unat (run_code v) < 131072" using run_code_bound [of v] by (simp add: run_code_def)
  have c: "unat c < 131200" using unat_add_le [of "run_code v" "of_nat a"] code ua a(2) unfolding a(1) [symmetric] by linarith
  have same: "small1 [c]" using c by (intro small1_one) simp
  have lsu: "small1 [c + (2 * b2u b - 1)]" if "of_nat a = (1 :: u32)" for b
    using c code that a(1) by (cases b) (auto simp: b2u_simps intro: small1_one small1_sum)
  have lsu2: "small1 [c + (2 * b2u b - 1) * 2]" if "of_nat a = (1 - b2u b) * 2" for b
    using c code that a(1) by (cases b) (auto simp: b2u_simps intro: small1_one small1_sum)
  have ul: "small1 [(of_nat a XOR 1) + run_code v]"
  proof (rule small1_sum)
    have "unat (of_nat a XOR 1 :: u32) = a XOR 1" using ua by (simp add: unsigned_xor_eq)
    also have "\<dots> < 129" unfolding xor_one_eq using a(2) by (cases "even a") simp_all
    finally show "unat (of_nat a XOR 1 :: u32) + unat (run_code v) < 262144" using code by simp
  qed
  have plus: "small1 [of_nat a + drop_bit (32 - 17) x]" "small1 [of_nat a + ext j]" "small1 [ext j + b2u b]" for x j b
    using run_code_bound [of x] ext_bound [of j] ua a(2) by (intro small1_sum; simp add: b2u_def)+
  have single: "small1 [ext j]" for j using ext_bound [of j] by (intro small1_one) simp
  have data: "small1 [of_nat (run_data i v) + b2u b * 0x20]" for b
    using run_data_bound [of i v] unat_of_nat_id [of "run_data i v", where ?'a = 32] by (intro small1_sum) (auto simp: b2u_def)
  show ?thesis
    unfolding conv_entry_def Let_def a(3) by (intro small1_if small1_long same lsu lsu2 ul plus single data) assumption+
qed

lemma in_run_small: "in_run v c \<Longrightarrow> unat c < 262144"
proof -
  assume r: "in_run v c"
  have "uint c < 2 ^ 17 + 128" using r run_len_bound [of v] unfolding in_run_def by linarith
  then show ?thesis by (intro unat_lt) simp
qed

lemma folding_small:
  assumes "in_run v c"
  shows "unat (lre_case_folding_entry c i v is_unicode) < 262144"
proof -
  have c: "unat c < 262144" by (rule in_run_small [OF assms])
  have up: "unat (ascii_upper c) < 262144"
    using c by (auto simp: ascii_upper_def word_le_nat_alt unat_sub word_less_nat_alt) 
  show ?thesis
    using conv_entry_small [OF assms, of lre_case_conv1 0 i] conv_entry_small [OF assms, of lre_case_conv1 2 i] c up
    unfolding lre_case_folding_entry_def lre_case_conv_entry_def Let_def small1_def by (simp split: if_split)
qed

text \<open>Outside the intervals of its run a character is not changed.\<close>

lemma of_nat_and_1: "of_nat a AND 1 = (of_nat (a mod 2) :: u32)"
  using of_nat_and_eq [of a 1, where ?'a = u32] by (simp add: and_one_eq)

lemma conv_entry_fixed:
  assumes "run_ok v" "in_run v c" "\<not> in_pairs (case_pairs case_mask m v) c" "(t, case_mask, m) \<in> {(2, CASE_F, 15868), (0, CASE_U, 11253)}"
  shows "conv_entry l c t i v = [c]"
proof -
  obtain a where a: "c = run_code v + of_nat a" "a < unat (run_len v)" "a < 128" "c - run_code v = of_nat a" by (rule run_offset [OF assms(2)])
  have ua: "unat (of_nat a :: u32) = a" using a(3) by (intro unat_of_nat_id) simp
  have full: "in_pairs [(run_code v, run_code v + run_len v)] c"
    using assms(2) by (simp add: in_pairs_def in_run_words)
  have next1: "c < c + 1" using in_run_small [OF assms(2)] unat_small_add [of c 1] by (simp add: word_less_nat_alt)
  have "run_type v \<in> {..<14}" using assms(1) by (simp add: run_ok_def)
  then consider "run_type v = 4" | "run_type v = 5" | "run_type v \<in> {0, 1, 2, 3, 6, 7, 8, 9, 10, 11, 12, 13}"
    by (auto simp: lessThan_nat_numeral lessThan_Suc)
  then show ?thesis
  proof cases
    case 1
    have ul: "in_pairs (map (\<lambda>i. (run_code v + k + of_nat (2 * i), run_code v + k + of_nat (2 * i) + 1)) [0..<(unat (run_len v) + 1) div 2]) c"
      if "c = run_code v + k + of_nat (2 * j)" "2 * j < unat (run_len v)" for k j
      using that next1 unfolding in_pairs_def by (intro bexI [of _ "(c, c + 1)"]) auto
    have "a = 2 * (a div 2) + a mod 2" by simp
    then have "c = run_code v + of_nat (a mod 2) + of_nat (2 * (a div 2))" using a(1) by (metis (no_types) add.assoc add.commute of_nat_add)
    with ul [of "of_nat (a mod 2)" "a div 2"] a(2) assms(3,4) 1
    have "of_nat (a mod 2) \<noteq> (if t = 2 then 0 else 1 :: u32)"
      by (auto simp: case_pairs_def Let_def b2u_def)
    then show ?thesis using 1 assms(4) of_nat_and_1 [of a] by (auto simp: conv_entry_def Let_def b2u_def a(4))
  next
    case 2
    have "run_len v = 3" using assms(1) 2 by (simp add: run_ok_def)
    then have "a \<in> {0, 1, 2}" using a(2) by auto
    then show ?thesis using 2 assms(3,4) a(1,4) next1
      by (auto simp: conv_entry_def case_pairs_def in_pairs_def Let_def b2u_def)
  next
    case 3
    then have "drop_bit (run_type v) m AND 1 = 0"
      using assms(3) full by (auto simp: case_pairs_def Let_def split: if_splits)
    with 3 assms(4) have "t = 2 \<and> run_type v \<in> {0, 1, 9} \<or> t = 0 \<and> run_type v \<in> {1, 3, 10, 12}" by auto
    then show ?thesis unfolding conv_entry_def Let_def
      by (elim disjE conjE insertE emptyE) (simp_all add: b2u_def)
  qed
qed

subsection \<open>The intervals of the table\<close>

definition table_pairs :: "u32 \<Rightarrow> u32 \<Rightarrow> (u32 \<times> u32) list" where
  "table_pairs case_mask m = concat (map (case_pairs case_mask m) case_conv_table1)"

lemma pairs_ascend_le: "pairs_ascend p e ps \<Longrightarrow> p \<le> e"
  by (induction p e ps rule: pairs_ascend.induct) auto

lemma pairs_ascend_weaken: "pairs_ascend p e ps \<Longrightarrow> p' \<le> p \<Longrightarrow> e \<le> e' \<Longrightarrow> pairs_ascend p' e' ps"
  by (induction p e ps arbitrary: p' rule: pairs_ascend.induct) (auto intro: order_trans)

lemma pairs_ascend_append: "pairs_ascend p q xs \<Longrightarrow> pairs_ascend q e ys \<Longrightarrow> pairs_ascend p e (xs @ ys)"
  by (induction p q xs rule: pairs_ascend.induct) (auto intro: pairs_ascend_weaken)

lemma pairs_ascend_mem: "pairs_ascend p e ps \<Longrightarrow> (a, b) \<in> set ps \<Longrightarrow> p \<le> a \<and> a < b \<and> b \<le> e"
  by (induction p e ps rule: pairs_ascend.induct) (auto dest: pairs_ascend_le intro: order_trans less_imp_le)

lemma pairs_ascend_sorted: "pairs_ascend p e ps \<Longrightarrow> sorted (of_pairs ps) \<and> (\<forall>q\<in>set (of_pairs ps). p \<le> q \<and> q \<le> e)"
proof (induction p e ps rule: pairs_ascend.induct)
  case (2 p e a b r)
  then have "sorted (of_pairs r) \<and> (\<forall>q\<in>set (of_pairs r). b \<le> q \<and> q \<le> e)" "p \<le> a" "a < b" "b \<le> e"
    using pairs_ascend_le by auto
  then show ?case by (auto intro: order_trans less_imp_le)
qed simp

lemma of_pairs_append: "of_pairs (xs @ ys) = of_pairs xs @ of_pairs ys"
  by (induction xs rule: of_pairs.induct) auto

text \<open>Sums of a code and a small number do not wrap around.\<close>

lemma code_plus: "k < 1000 \<Longrightarrow> unat (run_code v + of_nat k) = unat (run_code v) + k"
  using run_code_bound [of v] by (intro unat_add_nat) (simp add: run_code_def)

lemma code_pair: "j < 400 \<Longrightarrow> k < 400 \<Longrightarrow> run_code v + of_nat j \<le> run_code v + of_nat k \<longleftrightarrow> j \<le> k"
  "j < 400 \<Longrightarrow> k < 400 \<Longrightarrow> run_code v + of_nat j < run_code v + of_nat k \<longleftrightarrow> j < k"
  by (simp_all add: word_le_nat_alt word_less_nat_alt code_plus)

lemma ul_ascend:
  assumes "k + 2 * n \<le> j + 1" "j < 200" "p \<le> k + 2 * i" "p \<le> j"
  shows "pairs_ascend (run_code v + of_nat p) (run_code v + of_nat j)
    (map (\<lambda>i. (run_code v + of_nat (k + 2 * i), run_code v + of_nat (k + 2 * i + 1))) [i..<n])"
  using assms(3,4)
proof (induction "n - i" arbitrary: i p)
  case 0
  then show ?case using assms(2) by (simp add: code_pair)
next
  case (Suc x)
  then have e: "[i..<n] = i # [Suc i..<n]" by (simp add: upt_conv_Cons)
  have "pairs_ascend (run_code v + of_nat (k + 2 * i + 1)) (run_code v + of_nat j)
    (map (\<lambda>i. (run_code v + of_nat (k + 2 * i), run_code v + of_nat (k + 2 * i + 1))) [Suc i..<n])"
    using Suc assms(1) by (intro Suc(1)) auto
  then show ?case using Suc assms(1,2) unfolding e list.map pairs_ascend.simps by (simp only: code_pair) simp
qed

lemma pairs_ascend_if: "(b \<Longrightarrow> pairs_ascend p e x) \<Longrightarrow> (\<not> b \<Longrightarrow> pairs_ascend p e y) \<Longrightarrow> pairs_ascend p e (if b then x else y)"
  by simp

lemma run_pairs_ascend:
  assumes "run_ok v" "(case_mask, m) \<in> {(CASE_F, 15868), (CASE_U, 11253)}"
  shows "pairs_ascend (run_code v) (run_code v + run_len v) (case_pairs case_mask m v)"
proof -
  define n where "n = unat (run_len v)"
  have l: "run_len v = of_nat n" "n < 128" using unat_lt [of "run_len v" 128] run_len_bound(1) [of v] by (simp_all add: n_def)
  have n: "0 < n" using assms(1) unat_gt_0 [of "run_len v"] by (auto simp: run_ok_def n_def)
  have whole: "pairs_ascend (run_code v) (run_code v + of_nat n) [(run_code v, run_code v + of_nat n)]"
    using n l(2) code_pair [of 0 n v] by simp
  have none: "pairs_ascend (run_code v) (run_code v + of_nat n) []" using l(2) code_pair [of 0 n v] by simp
  have ul: "pairs_ascend (run_code v) (run_code v + of_nat n)
      (map (\<lambda>i. (run_code v + b2u b + of_nat (2 * i), run_code v + b2u b + of_nat (2 * i) + 1)) [0..<(n + 1) div 2])"
    if "run_type v = RUN_TYPE_UL" for b
  proof -
    have "run_len v AND 1 = 0" using assms(1) that by (simp add: run_ok_def)
    then have "even n" using of_nat_and_1 [of n] unfolding l(1) by (cases "even n") (simp_all add: odd_iff_mod_2_eq_one)
    then show ?thesis using ul_ascend [of "if b then 1 else 0" "(n + 1) div 2" n 0 0 v] l(2) by (auto simp: b2u_def algebra_simps)
  qed
  have lsu: "pairs_ascend (run_code v) (run_code v + of_nat n) [(run_code v + 1, run_code v + 2), (run_code v + 2, run_code v + 3)]"
    "pairs_ascend (run_code v) (run_code v + of_nat n) [(run_code v, run_code v + 1), (run_code v + 1, run_code v + 2)]"
    if "run_type v = RUN_TYPE_LSU"
  proof -
    have "n = 3" using assms(1) that by (simp add: run_ok_def n_def)
    then show "pairs_ascend (run_code v) (run_code v + of_nat n) [(run_code v + 1, run_code v + 2), (run_code v + 2, run_code v + 3)]"
      "pairs_ascend (run_code v) (run_code v + of_nat n) [(run_code v, run_code v + 1), (run_code v + 1, run_code v + 2)]"
      using code_pair [of 0 1 v] code_pair [of 1 2 v] code_pair [of 2 3 v] by simp_all
  qed
  show ?thesis unfolding case_pairs_def Let_def n_def [symmetric] unfolding l(1)
    by (intro pairs_ascend_if whole none ul lsu) simp_all
qed

lemma table_pairs_ascend:
  assumes "(case_mask, m) \<in> {(CASE_F, 15868), (CASE_U, 11253)}" "p \<le> run_code (hd tab)" "list_all run_ok tab" "runs_sorted tab"
  shows "tab \<noteq> [] \<Longrightarrow> pairs_ascend p 0xfffffffe (concat (map (case_pairs case_mask m) tab))"
  using assms(2-)
proof (induction tab arbitrary: p rule: runs_sorted.induct, goal_cases)
  case (1 x y r p)
  have x: "run_ok x" and y: "list_all run_ok (y # r)" "runs_sorted (y # r)" and xy: "uint (run_code x) + uint (run_len x) \<le> uint (run_code y)"
    using 1(4,5) by auto
  have "pairs_ascend (run_code y) 0xfffffffe (concat (map (case_pairs case_mask m) (y # r)))" using 1(1) y by simp
  moreover have "pairs_ascend p (run_code y) (case_pairs case_mask m x)"
    using 1(3) run_tests(2) [of x "run_code y"] xy by (intro pairs_ascend_weaken [OF run_pairs_ascend [OF x assms(1)]]) auto
  ultimately show ?case by (simp add: pairs_ascend_append)
next
  case (3 x p)
  have "pairs_ascend p (run_code x + run_len x) (case_pairs case_mask m x)"
    using 3 by (intro pairs_ascend_weaken [OF run_pairs_ascend [OF _ assms(1)]]) auto
  moreover have "run_code x + run_len x \<le> 0xfffffffe"
  proof -
    have "uint (0xfffffffe :: u32) = 0xfffffffe" by simp
    then show ?thesis using run_tests(2) [of x "0xfffffffe"] run_len_bound [of x] by simp
  qed
  ultimately show ?case by (auto intro: pairs_ascend_weaken)
qed simp

lemma in_pairs_concat: "in_pairs (concat L) c \<longleftrightarrow> (\<exists>ps\<in>set L. in_pairs ps c)"
  by (auto simp: in_pairs_def)

lemma find_in_pairs:
  assumes "(case_mask, m) \<in> {(CASE_F, 15868), (CASE_U, 11253)}"
  shows "in_pairs (table_pairs case_mask m) c \<longleftrightarrow>
    (\<exists>i. find_run c = Some i \<and> in_pairs (case_pairs case_mask m (case_conv_table1 ! i)) c)"
proof -
  have "find_run c = Some i" if i: "i < length case_conv_table1" and p: "in_pairs (case_pairs case_mask m (case_conv_table1 ! i)) c" for i
  proof -
    define v where "v = case_conv_table1 ! i"
    have "run_ok v" using runs_ok i by (simp add: list_all_length v_def)
    from p obtain a b where "(a, b) \<in> set (case_pairs case_mask m v)" "a \<le> c" "c < b" by (auto simp: in_pairs_def v_def)
    with pairs_ascend_mem [OF run_pairs_ascend [OF \<open>run_ok v\<close> assms] this(1)]
    have "run_code v \<le> c" "c < run_code v + run_len v" by auto
    then have "in_run v c" by (simp add: in_run_words)
    then show ?thesis using i by (simp add: find_run_iff v_def)
  qed
  moreover have "in_pairs (table_pairs case_mask m) c \<longleftrightarrow>
      (\<exists>i < length case_conv_table1. in_pairs (case_pairs case_mask m (case_conv_table1 ! i)) c)"
    unfolding table_pairs_def in_pairs_concat by (auto simp: set_conv_nth)
  ultimately show ?thesis using find_run_iff [of c] by blast
qed

subsection \<open>The ranges with an allocator that succeeds\<close>

definition adds :: "CharRange \<Rightarrow> (u32 \<times> u32) list \<Rightarrow> 'm \<times> CharRange \<times> int \<Rightarrow> bool" where
  "adds cr ps r \<longleftrightarrow> (case r of (s', cr', ret) \<Rightarrow> ret = 0 \<and> points cr' = points cr @ of_pairs ps)"

lemma adds_interval:
  assumes "\<forall>s n. snd (ra s n)"
  shows "adds cr [(x, y)] (cr_add_interval ra s cr x y)"
proof -
  have "\<not> (\<exists>s' cr'. cr_add_interval ra s cr x y = (s', cr', -1))"
    using assms by (auto simp: cr_add_interval_def cr_realloc_def Let_def split: prod.splits if_splits) (metis snd_conv)+
  then show ?thesis by (rule_tac cr_add_interval_cases [of ra s cr x y]) (auto simp: adds_def)
qed

lemma adds_none: "adds cr [] (s, cr, 0)"
  by (simp add: adds_def)

lemma adds_bind:
  assumes "adds cr ps r" "\<And>s cr. adds cr qs (f s cr)"
  shows "adds cr (ps @ qs) (let (s, cr, ret) = r in if ret \<noteq> 0 then (s, cr, -1) else f s cr)"
proof -
  obtain s' cr' where "r = (s', cr', 0)" "points cr' = points cr @ of_pairs ps" using assms(1) by (cases r) (auto simp: adds_def)
  then show ?thesis using assms(2) [of cr' s'] by (simp add: adds_def of_pairs_append case_prod_beta)
qed

lemma adds_if: "(b \<Longrightarrow> adds cr x r) \<Longrightarrow> (\<not> b \<Longrightarrow> adds cr y q) \<Longrightarrow> adds cr (if b then x else y) (if b then r else q)"
  by simp

lemma adds_ul:
  assumes "\<forall>s n. snd (ra s n)"
  shows "adds cr (map (\<lambda>i. (code + of_nat (2 * i), code + of_nat (2 * i) + 1)) [j..<(n + 1) div 2]) (ul_loop ra s cr code (2 * j) n)"
proof (induction "n - j" arbitrary: j s cr rule: less_induct)
  case less
  show ?case
  proof (cases "2 * j < n")
    case True
    then have e: "[j..<(n + 1) div 2] = j # [Suc j..<(n + 1) div 2]" by (simp add: upt_conv_Cons)
    have "adds cr ([(code + of_nat (2 * j), code + of_nat (2 * j) + 1)] @ map (\<lambda>i. (code + of_nat (2 * i), code + of_nat (2 * i) + 1)) [Suc j..<(n + 1) div 2])
      (let (s, cr, ret) = cr_add_interval ra s cr (code + of_nat (2 * j)) (code + of_nat (2 * j) + 1)
       in if ret \<noteq> 0 then (s, cr, -1) else ul_loop ra s cr code (2 * j + 2) n)"
      using less [of "Suc j"] True by (intro adds_bind adds_interval [OF assms]) simp
    then show ?thesis using True unfolding ul_loop.simps [of ra s cr code "2 * j" n] e by simp
  next
    case False
    then show ?thesis unfolding ul_loop.simps [of ra s cr code "2 * j" n] by (simp add: adds_none)
  qed
qed

lemma adds_entry:
  assumes "\<forall>s n. snd (ra s n)" "drop_bit (run_type v) m AND 1 \<noteq> 0"
  shows "adds cr (case_pairs case_mask m v) (case1_entry ra s cr case_mask v)"
proof -
  have lsu: "adds cr (if case_mask AND CASE_U \<noteq> 0 then [(x, y), (z, w)] else [(a, b), (x, y)])
     (let (s, cr, ret) = (if case_mask AND CASE_U = 0 then cr_add_interval ra s cr a b else (s, cr, 0))
      in if ret \<noteq> 0 then (s, cr, -1)
         else let (s, cr, ret) = cr_add_interval ra s cr x y
              in if ret \<noteq> 0 then (s, cr, -1)
                 else if case_mask AND CASE_U \<noteq> 0 then cr_add_interval ra s cr z w else (s, cr, 0))" for a b x y z w
  proof -
    define last where "last = (\<lambda>s cr. if case_mask AND CASE_U \<noteq> 0 then cr_add_interval ra s cr z w else (s, cr, 0))"
    have "adds cr (if case_mask AND CASE_U \<noteq> 0 then [(z, w)] else []) (last s cr)" for s cr
      using adds_interval [OF assms(1)] adds_none by (auto simp: last_def)
    moreover have "adds cr (if case_mask AND CASE_U \<noteq> 0 then [] else [(a, b)]) (if case_mask AND CASE_U = 0 then cr_add_interval ra s cr a b else (s, cr, 0))"
      using adds_interval [OF assms(1)] adds_none by auto
    ultimately have "adds cr ((if case_mask AND CASE_U \<noteq> 0 then [] else [(a, b)]) @ [(x, y)] @ (if case_mask AND CASE_U \<noteq> 0 then [(z, w)] else []))
     (let (s, cr, ret) = (if case_mask AND CASE_U = 0 then cr_add_interval ra s cr a b else (s, cr, 0))
      in if ret \<noteq> 0 then (s, cr, -1) else let (s, cr, ret) = cr_add_interval ra s cr x y in if ret \<noteq> 0 then (s, cr, -1) else last s cr)"
      by (intro adds_bind adds_interval assms(1))
    moreover have "(if case_mask AND CASE_U \<noteq> 0 then [] else [(a, b)]) @ [(x, y)] @ (if case_mask AND CASE_U \<noteq> 0 then [(z, w)] else []) =
      (if case_mask AND CASE_U \<noteq> 0 then [(x, y), (z, w)] else [(a, b), (x, y)])" by simp
    ultimately show ?thesis unfolding last_def by (simp only:)
  qed
  show ?thesis
    using adds_interval [OF assms(1)] adds_ul [OF assms(1), of cr _ 0] lsu assms(2)
    unfolding case_pairs_def case1_entry_def Let_def by simp
qed

lemma adds_loop:
  assumes "\<forall>s n. snd (ra s n)"
  shows "adds cr (concat (map (case_pairs case_mask m) tab)) (case1_loop ra s cr case_mask m tab)"
proof (induction tab arbitrary: s cr)
  case Nil
  then show ?case by (simp add: adds_none)
next
  case (Cons v tab)
  have "adds cr (case_pairs case_mask m v) (if drop_bit (run_type v) m AND 1 \<noteq> 0 then case1_entry ra s cr case_mask v else (s, cr, 0))"
  proof (cases "drop_bit (run_type v) m AND 1 = 0")
    case True
    then show ?thesis by (simp add: case_pairs_def adds_none)
  qed (simp add: adds_entry [OF assms])
  then show ?case unfolding case1_loop.simps list.map concat.simps by (intro adds_bind Cons)
qed

text \<open>The range of the characters that a conversion changes.\<close>

lemma case1_range:
  assumes "\<forall>s n. snd (ra s n)" "(case_mask, m) \<in> {(CASE_F, 15868), (CASE_U, 11253)}"
  obtains s' cr' where "unicode_case1 ra s cr_init case_mask = (s', cr', 0)" "points cr' = of_pairs (table_pairs case_mask m)"
proof -
  have "m = run_mask case_mask" "case_mask \<noteq> 0" using assms(2) run_masks by auto
  then have "adds cr_init (table_pairs case_mask m) (unicode_case1 ra s cr_init case_mask)"
    using adds_loop [OF assms(1), of cr_init case_mask m case_conv_table1 s] by (simp add: unicode_case1_def table_pairs_def)
  then show thesis using that by (cases "unicode_case1 ra s cr_init case_mask") (auto simp: adds_def cr_init_def)
qed

lemma table_points_sorted:
  assumes "(case_mask, m) \<in> {(CASE_F, 15868), (CASE_U, 11253)}"
  shows "sorted (of_pairs (table_pairs case_mask m))"
proof -
  have "pairs_ascend 0 0xfffffffe (table_pairs case_mask m)" unfolding table_pairs_def
    by (rule table_pairs_ascend [OF assms _ runs_ok case_table_sorted]) (simp_all add: case_conv_table1_def)
  then show ?thesis using pairs_ascend_sorted by blast
qed

subsection \<open>The loop over the characters\<close>

definition chars :: "u32 \<Rightarrow> u32 \<Rightarrow> u32 list" where
  "chars c e = map of_nat [unat c..<unat e]"

lemma chars_step: "chars c e = (if c < e then c # chars (c + 1) e else [])"
proof (cases "c < e")
  case True
  then have "[unat c..<unat e] = unat c # [unat (c + 1)..<unat e]"
    using unat_next [OF True] by (simp add: upt_conv_Cons word_less_nat_alt)
  then show ?thesis using True by (simp add: chars_def)
qed (simp add: chars_def word_less_nat_alt)

lemma set_chars: "set (chars c e) = {c..<e}"
proof -
  have small: "unat (of_nat n :: u32) = n" if "n < unat e" for n
    using that unat_bound [of e] by (intro unat_of_nat_id) linarith
  have "x \<in> set (chars c e) \<longleftrightarrow> unat c \<le> unat x \<and> unat x < unat e" for x
  proof
    assume "x \<in> set (chars c e)"
    then obtain n where "unat c \<le> n" "n < unat e" "x = of_nat n" by (auto simp: chars_def)
    then show "unat c \<le> unat x \<and> unat x < unat e" using small by simp
  next
    assume "unat c \<le> unat x \<and> unat x < unat e"
    then have "unat x \<in> set [unat c..<unat e]" by simp
    then have "of_nat (unat x) \<in> set (chars c e)" unfolding chars_def by (simp only: list.set_map) blast
    then show "x \<in> set (chars c e)" by simp
  qed
  then have "x \<in> set (chars c e) \<longleftrightarrow> x \<in> {c..<e}" for x
    by (simp only: atLeastLessThan_iff word_le_nat_alt word_less_nat_alt)
  then show ?thesis by (intro set_eqI)
qed

lemma sorted_chars: "sorted (chars c e)"
proof (induction "unat e - unat c" arbitrary: c)
  case 0
  then show ?case by (simp add: chars_def)
next
  case (Suc x)
  then have c: "c < e" by (simp add: word_less_nat_alt)
  then have "sorted (chars (c + 1) e)" using unat_next [OF c] Suc(2) by (intro Suc(1)) simp
  moreover have "c \<le> c + 1" using unat_next [OF c] by (simp add: word_le_nat_alt)
  ultimately show ?case using c by (subst chars_step) (auto simp: set_chars)
qed

fun canon_list :: "'m realloc_func \<Rightarrow> bool \<Rightarrow> u32 list \<Rightarrow> 'm \<times> canon_state \<Rightarrow> ('m \<times> canon_state) option" where
  "canon_list ra is_unicode [] x = Some x"
| "canon_list ra is_unicode (c # cs) x =
     (case canon_char ra is_unicode c x of None \<Rightarrow> None | Some x \<Rightarrow> canon_list ra is_unicode cs x)"

lemma canon_list_append:
  "canon_list ra u (xs @ ys) x = (case canon_list ra u xs x of None \<Rightarrow> None | Some x \<Rightarrow> canon_list ra u ys x)"
  by (induction xs arbitrary: x) (auto split: option.splits)

lemma canon_interval_list: "canon_interval ra u c e x = canon_list ra u (chars c e) x"
proof (induction ra u c e x rule: canon_interval.induct)
  case (1 ra u c e x)
  then show ?case
    unfolding canon_interval.simps [of ra u c e x] chars_step [of c e] by (auto split: option.splits)
qed

definition range_chars :: "u32 list \<Rightarrow> u32 list" where
  "range_chars pts = concat (map (\<lambda>(a, b). chars a b) (to_pairs pts))"

lemma canon_points_list: "canon_points ra u pts x = canon_list ra u (range_chars pts) x"
proof (induction pts arbitrary: x rule: to_pairs.induct)
  case (1 a b pts)
  then show ?case by (simp add: range_chars_def canon_interval_list canon_list_append split: option.splits)
qed (simp_all add: range_chars_def)

lemma set_range_chars:
  assumes "sorted pts" "even (length pts)"
  shows "set (range_chars pts) = {v. inside pts v}"
  using inside_intervals [OF assms] by (auto simp: range_chars_def set_chars)

lemma sorted_range_chars: "sorted pts \<Longrightarrow> even (length pts) \<Longrightarrow> sorted (range_chars pts)"
proof (induction pts rule: to_pairs.induct)
  case (1 a b pts)
  have "b \<le> c" if "c \<in> set (range_chars pts)" for c
    using that 1(2,3) set_range_chars [of pts] inside_all_above [of pts c] by (auto simp: not_less) (meson leD leI order_trans)
  then have "x \<le> c" if "x \<in> set (chars a b)" "c \<in> set (range_chars pts)" for x c
    using that by (auto simp: set_chars intro: order_trans less_imp_le)
  then show ?case using 1 sorted_chars [of a b] by (simp add: range_chars_def sorted_append)
qed (simp_all add: range_chars_def)

lemma advance_run_val: "find_run c = Some i \<Longrightarrow> j \<le> i \<Longrightarrow> advance_run c j = Some i"
proof (induction "i - j" arbitrary: j)
  case 0
  then have "in_run (case_conv_table1 ! i) c" "j = i" by (simp_all add: find_run_iff)
  then show ?case unfolding advance_run.simps [of c j] by (simp add: in_run_words)
next
  case (Suc x)
  have i: "i < length case_conv_table1" "in_run (case_conv_table1 ! i) c" using Suc(3) by (simp_all add: find_run_iff)
  have "\<not> in_run (case_conv_table1 ! j) c" using in_run_unique [OF case_table_sorted i(1) _ i(2), of j] i(1) Suc(2,4) by auto
  then have "\<not> (c \<ge> run_code (case_conv_table1 ! j) \<and> c < run_code (case_conv_table1 ! j) + run_len (case_conv_table1 ! j))"
    by (simp add: in_run_words)
  moreover have "advance_run c (j + 1) = Some i" using Suc by simp
  moreover have "j + 1 < length case_conv_table1" using i(1) Suc(2) by simp
  ultimately show ?case unfolding advance_run.simps [of c j] Let_def by auto
qed

lemma find_run_mono:
  assumes "find_run c = Some i" "find_run c' = Some i'" "c \<le> c'"
  shows "i \<le> i'"
proof (rule ccontr)
  assume "\<not> i \<le> i'"
  then have "uint (run_code (case_conv_table1 ! i')) + uint (run_len (case_conv_table1 ! i')) \<le> uint (run_code (case_conv_table1 ! i))"
    using assms(1) by (intro runs_sorted_nth [OF case_table_sorted]) (auto simp: find_run_iff)
  then show False using assms by (auto simp: find_run_iff in_run_def word_le_def)
qed

text \<open>The characters already in the result or in the interval not yet added.\<close>

definition covered :: "canon_state \<Rightarrow> u32 set" where
  "covered st = {d. in_pairs (to_pairs (points (cr_result st))) d \<or> d_start st \<noteq> -1 \<and> d_start st \<le> d \<and> d < d_end st}"

definition canon_inv :: "canon_state \<Rightarrow> bool" where
  "canon_inv st \<longleftrightarrow> even (length (points (cr_result st))) \<and> (\<forall>(a, b)\<in>set (to_pairs (points (cr_result st))). a < b) \<and>
     (d_start st \<noteq> -1 \<longrightarrow> d_start st < d_end st)"

lemma to_pairs_append: "even (length xs) \<Longrightarrow> to_pairs (xs @ ys) = to_pairs xs @ to_pairs ys"
  by (induction xs rule: to_pairs.induct) auto

lemma canon_flush:
  assumes "\<forall>s n. snd (ra s n)" "canon_inv st" "d_start st \<noteq> -1"
  obtains s' cr' where "cr_add_interval ra s (cr_result st) (d_start st) (d_end st) = (s', cr', 0)" "even (length (points cr'))"
    "\<forall>(a, b)\<in>set (to_pairs (points cr')). a < b" "{d. in_pairs (to_pairs (points cr')) d} = covered st"
proof -
  obtain s' cr' where r: "cr_add_interval ra s (cr_result st) (d_start st) (d_end st) = (s', cr', 0)"
      "points cr' = points (cr_result st) @ [d_start st, d_end st]"
    using adds_interval [OF assms(1), of "cr_result st" "d_start st" "d_end st" s] by (auto simp: adds_def split: prod.splits)
  have "to_pairs (points cr') = to_pairs (points (cr_result st)) @ [(d_start st, d_end st)]"
    using assms(2) r(2) by (simp add: canon_inv_def to_pairs_append)
  then show thesis using that [OF r(1)] r(2) assms(2,3) by (auto simp: canon_inv_def covered_def in_pairs_def)
qed

lemma canon_char_step:
  assumes ok: "\<forall>s n. snd (ra s n)" and inv: "canon_inv st" and c: "find_run c = Some i" "idx st \<le> i"
  shows "\<exists>s' st'. canon_char ra u c (s, st) = Some (s', st') \<and> canon_inv st' \<and> idx st' = i \<and>
    d_start st' \<noteq> -1 \<and> covered st' = insert (lre_canonicalize c u) (covered st)"
proof -
  define d where "d = lre_canonicalize c u"
  have fold: "lre_case_folding_entry c i (case_conv_table1 ! i) u = d" using c(1) by (simp add: d_def canonicalize_run)
  have small: "unat d < 262144" using folding_small [of "case_conv_table1 ! i" c i u] c(1) fold by (simp add: find_run_iff)
  have max: "unat (-1 :: u32) = 2 ^ 32 - 1" by (simp add: unsigned_minus_1_eq_mask mask_eq_exp_minus_1)
  have d1: "d \<noteq> -1" using small max by auto
  have next1: "unat (d + 1) = unat d + 1" using small unat_small_add [of d 1] by simp
  have dlt: "d < d + 1" "x < d + 1 \<longleftrightarrow> x < d \<or> x = d" for x
    using next1 by (auto simp: word_less_nat_alt word_unat_eq_iff)
  note adv = advance_run_val [OF c]
  consider "d_start st = -1" | "d_start st \<noteq> -1" "d_end st = d" | "d_start st \<noteq> -1" "d_end st \<noteq> d" by blast
  then show ?thesis
  proof cases
    case 1
    then have "canon_char ra u c (s, st) = Some (s, st\<lparr>idx := i, d_start := d, d_end := d + 1\<rparr>)"
      by (simp add: canon_char_def adv fold)
    then show ?thesis using 1 inv dlt d1 by (auto simp: canon_inv_def covered_def d_def [symmetric])
  next
    case 2
    then have "canon_char ra u c (s, st) = Some (s, st\<lparr>idx := i, d_end := d + 1\<rparr>)"
      by (simp add: canon_char_def adv fold)
    moreover have "d_start st < d" using 2 inv by (simp add: canon_inv_def)
    ultimately show ?thesis using 2 inv dlt d1 by (auto simp: canon_inv_def covered_def d_def [symmetric])
  next
    case 3
    define st1 where "st1 = st\<lparr>idx := i\<rparr>"
    have st1: "canon_inv st1" "d_start st1 \<noteq> -1" "covered st1 = covered st"
      using inv 3 by (simp_all add: st1_def canon_inv_def covered_def)
    obtain s' cr' where r: "cr_add_interval ra s (cr_result st1) (d_start st1) (d_end st1) = (s', cr', 0)" "even (length (points cr'))"
      "\<forall>(a, b)\<in>set (to_pairs (points cr')). a < b" "{d. in_pairs (to_pairs (points cr')) d} = covered st1"
      by (rule canon_flush [OF ok st1(1,2)])
    have "canon_char ra u c (s, st) = Some (s', st1\<lparr>cr_result := cr', d_start := d, d_end := d + 1\<rparr>)"
      using 3 r(1) by (simp add: canon_char_def adv fold st1_def)
    then show ?thesis using r st1 dlt d1 by (auto simp: canon_inv_def covered_def [of "_ \<lparr> d_end := _\<rparr>"] d_def [symmetric] st1_def)
  qed
qed

lemma canon_list_covers:
  assumes "\<forall>s n. snd (ra s n)"
  shows "canon_inv st \<Longrightarrow> sorted cs \<Longrightarrow> \<forall>c\<in>set cs. \<exists>i. find_run c = Some i \<and> idx st \<le> i \<Longrightarrow>
    \<exists>s' st'. canon_list ra u cs (s, st) = Some (s', st') \<and> canon_inv st' \<and> (cs \<noteq> [] \<longrightarrow> d_start st' \<noteq> -1) \<and>
      covered st' = covered st \<union> (\<lambda>c. lre_canonicalize c u) ` set cs"
proof (induction cs arbitrary: s st)
  case (Cons c cs)
  then obtain i where i: "find_run c = Some i" "idx st \<le> i" by auto
  from canon_char_step [OF assms Cons(2) i, of u s] obtain s1 st1 where
    1: "canon_char ra u c (s, st) = Some (s1, st1)" "canon_inv st1" "idx st1 = i" "d_start st1 \<noteq> -1"
      "covered st1 = insert (lre_canonicalize c u) (covered st)" by blast
  have "\<exists>j. find_run x = Some j \<and> idx st1 \<le> j" if "x \<in> set cs" for x
    using that Cons(3,4) 1(3) find_run_mono [OF i(1), of x] by fastforce
  then obtain s2 st2 where "canon_list ra u cs (s1, st1) = Some (s2, st2)" "canon_inv st2" "cs \<noteq> [] \<longrightarrow> d_start st2 \<noteq> -1"
      "covered st2 = covered st1 \<union> (\<lambda>c. lre_canonicalize c u) ` set cs"
    using Cons(1) [OF 1(2), of s1] Cons(3) by auto
  then show ?case using 1 by (cases cs) auto
qed simp

subsection \<open>Canonicalization\<close>

definition mode_mask :: "bool \<Rightarrow> u32 \<times> u32" where
  "mode_mask is_unicode = (if is_unicode then (CASE_F, 15868) else (CASE_U, 11253))"

lemma fold_fixed:
  assumes "mode_mask u = (case_mask, m)" "\<not> in_pairs (table_pairs case_mask m) c"
  shows "lre_canonicalize c u = c"
proof (cases "find_run c")
  case None
  then show ?thesis by (simp add: canonicalize_run)
next
  case (Some i)
  define v where "v = case_conv_table1 ! i"
  have cm: "(case_mask, m) \<in> {(CASE_F, 15868), (CASE_U, 11253)}" using assms(1) by (auto simp: mode_mask_def split: if_splits)
  have i: "i < length case_conv_table1" "in_run v c" using Some by (simp_all add: find_run_iff v_def)
  have v: "run_ok v" using runs_ok i(1) by (simp add: list_all_length v_def)
  have out: "\<not> in_pairs (case_pairs case_mask m v) c" using assms(2) Some find_in_pairs [OF cm, of c] by (simp add: v_def)
  have t: "((if u then 2 else 0), case_mask, m) \<in> {(2, CASE_F, 15868), (0, CASE_U, 11253)}"
    using assms(1) by (auto simp: mode_mask_def split: if_splits)
  note fixed = conv_entry_fixed [OF v i(2) out t, of lre_case_conv1 i]
  have upper: "ascii_upper c = c" if "\<not> u" "c < 128"
  proof (rule ccontr)
    assume "ascii_upper c \<noteq> c"
    then have az: "97 \<le> c" "c \<le> 122" by (auto simp: ascii_upper_def split: if_splits)
    then have "in_run (case_conv_table1 ! 1) c" unfolding in_run_def first_runs by (simp add: word_le_def)
    moreover have "length case_conv_table1 = 378" by (simp add: case_conv_table1_def)
    ultimately have "find_run c = Some 1" by (simp add: find_run_iff)
    then have "v = 0x00309a00" using Some first_runs(2) by (simp add: v_def)
    moreover have "case_mask = CASE_U" "m = 11253" using assms(1) that(1) by (simp_all add: mode_mask_def)
    ultimately show False using out az by (auto simp: case_pairs_def Let_def first_runs in_pairs_def word_le_def word_less_def)
  qed
  show ?thesis
    using fixed upper Some unfolding canonicalize_run
    by (auto simp: lre_case_folding_entry_def lre_case_conv_entry_def v_def [symmetric])
qed

lemma cr_op_sorted:
  assumes "\<forall>s n. snd (ra s n)" "sorted a" "even (length a)" "sorted b" "even (length b)" "points cr = []"
  obtains s' cr' where "cr_op ra s cr a b op = (s', cr', 0)" "strictly (points cr')" "even (length (points cr'))"
    "\<And>v. inside (points cr') v \<longleftrightarrow> op_is_in op (inside a v) (inside b v)"
proof -
  obtain s' cr' where r: "cr_op ra s cr a b op = (s', cr', 0)"
    using cr_op_returns [OF assms(1), of s cr a b op 0 0] by (auto simp: cr_op_def)
  from cr_op_val [OF assms(2,4,3,5,6) r] show thesis using that [OF r] by blast
qed

lemma cr_invert_returns:
  assumes "\<forall>s n. snd (ra s n)"
  obtains s' cr' where "cr_invert ra s cr = (s', cr', 0)"
proof (rule cr_realloc_cases [of ra s cr "clen cr + 2"])
  fix s' assume "cr_realloc ra s cr (clen cr + 2) = (s', cr, -1)"
  then have False using assms by (auto simp: cr_realloc_def Let_def split: prod.splits if_splits) (metis snd_conv)+
  then show thesis ..
qed (use that in \<open>auto simp: cr_invert_def\<close>)

lemma inside_max: "sorted pts \<Longrightarrow> even (length pts) \<Longrightarrow> \<not> inside pts 0xffffffff"
  using inside_all_below [of pts "0xffffffff"] u32_max by blast

text \<open>The loop and the last interval give the intervals of the folded characters.\<close>

lemma canon_result:
  assumes ok: "\<forall>s n. snd (ra s n)" and pts: "sorted pts" "even (length pts)" "\<And>c. inside pts c \<Longrightarrow> \<exists>i. find_run c = Some i"
  obtains s' st s'' res where
    "canon_points ra u pts (s, \<lparr>idx = 0, d_start = -1, d_end = -1, cr_result = cr_init\<rparr>) = Some (s', st)"
    "(if d_start st \<noteq> -1 then cr_add_interval ra s' (cr_result st) (d_start st) (d_end st) else (s', cr_result st, 0)) = (s'', res, 0)"
    "even (length (points res))" "\<forall>(a, b)\<in>set (to_pairs (points res)). a < b"
    "\<forall>d. in_pairs (to_pairs (points res)) d \<longleftrightarrow> d \<in> (\<lambda>c. lre_canonicalize c u) ` {c. inside pts c}"
proof -
  define st0 where "st0 = \<lparr>idx = 0, d_start = -1, d_end = -1, cr_result = cr_init\<rparr>"
  have st0: "canon_inv st0" "covered st0 = {}" "idx st0 = 0" by (auto simp: st0_def canon_inv_def covered_def cr_init_def in_pairs_def)
  have cs: "set (range_chars pts) = {c. inside pts c}" by (rule set_range_chars [OF pts(1,2)])
  then have "\<forall>c\<in>set (range_chars pts). \<exists>i. find_run c = Some i \<and> idx st0 \<le> i" using pts(3) st0(3) by auto
  from canon_list_covers [OF ok st0(1) sorted_range_chars [OF pts(1,2)] this, of u s] obtain s' st where
    l: "canon_list ra u (range_chars pts) (s, st0) = Some (s', st)" "canon_inv st"
      "covered st = (\<lambda>c. lre_canonicalize c u) ` {c. inside pts c}" by (auto simp: st0 cs)
  have p: "canon_points ra u pts (s, st0) = Some (s', st)" using l(1) by (simp add: canon_points_list)
  show thesis
  proof (cases "d_start st = -1")
    case True
    then show thesis using that [OF p [unfolded st0_def], of s' "cr_result st"] l(2,3) by (auto simp: canon_inv_def covered_def)
  next
    case False
    obtain s'' res where r: "cr_add_interval ra s' (cr_result st) (d_start st) (d_end st) = (s'', res, 0)" "even (length (points res))"
      "\<forall>(a, b)\<in>set (to_pairs (points res)). a < b" "{d. in_pairs (to_pairs (points res)) d} = covered st"
      by (rule canon_flush [OF ok l(2) False])
    then show thesis using that [OF p [unfolded st0_def], of s'' res] False l(3) by auto
  qed
qed

text \<open>The two parts of the range: the characters with a run that changes them, and the others.\<close>

lemma canon_split:
  assumes ok: "\<forall>s n. snd (ra s n)" and cr: "cr_ok cr"
  obtains s1 mask1 s2 inter s3 mask2 s4 sub where
    "unicode_case1 ra s cr_init (if u then CASE_F else CASE_U) = (s1, mask1, 0)"
    "cr_op ra s1 cr_init (points mask1) (points cr) CR_OP_INTER = (s2, inter, 0)"
    "cr_invert ra s2 mask1 = (s3, mask2, 0)"
    "cr_op ra s3 cr_init (points mask2) (points cr) CR_OP_INTER = (s4, sub, 0)"
    "strictly (points inter)" "even (length (points inter))" "\<forall>c. inside (points inter) c \<longrightarrow> (\<exists>i. find_run c = Some i)"
    "strictly (points sub)" "even (length (points sub))" "\<forall>c. inside (points sub) c \<longrightarrow> lre_canonicalize c u = c"
    "\<forall>c. inside (points inter) c \<or> inside (points sub) c \<longleftrightarrow> c \<in> cr_set cr"
proof -
  obtain cm m where mode: "mode_mask u = (cm, m)" by fastforce
  have cm: "(cm, m) \<in> {(CASE_F, 15868), (CASE_U, 11253)}" "cm = (if u then CASE_F else CASE_U)"
    using mode by (auto simp: mode_mask_def split: if_splits)
  note cro = cr_okD [OF cr]
  obtain s1 mask1 where 1: "unicode_case1 ra s cr_init cm = (s1, mask1, 0)" "points mask1 = of_pairs (table_pairs cm m)"
    by (rule case1_range [OF ok cm(1)])
  have mo: "sorted (points mask1)" "even (length (points mask1))" using table_points_sorted [OF cm(1)] 1(2) by simp_all
  have M: "inside (points mask1) c \<longleftrightarrow> in_pairs (table_pairs cm m) c" for c
    using inside_intervals [OF mo] 1(2) by (simp add: in_pairs_def)
  have init: "points cr_init = []" by (simp add: cr_init_def)
  obtain s2 inter where 2: "cr_op ra s1 cr_init (points mask1) (points cr) CR_OP_INTER = (s2, inter, 0)" "strictly (points inter)"
    "even (length (points inter))" "\<And>v. inside (points inter) v \<longleftrightarrow> op_is_in CR_OP_INTER (inside (points mask1) v) (inside (points cr) v)"
    by (rule cr_op_sorted [OF ok mo cro init]) blast
  obtain s3 mask2 where 3: "cr_invert ra s2 mask1 = (s3, mask2, 0)" by (rule cr_invert_returns [OF ok])
  note inv = cr_invert_val [OF mo 3]
  have mo2: "sorted (points mask2)" "even (length (points mask2))" using cr_okD inv by blast+
  obtain s4 sub where 4: "cr_op ra s3 cr_init (points mask2) (points cr) CR_OP_INTER = (s4, sub, 0)" "strictly (points sub)"
    "even (length (points sub))" "\<And>v. inside (points sub) v \<longleftrightarrow> op_is_in CR_OP_INTER (inside (points mask2) v) (inside (points cr) v)"
    by (rule cr_op_sorted [OF ok mo2 cro init]) blast
  have run: "\<exists>i. find_run c = Some i" if "inside (points inter) c" for c
    using that 2(4) [of c] M [of c] find_in_pairs [OF cm(1), of c] by auto
  have nomax: "0xffffffff \<notin> cr_set cr" using inside_max [OF cro] by (simp add: cr_set_def)
  have sub: "inside (points sub) c \<longleftrightarrow> c \<in> cr_set cr \<and> \<not> inside (points mask1) c" for c
    using 4(4) [of c] inv nomax by (cases "c = 0xffffffff") (auto simp: cr_set_def)
  have fixed: "inside (points sub) c \<Longrightarrow> lre_canonicalize c u = c" for c using fold_fixed [OF mode, of c] M [of c] sub [of c] by simp
  show thesis
    by (rule that [OF 1(1) [unfolded cm(2)] 2(1) 3 4(1) 2(2,3) _ 4(2,3)]) (use run fixed sub 2(4) in \<open>auto simp: cr_set_def\<close>)
qed

text \<open>C38. Canonicalizing a range. With an allocator that succeeds, \<^verbatim>\<open>cr_regexp_canonicalize\<close> turns a well
  formed range into the well formed range of exactly the canonical forms, as \<^verbatim>\<open>lre_canonicalize\<close> gives
  them, of its characters, in both modes; its assertion that every character of the loop has a run in
  the case table does not fail, and the sort of the intervals returns.\<close>

theorem cr_canonicalize_image:
  assumes ok: "\<forall>s n. snd (ra s n)" and cr: "cr_ok cr"
  shows "\<exists>s' cr'. cr_regexp_canonicalize ra s cr u = Some (s', cr', 0) \<and> cr_ok cr' \<and>
    cr_set cr' = (\<lambda>c. lre_canonicalize c u) ` cr_set cr"
proof -
  obtain s1 mask1 s2 inter s3 mask2 s4 sub where
    1: "unicode_case1 ra s cr_init (if u then CASE_F else CASE_U) = (s1, mask1, 0)"
      "cr_op ra s1 cr_init (points mask1) (points cr) CR_OP_INTER = (s2, inter, 0)"
      "cr_invert ra s2 mask1 = (s3, mask2, 0)"
      "cr_op ra s3 cr_init (points mask2) (points cr) CR_OP_INTER = (s4, sub, 0)"
    and inter: "strictly (points inter)" "even (length (points inter))" "\<forall>c. inside (points inter) c \<longrightarrow> (\<exists>i. find_run c = Some i)"
    and sub: "strictly (points sub)" "even (length (points sub))" "\<forall>c. inside (points sub) c \<longrightarrow> lre_canonicalize c u = c"
    and split: "\<forall>c. inside (points inter) c \<or> inside (points sub) c \<longleftrightarrow> c \<in> cr_set cr"
    by (rule canon_split [OF ok cr])
  obtain s5 st s6 res where 5: "canon_points ra u (points inter) (s4, \<lparr>idx = 0, d_start = -1, d_end = -1, cr_result = cr_init\<rparr>) = Some (s5, st)"
    "(if d_start st \<noteq> -1 then cr_add_interval ra s5 (cr_result st) (d_start st) (d_end st) else (s5, cr_result st, 0)) = (s6, res, 0)"
    "even (length (points res))" "\<forall>(a, b)\<in>set (to_pairs (points res)). a < b"
    "\<forall>d. in_pairs (to_pairs (points res)) d \<longleftrightarrow> d \<in> (\<lambda>c. lre_canonicalize c u) ` {c. inside (points inter) c}"
    by (rule canon_result [OF ok strictly_sorted [OF inter(1)] inter(2) inter(3) [rule_format], of u s4])
  obtain res' where 6: "cr_sort_and_remove_overlap res = Some res'" "strictly (points res')" "even (length (points res'))"
    "\<And>v. inside (points res') v \<longleftrightarrow> in_pairs (to_pairs (points res)) v"
    by (rule sort_overlap_val [OF 5(3,4)]) blast
  have empty: "points (cr\<lparr>points := []\<rparr>) = []" by simp
  obtain s7 cr' where 7: "cr_op ra s6 (cr\<lparr>points := []\<rparr>) (points res') (points sub) CR_OP_UNION = (s7, cr', 0)"
    "\<And>v. inside (points cr') v \<longleftrightarrow> op_is_in CR_OP_UNION (inside (points res') v) (inside (points sub) v)"
    by (rule cr_op_sorted [OF ok strictly_sorted [OF 6(2)] 6(3) strictly_sorted [OF sub(1)] sub(2) empty]) blast
  have "cr_ok \<lparr>points = points res', csize = clen res'\<rparr>" "cr_ok \<lparr>points = points sub, csize = clen sub\<rparr>" "0 \<le> csize cr"
    using 6 sub cr by (simp_all add: cr_ok_def)
  then have ok': "cr_ok cr'"
    using cr_op_refines_aux [of "\<lparr>points = points res', csize = clen res'\<rparr>" "\<lparr>points = points sub, csize = clen sub\<rparr>" "cr\<lparr>points := []\<rparr>" ra s6 CR_OP_UNION s7 cr' 0] 7(1) by simp
  have returns: "\<exists>s'. cr_regexp_canonicalize ra s cr u = Some (s', cr', 0)"
    unfolding cr_regexp_canonicalize_def by (simp add: 1 5(1,2) 6(1) 7(1))
  have "d \<in> cr_set cr' \<longleftrightarrow> d \<in> (\<lambda>c. lre_canonicalize c u) ` {c. inside (points inter) c} \<or> inside (points sub) d" for d
    using 7(2) [of d] 6(4) [of d] 5(5) [rule_format, of d] by (simp add: cr_set_def)
  then have "cr_set cr' = (\<lambda>c. lre_canonicalize c u) ` {c. inside (points inter) c} \<union> {c. inside (points sub) c}" by blast
  also have "{c. inside (points sub) c} = (\<lambda>c. lre_canonicalize c u) ` {c. inside (points sub) c}" using sub(3) by (auto simp: image_iff)
  also have "(\<lambda>c. lre_canonicalize c u) ` {c. inside (points inter) c} \<union> \<dots> = (\<lambda>c. lre_canonicalize c u) ` cr_set cr"
    unfolding image_Un [symmetric] using split by (intro arg_cong [where f = "image _"]) auto
  finally show ?thesis using returns ok' by blast
qed

theorem cr_canonicalize_image_witness:
  "cr_ok \<lparr>points = [65, 91, 0x3a9, 0x3aa], csize = 4\<rparr> \<and>
   (\<exists>s' cr'. cr_regexp_canonicalize (\<lambda>s n. (s, True)) () \<lparr>points = [65, 91, 0x3a9, 0x3aa], csize = 4\<rparr> True = Some (s', cr', 0) \<and>
      cr_set cr' = (\<lambda>c. lre_canonicalize c True) ` cr_set \<lparr>points = [65, 91, 0x3a9, 0x3aa], csize = 4\<rparr>)"
proof -
  have "cr_ok \<lparr>points = [65, 91, 0x3a9, 0x3aa], csize = 4\<rparr>" by (simp add: cr_ok_def strictly_def)
  then show ?thesis using cr_canonicalize_image [of "\<lambda>s n. (s, True)" "\<lparr>points = [65, 91, 0x3a9, 0x3aa], csize = 4\<rparr>" "()" True] by auto
qed

end
