(* ===== verification/Regexp_Code.thy ===== *)
theory Regexp_Code
  imports Case_Conv Utf8 "HOL-Library.Monad_Syntax"
begin

text \<open>
  The byte code of the regular expression engine \<^verbatim>\<open>libregexp.c\<close>, its access to the subject string, and
  the effect of each instruction. The subject is a list of code units and positions in it are numbers of
  units; a unit is a byte for \<^verbatim>\<open>cbuf_type\<close> 0 and 16 bits otherwise. \<open>None\<close> stands for undefined behaviour: a
  read outside the code, the subject or the captures, a failed assertion, or the call of \<^verbatim>\<open>abort\<close>.
\<close>

datatype REOPCodeEnum =
    REOP_invalid | REOP_char | REOP_char_i | REOP_char32 | REOP_char32_i | REOP_dot | REOP_any | REOP_space | REOP_not_space
  | REOP_line_start | REOP_line_start_m | REOP_line_end | REOP_line_end_m | REOP_goto | REOP_split_goto_first | REOP_split_next_first
  | REOP_match | REOP_lookahead_match | REOP_negative_lookahead_match | REOP_save_start | REOP_save_end | REOP_save_reset
  | REOP_loop | REOP_loop_split_goto_first | REOP_loop_split_next_first | REOP_loop_check_adv_split_goto_first
  | REOP_loop_check_adv_split_next_first | REOP_set_i32 | REOP_word_boundary | REOP_word_boundary_i | REOP_not_word_boundary
  | REOP_not_word_boundary_i | REOP_back_reference | REOP_back_reference_i | REOP_backward_back_reference
  | REOP_backward_back_reference_i | REOP_range | REOP_range_i | REOP_range32 | REOP_range32_i | REOP_lookahead
  | REOP_negative_lookahead | REOP_set_char_pos | REOP_check_advance | REOP_prev

definition reop_list :: "REOPCodeEnum list" where
  "reop_list =
    [REOP_invalid, REOP_char, REOP_char_i, REOP_char32, REOP_char32_i, REOP_dot, REOP_any, REOP_space, REOP_not_space,
     REOP_line_start, REOP_line_start_m, REOP_line_end, REOP_line_end_m, REOP_goto, REOP_split_goto_first, REOP_split_next_first,
     REOP_match, REOP_lookahead_match, REOP_negative_lookahead_match, REOP_save_start, REOP_save_end, REOP_save_reset,
     REOP_loop, REOP_loop_split_goto_first, REOP_loop_split_next_first, REOP_loop_check_adv_split_goto_first,
     REOP_loop_check_adv_split_next_first, REOP_set_i32, REOP_word_boundary, REOP_word_boundary_i, REOP_not_word_boundary,
     REOP_not_word_boundary_i, REOP_back_reference, REOP_back_reference_i, REOP_backward_back_reference,
     REOP_backward_back_reference_i, REOP_range, REOP_range_i, REOP_range32, REOP_range32_i, REOP_lookahead,
     REOP_negative_lookahead, REOP_set_char_pos, REOP_check_advance, REOP_prev]"

definition nth_opt :: "'a list \<Rightarrow> nat \<Rightarrow> 'a option" where
  "nth_opt xs i = (if i < length xs then Some (xs ! i) else None)"

definition get_u16 :: "u8 list \<Rightarrow> nat \<Rightarrow> u32 option" where
  "get_u16 bc i = do { a \<leftarrow> nth_opt bc i; b \<leftarrow> nth_opt bc (i + 1); Some (ucast a + ucast b * 0x100) }"

definition get_u32 :: "u8 list \<Rightarrow> nat \<Rightarrow> u32 option" where
  "get_u32 bc i =
     do { a \<leftarrow> nth_opt bc i; b \<leftarrow> nth_opt bc (i + 1); c \<leftarrow> nth_opt bc (i + 2); d \<leftarrow> nth_opt bc (i + 3);
          Some (ucast a + ucast b * 0x100 + ucast c * 0x10000 + ucast d * 0x1000000) }"

text \<open>A relative jump, \<^verbatim>\<open>pc + (int)val\<close>.\<close>

definition jump :: "nat \<Rightarrow> u32 \<Rightarrow> nat option" where
  "jump pc v = (let t = int pc + sint v in if 0 \<le> t then Some (nat t) else None)"

subsection \<open>Characters of the subject\<close>

record REExecContext =
  cbuf :: "u16 list"
  cbuf_type :: nat
  capture_count :: nat
  is_unicode :: bool
  bc :: "u8 list"

text \<open>\<^verbatim>\<open>GET_CHAR\<close> with the end \<open>e\<close>, and \<^verbatim>\<open>GET_PREV_CHAR\<close> with the start \<open>b\<close>; the peeking macros keep the position.\<close>

definition get_char :: "REExecContext \<Rightarrow> nat \<Rightarrow> nat \<Rightarrow> (u32 \<times> nat) option" where
  "get_char s e p =
     do {
       c \<leftarrow> nth_opt (cbuf s) p;
       if cbuf_type s = 2 \<and> is_hi_surrogate (ucast c) \<and> p + 1 < e then
         do {
           d \<leftarrow> nth_opt (cbuf s) (p + 1);
           Some (if is_lo_surrogate (ucast d) then (from_surrogate (ucast c) (ucast d), p + 2) else (ucast c, p + 1))
         }
       else Some (ucast c, p + 1)
     }"

definition get_prev_char :: "REExecContext \<Rightarrow> nat \<Rightarrow> nat \<Rightarrow> (u32 \<times> nat) option" where
  "get_prev_char s b p =
     do {
       p \<leftarrow> (if 0 < p then Some (p - 1) else None);
       c \<leftarrow> nth_opt (cbuf s) p;
       if cbuf_type s = 2 \<and> is_lo_surrogate (ucast c) \<and> p > b then
         do {
           d \<leftarrow> nth_opt (cbuf s) (p - 1);
           Some (if is_hi_surrogate (ucast d) then (from_surrogate (ucast d) (ucast c), p - 1) else (ucast c, p))
         }
       else Some (ucast c, p)
     }"

definition is_line_terminator :: "u32 \<Rightarrow> bool" where
  "is_line_terminator c \<longleftrightarrow> c = 10 \<or> c = 13 \<or> c = 0x2028 \<or> c = 0x2029"

text \<open>Character classes of \<^verbatim>\<open>libunicode.c\<close> and \<^verbatim>\<open>libunicode.h\<close>.\<close>

abbreviation (input) UNICODE_C_SPACE :: u8 where "UNICODE_C_SPACE \<equiv> 1"
abbreviation (input) UNICODE_C_DIGIT :: u8 where "UNICODE_C_DIGIT \<equiv> 2"
abbreviation (input) UNICODE_C_UPPER :: u8 where "UNICODE_C_UPPER \<equiv> 4"
abbreviation (input) UNICODE_C_LOWER :: u8 where "UNICODE_C_LOWER \<equiv> 8"
abbreviation (input) UNICODE_C_UNDER :: u8 where "UNICODE_C_UNDER \<equiv> 16"
abbreviation (input) UNICODE_C_DOLLAR :: u8 where "UNICODE_C_DOLLAR \<equiv> 32"
abbreviation (input) UNICODE_C_XDIGIT :: u8 where "UNICODE_C_XDIGIT \<equiv> 64"

definition lre_ctype_bits :: "u8 list" where
  "lre_ctype_bits =
     replicate 9 0 @ replicate 5 UNICODE_C_SPACE @ replicate 18 0 @
     [UNICODE_C_SPACE, 0, 0, 0, UNICODE_C_DOLLAR] @ replicate 11 0 @
     replicate 10 (UNICODE_C_XDIGIT OR UNICODE_C_DIGIT) @ replicate 7 0 @
     replicate 6 (UNICODE_C_XDIGIT OR UNICODE_C_UPPER) @ replicate 20 UNICODE_C_UPPER @
     [0, 0, 0, 0, UNICODE_C_UNDER, 0] @
     replicate 6 (UNICODE_C_XDIGIT OR UNICODE_C_LOWER) @ replicate 20 UNICODE_C_LOWER @
     replicate 37 0 @ [UNICODE_C_SPACE] @ replicate 95 0"

definition char_range_s :: "u16 list" where
  "char_range_s =
     [10, 0x0009, 0x000D + 1, 0x0020, 0x0020 + 1, 0x00A0, 0x00A0 + 1, 0x1680, 0x1680 + 1, 0x2000, 0x200A + 1,
      0x2028, 0x2029 + 1, 0x202F, 0x202F + 1, 0x205F, 0x205F + 1, 0x3000, 0x3000 + 1, 0xFEFF, 0xFEFF + 1]"

fun space_loop :: "u32 \<Rightarrow> u16 list \<Rightarrow> bool" where
  "space_loop c (low # high # r) = (if c < ucast low then False else if c < ucast high then True else space_loop c r)"
| "space_loop c _ = False"

definition lre_is_space_non_ascii :: "u32 \<Rightarrow> bool" where
  "lre_is_space_non_ascii c = space_loop c (drop 5 char_range_s)"

definition lre_is_space :: "u32 \<Rightarrow> bool" where
  "lre_is_space c =
     (if c < 256 then lre_ctype_bits ! unat c AND UNICODE_C_SPACE \<noteq> 0 else lre_is_space_non_ascii c)"

definition lre_is_word_byte :: "u32 \<Rightarrow> bool" where
  "lre_is_word_byte c \<longleftrightarrow>
     lre_ctype_bits ! unat c AND (UNICODE_C_UPPER OR UNICODE_C_LOWER OR UNICODE_C_UNDER OR UNICODE_C_DIGIT) \<noteq> 0"

definition is_word :: "bool \<Rightarrow> u32 \<Rightarrow> bool" where
  "is_word ignore_case c \<longleftrightarrow> (if c < 256 then lre_is_word_byte c else ignore_case \<and> (c = 0x017f \<or> c = 0x212a))"

lemma length_ctype_bits: "length lre_ctype_bits = 256"
  by (simp add: lre_ctype_bits_def)

subsection \<open>Captures and registers\<close>

text \<open>
  The array \<^verbatim>\<open>capture\<close> holds positions, null pointers and counters cast to pointers. Comparing a counter
  with a position, or counting with a position, has no defined result.
\<close>

datatype capval = Null | Ptr nat | Cnt u32

fun as_counter :: "capval \<Rightarrow> u32 option" where
  "as_counter Null = Some 0"
| "as_counter (Cnt v) = Some v"
| "as_counter (Ptr p) = None"

fun same_pos :: "capval \<Rightarrow> nat \<Rightarrow> bool option" where
  "same_pos Null p = Some False"
| "same_pos (Ptr q) p = Some (q = p)"
| "same_pos (Cnt v) p = None"

fun as_ptr :: "capval \<Rightarrow> nat option option" where
  "as_ptr Null = Some None"
| "as_ptr (Ptr p) = Some (Some p)"
| "as_ptr (Cnt v) = None"

text \<open>The two loops of a back reference; the result \<open>Some None\<close> is a mismatch.\<close>

lemma get_char_less: "get_char s e p = Some (c, q) \<Longrightarrow> p < q"
  by (auto simp: get_char_def split: option.splits bind_splits if_splits)

lemma get_prev_char_less: "get_prev_char s b p = Some (c, q) \<Longrightarrow> q < p"
  by (auto simp: get_prev_char_def split: option.splits bind_splits if_splits)

definition canon :: "REExecContext \<Rightarrow> bool \<Rightarrow> u32 \<Rightarrow> u32" where
  "canon s ignore_case c = (if ignore_case then lre_canonicalize c (is_unicode s) else c)"

function ref_forward :: "REExecContext \<Rightarrow> bool \<Rightarrow> nat \<Rightarrow> nat \<Rightarrow> nat \<Rightarrow> nat option option" where
  "ref_forward s ic cptr1 cptr1_end cptr =
     (if cptr1 < cptr1_end then
        if cptr \<ge> length (cbuf s) then Some None
        else
          case get_char s cptr1_end cptr1 of None \<Rightarrow> None
          | Some (c1, cptr1) \<Rightarrow>
              (case get_char s (length (cbuf s)) cptr of None \<Rightarrow> None
               | Some (c2, cptr) \<Rightarrow>
                   if canon s ic c1 \<noteq> canon s ic c2 then Some None else ref_forward s ic cptr1 cptr1_end cptr)
      else Some (Some cptr))"
  by pat_completeness auto
termination
proof (relation "measure (\<lambda>(s, ic, p, e, q). e - p)", goal_cases)
  case (2 s ic p e q x c1 p' y c2 q')
  then show ?case using get_char_less [of s e p c1 p'] by auto
qed simp

declare ref_forward.simps [simp del]

function ref_backward :: "REExecContext \<Rightarrow> bool \<Rightarrow> nat \<Rightarrow> nat \<Rightarrow> nat \<Rightarrow> nat option option" where
  "ref_backward s ic cptr1 cptr1_start cptr =
     (if cptr1 > cptr1_start then
        if cptr = 0 then Some None
        else
          case get_prev_char s cptr1_start cptr1 of None \<Rightarrow> None
          | Some (c1, cptr1) \<Rightarrow>
              (case get_prev_char s 0 cptr of None \<Rightarrow> None
               | Some (c2, cptr) \<Rightarrow>
                   if canon s ic c1 \<noteq> canon s ic c2 then Some None else ref_backward s ic cptr1 cptr1_start cptr)
      else Some (Some cptr))"
  by pat_completeness auto
termination
proof (relation "measure (\<lambda>(s, ic, p, b, q). p)", goal_cases)
  case (2 s ic p e q x c1 p' y c2 q')
  then show ?case using get_prev_char_less [of s e p c1 p'] by auto
qed simp

declare ref_backward.simps [simp del]

text \<open>The first group of the list with both ends set is compared.\<close>

fun back_ref :: "REExecContext \<Rightarrow> bool \<Rightarrow> bool \<Rightarrow> capval list \<Rightarrow> nat \<Rightarrow> u8 list \<Rightarrow> nat option option" where
  "back_ref s backward ic capture cptr [] = Some (Some cptr)"
| "back_ref s backward ic capture cptr (v # vs) =
     (if unat v \<ge> capture_count s then Some None
      else
        do {
          b \<leftarrow> nth_opt capture (2 * unat v); b \<leftarrow> as_ptr b;
          e \<leftarrow> nth_opt capture (2 * unat v + 1); e \<leftarrow> as_ptr e;
          (case (b, e) of
             (Some b, Some e) \<Rightarrow>
               if backward then ref_backward s ic e b cptr else ref_forward s ic b e cptr
           | _ \<Rightarrow> back_ref s backward ic capture cptr vs)
        })"

subsection \<open>Character ranges\<close>

text \<open>
  The binary search in a table of \<open>n\<close> ranges, read by the function \<open>rd\<close>; the index of the last range is
  unsigned, so that a search below the first range would leave the table.
\<close>

function range_search :: "(nat \<Rightarrow> (u32 \<times> u32) option) \<Rightarrow> u32 \<Rightarrow> nat \<Rightarrow> nat \<Rightarrow> bool option" where
  "range_search rd c idx_min idx_max =
     (if idx_min \<le> idx_max then
        let idx = (idx_min + idx_max) div 2
        in case rd idx of None \<Rightarrow> None
           | Some (low, high) \<Rightarrow>
               if c < low then if idx = 0 then None else range_search rd c idx_min (idx - 1)
               else if c > high then range_search rd c (idx + 1) idx_max
               else Some True
      else Some False)"
  by pat_completeness auto
termination
  by (relation "measure (\<lambda>(rd, c, lo, hi). hi + 1 - lo)") auto

declare range_search.simps [simp del]

definition pair_at :: "(u8 list \<Rightarrow> nat \<Rightarrow> u32 option) \<Rightarrow> nat \<Rightarrow> u8 list \<Rightarrow> nat \<Rightarrow> nat \<Rightarrow> (u32 \<times> u32) option" where
  "pair_at rd w code pc i =
     do { low \<leftarrow> rd code (pc + i * (2 * w)); high \<leftarrow> rd code (pc + i * (2 * w) + w); Some (low, high) }"

text \<open>The table of \<^verbatim>\<open>REOP_range\<close> has 16-bit bounds, where 0xffff as the last one means no bound.\<close>

definition in_range16 :: "u8 list \<Rightarrow> nat \<Rightarrow> nat \<Rightarrow> u32 \<Rightarrow> bool option" where
  "in_range16 code pc n c =
     do {
       low \<leftarrow> get_u16 code pc;
       if c < low then Some False
       else if n = 0 then None
       else
         do {
           high \<leftarrow> get_u16 code (pc + (n - 1) * 4 + 2);
           if c \<ge> 0xffff \<and> high = 0xffff then Some True
           else if c > high then Some False
           else range_search (pair_at get_u16 2 code pc) c 0 (n - 1)
         }
     }"

definition in_range32 :: "u8 list \<Rightarrow> nat \<Rightarrow> nat \<Rightarrow> u32 \<Rightarrow> bool option" where
  "in_range32 code pc n c =
     do {
       low \<leftarrow> get_u32 code pc;
       if c < low then Some False
       else if n = 0 then None
       else
         do {
           high \<leftarrow> get_u32 code (pc + (n - 1) * 8 + 4);
           if c > high then Some False
           else range_search (pair_at get_u32 4 code pc) c 0 (n - 1)
         }
     }"

subsection \<open>The effect of an instruction\<close>

text \<open>
  An instruction is a sequence of uses of the macros of the interpreter, followed by the way it goes on.
  The values are computed from the captures before the instruction: no instruction reads a capture that it
  has changed.
\<close>

datatype REExecStateEnum = RE_EXEC_STATE_SPLIT | RE_EXEC_STATE_LOOKAHEAD | RE_EXEC_STATE_NEGATIVE_LOOKAHEAD

datatype macro =
    CHECK_STACK_SPACE nat
  | SAVE_CAPTURE nat capval
  | SAVE_CAPTURE_CHECK nat capval
  | Push nat nat REExecStateEnum
  | Poll_timeout

datatype outcome =
    Next nat nat
  | No_match
  | Match
  | Lookahead_match
  | Negative_lookahead_match

type_synonym effect = "(macro list \<times> outcome) option"

text \<open>Consume a character that satisfies a test.\<close>

definition test_char :: "REExecContext \<Rightarrow> nat \<Rightarrow> nat \<Rightarrow> (u32 \<Rightarrow> bool option) \<Rightarrow> effect" where
  "test_char s pc cptr test =
     (if cptr \<ge> length (cbuf s) then Some ([], No_match)
      else
        do {
          (c, cptr) \<leftarrow> get_char s (length (cbuf s)) cptr;
          b \<leftarrow> test c;
          Some ([], if b then Next pc cptr else No_match)
        })"

text \<open>The instructions without a character argument compare the position with the end for equality.\<close>

definition op_any :: "REExecContext \<Rightarrow> nat \<Rightarrow> nat \<Rightarrow> (u32 \<Rightarrow> bool) \<Rightarrow> effect" where
  "op_any s pc cptr test =
     (if cptr = length (cbuf s) then Some ([], No_match)
      else
        do {
          (c, cptr) \<leftarrow> get_char s (length (cbuf s)) cptr;
          Some ([], if test c then Next pc cptr else No_match)
        })"

definition op_char :: "REExecContext \<Rightarrow> nat \<Rightarrow> nat \<Rightarrow> bool \<Rightarrow> bool \<Rightarrow> effect" where
  "op_char s pc cptr wide ic =
     do {
       v \<leftarrow> (if wide then get_u32 (bc s) pc else get_u16 (bc s) pc);
       test_char s (if wide then pc + 4 else pc + 2) cptr (\<lambda>c. Some (v = canon s ic c))
     }"

definition op_split :: "REExecContext \<Rightarrow> nat \<Rightarrow> nat \<Rightarrow> bool \<Rightarrow> effect" where
  "op_split s pc cptr next_first =
     do {
       v \<leftarrow> get_u32 (bc s) pc;
       t \<leftarrow> jump (pc + 4) v;
       Some (if next_first then ([Push t cptr RE_EXEC_STATE_SPLIT], Next (pc + 4) cptr)
             else ([Push (pc + 4) cptr RE_EXEC_STATE_SPLIT], Next t cptr))
     }"

definition op_lookahead :: "REExecContext \<Rightarrow> nat \<Rightarrow> nat \<Rightarrow> REExecStateEnum \<Rightarrow> effect" where
  "op_lookahead s pc cptr type =
     do {
       v \<leftarrow> get_u32 (bc s) pc;
       t \<leftarrow> jump (pc + 4) v;
       Some ([Push t cptr type], Next (pc + 4) cptr)
     }"

definition op_goto :: "REExecContext \<Rightarrow> nat \<Rightarrow> nat \<Rightarrow> effect" where
  "op_goto s pc cptr =
     do { v \<leftarrow> get_u32 (bc s) pc; t \<leftarrow> jump (pc + 4) v; Some ([Poll_timeout], Next t cptr) }"

definition op_line_start :: "REExecContext \<Rightarrow> nat \<Rightarrow> nat \<Rightarrow> bool \<Rightarrow> effect" where
  "op_line_start s pc cptr multi =
     (if cptr = 0 then Some ([], Next pc cptr)
      else if \<not> multi then Some ([], No_match)
      else do { (c, _) \<leftarrow> get_prev_char s 0 cptr; Some ([], if is_line_terminator c then Next pc cptr else No_match) })"

definition op_line_end :: "REExecContext \<Rightarrow> nat \<Rightarrow> nat \<Rightarrow> bool \<Rightarrow> effect" where
  "op_line_end s pc cptr multi =
     (if cptr = length (cbuf s) then Some ([], Next pc cptr)
      else if \<not> multi then Some ([], No_match)
      else do { (c, _) \<leftarrow> get_char s (length (cbuf s)) cptr; Some ([], if is_line_terminator c then Next pc cptr else No_match) })"

definition op_save :: "REExecContext \<Rightarrow> nat \<Rightarrow> nat \<Rightarrow> nat \<Rightarrow> effect" where
  "op_save s pc cptr k =
     do {
       v \<leftarrow> nth_opt (bc s) pc;
       if unat v < capture_count s then Some ([SAVE_CAPTURE (2 * unat v + k) (Ptr cptr)], Next (pc + 1) cptr) else None
     }"

definition op_save_reset :: "REExecContext \<Rightarrow> nat \<Rightarrow> nat \<Rightarrow> effect" where
  "op_save_reset s pc cptr =
     do {
       v \<leftarrow> nth_opt (bc s) pc;
       v2 \<leftarrow> nth_opt (bc s) (pc + 1);
       if unat v2 < capture_count s then
         Some (CHECK_STACK_SPACE (unat (2 * (ucast v2 - ucast v + 1) :: u32)) #
                 concat (map (\<lambda>i. [SAVE_CAPTURE (2 * i) Null, SAVE_CAPTURE (2 * i + 1) Null]) [unat v..<unat v2 + 1]),
               Next (pc + 2) cptr)
       else None
     }"

definition op_set :: "REExecContext \<Rightarrow> nat \<Rightarrow> nat \<Rightarrow> effect" where
  "op_set s pc cptr =
     do {
       r \<leftarrow> nth_opt (bc s) pc;
       v \<leftarrow> get_u32 (bc s) (pc + 1);
       Some ([SAVE_CAPTURE_CHECK (2 * capture_count s + unat r) (Cnt v)], Next (pc + 5) cptr)
     }"

text \<open>The counter of a loop register, less one.\<close>

definition dec_counter :: "REExecContext \<Rightarrow> capval list \<Rightarrow> nat \<Rightarrow> u32 option" where
  "dec_counter s capture idx = do { x \<leftarrow> nth_opt capture idx; v \<leftarrow> as_counter x; Some (v - 1) }"

definition op_loop :: "REExecContext \<Rightarrow> nat \<Rightarrow> nat \<Rightarrow> capval list \<Rightarrow> effect" where
  "op_loop s pc cptr capture =
     do {
       r \<leftarrow> nth_opt (bc s) pc;
       v \<leftarrow> get_u32 (bc s) (pc + 1);
       let idx = 2 * capture_count s + unat r;
       v2 \<leftarrow> dec_counter s capture idx;
       if v2 \<noteq> 0 then do { t \<leftarrow> jump (pc + 5) v; Some ([SAVE_CAPTURE_CHECK idx (Cnt v2), Poll_timeout], Next t cptr) }
       else Some ([SAVE_CAPTURE_CHECK idx (Cnt v2)], Next (pc + 5) cptr)
     }"

definition op_loop_split :: "REExecContext \<Rightarrow> nat \<Rightarrow> nat \<Rightarrow> capval list \<Rightarrow> bool \<Rightarrow> bool \<Rightarrow> effect" where
  "op_loop_split s pc cptr capture check_adv next_first =
     do {
       r \<leftarrow> nth_opt (bc s) pc;
       limit \<leftarrow> get_u32 (bc s) (pc + 1);
       v \<leftarrow> get_u32 (bc s) (pc + 5);
       let idx = 2 * capture_count s + unat r;
       v2 \<leftarrow> dec_counter s capture idx;
       let save = SAVE_CAPTURE_CHECK idx (Cnt v2);
       if v2 > limit then do { t \<leftarrow> jump (pc + 9) v; Some ([save, Poll_timeout], Next t cptr) }
       else
         do {
           same \<leftarrow> (if check_adv then do { x \<leftarrow> nth_opt capture (idx + 1); same_pos x cptr } else Some False);
           if same \<and> v2 \<noteq> limit then Some ([save], No_match)
           else if v2 \<noteq> 0 then
             do {
               t \<leftarrow> jump (pc + 9) v;
               Some (if next_first then ([save, Push t cptr RE_EXEC_STATE_SPLIT], Next (pc + 9) cptr)
                     else ([save, Push (pc + 9) cptr RE_EXEC_STATE_SPLIT], Next t cptr))
             }
           else Some ([save], Next (pc + 9) cptr)
         }
     }"

definition op_set_char_pos :: "REExecContext \<Rightarrow> nat \<Rightarrow> nat \<Rightarrow> effect" where
  "op_set_char_pos s pc cptr =
     do { r \<leftarrow> nth_opt (bc s) pc; Some ([SAVE_CAPTURE_CHECK (2 * capture_count s + unat r) (Ptr cptr)], Next (pc + 1) cptr) }"

definition op_check_advance :: "REExecContext \<Rightarrow> nat \<Rightarrow> nat \<Rightarrow> capval list \<Rightarrow> effect" where
  "op_check_advance s pc cptr capture =
     do {
       r \<leftarrow> nth_opt (bc s) pc;
       x \<leftarrow> nth_opt capture (2 * capture_count s + unat r);
       same \<leftarrow> same_pos x cptr;
       Some ([], if same then No_match else Next (pc + 1) cptr)
     }"

definition op_word_boundary :: "REExecContext \<Rightarrow> nat \<Rightarrow> nat \<Rightarrow> bool \<Rightarrow> bool \<Rightarrow> effect" where
  "op_word_boundary s pc cptr ignore_case is_boundary =
     do {
       v1 \<leftarrow> (if cptr = 0 then Some False else do { (c, _) \<leftarrow> get_prev_char s 0 cptr; Some (is_word ignore_case c) });
       v2 \<leftarrow> (if cptr \<ge> length (cbuf s) then Some False
              else do { (c, _) \<leftarrow> get_char s (length (cbuf s)) cptr; Some (is_word ignore_case c) });
       Some ([], if (v1 \<noteq> v2) \<noteq> is_boundary then No_match else Next pc cptr)
     }"

definition op_back_reference :: "REExecContext \<Rightarrow> nat \<Rightarrow> nat \<Rightarrow> capval list \<Rightarrow> bool \<Rightarrow> bool \<Rightarrow> effect" where
  "op_back_reference s pc cptr capture backward ic =
     do {
       n \<leftarrow> nth_opt (bc s) pc;
       _ \<leftarrow> (if pc + 1 + unat n \<le> length (bc s) then Some () else None);
       r \<leftarrow> back_ref s backward ic capture cptr (take (unat n) (drop (pc + 1) (bc s)));
       Some ([], case r of None \<Rightarrow> No_match | Some cptr \<Rightarrow> Next (pc + 1 + unat n) cptr)
     }"

definition op_range :: "REExecContext \<Rightarrow> nat \<Rightarrow> nat \<Rightarrow> bool \<Rightarrow> bool \<Rightarrow> effect" where
  "op_range s pc cptr wide ic =
     do {
       n \<leftarrow> get_u16 (bc s) pc;
       test_char s (pc + 2 + (if wide then 8 else 4) * unat n) cptr
         (\<lambda>c. (if wide then in_range32 else in_range16) (bc s) (pc + 2) (unat n) (canon s ic c))
     }"

definition op_prev :: "REExecContext \<Rightarrow> nat \<Rightarrow> nat \<Rightarrow> effect" where
  "op_prev s pc cptr =
     (if cptr = 0 then Some ([], No_match) else do { (_, cptr) \<leftarrow> get_prev_char s 0 cptr; Some ([], Next pc cptr) })"

text \<open>The switch of the interpreter; \<open>pc\<close> is the address of the opcode.\<close>

definition re_effect :: "REExecContext \<Rightarrow> nat \<Rightarrow> nat \<Rightarrow> capval list \<Rightarrow> effect" where
  "re_effect s pc cptr capture =
     do {
       opcode \<leftarrow> nth_opt (bc s) pc;
       opcode \<leftarrow> nth_opt reop_list (unat opcode);
       let pc = pc + 1;
       case opcode of
         REOP_invalid \<Rightarrow> None
       | REOP_match \<Rightarrow> Some ([], Match)
       | REOP_lookahead_match \<Rightarrow> Some ([], Lookahead_match)
       | REOP_negative_lookahead_match \<Rightarrow> Some ([], Negative_lookahead_match)
       | REOP_char32 \<Rightarrow> op_char s pc cptr True False
       | REOP_char32_i \<Rightarrow> op_char s pc cptr True True
       | REOP_char \<Rightarrow> op_char s pc cptr False False
       | REOP_char_i \<Rightarrow> op_char s pc cptr False True
       | REOP_split_goto_first \<Rightarrow> op_split s pc cptr False
       | REOP_split_next_first \<Rightarrow> op_split s pc cptr True
       | REOP_lookahead \<Rightarrow> op_lookahead s pc cptr RE_EXEC_STATE_LOOKAHEAD
       | REOP_negative_lookahead \<Rightarrow> op_lookahead s pc cptr RE_EXEC_STATE_NEGATIVE_LOOKAHEAD
       | REOP_goto \<Rightarrow> op_goto s pc cptr
       | REOP_line_start \<Rightarrow> op_line_start s pc cptr False
       | REOP_line_start_m \<Rightarrow> op_line_start s pc cptr True
       | REOP_line_end \<Rightarrow> op_line_end s pc cptr False
       | REOP_line_end_m \<Rightarrow> op_line_end s pc cptr True
       | REOP_dot \<Rightarrow> op_any s pc cptr (\<lambda>c. \<not> is_line_terminator c)
       | REOP_any \<Rightarrow> op_any s pc cptr (\<lambda>c. True)
       | REOP_space \<Rightarrow> op_any s pc cptr lre_is_space
       | REOP_not_space \<Rightarrow> op_any s pc cptr (\<lambda>c. \<not> lre_is_space c)
       | REOP_save_start \<Rightarrow> op_save s pc cptr 0
       | REOP_save_end \<Rightarrow> op_save s pc cptr 1
       | REOP_save_reset \<Rightarrow> op_save_reset s pc cptr
       | REOP_set_i32 \<Rightarrow> op_set s pc cptr
       | REOP_loop \<Rightarrow> op_loop s pc cptr capture
       | REOP_loop_split_goto_first \<Rightarrow> op_loop_split s pc cptr capture False False
       | REOP_loop_split_next_first \<Rightarrow> op_loop_split s pc cptr capture False True
       | REOP_loop_check_adv_split_goto_first \<Rightarrow> op_loop_split s pc cptr capture True False
       | REOP_loop_check_adv_split_next_first \<Rightarrow> op_loop_split s pc cptr capture True True
       | REOP_set_char_pos \<Rightarrow> op_set_char_pos s pc cptr
       | REOP_check_advance \<Rightarrow> op_check_advance s pc cptr capture
       | REOP_word_boundary \<Rightarrow> op_word_boundary s pc cptr False True
       | REOP_word_boundary_i \<Rightarrow> op_word_boundary s pc cptr True True
       | REOP_not_word_boundary \<Rightarrow> op_word_boundary s pc cptr False False
       | REOP_not_word_boundary_i \<Rightarrow> op_word_boundary s pc cptr True False
       | REOP_back_reference \<Rightarrow> op_back_reference s pc cptr capture False False
       | REOP_back_reference_i \<Rightarrow> op_back_reference s pc cptr capture False True
       | REOP_backward_back_reference \<Rightarrow> op_back_reference s pc cptr capture True False
       | REOP_backward_back_reference_i \<Rightarrow> op_back_reference s pc cptr capture True True
       | REOP_range \<Rightarrow> op_range s pc cptr False False
       | REOP_range_i \<Rightarrow> op_range s pc cptr False True
       | REOP_range32 \<Rightarrow> op_range s pc cptr True False
       | REOP_range32_i \<Rightarrow> op_range s pc cptr True True
       | REOP_prev \<Rightarrow> op_prev s pc cptr
     }"

end
