(* ===== verification/Regexp_Exec.thy ===== *)
theory Regexp_Exec
  imports Regexp_Code
begin

text \<open>
  The backtracking interpreter of \<^verbatim>\<open>libregexp.c\<close>: the stack with its frames and undo records, the macros,
  the ways an instruction goes on, and \<^verbatim>\<open>lre_exec\<close>. The callbacks \<^verbatim>\<open>lre_realloc\<close> and \<^verbatim>\<open>lre_check_timeout\<close> are
  parameters: from the state of the user they give the new state and whether the memory was obtained, or
  the time is over.
\<close>

subsection \<open>The stack\<close>

text \<open>
  A cell of the stack is a union; here it carries what was stored last, and reading it as something else
  is undefined. A saved state is three cells, its program position, its subject position, and the previous
  \<^verbatim>\<open>bp\<close> with the type; an undo record is two, the index of the capture and its old value. \<open>End\<close> is the
  pointer that \<^verbatim>\<open>REOP_lookahead_match\<close> stores in a popped state.
\<close>

datatype StackElem = Uninit | Pc nat | Cptr nat | Bp nat REExecStateEnum | Idx nat | Saved capval | End nat

record 'm exec_state =
  stack_buf :: "StackElem list"
  sp :: nat
  bp :: nat
  capture :: "capval list"
  interrupt_counter :: int
  opaque :: 'm

text \<open>The result of a run: the value returned, with the captures, or undefined behaviour.\<close>

datatype 'm result = Returned int "'m exec_state" | Undefined

type_synonym 'm callback = "'m \<Rightarrow> 'm \<times> bool"

abbreviation (input) LRE_RET_MEMORY_ERROR :: int where "LRE_RET_MEMORY_ERROR \<equiv> -1"
abbreviation (input) LRE_RET_TIMEOUT :: int where "LRE_RET_TIMEOUT \<equiv> -2"
abbreviation (input) INTERRUPT_COUNTER_INIT :: int where "INTERRUPT_COUNTER_INIT \<equiv> 10000"

definition lre_poll_timeout :: "'m callback \<Rightarrow> 'm exec_state \<Rightarrow> 'm exec_state \<times> bool" where
  "lre_poll_timeout timeout x =
     (let x = x\<lparr>interrupt_counter := interrupt_counter x - 1\<rparr>
      in if interrupt_counter x \<le> 0 then
           let x = x\<lparr>interrupt_counter := INTERRUPT_COUNTER_INIT\<rparr>;
               (u, b) = timeout (opaque x)
           in (x\<lparr>opaque := u\<rparr>, b)
         else (x, False))"

definition stack_realloc :: "('m \<Rightarrow> nat \<Rightarrow> 'm \<times> bool) \<Rightarrow> 'm exec_state \<Rightarrow> nat \<Rightarrow> 'm exec_state \<times> bool" where
  "stack_realloc ra x n =
     (let new_size = length (stack_buf x) * 3 div 2;
          new_size = (if new_size < n then n else new_size);
          (u, ok) = ra (opaque x) (new_size * 8);
          x = x\<lparr>opaque := u\<rparr>
      in if \<not> ok then (x, False)
         else (x\<lparr>stack_buf := stack_buf x @ replicate (new_size - length (stack_buf x)) Uninit\<rparr>, True))"

subsection \<open>Macros\<close>

text \<open>A macro goes on with a state (\<open>Inr\<close>) or ends the run (\<open>Inl\<close>).\<close>

definition check_stack_space :: "('m \<Rightarrow> nat \<Rightarrow> 'm \<times> bool) \<Rightarrow> nat \<Rightarrow> 'm exec_state \<Rightarrow> 'm result + 'm exec_state" where
  "check_stack_space ra n x =
     (if length (stack_buf x) - sp x < n then
        let (x, ok) = stack_realloc ra x (sp x + n)
        in if ok then Inr x else Inl (Returned LRE_RET_MEMORY_ERROR x)
      else Inr x)"

definition push_cells :: "StackElem list \<Rightarrow> 'm exec_state \<Rightarrow> 'm exec_state" where
  "push_cells cs x =
     x\<lparr>stack_buf := foldl (\<lambda>b (i, c). b[sp x + i := c]) (stack_buf x) (enumerate 0 cs), sp := sp x + length cs\<rparr>"

definition save_capture :: "('m \<Rightarrow> nat \<Rightarrow> 'm \<times> bool) \<Rightarrow> nat \<Rightarrow> capval \<Rightarrow> 'm exec_state \<Rightarrow> 'm result + 'm exec_state" where
  "save_capture ra i v x =
     (case check_stack_space ra 2 x of Inl r \<Rightarrow> Inl r
      | Inr x \<Rightarrow>
          if i < length (capture x) then
            let x = push_cells [Idx i, Saved (capture x ! i)] x
            in Inr (x\<lparr>capture := (capture x)[i := v]\<rparr>)
          else Inl Undefined)"

text \<open>Whether an undo record above \<^verbatim>\<open>bp\<close> has the index; \<open>None\<close> when a cell is no index.\<close>

function already_saved :: "StackElem list \<Rightarrow> nat \<Rightarrow> nat \<Rightarrow> nat \<Rightarrow> bool option" where
  "already_saved buf b i sp1 =
     (if sp1 > b then
        if sp1 < 2 then None
        else case buf ! (sp1 - 2) of Idx j \<Rightarrow> if j = i then Some True else already_saved buf b i (sp1 - 2)
             | _ \<Rightarrow> None
      else Some False)"
  by pat_completeness auto
termination
  by (relation "measure (\<lambda>(buf, b, i, sp1). sp1)") auto

declare already_saved.simps [simp del]

definition save_capture_check :: "('m \<Rightarrow> nat \<Rightarrow> 'm \<times> bool) \<Rightarrow> nat \<Rightarrow> capval \<Rightarrow> 'm exec_state \<Rightarrow> 'm result + 'm exec_state" where
  "save_capture_check ra i v x =
     (case already_saved (stack_buf x) (bp x) i (sp x) of None \<Rightarrow> Inl Undefined
      | Some True \<Rightarrow> if i < length (capture x) then Inr (x\<lparr>capture := (capture x)[i := v]\<rparr>) else Inl Undefined
      | Some False \<Rightarrow> save_capture ra i v x)"

definition push_state :: "('m \<Rightarrow> nat \<Rightarrow> 'm \<times> bool) \<Rightarrow> nat \<Rightarrow> nat \<Rightarrow> REExecStateEnum \<Rightarrow> 'm exec_state \<Rightarrow> 'm result + 'm exec_state" where
  "push_state ra pc cptr type x =
     (case check_stack_space ra 3 x of Inl r \<Rightarrow> Inl r
      | Inr x \<Rightarrow> let x = push_cells [Pc pc, Cptr cptr, Bp (bp x) type] x in Inr (x\<lparr>bp := sp x\<rparr>))"

fun do_macro :: "('m \<Rightarrow> nat \<Rightarrow> 'm \<times> bool) \<Rightarrow> 'm callback \<Rightarrow> macro \<Rightarrow> 'm exec_state \<Rightarrow> 'm result + 'm exec_state" where
  "do_macro ra timeout (CHECK_STACK_SPACE n) x = check_stack_space ra n x"
| "do_macro ra timeout (SAVE_CAPTURE i v) x = save_capture ra i v x"
| "do_macro ra timeout (SAVE_CAPTURE_CHECK i v) x = save_capture_check ra i v x"
| "do_macro ra timeout (Push pc cptr type) x = push_state ra pc cptr type x"
| "do_macro ra timeout Poll_timeout x =
     (let (x, b) = lre_poll_timeout timeout x in if b then Inl (Returned LRE_RET_TIMEOUT x) else Inr x)"

fun do_macros :: "('m \<Rightarrow> nat \<Rightarrow> 'm \<times> bool) \<Rightarrow> 'm callback \<Rightarrow> macro list \<Rightarrow> 'm exec_state \<Rightarrow> 'm result + 'm exec_state" where
  "do_macros ra timeout [] x = Inr x"
| "do_macros ra timeout (m # ms) x =
     (case do_macro ra timeout m x of Inl r \<Rightarrow> Inl r | Inr x \<Rightarrow> do_macros ra timeout ms x)"

subsection \<open>Backtracking\<close>

text \<open>Undo the modifications of the captures down to \<^verbatim>\<open>bp\<close>.\<close>

function undo_loop :: "StackElem list \<Rightarrow> nat \<Rightarrow> nat \<Rightarrow> capval list \<Rightarrow> (nat \<times> capval list) option" where
  "undo_loop buf b p cap =
     (if p > b then
        if p < 2 then None
        else case (buf ! (p - 2), buf ! (p - 1)) of
            (Idx i, Saved v) \<Rightarrow> if i < length cap then undo_loop buf b (p - 2) (cap[i := v]) else None
          | _ \<Rightarrow> None
      else Some (p, cap))"
  by pat_completeness auto
termination
  by (relation "measure (\<lambda>(buf, b, p, cap). p)") auto

declare undo_loop.simps [simp del]

text \<open>The saved state below a position: program position, subject position, previous \<^verbatim>\<open>bp\<close> and type.\<close>

definition saved_state :: "StackElem list \<Rightarrow> nat \<Rightarrow> (nat \<times> nat \<times> nat \<times> REExecStateEnum) option" where
  "saved_state buf p =
     (if p < 3 then None
      else case (buf ! (p - 3), buf ! (p - 2), buf ! (p - 1)) of
          (Pc pc, Cptr cptr, Bp b type) \<Rightarrow> Some (pc, cptr, b, type)
        | _ \<Rightarrow> None)"

text \<open>Undo and pop one state; the result is the state, its positions and its type.\<close>

definition pop_state :: "'m exec_state \<Rightarrow> ('m exec_state \<times> nat \<times> nat \<times> REExecStateEnum) option" where
  "pop_state x =
     (case undo_loop (stack_buf x) (bp x) (sp x) (capture x) of None \<Rightarrow> None
      | Some (p, cap) \<Rightarrow>
          (case saved_state (stack_buf x) p of None \<Rightarrow> None
           | Some (pc, cptr, b, type) \<Rightarrow> Some (x\<lparr>sp := p - 3, bp := b, capture := cap\<rparr>, pc, cptr, type)))"

lemma undo_loop_le: "undo_loop buf b p cap = Some (q, cap') \<Longrightarrow> q \<le> p"
proof (induction buf b p cap rule: undo_loop.induct)
  case (1 buf b p cap)
  then show ?case
    by (subst (asm) undo_loop.simps) (fastforce split: if_splits StackElem.splits)
qed

lemma pop_state_less: "pop_state x = Some (x', pc, cptr, type) \<Longrightarrow> sp x' < sp x"
  using undo_loop_le by (fastforce simp: pop_state_def saved_state_def split: option.splits prod.splits if_splits StackElem.splits)

text \<open>The code at \<^verbatim>\<open>no_match\<close>: pop states until one that is not the start of a lookahead.\<close>

type_synonym 'm config = "nat \<times> nat \<times> 'm exec_state"

function no_match :: "'m callback \<Rightarrow> 'm exec_state \<Rightarrow> 'm result + 'm config" where
  "no_match timeout x =
     (if bp x = 0 then Inl (Returned 0 x)
      else
        case pop_state x of None \<Rightarrow> Inl Undefined
        | Some (x, pc, cptr, type) \<Rightarrow>
            if type = RE_EXEC_STATE_LOOKAHEAD then no_match timeout x
            else
              let (x, b) = lre_poll_timeout timeout x
              in if b then Inl (Returned LRE_RET_TIMEOUT x) else Inr (pc, cptr, x))"
  by pat_completeness auto
termination
  by (relation "measure (\<lambda>(timeout, x). sp x)") (auto dest: pop_state_less)

declare no_match.simps [simp del]

subsection \<open>Lookahead\<close>

text \<open>
  The loop of \<^verbatim>\<open>REOP_lookahead_match\<close> that pops the saved states down to the start of the lookahead and
  stores in each the end of its undo records. A link that does not go down would make the loop endless; it
  is the value \<open>None\<close> here.
\<close>

function look_pop :: "StackElem list \<Rightarrow> nat \<Rightarrow> nat \<Rightarrow> (StackElem list \<times> nat \<times> nat \<times> nat \<times> nat) option" where
  "look_pop buf p b =
     (case saved_state buf b of None \<Rightarrow> None
      | Some (pc, cptr, b', type) \<Rightarrow>
          let buf = buf[b - 1 := End p]
          in if type = RE_EXEC_STATE_LOOKAHEAD then Some (buf, b - 3, b', pc, cptr)
             else if b' < b then look_pop buf (b - 3) b'
             else None)"
  by pat_completeness auto
termination
  by (relation "measure (\<lambda>(buf, p, b). b)") auto

declare look_pop.simps [simp del]

text \<open>The copy of the undo records of the popped states, in place and upwards.\<close>

function copy_cells :: "StackElem list \<Rightarrow> nat \<Rightarrow> nat \<Rightarrow> nat \<Rightarrow> StackElem list \<times> nat \<times> nat" where
  "copy_cells buf d q e = (if q < e then copy_cells (buf[d := buf ! q]) (d + 1) (q + 1) e else (buf, d, q))"
  by pat_completeness auto
termination
  by (relation "measure (\<lambda>(buf, d, q, e). e - q)") auto

declare copy_cells.simps [simp del]

lemma copy_cells_ge: "copy_cells buf d q e = (buf', d', q') \<Longrightarrow> q \<le> q'"
proof (induction buf d q e rule: copy_cells.induct)
  case (1 buf d q e)
  then show ?case by (subst (asm) (2) copy_cells.simps) (auto split: if_splits)
qed

function keep_undo :: "StackElem list \<Rightarrow> nat \<Rightarrow> nat \<Rightarrow> nat \<Rightarrow> (StackElem list \<times> nat) option" where
  "keep_undo buf d q sp_top =
     (if q < sp_top then
        case buf ! (q + 2) of
          End e \<Rightarrow> (case copy_cells buf d (q + 3) e of (buf, d, q) \<Rightarrow> keep_undo buf d q sp_top)
        | _ \<Rightarrow> None
      else Some (buf, d))"
  by pat_completeness auto
termination
proof (relation "measure (\<lambda>(buf, d, q, sp_top). sp_top - q)", goal_cases)
  case (2 buf d q sp_top e buf' y d' q')
  then show ?case using copy_cells_ge [of buf d "q + 3" e buf' d' q'] by auto
qed simp

declare keep_undo.simps [simp del]

definition lookahead_match :: "'m exec_state \<Rightarrow> 'm result + 'm config" where
  "lookahead_match x =
     (case look_pop (stack_buf x) (sp x) (bp x) of None \<Rightarrow> Inl Undefined
      | Some (buf, p, b, pc, cptr) \<Rightarrow>
          if p \<noteq> 0 then
            (case keep_undo buf p p (sp x) of None \<Rightarrow> Inl Undefined
             | Some (buf, p) \<Rightarrow> Inr (pc, cptr, x\<lparr>stack_buf := buf, sp := p, bp := b\<rparr>))
          else Inr (pc, cptr, x\<lparr>stack_buf := buf, sp := p, bp := b\<rparr>))"

function negative_lookahead_match :: "'m callback \<Rightarrow> 'm exec_state \<Rightarrow> 'm result + 'm config" where
  "negative_lookahead_match timeout x =
     (case pop_state x of None \<Rightarrow> Inl Undefined
      | Some (x, pc, cptr, type) \<Rightarrow>
          if type = RE_EXEC_STATE_NEGATIVE_LOOKAHEAD then no_match timeout x
          else negative_lookahead_match timeout x)"
  by pat_completeness auto
termination
  by (relation "measure (\<lambda>(timeout, x). sp x)") (auto dest: pop_state_less)

declare negative_lookahead_match.simps [simp del]

subsection \<open>The interpreter\<close>

definition re_step :: "('m \<Rightarrow> nat \<Rightarrow> 'm \<times> bool) \<Rightarrow> 'm callback \<Rightarrow> REExecContext \<Rightarrow> 'm config \<Rightarrow> 'm result + 'm config" where
  "re_step ra timeout s c =
     (case c of (pc, cptr, x) \<Rightarrow>
        case re_effect s pc cptr (capture x) of None \<Rightarrow> Inl Undefined
        | Some (ms, out) \<Rightarrow>
            (case do_macros ra timeout ms x of Inl r \<Rightarrow> Inl r
             | Inr x \<Rightarrow>
                 (case out of
                    Next pc cptr \<Rightarrow> Inr (pc, cptr, x)
                  | No_match \<Rightarrow> no_match timeout x
                  | Match \<Rightarrow> Inl (Returned 1 x)
                  | Lookahead_match \<Rightarrow> lookahead_match x
                  | Negative_lookahead_match \<Rightarrow> negative_lookahead_match timeout x)))"

text \<open>The loop may not end; its number of instructions is bounded by the first argument.\<close>

fun lre_exec_backtrack :: "nat \<Rightarrow> ('m \<Rightarrow> nat \<Rightarrow> 'm \<times> bool) \<Rightarrow> 'm callback \<Rightarrow> REExecContext \<Rightarrow> 'm config \<Rightarrow> 'm result option" where
  "lre_exec_backtrack 0 ra timeout s c = None"
| "lre_exec_backtrack (Suc n) ra timeout s c =
     (case re_step ra timeout s c of Inl r \<Rightarrow> Some r | Inr c \<Rightarrow> lre_exec_backtrack n ra timeout s c)"

definition lre_get_flags :: "u8 list \<Rightarrow> u32 option" where
  "lre_get_flags bc_buf = get_u16 bc_buf 0"

definition lre_get_capture_count :: "u8 list \<Rightarrow> nat option" where
  "lre_get_capture_count bc_buf = map_option unat (nth_opt bc_buf 2)"

definition lre_get_alloc_count :: "u8 list \<Rightarrow> nat option" where
  "lre_get_alloc_count bc_buf = do { n \<leftarrow> nth_opt bc_buf 2; r \<leftarrow> nth_opt bc_buf 3; Some (unat n * 2 + unat r) }"

abbreviation (input) LRE_FLAG_UNICODE :: u32 where "LRE_FLAG_UNICODE \<equiv> 16"
abbreviation (input) LRE_FLAG_UNICODE_SETS :: u32 where "LRE_FLAG_UNICODE_SETS \<equiv> 256"

definition exec_context :: "u8 list \<Rightarrow> u16 list \<Rightarrow> nat \<Rightarrow> REExecContext option" where
  "exec_context bc_buf buf t =
     do {
       re_flags \<leftarrow> lre_get_flags bc_buf;
       n \<leftarrow> nth_opt bc_buf 2;
       let u = (re_flags AND (LRE_FLAG_UNICODE OR LRE_FLAG_UNICODE_SETS) \<noteq> 0);
       Some \<lparr>cbuf = buf, cbuf_type = (if t = 1 \<and> u then 2 else t), capture_count = unat n, is_unicode = u, bc = bc_buf\<rparr>
     }"

text \<open>The start of the match: in the middle of a surrogate pair it moves to the start of the pair.\<close>

definition start_pos :: "REExecContext \<Rightarrow> nat \<Rightarrow> nat" where
  "start_pos s cindex =
     (if 0 < cindex \<and> cindex < length (cbuf s) \<and> cbuf_type s = 2 \<and>
         is_lo_surrogate (ucast (cbuf s ! cindex)) \<and> is_hi_surrogate (ucast (cbuf s ! (cindex - 1)))
      then cindex - 1 else cindex)"

definition exec_init :: "REExecContext \<Rightarrow> capval list \<Rightarrow> 'm \<Rightarrow> 'm exec_state" where
  "exec_init s cap u =
     \<lparr>stack_buf = replicate 32 Uninit, sp = 0, bp = 0,
      capture = replicate (2 * capture_count s) Null @ drop (2 * capture_count s) cap,
      interrupt_counter = INTERRUPT_COUNTER_INIT, opaque = u\<rparr>"

definition lre_exec ::
  "nat \<Rightarrow> ('m \<Rightarrow> nat \<Rightarrow> 'm \<times> bool) \<Rightarrow> 'm callback \<Rightarrow> capval list \<Rightarrow> u8 list \<Rightarrow> u16 list \<Rightarrow> nat \<Rightarrow> nat \<Rightarrow> 'm \<Rightarrow> 'm result option" where
  "lre_exec fuel ra timeout cap bc_buf buf cindex t u =
     (case exec_context bc_buf buf t of None \<Rightarrow> Some Undefined
      | Some s \<Rightarrow>
          if length cap < 2 * capture_count s then Some Undefined
          else
            (case lre_exec_backtrack fuel ra timeout s (8, start_pos s cindex, exec_init s cap u) of
               None \<Rightarrow> None
             | Some Undefined \<Rightarrow> Some Undefined
             | Some (Returned ret x) \<Rightarrow>
                 Some (Returned ret (if length (stack_buf x) \<noteq> 32 then x\<lparr>opaque := fst (ra (opaque x) 0)\<rparr> else x))))"

end
