(* ===== verification/Regexp_Spec.thy ===== *)
theory Regexp_Spec
  imports Regexp_Exec
begin

text \<open>
  The specification of backtracking, and the proof that the interpreter with its undo records implements
  it. The specified machine keeps with every choice point a copy of all captures and registers; it has no
  stack of cells, no undo records and no memory to run out of.
\<close>

subsection \<open>Runs and simulation\<close>

fun run :: "('a \<Rightarrow> 'r + 'a) \<Rightarrow> nat \<Rightarrow> 'a \<Rightarrow> 'r option" where
  "run f 0 a = None"
| "run f (Suc n) a = (case f a of Inl r \<Rightarrow> Some r | Inr a \<Rightarrow> run f n a)"

text \<open>
  A machine \<open>f\<close> follows a machine \<open>g\<close>: from matching states it makes the matching step, unless it stops
  with a result of its own.
\<close>

locale follows =
  fixes f :: "'a \<Rightarrow> 'r + 'a" and g :: "'b \<Rightarrow> 'q + 'b"
    and matching :: "'a \<Rightarrow> 'b \<Rightarrow> bool" and same_result :: "'r \<Rightarrow> 'q \<Rightarrow> bool" and stop :: "'r \<Rightarrow> bool"
  assumes step: "matching a b \<Longrightarrow>
    (case f a of Inl r \<Rightarrow> stop r \<or> (\<exists>q. g b = Inl q \<and> same_result r q) | Inr a' \<Rightarrow> \<exists>b'. g b = Inr b' \<and> matching a' b')"
begin

lemma run_follows:
  "matching a b \<Longrightarrow>
    (case run f n a of Some r \<Rightarrow> stop r \<or> (\<exists>q. run g n b = Some q \<and> same_result r q) | None \<Rightarrow> run g n b = None)"
proof (induction n arbitrary: a b)
  case (Suc n)
  show ?case
  proof (cases "f a")
    case (Inl r)
    then show ?thesis using step [OF Suc(2)] by auto
  next
    case (Inr a')
    then obtain b' where "g b = Inr b'" "matching a' b'" using step [OF Suc(2)] by auto
    then have "run g (Suc n) b = run g n b'" "run f (Suc n) a = run f n a'" using Inr by simp_all
    then show ?thesis using Suc(1) [OF \<open>matching a' b'\<close>] by (simp only:)
  qed
qed simp

end

subsection \<open>The specified machine\<close>

type_synonym choice = "nat \<times> nat \<times> REExecStateEnum \<times> capval list"

record 't spec_state =
  choices :: "choice list"
  caps :: "capval list"
  countdown :: int
  user :: 't

datatype 't spec_result = Spec_returned int "capval list" | Spec_undefined

type_synonym 't spec_config = "nat \<times> nat \<times> 't spec_state"

definition spec_poll :: "'t callback \<Rightarrow> 't spec_state \<Rightarrow> 't spec_state \<times> bool" where
  "spec_poll timeout y =
     (if countdown y - 1 \<le> 0 then
        let (u, b) = timeout (user y) in (y\<lparr>countdown := INTERRUPT_COUNTER_INIT, user := u\<rparr>, b)
      else (y\<lparr>countdown := countdown y - 1\<rparr>, False))"

definition spec_set :: "nat \<Rightarrow> capval \<Rightarrow> 't spec_state \<Rightarrow> 't spec_result + 't spec_state" where
  "spec_set i v y = (if i < length (caps y) then Inr (y\<lparr>caps := (caps y)[i := v]\<rparr>) else Inl Spec_undefined)"

fun spec_macro :: "'t callback \<Rightarrow> macro \<Rightarrow> 't spec_state \<Rightarrow> 't spec_result + 't spec_state" where
  "spec_macro timeout (CHECK_STACK_SPACE n) y = Inr y"
| "spec_macro timeout (SAVE_CAPTURE i v) y = spec_set i v y"
| "spec_macro timeout (SAVE_CAPTURE_CHECK i v) y = spec_set i v y"
| "spec_macro timeout (Push pc cptr type) y = Inr (y\<lparr>choices := (pc, cptr, type, caps y) # choices y\<rparr>)"
| "spec_macro timeout Poll_timeout y =
     (let (y, b) = spec_poll timeout y in if b then Inl (Spec_returned LRE_RET_TIMEOUT (caps y)) else Inr y)"

fun spec_macros :: "'t callback \<Rightarrow> macro list \<Rightarrow> 't spec_state \<Rightarrow> 't spec_result + 't spec_state" where
  "spec_macros timeout [] y = Inr y"
| "spec_macros timeout (m # ms) y =
     (case spec_macro timeout m y of Inl r \<Rightarrow> Inl r | Inr y \<Rightarrow> spec_macros timeout ms y)"

text \<open>Failure goes back to the last choice that is not a lookahead, with the captures it had.\<close>

fun spec_no_match :: "'t callback \<Rightarrow> 't spec_state \<Rightarrow> choice list \<Rightarrow> 't spec_result + 't spec_config" where
  "spec_no_match timeout y [] = Inl (Spec_returned 0 [])"
| "spec_no_match timeout y ((pc, cptr, type, cap) # cs) =
     (if type = RE_EXEC_STATE_LOOKAHEAD then spec_no_match timeout y cs
      else
        let (y, b) = spec_poll timeout (y\<lparr>choices := cs, caps := cap\<rparr>)
        in if b then Inl (Spec_returned LRE_RET_TIMEOUT (caps y)) else Inr (pc, cptr, y))"

text \<open>The end of a lookahead drops the choices made in it and keeps the captures.\<close>

fun spec_lookahead_match :: "'t spec_state \<Rightarrow> choice list \<Rightarrow> 't spec_result + 't spec_config" where
  "spec_lookahead_match y [] = Inl Spec_undefined"
| "spec_lookahead_match y ((pc, cptr, type, cap) # cs) =
     (if type = RE_EXEC_STATE_LOOKAHEAD then Inr (pc, cptr, y\<lparr>choices := cs\<rparr>) else spec_lookahead_match y cs)"

text \<open>The end of a negative lookahead drops the choices made in it and fails.\<close>

fun spec_negative_match :: "'t callback \<Rightarrow> 't spec_state \<Rightarrow> choice list \<Rightarrow> 't spec_result + 't spec_config" where
  "spec_negative_match timeout y [] = Inl Spec_undefined"
| "spec_negative_match timeout y ((pc, cptr, type, cap) # cs) =
     (if type = RE_EXEC_STATE_NEGATIVE_LOOKAHEAD then spec_no_match timeout y cs else spec_negative_match timeout y cs)"

definition spec_step :: "'t callback \<Rightarrow> REExecContext \<Rightarrow> 't spec_config \<Rightarrow> 't spec_result + 't spec_config" where
  "spec_step timeout s c =
     (case c of (pc, cptr, y) \<Rightarrow>
        case re_effect s pc cptr (caps y) of None \<Rightarrow> Inl Spec_undefined
        | Some (ms, out) \<Rightarrow>
            (case spec_macros timeout ms y of Inl r \<Rightarrow> Inl r
             | Inr y \<Rightarrow>
                 (case out of
                    Next pc cptr \<Rightarrow> Inr (pc, cptr, y)
                  | No_match \<Rightarrow> spec_no_match timeout y (choices y)
                  | Match \<Rightarrow> Inl (Spec_returned 1 (caps y))
                  | Lookahead_match \<Rightarrow> spec_lookahead_match y (choices y)
                  | Negative_lookahead_match \<Rightarrow> spec_negative_match timeout y (choices y))))"

subsection \<open>Frames\<close>

text \<open>A saved state with the undo records above it, oldest first; frames are listed from the top.\<close>

type_synonym undo = "(nat \<times> capval) list"
type_synonym frame = "nat \<times> nat \<times> REExecStateEnum \<times> undo"

definition undo_cells :: "undo \<Rightarrow> StackElem list" where
  "undo_cells us = concat (map (\<lambda>(i, v). [Idx i, Saved v]) us)"

fun frame_cells :: "undo \<Rightarrow> frame list \<Rightarrow> StackElem list \<times> nat" where
  "frame_cells us0 [] = (undo_cells us0, 0)"
| "frame_cells us0 ((pc, cptr, type, us) # fs) =
     (let (cs, b) = frame_cells us0 fs in (cs @ [Pc pc, Cptr cptr, Bp b type] @ undo_cells us, length cs + 3))"

definition undo_all :: "undo \<Rightarrow> capval list \<Rightarrow> capval list" where
  "undo_all us cap = foldr (\<lambda>(i, v) c. c[i := v]) us cap"

fun snapshots :: "capval list \<Rightarrow> frame list \<Rightarrow> choice list" where
  "snapshots cap [] = []"
| "snapshots cap ((pc, cptr, type, us) # fs) = (let c = undo_all us cap in (pc, cptr, type, c) # snapshots c fs)"

definition undo_ok :: "nat \<Rightarrow> undo \<Rightarrow> bool" where
  "undo_ok n us \<longleftrightarrow> list_all (\<lambda>(i, v). i < n) us"

lemma undo_cells_simps [simp]: "undo_cells [] = []" "undo_cells ((i, v) # us) = Idx i # Saved v # undo_cells us"
  "undo_cells (us @ vs) = undo_cells us @ undo_cells vs" "length (undo_cells us) = 2 * length us"
  by (simp_all add: undo_cells_def) (induction us, auto)

lemma undo_all_simps [simp]: "undo_all [] cap = cap" "undo_all (us @ vs) cap = undo_all us (undo_all vs cap)" "length (undo_all us cap) = length cap"
  by (simp_all add: undo_all_def) (induction us, auto)

lemma undo_ok_simps [simp]: "undo_ok n []" "undo_ok n (us @ vs) \<longleftrightarrow> undo_ok n us \<and> undo_ok n vs" "undo_ok n [(i, v)] \<longleftrightarrow> i < n"
  by (simp_all add: undo_ok_def)

text \<open>A capture that is already recorded may change again.\<close>

lemma undo_all_recorded: "i \<in> fst ` set us \<Longrightarrow> undo_all us (cap[i := v]) = undo_all us cap"
proof (induction us arbitrary: cap rule: rev_induct)
  case (snoc u us)
  obtain j w where u: "u = (j, w)" by (cases u)
  show ?case
  proof (cases "j = i")
    case True
    then show ?thesis by (simp add: u undo_all_def)
  next
    case False
    then have "i \<in> fst ` set us" using snoc(2) u by auto
    moreover have "cap[i := v, j := w] = cap[j := w, i := v]" using False by (simp add: list_update_swap)
    ultimately show ?thesis using snoc(1) [of "cap[j := w]"] by (simp add: u undo_all_def)
  qed
qed simp

lemma undo_all_last: "i < length cap \<Longrightarrow> undo_all (us @ [(i, cap ! i)]) (cap[i := v]) = undo_all us cap"
  by (simp add: undo_all_def)

subsection \<open>The cells of the stack\<close>

definition stack_is :: "undo \<Rightarrow> frame list \<Rightarrow> 'm exec_state \<Rightarrow> bool" where
  "stack_is us0 fs x \<longleftrightarrow> sp x \<le> length (stack_buf x) \<and> frame_cells us0 fs = (take (sp x) (stack_buf x), bp x)"

definition matching :: "('m \<Rightarrow> 't) \<Rightarrow> 'm exec_state \<Rightarrow> 't spec_state \<Rightarrow> bool" where
  "matching view x y \<longleftrightarrow>
     (\<exists>us0 fs. stack_is us0 fs x \<and> undo_ok (length (capture x)) us0 \<and> list_all (\<lambda>(pc, cptr, type, us). undo_ok (length (capture x)) us) fs \<and>
        choices y = snapshots (capture x) fs) \<and>
     caps y = capture x \<and> countdown y = interrupt_counter x \<and> user y = view (opaque x)"

lemma push_cells_buf:
  assumes "sp x + length cs \<le> length (stack_buf x)"
  shows "sp (push_cells cs x) = sp x + length cs" "length (stack_buf (push_cells cs x)) = length (stack_buf x)"
    "take (sp x + length cs) (stack_buf (push_cells cs x)) = take (sp x) (stack_buf x) @ cs"
    "bp (push_cells cs x) = bp x" "capture (push_cells cs x) = capture x"
    "interrupt_counter (push_cells cs x) = interrupt_counter x" "opaque (push_cells cs x) = opaque x"
proof -
  have "length (foldl (\<lambda>b (i, c). b[sp x + i := c]) buf (enumerate k cs)) = length buf \<and>
    (sp x + k + length cs \<le> length buf \<longrightarrow>
       take (sp x + k + length cs) (foldl (\<lambda>b (i, c). b[sp x + i := c]) buf (enumerate k cs)) = take (sp x + k) buf @ cs)" for buf k
  proof (induction cs arbitrary: buf k)
    case (Cons c cs)
    have "take (sp x + Suc k) (buf[sp x + k := c]) = take (sp x + k) buf @ [c]" if "sp x + k < length buf"
      using that by (simp add: take_Suc_conv_app_nth)
    then show ?case using Cons [of "buf[sp x + k := c]" "Suc k"] by auto
  qed simp
  from this [of "stack_buf x" 0] assms
  show "sp (push_cells cs x) = sp x + length cs" "length (stack_buf (push_cells cs x)) = length (stack_buf x)"
    "take (sp x + length cs) (stack_buf (push_cells cs x)) = take (sp x) (stack_buf x) @ cs"
    by (simp_all add: push_cells_def)
qed (simp_all add: push_cells_def)

lemma check_stack_space_cases:
  assumes "sp x \<le> length (stack_buf x)"
  obtains x' where "check_stack_space ra n x = Inl (Returned LRE_RET_MEMORY_ERROR x')"
  | x' where "check_stack_space ra n x = Inr x'" "sp x' + n \<le> length (stack_buf x')" "sp x' = sp x" "bp x' = bp x" "capture x' = capture x"
      "interrupt_counter x' = interrupt_counter x" "take (sp x') (stack_buf x') = take (sp x) (stack_buf x)"
      "opaque x' = opaque x \<or> (\<exists>k. opaque x' = fst (ra (opaque x) k))"
proof (cases "length (stack_buf x) - sp x < n")
  case False
  then show thesis using assms by (intro that(2)) (auto simp: check_stack_space_def)
next
  case True
  define k where "k = (if length (stack_buf x) * 3 div 2 < sp x + n then sp x + n else length (stack_buf x) * 3 div 2)"
  obtain u ok where r: "ra (opaque x) (k * 8) = (u, ok)" by fastforce
  have k: "sp x + n \<le> k" by (simp add: k_def)
  show thesis
  proof (cases ok)
    case ok: True
    define x' where "x' = x\<lparr>opaque := u, stack_buf := stack_buf x @ replicate (k - length (stack_buf x)) Uninit\<rparr>"
    have "check_stack_space ra n x = Inr x'" using True r ok by (simp add: check_stack_space_def stack_realloc_def Let_def k_def x'_def)
    then show thesis using k assms r by (intro that(2) [of x']) (auto simp: x'_def intro: exI [of _ "k * 8"])
  next
    case False
    then show thesis using True r that(1) by (simp add: check_stack_space_def stack_realloc_def Let_def k_def)
  qed
qed

subsection \<open>The macros follow the specification\<close>

text \<open>The allocation does not show in the part of the user's state that decides on the time.\<close>

definition separate :: "('m \<Rightarrow> nat \<Rightarrow> 'm \<times> bool) \<Rightarrow> 'm callback \<Rightarrow> ('m \<Rightarrow> 't) \<Rightarrow> 't callback \<Rightarrow> bool" where
  "separate ra timeout view t \<longleftrightarrow>
     (\<forall>u n. view (fst (ra u n)) = view u) \<and> (\<forall>u. view (fst (timeout u)) = fst (t (view u)) \<and> snd (timeout u) = snd (t (view u)))"

fun same_result :: "'m result \<Rightarrow> 't spec_result \<Rightarrow> bool" where
  "same_result (Returned ret x) (Spec_returned ret' cap) \<longleftrightarrow> ret = ret' \<and> (ret = 1 \<longrightarrow> capture x = cap)"
| "same_result Undefined Spec_undefined \<longleftrightarrow> True"
| "same_result _ _ \<longleftrightarrow> False"

definition out_of_memory :: "'m result \<Rightarrow> bool" where
  "out_of_memory r \<longleftrightarrow> (\<exists>x. r = Returned LRE_RET_MEMORY_ERROR x)"

text \<open>One result follows another, where \<open>R\<close> relates the states to go on with.\<close>

definition goes :: "('a \<Rightarrow> 'b \<Rightarrow> bool) \<Rightarrow> 'm result + 'a \<Rightarrow> 't spec_result + 'b \<Rightarrow> bool" where
  "goes R p q \<longleftrightarrow>
     (case p of Inl r \<Rightarrow> out_of_memory r \<or> (\<exists>r'. q = Inl r' \<and> same_result r r') | Inr a \<Rightarrow> \<exists>b. q = Inr b \<and> R a b)"

lemma goes_simps [simp]: "goes R (Inr a) (Inr b) \<longleftrightarrow> R a b" "goes R (Inl Undefined) (Inl Spec_undefined)"
  "goes R (Inl (Returned ret x)) (Inl (Spec_returned ret cap)) \<longleftrightarrow> ret = -1 \<or> (ret = 1 \<longrightarrow> capture x = cap)"
  "goes R (Inl (Returned (-1) x)) q"
  by (auto simp: goes_def out_of_memory_def)

lemma matchingI:
  assumes "stack_is us0 fs x" "undo_ok (length (capture x)) us0" "list_all (\<lambda>(pc, cptr, type, us). undo_ok (length (capture x)) us) fs"
    "choices y = snapshots (capture x) fs" "caps y = capture x" "countdown y = interrupt_counter x" "user y = view (opaque x)"
  shows "matching view x y"
  using assms unfolding matching_def by blast

lemma poll_follows:
  assumes "separate ra timeout view t" "matching view x y"
  shows "matching view (fst (lre_poll_timeout timeout x)) (fst (spec_poll t y))" "snd (spec_poll t y) = snd (lre_poll_timeout timeout x)"
proof -
  have u: "user y = view (opaque x)" "countdown y = interrupt_counter x" using assms(2) by (simp_all add: matching_def)
  obtain m b where t: "timeout (opaque x) = (m, b)" by fastforce
  have "fst (t (view (opaque x))) = view (fst (timeout (opaque x)))" "snd (t (view (opaque x))) = snd (timeout (opaque x))"
    using assms(1) by (simp_all add: separate_def)
  then have t': "t (view (opaque x)) = (view m, b)" using t by (simp add: prod_eq_iff)
  show "snd (spec_poll t y) = snd (lre_poll_timeout timeout x)"
    by (simp add: spec_poll_def lre_poll_timeout_def u t t' Let_def)
  show "matching view (fst (lre_poll_timeout timeout x)) (fst (spec_poll t y))"
    using assms(2) by (simp add: spec_poll_def lre_poll_timeout_def u t t' Let_def matching_def stack_is_def)
qed

lemma check_follows:
  assumes "separate ra timeout view t" "matching view x y"
  obtains x' where "check_stack_space ra n x = Inl (Returned LRE_RET_MEMORY_ERROR x')"
  | x' where "check_stack_space ra n x = Inr x'" "matching view x' y" "sp x' + n \<le> length (stack_buf x')"
proof -
  have "sp x \<le> length (stack_buf x)" using assms(2) by (auto simp: matching_def stack_is_def)
  then show thesis
  proof (cases rule: check_stack_space_cases [of x ra n])
    case (1 x')
    then show ?thesis by (rule that(1))
  next
    case (2 x')
    have "view (opaque x') = view (opaque x)" using 2(8) assms(1) by (auto simp: separate_def)
    then have "matching view x' y" using assms(2) 2 by (simp add: matching_def stack_is_def)
    then show ?thesis using that(2) 2 by blast
  qed
qed

text \<open>The undo records above the top saved state.\<close>

definition top_undo :: "undo \<Rightarrow> frame list \<Rightarrow> undo" where
  "top_undo us0 fs = (case fs of [] \<Rightarrow> us0 | (pc, cptr, type, us) # _ \<Rightarrow> us)"

fun add_undo :: "undo \<Rightarrow> frame list \<Rightarrow> undo \<Rightarrow> undo \<times> frame list" where
  "add_undo us0 [] vs = (us0 @ vs, [])"
| "add_undo us0 ((pc, cptr, type, us) # fs) vs = (us0, (pc, cptr, type, us @ vs) # fs)"

lemma frame_cells_top:
  obtains pre where "frame_cells us0 fs = (pre @ undo_cells (top_undo us0 fs), length pre)"
proof (cases fs)
  case Nil
  then show thesis using that [of "[]"] by (simp add: top_undo_def)
next
  case (Cons f gs)
  obtain pc cptr type us where f: "f = (pc, cptr, type, us)" by (cases f)
  obtain cs b where "frame_cells us0 gs = (cs, b)" by fastforce
  then show thesis using that [of "cs @ [Pc pc, Cptr cptr, Bp b type]"] by (simp add: Cons f top_undo_def)
qed

lemma frame_cells_add:
  "frame_cells us0 fs = (cs, b) \<Longrightarrow> add_undo us0 fs vs = (us1, gs) \<Longrightarrow> frame_cells us1 gs = (cs @ undo_cells vs, b)"
  by (cases "(us0, fs)" rule: frame_cells.cases) (auto split: prod.splits)

lemma add_undo_ok:
  assumes "add_undo us0 fs vs = (us1, gs)" "undo_ok n us0" "list_all (\<lambda>(pc, cptr, type, us). undo_ok n us) fs" "undo_ok n vs"
  shows "undo_ok n us1" "list_all (\<lambda>(pc, cptr, type, us). undo_ok n us) gs"
  using assms by (cases "(us0, fs, vs)" rule: add_undo.cases; auto)+

lemma snapshots_add:
  assumes "add_undo us0 fs vs = (us1, gs)" "undo_all vs cap' = cap"
  shows "snapshots cap' gs = snapshots cap fs"
  using assms by (cases "(us0, fs, vs)" rule: add_undo.cases) auto

lemma snapshots_recorded: "fs = [] \<or> i \<in> fst ` set (top_undo us0 fs) \<Longrightarrow> snapshots (cap[i := v]) fs = snapshots cap fs"
  by (cases "(us0, fs)" rule: frame_cells.cases) (auto simp: top_undo_def undo_all_recorded)

lemma matchingE:
  assumes "matching view x y"
  obtains us0 fs where "stack_is us0 fs x" "undo_ok (length (capture x)) us0" "list_all (\<lambda>(pc, cptr, type, us). undo_ok (length (capture x)) us) fs"
    "choices y = snapshots (capture x) fs" "caps y = capture x" "countdown y = interrupt_counter x" "user y = view (opaque x)"
  using assms unfolding matching_def by blast

text \<open>Setting a capture, recorded or with a new record.\<close>

lemma save_follows:
  assumes "separate ra timeout view t" "matching view x y"
  shows "goes (matching view) (save_capture ra i v x) (spec_set i v y)"
proof (cases rule: check_follows [OF assms, of 2])
  case (1 x')
  then show ?thesis by (simp add: save_capture_def)
next
  case (2 x')
  from 2(2) obtain us0 fs where m: "stack_is us0 fs x'" "undo_ok (length (capture x')) us0" "list_all (\<lambda>(pc, cptr, type, us). undo_ok (length (capture x')) us) fs"
    "choices y = snapshots (capture x') fs" "caps y = capture x'" "countdown y = interrupt_counter x'" "user y = view (opaque x')" by (rule matchingE)
  show ?thesis
  proof (cases "i < length (capture x')")
    case True
    define u where "u = [(i, capture x' ! i)]"
    obtain us1 gs where a: "add_undo us0 fs u = (us1, gs)" by fastforce
    define x2 where "x2 = push_cells [Idx i, Saved (capture x' ! i)] x'"
    have "sp x' + length [Idx i, Saved (capture x' ! i)] \<le> length (stack_buf x')" using 2(3) by simp
    note p = push_cells_buf [OF this, folded x2_def]
    have "stack_is us1 gs (x2\<lparr>capture := (capture x')[i := v]\<rparr>)"
      using m(1) p 2(3) frame_cells_add [OF _ a] by (simp add: stack_is_def u_def)
    moreover have "snapshots ((capture x')[i := v]) gs = snapshots (capture x') fs"
      by (rule snapshots_add [OF a]) (use True in \<open>simp add: u_def undo_all_def\<close>)
    ultimately have "matching view (x2\<lparr>capture := (capture x')[i := v]\<rparr>) (y\<lparr>caps := (capture x')[i := v]\<rparr>)"
      using add_undo_ok [OF a m(2,3)] True m p by (intro matchingI [of us1 gs]) (simp_all add: u_def)
    then show ?thesis using True 2(1) m(5) p(5) by (simp add: save_capture_def spec_set_def Let_def x2_def [symmetric])
  next
    case False
    then show ?thesis using 2(1) m(5) by (simp add: save_capture_def spec_set_def)
  qed
qed

lemma already_saved_val:
  "take p buf = pre @ undo_cells us \<Longrightarrow> p = length pre + 2 * length us \<Longrightarrow> p \<le> length buf \<Longrightarrow>
   already_saved buf (length pre) i p = Some (i \<in> fst ` set us)"
proof (induction us arbitrary: p rule: rev_induct)
  case Nil
  then show ?case by (simp add: already_saved.simps)
next
  case (snoc u us)
  obtain j w where u: "u = (j, w)" by (cases u)
  define q where "q = length pre + 2 * length us"
  have p: "p = q + 2" using snoc(3) by (simp add: q_def)
  have t: "take p buf = (pre @ undo_cells us) @ [Idx j, Saved w]" using snoc(2) by (simp add: u)
  have "take q buf = take q (take p buf)" using p by simp
  then have tq: "take q buf = pre @ undo_cells us" unfolding t by (simp add: q_def)
  have "buf ! q = take p buf ! q" using p snoc(4) by simp
  then have "buf ! q = Idx j" unfolding t by (simp add: q_def nth_append)
  then show ?case using snoc(1) [OF tq] snoc(4) p
    unfolding already_saved.simps [of buf "length pre" i p] by (auto simp: q_def u)
qed

lemma save_check_follows:
  assumes "separate ra timeout view t" "matching view x y"
  shows "goes (matching view) (save_capture_check ra i v x) (spec_set i v y)"
proof -
  from assms(2) obtain us0 fs where m: "stack_is us0 fs x" "undo_ok (length (capture x)) us0" "list_all (\<lambda>(pc, cptr, type, us). undo_ok (length (capture x)) us) fs"
    "choices y = snapshots (capture x) fs" "caps y = capture x" "countdown y = interrupt_counter x" "user y = view (opaque x)" by (rule matchingE)
  obtain pre where pre: "frame_cells us0 fs = (pre @ undo_cells (top_undo us0 fs), length pre)" by (rule frame_cells_top)
  then have st: "take (sp x) (stack_buf x) = pre @ undo_cells (top_undo us0 fs)" "bp x = length pre" "sp x \<le> length (stack_buf x)"
    using m(1) by (auto simp: stack_is_def)
  then have "length (take (sp x) (stack_buf x)) = length pre + 2 * length (top_undo us0 fs)" by simp
  then have len: "sp x = length pre + 2 * length (top_undo us0 fs)" using st(3) by simp
  have a: "already_saved (stack_buf x) (bp x) i (sp x) = Some (i \<in> fst ` set (top_undo us0 fs))"
    unfolding st(2) by (rule already_saved_val [OF st(1) len st(3)])
  show ?thesis
  proof (cases "i \<in> fst ` set (top_undo us0 fs)")
    case True
    then have "i < length (capture x)"
      using m(2,3) by (cases fs) (auto simp: top_undo_def undo_ok_def list_all_iff split: prod.splits)
    moreover have "matching view (x\<lparr>capture := (capture x)[i := v]\<rparr>) (y\<lparr>caps := (capture x)[i := v]\<rparr>)"
      using m snapshots_recorded [of fs i us0] True by (intro matchingI [of us0 fs]) (simp_all add: stack_is_def)
    ultimately show ?thesis using a True m(5) by (simp add: save_capture_check_def spec_set_def)
  next
    case False
    then show ?thesis using a save_follows [OF assms] by (simp add: save_capture_check_def)
  qed
qed

lemma push_follows:
  assumes "separate ra timeout view t" "matching view x y"
  shows "goes (matching view) (push_state ra pc cptr type x) (Inr (y\<lparr>choices := (pc, cptr, type, caps y) # choices y\<rparr>))"
proof (cases rule: check_follows [OF assms, of 3])
  case (1 x')
  then show ?thesis by (simp add: push_state_def)
next
  case (2 x')
  from 2(2) obtain us0 fs where m: "stack_is us0 fs x'" "undo_ok (length (capture x')) us0" "list_all (\<lambda>(pc, cptr, type, us). undo_ok (length (capture x')) us) fs"
    "choices y = snapshots (capture x') fs" "caps y = capture x'" "countdown y = interrupt_counter x'" "user y = view (opaque x')" by (rule matchingE)
  define x2 where "x2 = push_cells [Pc pc, Cptr cptr, Bp (bp x') type] x'"
  have "sp x' + length [Pc pc, Cptr cptr, Bp (bp x') type] \<le> length (stack_buf x')" using 2(3) by simp
  note p = push_cells_buf [OF this, folded x2_def]
  have "stack_is us0 ((pc, cptr, type, []) # fs) (x2\<lparr>bp := sp x2\<rparr>)" using m(1) p 2(3) by (simp add: stack_is_def)
  then have "matching view (x2\<lparr>bp := sp x2\<rparr>) (y\<lparr>choices := (pc, cptr, type, caps y) # choices y\<rparr>)"
    using m p by (intro matchingI [of us0 "(pc, cptr, type, []) # fs"]) (simp_all add: Let_def)
  then show ?thesis using 2(1) by (simp add: push_state_def Let_def x2_def [symmetric])
qed

lemma macro_follows:
  assumes "separate ra timeout view t" "matching view x y"
  shows "goes (matching view) (do_macro ra timeout k x) (spec_macro t k y)"
proof (cases k)
  case (CHECK_STACK_SPACE n)
  then show ?thesis by (cases rule: check_follows [OF assms, of n]) auto
next
  case Poll_timeout
  then show ?thesis using poll_follows [OF assms] by (auto simp: Let_def split: prod.splits)
qed (use save_follows [OF assms] save_check_follows [OF assms] push_follows [OF assms] in auto)

lemma macros_follow:
  assumes "separate ra timeout view t"
  shows "matching view x y \<Longrightarrow> goes (matching view) (do_macros ra timeout ks x) (spec_macros t ks y)"
proof (induction ks arbitrary: x y)
  case (Cons k ks)
  show ?case
  proof (cases "do_macro ra timeout k x")
    case (Inl r)
    then show ?thesis using macro_follows [OF assms Cons(2), of k] by (auto simp: goes_def)
  next
    case (Inr x')
    then obtain y' where "spec_macro t k y = Inr y'" "matching view x' y'" using macro_follows [OF assms Cons(2), of k] by (auto simp: goes_def)
    then show ?thesis using Cons(1) Inr by simp
  qed
qed simp

subsection \<open>Backtracking follows the specification\<close>

fun cfg :: "('m \<Rightarrow> 't) \<Rightarrow> 'm config \<Rightarrow> 't spec_config \<Rightarrow> bool" where
  "cfg view (pc, cptr, x) (pc', cptr', y) \<longleftrightarrow> pc = pc' \<and> cptr = cptr' \<and> matching view x y"

lemma take_cells:
  assumes "take p buf = cs @ ds" "p \<le> length buf" "q = length cs"
  shows "take q buf = cs" "q \<le> p" "i < length ds \<Longrightarrow> buf ! (q + i) = ds ! i"
proof -
  have l: "length (take p buf) = length cs + length ds" using assms(1) by simp
  then show q: "q \<le> p" using assms(2,3) by simp
  have "take q buf = take q (take p buf)" using q by simp
  then show "take q buf = cs" using assms(1,3) by simp
  have "buf ! (q + i) = take p buf ! (q + i)" if "i < length ds" using that l assms(2,3) by simp
  then show "i < length ds \<Longrightarrow> buf ! (q + i) = ds ! i" using assms(1,3) by simp
qed

lemma undo_loop_val:
  "take p buf = pre @ undo_cells us \<Longrightarrow> p = length pre + 2 * length us \<Longrightarrow> p \<le> length buf \<Longrightarrow> undo_ok (length cap) us \<Longrightarrow>
   undo_loop buf (length pre) p cap = Some (length pre, undo_all us cap)"
proof (induction us arbitrary: p cap rule: rev_induct)
  case Nil
  then show ?case by (simp add: undo_loop.simps)
next
  case (snoc u us)
  obtain j w where u: "u = (j, w)" by (cases u)
  define q where "q = length pre + 2 * length us"
  have p: "p = q + 2" using snoc(3) by (simp add: q_def)
  have t: "take p buf = (pre @ undo_cells us) @ [Idx j, Saved w]" using snoc(2) by (simp add: u)
  note tk = take_cells [OF t snoc(4), of q]
  have cells: "take q buf = pre @ undo_cells us" "buf ! q = Idx j" "buf ! Suc q = Saved w"
    using tk(1) tk(3) [of 0] tk(3) [of 1] by (simp_all add: q_def)
  have ok: "undo_ok (length cap) us" "j < length cap" using snoc(5) by (simp_all add: u)
  have ih: "undo_loop buf (length pre) q (cap[j := w]) = Some (length pre, undo_all us (cap[j := w]))"
    using snoc(1) [OF cells(1), of "cap[j := w]"] ok snoc(4) p by (simp add: q_def)
  have a: "undo_all [(j, w)] cap = cap[j := w]" by (simp add: undo_all_def)
  show ?case unfolding undo_loop.simps [of buf "length pre" p] using cells ok ih p by (simp add: u q_def a)
qed

lemma pop_frame:
  assumes "stack_is us0 ((pc, cptr, type, us) # fs) x" "undo_ok (length (capture x)) us"
  obtains x' where "pop_state x = Some (x', pc, cptr, type)" "stack_is us0 fs x'" "capture x' = undo_all us (capture x)"
    "interrupt_counter x' = interrupt_counter x" "opaque x' = opaque x"
proof -
  obtain cs b where c: "frame_cells us0 fs = (cs, b)" by fastforce
  then have t: "take (sp x) (stack_buf x) = cs @ ([Pc pc, Cptr cptr, Bp b type] @ undo_cells us)" and b: "bp x = length cs + 3"
    and l: "sp x \<le> length (stack_buf x)" using assms(1) by (auto simp: stack_is_def)
  have t2: "take (sp x) (stack_buf x) = (cs @ [Pc pc, Cptr cptr, Bp b type]) @ undo_cells us" using t by simp
  have "length (take (sp x) (stack_buf x)) = length cs + 3 + 2 * length us" unfolding t by simp
  then have spx: "sp x = length (cs @ [Pc pc, Cptr cptr, Bp b type]) + 2 * length us" using l by simp
  have un: "undo_loop (stack_buf x) (bp x) (sp x) (capture x) = Some (length cs + 3, undo_all us (capture x))"
    using undo_loop_val [OF t2 spx l assms(2)] b by (simp add: numeral_3_eq_3)
  note tk = take_cells [OF t l refl]
  have "saved_state (stack_buf x) (length cs + 3) = Some (pc, cptr, b, type)"
    using tk(3) [of 0] tk(3) [of 1] tk(3) [of 2] by (simp add: saved_state_def)
  then have "pop_state x = Some (x\<lparr>sp := length cs, bp := b, capture := undo_all us (capture x)\<rparr>, pc, cptr, type)"
    by (simp add: pop_state_def un)
  moreover have "stack_is us0 fs (x\<lparr>sp := length cs, bp := b, capture := undo_all us (capture x)\<rparr>)"
    using tk(1,2) c l by (simp add: stack_is_def)
  ultimately show thesis using that by simp
qed

lemma no_match_follows:
  assumes "separate ra timeout view t"
  shows "stack_is us0 fs x \<Longrightarrow> undo_ok (length (capture x)) us0 \<Longrightarrow> list_all (\<lambda>(pc, cptr, type, us). undo_ok (length (capture x)) us) fs \<Longrightarrow>
    countdown y = interrupt_counter x \<Longrightarrow> user y = view (opaque x) \<Longrightarrow>
    goes (cfg view) (no_match timeout x) (spec_no_match t y (snapshots (capture x) fs))"
proof (induction fs arbitrary: x)
  case Nil
  then show ?case by (simp add: no_match.simps stack_is_def)
next
  case (Cons f fs)
  obtain pc cptr type us where f: "f = (pc, cptr, type, us)" by (cases f)
  have us: "undo_ok (length (capture x)) us" using Cons(4) by (simp add: f)
  obtain x' where p: "pop_state x = Some (x', pc, cptr, type)" "stack_is us0 fs x'" "capture x' = undo_all us (capture x)"
    "interrupt_counter x' = interrupt_counter x" "opaque x' = opaque x" by (rule pop_frame [OF Cons(2) [unfolded f] us])
  have b: "bp x \<noteq> 0" using Cons(2) by (auto simp: stack_is_def f split: prod.splits)
  show ?case
  proof (cases "type = RE_EXEC_STATE_LOOKAHEAD")
    case True
    have "goes (cfg view) (no_match timeout x') (spec_no_match t y (snapshots (capture x') fs))"
      using Cons(3-) p by (intro Cons(1)) (simp_all add: f)
    then show ?thesis using True p b by (simp add: no_match.simps [of timeout x] f Let_def)
  next
    case False
    define y' where "y' = y\<lparr>choices := snapshots (capture x') fs, caps := capture x'\<rparr>"
    have "matching view x' y'" using Cons(3-) p by (intro matchingI [of us0 fs]) (simp_all add: y'_def f)
    note pf = poll_follows [OF assms this]
    show ?thesis using False p b pf unfolding no_match.simps [of timeout x]
      by (auto simp: f Let_def y'_def [symmetric] p(3) [symmetric] split: prod.splits)
  qed
qed

lemma pop_bottom:
  assumes "stack_is us0 [] x" "undo_ok (length (capture x)) us0"
  shows "pop_state x = None"
proof -
  have t: "take (sp x) (stack_buf x) = [] @ undo_cells us0" "bp x = 0" "sp x \<le> length (stack_buf x)" using assms(1) by (auto simp: stack_is_def)
  have "length (take (sp x) (stack_buf x)) = 2 * length us0" unfolding t(1) by simp
  then have "sp x = length [] + 2 * length us0" using t(3) by simp
  from undo_loop_val [OF t(1) this t(3) assms(2)] show ?thesis using t(2) by (simp add: pop_state_def saved_state_def)
qed

lemma negative_match_follows:
  assumes "separate ra timeout view t"
  shows "stack_is us0 fs x \<Longrightarrow> undo_ok (length (capture x)) us0 \<Longrightarrow> list_all (\<lambda>(pc, cptr, type, us). undo_ok (length (capture x)) us) fs \<Longrightarrow>
    countdown y = interrupt_counter x \<Longrightarrow> user y = view (opaque x) \<Longrightarrow>
    goes (cfg view) (negative_lookahead_match timeout x) (spec_negative_match t y (snapshots (capture x) fs))"
proof (induction fs arbitrary: x)
  case Nil
  then show ?case by (simp add: negative_lookahead_match.simps pop_bottom)
next
  case (Cons f fs)
  obtain pc cptr type us where f: "f = (pc, cptr, type, us)" by (cases f)
  have us: "undo_ok (length (capture x)) us" using Cons(4) by (simp add: f)
  obtain x' where p: "pop_state x = Some (x', pc, cptr, type)" "stack_is us0 fs x'" "capture x' = undo_all us (capture x)"
    "interrupt_counter x' = interrupt_counter x" "opaque x' = opaque x" by (rule pop_frame [OF Cons(2) [unfolded f] us])
  have "goes (cfg view) (no_match timeout x') (spec_no_match t y (snapshots (capture x') fs))"
    using Cons(3-) p by (intro no_match_follows [OF assms]) (simp_all add: f)
  moreover have "goes (cfg view) (negative_lookahead_match timeout x') (spec_negative_match t y (snapshots (capture x') fs))"
    using Cons(3-) p by (intro Cons(1)) (simp_all add: f)
  ultimately show ?case using p by (simp add: negative_lookahead_match.simps [of timeout x] f Let_def)
qed

subsection \<open>The end of a lookahead follows the specification\<close>

lemma bp_le: "frame_cells us0 fs = (cs, b) \<Longrightarrow> b \<le> length cs"
  by (cases "(us0, fs)" rule: frame_cells.cases) (auto split: prod.splits)

text \<open>The popped states, from the bottom, with the ends of their undo records.\<close>

fun seg_cells :: "nat \<Rightarrow> frame list \<Rightarrow> StackElem list" where
  "seg_cells q [] = []"
| "seg_cells q ((pc, cptr, type, us) # gs) =
     [Pc pc, Cptr cptr, End (q + 3 + 2 * length us)] @ undo_cells us @ seg_cells (q + 3 + 2 * length us) gs"

lemma seg_cells_append: "seg_cells q (xs @ ys) = seg_cells q xs @ seg_cells (q + length (seg_cells q xs)) ys"
  by (induction q xs rule: seg_cells.induct) (auto simp: algebra_simps numeral_3_eq_3)

lemma frame_at:
  assumes "take p buf = cs @ [Pc pc, Cptr cptr, Bp b type] @ undo_cells us" "p \<le> length buf"
  shows "saved_state buf (length cs + 3) = Some (pc, cptr, b, type)" "p = length cs + 3 + 2 * length us"
proof -
  note tk = take_cells [OF assms refl]
  show "saved_state buf (length cs + 3) = Some (pc, cptr, b, type)"
    using tk(3) [of 0] tk(3) [of 1] tk(3) [of 2] by (simp add: saved_state_def)
  have "length (take p buf) = length cs + 3 + 2 * length us" unfolding assms(1) by simp
  then show "p = length cs + 3 + 2 * length us" using assms(2) by simp
qed

lemma frame_end:
  assumes "take p buf = cs @ [Pc pc, Cptr cptr, Bp b type] @ undo_cells us" "p \<le> length buf" "buf' = buf[length cs + 2 := End e]"
  shows "take p buf' = cs @ [Pc pc, Cptr cptr, End e] @ undo_cells us" "take (length cs) buf' = cs"
    "take (p - length cs) (drop (length cs) buf') = [Pc pc, Cptr cptr, End e] @ undo_cells us"
proof -
  have "take p buf' = (take p buf)[length cs + 2 := End e]" by (simp add: take_update_swap assms(3))
  also have "\<dots> = cs @ [Pc pc, Cptr cptr, End e] @ undo_cells us" unfolding assms(1) by (simp add: list_update_append numeral_2_eq_2)
  finally show t: "take p buf' = cs @ [Pc pc, Cptr cptr, End e] @ undo_cells us" .
  have "p \<le> length buf'" using assms(2,3) by simp
  from take_cells(1) [OF t this refl] show "take (length cs) buf' = cs" .
  have "take (p - length cs) (drop (length cs) buf') = drop (length cs) (take p buf')" by (simp add: drop_take)
  then show "take (p - length cs) (drop (length cs) buf') = [Pc pc, Cptr cptr, End e] @ undo_cells us" unfolding t by simp
qed

definition no_look :: "frame list \<Rightarrow> bool" where
  "no_look fs \<longleftrightarrow> list_all (\<lambda>(pc, cptr, type, us). type \<noteq> RE_EXEC_STATE_LOOKAHEAD) fs"

lemma look_pop_step:
  assumes "frame_cells us0 ((pc, cptr, type, us) # fs) = (take p buf, b)" "p \<le> length buf" "frame_cells us0 fs = (cs, b')"
  shows "look_pop buf p b = (if type = RE_EXEC_STATE_LOOKAHEAD then Some (buf[length cs + 2 := End p], length cs, b', pc, cptr)
    else look_pop (buf[length cs + 2 := End p]) (length cs) b')"
proof -
  have t: "take p buf = cs @ [Pc pc, Cptr cptr, Bp b' type] @ undo_cells us" "b = length cs + 3" using assms(1,3) by auto
  note fr = frame_at [OF t(1) assms(2)]
  have "b' < b" using bp_le [OF assms(3)] t(2) by simp
  moreover have "b - 1 = length cs + 2" "b - 3 = length cs" using t(2) by simp_all
  ultimately show ?thesis unfolding look_pop.simps [of buf p b] using fr(1) [folded t(2)] by (simp add: Let_def)
qed

lemma look_pop_none:
  "no_look fs \<Longrightarrow> frame_cells us0 fs = (take p buf, b) \<Longrightarrow> p \<le> length buf \<Longrightarrow> look_pop buf p b = None"
proof (induction fs arbitrary: buf p b)
  case Nil
  then show ?case by (simp add: look_pop.simps saved_state_def)
next
  case (Cons f fs)
  obtain pc cptr type us where f: "f = (pc, cptr, type, us)" by (cases f)
  obtain cs b' where c: "frame_cells us0 fs = (cs, b')" by fastforce
  have t: "take p buf = cs @ [Pc pc, Cptr cptr, Bp b' type] @ undo_cells us" using Cons(3) c by (simp add: f)
  note fr = frame_at [OF t Cons(4)]
  have "look_pop (buf[length cs + 2 := End p]) (length cs) b' = None"
    using Cons(2) c fr(2) frame_end(2) [OF t Cons(4) refl] Cons(4) by (intro Cons(1)) (simp_all add: no_look_def)
  then show ?case using look_pop_step [OF Cons(3) [unfolded f] Cons(4) c] Cons(2) by (simp add: no_look_def f)
qed

lemma look_pop_some:
  assumes "frame_cells us0 fs' = (cs, b')"
  shows "no_look gs \<Longrightarrow> frame_cells us0 (gs @ (pc, cptr, RE_EXEC_STATE_LOOKAHEAD, us) # fs') = (take p buf, b) \<Longrightarrow> p \<le> length buf \<Longrightarrow>
    \<exists>buf'. look_pop buf p b = Some (buf', length cs, b', pc, cptr) \<and> length buf' = length buf \<and> drop p buf' = drop p buf \<and>
      take p buf' = cs @ seg_cells (length cs) ((pc, cptr, RE_EXEC_STATE_LOOKAHEAD, us) # rev gs)"
proof (induction gs arbitrary: buf p b)
  case Nil
  have t: "take p buf = cs @ [Pc pc, Cptr cptr, Bp b' RE_EXEC_STATE_LOOKAHEAD] @ undo_cells us" using Nil(2) assms by simp
  note fr = frame_at [OF t Nil(3)]
  have "take p (buf[length cs + 2 := End p]) = cs @ [Pc pc, Cptr cptr, End p] @ undo_cells us"
    by (rule frame_end(1) [OF t Nil(3) refl])
  then show ?case using look_pop_step [OF Nil(2) [unfolded append_Nil] Nil(3) assms] fr(2) by simp
next
  case (Cons g gs)
  obtain pc1 cptr1 type1 us1 where g: "g = (pc1, cptr1, type1, us1)" by (cases g)
  define F where "F = (pc, cptr, RE_EXEC_STATE_LOOKAHEAD, us)"
  obtain ds b1 where d: "frame_cells us0 (gs @ F # fs') = (ds, b1)" by fastforce
  have fc: "frame_cells us0 ((pc1, cptr1, type1, us1) # gs @ F # fs') = (take p buf, b)" using Cons(3) by (simp add: g F_def)
  have t: "take p buf = ds @ [Pc pc1, Cptr cptr1, Bp b1 type1] @ undo_cells us1" using fc d by simp
  note fr = frame_at [OF t Cons(4)]
  define buf1 where "buf1 = buf[length ds + 2 := End p]"
  note fe = frame_end [OF t Cons(4) buf1_def]
  have "no_look gs" "type1 \<noteq> RE_EXEC_STATE_LOOKAHEAD" using Cons(2) by (simp_all add: no_look_def g)
  then obtain buf' where b': "look_pop buf1 (length ds) b1 = Some (buf', length cs, b', pc, cptr)" "length buf' = length buf1"
      "drop (length ds) buf' = drop (length ds) buf1" "take (length ds) buf' = cs @ seg_cells (length cs) (F # rev gs)"
    using Cons(1) [of "length ds" buf1 b1] d fr(2) fe(2) Cons(4) by (auto simp: buf1_def F_def)
  have "look_pop buf p b = Some (buf', length cs, b', pc, cptr)"
    using look_pop_step [OF fc Cons(4) d] b'(1) \<open>type1 \<noteq> _\<close> by (simp add: buf1_def)
  moreover have "length buf' = length buf" using b'(2) by (simp add: buf1_def)
  moreover have "drop p buf' = drop p buf"
  proof -
    have "drop p buf' = drop (p - length ds) (drop (length ds) buf')" using fr(2) by (simp add: ac_simps)
    also have "\<dots> = drop p buf1" unfolding b'(3) using fr(2) by (simp add: ac_simps)
    finally show ?thesis using fr(2) by (simp add: buf1_def)
  qed
  moreover have "take p buf' = cs @ seg_cells (length cs) (F # rev (g # gs))"
  proof -
    have "take p buf' = take (length ds) buf' @ take (p - length ds) (drop (length ds) buf')"
      using fr(2) by (metis le_add1 le_add_diff_inverse take_add add.assoc)
    also have "take (p - length ds) (drop (length ds) buf') = [Pc pc1, Cptr cptr1, End p] @ undo_cells us1"
      unfolding b'(3) by (rule fe(3))
    finally have e: "take p buf' = cs @ seg_cells (length cs) (F # rev gs) @ [Pc pc1, Cptr cptr1, End p] @ undo_cells us1" using b'(4) by simp
    have "length ds = length (take (length ds) buf')" using b'(2) fr(2) Cons(4) by (simp add: buf1_def)
    then have "length ds = length cs + length (seg_cells (length cs) (F # rev gs))" unfolding b'(4) by simp
    then have "p = length cs + length (seg_cells (length cs) (F # rev gs)) + 3 + 2 * length us1" using fr(2) by simp
    then have "seg_cells (length cs + length (seg_cells (length cs) (F # rev gs))) [g] = [Pc pc1, Cptr cptr1, End p] @ undo_cells us1"
      by (simp add: g)
    then have "seg_cells (length cs) ((F # rev gs) @ [g]) = seg_cells (length cs) (F # rev gs) @ [Pc pc1, Cptr cptr1, End p] @ undo_cells us1"
      by (simp only: seg_cells_append)
    then show ?thesis using e by simp
  qed
  ultimately show ?case by (auto simp: F_def)
qed

lemma copy_cells_val:
  "d \<le> q \<Longrightarrow> q \<le> e \<Longrightarrow> e \<le> length buf \<Longrightarrow>
   \<exists>buf'. copy_cells buf d q e = (buf', d + (e - q), e) \<and> length buf' = length buf \<and> drop e buf' = drop e buf \<and>
     take (d + (e - q)) buf' = take d buf @ take (e - q) (drop q buf)"
proof (induction buf d q e rule: copy_cells.induct)
  case (1 buf d q e)
  show ?case
  proof (cases "q < e")
    case True
    define buf1 where "buf1 = buf[d := buf ! q]"
    obtain buf' where b': "copy_cells buf1 (d + 1) (q + 1) e = (buf', d + 1 + (e - (q + 1)), e)" "length buf' = length buf1"
      "drop e buf' = drop e buf1" "take (d + 1 + (e - (q + 1))) buf' = take (d + 1) buf1 @ take (e - (q + 1)) (drop (q + 1) buf1)"
      using 1(1) [OF True] 1(2-4) True unfolding buf1_def [symmetric] by (auto simp: buf1_def)
    have k: "d + 1 + (e - (q + 1)) = d + (e - q)" using True by simp
    have "take (d + 1) buf1 = take d buf @ [buf ! q]" using 1(2,4) True by (simp add: buf1_def take_Suc_conv_app_nth)
    moreover have "drop (q + 1) buf1 = drop (q + 1) buf" using 1(2) by (simp add: buf1_def)
    moreover have "take (e - q) (drop q buf) = buf ! q # take (e - (q + 1)) (drop (q + 1) buf)"
      using True 1(4) by (subst Cons_nth_drop_Suc [symmetric]) (auto simp: take_Cons' Suc_diff_Suc)
    ultimately have "take (d + (e - q)) buf' = take d buf @ take (e - q) (drop q buf)" using b'(4) by (simp only: k append_assoc append_Cons append_Nil)
    moreover have "copy_cells buf d q e = (buf', d + (e - q), e)" using b'(1) True k by (simp add: copy_cells.simps [of buf d] buf1_def)
    ultimately show ?thesis using b'(2,3) 1(2) True by (simp add: buf1_def)
  next
    case False
    then show ?thesis using 1(3) by (simp add: copy_cells.simps)
  qed
qed

definition all_undo :: "frame list \<Rightarrow> undo" where
  "all_undo gs = concat (map (\<lambda>(pc, cptr, type, us). us) gs)"

lemma all_undo_simps [simp]: "all_undo [] = []" "all_undo ((pc, cptr, type, us) # gs) = us @ all_undo gs"
  by (simp_all add: all_undo_def)

lemma keep_undo_val:
  "take (p - q) (drop q buf) = seg_cells q gs \<Longrightarrow> d \<le> q \<Longrightarrow> q \<le> p \<Longrightarrow> p \<le> length buf \<Longrightarrow>
   \<exists>buf' d'. keep_undo buf d q p = Some (buf', d') \<and> length buf' = length buf \<and> d' \<le> p \<and>
     take d' buf' = take d buf @ undo_cells (all_undo gs)"
proof (induction gs arbitrary: buf d q)
  case Nil
  then have "p = q" by auto
  then show ?case using Nil by (simp add: keep_undo.simps)
next
  case (Cons g gs)
  obtain pc cptr type us where g: "g = (pc, cptr, type, us)" by (cases g)
  define e where "e = q + 3 + 2 * length us"
  have t: "take (p - q) (drop q buf) = [Pc pc, Cptr cptr, End e] @ undo_cells us @ seg_cells e gs" using Cons(2) by (simp add: g e_def)
  from arg_cong [OF t, of length] have ge: "p - q \<ge> 3 + 2 * length us" using Cons(5) by simp
  then have ep: "e \<le> p" using Cons(4) by (simp add: e_def)
  have "buf ! (q + 2) = take (p - q) (drop q buf) ! 2" using ge Cons(5) by simp
  then have c: "buf ! (q + 2) = End e" unfolding t by simp
  have un: "take (e - (q + 3)) (drop (q + 3) buf) = undo_cells us"
  proof -
    have "drop 3 (take (p - q) (drop q buf)) = take (p - q - 3) (drop (q + 3) buf)" by (simp add: drop_take add.commute)
    then have "take (p - q - 3) (drop (q + 3) buf) = undo_cells us @ seg_cells e gs" unfolding t by simp
    from arg_cong [OF this, of "take (2 * length us)"] have "take (min (2 * length us) (p - q - 3)) (drop (q + 3) buf) = undo_cells us" by simp
    moreover have "min (2 * length us) (p - q - 3) = e - (q + 3)" using ge by (simp add: e_def)
    ultimately show ?thesis by simp
  qed
  have rest: "take (p - e) (drop e buf) = seg_cells e gs"
  proof -
    have "drop (e - q) (take (p - q) (drop q buf)) = take (p - q - (e - q)) (drop (e - q + q) buf)" by (simp add: drop_take)
    moreover have "p - q - (e - q) = p - e" "e - q + q = e" using ep by (simp_all add: e_def)
    ultimately have "take (p - e) (drop e buf) = drop (e - q) (take (p - q) (drop q buf))" by simp
    also have "e - q = 3 + 2 * length us" by (simp add: e_def)
    finally show ?thesis unfolding t by (simp add: numeral_3_eq_3)
  qed
  obtain buf1 where b1: "copy_cells buf d (q + 3) e = (buf1, d + (e - (q + 3)), e)" "length buf1 = length buf" "drop e buf1 = drop e buf"
    "take (d + (e - (q + 3))) buf1 = take d buf @ take (e - (q + 3)) (drop (q + 3) buf)"
    using copy_cells_val [of d "q + 3" e buf] Cons(3,5) ep by (auto simp: e_def)
  define d1 where "d1 = d + (e - (q + 3))"
  obtain buf' d' where b': "keep_undo buf1 d1 e p = Some (buf', d')" "length buf' = length buf1" "d' \<le> p"
    "take d' buf' = take d1 buf1 @ undo_cells (all_undo gs)"
    using Cons(1) [of e buf1 d1] rest ep Cons(3,5) b1(2,3) by (auto simp: d1_def e_def)
  have "q < p" using ge by simp
  then have "keep_undo buf d q p = Some (buf', d')" using c b1(1) b'(1) by (simp add: keep_undo.simps [of buf d q] d1_def)
  then show ?case using b' b1(2,4) un by (simp add: g d1_def)
qed

lemma snapshots_lookahead:
  assumes "no_look gs"
  shows "snapshots cap (gs @ (pc, cptr, RE_EXEC_STATE_LOOKAHEAD, us) # fs) = snapshots cap gs @
      (pc, cptr, RE_EXEC_STATE_LOOKAHEAD, undo_all us (undo_all (all_undo (rev gs)) cap)) # snapshots (undo_all us (undo_all (all_undo (rev gs)) cap)) fs"
    "spec_lookahead_match y (snapshots cap (gs @ (pc, cptr, RE_EXEC_STATE_LOOKAHEAD, us) # fs)) =
      Inr (pc, cptr, y\<lparr>choices := snapshots (undo_all (all_undo ((pc, cptr, RE_EXEC_STATE_LOOKAHEAD, us) # rev gs)) cap) fs\<rparr>)"
proof -
  show "snapshots cap (gs @ (pc, cptr, RE_EXEC_STATE_LOOKAHEAD, us) # fs) = snapshots cap gs @
      (pc, cptr, RE_EXEC_STATE_LOOKAHEAD, undo_all us (undo_all (all_undo (rev gs)) cap)) # snapshots (undo_all us (undo_all (all_undo (rev gs)) cap)) fs"
    by (induction gs arbitrary: cap) (auto simp: all_undo_def Let_def)
  show "spec_lookahead_match y (snapshots cap (gs @ (pc, cptr, RE_EXEC_STATE_LOOKAHEAD, us) # fs)) =
      Inr (pc, cptr, y\<lparr>choices := snapshots (undo_all (all_undo ((pc, cptr, RE_EXEC_STATE_LOOKAHEAD, us) # rev gs)) cap) fs\<rparr>)"
    using assms by (induction gs arbitrary: cap) (auto simp: all_undo_def Let_def no_look_def)
qed

lemma spec_lookahead_none: "no_look fs \<Longrightarrow> spec_lookahead_match y (snapshots cap fs) = Inl Spec_undefined"
  by (induction fs arbitrary: cap) (auto simp: no_look_def Let_def)

lemma last_lookahead:
  obtains "no_look fs" | gs pc cptr us fs' where "no_look gs" "fs = gs @ (pc, cptr, RE_EXEC_STATE_LOOKAHEAD, us) # fs'"
proof (cases "no_look fs")
  case False
  then have "\<exists>f \<in> set fs. fst (snd (snd f)) = RE_EXEC_STATE_LOOKAHEAD" by (force simp: no_look_def list_all_iff)
  from split_list_first_propE [OF this] obtain gs f fs' where
    f: "fs = gs @ f # fs'" "fst (snd (snd f)) = RE_EXEC_STATE_LOOKAHEAD" "\<forall>g \<in> set gs. fst (snd (snd g)) \<noteq> RE_EXEC_STATE_LOOKAHEAD" by blast
  obtain pc cptr us where "f = (pc, cptr, RE_EXEC_STATE_LOOKAHEAD, us)" using f(2) by (cases f) auto
  moreover have "no_look gs" using f(3) by (auto simp: no_look_def list_all_iff)
  ultimately show thesis using that(2) f(1) by blast
qed (rule that(1))

lemma all_undo_ok: "list_all (\<lambda>(pc, cptr, type, us). undo_ok n us) gs \<Longrightarrow> undo_ok n (all_undo gs)"
  by (induction gs) (auto simp: all_undo_def)

lemma no_cells: "frame_cells us0 fs = ([], b) \<Longrightarrow> us0 = [] \<and> fs = [] \<and> b = 0"
proof (cases "(us0, fs)" rule: frame_cells.cases)
  case (1 us)
  assume "frame_cells us0 fs = ([], b)"
  moreover from this have "length (undo_cells us0) = 0" using 1 by simp
  ultimately show ?thesis using 1 by simp
qed (auto split: prod.splits)

lemma lookahead_match_follows:
  assumes "matching view x y"
  shows "goes (cfg view) (lookahead_match x) (spec_lookahead_match y (choices y))"
proof -
  define n where "n = length (capture x)"
  from assms obtain us0 fs where m: "stack_is us0 fs x" "undo_ok (length (capture x)) us0" "list_all (\<lambda>(pc, cptr, type, us). undo_ok (length (capture x)) us) fs"
    "choices y = snapshots (capture x) fs" "caps y = capture x" "countdown y = interrupt_counter x" "user y = view (opaque x)" by (rule matchingE)
  have st: "frame_cells us0 fs = (take (sp x) (stack_buf x), bp x)" "sp x \<le> length (stack_buf x)" using m(1) by (simp_all add: stack_is_def)
  show ?thesis
  proof (cases rule: last_lookahead [of fs])
    case 1
    then show ?thesis unfolding m(4) spec_lookahead_none [OF 1] using look_pop_none [OF 1 st] by (simp add: lookahead_match_def)
  next
    case (2 gs pc cptr us fs')
    define hs where "hs = (pc, cptr, RE_EXEC_STATE_LOOKAHEAD, us) # rev gs"
    obtain cs b' where c: "frame_cells us0 fs' = (cs, b')" by fastforce
    obtain buf where buf: "look_pop (stack_buf x) (sp x) (bp x) = Some (buf, length cs, b', pc, cptr)" "length buf = length (stack_buf x)"
      "take (sp x) buf = cs @ seg_cells (length cs) hs"
      using look_pop_some [OF c 2(1) st(1) [unfolded 2(2)] st(2)] by (auto simp: hs_def)
    have len: "sp x \<le> length buf" using st(2) buf(2) by simp
    note tk = take_cells [OF buf(3) len refl]
    have seg: "take (sp x - length cs) (drop (length cs) buf) = seg_cells (length cs) hs"
      using buf(3) by (simp add: take_drop [symmetric] drop_take [symmetric])
    have spec: "spec_lookahead_match y (choices y) = Inr (pc, cptr, y\<lparr>choices := snapshots (undo_all (all_undo hs) (capture x)) fs'\<rparr>)"
      using snapshots_lookahead(2) [OF 2(1)] m(4) 2(2) by (simp add: hs_def)
    have ok: "list_all (\<lambda>(pc, cptr, type, us). undo_ok (length (capture x)) us) hs" "list_all (\<lambda>(pc, cptr, type, us). undo_ok (length (capture x)) us) fs'"
      using m(3) by (simp_all add: 2(2) hs_def)
    show ?thesis
    proof (cases "length cs = 0")
      case True
      then have z: "us0 = []" "fs' = []" "b' = 0" using no_cells [of us0 fs' b'] c by auto
      have "matching view (x\<lparr>stack_buf := buf, sp := 0, bp := 0\<rparr>) (y\<lparr>choices := []\<rparr>)"
        using m by (intro matchingI [of "[]" "[]"]) (simp_all add: stack_is_def)
      then show ?thesis using buf(1) True z spec by (simp add: lookahead_match_def)
    next
      case False
      obtain buf' d' where k: "keep_undo buf (length cs) (length cs) (sp x) = Some (buf', d')" "length buf' = length buf" "d' \<le> sp x"
        "take d' buf' = take (length cs) buf @ undo_cells (all_undo hs)"
        using keep_undo_val [OF seg order_refl tk(2) len] by blast
      obtain us1 fs1 where a: "add_undo us0 fs' (all_undo hs) = (us1, fs1)" by fastforce
      have "stack_is us1 fs1 (x\<lparr>stack_buf := buf', sp := d', bp := b'\<rparr>)"
        using frame_cells_add [OF c a] k tk(1) len by (simp add: stack_is_def)
      moreover have "snapshots (capture x) fs1 = snapshots (undo_all (all_undo hs) (capture x)) fs'"
        by (rule snapshots_add [OF a refl])
      ultimately have "matching view (x\<lparr>stack_buf := buf', sp := d', bp := b'\<rparr>) (y\<lparr>choices := snapshots (undo_all (all_undo hs) (capture x)) fs'\<rparr>)"
        using add_undo_ok [OF a m(2) ok(2) all_undo_ok [OF ok(1)]] m by (intro matchingI [of us1 fs1]) simp_all
      then show ?thesis using buf(1) False k(1) spec by (simp add: lookahead_match_def)
    qed
  qed
qed

subsection \<open>The interpreter follows the specification\<close>

lemma step_follows:
  assumes "separate ra timeout view t" "cfg view c d"
  shows "goes (cfg view) (re_step ra timeout s c) (spec_step t s d)"
proof -
  obtain pc cptr x y where cd: "c = (pc, cptr, x)" "d = (pc, cptr, y)" and m: "matching view x y"
    using assms(2) by (cases c; cases d) auto
  have cap: "caps y = capture x" using m by (simp add: matching_def)
  show ?thesis
  proof (cases "re_effect s pc cptr (capture x)")
    case None
    then show ?thesis by (simp add: re_step_def spec_step_def cd cap)
  next
    case (Some e)
    obtain ms out where e: "e = (ms, out)" by (cases e)
    note mf = macros_follow [OF assms(1) m, of ms]
    show ?thesis
    proof (cases "do_macros ra timeout ms x")
      case (Inl r)
      then show ?thesis using mf Some by (auto simp: re_step_def spec_step_def cd cap e goes_def)
    next
      case (Inr x')
      then obtain y' where y': "spec_macros t ms y = Inr y'" and m': "matching view x' y'" using mf by (auto simp: goes_def)
      from m' obtain us0 fs where f: "stack_is us0 fs x'" "undo_ok (length (capture x')) us0" "list_all (\<lambda>(pc, cptr, type, us). undo_ok (length (capture x')) us) fs"
        "choices y' = snapshots (capture x') fs" "caps y' = capture x'" "countdown y' = interrupt_counter x'" "user y' = view (opaque x')" by (rule matchingE)
      note nm = no_match_follows [OF assms(1) f(1-3,6,7)] negative_match_follows [OF assms(1) f(1-3,6,7)] lookahead_match_follows [OF m']
      have "re_step ra timeout s c = (case out of Next pc cptr \<Rightarrow> Inr (pc, cptr, x') | No_match \<Rightarrow> no_match timeout x'
          | Match \<Rightarrow> Inl (Returned 1 x') | Lookahead_match \<Rightarrow> lookahead_match x' | Negative_lookahead_match \<Rightarrow> negative_lookahead_match timeout x')"
        "spec_step t s d = (case out of Next pc cptr \<Rightarrow> Inr (pc, cptr, y') | No_match \<Rightarrow> spec_no_match t y' (choices y')
          | Match \<Rightarrow> Inl (Spec_returned 1 (caps y')) | Lookahead_match \<Rightarrow> spec_lookahead_match y' (choices y')
          | Negative_lookahead_match \<Rightarrow> spec_negative_match t y' (choices y'))"
        using Some Inr y' by (simp_all add: re_step_def spec_step_def cd cap e)
      then show ?thesis using nm m' f(4,5) by (cases out) simp_all
    qed
  qed
qed

interpretation backtrack: follows "re_step ra timeout s" "spec_step t s" "\<lambda>c d. separate ra timeout view t \<and> cfg view c d" same_result out_of_memory
  for ra timeout s t view
proof
  fix a b
  assume "separate ra timeout view t \<and> cfg view a b"
  then show "case re_step ra timeout s a of
      Inl r \<Rightarrow> out_of_memory r \<or> (\<exists>q. spec_step t s b = Inl q \<and> same_result r q)
    | Inr a' \<Rightarrow> \<exists>b'. spec_step t s b = Inr b' \<and> separate ra timeout view t \<and> cfg view a' b'"
    using step_follows [of ra timeout view t a b s] by (auto simp: goes_def split: sum.splits)
qed

lemma lre_exec_backtrack_run: "lre_exec_backtrack n ra timeout s c = run (re_step ra timeout s) n c"
  by (induction n arbitrary: c) (auto split: sum.splits)

text \<open>The specified search: all captures unset, no choices.\<close>

definition spec_exec :: "nat \<Rightarrow> 't callback \<Rightarrow> capval list \<Rightarrow> u8 list \<Rightarrow> u16 list \<Rightarrow> nat \<Rightarrow> nat \<Rightarrow> 't \<Rightarrow> 't spec_result option" where
  "spec_exec fuel timeout cap bc_buf buf cindex t u =
     (case exec_context bc_buf buf t of None \<Rightarrow> Some Spec_undefined
      | Some s \<Rightarrow>
          if length cap < 2 * capture_count s then Some Spec_undefined
          else run (spec_step timeout s) fuel
            (8, start_pos s cindex,
             \<lparr>choices = [], caps = replicate (2 * capture_count s) Null @ drop (2 * capture_count s) cap,
              countdown = INTERRUPT_COUNTER_INIT, user = u\<rparr>))"

lemma init_matches:
  "matching view (exec_init s cap u) \<lparr>choices = [], caps = replicate (2 * capture_count s) Null @ drop (2 * capture_count s) cap,
     countdown = INTERRUPT_COUNTER_INIT, user = view u\<rparr>"
  by (intro matchingI [of "[]" "[]"]) (simp_all add: stack_is_def exec_init_def)

lemma same_result_opaque [simp]: "same_result (Returned ret (x\<lparr>opaque := u\<rparr>)) q \<longleftrightarrow> same_result (Returned ret x) q"
  by (cases q) auto

lemma lre_exec_follows:
  assumes "separate ra timeout view tm"
  shows "case lre_exec fuel ra timeout cap bc_buf buf cindex t u of
      None \<Rightarrow> spec_exec fuel tm cap bc_buf buf cindex t (view u) = None
    | Some r \<Rightarrow> out_of_memory r \<or> (\<exists>q. spec_exec fuel tm cap bc_buf buf cindex t (view u) = Some q \<and> same_result r q)"
proof (cases "exec_context bc_buf buf t")
  case None
  then show ?thesis by (simp add: lre_exec_def spec_exec_def)
next
  case (Some s)
  let ?d = "(8, start_pos s cindex, \<lparr>choices = [], caps = replicate (2 * capture_count s) Null @ drop (2 * capture_count s) cap,
     countdown = INTERRUPT_COUNTER_INIT, user = view u\<rparr>)"
  have "cfg view (8, start_pos s cindex, exec_init s cap u) ?d" by (simp add: init_matches)
  from backtrack.run_follows [OF conjI [OF assms this], of s fuel] Some show ?thesis
    by (auto simp: lre_exec_def spec_exec_def lre_exec_backtrack_run out_of_memory_def same_result.simps split: option.splits result.splits spec_result.splits)
qed

text \<open>
  C36. The interpreter implements the specification. With the same fuel, \<^verbatim>\<open>lre_exec\<close> stops with a memory
  error, or it does what the machine with full copies of the captures does: the same value, the same captures
  after a match, undefined behaviour or no end at the same time. The allocator may not influence the
  timeout callback.
\<close>

theorem lre_exec_refines:
  assumes "separate ra timeout view tm"
  shows "case lre_exec fuel ra timeout cap bc_buf buf cindex t u of
      None \<Rightarrow> spec_exec fuel tm cap bc_buf buf cindex t (view u) = None
    | Some r \<Rightarrow> out_of_memory r \<or> (\<exists>q. spec_exec fuel tm cap bc_buf buf cindex t (view u) = Some q \<and> same_result r q)"
  using assms by (rule lre_exec_follows)

text \<open>
  The program of \<^verbatim>\<open>/(?=(a))a/y\<close> on the subject \<^verbatim>\<open>a\<close>, with an allocator that has no memory and without timeout. Both
  groups match the whole subject.
\<close>

definition lookahead_code :: "u8 list" where
  "lookahead_code = [32, 0, 2, 0, 21, 0, 0, 0, 19, 0, 40, 8, 0, 0, 0, 19, 1, 1, 97, 0, 20, 1, 17, 1, 97, 0, 20, 0, 16]"

lemma lookahead_code_run:
  "\<exists>x. lre_exec 20 (\<lambda>u n. (u, False)) (\<lambda>u. (u, False)) (replicate 4 Null) lookahead_code [97] 0 0 () = Some (Returned 1 x) \<and>
     capture x = [Ptr 0, Ptr 1, Ptr 0, Ptr 1]"
proof -
  define r where "r = lre_exec 20 (\<lambda>u n. (u, False)) (\<lambda>u. (u, False)) (replicate 4 Null) lookahead_code [97] 0 0 ()"
  have "(case r of Some (Returned ret x) \<Rightarrow> ret = 1 \<and> capture x = [Ptr 0, Ptr 1, Ptr 0, Ptr 1] | _ \<Rightarrow> False)"
    unfolding r_def by code_simp
  then show ?thesis unfolding r_def [symmetric] by (auto split: option.splits result.splits)
qed

lemma lre_exec_refines_witness:
  "separate (\<lambda>(u :: unit) n. (u, False)) (\<lambda>u. (u, False)) (\<lambda>u. ()) (\<lambda>u. (u, False)) \<and>
   spec_exec 20 (\<lambda>u. (u, False)) (replicate 4 Null) lookahead_code [97] 0 0 () = Some (Spec_returned 1 [Ptr 0, Ptr 1, Ptr 0, Ptr 1])"
proof -
  have sep: "separate (\<lambda>(u :: unit) n. (u, False)) (\<lambda>u. (u, False)) (\<lambda>u. ()) (\<lambda>u. (u, False))" by (simp add: separate_def)
  obtain x where e: "lre_exec 20 (\<lambda>u n. (u, False)) (\<lambda>u. (u, False)) (replicate 4 Null) lookahead_code [97] 0 0 () = Some (Returned 1 x)"
    "capture x = [Ptr 0, Ptr 1, Ptr 0, Ptr 1]" using lookahead_code_run by blast
  obtain q where q: "spec_exec 20 (\<lambda>u. (u, False)) (replicate 4 Null) lookahead_code [97] 0 0 () = Some q" "same_result (Returned 1 x) q"
    using lre_exec_refines [OF sep, of 20 "replicate 4 Null" lookahead_code "[97]" 0 0 "()"] unfolding e(1) by (auto simp: out_of_memory_def)
  then have "q = Spec_returned 1 (capture x)" by (cases q) auto
  then show ?thesis using sep q(1) e(2) by simp
qed

end
