(* ===== verification/Regexp_Safe.thy ===== *)
theory Regexp_Safe
  imports Regexp_Spec
begin

text \<open>
  A checker for byte code of regular expressions and the proof that checked code is executed without
  undefined behaviour: every read stays in the code, the subject and the captures, registers are used with
  one kind of value and not before they are set, and every end of a lookahead finds its start. The checker
  takes a certificate, the lookaheads around each instruction with the registers set before it, in the way
  of a lightweight byte code verifier.
\<close>

subsection \<open>Tables of character ranges\<close>

definition ranges_ok :: "(u32 \<times> u32) list \<Rightarrow> bool" where
  "ranges_ok ts \<longleftrightarrow> list_all (\<lambda>r. fst r \<le> snd r) ts \<and> sorted_wrt (\<lambda>r r'. snd r < fst r') ts"

definition range_table :: "(u8 list \<Rightarrow> nat \<Rightarrow> u32 option) \<Rightarrow> nat \<Rightarrow> u8 list \<Rightarrow> nat \<Rightarrow> nat \<Rightarrow> (u32 \<times> u32) list option" where
  "range_table rd w code pc n = those (map (pair_at rd w code pc) [0..<n])"

definition in_ranges :: "u32 \<Rightarrow> (u32 \<times> u32) list \<Rightarrow> bool" where
  "in_ranges c ts \<longleftrightarrow> list_ex (\<lambda>r. fst r \<le> c \<and> c \<le> snd r) ts"

lemma those_some: "those xs = Some ys \<Longrightarrow> length ys = length xs \<and> (\<forall>i < length xs. xs ! i = Some (ys ! i))"
  by (induction xs arbitrary: ys) (auto split: option.splits simp: nth_Cons')

lemma range_table_nth:
  assumes "range_table rd w code pc n = Some ts"
  shows "length ts = n" "i < n \<Longrightarrow> pair_at rd w code pc i = Some (ts ! i)"
  using those_some [OF assms [unfolded range_table_def]] by simp_all

lemma pair_at_some: "pair_at rd w code pc i = Some p \<Longrightarrow> rd code (pc + i * (2 * w)) = Some (fst p) \<and> rd code (pc + i * (2 * w) + w) = Some (snd p)"
  by (auto simp: pair_at_def split: bind_splits)

lemma ranges_order:
  assumes "ranges_ok ts" "j < length ts"
  shows "fst (ts ! j) \<le> snd (ts ! j)" "i < j \<Longrightarrow> snd (ts ! i) < fst (ts ! j)"
  using assms by (simp_all add: ranges_ok_def list_all_length sorted_wrt_iff_nth_less)

lemma ranges_mono:
  assumes "ranges_ok ts" "j < length ts" "i \<le> j"
  shows "fst (ts ! i) \<le> fst (ts ! j)" "snd (ts ! i) \<le> snd (ts ! j)"
proof -
  have "i = j \<or> fst (ts ! i) \<le> snd (ts ! i) \<and> snd (ts ! i) < fst (ts ! j) \<and> fst (ts ! j) \<le> snd (ts ! j)"
    using ranges_order [OF assms(1)] assms(2,3) by (cases "i = j") auto
  then show "fst (ts ! i) \<le> fst (ts ! j)" "snd (ts ! i) \<le> snd (ts ! j)" by auto
qed

lemma range_search_val:
  assumes "ranges_ok ts" "\<And>i. i < length ts \<Longrightarrow> rd i = Some (ts ! i)" "fst (ts ! 0) \<le> c"
  shows "idx_max < length ts \<Longrightarrow>
    range_search rd c idx_min idx_max = Some (\<exists>i. idx_min \<le> i \<and> i \<le> idx_max \<and> fst (ts ! i) \<le> c \<and> c \<le> snd (ts ! i))"
proof (induction "idx_max + 1 - idx_min" arbitrary: idx_min idx_max rule: less_induct)
  case less
  show ?case
  proof (cases "idx_min \<le> idx_max")
    case True
    define idx where "idx = (idx_min + idx_max) div 2"
    have b: "idx_min \<le> idx" "idx \<le> idx_max" using True by (simp_all add: idx_def)
    obtain low high where p: "ts ! idx = (low, high)" by fastforce
    have rd: "rd idx = Some (low, high)" using assms(2) [of idx] b less(2) p by simp
    consider "c < low" | "\<not> c < low" "high < c" | "low \<le> c" "c \<le> high" by fastforce
    then show ?thesis
    proof cases
      case 1
      then have z: "idx \<noteq> 0" using assms(3) p by (intro notI) auto
      have out: "\<not> fst (ts ! i) \<le> c" if "idx \<le> i" "i \<le> idx_max" for i
        using ranges_mono(1) [OF assms(1), of i idx] that 1 less(2) p by auto
      have "range_search rd c idx_min idx_max = range_search rd c idx_min (idx - 1)"
        using True rd 1 z by (subst range_search.simps) (simp add: Let_def idx_def [symmetric])
      also have "\<dots> = Some (\<exists>i. idx_min \<le> i \<and> i \<le> idx - 1 \<and> fst (ts ! i) \<le> c \<and> c \<le> snd (ts ! i))"
        using b z less(2) by (intro less(1)) auto
      also have "(\<exists>i. idx_min \<le> i \<and> i \<le> idx - 1 \<and> fst (ts ! i) \<le> c \<and> c \<le> snd (ts ! i)) \<longleftrightarrow>
          (\<exists>i. idx_min \<le> i \<and> i \<le> idx_max \<and> fst (ts ! i) \<le> c \<and> c \<le> snd (ts ! i))"
      proof (intro iff_exI)
        show "idx_min \<le> i \<and> i \<le> idx - 1 \<and> fst (ts ! i) \<le> c \<and> c \<le> snd (ts ! i) \<longleftrightarrow>
            idx_min \<le> i \<and> i \<le> idx_max \<and> fst (ts ! i) \<le> c \<and> c \<le> snd (ts ! i)" for i
          using out [of i] b z by (cases "idx \<le> i") auto
      qed
      finally show ?thesis .
    next
      case 2
      have out: "\<not> c \<le> snd (ts ! i)" if "idx_min \<le> i" "i \<le> idx" for i
        using ranges_mono(2) [OF assms(1), of idx i] that 2 p b less(2) by auto
      have "range_search rd c idx_min idx_max = range_search rd c (idx + 1) idx_max"
        using True rd 2 by (subst range_search.simps) (simp add: Let_def idx_def [symmetric])
      also have "\<dots> = Some (\<exists>i. idx + 1 \<le> i \<and> i \<le> idx_max \<and> fst (ts ! i) \<le> c \<and> c \<le> snd (ts ! i))"
        using b less(2) by (intro less(1)) auto
      also have "(\<exists>i. idx + 1 \<le> i \<and> i \<le> idx_max \<and> fst (ts ! i) \<le> c \<and> c \<le> snd (ts ! i)) \<longleftrightarrow>
          (\<exists>i. idx_min \<le> i \<and> i \<le> idx_max \<and> fst (ts ! i) \<le> c \<and> c \<le> snd (ts ! i))"
      proof (intro iff_exI)
        show "idx + 1 \<le> i \<and> i \<le> idx_max \<and> fst (ts ! i) \<le> c \<and> c \<le> snd (ts ! i) \<longleftrightarrow>
            idx_min \<le> i \<and> i \<le> idx_max \<and> fst (ts ! i) \<le> c \<and> c \<le> snd (ts ! i)" for i
          using out [of i] b by (cases "i \<le> idx") auto
      qed
      finally show ?thesis .
    next
      case 3
      then have "\<exists>i. idx_min \<le> i \<and> i \<le> idx_max \<and> fst (ts ! i) \<le> c \<and> c \<le> snd (ts ! i)" using b p by (intro exI [of _ idx]) simp
      moreover have "range_search rd c idx_min idx_max = Some True"
        using True rd 3 [THEN leD] by (subst range_search.simps) (simp add: Let_def idx_def [symmetric])
      ultimately show ?thesis by simp
    qed
  qed (subst range_search.simps, auto)
qed

lemma in_ranges_nth: "in_ranges c ts \<longleftrightarrow> (\<exists>i < length ts. fst (ts ! i) \<le> c \<and> c \<le> snd (ts ! i))"
  by (simp add: in_ranges_def list_ex_length)

lemma above_all:
  assumes "ranges_ok ts" "ts \<noteq> []"
  shows "snd (ts ! (length ts - 1)) < c \<Longrightarrow> \<not> in_ranges c ts" "c < fst (ts ! 0) \<Longrightarrow> \<not> in_ranges c ts"
proof -
  have "fst (ts ! 0) \<le> fst (ts ! i) \<and> snd (ts ! i) \<le> snd (ts ! (length ts - 1))" if "i < length ts" for i
    using ranges_mono(1) [OF assms(1) that, of 0] ranges_mono(2) [OF assms(1), of "length ts - 1" i] that by simp
  then show "snd (ts ! (length ts - 1)) < c \<Longrightarrow> \<not> in_ranges c ts" "c < fst (ts ! 0) \<Longrightarrow> \<not> in_ranges c ts"
    by (force simp: in_ranges_nth)+
qed

lemma range_search_all:
  assumes "range_table rd w code pc n = Some ts" "ranges_ok ts" "0 < n" "fst (ts ! 0) \<le> c"
  shows "range_search (pair_at rd w code pc) c 0 (n - 1) = Some (in_ranges c ts)"
proof -
  note nt = range_table_nth [OF assms(1)]
  have "range_search (pair_at rd w code pc) c 0 (n - 1) = Some (\<exists>i. 0 \<le> i \<and> i \<le> n - 1 \<and> fst (ts ! i) \<le> c \<and> c \<le> snd (ts ! i))"
    using nt assms by (intro range_search_val) auto
  also have "(\<exists>i. 0 \<le> i \<and> i \<le> n - 1 \<and> fst (ts ! i) \<le> c \<and> c \<le> snd (ts ! i)) \<longleftrightarrow> in_ranges c ts"
  proof -
    have "i \<le> n - 1 \<longleftrightarrow> i < length ts" for i using nt(1) assms(3) by (cases ts) auto
    then show ?thesis by (simp add: in_ranges_nth)
  qed
  finally show ?thesis .
qed

lemma in_range_val:
  assumes "0 < n" "ranges_ok ts"
  shows "(range_table get_u32 4 code pc n = Some ts \<longrightarrow> in_range32 code pc n c = Some (in_ranges c ts)) \<and>
    (range_table get_u16 2 code pc n = Some ts \<longrightarrow>
      in_range16 code pc n c = Some (in_ranges c ts \<or> 0xffff \<le> c \<and> snd (last ts) = 0xffff))"
proof (rule conjI)
  have ne: "length ts = n \<Longrightarrow> ts \<noteq> [] \<and> last ts = ts ! (n - 1)" using assms(1) by (auto simp: last_conv_nth)
  show "range_table get_u32 4 code pc n = Some ts \<longrightarrow> in_range32 code pc n c = Some (in_ranges c ts)"
  proof
    assume r: "range_table get_u32 4 code pc n = Some ts"
    note nt = range_table_nth [OF r]
    have e: "get_u32 code pc = Some (fst (ts ! 0))" "get_u32 code (pc + (n - 1) * 8 + 4) = Some (snd (ts ! (n - 1)))"
      using pair_at_some [OF nt(2) [of 0]] pair_at_some [OF nt(2) [of "n - 1"]] assms(1) by simp_all
    show "in_range32 code pc n c = Some (in_ranges c ts)"
      using e above_all [OF assms(2), of c] ne [OF nt(1)] nt(1) range_search_all [OF r assms(2,1), of c] assms(1)
      by (auto simp: in_range32_def not_less)
  qed
  show "range_table get_u16 2 code pc n = Some ts \<longrightarrow>
      in_range16 code pc n c = Some (in_ranges c ts \<or> 0xffff \<le> c \<and> snd (last ts) = 0xffff)"
  proof
    assume r: "range_table get_u16 2 code pc n = Some ts"
    note nt = range_table_nth [OF r]
    have e: "get_u16 code pc = Some (fst (ts ! 0))" "get_u16 code (pc + (n - 1) * 4 + 2) = Some (snd (ts ! (n - 1)))"
      using pair_at_some [OF nt(2) [of 0]] pair_at_some [OF nt(2) [of "n - 1"]] assms(1) by simp_all
    have le: "fst (ts ! 0) \<le> snd (ts ! (n - 1))"
      using ranges_mono(1) [OF assms(2), of "n - 1" 0] ranges_order(1) [OF assms(2), of "n - 1"] nt(1) assms(1) by auto
    show "in_range16 code pc n c = Some (in_ranges c ts \<or> 0xffff \<le> c \<and> snd (last ts) = 0xffff)"
      using e above_all [OF assms(2), of c] ne [OF nt(1)] nt(1) range_search_all [OF r assms(2,1), of c] assms(1) le
      by (auto simp: in_range16_def not_less)
  qed
qed

text \<open>
  The search for a character in the range tables of the code is the membership test, for every sorted
  table of disjoint ranges: it stays in the table, and it finds a range if and only if one holds the
  character. In the 16-bit table a last bound of 0xffff stands for no bound.
\<close>

theorem in_range_iff:
  assumes "0 < n" "ranges_ok ts"
  shows "(range_table get_u32 4 code pc n = Some ts \<longrightarrow> in_range32 code pc n c = Some (in_ranges c ts)) \<and>
    (range_table get_u16 2 code pc n = Some ts \<longrightarrow>
      in_range16 code pc n c = Some (in_ranges c ts \<or> 0xffff \<le> c \<and> snd (last ts) = 0xffff))"
  using assms by (rule in_range_val)

text \<open>The table of \<^verbatim>\<open>[a-z0-9]\<close>, searched for \<^verbatim>\<open>b\<close>.\<close>

lemma in_range_iff_witness:
  "ranges_ok [(48, 57), (97, 122)] \<and> range_table get_u16 2 [48, 0, 57, 0, 97, 0, 122, 0] 0 2 = Some [(48, 57), (97, 122)] \<and>
   in_range16 [48, 0, 57, 0, 97, 0, 122, 0] 0 2 98 = Some True"
proof -
  have "ranges_ok [(48, 57), (97, 122)]" by code_simp
  moreover have "range_table get_u16 2 [48, 0, 57, 0, 97, 0, 122, 0] 0 2 = Some [(48, 57), (97, 122)]" by code_simp
  moreover have "in_ranges 98 [(48, 57), (97, 122)]" by code_simp
  ultimately show ?thesis using in_range_iff [of 2 "[(48, 57), (97, 122)]" "[48, 0, 57, 0, 97, 0, 122, 0]" 0 98] by simp
qed

subsection \<open>The checker\<close>

text \<open>
  The type of a program point: the lookaheads around it, innermost first, each with the registers its
  continuation uses, and the registers that are set at the point. A register comes with the kind of its
  value, true for a counter. The registers follow the groups in \<^verbatim>\<open>capture\<close>.
\<close>

type_synonym regs = "(nat \<times> bool) list"
type_synonym point = "(REExecStateEnum \<times> regs) list \<times> regs"
type_synonym certificate = "point option list"

definition flows :: "certificate \<Rightarrow> nat \<Rightarrow> point \<Rightarrow> bool" where
  "flows T pc p \<longleftrightarrow>
     (case nth_opt T pc of Some (Some q) \<Rightarrow> fst q = fst p \<and> list_all (\<lambda>r. r \<in> set (snd p)) (snd q) | _ \<Rightarrow> False)"

definition regs_at :: "certificate \<Rightarrow> nat \<Rightarrow> regs" where
  "regs_at T pc = (case nth_opt T pc of Some (Some q) \<Rightarrow> snd q | _ \<Rightarrow> [])"

text \<open>Setting a register; a register that the continuation of a lookahead uses keeps its kind.\<close>

definition mark :: "nat \<Rightarrow> bool \<Rightarrow> point \<Rightarrow> point" where
  "mark r k p = (fst p, (r, k) # filter (\<lambda>(r', k'). r' \<noteq> r) (snd p))"

definition may_set :: "nat \<Rightarrow> nat \<Rightarrow> bool \<Rightarrow> point \<Rightarrow> bool" where
  "may_set N r k p \<longleftrightarrow>
     r < N \<and> list_all (\<lambda>(type, D). type = RE_EXEC_STATE_LOOKAHEAD \<longrightarrow> list_all (\<lambda>(r', k'). r' = r \<longrightarrow> k' = k) D) (fst p)"

definition is_set :: "nat \<Rightarrow> bool \<Rightarrow> point \<Rightarrow> bool" where
  "is_set r k p \<longleftrightarrow> (r, k) \<in> set (snd p)"

definition enter :: "certificate \<Rightarrow> REExecStateEnum \<Rightarrow> nat \<Rightarrow> point \<Rightarrow> point" where
  "enter T type pc p = (if type = RE_EXEC_STATE_SPLIT then p else ((type, regs_at T pc) # fst p, snd p))"

definition target :: "REExecContext \<Rightarrow> nat \<Rightarrow> nat \<Rightarrow> nat option" where
  "target s at pc = do { v \<leftarrow> get_u32 (bc s) at; jump pc v }"

definition goto_ok :: "REExecContext \<Rightarrow> certificate \<Rightarrow> nat \<Rightarrow> nat \<Rightarrow> point \<Rightarrow> bool" where
  "goto_ok s T at pc p \<longleftrightarrow> (case target s at pc of None \<Rightarrow> False | Some t \<Rightarrow> flows T t p)"

definition split_ok :: "REExecContext \<Rightarrow> certificate \<Rightarrow> nat \<Rightarrow> REExecStateEnum \<Rightarrow> point \<Rightarrow> bool" where
  "split_ok s T pc type p \<longleftrightarrow>
     (case target s pc (pc + 4) of None \<Rightarrow> False | Some t \<Rightarrow> flows T t p \<and> flows T (pc + 4) (enter T type t p))"

definition char_ok :: "REExecContext \<Rightarrow> certificate \<Rightarrow> nat \<Rightarrow> bool \<Rightarrow> point \<Rightarrow> bool" where
  "char_ok s T pc wide p \<longleftrightarrow>
     (if wide then get_u32 (bc s) pc \<noteq> None \<and> flows T (pc + 4) p else get_u16 (bc s) pc \<noteq> None \<and> flows T (pc + 2) p)"

definition save_ok :: "REExecContext \<Rightarrow> certificate \<Rightarrow> nat \<Rightarrow> point \<Rightarrow> bool" where
  "save_ok s T pc p \<longleftrightarrow> (case nth_opt (bc s) pc of None \<Rightarrow> False | Some v \<Rightarrow> unat v < capture_count s \<and> flows T (pc + 1) p)"

definition save_reset_ok :: "REExecContext \<Rightarrow> certificate \<Rightarrow> nat \<Rightarrow> point \<Rightarrow> bool" where
  "save_reset_ok s T pc p \<longleftrightarrow>
     (case (nth_opt (bc s) pc, nth_opt (bc s) (pc + 1)) of
        (Some v, Some v2) \<Rightarrow> unat v2 < capture_count s \<and> flows T (pc + 2) p | _ \<Rightarrow> False)"

definition set_ok :: "REExecContext \<Rightarrow> nat \<Rightarrow> certificate \<Rightarrow> nat \<Rightarrow> bool \<Rightarrow> point \<Rightarrow> bool" where
  "set_ok s N T pc k p \<longleftrightarrow>
     (case nth_opt (bc s) pc of None \<Rightarrow> False
      | Some r \<Rightarrow> may_set N (unat r) k p \<and> (k \<longrightarrow> get_u32 (bc s) (pc + 1) \<noteq> None) \<and>
          flows T (if k then pc + 5 else pc + 1) (mark (unat r) k p))"

definition loop_ok :: "REExecContext \<Rightarrow> nat \<Rightarrow> certificate \<Rightarrow> nat \<Rightarrow> point \<Rightarrow> bool" where
  "loop_ok s N T pc p \<longleftrightarrow>
     (case nth_opt (bc s) pc of None \<Rightarrow> False
      | Some r \<Rightarrow>
          let q = mark (unat r) True p
          in is_set (unat r) True p \<and> may_set N (unat r) True p \<and> goto_ok s T (pc + 1) (pc + 5) q \<and> flows T (pc + 5) q)"

definition loop_split_ok :: "REExecContext \<Rightarrow> nat \<Rightarrow> certificate \<Rightarrow> nat \<Rightarrow> bool \<Rightarrow> point \<Rightarrow> bool" where
  "loop_split_ok s N T pc check_adv p \<longleftrightarrow>
     (case nth_opt (bc s) pc of None \<Rightarrow> False
      | Some r \<Rightarrow>
          let q = mark (unat r) True p
          in is_set (unat r) True p \<and> may_set N (unat r) True p \<and> (check_adv \<longrightarrow> is_set (unat r + 1) False p) \<and>
             get_u32 (bc s) (pc + 1) \<noteq> None \<and> goto_ok s T (pc + 5) (pc + 9) q \<and> flows T (pc + 9) q)"

definition check_advance_ok :: "REExecContext \<Rightarrow> certificate \<Rightarrow> nat \<Rightarrow> point \<Rightarrow> bool" where
  "check_advance_ok s T pc p \<longleftrightarrow>
     (case nth_opt (bc s) pc of None \<Rightarrow> False | Some r \<Rightarrow> is_set (unat r) False p \<and> flows T (pc + 1) p)"

definition back_reference_ok :: "REExecContext \<Rightarrow> certificate \<Rightarrow> nat \<Rightarrow> point \<Rightarrow> bool" where
  "back_reference_ok s T pc p \<longleftrightarrow>
     (case nth_opt (bc s) pc of None \<Rightarrow> False
      | Some n \<Rightarrow> pc + 1 + unat n \<le> length (bc s) \<and> flows T (pc + 1 + unat n) p)"

definition table_ok :: "REExecContext \<Rightarrow> bool \<Rightarrow> nat \<Rightarrow> nat \<Rightarrow> bool" where
  "table_ok s wide pc n \<longleftrightarrow>
     0 < n \<and> (case range_table (if wide then get_u32 else get_u16) (if wide then 4 else 2) (bc s) pc n of
                None \<Rightarrow> False | Some ts \<Rightarrow> ranges_ok ts)"

definition range_ok :: "REExecContext \<Rightarrow> certificate \<Rightarrow> nat \<Rightarrow> bool \<Rightarrow> point \<Rightarrow> bool" where
  "range_ok s T pc wide p \<longleftrightarrow>
     (case get_u16 (bc s) pc of None \<Rightarrow> False
      | Some n \<Rightarrow> table_ok s wide (pc + 2) (unat n) \<and> flows T (pc + 2 + (if wide then 8 else 4) * unat n) p)"

definition inside :: "REExecStateEnum \<Rightarrow> point \<Rightarrow> bool" where
  "inside type p \<longleftrightarrow> (case fst p of [] \<Rightarrow> False | (type', _) # _ \<Rightarrow> type' = type)"

definition instr_ok :: "REExecContext \<Rightarrow> nat \<Rightarrow> certificate \<Rightarrow> nat \<Rightarrow> point \<Rightarrow> REOPCodeEnum \<Rightarrow> bool" where
  "instr_ok s N T pc p opcode \<longleftrightarrow>
     (case opcode of
        REOP_invalid \<Rightarrow> False
      | REOP_match \<Rightarrow> True
      | REOP_lookahead_match \<Rightarrow> inside RE_EXEC_STATE_LOOKAHEAD p
      | REOP_negative_lookahead_match \<Rightarrow> inside RE_EXEC_STATE_NEGATIVE_LOOKAHEAD p
      | REOP_char32 \<Rightarrow> char_ok s T pc True p
      | REOP_char32_i \<Rightarrow> char_ok s T pc True p
      | REOP_char \<Rightarrow> char_ok s T pc False p
      | REOP_char_i \<Rightarrow> char_ok s T pc False p
      | REOP_split_goto_first \<Rightarrow> split_ok s T pc RE_EXEC_STATE_SPLIT p
      | REOP_split_next_first \<Rightarrow> split_ok s T pc RE_EXEC_STATE_SPLIT p
      | REOP_lookahead \<Rightarrow> split_ok s T pc RE_EXEC_STATE_LOOKAHEAD p
      | REOP_negative_lookahead \<Rightarrow> split_ok s T pc RE_EXEC_STATE_NEGATIVE_LOOKAHEAD p
      | REOP_goto \<Rightarrow> goto_ok s T pc (pc + 4) p
      | REOP_save_start \<Rightarrow> save_ok s T pc p
      | REOP_save_end \<Rightarrow> save_ok s T pc p
      | REOP_save_reset \<Rightarrow> save_reset_ok s T pc p
      | REOP_set_i32 \<Rightarrow> set_ok s N T pc True p
      | REOP_loop \<Rightarrow> loop_ok s N T pc p
      | REOP_loop_split_goto_first \<Rightarrow> loop_split_ok s N T pc False p
      | REOP_loop_split_next_first \<Rightarrow> loop_split_ok s N T pc False p
      | REOP_loop_check_adv_split_goto_first \<Rightarrow> loop_split_ok s N T pc True p
      | REOP_loop_check_adv_split_next_first \<Rightarrow> loop_split_ok s N T pc True p
      | REOP_set_char_pos \<Rightarrow> set_ok s N T pc False p
      | REOP_check_advance \<Rightarrow> check_advance_ok s T pc p
      | REOP_back_reference \<Rightarrow> back_reference_ok s T pc p
      | REOP_back_reference_i \<Rightarrow> back_reference_ok s T pc p
      | REOP_backward_back_reference \<Rightarrow> back_reference_ok s T pc p
      | REOP_backward_back_reference_i \<Rightarrow> back_reference_ok s T pc p
      | REOP_range \<Rightarrow> range_ok s T pc False p
      | REOP_range_i \<Rightarrow> range_ok s T pc False p
      | REOP_range32 \<Rightarrow> range_ok s T pc True p
      | REOP_range32_i \<Rightarrow> range_ok s T pc True p
      | _ \<Rightarrow> flows T pc p)"

definition opcode_at :: "REExecContext \<Rightarrow> nat \<Rightarrow> REOPCodeEnum option" where
  "opcode_at s pc = do { b \<leftarrow> nth_opt (bc s) pc; nth_opt reop_list (unat b) }"

definition point_ok :: "REExecContext \<Rightarrow> nat \<Rightarrow> certificate \<Rightarrow> nat \<Rightarrow> bool" where
  "point_ok s N T pc \<longleftrightarrow>
     (case nth_opt T pc of
        Some (Some p) \<Rightarrow> (case opcode_at s pc of None \<Rightarrow> False | Some opcode \<Rightarrow> instr_ok s N T (pc + 1) p opcode)
      | _ \<Rightarrow> True)"

definition code_ok :: "REExecContext \<Rightarrow> nat \<Rightarrow> certificate \<Rightarrow> bool" where
  "code_ok s N T \<longleftrightarrow> flows T 8 ([], []) \<and> list_all (point_ok s N T) [0..<length T]"

subsection \<open>Safe effects\<close>

fun value_ok :: "REExecContext \<Rightarrow> bool \<Rightarrow> capval \<Rightarrow> bool" where
  "value_ok s k Null \<longleftrightarrow> True"
| "value_ok s k (Ptr p) \<longleftrightarrow> \<not> k \<and> p \<le> length (cbuf s)"
| "value_ok s k (Cnt v) \<longleftrightarrow> k"

definition caps_ok :: "REExecContext \<Rightarrow> nat \<Rightarrow> regs \<Rightarrow> capval list \<Rightarrow> bool" where
  "caps_ok s N D cap \<longleftrightarrow> 2 * capture_count s + N \<le> length cap \<and>
     (\<forall>i < 2 * capture_count s. value_ok s False (cap ! i)) \<and>
     (\<forall>(r, k) \<in> set D. r < N \<and> value_ok s k (cap ! (2 * capture_count s + r)))"

fun out_ok :: "REExecContext \<Rightarrow> certificate \<Rightarrow> point \<Rightarrow> outcome \<Rightarrow> bool" where
  "out_ok s T p (Next pc cptr) \<longleftrightarrow> flows T pc p \<and> cptr \<le> length (cbuf s)"
| "out_ok s T p Lookahead_match \<longleftrightarrow> inside RE_EXEC_STATE_LOOKAHEAD p"
| "out_ok s T p Negative_lookahead_match \<longleftrightarrow> inside RE_EXEC_STATE_NEGATIVE_LOOKAHEAD p"
| "out_ok s T p _ \<longleftrightarrow> True"

text \<open>A value is stored in a group, or in a register which then has its kind.\<close>

definition is_counter :: "capval \<Rightarrow> bool" where
  "is_counter v \<longleftrightarrow> (case v of Cnt _ \<Rightarrow> True | _ \<Rightarrow> False)"

definition store_ok :: "REExecContext \<Rightarrow> nat \<Rightarrow> nat \<Rightarrow> capval \<Rightarrow> point \<Rightarrow> bool" where
  "store_ok s N i v p \<longleftrightarrow> value_ok s (is_counter v) v \<and>
     (if i < 2 * capture_count s then \<not> is_counter v else may_set N (i - 2 * capture_count s) (is_counter v) p)"

definition stored :: "REExecContext \<Rightarrow> nat \<Rightarrow> capval \<Rightarrow> point \<Rightarrow> point" where
  "stored s i v p = (if i < 2 * capture_count s then p else mark (i - 2 * capture_count s) (is_counter v) p)"

fun effect_ok :: "REExecContext \<Rightarrow> nat \<Rightarrow> certificate \<Rightarrow> point \<Rightarrow> macro list \<Rightarrow> outcome \<Rightarrow> bool" where
  "effect_ok s N T p [] out \<longleftrightarrow> out_ok s T p out"
| "effect_ok s N T p (SAVE_CAPTURE i v # ms) out \<longleftrightarrow> store_ok s N i v p \<and> effect_ok s N T (stored s i v p) ms out"
| "effect_ok s N T p (SAVE_CAPTURE_CHECK i v # ms) out \<longleftrightarrow> store_ok s N i v p \<and> effect_ok s N T (stored s i v p) ms out"
| "effect_ok s N T p (Push pc cptr type # ms) out \<longleftrightarrow>
     flows T pc p \<and> cptr \<le> length (cbuf s) \<and> effect_ok s N T (enter T type pc p) ms out"
| "effect_ok s N T p (CHECK_STACK_SPACE n # ms) out \<longleftrightarrow> effect_ok s N T p ms out"
| "effect_ok s N T p (Poll_timeout # ms) out \<longleftrightarrow> effect_ok s N T p ms out"

definition safe_effect :: "REExecContext \<Rightarrow> nat \<Rightarrow> certificate \<Rightarrow> point \<Rightarrow> effect \<Rightarrow> bool" where
  "safe_effect s N T p e \<longleftrightarrow> (\<exists>ms out. e = Some (ms, out) \<and> effect_ok s N T p ms out)"

lemma get_char_safe:
  assumes "p < length (cbuf s)" "e \<le> length (cbuf s)"
  shows "\<exists>c q. get_char s e p = Some (c, q) \<and> q \<le> length (cbuf s)"
proof (cases "cbuf_type s = 2 \<and> is_hi_surrogate (ucast (cbuf s ! p)) \<and> p + 1 < e")
  case True
  then show ?thesis using assms
    by (cases "is_lo_surrogate (ucast (cbuf s ! (p + 1)))") (simp_all add: get_char_def nth_opt_def)
qed (use assms in \<open>auto simp: get_char_def nth_opt_def\<close>)

lemma get_prev_char_safe:
  assumes "0 < p" "p \<le> length (cbuf s)"
  shows "\<exists>c q. get_prev_char s b p = Some (c, q) \<and> q < p"
proof -
  obtain k where p: "p = Suc k" using assms(1) by (cases p) auto
  show ?thesis
  proof (cases "cbuf_type s = 2 \<and> is_lo_surrogate (ucast (cbuf s ! k)) \<and> k > b")
    case True
    then show ?thesis using assms
      by (cases "is_hi_surrogate (ucast (cbuf s ! (k - 1)))") (auto simp: get_prev_char_def nth_opt_def p)
  qed (use assms in \<open>auto simp: get_prev_char_def nth_opt_def p\<close>)
qed

named_theorems effect_defs

lemmas [effect_defs] = safe_effect_def stored_def store_ok_def is_counter_def mark_def enter_def

lemma test_char_safe:
  assumes "flows T pc p" "cptr \<le> length (cbuf s)" "\<And>c. test c \<noteq> None"
  shows "safe_effect s N T p (test_char s pc cptr test)"
proof (cases "cptr < length (cbuf s)")
  case True
  then obtain c q where c: "get_char s (length (cbuf s)) cptr = Some (c, q)" "q \<le> length (cbuf s)" using get_char_safe [OF _ order_refl] by blast
  obtain b where "test c = Some b" using assms(3) [of c] by auto
  then show ?thesis using True c assms(1) by (auto simp: test_char_def safe_effect_def)
qed (simp add: test_char_def safe_effect_def)

lemma op_any_safe:
  assumes "flows T pc p" "cptr \<le> length (cbuf s)"
  shows "safe_effect s N T p (op_any s pc cptr test)"
proof (cases "cptr < length (cbuf s)")
  case True
  then obtain c q where "get_char s (length (cbuf s)) cptr = Some (c, q)" "q \<le> length (cbuf s)" using get_char_safe [OF _ order_refl] by blast
  then show ?thesis using True assms(1) by (auto simp: op_any_def safe_effect_def)
qed (use assms in \<open>simp add: op_any_def safe_effect_def\<close>)

lemma op_char_safe:
  assumes "char_ok s T pc wide p" "cptr \<le> length (cbuf s)"
  shows "safe_effect s N T p (op_char s pc cptr wide ic)"
  using assms test_char_safe [of T "if wide then pc + 4 else pc + 2" p cptr s _ N] by (auto simp: op_char_def char_ok_def)

lemma target_some: "target s at pc = Some t \<Longrightarrow> \<exists>v. get_u32 (bc s) at = Some v \<and> jump pc v = Some t"
  by (auto simp: target_def split: bind_splits)

lemma goto_okE:
  assumes "goto_ok s T at pc p"
  obtains v t where "get_u32 (bc s) at = Some v" "jump pc v = Some t" "flows T t p"
  using assms target_some by (fastforce simp: goto_ok_def split: option.splits)

lemma split_okE:
  assumes "split_ok s T pc type p"
  obtains v t where "get_u32 (bc s) pc = Some v" "jump (pc + 4) v = Some t" "flows T t p" "flows T (pc + 4) (enter T type t p)"
  using assms target_some by (fastforce simp: split_ok_def split: option.splits)

lemma op_split_safe:
  assumes "split_ok s T pc RE_EXEC_STATE_SPLIT p" "cptr \<le> length (cbuf s)"
  shows "safe_effect s N T p (op_split s pc cptr next_first)"
  using assms(1) by (rule split_okE) (use assms(2) in \<open>simp add: op_split_def safe_effect_def enter_def\<close>)

lemma op_lookahead_safe:
  assumes "split_ok s T pc type p" "cptr \<le> length (cbuf s)"
  shows "safe_effect s N T p (op_lookahead s pc cptr type)"
  using assms(1) by (rule split_okE) (use assms(2) in \<open>simp add: op_lookahead_def safe_effect_def\<close>)

lemma op_goto_safe:
  assumes "goto_ok s T pc (pc + 4) p" "cptr \<le> length (cbuf s)"
  shows "safe_effect s N T p (op_goto s pc cptr)"
  using assms(1) by (rule goto_okE) (use assms(2) in \<open>simp add: op_goto_def safe_effect_def\<close>)

lemma op_line_safe:
  assumes "flows T pc p" "cptr \<le> length (cbuf s)"
  shows "safe_effect s N T p (op_line_start s pc cptr multi)" "safe_effect s N T p (op_line_end s pc cptr multi)"
proof -
  show "safe_effect s N T p (op_line_start s pc cptr multi)"
  proof (cases "cptr = 0")
    case False
    then obtain c q where "get_prev_char s 0 cptr = Some (c, q)" using get_prev_char_safe [of cptr s 0] assms(2) by auto
    then show ?thesis using assms by (simp add: op_line_start_def safe_effect_def)
  qed (use assms in \<open>simp add: op_line_start_def safe_effect_def\<close>)
  show "safe_effect s N T p (op_line_end s pc cptr multi)"
  proof (cases "cptr = length (cbuf s)")
    case False
    then obtain c q where "get_char s (length (cbuf s)) cptr = Some (c, q)" using get_char_safe [of cptr s "length (cbuf s)"] assms(2) by auto
    then show ?thesis using assms by (simp add: op_line_end_def safe_effect_def)
  qed (use assms in \<open>simp add: op_line_end_def safe_effect_def\<close>)
qed

lemma op_save_safe:
  assumes "save_ok s T pc p" "cptr \<le> length (cbuf s)" "k < 2"
  shows "safe_effect s N T p (op_save s pc cptr k)"
  using assms by (auto simp: op_save_def save_ok_def effect_defs split: option.splits)

lemma reset_effect: "\<forall>i \<in> set is. i < capture_count s \<Longrightarrow>
  effect_ok s N T p (concat (map (\<lambda>i. [SAVE_CAPTURE (2 * i) Null, SAVE_CAPTURE (2 * i + 1) Null]) is)) out = out_ok s T p out"
  by (induction "is") (auto simp: effect_defs)

lemma op_save_reset_safe:
  assumes "save_reset_ok s T pc p" "cptr \<le> length (cbuf s)"
  shows "safe_effect s N T p (op_save_reset s pc cptr)"
proof -
  obtain v v2 where v: "nth_opt (bc s) pc = Some v" "nth_opt (bc s) (pc + 1) = Some v2" "unat v2 < capture_count s" "flows T (pc + 2) p"
    using assms(1) by (auto simp: save_reset_ok_def split: option.splits)
  have "effect_ok s N T p (concat (map (\<lambda>i. [SAVE_CAPTURE (2 * i) Null, SAVE_CAPTURE (2 * i + 1) Null]) [unat v..<unat v2 + 1])) (Next (pc + 2) cptr)"
    by (subst reset_effect) (use v assms(2) in auto)
  then show ?thesis using v by (simp add: op_save_reset_def safe_effect_def)
qed

lemma op_set_safe:
  assumes "cptr \<le> length (cbuf s)"
  shows "set_ok s N T pc True p \<Longrightarrow> safe_effect s N T p (op_set s pc cptr)"
    "set_ok s N T pc False p \<Longrightarrow> safe_effect s N T p (op_set_char_pos s pc cptr)"
  using assms by (auto simp: op_set_def op_set_char_pos_def set_ok_def effect_defs split: option.splits)

lemma counter_safe:
  assumes "is_set r True p" "caps_ok s N (snd p) cap"
  obtains v where "dec_counter s cap (2 * capture_count s + r) = Some v"
proof -
  have "r < N" "value_ok s True (cap ! (2 * capture_count s + r))" "2 * capture_count s + N \<le> length cap"
    using assms by (auto simp: is_set_def caps_ok_def)
  then show thesis using that by (cases "cap ! (2 * capture_count s + r)") (auto simp: dec_counter_def nth_opt_def)
qed

lemma position_safe:
  assumes "is_set r False p" "caps_ok s N (snd p) cap"
  obtains x b where "nth_opt cap (2 * capture_count s + r) = Some x" "same_pos x cptr = Some b"
proof -
  have "r < N" "value_ok s False (cap ! (2 * capture_count s + r))" "2 * capture_count s + N \<le> length cap"
    using assms by (auto simp: is_set_def caps_ok_def)
  then show thesis using that by (cases "cap ! (2 * capture_count s + r)") (auto simp: nth_opt_def)
qed

lemma store_counter [simp]:
  "store_ok s N (2 * capture_count s + r) (Cnt v) p \<longleftrightarrow> may_set N r True p" "stored s (2 * capture_count s + r) (Cnt v) p = mark r True p"
  by (simp_all add: store_ok_def stored_def is_counter_def)

lemma op_loop_safe:
  assumes "loop_ok s N T pc p" "cptr \<le> length (cbuf s)" "caps_ok s N (snd p) cap"
  shows "safe_effect s N T p (op_loop s pc cptr cap)"
proof -
  obtain r where r: "nth_opt (bc s) pc = Some r" "is_set (unat r) True p" "may_set N (unat r) True p"
      "goto_ok s T (pc + 1) (pc + 5) (mark (unat r) True p)" "flows T (pc + 5) (mark (unat r) True p)"
    using assms(1) by (auto simp: loop_ok_def Let_def split: option.splits)
  obtain v t where "get_u32 (bc s) (pc + 1) = Some v" "jump (pc + 5) v = Some t" "flows T t (mark (unat r) True p)" using r(4) by (rule goto_okE)
  moreover obtain v2 where "dec_counter s cap (2 * capture_count s + unat r) = Some v2" using counter_safe [OF r(2) assms(3)] .
  ultimately show ?thesis using r assms(2) by (simp add: op_loop_def Let_def safe_effect_def)
qed

lemma op_loop_split_safe:
  assumes "loop_split_ok s N T pc check_adv p" "cptr \<le> length (cbuf s)" "caps_ok s N (snd p) cap"
  shows "safe_effect s N T p (op_loop_split s pc cptr cap check_adv next_first)"
proof -
  obtain r limit where r: "nth_opt (bc s) pc = Some r" "is_set (unat r) True p" "may_set N (unat r) True p" "check_adv \<Longrightarrow> is_set (unat r + 1) False p"
      "goto_ok s T (pc + 5) (pc + 9) (mark (unat r) True p)" "flows T (pc + 9) (mark (unat r) True p)" "get_u32 (bc s) (pc + 1) = Some limit"
    using assms(1) by (auto simp: loop_split_ok_def Let_def split: option.splits)
  obtain v t where t: "get_u32 (bc s) (pc + 5) = Some v" "jump (pc + 9) v = Some t" "flows T t (mark (unat r) True p)" using r(5) by (rule goto_okE)
  obtain v2 where v2: "dec_counter s cap (2 * capture_count s + unat r) = Some v2" using counter_safe [OF r(2) assms(3)] .
  obtain same where "(if check_adv then do { x \<leftarrow> nth_opt cap (2 * capture_count s + unat r + 1); same_pos x cptr } else Some False) = Some same"
  proof (cases check_adv)
    case True
    from position_safe [OF r(4) [OF True] assms(3), of cptr] that True show thesis by (metis add.assoc Option.bind.bind_lunit)
  qed (use that in simp)
  then show ?thesis using r t v2 assms(2) by (simp add: op_loop_split_def Let_def safe_effect_def enter_def)
qed

lemma op_check_advance_safe:
  assumes "check_advance_ok s T pc p" "cptr \<le> length (cbuf s)" "caps_ok s N (snd p) cap"
  shows "safe_effect s N T p (op_check_advance s pc cptr cap)"
proof -
  obtain r where r: "nth_opt (bc s) pc = Some r" "is_set (unat r) False p" "flows T (pc + 1) p"
    using assms(1) by (auto simp: check_advance_ok_def split: option.splits)
  obtain x b where "nth_opt cap (2 * capture_count s + unat r) = Some x" "same_pos x cptr = Some b" using position_safe [OF r(2) assms(3)] .
  then show ?thesis using r assms(2) by (simp add: op_check_advance_def safe_effect_def)
qed

lemma op_word_boundary_safe:
  assumes "flows T pc p" "cptr \<le> length (cbuf s)"
  shows "safe_effect s N T p (op_word_boundary s pc cptr ignore_case is_boundary)"
proof -
  obtain v1 where v1: "(if cptr = 0 then Some False else do { (c, _) \<leftarrow> get_prev_char s 0 cptr; Some (is_word ignore_case c) }) = Some v1"
    using get_prev_char_safe [of cptr s 0] assms(2) by (cases "cptr = 0") auto
  obtain v2 where v2: "(if cptr \<ge> length (cbuf s) then Some False
      else do { (c, _) \<leftarrow> get_char s (length (cbuf s)) cptr; Some (is_word ignore_case c) }) = Some v2"
    using get_char_safe [of cptr s "length (cbuf s)"] by (cases "cptr \<ge> length (cbuf s)") auto
  show ?thesis unfolding op_word_boundary_def v1 v2 using assms by (simp add: safe_effect_def)
qed

lemma ref_forward_safe:
  "cptr1_end \<le> length (cbuf s) \<Longrightarrow> cptr \<le> length (cbuf s) \<Longrightarrow>
   \<exists>r. ref_forward s ic cptr1 cptr1_end cptr = Some r \<and> (\<forall>q. r = Some q \<longrightarrow> q \<le> length (cbuf s))"
proof (induction s ic cptr1 cptr1_end cptr rule: ref_forward.induct)
  case (1 s ic cptr1 cptr1_end cptr)
  show ?case
  proof (cases "cptr1 < cptr1_end \<and> cptr < length (cbuf s)")
    case True
    obtain c1 q1 where c1: "get_char s cptr1_end cptr1 = Some (c1, q1)" using get_char_safe [of cptr1 s cptr1_end] True 1(2) by auto
    obtain c2 q2 where c2: "get_char s (length (cbuf s)) cptr = Some (c2, q2)" "q2 \<le> length (cbuf s)"
      using get_char_safe [of cptr s "length (cbuf s)"] True by auto
    have ih: "\<not> canon s ic c1 \<noteq> canon s ic c2 \<Longrightarrow> \<exists>r. ref_forward s ic q1 cptr1_end q2 = Some r \<and> (\<forall>q. r = Some q \<longrightarrow> q \<le> length (cbuf s))"
      by (rule 1(1) [OF _ _ c1 refl c2(1) refl]) (use True 1(2) c2 in auto)
    show ?thesis using True c1 c2 ih by (subst ref_forward.simps) simp
  qed (use 1(3) in \<open>auto simp: ref_forward.simps [of s ic cptr1]\<close>)
qed

lemma ref_backward_safe:
  "cptr1 \<le> length (cbuf s) \<Longrightarrow> cptr \<le> length (cbuf s) \<Longrightarrow>
   \<exists>r. ref_backward s ic cptr1 cptr1_start cptr = Some r \<and> (\<forall>q. r = Some q \<longrightarrow> q \<le> length (cbuf s))"
proof (induction s ic cptr1 cptr1_start cptr rule: ref_backward.induct)
  case (1 s ic cptr1 cptr1_start cptr)
  show ?case
  proof (cases "cptr1 > cptr1_start \<and> cptr \<noteq> 0")
    case True
    obtain c1 q1 where c1: "get_prev_char s cptr1_start cptr1 = Some (c1, q1)" "q1 < cptr1" using get_prev_char_safe [of cptr1 s cptr1_start] True 1(2) by auto
    obtain c2 q2 where c2: "get_prev_char s 0 cptr = Some (c2, q2)" "q2 < cptr"
      using get_prev_char_safe [of cptr s 0] True 1(3) by auto
    have ih: "\<not> canon s ic c1 \<noteq> canon s ic c2 \<Longrightarrow> \<exists>r. ref_backward s ic q1 cptr1_start q2 = Some r \<and> (\<forall>q. r = Some q \<longrightarrow> q \<le> length (cbuf s))"
      by (rule 1(1) [OF _ _ c1(1) refl c2(1) refl]) (use True 1(2,3) c1 c2 in auto)
    show ?thesis using True c1 c2 ih by (subst ref_backward.simps) simp
  qed (use 1(3) in \<open>auto simp: ref_backward.simps [of s ic cptr1]\<close>)
qed

lemma group_safe:
  assumes "caps_ok s N D cap" "i < 2 * capture_count s"
  obtains x where "nth_opt cap i = Some x" "as_ptr x = Some None" | x b where "nth_opt cap i = Some x" "as_ptr x = Some (Some b)" "b \<le> length (cbuf s)"
proof -
  have "value_ok s False (cap ! i)" "i < length cap" using assms by (auto simp: caps_ok_def)
  then show thesis using that by (cases "cap ! i") (auto simp: nth_opt_def)
qed

lemma back_ref_safe:
  assumes "caps_ok s N D cap" "cptr \<le> length (cbuf s)"
  shows "\<exists>r. back_ref s backward ic cap cptr vs = Some r \<and> (\<forall>q. r = Some q \<longrightarrow> q \<le> length (cbuf s))"
proof (induction vs)
  case (Cons v vs)
  show ?case
  proof (cases "unat v < capture_count s")
    case True
    then have i: "2 * unat v < 2 * capture_count s" "2 * unat v + 1 < 2 * capture_count s" by auto
    show ?thesis
      by (rule group_safe [OF assms(1) i(1)]; rule group_safe [OF assms(1) i(2)])
        (use True Cons assms(2) ref_forward_safe ref_backward_safe in auto)
  qed simp
qed (use assms(2) in simp)

lemma op_back_reference_safe:
  assumes "back_reference_ok s T pc p" "cptr \<le> length (cbuf s)" "caps_ok s N (snd p) cap"
  shows "safe_effect s N T p (op_back_reference s pc cptr cap backward ic)"
proof -
  obtain n where n: "nth_opt (bc s) pc = Some n" "pc + 1 + unat n \<le> length (bc s)" "flows T (pc + 1 + unat n) p"
    using assms(1) by (auto simp: back_reference_ok_def split: option.splits)
  obtain r where "back_ref s backward ic cap cptr (take (unat n) (drop (pc + 1) (bc s))) = Some r" "\<forall>q. r = Some q \<longrightarrow> q \<le> length (cbuf s)"
    using back_ref_safe [OF assms(3,2)] by blast
  then show ?thesis using n by (cases r) (simp_all add: op_back_reference_def safe_effect_def)
qed

lemma op_range_safe:
  assumes "range_ok s T pc wide p" "cptr \<le> length (cbuf s)"
  shows "safe_effect s N T p (op_range s pc cptr wide ic)"
proof -
  obtain n where n: "get_u16 (bc s) pc = Some n" "table_ok s wide (pc + 2) (unat n)" "flows T (pc + 2 + (if wide then 8 else 4) * unat n) p"
    using assms(1) by (auto simp: range_ok_def split: option.splits)
  have "(if wide then in_range32 else in_range16) (bc s) (pc + 2) (unat n) (canon s ic c) \<noteq> None" for c
    using n(2) in_range_val [of "unat n" _ "bc s" "pc + 2" "canon s ic c"] by (auto simp: table_ok_def split: option.splits if_splits)
  then show ?thesis using n(1) test_char_safe [OF n(3) assms(2)] by (simp add: op_range_def)
qed

lemma op_prev_safe:
  assumes "flows T pc p" "cptr \<le> length (cbuf s)"
  shows "safe_effect s N T p (op_prev s pc cptr)"
proof (cases "cptr = 0")
  case False
  then obtain c q where "get_prev_char s 0 cptr = Some (c, q)" "q < cptr" using get_prev_char_safe [of cptr s 0] assms(2) by auto
  then show ?thesis using False assms by (simp add: op_prev_def safe_effect_def)
qed (simp add: op_prev_def safe_effect_def)

lemmas op_safe = op_any_safe op_char_safe op_split_safe op_lookahead_safe op_goto_safe op_line_safe op_save_safe op_save_reset_safe op_set_safe
  op_loop_safe op_loop_split_safe op_check_advance_safe op_word_boundary_safe op_back_reference_safe op_range_safe op_prev_safe

text \<open>Every instruction that the checker accepts has a safe effect.\<close>

lemma re_effect_safe:
  assumes "point_ok s N T pc" "nth_opt T pc = Some (Some p)" "cptr \<le> length (cbuf s)" "caps_ok s N (snd p) cap"
  shows "safe_effect s N T p (re_effect s pc cptr cap)"
proof -
  obtain b opcode where o: "nth_opt (bc s) pc = Some b" "nth_opt reop_list (unat b) = Some opcode" "instr_ok s N T (pc + 1) p opcode"
    using assms(1,2) by (auto simp: point_ok_def opcode_at_def split: option.splits bind_splits)
  show ?thesis
    using o(3) assms(3,4) op_safe by (cases opcode) (simp_all add: re_effect_def o(1,2) Let_def instr_ok_def safe_effect_def [where e = "Some _"])
qed

subsection \<open>Typed states\<close>

text \<open>The lookaheads open in a list of choices, each with the registers of its continuation.\<close>

fun looks :: "certificate \<Rightarrow> choice list \<Rightarrow> (REExecStateEnum \<times> regs) list" where
  "looks T [] = []"
| "looks T ((pc, cptr, type, cap) # cs) = (if type = RE_EXEC_STATE_SPLIT then looks T cs else (type, regs_at T pc) # looks T cs)"

text \<open>A lookahead goes on with the captures at its end, so these suit all open lookaheads.\<close>

definition looks_ok :: "REExecContext \<Rightarrow> nat \<Rightarrow> (REExecStateEnum \<times> regs) list \<Rightarrow> capval list \<Rightarrow> bool" where
  "looks_ok s N L cap \<longleftrightarrow> list_all (\<lambda>(type, D). type = RE_EXEC_STATE_LOOKAHEAD \<longrightarrow> caps_ok s N D cap) L"

definition place_ok :: "REExecContext \<Rightarrow> nat \<Rightarrow> certificate \<Rightarrow> point \<Rightarrow> capval list \<Rightarrow> choice list \<Rightarrow> bool" where
  "place_ok s N T p cap cs \<longleftrightarrow> fst p = looks T cs \<and> caps_ok s N (snd p) cap \<and> looks_ok s N (looks T cs) cap"

fun chain_ok :: "REExecContext \<Rightarrow> nat \<Rightarrow> certificate \<Rightarrow> choice list \<Rightarrow> bool" where
  "chain_ok s N T [] \<longleftrightarrow> True"
| "chain_ok s N T ((pc, cptr, type, cap) # cs) \<longleftrightarrow>
     (\<exists>p. nth_opt T pc = Some (Some p) \<and> place_ok s N T p cap cs) \<and> cptr \<le> length (cbuf s) \<and> chain_ok s N T cs"

definition typed :: "REExecContext \<Rightarrow> nat \<Rightarrow> certificate \<Rightarrow> point \<Rightarrow> 't spec_state \<Rightarrow> bool" where
  "typed s N T p y \<longleftrightarrow> place_ok s N T p (caps y) (choices y) \<and> chain_ok s N T (choices y)"

fun config_ok :: "REExecContext \<Rightarrow> nat \<Rightarrow> certificate \<Rightarrow> 't spec_config \<Rightarrow> bool" where
  "config_ok s N T (pc, cptr, y) \<longleftrightarrow> cptr \<le> length (cbuf s) \<and> (\<exists>p. nth_opt T pc = Some (Some p) \<and> typed s N T p y)"

definition result_ok :: "('a \<Rightarrow> bool) \<Rightarrow> 't spec_result + 'a \<Rightarrow> bool" where
  "result_ok P r \<longleftrightarrow> (case r of Inl r \<Rightarrow> r \<noteq> Spec_undefined | Inr a \<Rightarrow> P a)"

lemma result_ok_simps [simp]: "result_ok P (Inr a) \<longleftrightarrow> P a" "result_ok P (Inl (Spec_returned ret cap))"
  by (simp_all add: result_ok_def)

lemma flowsE:
  assumes "flows T pc p"
  obtains D where "nth_opt T pc = Some (Some (fst p, D))" "set D \<subseteq> set (snd p)" "regs_at T pc = D"
proof -
  obtain q where q: "nth_opt T pc = Some (Some q)" "fst q = fst p" "\<forall>r \<in> set (snd q). r \<in> set (snd p)"
    using assms by (auto simp: flows_def list_all_iff split: option.splits)
  then show thesis using that [of "snd q"] by (cases q) (auto simp: regs_at_def)
qed

lemma caps_ok_less: "caps_ok s N D cap \<Longrightarrow> set D' \<subseteq> set D \<Longrightarrow> caps_ok s N D' cap"
  by (auto simp: caps_ok_def)

lemma flows_place: "flows T pc p \<Longrightarrow> place_ok s N T p cap cs \<Longrightarrow> \<exists>q. nth_opt T pc = Some (Some q) \<and> place_ok s N T q cap cs"
  by (erule flowsE) (auto simp: place_ok_def intro: caps_ok_less)

lemma poll_typed: "typed s N T p y \<Longrightarrow> typed s N T p (fst (spec_poll timeout y))"
  by (simp add: typed_def spec_poll_def split: prod.splits)

lemma store_caps:
  assumes "caps_ok s N D cap" "value_ok s (is_counter v) v"
    "if i < 2 * capture_count s then \<not> is_counter v else i - 2 * capture_count s < N \<and> (\<forall>k. (i - 2 * capture_count s, k) \<in> set D \<longrightarrow> k = is_counter v)"
  shows "caps_ok s N D (cap[i := v])"
  unfolding caps_ok_def
proof (intro conjI allI impI ballI)
  show "2 * capture_count s + N \<le> length (cap[i := v])" using assms(1) by (simp add: caps_ok_def)
  show "value_ok s False (cap[i := v] ! j)" if "j < 2 * capture_count s" for j
    using assms that by (cases "j = i") (auto simp: caps_ok_def)
  fix rk
  assume "rk \<in> set D"
  moreover obtain r k where rk: "rk = (r, k)" by (cases rk)
  ultimately have r: "(r, k) \<in> set D" "r < N" "value_ok s k (cap ! (2 * capture_count s + r))" "2 * capture_count s + N \<le> length cap"
    using assms(1) by (auto simp: caps_ok_def)
  show "case rk of (r, k) \<Rightarrow> r < N \<and> value_ok s k (cap[i := v] ! (2 * capture_count s + r))"
    using r assms(2,3) by (cases "2 * capture_count s + r = i") (auto simp: rk split: if_splits)
qed

lemma store_place:
  assumes "store_ok s N i v p" "place_ok s N T p cap cs"
  shows "place_ok s N T (stored s i v p) (cap[i := v]) cs" "i < length cap"
proof -
  have v: "value_ok s (is_counter v) v" using assms(1) by (simp add: store_ok_def)
  have c: "caps_ok s N (snd p) cap" "looks_ok s N (fst p) cap" "fst p = looks T cs" using assms(2) by (auto simp: place_ok_def)
  show "i < length cap" using assms(1) c(1) by (auto simp: store_ok_def may_set_def caps_ok_def split: if_splits)
  have l: "looks_ok s N (fst p) (cap[i := v])"
    unfolding looks_ok_def list_all_iff
  proof (intro ballI, clarify)
    fix D
    assume D: "(RE_EXEC_STATE_LOOKAHEAD, D) \<in> set (fst p)"
    then have "caps_ok s N D cap" using c(2) by (auto simp: looks_ok_def list_all_iff)
    moreover have "\<forall>k. (i - 2 * capture_count s, k) \<in> set D \<longrightarrow> k = is_counter v" if "\<not> i < 2 * capture_count s"
      using assms(1) D that by (fastforce simp: store_ok_def may_set_def list_all_iff)
    ultimately show "caps_ok s N D (cap[i := v])" using assms(1) v by (intro store_caps) (auto simp: store_ok_def may_set_def)
  qed
  have "caps_ok s N (snd (stored s i v p)) (cap[i := v])"
  proof (cases "i < 2 * capture_count s")
    case True
    then show ?thesis using assms(1) c(1) v by (auto simp: stored_def store_ok_def intro!: store_caps)
  next
    case False
    define r where "r = i - 2 * capture_count s"
    have "caps_ok s N (filter (\<lambda>(r', k'). r' \<noteq> r) (snd p)) (cap[i := v])"
      using assms(1) c(1) v False by (intro store_caps caps_ok_less [OF c(1)]) (auto simp: store_ok_def may_set_def r_def)
    moreover have "r < N" "2 * capture_count s + r = i" using assms(1) False by (auto simp: store_ok_def may_set_def r_def)
    ultimately show ?thesis using False v \<open>i < length cap\<close> by (auto simp: stored_def mark_def caps_ok_def r_def)
  qed
  moreover have "fst (stored s i v p) = fst p" by (simp add: stored_def mark_def)
  ultimately show "place_ok s N T (stored s i v p) (cap[i := v]) cs" using l c(3) by (simp add: place_ok_def)
qed

lemma set_typed:
  assumes "store_ok s N i v p" "typed s N T p y"
  shows "\<exists>y'. spec_set i v y = Inr y' \<and> typed s N T (stored s i v p) y'"
  using store_place [OF assms(1), of T "caps y" "choices y"] assms(2) by (simp add: typed_def spec_set_def)

lemma push_typed:
  assumes "flows T pc p" "cptr \<le> length (cbuf s)" "typed s N T p y"
  shows "typed s N T (enter T type pc p) (y\<lparr>choices := (pc, cptr, type, caps y) # choices y\<rparr>)"
proof -
  have p: "place_ok s N T p (caps y) (choices y)" "chain_ok s N T (choices y)" using assms(3) by (simp_all add: typed_def)
  obtain D where D: "nth_opt T pc = Some (Some (fst p, D))" "set D \<subseteq> set (snd p)" "regs_at T pc = D" using assms(1) by (rule flowsE)
  have "caps_ok s N D (caps y)" using p(1) D(2) by (auto simp: place_ok_def intro: caps_ok_less)
  then have "place_ok s N T (enter T type pc p) (caps y) ((pc, cptr, type, caps y) # choices y)"
    using p(1) D(3) by (auto simp: place_ok_def enter_def looks_ok_def)
  then show ?thesis using flows_place [OF assms(1) p(1)] assms(2) p(2) by (simp add: typed_def)
qed

lemma macros_typed:
  "effect_ok s N T p ms out \<Longrightarrow> typed s N T p y \<Longrightarrow>
   result_ok (\<lambda>y'. \<exists>p'. typed s N T p' y' \<and> out_ok s T p' out) (spec_macros timeout ms y)"
proof (induction s N T p ms out arbitrary: y rule: effect_ok.induct)
  case (2 s N T p i v ms out)
  then show ?case using set_typed [of s N i v p T y] by auto
next
  case (3 s N T p i v ms out)
  then show ?case using set_typed [of s N i v p T y] by auto
next
  case (4 s N T p pc cptr type ms out)
  then show ?case using push_typed [of T pc p cptr s N y type] by auto
next
  case (6 s N T p ms out)
  then show ?case using poll_typed [of s N T p y timeout] by (auto simp: Let_def split: prod.splits)
qed auto

lemma no_match_typed: "chain_ok s N T cs \<Longrightarrow> result_ok (config_ok s N T) (spec_no_match timeout y cs)"
proof (induction cs)
  case (Cons f cs)
  obtain pc cptr type cap where f: "f = (pc, cptr, type, cap)" by (cases f)
  show ?case
  proof (cases "type = RE_EXEC_STATE_LOOKAHEAD")
    case False
    obtain p where p: "nth_opt T pc = Some (Some p)" "place_ok s N T p cap cs" using Cons(2) by (auto simp: f)
    have "typed s N T p (y\<lparr>choices := cs, caps := cap\<rparr>)" using p(2) Cons(2) by (simp add: typed_def f)
    from poll_typed [OF this, of timeout] show ?thesis using False p(1) Cons(2) by (auto simp: f Let_def split: prod.splits)
  qed (use Cons in \<open>simp add: f\<close>)
qed simp

lemma lookahead_typed:
  "chain_ok s N T cs \<Longrightarrow> place_ok s N T p (caps y) cs \<Longrightarrow> inside RE_EXEC_STATE_LOOKAHEAD p \<Longrightarrow>
   result_ok (config_ok s N T) (spec_lookahead_match y cs)"
proof (induction cs)
  case (Cons f cs)
  obtain pc cptr type cap where f: "f = (pc, cptr, type, cap)" by (cases f)
  obtain q where q: "nth_opt T pc = Some (Some q)" "place_ok s N T q cap cs" using Cons(2) by (auto simp: f)
  show ?case
  proof (cases "type = RE_EXEC_STATE_SPLIT")
    case True
    then show ?thesis using Cons by (simp add: f place_ok_def)
  next
    case False
    then have l: "looks T (f # cs) = (type, snd q) # looks T cs" using q(1) by (simp add: f regs_at_def)
    then have type: "type = RE_EXEC_STATE_LOOKAHEAD" using Cons(3,4) by (simp add: inside_def place_ok_def)
    have "place_ok s N T q (caps y) cs" using Cons(3) q(2) l type by (auto simp: place_ok_def looks_ok_def)
    then show ?thesis using Cons(2) q(1) type by (auto simp: f typed_def)
  qed
qed (simp add: place_ok_def inside_def)

lemma negative_typed:
  "chain_ok s N T cs \<Longrightarrow> fst p = looks T cs \<Longrightarrow> inside RE_EXEC_STATE_NEGATIVE_LOOKAHEAD p \<Longrightarrow>
   result_ok (config_ok s N T) (spec_negative_match timeout y cs)"
proof (induction cs)
  case (Cons f cs)
  obtain pc cptr type cap where f: "f = (pc, cptr, type, cap)" by (cases f)
  show ?case
  proof (cases "type = RE_EXEC_STATE_SPLIT")
    case False
    then have "type = RE_EXEC_STATE_NEGATIVE_LOOKAHEAD" using Cons(3,4) by (simp add: inside_def f)
    then show ?thesis using no_match_typed [of s N T cs timeout y] Cons(2) by (simp add: f)
  qed (use Cons in \<open>simp add: f\<close>)
qed (simp add: inside_def)

lemma step_typed:
  assumes "code_ok s N T" "config_ok s N T c"
  shows "result_ok (config_ok s N T) (spec_step timeout s c)"
proof -
  obtain pc cptr y p where c: "c = (pc, cptr, y)" "cptr \<le> length (cbuf s)" "nth_opt T pc = Some (Some p)" "typed s N T p y"
    using assms(2) by (cases c) auto
  have "pc < length T" using c(3) by (auto simp: nth_opt_def split: if_splits)
  then have "point_ok s N T pc" using assms(1) by (simp add: code_ok_def list_all_iff)
  moreover have "caps_ok s N (snd p) (caps y)" using c(4) by (simp add: typed_def place_ok_def)
  ultimately obtain ms out where e: "re_effect s pc cptr (caps y) = Some (ms, out)" "effect_ok s N T p ms out"
    using re_effect_safe [OF _ c(3,2), of N "caps y"] by (auto simp: safe_effect_def)
  note mt = macros_typed [OF e(2) c(4), of timeout]
  show ?thesis
  proof (cases "spec_macros timeout ms y")
    case (Inl r)
    then show ?thesis using mt e(1) by (simp add: spec_step_def c(1) result_ok_def)
  next
    case (Inr y')
    then obtain q where q: "place_ok s N T q (caps y') (choices y')" "chain_ok s N T (choices y')" "out_ok s T q out" using mt by (auto simp: typed_def)
    have "fst q = looks T (choices y')" using q(1) by (simp add: place_ok_def)
    note ends = no_match_typed [OF q(2), of timeout y'] lookahead_typed [OF q(2,1)] negative_typed [OF q(2) this, of timeout y']
    show ?thesis
    proof (cases out)
      case (Next pc' cptr')
      then show ?thesis using flows_place [OF _ q(1), of pc'] q(2,3) e(1) Inr by (auto simp: spec_step_def c(1) typed_def)
    qed (use ends q(3) e(1) Inr in \<open>simp_all add: spec_step_def c(1)\<close>)
  qed
qed

lemma run_typed:
  assumes "code_ok s N T"
  shows "config_ok s N T c \<Longrightarrow> run (spec_step timeout s) n c \<noteq> Some Spec_undefined"
proof (induction n arbitrary: c)
  case (Suc n)
  show ?case
  proof (cases "spec_step timeout s c")
    case (Inl r)
    then show ?thesis using step_typed [OF assms Suc(2), of timeout] by (simp add: result_ok_def)
  next
    case (Inr c')
    then show ?thesis using Suc(1) [of c'] step_typed [OF assms Suc(2), of timeout] by simp
  qed
qed simp

lemma same_result_undefined: "same_result Undefined q \<longleftrightarrow> q = Spec_undefined"
  by (cases q) simp_all

text \<open>
  C37. Checked code is safe. When the checker accepts the code for the number of registers in its header,
  \<^verbatim>\<open>lre_exec\<close> with captures of the size that \<^verbatim>\<open>lre_get_alloc_count\<close> gives never has undefined behaviour, on every subject
  and from every start in it, whatever the registers hold at first.
\<close>

theorem checked_code_safe:
  assumes "exec_context bc_buf buf t = Some s" "lre_get_alloc_count bc_buf = Some n" "code_ok s (n - 2 * capture_count s) T"
    "length cap = n" "cindex \<le> length buf" "separate ra timeout view tm"
  shows "lre_exec fuel ra timeout cap bc_buf buf cindex t u \<noteq> Some Undefined"
proof -
  define N where "N = n - 2 * capture_count s"
  have s: "cbuf s = buf" "2 * capture_count s \<le> n"
    using assms(1,2) by (auto simp: exec_context_def lre_get_alloc_count_def lre_get_flags_def Let_def split: bind_splits)
  let ?y = "\<lparr>choices = [], caps = replicate (2 * capture_count s) Null @ drop (2 * capture_count s) cap, countdown = INTERRUPT_COUNTER_INIT, user = view u\<rparr>"
  have "flows T 8 ([], [])" using assms(3) by (simp add: code_ok_def)
  moreover have "place_ok s N T ([], []) (caps ?y) []"
    using s(2) assms(4) by (simp add: place_ok_def looks_ok_def caps_ok_def N_def nth_append)
  ultimately obtain p where "nth_opt T 8 = Some (Some p)" "place_ok s N T p (caps ?y) []" using flows_place by blast
  moreover have "start_pos s cindex \<le> length (cbuf s)" using assms(5) by (auto simp: start_pos_def s(1))
  ultimately have "config_ok s N T (8, start_pos s cindex, ?y)" by (auto simp: typed_def)
  from run_typed [OF assms(3) [folded N_def] this, of tm fuel] have "spec_exec fuel tm cap bc_buf buf cindex t (view u) \<noteq> Some Spec_undefined"
    using assms(1,4) s(2) by (simp add: spec_exec_def)
  then show ?thesis
    using lre_exec_follows [OF assms(6), of fuel cap bc_buf buf cindex t u] by (auto simp: out_of_memory_def same_result_undefined)
qed

text \<open>The program of \<^verbatim>\<open>/[a-z]{2}/y\<close>, which counts in a register, and its certificate.\<close>

definition loop_code :: "u8 list" where
  "loop_code = [32, 0, 1, 1, 24, 0, 0, 0, 19, 0, 27, 0, 2, 0, 0, 0, 36, 1, 0, 97, 0, 122, 0, 22, 0, 243, 255, 255, 255, 20, 0, 16]"

definition loop_certificate :: certificate where
  "loop_certificate =
     (replicate 32 None)[8 := Some ([], []), 10 := Some ([], []), 16 := Some ([], [(0, True)]), 23 := Some ([], [(0, True)]),
        29 := Some ([], []), 31 := Some ([], [])]"

lemma checked_code_safe_witness:
  "lre_exec 20 (\<lambda>u n. (u, False)) (\<lambda>u. (u, False)) [Null, Null, Ptr 7] loop_code [97, 98] 0 0 () \<noteq> Some Undefined"
proof -
  obtain s where s: "exec_context loop_code [97, 98] 0 = Some s" "capture_count s = 1" "code_ok s 1 loop_certificate"
  proof -
    define e where "e = exec_context loop_code [97, 98] 0"
    have "(case e of None \<Rightarrow> False | Some s \<Rightarrow> capture_count s = 1 \<and> code_ok s 1 loop_certificate)" unfolding e_def by code_simp
    then show thesis using that unfolding e_def [symmetric] by (auto split: option.splits)
  qed
  have "lre_get_alloc_count loop_code = Some 3" by code_simp
  moreover have "separate (\<lambda>(u :: unit) n. (u, False)) (\<lambda>u. (u, False)) (\<lambda>u. ()) (\<lambda>u. (u, False))" by (simp add: separate_def)
  ultimately show ?thesis using s by (intro checked_code_safe [OF s(1), of 3 loop_certificate _ _ _ _ "\<lambda>u. ()" "\<lambda>u. (u, False)"]) simp_all
qed

end
