(* ===== verification/Bigint_Limbs.thy ===== *)
theory Bigint_Limbs
  imports Limbs
begin

text \<open>
  The multi-precision routines behind the BigInt numbers of \<^verbatim>\<open>quickjs.c\<close>, with 64-bit limbs. Numbers are
  lists of limbs, least significant first; a routine that writes into an array returns the written limbs, and
  writes at an offset are explicit. Routines that \<^verbatim>\<open>dtoa.c\<close> has under the same name for 32-bit limbs have the
  suffix \<open>_js\<close>.
\<close>

type_synonym js_limb = u64
type_synonym js_dlimb = "128 word"

subsection \<open>The routines\<close>

text \<open>The macro \<^verbatim>\<open>ADDC\<close>: the result and the carry.\<close>

definition addc :: "js_limb \<Rightarrow> js_limb \<Rightarrow> js_limb \<Rightarrow> js_limb \<times> js_limb" where
  "addc op1 op2 carry =
     (let a = op1 + op2;
          k1 = (if a < op1 then 1 else 0);
          a' = a + carry
      in (a', (if a' < carry then 1 else 0) OR k1))"

fun mp_add :: "js_limb list \<Rightarrow> js_limb list \<Rightarrow> js_limb \<Rightarrow> js_limb list \<times> js_limb" where
  "mp_add (x # op1) (y # op2) carry =
     (let (r, carry) = addc x y carry; (res, carry) = mp_add op1 op2 carry in (r # res, carry))"
| "mp_add _ _ carry = ([], carry)"

fun mp_sub :: "js_limb list \<Rightarrow> js_limb list \<Rightarrow> js_limb \<Rightarrow> js_limb list \<times> js_limb" where
  "mp_sub (x # op1) (y # op2) k =
     (let a = x - y;
          k1 = (if a > x then 1 else 0);
          v = a - k;
          k = (if v > a then 1 else 0) OR k1;
          (res, k) = mp_sub op1 op2 k
      in (v # res, k))"
| "mp_sub _ _ k = ([], k)"

fun mp_neg_loop :: "js_limb list \<Rightarrow> js_limb \<Rightarrow> js_limb list \<times> js_limb" where
  "mp_neg_loop [] carry = ([], carry)"
| "mp_neg_loop (x # op2) carry =
     (let v = NOT x + carry;
          (res, carry) = mp_neg_loop op2 (if v < carry then 1 else 0)
      in (v # res, carry))"

definition mp_neg :: "js_limb list \<Rightarrow> js_limb list \<times> js_limb" where
  "mp_neg op2 = mp_neg_loop op2 1"

fun mp_mul1_js :: "js_limb list \<Rightarrow> js_limb \<Rightarrow> js_limb \<Rightarrow> js_limb list \<times> js_limb" where
  "mp_mul1_js [] b l = ([], l)"
| "mp_mul1_js (x # taba) b l =
     (let t = ucast x * ucast b + ucast l :: js_dlimb;
          (tabr, l) = mp_mul1_js taba b (ucast (drop_bit 64 t))
      in (ucast t # tabr, l))"

abbreviation js_dlimb_of :: "js_limb \<Rightarrow> js_limb \<Rightarrow> js_dlimb" where
  "js_dlimb_of a1 a0 \<equiv> push_bit 64 (ucast a1) OR ucast a0"

fun mp_div1_js :: "js_limb list \<Rightarrow> js_limb \<Rightarrow> js_limb \<Rightarrow> js_limb list \<times> js_limb" where
  "mp_div1_js [] b r = ([], r)"
| "mp_div1_js (x # taba) b r =
     (let (tabr, r) = mp_div1_js taba b r;
          a1 = js_dlimb_of r x
      in (ucast (a1 div ucast b) # tabr, ucast (a1 mod ucast b)))"

fun mp_add_mul1 :: "js_limb list \<Rightarrow> js_limb list \<Rightarrow> js_limb \<Rightarrow> js_limb \<Rightarrow> js_limb list \<times> js_limb" where
  "mp_add_mul1 (r # tabr) (x # taba) b l =
     (let t = ucast x * ucast b + ucast l + ucast r :: js_dlimb;
          (tabr, l) = mp_add_mul1 tabr taba b (ucast (drop_bit 64 t))
      in (ucast t # tabr, l))"
| "mp_add_mul1 _ _ b l = ([], l)"

text \<open>Writing limbs into an array from an index on.\<close>

definition store_at :: "'a list \<Rightarrow> nat \<Rightarrow> 'a list \<Rightarrow> 'a list" where
  "store_at tab i xs = take i tab @ xs @ drop (i + length xs) tab"

fun mul_loop :: "js_limb list \<Rightarrow> js_limb list \<Rightarrow> nat \<Rightarrow> js_limb list \<Rightarrow> js_limb list" where
  "mul_loop result op1 i [] = result"
| "mul_loop result op1 i (y # op2) =
     (let (t, r) = mp_add_mul1 (take (length op1) (drop i result)) op1 y 0
      in mul_loop ((store_at result i t)[i + length op1 := r]) op1 (i + 1) op2)"

definition mp_mul_basecase :: "js_limb list \<Rightarrow> js_limb list \<Rightarrow> js_limb list \<Rightarrow> js_limb list" where
  "mp_mul_basecase result op1 op2 =
     (let (t, r) = mp_mul1_js op1 (hd op2) 0
      in mul_loop ((store_at result 0 t)[length op1 := r]) op1 1 (tl op2))"

fun mp_sub_mul1 :: "js_limb list \<Rightarrow> js_limb list \<Rightarrow> js_limb \<Rightarrow> js_limb \<Rightarrow> js_limb list \<times> js_limb" where
  "mp_sub_mul1 (r # tabr) (x # taba) b l =
     (let t = ucast r - ucast x * ucast b - ucast l :: js_dlimb;
          (tabr, l) = mp_sub_mul1 tabr taba b (ucast (- drop_bit 64 t))
      in (ucast t # tabr, l))"
| "mp_sub_mul1 _ _ b l = ([], l)"

definition udiv1norm_init_js :: "js_limb \<Rightarrow> js_limb" where
  "udiv1norm_init_js d = (let a1 = - d - 1; a0 = - 1 in ucast (js_dlimb_of a1 a0 div ucast d))"

definition udiv1norm_js :: "js_limb \<Rightarrow> js_limb \<Rightarrow> js_limb \<Rightarrow> js_limb \<Rightarrow> js_limb \<times> js_limb" where
  "udiv1norm_js a1 a0 d d_inv =
     (let n1m = signed_drop_bit 63 a0;
          n_adj = a0 + (n1m AND d);
          a = ucast d_inv * ucast (a1 - n1m) + ucast n_adj :: js_dlimb;
          q = ucast (drop_bit 64 a) + a1;
          a = js_dlimb_of a1 a0;
          a = a - ucast q * ucast d - ucast d;
          ah = ucast (drop_bit 64 a) :: js_limb;
          q = q + (1 + ah);
          r = ucast a + (ah AND d)
      in (q, r))"

abbreviation (input) UDIV1NORM_THRESHOLD :: nat where "UDIV1NORM_THRESHOLD \<equiv> 3"

fun div1norm_js_loop :: "js_limb list \<Rightarrow> js_limb \<Rightarrow> js_limb \<Rightarrow> js_limb \<Rightarrow> js_limb list \<times> js_limb" where
  "div1norm_js_loop [] b r b_inv = ([], r)"
| "div1norm_js_loop (x # tab) b r b_inv =
     (let (tab, r) = div1norm_js_loop tab b r b_inv;
          (q, r) = udiv1norm_js r x b b_inv
      in (q # tab, r))"

definition mp_div1norm_js :: "js_limb list \<Rightarrow> js_limb \<Rightarrow> js_limb \<Rightarrow> js_limb list \<times> js_limb" where
  "mp_div1norm_js taba b r =
     (if length taba \<ge> UDIV1NORM_THRESHOLD then div1norm_js_loop taba b r (udiv1norm_init_js b)
      else mp_div1_js taba b r)"

text \<open>The comparison of the first iteration of \<^verbatim>\<open>mp_divnorm\<close>, from the most significant limb.\<close>

fun cmp_ge :: "js_limb list \<Rightarrow> js_limb list \<Rightarrow> bool" where
  "cmp_ge (x # xs) (y # ys) = (if x \<noteq> y then \<not> x < y else cmp_ge xs ys)"
| "cmp_ge _ _ = True"

text \<open>The estimate of a limb of the quotient.\<close>

definition quo_estimate :: "js_limb \<Rightarrow> js_limb \<Rightarrow> js_limb \<Rightarrow> js_limb \<Rightarrow> js_limb" where
  "quo_estimate a1 a0 b1 b1_inv =
     (if a1 \<ge> b1 then - 1
      else if b1_inv \<noteq> 0 then fst (udiv1norm_js a1 a0 b1 b1_inv)
      else ucast (js_dlimb_of a1 a0 div ucast b1))"

text \<open>The loop that corrects a negative remainder; \<open>None\<close> if it does not end.\<close>

partial_function (option) add_back :: "js_limb list \<Rightarrow> js_limb list \<Rightarrow> js_limb \<Rightarrow> (js_limb list \<times> js_limb) option" where
  "add_back win tabb q =
     (case mp_add (take (length tabb) win) tabb 0 of (t, c) \<Rightarrow>
        if c \<noteq> 0 then
          if win ! length tabb + 1 = 0 then Some (store_at (win[length tabb := win ! length tabb + 1]) 0 t, q - 1)
          else add_back (store_at (win[length tabb := win ! length tabb + 1]) 0 t) tabb (q - 1)
        else add_back (store_at win 0 t) tabb (q - 1))"

text \<open>One limb of the quotient: \<open>win\<close> are the limbs of \<^verbatim>\<open>taba\<close> from \<open>i\<close> to \<open>i + nb\<close>.\<close>

definition divnorm_step :: "js_limb list \<Rightarrow> js_limb list \<Rightarrow> js_limb \<Rightarrow> (js_limb list \<times> js_limb) option" where
  "divnorm_step win tabb b1_inv =
     (let nb = length tabb;
          q = quo_estimate (win ! nb) (win ! (nb - 1)) (tabb ! (nb - 1)) b1_inv;
          (t, r) = mp_sub_mul1 (take nb win) tabb q 0;
          v = win ! nb;
          a = v - r;
          win = t @ [a]
      in if a > v then add_back win tabb q else Some (win, q))"

fun divnorm_loop :: "js_limb list \<Rightarrow> js_limb list \<Rightarrow> js_limb list \<Rightarrow> js_limb \<Rightarrow> nat \<Rightarrow> (js_limb list \<times> js_limb list) option" where
  "divnorm_loop tabq taba tabb b1_inv 0 = Some (tabq, taba)"
| "divnorm_loop tabq taba tabb b1_inv (Suc i) =
     (case divnorm_step (take (length tabb + 1) (drop i taba)) tabb b1_inv of None \<Rightarrow> None
      | Some (win, q) \<Rightarrow> divnorm_loop (tabq[i := q]) (store_at taba i win) tabb b1_inv i)"

definition mp_divnorm :: "js_limb list \<Rightarrow> js_limb list \<Rightarrow> js_limb list \<Rightarrow> (js_limb list \<times> js_limb list) option" where
  "mp_divnorm tabq taba tabb =
     (let nb = length tabb;
          b1 = tabb ! (nb - 1)
      in if nb = 1 then
           let (t, r) = mp_div1norm_js taba b1 0 in Some (store_at tabq 0 t, taba[0 := r])
         else
           let n = length taba - nb;
               b1_inv = (if n \<ge> UDIV1NORM_THRESHOLD then udiv1norm_init_js b1 else 0);
               q = cmp_ge (rev (drop n taba)) (rev tabb);
               tabq = tabq[n := (if q then 1 else 0)];
               taba = (if q then store_at taba n (fst (mp_sub (drop n taba) tabb 0)) else taba)
           in divnorm_loop tabq taba tabb b1_inv n)"

fun mp_shl_loop_js :: "js_limb list \<Rightarrow> nat \<Rightarrow> js_limb \<Rightarrow> js_limb list \<times> js_limb" where
  "mp_shl_loop_js [] shift l = ([], l)"
| "mp_shl_loop_js (v # taba) shift l =
     (let (tabr, l') = mp_shl_loop_js taba shift (drop_bit (64 - shift) v) in ((push_bit shift v OR l) # tabr, l'))"

definition mp_shl_js :: "js_limb list \<Rightarrow> nat \<Rightarrow> js_limb list \<times> js_limb" where
  "mp_shl_js taba shift = mp_shl_loop_js taba shift 0"

fun mp_shr_loop_js :: "js_limb list \<Rightarrow> nat \<Rightarrow> js_limb \<Rightarrow> js_limb list \<times> js_limb" where
  "mp_shr_loop_js [] shift l = ([], l)"
| "mp_shr_loop_js (a # tab) shift l =
     (let (tab_r, l) = mp_shr_loop_js tab shift l in ((drop_bit shift a OR push_bit (64 - shift) l) # tab_r, a))"

definition mp_shr_js :: "js_limb list \<Rightarrow> nat \<Rightarrow> js_limb \<Rightarrow> js_limb list \<times> js_limb" where
  "mp_shr_js tab shift high =
     (let (tab_r, l) = mp_shr_loop_js tab shift high in (tab_r, l AND (push_bit shift 1 - 1)))"

subsection \<open>Values\<close>

definition LB :: int where
  "LB = 2 ^ 64"

primrec lval :: "js_limb list \<Rightarrow> int" where
  "lval [] = 0"
| "lval (x # xs) = uint x + LB * lval xs"

lemma LB_pos [simp]: "0 < LB" "LB \<noteq> 0" "0 \<le> LB"
  by (simp_all add: LB_def)

lemma limb_range: "0 \<le> uint (x :: js_limb)" "uint x < LB"
  using uint_lt2p [of x] by (simp_all add: LB_def)

lemma lval_range: "0 \<le> lval xs" "lval xs < LB ^ length xs"
proof -
  have "0 \<le> lval xs \<and> lval xs < LB ^ length xs"
  proof (induction xs)
    case (Cons x xs)
    have "uint x + LB * lval xs < LB + LB * lval xs" using limb_range(2) [of x] by simp
    also have "\<dots> = LB * (lval xs + 1)" by (simp add: distrib_left)
    also have "\<dots> \<le> LB * LB ^ length xs" using Cons by (intro mult_left_mono) auto
    finally show ?case using Cons limb_range(1) [of x] by simp
  qed simp
  then show "0 \<le> lval xs" "lval xs < LB ^ length xs" by simp_all
qed

lemma lval_append: "lval (xs @ ys) = lval xs + LB ^ length xs * lval ys"
  by (induction xs) (simp_all add: algebra_simps)

lemma lval_zeros [simp]: "lval (replicate n 0) = 0"
  by (induction n) simp_all

lemma lval_inj: "lval xs = lval ys \<Longrightarrow> length xs = length ys \<Longrightarrow> xs = ys"
proof (induction xs arbitrary: ys)
  case (Cons x xs)
  then obtain y zs where ys: "ys = y # zs" by (cases ys) auto
  have e: "uint x + LB * lval xs = uint y + LB * lval zs" using Cons(2) ys by simp
  then have "(uint x + LB * lval xs) mod LB = (uint y + LB * lval zs) mod LB" by simp
  then have "uint x = uint y" using limb_range [of x] limb_range [of y] by simp
  moreover from this e have "lval xs = lval zs" by simp
  ultimately show ?case using Cons(1) [of zs] Cons(3) ys by (simp add: word_uint_eq_iff)
qed simp

text \<open>Single words.\<close>

lemma limb_ariths: "uint (x + y) = (uint x + uint y) mod LB" "uint (x - y) = (uint x - uint y) mod LB"
  "uint (- x) = - uint x mod LB" "uint (NOT x) = LB - 1 - uint x" for x y :: js_limb
proof -
  show "uint (x + y) = (uint x + uint y) mod LB" "uint (x - y) = (uint x - uint y) mod LB" "uint (- x) = - uint x mod LB"
    by (simp_all add: uint_word_ariths LB_def)
  have "NOT x = - x - 1" by (simp add: not_eq_complement)
  then have "uint (NOT x) = (- uint x - 1) mod LB" by (simp add: uint_word_ariths LB_def mod_simps)
  also have "\<dots> = (- uint x - 1 + LB) mod LB" by simp
  also have "\<dots> = LB - 1 - uint x" by (subst mod_pos_pos_trivial) (use limb_range [of x] in linarith)+
  finally show "uint (NOT x) = LB - 1 - uint x" .
qed

lemma mod_once: "0 \<le> s \<Longrightarrow> s < 2 * LB \<Longrightarrow> s mod LB = (if s < LB then s else s - LB)"
  using mod_pos_pos_trivial [of s LB] mod_pos_pos_trivial [of "s - LB" LB] by auto

lemma mod_below: "- LB \<le> s \<Longrightarrow> s < LB \<Longrightarrow> s mod LB = (if 0 \<le> s then s else s + LB)"
  using mod_pos_pos_trivial [of s LB] mod_pos_pos_trivial [of "s + LB" LB] by auto

lemma or_bits: "a \<in> {0, 1} \<Longrightarrow> b \<in> {0, 1} \<Longrightarrow> (a = 0 \<or> b = 0) \<Longrightarrow> a OR b = (a + b :: js_limb)"
  by auto

lemma addc_val:
  assumes "addc x y k = (r, k')" "uint k \<le> 1"
  shows "uint r + LB * uint k' = uint x + uint y + uint k" "uint k' \<le> 1"
proof -
  define a where "a = x + y"
  have a: "uint a = (if uint x + uint y < LB then uint x + uint y else uint x + uint y - LB)"
    unfolding a_def limb_ariths by (intro mod_once) (use limb_range [of x] limb_range [of y] in linarith)+
  have c1: "a < x \<longleftrightarrow> LB \<le> uint x + uint y" using a limb_range [of y] by (auto simp: word_less_def)
  have r: "r = a + k" "k' = (if r < k then 1 else 0) OR (if a < x then 1 else 0)" using assms(1) by (auto simp: addc_def Let_def a_def)
  have ur: "uint r = (if uint a + uint k < LB then uint a + uint k else uint a + uint k - LB)"
    unfolding r(1) limb_ariths by (intro mod_once) (use limb_range [of a] assms(2) limb_range [of k] in linarith)+
  have c2: "r < k \<longleftrightarrow> LB \<le> uint a + uint k" using ur limb_range [of a] limb_range [of k] by (auto simp: word_less_def)
  have "\<not> (a < x \<and> r < k)" using c1 c2 a assms(2) limb_range [of x] limb_range [of y] by auto
  then have "uint k' = (if r < k then 1 else 0) + (if a < x then 1 else 0)" unfolding r(2) by auto
  then show "uint r + LB * uint k' = uint x + uint y + uint k" "uint k' \<le> 1"
    using ur a c1 c2 \<open>\<not> (a < x \<and> r < k)\<close> by (auto split: if_splits)
qed

lemma mp_add_val:
  "mp_add op1 op2 k = (res, k') \<Longrightarrow> length op1 = length op2 \<Longrightarrow> uint k \<le> 1 \<Longrightarrow>
   length res = length op1 \<and> uint k' \<le> 1 \<and> lval res + LB ^ length op1 * uint k' = lval op1 + lval op2 + uint k"
proof (induction op1 op2 k arbitrary: res k' rule: mp_add.induct)
  case (1 x op1 y op2 k)
  obtain r k1 where a: "addc x y k = (r, k1)" by fastforce
  obtain rs where rs: "mp_add op1 op2 k1 = (rs, k')" "res = r # rs" using 1(2) a by (auto split: prod.splits)
  note av = addc_val [OF a 1(4)]
  have ih: "length rs = length op1" "uint k' \<le> 1" "lval rs + LB ^ length op1 * uint k' = lval op1 + lval op2 + uint k1"
    using 1(1) [OF a [symmetric] refl rs(1)] 1(3) av(2) by auto
  have "uint r + LB * (lval rs + LB ^ length op1 * uint k') = uint x + LB * lval op1 + (uint y + LB * lval op2) + uint k"
    unfolding ih(3) using av(1) by (simp add: algebra_simps)
  then show ?case using rs(2) ih by (simp add: algebra_simps)
qed auto

lemma mp_sub_val:
  "mp_sub op1 op2 k = (res, k') \<Longrightarrow> length op1 = length op2 \<Longrightarrow> uint k \<le> 1 \<Longrightarrow>
   length res = length op1 \<and> uint k' \<le> 1 \<and> lval res - LB ^ length op1 * uint k' = lval op1 - lval op2 - uint k"
proof (induction op1 op2 k arbitrary: res k' rule: mp_sub.induct)
  case (1 x op1 y op2 k)
  define a where "a = x - y"
  define v where "v = a - k"
  define k1 :: js_limb where "k1 = (if v > a then 1 else 0) OR (if a > x then 1 else 0)"
  obtain rs where rs: "mp_sub op1 op2 k1 = (rs, k')" "res = v # rs"
    using 1(2) by (auto simp: Let_def a_def v_def k1_def split: prod.splits)
  have a: "uint a = (if 0 \<le> uint x - uint y then uint x - uint y else uint x - uint y + LB)"
    unfolding a_def limb_ariths by (intro mod_below) (use limb_range [of x] limb_range [of y] in linarith)+
  have c1: "a > x \<longleftrightarrow> uint x < uint y" using a limb_range [of y] by (auto simp: word_less_def)
  have v: "uint v = (if 0 \<le> uint a - uint k then uint a - uint k else uint a - uint k + LB)"
    unfolding v_def limb_ariths by (intro mod_below) (use limb_range [of a] limb_range [of k] in linarith)+
  have c2: "v > a \<longleftrightarrow> uint a < uint k" using v limb_range [of k] by (auto simp: word_less_def)
  have n: "\<not> (v > a \<and> a > x)"
  proof
    assume "v > a \<and> a > x"
    then have "uint a < uint k" "uint a = uint x - uint y + LB" using c1 c2 a by auto
    then show False using 1(4) limb_range [of x] limb_range [of y] by linarith
  qed
  then have uk: "uint k1 = (if v > a then 1 else 0) + (if a > x then 1 else 0)" unfolding k1_def by auto
  have st: "uint v - LB * uint k1 = uint x - uint y - uint k" "uint k1 \<le> 1" using uk n a v c1 c2 by (auto split: if_splits)
  have ih: "length rs = length op1" "uint k' \<le> 1" "lval rs - LB ^ length op1 * uint k' = lval op1 - lval op2 - uint k1"
    using 1(1) [OF refl refl refl refl, folded a_def, folded v_def, folded k1_def, OF rs(1)] 1(3) st(2) by simp_all
  have "uint v + LB * (lval rs - LB ^ length op1 * uint k') = uint x + LB * lval op1 - (uint y + LB * lval op2) - uint k"
    unfolding ih(3) using st(1) by (simp add: algebra_simps)
  then show ?case using rs(2) ih by (simp add: algebra_simps)
qed auto

lemma mp_neg_loop_val:
  "mp_neg_loop op2 k = (res, k') \<Longrightarrow> uint k \<le> 1 \<Longrightarrow>
   length res = length op2 \<and> uint k' \<le> 1 \<and> lval res + LB ^ length op2 * uint k' = LB ^ length op2 - 1 - lval op2 + uint k"
proof (induction op2 k arbitrary: res k' rule: mp_neg_loop.induct)
  case (2 x op2 k)
  define v where "v = NOT x + k"
  define k1 :: js_limb where "k1 = (if v < k then 1 else 0)"
  obtain rs where rs: "mp_neg_loop op2 k1 = (rs, k')" "res = v # rs"
    using 2(2) by (auto simp: Let_def v_def k1_def split: prod.splits)
  have v: "uint v = (if uint (NOT x) + uint k < LB then uint (NOT x) + uint k else uint (NOT x) + uint k - LB)"
    unfolding v_def limb_ariths(1) by (intro mod_once) (use limb_range [of "NOT x"] limb_range [of k] in linarith)+
  have c: "v < k \<longleftrightarrow> LB \<le> uint (NOT x) + uint k" using v limb_range [of "NOT x"] limb_range [of k] by (auto simp: word_less_def)
  have st: "uint v + LB * uint k1 = LB - 1 - uint x + uint k" "uint k1 \<le> 1" using v c by (auto simp: k1_def limb_ariths(4))
  have ih: "length rs = length op2" "uint k' \<le> 1" "lval rs + LB ^ length op2 * uint k' = LB ^ length op2 - 1 - lval op2 + uint k1"
    using 2(1) [OF v_def rs(1) [unfolded k1_def]] st(2) by (simp_all add: k1_def)
  have "uint v + LB * (lval rs + LB ^ length op2 * uint k') = LB * LB ^ length op2 - 1 - (uint x + LB * lval op2) + uint k"
    unfolding ih(3) using st(1) by (simp add: algebra_simps)
  then show ?case using rs(2) ih by (simp add: algebra_simps)
qed auto

text \<open>Double words.\<close>

lemma dlimb_uint: "uint (ucast (x :: js_limb) :: js_dlimb) = uint x"
  by (simp add: uint_up_ucast is_up)

lemma dlimb_low: "uint (ucast (t :: js_dlimb) :: js_limb) = uint t mod LB"
  by (simp add: unsigned_ucast_eq take_bit_eq_mod LB_def)

lemma drop64: "uint (drop_bit 64 (t :: js_dlimb)) = uint t div LB"
  by (simp add: drop_bit_eq_div uint_div_distrib LB_def)

lemma dlimb_high: "uint (ucast (drop_bit 64 (t :: js_dlimb)) :: js_limb) = uint t div LB"
proof -
  have "uint t < LB * LB" using uint_lt2p [of t] by (simp add: LB_def)
  moreover have "uint t = LB * (uint t div LB) + uint t mod LB" "0 \<le> uint t mod LB" by simp_all
  ultimately have "LB * (uint t div LB) < LB * LB" by linarith
  then have "uint t div LB < LB" by simp
  then show ?thesis by (simp add: dlimb_low drop64 mod_pos_pos_trivial pos_imp_zdiv_nonneg_iff)
qed

lemma dlimb_mod: "uint (t :: js_dlimb) = uint t mod (LB * LB)"
  using uint_lt2p [of t] by (simp add: LB_def)

lemma dlimb_small: "0 \<le> n \<Longrightarrow> n < LB * LB \<Longrightarrow> uint (word_of_int n :: js_dlimb) = n"
  by (simp add: LB_def uint_word_of_int)

lemma dlimb_wi: "uint (word_of_int n :: js_dlimb) = n mod (LB * LB)"
  by (simp add: uint_word_of_int LB_def)

lemma dlimb_word: "(ucast (x :: js_limb) :: js_dlimb) = word_of_int (uint x)"
  by (rule ucast_eq)

lemma mul_bound: "0 \<le> a \<Longrightarrow> a < LB \<Longrightarrow> 0 \<le> b \<Longrightarrow> b < LB \<Longrightarrow> 0 \<le> a * b \<and> a * b \<le> (LB - 1) * (LB - 1)"
  by (auto intro!: mult_mono)

lemma dlimb_muladd:
  "uint (ucast (x :: js_limb) * ucast (b :: js_limb) + ucast (l :: js_limb) + ucast (r :: js_limb) :: js_dlimb) = uint x * uint b + uint l + uint r"
proof -
  have "uint x * uint b \<le> (LB - 1) * (LB - 1)" "0 \<le> uint x * uint b"
    using mul_bound [of "uint x" "uint b"] limb_range [of x] limb_range [of b] by auto
  moreover have "(LB - 1) * (LB - 1) = LB * LB - 2 * LB + 1" by (simp add: algebra_simps)
  ultimately have "0 \<le> uint x * uint b + uint l + uint r" "uint x * uint b + uint l + uint r < LB * LB"
    using limb_range [of l] limb_range [of r] by linarith+
  note small = dlimb_small [OF this]
  have "ucast x * ucast b + ucast l + ucast r = (word_of_int (uint x * uint b + uint l + uint r) :: js_dlimb)"
    by (simp only: dlimb_word wi_hom_mult wi_hom_add)
  then show ?thesis using small by (simp only:)
qed

lemma mp_mul1_js_val:
  "mp_mul1_js tab b l = (tab', l') \<Longrightarrow>
   length tab' = length tab \<and> lval tab' + LB ^ length tab * uint l' = lval tab * uint b + uint l"
proof (induction tab b l arbitrary: tab' l' rule: mp_mul1_js.induct)
  case (2 x tab b l)
  define t :: js_dlimb where "t = ucast x * ucast b + ucast l"
  obtain ts where ts: "mp_mul1_js tab b (ucast (drop_bit 64 t)) = (ts, l')" "tab' = ucast t # ts"
    using 2(2) by (auto simp: Let_def t_def split: prod.splits)
  have t: "uint t = uint x * uint b + uint l" using dlimb_muladd [of x b l 0] by (simp add: t_def)
  have ih: "length ts = length tab" "lval ts + LB ^ length tab * uint l' = lval tab * uint b + uint t div LB"
    using 2(1) [OF t_def ts(1)] by (simp_all add: dlimb_high)
  have "uint t mod LB + LB * (lval ts + LB ^ length tab * uint l') = uint t + LB * (lval tab * uint b)"
    unfolding ih(2) by (simp add: algebra_simps)
  then show ?case using ts(2) ih(1) t by (simp add: dlimb_low algebra_simps)
qed simp

lemma mp_add_mul1_val:
  "mp_add_mul1 tabr taba b l = (tab', l') \<Longrightarrow> length tabr = length taba \<Longrightarrow>
   length tab' = length taba \<and> lval tab' + LB ^ length taba * uint l' = lval tabr + lval taba * uint b + uint l"
proof (induction tabr taba b l arbitrary: tab' l' rule: mp_add_mul1.induct)
  case (1 r tabr x taba b l)
  define t :: js_dlimb where "t = ucast x * ucast b + ucast l + ucast r"
  obtain ts where ts: "mp_add_mul1 tabr taba b (ucast (drop_bit 64 t)) = (ts, l')" "tab' = ucast t # ts"
    using 1(2) by (auto simp: Let_def t_def split: prod.splits)
  have t: "uint t = uint x * uint b + uint l + uint r" unfolding t_def by (rule dlimb_muladd)
  have ih: "length ts = length taba" "lval ts + LB ^ length taba * uint l' = lval tabr + lval taba * uint b + uint t div LB"
    using 1(1) [OF t_def ts(1)] 1(3) by (simp_all add: dlimb_high)
  have "uint t mod LB + LB * (lval ts + LB ^ length taba * uint l') = uint t + LB * (lval tabr + lval taba * uint b)"
    unfolding ih(2) by (simp add: algebra_simps)
  then show ?case using ts(2) ih(1) t by (simp add: dlimb_low algebra_simps)
qed auto

lemma sub_mul_step:
  fixes r x b l :: js_limb
  defines "t \<equiv> ucast r - ucast x * ucast b - ucast l :: js_dlimb"
  shows "uint (ucast t :: js_limb) - LB * uint (ucast (- drop_bit 64 t) :: js_limb) = uint r - uint x * uint b - uint l"
proof -
  define n where "n = uint r - uint x * uint b - uint l"
  have "uint x * uint b \<le> (LB - 1) * (LB - 1)" "0 \<le> uint x * uint b"
    using mul_bound [of "uint x" "uint b"] limb_range [of x] limb_range [of b] by auto
  moreover have "(LB - 1) * (LB - 1) = LB * LB - 2 * LB + 1" by (simp add: algebra_simps)
  moreover have "(LB - 1) * LB = LB * LB - LB" by (simp add: algebra_simps)
  ultimately have n: "n < LB" "- ((LB - 1) * LB) \<le> n" using limb_range [of l] limb_range [of r] unfolding n_def by linarith+
  have "t = word_of_int n" by (simp only: t_def n_def dlimb_word wi_hom_mult wi_hom_sub)
  then have t: "uint t = n mod (LB * LB)" by (simp add: uint_word_of_int LB_def)
  have "uint (drop_bit 64 t) = n div LB mod LB"
  proof -
    have "uint (drop_bit 64 t) = n mod (LB * LB) div LB" unfolding t [symmetric] by (rule drop64)
    also have "\<dots> = n div LB mod LB" by (simp add: zmod_zmult2_eq div_mult2_eq)
    finally show ?thesis .
  qed
  moreover have "uint (- drop_bit 64 t) = (- uint (drop_bit 64 t)) mod (LB * LB)" by (simp add: uint_word_ariths LB_def)
  ultimately have "uint (ucast (- drop_bit 64 t) :: js_limb) = (- (n div LB mod LB)) mod (LB * LB) mod LB" by (simp add: dlimb_low)
  also have "\<dots> = - (n div LB) mod LB" by (simp add: mod_mod_cancel mod_minus_eq)
  also have "\<dots> = - (n div LB)"
  proof (rule mod_pos_pos_trivial)
    have "n div LB \<le> 0" using zdiv_mono1 [of n "LB - 1" LB] n(1) div_pos_pos_trivial [of "LB - 1" LB] by (simp add: LB_def)
    then show "0 \<le> - (n div LB)" by simp
    have "- ((LB - 1) * LB) div LB = - (LB - 1)" unfolding minus_mult_left by (rule nonzero_mult_div_cancel_right) simp
    then have "- (LB - 1) \<le> n div LB" using zdiv_mono1 [OF n(2) LB_pos(1)] by simp
    then show "- (n div LB) < LB" by simp
  qed
  finally have h: "uint (ucast (- drop_bit 64 t) :: js_limb) = - (n div LB)" .
  have "uint (ucast t :: js_limb) = n mod LB" by (simp add: dlimb_low t mod_mod_cancel)
  then show ?thesis unfolding h n_def [symmetric] by simp
qed

lemma mp_sub_mul1_val:
  "mp_sub_mul1 tabr taba b l = (tab', l') \<Longrightarrow> length tabr = length taba \<Longrightarrow>
   length tab' = length taba \<and> lval tab' - LB ^ length taba * uint l' = lval tabr - lval taba * uint b - uint l"
proof (induction tabr taba b l arbitrary: tab' l' rule: mp_sub_mul1.induct)
  case (1 r tabr x taba b l)
  define t :: js_dlimb where "t = ucast r - ucast x * ucast b - ucast l"
  obtain ts where ts: "mp_sub_mul1 tabr taba b (ucast (- drop_bit 64 t)) = (ts, l')" "tab' = ucast t # ts"
    using 1(2) by (auto simp: Let_def t_def split: prod.splits)
  note st = sub_mul_step [of r x b l, folded t_def]
  have ih: "length ts = length taba" "lval ts - LB ^ length taba * uint l' = lval tabr - lval taba * uint b - uint (ucast (- drop_bit 64 t) :: js_limb)"
    using 1(1) [OF t_def ts(1)] 1(3) by simp_all
  have "uint (ucast t :: js_limb) + LB * (lval ts - LB ^ length taba * uint l') = uint r - uint x * uint b - uint l + LB * (lval tabr - lval taba * uint b)"
    unfolding ih(2) st [symmetric] by (simp add: algebra_simps)
  then show ?case using ts(2) ih(1) by (simp add: algebra_simps)
qed auto

subsection \<open>Multiplication\<close>

lemma store_at_length [simp]: "i + length xs \<le> length tab \<Longrightarrow> length (store_at tab i xs) = length tab"
  by (simp add: store_at_def)

lemma take_store_at:
  assumes "i + length xs \<le> length tab"
  shows "take (i + length xs) (store_at tab i xs) = take i tab @ xs" "k \<le> i \<Longrightarrow> take k (store_at tab i xs) = take k tab"
    "i + length xs \<le> k \<Longrightarrow> drop k (store_at tab i xs) = drop k tab"
proof -
  have l: "i \<le> length tab" using assms by simp
  show "take (i + length xs) (store_at tab i xs) = take i tab @ xs" using l by (simp add: store_at_def min_absorb2)
  show "take k (store_at tab i xs) = take k tab" if "k \<le> i" using that l by (simp add: store_at_def min_absorb1)
  show "drop k (store_at tab i xs) = drop k tab" if "i + length xs \<le> k"
    using that l by (simp add: store_at_def min_absorb2)
qed

lemma mul_loop_val:
  assumes "op1 \<noteq> []"
  shows "length result = length op1 + i + length op2 \<Longrightarrow> lval (take (i + length op1) result) = lval op1 * lval done \<Longrightarrow> length done = i \<Longrightarrow>
    length (mul_loop result op1 i op2) = length result \<and> lval (mul_loop result op1 i op2) = lval op1 * lval (done @ op2)"
proof (induction op2 arbitrary: result i "done")
  case Nil
  then show ?case by (simp add: add.commute)
next
  case (Cons y op2)
  define n where "n = length op1"
  obtain t r where tr: "mp_add_mul1 (take n (drop i result)) op1 y 0 = (t, r)" by fastforce
  define res where "res = (store_at result i t)[i + n := r]"
  have len: "length t = n" and tv: "lval t + LB ^ n * uint r = lval (take n (drop i result)) + lval op1 * uint y"
    using mp_add_mul1_val [OF tr] Cons(2) by (simp_all add: n_def)
  have fit: "i + length t \<le> length result" using Cons(2) len by (simp add: n_def)
  have lr: "length res = length result" using fit by (simp add: res_def)
  have "take (i + n) (store_at result i t) = take i result @ t" using take_store_at(1) [OF fit] len by simp
  moreover have "i + n < length (store_at result i t)" using fit len Cons(2) by (simp add: n_def)
  ultimately have tk: "take (Suc (i + n)) res = take i result @ t @ [r]" by (simp add: res_def take_Suc_conv_app_nth)
  have old: "lval (take (i + n) result) = lval (take i result) + LB ^ i * lval (take n (drop i result))"
    using Cons(2) by (simp add: take_add lval_append n_def)
  have "lval (take (Suc i + n) res) = lval (take i result) + LB ^ i * (lval t + LB ^ n * uint r)"
    using tk len Cons(2) by (simp add: lval_append n_def)
  also have "\<dots> = lval (take (i + n) result) + LB ^ i * (lval op1 * uint y)" unfolding tv old by (simp add: algebra_simps)
  also have "\<dots> = lval op1 * lval (done @ [y])" using Cons(3,4) by (simp add: n_def lval_append algebra_simps)
  finally have "length (mul_loop res op1 (Suc i) op2) = length res \<and> lval (mul_loop res op1 (Suc i) op2) = lval op1 * lval ((done @ [y]) @ op2)"
    using Cons(2,4) lr by (intro Cons(1)) (simp_all add: n_def)
  then show ?case using tr lr by (simp add: n_def res_def)
qed

lemma mp_mul_basecase_val:
  assumes "op1 \<noteq> []" "op2 \<noteq> []" "length result = length op1 + length op2"
  shows "length (mp_mul_basecase result op1 op2) = length op1 + length op2" "lval (mp_mul_basecase result op1 op2) = lval op1 * lval op2"
proof -
  obtain y ys where op2: "op2 = y # ys" using assms(2) by (cases op2) auto
  obtain t r where tr: "mp_mul1_js op1 y 0 = (t, r)" by fastforce
  define res where "res = (store_at result 0 t)[length op1 := r]"
  have t: "length t = length op1" "lval t + LB ^ length op1 * uint r = lval op1 * uint y" using mp_mul1_js_val [OF tr] by simp_all
  have "take (Suc (length op1)) res = t @ [r]"
    using t(1) assms(3) op2 take_store_at(1) [of 0 t result] by (simp add: res_def take_Suc_conv_app_nth)
  then have "lval (take (1 + length op1) res) = lval op1 * lval [y]" using t by (simp add: lval_append)
  from mul_loop_val [OF assms(1) _ this, of ys] assms(3) op2 t(1)
  have "length (mul_loop res op1 1 ys) = length res \<and> lval (mul_loop res op1 1 ys) = lval op1 * lval op2" "length res = length op1 + length op2"
    by (simp_all add: res_def)
  then show "length (mp_mul_basecase result op1 op2) = length op1 + length op2" "lval (mp_mul_basecase result op1 op2) = lval op1 * lval op2"
    using tr by (simp_all add: mp_mul_basecase_def op2 res_def)
qed

subsection \<open>Shifts and division by one limb\<close>

lemma unat_less_pow: "uint (x :: 'a :: len word) < 2 ^ s \<Longrightarrow> unat x < 2 ^ s"
  unfolding of_nat_less_iff [where ?'a = int, symmetric] uint_nat by simp

lemma limb_drop: "uint (drop_bit s (a :: js_limb)) = uint a div 2 ^ s"
  unfolding uint_nat unat_drop by (simp add: zdiv_int)

lemma mod_div_mult: "(a mod m) * k + (m * k) * (a div m) = a * (k :: int)"
proof -
  have "(a mod m) * k + (m * k) * (a div m) = (a div m * m + a mod m) * k" by (simp only: distrib_left distrib_right ac_simps)
  then show ?thesis by simp
qed

lemma limb_push:
  assumes "s \<le> 64"
  shows "uint (push_bit s (a :: js_limb)) = (uint a mod 2 ^ (64 - s)) * 2 ^ s" "LB = 2 ^ (64 - s) * 2 ^ s"
proof -
  show p: "LB = 2 ^ (64 - s) * 2 ^ s" using assms by (simp add: LB_def flip: power_add)
  have "uint (push_bit s a) = uint a * 2 ^ s mod LB"
    unfolding uint_nat unat_push by (simp add: zmod_int LB_def)
  then show "uint (push_bit s a) = (uint a mod 2 ^ (64 - s)) * 2 ^ s" unfolding p by (simp add: mult_mod_left)
qed

lemma or_limb:
  assumes "uint (l :: js_limb) < 2 ^ s" "s \<le> 64"
  shows "uint (push_bit s a OR l) = (uint a mod 2 ^ (64 - s)) * 2 ^ s + uint l"
proof -
  have "unat l < 2 ^ s" using assms(1) by (rule unat_less_pow)
  then have "l OR push_bit s a = l + push_bit s a" by (rule or_high) (simp add: take_bit_push_bit)
  moreover have "uint l + uint (push_bit s a) < LB"
  proof -
    have "uint a mod 2 ^ (64 - s) < 2 ^ (64 - s)" by (rule pos_mod_bound) simp
    then have "uint a mod 2 ^ (64 - s) + 1 \<le> 2 ^ (64 - s)" by linarith
    then have "(uint a mod 2 ^ (64 - s) + 1) * 2 ^ s \<le> LB" unfolding limb_push(2) [OF assms(2)] by (intro mult_right_mono) simp_all
    then show ?thesis using assms(1) unfolding limb_push(1) [OF assms(2)] by (simp add: distrib_right)
  qed
  ultimately have "uint (push_bit s a OR l) = uint l + uint (push_bit s a)"
    using limb_range [of l] limb_range [of "push_bit s a"] by (simp add: or.commute limb_ariths(1) mod_pos_pos_trivial)
  then show ?thesis using limb_push(1) [OF assms(2), of a] by simp
qed

lemma dlimb_of: "uint (js_dlimb_of r x) = uint r * LB + uint x"
proof -
  have "unat (ucast x :: js_dlimb) < 2 ^ 64" using limb_range [of x] by (intro unat_less_pow) (simp add: dlimb_uint LB_def)
  then have "(ucast x :: js_dlimb) OR push_bit 64 (ucast r) = ucast x + push_bit 64 (ucast r)"
    by (intro or_high [where k = 64]) (simp_all add: take_bit_push_bit)
  then have "js_dlimb_of r x = ucast x + push_bit 64 (ucast r)" by (simp only: or.commute)
  moreover have "push_bit 64 (ucast r) = (word_of_int (uint r * LB) :: js_dlimb)"
    unfolding push_bit_eq_mult dlimb_word wi_hom_mult by (simp add: LB_def)
  moreover have "ucast x + word_of_int (uint r * LB) = (word_of_int (uint r * LB + uint x) :: js_dlimb)"
    unfolding dlimb_word wi_hom_add by (simp add: add.commute)
  ultimately have "js_dlimb_of r x = word_of_int (uint r * LB + uint x)" by (simp only:)
  moreover have "uint r * LB + uint x < LB * LB"
  proof -
    have "(uint r + 1) * LB \<le> LB * LB" using limb_range [of r] by (intro mult_right_mono) auto
    then show ?thesis using limb_range [of x] by (simp add: distrib_right)
  qed
  moreover have "0 \<le> uint r * LB + uint x" using limb_range [of x] limb_range [of r] by simp
  ultimately show ?thesis using dlimb_small [of "uint r * LB + uint x"] by (simp only:)
qed

lemma mp_shl_loop_val:
  assumes "mp_shl_loop_js tab s l = (tab', l')" and "1 \<le> s" "s \<le> 63" "uint l < 2 ^ s"
  shows "length tab' = length tab \<and> uint l' < 2 ^ s \<and> lval tab' + LB ^ length tab * uint l' = lval tab * 2 ^ s + uint l"
  using assms
proof (induction tab s l arbitrary: tab' l' rule: mp_shl_loop_js.induct)
  case (2 a tab s l)
  define h where "h = drop_bit (64 - s) a"
  obtain ts where ts: "mp_shl_loop_js tab s h = (ts, l')" "tab' = (push_bit s a OR l) # ts"
    using 2(2) by (auto simp: Let_def h_def split: prod.splits)
  have s: "s \<le> 64" using 2(4) by simp
  have hv: "uint h = uint a div 2 ^ (64 - s)" by (simp add: h_def limb_drop)
  have dm: "uint a = (uint a div 2 ^ (64 - s)) * 2 ^ (64 - s) + uint a mod 2 ^ (64 - s)" by (rule div_mult_mod_eq [symmetric])
  have "uint h < 2 ^ s"
  proof -
    have "uint a < 2 ^ s * 2 ^ (64 - s)" using limb_range(2) [of a] limb_push(2) [OF s] by (simp add: mult.commute)
    then have "uint h * 2 ^ (64 - s) < 2 ^ s * 2 ^ (64 - s)" using dm hv by (smt (verit) pos_mod_sign zero_less_power zero_less_numeral)
    then show ?thesis by simp
  qed
  then have ih: "length ts = length tab" "uint l' < 2 ^ s" "lval ts + LB ^ length tab * uint l' = lval tab * 2 ^ s + uint h"
    using 2(1) [OF ts(1) [unfolded h_def] 2(3,4)] by (simp_all add: h_def)
  have "(uint a mod 2 ^ (64 - s)) * 2 ^ s + LB * uint h = uint a * 2 ^ s"
    unfolding limb_push(2) [OF s] hv by (rule mod_div_mult)
  then have "uint (push_bit s a OR l) + LB * (lval ts + LB ^ length tab * uint l') = (uint a + LB * lval tab) * 2 ^ s + uint l"
    unfolding ih(3) or_limb [OF 2(5) s] by (simp add: algebra_simps)
  then show ?case using ts(2) ih(1,2) by (simp add: algebra_simps)
qed simp

lemma mp_shl_js_val:
  assumes "mp_shl_js tab s = (tab', l)" "1 \<le> s" "s \<le> 63"
  shows "length tab' = length tab" "uint l < 2 ^ s" "lval tab' + LB ^ length tab * uint l = lval tab * 2 ^ s"
  using mp_shl_loop_val [OF assms(1) [unfolded mp_shl_js_def] assms(2,3)] by simp_all

lemma mp_shr_loop_js_val:
  assumes "mp_shr_loop_js tab s h = (tab', l)" and "1 \<le> s" "s \<le> 63"
  shows "length tab' = length tab \<and>
    lval tab + LB ^ length tab * (uint h mod 2 ^ s) = 2 ^ s * lval tab' + uint l mod 2 ^ s"
  using assms
proof (induction tab s h arbitrary: tab' l rule: mp_shr_loop_js.induct)
  case (2 a tab s h)
  obtain ts k where ts: "mp_shr_loop_js tab s h = (ts, k)" by fastforce
  have res: "tab' = (push_bit (64 - s) k OR drop_bit s a) # ts" "l = a" using 2(2) ts by (auto simp: or.commute)
  have ih: "length ts = length tab" "lval tab + LB ^ length tab * (uint h mod 2 ^ s) = 2 ^ s * lval ts + uint k mod 2 ^ s"
    using 2(1) [OF ts 2(3,4)] by simp_all
  have s: "s \<le> 64" "64 - (64 - s) = s" using 2(4) by auto
  have d: "uint (drop_bit s a) = uint a div 2 ^ s" by (rule limb_drop)
  have dm: "uint a = (uint a div 2 ^ s) * 2 ^ s + uint a mod 2 ^ s" by (rule div_mult_mod_eq [symmetric])
  have "uint (drop_bit s a) < 2 ^ (64 - s)"
  proof -
    have "uint a < 2 ^ (64 - s) * 2 ^ s" using limb_range(2) [of a] limb_push(2) [OF s(1)] by simp
    then have "uint (drop_bit s a) * 2 ^ s < 2 ^ (64 - s) * 2 ^ s" using dm d by (smt (verit) pos_mod_sign zero_less_power zero_less_numeral)
    then show ?thesis by simp
  qed
  then have v: "uint (push_bit (64 - s) k OR drop_bit s a) = (uint k mod 2 ^ s) * 2 ^ (64 - s) + uint a div 2 ^ s"
    using or_limb [of "drop_bit s a" "64 - s" k] s(2) d by simp
  have "2 ^ s * uint (push_bit (64 - s) k OR drop_bit s a) + uint a mod 2 ^ s = LB * (uint k mod 2 ^ s) + uint a"
    unfolding v limb_push(2) [OF s(1)] using dm by (simp add: algebra_simps)
  then have "uint a + LB * (lval tab + LB ^ length tab * (uint h mod 2 ^ s)) =
      2 ^ s * (uint (push_bit (64 - s) k OR drop_bit s a) + LB * lval ts) + uint a mod 2 ^ s"
    unfolding ih(2) by (simp add: algebra_simps)
  then show ?case using res ih(1) by (simp add: algebra_simps)
qed simp

lemma mp_shr_js_val:
  assumes "mp_shr_js tab s h = (tab', l)" "1 \<le> s" "s \<le> 63"
  shows "length tab' = length tab" "lval tab' = (lval tab + LB ^ length tab * (uint h mod 2 ^ s)) div 2 ^ s"
proof -
  obtain k where k: "mp_shr_loop_js tab s h = (tab', k)" using assms(1) by (auto simp: mp_shr_js_def split: prod.splits)
  note v = mp_shr_loop_js_val [OF k assms(2,3)]
  show "length tab' = length tab" using v by simp
  have "(2 ^ s * lval tab' + uint k mod 2 ^ s) div 2 ^ s = lval tab' + (uint k mod 2 ^ s) div 2 ^ s" by simp
  then show "lval tab' = (lval tab + LB ^ length tab * (uint h mod 2 ^ s)) div 2 ^ s" using v by simp
qed

lemma div_less_LB: "0 \<le> r \<Longrightarrow> r < b \<Longrightarrow> x < LB \<Longrightarrow> (r * LB + x) div b < LB"
proof -
  assume a: "0 \<le> r" "r < b" "x < LB"
  have "(r + 1) * LB \<le> b * LB" using a by (intro mult_right_mono) auto
  then have "r * LB + x < LB * b" using a(3) by (simp add: algebra_simps)
  moreover have "r * LB + x = b * ((r * LB + x) div b) + (r * LB + x) mod b" "0 \<le> (r * LB + x) mod b" using a by simp_all
  moreover have "LB * b = b * LB" by simp
  ultimately have "b * ((r * LB + x) div b) < b * LB" by linarith
  then show ?thesis using a by simp
qed

lemma dlimb_divmod:
  fixes b :: js_limb
  assumes "uint r < uint b"
  shows "uint (ucast (js_dlimb_of r x div ucast b) :: js_limb) = (uint r * LB + uint x) div uint b"
    "uint (ucast (js_dlimb_of r x mod ucast b) :: js_limb) = (uint r * LB + uint x) mod uint b"
proof -
  have b: "0 < uint b" using assms limb_range [of r] by linarith
  have n: "0 \<le> uint r * LB + uint x" using limb_range [of r] limb_range [of x] by simp
  have "uint (js_dlimb_of r x div ucast b) = (uint r * LB + uint x) div uint b"
    unfolding uint_div_distrib dlimb_of dlimb_uint ..
  moreover have "0 \<le> (uint r * LB + uint x) div uint b" using n b by (simp add: pos_imp_zdiv_nonneg_iff)
  ultimately show "uint (ucast (js_dlimb_of r x div ucast b) :: js_limb) = (uint r * LB + uint x) div uint b"
    using div_less_LB [of "uint r" "uint b" "uint x"] assms limb_range [of r] limb_range [of x] by (simp add: dlimb_low mod_pos_pos_trivial)
  have "uint (js_dlimb_of r x mod ucast b) = (uint r * LB + uint x) mod uint b"
    unfolding uint_mod_distrib dlimb_of dlimb_uint ..
  moreover have "0 \<le> (uint r * LB + uint x) mod uint b" "(uint r * LB + uint x) mod uint b < uint b" using b by simp_all
  ultimately show "uint (ucast (js_dlimb_of r x mod ucast b) :: js_limb) = (uint r * LB + uint x) mod uint b"
    using limb_range [of b] by (simp add: dlimb_low mod_pos_pos_trivial)
qed

text \<open>The step of a division from the top, for any way to divide two limbs by one.\<close>

lemma div1_step:
  fixes r b :: int
  assumes "lval tab + LB ^ length tab * r = lval ts * b + r1" "r1 * LB + uint x = uint q * b + r'" "length ts = length tab"
  shows "lval (x # tab) + LB ^ length (x # tab) * r = lval (q # ts) * b + r'"
proof -
  have "lval (x # tab) + LB ^ length (x # tab) * r = uint x + LB * (lval tab + LB ^ length tab * r)" by (simp add: algebra_simps)
  also have "\<dots> = uint x + r1 * LB + LB * (lval ts * b)" unfolding assms(1) by (simp add: algebra_simps)
  also have "\<dots> = uint q * b + r' + LB * (lval ts * b)" using assms(2) by simp
  finally show ?thesis by (simp add: algebra_simps)
qed

lemma mp_div1_js_val:
  "mp_div1_js tab b r = (tab', r') \<Longrightarrow> uint r < uint b \<Longrightarrow>
   length tab' = length tab \<and> uint r' < uint b \<and> lval tab + LB ^ length tab * uint r = lval tab' * uint b + uint r'"
proof (induction tab b r arbitrary: tab' r' rule: mp_div1_js.induct)
  case (2 x tab b r)
  obtain ts r1 where ts: "mp_div1_js tab b r = (ts, r1)" by fastforce
  define q where "q = (ucast (js_dlimb_of r1 x div ucast b) :: js_limb)"
  have res: "tab' = q # ts" "r' = ucast (js_dlimb_of r1 x mod ucast b)" using 2(2) ts by (simp_all add: Let_def q_def)
  have ih: "length ts = length tab" "uint r1 < uint b" "lval tab + LB ^ length tab * uint r = lval ts * uint b + uint r1"
    using 2(1) [OF ts 2(3)] by simp_all
  note dm = dlimb_divmod [OF ih(2), of x, folded q_def, folded res(2)]
  have "0 < uint b" using 2(3) limb_range [of r] by linarith
  then have "uint r' < uint b" unfolding dm by simp
  moreover have "uint r1 * LB + uint x = uint q * uint b + uint r'" unfolding dm by simp
  ultimately show ?case using div1_step [OF ih(3) _ ih(1)] ih(1) res(1) by simp
qed simp

subsection \<open>Division by a precomputed inverse\<close>

lemma init_js_val:
  assumes "2 ^ 63 \<le> uint d"
  obtains k where "uint d * uint (udiv1norm_init_js d) + k + uint d * LB + 1 = LB * LB" "0 \<le> k" "k < uint d"
proof -
  have a1: "uint (- d - 1) = LB - 1 - uint d"
    using limb_ariths(4) [of d] by (simp add: not_eq_complement)
  have m1: "uint (- 1 :: js_limb) = LB - 1" by (simp add: unsigned_minus_1_eq_mask mask_eq_exp_minus_1 LB_def)
  have "uint (- d - 1) < uint d" using a1 assms limb_range [of d] by (simp add: LB_def)
  note dm = dlimb_divmod(1) [OF this, of "- 1"]
  define n where "n = (LB - 1 - uint d) * LB + (LB - 1)"
  have "uint (udiv1norm_init_js d) = n div uint d" using dm unfolding a1 m1 by (simp add: udiv1norm_init_js_def n_def)
  then have "uint d * uint (udiv1norm_init_js d) + n mod uint d = n" by simp
  moreover have "n + uint d * LB + 1 = LB * LB" by (simp add: n_def algebra_simps)
  moreover have "0 \<le> n mod uint d" "n mod uint d < uint d" using assms by simp_all
  ultimately show thesis using that [of "n mod uint d"] by linarith
qed

lemma sign_js: "signed_drop_bit 63 (a0 :: js_limb) = (if 2 ^ 63 \<le> uint a0 then - 1 else 0)"
proof -
  have "bit a0 63 \<longleftrightarrow> bit (uint a0) 63" by (simp add: bit_uint_iff)
  also have "\<dots> \<longleftrightarrow> odd (uint a0 div 2 ^ 63)" by (rule bit_iff_odd)
  also have "uint a0 div 2 ^ 63 = (if 2 ^ 63 \<le> uint a0 then 1 else 0)"
  proof (cases "2 ^ 63 \<le> uint a0")
    case True
    have "uint a0 div 2 ^ 63 = (uint a0 - 2 ^ 63) div 2 ^ 63 + 1" by simp
    also have "(uint a0 - 2 ^ 63) div 2 ^ 63 = 0" using True limb_range [of a0] by (intro div_pos_pos_trivial) (auto simp: LB_def)
    finally show ?thesis using True by simp
  qed (simp add: div_pos_pos_trivial)
  finally have b: "bit a0 63 \<longleftrightarrow> 2 ^ 63 \<le> uint a0" by (simp split: if_splits)
  show ?thesis
  proof (rule bit_eqI)
    fix n
    show "bit (signed_drop_bit 63 a0) n = bit (if 2 ^ 63 \<le> uint a0 then - 1 else 0 :: js_limb) n"
      by (cases "n = 0") (auto simp: bit_signed_drop_bit_iff b bit_minus_1_iff min_def not_less dest: bit_imp_le_length)
  qed
qed

lemma udiv_correction_js:
  fixes d q1 a1 a0 :: js_limb
  assumes N: "uint a1 * LB + uint a0 = uint q1 * uint d + t" and t: "0 \<le> t" "t < 2 * uint d"
  defines "a \<equiv> js_dlimb_of a1 a0 - ucast q1 * ucast d - ucast d"
  defines "ah \<equiv> ucast (drop_bit 64 a) :: js_limb"
  shows "uint (ucast a + (ah AND d)) = (if t < uint d then t else t - uint d)" "ah = (if t < uint d then - 1 else 0)"
proof -
  have "js_dlimb_of a1 a0 = word_of_int (uint q1 * uint d + t)"
    unfolding N [symmetric] dlimb_of [symmetric] by simp
  then have a: "a = word_of_int (t - uint d)" unfolding a_def dlimb_word wi_hom_mult wi_hom_sub by (simp add: wi_hom_sub)
  have dr: "uint d < LB" by (rule limb_range)
  have m1: "uint (- 1 :: js_limb) = LB - 1" by (simp add: unsigned_minus_1_eq_mask mask_eq_exp_minus_1 LB_def)
  have "uint (ucast a + (ah AND d)) = (if t < uint d then t else t - uint d) \<and> ah = (if t < uint d then - 1 else 0)"
  proof (cases "t < uint d")
    case True
    have "uint a = t - uint d + LB * LB"
    proof -
      have "uint a = (t - uint d) mod (LB * LB)" unfolding a by (rule dlimb_wi)
      also have "\<dots> = (t - uint d + LB * LB) mod (LB * LB)" by simp
      also have "\<dots> = t - uint d + LB * LB"
      proof (rule mod_pos_pos_trivial)
        have "LB * 1 \<le> LB * LB" by (intro mult_left_mono) (simp_all add: LB_def)
        then show "0 \<le> t - uint d + LB * LB" using dr t(1) by linarith
      qed (use True in simp)
      finally show ?thesis .
    qed
    moreover define z where "z = t - uint d + LB"
    ultimately have ua: "uint a = (LB - 1) * LB + z" by (simp add: algebra_simps)
    have "0 \<le> z" "z < LB" using True dr t(1) unfolding z_def by linarith+
    then have "uint a div LB = LB - 1" "uint a mod LB = z" unfolding ua by (simp_all add: div_pos_pos_trivial mod_pos_pos_trivial)
    note dm = this [unfolded z_def]
    then have ah: "ah = - 1" unfolding ah_def word_uint_eq_iff dlimb_high m1 by simp
    have "uint (ucast a + d) = (t - uint d + LB + uint d) mod LB" unfolding limb_ariths dlimb_low dm ..
    also have "\<dots> = t" using True dr t(1) by (simp add: mod_pos_pos_trivial)
    finally show ?thesis using ah True by simp
  next
    case False
    have "uint a = t - uint d"
    proof -
      have "LB * 1 \<le> LB * LB" by (intro mult_left_mono) (simp_all add: LB_def)
      then show ?thesis unfolding a using False t(2) dr by (intro dlimb_small) linarith+
    qed
    then have dm: "uint a div LB = 0" "uint a mod LB = t - uint d"
      using False t(2) dr by (simp_all add: div_pos_pos_trivial mod_pos_pos_trivial)
    then have "ah = 0" unfolding ah_def word_uint_eq_iff dlimb_high by simp
    then show ?thesis using dm False by (simp add: dlimb_low)
  qed
  then show "uint (ucast a + (ah AND d)) = (if t < uint d then t else t - uint d)" "ah = (if t < uint d then - 1 else 0)" by blast+
qed

lemma udiv1norm_js_val:
  assumes d: "2 ^ 63 \<le> uint d" and a1: "uint a1 < uint d"
    and res: "udiv1norm_js a1 a0 d (udiv1norm_init_js d) = (q, r)"
  shows "uint a1 * LB + uint a0 = uint q * uint d + uint r" and "uint r < uint d"
proof -
  define m where "m = udiv1norm_init_js d"
  obtain k where k: "uint d * uint m + k + uint d * LB + 1 = LB * LB" "0 \<le> k" "k < uint d" unfolding m_def by (rule init_js_val [OF d])
  define e :: int where "e = (if 2 ^ 63 \<le> uint a0 then 1 else 0)"
  define n1m where "n1m = signed_drop_bit 63 a0"
  have n1m: "n1m = (if 2 ^ 63 \<le> uint a0 then - 1 else 0)" unfolding n1m_def by (rule sign_js)
  have dB: "uint d < LB" "LB \<le> 2 * uint d" using d limb_range [of d] by (simp_all add: LB_def)
  have adj: "uint (a0 + (n1m AND d)) = uint a0 + e * (uint d - LB)"
  proof (cases "2 ^ 63 \<le> uint a0")
    case True
    then have "LB \<le> 2 * uint a0" by (simp add: LB_def)
    then have "uint (a0 + d) = uint a0 + uint d - LB"
      unfolding limb_ariths using mod_once [of "uint a0 + uint d"] limb_range [of a0] limb_range [of d] dB by auto
    then show ?thesis using True by (simp add: n1m e_def)
  qed (simp add: n1m e_def)
  have up: "uint (a1 - n1m) = uint a1 + e"
  proof (cases "2 ^ 63 \<le> uint a0")
    case True
    have "uint (a1 + 1) = uint a1 + 1"
      unfolding limb_ariths using a1 dB limb_range [of a1] by (simp add: mod_pos_pos_trivial)
    then show ?thesis using True by (simp add: n1m e_def)
  qed (simp add: n1m e_def)
  define D :: js_dlimb where "D = ucast m * ucast (a1 - n1m) + ucast (a0 + (n1m AND d))"
  have D: "uint D = uint m * (uint a1 + e) + uint a0 + e * (uint d - LB)"
    using dlimb_muladd [of m "a1 - n1m" "a0 + (n1m AND d)" 0] unfolding D_def up adj by simp
  define Q where "Q = uint D div LB + uint a1"
  define t where "t = uint a1 * LB + uint a0 - Q * uint d"
  have e: "e = 0 \<and> 2 * uint a0 < LB \<or> e = 1 \<and> LB \<le> 2 * uint a0" by (auto simp: e_def LB_def)
  have t: "0 \<le> t" "t < 2 * uint d"
    unfolding t_def Q_def
    by (rule udiv_estimate [OF k(1-3) dB _ a1 _ _ e D]; use limb_range [of a1] limb_range [of a0] in simp)+
  have Qn: "0 \<le> Q" unfolding Q_def using limb_range [of a1] by (simp add: pos_imp_zdiv_nonneg_iff)
  have small: "p < LB" if "p * uint d \<le> uint a1 * LB + uint a0" for p
  proof -
    have "(uint a1 + 1) * LB \<le> uint d * LB" using a1 by (intro mult_right_mono) auto
    then have "p * uint d < LB * uint d" using that limb_range [of a0] by (simp add: algebra_simps)
    then show ?thesis using d by (simp add: mult_less_cancel_right)
  qed
  define q1 where "q1 = ucast (drop_bit 64 D) + a1"
  have "uint q1 = Q mod LB" unfolding q1_def limb_ariths dlimb_high Q_def ..
  then have q1: "uint q1 = Q" using small [of Q] t(1) Qn by (simp add: t_def mod_pos_pos_trivial)
  have N: "uint a1 * LB + uint a0 = uint q1 * uint d + t" by (simp add: t_def q1)
  define a where "a = js_dlimb_of a1 a0 - ucast q1 * ucast d - ucast d"
  have qr: "q = q1 + (1 + ucast (drop_bit 64 a))" "r = ucast a + (ucast (drop_bit 64 a) AND d)"
    using res unfolding udiv1norm_js_def Let_def n1m_def [symmetric] m_def [symmetric] D_def [symmetric] q1_def [symmetric] a_def [symmetric] by simp_all
  note cor = udiv_correction_js [OF N t, folded a_def]
  have "uint a1 * LB + uint a0 = uint q * uint d + uint r \<and> uint r < uint d"
  proof (cases "t < uint d")
    case True
    then show ?thesis using N cor qr by simp
  next
    case False
    have "uint q = Q + 1"
      using cor(2) qr(1) False q1 small [of "Q + 1"] t(1) Qn by (simp add: limb_ariths mod_pos_pos_trivial t_def distrib_right)
    then show ?thesis using N q1 cor(1) qr(2) False t(2) by (simp add: distrib_right)
  qed
  then show "uint a1 * LB + uint a0 = uint q * uint d + uint r" and "uint r < uint d" by simp_all
qed

lemma div1norm_js_loop_val:
  "div1norm_js_loop tab b r (udiv1norm_init_js b) = (tab', r') \<Longrightarrow> 2 ^ 63 \<le> uint b \<Longrightarrow> uint r < uint b \<Longrightarrow>
   length tab' = length tab \<and> uint r' < uint b \<and> lval tab + LB ^ length tab * uint r = lval tab' * uint b + uint r'"
proof (induction tab arbitrary: tab' r')
  case (Cons x tab)
  obtain ts r1 where ts: "div1norm_js_loop tab b r (udiv1norm_init_js b) = (ts, r1)" by fastforce
  obtain q where q: "udiv1norm_js r1 x b (udiv1norm_init_js b) = (q, r')" and tab': "tab' = q # ts"
    using Cons(2) ts by (auto split: prod.splits)
  have ih: "length ts = length tab" "uint r1 < uint b" "lval tab + LB ^ length tab * uint r = lval ts * uint b + uint r1"
    using Cons(1) [OF ts Cons(3,4)] by simp_all
  note qr = udiv1norm_js_val [OF Cons(3) ih(2) q]
  show ?case using div1_step [OF ih(3) qr(1) ih(1)] qr(2) ih(1) tab' by simp
qed simp

lemma mp_div1norm_js_val:
  assumes "mp_div1norm_js tab b r = (tab', r')" "2 ^ 63 \<le> uint b" "uint r < uint b"
  shows "length tab' = length tab \<and> uint r' < uint b \<and> lval tab + LB ^ length tab * uint r = lval tab' * uint b + uint r'"
  using assms div1norm_js_loop_val mp_div1_js_val by (auto simp: mp_div1norm_js_def split: if_splits)

subsection \<open>Long division\<close>

lemma lval_take_drop: "lval tab = lval (take i tab) + LB ^ min i (length tab) * lval (drop i tab)"
  using lval_append [of "take i tab" "drop i tab"] by (simp add: min.commute)

lemma lval_snoc: "lval (xs @ [x]) = lval xs + LB ^ length xs * uint x"
  by (simp add: lval_append)

lemma lval_store_at:
  assumes "i + length xs \<le> length tab"
  shows "lval (store_at tab i xs) = lval tab + LB ^ i * (lval xs - lval (take (length xs) (drop i tab)))"
proof -
  define n where "n = length xs"
  have t: "tab = take i tab @ take n (drop i tab) @ drop (i + n) tab"
    by (metis add.commute append_take_drop_id drop_drop)
  have "lval tab = lval (take i tab) + LB ^ i * (lval (take n (drop i tab)) + LB ^ n * lval (drop (i + n) tab))"
    by (subst t) (use assms in \<open>simp add: lval_append n_def min_absorb2\<close>)
  moreover have "lval (store_at tab i xs) = lval (take i tab) + LB ^ i * (lval xs + LB ^ n * lval (drop (i + n) tab))"
    using assms by (simp add: store_at_def lval_append n_def min_absorb2)
  ultimately show ?thesis by (simp add: algebra_simps n_def)
qed

lemma add_back_val:
  assumes nb: "length tabb = nb"
  shows "length win = nb + 1 \<Longrightarrow> lval win = Y + LB ^ (nb + 1) \<Longrightarrow> Y < 0 \<Longrightarrow> - (int k * lval tabb) \<le> Y \<Longrightarrow>
    \<exists>j win'. add_back win tabb q = Some (win', q - of_nat j) \<and> length win' = nb + 1 \<and> j \<le> k \<and>
      lval win' = Y + int j * lval tabb \<and> 0 \<le> lval win' \<and> lval win' < lval tabb"
proof (induction k arbitrary: win Y q)
  case (Suc k)
  obtain t c where tc: "mp_add (take nb win) tabb 0 = (t, c)" by fastforce
  have av: "length t = nb" "uint c \<le> 1" "lval t + LB ^ nb * uint c = lval (take nb win) + lval tabb"
    using mp_add_val [OF tc] nb Suc(2) by auto
  obtain ws w where win: "win = ws @ [w]" "length ws = nb" using Suc(2) by (cases win rule: rev_cases) auto
  have wv: "lval win = lval (take nb win) + LB ^ nb * uint (win ! nb)" using win by (auto simp: lval_append)
  have b: "0 \<le> lval tabb" "lval tabb < LB ^ nb" using lval_range [of tabb] nb by simp_all
  define h where "h = win ! nb + c"
  define win' where "win' = t @ [h]"
  have sp: "store_at (win[nb := x]) 0 t = t @ [x]" for x using av(1) win by (simp add: store_at_def list_update_append)
  have sp0: "store_at win 0 t = t @ [win ! nb]" using sp [of "win ! nb"] by simp
  have "uint c = 0 \<or> uint c = 1" using av(2) limb_range [of c] by linarith
  then have c01: "c = 0 \<or> c = 1" by (auto simp: word_uint_eq_iff)
  have hv: "uint h = (if uint (win ! nb) + uint c < LB then uint (win ! nb) + uint c else 0)"
    unfolding h_def limb_ariths using av(2) limb_range [of "win ! nb"] limb_range [of c] mod_once [of "uint (win ! nb) + uint c"] by auto
  have tot: "lval t + LB ^ nb * (uint (win ! nb) + uint c) = Y + lval tabb + LB ^ (nb + 1)"
    using av(3) wv Suc(3) by (simp add: algebra_simps)
  have tr: "0 \<le> lval t" "lval t < LB ^ nb" using lval_range [of t] av(1) by simp_all
  show ?case
  proof (cases "c \<noteq> 0 \<and> h = 0")
    case True
    then have "uint c = 1" "uint h = 0" using c01 by auto
    moreover have "\<not> uint (win ! nb) + uint c < LB"
    proof
      assume "uint (win ! nb) + uint c < LB"
      then have "uint h = uint (win ! nb) + uint c" using hv by simp
      then show False using \<open>uint c = 1\<close> \<open>uint h = 0\<close> limb_range(1) [of "win ! nb"] by linarith
    qed
    ultimately have "uint (win ! nb) + uint c = LB" using limb_range(2) [of "win ! nb"] by linarith
    then have "lval t = Y + lval tabb" using tot by simp
    moreover have "add_back win tabb q = Some (t @ [h], q - 1)"
      using True tc nb sp c01 by (subst add_back.simps) (auto simp: h_def)
    ultimately show ?thesis using av(1) True tr(1) Suc(4) b by (intro exI [of _ 1] exI [of _ "t @ [h]"]) (simp add: lval_append)
  next
    case False
    have lt: "uint (win ! nb) + uint c < LB"
    proof (rule ccontr)
      assume "\<not> uint (win ! nb) + uint c < LB"
      then have "uint h = 0" "c \<noteq> 0" using hv limb_range [of "win ! nb"] by auto
      then show False using False by (simp add: word_uint_eq_iff)
    qed
    then have wv': "lval win' = (Y + lval tabb) + LB ^ (nb + 1)" using tot hv av(1) by (simp add: win'_def lval_append)
    moreover have "lval win' < LB ^ (nb + 1)" using lval_range [of win'] av(1) by (simp add: win'_def)
    ultimately have neg: "Y + lval tabb < 0" by simp
    have st: "add_back win tabb q = add_back win' tabb (q - 1)"
      using False tc nb sp sp0 c01 by (subst add_back.simps) (auto simp: h_def win'_def)
    have "- (int k * lval tabb) \<le> Y + lval tabb" using Suc(5) by (simp add: algebra_simps)
    from Suc(1) [OF _ wv' neg this, of "q - 1"] obtain j w where
      j: "add_back win' tabb (q - 1) = Some (w, q - 1 - of_nat j)" "length w = nb + 1" "j \<le> k" "lval w = Y + lval tabb + int j * lval tabb"
        "0 \<le> lval w" "lval w < lval tabb" using av(1) by (auto simp: win'_def)
    then show ?thesis using st by (intro exI [of _ "Suc j"] exI [of _ w]) (simp add: algebra_simps)
  qed
qed simp

lemma quo_estimate_val:
  assumes "2 ^ 63 \<le> uint b1" "b1_inv = 0 \<or> b1_inv = udiv1norm_init_js b1"
  shows "uint (quo_estimate a1 a0 b1 b1_inv) = (if uint a1 < uint b1 then (uint a1 * LB + uint a0) div uint b1 else LB - 1)"
proof (cases "uint a1 < uint b1")
  case True
  have "uint (fst (udiv1norm_js a1 a0 b1 (udiv1norm_init_js b1))) = (uint a1 * LB + uint a0) div uint b1"
  proof -
    obtain q r where qr: "udiv1norm_js a1 a0 b1 (udiv1norm_init_js b1) = (q, r)" by fastforce
    have "uint a1 * LB + uint a0 = uint q * uint b1 + uint r" "uint r < uint b1"
      using udiv1norm_js_val [OF assms(1) True qr] .
    moreover have "uint b1 \<noteq> 0" using assms(1) by auto
    ultimately show ?thesis using qr by (simp add: div_pos_pos_trivial)
  qed
  then show ?thesis using True dlimb_divmod(1) [OF True, of a0] assms(2) by (auto simp: quo_estimate_def word_le_def)
next
  case False
  then show ?thesis by (simp add: quo_estimate_def word_le_def unsigned_minus_1_eq_mask mask_eq_exp_minus_1 LB_def)
qed

text \<open>The estimate is not too small.\<close>

lemma quo_estimate_ge:
  assumes "length win = nb + 1" "length tabb = nb" "2 \<le> nb" "2 ^ 63 \<le> uint (tabb ! (nb - 1))" "b1_inv = 0 \<or> b1_inv = udiv1norm_init_js (tabb ! (nb - 1))"
    "lval win < LB * lval tabb"
  shows "lval win < (uint (quo_estimate (win ! nb) (win ! (nb - 1)) (tabb ! (nb - 1)) b1_inv) + 1) * lval tabb"
proof -
  define a1 a0 b1 where "a1 = win ! nb" and "a0 = win ! (nb - 1)" and "b1 = tabb ! (nb - 1)"
  define q where "q = uint (quo_estimate a1 a0 b1 b1_inv)"
  obtain m where m: "nb = Suc m" using assms(3) by (cases nb) auto
  define P where "P = LB ^ m"
  have P: "0 < P" by (simp add: P_def)
  have q: "q = (if uint a1 < uint b1 then (uint a1 * LB + uint a0) div uint b1 else LB - 1)"
    unfolding q_def using assms(4,5) by (intro quo_estimate_val) (simp_all add: b1_def)
  have "take m win @ [a0, a1] = win"
  proof -
    have "win = take m win @ drop m win" by simp
    also have "drop m win = [a0, a1]" using assms(1) m by (simp add: Cons_nth_drop_Suc [symmetric] a0_def a1_def)
    finally show ?thesis by simp
  qed
  then have "lval win = lval (take m win @ [a0, a1])" by simp
  also have "\<dots> = lval (take m win) + P * (uint a1 * LB + uint a0)" using assms(1) m by (simp add: lval_append P_def algebra_simps)
  also have "\<dots> < P * (uint a1 * LB + uint a0 + 1)"
    using lval_range(2) [of "take m win"] assms(1) m by (simp add: P_def algebra_simps)
  finally have win: "lval win < P * (uint a1 * LB + uint a0 + 1)" .
  have "tabb = take m tabb @ [b1]" using assms(2) m by (metis Suc_leI diff_Suc_1 lessI order_refl take_Suc_conv_app_nth take_all b1_def)
  then have "lval tabb = lval (take m tabb @ [b1])" by simp
  also have "\<dots> = lval (take m tabb) + P * uint b1" using assms(2) m by (simp add: lval_append P_def)
  finally have b: "P * uint b1 \<le> lval tabb" using lval_range(1) [of "take m tabb"] by simp
  have b1: "0 < uint b1" using assms(4) by (simp add: b1_def)
  have "lval win < (q + 1) * lval tabb"
  proof (cases "uint a1 < uint b1")
    case True
    define n where "n = uint a1 * LB + uint a0"
    have "n = uint b1 * (n div uint b1) + n mod uint b1" "n mod uint b1 < uint b1" using b1 by simp_all
    then have "n + 1 \<le> uint b1 * (n div uint b1) + uint b1" by linarith
    then have "n + 1 \<le> (q + 1) * uint b1" using q True by (simp add: n_def algebra_simps)
    then have "P * (n + 1) \<le> P * ((q + 1) * uint b1)" using P by simp
    also have "\<dots> = (q + 1) * (P * uint b1)" by simp
    also have "\<dots> \<le> (q + 1) * lval tabb" using b limb_range(1) by (intro mult_left_mono) (simp_all add: q_def)
    finally show ?thesis using win by (simp add: n_def)
  next
    case False
    then show ?thesis using q assms(6) by simp
  qed
  then show ?thesis by (simp add: q_def a1_def a0_def b1_def)
qed

lemma divnorm_step_val:
  assumes "length win = nb + 1" "length tabb = nb" "2 \<le> nb" "2 ^ 63 \<le> uint (tabb ! (nb - 1))" "b1_inv = 0 \<or> b1_inv = udiv1norm_init_js (tabb ! (nb - 1))"
    "lval win < LB * lval tabb"
  obtains win' q where "divnorm_step win tabb b1_inv = Some (win', q)" "length win' = nb + 1"
    "lval win = uint q * lval tabb + lval win'" "lval win' < lval tabb"
proof -
  define b where "b = lval tabb"
  define qe where "qe = quo_estimate (win ! nb) (win ! (nb - 1)) (tabb ! (nb - 1)) b1_inv"
  have ge: "lval win < (uint qe + 1) * b" unfolding qe_def b_def by (rule quo_estimate_ge [OF assms])
  obtain t r where tr: "mp_sub_mul1 (take nb win) tabb qe 0 = (t, r)" by fastforce
  have sv: "length t = nb" "lval t - LB ^ nb * uint r = lval (take nb win) - b * uint qe"
    using mp_sub_mul1_val [OF tr] assms(1,2) by (simp_all add: b_def)
  define v where "v = win ! nb"
  define Y where "Y = lval win - uint qe * b"
  have b: "0 \<le> b" "b < LB ^ nb" using lval_range [of tabb] assms(2) by (simp_all add: b_def)
  obtain ws w where w: "win = ws @ [w]" "length ws = nb" using assms(1) by (cases win rule: rev_cases) auto
  have "lval win = lval (take nb win) + LB ^ nb * uint v" using w by (auto simp: v_def lval_append)
  then have Y: "Y = lval t + LB ^ nb * (uint v - uint r)" using sv(2) by (simp add: Y_def algebra_simps)
  have tr0: "0 \<le> lval t" "lval t < LB ^ nb" using lval_range [of t] sv(1) by simp_all
  have a: "uint (v - r) = (if 0 \<le> uint v - uint r then uint v - uint r else uint v - uint r + LB)"
    unfolding limb_ariths by (intro mod_below) (use limb_range [of v] limb_range [of r] in linarith)+
  have c: "v < v - r \<longleftrightarrow> uint v < uint r" unfolding word_less_def a using limb_range [of r] by auto
  have st: "divnorm_step win tabb b1_inv = (if v < v - r then add_back (t @ [v - r]) tabb qe else Some (t @ [v - r], qe))"
    unfolding divnorm_step_def Let_def assms(2) unfolding qe_def [symmetric] unfolding tr v_def [symmetric] by simp
  show thesis
  proof (cases "uint v < uint r")
    case False
    then have "lval (t @ [v - r]) = Y" using a sv(1) Y by (simp add: lval_append)
    then show thesis using that [of "t @ [v - r]" qe] False c st sv(1) ge by (simp add: Y_def b_def algebra_simps)
  next
    case True
    have "lval (t @ [v - r]) = lval t + LB ^ nb * ((uint v - uint r) + LB)" using True a sv(1) by (simp add: lval_append)
    also have "\<dots> = Y + LB ^ (nb + 1)" unfolding Y distrib_left by simp
    finally have lv: "lval (t @ [v - r]) = Y + LB ^ (nb + 1)" .
    have "LB ^ nb * (uint v - uint r) \<le> LB ^ nb * (- 1)" using True by (intro mult_left_mono) simp_all
    then have neg: "Y < 0" using Y tr0 by simp
    have "- (int (nat LB) * b) \<le> Y"
    proof -
      have "uint qe * b \<le> LB * b" using limb_range(2) [of qe] b(1) by (intro mult_right_mono) simp_all
      then show ?thesis using lval_range(1) [of win] by (simp add: Y_def)
    qed
    then obtain j win' where j: "add_back (t @ [v - r]) tabb qe = Some (win', qe - of_nat j)" "length win' = nb + 1"
        "lval win' = Y + int j * b" "0 \<le> lval win'" "lval win' < b"
      using add_back_val [OF assms(2) _ lv neg, of "nat LB" qe] sv(1) by (auto simp: b_def)
    have "0 < b" using j(4,5) by linarith
    have e: "lval win = (uint qe - int j) * b + lval win'" using j(3) by (simp add: Y_def algebra_simps)
    have "0 \<le> uint qe - int j"
    proof (rule ccontr)
      assume "\<not> 0 \<le> uint qe - int j"
      then have "(uint qe - int j) * b \<le> (- 1) * b" using \<open>0 < b\<close> by (intro mult_right_mono) simp_all
      then show False using e j(5) lval_range(1) [of win] by linarith
    qed
    moreover have "uint qe - int j < LB" using limb_range(2) [of qe] by linarith
    moreover have "uint (of_nat j :: js_limb) = int j mod LB" by (simp add: uint_nat unat_of_nat zmod_int LB_def)
    ultimately have "uint (qe - of_nat j) = uint qe - int j" by (simp add: limb_ariths mod_diff_right_eq mod_pos_pos_trivial)
    then show thesis using that [of win' "qe - of_nat j"] j True c st e by (simp add: b_def)
  qed
qed

lemma divnorm_loop_val:
  assumes "length tabb = nb" "2 \<le> nb" "2 ^ 63 \<le> uint (tabb ! (nb - 1))" "b1_inv = 0 \<or> b1_inv = udiv1norm_init_js (tabb ! (nb - 1))"
  shows "length taba \<ge> n + nb \<Longrightarrow> n \<le> length tabq \<Longrightarrow> lval (drop n taba) < lval tabb \<Longrightarrow>
    \<exists>tabq' taba'. divnorm_loop tabq taba tabb b1_inv n = Some (tabq', taba') \<and> length tabq' = length tabq \<and> length taba' = length taba \<and>
      drop n tabq' = drop n tabq \<and> lval taba = lval (take n tabq') * lval tabb + lval taba' \<and> lval taba' < lval tabb"
proof (induction n arbitrary: tabq taba)
  case (Suc i)
  define win where "win = take (nb + 1) (drop i taba)"
  define rest where "rest = drop (nb + 1) (drop i taba)"
  have lw: "length win = nb + 1" using Suc(2) by (simp add: win_def)
  have split: "lval (drop i taba) = lval win + LB ^ (nb + 1) * lval rest"
    using lval_take_drop [of "drop i taba" "nb + 1"] Suc(2) by (simp add: win_def rest_def)
  have b: "0 \<le> lval tabb" "lval tabb < LB ^ nb" using lval_range [of tabb] assms(1) by simp_all
  have "drop i taba = taba ! i # drop (Suc i) taba" using Suc(2) by (simp add: Cons_nth_drop_Suc)
  then have "lval (drop i taba) < LB * (lval (drop (Suc i) taba) + 1)" using limb_range(2) [of "taba ! i"] by (simp add: algebra_simps)
  also have "\<dots> \<le> LB * lval tabb" using Suc(4) by (intro mult_left_mono) simp_all
  finally have lt: "lval (drop i taba) < LB * lval tabb" .
  have z: "lval rest = 0"
  proof (rule ccontr)
    assume "lval rest \<noteq> 0"
    then have "LB ^ (nb + 1) * 1 \<le> LB ^ (nb + 1) * lval rest" using lval_range(1) [of rest] by (intro mult_left_mono) simp_all
    moreover have "LB * lval tabb < LB * LB ^ nb" using b(2) by simp
    moreover have "LB ^ (nb + 1) = LB * LB ^ nb" by simp
    ultimately show False using lt split lval_range(1) [of win] by linarith
  qed
  then have "lval win < LB * lval tabb" using lt split by simp
  from divnorm_step_val [OF lw assms this] obtain win' q where
    w: "divnorm_step win tabb b1_inv = Some (win', q)" "length win' = nb + 1" "lval win = uint q * lval tabb + lval win'" "lval win' < lval tabb" by blast
  define taba1 where "taba1 = store_at taba i win'"
  have fit: "i + length win' \<le> length taba" using w(2) Suc(2) by simp
  have "lval taba1 = lval taba + LB ^ i * (lval win' - lval win)" unfolding taba1_def using lval_store_at [OF fit] w(2) by (simp add: win_def)
  then have v1: "lval taba1 = lval taba - LB ^ i * (uint q * lval tabb)" using w(3) by (simp add: algebra_simps)
  have "drop i taba1 = win' @ rest" using fit w(2) by (simp add: taba1_def store_at_def rest_def add.commute)
  then have d1: "lval (drop i taba1) < lval tabb" using z w(4) by (simp add: lval_append)
  obtain tabq' taba' where ih: "divnorm_loop (tabq[i := q]) taba1 tabb b1_inv i = Some (tabq', taba')" "length tabq' = length tabq" "length taba' = length taba"
      "drop i tabq' = drop i (tabq[i := q])" "lval taba1 = lval (take i tabq') * lval tabb + lval taba'" "lval taba' < lval tabb"
    using Suc(1) [of taba1 "tabq[i := q]"] Suc(2,3) d1 fit by (auto simp: taba1_def)
  have "tabq' ! i = q" "drop (Suc i) tabq' = drop (Suc i) tabq"
  proof -
    have "drop i tabq' ! 0 = drop i (tabq[i := q]) ! 0" using ih(4) by simp
    then show "tabq' ! i = q" using Suc(3) ih(2) by simp
    have "drop 1 (drop i tabq') = drop 1 (drop i (tabq[i := q]))" using ih(4) by simp
    then show "drop (Suc i) tabq' = drop (Suc i) tabq" by simp
  qed
  moreover have "take (Suc i) tabq' = take i tabq' @ [tabq' ! i]" using Suc(3) ih(2) by (simp add: take_Suc_conv_app_nth)
  ultimately have "lval (take (Suc i) tabq') = lval (take i tabq') + LB ^ i * uint q" using Suc(3) ih(2) by (simp add: lval_append)
  then have "lval taba = lval (take (Suc i) tabq') * lval tabb + lval taba'" using v1 ih(5) by (simp add: algebra_simps)
  then show ?case using ih w(1) \<open>drop (Suc i) tabq' = drop (Suc i) tabq\<close> assms(1) by (simp add: win_def taba1_def)
qed simp

lemma cmp_ge_val: "length xs = length ys \<Longrightarrow> cmp_ge (rev xs) (rev ys) \<longleftrightarrow> lval ys \<le> lval xs"
proof (induction xs arbitrary: ys rule: rev_induct)
  case (snoc x xs)
  then obtain zs y where ys: "ys = zs @ [y]" "length zs = length xs" by (cases ys rule: rev_cases) auto
  have r: "0 \<le> lval xs" "lval xs < LB ^ length xs" "0 \<le> lval zs" "lval zs < LB ^ length xs"
    using lval_range [of xs] lval_range [of zs] ys(2) by simp_all
  show ?case
  proof (cases "x = y")
    case True
    then show ?thesis using snoc(1) [of zs] ys by (simp add: lval_append)
  next
    case False
    then have "uint x \<noteq> uint y" by (simp add: word_uint_eq_iff)
    moreover have "lval (zs @ [y]) \<le> lval (xs @ [x]) \<longleftrightarrow> uint y < uint x" if "uint x < uint y"
    proof -
      have "LB ^ length xs * (uint x + 1) \<le> LB ^ length xs * uint y" using that by (intro mult_left_mono) simp_all
      then have "lval (xs @ [x]) < lval (zs @ [y])" using r ys(2) by (simp add: lval_append algebra_simps)
      then show ?thesis using that by simp
    qed
    moreover have "lval (zs @ [y]) \<le> lval (xs @ [x])" if "uint y < uint x"
    proof -
      have "LB ^ length xs * (uint y + 1) \<le> LB ^ length xs * uint x" using that by (intro mult_left_mono) simp_all
      then show ?thesis using r ys(2) by (simp add: lval_append algebra_simps)
    qed
    ultimately show ?thesis using False ys by (auto simp: word_less_def)
  qed
qed simp

lemma top_half:
  assumes "tab \<noteq> []" "2 ^ 63 \<le> uint (last tab)"
  shows "LB ^ length tab \<le> 2 * lval tab"
proof -
  have t: "tab = butlast tab @ [last tab]" using assms(1) by simp
  have "lval tab = lval (butlast tab) + LB ^ (length tab - 1) * uint (last tab)" by (subst t) (simp add: lval_append)
  moreover have "LB ^ (length tab - 1) * LB \<le> LB ^ (length tab - 1) * (2 * uint (last tab))" using assms(2) by (intro mult_left_mono) (simp_all add: LB_def)
  moreover have "LB ^ (length tab - 1) * LB = LB ^ length tab" using assms(1) by (simp add: power_Suc2 [symmetric] del: power_Suc)
  moreover have "LB ^ (length tab - 1) * (2 * uint (last tab)) = 2 * (LB ^ (length tab - 1) * uint (last tab))" by simp
  ultimately show ?thesis using lval_range(1) [of "butlast tab"] by linarith
qed

lemma mp_divnorm_val:
  assumes "tabb \<noteq> []" "length tabb \<le> length taba" "2 ^ 63 \<le> uint (last tabb)" "length taba - length tabb < length tabq"
  obtains tabq' taba' where "mp_divnorm tabq taba tabb = Some (tabq', taba')" "length tabq' = length tabq" "length taba' = length taba"
    "lval taba = lval (take (length taba - length tabb + 1) tabq') * lval tabb + lval (take (length tabb) taba')" "lval (take (length tabb) taba') < lval tabb"
proof -
  define nb n b1 where "nb = length tabb" and "n = length taba - nb" and "b1 = tabb ! (nb - 1)"
  have b1: "2 ^ 63 \<le> uint b1" using assms(1,3) by (simp add: b1_def nb_def last_conv_nth)
  show thesis
  proof (cases "nb = 1")
    case True
    then have tabb: "tabb = [b1]" by (cases tabb) (auto simp: nb_def b1_def)
    obtain t r where tr: "mp_div1norm_js taba b1 0 = (t, r)" by fastforce
    have "uint (0 :: js_limb) < uint b1" using b1 by simp
    note dv = mp_div1norm_js_val [OF tr b1 this]
    have ne: "taba \<noteq> []" using assms(2) True by (auto simp: nb_def)
    have fit: "0 + length t \<le> length tabq" using dv assms(2,4) True ne by (simp add: nb_def)
    have "take (length t) (store_at tabq 0 t) = t" using take_store_at(1) [OF fit] by simp
    moreover have "length taba - nb + 1 = length t" using dv True ne by (cases taba) auto
    moreover have "take 1 (taba[0 := r]) = [r]" using ne by (cases taba) auto
    moreover have "mp_divnorm tabq taba tabb = Some (store_at tabq 0 t, taba[0 := r])"
      using tr by (simp add: mp_divnorm_def tabb)
    ultimately show thesis using that [of "store_at tabq 0 t" "taba[0 := r]"] dv fit True tabb by (simp add: nb_def)
  next
    case False
    moreover have "nb \<noteq> 0" using assms(1) by (simp add: nb_def)
    ultimately have "2 \<le> nb" by linarith
    then have nb: "2 \<le> nb" "length tabb = nb" by (simp_all add: nb_def)
    define b1_inv where "b1_inv = (if n \<ge> UDIV1NORM_THRESHOLD then udiv1norm_init_js b1 else 0)"
    define hi where "hi = drop n taba"
    have hi: "length hi = nb" using assms(2) by (simp add: hi_def n_def nb_def)
    define q where "q = cmp_ge (rev hi) (rev tabb)"
    have q: "q \<longleftrightarrow> lval tabb \<le> lval hi" unfolding q_def using hi nb(2) by (intro cmp_ge_val) simp
    define taba1 where "taba1 = (if q then store_at taba n (fst (mp_sub hi tabb 0)) else taba)"
    have b2: "lval hi < 2 * lval tabb" using top_half [OF assms(1,3)] lval_range(2) [of hi] hi nb(2) by simp
    have na: "length taba = n + nb" using assms(2) by (simp add: n_def nb_def)
    have t1: "length taba1 = length taba \<and> lval taba1 = lval taba - LB ^ n * (of_bool q * lval tabb) \<and> lval (drop n taba1) = lval hi - of_bool q * lval tabb"
    proof (cases q)
      case True
      obtain s k where sk: "mp_sub hi tabb 0 = (s, k)" by fastforce
      have sv: "length s = nb" "uint k \<le> 1" "lval s - LB ^ nb * uint k = lval hi - lval tabb" using mp_sub_val [OF sk] hi nb(2) by simp_all
      have "uint k = 0"
      proof (rule ccontr)
        assume "uint k \<noteq> 0"
        then have "uint k = 1" using sv(2) limb_range(1) [of k] by linarith
        then show False using sv q True lval_range(2) [of s] by simp
      qed
      then have s: "lval s = lval hi - lval tabb" using sv(3) by simp
      have fit: "n + length s \<le> length taba" using sv(1) na by simp
      have "taba1 = store_at taba n s" using True sk by (simp add: taba1_def)
      moreover have "drop n (store_at taba n s) = s" using fit sv(1) na by (simp add: store_at_def)
      ultimately show ?thesis using lval_store_at [OF fit] s sv(1) hi fit True by (simp add: hi_def)
    qed (simp add: taba1_def hi_def)
    define tabq1 where "tabq1 = tabq[n := (if q then 1 else 0)]"
    have lq: "n < length tabq" using assms(4) by (simp add: n_def nb_def)
    have "length taba1 \<ge> n + nb" "n \<le> length tabq1" "lval (drop n taba1) < lval tabb" using t1 na lq b2 q by (auto simp: tabq1_def)
    moreover have "b1_inv = 0 \<or> b1_inv = udiv1norm_init_js (tabb ! (nb - 1))" by (simp add: b1_inv_def b1_def)
    ultimately obtain tabq' taba' where
      l: "divnorm_loop tabq1 taba1 tabb b1_inv n = Some (tabq', taba')" "length tabq' = length tabq" "length taba' = length taba"
        "drop n tabq' = drop n tabq1" "lval taba1 = lval (take n tabq') * lval tabb + lval taba'" "lval taba' < lval tabb"
      using divnorm_loop_val [OF nb(2,1) b1 [unfolded b1_def], of b1_inv n taba1 tabq1] t1 by (auto simp: tabq1_def)
    have "mp_divnorm tabq taba tabb = Some (tabq', taba')"
      using l(1) False unfolding mp_divnorm_def Let_def nb_def [symmetric] n_def [symmetric] b1_def [symmetric] b1_inv_def [symmetric]
        hi_def [symmetric] q_def [symmetric] taba1_def [symmetric] tabq1_def [symmetric] by simp
    moreover have "take (n + 1) tabq' = take n tabq' @ [if q then 1 else 0]"
    proof -
      have "drop n tabq' ! 0 = drop n tabq1 ! 0" using l(4) by simp
      then have "tabq' ! n = (if q then 1 else 0)" using lq l(2) by (simp add: tabq1_def)
      then show ?thesis using lq l(2) by (simp add: take_Suc_conv_app_nth)
    qed
    moreover have "lval (take nb taba') = lval taba'"
    proof -
      have s: "lval taba' = lval (take nb taba') + LB ^ nb * lval (drop nb taba')" using lval_take_drop [of taba' nb] l(3) na by (simp add: min_absorb1)
      have "lval (drop nb taba') = 0"
      proof (rule ccontr)
        assume "lval (drop nb taba') \<noteq> 0"
        then have "LB ^ nb * 1 \<le> LB ^ nb * lval (drop nb taba')" using lval_range(1) [of "drop nb taba'"] by (intro mult_left_mono) simp_all
        moreover have "lval tabb < LB ^ nb" using lval_range(2) [of tabb] nb(2) by simp
        ultimately show False using s l(6) lval_range(1) [of "take nb taba'"] by linarith
      qed
      then show ?thesis using s by simp
    qed
    ultimately show thesis
      using that [of tabq' taba'] l t1 lq by (auto simp: nb_def n_def lval_append algebra_simps split: if_splits)
  qed
qed

end
