(* ===== verification/Bigint.thy ===== *)
theory Bigint
  imports Bigint_Limbs "HOL-Library.Signed_Division"
begin

text \<open>
  The BigInt numbers of \<^verbatim>\<open>quickjs.c\<close>: two's complement lists of 64-bit limbs, least significant first, of
  minimal length. An operation returns the new state of the allocator with a number or an error. The
  allocator is a parameter: it may fail at every call, and the memory it returns has arbitrary contents.
  Blocks are values here; freeing them is not part of the model.
\<close>

datatype bigint_error = Out_of_memory | Too_large_to_allocate | Division_by_zero | Negative_exponent | Too_large | No_end | Aborted | Out_of_bounds

type_synonym 'm js_malloc = "'m \<Rightarrow> nat \<Rightarrow> 'm \<times> (nat \<Rightarrow> js_limb) option"
type_synonym ('m, 'a) outcome = "'m \<times> (bigint_error + 'a)"

definition and_then :: "('m, 'a) outcome \<Rightarrow> ('a \<Rightarrow> 'm \<Rightarrow> ('m, 'b) outcome) \<Rightarrow> ('m, 'b) outcome" where
  "and_then r f = (case r of (m, Inl e) \<Rightarrow> (m, Inl e) | (m, Inr x) \<Rightarrow> f x m)"

abbreviation (input) JS_BIGINT_MAX_SIZE :: nat where "JS_BIGINT_MAX_SIZE \<equiv> 16384"

subsection \<open>Construction and normal form\<close>

definition limb_array :: "'m js_malloc \<Rightarrow> nat \<Rightarrow> 'm \<Rightarrow> ('m, js_limb list) outcome" where
  "limb_array malloc n m = (case malloc m n of (m, None) \<Rightarrow> (m, Inl Out_of_memory) | (m, Some f) \<Rightarrow> (m, Inr (map f [0..<n])))"

definition js_bigint_new :: "'m js_malloc \<Rightarrow> nat \<Rightarrow> 'm \<Rightarrow> ('m, js_limb list) outcome" where
  "js_bigint_new malloc len m = (if len > JS_BIGINT_MAX_SIZE then (m, Inl Too_large_to_allocate) else limb_array malloc len m)"

definition js_bigint_set_si :: "js_limb \<Rightarrow> js_limb list" where
  "js_bigint_set_si a = [a]"

definition js_bigint_new_si :: "'m js_malloc \<Rightarrow> js_limb \<Rightarrow> 'm \<Rightarrow> ('m, js_limb list) outcome" where
  "js_bigint_new_si malloc a m = and_then (js_bigint_new malloc 1 m) (\<lambda>r m. (m, Inr (r[0 := a])))"

definition js_bigint_new_si64 :: "'m js_malloc \<Rightarrow> u64 \<Rightarrow> 'm \<Rightarrow> ('m, js_limb list) outcome" where
  "js_bigint_new_si64 = js_bigint_new_si"

definition js_bigint_new_ui64 :: "'m js_malloc \<Rightarrow> u64 \<Rightarrow> 'm \<Rightarrow> ('m, js_limb list) outcome" where
  "js_bigint_new_ui64 malloc a m =
     (if a \<le> 0x7fffffffffffffff then js_bigint_new_si64 malloc a m
      else and_then (js_bigint_new malloc ((65 + 64 - 1) div 64) m) (\<lambda>r m. (m, Inr (r[0 := a, 1 := 0]))))"

definition js_bigint_new_di :: "'m js_malloc \<Rightarrow> js_dlimb \<Rightarrow> 'm \<Rightarrow> ('m, js_limb list) outcome" where
  "js_bigint_new_di malloc a m =
     (if a = scast (ucast a :: js_limb) then and_then (js_bigint_new malloc 1 m) (\<lambda>r m. (m, Inr (r[0 := ucast a])))
      else and_then (js_bigint_new malloc 2 m) (\<lambda>r m. (m, Inr (r[0 := ucast a, 1 := ucast (signed_drop_bit 64 a)]))))"

text \<open>A limb on top of another is redundant when it only repeats its sign.\<close>

definition redundant :: "js_limb \<Rightarrow> js_limb \<Rightarrow> bool" where
  "redundant v below \<longleftrightarrow> \<not> ((v \<noteq> 0 \<and> v \<noteq> - 1) \<or> v AND 1 \<noteq> drop_bit 63 below)"

fun norm_len :: "js_limb list \<Rightarrow> nat \<Rightarrow> nat" where
  "norm_len tab (Suc (Suc l)) = (if redundant (tab ! Suc l) (tab ! l) then norm_len tab (Suc l) else Suc (Suc l))"
| "norm_len tab l = l"

definition js_bigint_normalize1 :: "'m js_malloc \<Rightarrow> js_limb list \<Rightarrow> nat \<Rightarrow> 'm \<Rightarrow> ('m, js_limb list) outcome" where
  "js_bigint_normalize1 malloc a l m =
     (let l = norm_len a l in (if l \<noteq> length a then fst (malloc m l) else m, Inr (take l a)))"

definition js_bigint_normalize :: "'m js_malloc \<Rightarrow> js_limb list \<Rightarrow> 'm \<Rightarrow> ('m, js_limb list) outcome" where
  "js_bigint_normalize malloc a m = js_bigint_normalize1 malloc a (length a) m"

definition js_bigint_sign :: "js_limb list \<Rightarrow> js_limb" where
  "js_bigint_sign a = drop_bit 63 (a ! (length a - 1))"

definition js_bigint_get_si_sat :: "js_limb list \<Rightarrow> js_limb" where
  "js_bigint_get_si_sat a =
     (if length a = 1 then a ! 0 else if js_bigint_sign a \<noteq> 0 then 0x8000000000000000 else 0x7fffffffffffffff)"

definition js_bigint_extend :: "'m js_malloc \<Rightarrow> js_limb list \<Rightarrow> js_limb \<Rightarrow> 'm \<Rightarrow> ('m, js_limb list) outcome" where
  "js_bigint_extend malloc r op1 m =
     (if \<not> redundant op1 (r ! (length r - 1)) then
        (case malloc m (length r + 1) of (m, None) \<Rightarrow> (m, Inl Out_of_memory) | (m, Some _) \<Rightarrow> (m, Inr (r @ [op1])))
      else js_bigint_normalize malloc r m)"

subsection \<open>Arithmetic\<close>

definition js_bigint_add :: "'m js_malloc \<Rightarrow> js_limb list \<Rightarrow> js_limb list \<Rightarrow> bool \<Rightarrow> 'm \<Rightarrow> ('m, js_limb list) outcome" where
  "js_bigint_add malloc a b b_neg m =
     (let n2 = max (length a) (length b);
          n1 = min (length a) (length b);
          neg = (if b_neg then 1 else 0)
      in and_then (js_bigint_new malloc n2 m) (\<lambda>r m.
           let (t, carry) = mp_add (take n1 a) (map (\<lambda>x. x XOR - neg) (take n1 b)) neg;
               r = store_at r 0 t;
               a_sign = - js_bigint_sign a;
               b_sign = - js_bigint_sign b XOR - neg;
               (t, carry) =
                 (if length a > length b then mp_add (drop n1 a) (replicate (n2 - n1) b_sign) carry
                  else if length a < length b then mp_add (replicate (n2 - n1) a_sign) (map (\<lambda>x. x XOR - neg) (drop n1 b)) carry
                  else ([], carry));
               r = store_at r n1 t
           in js_bigint_extend malloc r (a_sign + b_sign + carry) m))"

definition js_bigint_neg :: "'m js_malloc \<Rightarrow> js_limb list \<Rightarrow> 'm \<Rightarrow> ('m, js_limb list) outcome" where
  "js_bigint_neg malloc a m = js_bigint_add malloc (js_bigint_set_si 0) a True m"

definition js_bigint_mul :: "'m js_malloc \<Rightarrow> js_limb list \<Rightarrow> js_limb list \<Rightarrow> 'm \<Rightarrow> ('m, js_limb list) outcome" where
  "js_bigint_mul malloc a b m =
     and_then (js_bigint_new malloc (length a + length b) m) (\<lambda>r m.
       let r = mp_mul_basecase r a b;
           r = (if js_bigint_sign a \<noteq> 0 then store_at r (length a) (fst (mp_sub (take (length b) (drop (length a) r)) b 0)) else r);
           r = (if js_bigint_sign b \<noteq> 0 then store_at r (length b) (fst (mp_sub (take (length a) (drop (length b) r)) a 0)) else r)
       in js_bigint_normalize malloc r m)"

text \<open>The number of limbs without leading zero limbs, at least one.\<close>

fun top_len :: "js_limb list \<Rightarrow> nat \<Rightarrow> nat" where
  "top_len tab (Suc (Suc n)) = (if tab ! Suc n = 0 then top_len tab (Suc n) else Suc (Suc n))"
| "top_len tab n = n"

text \<open>
  \<^verbatim>\<open>js_bigint_divrem\<close> after the operands are absolute values: \<open>r\<close> has two limbs more than the dividend,
  \<open>na\<close> and \<open>nb\<close> are the numbers of limbs in use.
\<close>

definition divrem_abs ::
  "'m js_malloc \<Rightarrow> js_limb list \<Rightarrow> nat \<Rightarrow> js_limb list \<Rightarrow> nat \<Rightarrow> bool \<Rightarrow> bool \<Rightarrow> bool \<Rightarrow> 'm \<Rightarrow> ('m, js_limb list) outcome" where
  "divrem_abs malloc r na tabb nb a_sign b_sign is_rem m =
     (let shift = clz64 (tabb ! (nb - 1));
          (tabb, r, na) =
            (if shift \<noteq> 0 then
               let (tb, _) = mp_shl_js (take nb tabb) shift;
                   (t, h) = mp_shl_js (take na r) shift;
                   r = store_at r 0 t
               in (store_at tabb 0 tb, if h \<noteq> 0 then r[na := h] else r, if h \<noteq> 0 then na + 1 else na)
             else (tabb, r, na))
      in and_then (js_bigint_new malloc (na - nb + 2) m) (\<lambda>q m.
           case mp_divnorm q (take na r) (take nb tabb) of None \<Rightarrow> (m, Inl No_end)
           | Some (q, t) \<Rightarrow>
               let r = store_at r 0 t
               in if is_rem then
                    let r = (if shift \<noteq> 0 then store_at r 0 (fst (mp_shr_js (take nb r) shift 0)) else r);
                        r = r[nb := 0];
                        nb = nb + 1;
                        r = (if a_sign then store_at r 0 (fst (mp_neg (take nb r))) else r)
                    in js_bigint_normalize1 malloc r nb m
                  else
                    let q = q[na - nb + 1 := 0];
                        q = (if a_sign \<noteq> b_sign then fst (mp_neg q) else q)
                    in js_bigint_normalize malloc q m))"

definition js_bigint_divrem :: "'m js_malloc \<Rightarrow> js_limb list \<Rightarrow> js_limb list \<Rightarrow> bool \<Rightarrow> 'm \<Rightarrow> ('m, js_limb list) outcome" where
  "js_bigint_divrem malloc a b is_rem m =
     (if length b = 1 \<and> b ! 0 = 0 then (m, Inl Division_by_zero)
      else
        let a_sign = (js_bigint_sign a \<noteq> 0);
            b_sign = (js_bigint_sign b \<noteq> 0)
        in and_then (js_bigint_new malloc (length a + 2) m) (\<lambda>r m.
             let r = store_at r 0 (if a_sign then fst (mp_neg a) else a);
                 na = top_len r (length a)
             in and_then (limb_array malloc (length b) m) (\<lambda>tabb m.
                  let tabb = store_at tabb 0 (if b_sign then fst (mp_neg b) else b);
                      nb = top_len tabb (length b)
                  in if na < nb then
                       if is_rem then and_then (js_bigint_new malloc (length a) m) (\<lambda>r m. (m, Inr (store_at r 0 a)))
                       else js_bigint_new_si malloc 0 m
                     else divrem_abs malloc r na tabb nb a_sign b_sign is_rem m)))"

subsection \<open>Bitwise operations\<close>

datatype bit_op = OP_and | OP_or | OP_xor

fun limb_op :: "bit_op \<Rightarrow> js_limb \<Rightarrow> js_limb \<Rightarrow> js_limb" where
  "limb_op OP_or x y = x OR y"
| "limb_op OP_and x y = x AND y"
| "limb_op OP_xor x y = x XOR y"

definition js_bigint_logic :: "'m js_malloc \<Rightarrow> js_limb list \<Rightarrow> js_limb list \<Rightarrow> bit_op \<Rightarrow> 'm \<Rightarrow> ('m, js_limb list) outcome" where
  "js_bigint_logic malloc a b op m =
     (let (a, b) = (if length a < length b then (b, a) else (a, b));
          b_sign = - js_bigint_sign b
      in and_then (js_bigint_new malloc (length a) m) (\<lambda>r m.
           let r = store_at r 0 (map2 (limb_op op) (take (length b) a) b);
               r = store_at r (length b) (map (\<lambda>x. limb_op op x b_sign) (drop (length b) a))
           in js_bigint_normalize malloc r m))"

definition js_bigint_not :: "'m js_malloc \<Rightarrow> js_limb list \<Rightarrow> 'm \<Rightarrow> ('m, js_limb list) outcome" where
  "js_bigint_not malloc a m =
     and_then (js_bigint_new malloc (length a) m) (\<lambda>r m. (m, Inr (store_at r 0 (map (\<lambda>x. NOT x) a))))"

definition js_bigint_shl :: "'m js_malloc \<Rightarrow> js_limb list \<Rightarrow> nat \<Rightarrow> 'm \<Rightarrow> ('m, js_limb list) outcome" where
  "js_bigint_shl malloc a shift1 m =
     (if length a = 1 \<and> a ! 0 = 0 then js_bigint_new_si malloc 0 m
      else
        let d = shift1 div 64;
            shift = shift1 mod 64
        in and_then (js_bigint_new malloc (length a + d) m) (\<lambda>r m.
             let r = store_at r 0 (replicate d 0)
             in if shift = 0 then (m, Inr (store_at r d a))
                else
                  let (t, l) = mp_shl_js a shift;
                      r = store_at r d t;
                      l = (if js_bigint_sign a \<noteq> 0 then l OR push_bit shift (- 1) else l)
                  in js_bigint_extend malloc r l m))"

definition js_bigint_shr :: "'m js_malloc \<Rightarrow> js_limb list \<Rightarrow> nat \<Rightarrow> 'm \<Rightarrow> ('m, js_limb list) outcome" where
  "js_bigint_shr malloc a shift1 m =
     (let d = shift1 div 64;
          shift = shift1 mod 64;
          a_sign = js_bigint_sign a
      in if d \<ge> length a then js_bigint_new_si malloc (- a_sign) m
         else
           let n1 = length a - d
           in and_then (js_bigint_new malloc n1 m) (\<lambda>r m.
                if shift = 0 then (m, Inr (store_at r 0 (drop d a)))
                else js_bigint_normalize malloc (store_at r 0 (fst (mp_shr_js (drop d a) shift (- a_sign)))) m))"

subsection \<open>Powers and comparison\<close>

text \<open>The loop of \<^verbatim>\<open>js_bigint_pow\<close>: \<open>i\<close> is the number of bits of the exponent still to be used.\<close>

fun pow_loop :: "'m js_malloc \<Rightarrow> js_limb list \<Rightarrow> u32 \<Rightarrow> js_limb list \<Rightarrow> nat \<Rightarrow> 'm \<Rightarrow> ('m, js_limb list) outcome" where
  "pow_loop malloc a e r 0 m = (m, Inr r)"
| "pow_loop malloc a e r (Suc i) m =
     and_then (js_bigint_mul malloc r r m) (\<lambda>r m.
       if drop_bit i e AND 1 \<noteq> 0 then and_then (js_bigint_mul malloc r a m) (\<lambda>r m. pow_loop malloc a e r i m)
       else pow_loop malloc a e r i m)"

definition pow_general :: "'m js_malloc \<Rightarrow> js_limb list \<Rightarrow> js_limb list \<Rightarrow> 'm \<Rightarrow> ('m, js_limb list) outcome" where
  "pow_general malloc a b m =
     (if length b > 1 \<or> b ! 0 > 0x7fffffff then (m, Inl Too_large)
      else
        let e = ucast (b ! 0) :: u32;
            n_bits = 32 - clz32 e
        in and_then (js_bigint_new malloc (length a) m) (\<lambda>r m. pow_loop malloc a e (store_at r 0 a) (n_bits - 1) m))"

definition pow_two :: "'m js_malloc \<Rightarrow> js_limb \<Rightarrow> bool \<Rightarrow> js_limb list \<Rightarrow> 'm \<Rightarrow> ('m, js_limb list) outcome" where
  "pow_two malloc v is_neg b m =
     (if length b > 1 \<or> b ! 0 > 0x7fffffff then (m, Inl Too_large)
      else
        let n = 64 - 1 - clz64 v;
            e1 = unat (b ! 0) * n
        in if e1 > JS_BIGINT_MAX_SIZE * 64 then (m, Inl Too_large)
           else
             let is_neg = (is_neg \<and> b ! 0 AND 1 \<noteq> 0)
             in and_then (js_bigint_new malloc ((e1 + 64 + 1 - (if is_neg then 1 else 0)) div 64) m) (\<lambda>r m.
                  (m, Inr ((replicate (length r) 0)[e1 div 64 := push_bit (e1 mod 64) (if is_neg then - 1 else 1)]))))"

definition js_bigint_pow :: "'m js_malloc \<Rightarrow> js_limb list \<Rightarrow> js_limb list \<Rightarrow> 'm \<Rightarrow> ('m, js_limb list) outcome" where
  "js_bigint_pow malloc a b m =
     (if js_bigint_sign b \<noteq> 0 then (m, Inl Negative_exponent)
      else if length b = 1 \<and> b ! 0 = 0 then js_bigint_new_si malloc 1 m
      else if length a = 1 then
        let v = a ! 0
        in if v \<le> 1 then js_bigint_new_si malloc v m
           else if v = - 1 then js_bigint_new_si malloc (1 - 2 * (b ! 0 AND 1)) m
           else
             let is_neg = v <s 0;
                 v = (if is_neg then - v else v)
             in if v AND (v - 1) = 0 then pow_two malloc v is_neg b m else pow_general malloc a b m
      else pow_general malloc a b m)"

fun cmp_limbs :: "js_limb list \<Rightarrow> js_limb list \<Rightarrow> int" where
  "cmp_limbs (x # xs) (y # ys) = (if x \<noteq> y then if x < y then - 1 else 1 else cmp_limbs xs ys)"
| "cmp_limbs _ _ = 0"

definition js_bigint_cmp :: "js_limb list \<Rightarrow> js_limb list \<Rightarrow> int" where
  "js_bigint_cmp a b =
     (let a_sign = uint (js_bigint_sign a);
          b_sign = uint (js_bigint_sign b)
      in if a_sign \<noteq> b_sign then 1 - 2 * a_sign
         else if length a \<noteq> length b then if length a < length b then 2 * a_sign - 1 else 1 - 2 * a_sign
         else cmp_limbs (rev a) (rev b))"

subsection \<open>Signed values and minimal length\<close>

text \<open>The number that a list of limbs stands for, and the range of the numbers that \<open>n\<close> limbs can hold.\<close>

definition sval :: "js_limb list \<Rightarrow> int" where
  "sval xs = (if 2 * lval xs < LB ^ length xs then lval xs else lval xs - LB ^ length xs)"

definition fits :: "nat \<Rightarrow> int \<Rightarrow> bool" where
  "fits n v \<longleftrightarrow> - (LB ^ n) \<le> 2 * v \<and> 2 * v < LB ^ n"

text \<open>The normal form: no list with fewer limbs holds the number.\<close>

definition big_ok :: "js_limb list \<Rightarrow> bool" where
  "big_ok xs \<longleftrightarrow> xs \<noteq> [] \<and> (length xs = 1 \<or> \<not> fits (length xs - 1) (sval xs))"

lemma sval_fits: "fits (length xs) (sval xs)"
  using lval_range [of xs] by (auto simp: fits_def sval_def)

lemma svalI:
  assumes "LB ^ length xs dvd lval xs - v" "fits (length xs) v"
  shows "sval xs = v"
proof -
  define M where "M = LB ^ length xs"
  have M: "0 < M" by (simp add: M_def)
  obtain k where k: "lval xs - v = M * k" using assms(1) by (auto simp: M_def)
  have r: "0 \<le> lval xs" "lval xs < M" "- M \<le> 2 * v" "2 * v < M" using lval_range [of xs] assms(2) by (simp_all add: M_def fits_def)
  have "k < 2"
  proof (rule ccontr)
    assume "\<not> k < 2"
    then have "M * 2 \<le> M * k" using M by (intro mult_left_mono) simp_all
    then show False using k r by linarith
  qed
  moreover have "- 1 < k"
  proof (rule ccontr)
    assume "\<not> - 1 < k"
    then have "M * k \<le> M * (- 1)" using M by (intro mult_left_mono) simp_all
    then show False using k r by linarith
  qed
  ultimately consider "k = 0" | "k = 1" by linarith
  then show ?thesis by cases (use k r in \<open>auto simp: sval_def M_def [symmetric]\<close>)
qed

lemma sval_dvd: "LB ^ length xs dvd lval xs - sval xs"
  by (auto simp: sval_def)

lemma top_half_iff:
  assumes "xs \<noteq> []"
  shows "2 * lval xs < LB ^ length xs \<longleftrightarrow> uint (last xs) < 2 ^ 63"
proof
  assume "2 * lval xs < LB ^ length xs"
  then show "uint (last xs) < 2 ^ 63" using top_half [OF assms] by linarith
next
  assume l: "uint (last xs) < 2 ^ 63"
  have t: "xs = butlast xs @ [last xs]" using assms by simp
  define P where "P = LB ^ (length xs - 1)"
  have "lval xs = lval (butlast xs) + P * uint (last xs)" unfolding P_def by (subst t) (simp add: lval_append)
  moreover have "P * (2 * (uint (last xs) + 1)) \<le> P * LB" using l unfolding P_def by (intro mult_left_mono) (simp_all add: LB_def)
  moreover have "P * LB = LB ^ length xs" unfolding P_def using assms by (simp add: power_Suc2 [symmetric] del: power_Suc)
  moreover have "lval (butlast xs) < P" unfolding P_def using lval_range(2) [of "butlast xs"] by simp
  ultimately show "2 * lval xs < LB ^ length xs" by (simp add: algebra_simps)
qed

lemma limb_top: "drop_bit 63 (x :: js_limb) = (if uint x < 2 ^ 63 then 0 else 1)"
proof -
  have "uint (drop_bit 63 x) = uint x div 2 ^ 63" by (rule limb_drop)
  also have "\<dots> = (if uint x < 2 ^ 63 then 0 else 1)"
  proof (cases "uint x < 2 ^ 63")
    case False
    have "uint x = 2 ^ 63 + (uint x - 2 ^ 63)" by simp
    also have "\<dots> div 2 ^ 63 = 1 + (uint x - 2 ^ 63) div 2 ^ 63" by (subst div_add_self1) simp_all
    also have "(uint x - 2 ^ 63) div 2 ^ 63 = 0" using False limb_range [of x] by (intro div_pos_pos_trivial) (simp_all add: LB_def)
    finally show ?thesis using False by simp
  qed (simp add: div_pos_pos_trivial)
  finally show ?thesis by (simp add: word_uint_eq_iff)
qed

lemma sign_val:
  assumes "xs \<noteq> []"
  shows "js_bigint_sign xs = (if sval xs < 0 then 1 else 0)"
  using top_half_iff [OF assms] lval_range [of xs] by (auto simp: js_bigint_sign_def limb_top sval_def last_conv_nth [OF assms])

lemma sval_lval: "sval xs < 0 \<Longrightarrow> lval xs = sval xs + LB ^ length xs" "0 \<le> sval xs \<Longrightarrow> lval xs = sval xs"
  using lval_range [of xs] by (auto simp: sval_def split: if_splits)

lemma redundant_val:
  assumes "ys \<noteq> []"
  shows "redundant x (last ys) \<longleftrightarrow> fits (length ys) (sval (ys @ [x]))"
proof -
  define M where "M = LB ^ length ys"
  define s where "s = (if uint x < 2 ^ 63 then uint x else uint x - LB)"
  have M: "0 < M" "0 \<le> lval ys" "lval ys < M" using lval_range [of ys] by (simp_all add: M_def)
  define p where "p = M * s"
  have sv: "sval (ys @ [x]) = lval ys + p" unfolding p_def
    using top_half_iff [of "ys @ [x]"] by (auto simp: sval_def lval_snoc M_def s_def algebra_simps)
  have s0: "x = 0 \<longleftrightarrow> s = 0" "x = - 1 \<longleftrightarrow> s = - 1"
  proof -
    have m: "x = - 1 \<longleftrightarrow> uint x = LB - 1" by (simp add: word_uint_eq_iff limb_ariths LB_def)
    have z: "x = 0 \<longleftrightarrow> uint x = 0" by (simp add: word_uint_eq_iff)
    have "s = uint x \<and> uint x < 2 ^ 63 \<or> s = uint x - LB \<and> 2 ^ 63 \<le> uint x" by (simp add: s_def)
    moreover have "(u = 0 \<longleftrightarrow> s = 0) \<and> (u = LB - 1 \<longleftrightarrow> s = - 1)"
      if "s = u \<and> u < 2 ^ 63 \<or> s = u - LB \<and> 2 ^ 63 \<le> u" "0 \<le> u" "u < LB" for u :: int
      using that by (auto simp: LB_def)
    ultimately show "x = 0 \<longleftrightarrow> s = 0" "x = - 1 \<longleftrightarrow> s = - 1"
      unfolding m z using limb_range [of x] by blast+
  qed
  have h: "2 * lval ys < M \<longleftrightarrow> drop_bit 63 (last ys) = 0" using top_half_iff [OF assms] by (simp add: M_def limb_top)
  have b: "drop_bit 63 (last ys) \<in> {0, 1}" by (simp add: limb_top)
  consider "s = 0" | "s = - 1" | "1 \<le> s" | "s \<le> - 2" by linarith
  then show ?thesis
  proof cases
    case 1
    then show ?thesis using s0 sv M h by (auto simp: redundant_def fits_def M_def p_def)
  next
    case 2
    then show ?thesis using s0 sv M h b by (auto simp: redundant_def fits_def M_def p_def)
  next
    case 3
    then have "M \<le> p" using M by (simp add: p_def)
    then have "M \<le> 2 * (lval ys + p)" using M by simp
    then have "\<not> fits (length ys) (sval (ys @ [x]))" unfolding fits_def sv M_def [symmetric] by simp
    then show ?thesis using 3 s0 by (auto simp: redundant_def)
  next
    case 4
    then have "p \<le> M * (- 2)" unfolding p_def using M by (intro mult_left_mono) simp_all
    then have "2 * (lval ys + p) < - M" using M by simp
    then have "\<not> fits (length ys) (sval (ys @ [x]))" unfolding fits_def sv M_def [symmetric] by simp
    then show ?thesis using 4 s0 by (auto simp: redundant_def)
  qed
qed

lemma sval_drop_top:
  assumes "fits (length ys) (sval (ys @ [x]))"
  shows "sval ys = sval (ys @ [x])"
proof (rule svalI [OF _ assms])
  have "LB ^ length ys dvd lval (ys @ [x]) - sval (ys @ [x])"
    using sval_dvd [of "ys @ [x]"] by (rule dvd_trans [rotated]) simp
  then have "LB ^ length ys dvd (lval ys - sval (ys @ [x])) + LB ^ length ys * uint x" by (simp add: lval_snoc algebra_simps)
  then show "LB ^ length ys dvd lval ys - sval (ys @ [x])" by (subst (asm) dvd_add_left_iff) simp_all
qed

lemma norm_len_val:
  "1 \<le> l \<Longrightarrow> l \<le> length tab \<Longrightarrow>
   1 \<le> norm_len tab l \<and> norm_len tab l \<le> l \<and> sval (take (norm_len tab l) tab) = sval (take l tab) \<and> big_ok (take (norm_len tab l) tab)"
proof (induction tab l rule: norm_len.induct)
  case (1 tab l)
  have t: "take (Suc (Suc l)) tab = take (Suc l) tab @ [tab ! Suc l]" using 1(3) by (simp add: take_Suc_conv_app_nth)
  have la: "last (take (Suc l) tab) = tab ! l" "take (Suc l) tab \<noteq> []" using 1(3) by (auto simp: take_Suc_conv_app_nth)
  note r = redundant_val [OF la(2), of "tab ! Suc l", unfolded la(1), folded t]
  have len: "length (take (Suc l) tab) = Suc l" "length (take (Suc (Suc l)) tab) = Suc (Suc l)" using 1(3) by simp_all
  show ?case
  proof (cases "redundant (tab ! Suc l) (tab ! l)")
    case True
    then show ?thesis using 1 sval_drop_top [of "take (Suc l) tab" "tab ! Suc l"] r t len by simp
  next
    case False
    then show ?thesis using r len la by (simp add: big_ok_def)
  qed
qed (auto simp: big_ok_def)

lemma big_ok_unique:
  assumes "big_ok xs" "big_ok ys" "sval xs = sval ys"
  shows "xs = ys"
proof -
  have "length xs \<le> length ys" if "big_ok xs" "big_ok ys" "sval xs = sval ys" for xs ys
  proof (rule ccontr)
    assume n: "\<not> length xs \<le> length ys"
    then have "\<not> fits (length xs - 1) (sval ys)" using that by (cases ys) (auto simp: big_ok_def)
    moreover have "LB ^ length ys \<le> LB ^ (length xs - 1)" using n by (intro power_increasing) (simp_all add: LB_def)
    ultimately show False using sval_fits [of ys] by (auto simp: fits_def)
  qed
  from this [OF assms] this [OF assms(2,1) assms(3) [symmetric]] have l: "length xs = length ys" by simp
  have "lval xs = lval ys" using sval_lval [of xs] sval_lval [of ys] assms(3) l by (cases "sval xs < 0") auto
  then show ?thesis using l by (rule lval_inj)
qed

subsection \<open>What an operation delivers\<close>

text \<open>
  The contract of an operation: it returns the number \<open>v\<close> in normal form, or it fails because the allocator
  failed, or because a number of more than \<^verbatim>\<open>JS_BIGINT_MAX_SIZE\<close> limbs was requested, which needs \<open>N\<close> to be that
  large.
\<close>

definition delivers :: "'m js_malloc \<Rightarrow> nat \<Rightarrow> ('m, js_limb list) outcome \<Rightarrow> int \<Rightarrow> bool" where
  "delivers malloc N r v \<longleftrightarrow>
     (case snd r of Inl e \<Rightarrow> e = Out_of_memory \<and> (\<exists>m n. snd (malloc m n) = None) \<or> e \<in> {Too_large_to_allocate, Too_large} \<and> N > JS_BIGINT_MAX_SIZE
      | Inr x \<Rightarrow> big_ok x \<and> sval x = v)"

lemma delivers_Inr [simp]: "delivers malloc N (m, Inr x) v \<longleftrightarrow> big_ok x \<and> sval x = v"
  by (simp add: delivers_def)

lemma delivers_limb_array:
  assumes "\<And>r m. length r = n \<Longrightarrow> delivers malloc N (f r m) v"
  shows "delivers malloc N (and_then (limb_array malloc n m) f) v"
proof (cases "malloc m n")
  case (Pair m' o')
  then show ?thesis
  proof (cases o')
    case None
    then have "\<exists>m n. snd (malloc m n) = None" using Pair by (intro exI [of _ m] exI [of _ n]) simp
    then show ?thesis using Pair None by (simp add: and_then_def limb_array_def delivers_def)
  qed (use Pair assms in \<open>simp add: and_then_def limb_array_def\<close>)
qed

lemma delivers_new:
  assumes "n \<le> N" "\<And>r m. length r = n \<Longrightarrow> delivers malloc N (f r m) v"
  shows "delivers malloc N (and_then (js_bigint_new malloc n m) f) v"
proof (cases "n > JS_BIGINT_MAX_SIZE")
  case True
  then show ?thesis using assms(1) by (simp add: js_bigint_new_def and_then_def delivers_def)
qed (use assms in \<open>simp add: js_bigint_new_def delivers_limb_array\<close>)

lemma delivers_bind:
  assumes "delivers malloc N r v" "\<And>x m. big_ok x \<Longrightarrow> sval x = v \<Longrightarrow> delivers malloc N (f x m) w"
  shows "delivers malloc N (and_then r f) w"
  using assms by (cases r; cases "snd r") (auto simp: and_then_def delivers_def)

lemma delivers_mono: "delivers malloc N r v \<Longrightarrow> N \<le> N' \<Longrightarrow> delivers malloc N' r v"
  by (cases "snd r") (auto simp: delivers_def)

lemma big_ok_single: "big_ok [x]"
  by (simp add: big_ok_def)

lemma delivers_new_si:
  assumes "1 \<le> N" "sval [a] = v"
  shows "delivers malloc N (js_bigint_new_si malloc a m) v"
  unfolding js_bigint_new_si_def
proof (rule delivers_new [OF assms(1)])
  fix r :: "js_limb list" and m :: 'a
  assume "length r = 1"
  then have "r[0 := a] = [a]" by (cases r) auto
  then show "delivers malloc N (m, Inr (r[0 := a])) v" using assms(2) by (simp add: big_ok_single)
qed

lemma delivers_normalize1:
  assumes "1 \<le> l" "l \<le> length a" "sval (take l a) = v"
  shows "delivers malloc N (js_bigint_normalize1 malloc a l m) v"
  using norm_len_val [OF assms(1,2)] assms(3) by (simp add: js_bigint_normalize1_def Let_def)

lemma delivers_normalize:
  assumes "a \<noteq> []" "sval a = v"
  shows "delivers malloc N (js_bigint_normalize malloc a m) v"
  unfolding js_bigint_normalize_def using assms by (intro delivers_normalize1) (auto simp: Suc_le_eq)

lemma delivers_extend:
  assumes "r \<noteq> []" "sval (r @ [op1]) = v"
  shows "delivers malloc N (js_bigint_extend malloc r op1 m) v"
proof -
  note red = redundant_val [OF assms(1), of op1]
  have lst: "r ! (length r - 1) = last r" using assms(1) by (simp add: last_conv_nth)
  show ?thesis
  proof (cases "redundant op1 (last r)")
    case True
    then have "sval r = v" using sval_drop_top [of r op1] red assms(2) by simp
    then show ?thesis unfolding js_bigint_extend_def lst using True assms(1) by (simp add: delivers_normalize)
  next
    case False
    then have ok: "big_ok (r @ [op1])" using red by (simp add: big_ok_def)
    obtain m' o' where mo: "malloc m (length r + 1) = (m', o')" by fastforce
    then have "o' = None \<Longrightarrow> \<exists>m n. snd (malloc m n) = None" by (metis snd_conv)
    then show ?thesis unfolding js_bigint_extend_def lst using False ok assms(2) mo by (cases o') (auto simp: delivers_def)
  qed
qed

subsection \<open>Sign extension and sums\<close>

lemma lval_ones: "lval (replicate n (- 1)) = LB ^ n - 1"
  by (induction n) (simp_all add: limb_ariths algebra_simps LB_def)

lemma lval_not: "lval (map (\<lambda>x. NOT x) xs) = LB ^ length xs - 1 - lval xs"
proof (induction xs)
  case (Cons x xs)
  have "lval (map (\<lambda>x. NOT x) (x # xs)) = (LB - 1 - uint x) + LB * (LB ^ length xs - 1 - lval xs)" using Cons by (simp add: limb_ariths)
  also have "\<dots> = LB ^ length (x # xs) - 1 - lval (x # xs)" by (simp add: algebra_simps)
  finally show ?case .
qed simp

lemma sign_extend:
  assumes "xs \<noteq> []" "length xs \<le> n"
  shows "lval (xs @ replicate (n - length xs) (- js_bigint_sign xs)) = sval xs + LB ^ n * of_bool (sval xs < 0)"
proof -
  have p: "LB ^ n = LB ^ length xs * LB ^ (n - length xs)" using assms(2) by (simp add: power_add [symmetric])
  show ?thesis
  proof (cases "sval xs < 0")
    case True
    then show ?thesis using sign_val [OF assms(1)] sval_lval(1) [OF True] by (simp add: lval_append lval_ones p algebra_simps)
  next
    case False
    then show ?thesis using sign_val [OF assms(1)] sval_lval(2) [of xs] by (simp add: lval_append)
  qed
qed

lemma mp_add_append:
  assumes "length x1 = length y1"
  shows "mp_add (x1 @ x2) (y1 @ y2) k = (let (r1, k) = mp_add x1 y1 k; (r2, k) = mp_add x2 y2 k in (r1 @ r2, k))"
  using assms by (induction x1 y1 arbitrary: k rule: list_induct2) (auto simp: Let_def split: prod.splits)

lemma store_at_two:
  assumes "length r = length s + length t"
  shows "store_at (store_at r 0 s) (length s) t = s @ t"
  using assms by (simp add: store_at_def)

lemma store_at_all: "length r = length t \<Longrightarrow> store_at r 0 t = t"
  by (simp add: store_at_def)

text \<open>The limb above the sum of two sign-extended numbers.\<close>

lemma sum_top:
  assumes "lval r + LB ^ n * uint k = (va + LB ^ n * of_bool sa) + (vb + LB ^ n * of_bool sb)" "length r = n"
    "fits (n + 1) (va + vb)"
  shows "sval (r @ [(- of_bool sa) + (- of_bool sb) + k]) = va + vb"
proof (rule svalI)
  define t :: js_limb where "t = (- of_bool sa) + (- of_bool sb) + k"
  have "uint t mod LB = (uint k - of_bool sa - of_bool sb) mod LB"
    by (cases sa; cases sb) (simp_all add: t_def limb_ariths mod_simps)
  then obtain j where "uint t - (uint k - of_bool sa - of_bool sb) = LB * j" unfolding mod_eq_dvd_iff by (auto elim: dvdE)
  then have j: "uint t = uint k - of_bool sa - of_bool sb + LB * j" by simp
  have "lval (r @ [t]) - (va + vb) = LB ^ n * (of_bool sa + of_bool sb - uint k + uint t)"
    using assms(1,2) by (simp add: lval_snoc algebra_simps)
  also have "\<dots> = LB ^ n * (LB * j)" unfolding j by simp
  finally show "LB ^ length (r @ [t]) dvd lval (r @ [t]) - (va + vb)" using assms(2) by simp
  show "fits (length (r @ [t])) (va + vb)" using assms(2,3) by simp
qed

lemma add_operand:
  fixes neg :: js_limb
  assumes "b \<noteq> []" "length b \<le> n" "neg = (if b_neg then 1 else 0)"
    and "v = (if b_neg then - sval b else sval b)" and "s \<longleftrightarrow> (sval b < 0) \<noteq> b_neg"
  shows "lval (map (\<lambda>x. x XOR - neg) b @ replicate (n - length b) (- js_bigint_sign b XOR - neg)) + uint neg = v + LB ^ n * of_bool s"
    and "- js_bigint_sign b XOR - neg = - of_bool s"
proof -
  have e: "map (\<lambda>x. x XOR - neg) b @ replicate (n - length b) (- js_bigint_sign b XOR - neg) =
      map (\<lambda>x. x XOR - neg) (b @ replicate (n - length b) (- js_bigint_sign b))" by simp
  have "lval (map (\<lambda>x. x XOR - neg) (b @ replicate (n - length b) (- js_bigint_sign b))) + uint neg = v + LB ^ n * of_bool s"
  proof (cases b_neg)
    case True
    define C where "C = b @ replicate (n - length b) (- js_bigint_sign b)"
    have "map (\<lambda>x. x XOR - neg) C = map (\<lambda>x. NOT x) C" using True assms(3) by simp
    moreover have "length C = n" "lval C = sval b + LB ^ n * of_bool (sval b < 0)"
      unfolding C_def using sign_extend [OF assms(1,2)] assms(2) by simp_all
    ultimately have "lval (map (\<lambda>x. x XOR - neg) C) = LB ^ n - 1 - (sval b + LB ^ n * of_bool (sval b < 0))"
      using lval_not [of C] by metis
    then show ?thesis unfolding C_def [symmetric] using True assms(3-5) by (cases "sval b < 0") (simp_all add: algebra_simps)
  qed (use sign_extend [OF assms(1,2)] assms(3-5) in simp)
  then show "lval (map (\<lambda>x. x XOR - neg) b @ replicate (n - length b) (- js_bigint_sign b XOR - neg)) + uint neg = v + LB ^ n * of_bool s" unfolding e .
  show "- js_bigint_sign b XOR - neg = - of_bool s" using sign_val [OF assms(1)] assms(3,5) by auto
qed

lemma fits_pow: "fits n v \<Longrightarrow> n \<le> k \<Longrightarrow> - (LB ^ k) \<le> 2 * v \<and> 2 * v < LB ^ k"
proof -
  assume v: "fits n v" "n \<le> k"
  have "LB ^ n \<le> LB ^ k" using v(2) by (rule power_increasing) (simp add: LB_def)
  then show ?thesis using v(1) unfolding fits_def by linarith
qed

lemma LB_double: "2 * LB ^ n < LB ^ (n + 1)"
  by (simp add: LB_def)

lemma add_delivers:
  assumes "a \<noteq> []" "b \<noteq> []"
  shows "delivers malloc (max (length a) (length b)) (js_bigint_add malloc a b b_neg m) (if b_neg then sval a - sval b else sval a + sval b)"
proof -
  define n n1 where "n = max (length a) (length b)" and "n1 = min (length a) (length b)"
  define neg :: js_limb where "neg = (if b_neg then 1 else 0)"
  define vb where "vb = (if b_neg then - sval b else sval b)"
  define sb where "sb \<longleftrightarrow> (sval b < 0) \<noteq> b_neg"
  define A where "A = a @ replicate (n - length a) (- js_bigint_sign a)"
  define B where "B = map (\<lambda>x. x XOR - neg) b @ replicate (n - length b) (- js_bigint_sign b XOR - neg)"
  have lab: "length A = n" "length B = n" "length a \<le> n" "length b \<le> n" by (simp_all add: A_def B_def n_def)
  have vB: "lval B + uint neg = vb + LB ^ n * of_bool sb" "- js_bigint_sign b XOR - neg = - of_bool sb"
    unfolding B_def by (rule add_operand [OF assms(2) lab(4) neg_def vb_def sb_def])+
  have vA: "lval A = sval a + LB ^ n * of_bool (sval a < 0)" unfolding A_def by (rule sign_extend [OF assms(1) lab(3)])
  obtain res k where rk: "mp_add A B neg = (res, k)" by fastforce
  have mv: "length res = n" "lval res + LB ^ n * uint k = lval A + lval B + uint neg" using mp_add_val [OF rk] lab by (auto simp: neg_def)
  have ft: "fits (n + 1) (sval a + vb)"
  proof -
    have "- (2 * LB ^ n) \<le> 2 * (sval a + vb)" "2 * (sval a + vb) \<le> 2 * LB ^ n"
      using fits_pow [OF sval_fits lab(3)] fits_pow [OF sval_fits lab(4)] by (auto simp: vb_def)
    then show ?thesis unfolding fits_def using LB_double [of n] by linarith
  qed
  have eq: "lval res + LB ^ n * uint k = (sval a + LB ^ n * of_bool (sval a < 0)) + (vb + LB ^ n * of_bool sb)" using mv(2) vA vB(1) by simp
  have top: "sval (res @ [- js_bigint_sign a + (- js_bigint_sign b XOR - neg) + k]) = sval a + vb"
    using sum_top [OF eq mv(1) ft] sign_val [OF assms(1)] vB(2) by (cases "sval a < 0") simp_all
  obtain t1 k1 where t1: "mp_add (take n1 a) (map (\<lambda>x. x XOR - neg) (take n1 b)) neg = (t1, k1)" by fastforce
  define hi where "hi = (if length a > length b then mp_add (drop n1 a) (replicate (n - n1) (- js_bigint_sign b XOR - neg)) k1
      else if length a < length b then mp_add (replicate (n - n1) (- js_bigint_sign a)) (map (\<lambda>x. x XOR - neg) (drop n1 b)) k1 else ([], k1))"
  obtain t2 k2 where t2: "hi = (t2, k2)" by fastforce
  have lt: "length t1 = n1" using mp_add_val [OF t1] by (simp add: n1_def neg_def)
  have split: "res = t1 @ t2 \<and> k = k2"
  proof -
    define A2 B2 where "A2 = drop n1 A" and "B2 = drop n1 B"
    have "take n1 A = take n1 a" "take n1 B = map (\<lambda>x. x XOR - neg) (take n1 b)"
      by (simp_all add: A_def B_def n1_def take_map)
    then have "mp_add A B neg = (let (r1, k) = mp_add (take n1 a) (map (\<lambda>x. x XOR - neg) (take n1 b)) neg; (r2, k) = mp_add A2 B2 k in (r1 @ r2, k))"
      using mp_add_append [of "take n1 A" "take n1 B" A2 B2 neg] lab by (metis A2_def B2_def append_take_drop_id length_take)
    moreover have "mp_add A2 B2 k1 = hi"
      by (cases "length a" "length b" rule: linorder_cases)
        (auto simp: A2_def B2_def A_def B_def hi_def n_def n1_def drop_map max_def min_def)
    ultimately show ?thesis using rk t1 t2 by simp
  qed
  have body: "delivers malloc n (js_bigint_extend malloc (store_at (store_at r 0 t1) n1 t2) (- js_bigint_sign a + (- js_bigint_sign b XOR - neg) + k2) m) (sval a + vb)"
    if "length r = n" for r and m :: 'a
  proof -
    have "length r = length t1 + length t2" using that split mv(1) by simp
    then have "store_at (store_at r 0 t1) n1 t2 = res" using store_at_two [of r t1 t2] lt split by simp
    moreover have "res \<noteq> []" using mv(1) lab(3) assms(1) by auto
    ultimately show ?thesis using top split by (auto intro: delivers_extend)
  qed
  have "delivers malloc n (js_bigint_add malloc a b b_neg m) (sval a + vb)"
    unfolding js_bigint_add_def Let_def n_def [symmetric] n1_def [symmetric] neg_def [symmetric]
    by (rule delivers_new) (use body t1 t2 in \<open>simp_all add: hi_def [symmetric]\<close>)
  then show ?thesis by (cases b_neg) (simp_all add: vb_def n_def)
qed

lemma sval_single [simp]: "sval [x] = sint x"
proof (rule svalI)
  have "uint x = sint x mod LB" by (simp add: uint_sint take_bit_eq_mod LB_def)
  then have "uint x mod LB = sint x mod LB" by simp
  then show "LB ^ length [x] dvd lval [x] - sint x" by (simp add: mod_eq_dvd_iff)
  show "fits (length [x]) (sint x)" using sint_ge [of x] sint_lt [of x] by (simp add: fits_def LB_def)
qed

lemma neg_delivers: "a \<noteq> [] \<Longrightarrow> delivers malloc (length a) (js_bigint_neg malloc a m) (- sval a)"
  using add_delivers [of "[0]" a malloc True m] by (cases a) (simp_all add: js_bigint_neg_def js_bigint_set_si_def)

subsection \<open>Products\<close>

lemma sub_at:
  fixes r b :: "js_limb list" and i :: nat
  defines "r' \<equiv> store_at r i (fst (mp_sub (take (length b) (drop i r)) b 0))"
  assumes "length r = i + length b"
  shows "length r' = length r" "LB ^ length r dvd lval r' - (lval r - LB ^ i * lval b)"
proof -
  obtain s k where sk: "mp_sub (take (length b) (drop i r)) b 0 = (s, k)" by fastforce
  have sv: "length s = length b" "lval s - LB ^ length b * uint k = lval (drop i r) - lval b"
    using mp_sub_val [OF sk] assms(2) by simp_all
  have r': "r' = store_at r i s" by (simp add: r'_def sk)
  show "length r' = length r" using sv(1) assms(2) by (simp add: r')
  have "lval r' = lval r + LB ^ i * (lval s - lval (drop i r))" using lval_store_at [of i s r] sv(1) assms(2) by (simp add: r')
  also have "lval s - lval (drop i r) = LB ^ length b * uint k - lval b" using sv(2) by linarith
  finally show "LB ^ length r dvd lval r' - (lval r - LB ^ i * lval b)" using assms(2) by (simp add: power_add algebra_simps)
qed

lemma fits_mult:
  assumes "fits n v" "fits k w"
  shows "fits (n + k) (v * w)"
proof -
  have "\<bar>2 * v\<bar> \<le> LB ^ n" "\<bar>2 * w\<bar> \<le> LB ^ k" using assms by (auto simp: fits_def)
  then have "\<bar>2 * v\<bar> * \<bar>2 * w\<bar> \<le> LB ^ n * LB ^ k" by (intro mult_mono) simp_all
  then have "4 * \<bar>v * w\<bar> \<le> LB ^ (n + k)" by (simp add: abs_mult power_add)
  moreover have "0 < LB ^ (n + k)" by simp
  ultimately show ?thesis unfolding fits_def by linarith
qed

lemma mul_delivers:
  assumes "a \<noteq> []" "b \<noteq> []"
  shows "delivers malloc (length a + length b) (js_bigint_mul malloc a b m) (sval a * sval b)"
  unfolding js_bigint_mul_def Let_def
proof (rule delivers_new [OF order_refl], rule delivers_normalize)
  fix r :: "js_limb list"
  assume len: "length r = length a + length b"
  define M where "M = LB ^ (length a + length b)"
  define r1 where "r1 = mp_mul_basecase r a b"
  define r2 where "r2 = (if js_bigint_sign a \<noteq> 0 then store_at r1 (length a) (fst (mp_sub (take (length b) (drop (length a) r1)) b 0)) else r1)"
  define r3 where "r3 = (if js_bigint_sign b \<noteq> 0 then store_at r2 (length b) (fst (mp_sub (take (length a) (drop (length b) r2)) a 0)) else r2)"
  have v1: "length r1 = length a + length b" "lval r1 = lval a * lval b" using mp_mul_basecase_val [OF assms len] len by (simp_all add: r1_def)
  have v2: "length r2 = length a + length b" "M dvd lval r2 - (lval r1 - of_bool (sval a < 0) * (LB ^ length a * lval b))"
    unfolding r2_def M_def using sub_at [of r1 "length a" b] v1(1) by (simp_all add: sign_val [OF assms(1)])
  have v3: "length r3 = length a + length b" "M dvd lval r3 - (lval r2 - of_bool (sval b < 0) * (LB ^ length b * lval a))"
    unfolding r3_def M_def using sub_at [of r2 "length b" a] v2(1) by (simp_all add: sign_val [OF assms(2)] add.commute)
  have "M dvd lval a * lval b - of_bool (sval a < 0) * (LB ^ length a * lval b) - of_bool (sval b < 0) * (LB ^ length b * lval a) - sval a * sval b"
    using sval_lval [of a] sval_lval [of b] by (cases "sval a < 0"; cases "sval b < 0") (auto simp: algebra_simps M_def power_add)
  from dvd_add [OF dvd_add [OF v3(2) v2(2)] this] have "M dvd lval r3 - sval a * sval b" using v1(2) by (simp add: algebra_simps)
  moreover have "fits (length r3) (sval a * sval b)" unfolding v3(1) by (intro fits_mult sval_fits)
  ultimately show "sval r3 = sval a * sval b" using v3(1) by (intro svalI) (simp_all add: M_def)
  show "r3 \<noteq> []" using v3(1) assms by auto
qed

subsection \<open>Bitwise operations on the values\<close>

fun int_op :: "bit_op \<Rightarrow> int \<Rightarrow> int \<Rightarrow> int" where
  "int_op OP_or x y = x OR y"
| "int_op OP_and x y = x AND y"
| "int_op OP_xor x y = x XOR y"

lemma sval_Cons: "xs \<noteq> [] \<Longrightarrow> sval (x # xs) = uint x + LB * sval xs"
  using top_half_iff [of xs] top_half_iff [of "x # xs"] by (auto simp: sval_def algebra_simps)

lemma sval_concat: "xs \<noteq> [] \<Longrightarrow> sval (x # xs) = concat_bit 64 (uint x) (sval xs)"
  using limb_range [of x] by (simp add: sval_Cons concat_bit_eq take_bit_int_eq_self push_bit_eq_mult LB_def)

lemma int_op_concat: "int_op op (concat_bit n u s) (concat_bit n v t) = concat_bit n (int_op op u v) (int_op op s t)"
  by (cases op) (auto intro!: bit_eqI simp: bit_concat_bit_iff bit_and_iff bit_or_iff bit_xor_iff)

lemma limb_op_val: "uint (limb_op op x y) = int_op op (uint x) (uint y)" "sint (limb_op op x y) = int_op op (sint x) (sint y)"
  by (cases op; simp add: unsigned_and_eq unsigned_or_eq unsigned_xor_eq signed_and_eq signed_or_eq signed_xor_eq)+

lemma map2_limb_op: "length xs = length ys \<Longrightarrow> xs \<noteq> [] \<Longrightarrow> sval (map2 (limb_op op) xs ys) = int_op op (sval xs) (sval ys)"
proof (induction xs ys rule: list_induct2)
  case (Cons x xs y ys)
  show ?case
  proof (cases "xs = []")
    case True
    then show ?thesis using Cons(1) by (simp add: limb_op_val)
  next
    case False
    moreover from this Cons(1) have "ys \<noteq> []" "map2 (limb_op op) xs ys \<noteq> []" by (auto simp: zip_eq_Nil_iff)
    ultimately show ?thesis using Cons(2) by (simp add: sval_concat limb_op_val int_op_concat)
  qed
qed simp

lemma sval_extend:
  assumes "xs \<noteq> []" "length xs \<le> n"
  shows "sval (xs @ replicate (n - length xs) (- js_bigint_sign xs)) = sval xs"
proof (rule svalI)
  show "LB ^ length (xs @ replicate (n - length xs) (- js_bigint_sign xs)) dvd lval (xs @ replicate (n - length xs) (- js_bigint_sign xs)) - sval xs"
    unfolding sign_extend [OF assms] using assms(2) by simp
  show "fits (length (xs @ replicate (n - length xs) (- js_bigint_sign xs))) (sval xs)"
    using fits_pow [OF sval_fits assms(2)] assms(2) by (simp add: fits_def)
qed

lemma int_op_commute: "int_op op x y = int_op op y x"
  by (cases op) (simp_all add: ac_simps)

lemma logic_delivers:
  assumes "a \<noteq> []" "b \<noteq> []"
  shows "delivers malloc (max (length a) (length b)) (js_bigint_logic malloc a b op m) (int_op op (sval a) (sval b))"
proof -
  define c d where "c = (if length a < length b then b else a)" and "d = (if length a < length b then a else b)"
  have cd: "c \<noteq> []" "d \<noteq> []" "length d \<le> length c" "length c = max (length a) (length b)" "(if length a < length b then (b, a) else (a, b)) = (c, d)"
    "int_op op (sval a) (sval b) = int_op op (sval c) (sval d)"
    using assms by (auto simp: c_def d_def int_op_commute)
  define t1 t2 where "t1 = map2 (limb_op op) (take (length d) c) d" and "t2 = map (\<lambda>x. limb_op op x (- js_bigint_sign d)) (drop (length d) c)"
  have "map2 (limb_op op) c (d @ replicate (length c - length d) (- js_bigint_sign d)) = t1 @ t2"
  proof -
    have t2: "t2 = map2 (limb_op op) (drop (length d) c) (replicate (length c - length d) (- js_bigint_sign d))"
      unfolding t2_def by (rule nth_equalityI) simp_all
    have "map2 (limb_op op) (take (length d) c @ drop (length d) c) (d @ replicate (length c - length d) (- js_bigint_sign d)) = t1 @ t2"
      unfolding t2 t1_def using cd(3) by (subst zip_append) simp_all
    then show ?thesis by simp
  qed
  then have v: "sval (t1 @ t2) = int_op op (sval c) (sval d)"
    using map2_limb_op [of c "d @ replicate (length c - length d) (- js_bigint_sign d)" op] cd(1,3) sval_extend [OF cd(2,3)] by simp
  have lt: "length t1 = length d" "length (t1 @ t2) = length c" "t1 @ t2 \<noteq> []" using cd(2,3) by (auto simp: t1_def t2_def)
  have "delivers malloc (length c) (js_bigint_logic malloc a b op m) (int_op op (sval c) (sval d))"
    unfolding js_bigint_logic_def Let_def cd(5) prod.case t1_def [symmetric] t2_def [symmetric]
  proof (rule delivers_new [OF order_refl])
    fix r :: "js_limb list" and m
    assume "length r = length c"
    then have "store_at (store_at r 0 t1) (length d) t2 = t1 @ t2" using store_at_two [of r t1 t2] lt by simp
    then show "delivers malloc (length c) (js_bigint_normalize malloc (store_at (store_at r 0 t1) (length d) t2) m) (int_op op (sval c) (sval d))"
      using delivers_normalize [OF lt(3) v] by simp
  qed
  then show ?thesis using cd by simp
qed

lemma LB_even: "1 \<le> n \<Longrightarrow> even (LB ^ n)"
  by (simp add: LB_def)

lemma not_delivers:
  assumes "big_ok a"
  shows "delivers malloc (length a) (js_bigint_not malloc a m) (NOT (sval a))"
proof -
  define b where "b = map (\<lambda>x. NOT x) a"
  have ne: "a \<noteq> []" and lb: "length b = length a" using assms by (simp_all add: big_ok_def b_def)
  have ev: "even (LB ^ length a)" using ne by (intro LB_even) (simp add: Suc_le_eq)
  have fits_not: "fits n (NOT v) \<longleftrightarrow> fits n v" if "1 \<le> n" for n v
  proof -
    from LB_even [OF that] obtain c where "LB ^ n = 2 * c" by (elim evenE)
    then show ?thesis unfolding fits_def not_int_def by auto
  qed
  have "sval b = NOT (sval a)"
  proof (rule svalI)
    show "LB ^ length b dvd lval b - NOT (sval a)" unfolding lb using sval_dvd [of a] lval_not [of a]
      by (cases "sval a < 0") (simp_all add: b_def not_int_def sval_lval)
    show "fits (length b) (NOT (sval a))" unfolding lb using fits_not [of "length a"] sval_fits [of a] ne by (simp add: Suc_le_eq)
  qed
  moreover from this have "big_ok b" if "length a \<noteq> 1"
  proof -
    have "1 \<le> length a - 1" using ne that by (cases "length a") auto
    then show ?thesis using assms that fits_not [of "length a - 1" "sval a"] lb ne \<open>sval b = NOT (sval a)\<close> by (auto simp: big_ok_def)
  qed
  moreover have "big_ok b" if "length a = 1" using that lb by (auto simp: big_ok_def)
  ultimately show ?thesis unfolding js_bigint_not_def b_def [symmetric]
    by (intro delivers_new) (auto simp add: store_at_all lb)
qed

subsection \<open>Shifts\<close>

lemma LB_bits: "LB ^ d * 2 ^ s = 2 ^ (64 * d + s)"
  by (simp only: LB_def power_mult power_add)

lemma not_fits_ok:
  assumes "big_ok a" "sval a \<noteq> 0"
  shows "\<not> fits (length a - 1) (sval a)"
  using assms by (auto simp: big_ok_def fits_def)

lemma zero_iff:
  assumes "big_ok a"
  shows "length a = 1 \<and> a ! 0 = 0 \<longleftrightarrow> sval a = 0"
proof
  assume "length a = 1 \<and> a ! 0 = 0"
  then have "a = [0]" by (cases a) auto
  then show "sval a = 0" by simp
next
  assume z: "sval a = 0"
  then have "length a = 1" using assms by (auto simp: big_ok_def fits_def)
  then obtain x where x: "a = [x]" by (cases a) auto
  then have "x = 0" using z by (simp add: signed_eq_0_iff)
  then show "length a = 1 \<and> a ! 0 = 0" using x by simp
qed

lemma fits_shift: "fits (d + n) (LB ^ d * v) \<longleftrightarrow> fits n v"
proof -
  have "- (LB ^ (d + n)) \<le> 2 * (LB ^ d * v) \<longleftrightarrow> LB ^ d * (- (LB ^ n)) \<le> LB ^ d * (2 * v)" by (simp add: power_add mult.left_commute)
  also have "\<dots> \<longleftrightarrow> - (LB ^ n) \<le> 2 * v" by (subst mult_le_cancel_left_pos) simp_all
  finally have 1: "- (LB ^ (d + n)) \<le> 2 * (LB ^ d * v) \<longleftrightarrow> - (LB ^ n) \<le> 2 * v" .
  have "2 * (LB ^ d * v) < LB ^ (d + n) \<longleftrightarrow> LB ^ d * (2 * v) < LB ^ d * LB ^ n" by (simp add: power_add mult.left_commute)
  also have "\<dots> \<longleftrightarrow> 2 * v < LB ^ n" by (subst mult_less_cancel_left_pos) simp_all
  finally show ?thesis using 1 by (simp add: fits_def)
qed

lemma sval_zeros:
  assumes "a \<noteq> []"
  shows "sval (replicate d 0 @ a) = LB ^ d * sval a"
  using assms by (induction d) (simp_all add: sval_Cons)

lemma big_ok_zeros:
  assumes "big_ok a" "sval a \<noteq> 0"
  shows "big_ok (replicate d 0 @ a)"
proof -
  have "a \<noteq> []" using assms(1) by (simp add: big_ok_def)
  then show ?thesis using not_fits_ok [OF assms] fits_shift [of d "length a - 1" "sval a"] by (auto simp: big_ok_def sval_zeros Suc_le_eq)
qed

lemma uint_ones: "uint (- 1 :: js_limb) = LB - 1"
  by (simp add: limb_ariths LB_def)

lemma or_top_ones:
  assumes "uint (l :: js_limb) < 2 ^ s" "1 \<le> s" "s \<le> 63"
  shows "uint (l OR push_bit s (- 1)) = uint l + (LB - 2 ^ s)"
proof -
  have s: "s \<le> 64" using assms(3) by simp
  have p: "LB = 2 ^ (64 - s) * 2 ^ s" using limb_push(2) [OF s] .
  have "uint (- 1 :: js_limb) = 2 ^ (64 - s) * 2 ^ s - 1" unfolding p [symmetric] by (rule uint_ones)
  also have "\<dots> mod 2 ^ (64 - s) = - 1 mod 2 ^ (64 - s)" by (simp add: mod_diff_left_eq [symmetric])
  also have "\<dots> = 2 ^ (64 - s) - 1" by (rule zmod_minus1) simp
  finally have "uint (push_bit s (- 1) OR l) = (2 ^ (64 - s) - 1) * 2 ^ s + uint l" using or_limb [OF assms(1) s, of "- 1"] by simp
  then show ?thesis by (simp add: or.commute left_diff_distrib p)
qed

lemma shl_top:
  assumes "a \<noteq> []" "mp_shl_js a s = (t, l)" "1 \<le> s" "s \<le> 63"
  shows "sval (t @ [if js_bigint_sign a \<noteq> 0 then l OR push_bit s (- 1) else l]) = sval a * 2 ^ s" "length t = length a"
proof -
  note v = mp_shl_js_val [OF assms(2-4)]
  show lt: "length t = length a" by (rule v)
  define l' where "l' = (if js_bigint_sign a \<noteq> 0 then l OR push_bit s (- 1) else l)"
  have p2: "2 ^ s * 2 \<le> LB" using power_increasing [of "s + 1" 64 "2 :: int"] assms(4) by (simp add: LB_def)
  have "lval (t @ [l']) = sval a * 2 ^ s + LB ^ (length a + 1) * of_bool (sval a < 0)"
  proof (cases "sval a < 0")
    case True
    then have "uint l' = uint l + (LB - 2 ^ s)" unfolding l'_def using or_top_ones [OF v(2) assms(3,4)] sign_val [OF assms(1)] by simp
    then have "lval (t @ [l']) = (lval t + LB ^ length a * uint l) + LB ^ length a * (LB - 2 ^ s)" using lt by (simp add: lval_snoc distrib_left)
    also have "\<dots> = sval a * 2 ^ s + LB ^ (length a + 1)" unfolding v(3) sval_lval(1) [OF True] by (simp add: algebra_simps)
    finally show ?thesis using True by simp
  next
    case False
    then show ?thesis using v(3) sign_val [OF assms(1)] lt sval_lval(2) [of a] by (simp add: l'_def lval_snoc)
  qed
  moreover have "fits (length a + 1) (sval a * 2 ^ s)"
  proof -
    have "\<bar>2 * sval a\<bar> \<le> LB ^ length a" using sval_fits [of a] by (auto simp: fits_def)
    then have "\<bar>2 * sval a\<bar> * (2 ^ s * 2) \<le> LB ^ length a * LB" using p2 by (intro mult_mono) simp_all
    then have "4 * \<bar>sval a * 2 ^ s\<bar> \<le> LB ^ (length a + 1)" by (simp add: abs_mult ac_simps)
    moreover have "0 < LB ^ (length a + 1)" by simp
    ultimately show ?thesis unfolding fits_def by linarith
  qed
  ultimately show "sval (t @ [l']) = sval a * 2 ^ s" using lt by (intro svalI) simp_all
qed

lemma shl_delivers:
  assumes "big_ok a"
  shows "delivers malloc (length a + shift1 div 64) (js_bigint_shl malloc a shift1 m) (sval a * 2 ^ shift1)"
proof (cases "sval a = 0")
  case True
  moreover have "1 \<le> length a" using assms by (simp add: big_ok_def Suc_le_eq)
  ultimately show ?thesis using zero_iff [OF assms] by (auto simp: js_bigint_shl_def intro!: delivers_new_si)
next
  case False
  have ne: "a \<noteq> []" using assms by (simp add: big_ok_def)
  define d s where "d = shift1 div 64" and "s = shift1 mod 64"
  have e: "(2 :: int) ^ shift1 = LB ^ d * 2 ^ s" by (simp add: LB_bits d_def s_def)
  define cont where "cont r m = (if s = 0 then (m, Inr (store_at (store_at r 0 (replicate d 0)) d a))
      else js_bigint_extend malloc (store_at (store_at r 0 (replicate d 0)) d (fst (mp_shl_js a s)))
             (if js_bigint_sign a \<noteq> 0 then snd (mp_shl_js a s) OR push_bit s (- 1) else snd (mp_shl_js a s)) m)" for r and m :: 'a
  have "delivers malloc (length a + d) (cont r m) (LB ^ d * (sval a * 2 ^ s))" if r: "length r = length a + d" for r m
  proof (cases "s = 0")
    case True
    have "store_at (store_at r 0 (replicate d 0)) d a = replicate d 0 @ a" using store_at_two [of r "replicate d 0" a] r by simp
    moreover have "big_ok (replicate d 0 @ a)" by (rule big_ok_zeros [OF assms False])
    ultimately show ?thesis using True ne by (simp add: cont_def sval_zeros)
  next
    case s: False
    have s': "1 \<le> s" "s \<le> 63" using s by (simp_all add: s_def)
    obtain t l where tl: "mp_shl_js a s = (t, l)" by fastforce
    note top = shl_top [OF ne tl s']
    have "store_at (store_at r 0 (replicate d 0)) d t = replicate d 0 @ t" using store_at_two [of r "replicate d 0" t] r top(2) by simp
    then show ?thesis using s tl top ne sval_zeros [of "t @ [_]" d] by (auto simp: cont_def intro!: delivers_extend)
  qed
  moreover have "js_bigint_shl malloc a shift1 m = and_then (js_bigint_new malloc (length a + d) m) cont"
    using zero_iff [OF assms] False
    by (auto simp: js_bigint_shl_def Let_def d_def s_def cont_def fun_eq_iff split_def intro!: arg_cong2 [where f = and_then])
  ultimately show ?thesis unfolding e d_def [symmetric] by (auto intro!: delivers_new simp: ac_simps)
qed

lemma sval_drop:
  assumes "d < length a"
  shows "sval a = lval (take d a) + LB ^ d * sval (drop d a)"
  using assms
proof (induction d arbitrary: a)
  case (Suc d)
  then obtain x xs where a: "a = x # xs" "d < length xs" by (cases a) auto
  then have "sval a = uint x + LB * sval xs" by (intro trans [OF _ sval_Cons]) auto
  then show ?case using Suc(1) [OF a(2)] a(1) by (simp add: algebra_simps)
qed simp

lemma sval_drop_div:
  assumes "d < length a"
  shows "sval a div LB ^ d = sval (drop d a)"
proof -
  have "lval (take d a) div LB ^ d = 0" using lval_range [of "take d a"] assms by (intro div_pos_pos_trivial) simp_all
  then show ?thesis unfolding sval_drop [OF assms] by simp
qed

lemma big_ok_drop:
  assumes "big_ok a" "d < length a"
  shows "big_ok (drop d a)"
proof (rule ccontr)
  assume "\<not> big_ok (drop d a)"
  then have l: "length (drop d a) \<noteq> 1" and f: "fits (length a - d - 1) (sval (drop d a))" using assms(2) by (auto simp: big_ok_def)
  define n where "n = length a - d - 1"
  have n: "1 \<le> n" "length a - 1 = d + n" using l assms(2) by (auto simp: n_def)
  from LB_even [OF n(1)] obtain c where c: "LB ^ n = 2 * c" by (elim evenE)
  have "- c \<le> sval (drop d a)" "sval (drop d a) \<le> c - 1" using f c by (auto simp: fits_def n_def)
  then have "LB ^ d * (- c) \<le> LB ^ d * sval (drop d a)" "LB ^ d * sval (drop d a) \<le> LB ^ d * (c - 1)" by (intro mult_left_mono; simp)+
  moreover have "0 \<le> lval (take d a)" "lval (take d a) < LB ^ d" using lval_range [of "take d a"] assms(2) by simp_all
  moreover have "LB ^ d * (c - 1) = LB ^ d * c - LB ^ d" "LB ^ d * (- c) = - (LB ^ d * c)" by (simp_all add: algebra_simps)
  ultimately have "- (LB ^ d * c) \<le> sval a \<and> sval a < LB ^ d * c" unfolding sval_drop [OF assms(2)] by linarith
  then have "fits (length a - 1) (sval a)" unfolding n(2) fits_def by (simp add: power_add c mult.commute [of c])
  then show False using assms(1) l n by (auto simp: big_ok_def)
qed

lemma shr_val:
  assumes "X \<noteq> []" "1 \<le> s" "s \<le> 63"
  shows "sval (fst (mp_shr_js X s (- js_bigint_sign X))) = sval X div 2 ^ s" "length (fst (mp_shr_js X s (- js_bigint_sign X))) = length X"
proof -
  obtain t l where tl: "mp_shr_js X s (- js_bigint_sign X) = (t, l)" by fastforce
  note v = mp_shr_js_val [OF tl assms(2,3)]
  show lt: "length (fst (mp_shr_js X s (- js_bigint_sign X))) = length X" using v(1) tl by simp
  have "(2 :: int) ^ s * 2 ^ (64 - s) = LB" using assms(3) by (simp add: LB_def power_add [symmetric])
  then have "uint (- 1 :: js_limb) = 2 ^ s * 2 ^ (64 - s) - 1" by (simp only: uint_ones)
  also have "\<dots> mod 2 ^ s = - 1 mod 2 ^ s" by (simp add: mod_diff_left_eq [symmetric])
  also have "\<dots> = 2 ^ s - 1" by (rule zmod_minus1) simp
  finally have h: "uint (- 1 :: js_limb) mod 2 ^ s = 2 ^ s - 1" .
  have "lval t = sval X div 2 ^ s + LB ^ length X * of_bool (sval X < 0)"
  proof (cases "sval X < 0")
    case True
    then have hv: "uint (- js_bigint_sign X) mod 2 ^ s = 2 ^ s - 1" using sign_val [OF assms(1)] h by simp
    have "lval t = (sval X + LB ^ length X * 2 ^ s) div 2 ^ s" unfolding v(2) hv sval_lval(1) [OF True] by (simp add: algebra_simps)
    then show ?thesis using True by simp
  next
    case False
    then show ?thesis unfolding v(2) using sign_val [OF assms(1)] sval_lval(2) [of X] by simp
  qed
  moreover have "fits (length X) (sval X div 2 ^ s)"
  proof -
    have "LB ^ length X = 2 * (LB ^ length X div 2)" using LB_even [of "length X"] assms(1) by (simp add: Suc_le_eq)
    then obtain c where c: "LB ^ length X = 2 * c" by blast
    then have r: "0 < c" "- c \<le> sval X" "sval X < c" using sval_fits [of X] zero_less_power [of LB "length X"] by (auto simp: fits_def)
    have "(- c) div 1 \<le> (- c) div 2 ^ s" using r(1) by (intro zdiv_mono2_neg) simp_all
    also have "\<dots> \<le> sval X div 2 ^ s" using r(2) by (intro zdiv_mono1) simp_all
    finally have "- c \<le> sval X div 2 ^ s" by simp
    moreover have "sval X div 2 ^ s \<le> (c - 1) div 2 ^ s" using r(3) by (intro zdiv_mono1) simp_all
    moreover have "(c - 1) div 2 ^ s \<le> (c - 1) div 1" using r(1) by (intro zdiv_mono2) simp_all
    ultimately show ?thesis by (simp add: fits_def c)
  qed
  ultimately show "sval (fst (mp_shr_js X s (- js_bigint_sign X))) = sval X div 2 ^ s" using v(1) tl by (intro svalI) simp_all
qed

lemma div_small:
  assumes "- k \<le> v" "v < (k :: int)"
  shows "v div k = (if v < 0 then - 1 else 0)"
proof -
  have "0 < k" using assms by linarith
  then have "(v + k) div k = v div k + 1" by (intro div_add_self2) simp
  moreover have "(v + k) div k = 0" if "v < 0" using assms that by (intro div_pos_pos_trivial) auto
  ultimately show ?thesis using assms by (auto simp: div_pos_pos_trivial)
qed

lemma shr_delivers:
  assumes "big_ok a"
  shows "delivers malloc (length a) (js_bigint_shr malloc a shift1 m) (sval a div 2 ^ shift1)"
proof -
  have ne: "a \<noteq> []" using assms by (simp add: big_ok_def)
  define d s where "d = shift1 div 64" and "s = shift1 mod 64"
  have e: "(2 :: int) ^ shift1 = LB ^ d * 2 ^ s" by (simp add: LB_bits d_def s_def)
  show ?thesis
  proof (cases "d \<ge> length a")
    case True
    have "LB ^ length a * 1 \<le> LB ^ d * 2 ^ s" using True by (intro mult_mono power_increasing) (simp_all add: LB_def)
    then have "- ((2 :: int) ^ shift1) \<le> sval a" "sval a < 2 ^ shift1" using sval_fits [of a] unfolding e fits_def by auto
    then have "sval a div 2 ^ shift1 = (if sval a < 0 then - 1 else 0)" by (rule div_small)
    moreover have "1 \<le> length a" using ne by (simp add: Suc_le_eq)
    ultimately show ?thesis using True sign_val [OF ne]
      by (auto simp: js_bigint_shr_def Let_def d_def intro!: delivers_new_si)
  next
    case False
    then have d: "d < length a" by simp
    have X: "drop d a \<noteq> []" "js_bigint_sign (drop d a) = js_bigint_sign a" using d by (simp_all add: js_bigint_sign_def)
    have v: "sval a div 2 ^ shift1 = sval (drop d a) div 2 ^ s"
      unfolding e sval_drop_div [OF d, symmetric] by (rule zdiv_zmult2_eq) simp
    define cont where "cont r m = (if s = 0 then (m, Inr (store_at r 0 (drop d a)))
        else js_bigint_normalize malloc (store_at r 0 (fst (mp_shr_js (drop d a) s (- js_bigint_sign a)))) m)" for r and m :: 'a
    have "delivers malloc (length a) (cont r m) (sval (drop d a) div 2 ^ s)" if r: "length r = length a - d" for r m
    proof (cases "s = 0")
      case True
      then show ?thesis using r big_ok_drop [OF assms d] by (simp add: cont_def store_at_all)
    next
      case s: False
      then have "1 \<le> s" "s \<le> 63" by (simp_all add: s_def)
      note sv = shr_val [OF X(1) this, unfolded X(2)]
      moreover from this have "store_at r 0 (fst (mp_shr_js (drop d a) s (- js_bigint_sign a))) = fst (mp_shr_js (drop d a) s (- js_bigint_sign a))"
        using r by (intro store_at_all) simp
      moreover from sv(2) d have "fst (mp_shr_js (drop d a) s (- js_bigint_sign a)) \<noteq> []" by auto
      ultimately show ?thesis using s by (simp add: cont_def delivers_normalize)
    qed
    moreover have "js_bigint_shr malloc a shift1 m = and_then (js_bigint_new malloc (length a - d) m) cont"
      unfolding js_bigint_shr_def Let_def d_def [symmetric] s_def [symmetric] cont_def using d by simp
    ultimately show ?thesis unfolding v by (auto intro!: delivers_new)
  qed
qed

subsection \<open>Comparison\<close>

lemma cmp_limbs_val: "length xs = length ys \<Longrightarrow> cmp_limbs (rev xs) (rev ys) = sgn (lval xs - lval ys)"
proof (induction xs arbitrary: ys rule: rev_induct)
  case (snoc x xs)
  then obtain zs y where ys: "ys = zs @ [y]" "length zs = length xs" by (cases ys rule: rev_cases) auto
  define M where "M = LB ^ length xs"
  have r: "0 \<le> lval xs" "lval xs < M" "0 \<le> lval zs" "lval zs < M"
    using lval_range [of xs] lval_range [of zs] ys(2) by (simp_all add: M_def)
  have diff: "lval (xs @ [x]) - lval (zs @ [y]) = (lval xs - lval zs) + M * (uint x - uint y)"
    using ys(2) by (simp add: lval_snoc M_def algebra_simps)
  consider "x = y" | "uint x < uint y" | "uint y < uint x" by (cases "uint x" "uint y" rule: linorder_cases) (auto simp: word_uint_eq_iff)
  then show ?case
  proof cases
    case 1
    then show ?thesis using snoc(1) [of zs] ys by (simp add: lval_snoc)
  next
    case 2
    then have "M * (uint x - uint y) \<le> M * (- 1)" using r by (intro mult_left_mono) simp_all
    then have "lval (xs @ [x]) - lval (zs @ [y]) < 0" unfolding diff using r by simp
    then show ?thesis using 2 ys(1) by (auto simp: word_less_def)
  next
    case 3
    then have "M * 1 \<le> M * (uint x - uint y)" using r by (intro mult_left_mono) simp_all
    then have "0 < lval (xs @ [x]) - lval (zs @ [y])" unfolding diff using r by linarith
    then show ?thesis using 3 ys(1) by (auto simp: word_less_def)
  qed
qed simp

lemma longer_beyond:
  assumes "big_ok b" "a \<noteq> []" "length a < length b"
  shows "if sval b < 0 then sval b < sval a else sval a < sval b"
proof -
  have "length b \<noteq> 1" "length a \<le> length b - 1" using assms(2,3) by auto
  then show ?thesis using fits_pow [OF sval_fits [of a], of "length b - 1"] assms(1) by (auto simp: big_ok_def fits_def)
qed

lemma cmp_val:
  assumes "big_ok a" "big_ok b"
  shows "js_bigint_cmp a b = sgn (sval a - sval b)"
proof -
  have ne: "a \<noteq> []" "b \<noteq> []" using assms by (simp_all add: big_ok_def)
  note sg = sign_val [OF ne(1)] sign_val [OF ne(2)]
  show ?thesis
  proof (cases "(sval a < 0) = (sval b < 0)")
    case False
    then show ?thesis using sg by (auto simp: js_bigint_cmp_def Let_def)
  next
    case True
    consider "length a = length b" | "length a < length b" | "length b < length a" by linarith
    then show ?thesis
    proof cases
      case 1
      then have "lval a - lval b = sval a - sval b" using True sval_lval [of a] sval_lval [of b] by (cases "sval a < 0") auto
      then show ?thesis using 1 True sg cmp_limbs_val [of a b] by (auto simp: js_bigint_cmp_def Let_def)
    next
      case 2
      then show ?thesis using longer_beyond [OF assms(2) ne(1)] True sg by (auto simp: js_bigint_cmp_def Let_def)
    next
      case 3
      then show ?thesis using longer_beyond [OF assms(1) ne(2)] True sg by (auto simp: js_bigint_cmp_def Let_def)
    qed
  qed
qed

subsection \<open>Numbers with one representation\<close>

text \<open>What a client of the numbers relies on: a value has one representation, and comparison is by value.\<close>

locale exact_numbers =
  fixes ok :: "'a \<Rightarrow> bool" and val :: "'a \<Rightarrow> int" and cmp :: "'a \<Rightarrow> 'a \<Rightarrow> int"
  assumes unique: "ok x \<Longrightarrow> ok y \<Longrightarrow> val x = val y \<Longrightarrow> x = y"
    and cmp_sgn: "ok x \<Longrightarrow> ok y \<Longrightarrow> cmp x y = sgn (val x - val y)"
begin

lemma cmp_eq: "ok x \<Longrightarrow> ok y \<Longrightarrow> cmp x y = 0 \<longleftrightarrow> x = y"
  using unique [of x y] by (auto simp: cmp_sgn sgn_0_0)

lemma cmp_swap: "ok x \<Longrightarrow> ok y \<Longrightarrow> cmp y x = - cmp x y"
  using sgn_minus [of "val x - val y"] by (simp add: cmp_sgn)

lemma cmp_trans: "ok x \<Longrightarrow> ok y \<Longrightarrow> ok z \<Longrightarrow> cmp x y \<le> 0 \<Longrightarrow> cmp y z \<le> 0 \<Longrightarrow> cmp x z \<le> 0"
  by (simp add: cmp_sgn sgn_if split: if_splits)

end

text \<open>Sums and products that are exact when they succeed obey the laws of the ring of the integers, limb for limb.\<close>

locale exact_ring = exact_numbers +
  fixes add mul :: "'a \<Rightarrow> 'a \<Rightarrow> 'a option"
  assumes add_exact: "ok x \<Longrightarrow> ok y \<Longrightarrow> add x y = Some z \<Longrightarrow> ok z \<and> val z = val x + val y"
    and mul_exact: "ok x \<Longrightarrow> ok y \<Longrightarrow> mul x y = Some z \<Longrightarrow> ok z \<and> val z = val x * val y"
begin

lemma distributes:
  assumes "ok x" "ok y" "ok z"
    and s: "add x y = Some s" "mul s z = Some l" and p: "mul x z = Some p" "mul y z = Some q" "add p q = Some r"
  shows "l = r"
proof (rule unique)
  note v = add_exact [OF assms(1,2) s(1)] mul_exact [OF assms(1,3) p(1)] mul_exact [OF assms(2,3) p(2)]
  then have "ok l \<and> val l = val s * val z" "ok r \<and> val r = val p + val q" using mul_exact [OF _ assms(3) s(2)] add_exact [OF _ _ p(3)] by blast+
  then show "ok l" "ok r" "val l = val r" using v by (simp_all add: distrib_right)
qed

lemma mul_assoc:
  assumes "ok x" "ok y" "ok z" "mul x y = Some s" "mul s z = Some l" "mul y z = Some p" "mul x p = Some r"
  shows "l = r"
proof (rule unique)
  note v = mul_exact [OF assms(1,2,4)] mul_exact [OF assms(2,3,6)]
  then have "ok l \<and> val l = val s * val z" "ok r \<and> val r = val x * val p" using mul_exact [OF _ assms(3,5)] mul_exact [OF assms(1) _ assms(7)] by blast+
  then show "ok l" "ok r" "val l = val r" using v by simp_all
qed

end

definition result :: "('m, 'a) outcome \<Rightarrow> 'a option" where
  "result r = (case snd r of Inl _ \<Rightarrow> None | Inr x \<Rightarrow> Some x)"

lemma delivers_result: "delivers malloc N r v \<Longrightarrow> result r = Some x \<Longrightarrow> big_ok x \<and> sval x = v"
  by (auto simp: delivers_def result_def split: sum.splits)

lemma big_ok_Nil: "big_ok a \<Longrightarrow> a \<noteq> []"
  by (simp add: big_ok_def)

interpretation bigints: exact_ring big_ok sval js_bigint_cmp
    "\<lambda>x y. result (js_bigint_add malloc x y False m)" "\<lambda>x y. result (js_bigint_mul malloc x y m)" for malloc m
proof unfold_locales
  show "x = y" if "big_ok x" "big_ok y" "sval x = sval y" for x y using that by (rule big_ok_unique)
  show "js_bigint_cmp x y = sgn (sval x - sval y)" if "big_ok x" "big_ok y" for x y using that by (rule cmp_val)
  show "big_ok z \<and> sval z = sval x + sval y" if "big_ok x" "big_ok y" "result (js_bigint_add malloc x y False m) = Some z" for x y z
    using delivers_result [OF add_delivers that(3)] that by (simp add: big_ok_Nil)
  show "big_ok z \<and> sval z = sval x * sval y" if "big_ok x" "big_ok y" "result (js_bigint_mul malloc x y m) = Some z" for x y z
    using delivers_result [OF mul_delivers that(3)] that by (simp add: big_ok_Nil)
qed

subsection \<open>Properties\<close>

text \<open>An allocator that always succeeds, for the concrete runs.\<close>

definition full_malloc :: "unit js_malloc" where
  "full_malloc m n = (m, Some (\<lambda>i. 0xa5a5a5a5a5a5a5a5))"

lemma full_malloc_result:
  assumes "delivers full_malloc N r v" "N \<le> JS_BIGINT_MAX_SIZE" "big_ok x" "sval x = v"
  shows "result r = Some x"
  using assms big_ok_unique by (fastforce simp: delivers_def result_def full_malloc_def split: sum.splits)

text \<open>
  C18. \<^verbatim>\<open>js_bigint_add\<close> and \<^verbatim>\<open>js_bigint_neg\<close> are exact: whatever the lengths and signs of the operands and the
  contents of fresh memory, the result is the sum (or the difference, or the negation) in normal form, unless memory
  runs out or the operands have more than 16384 limbs.
\<close>

theorem js_bigint_add_exact:
  assumes "big_ok a" "big_ok b"
  shows "delivers malloc (max (length a) (length b)) (js_bigint_add malloc a b b_neg m) (if b_neg then sval a - sval b else sval a + sval b) \<and>
    delivers malloc (length a) (js_bigint_neg malloc a m) (- sval a)"
  using add_delivers [OF assms [THEN big_ok_Nil]] neg_delivers [OF assms(1) [THEN big_ok_Nil]] by (rule conjI)

theorem js_bigint_add_exact_witness:
  "delivers full_malloc (max (length [0x7fffffffffffffff]) (length [1])) (js_bigint_add full_malloc [0x7fffffffffffffff] [1] False ()) (2 ^ 63)"
  using js_bigint_add_exact [of "[0x7fffffffffffffff]" "[1]" full_malloc False "()"] by (simp add: big_ok_def)

text \<open>C19. \<^verbatim>\<open>js_bigint_mul\<close> is exact for every sign of the operands.\<close>

theorem js_bigint_mul_exact:
  assumes "big_ok a" "big_ok b"
  shows "delivers malloc (length a + length b) (js_bigint_mul malloc a b m) (sval a * sval b)"
  using assms by (intro mul_delivers big_ok_Nil)

theorem js_bigint_mul_exact_witness:
  "delivers full_malloc (length [0x8000000000000000 :: js_limb] + length [- 1 :: js_limb]) (js_bigint_mul full_malloc [0x8000000000000000] [- 1] ()) (2 ^ 63)"
  using js_bigint_mul_exact [of "[0x8000000000000000]" "[- 1]" full_malloc "()"] by (simp add: big_ok_def)

text \<open>
  C22. \<^verbatim>\<open>js_bigint_logic\<close> and \<^verbatim>\<open>js_bigint_not\<close> compute the bitwise operations on the infinite two's complement
  representations of their operands.
\<close>

theorem js_bigint_logic_exact:
  assumes "big_ok a" "big_ok b"
  shows "delivers malloc (max (length a) (length b)) (js_bigint_logic malloc a b op m) (int_op op (sval a) (sval b)) \<and>
    delivers malloc (length a) (js_bigint_not malloc a m) (NOT (sval a))"
  using logic_delivers [OF assms [THEN big_ok_Nil]] not_delivers [OF assms(1)] by (rule conjI)

theorem js_bigint_logic_exact_witness:
  "delivers full_malloc (max (length [12 :: js_limb]) (length [- 6 :: js_limb])) (js_bigint_logic full_malloc [12] [- 6] OP_and ()) 8"
  using js_bigint_logic_exact [of "[12]" "[- 6]" full_malloc OP_and "()"] by (simp add: big_ok_def)

text \<open>
  C23. \<^verbatim>\<open>js_bigint_shl\<close> multiplies by a power of two and \<^verbatim>\<open>js_bigint_shr\<close> divides by one, rounding towards minus
  infinity, for every shift count.
\<close>

theorem js_bigint_shift_exact:
  assumes "big_ok a"
  shows "delivers malloc (length a + shift1 div 64) (js_bigint_shl malloc a shift1 m) (sval a * 2 ^ shift1) \<and>
    delivers malloc (length a) (js_bigint_shr malloc a shift1 m) (sval a div 2 ^ shift1)"
  using shl_delivers [OF assms] shr_delivers [OF assms] by (rule conjI)

theorem js_bigint_shift_exact_witness:
  "delivers full_malloc (length [- 5 :: js_limb]) (js_bigint_shr full_malloc [- 5] 1 ()) (- 3)"
  using js_bigint_shift_exact [of "[- 5]" full_malloc 1 "()"] by (simp add: big_ok_def)

text \<open>
  Numbers in normal form are compared correctly by \<^verbatim>\<open>js_bigint_cmp\<close>: the result is the sign of the difference,
  it is 0 only for identical limbs, it changes sign with the order of the operands, and the order is transitive.
\<close>

theorem js_bigint_cmp_order:
  assumes "big_ok a" "big_ok b" "big_ok c"
  shows "js_bigint_cmp a b = sgn (sval a - sval b) \<and> (js_bigint_cmp a b = 0 \<longleftrightarrow> a = b) \<and> js_bigint_cmp b a = - js_bigint_cmp a b \<and>
    (js_bigint_cmp a b \<le> 0 \<longrightarrow> js_bigint_cmp b c \<le> 0 \<longrightarrow> js_bigint_cmp a c \<le> 0)"
  using assms bigints.cmp_sgn bigints.cmp_eq bigints.cmp_swap bigints.cmp_trans by blast

theorem js_bigint_cmp_order_witness:
  "js_bigint_cmp [- 1] [0, 1] = - 1"
  using js_bigint_cmp_order [of "[- 1]" "[0, 1]" "[1]"] by (simp add: big_ok_def fits_def sval_Cons LB_def)

end
