(* ===== verification/Bigint_Div.thy ===== *)
theory Bigint_Div
  imports Bigint
begin

text \<open>
  Division and powers of BigInt numbers: \<^verbatim>\<open>js_bigint_divrem\<close> truncates towards zero, its correction loop
  ends, and \<^verbatim>\<open>js_bigint_pow\<close> is exponentiation.
\<close>

subsection \<open>Absolute values\<close>

lemma mp_neg_val:
  "length (fst (mp_neg xs)) = length xs" "LB ^ length xs dvd lval (fst (mp_neg xs)) + lval xs"
proof -
  obtain r k where rk: "mp_neg_loop xs 1 = (r, k)" by fastforce
  have v: "length r = length xs" "lval r + LB ^ length xs * uint k = LB ^ length xs - lval xs" using mp_neg_loop_val [OF rk] by simp_all
  show "length (fst (mp_neg xs)) = length xs" using v(1) rk by (simp add: mp_neg_def)
  have "lval r + lval xs = LB ^ length xs * (1 - uint k)" using v(2) by (simp add: algebra_simps)
  then show "LB ^ length xs dvd lval (fst (mp_neg xs)) + lval xs" using rk by (simp add: mp_neg_def)
qed

lemma lval_unique:
  assumes "LB ^ length xs dvd lval xs - v" "0 \<le> v" "v < LB ^ length xs"
  shows "lval xs = v"
proof -
  have "lval xs mod LB ^ length xs = v mod LB ^ length xs" using assms(1) by (simp add: mod_eq_dvd_iff)
  then show ?thesis using assms(2,3) lval_range [of xs] by (simp add: mod_pos_pos_trivial)
qed

lemma abs_limbs:
  assumes "a \<noteq> []"
  shows "lval (if js_bigint_sign a \<noteq> 0 then fst (mp_neg a) else a) = \<bar>sval a\<bar>"
    and "length (if js_bigint_sign a \<noteq> 0 then fst (mp_neg a) else a) = length a"
proof -
  note s = sign_val [OF assms]
  show "length (if js_bigint_sign a \<noteq> 0 then fst (mp_neg a) else a) = length a" by (simp add: mp_neg_val)
  show "lval (if js_bigint_sign a \<noteq> 0 then fst (mp_neg a) else a) = \<bar>sval a\<bar>"
  proof (cases "sval a < 0")
    case True
    have "LB ^ length a dvd lval (fst (mp_neg a)) + (sval a + LB ^ length a)"
      using mp_neg_val(2) [of a] unfolding sval_lval(1) [OF True] .
    then have "LB ^ length a dvd (lval (fst (mp_neg a)) - (- sval a)) + LB ^ length a" by (simp add: algebra_simps)
    then have "LB ^ length a dvd lval (fst (mp_neg a)) - (- sval a)" by (subst (asm) dvd_add_left_iff) simp_all
    moreover have "- sval a < LB ^ length a" using sval_fits [of a] True unfolding fits_def by linarith
    ultimately have "lval (fst (mp_neg a)) = - sval a" using True by (intro lval_unique) (simp_all add: mp_neg_val(1))
    then show ?thesis using True s by simp
  qed (use s sval_lval(2) [of a] in simp)
qed

lemma neg_limbs:
  assumes "fits (length xs) (- sval xs)"
  shows "sval (fst (mp_neg xs)) = - sval xs"
proof (rule svalI)
  have "LB ^ length xs dvd (lval (fst (mp_neg xs)) + lval xs) - (lval xs - sval xs)" by (rule dvd_diff [OF mp_neg_val(2) sval_dvd])
  then show "LB ^ length (fst (mp_neg xs)) dvd lval (fst (mp_neg xs)) - - sval xs" by (simp add: mp_neg_val(1))
  show "fits (length (fst (mp_neg xs))) (- sval xs)" using assms by (simp add: mp_neg_val(1))
qed

lemma sval_zero_top: "sval (xs @ [0]) = lval xs"
proof -
  have "2 * lval xs < LB ^ (length xs + 1)" using lval_range(2) [of xs] LB_double [of "length xs"] by linarith
  then show ?thesis by (simp add: sval_def lval_snoc)
qed

lemma neg_zero_top: "sval (fst (mp_neg (xs @ [0]))) = - lval xs"
proof -
  have "fits (length xs + 1) (- lval xs)" unfolding fits_def using lval_range [of xs] LB_double [of "length xs"] by linarith
  then have "fits (length (xs @ [0])) (- sval (xs @ [0]))" unfolding sval_zero_top by simp
  from neg_limbs [OF this] show ?thesis by (simp add: sval_zero_top)
qed

lemma top_len_val:
  "1 \<le> l \<Longrightarrow> l \<le> length tab \<Longrightarrow>
   1 \<le> top_len tab l \<and> top_len tab l \<le> l \<and> lval (take (top_len tab l) tab) = lval (take l tab) \<and>
   (top_len tab l = 1 \<or> tab ! (top_len tab l - 1) \<noteq> 0)"
proof (induction tab l rule: top_len.induct)
  case (1 tab n)
  have "take (Suc (Suc n)) tab = take (Suc n) tab @ [tab ! Suc n]" using 1(3) by (simp add: take_Suc_conv_app_nth)
  then have "tab ! Suc n = 0 \<Longrightarrow> lval (take (Suc (Suc n)) tab) = lval (take (Suc n) tab)" by (simp add: lval_snoc)
  then show ?case using 1 by (cases "tab ! Suc n = 0") auto
qed auto

lemma clz64_normal:
  assumes "x \<noteq> (0 :: js_limb)"
  shows "clz64 x \<le> 63" "2 ^ 63 \<le> uint x * 2 ^ clz64 x" "(uint x + 1) * 2 ^ clz64 x \<le> LB"
proof -
  have nz: "unat x \<noteq> 0" using assms by (simp add: unat_eq_0)
  define k where "k = bit_len (unat x)"
  have "unat x < 2 ^ 64" using unsigned_less [of x, where ?'a = nat] by simp
  then have k: "2 ^ (k - 1) \<le> unat x" "unat x < 2 ^ k" "0 < k" "k \<le> 64"
    using bit_len_bounds [OF nz] bit_len_le [of "unat x" 64] by (auto simp: k_def)
  have c: "clz64 x = 64 - k" by (simp add: clz64_def k_def)
  show "clz64 x \<le> 63" using c k by simp
  have u: "uint x = int (unat x)" by simp
  have "2 ^ 63 = 2 ^ (k - 1) * (2 :: nat) ^ (64 - k)" using k by (simp flip: power_add)
  also have "\<dots> \<le> unat x * 2 ^ (64 - k)" using k by simp
  finally have "int (2 ^ 63) \<le> int (unat x * 2 ^ (64 - k))" by (simp only: of_nat_le_iff)
  then show "2 ^ 63 \<le> uint x * 2 ^ clz64 x" unfolding u c by simp
  have "(unat x + 1) * 2 ^ (64 - k) \<le> 2 ^ k * 2 ^ (64 - k)" using k(2) by (intro mult_right_mono) simp_all
  also have "\<dots> = 2 ^ 64" using k by (simp flip: power_add)
  finally have "int ((unat x + 1) * 2 ^ (64 - k)) \<le> int (2 ^ 64)" by (simp only: of_nat_le_iff)
  then show "(uint x + 1) * 2 ^ clz64 x \<le> LB" unfolding u c by (simp add: LB_def distrib_right)
qed

text \<open>Shifting the divisor left until its top bit is set.\<close>

lemma normalise_divisor:
  assumes "xs \<noteq> []" "last xs \<noteq> 0" "s = clz64 (last xs)"
  shows "2 ^ 63 \<le> uint (last (if s \<noteq> 0 then fst (mp_shl_js xs s) else xs))"
    and "lval (if s \<noteq> 0 then fst (mp_shl_js xs s) else xs) = lval xs * 2 ^ s"
    and "length (if s \<noteq> 0 then fst (mp_shl_js xs s) else xs) = length xs"
proof -
  note cl = clz64_normal [OF assms(2), folded assms(3)]
  define ys where "ys = (if s \<noteq> 0 then fst (mp_shl_js xs s) else xs)"
  define P where "P = LB ^ (length xs - 1)"
  have P: "0 < P" "P * LB = LB ^ length xs" using assms(1) by (simp_all add: P_def power_Suc2 [symmetric] del: power_Suc)
  have "xs = butlast xs @ [last xs]" using assms(1) by simp
  then have lv: "lval xs = lval (butlast xs) + P * uint (last xs)" unfolding P_def by (metis length_butlast lval_snoc)
  have lo: "0 \<le> lval (butlast xs)" "lval (butlast xs) < P" using lval_range [of "butlast xs"] by (simp_all add: P_def)
  have "lval xs < P * (uint (last xs) + 1)" using lv lo by (simp add: distrib_left)
  then have "lval xs * 2 ^ s < P * (uint (last xs) + 1) * 2 ^ s" by simp
  also have "\<dots> = P * ((uint (last xs) + 1) * 2 ^ s)" by simp
  also have "\<dots> \<le> P * LB" using cl(3) P by (intro mult_left_mono) simp_all
  finally have hi: "lval xs * 2 ^ s < LB ^ length xs" using P by simp
  have "P * 2 ^ 63 \<le> P * (uint (last xs) * 2 ^ s)" using cl(2) P by (intro mult_left_mono) simp_all
  also have "\<dots> \<le> lval xs * 2 ^ s" using lv lo by (simp add: distrib_right)
  finally have "P * LB \<le> 2 * (lval xs * 2 ^ s)" by (simp add: LB_def)
  then have half: "LB ^ length xs \<le> 2 * (lval xs * 2 ^ s)" using P by simp
  have ys: "length ys = length xs \<and> lval ys = lval xs * 2 ^ s"
  proof (cases "s = 0")
    case False
    obtain t l where tl: "mp_shl_js xs s = (t, l)" by fastforce
    have "1 \<le> s" "s \<le> 63" using False cl(1) by simp_all
    note v = mp_shl_js_val [OF tl this]
    have "uint l = 0"
    proof (rule ccontr)
      assume "uint l \<noteq> 0"
      then have "1 \<le> uint l" using limb_range(1) [of l] by linarith
      then have "LB ^ length xs * 1 \<le> LB ^ length xs * uint l" by (intro mult_left_mono) simp_all
      then show False using v(3) hi lval_range(1) [of t] by linarith
    qed
    then show ?thesis using v tl False by (simp add: ys_def)
  qed (simp add: ys_def)
  show "length ys = length xs" "lval ys = lval xs * 2 ^ s" using ys by simp_all
  have "ys \<noteq> []" using ys assms(1) by auto
  then show "2 ^ 63 \<le> uint (last ys)" using top_half_iff [of ys] half ys by auto
qed

subsection \<open>Division\<close>

lemma shift_dividend:
  assumes "1 \<le> s" "s \<le> 63" "na < length r" "mp_shl_js (take na r) s = (t, h)"
  defines "r1 \<equiv> (if h \<noteq> 0 then (store_at r 0 t)[na := h] else store_at r 0 t)" and "na1 \<equiv> (if h \<noteq> 0 then na + 1 else na)"
  shows "length r1 = length r" "lval (take na1 r1) = lval (take na r) * 2 ^ s"
proof -
  have v: "length t = na" "lval t + LB ^ na * uint h = lval (take na r) * 2 ^ s"
    using mp_shl_js_val [OF assms(4,1,2)] assms(3) by (simp_all add: min_absorb2)
  have st: "length (store_at r 0 t) = length r" "take na (store_at r 0 t) = t"
    using v(1) assms(3) take_store_at(1) [of 0 t r] by simp_all
  show "length r1 = length r" using st by (simp add: r1_def)
  show "lval (take na1 r1) = lval (take na r) * 2 ^ s"
  proof (cases "h = 0")
    case False
    have "take (na + 1) ((store_at r 0 t)[na := h]) = t @ [h]" using st assms(3) by (simp add: take_Suc_conv_app_nth)
    then show ?thesis using False v by (simp add: r1_def na1_def lval_snoc)
  qed (use st v in \<open>simp add: r1_def na1_def\<close>)
qed

lemma remainder_delivers:
  assumes "lval (take nb r) mod 2 ^ s = 0" "s \<le> 63" "nb < length r"
  shows "delivers malloc N
    (let r = (if s \<noteq> 0 then store_at r 0 (fst (mp_shr_js (take nb r) s 0)) else r);
         r = r[nb := 0];
         nb = nb + 1;
         r = (if a_sign then store_at r 0 (fst (mp_neg (take nb r))) else r)
     in js_bigint_normalize1 malloc r nb m) (if a_sign then - (lval (take nb r) div 2 ^ s) else lval (take nb r) div 2 ^ s)"
proof -
  define r1 where "r1 = (if s \<noteq> 0 then store_at r 0 (fst (mp_shr_js (take nb r) s 0)) else r)"
  define r2 where "r2 = r1[nb := 0]"
  define r3 where "r3 = (if a_sign then store_at r2 0 (fst (mp_neg (take (nb + 1) r2))) else r2)"
  have r1: "length r1 = length r \<and> lval (take nb r1) = lval (take nb r) div 2 ^ s"
  proof (cases "s = 0")
    case False
    obtain t l where tl: "mp_shr_js (take nb r) s 0 = (t, l)" by fastforce
    have v: "length t = nb" "lval t = lval (take nb r) div 2 ^ s" using mp_shr_js_val [OF tl] False assms(2,3) by simp_all
    then show ?thesis using take_store_at(1) [of 0 t r] assms(3) tl False by (simp add: r1_def)
  qed (simp add: r1_def)
  have r2: "length r2 = length r" "take (nb + 1) r2 = take nb r1 @ [0]" using r1 assms(3) by (simp_all add: r2_def take_Suc_conv_app_nth)
  have "take (nb + 1) r3 = (if a_sign then fst (mp_neg (take nb r1 @ [0])) else take nb r1 @ [0])" "length r3 = length r"
    using r2 take_store_at(1) [of 0 "fst (mp_neg (take (nb + 1) r2))" r2] assms(3) mp_neg_val(1) [of "take (nb + 1) r2"] r1 by (auto simp: r3_def min_absorb2)
  then have "sval (take (nb + 1) r3) = (if a_sign then - (lval (take nb r) div 2 ^ s) else lval (take nb r) div 2 ^ s)" "length r3 = length r"
    using r1 by (simp_all add: neg_zero_top sval_zero_top)
  then show ?thesis unfolding Let_def r1_def [symmetric] r2_def [symmetric] r3_def [symmetric]
    using assms(3) by (intro delivers_normalize1) simp_all
qed

lemma quotient_delivers:
  assumes "length q = k + 1"
  shows "delivers malloc N (let q = q[k := 0]; q = (if neg then fst (mp_neg q) else q) in js_bigint_normalize malloc q m)
    (if neg then - lval (take k q) else lval (take k q))"
proof -
  have "q[k := 0] = take k q @ [0]" using assms by (simp add: upd_conv_take_nth_drop)
  moreover have "fst (mp_neg (take k q @ [0])) \<noteq> []" using mp_neg_val(1) [of "take k q @ [0]"] by auto
  ultimately show ?thesis by (simp add: Let_def delivers_normalize neg_zero_top sval_zero_top)
qed

lemma divrem_abs_delivers:
  assumes "1 \<le> nb" "nb \<le> na" "na < length r" "nb \<le> length tabb" "tabb ! (nb - 1) \<noteq> 0" "na + 2 \<le> N"
  defines "A \<equiv> lval (take na r)" and "B \<equiv> lval (take nb tabb)"
  shows "delivers malloc N (divrem_abs malloc r na tabb nb a_sign b_sign is_rem m)
    (if is_rem then if a_sign then - (A mod B) else A mod B else if a_sign \<noteq> b_sign then - (A div B) else A div B)"
proof -
  define s where "s = clz64 (tabb ! (nb - 1))"
  define tabb1 where "tabb1 = (if s \<noteq> 0 then store_at tabb 0 (fst (mp_shl_js (take nb tabb) s)) else tabb)"
  define tb where "tb = take nb tabb1"
  define h where "h = snd (mp_shl_js (take na r) s)"
  define r1 where "r1 = (if s \<noteq> 0 then if h \<noteq> 0 then (store_at r 0 (fst (mp_shl_js (take na r) s)))[na := h] else store_at r 0 (fst (mp_shl_js (take na r) s)) else r)"
  define na1 where "na1 = (if s \<noteq> 0 then if h \<noteq> 0 then na + 1 else na else na)"
  have ne: "take nb tabb \<noteq> []" using assms(1,4) by auto
  moreover from this have "last (take nb tabb) = tabb ! (nb - 1)" using assms(1,4) by (simp add: last_conv_nth min_absorb2)
  ultimately have lst: "take nb tabb \<noteq> []" "last (take nb tabb) = tabb ! (nb - 1)" by simp_all
  have nz: "last (take nb tabb) \<noteq> 0" "s = clz64 (last (take nb tabb))" using assms(5) lst(2) by (simp_all add: s_def)
  note nd = normalise_divisor [OF lst(1) nz]
  have "tb = (if s \<noteq> 0 then fst (mp_shl_js (take nb tabb) s) else take nb tabb)"
    using take_store_at(1) [of 0 "fst (mp_shl_js (take nb tabb) s)" tabb] nd(3) assms(4) by (auto simp: tb_def tabb1_def min_absorb2 split: if_splits)
  then have tb: "length tb = nb" "lval tb = B * 2 ^ s" "2 ^ 63 \<le> uint (last tb)" "tb \<noteq> []"
    using nd assms(1,4) by (auto simp: B_def min_absorb2)
  have s63: "s \<le> 63" using clz64_normal(1) [OF assms(5)] by (simp add: s_def)
  have r1: "length r1 = length r" "lval (take na1 r1) = A * 2 ^ s" "na \<le> na1" "na1 \<le> na + 1"
    using shift_dividend [of s na r "fst (mp_shl_js (take na r) s)" h] s63 assms(3) by (auto simp: r1_def na1_def A_def h_def)
  have B: "0 < B"
  proof -
    have "0 < LB ^ length tb" by simp
    then have "0 < lval tb" using top_half [OF tb(4,3)] by linarith
    then show ?thesis using tb(2) by (simp add: zero_less_mult_iff)
  qed
  have body: "delivers malloc N (case mp_divnorm q (take na1 r1) tb of None \<Rightarrow> (m, Inl No_end)
           | Some (q, t) \<Rightarrow>
               let r = store_at r1 0 t
               in if is_rem then
                    let r = (if s \<noteq> 0 then store_at r 0 (fst (mp_shr_js (take nb r) s 0)) else r);
                        r = r[nb := 0];
                        nb = nb + 1;
                        r = (if a_sign then store_at r 0 (fst (mp_neg (take nb r))) else r)
                    in js_bigint_normalize1 malloc r nb m
                  else
                    let q = q[na1 - nb + 1 := 0];
                        q = (if a_sign \<noteq> b_sign then fst (mp_neg q) else q)
                    in js_bigint_normalize malloc q m)
    (if is_rem then if a_sign then - (A mod B) else A mod B else if a_sign \<noteq> b_sign then - (A div B) else A div B)"
    if lq: "length q = na1 - nb + 2" for q and m :: 'a
  proof -
    have ln: "length (take na1 r1) = na1" using r1 assms(3) by simp
    have "length tb \<le> length (take na1 r1)" "length (take na1 r1) - length tb < length q" using ln tb(1) r1(3) assms(2) lq by simp_all
    then obtain q' t where "mp_divnorm q (take na1 r1) tb = Some (q', t)" "length q' = length q" "length t = length (take na1 r1)"
      "lval (take na1 r1) = lval (take (length (take na1 r1) - length tb + 1) q') * lval tb + lval (take (length tb) t)" "lval (take (length tb) t) < lval tb"
      by (rule mp_divnorm_val [OF tb(4) _ tb(3)])
    then have qt: "mp_divnorm q (take na1 r1) tb = Some (q', t)" "length q' = length q" "length t = na1"
      "A * 2 ^ s = lval (take (na1 - nb + 1) q') * (B * 2 ^ s) + lval (take nb t)" "lval (take nb t) < B * 2 ^ s"
      unfolding ln tb(1,2) r1(2) by simp_all
    define Q R where "Q = lval (take (na1 - nb + 1) q')" and "R = lval (take nb t)"
    have QR: "A = Q * B + R div 2 ^ s" "R mod 2 ^ s = 0"
    proof -
      have R: "R = (A - Q * B) * 2 ^ s" using qt(4) by (simp add: Q_def R_def algebra_simps)
      then show "R mod 2 ^ s = 0" by simp
      show "A = Q * B + R div 2 ^ s" unfolding R by simp
    qed
    have "0 \<le> R div 2 ^ s" using lval_range(1) [of "take nb t"] by (simp add: R_def pos_imp_zdiv_nonneg_iff)
    moreover have "R div 2 ^ s < B"
    proof -
      have "R = 2 ^ s * (R div 2 ^ s)" using QR(2) by auto
      then have "(R div 2 ^ s) * 2 ^ s < B * 2 ^ s" using qt(5) by (simp add: R_def mult.commute)
      then show ?thesis by simp
    qed
    ultimately have dm: "A div B = Q" "A mod B = R div 2 ^ s" unfolding QR(1) by (simp_all add: div_pos_pos_trivial mod_pos_pos_trivial)
    have t1: "take nb (store_at r1 0 t) = take nb t" "nb < length (store_at r1 0 t)"
      using qt(3) r1 assms(2,3) by (simp_all add: store_at_def)
    have pm: "lval (take nb (store_at r1 0 t)) mod 2 ^ s = 0" using t1(1) QR(2) by (simp add: R_def)
    have ql: "length q' = (na1 - nb + 1) + 1" using qt(2) lq by simp
    note parts = remainder_delivers [OF pm s63 t1(2), unfolded Let_def t1(1)] quotient_delivers [OF ql, unfolded Let_def]
    show ?thesis unfolding qt(1) option.case prod.case Let_def dm Q_def R_def t1(1)
      by (cases is_rem) (simp_all only: if_True if_False parts)
  qed
  have tri: "(if s \<noteq> 0 then
        let (tb, _) = mp_shl_js (take nb tabb) s;
            (t, h) = mp_shl_js (take na r) s;
            r = store_at r 0 t
        in (store_at tabb 0 tb, if h \<noteq> 0 then r[na := h] else r, if h \<noteq> 0 then na + 1 else na)
      else (tabb, r, na)) = (tabb1, r1, na1)"
    by (simp add: tabb1_def r1_def na1_def h_def split_def Let_def)
  have "na1 - nb + 2 \<le> N" using r1(4) assms(1,6) by linarith
  from delivers_new [OF this body [unfolded Let_def]] show ?thesis
    unfolding divrem_abs_def Let_def s_def [symmetric] tri [unfolded Let_def] prod.case tb_def [symmetric] by simp
qed

lemma sdiv_abs: "(if (v < 0) \<noteq> (w < 0) then - (\<bar>v\<bar> div \<bar>w\<bar>) else \<bar>v\<bar> div \<bar>w\<bar>) = v sdiv w" if "w \<noteq> 0" for v w :: int
  using that by (cases "v = 0") (auto simp: signed_divide_int_def sgn_if)

lemma smod_abs: "(if v < 0 then - (\<bar>v\<bar> mod \<bar>w\<bar>) else \<bar>v\<bar> mod \<bar>w\<bar>) = v smod w" for v w :: int
  by (cases "v = 0") (auto simp: signed_modulo_int_def sgn_if)

lemma top_limb_value:
  assumes "1 \<le> n" "n \<le> length tab" "tab ! (n - 1) \<noteq> 0"
  shows "LB ^ (n - 1) \<le> lval (take n tab)"
proof -
  obtain k where k: "n = Suc k" using assms(1) by (cases n) auto
  have "lval (take n tab) = lval (take k tab) + LB ^ k * uint (tab ! k)"
    using assms(2) k by (simp add: take_Suc_conv_app_nth lval_snoc min_absorb2)
  moreover have "1 \<le> uint (tab ! k)"
  proof -
    have "uint (tab ! k) \<noteq> 0" using assms(3) k by (simp add: unsigned_eq_0_iff)
    then show ?thesis using limb_range(1) [of "tab ! k"] by linarith
  qed
  then have "LB ^ k * 1 \<le> LB ^ k * uint (tab ! k)" by (intro mult_left_mono) simp_all
  ultimately show ?thesis using lval_range(1) [of "take k tab"] unfolding k diff_Suc_1 by linarith
qed

lemma divrem_delivers:
  assumes "big_ok a" "big_ok b" "sval b \<noteq> 0"
  shows "delivers malloc (length a + 2) (js_bigint_divrem malloc a b is_rem m) (if is_rem then sval a smod sval b else sval a sdiv sval b)"
proof -
  have ne: "a \<noteq> []" "b \<noteq> []" using assms(1,2) by (simp_all add: big_ok_def)
  then have len: "1 \<le> length a" "1 \<le> length b" by (simp_all add: Suc_le_eq)
  define xa xb where "xa = (if js_bigint_sign a \<noteq> 0 then fst (mp_neg a) else a)" and "xb = (if js_bigint_sign b \<noteq> 0 then fst (mp_neg b) else b)"
  have xa: "lval xa = \<bar>sval a\<bar>" "length xa = length a" and xb: "lval xb = \<bar>sval b\<bar>" "length xb = length b"
    unfolding xa_def xb_def by (rule abs_limbs [OF ne(1)] abs_limbs [OF ne(2)])+
  have sg: "js_bigint_sign a \<noteq> 0 \<longleftrightarrow> sval a < 0" "js_bigint_sign b \<noteq> 0 \<longleftrightarrow> sval b < 0" using sign_val [OF ne(1)] sign_val [OF ne(2)] by simp_all
  define nb where "nb = top_len xb (length b)"
  have nb: "1 \<le> nb" "nb \<le> length xb" "lval (take nb xb) = \<bar>sval b\<bar>" "nb = 1 \<or> xb ! (nb - 1) \<noteq> 0"
    using top_len_val [OF len(2), of xb] xb by (simp_all add: nb_def)
  have nbz: "xb ! (nb - 1) \<noteq> 0"
  proof (cases "nb = 1")
    case True
    then have "take nb xb = [xb ! 0]" using nb(2) by (cases xb) auto
    then show ?thesis using nb(3) assms(3) True by auto
  qed (use nb(4) in simp)
  have body: "delivers malloc (length a + 2)
      (if na < nb then if is_rem then and_then (js_bigint_new malloc (length a) m) (\<lambda>r m. (m, Inr (store_at r 0 a))) else js_bigint_new_si malloc 0 m
       else divrem_abs malloc r1 na xb nb (js_bigint_sign a \<noteq> 0) (js_bigint_sign b \<noteq> 0) is_rem m)
      (if is_rem then sval a smod sval b else sval a sdiv sval b)"
    if "length r = length a + 2" "r1 = store_at r 0 xa" "na = top_len r1 (length a)" for r r1 na m
  proof -
    have r1: "length r1 = length a + 2" "take (length a) r1 = xa" using that xa(2) take_store_at(1) [of 0 xa r] by simp_all
    then have na: "1 \<le> na" "na \<le> length a" "lval (take na r1) = \<bar>sval a\<bar>" using top_len_val [OF len(1), of r1] xa that(3) by simp_all
    show ?thesis
    proof (cases "na < nb")
      case True
      have "\<bar>sval a\<bar> < LB ^ na" using lval_range(2) [of "take na r1"] na r1 by (simp add: min_absorb2)
      also have "\<dots> \<le> LB ^ (nb - 1)" using True by (intro power_increasing) (simp_all add: LB_def)
      also have "\<dots> \<le> \<bar>sval b\<bar>" using top_limb_value [OF nb(1,2) nbz] nb(3) by simp
      finally have lt: "\<bar>sval a\<bar> < \<bar>sval b\<bar>" .
      then have "sval a smod sval b = sval a" "sval a sdiv sval b = 0"
        by (simp_all add: signed_modulo_int_def signed_divide_int_def mod_pos_pos_trivial div_pos_pos_trivial sgn_mult_abs)
      moreover have "delivers malloc (length a + 2) (and_then (js_bigint_new malloc (length a) m) (\<lambda>r m. (m, Inr (store_at r 0 a)))) (sval a)"
        using assms(1) by (intro delivers_new) (simp_all add: store_at_all)
      ultimately show ?thesis using True by (auto intro: delivers_new_si)
    next
      case False
      then have "nb \<le> na" "na < length r1" "na + 2 \<le> length a + 2" using r1 na by simp_all
      note d = divrem_abs_delivers [OF nb(1) this(1,2) nb(2) nbz this(3), unfolded nb(3) na(3), of malloc "sval a < 0" "sval b < 0" is_rem m,
        unfolded sdiv_abs [OF assms(3)] smod_abs]
      then show ?thesis unfolding sg using False by simp
    qed
  qed
  have nz: "\<not> (length b = 1 \<and> b ! 0 = 0)" using zero_iff [OF assms(2)] assms(3) by simp
  have st: "store_at tabb 0 xb = xb" if "length tabb = length b" for tabb using that xb(2) by (simp add: store_at_all)
  show ?thesis
    unfolding js_bigint_divrem_def Let_def if_not_P [OF nz] xa_def [symmetric] xb_def [symmetric]
    by (rule delivers_new [OF order_refl], rule delivers_limb_array, simp only: st nb_def [symmetric], rule body [OF _ refl refl], assumption)
qed

subsection \<open>Powers\<close>

lemma fits_power: "fits n v \<Longrightarrow> fits (j * n) (v ^ j) \<or> j = 0"
proof (induction j)
  case (Suc j)
  then show ?case using fits_mult [of n v "j * n" "v ^ j"] by (cases "j = 0") auto
qed simp

lemma power_length:
  assumes "big_ok r" "a \<noteq> []" "sval r = sval a ^ j" "1 \<le> j"
  shows "length r \<le> j * length a"
proof (rule ccontr)
  assume n: "\<not> length r \<le> j * length a"
  have "fits (j * length a) (sval r)" using fits_power [OF sval_fits [of a], of j] assms(3,4) by auto
  then have "fits (length r - 1) (sval r)" using fits_pow [of "j * length a" "sval r" "length r - 1"] n by (auto simp: fits_def)
  then have "length r = 1" using assms(1) by (auto simp: big_ok_def)
  then show False using n assms(2,4) by (simp add: Suc_le_eq)
qed

lemma pow_loop_delivers:
  assumes "big_ok a" "big_ok r" "sval r = sval a ^ (unat e div 2 ^ i)" "1 \<le> unat e div 2 ^ i"
  shows "delivers malloc (unat e * length a) (pow_loop malloc a e r i m) (sval a ^ unat e)"
  using assms(2-)
proof (induction i arbitrary: r m)
  case (Suc i)
  have ne: "a \<noteq> []" "r \<noteq> []" using assms(1) Suc(2) by (simp_all add: big_ok_def)
  define j where "j = unat e div 2 ^ Suc i"
  have b: "unat e div 2 ^ i = 2 * j + of_bool (odd (unat e div 2 ^ i))"
    unfolding j_def power_Suc2 div_mult2_eq by (simp add: odd_two_times_div_two_succ)
  have "(unat e div 2 ^ i) * 1 \<le> (unat e div 2 ^ i) * 2 ^ i" by (intro mult_le_mono2) simp
  also have "\<dots> \<le> unat e" by simp
  finally have le: "unat e div 2 ^ i \<le> unat e" by simp
  have bound: "k * length a \<le> unat e * length a" if "k \<le> unat e div 2 ^ i" for k
    using that le by (intro mult_le_mono1) (rule order_trans)
  have mul: "delivers malloc (unat e * length a) (js_bigint_mul malloc x y m) (sval x * sval y)"
    if "big_ok x" "big_ok y" "sval x = sval a ^ p" "sval y = sval a ^ q" "1 \<le> p" "1 \<le> q" "p + q \<le> unat e div 2 ^ i" for x y p q m
  proof (rule delivers_mono [OF mul_delivers])
    show "x \<noteq> []" "y \<noteq> []" using that by (simp_all add: big_ok_def)
    have "length x + length y \<le> p * length a + q * length a" using that power_length [OF _ ne(1)] by (intro add_mono) auto
    then show "length x + length y \<le> unat e * length a" using bound [OF that(7)] by (simp add: distrib_right)
  qed
  show ?case unfolding pow_loop.simps
  proof (rule delivers_bind)
    show "delivers malloc (unat e * length a) (js_bigint_mul malloc r r m) (sval r * sval r)"
      using Suc(2-) b by (intro mul [where p = j and q = j]) (simp_all add: j_def)
    fix x and m :: 'a
    assume x: "big_ok x" "sval x = sval r * sval r"
    have xv: "sval x = sval a ^ (2 * j)" unfolding x(2) Suc(3) j_def [symmetric] by (simp add: power_add [symmetric] mult_2)
    have j1: "1 \<le> j" using Suc(4) by (simp add: j_def)
    show "delivers malloc (unat e * length a) (if drop_bit i e AND 1 \<noteq> 0 then and_then (js_bigint_mul malloc x a m) (\<lambda>r m. pow_loop malloc a e r i m)
        else pow_loop malloc a e x i m) (sval a ^ unat e)"
    proof (cases "odd (unat e div 2 ^ i)")
      case False
      then have "unat e div 2 ^ i = 2 * j" using b by simp
      then show ?thesis using False Suc(1) [OF x(1)] xv j1 unfolding bit_test by simp
    next
      case True
      then have e': "unat e div 2 ^ i = 2 * j + 1" using b by simp
      have "delivers malloc (unat e * length a) (js_bigint_mul malloc x a m) (sval x * sval a)"
        using x(1) assms(1) xv j1 e' by (intro mul [where p = "2 * j" and q = 1]) simp_all
      then have "delivers malloc (unat e * length a) (and_then (js_bigint_mul malloc x a m) (\<lambda>r m. pow_loop malloc a e r i m)) (sval a ^ unat e)"
      proof (rule delivers_bind)
        fix y and m :: 'a
        assume y: "big_ok y" "sval y = sval x * sval a"
        then show "delivers malloc (unat e * length a) (pow_loop malloc a e y i m) (sval a ^ unat e)"
          using xv e' by (intro Suc(1)) (simp_all add: mult.commute)
      qed
      then show ?thesis using True unfolding bit_test by simp
    qed
  qed
qed simp

lemma bit_len_top: "n \<noteq> 0 \<Longrightarrow> n div 2 ^ (bit_len n - 1) = 1"
proof -
  assume "n \<noteq> 0"
  then have b: "2 ^ (bit_len n - 1) \<le> n" "n < 2 ^ (bit_len n - 1) * 2" using bit_len_bounds [of n] by (simp_all flip: power_Suc2)
  then show ?thesis by (intro div_nat_eqI) simp_all
qed

lemma large_exponent:
  assumes "big_ok b" "0 \<le> sval b" "length b > 1 \<or> b ! 0 > 0x7fffffff" "1 \<le> k"
  shows "nat (sval b) * k > JS_BIGINT_MAX_SIZE"
proof -
  have "2 ^ 31 \<le> sval b"
  proof (cases "length b = 1")
    case True
    then obtain x where x: "b = [x]" by (cases b) auto
    have "sint x = uint x" using x assms(2) sval_lval(2) [of b] by simp
    moreover have "0x7fffffff < uint x" using assms(3) x by (simp add: word_less_def)
    ultimately show ?thesis using x by simp
  next
    case False
    then have "1 < length b" using assms(1) by (cases "length b") (auto simp: big_ok_def)
    then have "LB ^ 1 \<le> LB ^ (length b - 1)" by (intro power_increasing) (simp_all add: LB_def)
    then show ?thesis using assms(1,2) False by (auto simp: big_ok_def fits_def LB_def)
  qed
  then have "16384 * 1 < nat (sval b) * k" using assms(4) by (intro mult_less_le_imp_less) simp_all
  then show ?thesis by simp
qed

lemma small_exponent:
  assumes "b = [x]" "\<not> x > 0x7fffffff"
  shows "sval b = uint x" "unat (ucast x :: u32) = unat x" "nat (sval b) = unat x"
proof -
  have u: "uint x < 2 ^ 31" using assms(2) by (simp add: word_less_def not_less word_le_def)
  show s: "sval b = uint x" using top_half_iff [of b] u assms(1) by (simp add: sval_def)
  show "nat (sval b) = unat x" unfolding s by simp
  have "unat x < 2 ^ 31" using u by (rule unat_less_pow)
  then have "unat x < 2 ^ 32" by simp
  then show "unat (ucast x :: u32) = unat x" by (simp add: unsigned_ucast_eq take_bit_nat_eq_self)
qed

lemma pow_general_delivers:
  assumes "big_ok a" "big_ok b" "0 < sval b"
  shows "delivers malloc (nat (sval b) * length a) (pow_general malloc a b m) (sval a ^ nat (sval b))"
proof (cases "length b > 1 \<or> b ! 0 > 0x7fffffff")
  case True
  moreover have "1 \<le> length a" using assms(1) by (simp add: big_ok_def Suc_le_eq)
  ultimately show ?thesis using large_exponent [OF assms(2) _ True, of "length a"] assms(3) by (simp add: pow_general_def delivers_def)
next
  case False
  moreover have "b \<noteq> []" using assms(2) by (simp add: big_ok_def)
  ultimately obtain x where b: "b = [x]" "\<not> x > 0x7fffffff" by (cases b) auto
  note se = small_exponent [OF b]
  define e :: u32 where "e = ucast x"
  have "unat e = nat (sval b)" unfolding e_def se(2,3) ..
  then have e: "unat e = nat (sval b)" "unat e \<noteq> 0" using assms(3) by simp_all
  have cl: "32 - clz32 e - 1 = bit_len (unat e) - 1"
    using bit_len_le [of "unat e" 32] unsigned_less [of e, where ?'a = nat] by (simp add: clz32_def)
  have "delivers malloc (unat e * length a) (and_then (js_bigint_new malloc (length a) m) (\<lambda>r m. pow_loop malloc a e (store_at r 0 a) (32 - clz32 e - 1) m)) (sval a ^ unat e)"
  proof (rule delivers_new)
    show "length a \<le> unat e * length a" using e(2) by simp
    fix r :: "js_limb list" and m :: 'a
    assume "length r = length a"
    then show "delivers malloc (unat e * length a) (pow_loop malloc a e (store_at r 0 a) (32 - clz32 e - 1) m) (sval a ^ unat e)"
      unfolding cl using assms(1) bit_len_top [OF e(2)] by (intro pow_loop_delivers) (simp_all add: store_at_all)
  qed
  then show ?thesis unfolding e(1) [symmetric] using b by (simp add: pow_general_def Let_def e_def [symmetric])
qed

lemma and_one: "x AND 1 = (if odd (uint x) then 1 else 0)" for x :: js_limb
proof -
  have "uint (x AND 1) = uint x mod 2" unfolding unsigned_and_eq by (simp add: and_one_eq)
  also have "\<dots> = (if odd (uint x) then 1 else 0)" by (simp add: odd_iff_mod_2_eq_one)
  finally show ?thesis by (simp add: word_uint_eq_iff)
qed

text \<open>A word with one bit.\<close>

lemma one_bit:
  fixes v :: js_limb
  assumes "v AND (v - 1) = 0" "v \<noteq> 0"
  shows "uint v = 2 ^ (64 - 1 - clz64 v)" "64 - 1 - clz64 v \<le> 63"
proof -
  have nz: "unat v \<noteq> 0" using assms(2) by (simp add: unat_eq_0)
  define k where "k = bit_len (unat v) - 1"
  have b: "2 ^ k \<le> unat v" "unat v < 2 ^ k * 2" "bit_len (unat v) = Suc k" using bit_len_bounds [OF nz] by (simp_all add: k_def flip: power_Suc2)
  have k: "64 - 1 - clz64 v = k" "k \<le> 63"
    using b(3) bit_len_le [of "unat v" 64] unsigned_less [of v, where ?'a = nat] by (simp_all add: clz64_def)
  show "64 - 1 - clz64 v \<le> 63" using k by simp
  have bitk: "bit w k \<longleftrightarrow> odd (unat w div 2 ^ k)" for w :: js_limb
  proof -
    have "bit w k \<longleftrightarrow> bit (unat w) k" by (simp add: bit_unsigned_iff)
    then show ?thesis unfolding bit_iff_odd [of "unat w"] .
  qed
  have "unat v = 2 ^ k"
  proof (rule ccontr)
    assume ne: "unat v \<noteq> 2 ^ k"
    have m1: "unat (v - 1) = unat v - 1" using assms(2) by (rule Word.unat_minus_one)
    have "unat v div 2 ^ k = 1" by (intro div_nat_eqI) (use b in simp_all)
    moreover have "unat (v - 1) div 2 ^ k = 1" unfolding m1 by (intro div_nat_eqI) (use b ne in simp_all)
    ultimately have "bit v k" "bit (v - 1) k" unfolding bitk by simp_all
    then have "bit (v AND (v - 1)) k" by (simp add: bit_and_iff)
    then show False using assms(1) by simp
  qed
  then have "int (unat v) = int (2 ^ k)" by (simp only:)
  then show "uint v = 2 ^ (64 - 1 - clz64 v)" unfolding k(1) by simp
qed

text \<open>The limbs of a signed power of two.\<close>

lemma power_limbs:
  assumes "L = (e1 + 64 + 1 - (if neg then 1 else 0)) div 64"
  defines "t \<equiv> (replicate L (0 :: js_limb))[e1 div 64 := push_bit (e1 mod 64) (if neg then - 1 else 1)]"
  shows "big_ok t \<and> sval t = (if neg then - (2 ^ e1) else 2 ^ e1)"
proof -
  define d s where "d = e1 div 64" and "s = e1 mod 64"
  have e1: "e1 = 64 * d + s" and s: "s \<le> 63" by (simp_all add: d_def s_def)
  have p: "(2 :: int) ^ e1 = LB ^ d * 2 ^ s" unfolding e1 LB_bits ..
  define x :: js_limb where "x = push_bit s (if neg then - 1 else 1)"
  define ys where "ys = (if neg \<or> s < 63 then [x] else [x, 0])"
  have t: "t = replicate d 0 @ ys"
  proof (cases "neg \<or> s < 63")
    case True
    then have "L = d + 1" unfolding assms(1) e1 using s by auto
    then have "replicate L (0 :: js_limb) = replicate d 0 @ [0]" by (simp add: replicate_append_same)
    then show ?thesis using True unfolding t_def ys_def d_def [symmetric] s_def [symmetric] x_def [symmetric] by (simp add: list_update_append)
  next
    case False
    then have "L = d + 2" unfolding assms(1) e1 using s by simp
    then have "replicate L (0 :: js_limb) = replicate d 0 @ [0, 0]" by (simp only: replicate_add) (simp add: numeral_2_eq_2)
    then show ?thesis using False unfolding t_def ys_def d_def [symmetric] s_def [symmetric] x_def [symmetric] by (simp add: list_update_append)
  qed
  have pw: "2 ^ s * 2 ^ (64 - s) = LB" using s by (simp add: LB_def flip: power_add)
  have ux: "uint x = (if neg then LB - 2 ^ s else 2 ^ s)"
  proof -
    have s64: "s \<le> 64" and m: "(1 :: int) < 2 ^ (64 - s)" using s by simp_all
    have "uint (- 1 :: js_limb) = 2 ^ (64 - s) * 2 ^ s - 1" using uint_ones pw by (simp add: mult.commute)
    also have "\<dots> mod 2 ^ (64 - s) = - 1 mod 2 ^ (64 - s)" by (simp add: mod_diff_left_eq [symmetric])
    also have "\<dots> = 2 ^ (64 - s) - 1" by (rule zmod_minus1) simp
    finally have n: "uint (- 1 :: js_limb) mod 2 ^ (64 - s) = 2 ^ (64 - s) - 1" .
    show ?thesis
    proof (cases neg)
      case True
      then have "uint x = (2 ^ (64 - s) - 1) * 2 ^ s" unfolding x_def using limb_push(1) [OF s64, of "- 1"] n by simp
      also have "\<dots> = LB - 2 ^ s" unfolding pw [symmetric] by (simp add: algebra_simps)
      finally show ?thesis using True by simp
    next
      case False
      then show ?thesis unfolding x_def using limb_push(1) [OF s64, of 1] m s by (simp add: mod_pos_pos_trivial)
    qed
  qed
  have half: "2 * 2 ^ s \<le> LB" "s < 63 \<Longrightarrow> 2 * 2 ^ s < LB"
    using power_increasing [of s 63 "2 :: int"] power_strict_increasing [of s 63 "2 :: int"] s by (auto simp: LB_def)
  have v: "sval ys = (if neg then - (2 ^ s) else 2 ^ s)"
  proof (cases "neg \<or> s < 63")
    case True
    obtain P where P: "2 ^ s = P" "(0 :: int) < P" by simp
    have "sval [x] = (if neg then - P else P)" using half True P(2) ux unfolding P(1) by (intro svalI) (auto simp: fits_def)
    then show ?thesis using True P(1) by (simp add: ys_def)
  next
    case False
    then show ?thesis using sval_zero_top [of "[x]"] ux by (simp add: ys_def)
  qed
  have "big_ok ys"
  proof (cases "neg \<or> s < 63")
    case False
    then have "s = 63" "\<not> neg" using s by auto
    then show ?thesis using v unfolding big_ok_def fits_def ys_def by (simp add: LB_def)
  qed (simp add: ys_def big_ok_single)
  moreover have "sval ys \<noteq> 0" "ys \<noteq> []" using v by (auto simp: ys_def)
  ultimately show ?thesis using big_ok_zeros [of ys d] sval_zeros [of ys d] v unfolding t p by simp
qed

lemma pow_two_delivers:
  fixes v :: js_limb
  assumes "big_ok b" "0 < sval b" "v AND (v - 1) = 0" "v \<noteq> 0" "w = (if neg then - uint v else uint v)"
  shows "delivers malloc (nat (sval b) + 1) (pow_two malloc v neg b m) (w ^ nat (sval b))"
proof (cases "length b > 1 \<or> b ! 0 > 0x7fffffff")
  case True
  then show ?thesis using large_exponent [OF assms(1) _ True, of 1] assms(2) by (simp add: pow_two_def delivers_def)
next
  case False
  moreover have "b \<noteq> []" using assms(1) by (simp add: big_ok_def)
  ultimately obtain x where b: "b = [x]" "\<not> x > 0x7fffffff" by (cases b) auto
  define n where "n = 64 - 1 - clz64 v"
  note ob = one_bit [OF assms(3,4), folded n_def]
  define e e1 where "e = nat (sval b)" and "e1 = unat x * n"
  have e: "unat x = e" using small_exponent(3) [OF b] by (simp add: e_def)
  have e1: "e1 \<le> 63 * e" unfolding e1_def e using ob(2) by (simp add: mult.commute)
  show ?thesis
  proof (cases "e1 > JS_BIGINT_MAX_SIZE * 64")
    case True
    then have "e > JS_BIGINT_MAX_SIZE" using e1 by simp
    moreover have "pow_two malloc v neg b m = (m, Inl Too_large)"
      using False True unfolding pow_two_def Let_def n_def [symmetric] b(1) nth_Cons_0 e1_def [symmetric] by simp
    ultimately show ?thesis unfolding e_def [symmetric] by (simp add: delivers_def)
  next
    case small: False
    define neg1 where "neg1 \<longleftrightarrow> neg \<and> x AND 1 \<noteq> 0"
    have odd: "x AND 1 \<noteq> 0 \<longleftrightarrow> odd e"
    proof -
      have "uint x = int e" unfolding e [symmetric] by simp
      then show ?thesis by (simp add: and_one)
    qed
    have pw: "w ^ e = (if neg1 then - (2 ^ e1) else 2 ^ e1)"
    proof -
      have "(2 :: int) ^ e1 = (2 ^ n) ^ e" unfolding e1_def e by (simp add: power_mult [symmetric] mult.commute)
      then show ?thesis unfolding assms(5) ob(1) neg1_def odd by (simp add: power_minus_odd)
    qed
    define L where "L = (e1 + 64 + 1 - (if neg1 then 1 else 0)) div 64"
    have "L \<le> e + 1" using e1 by (simp add: L_def)
    have "delivers malloc (e + 1) (and_then (js_bigint_new malloc L m) (\<lambda>r m.
        (m, Inr ((replicate (length r) 0)[e1 div 64 := push_bit (e1 mod 64) (if neg1 then - 1 else 1)])))) (w ^ e)"
      using power_limbs [OF L_def] \<open>L \<le> e + 1\<close> by (intro delivers_new) (simp_all only: delivers_Inr pw)
    moreover have "pow_two malloc v neg b m = and_then (js_bigint_new malloc L m) (\<lambda>r m.
        (m, Inr ((replicate (length r) 0)[e1 div 64 := push_bit (e1 mod 64) (if neg1 then - 1 else 1)])))"
      using False small unfolding pow_two_def Let_def n_def [symmetric] b(1) nth_Cons_0 e1_def [symmetric] neg1_def [symmetric] L_def by simp
    ultimately show ?thesis unfolding e_def by simp
  qed
qed

lemma limb_parity:
  assumes "b \<noteq> []"
  shows "b ! 0 AND 1 = (if odd (sval b) then 1 else 0)"
proof -
  obtain x xs where b: "b = x # xs" using assms by (cases b) auto
  have "even (LB ^ length b)" using assms by (intro LB_even) (simp add: Suc_le_eq)
  then have "odd (sval b) \<longleftrightarrow> odd (lval b)" by (simp add: sval_def)
  also have "\<dots> \<longleftrightarrow> odd (uint x)" using LB_even [of 1] b by simp
  finally show ?thesis using b by (simp add: and_one)
qed

lemma pow_delivers:
  assumes "big_ok a" "big_ok b" "0 \<le> sval b"
  shows "delivers malloc (nat (sval b) * length a + 1) (js_bigint_pow malloc a b m) (sval a ^ nat (sval b))"
proof -
  have ne: "a \<noteq> []" "b \<noteq> []" using assms(1,2) by (simp_all add: big_ok_def)
  have sb: "js_bigint_sign b = 0" using sign_val [OF ne(2)] assms(3) by simp
  have gen: "delivers malloc (nat (sval b) * length a + 1) (pow_general malloc a b m) (sval a ^ nat (sval b))" if "0 < sval b"
    by (rule delivers_mono [OF pow_general_delivers [OF assms(1,2) that]]) simp
  show ?thesis
  proof (cases "sval b = 0")
    case True
    then show ?thesis using zero_iff [OF assms(2)] sb by (auto simp: js_bigint_pow_def intro!: delivers_new_si)
  next
    case False
    then have pos: "0 < sval b" "\<not> (length b = 1 \<and> b ! 0 = 0)" using assms(3) zero_iff [OF assms(2)] by simp_all
    show ?thesis
    proof (cases "length a = 1")
      case False
      then show ?thesis using pos sb gen by (auto simp: js_bigint_pow_def)
    next
      case True
      then obtain v where a: "a = [v]" by (cases a) auto
      define w where "w = (if v <s 0 then - v else v)"
      have pow: "js_bigint_pow malloc a b m = (if v \<le> 1 then js_bigint_new_si malloc v m
          else if v = - 1 then js_bigint_new_si malloc (1 - 2 * (b ! 0 AND 1)) m
          else if w AND (w - 1) = 0 then pow_two malloc w (v <s 0) b m else pow_general malloc a b m)"
        unfolding js_bigint_pow_def if_not_P [OF pos(2)] sb a Let_def nth_Cons_0 w_def [symmetric] by simp
      consider "v \<le> 1" | "v = - 1" "\<not> v \<le> 1" | "\<not> v \<le> 1" "v \<noteq> - 1" "w AND (w - 1) = 0" | "\<not> v \<le> 1" "v \<noteq> - 1" "w AND (w - 1) \<noteq> 0" by blast
      then show ?thesis
      proof cases
        case 1
        then have "uint v \<le> 1" by (simp add: word_le_def)
        then have "uint v = 0 \<or> uint v = 1" using limb_range(1) [of v] by linarith
        then have "v = 0 \<or> v = 1" by (auto simp: word_uint_eq_iff)
        then have "sval [v] = sval a ^ nat (sval b)" using pos(1) a by auto
        then show ?thesis using 1 pow by (auto intro: delivers_new_si)
      next
        case 2
        have "sval [1 - 2 * (b ! 0 AND 1)] = sval a ^ nat (sval b)"
          unfolding limb_parity [OF ne(2)] using pos(1) a 2(1) by (auto simp: even_nat_iff)
        then show ?thesis using 2 pow by (auto intro: delivers_new_si)
      next
        case 3
        have "w \<noteq> 0" using 3(1) by (auto simp: w_def split: if_splits)
        moreover have "sval a = (if v <s 0 then - uint w else uint w)"
        proof (cases "v <s 0")
          case True
          then have n: "sval [v] < 0" by (simp add: word_sless_alt)
          then have u: "uint v = sval [v] + LB" using sval_lval(1) [of "[v]"] by simp
          have r: "- sval [v] < LB" using sval_fits [of "[v]"] n unfolding fits_def by simp
          have "uint w = (- sval [v] - LB) mod LB" using True by (simp add: w_def limb_ariths u)
          also have "\<dots> = - sval [v] mod LB" by (rule minus_mod_self2)
          also have "\<dots> = - sval [v]" using n r by (intro mod_pos_pos_trivial) simp_all
          finally show ?thesis using True a by simp
        next
          case False
          then have "0 \<le> sval [v]" by (simp add: word_sless_alt)
          then show ?thesis using False a sval_lval(2) [of "[v]"] by (simp add: w_def)
        qed
        ultimately show ?thesis using pow_two_delivers [OF assms(2) pos(1) 3(3), of "sval a" "v <s 0" malloc m] 3 pow a by simp
      next
        case 4
        then show ?thesis using pow gen pos(1) by simp
      qed
    qed
  qed
qed

subsection \<open>Properties\<close>

text \<open>
  C17. \<^verbatim>\<open>js_bigint_divrem\<close> with a divisor other than zero returns the quotient rounded towards zero, or the
  remainder with the sign of the dividend, in normal form; its loops end. With the divisor zero it fails before it
  allocates anything.
\<close>

theorem js_bigint_divrem_exact:
  assumes "big_ok a" "big_ok b"
  shows "if sval b = 0 then js_bigint_divrem malloc a b is_rem m = (m, Inl Division_by_zero)
    else delivers malloc (length a + 2) (js_bigint_divrem malloc a b is_rem m) (if is_rem then sval a smod sval b else sval a sdiv sval b)"
proof (cases "sval b = 0")
  case True
  then show ?thesis using zero_iff [OF assms(2)] by (simp add: js_bigint_divrem_def)
qed (use divrem_delivers [OF assms, of malloc is_rem m] in simp)

theorem js_bigint_divrem_exact_witness:
  "result (js_bigint_divrem full_malloc [- 7] [2] False ()) = Some [- 3] \<and> result (js_bigint_divrem full_malloc [- 7] [2] True ()) = Some [- 1]"
proof
  show "result (js_bigint_divrem full_malloc [- 7] [2] False ()) = Some [- 3]"
    by (rule full_malloc_result [where N = "length [- 7 :: js_limb] + 2" and v = "- 3"])
      (use js_bigint_divrem_exact [of "[- 7]" "[2]" full_malloc False "()"] in \<open>simp_all add: big_ok_single signed_divide_int_def\<close>)
  show "result (js_bigint_divrem full_malloc [- 7] [2] True ()) = Some [- 1]"
    by (rule full_malloc_result [where N = "length [- 7 :: js_limb] + 2" and v = "- 1"])
      (use js_bigint_divrem_exact [of "[- 7]" "[2]" full_malloc True "()"] in \<open>simp_all add: big_ok_single signed_modulo_int_def\<close>)
qed

text \<open>
  C20. \<^verbatim>\<open>js_bigint_pow\<close> raises to a power, on its shortcut for powers of two and on its general loop: a negative
  exponent is an error, and otherwise the result is the power in normal form unless memory runs out or the product of
  the exponent and the number of limbs is beyond the size limit.
\<close>

theorem js_bigint_pow_exact:
  assumes "big_ok a" "big_ok b"
  shows "if sval b < 0 then js_bigint_pow malloc a b m = (m, Inl Negative_exponent)
    else delivers malloc (nat (sval b) * length a + 1) (js_bigint_pow malloc a b m) (sval a ^ nat (sval b))"
proof (cases "sval b < 0")
  case True
  then show ?thesis using sign_val [OF big_ok_Nil [OF assms(2)]] by (simp add: js_bigint_pow_def)
qed (use pow_delivers [OF assms] in simp)

theorem js_bigint_pow_exact_witness:
  "result (js_bigint_pow full_malloc [- 3] [3] ()) = Some [- 27]"
  by (rule full_malloc_result [where N = 4 and v = "- 27"])
    (use js_bigint_pow_exact [of "[- 3]" "[3]" full_malloc "()"] in \<open>simp_all add: big_ok_single\<close>)

text \<open>
  The multi-limb division \<^verbatim>\<open>mp_divnorm\<close> by a divisor whose top bit is set always returns, for every contents
  of the quotient array: the loop that corrects an estimate that is too large ends, and the quotient and the remainder
  are those of the division of the values.
\<close>

theorem mp_divnorm_returns:
  assumes "tabb \<noteq> []" "length tabb \<le> length taba" "2 ^ 63 \<le> uint (last tabb)" "length tabq = length taba - length tabb + 1"
  shows "\<exists>tabq' taba'. mp_divnorm tabq taba tabb = Some (tabq', taba') \<and> lval tabq' = lval taba div lval tabb \<and>
    lval (take (length tabb) taba') = lval taba mod lval tabb"
proof -
  have "length taba - length tabb < length tabq" using assms(4) by simp
  then obtain tabq' taba' where d: "mp_divnorm tabq taba tabb = Some (tabq', taba')" "length tabq' = length tabq"
    "lval taba = lval (take (length taba - length tabb + 1) tabq') * lval tabb + lval (take (length tabb) taba')" "lval (take (length tabb) taba') < lval tabb"
    by (rule mp_divnorm_val [OF assms(1-3)])
  then have "lval taba = lval tabq' * lval tabb + lval (take (length tabb) taba')" using assms(4) by simp
  then have "lval taba div lval tabb = lval tabq'" "lval taba mod lval tabb = lval (take (length tabb) taba')"
    using d(4) lval_range(1) [of "take (length tabb) taba'"] by (simp_all add: div_pos_pos_trivial mod_pos_pos_trivial)
  then show ?thesis using d(1) by auto
qed

theorem mp_divnorm_returns_witness:
  "\<exists>tabq' taba'. mp_divnorm [7, 7] [0, 0, 0x8000000000000000] [0xffffffffffffffff, 0x8000000000000000] = Some (tabq', taba') \<and> lval tabq' = 2 ^ 64 - 2"
  using mp_divnorm_returns [of "[0xffffffffffffffff, 0x8000000000000000]" "[0, 0, 0x8000000000000000]" "[7, 7]"] by (auto simp: LB_def)

subsection \<open>Numbers made by the program\<close>

lemma delivers_new_ui64: "delivers malloc 2 (js_bigint_new_ui64 malloc a m) (uint a)"
proof (cases "a \<le> 0x7fffffffffffffff")
  case True
  then have "uint a < 2 ^ 63" by (simp add: word_le_def)
  then have "sval [a] = uint a" using top_half_iff [of "[a]"] by (simp add: sval_def)
  then show ?thesis using True by (simp add: js_bigint_new_ui64_def js_bigint_new_si64_def delivers_new_si)
next
  case False
  then have ge: "2 ^ 63 \<le> uint a" by (simp add: word_le_def)
  have v: "sval [a, 0] = uint a" using sval_zero_top [of "[a]"] by simp
  moreover have "big_ok [a, 0]" using ge v unfolding big_ok_def fits_def by (simp add: LB_def)
  moreover have "r[0 := a, 1 := 0] = [a, 0]" if "length r = 2" for r
    using that by (cases r; cases "tl r") auto
  ultimately show ?thesis using False by (simp add: js_bigint_new_ui64_def delivers_new)
qed

lemma low_limb: "uint (ucast (x :: js_dlimb) :: js_limb) = sint x mod LB"
proof -
  have "uint x = sint x mod (LB * LB)" by (simp add: uint_sint take_bit_eq_mod LB_def)
  then show ?thesis unfolding dlimb_low by (simp add: mod_mod_cancel)
qed

lemma narrow:
  assumes "fits 1 (sint x)"
  shows "sint (ucast (x :: js_dlimb) :: js_limb) = sint x"
proof -
  have "LB ^ length [ucast x :: js_limb] dvd lval [ucast x] - sint x" by (simp add: low_limb mod_eq_dvd_iff [symmetric])
  from svalI [OF this] show ?thesis using assms by simp
qed

lemma delivers_new_di: "delivers malloc 2 (js_bigint_new_di malloc a m) (sint a)"
proof (cases "a = scast (ucast a :: js_limb)")
  case True
  have "sint a = sint (scast (ucast a :: js_limb) :: js_dlimb)" using True by simp
  also have "\<dots> = sint (ucast a :: js_limb)"
    using sint_ge [of "ucast a :: js_limb"] sint_lt [of "ucast a :: js_limb"] by (simp add: signed_scast_eq signed_take_bit_int_eq_self)
  finally have "sint a = sval [ucast a :: js_limb]" by simp
  moreover have "r[0 := ucast a] = [ucast a]" if "length r = 1" for r :: "js_limb list" using that by (cases r) auto
  ultimately show ?thesis using True by (auto simp: js_bigint_new_di_def big_ok_single intro!: delivers_new)
next
  case False
  have nf: "\<not> fits 1 (sint a)"
  proof
    assume "fits 1 (sint a)"
    have "scast (ucast a :: js_limb) = (word_of_int (sint (ucast a :: js_limb)) :: js_dlimb)" by (rule scast_eq)
    also have "\<dots> = a" unfolding narrow [OF \<open>fits 1 (sint a)\<close>] by simp
    finally show False using False by simp
  qed
  have "sint (signed_drop_bit 64 a) = sint a div LB" by (simp add: sint_signed_drop_bit_eq drop_bit_eq_div LB_def)
  moreover have "- (LB * LB) \<le> 2 * sint a" "2 * sint a < LB * LB" using sint_ge [of a] sint_lt [of a] by (simp_all add: LB_def)
  ultimately have "sint (ucast (signed_drop_bit 64 a) :: js_limb) = sint a div LB" by (subst narrow) (auto simp: fits_def LB_def)
  then have v: "sval [ucast a, ucast (signed_drop_bit 64 a)] = sint a" by (simp add: sval_Cons low_limb)
  moreover from this nf have "big_ok [ucast a, ucast (signed_drop_bit 64 a)]" by (simp add: big_ok_def)
  moreover have "r[0 := ucast a, 1 := ucast (signed_drop_bit 64 a)] = [ucast a, ucast (signed_drop_bit 64 a)]" if "length r = 2" for r :: "js_limb list"
    using that by (cases r; cases "tl r") auto
  ultimately show ?thesis using False by (simp add: js_bigint_new_di_def delivers_new)
qed

text \<open>Every number that the operations can produce, from any state of the allocator.\<close>

inductive made :: "'m js_malloc \<Rightarrow> js_limb list \<Rightarrow> bool" for malloc where
  made_si64: "result (js_bigint_new_si64 malloc v m) = Some r \<Longrightarrow> made malloc r"
| made_ui64: "result (js_bigint_new_ui64 malloc v m) = Some r \<Longrightarrow> made malloc r"
| made_di: "result (js_bigint_new_di malloc w m) = Some r \<Longrightarrow> made malloc r"
| made_add: "made malloc a \<Longrightarrow> made malloc b \<Longrightarrow> result (js_bigint_add malloc a b b_neg m) = Some r \<Longrightarrow> made malloc r"
| made_neg: "made malloc a \<Longrightarrow> result (js_bigint_neg malloc a m) = Some r \<Longrightarrow> made malloc r"
| made_mul: "made malloc a \<Longrightarrow> made malloc b \<Longrightarrow> result (js_bigint_mul malloc a b m) = Some r \<Longrightarrow> made malloc r"
| made_divrem: "made malloc a \<Longrightarrow> made malloc b \<Longrightarrow> result (js_bigint_divrem malloc a b is_rem m) = Some r \<Longrightarrow> made malloc r"
| made_pow: "made malloc a \<Longrightarrow> made malloc b \<Longrightarrow> result (js_bigint_pow malloc a b m) = Some r \<Longrightarrow> made malloc r"
| made_logic: "made malloc a \<Longrightarrow> made malloc b \<Longrightarrow> result (js_bigint_logic malloc a b op m) = Some r \<Longrightarrow> made malloc r"
| made_not: "made malloc a \<Longrightarrow> result (js_bigint_not malloc a m) = Some r \<Longrightarrow> made malloc r"
| made_shl: "made malloc a \<Longrightarrow> result (js_bigint_shl malloc a n m) = Some r \<Longrightarrow> made malloc r"
| made_shr: "made malloc a \<Longrightarrow> result (js_bigint_shr malloc a n m) = Some r \<Longrightarrow> made malloc r"

lemma made_ok: "made malloc r \<Longrightarrow> big_ok r"
proof (induction rule: made.induct)
  case (made_divrem a b is_rem m r)
  then have "sval b \<noteq> 0" using zero_iff [of b] by (auto simp: js_bigint_divrem_def result_def)
  then show ?case using delivers_result [OF divrem_delivers made_divrem(3)] made_divrem by simp
next
  case (made_pow a b m r)
  then have "0 \<le> sval b" using sign_val [OF big_ok_Nil, of b] by (auto simp: js_bigint_pow_def result_def split: if_splits)
  then show ?case using delivers_result [OF pow_delivers made_pow(3)] made_pow by simp
qed (auto dest: big_ok_Nil delivers_result [OF add_delivers, rotated -1] delivers_result [OF neg_delivers, rotated -1] delivers_result [OF mul_delivers, rotated -1]
      delivers_result [OF logic_delivers, rotated -1] delivers_result [OF not_delivers, rotated -1] delivers_result [OF shl_delivers, rotated -1]
      delivers_result [OF shr_delivers, rotated -1] delivers_result [OF delivers_new_ui64, rotated -1] delivers_result [OF delivers_new_di, rotated -1]
      delivers_result [OF delivers_new_si [of 1, OF order_refl refl], rotated -1] simp: js_bigint_new_si64_def)

text \<open>
  C21. Every BigInt that a program can build, by the constructors and any sequence of operations, is in normal form: no
  shorter list of limbs holds its value. This is what the comparison assumes.
\<close>

theorem js_bigint_made_normal:
  assumes "made malloc a" "made malloc b"
  shows "big_ok a \<and> js_bigint_cmp a b = sgn (sval a - sval b)"
  using cmp_val [OF assms [THEN made_ok]] made_ok [OF assms(1)] by simp

theorem js_bigint_made_normal_witness:
  "big_ok [5] \<and> js_bigint_cmp [5] [- 2] = sgn (sval [5] - sval [- 2])"
proof (rule js_bigint_made_normal [of full_malloc])
  show "made full_malloc [5]" "made full_malloc [- 2]"
    by (rule made_si64 [where m = "()" and v = 5] made_si64 [where m = "()" and v = "- 2"], unfold js_bigint_new_si64_def,
        rule full_malloc_result [OF delivers_new_si [of 1, OF order_refl refl]]; simp add: big_ok_single)+
qed

end
