(* ===== verification/Bigint_Float.thy ===== *)
theory Bigint_Float
  imports Bigint_Div Atod_Correct
begin

text \<open>
  Conversions between BigInt numbers and doubles (given by their 64 bits), and the comparison of a BigInt with a
  double, of \<^verbatim>\<open>quickjs.c\<close>.
\<close>

subsection \<open>The functions\<close>

text \<open>One limb of the absolute value, with the carry.\<close>

definition abs_limb :: "js_limb \<Rightarrow> js_limb \<Rightarrow> js_limb \<Rightarrow> js_limb \<times> js_limb" where
  "abs_limb sg carry x = (let v = (x XOR - sg) + carry in (v, if v < carry then 1 else 0))"

fun low_loop :: "js_limb \<Rightarrow> js_limb list \<Rightarrow> js_limb \<Rightarrow> js_limb \<Rightarrow> js_limb \<times> js_limb" where
  "low_loop sg [] carry low_bits = (carry, low_bits)"
| "low_loop sg (x # xs) carry low_bits = (let (v, carry) = abs_limb sg carry x in low_loop sg xs carry (low_bits OR v))"

fun high_loop :: "js_limb \<Rightarrow> js_limb list \<Rightarrow> js_limb \<Rightarrow> js_limb list" where
  "high_loop sg [] carry = []"
| "high_loop sg (x # xs) carry = (let (v, carry) = abs_limb sg carry x in v # high_loop sg xs carry)"

text \<open>The final part of \<^verbatim>\<open>js_bigint_get_mant_exp\<close>: the mantissa and the number of bits it was shifted by.\<close>

definition norm_mant :: "u64 \<Rightarrow> u64 \<Rightarrow> u64 \<times> nat" where
  "norm_mant a1 a0 =
     (let (a1, a0, shift) =
        (if a1 = 0 then (a0, 0, 64)
         else
           let shift = clz64 a1
           in if shift \<noteq> 0 then (push_bit shift a1 OR drop_bit (64 - shift) a0, push_bit shift a0, shift) else (a1, a0, shift))
      in (a1 OR (if a0 \<noteq> 0 then 1 else 0), shift))"

definition js_bigint_get_mant_exp :: "js_limb list \<Rightarrow> u64 \<times> int" where
  "js_bigint_get_mant_exp a =
     (let n1 = length a - 2;
          sg = js_bigint_sign a;
          (carry, low_bits) = low_loop sg (take n1 a) sg 0;
          t = (if length a < 2 then [0] else []) @ high_loop sg (drop n1 a) carry;
          a1 = t ! 1;
          a0 = t ! 0 OR (if low_bits \<noteq> 0 then 1 else 0);
          (a1, shift) = norm_mant a1 a0
      in (a1, int (length a) * 64 - int shift - 1))"

definition shr_rndn :: "u64 \<Rightarrow> nat \<Rightarrow> u64" where
  "shr_rndn a n = (let addend = (drop_bit n a AND 1) + (push_bit (n - 1) 1 - 1) in drop_bit n (a + addend))"

text \<open>The conversion of a 64-bit integer to a double by the language, rounding to nearest.\<close>

definition double_of_int64 :: "js_limb \<Rightarrow> u64" where
  "double_of_int64 v =
     (let neg = v <s 0;
          (m, e) = round_to_d (mpb_set_u64 (if neg then - v else v)) 0 JS_RNDN
      in f64_pack m e OR (if neg then push_bit 63 1 else 0))"

definition js_bigint_to_float64 :: "js_limb list \<Rightarrow> u64" where
  "js_bigint_to_float64 a =
     (if length a = 1 then double_of_int64 (a ! 0)
      else
        let sg = js_bigint_sign a;
            (mant, e) = js_bigint_get_mant_exp a;
            (mant, e) =
              (if e > 1023 then (0, 1024)
               else
                 let mant = drop_bit 1 mant OR (mant AND 1);
                     mant = shr_rndn mant 10;
                     (mant, e) = (if mant \<ge> push_bit 53 1 then (drop_bit 1 mant, e + 1) else (mant, e))
                 in (mant AND (push_bit 52 1 - 1), e))
        in push_bit 63 sg OR push_bit 52 (of_int (e + 1023)) OR mant)"

text \<open>The result code with the number: 1 for a fractional part, 2 for infinities and NaN.\<close>

definition js_bigint_from_float64 :: "'m js_malloc \<Rightarrow> u64 \<Rightarrow> 'm \<Rightarrow> nat \<times> ('m, js_limb list) outcome option" where
  "js_bigint_from_float64 malloc a m =
     (let sg = drop_bit 63 a;
          e = int (unat (drop_bit 52 a AND (push_bit 11 1 - 1)));
          mant = a AND (push_bit 52 1 - 1)
      in if e = 2047 then (2, None)
         else if e = 0 \<and> mant = 0 then (0, Some (js_bigint_new_si malloc 0 m))
         else
           let e = e - 1023
           in if e < 0 then (1, None)
              else
                let mant = mant OR push_bit 52 1
                in if e < 52 then
                     let shift = nat (52 - e)
                     in if mant AND (push_bit shift 1 - 1) \<noteq> 0 then (1, None)
                        else
                          let mant = drop_bit shift mant;
                              mant = (if sg \<noteq> 0 then - mant else mant)
                          in (0, Some (js_bigint_shl malloc (js_bigint_set_si mant) 0 m))
                   else
                     let mant = (if sg \<noteq> 0 then - mant else mant)
                     in (0, Some (js_bigint_shl malloc (js_bigint_set_si mant) (nat (e - 52)) m)))"

definition js_bigint_float64_cmp :: "js_limb list \<Rightarrow> u64 \<Rightarrow> int" where
  "js_bigint_float64_cmp a b1 =
     (let b_sign = uint (drop_bit 63 b1);
          e = int (unat (drop_bit 52 b1 AND (push_bit 11 1 - 1)));
          mant = b1 AND (push_bit 52 1 - 1);
          a_sign = uint (js_bigint_sign a)
      in if e = 2047 then if mant \<noteq> 0 then 2 else 2 * b_sign - 1
         else if e = 0 \<and> mant = 0 then if length a = 1 \<and> a ! 0 = 0 then 0 else 1 - 2 * a_sign
         else if length a = 1 \<and> a ! 0 = 0 then 2 * b_sign - 1
         else if a_sign \<noteq> b_sign then 1 - 2 * a_sign
         else
           let e = e - 1023;
               (a_mant, f) = js_bigint_get_mant_exp a
           in if f \<noteq> e then if f < e then - 1 else 1
              else
                let mant = push_bit 11 (mant OR push_bit 52 1)
                in if a_mant < mant then 2 * a_sign - 1 else if a_mant > mant then 1 - 2 * a_sign else 0)"

subsection \<open>Mantissa and exponent\<close>

lemma high_loop_abs:
  "high_loop 0 xs 0 = xs" "high_loop 1 xs c = fst (mp_neg_loop xs c)"
proof -
  show "high_loop 0 xs 0 = xs" by (induction xs) (simp_all add: abs_limb_def)
  show "high_loop 1 xs c = fst (mp_neg_loop xs c)" by (induction xs arbitrary: c) (simp_all add: abs_limb_def Let_def split_def)
qed

lemma high_loop_append: "high_loop s (xs @ ys) c = high_loop s xs c @ high_loop s ys (fst (low_loop s xs c l))"
  by (induction xs arbitrary: c l) (simp_all add: split_def Let_def)

lemma low_loop_zero: "snd (low_loop s xs c l) = 0 \<longleftrightarrow> l = 0 \<and> lval (high_loop s xs c) = 0"
proof (induction xs arbitrary: c l)
  case (Cons x xs)
  define v c' where "v = fst (abs_limb s c x)" and "c' = snd (abs_limb s c x)"
  have "l OR v = 0 \<longleftrightarrow> l = 0 \<and> v = 0" by (simp add: or_eq_0_iff)
  moreover have "uint v + LB * lval (high_loop s xs c') = 0 \<longleftrightarrow> v = 0 \<and> lval (high_loop s xs c') = 0"
  proof -
    have "0 \<le> LB * lval (high_loop s xs c')" using lval_range(1) by simp
    then have "uint v + LB * lval (high_loop s xs c') = 0 \<longleftrightarrow> uint v = 0 \<and> LB * lval (high_loop s xs c') = 0"
      using limb_range(1) [of v] by linarith
    then show ?thesis by (simp add: unsigned_eq_0_iff)
  qed
  ultimately show ?case using Cons [of c' "l OR v"] by (auto simp: split_def v_def [symmetric] c'_def [symmetric])
qed simp

definition sticky_q :: "int \<Rightarrow> int \<Rightarrow> int" where
  "sticky_q n k = (if n mod k = 0 then n div k else n div k OR 1)"

lemma sticky_qI: "n = k * q + r \<Longrightarrow> 0 \<le> r \<Longrightarrow> r < k \<Longrightarrow> sticky_q n k = (if r = 0 then q else q OR 1)"
  by (simp add: sticky_q_def div_pos_pos_trivial mod_pos_pos_trivial)

lemma sticky_limb:
  assumes "1 \<le> n"
  shows "uint (x OR (if s then 1 else 0)) div 2 ^ n = uint (x :: js_limb) div 2 ^ n"
    and "uint (x OR (if s then 1 else 0)) mod 2 ^ n = 0 \<longleftrightarrow> \<not> s \<and> uint x mod 2 ^ n = 0"
proof -
  have o: "uint (x OR 1) = uint x OR 1" by (simp add: unsigned_or_eq)
  have d: "(uint x OR 1) div 2 = uint x div 2" by (simp add: or_one_eq)
  obtain k where n: "n = Suc k" using assms by (cases n) auto
  have "(uint x OR 1) div 2 ^ n = uint x div 2 ^ n" unfolding n power_Suc using d by (simp add: zdiv_zmult2_eq)
  then show "uint (x OR (if s then 1 else 0)) div 2 ^ n = uint x div 2 ^ n" using o by simp
  have "odd (uint x OR 1)" by (simp add: even_or_iff)
  then have "(uint x OR 1) mod 2 ^ n \<noteq> 0" using n by (metis dvd_eq_mod_eq_0 dvd_trans even_numeral dvd_power zero_less_Suc)
  then show "uint (x OR (if s then 1 else 0)) mod 2 ^ n = 0 \<longleftrightarrow> \<not> s \<and> uint x mod 2 ^ n = 0" using o by simp
qed

lemma div_less_mult:
  assumes "x < a * (b :: int)" "0 < b"
  shows "x div b < a"
proof (rule ccontr)
  assume "\<not> x div b < a"
  then have "a * b \<le> x div b * b" using assms(2) by (intro mult_right_mono) simp_all
  then show False using assms div_mult_mod_eq [of x b] pos_mod_sign [OF assms(2), of x] by linarith
qed

lemma norm_mant_top:
  assumes "a1 \<noteq> 0" "c = clz64 a1"
  shows "snd (norm_mant a1 a0) = c"
    and "uint (fst (norm_mant a1 a0)) =
      (let q = uint a1 * 2 ^ c + uint a0 div 2 ^ (64 - c) in if uint a0 mod 2 ^ (64 - c) = 0 then q else q OR 1)"
proof -
  note cl = clz64_normal [OF assms(1), folded assms(2)]
  have nm: "norm_mant a1 a0 = ((push_bit c a1 OR drop_bit (64 - c) a0) OR (if push_bit c a0 \<noteq> 0 then 1 else 0), c)"
  proof (cases "c = 0")
    case True
    have "drop_bit 64 a0 = 0" by (rule bit_eqI) (simp add: bit_drop_bit_eq bit_imp_le_length [where w = a0] not_le)
    then show ?thesis using True assms by (simp add: norm_mant_def Let_def)
  next
    case False
    then show ?thesis using assms by (simp add: norm_mant_def Let_def)
  qed
  show "snd (norm_mant a1 a0) = c" unfolding nm by simp
  have c64: "c \<le> 64" using cl(1) by simp
  have "uint (drop_bit (64 - c) a0) < 2 ^ c"
  proof -
    have "uint a0 < 2 ^ c * 2 ^ (64 - c)" using limb_range(2) [of a0] cl(1) by (simp add: LB_def flip: power_add)
    then show ?thesis unfolding limb_drop by (rule div_less_mult) simp
  qed
  note ol = or_limb [OF this c64, of a1]
  have "uint a1 < 2 ^ (64 - c)"
  proof -
    have "LB = 2 ^ (64 - c) * 2 ^ c" using limb_push(2) [OF c64] .
    then have "(uint a1 + 1) * 2 ^ c \<le> 2 ^ (64 - c) * 2 ^ c" using cl(3) by simp
    then show ?thesis by simp
  qed
  then have q: "uint (push_bit c a1 OR drop_bit (64 - c) a0) = uint a1 * 2 ^ c + uint a0 div 2 ^ (64 - c)"
    unfolding ol using limb_range(1) [of a1] by (simp add: limb_drop mod_pos_pos_trivial)
  have z: "push_bit c a0 = 0 \<longleftrightarrow> uint a0 mod 2 ^ (64 - c) = 0"
  proof -
    have "push_bit c a0 = 0 \<longleftrightarrow> uint (push_bit c a0) = 0" by (rule unsigned_eq_0_iff [symmetric])
    then show ?thesis unfolding limb_push(1) [OF c64, of a0] by simp
  qed
  show "uint (fst (norm_mant a1 a0)) = (let q = uint a1 * 2 ^ c + uint a0 div 2 ^ (64 - c) in if uint a0 mod 2 ^ (64 - c) = 0 then q else q OR 1)"
    unfolding nm fst_conv Let_def q [symmetric] using z by (simp add: unsigned_or_eq)
qed

text \<open>
  The mantissa of \<open>V\<close>, the absolute value: \<open>V * 2\<^sup>c\<close> divided by a power of the base, with 64 bits, and its lowest
  bit set when the division is not exact.
\<close>

lemma mant_top:
  assumes V: "V = lo + P * (uint x0 + LB * uint x1)" and lo: "0 \<le> lo" "lo < P" and x1: "x1 \<noteq> 0" and c: "c = clz64 x1"
    and a0: "a0 = x0 OR (if lo \<noteq> 0 then 1 else 0)"
  shows "snd (norm_mant x1 a0) = c" "uint (fst (norm_mant x1 a0)) = sticky_q (V * 2 ^ c) (P * LB)"
    "2 ^ 63 * (P * LB) \<le> V * 2 ^ c" "V * 2 ^ c < LB * (P * LB)"
proof -
  note cl = clz64_normal [OF x1, folded c]
  note nm = norm_mant_top [OF x1 c, of a0]
  have P: "0 < P" using lo by linarith
  have n1: "1 \<le> 64 - c" using cl(1) by simp
  have pw: "2 ^ (64 - c) * 2 ^ c = LB" using cl(1) by (simp add: LB_def flip: power_add)
  define xq xr where "xq = uint x0 div 2 ^ (64 - c)" and "xr = uint x0 mod 2 ^ (64 - c)"
  have x0: "uint x0 = xq * 2 ^ (64 - c) + xr" "0 \<le> xr" "xr < 2 ^ (64 - c)"
    using div_mult_mod_eq [of "uint x0" "2 ^ (64 - c)", symmetric] by (simp_all add: xq_def xr_def)
  define q where "q = uint x1 * 2 ^ c + xq"
  define r where "r = P * (xr * 2 ^ c) + lo * 2 ^ c"
  have N: "V * 2 ^ c = P * LB * q + r"
  proof -
    have "V * 2 ^ c = lo * 2 ^ c + P * (xq * (2 ^ (64 - c) * 2 ^ c) + xr * 2 ^ c + LB * (uint x1 * 2 ^ c))" unfolding V x0(1) by (simp add: algebra_simps)
    then show ?thesis unfolding pw q_def r_def by (simp add: algebra_simps)
  qed
  have r0: "0 \<le> r" "r < P * LB"
  proof -
    show "0 \<le> r" using P x0(2) lo(1) by (simp add: r_def)
    have "lo * 2 ^ c < P * 2 ^ c" using lo(2) by simp
    moreover have "P * ((xr + 1) * 2 ^ c) \<le> P * (2 ^ (64 - c) * 2 ^ c)" using P x0(3) by (intro mult_left_mono mult_right_mono) simp_all
    moreover have "P * ((xr + 1) * 2 ^ c) = P * (xr * 2 ^ c) + P * 2 ^ c" by (simp add: algebra_simps)
    ultimately show "r < P * LB" unfolding pw r_def by linarith
  qed
  have rz: "r = 0 \<longleftrightarrow> xr = 0 \<and> lo = 0"
  proof -
    have "0 \<le> P * (xr * 2 ^ c)" "0 \<le> lo * 2 ^ c" using P x0(2) lo(1) by simp_all
    then have "r = 0 \<longleftrightarrow> P * (xr * 2 ^ c) = 0 \<and> lo * 2 ^ c = 0" unfolding r_def by linarith
    then show ?thesis using P by simp
  qed
  note st = sticky_limb [OF n1, of x0 "lo \<noteq> 0", folded a0]
  show "snd (norm_mant x1 a0) = c" by (rule nm)
  show "uint (fst (norm_mant x1 a0)) = sticky_q (V * 2 ^ c) (P * LB)"
    unfolding nm(2) Let_def sticky_qI [OF N r0] unfolding st q_def rz xq_def xr_def by auto
  have "0 \<le> xq" unfolding xq_def by (simp add: pos_imp_zdiv_nonneg_iff)
  then have q0: "0 \<le> xq" "2 ^ 63 \<le> q" using cl(2) by (simp_all add: q_def)
  have "P * LB * 2 ^ 63 \<le> P * LB * q" using P q0(2) by (intro mult_left_mono) simp_all
  then show "2 ^ 63 * (P * LB) \<le> V * 2 ^ c" unfolding mult.commute [of "2 ^ 63"] using N r0(1) by linarith
  have "xq < 2 ^ c" unfolding xq_def by (rule div_less_mult) (use limb_range(2) [of x0] pw in \<open>simp_all add: mult.commute\<close>)
  then have "q + 1 \<le> (uint x1 + 1) * 2 ^ c" unfolding q_def by (simp add: algebra_simps)
  also have "\<dots> \<le> LB" by (rule cl)
  finally have "P * LB * (q + 1) \<le> P * LB * LB" using P by (intro mult_left_mono) simp_all
  moreover have "P * LB * (q + 1) = P * LB * q + P * LB" by (simp add: distrib_left)
  ultimately show "V * 2 ^ c < LB * (P * LB)" unfolding mult.commute [of LB "P * LB"] using N r0(2) by linarith
qed

lemma mant_exp_val:
  assumes "big_ok a" "sval a \<noteq> 0"
  obtains m c where "js_bigint_get_mant_exp a = (m, int (length a) * 64 - int c - 1)" "c \<le> 64"
    "uint m = sticky_q (\<bar>sval a\<bar> * 2 ^ c) (LB ^ (length a - 1))"
    "2 ^ 63 * LB ^ (length a - 1) \<le> \<bar>sval a\<bar> * 2 ^ c" "\<bar>sval a\<bar> * 2 ^ c < LB * LB ^ (length a - 1)"
proof -
  have ne: "a \<noteq> []" using assms(1) by (rule big_ok_Nil)
  define s n1 where "s = js_bigint_sign a" and "n1 = length a - 2"
  define X where "X = high_loop s a s"
  have "X = (if s \<noteq> 0 then fst (mp_neg a) else a)"
    using sign_val [OF ne] by (auto simp: X_def s_def high_loop_abs mp_neg_def split: if_splits)
  then have X: "lval X = \<bar>sval a\<bar>" "length X = length a" using abs_limbs [OF ne] by (simp_all add: s_def)
  obtain carry low where cl: "low_loop s (take n1 a) s 0 = (carry, low)" by fastforce
  have split: "X = high_loop s (take n1 a) s @ high_loop s (drop n1 a) carry"
    using high_loop_append [of s "take n1 a" "drop n1 a" s 0] cl by (simp add: X_def)
  have low: "low \<noteq> 0 \<longleftrightarrow> lval (high_loop s (take n1 a) s) \<noteq> 0" using low_loop_zero [of s "take n1 a" s 0] cl by simp
  have hl: "length (high_loop s xs c) = length xs" for xs c by (induction xs arbitrary: c) (simp_all add: split_def Let_def)
  show thesis
  proof (cases "length a < 2")
    case True
    then obtain v where a: "a = [v]" using ne by (cases a; cases "tl a") auto
    obtain x where x: "X = [x]" using X(2) a by (cases X) auto
    have V: "\<bar>sval a\<bar> = 0 + 1 * (uint x + 0)" using X(1) x by simp
    have x0: "x \<noteq> 0" using assms(2) V by auto
    define c where "c = clz64 x"
    have "low = 0" "high_loop s (drop n1 a) carry = [x]" using cl x split a by (simp_all add: n1_def)
    then have g: "js_bigint_get_mant_exp a = (fst (norm_mant x 0), int (length a) * 64 - int (snd (norm_mant x 0)) - 1)"
      using cl True a unfolding js_bigint_get_mant_exp_def Let_def s_def [symmetric] n1_def [symmetric] by (simp add: split_def)
    note nt = norm_mant_top [OF x0 c_def, of 0]
    have "uint x * 2 ^ c < (uint x + 1) * 2 ^ c" by simp
    also have "\<dots> \<le> LB" using clz64_normal(3) [OF x0] by (simp add: c_def)
    finally have cb: "c \<le> 64" "2 ^ 63 \<le> uint x * 2 ^ c" "uint x * 2 ^ c < LB"
      using clz64_normal(1,2) [OF x0] by (simp_all add: c_def)
    show thesis
    proof (rule that)
      show "js_bigint_get_mant_exp a = (fst (norm_mant x 0), int (length a) * 64 - int c - 1)" using g nt(1) by simp
    qed (use cb nt(2) V a in \<open>simp_all add: sticky_q_def\<close>)
  next
    case False
    then have n: "length a = n1 + 2" by (simp add: n1_def)
    define lo where "lo = lval (high_loop s (take n1 a) s)"
    define P where "P = LB ^ n1"
    have lo: "0 \<le> lo" "lo < P" using lval_range [of "high_loop s (take n1 a) s"] n by (simp_all add: lo_def P_def hl)
    obtain x0 x1 where x: "high_loop s (drop n1 a) carry = [x0, x1]"
      using hl [of "drop n1 a" carry] n by (cases "high_loop s (drop n1 a) carry"; cases "tl (high_loop s (drop n1 a) carry)") auto
    have V: "\<bar>sval a\<bar> = lo + P * (uint x0 + LB * uint x1)"
      unfolding X(1) [symmetric] split x using n by (simp add: lval_append lo_def P_def hl)
    have K: "LB ^ (length a - 1) = P * LB" using n by (simp add: P_def mult.commute)
    define a0 where "a0 = x0 OR (if lo \<noteq> 0 then 1 else 0)"
    have g: "js_bigint_get_mant_exp a = (fst (norm_mant x1 a0), int (length a) * 64 - int (snd (norm_mant x1 a0)) - 1)"
      using cl False x low unfolding js_bigint_get_mant_exp_def Let_def s_def [symmetric] n1_def [symmetric] a0_def lo_def [symmetric]
      by (simp add: split_def)
    show thesis
    proof (cases "x1 = 0")
      case False
      note mt = mant_top [OF V lo False refl a0_def]
      show thesis using that [OF g, unfolded mt(1)] mt K clz64_normal(1) [OF False] by simp
    next
      case True
      have V0: "\<bar>sval a\<bar> = lo + P * uint x0" using V True by simp
      have "\<not> fits (length a - 1) (sval a)" using assms(1) n by (simp add: big_ok_def)
      then have ge: "P * LB \<le> 2 * \<bar>sval a\<bar>" unfolding fits_def K by auto
      have lt: "\<bar>sval a\<bar> < P * LB"
      proof -
        have "P * (uint x0 + 1) \<le> P * LB" using lo limb_range(2) [of x0] by (intro mult_left_mono) simp_all
        then show ?thesis unfolding V0 using lo by (simp add: distrib_left)
      qed
      have N: "\<bar>sval a\<bar> * 2 ^ 64 = P * LB * uint x0 + lo * LB" unfolding V0 by (simp add: LB_def algebra_simps)
      have r: "0 \<le> lo * LB" "lo * LB < P * LB" using lo by simp_all
      have nm: "norm_mant x1 a0 = (a0, 64)" using True by (simp add: norm_mant_def)
      have "uint a0 = (if lo * LB = 0 then uint x0 else uint x0 OR 1)" by (simp add: a0_def unsigned_or_eq)
      then show thesis using that [of a0 64] g nm sticky_qI [OF N r] ge lt K by (simp add: LB_def)
    qed
  qed
qed

text \<open>The mantissa and the exponent over the real numbers.\<close>

lemma mant_exp_real:
  assumes "big_ok a" "sval a \<noteq> 0"
  obtains m f N K where "js_bigint_get_mant_exp a = (m, f)" "uint m = sticky_q N K" "0 < K" "2 ^ 63 * K \<le> N" "N < LB * K" "0 \<le> f"
    "real_of_int \<bar>sval a\<bar> = real_of_int N / real_of_int K * 2 powi (f - 63)"
    "2 powi f \<le> real_of_int \<bar>sval a\<bar>" "real_of_int \<bar>sval a\<bar> < 2 powi (f + 1)"
proof -
  from mant_exp_val [OF assms] obtain m c where g: "js_bigint_get_mant_exp a = (m, int (length a) * 64 - int c - 1)" "c \<le> 64"
    "uint m = sticky_q (\<bar>sval a\<bar> * 2 ^ c) (LB ^ (length a - 1))"
    "2 ^ 63 * LB ^ (length a - 1) \<le> \<bar>sval a\<bar> * 2 ^ c" "\<bar>sval a\<bar> * 2 ^ c < LB * LB ^ (length a - 1)" by blast
  define f where "f = int (length a) * 64 - int c - 1"
  define N K where "N = \<bar>sval a\<bar> * 2 ^ c" and "K = LB ^ (length a - 1)"
  have len: "1 \<le> length a" using big_ok_Nil [OF assms(1)] by (simp add: Suc_le_eq)
  have K: "0 < K" by (simp add: K_def)
  have Kp: "real_of_int K = 2 powi (f - 63) * 2 ^ c"
  proof -
    have "K = 2 ^ (64 * (length a - 1))" using LB_bits [of "length a - 1" 0] by (simp add: K_def)
    then have "real_of_int K = 2 powi (int (64 * (length a - 1)))" by (simp add: power_int_def)
    also have "int (64 * (length a - 1)) = (f - 63) + int c" using len by (simp add: f_def of_nat_diff)
    finally show ?thesis unfolding powi2_add by (simp add: power_int_def)
  qed
  define x where "x = real_of_int \<bar>sval a\<bar>"
  have xe: "x / 2 powi (f - 63) = real_of_int N / real_of_int K" unfolding Kp by (simp add: N_def x_def)
  have "real_of_int (2 ^ 63 * K) \<le> real_of_int N" "real_of_int N < real_of_int (2 ^ 64 * K)"
    using g(4,5) unfolding of_int_le_iff of_int_less_iff by (simp_all add: N_def K_def LB_def)
  then have "2 ^ 63 \<le> x / 2 powi (f - 63)" "x / 2 powi (f - 63) < 2 ^ 64" unfolding xe using K by (simp_all add: field_simps)
  then have "2 ^ 63 * 2 powi (f - 63) \<le> x" "x < 2 ^ 64 * 2 powi (f - 63)" by (simp_all add: field_simps)
  moreover have "(2 :: real) ^ 63 * 2 powi (f - 63) = 2 powi f" "(2 :: real) ^ 64 * 2 powi (f - 63) = 2 powi (f + 1)"
    using powi2_add [of 63 "f - 63"] powi2_add [of 64 "f - 63"] by (simp_all add: add.commute)
  ultimately have b: "2 powi f \<le> x" "x < 2 powi (f + 1)" by simp_all
  have "1 \<le> x" using assms(2) by (simp add: x_def)
  then have "(2 :: real) powi 0 < 2 powi (f + 1)" using b(2) by simp
  then have f0: "0 \<le> f" unfolding powi2_less_iff by simp
  have "x = real_of_int N / real_of_int K * 2 powi (f - 63)" unfolding xe [symmetric] by simp
  then show thesis using that [of m f N K] g(1,3-5) K f0 b by (simp add: f_def N_def K_def x_def)
qed

subsection \<open>Conversion to a double\<close>

lemma or_one_int: "(n :: int) OR 1 = n + of_bool (even n)"
  by (rule or_one_eq)

definition rndn_int :: "int \<Rightarrow> int" where
  "rndn_int m1 = (m1 + (m1 div 1024 mod 2 + 511)) div 1024"

lemma shr_rndn_val:
  assumes "uint a < 2 ^ 63"
  shows "uint (shr_rndn a 10) = rndn_int (uint a)"
proof -
  have d: "uint (drop_bit 10 a AND 1) = uint a div 1024 mod 2" by (simp add: and_one limb_drop odd_iff_mod_2_eq_one)
  define ad where "ad = (drop_bit 10 a AND 1) + (push_bit (10 - 1) 1 - 1)"
  have k: "uint (push_bit (10 - 1) 1 - 1 :: js_limb) = 511" by simp
  have "uint ad = (uint a div 1024 mod 2 + 511) mod LB" unfolding ad_def limb_ariths(1) d k ..
  also have "\<dots> = uint a div 1024 mod 2 + 511" by (intro mod_pos_pos_trivial) (simp_all add: LB_def)
  finally have ad: "uint ad = uint a div 1024 mod 2 + 511" .
  have "uint (a + ad) = (uint a + (uint a div 1024 mod 2 + 511)) mod LB" unfolding limb_ariths(1) ad ..
  also have "\<dots> = uint a + (uint a div 1024 mod 2 + 511)"
    using assms pos_mod_bound [of 2 "uint a div 1024"] by (intro mod_pos_pos_trivial) (simp_all add: LB_def)
  finally show ?thesis unfolding shr_rndn_def Let_def ad_def [symmetric] limb_drop rndn_int_def by simp
qed

text \<open>Halving with a sticky bit and rounding by 10 bits is rounding of the exact quotient by 11 bits.\<close>

lemma sticky_halved:
  assumes "0 < K" "0 \<le> N"
  defines "m \<equiv> sticky_q N K" and "q \<equiv> N div K"
  defines "m1 \<equiv> (m div 2) OR (m mod 2)"
  shows "m1 = 1024 * (q div 2048) + ((q mod 2048) div 2 + of_bool (even (q mod 2048 div 2) \<and> (odd q \<or> N mod K \<noteq> 0)))"
proof -
  have m: "m div 2 = q div 2" "m mod 2 = of_bool (odd q \<or> N mod K \<noteq> 0)"
    unfolding m_def sticky_q_def q_def by (auto simp: or_one_int odd_iff_mod_2_eq_one elim!: evenE oddE)
  have "m1 = q div 2 + of_bool (even (q div 2) \<and> (odd q \<or> N mod K \<noteq> 0))"
    unfolding m1_def m by (cases "odd q \<or> N mod K \<noteq> 0") (simp_all add: or_one_int)
  moreover have "q div 2 = 1024 * (q div 2048) + q mod 2048 div 2"
  proof -
    have "(q mod 2048 + 2 * (1024 * (q div 2048))) div 2 = 1024 * (q div 2048) + q mod 2048 div 2" by (subst div_mult_self2) simp_all
    then show ?thesis by simp
  qed
  ultimately show ?thesis by simp
qed

lemma rndn_near_even:
  assumes K: "0 < K" and N: "0 \<le> N"
  defines "m \<equiv> sticky_q N K"
  shows "near_even (real_of_int N / real_of_int (K * 2048)) (nat (rndn_int ((m div 2) OR (m mod 2))))"
    and "N div K div 2048 \<le> rndn_int ((m div 2) OR (m mod 2))" "rndn_int ((m div 2) OR (m mod 2)) \<le> N div K div 2048 + 1"
proof -
  define q r where "q = N div K" and "r = N mod K"
  define Q t0 where "Q = q div 2048" and "t0 = q mod 2048"
  define s where "s \<longleftrightarrow> odd q \<or> r \<noteq> 0"
  define t where "t = t0 div 2 + of_bool (even (t0 div 2) \<and> s)"
  have m1: "(m div 2) OR (m mod 2) = 1024 * Q + t"
    using sticky_halved [OF K N] by (simp add: m_def q_def r_def Q_def t0_def t_def s_def)
  have t0: "0 \<le> t0" "t0 < 2048" by (simp_all add: t0_def)
  have t: "0 \<le> t" "t < 1024" using t0 unfolding t_def by (auto simp: of_bool_def) presburger+
  have R: "rndn_int (1024 * Q + t) = Q + (t + Q mod 2 + 511) div 1024"
  proof -
    have "(1024 * Q + t) div 1024 = Q" using t by simp
    then have "rndn_int (1024 * Q + t) = (1024 * Q + (t + Q mod 2 + 511)) div 1024" by (simp add: rndn_int_def ac_simps)
    then show ?thesis by simp
  qed
  define u where "u = (t + Q mod 2 + 511) div 1024"
  have Q0: "0 \<le> Q" using K N by (simp add: Q_def q_def pos_imp_zdiv_nonneg_iff)
  have odd_q: "odd q \<longleftrightarrow> odd t0"
  proof -
    have "q = 2048 * Q + t0" by (simp add: Q_def t0_def)
    then show ?thesis by simp
  qed
  have u: "u = (if t0 < 1024 then 0 else if t0 = 1024 \<and> r = 0 then Q mod 2 else 1)"
  proof -
    consider "t0 < 1024" | "t0 = 1024" "r = 0" | "t0 = 1024" "r \<noteq> 0" | "1024 < t0" by linarith
    then show ?thesis
    proof cases
      case 1
      then have "t \<le> 511" unfolding t_def by (auto simp: of_bool_def)
      then show ?thesis using 1 t unfolding u_def by (simp add: div_pos_pos_trivial)
    next
      case 2
      then have "t = 512" using odd_q by (simp add: t_def s_def)
      then show ?thesis using 2 unfolding u_def by simp
    next
      case 3
      then have "t = 513" by (simp add: t_def s_def)
      then show ?thesis using 3 unfolding u_def by simp
    next
      case 4
      have "513 \<le> t"
      proof (cases "t0 = 1025")
        case True
        then show ?thesis using odd_q by (simp add: t_def s_def)
      next
        case False
        then have "1026 div 2 \<le> t0 div 2" using 4 by (intro zdiv_mono1) simp_all
        then show ?thesis by (simp add: t_def)
      qed
      then have "1024 \<le> t + Q mod 2 + 511" "t + Q mod 2 + 511 < 2048" using t pos_mod_bound [of 2 Q] pos_mod_sign [of 2 Q] by linarith+
      then show ?thesis using 4 unfolding u_def by (simp add: div_pos_geq)
    qed
  qed
  have u01: "0 \<le> u" "u \<le> 1" unfolding u by auto
  show "N div K div 2048 \<le> rndn_int ((m div 2) OR (m mod 2))" "rndn_int ((m div 2) OR (m mod 2)) \<le> N div K div 2048 + 1"
    unfolding m1 R u_def [symmetric] using u01 by (simp_all add: Q_def q_def)
  define rho where "rho = real_of_int r / real_of_int K"
  define y where "y = (real_of_int t0 + rho) / 2048"
  have r: "0 \<le> r" "r < K" using K by (simp_all add: r_def)
  have x: "real_of_int N / real_of_int (K * 2048) = real_of_int Q + y"
  proof -
    have "N = K * (2048 * Q + t0) + r" by (simp add: Q_def t0_def q_def r_def)
    then have "real_of_int N = real_of_int K * (2048 * real_of_int Q + real_of_int t0) + real_of_int r" by simp
    then show ?thesis using K by (simp add: y_def rho_def field_simps)
  qed
  have rk: "0 \<le> rho" "rho < 1" "r = 0 \<longleftrightarrow> rho = 0" using r K by (simp_all add: rho_def)
  have nat: "real (nat (Q + u)) = real_of_int Q + real_of_int u" using Q0 u01 by simp
  have "\<bar>y - real_of_int u\<bar> < 1 / 2 \<or> \<bar>y - real_of_int u\<bar> \<le> 1 / 2 \<and> even (Q + u)"
  proof -
    consider "t0 < 1024" | "t0 = 1024" "r = 0" | "t0 = 1024" "r \<noteq> 0" | "1024 < t0" by linarith
    then show ?thesis
    proof cases
      case 1
      then have "real_of_int t0 + 1 \<le> 1024" by simp
      moreover have "0 \<le> real_of_int t0" using t0 by simp
      ultimately have "y < 1 / 2" "0 \<le> y" using rk(1,2) unfolding y_def by simp_all
      then show ?thesis using 1 unfolding u by simp
    next
      case 2
      then have "y = 1 / 2" using rk(3) unfolding y_def by simp
      moreover have "even (Q + Q mod 2)" "Q mod 2 = 0 \<or> Q mod 2 = 1" by presburger+
      ultimately show ?thesis using 2 unfolding u by auto
    next
      case 3
      then have "1 / 2 < y" "y < 1" using rk unfolding y_def by auto
      then show ?thesis using 3 unfolding u by simp
    next
      case 4
      then have "1025 \<le> real_of_int t0" "real_of_int t0 + 1 \<le> 2048" using t0 by simp_all
      then have "1 / 2 < y" "y < 1" using rk unfolding y_def by simp_all
      then show ?thesis using 4 unfolding u by simp
    qed
  qed
  moreover have "even (nat (Q + u)) \<longleftrightarrow> even (Q + u)" using Q0 u01 by (simp add: even_nat_iff)
  ultimately show "near_even (real_of_int N / real_of_int (K * 2048)) (nat (rndn_int ((m div 2) OR (m mod 2))))"
    unfolding m1 R u_def [symmetric] near_even_def x nat by (simp add: algebra_simps)
qed

lemma double_of_int64_val:
  assumes "v \<noteq> 0"
  shows "\<exists>b. double_of_int64 v = b OR push_bit 63 (js_bigint_sign [v]) \<and> reads_as (real_of_int \<bar>sint v\<bar>) b"
proof -
  define w where "w = (if v <s 0 then - v else v)"
  have neg: "v <s 0 \<longleftrightarrow> sint v < 0" by (simp add: word_sless_alt)
  have uw: "uint w = \<bar>sint v\<bar>"
    using abs_limbs(1) [of "[v]"] sign_val [of "[v]"] by (cases "sint v < 0") (simp_all add: w_def neg mp_neg_def Let_def minus_eq_not_plus_1)
  have "unat w \<noteq> 0" using assms by (simp add: w_def unat_eq_0)
  moreover obtain m1 e1 where me: "round_to_d (mpb_set_u64 w) 0 JS_RNDN = (m1, e1)" by fastforce
  moreover have "mul_pow_round_to_d (mpb_set_u64 w) 1 1 0 JS_RNDN = (m1, e1)" using round_to_d_as_pow [of "mpb_set_u64 w" 0 JS_RNDN] me by simp
  ultimately have "rounds_to (real (unat w)) (dbl m1 e1)" "f64_of (dbl m1 e1) (f64_pack m1 e1)"
    using rounded_normal [OF radix_ok_2, of "mpb_set_u64 w" 0 m1 e1] mpb_set_u64_val [of w] by simp_all
  then have "reads_as (real (unat w)) (f64_pack m1 e1)" unfolding reads_as_def by blast
  moreover have "real (unat w) = real_of_int \<bar>sint v\<bar>" unfolding uw [symmetric] by simp
  moreover have "(if v <s 0 then push_bit 63 1 else 0) = push_bit 63 (js_bigint_sign [v])" using sign_val [of "[v]"] neg by simp
  ultimately show ?thesis using me by (auto simp: double_of_int64_def w_def [symmetric] Let_def)
qed

text \<open>The bits of a double from its exponent and mantissa fields.\<close>

lemma f64_bits:
  assumes "0 \<le> E" "E < 2 ^ 12" "uint m < 2 ^ 52"
  shows "unat (push_bit 52 (of_int E) OR m :: u64) = nat E * 2 ^ 52 + unat m"
proof -
  have "uint (of_int E :: u64) = E" using assms(1,2) by (simp add: uint_word_of_int)
  then have "uint (push_bit 52 (of_int E) OR m :: u64) = E * 2 ^ 52 + uint m"
    using or_limb [of m 52 "of_int E"] assms by (simp add: mod_pos_pos_trivial)
  then have "int (unat (push_bit 52 (of_int E) OR m :: u64)) = int (nat E * 2 ^ 52 + unat m)" using assms(1) by simp
  then show ?thesis by (simp only: of_nat_eq_iff)
qed

lemma to_float64_long:
  assumes "big_ok a" "2 \<le> length a"
  shows "\<exists>b. js_bigint_to_float64 a = b OR push_bit 63 (js_bigint_sign a) \<and> reads_as (real_of_int \<bar>sval a\<bar>) b"
proof -
  have "sval a \<noteq> 0" using zero_iff [OF assms(1)] assms(2) by auto
  from mant_exp_real [OF assms(1) this] obtain m e N K where g: "js_bigint_get_mant_exp a = (m, e)" "uint m = sticky_q N K" "0 < K" "2 ^ 63 * K \<le> N" "N < LB * K"
    "0 \<le> e" "real_of_int \<bar>sval a\<bar> = real_of_int N / real_of_int K * 2 powi (e - 63)"
    "2 powi e \<le> real_of_int \<bar>sval a\<bar>" "real_of_int \<bar>sval a\<bar> < 2 powi (e + 1)" by blast
  define m1 where "m1 = drop_bit 1 m OR (m AND 1)"
  define R where "R = shr_rndn m1 10"
  define x where "x = real_of_int \<bar>sval a\<bar>"
  have "0 \<le> 2 ^ 63 * K" using g(3) by simp
  then have K: "0 < K" "0 \<le> N" using g(3,4) by linarith+
  note e0 = g(6)
  have um1: "uint m1 = (uint m div 2) OR (uint m mod 2)"
    unfolding m1_def unsigned_or_eq unsigned_and_eq limb_drop by (simp add: and_one_eq)
  have "uint m div 2 < 2 ^ 63" by (rule div_less_mult) (use limb_range(2) [of m] in \<open>simp_all add: LB_def\<close>)
  moreover have "0 \<le> uint m div 2" by (simp add: pos_imp_zdiv_nonneg_iff)
  moreover have "uint m mod 2 < 2 ^ 63" using pos_mod_bound [of 2 "uint m"] by simp
  ultimately have "uint m1 < 2 ^ 63" unfolding um1 by (intro OR_upper)
  then have uR: "uint R = rndn_int ((uint m div 2) OR (uint m mod 2))" unfolding R_def um1 [symmetric] by (rule shr_rndn_val)
  note rn = rndn_near_even [OF K, folded g(2), folded uR]
  have R: "2 ^ 52 \<le> uint R" "uint R \<le> 2 ^ 53"
  proof -
    have "2 ^ 63 * K div K \<le> N div K" using g(4) K by (intro zdiv_mono1) simp_all
    then have "(2 ^ 63) div 2048 \<le> N div K div 2048" using K by (intro zdiv_mono1) simp_all
    then show "2 ^ 52 \<le> uint R" using rn(2) by simp
    have "N div K < LB" by (rule div_less_mult) (use g(5) K in simp_all)
    then have "N div K div 2048 < 2 ^ 53" by (rule_tac div_less_mult) (simp_all add: LB_def)
    then show "uint R \<le> 2 ^ 53" using rn(3) by simp
  qed
  have "(2 :: real) powi (e - 52) = 2 powi (e - 63) * 2048" using powi2_add [of "e - 63" 11] by simp
  then have xe: "x / 2 powi (e - 52) = real_of_int N / real_of_int (K * 2048)" unfolding x_def g(7) by (simp add: field_simps)
  have b: "2 powi e \<le> x" "x < 2 powi (e + 1)" unfolding x_def by (rule g)+
  have rounds: "rounds_to x (real (unat R) * 2 powi (e - 52))"
    unfolding rounds_to_def
  proof (intro exI [of _ "e + 1"] exI [of _ "unat R"] conjI)
    have u: "ulp_exp (e + 1) = e - 52" using e0 by (simp add: ulp_exp_def)
    show "real (unat R) * 2 powi (e - 52) = real (unat R) * 2 powi ulp_exp (e + 1)" unfolding u ..
    show "near_even (x / 2 powi ulp_exp (e + 1)) (unat R)" unfolding u xe using rn(1) by simp
  qed (use b in simp_all)
  show ?thesis
  proof (cases "e > 1023")
    case True
    then have "(2 :: real) powi 1024 \<le> 2 powi e" by (intro powi2_mono) simp
    then have "reads_as x f64_inf" using reads_as_large [OF rounds] b(1) by simp
    moreover have "js_bigint_to_float64 a = f64_inf OR push_bit 63 (js_bigint_sign a)"
      using True assms(2) g(1) by (simp add: js_bigint_to_float64_def Let_def f64_inf_def or.commute)
    ultimately show ?thesis by (auto simp: x_def)
  next
    case False
    define big where "big \<longleftrightarrow> R \<ge> push_bit 53 1"
    define M where "M = (if big then drop_bit 1 R else R) AND (push_bit 52 1 - 1)"
    define b where "b = (push_bit 52 (of_int ((if big then e + 1 else e) + 1023)) OR M :: u64)"
    have tf: "js_bigint_to_float64 a = b OR push_bit 63 (js_bigint_sign a)"
      unfolding js_bigint_to_float64_def Let_def g(1) prod.case m1_def [symmetric] R_def [symmetric] big_def [symmetric] M_def b_def
      using False assms(2) by (cases big) (simp_all add: or.assoc or.commute or.left_commute)
    have mf: "M = f64_mant (if big then drop_bit 1 R else R)" by (simp add: M_def f64_mant_def)
    have bg: "big \<longleftrightarrow> uint R = 2 ^ 53" using R(2) by (auto simp: big_def word_le_def)
    have bn: "int (2 ^ 52) \<le> int (unat R)" "int (unat R) \<le> int (2 ^ 53)" "big \<longleftrightarrow> int (unat R) = int (2 ^ 53)" using R bg by simp_all
    then have bn: "2 ^ 52 \<le> unat R" "unat R \<le> 2 ^ 53" "big \<longleftrightarrow> unat R = 2 ^ 53" unfolding of_nat_le_iff of_nat_eq_iff by blast+
    have uM: "unat M = (if big then 0 else unat R - 2 ^ 52)"
    proof (cases big)
      case True
      then have "unat (drop_bit 1 R) = 2 ^ 52" using bn(3) by (simp add: unat_drop)
      then show ?thesis using True unfolding mf f64_fields(2) by simp
    next
      case False
      then have "2 ^ 52 \<le> unat R" "unat R < 2 ^ 53" using bn by simp_all
      then show ?thesis using False unfolding mf f64_fields(2) by (simp add: mod_if)
    qed
    have "int (unat M) < int (2 ^ 52)" unfolding of_nat_less_iff mf by (rule f64_mant_bound)
    then have "uint M < 2 ^ 52" by simp
    then have ub: "unat b = nat ((if big then e + 1 else e) + 1023) * 2 ^ 52 + unat M"
      unfolding b_def using False e0 by (intro f64_bits) simp_all
    define y where "y = real (unat R) * 2 powi (e - 52)"
    have y: "y = (2 ^ 52 + real (unat M)) * 2 powi ((if big then e + 1 else e) - 52)"
    proof (cases big)
      case True
      then have "y = 2 ^ 52 * (2 * 2 powi (e - 52))" using bn(3) by (simp add: y_def)
      then show ?thesis using True uM powi2_add [of 1 "e - 52"] by simp
    next
      case False
      then show ?thesis using bn(1) uM by (simp add: y_def of_nat_diff)
    qed
    have "f64_of y b"
    proof (cases "big \<and> e = 1023")
      case True
      then have "y = 2 powi 1024" "unat b = 2047 * 2 ^ 52" unfolding y ub using uM by (simp_all add: power_int_def)
      moreover from this have "b = f64_inf" unfolding f64_inf_def by (simp add: word_unat_eq_iff)
      ultimately show ?thesis by (simp add: f64_of_def)
    next
      case small: False
      define E where "E = nat ((if big then e + 1 else e) + 1023)"
      have E: "E < 2047" "E \<noteq> 0" "int E - 1075 = (if big then e + 1 else e) - 52" using small False e0 by (auto simp: E_def)
      have "unat M < 2 ^ 52" unfolding mf by (rule f64_mant_bound)
      note fb = f64_build [OF ub [folded E_def] E(1) this]
      have "y < 2 powi 1024"
      proof -
        have "2 ^ 52 + real (unat M) < 2 ^ 53" using \<open>unat M < 2 ^ 52\<close> by (simp add: of_nat_less_iff [symmetric, where ?'a = real] del: of_nat_less_iff)
        then have "y < 2 ^ 53 * 2 powi ((if big then e + 1 else e) - 52)" unfolding y by simp
        also have "\<dots> = 2 powi (53 + ((if big then e + 1 else e) - 52))" unfolding powi2_add by (simp add: power_int_def)
        also have "\<dots> \<le> 2 powi 1024" using small False by (intro powi2_mono) auto
        finally show ?thesis .
      qed
      then show ?thesis using fb E unfolding f64_of_def y by simp
    qed
    then have "reads_as x b" unfolding reads_as_def y_def using rounds by blast
    then show ?thesis using tf by (auto simp: x_def)
  qed
qed

subsection \<open>Conversion from a double\<close>

lemma f64_field_terms:
  "unat (drop_bit 52 a AND (push_bit 11 1 - 1)) = f64_exp a" "a AND (push_bit 52 1 - 1) = f64_mant a" "drop_bit 63 a \<noteq> 0 \<longleftrightarrow> f64_sign a"
  by (simp_all add: f64_exp_def f64_mant_def f64_sign_def)

lemma implied_bit: "unat (f64_mant a OR push_bit 52 1) = 2 ^ 52 + unat (f64_mant a)"
proof -
  have "int (unat (f64_mant a)) < int (2 ^ 52)" unfolding of_nat_less_iff by (rule f64_mant_bound)
  then have "uint (push_bit 52 1 OR f64_mant a) = 2 ^ 52 + uint (f64_mant a)" using or_limb [of "f64_mant a" 52 1] by simp
  then have "int (unat (f64_mant a OR push_bit 52 1)) = int (2 ^ 52 + unat (f64_mant a))" by (simp add: or.commute)
  then show ?thesis by (simp only: of_nat_eq_iff)
qed

lemma f64_abs_normal:
  assumes "f64_exp a \<noteq> 0"
  shows "f64_abs a = real (2 ^ 52 + unat (f64_mant a)) * 2 powi (int (f64_exp a) - 1075)"
  using assms by (simp add: f64_abs_def)

lemma f64_abs_binade:
  assumes "f64_exp a \<noteq> 0"
  shows "2 powi (int (f64_exp a) - 1023) \<le> f64_abs a" "f64_abs a < 2 powi (int (f64_exp a) - 1022)"
proof -
  have "real (unat (f64_mant a)) < real (2 ^ 52)" unfolding of_nat_less_iff by (rule f64_mant_bound)
  moreover have "0 \<le> real (unat (f64_mant a))" by (rule of_nat_0_le_iff)
  moreover have "real (2 ^ 52 + unat (f64_mant a)) = 2 ^ 52 + real (unat (f64_mant a))" "real (2 ^ 52) = 2 ^ 52" "(2 :: real) ^ 53 = 2 ^ 52 + 2 ^ 52" by simp_all
  ultimately have b: "(2 :: real) ^ 52 \<le> real (2 ^ 52 + unat (f64_mant a))" "real (2 ^ 52 + unat (f64_mant a)) < (2 :: real) ^ 53" by linarith+
  have p: "(2 :: real) ^ 52 * 2 powi (int (f64_exp a) - 1075) = 2 powi (int (f64_exp a) - 1023)"
    "(2 :: real) ^ 53 * 2 powi (int (f64_exp a) - 1075) = 2 powi (int (f64_exp a) - 1022)"
    using powi2_add [of 52 "int (f64_exp a) - 1075"] powi2_add [of 53 "int (f64_exp a) - 1075"] by (simp_all add: add.commute)
  show "2 powi (int (f64_exp a) - 1023) \<le> f64_abs a" unfolding p(1) [symmetric] f64_abs_normal [OF assms] using b(1) by (intro mult_right_mono) simp_all
  show "f64_abs a < 2 powi (int (f64_exp a) - 1022)" unfolding p(2) [symmetric] f64_abs_normal [OF assms] using b(2) by (intro mult_strict_right_mono) simp_all
qed

lemma f64_abs_subnormal:
  assumes "f64_exp a = 0"
  shows "f64_abs a < 2 powi (- 1022)" "f64_abs a = 0 \<longleftrightarrow> f64_mant a = 0" "0 \<le> f64_abs a"
proof -
  have "real (unat (f64_mant a)) < real (2 ^ 52)" unfolding of_nat_less_iff by (rule f64_mant_bound)
  then have "f64_abs a < 2 ^ 52 * 2 powi (- 1074)" using assms by (simp add: f64_abs_def)
  also have "\<dots> = 2 powi (- 1022)" using powi2_add [of 52 "- 1074"] by simp
  finally show "f64_abs a < 2 powi (- 1022)" .
  show "f64_abs a = 0 \<longleftrightarrow> f64_mant a = 0" using assms by (simp add: f64_abs_def unsigned_eq_0_iff)
  have "0 \<le> real (unat (f64_mant a)) * 2 powi (- 1074)" by (intro mult_nonneg_nonneg of_nat_0_le_iff) simp
  then show "0 \<le> f64_abs a" using assms by (simp only: f64_abs_def if_True simp_thms)
qed

lemma quotient_Ints: "real n / 2 ^ k \<in> \<int> \<longleftrightarrow> 2 ^ k dvd n"
proof
  assume "real n / 2 ^ k \<in> \<int>"
  then obtain z :: int where "real n / 2 ^ k = of_int z" by (elim Ints_cases)
  then have "real_of_int (int n) = real_of_int (z * 2 ^ k)" by (simp add: field_simps)
  then have "int n = z * 2 ^ k" by (simp only: of_int_eq_iff)
  then have "int (2 ^ k) dvd int n" by simp
  then show "2 ^ k dvd n" by (simp only: of_nat_dvd_iff)
next
  assume "2 ^ k dvd n"
  then obtain q where "n = 2 ^ k * q" by (elim dvdE)
  then show "real n / 2 ^ k \<in> \<int>" by simp
qed

lemma low_bits_zero: "m AND (push_bit k 1 - 1) = 0 \<longleftrightarrow> 2 ^ k dvd unat (m :: u64)" if "k \<le> 63"
proof -
  have "m AND (push_bit k 1 - 1) = take_bit k m" by (simp add: take_bit_eq_mask mask_eq_exp_minus_1 push_bit_of_1)
  moreover have "unat (take_bit k m) = unat m mod 2 ^ k" using unat_take32 [of k m] that by simp
  ultimately show ?thesis using unat_eq_0 [of "take_bit k m"] by (simp add: dvd_eq_mod_eq_0)
qed

lemma set_si_delivers:
  assumes "unat w < 2 ^ 53" "n < 1024"
  shows "delivers malloc 17 (js_bigint_shl malloc (js_bigint_set_si (if neg then - w else w)) n m) (if neg then - (int (unat w) * 2 ^ n) else int (unat w) * 2 ^ n)"
proof -
  have u: "uint w < 2 ^ 53"
  proof -
    have "int (unat w) < int (2 ^ 53)" unfolding of_nat_less_iff by (rule assms)
    then show ?thesis by simp
  qed
  have pos: "sval [w] = uint w" using top_half_iff [of "[w]"] u by (simp add: sval_def)
  have "- LB \<le> - (2 * n) \<and> - (2 * n) < LB" if "0 \<le> n" "n < 2 ^ 53" for n using that by (simp add: LB_def)
  from this [OF limb_range(1) u] have "fits (length [w]) (- sval [w])" unfolding pos by (simp add: fits_def)
  from neg_limbs [OF this] have "sval [- w] = - sval [w]" by (simp add: mp_neg_def Let_def minus_eq_not_plus_1)
  then have v: "sval [if neg then - w else w] = (if neg then - int (unat w) else int (unat w))" using pos by simp
  have "1 + n div 64 \<le> 17" using assms(2) by simp
  then show ?thesis using delivers_mono [OF shl_delivers [OF big_ok_single, of malloc "if neg then - w else w" n m], of 17] unfolding v
    by (cases neg) (simp_all add: js_bigint_set_si_def)
qed

lemma from_float64_val:
  assumes "f64_finite a"
  shows "if f64_abs a \<in> \<int> then \<exists>r. js_bigint_from_float64 malloc a m = (0, Some r) \<and>
      delivers malloc 17 r (if f64_sign a then - \<lfloor>f64_abs a\<rfloor> else \<lfloor>f64_abs a\<rfloor>)
    else js_bigint_from_float64 malloc a m = (1, None)"
proof -
  define E M where "E = f64_exp a" and "M = f64_mant a"
  define w where "w = M OR push_bit 52 1"
  have fin: "E < 2047" using assms f64_exp_bound [of a] by (simp add: E_def f64_finite_def)
  have uw: "unat w = 2 ^ 52 + unat M" "unat M < 2 ^ 52" unfolding w_def M_def by (rule implied_bit f64_mant_bound)+
  have def: "js_bigint_from_float64 malloc a m = (if E = 0 \<and> M = 0 then (0, Some (js_bigint_new_si malloc 0 m))
      else if int E - 1023 < 0 then (1, None)
      else if int E - 1023 < 52 then
        if w AND (push_bit (nat (52 - (int E - 1023))) 1 - 1) \<noteq> 0 then (1, None)
        else (0, Some (js_bigint_shl malloc (js_bigint_set_si (if f64_sign a then - drop_bit (nat (52 - (int E - 1023))) w else drop_bit (nat (52 - (int E - 1023))) w)) 0 m))
      else (0, Some (js_bigint_shl malloc (js_bigint_set_si (if f64_sign a then - w else w)) (nat (int E - 1023 - 52)) m)))"
    using fin unfolding js_bigint_from_float64_def Let_def f64_field_terms E_def [symmetric] M_def [symmetric] w_def [symmetric] by simp
  consider "E = 0" "M = 0" | "E = 0" "M \<noteq> 0" | "E \<noteq> 0" "E < 1023" | "1023 \<le> E" "E < 1075" | "1075 \<le> E" by linarith
  then show ?thesis
  proof cases
    case 1
    then have "f64_abs a = 0" using f64_abs_subnormal(2) [of a] by (simp add: E_def M_def)
    moreover have "delivers malloc 17 (js_bigint_new_si malloc 0 m) 0" by (rule delivers_new_si) simp_all
    ultimately show ?thesis using 1 def by simp
  next
    case 2
    have "f64_abs a < 1" using f64_abs_subnormal(1) [of a] 2 powi2_mono [of "- 1022" 0] by (simp add: E_def)
    moreover have "0 < f64_abs a" using f64_abs_subnormal(2,3) [of a] 2 by (simp add: E_def M_def less_le)
    ultimately have "f64_abs a \<notin> \<int>" by (auto elim!: Ints_cases)
    then show ?thesis using 2 def by simp
  next
    case 3
    have lt: "f64_abs a < 1" using f64_abs_binade(2) [of a] 3 powi2_mono [of "int E - 1022" 0] by (simp add: E_def)
    have "0 < (2 :: real) powi (int E - 1023)" by simp
    also have "\<dots> \<le> f64_abs a" using f64_abs_binade(1) [of a] 3 by (simp add: E_def)
    finally have "0 < f64_abs a" .
    with lt have "f64_abs a \<notin> \<int>" by (auto elim!: Ints_cases)
    then show ?thesis using 3 def by simp
  next
    case 4
    define k where "k = nat (52 - (int E - 1023))"
    have k: "k \<le> 52" "int E - 1075 = - int k" "int E - 1023 < 52" "\<not> int E - 1023 < 0" using 4 by (simp_all add: k_def)
    have v: "f64_abs a = real (unat w) / 2 ^ k"
      using f64_abs_normal [of a] 4 uw k(2) by (simp add: E_def M_def power_int_minus divide_inverse)
    have z: "w AND (push_bit k 1 - 1) = 0 \<longleftrightarrow> f64_abs a \<in> \<int>" unfolding v quotient_Ints using k(1) by (intro low_bits_zero) simp
    show ?thesis
    proof (cases "f64_abs a \<in> \<int>")
      case True
      then have "2 ^ k dvd unat w" unfolding v quotient_Ints .
      then have "f64_abs a = real (unat w div 2 ^ k)" unfolding v by (simp add: real_of_nat_div)
      then have fl: "\<lfloor>f64_abs a\<rfloor> = int (unat (drop_bit k w))" by (simp add: unat_drop)
      have "unat (drop_bit k w) \<le> unat w" unfolding unat_drop by (rule div_le_dividend)
      also have "unat w < 2 ^ 53" using uw by simp
      finally have "unat (drop_bit k w) < 2 ^ 53" .
      from set_si_delivers [OF this, of 0 malloc "f64_sign a" m] show ?thesis
        using True z 4 k(3,4) unfolding def k_def [symmetric] fl by (cases "f64_sign a") simp_all
    next
      case False
      then show ?thesis using z 4 k(3,4) unfolding def k_def [symmetric] by simp
    qed
  next
    case 5
    define n where "n = nat (int E - 1023 - 52)"
    have n: "n < 1024" "int E - 1075 = int n" "\<not> int E - 1023 < 52" "\<not> int E - 1023 < 0" using 5 fin by (simp_all add: n_def)
    have v: "f64_abs a = real (unat w * 2 ^ n)"
      using f64_abs_normal [of a] 5 uw n(2) by (simp add: E_def M_def)
    have "f64_abs a \<in> \<int>" unfolding v by (rule Ints_of_nat)
    moreover have "\<lfloor>f64_abs a\<rfloor> = int (unat w) * 2 ^ n" unfolding v floor_of_nat by simp
    ultimately have fl: "f64_abs a \<in> \<int>" "\<lfloor>f64_abs a\<rfloor> = int (unat w) * 2 ^ n" by blast+
    show ?thesis using set_si_delivers [of w n malloc "f64_sign a" m] uw n(1) fl 5 n(3,4) unfolding def n_def [symmetric] by auto
  qed
qed

subsection \<open>Comparison with a double\<close>

definition f64_value :: "u64 \<Rightarrow> real" where
  "f64_value b = (if f64_sign b then - f64_abs b else f64_abs b)"

definition same_binade :: "real \<Rightarrow> real \<Rightarrow> bool" where
  "same_binade x y \<longleftrightarrow> (\<exists>k. 2 powi k \<le> x \<and> x < 2 powi (k + 1) \<and> 2 powi k \<le> y \<and> y < 2 powi (k + 1))"

definition order3 :: "real \<Rightarrow> real \<Rightarrow> int" where
  "order3 x y = (if x < y then - 1 else if y < x then 1 else 0)"

lemma sticky_compare:
  assumes K: "0 < K" and M: "even M"
  shows "sticky_q N K < M \<longleftrightarrow> N < M * K" "M < sticky_q N K \<longleftrightarrow> M * K < N"
proof -
  define q r where "q = N div K" and "r = N mod K"
  have N: "N = q * K + r" "0 \<le> r" "r < K" using K by (simp_all add: q_def r_def)
  have s: "sticky_q N K = q + of_bool (r \<noteq> 0 \<and> even q)" by (simp add: sticky_q_def q_def r_def or_one_int)
  have low: "q < M \<longleftrightarrow> N < M * K"
  proof
    assume "q < M"
    then have "(q + 1) * K \<le> M * K" using K by (intro mult_right_mono) simp_all
    then show "N < M * K" using N by (simp add: distrib_right)
  next
    assume l: "N < M * K"
    show "q < M" unfolding q_def by (rule div_less_mult [OF l K])
  qed
  have par: "even q \<Longrightarrow> q < M \<Longrightarrow> q + 1 < M" using M by (metis add_cancel_right_right even_add less_le odd_one zless_imp_add1_zle)
  show "sticky_q N K < M \<longleftrightarrow> N < M * K" unfolding low [symmetric] s using par by (cases "r \<noteq> 0 \<and> even q") auto
  have high: "M * K < N \<longleftrightarrow> M < q \<or> M = q \<and> r \<noteq> 0"
  proof -
    have "M * K < N \<longleftrightarrow> N \<noteq> M * K \<and> \<not> q < M" using low by linarith
    moreover have "N = M * K \<longleftrightarrow> q = M \<and> r = 0"
    proof
      assume "N = M * K"
      then show "q = M \<and> r = 0" using K by (simp add: q_def r_def)
    qed (use N in simp)
    ultimately show ?thesis by auto
  qed
  show "M < sticky_q N K \<longleftrightarrow> M * K < N" unfolding high s using M par by (cases "r \<noteq> 0 \<and> even q") (auto simp: odd_one)
qed

lemma binade_apart:
  assumes "2 powi f \<le> x" "x < 2 powi (f + 1)" "2 powi e \<le> y" "y < 2 powi (e + 1)"
  shows "f < e \<Longrightarrow> x < y" "e < f \<Longrightarrow> y < x" "same_binade x y \<longleftrightarrow> f = e"
proof -
  have apart: "x < y" if "f < e" "x < 2 powi (f + 1)" "2 powi e \<le> y" for f e and x y :: real
    using that powi2_mono [of "f + 1" e] by linarith
  show "f < e \<Longrightarrow> x < y" "e < f \<Longrightarrow> y < x" using apart assms by blast+
  have uniq: "f = k" if "2 powi f \<le> x" "x < 2 powi (f + 1)" "2 powi k \<le> x" "x < 2 powi (k + 1)" for f k and x :: real
    using apart [of f k x x] apart [of k f x x] that by force
  show "same_binade x y \<longleftrightarrow> f = e"
  proof
    assume "same_binade x y"
    then obtain k where "2 powi k \<le> x" "x < 2 powi (k + 1)" "2 powi k \<le> y" "y < 2 powi (k + 1)" unfolding same_binade_def by blast
    then show "f = e" using uniq [of f x k] uniq [of e y k] assms by simp
  qed (use assms in \<open>auto simp: same_binade_def\<close>)
qed

text \<open>The comparison of the absolute values.\<close>

lemma magnitude_compare:
  assumes "big_ok a" "sval a \<noteq> 0" "f64_finite b" "\<not> f64_zero b"
  obtains m f where "js_bigint_get_mant_exp a = (m, f)"
    "f < int (f64_exp b) - 1023 \<Longrightarrow> real_of_int \<bar>sval a\<bar> < f64_abs b \<and> \<not> same_binade (real_of_int \<bar>sval a\<bar>) (f64_abs b)"
    "f > int (f64_exp b) - 1023 \<Longrightarrow> f64_abs b < real_of_int \<bar>sval a\<bar> \<and> \<not> same_binade (real_of_int \<bar>sval a\<bar>) (f64_abs b)"
    "f = int (f64_exp b) - 1023 \<Longrightarrow> same_binade (real_of_int \<bar>sval a\<bar>) (f64_abs b) \<and>
      (m < push_bit 11 (f64_mant b OR push_bit 52 1) \<longleftrightarrow> real_of_int \<bar>sval a\<bar> < f64_abs b) \<and>
      (push_bit 11 (f64_mant b OR push_bit 52 1) < m \<longleftrightarrow> f64_abs b < real_of_int \<bar>sval a\<bar>)"
proof -
  define x where "x = real_of_int \<bar>sval a\<bar>"
  obtain m f N K where "js_bigint_get_mant_exp a = (m, f)" "uint m = sticky_q N K" "0 < K" "2 ^ 63 * K \<le> N" "N < LB * K" "0 \<le> f"
    "x = real_of_int N / real_of_int K * 2 powi (f - 63)" "2 powi f \<le> x" "x < 2 powi (f + 1)"
    by (rule mant_exp_real [OF assms(1,2), folded x_def])
  note g = this(1-3,6-9)
  show thesis
  proof (cases "f64_exp b = 0")
    case True
    have "(2 :: real) powi (- 1022) \<le> 2 powi 0" by (intro powi2_mono) simp
    then have lt: "f64_abs b < 1" using f64_abs_subnormal(1) [OF True] by simp
    have "(2 :: real) powi 0 \<le> 2 powi f" using g(4) by (intro powi2_mono) simp
    then have x1: "1 \<le> x" using g(6) by simp
    have "\<not> same_binade x (f64_abs b)"
    proof
      assume "same_binade x (f64_abs b)"
      then obtain k where k: "x < 2 powi (k + 1)" "2 powi k \<le> f64_abs b" unfolding same_binade_def by blast
      have "(2 :: real) powi k < 2 powi 0" "(2 :: real) powi 0 < 2 powi (k + 1)" using k lt x1 by simp_all
      then show False unfolding powi2_less_iff by simp
    qed
    then show thesis using that [OF g(1)] True g(4) lt x1 by (simp add: x_def)
  next
    case False
    define e where "e = int (f64_exp b) - 1023"
    have bb: "2 powi e \<le> f64_abs b" "f64_abs b < 2 powi (e + 1)" using f64_abs_binade [OF False] by (simp_all add: e_def)
    note ap = binade_apart [OF g(6,7) bb]
    define M where "M = push_bit 11 (f64_mant b OR push_bit 52 1)"
    define w where "w = int (2 ^ 52 + unat (f64_mant b))"
    have uw: "uint (f64_mant b OR push_bit 52 1) = w"
      unfolding w_def implied_bit [symmetric] by simp
    have "2 ^ 52 + unat (f64_mant b) < 2 ^ 53" using f64_mant_bound [of b] by simp
    then have "int (2 ^ 52 + unat (f64_mant b)) < int (2 ^ 53)" by (simp only: of_nat_less_iff)
    then have wl: "0 \<le> w" "w < 2 ^ 53" unfolding w_def by simp_all
    have M: "uint M = w * 2 ^ 11" unfolding M_def using limb_push(1) [of 11 "f64_mant b OR push_bit 52 1"] uw wl by (simp add: mod_pos_pos_trivial)
    have cmp: "(m < M \<longleftrightarrow> x < f64_abs b) \<and> (M < m \<longleftrightarrow> f64_abs b < x)" if "f = e"
    proof -
      have "f64_abs b = real_of_int w * 2 powi (e - 52)" using f64_abs_normal [OF False] by (simp add: w_def e_def)
      also have "(2 :: real) powi (e - 52) = 2 ^ 11 * 2 powi (f - 63)" using powi2_add [of 11 "f - 63"] that by simp
      finally have bv: "f64_abs b = real_of_int (uint M) * 2 powi (f - 63)" unfolding M by simp
      have p: "0 < (2 :: real) powi (f - 63)" by simp
      have "x < f64_abs b \<longleftrightarrow> real_of_int N / real_of_int K < real_of_int (uint M)" "f64_abs b < x \<longleftrightarrow> real_of_int (uint M) < real_of_int N / real_of_int K"
        unfolding bv g(5) by (rule mult_less_cancel_right_pos [OF p])+
      moreover have "real_of_int N / real_of_int K < real_of_int (uint M) \<longleftrightarrow> real_of_int N < real_of_int (uint M * K)"
        "real_of_int (uint M) < real_of_int N / real_of_int K \<longleftrightarrow> real_of_int (uint M * K) < real_of_int N"
        using g(3) by (simp_all add: field_simps)
      moreover have "even (uint M)" unfolding M by simp
      ultimately show ?thesis using sticky_compare [OF g(3), of "uint M" N] unfolding word_less_def g(2) of_int_less_iff by blast
    qed
    show thesis
    proof (rule that [OF g(1)], unfold x_def [symmetric] e_def [symmetric] M_def [symmetric])
      show "f < e \<Longrightarrow> x < f64_abs b \<and> \<not> same_binade x (f64_abs b)" using ap by simp
      show "e < f \<Longrightarrow> f64_abs b < x \<and> \<not> same_binade x (f64_abs b)" using ap by simp
      show "f = e \<Longrightarrow> same_binade x (f64_abs b) \<and> (m < M \<longleftrightarrow> x < f64_abs b) \<and> (M < m \<longleftrightarrow> f64_abs b < x)" using ap cmp by simp
    qed
  qed
qed

lemma float64_cmp_val:
  assumes "big_ok a" "f64_finite b"
  shows "js_bigint_float64_cmp a b =
    (if sval a < 0 \<and> f64_sign b \<and> \<not> f64_zero b \<and> \<not> same_binade (real_of_int \<bar>sval a\<bar>) (f64_abs b)
     then - order3 (real_of_int (sval a)) (f64_value b) else order3 (real_of_int (sval a)) (f64_value b))"
proof -
  have ne: "a \<noteq> []" using assms(1) by (rule big_ok_Nil)
  have sg: "uint (drop_bit 63 b) = of_bool (f64_sign b)" "uint (js_bigint_sign a) = of_bool (sval a < 0)"
    using sign_val [OF ne] by (simp_all add: f64_sign_def limb_top)
  have ex: "f64_exp b \<noteq> 2047" "f64_zero b \<longleftrightarrow> int (f64_exp b) = 0 \<and> f64_mant b = 0" using assms(2) by (auto simp: f64_finite_def f64_zero_def)
  have pos: "0 \<le> f64_abs b" "0 < f64_abs b \<longleftrightarrow> \<not> f64_zero b"
  proof -
    have "0 \<le> f64_abs b \<and> (0 < f64_abs b \<longleftrightarrow> \<not> f64_zero b)"
    proof (cases "f64_exp b = 0")
      case True
      then show ?thesis using f64_abs_subnormal(2,3) [OF True] by (simp add: f64_zero_def less_le)
    next
      case False
      have "0 < (2 :: real) powi (int (f64_exp b) - 1023)" by simp
      then have "0 < f64_abs b" using f64_abs_binade(1) [OF False] by linarith
      then show ?thesis using False by (simp add: f64_zero_def)
    qed
    then show "0 \<le> f64_abs b" "0 < f64_abs b \<longleftrightarrow> \<not> f64_zero b" by blast+
  qed
  note un = js_bigint_float64_cmp_def Let_def f64_field_terms sg zero_iff [OF assms(1)] ex(2) [symmetric]
  consider "f64_zero b" | "\<not> f64_zero b" "sval a = 0" | "\<not> f64_zero b" "sval a \<noteq> 0" "(sval a < 0) \<noteq> f64_sign b" | "\<not> f64_zero b" "sval a \<noteq> 0" "(sval a < 0) = f64_sign b" by blast
  then show ?thesis
  proof cases
    case 1
    then have "f64_abs b = 0" using pos by auto
    then show ?thesis using 1 ex(1) unfolding un by (auto simp: order3_def f64_value_def)
  next
    case 2
    then show ?thesis using pos ex(1) unfolding un by (auto simp: order3_def f64_value_def)
  next
    case 3
    have "0 < sval a \<longleftrightarrow> \<not> sval a < 0" using 3(2) by linarith
    then show ?thesis using 3 pos ex(1) unfolding un by (auto simp: order3_def f64_value_def)
  next
    case 4
    from magnitude_compare [OF assms(1) 4(2) assms(2) 4(1)] obtain m f where g: "js_bigint_get_mant_exp a = (m, f)"
      "f < int (f64_exp b) - 1023 \<Longrightarrow> real_of_int \<bar>sval a\<bar> < f64_abs b \<and> \<not> same_binade (real_of_int \<bar>sval a\<bar>) (f64_abs b)"
      "f > int (f64_exp b) - 1023 \<Longrightarrow> f64_abs b < real_of_int \<bar>sval a\<bar> \<and> \<not> same_binade (real_of_int \<bar>sval a\<bar>) (f64_abs b)"
      "f = int (f64_exp b) - 1023 \<Longrightarrow> same_binade (real_of_int \<bar>sval a\<bar>) (f64_abs b) \<and>
        (m < push_bit 11 (f64_mant b OR push_bit 52 1) \<longleftrightarrow> real_of_int \<bar>sval a\<bar> < f64_abs b) \<and>
        (push_bit 11 (f64_mant b OR push_bit 52 1) < m \<longleftrightarrow> f64_abs b < real_of_int \<bar>sval a\<bar>)" by blast
    define res where "res = (if f \<noteq> int (f64_exp b) - 1023 then if f < int (f64_exp b) - 1023 then - 1 else 1
        else if m < push_bit 11 (f64_mant b OR push_bit 52 1) then 2 * of_bool (sval a < 0) - 1
        else if push_bit 11 (f64_mant b OR push_bit 52 1) < m then 1 - 2 * of_bool (sval a < 0) else (0 :: int))"
    have "js_bigint_float64_cmp a b = res" using 4 ex(1) unfolding un g(1) prod.case res_def by simp
    moreover have "order3 (real_of_int (sval a)) (f64_value b) =
        (if sval a < 0 then - order3 (real_of_int \<bar>sval a\<bar>) (f64_abs b) else order3 (real_of_int \<bar>sval a\<bar>) (f64_abs b))"
      using 4 by (auto simp: order3_def f64_value_def)
    ultimately show ?thesis using g(2-4) 4
      by (cases f "int (f64_exp b) - 1023" rule: linorder_cases) (auto simp: res_def order3_def)
  qed
qed

subsection \<open>Properties\<close>

text \<open>
  C24. \<^verbatim>\<open>js_bigint_to_float64\<close> returns the double nearest to the number, ties to even, infinity when the rounded
  number is beyond the range, with the sign of the number; zero gives the positive zero.
\<close>

theorem js_bigint_to_float64_nearest:
  assumes "big_ok a"
  shows "if sval a = 0 then js_bigint_to_float64 a = 0
    else \<exists>b. js_bigint_to_float64 a = b OR push_bit 63 (js_bigint_sign a) \<and> reads_as (real_of_int \<bar>sval a\<bar>) b"
proof (cases "length a = 1")
  case True
  then obtain v where a: "a = [v]" by (cases a) auto
  have "double_of_int64 0 = 0" by (simp add: double_of_int64_def mpb_set_u64_def round_to_d_def f64_pack_def Let_def)
  then show ?thesis using double_of_int64_val [of v] a by (cases "v = 0") (simp_all add: js_bigint_to_float64_def signed_eq_0_iff)
next
  case False
  then have "2 \<le> length a" using big_ok_Nil [OF assms] by (cases a; cases "tl a") auto
  then show ?thesis using to_float64_long [OF assms] zero_iff [OF assms] False by simp
qed

theorem js_bigint_to_float64_nearest_witness:
  "\<exists>b. js_bigint_to_float64 [1, 1] = b OR push_bit 63 (js_bigint_sign [1, 1]) \<and> reads_as 18446744073709551617 b"
  using js_bigint_to_float64_nearest [of "[1, 1]"] by (simp add: big_ok_def fits_def sval_Cons LB_def)

text \<open>
  C25. \<^verbatim>\<open>js_bigint_from_float64\<close> converts a double that is an integer to that integer exactly, and reports 1 for a
  double with a fractional part and 2 for infinities and NaN; it never exceeds the size limit.
\<close>

theorem js_bigint_from_float64_exact:
  "if \<not> f64_finite a then js_bigint_from_float64 malloc a m = (2, None)
   else if f64_abs a \<in> \<int> then \<exists>r. js_bigint_from_float64 malloc a m = (0, Some r) \<and> delivers malloc 17 r (if f64_sign a then - \<lfloor>f64_abs a\<rfloor> else \<lfloor>f64_abs a\<rfloor>)
   else js_bigint_from_float64 malloc a m = (1, None)"
proof (cases "f64_finite a")
  case True
  then show ?thesis using from_float64_val [OF True, of malloc m] by simp
next
  case False
  then show ?thesis unfolding js_bigint_from_float64_def Let_def f64_field_terms by (simp add: f64_finite_def)
qed

text \<open>
  C26. \<^verbatim>\<open>js_bigint_float64_cmp\<close> on a finite double: the result is the order of the number and the double, except when
  both are negative and their absolute values lie in different binades, where the order is reversed.
\<close>

theorem js_bigint_float64_cmp_order:
  assumes "big_ok a" "f64_finite b"
  shows "js_bigint_float64_cmp a b =
    (if sval a < 0 \<and> f64_sign b \<and> \<not> f64_zero b \<and> \<not> same_binade (real_of_int \<bar>sval a\<bar>) (f64_abs b)
     then - order3 (real_of_int (sval a)) (f64_value b) else order3 (real_of_int (sval a)) (f64_value b))"
  by (rule float64_cmp_val [OF assms])

theorem js_bigint_float64_cmp_order_witness:
  "js_bigint_float64_cmp [- 1] 0xc004000000000000 = - 1 \<and> f64_value 0xc004000000000000 = - 5 / 2"
proof -
  have f: "f64_exp 0xc004000000000000 = 1024" "f64_mant 0xc004000000000000 = 0x4000000000000" "f64_sign 0xc004000000000000"
    by (simp_all add: f64_exp_def f64_mant_def f64_sign_def)
  then have v: "f64_abs 0xc004000000000000 = 5 / 2" "f64_value 0xc004000000000000 = - 5 / 2" by (simp_all add: f64_abs_def f64_value_def power_int_def power_one_over)
  have "\<not> same_binade 1 (5 / 2)" using binade_apart(3) [of 0 1 1 "5 / 2"] by (simp add: power_int_def)
  then show ?thesis using js_bigint_float64_cmp_order [of "[- 1]" "0xc004000000000000"] f v
    by (simp add: big_ok_single f64_finite_def f64_zero_def order3_def)
qed

end
