(* ===== verification/Bigint_Text.thy ===== *)
theory Bigint_Text
  imports Bigint_Float
begin

text \<open>
  Reading and printing of BigInt numbers in \<^verbatim>\<open>quickjs.c\<close>. A pointer into the text that is read is the rest of the
  text, as in the theory \<open>Atod\<close>; a text written from the end of its buffer is the string of the characters written
  so far. Memory for bytes comes from a second allocator, a parameter that tells whether it succeeds.
\<close>

type_synonym 'm js_bytes = "'m \<Rightarrow> nat \<Rightarrow> 'm \<times> bool"

subsection \<open>Reading\<close>

definition js_pow_dec :: "js_limb list" where
  "js_pow_dec =
     [1, 10, 100, 1000, 10000, 100000, 1000000, 10000000, 100000000, 1000000000,
      10000000000, 100000000000, 1000000000000, 10000000000000, 100000000000000,
      1000000000000000, 10000000000000000, 100000000000000000, 1000000000000000000,
      10000000000000000000]"

abbreviation (input) JS_LIMB_DIGITS :: nat where "JS_LIMB_DIGITS \<equiv> 19"

text \<open>Up to \<open>k\<close> decimal digits: how many there were, the rest of the text, and their value.\<close>

fun digit_group :: "nat \<Rightarrow> string \<Rightarrow> js_limb \<Rightarrow> nat \<times> string \<times> js_limb" where
  "digit_group 0 p v = (0, p, v)"
| "digit_group (Suc k) p v =
     (let c = to_digit (at0 p)
      in if c \<ge> 10 then (0, p, v)
         else let (i, p, v) = digit_group k (drop 1 p) (v * 10 + of_nat c) in (Suc i, p, v))"

lemma digit_group_progress:
  "digit_group k p v = (i, p', v') \<Longrightarrow> length p' + i \<le> length p"
proof (induction k p v arbitrary: i p' v' rule: digit_group.induct)
  case (2 k p v)
  have "p \<noteq> []" if "to_digit (at0 p) < 10" using that by (auto simp: at0_def to_digit_def in_range_def)
  then show ?case using 2 by (cases p) (fastforce simp: Let_def split: if_splits prod.splits)+
qed simp

text \<open>
  The loop over the groups of digits; \<open>len\<close> limbs of \<open>r\<close> are in use. A write behind the end of the array is undefined
  behaviour in C; here it is the error \<open>Out_of_bounds\<close>.
\<close>

function dec_loop :: "js_limb list \<Rightarrow> nat \<Rightarrow> string \<Rightarrow> bigint_error + js_limb list \<times> nat" where
  "dec_loop r len p =
     (let (i, p', v) = digit_group JS_LIMB_DIGITS p 0
      in if i = 0 then Inr (r, len)
         else if len = 1 \<and> r ! 0 = 0 then dec_loop (r[0 := v]) len p'
         else
           let (t, h) = mp_mul1_js (take len r) (js_pow_dec ! i) v;
               r = store_at r 0 t
           in if h \<noteq> 0 then
                if len \<ge> length r then Inl Out_of_bounds else dec_loop (r[len := h]) (len + 1) p'
              else dec_loop r len p')"
  by pat_completeness auto
termination
  by (relation "measure (\<lambda>(r, len, p). length p)") (auto dest!: digit_group_progress [OF sym])

declare dec_loop.simps [simp del]

text \<open>The loop for a power of two: digit \<open>i\<close> from the end of \<open>p\<close>. A character that is no digit stops the program.\<close>

function bin_loop :: "js_limb list \<Rightarrow> string \<Rightarrow> u32 \<Rightarrow> nat \<Rightarrow> nat \<Rightarrow> nat \<Rightarrow> bigint_error + js_limb list" where
  "bin_loop r p radix log2_radix n_digits i =
     (if i < n_digits then
        let c = to_digit (p ! (n_digits - 1 - i))
        in if \<not> c < unat radix then Inl Aborted
           else
             let bit_pos = i * log2_radix;
                 shift = bit_pos mod 64;
                 pos = bit_pos div 64
             in if pos \<ge> length r \<or> shift + log2_radix > 64 \<and> pos + 1 \<ge> length r then Inl Out_of_bounds
                else
                  let r = r[pos := r ! pos OR push_bit shift (of_nat c)];
                      r = (if shift + log2_radix > 64 then r[pos + 1 := r ! (pos + 1) OR drop_bit (64 - shift) (of_nat c)] else r)
                  in bin_loop r p radix log2_radix n_digits (i + 1)
      else Inr r)"
  by pat_completeness auto
termination
  by (relation "measure (\<lambda>(r, p, radix, b, n, i). n - i)") auto

declare bin_loop.simps [simp del]

definition dec_number :: "js_limb list \<Rightarrow> string \<Rightarrow> bigint_error + js_limb list" where
  "dec_number r p =
     (case dec_loop (r[0 := 0]) 1 p of Inl e \<Rightarrow> Inl e
      | Inr (r, len) \<Rightarrow>
          if drop_bit 63 (r ! (len - 1)) \<noteq> 0 then
            if len \<ge> length r then Inl Out_of_bounds else Inr (take (len + 1) (r[len := 0]))
          else Inr (take len r))"

definition text_limbs :: "nat \<Rightarrow> u32 \<Rightarrow> nat" where
  "text_limbs n_digits radix =
     (let log2_radix = 32 - clz32 (radix - 1);
          n_bits = (if radix = 10 then (n_digits * 27 + 7) div 8 else n_digits * log2_radix)
      in max 1 (n_bits div 64 + 1))"

definition js_bigint_from_string :: "'m js_malloc \<Rightarrow> string \<Rightarrow> u32 \<Rightarrow> 'm \<Rightarrow> ('m, js_limb list) outcome" where
  "js_bigint_from_string malloc str radix m =
     (let p = c_str str;
          is_neg = (at0 p = CHR ''-'');
          p = dropWhile (\<lambda>c. c = CHR ''0'') (if is_neg then drop 1 p else p);
          n_digits = length p
      in if n_digits > JS_BIGINT_MAX_SIZE * 64 then (m, Inl Too_large_to_allocate)
         else and_then (js_bigint_new malloc (text_limbs n_digits radix) m) (\<lambda>r m.
           case (if radix = 10 then dec_number r p
                 else bin_loop (replicate (length r) 0) p radix (32 - clz32 (radix - 1)) n_digits 0)
           of Inl e \<Rightarrow> (m, Inl e)
           | Inr r \<Rightarrow> and_then (js_bigint_normalize malloc r m) (\<lambda>r m. if is_neg then js_bigint_neg malloc r m else (m, Inr r))))"

subsection \<open>Printing\<close>

definition digits_table :: "string" where
  "digits_table = ''0123456789abcdefghijklmnopqrstuvwxyz''"

text \<open>The loop is entered for bases from 2 on only; the test of the base makes it total.\<close>

function js_u64toa :: "string \<Rightarrow> u64 \<Rightarrow> u32 \<Rightarrow> string" where
  "js_u64toa q n base =
     (let digit = unat (n mod ucast base);
          n' = n div ucast base;
          q = (if base = 10 then char_of (48 + digit) else digits_table ! digit) # q
      in if n' \<noteq> 0 \<and> base \<ge> 2 then js_u64toa q n' base else q)"
  by pat_completeness auto
termination
  by (relation "measure (\<lambda>(q, n, base). unat n)")
    (auto intro!: div_word_less simp: word_less_nat_alt word_le_nat_alt)

declare js_u64toa.simps [simp del]

fun limb_to_a_js :: "string \<Rightarrow> js_limb \<Rightarrow> u32 \<Rightarrow> nat \<Rightarrow> string" where
  "limb_to_a_js q n radix 0 = q"
| "limb_to_a_js q n radix (Suc k) =
     (let digit = unat (n mod ucast radix)
      in limb_to_a_js ((if radix = 10 then char_of (digit + 48) else digits_table ! digit) # q) (n div ucast radix) radix k)"

definition digits_per_limb_table_js :: "nat list" where
  "digits_per_limb_table_js =
     [64, 40, 32, 27, 24, 22, 21, 20, 19, 18, 17, 17, 16, 16, 16, 15, 15, 15, 14, 14, 14, 14, 13, 13, 13, 13, 13, 13, 13, 12, 12, 12, 12, 12, 12]"

definition radix_base_table_js :: "js_limb list" where
  "radix_base_table_js =
     [0x0000000000000000, 0xa8b8b452291fe821, 0x0000000000000000, 0x6765c793fa10079d,
      0x41c21cb8e1000000, 0x3642798750226111, 0x8000000000000000, 0xa8b8b452291fe821,
      0x8ac7230489e80000, 0x4d28cb56c33fa539, 0x1eca170c00000000, 0x780c7372621bd74d,
      0x1e39a5057d810000, 0x5b27ac993df97701, 0x0000000000000000, 0x27b95e997e21d9f1,
      0x5da0e1e53c5c8000, 0xd2ae3299c1c4aedb, 0x16bcc41e90000000, 0x2d04b7fdd9c0ef49,
      0x5658597bcaa24000, 0xa0e2073737609371, 0x0c29e98000000000, 0x14adf4b7320334b9,
      0x226ed36478bfa000, 0x383d9170b85ff80b, 0x5a3c23e39c000000, 0x8e65137388122bcd,
      0xdd41bb36d259e000, 0x0aee5720ee830681, 0x1000000000000000, 0x172588ad4f5f0981,
      0x211e44f7d02c1000, 0x2ee56725f06e5c71, 0x41c21cb8e1000000]"

definition js_limb_safe_clz :: "js_limb \<Rightarrow> nat" where
  "js_limb_safe_clz a = (if a = 0 then 64 else clz64 a)"

text \<open>The division by a power of the radix, until one limb below it is left; \<open>None\<close> when the loop does not end.\<close>

partial_function (option) text_loop :: "js_limb list \<Rightarrow> nat \<Rightarrow> u32 \<Rightarrow> string \<Rightarrow> string option" where
  "text_loop r len radix q =
     (let radix_base = radix_base_table_js ! (unat radix - 2);
          len = top_len r len
      in if len = 1 \<and> r ! 0 < radix_base then Some (if r ! 0 \<noteq> 0 then js_u64toa q (r ! 0) radix else q)
         else
           let (t, v) = mp_div1_js (take len r) radix_base 0
           in text_loop (store_at r 0 t) len radix (limb_to_a_js q v radix (digits_per_limb_table_js ! (unat radix - 2))))"

text \<open>One digit of the binary radixes, and the loop over \<open>k\<close> digits from digit \<open>i\<close> on.\<close>

definition bin_digit :: "js_limb list \<Rightarrow> nat \<Rightarrow> u32 \<Rightarrow> nat \<Rightarrow> u32" where
  "bin_digit r log2_radix radix i =
     (let bit_pos = i * log2_radix;
          pos = bit_pos div 64;
          shift = bit_pos mod 64;
          c = ucast (drop_bit shift (r ! pos)) :: u32;
          c = (if shift + log2_radix > 64 \<and> pos + 1 < length r then c OR ucast (push_bit (64 - shift) (r ! (pos + 1))) else c)
      in c AND (radix - 1))"

fun bin_text :: "js_limb list \<Rightarrow> nat \<Rightarrow> u32 \<Rightarrow> nat \<Rightarrow> nat \<Rightarrow> string \<Rightarrow> string" where
  "bin_text r log2_radix radix i 0 q = q"
| "bin_text r log2_radix radix i (Suc k) q =
     bin_text r log2_radix radix (i + 1) k (digits_table ! unat (bin_digit r log2_radix radix i) # q)"

definition text_digits :: "js_limb list \<Rightarrow> u32 \<Rightarrow> nat" where
  "text_digits r radix =
     (let log2_radix = 31 - clz32 radix;
          n_bits = length r * 64 - js_limb_safe_clz (r ! (length r - 1))
      in (n_bits + log2_radix - 1) div log2_radix)"

definition bytes :: "'m js_bytes \<Rightarrow> nat \<Rightarrow> 'm \<Rightarrow> ('m, unit) outcome" where
  "bytes new_bytes n m = (case new_bytes m n of (m, b) \<Rightarrow> (m, if b then Inr () else Inl Out_of_memory))"

text \<open>A string of 8-bit characters: a header of 12 bytes, the characters and a zero.\<close>

definition js_new_string8_len :: "'m js_bytes \<Rightarrow> string \<Rightarrow> 'm \<Rightarrow> ('m, string) outcome" where
  "js_new_string8_len new_bytes buf m =
     (if length buf \<le> 0 then (m, Inr []) else and_then (bytes new_bytes (12 + length buf + 1) m) (\<lambda>_ m. (m, Inr buf)))"

datatype big_value = Short_big_int js_limb | Big_int "js_limb list"

definition js_bigint_to_string1 :: "'m js_malloc \<Rightarrow> 'm js_bytes \<Rightarrow> big_value \<Rightarrow> u32 \<Rightarrow> 'm \<Rightarrow> ('m, string) outcome" where
  "js_bigint_to_string1 malloc new_bytes val radix m =
     (case val of
        Short_big_int v \<Rightarrow> js_new_string8_len new_bytes (i64toa_radix v radix) m
      | Big_int r \<Rightarrow>
          if length r = 1 \<and> r ! 0 = 0 then js_new_string8_len new_bytes ''0'' m
          else
            let is_binary_radix = (radix AND (radix - 1) = 0);
                is_neg = (js_bigint_sign r \<noteq> 0)
            in and_then
                 (if is_neg then js_bigint_neg malloc r m
                  else if \<not> is_binary_radix then and_then (js_bigint_new malloc (length r) m) (\<lambda>tmp m. (m, Inr (store_at tmp 0 r)))
                  else (m, Inr r)) (\<lambda>r m.
               let n_digits = text_digits r radix
               in and_then (bytes new_bytes (n_digits + (if is_neg then 1 else 0) + 1) m) (\<lambda>_ m.
                    case (if \<not> is_binary_radix then text_loop r (length r) radix []
                          else Some (bin_text r (31 - clz32 radix) radix 0 n_digits []))
                    of None \<Rightarrow> (m, Inl No_end)
                    | Some q \<Rightarrow> if length q > n_digits then (m, Inl Out_of_bounds)
                        else js_new_string8_len new_bytes (if is_neg then CHR ''-'' # q else q) m)))"

definition JS_CompactBigInt :: "js_limb list \<Rightarrow> big_value" where
  "JS_CompactBigInt p = (if length p = 1 then Short_big_int (p ! 0) else Big_int p)"

subsection \<open>The writers on values\<close>

lemma digits_table_nth: "d < 36 \<Longrightarrow> digits_table ! d = digit_char d"
proof -
  have "list_all (\<lambda>d. digits_table ! d = digit_char d) [0..<36]" by code_simp
  then show "d < 36 \<Longrightarrow> digits_table ! d = digit_char d" unfolding list_all_iff by simp
qed

lemma radix_digit:
  assumes "2 \<le> radix" "radix \<le> 36"
  shows "(if radix = 10 then char_of (unat (n mod ucast radix) + 48) else digits_table ! unat (n mod ucast radix :: u64)) =
    digit_char (unat n mod unat (radix :: u32))"
proof -
  have r: "2 \<le> unat radix" "unat radix \<le> 36" using assms by (simp_all add: word_le_nat_alt)
  have m: "unat (n mod ucast radix) = unat n mod unat radix" by (simp add: unat_mod_distrib unat_ucast_dlimb)
  have "unat n mod unat radix < unat radix" using r by simp
  then have "unat n mod unat radix < 36" using r by linarith
  moreover have "radix = 10 \<Longrightarrow> unat n mod unat radix < 10" by simp
  ultimately show ?thesis unfolding m by (auto simp: digit48 digits_table_nth)
qed

lemma limb_to_a_js_val:
  assumes "2 \<le> radix" "radix \<le> 36"
  shows "limb_to_a_js q n radix k = fixed_digits (unat radix) k (unat n) @ q"
proof (induction k arbitrary: q n)
  case (Suc k)
  show ?case using Suc radix_digit [OF assms, of n] by (simp add: Let_def unat_div_distrib unat_ucast_dlimb)
qed simp

lemma js_u64toa_val:
  assumes "2 \<le> radix" "radix \<le> 36"
  shows "js_u64toa q n radix = radix_digits (unat radix) (unat n) @ q"
  using assms
proof (induction q n radix rule: js_u64toa.induct)
  case (1 q n radix)
  have r: "2 \<le> unat radix" using 1(2) by (simp add: word_le_nat_alt)
  have c: "(if radix = 10 then char_of (48 + unat (n mod ucast radix)) else digits_table ! unat (n mod ucast radix)) = digit_char (unat n mod unat radix)"
    unfolding add.commute [of 48] by (rule radix_digit [OF 1(2,3)])
  have z: "n div ucast radix = 0 \<longleftrightarrow> unat n < unat radix"
    using r word_div_eq_0 [of n "ucast radix"] unat_ucast_dlimb [of radix] by (metis not_numeral_le_zero unat_0)
  show ?case
  proof (cases "n div ucast radix = 0")
    case True
    with z have "unat n < unat radix" by simp
    then show ?thesis using True r by (subst js_u64toa.simps) (simp add: Let_def c radix_digits_step)
  next
    case False
    with z have "\<not> unat n < unat radix" by simp
    then have "radix_digits (unat radix) (unat n) = radix_digits (unat radix) (unat n div unat radix) @ [digit_char (unat n mod unat radix)]"
      using r by (simp add: radix_digits_step [of "unat radix" "unat n"])
    moreover have "js_u64toa (digit_char (unat n mod unat radix) # q) (n div ucast radix) radix =
        radix_digits (unat radix) (unat n div unat radix) @ digit_char (unat n mod unat radix) # q"
      using 1(1) [OF refl refl refl, unfolded c] 1(2,3) False by (simp add: unat_div_distrib unat_ucast_dlimb)
    ultimately show ?thesis using 1(2) False by (subst js_u64toa.simps) (simp add: Let_def c)
  qed
qed

lemma radix_base_js:
  assumes "2 \<le> radix" "radix \<le> 36" "radix AND (radix - 1) \<noteq> (0 :: u32)"
  shows "unat (radix_base_table_js ! (unat radix - 2)) = unat radix ^ (digits_per_limb_table_js ! (unat radix - 2))"
    and "2 \<le> unat (radix_base_table_js ! (unat radix - 2))"
proof -
  have t: "list_all (\<lambda>k. (of_nat k :: u32) AND (of_nat k - 1) \<noteq> 0 \<longrightarrow>
      unat (radix_base_table_js ! (k - 2)) = k ^ (digits_per_limb_table_js ! (k - 2)) \<and> 2 \<le> unat (radix_base_table_js ! (k - 2))) [2..<37]"
    by (simp add: upt_rec radix_base_table_js_def digits_per_limb_table_js_def)
  have "unat radix \<in> {2..<37}" using assms(1,2) by (simp add: word_le_nat_alt)
  from bspec [OF t [unfolded list_all_iff set_upt] this]
  show "unat (radix_base_table_js ! (unat radix - 2)) = unat radix ^ (digits_per_limb_table_js ! (unat radix - 2))"
    "2 \<le> unat (radix_base_table_js ! (unat radix - 2))" using assms(3) by simp_all
qed

lemma lval_top:
  assumes "xs \<noteq> []" "last xs \<noteq> 0"
  shows "LB ^ (length xs - 1) \<le> lval xs"
proof -
  have x: "lval xs = lval (butlast xs) + LB ^ (length xs - 1) * uint (last xs)"
    by (subst append_butlast_last_id [OF assms(1), symmetric], subst lval_snoc) simp
  have "uint (last xs) \<noteq> 0" using assms(2) by (simp add: word_uint_eq_iff)
  then have "1 \<le> uint (last xs)" using limb_range(1) [of "last xs"] by linarith
  then have "LB ^ (length xs - 1) * 1 \<le> LB ^ (length xs - 1) * uint (last xs)" by (intro mult_left_mono) simp_all
  then show ?thesis unfolding x using lval_range(1) [of "butlast xs"] by linarith
qed

lemma text_loop_val:
  assumes radix: "2 \<le> radix" "radix \<le> 36" "radix AND (radix - 1) \<noteq> 0"
  shows "1 \<le> len \<Longrightarrow> len \<le> length r \<Longrightarrow> lval (take len r) = int N \<Longrightarrow>
    text_loop r len radix q = Some ((if N = 0 then [] else radix_digits (unat radix) N) @ q)"
proof (induction N arbitrary: r len q rule: less_induct)
  case (less N)
  define base k where "base = radix_base_table_js ! (unat radix - 2)" and "k = digits_per_limb_table_js ! (unat radix - 2)"
  note b = radix_base_js [OF radix, folded base_def k_def]
  have r2: "2 \<le> unat radix" using radix(1) by (simp add: word_le_nat_alt)
  define l where "l = top_len r len"
  have l: "1 \<le> l" "l \<le> length r" "lval (take l r) = int N" "l = 1 \<or> r ! (l - 1) \<noteq> 0"
    using top_len_val [OF less(2,3)] less(3,4) by (auto simp: l_def)
  note loop = text_loop.simps [of r len radix q, folded base_def k_def l_def, unfolded Let_def]
  show ?case
  proof (cases "l = 1 \<and> r ! 0 < base")
    case True
    then have "take l r = [r ! 0]" using l(2) by (cases r) auto
    then have "int N = int (unat (r ! 0))" using l(3) by simp
    then have n: "N = unat (r ! 0)" by (simp only: of_nat_eq_iff)
    then have "r ! 0 = 0 \<longleftrightarrow> N = 0" by (simp add: unat_eq_0)
    then show ?thesis using True n unfolding loop by (simp add: js_u64toa_val [OF radix(1,2)])
  next
    case False
    have big: "unat base \<le> N"
    proof (cases "l = 1")
      case True
      then have "take l r = [r ! 0]" using l(2) by (cases r) auto
      then have "int N = int (unat (r ! 0))" using l(3) by simp
      then have "N = unat (r ! 0)" by (simp only: of_nat_eq_iff)
      then show ?thesis using False True by (simp add: word_less_nat_alt not_less)
    next
      case F: False
      have "last (take l r) = r ! (l - 1)" using l(1,2) by (subst last_conv_nth) auto
      moreover have "take l r \<noteq> []" "length (take l r) = l" using l(1,2) by auto
      ultimately have "LB ^ (l - 1) \<le> int N" using lval_top [of "take l r"] l(3,4) F by simp
      moreover have "LB ^ 1 \<le> LB ^ (l - 1)" using l(1) F by (intro power_increasing) (simp_all add: LB_def)
      ultimately have "int (unat base) \<le> int N" using limb_range(2) [of base] by simp
      then show ?thesis by (simp only: of_nat_le_iff)
    qed
    obtain t v where tv: "mp_div1_js (take l r) base 0 = (t, v)" by fastforce
    have "base \<noteq> 0" using b(2) by auto
    then have "0 < base" by (simp add: word_neq_0_conv)
    then have "uint (0 :: js_limb) < uint base" by (simp only: word_less_def)
    from mp_div1_js_val [OF tv this]
    have t: "length t = l" "uint v < uint base" "int N = lval t * uint base + uint v" using l(2,3) by auto
    have "int N mod uint base = uint v" "int N div uint base = lval t"
      using t(2,3) limb_range(1) [of v] by (auto intro!: int_mod_pos_eq int_div_pos_eq simp: mult.commute)
    then have vi: "int (unat v) = int (N mod unat base)" and lt: "lval t = int (N div unat base)"
      by (simp_all add: zdiv_int zmod_int)
    from vi have v: "unat v = N mod unat base" by (simp only: of_nat_eq_iff)
    have pos: "0 < N div unat base" using big b(2) by (simp add: div_greater_zero_iff)
    have "N div unat base < N" using big b(2) by (intro div_less_dividend) simp_all
    moreover have "take l (store_at r 0 t) = t" "length (store_at r 0 t) = length r" using t(1) l(2) by (simp_all add: store_at_def)
    ultimately have ih: "text_loop (store_at r 0 t) l radix q' = Some (radix_digits (unat radix) (N div unat base) @ q')" for q'
      using less(1) [of "N div unat base" l "store_at r 0 t" q'] l lt pos by simp
    have "N mod unat base < unat base" using b(2) by (intro mod_less_divisor) simp
    then have md: "N mod unat base < unat radix ^ k" by (simp only: b(1))
    have "radix_digits (unat radix) (N div unat base * unat radix ^ k + N mod unat base) =
        radix_digits (unat radix) (N div unat base) @ fixed_digits (unat radix) k (N mod unat base)"
      using md by (rule radix_digits_split [OF r2 pos])
    then have "radix_digits (unat radix) N = radix_digits (unat radix) (N div unat base) @ fixed_digits (unat radix) k (unat v)"
      unfolding v b(1) [symmetric] by simp
    then show ?thesis using tv ih big b(2) unfolding loop if_not_P [OF False] by (simp add: limb_to_a_js_val [OF radix(1,2)])
  qed
qed

text \<open>Bit \<open>n\<close> of a number is in limb \<open>n div 64\<close>.\<close>

lemma bit_lval: "bit (lval r) n \<longleftrightarrow> n div 64 < length r \<and> bit (r ! (n div 64)) (n mod 64)"
proof (induction r arbitrary: n)
  case (Cons x r)
  have "lval (x # r) = concat_bit 64 (uint x) (lval r)"
    using limb_range [of x] by (simp add: concat_bit_eq take_bit_int_eq_self push_bit_eq_mult LB_def)
  then have b: "bit (lval (x # r)) n \<longleftrightarrow> (if n < 64 then bit x n else bit (lval r) (n - 64))"
    by (simp add: bit_concat_bit_iff bit_uint_iff)
  show ?case
  proof (cases "n < 64")
    case False
    then have "n div 64 = Suc ((n - 64) div 64)" "n mod 64 = (n - 64) mod 64" by (simp_all add: div_if mod_if)
    then show ?thesis unfolding b using False Cons [of "n - 64"] by simp
  next
    case True
    then show ?thesis unfolding b by simp
  qed
qed simp

lemma bin_digit_bit:
  assumes "b \<le> 5" "radix - 1 = (mask b :: u32)" "i * b div 64 < length r" "j < b"
  shows "bit (bin_digit r b radix i) j \<longleftrightarrow> bit (lval r) (i * b + j)"
proof -
  define pos sh where "pos = i * b div 64" and "sh = i * b mod 64"
  have e: "i * b + j = 64 * pos + (sh + j)" by (simp add: pos_def sh_def)
  have sh: "sh < 64" "j < 5" using assms by (simp_all add: sh_def)
  show ?thesis
  proof (cases "sh + j < 64")
    case True
    then have "(i * b + j) div 64 = pos" "(i * b + j) mod 64 = sh + j" unfolding e by simp_all
    moreover have "\<not> 64 - sh \<le> j" using True sh by simp
    ultimately show ?thesis using True assms sh
      by (auto simp: bin_digit_def Let_def bit_lval pos_def [symmetric] sh_def [symmetric] bit_and_iff bit_or_iff bit_mask_iff
          bit_unsigned_iff bit_drop_bit_eq bit_push_bit_iff)
  next
    case False
    then have "(i * b + j) = 64 * (pos + 1) + (sh + j - 64)" "sh + j - 64 < 64" unfolding e using sh by simp_all
    then have "(i * b + j) div 64 = pos + 1" "(i * b + j) mod 64 = sh + j - 64" by (simp_all only: div_mult_self4 mod_mult_self4, simp_all)
    moreover have "64 - sh \<le> j" "j - (64 - sh) = sh + j - 64" "sh + b > 64" using False sh assms(4) by simp_all
    moreover have "\<not> bit (r ! pos) (sh + j)" using False by (auto dest!: bit_imp_le_length)
    ultimately show ?thesis using assms sh
      by (auto simp: bin_digit_def Let_def bit_lval pos_def [symmetric] sh_def [symmetric] bit_and_iff bit_or_iff bit_mask_iff
          bit_unsigned_iff bit_drop_bit_eq bit_push_bit_iff)
  qed
qed

lemma bin_digit_val:
  assumes "b \<le> 5" "radix - 1 = (mask b :: u32)" "i * b div 64 < length r"
  shows "uint (bin_digit r b radix i) = lval r div 2 ^ (i * b) mod 2 ^ b"
proof -
  have "uint (bin_digit r b radix i) = take_bit b (drop_bit (i * b) (lval r))"
  proof (rule bit_eqI)
    fix j
    have "j < b" if "bit (bin_digit r b radix i) j"
      using that assms(2) by (auto simp: bin_digit_def Let_def bit_and_iff bit_mask_iff)
    then show "bit (uint (bin_digit r b radix i)) j \<longleftrightarrow> bit (take_bit b (drop_bit (i * b) (lval r))) j"
      using bin_digit_bit [OF assms, of j] assms(1) by (auto simp: bit_uint_iff bit_take_bit_iff bit_drop_bit_eq)
  qed
  then show ?thesis by (simp add: take_bit_eq_mod drop_bit_eq_div)
qed

lemma bin_text_val:
  assumes "b \<le> 5" "radix - 1 = (mask b :: u32)" "lval r = int N"
  shows "k = 0 \<or> (i + k - 1) * b < 64 * length r \<Longrightarrow> bin_text r b radix i k q = fixed_digits (2 ^ b) k (N div 2 ^ (i * b)) @ q"
proof (induction k arbitrary: i q)
  case (Suc k)
  have "i * b \<le> (i + k) * b" by simp
  also have "\<dots> < length r * 64" using Suc(2) by (simp add: mult.commute)
  finally have p: "i * b div 64 < length r" by (rule less_mult_imp_div_less)
  have "int (unat (bin_digit r b radix i)) = int (N div 2 ^ (i * b) mod 2 ^ b)"
    using bin_digit_val [OF assms(1,2) p] assms(3) by (simp add: zdiv_int zmod_int)
  then have d: "unat (bin_digit r b radix i) = N div 2 ^ (i * b) mod 2 ^ b" by (simp only: of_nat_eq_iff)
  have "N div 2 ^ (i * b) mod 2 ^ b < 2 ^ b" by simp
  also have "(2 :: nat) ^ b \<le> 2 ^ 5" using assms(1) by (intro power_increasing) simp_all
  finally have "N div 2 ^ (i * b) mod 2 ^ b < 36" by (rule less_trans) simp
  moreover have "N div 2 ^ (i * b) div 2 ^ b = N div 2 ^ (Suc i * b)" by (simp add: power_add mult.commute flip: div_mult2_eq)
  moreover have "k = 0 \<or> (Suc i + k - 1) * b < 64 * length r" using Suc(2) by simp
  ultimately show ?case using Suc(1) [of "Suc i"] by (simp add: d digits_table_nth)
qed simp

text \<open>The number of bits of a positive number in normal form.\<close>

lemma text_bits:
  assumes "big_ok r" "0 < sval r" "n = length r * 64 - js_limb_safe_clz (r ! (length r - 1))"
  shows "1 \<le> n \<and> n \<le> 64 * length r \<and> 2 ^ (n - 1) \<le> lval r \<and> lval r < 2 ^ n"
proof -
  have ne: "r \<noteq> []" using assms(1) by (rule big_ok_Nil)
  define P x where "P = LB ^ (length r - 1)" and "x = last r"
  have P: "P = 2 ^ (64 * (length r - 1))" "0 < P" unfolding P_def LB_def by (simp_all add: power_mult)
  have v: "lval r = lval (butlast r) + P * uint x" unfolding P_def x_def
    by (subst append_butlast_last_id [OF ne, symmetric], subst lval_snoc) simp
  have low: "0 \<le> lval (butlast r)" "lval (butlast r) < P" unfolding P_def using lval_range [of "butlast r"] by simp_all
  have n: "n = length r * 64 - js_limb_safe_clz x" using assms(3) ne by (simp add: x_def last_conv_nth)
  have s: "sval r = lval r" using sval_lval [of r] assms(2) by simp
  have len: "64 * length r = 64 * (length r - 1) + 64" "1 \<le> length r" using ne by (cases r; simp)+
  show ?thesis
  proof (cases "x = 0")
    case True
    have "length r \<noteq> 1"
    proof
      assume "length r = 1"
      then have "butlast r = []" by (cases r) auto
      then show False using v s assms(2) True by simp
    qed
    moreover from this have "\<not> fits (length r - 1) (lval r)" using assms(1) s by (simp add: big_ok_def)
    ultimately have "P \<le> 2 * lval r" "2 \<le> length r" using assms(2) s len(2) P(2) unfolding fits_def P_def [symmetric] by linarith+
    moreover have e: "n = 64 * (length r - 1)" using True n by (simp add: js_limb_safe_clz_def algebra_simps)
    moreover have "0 < n" using e \<open>2 \<le> length r\<close> by simp
    then have "P = 2 * 2 ^ (n - 1)" unfolding P e [symmetric] by (cases n) simp_all
    moreover have "lval r < P" using v low True by simp
    ultimately show ?thesis using P(1) by (simp add: Suc_le_eq)
  next
    case False
    define c where "c = clz64 x"
    have c: "c \<le> 63" "2 ^ 63 \<le> uint x * 2 ^ c" "(uint x + 1) * 2 ^ c \<le> LB" using clz64_normal [OF False] by (simp_all add: c_def)
    have e: "n = 64 * (length r - 1) + (64 - c)" using False n c(1) len by (simp add: js_limb_safe_clz_def c_def)
    have up: "lval r < P * (uint x + 1)" using v low by (simp add: algebra_simps)
    have "lval r * 2 ^ c < P * (uint x + 1) * 2 ^ c" using up by simp
    also have "\<dots> = P * ((uint x + 1) * 2 ^ c)" by simp
    also have "\<dots> \<le> P * LB" using c(3) P(2) by (intro mult_left_mono) simp_all
    also have "\<dots> = 2 ^ (64 * (length r - 1) + 64)" unfolding P LB_def by (simp only: power_add)
    also have "64 * (length r - 1) + 64 = n + c" using e c(1) by simp
    finally have u: "lval r < 2 ^ n" by (simp add: power_add)
    have "n - 1 + c = 64 * (length r - 1) + 63" using e c(1) by simp
    then have "2 ^ (n - 1 + c) = P * 2 ^ 63" unfolding P by (simp only: power_add)
    also have "\<dots> \<le> P * (uint x * 2 ^ c)" using c(2) P(2) by (intro mult_left_mono) simp_all
    also have "\<dots> = (P * uint x) * 2 ^ c" by simp
    also have "\<dots> \<le> lval r * 2 ^ c" using v low by (intro mult_right_mono) simp_all
    finally have "2 ^ (n - 1) \<le> lval r" by (simp add: power_add)
    then show ?thesis using u e c(1) len by simp
  qed
qed

lemma ceil_div:
  assumes "1 \<le> b" "1 \<le> (n :: nat)" "d = (n + b - 1) div b"
  shows "1 \<le> d" "n \<le> b * d" "b * (d - 1) < n"
proof -
  have "n + b - 1 = (n - 1) + b" using assms(2) by simp
  moreover have "b \<noteq> 0" using assms(1) by simp
  ultimately have d: "d = Suc ((n - 1) div b)" unfolding assms(3) by (simp only: div_add_self2 not_False_eq_True Suc_eq_plus1)
  show "1 \<le> d" using d by simp
  have "n - 1 < b * Suc ((n - 1) div b)" using dividend_less_times_div [of b "n - 1"] assms(1) by simp
  then show "n \<le> b * d" unfolding d by linarith
  have "b * ((n - 1) div b) \<le> n - 1" by (rule times_div_less_eq_dividend)
  then have "b * ((n - 1) div b) < n" using assms(2) by linarith
  then show "b * (d - 1) < n" unfolding d by simp
qed

lemma floor_log2_radix:
  assumes "2 \<le> radix" "radix \<le> (36 :: u32)"
  shows "1 \<le> 31 - clz32 radix" "2 ^ (31 - clz32 radix) \<le> unat radix"
proof -
  have r: "2 \<le> unat radix" "unat radix \<le> 36" using assms by (simp_all add: word_le_nat_alt)
  define k where "k = bit_len (unat radix)"
  have k: "2 ^ (k - 1) \<le> unat radix" "unat radix < 2 ^ k" "0 < k" using bit_len_bounds [of "unat radix"] r by (auto simp: k_def)
  have "k \<le> 6" unfolding k_def using r(2) by (intro bit_len_le) simp
  then have c: "31 - clz32 radix = k - 1" by (simp add: clz32_def k_def)
  have "\<not> k \<le> 1"
  proof
    assume "k \<le> 1"
    then have "(2 :: nat) ^ k \<le> 2 ^ 1" by (intro power_increasing) simp_all
    then show False using k(2) r(1) by simp
  qed
  then show "1 \<le> 31 - clz32 radix" "2 ^ (31 - clz32 radix) \<le> unat radix" using c k(1) by simp_all
qed

text \<open>The text of a positive number, which fits in its buffer.\<close>

lemma limbs_text:
  assumes r: "big_ok r" "sval r = int N" "0 < N" and radix: "2 \<le> radix" "radix \<le> 36"
  shows "(if radix AND (radix - 1) \<noteq> 0 then text_loop r (length r) radix []
      else Some (bin_text r (31 - clz32 radix) radix 0 (text_digits r radix) [])) = Some (radix_digits (unat radix) N)"
    and "length (radix_digits (unat radix) N) \<le> text_digits r radix"
proof -
  define n b d where "n = length r * 64 - js_limb_safe_clz (r ! (length r - 1))" and "b = 31 - clz32 radix" and "d = text_digits r radix"
  have v: "lval r = int N" using sval_lval [of r] r(2) by simp
  have "0 < sval r" using r(2,3) by simp
  note tb = text_bits [OF r(1) this n_def, unfolded v]
  then have "int (2 ^ (n - 1)) \<le> int N" "int N < int (2 ^ n)" by simp_all
  then have n: "1 \<le> n" "n \<le> 64 * length r" "2 ^ (n - 1) \<le> N" "N < 2 ^ n"
    using tb by (simp_all only: of_nat_le_iff of_nat_less_iff)
  have b: "1 \<le> b" "2 ^ b \<le> unat radix" unfolding b_def by (rule floor_log2_radix [OF radix])+
  have r2: "2 \<le> unat radix" using radix by (simp add: word_le_nat_alt)
  have "d = (n + b - 1) div b" by (simp add: d_def text_digits_def Let_def n_def b_def)
  note d = ceil_div [OF b(1) n(1) this]
  obtain k where k: "d = Suc k" using d(1) by (cases d) auto
  have "N < 2 ^ n" by (rule n(4))
  also have "(2 :: nat) ^ n \<le> 2 ^ (b * d)" using d(2) by (intro power_increasing) simp_all
  finally have up: "N < (2 ^ b) ^ Suc k" by (simp only: power_mult k)
  also have "\<dots> \<le> unat radix ^ Suc k" using b(2) by (intro power_mono) simp_all
  finally show "length (radix_digits (unat radix) N) \<le> text_digits r radix" using length_radix_digits [OF r2] k by (simp add: d_def)
  show "(if radix AND (radix - 1) \<noteq> 0 then text_loop r (length r) radix []
      else Some (bin_text r (31 - clz32 radix) radix 0 (text_digits r radix) [])) = Some (radix_digits (unat radix) N)"
  proof (cases "radix AND (radix - 1) = 0")
    case True
    have p: "unat radix = 2 ^ b" "b \<le> 5" using pow2_radix [OF radix True] by (simp_all add: b_def)
    have "radix = of_nat (unat radix)" by simp
    also have "\<dots> = 2 ^ b" unfolding p(1) by simp
    finally have "radix = 2 ^ b" .
    then have m: "radix - 1 = mask b" by (simp add: mask_eq_exp_minus_1)
    have "(0 + d - 1) * b < 64 * length r" using d(3) n(2) by (simp add: mult.commute)
    then have "bin_text r b radix 0 d [] = fixed_digits (2 ^ b) d N" using bin_text_val [OF p(2) m v, of d 0] by simp
    also have "(2 :: nat) ^ (b * k) \<le> 2 ^ (n - 1)" using d(3) k by (intro power_increasing) simp_all
    then have "(2 ^ b) ^ k \<le> N" using n(3) unfolding power_mult by linarith
    then have "fixed_digits (2 ^ b) d N = radix_digits (2 ^ b) N" unfolding k using up r2 p by (intro radix_digits_fixed) simp_all
    finally show ?thesis using True p by (simp add: b_def d_def)
  next
    case False
    then show ?thesis using text_loop_val [OF radix False, of "length r" r N "[]"] r(3) v big_ok_Nil [OF r(1)] by (simp add: Suc_le_eq)
  qed
qed

subsection \<open>Reading on values\<close>

text \<open>The number that a text of digits denotes.\<close>

abbreviation digits_value :: "nat \<Rightarrow> string \<Rightarrow> nat" where
  "digits_value R s \<equiv> horner R (map to_digit s)"

lemma digits_value_less: "digit_text R s \<Longrightarrow> digits_value R s < R ^ length s"
proof (induction s)
  case (Cons c s)
  then have "(to_digit c + 1) * R ^ length s \<le> R * R ^ length s" by (intro mult_right_mono) simp_all
  then show ?case using Cons by (simp add: horner_Cons)
qed simp

lemma digit_group_val:
  "digit_text 10 p \<Longrightarrow> unat v * 10 ^ k + 10 ^ k \<le> 2 ^ 64 \<Longrightarrow>
   \<exists>v'. digit_group k p v = (min k (length p), drop k p, v') \<and>
     unat v' = unat v * 10 ^ min k (length p) + digits_value 10 (take k p)"
proof (induction k arbitrary: p v)
  case (Suc k)
  show ?case
  proof (cases p)
    case (Cons c s)
    then have c: "to_digit c < 10" "digit_text 10 s" using Suc(2) by simp_all
    have "(unat v * 10 + to_digit c + 1) * 10 ^ k \<le> (unat v * 10 + 10) * 10 ^ k" using c(1) by (intro mult_right_mono) simp_all
    also have "\<dots> = unat v * 10 ^ Suc k + 10 ^ Suc k" by (simp add: algebra_simps)
    also note Suc(3)
    finally have le: "(unat v * 10 + to_digit c + 1) * 10 ^ k \<le> 2 ^ 64" .
    have "(unat v * 10 + to_digit c + 1) * 1 \<le> (unat v * 10 + to_digit c + 1) * 10 ^ k" by (intro mult_left_mono) simp_all
    also note le
    finally have "unat v * 10 + to_digit c < 2 ^ 64" by simp
    then have u: "unat (v * 10 + of_nat (to_digit c)) = unat v * 10 + to_digit c"
      using c(1) by (simp add: unat_word_ariths unat_of_nat)
    have "unat (v * 10 + of_nat (to_digit c)) * 10 ^ k + 10 ^ k \<le> 2 ^ 64" unfolding u using le by (simp add: algebra_simps)
    from Suc(1) [OF c(2) this] obtain v' where
      v': "digit_group k s (v * 10 + of_nat (to_digit c)) = (min k (length s), drop k s, v')"
        "unat v' = (unat v * 10 + to_digit c) * 10 ^ min k (length s) + digits_value 10 (take k s)" unfolding u by blast
    then show ?thesis using Cons c(1) by (simp add: horner_Cons min_def algebra_simps)
  qed simp
qed simp

lemma js_pow_dec_val: "i \<le> 19 \<Longrightarrow> uint (js_pow_dec ! i) = 10 ^ i"
proof -
  have "list_all (\<lambda>i. uint (js_pow_dec ! i) = 10 ^ i) [0..<20]" by (simp add: upt_rec js_pow_dec_def)
  then show "i \<le> 19 \<Longrightarrow> uint (js_pow_dec ! i) = 10 ^ i" unfolding list_all_iff by simp
qed

text \<open>One group of digits. The array has room for the number when twice the number is below its range.\<close>

lemma dec_step:
  assumes p: "digit_text 10 p" "p \<noteq> []" and len: "1 \<le> len" "len \<le> length r"
    and room: "2 * ((lval (take len r) + 1) * 10 ^ length p) \<le> LB ^ length r"
  defines "V' \<equiv> lval (take len r) * 10 ^ min 19 (length p) + int (digits_value 10 (take 19 p))"
  shows "\<exists>r' len'. dec_loop r len p = dec_loop r' len' (drop 19 p) \<and> length r' = length r \<and> 1 \<le> len' \<and> len' \<le> length r \<and>
    lval (take len' r') = V'"
proof -
  define i where "i = min 19 (length p)"
  have i: "1 \<le> i" "i \<le> 19" "i \<le> length p" using p(2) by (cases p; simp add: i_def)+
  obtain v where g: "digit_group 19 p 0 = (i, drop 19 p, v)" and v: "unat v = digits_value 10 (take 19 p)"
    using digit_group_val [OF p(1), of 0 19] by (auto simp: i_def)
  have vi: "uint v = int (digits_value 10 (take 19 p))" using v by (metis uint_nat)
  note loop = dec_loop.simps [of r len p, unfolded g Let_def prod.case]
  have dv: "digits_value 10 (take 19 p) < 10 ^ i"
    using digits_value_less [of 10 "take 19 p"] p(1) by (auto simp: i_def digit_text_def min.commute dest: in_set_takeD)
  then have dv': "uint v + 1 \<le> 10 ^ i" using vi by (metis add1_zle_eq of_nat_less_iff of_nat_numeral of_nat_power)
  have small: "V' < LB ^ length r"
  proof -
    have "V' + 1 \<le> (lval (take len r) + 1) * 10 ^ i" using dv' unfolding V'_def i_def [symmetric] vi by (simp add: algebra_simps)
    also have "\<dots> \<le> (lval (take len r) + 1) * 10 ^ length p" using i(3) lval_range(1) [of "take len r"]
      by (intro mult_left_mono power_increasing) simp_all
    finally have "2 * (V' + 1) \<le> 2 * ((lval (take len r) + 1) * 10 ^ length p)" by (intro mult_left_mono) simp_all
    also note room
    finally have "2 * (V' + 1) \<le> LB ^ length r" .
    moreover have "0 \<le> V'" by (simp add: V'_def lval_range(1))
    ultimately show ?thesis by simp
  qed
  show ?thesis
  proof (cases "len = 1 \<and> r ! 0 = 0")
    case True
    then have "take len r = [0]" "take len (r[0 := v]) = [v]" using len by (cases r; auto)+
    then have "lval (take len (r[0 := v])) = V'" by (simp add: V'_def vi)
    moreover have "dec_loop r len p = dec_loop (r[0 := v]) len (drop 19 p)" using True i unfolding loop by auto
    ultimately show ?thesis using len by (intro exI [of _ "r[0 := v]"] exI [of _ len]) simp
  next
    case False
    obtain t h where th: "mp_mul1_js (take len r) (js_pow_dec ! i) v = (t, h)" by fastforce
    have t: "length t = len" "lval t + LB ^ len * uint h = V'"
      using mp_mul1_js_val [OF th] len js_pow_dec_val [OF i(2)] by (auto simp: V'_def i_def [symmetric] vi)
    define r1 where "r1 = store_at r 0 t"
    have r1: "length r1 = length r" "take len r1 = t" using t(1) len by (simp_all add: r1_def store_at_def)
    have "dec_loop r len p = (if h \<noteq> 0 then
        if len \<ge> length r then Inl Out_of_bounds else dec_loop (r1[len := h]) (len + 1) (drop 19 p)
      else dec_loop r1 len (drop 19 p))"
      using i th r1(1) unfolding loop if_not_P [OF False] by (simp add: r1_def)
    moreover have "lval (take (len + 1) (r1[len := h])) = V' \<and> len < length r" if "h \<noteq> 0"
    proof -
      have "0 < h" using that by (simp add: word_neq_0_conv)
      then have "1 \<le> uint h" by (simp add: word_less_def)
      then have "LB ^ len * 1 \<le> LB ^ len * uint h" by (intro mult_left_mono) simp_all
      then have "LB ^ len < LB ^ length r" using t(2) lval_range(1) [of t] small by linarith
      then have l: "len < length r" by (rule power_less_imp_less_exp [rotated]) (simp add: LB_def)
      then have "take (len + 1) (r1[len := h]) = t @ [h]" using r1 by (simp add: take_Suc_conv_app_nth)
      then show ?thesis using l t by (simp add: lval_snoc)
    qed
    moreover have "lval (take len r1) = V'" if "h = 0" using that t r1 by simp
    ultimately show ?thesis using len r1(1)
      by (cases "h = 0") (auto intro!: exI [of _ "if h = 0 then r1 else r1[len := h]"] exI [of _ "if h = 0 then len else len + 1"])
  qed
qed

lemma dec_loop_val:
  "digit_text 10 p \<Longrightarrow> 1 \<le> len \<Longrightarrow> len \<le> length r \<Longrightarrow> 2 * ((lval (take len r) + 1) * 10 ^ length p) \<le> LB ^ length r \<Longrightarrow>
   \<exists>r' len'. dec_loop r len p = Inr (r', len') \<and> length r' = length r \<and> 1 \<le> len' \<and> len' \<le> length r \<and>
     lval (take len' r') = lval (take len r) * 10 ^ length p + int (digits_value 10 p)"
proof (induction p arbitrary: r len rule: length_induct)
  case (1 p)
  show ?case
  proof (cases "p = []")
    case True
    then show ?thesis using 1 by (subst dec_loop.simps) (simp add: numeral_eq_Suc Let_def)
  next
    case False
    define i V where "i = min 19 (length p)" and "V = lval (take len r)"
    define V' where "V' = V * 10 ^ i + int (digits_value 10 (take 19 p))"
    have p: "p = take 19 p @ drop 19 p" "length p = i + length (drop 19 p)" by (simp_all add: i_def)
    obtain r' len' where s: "dec_loop r len p = dec_loop r' len' (drop 19 p)" "length r' = length r" "1 \<le> len'" "len' \<le> length r"
      "lval (take len' r') = V'" using dec_step [OF 1(2) False 1(3,4,5)] by (auto simp: V'_def V_def i_def)
    have d: "digit_text 10 (take 19 p)" "digit_text 10 (drop 19 p)" using 1(2) by (auto simp: digit_text_def dest: in_set_takeD in_set_dropD)
    have "digits_value 10 (take 19 p) < 10 ^ i" using digits_value_less [OF d(1)] by (simp add: i_def min.commute)
    then have "int (digits_value 10 (take 19 p)) + 1 \<le> 10 ^ i" by (metis add1_zle_eq of_nat_less_iff of_nat_numeral of_nat_power)
    then have "(V' + 1) * 10 ^ length (drop 19 p) \<le> ((V + 1) * 10 ^ i) * 10 ^ length (drop 19 p)"
      by (intro mult_right_mono) (simp_all add: V'_def algebra_simps)
    also have "\<dots> = (V + 1) * 10 ^ length p" unfolding p(2) by (simp add: power_add)
    finally have room: "2 * ((lval (take len' r') + 1) * 10 ^ length (drop 19 p)) \<le> LB ^ length r'" using 1(5) s by (simp add: V_def)
    have "length (drop 19 p) < length p" using False by simp
    from 1(1) [rule_format, OF this d(2) s(3) _ room] s(2,4)
    obtain r2 len2 where "dec_loop r' len' (drop 19 p) = Inr (r2, len2)" "length r2 = length r" "1 \<le> len2" "len2 \<le> length r"
      "lval (take len2 r2) = V' * 10 ^ length (drop 19 p) + int (digits_value 10 (drop 19 p))" using s(5) by auto
    moreover have "V' * 10 ^ length (drop 19 p) + int (digits_value 10 (drop 19 p)) = V * 10 ^ length p + int (digits_value 10 p)"
    proof -
      have "digits_value 10 p = digits_value 10 (take 19 p) * 10 ^ length (drop 19 p) + digits_value 10 (drop 19 p)"
        by (subst p(1)) (simp only: map_append horner_append length_map)
      then show ?thesis unfolding V'_def p(2) by (simp add: power_add algebra_simps)
    qed
    ultimately show ?thesis using s(1) by (simp add: V_def)
  qed
qed

text \<open>The array keeps a limb for the sign: when the highest limb in use has its top bit set, another one is free.\<close>

lemma dec_loop_fits:
  assumes "digit_text 10 p" "r \<noteq> []" "2 * 10 ^ length p \<le> LB ^ length r"
  shows "\<exists>r' len. dec_loop (r[0 := 0]) 1 p = Inr (r', len) \<and> length r' = length r \<and> 1 \<le> len \<and> len \<le> length r \<and>
    lval (take len r') = int (digits_value 10 p) \<and> (drop_bit 63 (r' ! (len - 1)) = 0 \<longrightarrow> sval (take len r') = lval (take len r')) \<and>
    (drop_bit 63 (r' ! (len - 1)) \<noteq> 0 \<longrightarrow> len < length r)"
proof -
  have t1: "take 1 (r[0 := 0]) = [0]" using assms(2) by (cases r) auto
  have "2 * ((lval (take 1 (r[0 := 0])) + 1) * 10 ^ length p) \<le> LB ^ length (r[0 := 0])" unfolding t1 using assms(3) by simp
  from dec_loop_val [OF assms(1) _ _ this] assms(2)
  obtain r' len where d: "dec_loop (r[0 := 0]) 1 p = Inr (r', len)" "length r' = length r" "1 \<le> len" "len \<le> length r"
    "lval (take len r') = int (digits_value 10 p)" unfolding t1 by (auto simp: Suc_le_eq)
  define xs where "xs = take len r'"
  have l: "xs \<noteq> []" "length xs = len" using d by (auto simp: xs_def)
  then have la: "last xs = r' ! (len - 1)" using d(3) by (subst last_conv_nth) (simp_all add: xs_def)
  note top = top_half_iff [OF l(1), unfolded l(2) la] and b = limb_top [of "r' ! (len - 1)"]
  have "sval xs = lval xs" if "drop_bit 63 (r' ! (len - 1)) = 0"
    using that top l(2) unfolding b by (simp add: sval_def split: if_splits)
  moreover have "len < length r" if "drop_bit 63 (r' ! (len - 1)) \<noteq> 0"
  proof -
    have "\<not> uint (r' ! (len - 1)) < 2 ^ 63" using that unfolding b by (simp split: if_splits)
    then have "LB ^ len \<le> 2 * int (digits_value 10 p)" using top d(5) by (simp add: xs_def)
    also have "int (digits_value 10 p) < int (10 ^ length p)" using digits_value_less [OF assms(1)] by (simp only: of_nat_less_iff)
    then have "2 * int (digits_value 10 p) < LB ^ length r" using assms(3) unfolding of_nat_power of_nat_numeral by linarith
    finally show ?thesis by (rule power_less_imp_less_exp [rotated]) (simp add: LB_def)
  qed
  ultimately show ?thesis using d by (auto simp: xs_def)
qed

lemma dec_number_val:
  assumes "digit_text 10 p" "r \<noteq> []" "2 * 10 ^ length p \<le> LB ^ length r"
  shows "\<exists>r'. dec_number r p = Inr r' \<and> r' \<noteq> [] \<and> sval r' = int (digits_value 10 p) \<and> length r' \<le> length r"
proof -
  obtain r' len where d: "dec_loop (r[0 := 0]) 1 p = Inr (r', len)" "length r' = length r" "1 \<le> len" "len \<le> length r"
    "lval (take len r') = int (digits_value 10 p)" "drop_bit 63 (r' ! (len - 1)) = 0 \<longrightarrow> sval (take len r') = lval (take len r')"
    "drop_bit 63 (r' ! (len - 1)) \<noteq> 0 \<longrightarrow> len < length r" using dec_loop_fits [OF assms] by blast
  show ?thesis
  proof (cases "drop_bit 63 (r' ! (len - 1)) = 0")
    case True
    then have "dec_number r p = Inr (take len r')" using d(1) by (simp add: dec_number_def)
    then show ?thesis using True d by auto
  next
    case False
    then have "dec_number r p = Inr (take (len + 1) (r'[len := 0]))" using d by (simp add: dec_number_def)
    moreover have "take (len + 1) (r'[len := 0]) = take len r' @ [0]" using False d by (simp add: take_Suc_conv_app_nth)
    ultimately show ?thesis using False d by (simp add: sval_zero_top)
  qed
qed

text \<open>The number of limbs that are allocated for \<open>n\<close> digits leaves the sign bit free.\<close>

lemma pow10_bits: "(10 :: int) ^ n \<le> 2 ^ ((n * 27 + 7) div 8)"
proof -
  have "((10 :: int) ^ n) ^ 8 = (10 ^ 8) ^ n" by (simp only: power_mult [symmetric] mult.commute)
  also have "\<dots> \<le> (2 ^ 27) ^ n" by (intro power_mono) simp_all
  also have "\<dots> = 2 ^ (n * 27)" by (simp only: power_mult [symmetric] mult.commute)
  also have "\<dots> \<le> 2 ^ ((n * 27 + 7) div 8 * 8)" by (intro power_increasing) simp_all
  also have "\<dots> = (2 ^ ((n * 27 + 7) div 8)) ^ 8" by (simp only: power_mult)
  finally show ?thesis by (subst (asm) power_mono_iff) simp_all
qed

lemma limbs_room:
  assumes "L = max 1 (n div 64 + 1)"
  shows "2 * (2 :: int) ^ n \<le> LB ^ L"
proof -
  have "n + 1 \<le> 64 * L" using assms by simp
  from this have "(2 :: int) ^ (n + 1) \<le> 2 ^ (64 * L)" by (intro power_increasing) simp_all
  also have "\<dots> = LB ^ L" by (simp only: LB_def power_mult)
  finally show ?thesis by simp
qed

lemma text_limbs_dec: "2 * 10 ^ n \<le> LB ^ text_limbs n 10"
  using pow10_bits [of n] limbs_room [OF refl, of "(n * 27 + 7) div 8"] by (simp add: text_limbs_def)

lemma bit_lval_or:
  assumes "k < length r"
  shows "bit (lval (r[k := r ! k OR w])) n \<longleftrightarrow> bit (lval r) n \<or> n div 64 = k \<and> bit w (n mod 64)"
  using assms by (auto simp: bit_lval nth_list_update bit_or_iff)

lemma digit_bits:
  fixes B :: nat
  assumes "b \<le> 5" "\<forall>j. bit c j \<longrightarrow> j < b"
  defines "pos \<equiv> B div 64" and "sh \<equiv> B mod 64"
  shows "n div 64 = pos \<and> bit (push_bit sh (c :: js_limb)) (n mod 64) \<or>
      (sh + b > 64 \<and> n div 64 = pos + 1 \<and> bit (drop_bit (64 - sh) c) (n mod 64)) \<longleftrightarrow> B \<le> n \<and> bit c (n - B)"
    (is "?low \<or> ?high \<longleftrightarrow> ?all")
proof
  have B: "B = 64 * pos + sh" "sh < 64" by (simp_all add: pos_def sh_def)
  have n: "n = 64 * (n div 64) + n mod 64" by simp
  show ?all if "?low \<or> ?high"
    using that
  proof
    assume l: ?low
    then have "sh \<le> n mod 64" "bit c (n mod 64 - sh)" by (simp_all add: bit_push_bit_iff)
    moreover have "n - B = n mod 64 - sh" "B \<le> n \<longleftrightarrow> sh \<le> n mod 64" using l n B by linarith+
    ultimately show ?all by simp
  next
    assume h: ?high
    then have "n - B = 64 - sh + n mod 64" "B \<le> n" using n B by linarith+
    then show ?all using h by (simp add: bit_drop_bit_eq)
  qed
  assume a: ?all
  define d where "d = n - B"
  have d: "bit c d" "d < b" using a assms(2) by (simp_all add: d_def)
  have nd: "n = 64 * pos + (sh + d)" using a B d_def by simp
  show "?low \<or> ?high"
  proof (cases "sh + d < 64")
    case True
    then have "n div 64 = pos" "n mod 64 = sh + d" unfolding nd by simp_all
    then show ?thesis using d True by (simp add: bit_push_bit_iff)
  next
    case False
    then have e: "n = 64 * (pos + 1) + (sh + d - 64)" "sh + d - 64 < 64" using nd B(2) d(2) assms(1) by simp_all
    then have "n div 64 = pos + 1" "n mod 64 = sh + d - 64" by (simp_all only: div_mult_self4 mod_mult_self4, simp_all)
    moreover have "64 - sh + (sh + d - 64) = d" "sh + b > 64" using False B(2) d(2) by simp_all
    ultimately show ?thesis using d by (simp add: bit_drop_bit_eq)
  qed
qed

lemma or_digit:
  assumes b: "b \<le> 5" "c < 2 ^ b" and r: "0 \<le> lval r" "lval r < 2 ^ B" "B + b \<le> 64 * length r" "1 \<le> b"
  defines "pos \<equiv> B div 64" and "sh \<equiv> B mod 64"
  defines "r1 \<equiv> r[pos := r ! pos OR push_bit sh (of_nat c)]"
  defines "r2 \<equiv> (if sh + b > 64 then r1[pos + 1 := r1 ! (pos + 1) OR drop_bit (64 - sh) (of_nat c)] else r1)"
  shows "\<not> (pos \<ge> length r \<or> sh + b > 64 \<and> pos + 1 \<ge> length r)"
    and "length r2 = length r \<and> lval r2 = lval r + int c * 2 ^ B"
proof -
  define w where "w = (of_nat c :: js_limb)"
  have "c < 2 ^ 64" using b power_increasing [of b 64 "2 :: nat"] by simp
  then have w: "uint w = int c" by (simp add: w_def uint_nat unat_of_nat_id)
  have bw: "bit w j \<longleftrightarrow> bit (int c) j" for j using bit_uint_iff [of w j] bit_imp_le_length [of w j] by (auto simp: w)
  have "j < b" if "bit w j" for j
  proof (rule ccontr)
    assume "\<not> j < b"
    moreover have "take_bit b (int c) = int c" using b(2) by (intro take_bit_int_eq_self) simp_all
    ultimately have "\<not> bit (int c) j" by (metis bit_take_bit_iff)
    then show False using that bw by simp
  qed
  then have "\<forall>j. bit w j \<longrightarrow> j < b" by simp
  note dig = digit_bits [where B = B, OF b(1) this, folded pos_def sh_def]
  have pos: "pos < length r" using r(3,4) unfolding pos_def by (simp add: less_mult_imp_div_less mult.commute)
  have pos1: "pos + 1 < length r" if "sh + b > 64"
  proof -
    have "B = 64 * pos + sh" by (simp add: pos_def sh_def)
    then show ?thesis using that r(3) by simp
  qed
  show "\<not> (pos \<ge> length r \<or> sh + b > 64 \<and> pos + 1 \<ge> length r)" using pos pos1 by linarith
  have l1: "length r1 = length r" by (simp add: r1_def)
  have bits: "bit (lval r2) n \<longleftrightarrow> bit (lval r) n \<or> (B \<le> n \<and> bit (int c) (n - B))" for n
  proof -
    have "bit (lval r2) n \<longleftrightarrow> bit (lval r1) n \<or> (sh + b > 64 \<and> n div 64 = pos + 1 \<and> bit (drop_bit (64 - sh) w) (n mod 64))"
      using bit_lval_or [of "pos + 1" r1] pos1 l1 by (simp add: r2_def w_def)
    moreover have "bit (lval r1) n \<longleftrightarrow> bit (lval r) n \<or> n div 64 = pos \<and> bit (push_bit sh w) (n mod 64)"
      unfolding r1_def w_def by (rule bit_lval_or [OF pos])
    ultimately show ?thesis using dig [where n = n] bw by blast
  qed
  have t: "take_bit B (lval r) = lval r" using r(1,2) by (intro take_bit_int_eq_self)
  have "lval r2 = concat_bit B (lval r) (int c)"
  proof (rule bit_eqI)
    fix n
    have "bit (lval r) n \<longleftrightarrow> n < B \<and> bit (lval r) n" by (metis t bit_take_bit_iff)
    then show "bit (lval r2) n \<longleftrightarrow> bit (concat_bit B (lval r) (int c)) n" unfolding bits bit_concat_bit_iff by auto
  qed
  then show "length r2 = length r \<and> lval r2 = lval r + int c * 2 ^ B"
    using l1 by (simp add: concat_bit_eq t push_bit_eq_mult r2_def)
qed

lemma bin_loop_val:
  assumes b: "1 \<le> b" "b \<le> 5" "unat radix = 2 ^ b" and p: "digit_text (2 ^ b) p" "n = length p" "n * b \<le> 64 * L"
  shows "k + i = n \<Longrightarrow> length r = L \<Longrightarrow> lval r = int (digits_value (2 ^ b) (drop k p)) \<Longrightarrow>
    \<exists>r'. bin_loop r p radix b n i = Inr r' \<and> length r' = L \<and> lval r' = int (digits_value (2 ^ b) p)"
proof (induction k arbitrary: i r)
  case 0
  then show ?case by (simp add: bin_loop.simps)
next
  case (Suc k)
  define c where "c = to_digit (p ! k)"
  have k: "k < length p" "n - 1 - i = k" "i < n" using Suc(2) p(2) by simp_all
  have d: "drop k p = p ! k # drop (Suc k) p" using k(1) by (rule Cons_nth_drop_Suc [symmetric])
  have c: "c < 2 ^ b" using p(1) k(1) by (simp add: c_def digit_text_def)
  have "digit_text (2 ^ b) (drop (Suc k) p)" using p(1) by (auto simp: digit_text_def dest: in_set_dropD)
  from digits_value_less [OF this] have "digits_value (2 ^ b) (drop (Suc k) p) < (2 ^ b) ^ length (drop (Suc k) p)" .
  also have l: "length (drop (Suc k) p) = i" using Suc(2) p(2) by simp
  also have pw: "((2 :: nat) ^ b) ^ i = 2 ^ (i * b)" by (simp only: power_mult [symmetric] mult.commute)
  finally have "int (digits_value (2 ^ b) (drop (Suc k) p)) < int (2 ^ (i * b))" by (simp only: of_nat_less_iff)
  then have lt: "lval r < 2 ^ (i * b)" using Suc(4) by simp
  have "Suc i * b \<le> n * b" using k(3) by (intro mult_right_mono) simp_all
  then have "i * b + b \<le> 64 * length r" using p(3) Suc(3) by simp
  note od = or_digit [OF b(2) c lval_range(1) lt this b(1)]
  have cr: "c < unat radix" using c b(3) by simp
  have "\<exists>r'. bin_loop r p radix b n i = bin_loop r' p radix b n (i + 1) \<and> length r' = length r \<and> lval r' = lval r + int c * 2 ^ (i * b)"
    using od(2)
    by (subst bin_loop.simps) (simp only: Let_def k(2,3) c_def [symmetric] cr if_not_P [OF od(1)] if_True if_False not_not simp_thms, blast)
  then obtain r' where r': "bin_loop r p radix b n i = bin_loop r' p radix b n (i + 1)" "length r' = L" "lval r' = lval r + int c * 2 ^ (i * b)" using Suc(3) by blast
  have "digits_value (2 ^ b) (drop k p) = c * 2 ^ (i * b) + digits_value (2 ^ b) (drop (Suc k) p)"
    unfolding d pw [symmetric] using l by (simp add: horner_Cons c_def)
  then have "lval r' = int (digits_value (2 ^ b) (drop k p))" using r'(3) Suc(4) by simp
  then show ?case using Suc(1) [of "i + 1" r'] Suc(2) r' by simp
qed

lemma pow2_log2:
  assumes "2 \<le> radix" "radix \<le> 36" "radix AND (radix - 1) = (0 :: u32)"
  shows "\<exists>b. 1 \<le> b \<and> b \<le> 5 \<and> unat radix = 2 ^ b \<and> 32 - clz32 (radix - 1) = b"
proof -
  define b where "b = 31 - clz32 radix"
  have b: "unat radix = 2 ^ b" "1 \<le> b" "b \<le> 5" using Itoa.pow2_radix [OF assms] by (simp_all add: b_def)
  have u: "unat (radix - 1) = 2 ^ b - 1" using b(1) assms(1) by (simp add: unat_sub word_le_nat_alt)
  have "(2 :: nat) ^ b = 2 * 2 ^ (b - 1)" using b(2) by (cases b) simp_all
  then have "bit_len (unat (radix - 1)) = Suc (b - 1)" unfolding u using b(2) by (intro bit_len_eq) simp_all
  then have "32 - clz32 (radix - 1) = b" using b by (simp add: clz32_def)
  then show ?thesis using b by blast
qed

lemma normal_length:
  assumes "big_ok x" "fits L (sval x)" "1 \<le> L"
  shows "length x \<le> L"
proof (rule ccontr)
  assume "\<not> length x \<le> L"
  then have l: "L \<le> length x - 1" "length x \<noteq> 1" using assms(3) by simp_all
  then have "\<not> fits (length x - 1) (sval x)" using assms(1) by (simp add: big_ok_def)
  moreover have "LB ^ L \<le> LB ^ (length x - 1)" using l(1) by (intro power_increasing) (simp_all add: LB_def)
  ultimately show False using assms(2) unfolding fits_def by linarith
qed

lemma digits_value_zeros: "digits_value R (dropWhile (\<lambda>c. c = CHR ''0'') ds) = digits_value R ds"
  by (induction ds) (auto simp: horner_Cons)

lemma digit_text_chars:
  assumes "digit_text R ds" "R \<le> 36"
  shows "CHR 0x00 \<notin> set ds" "at0 ds \<noteq> CHR ''-''"
proof -
  have n: "to_digit (CHR ''-'') = 36" by code_simp
  show "CHR 0x00 \<notin> set ds" using assms unfolding digit_text_def by (metis to_digit_simps(2) not_le)
  show "at0 ds \<noteq> CHR ''-''" using assms n by (cases ds) auto
qed

lemma limbs_digits: "2 \<le> radix \<Longrightarrow> radix \<le> 36 \<Longrightarrow> radix = 10 \<or> radix AND (radix - 1) = 0 \<Longrightarrow> n div 64 + 1 \<le> text_limbs n radix"
proof -
  assume r: "2 \<le> radix" "radix \<le> 36" "radix = 10 \<or> radix AND (radix - 1) = 0"
  define nb where "nb = (if radix = 10 then (n * 27 + 7) div 8 else n * (32 - clz32 (radix - 1)))"
  have "1 \<le> 32 - clz32 (radix - 1)" if "radix \<noteq> 10" using pow2_log2 [OF r(1,2)] r(3) that by auto
  then have "n \<le> nb" unfolding nb_def by (cases "radix = 10") simp_all
  then have "n div 64 \<le> nb div 64" by (rule div_le_mono)
  then show ?thesis by (simp add: text_limbs_def nb_def Let_def)
qed

text \<open>The limbs of an array of the allocated size, after the digits are read.\<close>

lemma digits_limbs:
  assumes radix: "2 \<le> radix" "radix \<le> 36" "radix = 10 \<or> radix AND (radix - 1) = 0" and ds: "digit_text (unat radix) p"
    and r: "length r = text_limbs (length p) radix"
  shows "\<exists>r'. (if radix = 10 then dec_number r p
      else bin_loop (replicate (length r) 0) p radix (32 - clz32 (radix - 1)) (length p) 0) = Inr r' \<and>
    r' \<noteq> [] \<and> sval r' = int (digits_value (unat radix) p) \<and> length r' \<le> text_limbs (length p) radix"
proof (cases "radix = 10")
  case True
  then have "2 * 10 ^ length p \<le> LB ^ length r" using r text_limbs_dec [of "length p"] by simp
  moreover have "r \<noteq> []" using limbs_digits [OF radix, of "length p"] r by auto
  moreover have "digit_text 10 p" using ds True by simp
  ultimately show ?thesis using dec_number_val [of p r] True r by simp
next
  case False
  then obtain b where b: "1 \<le> b" "b \<le> 5" "unat radix = 2 ^ b" "32 - clz32 (radix - 1) = b" using pow2_log2 [OF radix(1,2)] radix(3) by blast
  have L: "length r = max 1 (length p * b div 64 + 1)" using False b(4) r by (simp add: text_limbs_def)
  have "length p * b \<le> 64 * length r" unfolding L by simp
  from bin_loop_val [OF b(1,2,3) ds [unfolded b(3)] refl this, of "length p" 0 "replicate (length r) 0"]
  obtain r' where r': "bin_loop (replicate (length r) 0) p radix b (length p) 0 = Inr r'" "length r' = length r"
    "lval r' = int (digits_value (2 ^ b) p)" by auto
  have "int (digits_value (2 ^ b) p) < int ((2 ^ b) ^ length p)" using digits_value_less [OF ds] b(3) by (simp only: of_nat_less_iff)
  also have "\<dots> = 2 ^ (length p * b)" by (simp only: of_nat_power of_nat_numeral power_mult [symmetric] mult.commute)
  finally have "2 * int (digits_value (2 ^ b) p) < LB ^ length r'" using limbs_room [OF L] unfolding r'(2) by linarith
  then have "sval r' = int (digits_value (2 ^ b) p)" using r'(3) by (simp add: sval_def)
  moreover have "r' \<noteq> []" using r'(2) L by auto
  ultimately show ?thesis using r' False b r by simp
qed

lemma from_string_delivers:
  assumes radix: "2 \<le> radix" "radix \<le> 36" "radix = 10 \<or> radix AND (radix - 1) = 0" and ds: "digit_text (unat radix) ds"
  shows "delivers malloc (text_limbs (length (dropWhile (\<lambda>c. c = CHR ''0'') ds)) radix)
    (js_bigint_from_string malloc (if neg then CHR ''-'' # ds else ds) radix m)
    (if neg then - int (digits_value (unat radix) ds) else int (digits_value (unat radix) ds))"
proof -
  define p str where "p = dropWhile (\<lambda>c. c = CHR ''0'') ds" and "str = (if neg then CHR ''-'' # ds else ds)"
  define N where "N = text_limbs (length p) radix"
  have R: "unat radix \<le> 36" using radix(2) by (simp add: word_le_nat_alt)
  note ch = digit_text_chars [OF ds R]
  have c: "c_str str = str" using ch(1) by (intro c_str_id) (simp add: str_def)
  have s: "(at0 str = CHR ''-'') = neg" "(if neg then drop 1 str else str) = ds" using ch(2) by (auto simp: str_def)
  have p: "digit_text (unat radix) p" "digits_value (unat radix) p = digits_value (unat radix) ds"
    using ds digits_value_zeros unfolding p_def by (auto simp: digit_text_def dest: set_dropWhileD)
  note body = js_bigint_from_string_def [of malloc str radix m, unfolded Let_def c s, folded p_def]
  show ?thesis
  proof (cases "length p > JS_BIGINT_MAX_SIZE * 64")
    case True
    then have "N > JS_BIGINT_MAX_SIZE" using limbs_digits [OF radix, of "length p"] unfolding N_def by linarith
    then have "delivers malloc N (js_bigint_from_string malloc str radix m) v" for v using True unfolding body by (simp add: delivers_def)
    then show ?thesis unfolding N_def p_def str_def .
  next
    case False
    have "delivers malloc N (js_bigint_from_string malloc str radix m) (if neg then - int (digits_value (unat radix) ds) else int (digits_value (unat radix) ds))"
      unfolding body if_not_P [OF False]
    proof (rule delivers_new)
      fix r :: "js_limb list" and m
      assume "length r = text_limbs (length p) radix"
      from digits_limbs [OF radix p(1) this]
      obtain r' where r': "(if radix = 10 then dec_number r p
          else bin_loop (replicate (length r) 0) p radix (32 - clz32 (radix - 1)) (length p) 0) = Inr r'"
        "r' \<noteq> []" "sval r' = int (digits_value (unat radix) ds)" "length r' \<le> N" unfolding p(2) N_def by blast
      have "delivers malloc N (and_then (js_bigint_normalize malloc r' m) (\<lambda>r m. if neg then js_bigint_neg malloc r m else (m, Inr r)))
          (if neg then - int (digits_value (unat radix) ds) else int (digits_value (unat radix) ds))"
      proof (rule delivers_bind [OF delivers_normalize [OF r'(2,3)]])
        fix x :: "js_limb list" and m
        assume x: "big_ok x" "sval x = int (digits_value (unat radix) ds)"
        have "fits (length r') (sval x)" using sval_fits [of r'] r'(3) x(2) by simp
        then have "length x \<le> N" using normal_length [OF x(1)] r'(2,4) by (fastforce simp: Suc_le_eq)
        then show "delivers malloc N (if neg then js_bigint_neg malloc x m else (m, Inr x))
            (if neg then - int (digits_value (unat radix) ds) else int (digits_value (unat radix) ds))"
          using delivers_mono [OF neg_delivers [OF big_ok_Nil [OF x(1)]], of N malloc m] x by simp
      qed
      then show "delivers malloc N (case if radix = 10 then dec_number r p
            else bin_loop (replicate (length r) 0) p radix (32 - clz32 (radix - 1)) (length p) 0
          of Inl e \<Rightarrow> (m, Inl e)
          | Inr r \<Rightarrow> and_then (js_bigint_normalize malloc r m) (\<lambda>r m. if neg then js_bigint_neg malloc r m else (m, Inr r)))
          (if neg then - int (digits_value (unat radix) ds) else int (digits_value (unat radix) ds))" unfolding r'(1) by simp
    qed (simp add: N_def)
    then show ?thesis unfolding N_def p_def str_def .
  qed
qed

subsection \<open>What printing delivers\<close>

definition value_ok :: "big_value \<Rightarrow> bool" where
  "value_ok val = (case val of Short_big_int v \<Rightarrow> True | Big_int r \<Rightarrow> big_ok r)"

definition value_int :: "big_value \<Rightarrow> int" where
  "value_int val = (case val of Short_big_int v \<Rightarrow> sint v | Big_int r \<Rightarrow> sval r)"

definition value_limbs :: "big_value \<Rightarrow> nat" where
  "value_limbs val = (case val of Short_big_int v \<Rightarrow> 1 | Big_int r \<Rightarrow> length r)"

text \<open>
  The contract of an operation that makes a string: the result is \<open>s\<close>, unless one of the allocators failed or more
  than \<^verbatim>\<open>JS_BIGINT_MAX_SIZE\<close> limbs were requested.
\<close>

definition prints :: "'m js_malloc \<Rightarrow> 'm js_bytes \<Rightarrow> nat \<Rightarrow> ('m, string) outcome \<Rightarrow> string \<Rightarrow> bool" where
  "prints malloc new_bytes N r s \<longleftrightarrow>
     (case snd r of
        Inl e \<Rightarrow> e = Out_of_memory \<and> ((\<exists>m n. snd (malloc m n) = None) \<or> (\<exists>m n. \<not> snd (new_bytes m n))) \<or>
          e \<in> {Too_large_to_allocate, Too_large} \<and> N > JS_BIGINT_MAX_SIZE
      | Inr x \<Rightarrow> x = s)"

lemma prints_bytes:
  assumes "\<And>m. prints malloc new_bytes N (f () m) s"
  shows "prints malloc new_bytes N (and_then (bytes new_bytes n m) f) s"
proof (cases "new_bytes m n")
  case (Pair m' b)
  then have "\<not> b \<Longrightarrow> \<exists>m n. \<not> snd (new_bytes m n)" by (metis snd_conv)
  then show ?thesis using Pair assms by (cases b) (auto simp: and_then_def bytes_def prints_def)
qed

lemma prints_string: "prints malloc new_bytes N (js_new_string8_len new_bytes s m) s"
proof -
  have "prints malloc new_bytes N (m, Inr s) s" for m by (simp add: prints_def)
  then show ?thesis by (auto simp: js_new_string8_len_def intro!: prints_bytes)
qed

lemma prints_bind:
  assumes "delivers malloc N r v" "\<And>x m. big_ok x \<Longrightarrow> sval x = v \<Longrightarrow> prints malloc new_bytes N (f x m) s"
  shows "prints malloc new_bytes N (and_then r f) s"
  using assms by (cases r; cases "snd r") (auto simp: and_then_def delivers_def prints_def)

lemma to_string_prints:
  assumes "value_ok val" and radix: "2 \<le> radix" "radix \<le> 36"
  shows "prints malloc new_bytes (value_limbs val) (js_bigint_to_string1 malloc new_bytes val radix m) (show_radix (unat radix) (value_int val))"
proof (cases val)
  case (Short_big_int v)
  have "i64toa_radix v radix = show_radix (unat radix) (sint v)"
    using unat_signed [of v] by (auto simp: i64toa_radix_def u64toa_radix_val [OF radix] show_radix_def)
  then show ?thesis using Short_big_int prints_string by (simp add: js_bigint_to_string1_def value_int_def)
next
  case (Big_int r)
  then have r: "big_ok r" "r \<noteq> []" using assms(1) big_ok_Nil by (auto simp: value_ok_def)
  have neg: "js_bigint_sign r \<noteq> 0 \<longleftrightarrow> sval r < 0" using sign_val [OF r(2)] by simp
  show ?thesis
  proof (cases "length r = 1 \<and> r ! 0 = 0")
    case True
    then have "r = [0]" by (cases r) auto
    moreover have "show_radix (unat radix) 0 = ''0''"
    proof -
      have "0 < unat radix" using radix(1) by (simp add: word_le_nat_alt)
      then have "radix_digits (unat radix) 0 = [digit_char 0]" by (subst radix_digits.simps) simp
      moreover have "digit_char 0 = CHR ''0''" by code_simp
      ultimately show ?thesis by (simp add: show_radix_def)
    qed
    ultimately show ?thesis using Big_int prints_string by (simp add: js_bigint_to_string1_def value_int_def)
  next
    case False
    then have nz: "sval r \<noteq> 0" unfolding zero_iff [OF r(1)] .
    define N where "N = nat \<bar>sval r\<bar>"
    have N: "\<bar>sval r\<bar> = int N" "0 < N" using nz by (simp_all add: N_def)
    have shown: "show_radix (unat radix) (sval r) = (if sval r < 0 then CHR ''-'' # radix_digits (unat radix) N else radix_digits (unat radix) N)"
      by (simp add: show_radix_def N_def)
    have new: "delivers malloc (length r) (if sval r < 0 then js_bigint_neg malloc r m
        else if \<not> radix AND (radix - 1) = 0 then and_then (js_bigint_new malloc (length r) m) (\<lambda>tmp m. (m, Inr (store_at tmp 0 r)))
        else (m, Inr r)) \<bar>sval r\<bar>"
      using neg_delivers [OF r(2), of malloc m] r by (auto intro!: delivers_new simp: store_at_all)
    have "prints malloc new_bytes (length r) (js_bigint_to_string1 malloc new_bytes (Big_int r) radix m) (show_radix (unat radix) (sval r))"
      unfolding js_bigint_to_string1_def big_value.case if_not_P [OF False] Let_def neg
    proof (rule prints_bind [OF new], rule prints_bytes)
      fix x :: "js_limb list" and m
      assume "big_ok x" "sval x = \<bar>sval r\<bar>"
      note t = limbs_text [OF this(1) this(2) [unfolded N(1)] N(2) radix]
      show "prints malloc new_bytes (length r) (case if \<not> radix AND (radix - 1) = 0 then text_loop x (length x) radix []
            else Some (bin_text x (31 - clz32 radix) radix 0 (text_digits x radix) [])
          of None \<Rightarrow> (m, Inl No_end)
          | Some q \<Rightarrow> if length q > text_digits x radix then (m, Inl Out_of_bounds)
              else js_new_string8_len new_bytes (if sval r < 0 then CHR ''-'' # q else q) m) (show_radix (unat radix) (sval r))"
        unfolding t(1) shown option.case if_not_P [OF t(2) [unfolded not_less [symmetric]]] by (rule prints_string)
    qed
    then show ?thesis using Big_int by (simp add: value_int_def value_limbs_def)
  qed
qed

lemma radix_digits_text:
  assumes "2 \<le> R" "R \<le> 36"
  shows "digit_text R (radix_digits R n)" "digits_value R (radix_digits R n) = n"
proof -
  show "digit_text R (radix_digits R n)"
    using set_radix_digits [OF assms(1), of n] assms(2) by (fastforce simp: digit_text_def to_digit_char)
  show "digits_value R (radix_digits R n) = n"
  proof (induction n rule: less_induct)
    case (less n)
    have "n mod R < R" using assms by simp
    then have "n mod R < 36" using assms by linarith
    then show ?case using less [of "n div R"] radix_digits_step [OF assms(1), of n] assms
      by (auto simp: to_digit_char horner_def)
  qed
qed

text \<open>How many limbs reading the printed text back needs.\<close>

definition text_size :: "u32 \<Rightarrow> int \<Rightarrow> nat" where
  "text_size radix v = text_limbs (length (dropWhile (\<lambda>c. c = CHR ''0'') (radix_digits (unat radix) (nat \<bar>v\<bar>)))) radix"

lemma read_shown:
  assumes "2 \<le> radix" "radix \<le> 36" "radix = 10 \<or> radix AND (radix - 1) = 0"
  shows "delivers malloc (text_size radix v) (js_bigint_from_string malloc (show_radix (unat radix) v) radix m) v"
proof -
  have R: "2 \<le> unat radix" "unat radix \<le> 36" using assms(1,2) by (simp_all add: word_le_nat_alt)
  note d = radix_digits_text [OF R, of "nat \<bar>v\<bar>"]
  have "show_radix (unat radix) v = (if v < 0 then CHR ''-'' # radix_digits (unat radix) (nat \<bar>v\<bar>) else radix_digits (unat radix) (nat \<bar>v\<bar>))"
    by (simp add: show_radix_def)
  moreover have "(if v < 0 then - int (nat \<bar>v\<bar>) else int (nat \<bar>v\<bar>)) = v" by simp
  ultimately show ?thesis using from_string_delivers [OF assms d(1), of malloc "v < 0" m] unfolding d(2) by (simp add: text_size_def)
qed

subsection \<open>Properties\<close>

definition full_bytes :: "unit js_bytes" where
  "full_bytes m n = (m, True)"

text \<open>
  C27. \<^verbatim>\<open>js_bigint_to_string1\<close> prints the digits of the number in every radix from 2 to 36, with a minus sign for a
  negative number and no leading zeros: the division loop for general radixes ends, the bit loop for powers of two
  takes the right bits, also of digits that cross limbs. It fails only when memory runs out or, for numbers above the
  maximal size, with a range error.
\<close>

theorem js_bigint_to_string_exact:
  assumes "value_ok val" "2 \<le> radix" "radix \<le> 36"
  shows "prints malloc new_bytes (value_limbs val) (js_bigint_to_string1 malloc new_bytes val radix m) (show_radix (unat radix) (value_int val))"
  using assms by (rule to_string_prints)

theorem js_bigint_to_string_exact_witness:
  "prints full_malloc full_bytes (value_limbs (Big_int [0, 1])) (js_bigint_to_string1 full_malloc full_bytes (Big_int [0, 1]) 7 ()) (show_radix 7 (2 ^ 64))"
proof -
  have "sval [0, 1] = 2 ^ 64" "big_ok [0, 1 :: js_limb]" by (simp_all add: sval_def big_ok_def fits_def LB_def)
  then show ?thesis using js_bigint_to_string_exact [of "Big_int [0, 1]" 7 full_malloc full_bytes "()"]
    by (simp add: value_ok_def value_int_def)
qed

text \<open>
  C28. \<^verbatim>\<open>js_bigint_from_string\<close> reads a text of digits, with an optional minus sign and any number of leading zeros, in
  radix 10 or a power of two, as the number it denotes, in normal form. The range error comes only when the text
  needs more than 16384 limbs.
\<close>

theorem js_bigint_from_string_exact:
  assumes "2 \<le> radix" "radix \<le> 36" "radix = 10 \<or> radix AND (radix - 1) = 0" "digit_text (unat radix) ds"
  shows "delivers malloc (text_limbs (length (dropWhile (\<lambda>c. c = CHR ''0'') ds)) radix)
    (js_bigint_from_string malloc (if neg then CHR ''-'' # ds else ds) radix m)
    (if neg then - int (digits_value (unat radix) ds) else int (digits_value (unat radix) ds))"
  using assms by (rule from_string_delivers)

theorem js_bigint_from_string_exact_witness:
  "delivers full_malloc (text_limbs (length ''ff'') 16) (js_bigint_from_string full_malloc ''-0ff'' 16 ()) (- 255)"
proof -
  have "digit_text 16 ''0ff''" "digits_value 16 ''0ff'' = 255" by code_simp+
  then show ?thesis using js_bigint_from_string_exact [of 16 "''0ff''" full_malloc True "()"] by simp
qed

text \<open>
  C29. Printing a BigInt and reading the text back gives the number, in the same limbs: in radix 10 and the powers of
  two, for every value and whatever the allocators do, as long as both operations succeed.
\<close>

theorem js_bigint_text_roundtrip:
  assumes "value_ok val" "2 \<le> radix" "radix \<le> 36" "radix = 10 \<or> radix AND (radix - 1) = 0"
    and "snd (js_bigint_to_string1 malloc new_bytes val radix m) = Inr s"
    and "snd (js_bigint_from_string malloc s radix m') = Inr r"
  shows "big_ok r \<and> sval r = value_int val \<and> (\<forall>r'. val = Big_int r' \<longrightarrow> r = r')"
proof -
  have "s = show_radix (unat radix) (value_int val)"
    using to_string_prints [OF assms(1,2,3), of malloc new_bytes m] assms(5) by (simp add: prints_def)
  then have r: "big_ok r" "sval r = value_int val"
    using read_shown [OF assms(2,3,4), of malloc "value_int val" m'] assms(6) by (simp_all add: delivers_def)
  then have "\<forall>r'. val = Big_int r' \<longrightarrow> r = r'" using assms(1) by (auto simp: value_ok_def value_int_def intro: big_ok_unique)
  then show ?thesis using r by simp
qed

lemma full_prints: "prints full_malloc full_bytes N r s \<Longrightarrow> N \<le> JS_BIGINT_MAX_SIZE \<Longrightarrow> snd r = Inr s"
  by (auto simp: prints_def full_malloc_def full_bytes_def split: sum.splits)

lemma full_delivers: "delivers full_malloc N r v \<Longrightarrow> N \<le> JS_BIGINT_MAX_SIZE \<Longrightarrow> \<exists>x. snd r = Inr x"
  by (auto simp: delivers_def full_malloc_def split: sum.splits)

theorem js_bigint_text_roundtrip_witness:
  "\<exists>s r. snd (js_bigint_to_string1 full_malloc full_bytes (Big_int [0, 1]) 16 ()) = Inr s \<and>
     snd (js_bigint_from_string full_malloc s 16 ()) = Inr r \<and> r = [0, 1]"
proof -
  have ok: "sval [0, 1] = 2 ^ 64" "value_ok (Big_int [0, 1])" by (simp_all add: sval_def value_ok_def big_ok_def fits_def LB_def)
  have "text_size 16 (2 ^ 64) \<le> JS_BIGINT_MAX_SIZE"
    by (simp add: text_size_def radix_digits_step text_limbs_def clz32_def bit_len_num)
  then obtain r where r: "snd (js_bigint_from_string full_malloc (show_radix 16 (2 ^ 64)) 16 ()) = Inr r"
    using full_delivers [OF read_shown [of 16 full_malloc "2 ^ 64" "()"]] by auto
  have s: "snd (js_bigint_to_string1 full_malloc full_bytes (Big_int [0, 1]) 16 ()) = Inr (show_radix 16 (2 ^ 64))"
    using full_prints [OF to_string_prints [OF ok(2), of 16 full_malloc full_bytes "()"]] ok(1) by (simp add: value_int_def value_limbs_def)
  from js_bigint_text_roundtrip [OF ok(2) _ _ _ s r] have "r = [0, 1]" by simp
  then show ?thesis using r s by blast
qed

text \<open>
  C30. The buffers for BigInt text are large enough. What the loops of \<^verbatim>\<open>js_bigint_to_string1\<close> write for a positive
  number, in any radix from 2 to 36, has at most the computed number of digits. And in each radix that
  \<^verbatim>\<open>js_bigint_from_string\<close> supports (10 and the powers of two), reading \<open>n\<close> digits into an array with the computed number
  of limbs writes no limb outside it, including the parts of digits that span two limbs and the extra limb for the sign.
\<close>

theorem js_bigint_text_buffers:
  assumes "2 \<le> radix" "radix \<le> 36" "big_ok r" "0 < sval r"
    and "2 \<le> radix2" "radix2 \<le> 36" "radix2 = 10 \<or> radix2 AND (radix2 - 1) = 0" "digit_text (unat radix2) p"
      "length tab = text_limbs (length p) radix2"
  shows "(\<exists>q. (if radix AND (radix - 1) \<noteq> 0 then text_loop r (length r) radix []
        else Some (bin_text r (31 - clz32 radix) radix 0 (text_digits r radix) [])) = Some q \<and> length q \<le> text_digits r radix) \<and>
    (\<exists>r'. (if radix2 = 10 then dec_number tab p
        else bin_loop (replicate (length tab) 0) p radix2 (32 - clz32 (radix2 - 1)) (length p) 0) = Inr r' \<and> length r' \<le> length tab)"
proof
  have "sval r = int (nat (sval r))" "0 < nat (sval r)" using assms(4) by simp_all
  from limbs_text [OF assms(3) this assms(1,2)]
  show "\<exists>q. (if radix AND (radix - 1) \<noteq> 0 then text_loop r (length r) radix []
      else Some (bin_text r (31 - clz32 radix) radix 0 (text_digits r radix) [])) = Some q \<and> length q \<le> text_digits r radix" by blast
  show "\<exists>r'. (if radix2 = 10 then dec_number tab p
      else bin_loop (replicate (length tab) 0) p radix2 (32 - clz32 (radix2 - 1)) (length p) 0) = Inr r' \<and> length r' \<le> length tab"
    using digits_limbs [OF assms(5-9)] assms(9) by auto
qed

text \<open>The number 2 to the 64 in radix 10, and seventeen hexadecimal digits, which take two limbs.\<close>

theorem js_bigint_text_buffers_witness:
  "\<exists>q r'. text_loop [0, 1] (length [0 :: js_limb, 1]) 10 [] = Some q \<and> length q \<le> 22 \<and>
     bin_loop [0, 0] ''fedcba98765432101'' 16 4 17 0 = Inr r' \<and> length r' \<le> 2"
proof -
  have ok: "big_ok [0, 1 :: js_limb]" "0 < sval [0, 1]" by (simp_all add: sval_def big_ok_def fits_def LB_def)
  have d: "digit_text (unat (16 :: u32)) ''fedcba98765432101''" by code_simp
  have c: "32 - clz32 (16 - 1) = 4" by (simp add: clz32_def bit_len_num)
  have l: "length [0, 0 :: js_limb] = text_limbs (length ''fedcba98765432101'') 16" using c by (simp add: text_limbs_def)
  have t: "text_digits [0, 1] 10 = 22" by (simp add: text_digits_def js_limb_safe_clz_def clz64_def clz32_def bit_len_num)
  have z: "replicate (length [0, 0 :: js_limb]) 0 = [0, 0 :: js_limb]" "length ''fedcba98765432101'' = 17"
    "length [0, 0 :: js_limb] = 2" by simp_all
  from js_bigint_text_buffers [OF _ _ ok _ _ _ d l, of 10, unfolded c z(1), unfolded z(2,3)] t show ?thesis by auto
qed

end
