(* ===== verification/Spec2Isabelle.thy ===== *)
theory Spec2Isabelle
  imports Host_Calls Cutils_Strings Dynbuf Utf8 Exchange Rqsort Number_Roundtrip Canonical_Range Regexp_Safe Bigint_Text
begin

text \<open>
  Verification of the C code of Mirage Lambda, a function-as-a-service runtime that runs JavaScript in
  the QuickJS engine, as a Unix process or a Solo5 unikernel.

  \<^bold>\<open>The program.\<close> The OCaml side creates runtimes, gives them modules and limits, evaluates source text,
  pumps the job queue and takes host requests that the script has made; it answers them by resolving the
  promise with the id of the request. The C side is \<^verbatim>\<open>src/qjs/c\<close> (\<^verbatim>\<open>qjs_stubs.c\<close>, the primitives and the
  callbacks of the engine; \<^verbatim>\<open>qjs_host_queue.c\<close>, the bounded queue of requests; \<^verbatim>\<open>qjs_allocator.c\<close>, the
  accounting allocator; \<^verbatim>\<open>qjs_port_unix.c\<close> and \<^verbatim>\<open>qjs_port_solo5.c\<close>, clocks and random numbers). The
  engine is compiled from \<^verbatim>\<open>src/qjs/lib\<close>; its support libraries modelled here are \<^verbatim>\<open>_qjs_cutils.c\<close>
  (strings, dynamic buffers, UTF-8, sorting), \<^verbatim>\<open>_qjs_dtoa.c\<close> (numbers to text and back), the character
  part of \<^verbatim>\<open>_qjs_libunicode.c\<close> and the matcher of \<^verbatim>\<open>_qjs_libregexp.c\<close>; of the engine itself
  (\<^verbatim>\<open>_qjs_quickjs.c\<close>) the BigInt numbers.

  \<^bold>\<open>Theories.\<close> \<open>Prelude\<close> has the shared lemmas on C strings, digits, ring buffers and words, \<open>C_Heap\<close> the
  heap of the bindings (an allocation oracle, live blocks, a flag for undefined behaviour).

  \<^item> \<open>Host_Queue\<close>, \<open>Allocator\<close>, \<open>Port\<close>: one theory per file of \<^verbatim>\<open>src/qjs/c\<close>. The queue is a record with
  its slots, head and count, related to a list by \<open>q_list\<close>; its locale states the laws of a bounded
  queue. System calls of the ports are parameters.

  \<^item> \<open>Bindings\<close>: the state (\<open>world\<close>: handle table, promise table, runtimes, heap, engine) and every
  function of \<^verbatim>\<open>qjs_stubs.c\<close>. The engine behind \<^verbatim>\<open>quickjs.h\<close> is the record \<open>js_api\<close> of its functions; what
  a script may do during a call is any sequence of the callbacks of the host. Reading freed memory is a value
  of the model: the lookup of a handle whose table entry points to a freed structure is \<open>Dangling\<close>, which is
  \<open>Undefined\<close> in every primitive. Three fields have no counterpart in the code and only record lifetimes: \<open>hooks\<close>
  (the opaque pointers that engine runtimes hold until \<^verbatim>\<open>JS_FreeRuntime\<close>, with which they may call back),
  \<open>ps_owner\<close> of a promise slot (the runtime whose values it holds) and \<open>ub\<close> (a callback read freed memory).
  \<open>Handles\<close> treats handles and generations, \<open>Safety\<close> memory safety, leaks and the death of destroyed handles
  for arbitrary sequences of primitive calls, \<open>Host_Calls\<close> the functional behaviour of the primitives. The
  safety theorem is exact: the only undefined run is one that resolves, through a live handle, a promise left
  in the table by a destroyed runtime.

  \<^item> \<open>Cutils_Strings\<close>, \<open>Dynbuf\<close>, \<open>Utf8\<close>, \<open>Exchange\<close>, \<open>Rqsort\<close>: \<^verbatim>\<open>_qjs_cutils.c\<close>. The dynamic buffer is
  verified against the contract of a reallocation function (a locale, interpreted on the C heap), a write
  outside its block is the result \<open>None\<close>, and the theorem on sequences of writes excludes it; the sort
  is verified for every consistent comparison (the locale \<open>comparator\<close>, interpreted on the comparison of
  character intervals), and its loop is total within the stack of 50 segments.

  \<^item> \<open>Limbs\<close>, \<open>Itoa\<close>, \<open>Scaling\<close>, \<open>Radix_Log\<close>, \<open>Dtoa\<close>, \<open>Digit_Search\<close>, \<open>Dtoa_Correct\<close>, \<open>Atod\<close>, \<open>Atod_Correct\<close>,
  \<open>Number_Roundtrip\<close>: \<^verbatim>\<open>_qjs_dtoa.c\<close>. Numbers are lists of 32-bit limbs; every routine is related to the
  natural number it computes, scaling to real numbers rounded once, printing and reading to the value of
  the text. Free-format text is read back as the same 64 bits in every radix. The retry loops of the
  printer are partial functions, and the termination theorem shows that they return. \<open>text_number\<close> is the
  number a text denotes, \<open>read_number\<close> what is left of it when digits beyond the limit of the code's table
  are replaced by zeros; the theorem on the reader relates its result to both.

  \<^item> \<open>Unicode_Tables\<close> has the tables of \<^verbatim>\<open>libunicode-table.h\<close> that are used, \<open>Compressed_Table\<close> the lookup in
  run-length tables, \<open>Case_Conv\<close> case conversion and folding, \<open>Char_Range\<close> sets of characters as sorted
  points, \<open>Canonical_Range\<close> the ranges of the case table and the canonicalization of a range, which uses
  all of these and the sort.

  \<^item> \<open>Regexp_Code\<close> has the byte code of regular expressions and the effect of every instruction, as macros of
  the interpreter and a way to go on; \<open>Regexp_Exec\<close> the interpreter: the stack of saved states with undo
  records between them, backtracking, lookaheads, \<^verbatim>\<open>lre_exec\<close>. Its loop may not end and has fuel; the
  theorems hold for every fuel. \<open>Regexp_Spec\<close> specifies backtracking with full copies of the captures and
  shows, by a step simulation (the locale \<open>follows\<close>), that the interpreter gives the same result unless
  memory runs out. \<open>Regexp_Safe\<close> has a checker for byte code with certificates and shows that checked code
  runs without undefined behaviour. The callbacks \<^verbatim>\<open>lre_realloc\<close> and \<^verbatim>\<open>lre_check_timeout\<close> are parameters.

  \<^item> \<open>Bigint_Limbs\<close>, \<open>Bigint\<close>, \<open>Bigint_Div\<close>, \<open>Bigint_Float\<close>, \<open>Bigint_Text\<close>: the BigInt numbers of \<^verbatim>\<open>_qjs_quickjs.c\<close>, two's
  complement lists of 64-bit limbs. \<open>Bigint_Limbs\<close> relates every limb routine, up to long division, to the
  number it computes. The allocator is a parameter that may fail and returns arbitrary contents; \<open>delivers\<close>
  is the contract of an operation: the exact integer in minimal length, or a failure with its reason. The
  locales \<open>exact_numbers\<close> and \<open>exact_ring\<close> state what a client relies on. The correction loop of the
  division is a partial function, and so is the loop that prints a number by repeated division; both are
  shown to return. A write outside the array or the text buffer of a conversion is the error
  \<open>Out_of_bounds\<close>, which no conversion gives. Text is printed in every radix and read back as the same limbs.

  \<^bold>\<open>Limits of the model.\<close> The shift of a generation into the sign bit of an \<^verbatim>\<open>int\<close> in \<^verbatim>\<open>table_alloc\<close>, undefined in
  C, wraps around (\<open>mk_handle\<close>), as compilers do it. In \<open>Scaling\<close> the exponents are unbounded integers and the
  limbs of a number a list; their callers keep the exponents small. \<open>round_to_d\<close> gives 0 for a left shift by
  64 or more bits, where C gives none; its callers bound the precision. The sort works on a list of elements with a pure
  comparison, and an exchange outside the array changes nothing. The growth of a character range
  (\<open>cr_realloc\<close>) is computed without the bound of an \<^verbatim>\<open>int\<close>, which matters beyond $2^{29}$ points. Values of
  the engine have a lifetime only in promise slots; that a value of one live runtime is passed to another is
  not an error of the model.

  \<^bold>\<open>Not modelled.\<close> The rest of the engine (\<^verbatim>\<open>_qjs_quickjs.c\<close>: parser, byte code, objects, garbage collector)
  and the compiler of regular expressions (in \<^verbatim>\<open>_qjs_libregexp.c\<close>) are not modelled; the bindings use the
  former through an interface. Of \<^verbatim>\<open>_qjs_libunicode.c\<close> normalization and the named properties, scripts and
  categories are left out. The OCaml code, the command line, the tests and the build are not C. Printing
  functions for debugging (\<^verbatim>\<open>cr_dump\<close>) are left out.
\<close>

end
